(* ===== verification/Wotex_Prelude.thy ===== *)
theory Wotex_Prelude
  imports Main "HOL-Library.Char_ord" "HOL-Library.List_Lexorder" "HOL-Library.Product_Lexorder"
    "HOL-Library.Sublist" "HOL-Library.Word"
begin

text \<open>
  Shared vocabulary of the development: C++ unsigned 64-bit arithmetic on \<open>nat\<close> with the
  wrap-around written out, \<open>std::map\<close> as a sorted association list, byte strings, lower-case
  hexadecimal tokens, decimal text, and the lemmas the components use on them.

  A \<open>std::uint64_t\<close> or a \<open>std::size_t\<close> is a \<open>nat\<close>; where the source adds or subtracts on it
  and the result could leave the range, the model uses \<open>add64\<close> and \<open>sub64\<close>, which reduce modulo
  \<open>2 ^ 64\<close>.  Component invariants then show that no reduction takes place.
\<close>

named_theorems u64 \<open>rewriting of 64-bit arithmetic inside its range\<close>
named_theorems omap \<open>lookup after an update of an ordered map\<close>

section \<open>Unsigned 64-bit arithmetic\<close>

type_synonym u64 = nat
type_synonym bytes = string

definition u64_max :: nat where
  "u64_max = 18446744073709551615"

definition add64 :: "u64 \<Rightarrow> u64 \<Rightarrow> u64" where
  "add64 a b = (a + b) mod (u64_max + 1)"

definition sub64 :: "u64 \<Rightarrow> u64 \<Rightarrow> u64" where
  "sub64 a b = (a + (u64_max + 1) - b) mod (u64_max + 1)"

text \<open>Signed 64-bit times are integers; the code guards the sums that could leave this range.\<close>

definition i64_max :: int where
  "i64_max = 9223372036854775807"

definition i64 :: "int \<Rightarrow> bool" where
  "i64 t \<longleftrightarrow> - i64_max - 1 \<le> t \<and> t \<le> i64_max"

lemma u64_max_eq: "u64_max + 1 = 2 ^ 64"
  by (simp add: u64_max_def)

lemma add64_exact [u64]: "a + b \<le> u64_max \<Longrightarrow> add64 a b = a + b"
  by (simp add: add64_def)

lemma sub64_exact [u64]: "b \<le> a \<Longrightarrow> a \<le> u64_max \<Longrightarrow> sub64 a b = a - b"
proof -
  assume "b \<le> a" and "a \<le> u64_max"
  then have "a + (u64_max + 1) - b = (a - b) + (u64_max + 1)" and "a - b < u64_max + 1"
    by auto
  then show ?thesis unfolding sub64_def by (metis mod_add_self2 mod_less)
qed

lemma sub64_zero_borrow: "0 < b \<Longrightarrow> b \<le> u64_max \<Longrightarrow> sub64 0 b = u64_max + 1 - b"
  by (simp add: sub64_def)

section \<open>Ordered maps\<close>

text \<open>
  \<open>std::map\<close> keeps its entries in key order, and the source iterates it in that order.  The model
  is an association list sorted by key; \<open>find\<close> is \<open>map_of\<close>, \<open>omap_put\<close> is assignment (and
  \<open>emplace\<close> where the key is known to be absent), \<open>omap_del\<close> is \<open>erase\<close>.
\<close>

fun omap_put :: "'k::linorder \<Rightarrow> 'v \<Rightarrow> ('k \<times> 'v) list \<Rightarrow> ('k \<times> 'v) list" where
  "omap_put k v [] = [(k, v)]"
| "omap_put k v ((a, b) # m) =
     (if k < a then (k, v) # (a, b) # m
      else if k = a then (k, v) # m
      else (a, b) # omap_put k v m)"

definition omap_del :: "'k \<Rightarrow> ('k \<times> 'v) list \<Rightarrow> ('k \<times> 'v) list" where
  "omap_del k m = filter (\<lambda>p. fst p \<noteq> k) m"

definition omap_has :: "'k \<Rightarrow> ('k \<times> 'v) list \<Rightarrow> bool" where
  "omap_has k m = (map_of m k \<noteq> None)"

definition omap_ok :: "('k::linorder \<times> 'v) list \<Rightarrow> bool" where
  "omap_ok m \<longleftrightarrow> sorted_wrt (<) (map fst m)"

lemma omap_ok_Nil [simp, intro]: "omap_ok []"
  by (simp add: omap_ok_def)

lemma omap_ok_Cons: "omap_ok (p # m) \<longleftrightarrow> (\<forall>q \<in> set m. fst p < fst q) \<and> omap_ok m"
  by (auto simp: omap_ok_def)

lemma omap_ok_distinct: "omap_ok m \<Longrightarrow> distinct (map fst m)"
  by (simp add: omap_ok_def strict_sorted_iff)

lemma omap_del_Nil [simp]: "omap_del k [] = []"
  by (simp add: omap_del_def)

lemma omap_del_Cons [simp]:
  "omap_del k (p # m) = (if fst p = k then omap_del k m else p # omap_del k m)"
  by (simp add: omap_del_def)

lemma set_omap_put_fst: "fst ` set (omap_put k v m) = insert k (fst ` set m)"
proof (induction m)
  case (Cons p m)
  then show ?case by (cases p) (simp add: insert_commute)
qed simp

lemma set_omap_put_subset: "set (omap_put k v m) \<subseteq> insert (k, v) (set m)"
proof (induction m)
  case (Cons p m)
  then show ?case by (cases p) (auto split: if_splits)
qed simp

lemma omap_ok_put [simp, intro]: "omap_ok m \<Longrightarrow> omap_ok (omap_put k v m)"
proof (induction m)
  case Nil
  then show ?case by (simp add: omap_ok_Cons)
next
  case (Cons p m)
  obtain a b where p: "p = (a, b)" by (cases p)
  from Cons.prems have lt: "\<And>q. q \<in> set m \<Longrightarrow> a < fst q" and ok: "omap_ok m"
    by (auto simp: omap_ok_Cons p)
  consider "k < a" | "k = a" | "a < k" by (metis linorder_less_linear)
  then show ?case
  proof cases
    case 1
    then have "\<And>q. q \<in> set m \<Longrightarrow> k < fst q" using lt order_less_trans by blast
    with 1 lt ok show ?thesis by (auto simp: p omap_ok_Cons)
  next
    case 2
    with lt ok show ?thesis by (auto simp: p omap_ok_Cons)
  next
    case 3
    have "\<And>q. q \<in> set (omap_put k v m) \<Longrightarrow> a < fst q"
    proof -
      fix q assume "q \<in> set (omap_put k v m)"
      then have "fst q \<in> insert k (fst ` set m)"
        using set_omap_put_fst [of k v m] by (metis image_eqI)
      with 3 lt show "a < fst q" by auto
    qed
    with 3 Cons.IH [OF ok] show ?thesis
      by (auto simp: p omap_ok_Cons)
  qed
qed

lemma map_of_omap_put [omap, simp]: "map_of (omap_put k v m) = (map_of m)(k \<mapsto> v)"
proof (induction m)
  case Nil
  then show ?case by (simp add: fun_eq_iff)
next
  case (Cons p m)
  then show ?case by (cases p) (auto simp: fun_eq_iff)
qed

lemma omap_ok_del [simp, intro]: "omap_ok m \<Longrightarrow> omap_ok (omap_del k m)"
  by (induction m) (auto simp: omap_ok_Cons omap_del_def)

lemma map_of_omap_del [omap, simp]: "map_of (omap_del k m) = (map_of m)(k := None)"
  by (induction m) (auto simp: fun_eq_iff)

lemma omap_has_put [omap, simp]: "omap_has k (omap_put a v m) \<longleftrightarrow> k = a \<or> omap_has k m"
  by (simp add: omap_has_def)

lemma omap_has_del [omap, simp]: "omap_has k (omap_del a m) \<longleftrightarrow> k \<noteq> a \<and> omap_has k m"
  by (simp add: omap_has_def)

lemma omap_has_iff: "omap_has k m \<longleftrightarrow> k \<in> fst ` set m"
  by (simp add: omap_has_def map_of_eq_None_iff)

lemma length_omap_put:
  "omap_ok m \<Longrightarrow> length (omap_put k v m) = (if omap_has k m then length m else Suc (length m))"
proof (induction m)
  case Nil
  then show ?case by (simp add: omap_has_def)
next
  case (Cons p m)
  obtain a b where p: "p = (a, b)" by (cases p)
  from Cons.prems have lt: "\<And>q. q \<in> set m \<Longrightarrow> a < fst q" and ok: "omap_ok m"
    by (auto simp: omap_ok_Cons p)
  have "k < a \<Longrightarrow> \<not> omap_has k m"
    using lt by (auto simp: omap_has_iff dest: order_less_trans)
  then show ?case
    using Cons.IH [OF ok] by (auto simp: p omap_has_def)
qed

lemma length_omap_del:
  "omap_ok m \<Longrightarrow> length (omap_del k m) = (if omap_has k m then length m - 1 else length m)"
proof (induction m)
  case Nil
  then show ?case by (simp add: omap_has_def)
next
  case (Cons p m)
  obtain a b where p: "p = (a, b)" by (cases p)
  from Cons.prems have lt: "\<And>q. q \<in> set m \<Longrightarrow> a < fst q" and ok: "omap_ok m"
    by (auto simp: omap_ok_Cons p)
  have "\<not> omap_has a m"
    using lt by (auto simp: omap_has_iff)
  moreover have "omap_has k m \<Longrightarrow> 0 < length m"
    by (auto simp: omap_has_iff)
  ultimately show ?case
    using Cons.IH [OF ok] by (auto simp: p omap_has_def)
qed

lemma length_omap_put_le: "length (omap_put k v m) \<le> Suc (length m)"
  by (induction m) auto

lemma omap_put_same_keys:
  "omap_ok m \<Longrightarrow> map_of m k = Some u \<Longrightarrow> map fst (omap_put k v m) = map fst m"
proof (induction m)
  case (Cons p m)
  obtain a b where p: "p = (a, b)" by (cases p)
  from Cons.prems have "\<And>q. q \<in> set m \<Longrightarrow> a < fst q"
    by (auto simp: omap_ok_Cons p)
  then have "k < a \<Longrightarrow> k \<notin> fst ` set m"
    by (auto dest: order_less_trans)
  with Cons show ?case
    by (auto simp: p omap_ok_Cons split: if_splits dest!: map_of_SomeD)
qed simp

lemma set_omap:
  "omap_ok m \<Longrightarrow> (k, v) \<in> set m \<longleftrightarrow> map_of m k = Some v"
  using omap_ok_distinct map_of_eq_Some_iff by metis

lemma omap_put_snoc: "omap_ok (m @ [(k, v)]) \<Longrightarrow> omap_put k v m = m @ [(k, v)]"
proof (induction m)
  case (Cons p m)
  then show ?case by (cases p) (auto simp: omap_ok_Cons)
qed simp

lemma omap_ok_append: "omap_ok (m @ n) \<Longrightarrow> omap_ok m \<and> omap_ok n"
  by (simp add: omap_ok_def sorted_wrt_append)

lemma omap_ok_snoc_fresh: "omap_ok (m @ (k, v) # n) \<Longrightarrow> \<not> omap_has k m"
  by (auto simp: omap_ok_def sorted_wrt_append omap_has_iff)

text \<open>
  What a client of an ordered map relies on, and the interpretation by the sorted lists above.
\<close>

locale finite_map =
  fixes put :: "'k \<Rightarrow> 'v \<Rightarrow> 'm \<Rightarrow> 'm"
    and del :: "'k \<Rightarrow> 'm \<Rightarrow> 'm"
    and find :: "'m \<Rightarrow> 'k \<Rightarrow> 'v option"
    and size :: "'m \<Rightarrow> nat"
    and ok :: "'m \<Rightarrow> bool"
  assumes find_put: "ok m \<Longrightarrow> find (put k v m) = (find m)(k \<mapsto> v)"
    and find_del: "ok m \<Longrightarrow> find (del k m) = (find m)(k := None)"
    and ok_put: "ok m \<Longrightarrow> ok (put k v m)"
    and ok_del: "ok m \<Longrightarrow> ok (del k m)"
    and size_put: "ok m \<Longrightarrow> size (put k v m) = (if find m k = None then Suc (size m) else size m)"
    and size_del: "ok m \<Longrightarrow> size (del k m) = (if find m k = None then size m else size m - 1)"
begin

lemma put_then_del: "ok m \<Longrightarrow> find m k = None \<Longrightarrow> find (del k (put k v m)) = find m"
  by (simp add: find_del find_put ok_put fun_eq_iff)

lemma size_put_del: "ok m \<Longrightarrow> find m k = None \<Longrightarrow> size (del k (put k v m)) = size m"
  by (simp add: size_del size_put find_put ok_put)

end

interpretation omap_map: finite_map omap_put omap_del map_of length omap_ok
  by unfold_locales (auto simp: length_omap_put length_omap_del omap_has_def)

section \<open>Sums over lists\<close>

lemma sum_list_filter_le: "sum_list (map f (filter P xs)) \<le> sum_list (map (f :: 'a \<Rightarrow> nat) xs)"
  by (induction xs) auto

lemma sum_list_partition:
  "sum_list (map (f :: 'a \<Rightarrow> nat) (filter P xs)) + sum_list (map f (filter (\<lambda>x. \<not> P x) xs)) =
   sum_list (map f xs)"
  by (induction xs) auto

lemma sum_list_update_less:
  "i < length xs \<Longrightarrow> sum_list (xs[i := (y::nat)]) + xs ! i = sum_list xs + y"
  by (induction xs arbitrary: i) (auto split: nat.splits)

section \<open>Tokens of lower-case hexadecimal digits\<close>

definition hex_char :: "char \<Rightarrow> bool" where
  "hex_char c \<longleftrightarrow> (CHR ''0'' \<le> c \<and> c \<le> CHR ''9'') \<or> (CHR ''a'' \<le> c \<and> c \<le> CHR ''f'')"

definition hex_token :: "string \<Rightarrow> bool" where
  "hex_token t \<longleftrightarrow> length t = 32 \<and> list_all hex_char t"

section \<open>Decimal text\<close>

text \<open>\<open>std::to_string\<close> of an unsigned value, and the value of a digit.\<close>

definition digit_char :: "nat \<Rightarrow> char" where
  "digit_char d = char_of (48 + d)"

definition digit_value :: "char \<Rightarrow> nat" where
  "digit_value c = of_char c - 48"

fun to_decimal :: "nat \<Rightarrow> string" where
  "to_decimal n = (if n < 10 then [digit_char n] else to_decimal (n div 10) @ [digit_char (n mod 10)])"

declare to_decimal.simps [simp del]

definition is_digit :: "char \<Rightarrow> bool" where
  "is_digit c \<longleftrightarrow> CHR ''0'' \<le> c \<and> c \<le> CHR ''9''"

lemma of_char_digit_char: "d < 10 \<Longrightarrow> of_char (digit_char d) = (48 + d :: nat)"
  by (simp add: digit_char_def)

lemma is_digit_of_char: "is_digit c \<longleftrightarrow> 48 \<le> (of_char c :: nat) \<and> (of_char c :: nat) \<le> 57"
  by (simp add: is_digit_def less_eq_char_def)

lemma is_digit_digit_char [simp]: "d < 10 \<Longrightarrow> is_digit (digit_char d)"
  by (simp add: is_digit_of_char of_char_digit_char)

lemma digit_value_digit_char [simp]: "d < 10 \<Longrightarrow> digit_value (digit_char d) = d"
  by (simp add: digit_value_def of_char_digit_char)

lemma to_decimal_nonempty [simp]: "to_decimal n \<noteq> []"
  by (subst to_decimal.simps) simp

lemma to_decimal_digits: "list_all is_digit (to_decimal n)"
proof (induction n rule: to_decimal.induct)
  case (1 n)
  then show ?case
    by (subst to_decimal.simps) auto
qed

lemma to_decimal_hd: "0 < n \<Longrightarrow> hd (to_decimal n) \<noteq> CHR ''0''"
proof (induction n rule: to_decimal.induct)
  case (1 n)
  show ?case
  proof (cases "n < 10")
    case True
    then have "of_char (digit_char n) \<noteq> (of_char CHR ''0'' :: nat)"
      using 1 by (simp add: of_char_digit_char)
    then have "digit_char n \<noteq> CHR ''0''" by metis
    with True show ?thesis by (subst to_decimal.simps) simp
  next
    case False
    then have "hd (to_decimal (n div 10)) \<noteq> CHR ''0''" using 1 by simp
    with False show ?thesis by (subst to_decimal.simps) simp
  qed
qed

lemma to_decimal_length: "0 < k \<Longrightarrow> n < 10 ^ k \<Longrightarrow> length (to_decimal n) \<le> k"
proof (induction n arbitrary: k rule: to_decimal.induct)
  case (1 n)
  show ?case
  proof (cases "n < 10")
    case True
    with 1 show ?thesis by (subst to_decimal.simps) simp
  next
    case False
    obtain j where k: "k = Suc j" using "1.prems" by (cases k) auto
    with "1.prems" False have j: "0 < j" by (cases j) auto
    with k "1.prems" have "n div 10 < 10 ^ j" by auto
    with "1.IH" False j have "length (to_decimal (n div 10)) \<le> j" by simp
    with False k show ?thesis by (subst to_decimal.simps) simp
  qed
qed

fun decimal_value :: "nat \<Rightarrow> string \<Rightarrow> nat" where
  "decimal_value n [] = n"
| "decimal_value n (c # cs) = decimal_value (n * 10 + digit_value c) cs"

lemma decimal_value_ge: "n \<le> decimal_value n cs"
proof (induction cs arbitrary: n)
  case (Cons c cs)
  have "n \<le> n * 10 + digit_value c" by simp
  also have "\<dots> \<le> decimal_value (n * 10 + digit_value c) cs" by (rule Cons.IH)
  finally show ?case by simp
qed simp

lemma decimal_value_append: "decimal_value n (xs @ ys) = decimal_value (decimal_value n xs) ys"
  by (induction xs arbitrary: n) auto

lemma decimal_value_to_decimal: "decimal_value 0 (to_decimal n) = n"
proof (induction n rule: to_decimal.induct)
  case (1 n)
  then show ?case
    by (subst to_decimal.simps) (auto simp: decimal_value_append)
qed

text \<open>Canonical decimal text is the text of its value.\<close>

lemma digit_char_value: "is_digit c \<Longrightarrow> digit_char (digit_value c) = c"
  by (simp add: is_digit_of_char digit_char_def digit_value_def)

lemma digit_value_less: "is_digit c \<Longrightarrow> digit_value c < 10"
  by (auto simp: is_digit_of_char digit_value_def)

lemma to_decimal_value_pos:
  assumes "list_all is_digit cs" and "0 < n"
  shows "to_decimal (decimal_value n cs) = to_decimal n @ cs"
  using assms
proof (induction cs arbitrary: n)
  case (Cons c cs)
  have "to_decimal (n * 10 + digit_value c) = to_decimal n @ [c]"
    using Cons.prems digit_value_less [of c] digit_char_value [of c] by (subst to_decimal.simps) simp
  moreover have "0 < n * 10 + digit_value c" using Cons.prems by simp
  ultimately show ?case using Cons.IH [of "n * 10 + digit_value c"] Cons.prems by simp
qed simp

lemma to_decimal_value:
  assumes "list_all is_digit cs" and "cs \<noteq> []" and "length cs > 1 \<longrightarrow> hd cs \<noteq> CHR ''0''"
  shows "to_decimal (decimal_value 0 cs) = cs"
proof -
  obtain c ds where cs: "cs = c # ds" using assms(2) by (cases cs) auto
  have one: "to_decimal (digit_value c) = [c]"
    using assms(1) cs digit_value_less [of c] digit_char_value [of c] by (subst to_decimal.simps) simp
  show ?thesis
  proof (cases "ds = []")
    case True
    then show ?thesis using one cs by simp
  next
    case False
    then have "c \<noteq> CHR ''0''" using assms(3) cs by simp
    moreover have "c = CHR ''0''" if "digit_value c = 0"
    proof -
      have "(of_char c :: nat) = of_char CHR ''0''" using assms(1) cs that by (simp add: is_digit_of_char digit_value_def)
      then show ?thesis by (simp only: of_char_eq_iff)
    qed
    ultimately have "0 < digit_value c" by auto
    then show ?thesis using to_decimal_value_pos [of ds "digit_value c"] assms(1) cs one by simp
  qed
qed

section \<open>Bit operations as arithmetic\<close>

lemma or_shift_add:
  fixes a b :: "'a :: linordered_euclidean_semiring_bit_operations"
  assumes "take_bit n b = b"
  shows "or (push_bit n a) b = a * 2 ^ n + b"
proof -
  have "and (push_bit n a) b = and (push_bit n a) (take_bit n b)" by (simp add: assms)
  also have "\<dots> = 0" by (rule bit_eqI) (auto simp: bit_simps)
  finally have "push_bit n a + b = or (push_bit n a) b"
    by (rule disjunctive_add_eq_or)
  then show ?thesis by (simp add: push_bit_eq_mult)
qed

section \<open>Sums over an ordered map\<close>

definition omap_emplace :: "'k::linorder \<Rightarrow> 'v \<Rightarrow> ('k \<times> 'v) list \<Rightarrow> ('k \<times> 'v) list" where
  "omap_emplace k v m = (if omap_has k m then m else omap_put k v m)"

definition omap_sum :: "('v \<Rightarrow> nat) \<Rightarrow> ('k \<times> 'v) list \<Rightarrow> nat" where
  "omap_sum f m = sum_list (map (\<lambda>p. f (snd p)) m)"

lemma omap_sum_Nil [simp]: "omap_sum f [] = 0"
  by (simp add: omap_sum_def)

lemma omap_sum_Cons [simp]: "omap_sum f (p # m) = f (snd p) + omap_sum f m"
  by (simp add: omap_sum_def)

lemma omap_del_absent: "map_of m k = None \<Longrightarrow> omap_del k m = m"
  by (induction m) (auto split: if_splits)

lemma omap_del_put: "omap_del k (omap_put k v m) = omap_del k m"
  by (induction k v m rule: omap_put.induct) auto

lemma omap_sum_del:
  "omap_ok m \<Longrightarrow> map_of m k = Some u \<Longrightarrow> omap_sum f m = f u + omap_sum f (omap_del k m)"
proof (induction m)
  case (Cons p m)
  obtain a b where p: "p = (a, b)" by (cases p)
  from Cons.prems(1) have ok: "omap_ok m" and fresh: "map_of m a = None"
    by (auto simp: omap_ok_Cons p map_of_eq_None_iff)
  show ?case
  proof (cases "a = k")
    case True
    then show ?thesis using Cons.prems fresh by (simp add: p omap_del_absent)
  next
    case False
    then show ?thesis using Cons.IH [OF ok] Cons.prems by (simp add: p)
  qed
qed simp

lemma omap_sum_put:
  "omap_ok m \<Longrightarrow> omap_sum f (omap_put k v m) = f v + omap_sum f (omap_del k m)"
proof (induction m)
  case (Cons p m)
  obtain a b where p: "p = (a, b)" by (cases p)
  from Cons.prems have lt: "\<And>q. q \<in> set m \<Longrightarrow> a < fst q" and ok: "omap_ok m"
    by (auto simp: omap_ok_Cons p)
  have "k \<le> a \<Longrightarrow> map_of m k = None"
    using lt by (force simp: map_of_eq_None_iff)
  then show ?case using Cons.IH [OF ok] by (auto simp: p omap_del_absent)
qed simp

lemma omap_sum_del_le: "omap_sum f (omap_del k m) \<le> omap_sum f m"
  by (induction m) auto

section \<open>Numbered windows\<close>

lemma dropWhile_upt:
  assumes "a \<le> Suc n" and "Suc n \<le> b"
  shows "dropWhile (\<lambda>k. k \<le> n) [a..<b] = [Suc n..<b]"
proof -
  have split: "[a..<b] = [a..<Suc n] @ [Suc n..<b]"
    using upt_add_eq_append [OF assms(1), of "b - Suc n"] assms(2) by (simp del: upt_Suc)
  have first: "dropWhile (\<lambda>k. k \<le> n) ([a..<Suc n] @ [Suc n..<b]) = dropWhile (\<lambda>k. k \<le> n) [Suc n..<b]"
    by (rule dropWhile_append2) (simp only: set_upt atLeastLessThan_iff less_Suc_eq_le)
  have "dropWhile (\<lambda>k. k \<le> n) [Suc n..<b] = [Suc n..<b]"
  proof (cases "Suc n < b")
    case True
    then show ?thesis by (subst (1 2) upt_conv_Cons) simp_all
  next
    case False
    then have "[Suc n..<b] = []" by (simp only: upt_eq_Nil_conv) simp
    then show ?thesis by (simp only: dropWhile.simps)
  qed
  then show ?thesis unfolding split first .
qed

section \<open>Outcomes\<close>

text \<open>
  What a C++ operation may do: return, throw, or leave the defined behaviour of the language (the
  source dereferences an iterator that can be the end of a container).
\<close>

datatype ('e, 'a) outcome = Returned 'a | Thrown 'e | Undefined

fun outcome_state :: "'s \<Rightarrow> ('e, 'r \<times> 's) outcome \<Rightarrow> 's" where
  "outcome_state s (Returned (r, s')) = s'"
| "outcome_state s (Thrown e) = s"
| "outcome_state s Undefined = s"

end
