(* ===== verification/Wotex_Json.thy ===== *)
theory Wotex_Json
  imports Wotex_Prelude
begin

text \<open>
  The JSON values the hosts exchange, as the C++ hosts see them: the value kinds of the JSON library
  they are written against, with its distinction between signed and unsigned integers.  An object is
  an ordered map, a floating-point number its IEEE 754 bit pattern.  The bounded values
  (\<open>json_bounded\<close>) are the ones the line protocol admits: at most 4096 nodes, at most eight levels,
  at most 1024 entries per container and no infinite or undefined number.
\<close>

unbundle bit_operations_syntax

datatype json =
    JNull
  | JBool bool
  | JInt int
  | JUnsigned nat
  | JFloat "64 word"
  | JString string
  | JArray "json list"
  | JObject "(string \<times> json) list"
  | JBinary "8 word list"
  | JDiscarded

definition double_finite :: "64 word \<Rightarrow> bool" where
  "double_finite b \<longleftrightarrow> drop_bit 52 b AND 2047 \<noteq> 2047"

fun json_is_object :: "json \<Rightarrow> bool" where
  "json_is_object (JObject m) = True"
| "json_is_object _ = False"

fun json_is_array :: "json \<Rightarrow> bool" where
  "json_is_array (JArray xs) = True"
| "json_is_array _ = False"

fun json_is_string :: "json \<Rightarrow> bool" where
  "json_is_string (JString s) = True"
| "json_is_string _ = False"

fun json_is_boolean :: "json \<Rightarrow> bool" where
  "json_is_boolean (JBool b) = True"
| "json_is_boolean _ = False"

fun json_is_number_integer :: "json \<Rightarrow> bool" where
  "json_is_number_integer (JInt i) = True"
| "json_is_number_integer (JUnsigned n) = True"
| "json_is_number_integer _ = False"

fun json_is_number_unsigned :: "json \<Rightarrow> bool" where
  "json_is_number_unsigned (JUnsigned n) = True"
| "json_is_number_unsigned _ = False"

text \<open>The accessors are used behind the matching kind test; elsewhere they return a default.\<close>

fun json_entries :: "json \<Rightarrow> (string \<times> json) list" where
  "json_entries (JObject m) = m"
| "json_entries _ = []"

fun json_elements :: "json \<Rightarrow> json list" where
  "json_elements (JArray xs) = xs"
| "json_elements _ = []"

fun json_text :: "json \<Rightarrow> string" where
  "json_text (JString s) = s"
| "json_text _ = []"

fun json_truth :: "json \<Rightarrow> bool" where
  "json_truth (JBool b) = b"
| "json_truth _ = False"

fun json_integer_value :: "json \<Rightarrow> int" where
  "json_integer_value (JInt i) = i"
| "json_integer_value (JUnsigned n) = int n"
| "json_integer_value _ = 0"

definition json_contains :: "json \<Rightarrow> string \<Rightarrow> bool" where
  "json_contains v k = omap_has k (json_entries v)"

definition json_at :: "json \<Rightarrow> string \<Rightarrow> json" where
  "json_at v k = (case map_of (json_entries v) k of Some x \<Rightarrow> x | None \<Rightarrow> JNull)"

fun json_size :: "json \<Rightarrow> nat" where
  "json_size (JArray xs) = length xs"
| "json_size (JObject m) = length m"
| "json_size JNull = 0"
| "json_size _ = 1"

text \<open>An exact set of field names, shared by both protocols.\<close>

definition json_exact :: "json \<Rightarrow> string list \<Rightarrow> bool" where
  "json_exact v names \<longleftrightarrow>
     json_is_object v \<and> json_size v = length names \<and> list_all (json_contains v) names"

lemma json_exact_contains: "json_exact v names \<Longrightarrow> k \<in> set names \<Longrightarrow> json_contains v k"
  by (auto simp: json_exact_def list_all_iff)

lemma json_exact_only:
  assumes ex: "json_exact v names" and ok: "omap_ok (json_entries v)" and d: "distinct names"
    and k: "json_contains v k"
  shows "k \<in> set names"
proof -
  obtain m where v: "v = JObject m"
    using ex by (cases v) (auto simp: json_exact_def)
  have sub: "set names \<subseteq> fst ` set m"
    using ex by (auto simp: json_exact_def v list_all_iff json_contains_def omap_has_iff)
  have card: "card (fst ` set m) = card (set names)"
    using ex d omap_ok_distinct [OF ok] distinct_card [of "map fst m"]
    by (simp add: json_exact_def v distinct_card)
  have "set names = fst ` set m"
    using sub card by (simp add: card_subset_eq)
  then show ?thesis
    using k by (simp add: v json_contains_def omap_has_iff)
qed

text \<open>An ordered object with exactly the fields of a sorted list.\<close>

lemma json_exact_entries:
  assumes ex: "json_exact v names" and ok: "omap_ok (json_entries v)" and d: "distinct names"
    and ks: "set ks = set names" "sorted_wrt (<) ks"
  shows "v = JObject (map (\<lambda>k. (k, json_at v k)) ks)"
proof -
  obtain m where v: "v = JObject m" using ex by (cases v) (auto simp: json_exact_def)
  have "set (map fst m) \<subseteq> set names"
    using json_exact_only [OF ex ok d] by (auto simp: v json_contains_def omap_has_iff)
  moreover have "set names \<subseteq> set (map fst m)"
    using ex by (auto simp: json_exact_def v list_all_iff json_contains_def omap_has_iff)
  ultimately have "map fst m = ks"
    using ok ks by (intro strict_sorted_equal) (auto simp: omap_ok_def v)
  moreover have "(fst p, json_at v (fst p)) = p" if "p \<in> set m" for p
    using that map_of_is_SomeI [OF omap_ok_distinct, of m "fst p" "snd p"] ok by (simp add: v json_at_def)
  then have "m = map (\<lambda>k. (k, json_at v k)) (map fst m)" by (simp add: comp_def map_idI)
  ultimately show ?thesis by (simp add: v)
qed

section \<open>Nodes, depth and bounded values\<close>

fun json_nodes :: "json \<Rightarrow> nat" where
  "json_nodes (JArray xs) = Suc (sum_list (map json_nodes xs))"
| "json_nodes (JObject m) = Suc (sum_list (map (\<lambda>p. json_nodes (snd p)) m))"
| "json_nodes _ = 1"

text \<open>\<open>json_within d v\<close>: every node of \<open>v\<close> is admissible, and \<open>v\<close> has at most \<open>d\<close> levels.\<close>

fun json_within :: "nat \<Rightarrow> json \<Rightarrow> bool" where
  "json_within 0 v = False"
| "json_within (Suc d) (JArray xs) \<longleftrightarrow> length xs \<le> 1024 \<and> (\<forall>x \<in> set xs. json_within d x)"
| "json_within (Suc d) (JObject m) \<longleftrightarrow> length m \<le> 1024 \<and> (\<forall>p \<in> set m. json_within d (snd p))"
| "json_within (Suc d) (JFloat b) = double_finite b"
| "json_within (Suc d) (JBinary bs) = False"
| "json_within (Suc d) JDiscarded = False"
| "json_within (Suc d) _ = True"

definition json_bounded :: "json \<Rightarrow> bool" where
  "json_bounded v \<longleftrightarrow> json_nodes v \<le> 4096 \<and> json_within 8 v"

text \<open>Every object inside the value has unique, ordered keys.\<close>

fun json_ordered :: "json \<Rightarrow> bool" where
  "json_ordered (JArray xs) = (\<forall>x \<in> set xs. json_ordered x)"
| "json_ordered (JObject m) = (omap_ok m \<and> (\<forall>p \<in> set m. json_ordered (snd p)))"
| "json_ordered _ = True"

lemma json_nodes_pos [simp]: "0 < json_nodes v"
  by (cases v) auto

lemma json_nodes_ge_size: "v \<in> set xs \<Longrightarrow> json_nodes v \<le> sum_list (map json_nodes xs)"
  by (simp add: member_le_sum_list)

lemma json_size_le_nodes: "length xs \<le> sum_list (map json_nodes xs)"
proof (induction xs)
  case (Cons x xs)
  have "1 \<le> json_nodes x" using json_nodes_pos [of x] by linarith
  with Cons show ?case by simp
qed simp

lemma json_within_mono: "json_within d v \<Longrightarrow> d \<le> e \<Longrightarrow> json_within e v"
proof (induction d v arbitrary: e rule: json_within.induct)
  case (2 d xs)
  then obtain e' where e: "e = Suc e'" by (cases e) auto
  with 2 show ?case by auto
next
  case (3 d m)
  then obtain e' where e: "e = Suc e'" by (cases e) auto
  with 3 show ?case by auto
qed (auto dest!: Suc_le_D)

lemma json_within_leaf [simp]:
  "0 < d \<Longrightarrow> json_within d JNull"
  "0 < d \<Longrightarrow> json_within d (JBool b)"
  "0 < d \<Longrightarrow> json_within d (JInt i)"
  "0 < d \<Longrightarrow> json_within d (JUnsigned n)"
  "0 < d \<Longrightarrow> json_within d (JString t)"
  "0 < d \<Longrightarrow> json_within d (JFloat f) = double_finite f"
  "0 < d \<Longrightarrow> json_within d (JArray [])"
  "0 < d \<Longrightarrow> json_within d (JObject [])"
  by (cases d; simp)+

end
