(* ===== verification/Ble_Frame.thy ===== *)
theory Ble_Frame
  imports Wotex_Json
begin

text \<open>
  Protocol framing of the BlueZ host (\<open>frame.hpp\<close>): the bounded SAX handler that builds a frame
  while it is parsed, the field and integer checks, the request check, the dispatch counter of
  \<open>Sequence\<close> and the incremental line splitter \<open>Lines\<close>.

  The JSON tokenizer is third-party code: it is the parameter \<open>tokenize\<close> of \<open>parse_line\<close>, a
  function from a line to the handler calls it makes.  A handler that returns false stops the parse.
\<close>

section \<open>The bounded SAX handler\<close>

datatype sax_event =
    EvNull
  | EvBoolean bool
  | EvInteger int
  | EvUnsigned nat
  | EvFloat "64 word" string
  | EvString string
  | EvBinary "8 word list"
  | EvStartObject
  | EvKey string
  | EvEndObject
  | EvStartArray
  | EvEndArray
  | EvParseError

record container =
  cn_value :: json
  cn_key :: string
  cn_entries :: nat
  cn_pending :: bool

text \<open>The head of \<open>sx_stack\<close> is \<open>stack_.back()\<close>.\<close>

record bounded_sax =
  sx_stack :: "container list"
  sx_nodes :: nat
  sx_complete :: bool
  sx_result :: json

definition sax_init :: bounded_sax where
  "sax_init = \<lparr>sx_stack = [], sx_nodes = 0, sx_complete = False, sx_result = JNull\<rparr>"

definition sax_node :: "bounded_sax \<Rightarrow> bool \<times> bounded_sax" where
  "sax_node s =
     (let s' = s\<lparr>sx_nodes := sx_nodes s + 1\<rparr>
      in (sx_nodes s' \<le> 4096 \<and> length (sx_stack s') < 8, s'))"

fun sax_emplace :: "string \<Rightarrow> json \<Rightarrow> json \<Rightarrow> json" where
  "sax_emplace k v (JObject m) = JObject (if omap_has k m then m else omap_put k v m)"
| "sax_emplace k v x = x"

fun sax_push_back :: "json \<Rightarrow> json \<Rightarrow> json" where
  "sax_push_back v (JArray xs) = JArray (xs @ [v])"
| "sax_push_back v x = x"

definition sax_put :: "json \<Rightarrow> bounded_sax \<Rightarrow> bool \<times> bounded_sax" where
  "sax_put v s =
     (case sx_stack s of
        [] \<Rightarrow>
          (if sx_complete s then (False, s)
           else (True, s\<lparr>sx_result := v, sx_complete := True\<rparr>))
      | parent # rest \<Rightarrow>
          (if json_is_object (cn_value parent)
           then (if \<not> cn_pending parent then (False, s)
                 else (True, s\<lparr>sx_stack :=
                   parent\<lparr>cn_value := sax_emplace (cn_key parent) v (cn_value parent),
                          cn_pending := False\<rparr> # rest\<rparr>))
           else (let parent' = parent\<lparr>cn_entries := cn_entries parent + 1\<rparr>
                 in if cn_entries parent' > 1024
                    then (False, s\<lparr>sx_stack := parent' # rest\<rparr>)
                    else (True, s\<lparr>sx_stack :=
                      parent'\<lparr>cn_value := sax_push_back v (cn_value parent')\<rparr> # rest\<rparr>))))"

definition sax_scalar :: "json \<Rightarrow> bounded_sax \<Rightarrow> bool \<times> bounded_sax" where
  "sax_scalar v s = (let (ok, s') = sax_node s in if ok then sax_put v s' else (False, s'))"

definition sax_start :: "bool \<Rightarrow> bounded_sax \<Rightarrow> bool \<times> bounded_sax" where
  "sax_start object s =
     (let (ok, s') = sax_node s
      in if \<not> ok then (False, s')
         else (True, s'\<lparr>sx_stack :=
           \<lparr>cn_value = (if object then JObject [] else JArray []), cn_key = [],
            cn_entries = 0, cn_pending = False\<rparr> # sx_stack s'\<rparr>))"

definition sax_finish :: "bool \<Rightarrow> bounded_sax \<Rightarrow> bool \<times> bounded_sax" where
  "sax_finish object s =
     (case sx_stack s of
        [] \<Rightarrow> (False, s)
      | inner # rest \<Rightarrow>
          (if json_is_object (cn_value inner) \<noteq> object \<or> cn_pending inner then (False, s)
           else sax_put (cn_value inner) (s\<lparr>sx_stack := rest\<rparr>)))"

definition sax_key :: "string \<Rightarrow> bounded_sax \<Rightarrow> bool \<times> bounded_sax" where
  "sax_key k s =
     (case sx_stack s of
        [] \<Rightarrow> (False, s)
      | parent # rest \<Rightarrow>
          (if \<not> json_is_object (cn_value parent) \<or> cn_pending parent then (False, s)
           else let parent' = parent\<lparr>cn_entries := cn_entries parent + 1\<rparr>
                in if cn_entries parent' > 1024 \<or> json_contains (cn_value parent') k
                   then (False, s\<lparr>sx_stack := parent' # rest\<rparr>)
                   else (True, s\<lparr>sx_stack :=
                     parent'\<lparr>cn_key := k, cn_pending := True\<rparr> # rest\<rparr>)))"

fun sax_step :: "bounded_sax \<Rightarrow> sax_event \<Rightarrow> bool \<times> bounded_sax" where
  "sax_step s EvNull = sax_scalar JNull s"
| "sax_step s (EvBoolean b) = sax_scalar (JBool b) s"
| "sax_step s (EvInteger i) = sax_scalar (JInt i) s"
| "sax_step s (EvUnsigned n) = sax_scalar (JUnsigned n) s"
| "sax_step s (EvFloat b token) =
     (if (\<exists>c \<in> set token. c \<in> {CHR ''.'', CHR ''e'', CHR ''E''}) \<and> double_finite b
      then sax_scalar (JFloat b) s else (False, s))"
| "sax_step s (EvString t) = sax_scalar (JString t) s"
| "sax_step s (EvBinary bs) = (False, s)"
| "sax_step s EvStartObject = sax_start True s"
| "sax_step s (EvKey k) = sax_key k s"
| "sax_step s EvEndObject = sax_finish True s"
| "sax_step s EvStartArray = sax_start False s"
| "sax_step s EvEndArray = sax_finish False s"
| "sax_step s EvParseError = (False, s)"

text \<open>\<open>Json::sax_parse\<close>: the calls of the tokenizer in order, up to the first that returns false.\<close>

fun sax_run :: "bounded_sax \<Rightarrow> sax_event list \<Rightarrow> bool \<times> bounded_sax" where
  "sax_run s [] = (True, s)"
| "sax_run s (e # es) =
     (case sax_step s e of (True, s') \<Rightarrow> sax_run s' es | (False, s') \<Rightarrow> (False, s'))"

definition max_line :: nat where
  "max_line = 131072"

datatype frame_error = InvalidFrame

abbreviation newline :: char where
  "newline \<equiv> CHR 0x0A"

definition parse_line :: "(string \<Rightarrow> sax_event list) \<Rightarrow> string \<Rightarrow> frame_error + json" where
  "parse_line tokenize line =
     (if line = [] \<or> length line > max_line \<or> last line \<noteq> newline \<or>
         length (takeWhile (\<lambda>c. c \<noteq> newline) line) \<noteq> length line - 1
      then Inl InvalidFrame
      else case sax_run sax_init (tokenize line) of
             (True, s) \<Rightarrow> Inr (sx_result s)
           | (False, _) \<Rightarrow> Inl InvalidFrame)"

section \<open>Field, integer and request checks\<close>

abbreviation json_fields :: "json \<Rightarrow> string list \<Rightarrow> bool" where
  "json_fields \<equiv> json_exact"

definition json_integer :: "json \<Rightarrow> u64 \<Rightarrow> u64 \<Rightarrow> bool" where
  "json_integer v minimum maximum \<longleftrightarrow>
     (case v of
        JUnsigned n \<Rightarrow> minimum \<le> n \<and> n \<le> maximum
      | JInt i \<Rightarrow> \<not> i < 0 \<and> minimum \<le> nat i \<and> nat i \<le> maximum
      | _ \<Rightarrow> False)"

definition known_operations :: "string list" where
  "known_operations =
     [''open'', ''discover'', ''read'', ''write'', ''write_command'', ''subscribe'',
      ''unsubscribe'', ''pair'', ''agent_reply'', ''health'', ''close'']"

definition ble_request :: "json \<Rightarrow> bool" where
  "ble_request v \<longleftrightarrow>
     json_fields v [''version'', ''id'', ''operation'', ''parameters'', ''timeout_ms''] \<and>
     json_integer (json_at v ''version'') 1 1 \<and>
     json_is_string (json_at v ''id'') \<and>
     json_text (json_at v ''id'') \<noteq> [] \<and>
     length (json_text (json_at v ''id'')) \<le> 64 \<and>
     json_is_string (json_at v ''operation'') \<and>
     json_is_object (json_at v ''parameters'') \<and>
     json_integer (json_at v ''timeout_ms'') 1 60000 \<and>
     json_text (json_at v ''operation'') \<in> set known_operations"

section \<open>The dispatch counter\<close>

fun decimal_u64 :: "u64 \<Rightarrow> string \<Rightarrow> u64 option" where
  "decimal_u64 number [] = Some number"
| "decimal_u64 number (c # cs) =
     (if \<not> is_digit c then None
      else let next = digit_value c
           in if number > (u64_max - next) div 10 then None
              else decimal_u64 (number * 10 + next) cs)"

definition decimal_id :: "string \<Rightarrow> u64 option" where
  "decimal_id digits =
     (if digits = [] \<or> length digits > 20 \<or> hd digits = CHR ''0'' then None
      else decimal_u64 0 digits)"

record sequence =
  sq_last :: u64
  sq_opened :: bool

definition sequence_init :: sequence where
  "sequence_init = \<lparr>sq_last = 0, sq_opened = False\<rparr>"

definition sequence_accept :: "json \<Rightarrow> sequence \<Rightarrow> bool \<times> sequence" where
  "sequence_accept v s =
     (if \<not> ble_request v then (False, s)
      else let id = json_text (json_at v ''id''); operation = json_text (json_at v ''operation'')
      in if operation = ''open''
         then (if id \<noteq> ''open'' \<or> sq_opened s \<or> sq_last s \<noteq> 0 then (False, s)
               else (True, s\<lparr>sq_opened := True\<rparr>))
         else if operation = ''close''
         then (id = ''close'' \<and> json_size (json_at v ''parameters'') = 0, s)
         else if \<not> sq_opened s then (False, s)
         else if operation = ''agent_reply'' \<and> take 6 id \<noteq> ''agent-'' then (False, s)
         else let digits = (if operation = ''agent_reply'' then drop 6 id else id)
         in case decimal_id digits of
              None \<Rightarrow> (False, s)
            | Some number \<Rightarrow>
                (if number \<le> sq_last s then (False, s) else (True, s\<lparr>sq_last := number\<rparr>)))"

section \<open>The line splitter\<close>

text \<open>
  \<open>consume\<close> receives each completed line; it returns false where the callback throws.  Its effects
  are on a caller's state of type \<open>'w\<close>.  The loop returns the partial line it leaves, or \<open>None\<close> for
  an exception.
\<close>

type_synonym 'w consumer = "'w \<Rightarrow> string \<Rightarrow> bool \<times> 'w"

record lines =
  ln_partial :: string
  ln_failed :: bool

definition lines_init :: lines where
  "lines_init = \<lparr>ln_partial = [], ln_failed = False\<rparr>"

function lines_loop ::
  "'w consumer \<Rightarrow> string \<Rightarrow> 'w \<Rightarrow> string \<Rightarrow> string option \<times> 'w" where
  "lines_loop consume partial w bs =
     (if bs = [] then (Some partial, w)
      else case dropWhile (\<lambda>c. c \<noteq> newline) bs of
        [] \<Rightarrow>
          (if length bs > max_line - length partial then (None, w)
           else if length (partial @ bs) = max_line then (None, w)
           else (Some (partial @ bs), w))
      | c # rest \<Rightarrow>
          (let line = takeWhile (\<lambda>c. c \<noteq> newline) bs @ [newline]
           in if length line > max_line - length partial then (None, w)
              else case consume w (partial @ line) of
                     (False, w') \<Rightarrow> (None, w')
                   | (True, w') \<Rightarrow> lines_loop consume [] w' rest))"
  by pat_completeness auto
termination
proof (relation "measure (\<lambda>(_, _, _, bs). length bs)", simp, clarsimp)
  fix bs rest :: string and c
  assume "dropWhile (\<lambda>c. c \<noteq> newline) bs = c # rest"
  then show "length rest < length bs"
    using length_dropWhile_le [of "\<lambda>c. c \<noteq> newline" bs] by simp
qed

declare lines_loop.simps [simp del]

text \<open>\<open>feed\<close>: an exception clears the partial line and marks the decoder failed for good.\<close>

definition lines_feed ::
  "'w consumer \<Rightarrow> string \<Rightarrow> lines \<times> 'w \<Rightarrow> bool \<times> lines \<times> 'w" where
  "lines_feed consume bs st =
     (let (l, w) = st
      in if ln_failed l then (False, l, w)
         else case lines_loop consume (ln_partial l) w bs of
                (Some partial, w') \<Rightarrow> (True, l\<lparr>ln_partial := partial\<rparr>, w')
              | (None, w') \<Rightarrow> (False, l\<lparr>ln_partial := [], ln_failed := True\<rparr>, w'))"

definition lines_eof :: "lines \<Rightarrow> bool" where
  "lines_eof l \<longleftrightarrow> \<not> (ln_failed l \<or> ln_partial l \<noteq> [])"

definition lines_buffered :: "lines \<Rightarrow> nat" where
  "lines_buffered l = length (ln_partial l)"

section \<open>Reference: the handler calls of a value\<close>

text \<open>
  The calls a tokenizer makes for the text of a value, with \<open>token\<close> the source text of a
  floating-point number.
\<close>

fun json_events :: "(64 word \<Rightarrow> string) \<Rightarrow> json \<Rightarrow> sax_event list" where
  "json_events token JNull = [EvNull]"
| "json_events token (JBool b) = [EvBoolean b]"
| "json_events token (JInt i) = [EvInteger i]"
| "json_events token (JUnsigned n) = [EvUnsigned n]"
| "json_events token (JFloat b) = [EvFloat b (token b)]"
| "json_events token (JString t) = [EvString t]"
| "json_events token (JArray xs) =
     EvStartArray # concat (map (json_events token) xs) @ [EvEndArray]"
| "json_events token (JObject m) =
     EvStartObject # concat (map (\<lambda>p. EvKey (fst p) # json_events token (snd p)) m) @ [EvEndObject]"
| "json_events token (JBinary bs) = [EvBinary bs]"
| "json_events token JDiscarded = [EvParseError]"

definition float_token :: "(64 word \<Rightarrow> string) \<Rightarrow> bool" where
  "float_token token \<longleftrightarrow> (\<forall>b. \<exists>c \<in> set (token b). c \<in> {CHR ''.'', CHR ''e'', CHR ''E''})"

section \<open>Invariant of the handler\<close>

text \<open>
  \<open>container_ok d c\<close>: the container has at most \<open>d\<close> levels so far and its entry count is the number of
  its entries, counting a key whose value is still to come.
\<close>

definition container_ok :: "nat \<Rightarrow> container \<Rightarrow> bool" where
  "container_ok d c \<longleftrightarrow> json_within d (cn_value c) \<and> json_ordered (cn_value c) \<and>
     cn_entries c \<le> 1024 \<and>
     (case cn_value c of
        JArray xs \<Rightarrow> cn_entries c = length xs \<and> \<not> cn_pending c
      | JObject m \<Rightarrow> cn_entries c = length m + (if cn_pending c then 1 else 0) \<and>
                     (cn_pending c \<longrightarrow> \<not> omap_has (cn_key c) m)
      | _ \<Rightarrow> False)"

fun stack_ok :: "container list \<Rightarrow> bool" where
  "stack_ok [] = True"
| "stack_ok (c # rest) \<longleftrightarrow> length rest < 8 \<and> container_ok (8 - length rest) c \<and> stack_ok rest"

definition sax_inv :: "bounded_sax \<Rightarrow> bool" where
  "sax_inv s \<longleftrightarrow> stack_ok (sx_stack s) \<and> sx_nodes s \<le> 4096 \<and>
     sx_nodes s = sum_list (map (\<lambda>c. json_nodes (cn_value c)) (sx_stack s)) +
                  (if sx_complete s then json_nodes (sx_result s) else 0) \<and>
     json_within 8 (sx_result s) \<and> json_ordered (sx_result s) \<and>
     (\<not> sx_complete s \<longrightarrow> sx_result s = JNull)"

lemma json_nodes_omap_put:
  "\<not> omap_has k m \<Longrightarrow>
   sum_list (map (\<lambda>p. json_nodes (snd p)) (omap_put k v m)) =
   json_nodes v + sum_list (map (\<lambda>p. json_nodes (snd p)) m)"
  by (induction m) (auto simp: omap_has_def split: if_splits)

text \<open>Adding a bounded value to the innermost open container, or as the root, keeps the invariant.\<close>

lemma sax_put_inv:
  assumes stack: "stack_ok (sx_stack s)" and len: "length (sx_stack s) < 8"
    and nodes: "sx_nodes s \<le> 4096"
    and sum: "sx_nodes s = json_nodes v + sum_list (map (\<lambda>c. json_nodes (cn_value c)) (sx_stack s)) +
                  (if sx_complete s then json_nodes (sx_result s) else 0)"
    and root: "json_within 8 (sx_result s)" "json_ordered (sx_result s)"
    and null: "\<not> sx_complete s \<longrightarrow> sx_result s = JNull"
    and v: "json_within (8 - length (sx_stack s)) v" "json_ordered v"
    and put: "sax_put v s = (True, s')"
  shows "sax_inv s'"
proof (cases "sx_stack s")
  case Nil
  with assms show ?thesis
    by (auto simp: sax_put_def sax_inv_def split: if_splits)
next
  case (Cons parent rest)
  define d where "d = 7 - length rest"
  have d: "8 - length rest = Suc d" "8 - length (sx_stack s) = d"
    using Cons len by (auto simp: d_def)
  from stack Cons have ok: "container_ok (Suc d) parent" "stack_ok rest" "length rest < 8"
    by (auto simp: d)
  show ?thesis
  proof (cases "cn_value parent")
    case (JArray xs)
    with ok have xs: "length xs = cn_entries parent" "\<not> cn_pending parent"
      by (auto simp: container_ok_def)
    from put Cons JArray have le: "cn_entries parent + 1 \<le> 1024" and
      s': "s' = s\<lparr>sx_stack := parent\<lparr>cn_entries := cn_entries parent + 1,
                   cn_value := JArray (xs @ [v])\<rparr> # rest\<rparr>"
      by (auto simp: sax_put_def Let_def split: if_splits)
    have "container_ok (Suc d) (parent\<lparr>cn_entries := cn_entries parent + 1,
                   cn_value := JArray (xs @ [v])\<rparr>)"
      using ok JArray le xs v d by (auto simp: container_ok_def)
    then show ?thesis
      using assms Cons ok JArray by (auto simp: s' sax_inv_def d)
  next
    case (JObject m)
    with put Cons have pending: "cn_pending parent" and
      s': "s' = s\<lparr>sx_stack := parent\<lparr>cn_value := sax_emplace (cn_key parent) v (JObject m),
                   cn_pending := False\<rparr> # rest\<rparr>"
      by (auto simp: sax_put_def split: if_splits)
    from ok JObject pending have fresh: "\<not> omap_has (cn_key parent) m" and
      ent: "cn_entries parent = length m + 1" and om: "omap_ok m"
      by (auto simp: container_ok_def)
    have sub: "set (omap_put (cn_key parent) v m) \<subseteq> insert (cn_key parent, v) (set m)"
      by (rule set_omap_put_subset)
    have "container_ok (Suc d) (parent\<lparr>cn_value := JObject (omap_put (cn_key parent) v m),
                   cn_pending := False\<rparr>)"
      using ok JObject ent fresh om v d sub
      by (fastforce simp: container_ok_def length_omap_put)
    then show ?thesis
      using assms Cons ok JObject fresh by (auto simp: s' sax_inv_def d json_nodes_omap_put)
  qed (use ok in \<open>auto simp: container_ok_def\<close>)
qed

lemma sax_scalar_inv:
  assumes inv: "sax_inv s" and v: "json_within 1 v" "json_ordered v" "json_nodes v = 1"
    and step: "sax_scalar v s = (True, s')"
  shows "sax_inv s'"
proof -
  define t where "t = s\<lparr>sx_nodes := sx_nodes s + 1\<rparr>"
  from step have t: "sx_nodes t \<le> 4096" "length (sx_stack t) < 8" "sax_put v t = (True, s')"
    by (auto simp: sax_scalar_def sax_node_def t_def Let_def split: if_splits)
  have "json_within (8 - length (sx_stack t)) v"
    by (rule json_within_mono [OF v(1)]) (use t in simp)
  then show ?thesis
    using inv v t by (intro sax_put_inv [of t v]) (auto simp: sax_inv_def t_def)
qed

lemmas sax_leaf_inv =
  sax_scalar_inv [where v = JNull, simplified]
  sax_scalar_inv [where v = "JBool b" for b, simplified]
  sax_scalar_inv [where v = "JInt i" for i, simplified]
  sax_scalar_inv [where v = "JUnsigned n" for n, simplified]
  sax_scalar_inv [where v = "JString t" for t, simplified]
  sax_scalar_inv [where v = "JFloat f" for f, simplified]

lemma sax_start_inv:
  assumes inv: "sax_inv s" and step: "sax_start object s = (True, s')"
  shows "sax_inv s'"
  using assms
  by (auto simp: sax_start_def sax_node_def sax_inv_def container_ok_def Let_def Suc_diff_le
      split: if_splits)

lemma sax_finish_inv:
  assumes inv: "sax_inv s" and step: "sax_finish object s = (True, s')"
  shows "sax_inv s'"
proof (cases "sx_stack s")
  case Nil
  with step show ?thesis by (simp add: sax_finish_def)
next
  case (Cons c rest)
  with step have "sax_put (cn_value c) (s\<lparr>sx_stack := rest\<rparr>) = (True, s')"
    by (auto simp: sax_finish_def split: if_splits)
  then show ?thesis
    using inv Cons
    by (intro sax_put_inv [of "s\<lparr>sx_stack := rest\<rparr>" "cn_value c"])
      (auto simp: sax_inv_def container_ok_def)
qed

lemma sax_key_inv:
  assumes inv: "sax_inv s" and step: "sax_key k s = (True, s')"
  shows "sax_inv s'"
proof (cases "sx_stack s")
  case Nil
  with step show ?thesis by (simp add: sax_key_def)
next
  case (Cons c rest)
  with step obtain m where m: "cn_value c = JObject m"
    by (cases "cn_value c") (auto simp: sax_key_def split: if_splits)
  with inv step Cons show ?thesis
    by (auto simp: sax_key_def sax_inv_def container_ok_def json_contains_def Let_def
        split: if_splits)
qed

lemma sax_step_inv:
  assumes "sax_inv s" and "sax_step s e = (True, s')"
  shows "sax_inv s'"
  using assms
  by (cases e)
    (auto intro: sax_leaf_inv sax_start_inv sax_finish_inv sax_key_inv split: if_splits)

lemma sax_run_inv:
  assumes "sax_inv s" and "sax_run s es = (True, s')"
  shows "sax_inv s'"
  using assms
proof (induction es arbitrary: s)
  case (Cons e es)
  then obtain s1 where "sax_step s e = (True, s1)" "sax_run s1 es = (True, s')"
    by (auto split: prod.splits bool.splits)
  then show ?case using Cons sax_step_inv by blast
qed simp

lemma sax_init_inv: "sax_inv sax_init"
  by (simp add: sax_init_def sax_inv_def)

section \<open>The handler rebuilds exactly the bounded values\<close>

definition sax_then :: "bool \<times> bounded_sax \<Rightarrow> sax_event list \<Rightarrow> bool \<times> bounded_sax" where
  "sax_then r es = (case r of (True, s) \<Rightarrow> sax_run s es | (False, s) \<Rightarrow> (False, s))"

lemma sax_then_simps [simp]:
  "sax_then (True, s) es = sax_run s es" "sax_then (False, s) es = (False, s)"
  by (simp_all add: sax_then_def)

lemma sax_run_Cons: "sax_run s (e # es) = sax_then (sax_step s e) es"
  by (simp add: sax_then_def)

lemma sax_scalar_run:
  assumes "sx_nodes s < 4096" and "length (sx_stack s) < 8"
  shows "sax_scalar v s = sax_put v (s\<lparr>sx_nodes := sx_nodes s + 1\<rparr>)"
  using assms by (simp add: sax_scalar_def sax_node_def Let_def)

text \<open>
  \<open>sax_feeds token v\<close>: after the calls for \<open>v\<close> the handler is where a single \<open>put\<close> of the finished
  value would leave it.
\<close>

definition sax_feeds :: "(64 word \<Rightarrow> string) \<Rightarrow> json \<Rightarrow> bool" where
  "sax_feeds token v \<longleftrightarrow>
     (\<forall>s es. length (sx_stack s) < 8 \<longrightarrow> sx_nodes s + json_nodes v \<le> 4096 \<longrightarrow>
        json_within (8 - length (sx_stack s)) v \<longrightarrow>
        sax_run s (json_events token v @ es) =
        sax_then (sax_put v (s\<lparr>sx_nodes := sx_nodes s + json_nodes v\<rparr>)) es)"

lemma sax_feeds_scalar:
  assumes "json_events token v = [e]" and "json_nodes v = 1"
    and "\<And>s. double_finite b \<Longrightarrow> sax_step s e = sax_scalar v s"
    and "\<And>d. json_within d v \<Longrightarrow> double_finite b"
  shows "sax_feeds token v"
  unfolding sax_feeds_def
  using assms by (auto simp: sax_run_Cons sax_scalar_run simp del: sax_run.simps)

lemma sax_feeds_elements:
  assumes "\<And>x. x \<in> set xs \<Longrightarrow> sax_feeds token x" and "length rest < 7"
    and "n + sum_list (map json_nodes xs) \<le> 4096" and "length ys + length xs \<le> 1024"
    and "\<forall>x \<in> set xs. json_within (7 - length rest) x"
    and "cn_value c = JArray ys" and "cn_entries c = length ys"
  shows "sax_run (s\<lparr>sx_nodes := n, sx_stack := c # rest\<rparr>)
           (concat (map (json_events token) xs) @ es) =
         sax_run (s\<lparr>sx_nodes := n + sum_list (map json_nodes xs),
           sx_stack := c\<lparr>cn_value := JArray (ys @ xs), cn_entries := length ys + length xs\<rparr> # rest\<rparr>) es"
  using assms
proof (induction xs arbitrary: n ys c)
  case Nil
  then have "c\<lparr>cn_value := JArray ys, cn_entries := length ys\<rparr> = c" by simp
  then show ?case by simp
next
  case (Cons x xs)
  let ?s = "s\<lparr>sx_nodes := n, sx_stack := c # rest\<rparr>"
  let ?c = "c\<lparr>cn_entries := length ys + 1, cn_value := JArray (ys @ [x])\<rparr>"
  have put: "sax_put x (?s\<lparr>sx_nodes := n + json_nodes x\<rparr>) =
      (True, s\<lparr>sx_nodes := n + json_nodes x, sx_stack := ?c # rest\<rparr>)"
    using Cons.prems by (simp add: sax_put_def Let_def)
  have "sax_run ?s (json_events token x @ concat (map (json_events token) xs) @ es) =
      sax_run (s\<lparr>sx_nodes := n + json_nodes x, sx_stack := ?c # rest\<rparr>)
        (concat (map (json_events token) xs) @ es)"
    using Cons.prems put by (simp add: sax_feeds_def)
  also have "\<dots> = sax_run (s\<lparr>sx_nodes := n + json_nodes x + sum_list (map json_nodes xs),
      sx_stack := ?c\<lparr>cn_value := JArray ((ys @ [x]) @ xs),
                     cn_entries := length (ys @ [x]) + length xs\<rparr> # rest\<rparr>) es"
    using Cons.prems by (intro Cons.IH) auto
  finally show ?case by (simp add: add.assoc)
qed

lemma sax_feeds_members:
  assumes "\<And>p. p \<in> set n \<Longrightarrow> sax_feeds token (snd p)" and "length rest < 7"
    and "k + sum_list (map (\<lambda>p. json_nodes (snd p)) n) \<le> 4096" and "length m + length n \<le> 1024"
    and "\<forall>p \<in> set n. json_within (7 - length rest) (snd p)" and "omap_ok (m @ n)"
    and "cn_value c = JObject m" and "cn_entries c = length m" and "\<not> cn_pending c"
  shows "\<exists>key. sax_run (s\<lparr>sx_nodes := k, sx_stack := c # rest\<rparr>)
           (concat (map (\<lambda>p. EvKey (fst p) # json_events token (snd p)) n) @ es) =
         sax_run (s\<lparr>sx_nodes := k + sum_list (map (\<lambda>p. json_nodes (snd p)) n),
           sx_stack := \<lparr>cn_value = JObject (m @ n), cn_key = key,
             cn_entries = length m + length n, cn_pending = False\<rparr> # rest\<rparr>) es"
  using assms
proof (induction n arbitrary: k m c)
  case Nil
  then obtain key where
    "c = \<lparr>cn_value = JObject m, cn_key = key, cn_entries = length m, cn_pending = False\<rparr>"
    by (cases c) auto
  then show ?case by (intro exI [of _ key]) simp
next
  case (Cons p n)
  obtain a x where p: "p = (a, x)" by (cases p)
  let ?s = "s\<lparr>sx_nodes := k, sx_stack := c # rest\<rparr>"
  let ?d = "c\<lparr>cn_entries := length m + 1, cn_key := a, cn_pending := True\<rparr>"
  let ?e = "c\<lparr>cn_entries := length m + 1, cn_key := a, cn_value := JObject (m @ [(a, x)]),
              cn_pending := False\<rparr>"
  have fresh: "\<not> omap_has a m" and snoc: "omap_put a x m = m @ [(a, x)]"
    using Cons.prems omap_ok_snoc_fresh [of m a x n] omap_put_snoc [of m a x]
      omap_ok_append [of "m @ [(a, x)]" n] by (auto simp: p)
  have key: "sax_key a ?s = (True, s\<lparr>sx_nodes := k, sx_stack := ?d # rest\<rparr>)"
    using Cons.prems fresh by (simp add: sax_key_def json_contains_def Let_def)
  have put: "sax_put x (s\<lparr>sx_nodes := k, sx_stack := ?d # rest\<rparr>\<lparr>sx_nodes := k + json_nodes x\<rparr>) =
      (True, s\<lparr>sx_nodes := k + json_nodes x, sx_stack := ?e # rest\<rparr>)"
    using Cons.prems fresh snoc by (simp add: sax_put_def Let_def)
  let ?tail = "concat (map (\<lambda>p. EvKey (fst p) # json_events token (snd p)) n) @ es"
  have "sax_feeds token x" using Cons.prems(1) [of p] by (simp add: p)
  then have "sax_run (s\<lparr>sx_nodes := k, sx_stack := ?d # rest\<rparr>) (json_events token x @ ?tail) =
      sax_run (s\<lparr>sx_nodes := k + json_nodes x, sx_stack := ?e # rest\<rparr>) ?tail"
    using Cons.prems(2-5) put by (simp add: sax_feeds_def p)
  with key have step: "sax_run ?s (EvKey a # json_events token x @ ?tail) =
      sax_run (s\<lparr>sx_nodes := k + json_nodes x, sx_stack := ?e # rest\<rparr>) ?tail"
    by (simp add: sax_run_Cons del: sax_run.simps)
  have "\<exists>key. sax_run (s\<lparr>sx_nodes := k + json_nodes x, sx_stack := ?e # rest\<rparr>) ?tail =
      sax_run (s\<lparr>sx_nodes := k + json_nodes x + sum_list (map (\<lambda>p. json_nodes (snd p)) n),
           sx_stack := \<lparr>cn_value = JObject ((m @ [(a, x)]) @ n), cn_key = key,
             cn_entries = length (m @ [(a, x)]) + length n, cn_pending = False\<rparr> # rest\<rparr>) es"
    using Cons.prems by (intro Cons.IH) (auto simp: p)
  with step show ?case by (simp add: p add.assoc)
qed

text \<open>A start call opens an empty container, an end call hands the finished container to \<open>put\<close>.\<close>

lemma sax_start_run:
  assumes "sx_nodes s < 4096" and "length (sx_stack s) < 8"
  shows "sax_start object s = (True, s\<lparr>sx_nodes := sx_nodes s + 1, sx_stack :=
           \<lparr>cn_value = (if object then JObject [] else JArray []), cn_key = [],
            cn_entries = 0, cn_pending = False\<rparr> # sx_stack s\<rparr>)"
  using assms by (simp add: sax_start_def sax_node_def Let_def)

lemma sax_feeds_array:
  assumes IH: "\<And>x. x \<in> set xs \<Longrightarrow> sax_feeds token x"
  shows "sax_feeds token (JArray xs)"
  unfolding sax_feeds_def
proof (intro allI impI)
  fix s :: bounded_sax and es
  assume len: "length (sx_stack s) < 8" and n: "sx_nodes s + json_nodes (JArray xs) \<le> 4096"
    and w: "json_within (8 - length (sx_stack s)) (JArray xs)"
  let ?c = "\<lparr>cn_value = JArray [], cn_key = [], cn_entries = 0, cn_pending = False\<rparr>"
  let ?es = "concat (map (json_events token) xs) @ EvEndArray # es"
  obtain d where d: "8 - length (sx_stack s) = Suc d" using len by (metis Suc_diff_Suc)
  with w have xs: "length xs \<le> 1024" "\<forall>x \<in> set xs. json_within d x" by auto
  have d7: "d = 7 - length (sx_stack s)" using d by simp
  have "sax_run (s\<lparr>sx_nodes := sx_nodes s + 1, sx_stack := ?c # sx_stack s\<rparr>) ?es =
      sax_run (s\<lparr>sx_nodes := sx_nodes s + json_nodes (JArray xs),
        sx_stack := ?c\<lparr>cn_value := JArray xs, cn_entries := length xs\<rparr> # sx_stack s\<rparr>) (EvEndArray # es)"
  proof (cases "xs = []")
    case True
    then show ?thesis by simp
  next
    case False
    then have "length (sx_stack s) < 7" using xs d7 len by (cases xs; cases d) auto
    then show ?thesis
      using sax_feeds_elements [where xs = xs and ys = "[]" and c = ?c and s = s and
          n = "sx_nodes s + 1" and rest = "sx_stack s" and es = "EvEndArray # es" and token = token]
        IH n xs d7 by simp
  qed
  then show "sax_run s (json_events token (JArray xs) @ es) =
      sax_then (sax_put (JArray xs) (s\<lparr>sx_nodes := sx_nodes s + json_nodes (JArray xs)\<rparr>)) es"
    using len n by (simp add: sax_run_Cons sax_start_run sax_finish_def del: sax_run.simps)
qed

lemma sax_feeds_object:
  assumes IH: "\<And>p. p \<in> set m \<Longrightarrow> sax_feeds token (snd p)" and ok: "omap_ok m"
  shows "sax_feeds token (JObject m)"
  unfolding sax_feeds_def
proof (intro allI impI)
  fix s :: bounded_sax and es
  assume len: "length (sx_stack s) < 8" and n: "sx_nodes s + json_nodes (JObject m) \<le> 4096"
    and w: "json_within (8 - length (sx_stack s)) (JObject m)"
  let ?c = "\<lparr>cn_value = JObject [], cn_key = [], cn_entries = 0, cn_pending = False\<rparr>"
  let ?es = "concat (map (\<lambda>p. EvKey (fst p) # json_events token (snd p)) m) @ EvEndObject # es"
  obtain d where d: "8 - length (sx_stack s) = Suc d" using len by (metis Suc_diff_Suc)
  with w have m: "length m \<le> 1024" "\<forall>p \<in> set m. json_within d (snd p)" by auto
  have d7: "d = 7 - length (sx_stack s)" using d by simp
  have "\<exists>key. sax_run (s\<lparr>sx_nodes := sx_nodes s + 1, sx_stack := ?c # sx_stack s\<rparr>) ?es =
      sax_run (s\<lparr>sx_nodes := sx_nodes s + json_nodes (JObject m),
        sx_stack := \<lparr>cn_value = JObject m, cn_key = key, cn_entries = length m,
          cn_pending = False\<rparr> # sx_stack s\<rparr>) (EvEndObject # es)"
  proof (cases "m = []")
    case True
    then show ?thesis by (intro exI [of _ "[]"]) simp
  next
    case False
    then have "length (sx_stack s) < 7" using m d7 len by (cases m; cases d) auto
    then show ?thesis
      using sax_feeds_members [where n = m and m = "[]" and c = ?c and s = s and
          k = "sx_nodes s + 1" and rest = "sx_stack s" and es = "EvEndObject # es" and token = token]
        IH n m d7 ok by simp
  qed
  then show "sax_run s (json_events token (JObject m) @ es) =
      sax_then (sax_put (JObject m) (s\<lparr>sx_nodes := sx_nodes s + json_nodes (JObject m)\<rparr>)) es"
    using len n by (auto simp: sax_run_Cons sax_start_run sax_finish_def simp del: sax_run.simps)
qed

lemma sax_feeds_all:
  assumes "float_token token"
  shows "json_ordered v \<Longrightarrow> sax_feeds token v"
proof (induction v)
  case (JFloat b)
  show ?case
    by (rule sax_feeds_scalar [where b = b and e = "EvFloat b (token b)"])
      (use assms in \<open>auto simp: float_token_def elim: json_within.elims\<close>)
next
  case (JArray xs)
  then show ?case by (auto intro: sax_feeds_array)
next
  case (JObject m)
  then show ?case by (fastforce intro: sax_feeds_object)
next
  case (JBinary bs)
  then show ?case by (auto simp: sax_feeds_def elim: json_within.elims)
next
  case JDiscarded
  then show ?case by (auto simp: sax_feeds_def elim: json_within.elims)
qed (auto intro!: sax_feeds_scalar [where b = 0] simp: double_finite_def)

lemma sax_rebuilds:
  assumes "float_token token" and "json_bounded v" and "json_ordered v"
  shows "\<exists>s. sax_run sax_init (json_events token v) = (True, s) \<and> sx_result s = v \<and> sx_stack s = []"
proof -
  have "sax_feeds token v" using assms by (intro sax_feeds_all)
  then have "sax_run sax_init (json_events token v @ []) =
      sax_then (sax_put v (sax_init\<lparr>sx_nodes := json_nodes v\<rparr>)) []"
    using assms(2) unfolding sax_feeds_def
    by (elim allE [of _ sax_init] allE [of _ "[]"]) (simp add: sax_init_def json_bounded_def)
  then show ?thesis by (simp add: sax_put_def sax_init_def)
qed

section \<open>Decimal identifiers\<close>

lemma decimal_guard: "d \<le> 9 \<Longrightarrow> n > (u64_max - d) div 10 \<longleftrightarrow> n * 10 + d > u64_max"
  by (auto simp: u64_max_def)

text \<open>The overflow test of the loop rejects exactly the values above \<open>UINT64_MAX\<close>.\<close>

lemma decimal_u64_exact:
  "n \<le> u64_max \<Longrightarrow>
   decimal_u64 n cs =
     (if list_all is_digit cs \<and> decimal_value n cs \<le> u64_max then Some (decimal_value n cs) else None)"
proof (induction cs arbitrary: n)
  case (Cons c cs)
  show ?case
  proof (cases "is_digit c")
    case True
    then have d: "digit_value c \<le> 9" by (auto simp: is_digit_of_char digit_value_def)
    show ?thesis
      using True Cons decimal_guard [OF d, of n] decimal_value_ge [of "n * 10 + digit_value c" cs]
      by (auto simp: Let_def)
  qed simp
qed simp

lemma decimal_id_to_decimal:
  assumes "0 < n" and "n \<le> u64_max"
  shows "decimal_id (to_decimal n) = Some n"
proof -
  have "length (to_decimal n) \<le> 20"
    using assms by (intro to_decimal_length) (auto simp: u64_max_def)
  then show ?thesis
    using assms to_decimal_hd [of n] to_decimal_digits [of n]
    by (simp add: decimal_id_def decimal_u64_exact decimal_value_to_decimal)
qed

lemma decimal_id_bound: "decimal_id t = Some n \<Longrightarrow> n \<le> u64_max"
  by (auto simp: decimal_id_def decimal_u64_exact split: if_splits)

section \<open>The dispatch counter only moves forward\<close>

lemma sequence_accept_cases:
  assumes "sequence_accept v s = (ok, s')"
  shows "s' = s \<or> (ok \<and> \<not> sq_opened s \<and> sq_last s = 0 \<and> s' = s\<lparr>sq_opened := True\<rparr>) \<or>
         (ok \<and> sq_opened s \<and> sq_last s < sq_last s' \<and> s' = s\<lparr>sq_last := sq_last s'\<rparr>)"
  using assms
  by (auto simp: sequence_accept_def Let_def split: if_splits option.splits)

text \<open>The numeric identifier a request carries, if it is one of the counted operations.\<close>

definition request_number :: "json \<Rightarrow> u64 option" where
  "request_number v =
     (let id = json_text (json_at v ''id''); operation = json_text (json_at v ''operation'')
      in if operation = ''open'' \<or> operation = ''close'' then None
         else decimal_id (if operation = ''agent_reply'' then drop 6 id else id))"

fun sequence_run :: "sequence \<Rightarrow> json list \<Rightarrow> json list \<times> sequence" where
  "sequence_run s [] = ([], s)"
| "sequence_run s (v # vs) =
     (let (ok, s') = sequence_accept v s; (accepted, s'') = sequence_run s' vs
      in (if ok then v # accepted else accepted, s''))"

lemma sequence_accept_number:
  assumes "sequence_accept v s = (True, s')"
  shows "case request_number v of
           None \<Rightarrow> sq_last s' = sq_last s
         | Some n \<Rightarrow> sq_last s < n \<and> sq_last s' = n \<and> n \<le> u64_max"
  using assms
  by (auto simp: sequence_accept_def request_number_def Let_def dest: decimal_id_bound
      split: if_splits option.splits)

lemma sequence_run_increasing:
  assumes "sequence_run s vs = (accepted, s')"
  shows "sorted_wrt (<) (List.map_filter request_number accepted) \<and>
         (\<forall>n \<in> set (List.map_filter request_number accepted). sq_last s < n \<and> n \<le> u64_max)"
  using assms
proof (induction vs arbitrary: s accepted s')
  case Nil
  then show ?case by (auto simp: List.map_filter_def)
next
  case (Cons v vs)
  obtain ok s1 where a: "sequence_accept v s = (ok, s1)" by (cases "sequence_accept v s")
  obtain rest s2 where r: "sequence_run s1 vs = (rest, s2)" by (cases "sequence_run s1 vs")
  note IH = Cons.IH [OF r]
  show ?case
  proof (cases ok)
    case False
    then have "accepted = rest" and "s1 = s"
      using Cons.prems a r sequence_accept_cases [OF a] by (auto simp: Let_def)
    then show ?thesis using IH by simp
  next
    case True
    then have acc: "accepted = v # rest" using Cons.prems a r by (simp add: Let_def)
    have "case request_number v of None \<Rightarrow> sq_last s1 = sq_last s
        | Some n \<Rightarrow> sq_last s < n \<and> sq_last s1 = n \<and> n \<le> u64_max"
      using a True by (intro sequence_accept_number) simp
    then show ?thesis
      using IH by (fastforce simp: acc List.map_filter_def split: option.splits)
  qed
qed

section \<open>Splitting into lines does not depend on the chunks\<close>

definition lines_inv :: "lines \<Rightarrow> bool" where
  "lines_inv l \<longleftrightarrow> newline \<notin> set (ln_partial l) \<and> length (ln_partial l) < max_line"

text \<open>The three shapes of the input: empty, without a newline, and a line followed by the rest.\<close>

lemma lines_loop_Nil [simp]: "lines_loop consume partial w [] = (Some partial, w)"
  by (subst lines_loop.simps) simp

lemma lines_loop_tail:
  assumes "newline \<notin> set bs" and "bs \<noteq> []"
  shows "lines_loop consume partial w bs =
    (if length bs > max_line - length partial \<or> length (partial @ bs) = max_line
     then (None, w) else (Some (partial @ bs), w))"
proof -
  have "dropWhile (\<lambda>c. c \<noteq> newline) bs = []" using assms by auto
  then show ?thesis using assms by (subst lines_loop.simps) (simp del: dropWhile_eq_Nil_conv)
qed

lemma lines_loop_line:
  assumes "newline \<notin> set l"
  shows "lines_loop consume partial w (l @ newline # rest) =
    (if length l + 1 > max_line - length partial then (None, w)
     else case consume w (partial @ l @ [newline]) of
            (False, w') \<Rightarrow> (None, w')
          | (True, w') \<Rightarrow> lines_loop consume [] w' rest)"
proof -
  have "dropWhile (\<lambda>c. c \<noteq> newline) (l @ newline # rest) = newline # rest"
    and "takeWhile (\<lambda>c. c \<noteq> newline) (l @ newline # rest) = l"
    using assms by (auto simp: dropWhile_append takeWhile_append)
  then show ?thesis by (subst lines_loop.simps) simp
qed

lemma line_induct [case_names tail line]:
  assumes tail: "\<And>bs. newline \<notin> set bs \<Longrightarrow> P bs"
    and line: "\<And>l rest. newline \<notin> set l \<Longrightarrow> P rest \<Longrightarrow> P (l @ newline # rest)"
  shows "P bs"
proof (induction bs rule: length_induct)
  case (1 bs)
  show ?case
  proof (cases "newline \<in> set bs")
    case True
    then obtain l rest where "bs = l @ newline # rest" "newline \<notin> set l"
      by (meson split_list_first)
    then show ?thesis using 1 line by auto
  qed (rule tail)
qed

lemma lines_loop_append:
  assumes "length partial < max_line"
  shows "lines_loop consume partial w (xs @ ys) =
    (case lines_loop consume partial w xs of
       (Some p, w') \<Rightarrow> lines_loop consume p w' ys
     | (None, w') \<Rightarrow> (None, w'))"
  using assms
proof (induction xs arbitrary: partial w rule: line_induct)
  case (tail xs)
  show ?case
  proof (cases "newline \<in> set ys")
    case True
    then obtain l rest where ys: "ys = l @ newline # rest" and l: "newline \<notin> set l"
      by (meson split_list_first)
    then show ?thesis
      using tail lines_loop_line [of "xs @ l" consume partial w rest]
      by (cases "xs = []") (auto simp: lines_loop_tail lines_loop_line)
  next
    case False
    then show ?thesis
      using tail by (cases xs; cases ys) (auto simp: lines_loop_tail)
  qed
next
  case (line l rest)
  then show ?case
    using lines_loop_line [of l consume partial w "rest @ ys"]
    by (auto simp: lines_loop_line max_line_def split: prod.splits bool.splits)
qed

lemma lines_loop_partial:
  assumes "lines_loop consume partial w bs = (Some p, w')"
    and "newline \<notin> set partial" and "length partial < max_line"
  shows "newline \<notin> set p \<and> length p < max_line"
  using assms
proof (induction bs arbitrary: partial w rule: line_induct)
  case (tail bs)
  then show ?case by (cases "bs = []") (auto simp: lines_loop_tail split: if_splits)
next
  case (line l rest)
  then show ?case
    by (auto simp: lines_loop_line max_line_def split: if_splits prod.splits bool.splits)
qed

lemma lines_feed_inv:
  assumes "lines_inv l" and "lines_feed consume bs (l, w) = (ok, l', w')"
  shows "lines_inv l'"
  using assms lines_loop_partial [of consume "ln_partial l" w bs]
  by (auto simp: lines_feed_def lines_inv_def max_line_def split: if_splits prod.splits option.splits)

text \<open>A consumer that records the lines it is given.\<close>

definition record_line :: "string list consumer" where
  "record_line seen line = (True, seen @ [line])"

lemma lines_loop_records:
  assumes "lines_loop record_line partial seen bs = (Some p, seen')"
  shows "concat seen' @ p = concat seen @ partial @ bs"
  using assms
proof (induction bs arbitrary: partial seen rule: line_induct)
  case (tail bs)
  then show ?case by (cases "bs = []") (auto simp: lines_loop_tail split: if_splits)
next
  case (line l rest)
  then have "lines_loop record_line [] (seen @ [partial @ l @ [newline]]) rest = (Some p, seen')"
    by (auto simp: lines_loop_line record_line_def [of seen "partial @ l @ [newline]"] split: if_splits)
  from line.IH [OF this] show ?case by simp
qed

definition whole_line :: "string \<Rightarrow> bool" where
  "whole_line line \<longleftrightarrow> length line \<le> max_line \<and> line \<noteq> [] \<and> last line = newline \<and>
     newline \<notin> set (butlast line)"

lemma lines_loop_whole:
  assumes "lines_loop record_line partial seen bs = (p, seen')"
    and "length partial < max_line" and "newline \<notin> set partial" and "list_all whole_line seen"
  shows "list_all whole_line seen'"
  using assms
proof (induction bs arbitrary: partial seen rule: line_induct)
  case (tail bs)
  then show ?case by (cases "bs = []") (auto simp: lines_loop_tail split: if_splits)
next
  case (line l rest)
  show ?case
  proof (cases "length l + 1 > max_line - length partial")
    case True
    then show ?thesis using line by (simp add: lines_loop_line)
  next
    case False
    then have rec: "lines_loop record_line [] (seen @ [partial @ l @ [newline]]) rest = (p, seen')"
      using line.prems line.hyps
      by (simp add: lines_loop_line record_line_def [of seen "partial @ l @ [newline]"])
    have "whole_line (partial @ l @ [newline])"
      using line.prems(2,3) line.hyps False by (auto simp: whole_line_def butlast_append)
    then show ?thesis
      using line.prems(4) by (intro line.IH [OF rec]) (auto simp: max_line_def)
  qed
qed

section \<open>Properties\<close>

lemma whole_line_check:
  "whole_line line \<longleftrightarrow>
     \<not> (line = [] \<or> length line > max_line \<or> last line \<noteq> newline \<or>
        length (takeWhile (\<lambda>c. c \<noteq> newline) line) \<noteq> length line - 1)"
proof (cases line rule: rev_cases)
  case (snoc front c)
  have "length (takeWhile (\<lambda>c. c \<noteq> newline) (front @ [newline])) = length front \<longleftrightarrow> newline \<notin> set front"
    by (induction front) auto
  then show ?thesis using snoc by (auto simp: whole_line_def)
qed (simp add: whole_line_def)

lemma parse_line_run:
  "parse_line tokenize line =
     (if whole_line line
      then case sax_run sax_init (tokenize line) of
             (True, s) \<Rightarrow> Inr (sx_result s) | (False, _) \<Rightarrow> Inl InvalidFrame
      else Inl InvalidFrame)"
  unfolding parse_line_def whole_line_check by simp

text \<open>
  A line that \<open>parse_line\<close> accepts is one whole line of at most 128 KiB, and the value it returns has
  at most 4096 nodes, at most eight levels, at most 1024 entries in every container, only finite floats,
  and no duplicate key in any object, whatever calls the tokenizer makes.
\<close>

theorem parse_line_bounded:
  assumes "parse_line tokenize line = Inr v"
  shows "whole_line line \<and> json_bounded v \<and> json_ordered v"
proof -
  obtain s where run: "sax_run sax_init (tokenize line) = (True, s)" and v: "v = sx_result s"
    and line: "whole_line line"
    using assms by (auto simp: parse_line_run split: if_splits prod.splits bool.splits)
  have inv: "sax_inv s" using sax_run_inv [OF sax_init_inv run] .
  moreover have "json_nodes v \<le> 4096"
    using inv v by (cases "sx_complete s") (simp_all add: sax_inv_def)
  ultimately show ?thesis
    using line v by (simp add: json_bounded_def sax_inv_def)
qed

theorem parse_line_bounded_witness:
  "whole_line (''[]'' @ [newline]) \<and> json_bounded (JArray []) \<and> json_ordered (JArray [])"
proof -
  have "parse_line (\<lambda>_. [EvStartArray, EvEndArray]) (''[]'' @ [newline]) = Inr (JArray [])"
    by (simp add: parse_line_run whole_line_def max_line_def sax_init_def sax_start_def sax_node_def
        sax_finish_def sax_put_def)
  from parse_line_bounded [OF this] show ?thesis .
qed

text \<open>
  A tokenizer that makes the calls of a bounded value with ordered keys makes \<open>parse_line\<close> return
  that value: the limits refuse nothing inside them, and the handler loses and adds nothing.
\<close>

theorem parse_line_rebuilds:
  assumes "tokenize line = json_events token v" and "float_token token"
    and "whole_line line" and "json_bounded v" and "json_ordered v"
  shows "parse_line tokenize line = Inr v"
  using assms sax_rebuilds [OF assms(2,4,5)] by (auto simp: parse_line_run)

theorem parse_line_rebuilds_witness:
  "parse_line (\<lambda>_. json_events (\<lambda>_. ''1.0'') (JObject [(''a'', JArray [JUnsigned 1, JNull])])) (''{}'' @ [newline]) =
     Inr (JObject [(''a'', JArray [JUnsigned 1, JNull])])"
proof (rule parse_line_rebuilds [OF refl])
  show "json_bounded (JObject [(''a'', JArray [JUnsigned 1, JNull])])"
    proof -
    have "json_within 3 (JObject [(''a'', JArray [JUnsigned 1, JNull])])"
      by (simp add: numeral_3_eq_3)
    then show ?thesis
      using json_within_mono [of 3 _ 8] by (simp add: json_bounded_def)
  qed
  show "json_ordered (JObject [(''a'', JArray [JUnsigned 1, JNull])])" by (simp add: omap_ok_def)
  show "whole_line (''{}'' @ [newline])" by (simp add: whole_line_def max_line_def)
  show "float_token (\<lambda>_. ''1.0'')" by (simp add: float_token_def)
qed


text \<open>
  C18: what \<open>Lines::feed\<close> delivers and keeps does not depend on how the bytes are cut into reads: feeding
  two chunks one after the other is feeding their concatenation, including which input fails.
\<close>

theorem lines_feed_chunks:
  assumes "lines_inv l"
  shows "lines_feed consume (xs @ ys) (l, w) =
    (case lines_feed consume xs (l, w) of
       (True, st) \<Rightarrow> lines_feed consume ys st
     | (False, st) \<Rightarrow> (False, st))"
  using assms lines_loop_append [of "ln_partial l" consume w xs ys]
  by (auto simp: lines_feed_def lines_inv_def split: prod.splits option.splits)

theorem lines_feed_chunks_witness:
  "lines_feed record_line (''ab'' @ ''c'') (lines_init, []) =
    (case lines_feed record_line ''ab'' (lines_init, []) of
       (True, st) \<Rightarrow> lines_feed record_line ''c'' st
     | (False, st) \<Rightarrow> (False, st))"
  by (rule lines_feed_chunks) (simp add: lines_inv_def lines_init_def max_line_def)

text \<open>
  A splitter that has not failed has handed out exactly the bytes it was fed: the delivered lines and
  the partial line are the input, every delivered line ends in its only newline and has at most 128 KiB,
  and fewer than 128 KiB are ever buffered.
\<close>

theorem lines_feed_lossless:
  assumes "lines_feed record_line bs (lines_init, []) = (True, l, seen)"
  shows "concat seen @ ln_partial l = bs \<and> list_all whole_line seen \<and> lines_buffered l < max_line"
proof -
  have run: "lines_loop record_line [] [] bs = (Some (ln_partial l), seen)"
    using assms by (auto simp: lines_feed_def lines_init_def split: prod.splits option.splits)
  show ?thesis
    using lines_loop_records [OF run] lines_loop_whole [OF run] lines_loop_partial [OF run]
    by (simp add: lines_buffered_def max_line_def)
qed

theorem lines_feed_lossless_witness:
  "concat [''a'' @ [newline]] @ ''b'' = ''a'' @ newline # ''b'' \<and> list_all whole_line [''a'' @ [newline]] \<and>
   lines_buffered \<lparr>ln_partial = ''b'', ln_failed = False\<rparr> < max_line"
proof -
  have "lines_feed record_line (''a'' @ newline # ''b'') (lines_init, []) =
      (True, \<lparr>ln_partial = ''b'', ln_failed = False\<rparr>, [''a'' @ [newline]])"
    using lines_loop_line [of "''a''" record_line "[]" "[]" "''b''"]
    by (simp add: lines_feed_def lines_init_def record_line_def [abs_def] lines_loop_tail max_line_def)
  from lines_feed_lossless [OF this] show ?thesis by simp
qed

end
