(* ===== verification/Ble_Bytes.thy ===== *)
theory Ble_Bytes
  imports Ble_Frame
begin

text \<open>
  The byte envelopes of the BlueZ host (\<open>bytes.hpp\<close>): a bounded byte string and its canonical
  base64 text.  A byte is a \<open>char\<close>; \<open>char_of\<close> is the cast to \<open>std::uint8_t\<close>.
\<close>

unbundle bit_operations_syntax

datatype bytes_error = InvalidValue

definition base64_digit :: "char \<Rightarrow> int" where
  "base64_digit c =
     (let value = of_char c
      in if 65 \<le> value \<and> value \<le> 90 then value - 65
         else if 97 \<le> value \<and> value \<le> 122 then value - 97 + 26
         else if 48 \<le> value \<and> value \<le> 57 then value - 48 + 52
         else if value = 43 then 62
         else if value = 47 then 63
         else - 1)"

definition base64_alphabet :: string where
  "base64_alphabet = ''ABCDEFGHIJKLMNOPQRSTUVWXYZabcdefghijklmnopqrstuvwxyz0123456789+/''"

definition attribute_from_bytes :: "string \<Rightarrow> bytes_error + bytes" where
  "attribute_from_bytes value = (if length value > 512 then Inl InvalidValue else Inr value)"

text \<open>
  The loop over the groups of four characters.  The caller has checked that the length is a multiple
  of four, so the last equation is never reached.
\<close>

fun base64_groups :: "nat \<Rightarrow> string \<Rightarrow> bytes_error + bytes" where
  "base64_groups padding [] = Inr []"
| "base64_groups padding (t0 # t1 # t2 # t3 # rest) =
     (let last = (rest = []);
          a = base64_digit t0; b = base64_digit t1; c = base64_digit t2; d = base64_digit t3
      in if a < 0 \<or> b < 0 then Inl InvalidValue
         else let byte0 = char_of (push_bit 2 a OR drop_bit 4 b)
         in if last \<and> padding = 2
            then (if t2 \<noteq> CHR ''='' \<or> t3 \<noteq> CHR ''='' \<or> b AND 15 \<noteq> 0 then Inl InvalidValue
                  else Inr [byte0])
            else if c < 0 then Inl InvalidValue
            else let byte1 = char_of (push_bit 4 b OR drop_bit 2 c)
            in if last \<and> padding = 1
               then (if t3 \<noteq> CHR ''='' \<or> c AND 3 \<noteq> 0 then Inl InvalidValue
                     else Inr [byte0, byte1])
               else if d < 0 then Inl InvalidValue
               else let byte2 = char_of (push_bit 6 c OR d)
               in map_sum id (\<lambda>bs. byte0 # byte1 # byte2 # bs) (base64_groups padding rest))"
| "base64_groups padding text = Inl InvalidValue"

definition base64_padding :: "string \<Rightarrow> nat" where
  "base64_padding text =
     (if last text = CHR ''='' then 1 else 0) +
     (if text ! (length text - 2) = CHR ''='' then 1 else 0)"

definition base64_decode :: "string \<Rightarrow> bytes_error + bytes" where
  "base64_decode text =
     (if length text > 684 \<or> length text mod 4 \<noteq> 0 then Inl InvalidValue
      else if text = [] then Inr []
      else let padding = base64_padding text; len = length text div 4 * 3 - padding
      in if len > 512 then Inl InvalidValue else base64_groups padding text)"

definition attribute_from :: "json \<Rightarrow> bytes_error + bytes" where
  "attribute_from v =
     (if \<not> json_fields v [''type'', ''base64''] \<or> json_at v ''type'' \<noteq> JString ''bytes'' \<or>
         \<not> json_is_string (json_at v ''base64'')
      then Inl InvalidValue
      else base64_decode (json_text (json_at v ''base64'')))"

fun base64_encode :: "bytes \<Rightarrow> string" where
  "base64_encode [] = []"
| "base64_encode [x] =
     (let a = of_char x
      in [base64_alphabet ! drop_bit 2 a, base64_alphabet ! push_bit 4 (a AND 3),
          CHR ''='', CHR ''=''])"
| "base64_encode [x, y] =
     (let a = of_char x; b = of_char y
      in [base64_alphabet ! drop_bit 2 a, base64_alphabet ! (push_bit 4 (a AND 3) OR drop_bit 4 b),
          base64_alphabet ! push_bit 2 (b AND 15), CHR ''=''])"
| "base64_encode (x # y # z # rest) =
     (let a = of_char x; b = of_char y; c = of_char z
      in base64_alphabet ! drop_bit 2 a # base64_alphabet ! (push_bit 4 (a AND 3) OR drop_bit 4 b) #
         base64_alphabet ! (push_bit 2 (b AND 15) OR drop_bit 6 c) # base64_alphabet ! (c AND 63) #
         base64_encode rest)"

definition attribute_envelope :: "bytes \<Rightarrow> json" where
  "attribute_envelope value =
     JObject [(''base64'', JString (base64_encode value)), (''type'', JString ''bytes'')]"

section \<open>Bit operations as arithmetic\<close>

lemma decode_byte0: "0 \<le> b \<Longrightarrow> b < 64 \<Longrightarrow> push_bit 2 a OR drop_bit 4 b = a * 4 + b div 16" for a b :: int
  by (subst or_shift_add) (simp_all add: drop_bit_eq_div take_bit_eq_mod)

lemma decode_byte1: "0 \<le> c \<Longrightarrow> c < 64 \<Longrightarrow> push_bit 4 b OR drop_bit 2 c = b * 16 + c div 4" for b c :: int
  by (subst or_shift_add) (simp_all add: drop_bit_eq_div take_bit_eq_mod)

lemma decode_byte2: "0 \<le> d \<Longrightarrow> d < 64 \<Longrightarrow> push_bit 6 c OR d = c * 64 + d" for c d :: int
  by (subst or_shift_add) (simp_all add: take_bit_eq_mod)

lemma and_mask_mod_int: "x AND 3 = x mod 4" "x AND 15 = x mod 16" "x AND 63 = x mod 64" for x :: int
  using take_bit_eq_mask [of 2 x] take_bit_eq_mask [of 4 x] take_bit_eq_mask [of 6 x]
  by (simp_all add: take_bit_eq_mod mask_eq_exp_minus_1)

lemma and_mask_mod: "x AND 3 = x mod 4" "x AND 15 = x mod 16" "x AND 63 = x mod 64" for x :: nat
  using take_bit_eq_mask [of 2 x] take_bit_eq_mask [of 4 x] take_bit_eq_mask [of 6 x]
  by (simp_all add: take_bit_eq_mod mask_eq_exp_minus_1)

lemma encode_digit1: "b < 256 \<Longrightarrow> a mod 4 * 16 OR b div 16 = a mod 4 * 16 + b div 16" for a b :: nat
  using or_shift_add [of 4 "b div 16" "a mod 4"]
  by (simp add: push_bit_eq_mult take_bit_eq_mod less_mult_imp_div_less)

lemma encode_digit2: "c < 256 \<Longrightarrow> b mod 16 * 4 OR c div 64 = b mod 16 * 4 + c div 64" for b c :: nat
  using or_shift_add [of 2 "c div 64" "b mod 16"]
  by (simp add: push_bit_eq_mult take_bit_eq_mod less_mult_imp_div_less)

lemmas decode_bits = decode_byte0 decode_byte1 decode_byte2 and_mask_mod_int
lemmas encode_bits = encode_digit1 encode_digit2 and_mask_mod drop_bit_eq_div push_bit_eq_mult

section \<open>The alphabet and its inverse\<close>

lemma digit_alphabet_all: "list_all (\<lambda>n. base64_digit (base64_alphabet ! n) = int n) [0..<64]"
  by code_simp

lemma digit_alphabet [simp]: "n < 64 \<Longrightarrow> base64_digit (base64_alphabet ! n) = int n"
  using digit_alphabet_all by (simp add: list_all_iff)

lemma base64_digit_bounds: "base64_digit c < 64" "- 1 \<le> base64_digit c"
  by (simp_all add: base64_digit_def Let_def)

lemma base64_digit_inj:
  assumes "base64_digit c = base64_digit c'" and "0 \<le> base64_digit c"
  shows "c = c'"
proof -
  obtain x y :: int where "x = of_char c" and "y = of_char c'" by simp
  with assms have "x = y"
    by (simp add: base64_digit_def Let_def del: of_char_eq_iff split: if_splits)
  with \<open>x = of_char c\<close> \<open>y = of_char c'\<close> show ?thesis by simp
qed

lemma alphabet_digit:
  assumes "0 \<le> base64_digit c"
  shows "base64_alphabet ! nat (base64_digit c) = c"
proof (rule base64_digit_inj)
  have "nat (base64_digit c) < 64" using assms base64_digit_bounds [of c] by simp
  with assms show "base64_digit (base64_alphabet ! nat (base64_digit c)) = base64_digit c"
    and "0 \<le> base64_digit (base64_alphabet ! nat (base64_digit c))"
    by simp_all
qed

lemma alphabet_not_pad: "n < 64 \<Longrightarrow> base64_alphabet ! n \<noteq> CHR ''=''"
proof
  assume "n < 64" and "base64_alphabet ! n = CHR ''=''"
  then have "int n = base64_digit CHR ''=''" by (metis digit_alphabet)
  then show False by (simp add: base64_digit_def)
qed

lemma alphabet_eqI: "base64_digit c = int n \<Longrightarrow> base64_alphabet ! n = c"
  using alphabet_digit [of c] by simp

section \<open>Encoding and decoding are inverse\<close>

lemma char_of_byte: "n mod 256 = of_char x \<Longrightarrow> char_of (n :: nat) = x"
  by (metis char_of_char char_of_mod_256)

lemma digit_split:
  fixes h l k :: nat
  assumes "l < k"
  shows "(h * k + l) div k = h" "(h * k + l) mod k = l"
  using assms by simp_all

lemma high_low: "(m :: nat) div k * k + m mod k = m"
  by simp

lemma encode_arith:
  fixes a b c :: nat
  assumes "a < 256" "b < 256" "c < 256"
  shows "a div 4 < 64" "a mod 4 * 16 + b div 16 < 64" "b mod 16 * 4 + c div 64 < 64"
    "(a div 4 * 4 + (a mod 4 * 16 + b div 16) div 16) mod 256 = a"
    "((a mod 4 * 16 + b div 16) * 16 + (b mod 16 * 4 + c div 64) div 4) mod 256 = b"
    "((b mod 16 * 4 + c div 64) * 64 + c mod 64) mod 256 = c"
proof -
  have hi: "b div 16 < 16" "c div 64 < 4" "a mod 4 \<le> 3" "b mod 16 \<le> 15"
    using assms by (simp_all add: less_mult_imp_div_less)
  show "a div 4 < 64" using assms by (simp add: less_mult_imp_div_less)
  show "a mod 4 * 16 + b div 16 < 64" "b mod 16 * 4 + c div 64 < 64" using hi by linarith+
  show "(a div 4 * 4 + (a mod 4 * 16 + b div 16) div 16) mod 256 = a"
    using hi assms by (simp add: digit_split high_low)
  have "(a mod 4 * 16 + b div 16) * 16 + (b mod 16 * 4 + c div 64) div 4 =
      a mod 4 * 256 + (b div 16 * 16 + b mod 16)"
    using hi by (simp add: digit_split)
  also have "\<dots> = a mod 4 * 256 + b" by (simp add: high_low)
  finally show "((a mod 4 * 16 + b div 16) * 16 + (b mod 16 * 4 + c div 64) div 4) mod 256 = b"
    using assms by simp
  have "(b mod 16 * 4 + c div 64) * 64 + c mod 64 = b mod 16 * 256 + (c div 64 * 64 + c mod 64)"
    by simp
  also have "\<dots> = b mod 16 * 256 + c" by (simp add: high_low)
  finally show "((b mod 16 * 4 + c div 64) * 64 + c mod 64) mod 256 = c"
    using assms by simp
qed

lemma decode_arith:
  fixes p q r s :: nat
  assumes "p < 64" "q < 64" "r < 64" "s < 64"
  shows "(p * 4 + q div 16) mod 256 div 4 = p"
    "(p * 4 + q div 16) mod 256 mod 4 * 16 + (q * 16 + r div 4) mod 256 div 16 = q"
    "(q * 16 + r div 4) mod 256 mod 16 * 4 + (r * 64 + s) mod 256 div 64 = r"
    "(r * 64 + s) mod 256 mod 64 = s"
proof -
  have hi: "q div 16 < 4" "r div 4 < 16" using assms by (simp_all add: less_mult_imp_div_less)
  then have a: "(p * 4 + q div 16) mod 256 = p * 4 + q div 16" using assms by simp
  show "(p * 4 + q div 16) mod 256 div 4 = p" using hi by (simp add: a digit_split)
  have "q * 16 + r div 4 = q div 16 * 256 + (q mod 16 * 16 + r div 4)"
    using high_low [of q 16] by linarith
  moreover have "q mod 16 * 16 + r div 4 < 256"
    using hi mod_less_divisor [of 16 q] by linarith
  ultimately have b: "(q * 16 + r div 4) mod 256 = q mod 16 * 16 + r div 4"
    by (metis digit_split(2))
  show "(p * 4 + q div 16) mod 256 mod 4 * 16 + (q * 16 + r div 4) mod 256 div 16 = q"
    using hi by (simp add: a b digit_split high_low)
  have "r * 64 + s = r div 4 * 256 + (r mod 4 * 64 + s)"
    using high_low [of r 4] by linarith
  moreover have "r mod 4 * 64 + s < 256"
    using assms mod_less_divisor [of 4 r] by linarith
  ultimately have c: "(r * 64 + s) mod 256 = r mod 4 * 64 + s"
    by (metis digit_split(2))
  show "(q * 16 + r div 4) mod 256 mod 16 * 4 + (r * 64 + s) mod 256 div 64 = r"
    using hi assms by (simp add: b c digit_split high_low)
  show "(r * 64 + s) mod 256 mod 64 = s" using assms by (simp add: c digit_split)
qed

text \<open>One group of four digits, as arithmetic on the digit values.\<close>

lemma base64_group_values:
  assumes "base64_digit t0 = int p" "base64_digit t1 = int q" "base64_digit t2 = int r"
    "base64_digit t3 = int s"
  shows "base64_groups padding (t0 # t1 # t2 # t3 # rest) =
    (if rest = [] \<and> padding = 2
     then (if t2 \<noteq> CHR ''='' \<or> t3 \<noteq> CHR ''='' \<or> q mod 16 \<noteq> 0 then Inl InvalidValue
           else Inr [char_of (p * 4 + q div 16)])
     else if rest = [] \<and> padding = 1
     then (if t3 \<noteq> CHR ''='' \<or> r mod 4 \<noteq> 0 then Inl InvalidValue
           else Inr [char_of (p * 4 + q div 16), char_of (q * 16 + r div 4)])
     else map_sum id (\<lambda>bs. char_of (p * 4 + q div 16) # char_of (q * 16 + r div 4) #
            char_of (r * 64 + s) # bs) (base64_groups padding rest))"
proof -
  have lt: "q < 64" "r < 64" "s < 64"
    using assms base64_digit_bounds(1) [of t1] base64_digit_bounds(1) [of t2]
      base64_digit_bounds(1) [of t3] by simp_all
  have "push_bit 2 (int p) OR drop_bit 4 (int q) = int (p * 4 + q div 16)"
    "push_bit 4 (int q) OR drop_bit 2 (int r) = int (q * 16 + r div 4)"
    "push_bit 6 (int r) OR int s = int (r * 64 + s)"
    "int q AND 15 = int (q mod 16)" "int r AND 3 = int (r mod 4)"
    using lt by (simp_all add: decode_bits zdiv_int zmod_int)
  then show ?thesis
    unfolding base64_groups.simps Let_def assms by (simp del: of_nat_add of_nat_mult)
qed

lemma base64_group_full:
  assumes "base64_digit t0 = int p" "base64_digit t1 = int q" "base64_digit t2 = int r"
    "base64_digit t3 = int s" and "rest = [] \<Longrightarrow> padding = 0"
    and "char_of (p * 4 + q div 16) = x" "char_of (q * 16 + r div 4) = y" "char_of (r * 64 + s) = z"
  shows "base64_groups padding (t0 # t1 # t2 # t3 # rest) =
    map_sum id (\<lambda>bs. x # y # z # bs) (base64_groups padding rest)"
  using assms(5) unfolding base64_group_values [OF assms(1-4)] assms(6-8) by auto

lemma base64_group_pad1:
  assumes "base64_digit t0 = int p" "base64_digit t1 = int q" "base64_digit t2 = int r"
  shows "base64_groups 1 [t0, t1, t2, t3] =
     (if t3 \<noteq> CHR ''='' \<or> r mod 4 \<noteq> 0 then Inl InvalidValue
      else Inr [char_of (p * 4 + q div 16), char_of (q * 16 + r div 4)])"
proof -
  have lt: "q < 64" "r < 64"
    using assms base64_digit_bounds(1) [of t1] base64_digit_bounds(1) [of t2] by simp_all
  have "push_bit 2 (int p) OR drop_bit 4 (int q) = int (p * 4 + q div 16)"
    "push_bit 4 (int q) OR drop_bit 2 (int r) = int (q * 16 + r div 4)"
    "int r AND 3 = int (r mod 4)"
    using lt by (simp_all add: decode_bits zdiv_int zmod_int)
  then show ?thesis
    unfolding base64_groups.simps Let_def assms by (simp del: of_nat_add of_nat_mult)
qed

lemma base64_group_pad2:
  assumes "base64_digit t0 = int p" "base64_digit t1 = int q"
  shows "base64_groups 2 [t0, t1, t2, t3] =
     (if t2 \<noteq> CHR ''='' \<or> t3 \<noteq> CHR ''='' \<or> q mod 16 \<noteq> 0 then Inl InvalidValue
      else Inr [char_of (p * 4 + q div 16)])"
proof -
  have lt: "q < 64"
    using assms base64_digit_bounds(1) [of t1] by simp
  have "push_bit 2 (int p) OR drop_bit 4 (int q) = int (p * 4 + q div 16)"
    "int q AND 15 = int (q mod 16)"
    using lt by (simp_all add: decode_bits zdiv_int zmod_int)
  then show ?thesis
    unfolding base64_groups.simps Let_def assms by (simp del: of_nat_add of_nat_mult)
qed

definition base64_pad_of :: "bytes \<Rightarrow> nat" where
  "base64_pad_of bs = (3 - length bs mod 3) mod 3"

lemma base64_pad_of_simps [simp]:
  "base64_pad_of [] = 0" "base64_pad_of [x] = 2" "base64_pad_of [x, y] = 1"
  "base64_pad_of (x # y # z # rest) = base64_pad_of rest"
  by (simp_all add: base64_pad_of_def)

lemma base64_encode_groups: "base64_groups (base64_pad_of bs) (base64_encode bs) = Inr bs"
proof (induction bs rule: base64_encode.induct)
  case (2 x)
  define a where "a = (of_char x :: nat)"
  have "a < 256" by (simp add: a_def)
  note arith = encode_arith [OF this, of 0 0, simplified]
  have "char_of (a div 4 * 4 + a mod 4 * 16 div 16) = x"
    using arith by (intro char_of_byte) (simp add: a_def)
  then show ?case
    using arith
      base64_group_pad2 [of "base64_alphabet ! (a div 4)" "a div 4" "base64_alphabet ! (a mod 4 * 16)"
        "a mod 4 * 16" "CHR ''=''" "CHR ''=''"]
    by (simp add: Let_def encode_bits del: base64_groups.simps flip: a_def)
next
  case (3 x y)
  define a b where "a = (of_char x :: nat)" and "b = (of_char y :: nat)"
  have lt: "a < 256" "b < 256" by (simp_all add: a_def b_def)
  note arith = encode_arith [OF lt, of 0, simplified]
  have "char_of (a div 4 * 4 + (a mod 4 * 16 + b div 16) div 16) = x"
    "char_of ((a mod 4 * 16 + b div 16) * 16 + b mod 16 * 4 div 4) = y"
    using arith by (intro char_of_byte; simp add: a_def b_def)+
  then show ?case
    using arith lt
      base64_group_pad1 [of "base64_alphabet ! (a div 4)" "a div 4"
        "base64_alphabet ! (a mod 4 * 16 + b div 16)" "a mod 4 * 16 + b div 16"
        "base64_alphabet ! (b mod 16 * 4)" "b mod 16 * 4" "CHR ''=''"]
    by (simp add: Let_def encode_bits del: base64_groups.simps flip: a_def b_def)
next
  case (4 x y z rest)
  define a b c where "a = (of_char x :: nat)" and "b = (of_char y :: nat)" and "c = (of_char z :: nat)"
  have lt: "a < 256" "b < 256" "c < 256" by (simp_all add: a_def b_def c_def)
  note arith = encode_arith [OF lt]
  have "char_of (a div 4 * 4 + (a mod 4 * 16 + b div 16) div 16) = x"
    by (rule char_of_byte, subst a_def [symmetric], rule arith(4))
  moreover have "char_of ((a mod 4 * 16 + b div 16) * 16 + (b mod 16 * 4 + c div 64) div 4) = y"
    by (rule char_of_byte, subst b_def [symmetric], rule arith(5))
  moreover have "char_of ((b mod 16 * 4 + c div 64) * 64 + c mod 64) = z"
    by (rule char_of_byte, subst c_def [symmetric], rule arith(6))
  ultimately have bytes: "char_of (a div 4 * 4 + (a mod 4 * 16 + b div 16) div 16) = x"
    "char_of ((a mod 4 * 16 + b div 16) * 16 + (b mod 16 * 4 + c div 64) div 4) = y"
    "char_of ((b mod 16 * 4 + c div 64) * 64 + c mod 64) = z"
    by blast+
  let ?p = "a div 4" and ?q = "a mod 4 * 16 + b div 16" and ?r = "b mod 16 * 4 + c div 64"
    and ?s = "c mod 64"
  have enc: "base64_encode (x # y # z # rest) =
      base64_alphabet ! ?p # base64_alphabet ! ?q # base64_alphabet ! ?r # base64_alphabet ! ?s #
      base64_encode rest"
    using lt by (simp add: Let_def encode_bits flip: a_def b_def c_def)
  have "base64_encode rest = [] \<Longrightarrow> base64_pad_of rest = 0"
    by (cases rest rule: base64_encode.cases) (simp_all add: Let_def)
  then have "base64_groups (base64_pad_of rest) (base64_encode (x # y # z # rest)) =
      map_sum id (\<lambda>bs. x # y # z # bs) (base64_groups (base64_pad_of rest) (base64_encode rest))"
    unfolding enc
    using arith(1-3)
    by (intro base64_group_full [OF _ _ _ _ _ bytes]) simp_all
  then show ?case using 4 by simp
qed simp

text \<open>A successful decoding is the encoding of its result: only canonical text is accepted.\<close>

lemma base64_digit_nat: "\<not> base64_digit t < 0 \<Longrightarrow> base64_digit t = int (nat (base64_digit t))"
  by simp

lemma base64_groups_canonical: "base64_groups padding ts = Inr bs \<Longrightarrow> base64_encode bs = ts"
proof (induction padding ts arbitrary: bs rule: base64_groups.induct)
  case (2 padding t0 t1 t2 t3 rest)
  define p q r s where "p = nat (base64_digit t0)" and "q = nat (base64_digit t1)"
    and "r = nat (base64_digit t2)" and "s = nat (base64_digit t3)"
  have lt: "p < 64" "q < 64" "r < 64" "s < 64"
    using base64_digit_bounds(1) [of t0] base64_digit_bounds(1) [of t1]
      base64_digit_bounds(1) [of t2] base64_digit_bounds(1) [of t3]
    by (simp_all add: p_def q_def r_def s_def)
  have ab: "\<not> base64_digit t0 < 0" "\<not> base64_digit t1 < 0"
    using "2.prems" by (auto split: if_splits)
  then have dig: "base64_digit t0 = int p" "base64_digit t1 = int q" by (simp_all add: p_def q_def)
  then have tab: "base64_alphabet ! p = t0" "base64_alphabet ! q = t1" by (simp_all add: alphabet_eqI)
  have hi: "q div 16 < 4" "r div 4 < 16" using lt by (simp_all add: less_mult_imp_div_less)
  then have a: "(p * 4 + q div 16) mod 256 = p * 4 + q div 16" using lt by simp
  show ?case
  proof (cases "rest = [] \<and> padding = 2")
    case True
    with "2.prems" dig have "t2 = CHR ''=''" "t3 = CHR ''=''" and q0: "q mod 16 = 0"
      and bs: "bs = [char_of (p * 4 + q div 16)]"
      by (auto simp: base64_group_pad2 simp del: base64_groups.simps split: if_splits)
    moreover have "q div 16 * 16 = q" using q0 high_low [of q 16] by simp
    ultimately show ?thesis
      using True tab hi by (simp add: Let_def a digit_split and_mask_mod drop_bit_eq_div push_bit_eq_mult)
  next
    case no2: False
    with "2.prems" ab have "\<not> base64_digit t2 < 0" by (auto simp: Let_def split: if_splits)
    then have digc: "base64_digit t2 = int r" by (simp add: r_def)
    then have tc: "base64_alphabet ! r = t2" by (simp add: alphabet_eqI)
    show ?thesis
    proof (cases "rest = [] \<and> padding = 1")
      case True
      with "2.prems" dig digc have t3: "t3 = CHR ''=''" and r0: "r mod 4 = 0"
        and bs: "bs = [char_of (p * 4 + q div 16), char_of (q * 16 + r div 4)]"
        by (auto simp: base64_group_pad1 [unfolded One_nat_def] simp del: base64_groups.simps
            split: if_splits)
      have r4: "r * 64 mod 256 div 64 = 0" using r0 by (simp add: mod_mult_mult2 [of r 64 4, simplified])
      have "base64_encode bs = [base64_alphabet ! p, base64_alphabet ! q, base64_alphabet ! r, CHR ''='']"
        using decode_arith [OF lt(1-3), of 0] r4
        by (simp add: bs Let_def encode_bits)
      then show ?thesis using True tab tc t3 by simp
    next
      case no1: False
      with "2.prems" ab no2 \<open>\<not> base64_digit t2 < 0\<close> have "\<not> base64_digit t3 < 0"
        by (auto simp: Let_def split: if_splits)
      then have digd: "base64_digit t3 = int s" by (simp add: s_def)
      then have td: "base64_alphabet ! s = t3" by (simp add: alphabet_eqI)
      from "2.prems" no1 no2 obtain tail where tail: "base64_groups padding rest = Inr tail" and
        bs: "bs = char_of (p * 4 + q div 16) # char_of (q * 16 + r div 4) # char_of (r * 64 + s) # tail"
        unfolding base64_group_values [OF dig digc digd]
        by (cases "base64_groups padding rest") auto
      have "base64_encode tail = rest"
        using "2.IH" tail no1 no2 ab \<open>\<not> base64_digit t2 < 0\<close> \<open>\<not> base64_digit t3 < 0\<close>
        by auto
      moreover have "base64_encode bs =
          base64_alphabet ! p # base64_alphabet ! q # base64_alphabet ! r # base64_alphabet ! s #
          base64_encode tail"
        using decode_arith [OF lt] by (simp add: bs Let_def encode_bits)
      ultimately show ?thesis using tab tc td by simp
    qed
  qed
qed (auto split: if_splits)

lemma base64_groups_length:
  assumes "base64_groups padding ts = Inr bs" and "padding \<le> 2"
  shows "length bs + (if ts = [] then 0 else padding) = length ts div 4 * 3"
  using assms
proof (induction padding ts arbitrary: bs rule: base64_groups.induct)
  case (2 padding t0 t1 t2 t3 rest)
  show ?case
  proof (cases "rest = [] \<and> padding \<in> {1, 2}")
    case True
    with 2 show ?thesis by (auto simp: Let_def split: if_splits)
  next
    case False
    with "2.prems" obtain tail where tail: "base64_groups padding rest = Inr tail"
      and bs: "length bs = length tail + 3"
      by (cases "base64_groups padding rest") (auto simp: Let_def split: if_splits)
    from "2.prems"(1) have "length tail + (if rest = [] then 0 else padding) = length rest div 4 * 3"
      using False tail "2.prems"(2)
      by (intro "2.IH" [OF refl refl refl refl refl _ refl _ _ refl _ _ refl])
        (auto simp: Let_def split: if_splits)
    moreover have "(4 + length rest) div 4 = Suc (length rest div 4)" by simp
    ultimately show ?thesis using bs False "2.prems"(2) by (auto split: if_splits)
  qed
qed auto

lemma base64_padding_skip:
  "2 \<le> length t \<Longrightarrow> base64_padding (t0 # t1 # t2 # t3 # t) = base64_padding t"
proof -
  assume "2 \<le> length t"
  then obtain n where n: "length t = Suc (Suc n)" by (metis add_2_eq_Suc le_Suc_ex)
  then show ?thesis by (auto simp: base64_padding_def)
qed

lemma length_base64_encode: "length (base64_encode bs) = (length bs + 2) div 3 * 4"
proof (induction bs rule: base64_encode.induct)
  case (4 x y z rest)
  have "(length (x # y # z # rest) + 2) div 3 = Suc ((length rest + 2) div 3)" by simp
  with 4 show ?case by (simp add: Let_def)
qed (simp_all add: Let_def)

lemma base64_padding_encode: "bs \<noteq> [] \<Longrightarrow> base64_padding (base64_encode bs) = base64_pad_of bs"
proof (induction bs rule: base64_encode.induct)
  case (2 x)
  then show ?case by (simp add: base64_padding_def Let_def)
next
  case (3 x y)
  have "b mod 16 * 4 < 64" for b :: nat using mod_less_divisor [of 16 b] by linarith
  then show ?case
    by (simp add: base64_padding_def Let_def and_mask_mod push_bit_eq_mult alphabet_not_pad)
next
  case (4 x y z rest)
  show ?case
  proof (cases "rest = []")
    case True
    define a b c where "a = (of_char x :: nat)" and "b = (of_char y :: nat)" and "c = (of_char z :: nat)"
    have "a < 256" "b < 256" "c < 256" by (simp_all add: a_def b_def c_def)
    from True encode_arith [OF this] this show ?thesis
      by (simp add: base64_padding_def Let_def encode_bits alphabet_not_pad flip: a_def b_def c_def)
  next
    case False
    then have "2 \<le> length (base64_encode rest)"
      by (cases rest) (simp_all add: length_base64_encode)
    then show ?thesis using False 4 by (simp add: Let_def base64_padding_skip)
  qed
qed simp

lemma base64_decode_encode:
  assumes "length bs \<le> 512"
  shows "base64_decode (base64_encode bs) = Inr bs"
proof (cases "bs = []")
  case True
  then show ?thesis by (simp add: base64_decode_def)
next
  case False
  then have ne: "base64_encode bs \<noteq> []"
    by (metis length_base64_encode length_0_conv div_mult_self_is_m base64_encode.elims list.discI)
  have len: "length (base64_encode bs) \<le> 684" "length (base64_encode bs) mod 4 = 0"
    using assms by (auto simp: length_base64_encode)
  have "length bs + base64_pad_of bs = length (base64_encode bs) div 4 * 3"
    using base64_groups_length [OF base64_encode_groups [of bs]] ne by (simp add: base64_pad_of_def)
  then show ?thesis
    using assms ne len False
    by (simp add: base64_decode_def Let_def base64_padding_encode base64_encode_groups)
qed

lemma base64_decode_canonical:
  assumes "base64_decode ts = Inr bs"
  shows "base64_encode bs = ts \<and> length bs \<le> 512"
proof (cases "ts = []")
  case True
  then show ?thesis using assms by (auto simp: base64_decode_def)
next
  case False
  have le: "base64_padding ts \<le> 2" by (simp add: base64_padding_def)
  from False assms have g: "base64_groups (base64_padding ts) ts = Inr bs"
    and "length ts div 4 * 3 - base64_padding ts \<le> 512"
    by (auto simp: base64_decode_def Let_def split: if_splits)
  then show ?thesis
    using base64_groups_canonical [OF g] base64_groups_length [OF g le] False by simp
qed

section \<open>Properties\<close>

text \<open>
  C19: the byte envelope is canonical.  A frame's value with ordered keys is accepted by \<open>AttributeBytes\<close>
  exactly when it is the envelope that \<open>envelope\<close> makes of at most 512 bytes, and it then yields those
  bytes; no second spelling of the same bytes, and no longer value, is accepted.
\<close>

theorem attribute_canonical:
  assumes "json_ordered v"
  shows "attribute_from v = Inr bs \<longleftrightarrow> v = attribute_envelope bs \<and> length bs \<le> 512"
proof
  assume a: "attribute_from v = Inr bs"
  then have exact: "json_exact v [''type'', ''base64'']" and type: "json_at v ''type'' = JString ''bytes''"
    and str: "json_is_string (json_at v ''base64'')"
    and dec: "base64_decode (json_text (json_at v ''base64'')) = Inr bs"
    by (auto simp: attribute_from_def split: if_splits)
  obtain m where v: "v = JObject m" and len: "length m = 2"
    using exact by (cases v) (auto simp: json_exact_def)
  obtain k1 x1 k2 x2 where m: "m = [(k1, x1), (k2, x2)]"
    using len by (auto simp: length_Suc_conv numeral_2_eq_2)
  have "{''type'', ''base64''} \<subseteq> {k1, k2}" "k1 < k2"
    using exact assms
    by (auto simp: v m json_exact_def json_contains_def omap_has_iff omap_ok_def)
  then have k: "k1 = ''base64''" "k2 = ''type''" by auto
  have "x2 = JString ''bytes''" using type by (simp add: v m k json_at_def)
  moreover have "x1 = JString (base64_encode bs)"
    using str dec base64_decode_canonical [OF dec] by (cases x1) (auto simp: v m k json_at_def)
  ultimately show "v = attribute_envelope bs \<and> length bs \<le> 512"
    using base64_decode_canonical [OF dec] by (simp add: v m k attribute_envelope_def)
next
  assume "v = attribute_envelope bs \<and> length bs \<le> 512"
  then show "attribute_from v = Inr bs"
    by (simp add: attribute_from_def attribute_envelope_def json_exact_def json_contains_def json_at_def
        omap_has_def base64_decode_encode)
qed

theorem attribute_canonical_witness:
  "attribute_from (attribute_envelope ''abcd'') = Inr ''abcd''"
  using attribute_canonical [of "attribute_envelope ''abcd''" "''abcd''"]
  by (simp add: attribute_envelope_def omap_ok_def)

end
