(* ===== verification/Wotex_Channel.thy ===== *)
theory Wotex_Channel
  imports Wotex_Prelude
begin

text \<open>
  The contract of a host's output channel, and of any component driven by a sequence of actions.
  \<open>action_machine\<close> lifts a one-step invariant to every run; \<open>byte_channel\<close> adds what a reader of the
  descriptor relies on: bytes are written in the order in which frames were accepted, none is lost,
  repeated or invented.  The outcome of one \<open>write\<close> call is an input of the model.
\<close>

datatype write_result = Wrote nat | Interrupted | WouldBlock | WriteFailed

text \<open>The answers of the descriptor: per attempt and data, as POSIX promises never more than asked.\<close>

type_synonym descriptor = "nat \<Rightarrow> string \<Rightarrow> write_result"

definition descriptor_ok :: "descriptor \<Rightarrow> bool" where
  "descriptor_ok fd \<longleftrightarrow> (\<forall>n data k. fd n data = Wrote k \<longrightarrow> k \<le> length data)"

lemma descriptor_okD: "descriptor_ok fd \<Longrightarrow> fd n data = Wrote k \<Longrightarrow> k \<le> length data"
  by (auto simp: descriptor_ok_def)

fun run_actions :: "('a \<Rightarrow> 's \<Rightarrow> 's) \<Rightarrow> 'a list \<Rightarrow> 's \<Rightarrow> 's" where
  "run_actions step [] s = s"
| "run_actions step (a # as) s = run_actions step as (step a s)"

lemma run_actions_append: "run_actions step (as @ bs) s = run_actions step bs (run_actions step as s)"
  by (induction as arbitrary: s) auto

locale action_machine =
  fixes step :: "'a \<Rightarrow> 's \<Rightarrow> 's"
    and inv :: "'s \<Rightarrow> bool"
    and allowed :: "'a \<Rightarrow> bool"
  assumes step_inv: "inv s \<Longrightarrow> allowed a \<Longrightarrow> inv (step a s)"
begin

lemma run_inv: "inv s \<Longrightarrow> list_all allowed as \<Longrightarrow> inv (run_actions step as s)"
  by (induction as arbitrary: s) (auto intro: step_inv)

end

text \<open>Items accepted and items written over a run, for a step that reports both; the hosts' outputs are of bytes.\<close>

fun channel_run ::
  "('a \<Rightarrow> 's \<Rightarrow> 'b list \<times> 'b list \<times> 's) \<Rightarrow> 'a list \<Rightarrow> 's \<Rightarrow> 'b list \<times> 'b list \<times> 's" where
  "channel_run step [] s = ([], [], s)"
| "channel_run step (a # as) s =
     (let (acc, wr, s') = step a s; (acc', wr', s'') = channel_run step as s'
      in (acc @ acc', wr @ wr', s''))"

locale byte_channel =
  fixes step :: "'a \<Rightarrow> 's \<Rightarrow> 'b list \<times> 'b list \<times> 's"
    and inv :: "'s \<Rightarrow> bool"
    and allowed :: "'a \<Rightarrow> bool"
    and owed :: "'s \<Rightarrow> 'b list"
  assumes channel_inv: "inv s \<Longrightarrow> allowed a \<Longrightarrow> step a s = (acc, wr, s') \<Longrightarrow> inv s'"
    and channel_bytes: "inv s \<Longrightarrow> allowed a \<Longrightarrow> step a s = (acc, wr, s') \<Longrightarrow> wr @ owed s' = owed s @ acc"
begin

lemma run_channel:
  assumes "inv s" and "list_all allowed as" and "channel_run step as s = (acc, wr, s')"
  shows "inv s' \<and> wr @ owed s' = owed s @ acc"
  using assms
proof (induction as arbitrary: s acc wr s')
  case (Cons a as)
  obtain acc1 wr1 s1 where 1: "step a s = (acc1, wr1, s1)" by (cases "step a s")
  obtain acc2 wr2 s2 where 2: "channel_run step as s1 = (acc2, wr2, s2)" by (cases "channel_run step as s1")
  have inv1: "inv s1" and b1: "wr1 @ owed s1 = owed s @ acc1"
    using channel_inv [OF _ _ 1] channel_bytes [OF _ _ 1] Cons.prems by auto
  have "inv s2 \<and> wr2 @ owed s2 = owed s1 @ acc2"
    using Cons.IH [OF inv1 _ 2] Cons.prems by simp
  moreover have "acc = acc1 @ acc2" "wr = wr1 @ wr2" "s' = s2"
    using Cons.prems 1 2 by auto
  ultimately show ?case using b1 by (metis append.assoc)
qed simp

lemma run_prefix:
  assumes "inv s" and "list_all allowed as" and "owed s = []" and "channel_run step as s = (acc, wr, s')"
  shows "prefix wr acc"
  using run_channel [OF assms(1,2,4)] assms(3) by (metis append_Nil prefixI)

end

text \<open>The machine that forgets the bytes: every channel is an action machine.\<close>

sublocale byte_channel \<subseteq> action_machine "\<lambda>a s. snd (snd (step a s))" inv allowed
proof
  fix s a assume "inv s" "allowed a"
  then show "inv (snd (snd (step a s)))"
    using channel_inv [of s a "fst (step a s)" "fst (snd (step a s))"] by simp
qed

section \<open>Credit windows\<close>

text \<open>
  The report flow control of a host: what is outstanding is exactly what was sent and not yet
  acknowledged, numbered without gaps, and both its number and its bytes are bounded.  \<open>sent\<close> and
  \<open>acked\<close> are the last sequence number and the bytes up to it.
\<close>

locale credit_window = action_machine step inv allowed
  for step :: "'a \<Rightarrow> 's \<Rightarrow> 's" and inv :: "'s \<Rightarrow> bool" and allowed :: "'a \<Rightarrow> bool" +
  fixes outstanding :: "'s \<Rightarrow> (nat \<times> nat) list"
    and sent :: "'s \<Rightarrow> nat \<times> nat"
    and acked :: "'s \<Rightarrow> nat \<times> nat"
    and max_frames :: nat
    and max_bytes :: nat
  assumes numbered: "inv s \<Longrightarrow> map fst (outstanding s) = [Suc (fst (acked s))..<Suc (fst (sent s))]"
    and ordered: "inv s \<Longrightarrow> fst (acked s) \<le> fst (sent s)"
    and counted: "inv s \<Longrightarrow> snd (sent s) = snd (acked s) + sum_list (map snd (outstanding s))"
    and bounded: "inv s \<Longrightarrow>
      length (outstanding s) \<le> max_frames \<and> sum_list (map snd (outstanding s)) \<le> max_bytes"
begin

lemma in_flight:
  assumes "inv s"
  shows "fst (sent s) - fst (acked s) = length (outstanding s)"
    and "snd (sent s) - snd (acked s) = sum_list (map snd (outstanding s))"
proof -
  show "fst (sent s) - fst (acked s) = length (outstanding s)"
    using arg_cong [OF numbered [OF assms], of length] by (simp del: upt_Suc)
  show "snd (sent s) - snd (acked s) = sum_list (map snd (outstanding s))"
    using counted [OF assms] by simp
qed

lemma run_window:
  assumes "inv s" and "list_all allowed as"
  shows "let t = run_actions step as s
    in fst (acked t) \<le> fst (sent t) \<and> fst (sent t) \<le> fst (acked t) + max_frames \<and>
       snd (acked t) \<le> snd (sent t) \<and> snd (sent t) \<le> snd (acked t) + max_bytes"
proof -
  let ?t = "run_actions step as s"
  have inv: "inv ?t" using assms by (rule run_inv)
  show ?thesis
    using in_flight [OF inv] ordered [OF inv] counted [OF inv] bounded [OF inv]
    unfolding Let_def by linarith
qed

end

end
