(* ===== verification/Ble_Output.thy ===== *)
theory Ble_Output
  imports Ble_Frame Wotex_Channel
begin

text \<open>
  Bounded serialization and the nonblocking output of the BlueZ host (\<open>output.hpp\<close>): \<open>EncodedFrame\<close>
  with its validation and its bounded stream buffer, and \<open>NativeOutput\<close> with its reply reservations,
  control and report lanes and its \<open>flush\<close>.

  The JSON serializer is third-party code: it is the parameter \<open>serialize\<close>, the list of the stream
  writes it makes for a value.  \<open>std::shared_ptr\<close> identity of an output's generation is a number.
\<close>

section \<open>Encoded frames\<close>

fun json_structured :: "json \<Rightarrow> bool" where
  "json_structured (JArray xs) = True"
| "json_structured (JObject m) = True"
| "json_structured _ = False"

fun json_children :: "json \<Rightarrow> json list" where
  "json_children (JArray xs) = xs"
| "json_children (JObject m) = map snd m"
| "json_children _ = []"

fun json_refused :: "json \<Rightarrow> bool" where
  "json_refused (JBinary bs) = True"
| "json_refused JDiscarded = True"
| "json_refused (JFloat b) = (\<not> double_finite b)"
| "json_refused _ = False"

lemma json_children_nodes: "json_nodes v = Suc (sum_list (map json_nodes (json_children v)))"
  by (cases v) (simp_all add: comp_def)

text \<open>The head of the list is \<open>pending.back()\<close>; children are appended in order.\<close>

function validate_loop :: "(json \<times> nat) list \<Rightarrow> nat \<Rightarrow> bool" where
  "validate_loop [] visited = True"
| "validate_loop ((item, depth) # pending) visited =
     (let visited' = visited + 1
      in if visited' > 4096 \<or> depth > 8 \<or> json_refused item then False
         else if json_structured item
         then (if json_size item > 1024 \<or> json_size item > sub64 (4096 - visited') (length pending)
               then False
               else validate_loop (rev (map (\<lambda>child. (child, depth + 1)) (json_children item)) @ pending)
                      visited')
         else validate_loop pending visited')"
  by pat_completeness auto
termination
proof (relation "measure (\<lambda>(ps, _). sum_list (map (\<lambda>p. json_nodes (fst p)) ps))", simp, goal_cases)
  case (1 item depth pending visited x)
  have "sum_list (map (\<lambda>p. json_nodes (fst p)) (rev (map (\<lambda>child. (child, depth + 1)) (json_children item)))) =
      sum_list (map json_nodes (json_children item))"
    by (simp add: rev_map comp_def sum_list_rev flip: rev_map)
  then show ?case using json_children_nodes [of item] by simp
next
  case (2 item depth pending visited x)
  then show ?case by simp
qed

definition encoded_validate :: "json \<Rightarrow> bool" where
  "encoded_validate v = validate_loop [(v, 1)] 0"

datatype stream_write = WriteChars string | PutChar char

text \<open>The stream buffer: \<open>None\<close> is the exception of a write past the limit.\<close>

fun buffer_write :: "nat \<Rightarrow> string \<Rightarrow> stream_write \<Rightarrow> string option" where
  "buffer_write limit value (WriteChars bs) =
     (if length bs > limit - length value then None else Some (value @ bs))"
| "buffer_write limit value (PutChar c) =
     (if length value = limit then None else Some (value @ [c]))"

fun buffer_writes :: "nat \<Rightarrow> string \<Rightarrow> stream_write list \<Rightarrow> string option" where
  "buffer_writes limit value [] = Some value"
| "buffer_writes limit value (w # ws) =
     (case buffer_write limit value w of
        None \<Rightarrow> None
      | Some value' \<Rightarrow> buffer_writes limit value' ws)"

type_synonym serializer = "json \<Rightarrow> stream_write list"

definition encoded_from :: "serializer \<Rightarrow> json \<Rightarrow> nat \<Rightarrow> frame_error + bytes" where
  "encoded_from serialize value limit =
     (if limit = 0 \<or> limit > max_line then Inl InvalidFrame
      else if \<not> encoded_validate value then Inl InvalidFrame
      else case buffer_writes limit [] (serialize value @ [PutChar newline]) of
             None \<Rightarrow> Inl InvalidFrame
           | Some bs \<Rightarrow> Inr bs)"

section \<open>The output\<close>

datatype lane = LaneReply | LaneControl | LaneReport

record out_frame =
  of_bytes :: bytes
  of_lane :: lane
  of_slot :: u64

record native_output =
  no_generation :: nat
  no_slots :: "(u64 \<times> bool) list"
  no_frames :: "out_frame list"
  no_sequence :: u64
  no_admitted :: u64
  no_transmitted :: u64
  no_offset :: nat
  no_control_count :: nat
  no_report_count :: nat
  no_report_bytes :: nat
  no_bytes :: nat

text \<open>A ticket whose generation is \<open>None\<close> is a default-constructed one.\<close>

record reply_slot =
  rs_generation :: "nat option"
  rs_identifier :: u64

definition output_init :: "nat \<Rightarrow> native_output" where
  "output_init generation =
     \<lparr>no_generation = generation, no_slots = [], no_frames = [], no_sequence = 0, no_admitted = 0,
      no_transmitted = 0, no_offset = 0, no_control_count = 0, no_report_count = 0,
      no_report_bytes = 0, no_bytes = 0\<rparr>"

definition reply_limit :: nat where "reply_limit = 64"
definition control_limit :: nat where "control_limit = 256"
definition control_frame_limit :: nat where "control_frame_limit = 4096"
definition report_limit :: nat where "report_limit = 64"
definition report_byte_limit :: nat where "report_byte_limit = 1048576"

definition output_slot :: "reply_slot \<Rightarrow> native_output \<Rightarrow> bool option" where
  "output_slot ticket s =
     (if rs_generation ticket = Some (no_generation s)
      then map_of (no_slots s) (rs_identifier ticket) else None)"

definition output_transmitted :: "native_output \<Rightarrow> native_output" where
  "output_transmitted s =
     (case no_frames s of
        [] \<Rightarrow> s
      | frame # rest \<Rightarrow>
          (let n = length (of_bytes frame);
               s1 = s\<lparr>no_bytes := sub64 (no_bytes s) n\<rparr>;
               s2 = (case of_lane frame of
                       LaneReply \<Rightarrow> s1\<lparr>no_slots := omap_del (of_slot frame) (no_slots s1)\<rparr>
                     | LaneControl \<Rightarrow> s1\<lparr>no_control_count := sub64 (no_control_count s1) 1\<rparr>
                     | LaneReport \<Rightarrow>
                         s1\<lparr>no_report_count := sub64 (no_report_count s1) 1,
                            no_report_bytes := sub64 (no_report_bytes s1) n,
                            no_transmitted :=
                              (if of_slot frame \<noteq> 0 then of_slot frame else no_transmitted s1)\<rparr>)
           in s2\<lparr>no_frames := rest, no_offset := 0\<rparr>))"

definition output_reserve_reply :: "native_output \<Rightarrow> reply_slot option \<times> native_output" where
  "output_reserve_reply s =
     (if length (no_slots s) = reply_limit \<or> no_sequence s = u64_max then (None, s)
      else let identifier = no_sequence s + 1
           in (Some \<lparr>rs_generation = Some (no_generation s), rs_identifier = identifier\<rparr>,
               s\<lparr>no_sequence := identifier, no_slots := omap_put identifier False (no_slots s)\<rparr>))"

definition output_release_reply :: "reply_slot \<Rightarrow> native_output \<Rightarrow> bool \<times> native_output" where
  "output_release_reply ticket s =
     (case output_slot ticket s of
        Some False \<Rightarrow> (True, s\<lparr>no_slots := omap_del (rs_identifier ticket) (no_slots s)\<rparr>)
      | _ \<Rightarrow> (False, s))"

definition output_reply :: "reply_slot \<Rightarrow> bytes \<Rightarrow> native_output \<Rightarrow> bool \<times> native_output" where
  "output_reply ticket frame s =
     (case output_slot ticket s of
        Some False \<Rightarrow>
          (True, s\<lparr>no_frames := no_frames s @
                     [\<lparr>of_bytes = frame, of_lane = LaneReply, of_slot = rs_identifier ticket\<rparr>],
                   no_bytes := add64 (no_bytes s) (length frame),
                   no_slots := omap_put (rs_identifier ticket) True (no_slots s)\<rparr>)
      | _ \<Rightarrow> (False, s))"

definition output_control :: "bytes \<Rightarrow> native_output \<Rightarrow> bool \<times> native_output" where
  "output_control frame s =
     (if length frame > control_frame_limit \<or> no_control_count s = control_limit then (False, s)
      else (True, s\<lparr>no_frames := no_frames s @
                      [\<lparr>of_bytes = frame, of_lane = LaneControl, of_slot = 0\<rparr>],
                    no_bytes := add64 (no_bytes s) (length frame),
                    no_control_count := no_control_count s + 1\<rparr>))"

definition output_report :: "bytes \<Rightarrow> u64 \<Rightarrow> native_output \<Rightarrow> bool \<times> native_output" where
  "output_report frame sequence s =
     (if (sequence \<noteq> 0 \<and> sequence \<le> no_admitted s) \<or> no_report_count s = report_limit \<or>
         length frame > sub64 report_byte_limit (no_report_bytes s)
      then (False, s)
      else (True, s\<lparr>no_frames := no_frames s @
                      [\<lparr>of_bytes = frame, of_lane = LaneReport, of_slot = sequence\<rparr>],
                    no_admitted := (if sequence \<noteq> 0 then sequence else no_admitted s),
                    no_bytes := add64 (no_bytes s) (length frame),
                    no_report_bytes := add64 (no_report_bytes s) (length frame),
                    no_report_count := no_report_count s + 1\<rparr>))"

datatype flush_outcome = FlushReturned | FlushInvalidOutput | FlushOutputClosed

text \<open>
  One turn of \<open>flush\<close>; the first argument counts the attempts that are left, and the second component
  of the result is what the descriptor received.
\<close>

fun output_flush_loop ::
  "descriptor \<Rightarrow> nat \<Rightarrow> nat \<Rightarrow> native_output \<Rightarrow> flush_outcome \<times> string \<times> native_output" where
  "output_flush_loop fd 0 budget s = (FlushReturned, [], s)"
| "output_flush_loop fd (Suc attempts) budget s =
     (case no_frames s of
        [] \<Rightarrow> (FlushReturned, [], s)
      | frame # _ \<Rightarrow>
          (if budget = 0 then (FlushReturned, [], s)
           else let count = min budget (length (of_bytes frame) - no_offset s);
                    data = take count (drop (no_offset s) (of_bytes frame))
                in case fd attempts data of
                     Interrupted \<Rightarrow> output_flush_loop fd attempts budget s
                   | WouldBlock \<Rightarrow> (FlushReturned, [], s)
                   | WriteFailed \<Rightarrow> (FlushOutputClosed, [], s)
                   | Wrote n \<Rightarrow>
                       (if n = 0 then (FlushOutputClosed, [], s)
                        else let s1 = s\<lparr>no_offset := no_offset s + n\<rparr>;
                                 s2 = (if no_offset s1 = length (of_bytes frame)
                                       then output_transmitted s1 else s1);
                                 (outcome, written, s3) =
                                   output_flush_loop fd attempts (budget - n) s2
                             in (outcome, take n data @ written, s3))))"

definition output_flush ::
  "descriptor \<Rightarrow> bool \<Rightarrow> nat \<Rightarrow> native_output \<Rightarrow> flush_outcome \<times> string \<times> native_output" where
  "output_flush fd nonblocking budget s =
     (if \<not> nonblocking \<or> budget = 0 \<or> budget > 65536 then (FlushInvalidOutput, [], s)
      else output_flush_loop fd 64 budget s)"

section \<open>Actions on an output\<close>

datatype out_action =
    ReserveReply
  | ReleaseReply reply_slot
  | SendReply reply_slot bytes
  | SendControl bytes
  | SendReport bytes u64
  | FlushTurn descriptor bool nat

definition sent :: "bytes \<Rightarrow> bool \<times> native_output \<Rightarrow> string \<times> string \<times> native_output" where
  "sent frame r = (if fst r then frame else [], [], snd r)"

text \<open>The bytes an action accepts, the bytes it writes, and the next state.\<close>

fun output_step :: "out_action \<Rightarrow> native_output \<Rightarrow> string \<times> string \<times> native_output" where
  "output_step ReserveReply s = ([], [], snd (output_reserve_reply s))"
| "output_step (ReleaseReply ticket) s = ([], [], snd (output_release_reply ticket s))"
| "output_step (SendReply ticket frame) s = sent frame (output_reply ticket frame s)"
| "output_step (SendControl frame) s = sent frame (output_control frame s)"
| "output_step (SendReport frame sequence) s = sent frame (output_report frame sequence s)"
| "output_step (FlushTurn fd nonblocking budget) s =
     (let (_, written, s') = output_flush fd nonblocking budget s in ([], written, s'))"

definition encoded_frame :: "bytes \<Rightarrow> bool" where
  "encoded_frame frame \<longleftrightarrow> frame \<noteq> [] \<and> length frame \<le> max_line"

fun output_allowed :: "out_action \<Rightarrow> bool" where
  "output_allowed (SendReply ticket frame) = encoded_frame frame"
| "output_allowed (SendControl frame) = encoded_frame frame"
| "output_allowed (SendReport frame sequence) = encoded_frame frame"
| "output_allowed (FlushTurn fd nonblocking budget) = descriptor_ok fd"
| "output_allowed _ = True"

definition output_owed :: "native_output \<Rightarrow> string" where
  "output_owed s = drop (no_offset s) (concat (map of_bytes (no_frames s)))"

section \<open>Invariant\<close>

definition lane_frames :: "lane \<Rightarrow> out_frame list \<Rightarrow> out_frame list" where
  "lane_frames l fs = filter (\<lambda>f. of_lane f = l) fs"

abbreviation lane_bytes :: "lane \<Rightarrow> out_frame list \<Rightarrow> nat" where
  "lane_bytes l fs \<equiv> sum_list (map (\<lambda>f. length (of_bytes f)) (lane_frames l fs))"

definition numbered_reports :: "out_frame list \<Rightarrow> u64 list" where
  "numbered_reports fs = filter (\<lambda>k. k \<noteq> 0) (map of_slot (lane_frames LaneReport fs))"

definition slots_inv :: "native_output \<Rightarrow> bool" where
  "slots_inv s \<longleftrightarrow> omap_ok (no_slots s) \<and> length (no_slots s) \<le> reply_limit \<and>
     (\<forall>k b. map_of (no_slots s) k = Some b \<longrightarrow> 0 < k \<and> k \<le> no_sequence s) \<and>
     no_sequence s \<le> u64_max \<and>
     distinct (map of_slot (lane_frames LaneReply (no_frames s))) \<and>
     (\<forall>k. k \<in> of_slot ` set (lane_frames LaneReply (no_frames s)) \<longleftrightarrow> map_of (no_slots s) k = Some True)"

definition lanes_inv :: "native_output \<Rightarrow> bool" where
  "lanes_inv s \<longleftrightarrow>
     no_control_count s = length (lane_frames LaneControl (no_frames s)) \<and>
     no_control_count s \<le> control_limit \<and>
     no_report_count s = length (lane_frames LaneReport (no_frames s)) \<and>
     no_report_count s \<le> report_limit \<and>
     no_report_bytes s = lane_bytes LaneReport (no_frames s) \<and>
     no_report_bytes s \<le> report_byte_limit \<and>
     no_bytes s = sum_list (map (\<lambda>f. length (of_bytes f)) (no_frames s)) \<and>
     (\<forall>f \<in> set (no_frames s). encoded_frame (of_bytes f) \<and>
        (of_lane f = LaneControl \<longrightarrow> length (of_bytes f) \<le> control_frame_limit))"

definition offset_inv :: "native_output \<Rightarrow> bool" where
  "offset_inv s \<longleftrightarrow>
     (case no_frames s of [] \<Rightarrow> no_offset s = 0 | f # _ \<Rightarrow> no_offset s < length (of_bytes f))"

definition reports_inv :: "native_output \<Rightarrow> bool" where
  "reports_inv s \<longleftrightarrow> sorted_wrt (<) (numbered_reports (no_frames s)) \<and>
     (\<forall>k \<in> set (numbered_reports (no_frames s)). no_transmitted s < k \<and> k \<le> no_admitted s) \<and>
     no_transmitted s \<le> no_admitted s"

definition output_inv :: "native_output \<Rightarrow> bool" where
  "output_inv s \<longleftrightarrow> slots_inv s \<and> lanes_inv s \<and> offset_inv s \<and> reports_inv s"

lemmas output_limits =
  reply_limit_def control_limit_def control_frame_limit_def report_limit_def report_byte_limit_def
  max_line_def u64_max_def

lemmas output_invs = slots_inv_def lanes_inv_def offset_inv_def reports_inv_def

lemma lane_frames_simps [simp]:
  "lane_frames l [] = []"
  "lane_frames l (f # fs) = (if of_lane f = l then f # lane_frames l fs else lane_frames l fs)"
  "lane_frames l (fs @ gs) = lane_frames l fs @ lane_frames l gs"
  by (simp_all add: lane_frames_def)

lemma numbered_reports_simps [simp]:
  "numbered_reports [] = []"
  "numbered_reports (f # fs) =
     (if of_lane f = LaneReport \<and> of_slot f \<noteq> 0 then of_slot f # numbered_reports fs
      else numbered_reports fs)"
  "numbered_reports (fs @ gs) = numbered_reports fs @ numbered_reports gs"
  by (simp_all add: numbered_reports_def)

lemma lane_bytes_total:
  "sum_list (map (\<lambda>f. length (of_bytes f)) fs) =
   lane_bytes LaneReply fs + lane_bytes LaneControl fs + lane_bytes LaneReport fs"
proof (induction fs)
  case (Cons f fs)
  then show ?case by (cases "of_lane f") simp_all
qed simp

lemma sum_list_bound: "(\<And>x. x \<in> set xs \<Longrightarrow> f x \<le> (b :: nat)) \<Longrightarrow> sum_list (map f xs) \<le> length xs * b"
proof (induction xs)
  case (Cons x xs)
  then have "f x \<le> b" and "sum_list (map f xs) \<le> length xs * b" by auto
  then show ?case by simp
qed simp

text \<open>The bytes an output can retain.\<close>

lemma output_replies_bound:
  assumes "slots_inv s"
  shows "length (lane_frames LaneReply (no_frames s)) \<le> 64"
proof -
  let ?rs = "map of_slot (lane_frames LaneReply (no_frames s))"
  have "set ?rs \<subseteq> set (map fst (no_slots s))"
  proof
    fix k assume "k \<in> set ?rs"
    then have "map_of (no_slots s) k = Some True" using assms by (auto simp: slots_inv_def)
    then show "k \<in> set (map fst (no_slots s))" by (force dest: map_of_SomeD)
  qed
  then have "card (set ?rs) \<le> card (set (map fst (no_slots s)))" by (rule card_mono [rotated]) simp
  also have "\<dots> \<le> length (map fst (no_slots s))" by (rule card_length)
  also have "\<dots> \<le> 64" using assms by (simp add: slots_inv_def reply_limit_def)
  finally show ?thesis using assms distinct_card [of ?rs] by (simp add: slots_inv_def)
qed

lemma lane_bytes_bound:
  assumes "lanes_inv s"
  shows "lane_bytes LaneReply (no_frames s) \<le> length (lane_frames LaneReply (no_frames s)) * 131072"
    and "lane_bytes LaneControl (no_frames s) \<le> length (lane_frames LaneControl (no_frames s)) * 4096"
proof -
  have a: "\<forall>f \<in> set (no_frames s). length (of_bytes f) \<le> 131072 \<and>
      (of_lane f = LaneControl \<longrightarrow> length (of_bytes f) \<le> 4096)"
    using assms by (simp add: lanes_inv_def encoded_frame_def max_line_def control_frame_limit_def)
  show "lane_bytes LaneReply (no_frames s) \<le> length (lane_frames LaneReply (no_frames s)) * 131072"
    by (rule sum_list_bound) (use a in \<open>simp add: lane_frames_def\<close>)
  show "lane_bytes LaneControl (no_frames s) \<le> length (lane_frames LaneControl (no_frames s)) * 4096"
    by (rule sum_list_bound) (use a in \<open>simp add: lane_frames_def\<close>)
qed

lemma output_bytes_bound:
  assumes "slots_inv s" and "lanes_inv s"
  shows "no_bytes s \<le> 10485760"
proof -
  have "length (lane_frames LaneControl (no_frames s)) \<le> 256"
    "lane_bytes LaneReport (no_frames s) \<le> 1048576"
    "no_bytes s = sum_list (map (\<lambda>f. length (of_bytes f)) (no_frames s))"
    using assms(2) unfolding lanes_inv_def control_limit_def report_byte_limit_def by linarith+
  then show ?thesis
    using lane_bytes_total [of "no_frames s"] output_replies_bound [OF assms(1)]
      lane_bytes_bound [OF assms(2)] by linarith
qed

section \<open>Every action keeps the invariant\<close>

lemma output_init_inv: "output_inv (output_init g)"
  by (simp add: output_inv_def output_invs output_init_def output_limits)

lemma offset_inv_append:
  "offset_inv s \<Longrightarrow> encoded_frame (of_bytes f) \<Longrightarrow> no_frames s' = no_frames s @ [f] \<Longrightarrow>
   no_offset s' = no_offset s \<Longrightarrow> offset_inv s'"
  by (auto simp: offset_inv_def encoded_frame_def split: list.splits)

lemma offset_inv_le: "offset_inv s \<Longrightarrow> no_offset s \<le> length (concat (map of_bytes (no_frames s)))"
  by (auto simp: offset_inv_def split: list.splits)

lemma output_slot_unsent:
  "output_slot ticket s = Some False \<Longrightarrow> map_of (no_slots s) (rs_identifier ticket) = Some False"
  by (auto simp: output_slot_def split: if_splits)

lemma output_reserve_inv: "output_inv s \<Longrightarrow> output_inv (snd (output_reserve_reply s))"
proof -
  assume inv: "output_inv s"
  show ?thesis
  proof (cases "length (no_slots s) = reply_limit \<or> no_sequence s = u64_max")
    case True
    then show ?thesis using inv by (simp add: output_reserve_reply_def)
  next
    case False
    let ?k = "no_sequence s + 1"
    have fresh: "map_of (no_slots s) ?k = None"
      using inv by (cases "map_of (no_slots s) ?k") (auto simp: output_inv_def slots_inv_def)
    have "slots_inv (s\<lparr>no_sequence := ?k, no_slots := omap_put ?k False (no_slots s)\<rparr>)"
      using inv False fresh
      by (auto simp: output_inv_def slots_inv_def length_omap_put omap_has_def)
    then show ?thesis
      using inv False
      by (cases "no_frames s")
        (simp_all add: output_reserve_reply_def output_inv_def lanes_inv_def offset_inv_def reports_inv_def)
  qed
qed

lemma output_release_inv: "output_inv s \<Longrightarrow> output_inv (snd (output_release_reply ticket s))"
proof -
  assume inv: "output_inv s"
  show ?thesis
  proof (cases "output_slot ticket s = Some False")
    case True
    let ?k = "rs_identifier ticket"
    have "map_of (no_slots s) ?k = Some False" using True by (rule output_slot_unsent)
    then have "slots_inv (s\<lparr>no_slots := omap_del ?k (no_slots s)\<rparr>)"
      using inv by (auto simp: output_inv_def slots_inv_def length_omap_del)
    then show ?thesis
      using inv True
      by (cases "no_frames s")
        (simp_all add: output_release_reply_def output_inv_def lanes_inv_def offset_inv_def reports_inv_def)
  qed (use inv in \<open>auto simp: output_release_reply_def split: option.splits bool.splits\<close>)
qed

lemma output_add_bytes:
  assumes "output_inv s" and "encoded_frame frame"
  shows "add64 (no_bytes s) (length frame) = no_bytes s + length frame"
  using output_bytes_bound [of s] assms
  by (intro add64_exact) (simp add: output_inv_def encoded_frame_def max_line_def u64_max_def)

lemma output_reply_inv:
  assumes inv: "output_inv s" and frame: "encoded_frame frame"
  shows "output_inv (snd (output_reply ticket frame s))"
proof (cases "output_slot ticket s = Some False")
  case True
  let ?k = "rs_identifier ticket"
  let ?f = "\<lparr>of_bytes = frame, of_lane = LaneReply, of_slot = ?k\<rparr>"
  let ?s = "s\<lparr>no_frames := no_frames s @ [?f], no_bytes := no_bytes s + length frame,
    no_slots := omap_put ?k True (no_slots s)\<rparr>"
  have free: "map_of (no_slots s) ?k = Some False" using True by (rule output_slot_unsent)
  have old: "slots_inv s" "lanes_inv s" "offset_inv s" "reports_inv s"
    using inv by (simp_all add: output_inv_def)
  have "?k \<notin> of_slot ` set (lane_frames LaneReply (no_frames s))"
    using old(1) free by (simp add: slots_inv_def)
  then have "slots_inv ?s"
    using old(1) free by (auto simp: slots_inv_def length_omap_put omap_has_def)
  moreover have "lanes_inv ?s" using old(2) frame by (simp add: lanes_inv_def)
  moreover have "offset_inv ?s" by (rule offset_inv_append [OF old(3), of ?f]) (simp_all add: frame)
  moreover have "reports_inv ?s" using old(4) by (simp add: reports_inv_def)
  ultimately show ?thesis
    using True by (simp add: output_reply_def output_inv_def output_add_bytes [OF inv frame])
qed (use inv in \<open>auto simp: output_reply_def split: option.splits bool.splits\<close>)

lemma output_control_inv:
  assumes inv: "output_inv s" and frame: "encoded_frame frame"
  shows "output_inv (snd (output_control frame s))"
proof (cases "length frame > control_frame_limit \<or> no_control_count s = control_limit")
  case False
  let ?f = "\<lparr>of_bytes = frame, of_lane = LaneControl, of_slot = 0\<rparr>"
  let ?s = "s\<lparr>no_frames := no_frames s @ [?f], no_bytes := no_bytes s + length frame,
    no_control_count := no_control_count s + 1\<rparr>"
  have old: "slots_inv s" "lanes_inv s" "offset_inv s" "reports_inv s"
    using inv by (simp_all add: output_inv_def)
  have "slots_inv ?s" using old(1) by (simp add: slots_inv_def)
  moreover have "lanes_inv ?s" using old(2) frame False by (simp add: lanes_inv_def)
  moreover have "offset_inv ?s" by (rule offset_inv_append [OF old(3), of ?f]) (simp_all add: frame)
  moreover have "reports_inv ?s" using old(4) by (simp add: reports_inv_def)
  ultimately show ?thesis
    using False by (simp add: output_control_def output_inv_def output_add_bytes [OF inv frame])
qed (use inv in \<open>simp add: output_control_def\<close>)

lemma output_report_room:
  assumes "lanes_inv s"
  shows "sub64 report_byte_limit (no_report_bytes s) = report_byte_limit - no_report_bytes s"
  using assms by (intro sub64_exact) (auto simp: lanes_inv_def output_limits)

lemma output_report_inv:
  assumes inv: "output_inv s" and frame: "encoded_frame frame"
  shows "output_inv (snd (output_report frame sequence s))"
proof (cases "fst (output_report frame sequence s)")
  case True
  let ?f = "\<lparr>of_bytes = frame, of_lane = LaneReport, of_slot = sequence\<rparr>"
  let ?s = "s\<lparr>no_frames := no_frames s @ [?f],
    no_admitted := (if sequence \<noteq> 0 then sequence else no_admitted s),
    no_bytes := no_bytes s + length frame, no_report_bytes := no_report_bytes s + length frame,
    no_report_count := no_report_count s + 1\<rparr>"
  have old: "slots_inv s" "lanes_inv s" "offset_inv s" "reports_inv s"
    using inv by (simp_all add: output_inv_def)
  have le: "no_report_bytes s \<le> report_byte_limit" using old(2) by (simp add: lanes_inv_def)
  have open_lane: "\<not> (sequence \<noteq> 0 \<and> sequence \<le> no_admitted s)" "no_report_count s \<noteq> report_limit"
    and room: "no_report_bytes s + length frame \<le> report_byte_limit"
    using True le by (auto simp: output_report_def output_report_room [OF old(2)] split: if_splits)
  have exact: "add64 (no_report_bytes s) (length frame) = no_report_bytes s + length frame"
    using room by (intro add64_exact) (simp add: output_limits)
  have "slots_inv ?s" using old(1) by (simp add: slots_inv_def)
  moreover have "lanes_inv ?s" using old(2) frame open_lane(2) room by (simp add: lanes_inv_def)
  moreover have "offset_inv ?s" by (rule offset_inv_append [OF old(3), of ?f]) (simp_all add: frame)
  moreover have "reports_inv ?s"
    using old(4) open_lane(1)
    by (cases "sequence = 0") (auto simp: reports_inv_def sorted_wrt_append)
  moreover have "snd (output_report frame sequence s) = ?s"
    using True by (auto simp: output_report_def exact output_add_bytes [OF inv frame] split: if_splits)
  ultimately show ?thesis by (simp add: output_inv_def)
next
  case False
  then have "snd (output_report frame sequence s) = s" by (auto simp: output_report_def split: if_splits)
  then show ?thesis using inv by simp
qed

lemma output_transmitted_lanes:
  assumes "lanes_inv s" and "no_frames s = f # rest" and "no_bytes s \<le> 10485760"
  shows "lanes_inv (output_transmitted s)"
proof (cases "of_lane f")
  case LaneReply
  then show ?thesis using assms by (simp add: lanes_inv_def output_transmitted_def u64 u64_max_def)
next
  case LaneControl
  then show ?thesis
    using assms by (simp add: lanes_inv_def output_transmitted_def u64 u64_max_def control_limit_def)
next
  case LaneReport
  then show ?thesis
    using assms by (simp add: lanes_inv_def output_transmitted_def u64 output_limits Let_def)
qed

lemma output_transmitted_slots:
  assumes "slots_inv s" and "no_frames s = f # rest"
  shows "slots_inv (output_transmitted s)"
  using assms
  by (cases "of_lane f") (auto simp: slots_inv_def output_transmitted_def length_omap_del Let_def)

lemma output_transmitted_reports:
  assumes "reports_inv s" and "no_frames s = f # rest"
  shows "reports_inv (output_transmitted s)"
  using assms by (cases "of_lane f") (auto simp: reports_inv_def output_transmitted_def Let_def split: if_splits)

lemma output_transmitted_frames:
  "no_frames s = f # rest \<Longrightarrow> no_frames (output_transmitted s) = rest"
  "no_frames s = f # rest \<Longrightarrow> no_offset (output_transmitted s) = 0"
  by (simp_all add: output_transmitted_def Let_def)

lemma output_transmitted_inv:
  assumes "slots_inv s" "lanes_inv s" "reports_inv s" and fs: "no_frames s = f # rest"
  shows "output_inv (output_transmitted s)"
proof -
  have "offset_inv (output_transmitted s)"
    using assms(2) fs by (auto simp: offset_inv_def output_transmitted_frames lanes_inv_def
      encoded_frame_def split: list.splits)
  then show ?thesis
    using output_transmitted_slots [OF assms(1) fs] output_transmitted_reports [OF assms(3) fs]
      output_transmitted_lanes [OF assms(2) fs output_bytes_bound [OF assms(1,2)]]
    by (simp add: output_inv_def)
qed

text \<open>The state after one successful write of \<open>n\<close> bytes.\<close>

definition output_wrote :: "nat \<Rightarrow> out_frame \<Rightarrow> native_output \<Rightarrow> native_output" where
  "output_wrote n frame s =
     (let s1 = s\<lparr>no_offset := no_offset s + n\<rparr>
      in if no_offset s1 = length (of_bytes frame) then output_transmitted s1 else s1)"

lemma output_wrote_inv:
  assumes inv: "output_inv s" and fs: "no_frames s = f # rest"
    and n: "n \<le> length (of_bytes f) - no_offset s"
  shows "output_inv (output_wrote n f s)"
proof -
  have old: "slots_inv s" "lanes_inv s" "offset_inv s" "reports_inv s"
    using inv by (simp_all add: output_inv_def)
  let ?s = "s\<lparr>no_offset := no_offset s + n\<rparr>"
  have keep: "slots_inv ?s" "lanes_inv ?s" "reports_inv ?s"
    using old by (simp_all add: slots_inv_def lanes_inv_def reports_inv_def)
  show ?thesis
  proof (cases "no_offset s + n = length (of_bytes f)")
    case True
    then show ?thesis
      using output_transmitted_inv [OF keep, of f rest] fs by (simp add: output_wrote_def)
  next
    case False
    then have "offset_inv ?s" using old(3) fs n by (simp add: offset_inv_def)
    then show ?thesis using False keep by (simp add: output_wrote_def output_inv_def)
  qed
qed

lemma output_wrote_owed:
  assumes inv: "output_inv s" and fs: "no_frames s = f # rest"
    and n: "n \<le> length (of_bytes f) - no_offset s"
  shows "take n (drop (no_offset s) (of_bytes f)) @ output_owed (output_wrote n f s) = output_owed s"
proof -
  have off: "no_offset s < length (of_bytes f)"
    using inv fs by (simp add: output_inv_def offset_inv_def)
  show ?thesis
  proof (cases "no_offset s + n = length (of_bytes f)")
    case True
    then show ?thesis
      using off fs by (simp add: output_wrote_def output_owed_def output_transmitted_frames)
  next
    case False
    then have "take n (drop (no_offset s) (of_bytes f)) @ drop (no_offset s + n) (of_bytes f) =
        drop (no_offset s) (of_bytes f)"
      by (metis add.commute append_take_drop_id drop_drop)
    then show ?thesis using False off n fs by (simp add: output_wrote_def output_owed_def)
  qed
qed

lemma output_flush_loop_wrote:
  assumes "no_frames s = f # rest" and "budget \<noteq> 0"
    and "data = take (min budget (length (of_bytes f) - no_offset s)) (drop (no_offset s) (of_bytes f))"
    and "fd attempts data = Wrote n" and "n \<noteq> 0"
  shows "output_flush_loop fd (Suc attempts) budget s =
    (let (outcome, written, s') = output_flush_loop fd attempts (budget - n) (output_wrote n f s)
     in (outcome, take n data @ written, s'))"
  using assms by (simp add: output_wrote_def Let_def)

lemma output_flush_loop_channel:
  assumes "descriptor_ok fd" and "output_inv s"
    and "output_flush_loop fd attempts budget s = (outcome, written, s')"
  shows "output_inv s' \<and> written @ output_owed s' = output_owed s \<and> length written \<le> budget"
  using assms(2,3)
proof (induction attempts arbitrary: budget s outcome written s')
  case (Suc attempts)
  show ?case
  proof (cases "no_frames s = [] \<or> budget = 0")
    case True
    then show ?thesis using Suc.prems by (auto split: list.splits)
  next
    case False
    then obtain f rest where fs: "no_frames s = f # rest" by (cases "no_frames s") auto
    define data where
      "data = take (min budget (length (of_bytes f) - no_offset s)) (drop (no_offset s) (of_bytes f))"
    show ?thesis
    proof (cases "\<exists>n. fd attempts data = Wrote n \<and> n \<noteq> 0")
      case True
      then obtain n where w: "fd attempts data = Wrote n" "n \<noteq> 0" by auto
      have n: "n \<le> length data" using descriptor_okD [OF assms(1) w(1)] .
      then have le: "n \<le> length (of_bytes f) - no_offset s" "n \<le> budget" by (auto simp: data_def)
      obtain out wr s1 where
        r: "output_flush_loop fd attempts (budget - n) (output_wrote n f s) = (out, wr, s1)"
        by (cases "output_flush_loop fd attempts (budget - n) (output_wrote n f s)")
      have ih: "output_inv s1 \<and> wr @ output_owed s1 = output_owed (output_wrote n f s) \<and>
          length wr \<le> budget - n"
        by (rule Suc.IH [OF output_wrote_inv [OF Suc.prems(1) fs le(1)] r])
      have "written = take n data @ wr" "s' = s1"
        using Suc.prems(2) output_flush_loop_wrote [where fd = fd, OF fs _ data_def w] False r by auto
      moreover have "take n data = take n (drop (no_offset s) (of_bytes f))"
        using le by (simp add: data_def min_def)
      ultimately show ?thesis
        using ih output_wrote_owed [OF Suc.prems(1) fs le(1)] le by (metis (no_types, lifting)
          add_le_cancel_left append.assoc le_add_diff_inverse length_append length_take min.absorb2 n)
    next
      case no_write: False
      then consider "fd attempts data = Interrupted" | "written = [] \<and> s' = s"
        using Suc.prems(2) fs False
        by (cases "fd attempts data") (auto simp: Let_def data_def [symmetric] split: if_splits)
      then show ?thesis
      proof cases
        case 1
        then show ?thesis
          using Suc.IH [OF Suc.prems(1), of budget] Suc.prems(2) fs False
          by (simp add: Let_def data_def [symmetric])
      qed (use Suc.prems(1) in simp)
    qed
  qed
qed simp

lemma output_flush_channel:
  assumes "descriptor_ok fd" and "output_inv s"
    and "output_flush fd nonblocking budget s = (outcome, written, s')"
  shows "output_inv s' \<and> written @ output_owed s' = output_owed s \<and> length written \<le> budget"
  using assms output_flush_loop_channel [OF assms(1,2)]
  by (auto simp: output_flush_def split: if_splits)

lemma output_reply_owed:
  "offset_inv s \<Longrightarrow> output_owed (snd (output_reply ticket frame s)) =
     output_owed s @ (if fst (output_reply ticket frame s) then frame else [])"
  by (cases "output_slot ticket s = Some False")
    (auto simp: output_reply_def output_owed_def dest!: offset_inv_le split: option.splits bool.splits)

lemma output_control_owed:
  "offset_inv s \<Longrightarrow> output_owed (snd (output_control frame s)) =
     output_owed s @ (if fst (output_control frame s) then frame else [])"
  by (drule offset_inv_le) (simp add: output_control_def output_owed_def)

lemma output_report_owed:
  "offset_inv s \<Longrightarrow> output_owed (snd (output_report frame sequence s)) =
     output_owed s @ (if fst (output_report frame sequence s) then frame else [])"
  by (drule offset_inv_le) (simp add: output_report_def output_owed_def)

lemma output_unsent_owed:
  "output_owed (snd (output_reserve_reply s)) = output_owed s"
  "output_owed (snd (output_release_reply ticket s)) = output_owed s"
  by (auto simp: output_reserve_reply_def output_release_reply_def output_owed_def Let_def
      split: option.splits bool.splits)

lemma output_step_channel:
  assumes inv: "output_inv s" and ok: "output_allowed a" and step: "output_step a s = (acc, wr, s')"
  shows "output_inv s' \<and> wr @ output_owed s' = output_owed s @ acc"
proof -
  have off: "offset_inv s" using inv by (simp add: output_inv_def)
  show ?thesis
  proof (cases a)
    case ReserveReply
    then show ?thesis using step output_reserve_inv [OF inv] output_unsent_owed(1) [of s] by auto
  next
    case (ReleaseReply ticket)
    then show ?thesis
      using step output_release_inv [OF inv, of ticket] output_unsent_owed(2) [of ticket s] by auto
  next
    case (SendReply ticket frame)
    then show ?thesis using step ok output_reply_inv [OF inv, of frame ticket]
        output_reply_owed [OF off, of ticket frame] by (auto simp: sent_def)
  next
    case (SendControl frame)
    then show ?thesis using step ok output_control_inv [OF inv, of frame]
        output_control_owed [OF off, of frame] by (auto simp: sent_def)
  next
    case (SendReport frame sequence)
    then show ?thesis using step ok output_report_inv [OF inv, of frame sequence]
        output_report_owed [OF off, of frame sequence] by (auto simp: sent_def)
  next
    case (FlushTurn fd nonblocking budget)
    obtain outcome written s1 where f: "output_flush fd nonblocking budget s = (outcome, written, s1)"
      by (cases "output_flush fd nonblocking budget s")
    then have "acc = []" "wr = written" "s' = s1" using FlushTurn step by auto
    then show ?thesis using output_flush_channel [OF _ inv f] FlushTurn ok by simp
  qed
qed

interpretation ble_out: byte_channel output_step output_inv output_allowed output_owed
  by unfold_locales (use output_step_channel in blast)+

section \<open>What encoding accepts\<close>

lemma json_within_children:
  "json_within (Suc d) v \<longleftrightarrow> \<not> json_refused v \<and>
     (json_structured v \<longrightarrow> json_size v \<le> 1024 \<and> (\<forall>c \<in> set (json_children v). json_within d c))"
  by (cases v) auto

lemma json_structured_size: "json_structured v \<Longrightarrow> json_size v = length (json_children v)"
  by (cases v) auto

lemma json_leaf_nodes: "\<not> json_structured v \<Longrightarrow> json_nodes v = 1"
  by (cases v) auto

abbreviation pending_nodes :: "(json \<times> nat) list \<Rightarrow> nat" where
  "pending_nodes ps \<equiv> sum_list (map (\<lambda>p. json_nodes (fst p)) ps)"

lemma pending_children:
  "pending_nodes (rev (map (\<lambda>child. (child, depth)) xs)) = sum_list (map json_nodes xs)"
  by (simp add: rev_map [symmetric] comp_def sum_list_rev)

lemma pending_length: "length ps \<le> pending_nodes ps"
  using json_size_le_nodes [of "map fst ps"] by (simp add: comp_def)

text \<open>
  The loop with its early refusals decides exactly the recursive bound: the test against the nodes that
  are still pending never refuses a value the node limit would admit, and never underflows.
\<close>

lemma validate_loop_exact:
  "visited + length ps \<le> 4096 \<Longrightarrow>
   validate_loop ps visited \<longleftrightarrow>
     visited + pending_nodes ps \<le> 4096 \<and> (\<forall>(v, d) \<in> set ps. json_within (9 - d) v)"
proof (induction ps visited rule: validate_loop.induct)
  case (2 item depth pending visited)
  show ?case
  proof (cases "depth > 8 \<or> json_refused item")
    case True
    then have "\<not> json_within (9 - depth) item" by (cases "9 - depth") (auto simp: json_within_children)
    then show ?thesis using True by auto
  next
    case False
    then have d: "9 - depth = Suc (8 - depth)" and le: "\<not> visited + 1 > 4096"
      using "2.prems" by auto
    have room: "sub64 (4096 - (visited + 1)) (length pending) = 4096 - (visited + 1) - length pending"
      using "2.prems" by (intro sub64_exact) (simp_all add: u64_max_def)
    show ?thesis
    proof (cases "json_structured item")
      case leaf: False
      then have "validate_loop ((item, depth) # pending) visited = validate_loop pending (visited + 1)"
        using False le by simp
      then show ?thesis
        using "2.IH"(2) [OF refl _ leaf] False le leaf "2.prems"
        by (simp add: d json_within_children json_leaf_nodes)
    next
      case s: True
      let ?new = "rev (map (\<lambda>child. (child, depth + 1)) (json_children item))"
      have len: "length ?new = json_size item" using s by (simp add: json_structured_size)
      show ?thesis
      proof (cases "json_size item > 1024 \<or> json_size item > 4096 - (visited + 1) - length pending")
        case True
        have "json_size item \<le> pending_nodes ?new" "length pending \<le> pending_nodes pending"
          using pending_length [of ?new] pending_length len by auto
        then show ?thesis
          using True False le s room "2.prems" json_children_nodes [of item]
          by (auto simp: d json_within_children pending_children)
      next
        case small: False
        have "validate_loop ((item, depth) # pending) visited = validate_loop (?new @ pending) (visited + 1)"
          using False le s small room by simp
        moreover have "validate_loop (?new @ pending) (visited + 1) \<longleftrightarrow>
            visited + 1 + pending_nodes (?new @ pending) \<le> 4096 \<and>
            (\<forall>(v, d) \<in> set (?new @ pending). json_within (9 - d) v)"
        proof -
          have fits: "visited + 1 + length (?new @ pending) \<le> 4096" using small "2.prems" len by auto
          show ?thesis by (rule "2.IH"(1) [OF refl _ s _ fits]) (use False le small room in auto)
        qed
        moreover have "(\<forall>(v, d) \<in> set (?new @ pending). json_within (9 - d) v) \<longleftrightarrow>
            (\<forall>(v, d) \<in> set ((item, depth) # pending). json_within (9 - d) v)"
          using False s small by (simp add: ball_Un d json_within_children)
        moreover have "visited + 1 + pending_nodes (?new @ pending) = visited + pending_nodes ((item, depth) # pending)"
          using json_children_nodes [of item] by (simp add: pending_children)
        ultimately show ?thesis by (simp only:)
      qed
    qed
  qed
qed simp

lemma encoded_validate_exact: "encoded_validate v \<longleftrightarrow> json_bounded v"
  using validate_loop_exact [of 0 "[(v, 1)]"] by (simp add: encoded_validate_def json_bounded_def)

fun write_text :: "stream_write \<Rightarrow> string" where
  "write_text (WriteChars bs) = bs"
| "write_text (PutChar c) = [c]"

lemma buffer_writes_exact:
  "length value \<le> limit \<Longrightarrow>
   buffer_writes limit value ws =
     (let total = value @ concat (map write_text ws) in if length total \<le> limit then Some total else None)"
proof (induction ws arbitrary: "value")
  case (Cons w ws)
  show ?case
  proof (cases "length value + length (write_text w) \<le> limit")
    case True
    then have "buffer_write limit value w = Some (value @ write_text w)"
      by (cases w) (auto simp: Suc_le_eq)
    then show ?thesis using Cons.IH [of "value @ write_text w"] True by (simp add: Let_def)
  next
    case False
    then have "buffer_write limit value w = None" using Cons.prems by (cases w) auto
    then show ?thesis using False by (simp add: Let_def)
  qed
qed simp

definition serialized :: "serializer \<Rightarrow> json \<Rightarrow> string" where
  "serialized serialize v = concat (map write_text (serialize v))"

lemma encoded_from_exact:
  "encoded_from serialize v limit =
     (if 0 < limit \<and> limit \<le> max_line \<and> json_bounded v \<and> length (serialized serialize v) < limit
      then Inr (serialized serialize v @ [newline]) else Inl InvalidFrame)"
  by (auto simp: encoded_from_def encoded_validate_exact buffer_writes_exact serialized_def Let_def)

section \<open>A reservation is kept until it is used\<close>

definition out_state :: "out_action list \<Rightarrow> native_output \<Rightarrow> native_output" where
  "out_state as s = run_actions (\<lambda>a s. snd (snd (output_step a s))) as s"

text \<open>Whether an action uses a given ticket.\<close>

fun uses_ticket :: "reply_slot \<Rightarrow> out_action \<Rightarrow> bool" where
  "uses_ticket t (ReleaseReply t') = (t' = t)"
| "uses_ticket t (SendReply t' frame) = (t' = t)"
| "uses_ticket t _ = False"

lemma output_transmitted_slot:
  assumes "slots_inv s" and "no_frames s = f # rest" and "map_of (no_slots s) k = Some False"
  shows "map_of (no_slots (output_transmitted s)) k = Some False"
proof (cases "of_lane f")
  case LaneReply
  then have "map_of (no_slots s) (of_slot f) = Some True"
    using assms(1,2) by (auto simp: slots_inv_def)
  then have "k \<noteq> of_slot f" using assms(3) by auto
  then show ?thesis
    using LaneReply assms by (simp add: output_transmitted_def slots_inv_def Let_def)
qed (use assms in \<open>simp_all add: output_transmitted_def Let_def\<close>)

lemma output_transmitted_generation: "no_generation (output_transmitted s) = no_generation s"
  by (auto simp: output_transmitted_def Let_def split: list.splits lane.splits)

definition holds_slot :: "u64 \<Rightarrow> native_output \<Rightarrow> native_output \<Rightarrow> bool" where
  "holds_slot k s s' \<longleftrightarrow> map_of (no_slots s') k = Some False \<and> no_generation s' = no_generation s"

lemma output_wrote_slot:
  assumes "output_inv s" and "no_frames s = f # rest" and "map_of (no_slots s) k = Some False"
  shows "holds_slot k s (output_wrote n f s)"
proof -
  let ?s = "s\<lparr>no_offset := no_offset s + n\<rparr>"
  have "slots_inv ?s" using assms(1) by (simp add: output_inv_def slots_inv_def)
  then have "holds_slot k s (output_transmitted ?s)"
    using output_transmitted_slot [of ?s f rest k] output_transmitted_generation [of ?s] assms
    by (simp add: holds_slot_def)
  then show ?thesis using assms(3) by (auto simp: output_wrote_def holds_slot_def Let_def)
qed

text \<open>What a completed write keeps, a flush turn keeps.\<close>

lemma output_flush_loop_rule:
  assumes "descriptor_ok fd" and "output_inv s" and "P s"
    and step: "\<And>s f rest n. output_inv s \<Longrightarrow> no_frames s = f # rest \<Longrightarrow>
      n \<le> length (of_bytes f) - no_offset s \<Longrightarrow> P s \<Longrightarrow> P (output_wrote n f s)"
  shows "P (snd (snd (output_flush_loop fd attempts budget s)))"
  using assms(2,3)
proof (induction attempts arbitrary: budget s)
  case (Suc attempts)
  show ?case
  proof (cases "no_frames s = [] \<or> budget = 0")
    case True
    then show ?thesis using Suc.prems by (auto split: list.splits)
  next
    case False
    then obtain f rest where fs: "no_frames s = f # rest" by (cases "no_frames s") auto
    define data where
      "data = take (min budget (length (of_bytes f) - no_offset s)) (drop (no_offset s) (of_bytes f))"
    show ?thesis
    proof (cases "\<exists>n. fd attempts data = Wrote n \<and> n \<noteq> 0")
      case True
      then obtain n where w: "fd attempts data = Wrote n" "n \<noteq> 0" by auto
      have le: "n \<le> length (of_bytes f) - no_offset s"
        using descriptor_okD [OF assms(1) w(1)] by (simp add: data_def)
      have "P (snd (snd (output_flush_loop fd attempts (budget - n) (output_wrote n f s))))"
        using Suc.IH [OF output_wrote_inv [OF Suc.prems(1) fs le] step [OF Suc.prems(1) fs le Suc.prems(2)]] .
      then show ?thesis
        using output_flush_loop_wrote [where fd = fd, OF fs _ data_def w] False by (simp split: prod.splits)
    next
      case no_write: False
      then show ?thesis
        using Suc.IH [OF Suc.prems] Suc.prems fs False
        by (cases "fd attempts data") (simp_all add: Let_def data_def [symmetric])
    qed
  qed
qed simp

lemma output_flush_rule:
  assumes "descriptor_ok fd" and "output_inv s" and "P s"
    and "\<And>s f rest n. output_inv s \<Longrightarrow> no_frames s = f # rest \<Longrightarrow>
      n \<le> length (of_bytes f) - no_offset s \<Longrightarrow> P s \<Longrightarrow> P (output_wrote n f s)"
  shows "P (snd (snd (output_flush fd nonblocking budget s)))"
  using output_flush_loop_rule [where P = P, OF assms] assms(3) by (simp add: output_flush_def)

lemma output_flush_slot:
  assumes "descriptor_ok fd" and "output_inv s" and "map_of (no_slots s) k = Some False"
  shows "holds_slot k s (snd (snd (output_flush fd nonblocking budget s)))"
proof (rule output_flush_rule [where P = "holds_slot k s", OF assms(1,2)])
  show "holds_slot k s s" using assms(3) by (simp add: holds_slot_def)
next
  fix s' f rest n
  assume "output_inv s'" "no_frames s' = f # rest" and h: "holds_slot k s s'"
  then have "holds_slot k s' (output_wrote n f s')"
    by (intro output_wrote_slot) (auto simp: holds_slot_def)
  then show "holds_slot k s (output_wrote n f s')" using h by (simp add: holds_slot_def)
qed

lemma output_step_slot:
  assumes "output_inv s" and "output_allowed a" and "map_of (no_slots s) k = Some False"
    and "\<not> uses_ticket \<lparr>rs_generation = Some (no_generation s), rs_identifier = k\<rparr> a"
  shows "holds_slot k s (snd (snd (output_step a s)))"
proof (cases a)
  case ReserveReply
  then show ?thesis using assms by (auto simp: output_reserve_reply_def holds_slot_def Let_def slots_inv_def output_inv_def)
next
  case (ReleaseReply t)
  then have "output_slot t s = Some False \<Longrightarrow> rs_identifier t \<noteq> k"
    using assms(4) by (cases t) (auto simp: output_slot_def split: if_splits)
  then show ?thesis
    using ReleaseReply assms
    by (auto simp: output_release_reply_def holds_slot_def slots_inv_def output_inv_def split: option.splits bool.splits)
next
  case (SendReply t frame)
  then have "output_slot t s = Some False \<Longrightarrow> rs_identifier t \<noteq> k"
    using assms(4) by (cases t) (auto simp: output_slot_def split: if_splits)
  then show ?thesis
    using SendReply assms by (auto simp: sent_def output_reply_def holds_slot_def split: option.splits bool.splits)
next
  case (FlushTurn fd nonblocking budget)
  then show ?thesis
    using output_flush_slot [of fd s k nonblocking budget] assms by (auto split: prod.splits)
qed (use assms in \<open>auto simp: sent_def output_control_def output_report_def holds_slot_def\<close>)

lemma out_state_slot:
  assumes "output_inv s" and "list_all output_allowed as" and "map_of (no_slots s) k = Some False"
    and "list_all (\<lambda>a. \<not> uses_ticket \<lparr>rs_generation = Some (no_generation s), rs_identifier = k\<rparr> a) as"
  shows "holds_slot k s (out_state as s)"
  using assms
proof (induction as arbitrary: s)
  case Nil
  then show ?case by (simp add: out_state_def holds_slot_def)
next
  case (Cons a as)
  let ?s = "snd (snd (output_step a s))"
  have h: "holds_slot k s ?s" using Cons.prems by (intro output_step_slot) auto
  have "output_inv ?s" using ble_out.step_inv [of s a] Cons.prems by simp
  then have "holds_slot k ?s (out_state as ?s)"
    using Cons h by (intro Cons.IH) (auto simp: holds_slot_def)
  then show ?case using h by (simp add: out_state_def holds_slot_def)
qed

section \<open>A writable descriptor drains the output\<close>

definition willing :: descriptor where
  "willing = (\<lambda>n data. Wrote (length data))"

lemma output_flush_loop_drains:
  assumes "output_inv s" and "length (no_frames s) \<le> attempts" and "length (output_owed s) \<le> budget"
  shows "\<exists>s'. output_flush_loop willing attempts budget s = (FlushReturned, output_owed s, s') \<and>
    no_frames s' = []"
  using assms
proof (induction attempts arbitrary: budget s)
  case 0
  then show ?case by (auto simp: output_owed_def)
next
  case (Suc attempts)
  show ?case
  proof (cases "no_frames s")
    case Nil
    then show ?thesis by (simp add: output_owed_def)
  next
    case (Cons f rest)
    let ?d = "drop (no_offset s) (of_bytes f)"
    have off: "no_offset s < length (of_bytes f)"
      using Suc.prems Cons by (simp add: output_inv_def offset_inv_def)
    have owed: "output_owed s = ?d @ concat (map of_bytes rest)"
      using Cons off by (simp add: output_owed_def)
    then have le: "length ?d \<le> budget" "budget \<noteq> 0" using Suc.prems(3) off by auto
    let ?s = "output_wrote (length ?d) f s"
    have fr: "no_frames ?s = rest" "no_offset ?s = 0"
      using Cons off by (simp_all add: output_wrote_def output_transmitted_frames)
    have o: "output_owed ?s = concat (map of_bytes rest)" unfolding output_owed_def fr by simp
    have inv: "output_inv ?s" using Suc.prems(1) Cons by (intro output_wrote_inv) auto
    have "\<exists>s'. output_flush_loop willing attempts (budget - length ?d) ?s =
        (FlushReturned, output_owed ?s, s') \<and> no_frames s' = []"
    proof (rule Suc.IH [OF inv])
      show "length (no_frames ?s) \<le> attempts" unfolding fr using Suc.prems(2) Cons by simp
      show "length (output_owed ?s) \<le> budget - length ?d" unfolding o using Suc.prems(3) owed by simp
    qed
    then obtain s' where r: "output_flush_loop willing attempts (budget - length ?d) ?s =
        (FlushReturned, concat (map of_bytes rest), s')" "no_frames s' = []" unfolding o by blast
    have d: "?d = take (min budget (length (of_bytes f) - no_offset s)) ?d" using le by simp
    have w: "willing attempts ?d = Wrote (length ?d)" by (simp add: willing_def)
    have "output_flush_loop willing (Suc attempts) budget s = (FlushReturned, output_owed s, s')"
      using output_flush_loop_wrote [where fd = willing, OF Cons le(2) d w] off r(1) owed by simp
    then show ?thesis using r(2) by blast
  qed
qed

section \<open>Properties\<close>

text \<open>
  C9: over any sequence of calls on a fresh \<open>NativeOutput\<close>, with any POSIX descriptor, the bytes written
  followed by the bytes still owed are exactly the accepted frames in the order of acceptance: nothing is
  lost, repeated, reordered or invented, across partial writes, interrupts and blocked turns.
\<close>

theorem output_fifo:
  assumes "list_all output_allowed as" and "channel_run output_step as (output_init g) = (acc, wr, s)"
  shows "wr @ output_owed s = acc"
  using ble_out.run_channel [OF output_init_inv assms] by (simp add: output_owed_def output_init_def)

theorem output_fifo_witness:
  "let (acc, wr, s) = channel_run output_step [SendControl ''hi'', FlushTurn willing True 1] (output_init 0)
   in wr @ output_owed s = acc"
proof -
  let ?as = "[SendControl ''hi'', FlushTurn willing True 1]"
  have "list_all output_allowed ?as" by (simp add: encoded_frame_def max_line_def descriptor_ok_def willing_def)
  from output_fifo [OF this] show ?thesis
    by (cases "channel_run output_step ?as (output_init 0)") simp
qed

text \<open>
  The retained bytes are exactly the sum of the queued frames and never exceed 10 MiB (64 replies of
  128 KiB, 256 control frames of 4 KiB and 1 MiB of reports), the lane counters are the lane lengths, and
  at most 64 reservations exist; no unsigned counter of the output ever wraps.
\<close>

theorem output_bounded:
  assumes "list_all output_allowed as"
  shows "let s = out_state as (output_init g)
    in no_bytes s = sum_list (map (\<lambda>f. length (of_bytes f)) (no_frames s)) \<and> no_bytes s \<le> 10485760 \<and>
       length (no_slots s) \<le> 64 \<and>
       no_control_count s = length (lane_frames LaneControl (no_frames s)) \<and> no_control_count s \<le> 256 \<and>
       no_report_count s = length (lane_frames LaneReport (no_frames s)) \<and> no_report_count s \<le> 64 \<and>
       no_report_bytes s = lane_bytes LaneReport (no_frames s) \<and> no_report_bytes s \<le> 1048576"
proof -
  have "output_inv (out_state as (output_init g))"
    using ble_out.run_inv [OF output_init_inv assms] by (simp add: out_state_def)
  then have "slots_inv (out_state as (output_init g))" "lanes_inv (out_state as (output_init g))"
    by (simp_all add: output_inv_def)
  then show ?thesis
    using output_bytes_bound [of "out_state as (output_init g)"]
    unfolding Let_def slots_inv_def lanes_inv_def output_limits by blast
qed

theorem output_bounded_witness: "no_bytes (out_state [SendControl ''hi''] (output_init 0)) \<le> 10485760"
  using output_bounded [of "[SendControl ''hi'']" 0] by (simp add: Let_def encoded_frame_def max_line_def)

text \<open>
  A reply reservation is a guarantee.  Once \<open>reserve_reply\<close> returned a ticket, \<open>reply\<close> on that ticket
  is accepted after any other traffic, however full the lanes are, unless the ticket itself was used.
\<close>

theorem output_reservation_kept:
  assumes "output_inv s" and "output_reserve_reply s = (Some ticket, s')"
    and "list_all output_allowed as" and "list_all (\<lambda>a. \<not> uses_ticket ticket a) as"
  shows "fst (output_reply ticket frame (out_state as s'))"
proof -
  have t: "ticket = \<lparr>rs_generation = Some (no_generation s), rs_identifier = no_sequence s + 1\<rparr>"
    and s': "s' = s\<lparr>no_sequence := no_sequence s + 1,
      no_slots := omap_put (no_sequence s + 1) False (no_slots s)\<rparr>"
    using assms(2) by (auto simp: output_reserve_reply_def Let_def split: if_splits)
  have "holds_slot (no_sequence s + 1) s' (out_state as s')"
    using output_reserve_inv [OF assms(1)] assms by (intro out_state_slot) (auto simp: t s' output_inv_def slots_inv_def)
  then show ?thesis by (simp add: output_reply_def output_slot_def t s' holds_slot_def)
qed

theorem output_reservation_kept_witness:
  "fst (output_reply \<lparr>rs_generation = Some 0, rs_identifier = 1\<rparr> ''ok''
     (out_state [SendControl ''hi''] (snd (output_reserve_reply (output_init 0)))))"
  by (rule output_reservation_kept [OF output_init_inv [of 0]])
    (simp_all add: output_reserve_reply_def output_init_def reply_limit_def u64_max_def encoded_frame_def max_line_def)

text \<open>
  \<open>EncodedFrame::from\<close> succeeds exactly for a bounded value whose text and newline fit the limit, and
  then returns that text and the newline; every other value is refused before it reaches a queue.
\<close>

theorem encoded_from_accepts:
  "encoded_from serialize v limit =
     (if 0 < limit \<and> limit \<le> 131072 \<and> json_bounded v \<and> length (serialized serialize v) < limit
      then Inr (serialized serialize v @ [newline]) else Inl InvalidFrame)"
  unfolding encoded_from_exact max_line_def ..



end
