(* ===== verification/Ble_Credit.thy ===== *)
theory Ble_Credit
  imports Ble_Frame Wotex_Channel
begin

text \<open>
  Report credits of the BlueZ host (\<open>credit.hpp\<close>): \<open>Credits\<close> keeps what was sent and not acknowledged,
  per stream and in total, and releases it by cumulative acknowledgements.  Every exception leaves the
  object unchanged, so an operation is a result and a next state, or \<open>Thrown\<close>; \<open>Undefined\<close> stands for
  the dereference of \<open>streams_.end()\<close> in \<open>acknowledge\<close>, which is shown never to happen.
\<close>

section \<open>Model\<close>

record credit_stream =
  cs_window :: nat
  cs_outstanding :: nat
  cs_last_sequence :: u64
  cs_live :: bool

record credit_record =
  cr_sequence :: u64
  cr_stream :: u64
  cr_bytes :: nat

record credits =
  cd_generation :: string
  cd_streams :: "(u64 \<times> credit_stream) list"
  cd_records :: "credit_record list"
  cd_live :: nat
  cd_bytes :: nat
  cd_greatest_stream :: u64
  cd_sequence :: u64
  cd_sent_bytes :: u64
  cd_ack_sequence :: u64
  cd_ack_bytes :: u64

definition frame_limit :: nat where "frame_limit = 64"
definition byte_limit :: nat where "byte_limit = 1048576"

definition credits_init :: "string \<Rightarrow> frame_error + credits" where
  "credits_init generation =
     (if \<not> hex_token generation then Inl InvalidFrame
      else Inr \<lparr>cd_generation = generation, cd_streams = [], cd_records = [], cd_live = 0, cd_bytes = 0,
             cd_greatest_stream = 0, cd_sequence = 0, cd_sent_bytes = 0, cd_ack_sequence = 0,
             cd_ack_bytes = 0\<rparr>)"

definition credits_open ::
  "u64 \<Rightarrow> nat \<Rightarrow> credits \<Rightarrow> (frame_error, bool \<times> credits) outcome" where
  "credits_open identifier queue_limit s =
     (if identifier = 0 \<or> identifier \<le> cd_greatest_stream s \<or> queue_limit = 0 \<or> queue_limit > 10000
      then Thrown InvalidFrame
      else if cd_live s = 64 then Returned (False, s)
      else Returned (True, s\<lparr>cd_greatest_stream := identifier,
             cd_streams := omap_emplace identifier
               \<lparr>cs_window = min 16 queue_limit, cs_outstanding = 0, cs_last_sequence = 0, cs_live = True\<rparr>
               (cd_streams s),
             cd_live := cd_live s + 1\<rparr>))"

definition credits_reserve ::
  "u64 \<Rightarrow> nat \<Rightarrow> credits \<Rightarrow> (frame_error, u64 option \<times> credits) outcome" where
  "credits_reserve identifier bytes s =
     (case map_of (cd_streams s) identifier of
        None \<Rightarrow> Thrown InvalidFrame
      | Some stream \<Rightarrow>
          (if \<not> cs_live stream \<or> bytes = 0 \<or> bytes > max_line then Thrown InvalidFrame
           else if length (cd_records s) = frame_limit \<or> bytes > sub64 byte_limit (cd_bytes s) \<or>
                   cs_outstanding stream = cs_window stream
           then Returned (None, s)
           else if cd_sequence s = u64_max \<or> bytes > u64_max - cd_sent_bytes s
           then Thrown InvalidFrame
           else let next = cd_sequence s + 1
           in Returned (Some next, s\<lparr>
                cd_records := cd_records s @
                  [\<lparr>cr_sequence = next, cr_stream = identifier, cr_bytes = bytes\<rparr>],
                cd_sequence := next,
                cd_sent_bytes := add64 (cd_sent_bytes s) bytes,
                cd_bytes := add64 (cd_bytes s) bytes,
                cd_streams := omap_put identifier
                  (stream\<lparr>cs_outstanding := add64 (cs_outstanding stream) 1, cs_last_sequence := next\<rparr>)
                  (cd_streams s)\<rparr>)))"

fun expected_bytes :: "u64 \<Rightarrow> u64 \<Rightarrow> credit_record list \<Rightarrow> u64" where
  "expected_bytes sequence acc [] = acc"
| "expected_bytes sequence acc (r # rs) =
     (if cr_sequence r > sequence then acc
      else expected_bytes sequence (add64 acc (cr_bytes r)) rs)"

text \<open>The loop that pops acknowledged records; its list argument is \<open>records_\<close>.\<close>

fun credits_release :: "u64 \<Rightarrow> credit_record list \<Rightarrow> credits \<Rightarrow> credits option" where
  "credits_release sequence [] s = Some s"
| "credits_release sequence (r # rs) s =
     (if \<not> cr_sequence r \<le> sequence then Some s
      else case map_of (cd_streams s) (cr_stream r) of
             None \<Rightarrow> None
           | Some stream \<Rightarrow>
               (let stream' = stream\<lparr>cs_outstanding := sub64 (cs_outstanding stream) 1\<rparr>
                in credits_release sequence rs
                     (s\<lparr>cd_streams :=
                          (if \<not> cs_live stream' \<and> cs_outstanding stream' = 0
                           then omap_del (cr_stream r) (cd_streams s)
                           else omap_put (cr_stream r) stream' (cd_streams s)),
                        cd_bytes := sub64 (cd_bytes s) (cr_bytes r),
                        cd_records := rs\<rparr>)))"

definition credits_acknowledge ::
  "string \<Rightarrow> u64 \<Rightarrow> u64 \<Rightarrow> credits \<Rightarrow> (frame_error, unit \<times> credits) outcome" where
  "credits_acknowledge generation sequence bytes s =
     (if generation \<noteq> cd_generation s \<or> sequence \<le> cd_ack_sequence s \<or> sequence > cd_sequence s
      then Thrown InvalidFrame
      else if expected_bytes sequence (cd_ack_bytes s) (cd_records s) \<noteq> bytes then Thrown InvalidFrame
      else case credits_release sequence (cd_records s) s of
             None \<Rightarrow> Undefined
           | Some s' \<Rightarrow> Returned ((), s'\<lparr>cd_ack_sequence := sequence, cd_ack_bytes := bytes\<rparr>))"

definition credits_acknowledge_frame ::
  "json \<Rightarrow> credits \<Rightarrow> (frame_error, unit \<times> credits) outcome" where
  "credits_acknowledge_frame frame s =
     (if \<not> json_fields frame [''version'', ''event'', ''session_generation'', ''report_sequence'',
                               ''acknowledged_bytes''] \<or>
         \<not> json_integer (json_at frame ''version'') 1 1 \<or>
         json_at frame ''event'' \<noteq> JString ''report_ack'' \<or>
         \<not> json_is_string (json_at frame ''session_generation'') \<or>
         \<not> json_integer (json_at frame ''report_sequence'') 1 u64_max \<or>
         \<not> json_integer (json_at frame ''acknowledged_bytes'') 1 u64_max
      then Thrown InvalidFrame
      else credits_acknowledge (json_text (json_at frame ''session_generation''))
             (nat (json_integer_value (json_at frame ''report_sequence'')))
             (nat (json_integer_value (json_at frame ''acknowledged_bytes''))) s)"

definition credits_retire ::
  "u64 \<Rightarrow> u64 \<Rightarrow> credits \<Rightarrow> (frame_error, unit \<times> credits) outcome" where
  "credits_retire identifier last_sequence s =
     (case map_of (cd_streams s) identifier of
        None \<Rightarrow> Thrown InvalidFrame
      | Some stream \<Rightarrow>
          (if \<not> cs_live stream \<or> cs_last_sequence stream \<noteq> last_sequence then Thrown InvalidFrame
           else Returned ((), s\<lparr>cd_live := sub64 (cd_live s) 1,
                  cd_streams := (if cs_outstanding stream = 0 then omap_del identifier (cd_streams s)
                                 else omap_put identifier (stream\<lparr>cs_live := False\<rparr>) (cd_streams s))\<rparr>)))"

definition credits_next_sequence :: "credits \<Rightarrow> frame_error + u64" where
  "credits_next_sequence s = (if cd_sequence s = u64_max then Inl InvalidFrame else Inr (cd_sequence s + 1))"

definition available_frames :: "credits \<Rightarrow> nat" where
  "available_frames s = sub64 frame_limit (length (cd_records s))"

definition available_bytes :: "credits \<Rightarrow> nat" where
  "available_bytes s = sub64 byte_limit (cd_bytes s)"

definition stream_records :: "credits \<Rightarrow> nat" where
  "stream_records s = length (cd_streams s)"

definition active_streams :: "credits \<Rightarrow> nat" where
  "active_streams s = cd_live s"

datatype credit_action =
    OpenStream u64 nat
  | Reserve u64 nat
  | Acknowledge string u64 u64
  | Retire u64 u64

fun credits_step :: "credit_action \<Rightarrow> credits \<Rightarrow> credits" where
  "credits_step (OpenStream identifier limit) s = outcome_state s (credits_open identifier limit s)"
| "credits_step (Reserve identifier bytes) s = outcome_state s (credits_reserve identifier bytes s)"
| "credits_step (Acknowledge generation sequence bytes) s =
     outcome_state s (credits_acknowledge generation sequence bytes s)"
| "credits_step (Retire identifier last_sequence) s = outcome_state s (credits_retire identifier last_sequence s)"

section \<open>Invariant\<close>

abbreviation record_bytes :: "credit_record list \<Rightarrow> nat" where
  "record_bytes rs \<equiv> sum_list (map cr_bytes rs)"

abbreviation records_of :: "u64 \<Rightarrow> credit_record list \<Rightarrow> credit_record list" where
  "records_of k rs \<equiv> filter (\<lambda>r. cr_stream r = k) rs"

definition records_inv :: "credits \<Rightarrow> bool" where
  "records_inv s \<longleftrightarrow>
     map cr_sequence (cd_records s) = [Suc (cd_ack_sequence s)..<Suc (cd_sequence s)] \<and>
     cd_ack_sequence s \<le> cd_sequence s \<and> cd_sequence s \<le> u64_max \<and>
     cd_bytes s = record_bytes (cd_records s) \<and> cd_bytes s \<le> byte_limit \<and>
     length (cd_records s) \<le> frame_limit \<and>
     cd_sent_bytes s = cd_ack_bytes s + cd_bytes s \<and> cd_sent_bytes s \<le> u64_max"

definition stream_ok :: "u64 \<Rightarrow> credit_record list \<Rightarrow> u64 \<Rightarrow> credit_stream \<Rightarrow> bool" where
  "stream_ok greatest rs k st \<longleftrightarrow> 0 < k \<and> k \<le> greatest \<and>
     cs_outstanding st = length (records_of k rs) \<and> cs_outstanding st \<le> cs_window st \<and>
     cs_window st \<le> 16 \<and> (\<not> cs_live st \<longrightarrow> 0 < cs_outstanding st) \<and>
     (\<forall>r \<in> set (records_of k rs). cr_sequence r \<le> cs_last_sequence st)"

definition live_count :: "(u64 \<times> credit_stream) list \<Rightarrow> nat" where
  "live_count m = omap_sum (\<lambda>st. if cs_live st then 1 else 0) m"

definition streams_inv :: "credits \<Rightarrow> bool" where
  "streams_inv s \<longleftrightarrow> omap_ok (cd_streams s) \<and>
     (\<forall>k st. map_of (cd_streams s) k = Some st \<longrightarrow> stream_ok (cd_greatest_stream s) (cd_records s) k st) \<and>
     (\<forall>r \<in> set (cd_records s). map_of (cd_streams s) (cr_stream r) \<noteq> None) \<and>
     cd_live s = live_count (cd_streams s) \<and> cd_live s \<le> 64"

definition credits_inv :: "credits \<Rightarrow> bool" where
  "credits_inv s \<longleftrightarrow> records_inv s \<and> streams_inv s"

lemmas credit_limits = frame_limit_def byte_limit_def max_line_def u64_max_def

lemma credits_init_inv: "credits_init g = Inr s \<Longrightarrow> credits_inv s"
  by (auto simp: credits_init_def credits_inv_def records_inv_def streams_inv_def live_count_def
      split: if_splits)

lemma live_count_put:
  "omap_ok m \<Longrightarrow> live_count (omap_put k st m) = (if cs_live st then 1 else 0) + live_count (omap_del k m)"
  by (simp add: live_count_def omap_sum_put)

lemma live_count_del:
  "omap_ok m \<Longrightarrow> map_of m k = Some st \<Longrightarrow>
   live_count m = (if cs_live st then 1 else 0) + live_count (omap_del k m)"
  by (simp add: live_count_def omap_sum_del [of m k st])

lemma streams_invD:
  "streams_inv s \<Longrightarrow> map_of (cd_streams s) k = Some st \<Longrightarrow>
   stream_ok (cd_greatest_stream s) (cd_records s) k st"
  by (simp add: streams_inv_def)

lemma records_inv_sequence:
  "records_inv s \<Longrightarrow> r \<in> set (cd_records s) \<Longrightarrow> cd_ack_sequence s < cr_sequence r \<and> cr_sequence r \<le> cd_sequence s"
proof -
  assume "records_inv s" and r: "r \<in> set (cd_records s)"
  then have "set (map cr_sequence (cd_records s)) = {cd_ack_sequence s<..cd_sequence s}"
    by (simp add: records_inv_def atLeastLessThanSuc_atLeastAtMost atLeastSucAtMost_greaterThanAtMost
        del: upt_Suc set_map)
  then show ?thesis using r by auto
qed

lemma credits_open_inv:
  assumes inv: "credits_inv s" and run: "credits_open k n s = Returned (r, s')"
  shows "credits_inv s'"
proof (cases "cd_live s = 64")
  case True
  then show ?thesis using assms by (auto simp: credits_open_def split: if_splits)
next
  case False
  let ?st = "\<lparr>cs_window = min 16 n, cs_outstanding = 0, cs_last_sequence = 0, cs_live = True\<rparr>"
  have old: "streams_inv s" "records_inv s" using inv by (simp_all add: credits_inv_def)
  have k: "0 < k" "cd_greatest_stream s < k" using run by (auto simp: credits_open_def split: if_splits)
  have fresh: "map_of (cd_streams s) k = None"
    using streams_invD [OF old(1), of k] k(2)
    by (cases "map_of (cd_streams s) k") (auto simp: stream_ok_def)
  have none: "records_of k (cd_records s) = []"
    using old(1) fresh by (auto simp: streams_inv_def filter_empty_conv)
  have s': "s' = s\<lparr>cd_greatest_stream := k, cd_streams := omap_put k ?st (cd_streams s),
      cd_live := cd_live s + 1\<rparr>"
    using run False fresh by (auto simp: credits_open_def omap_emplace_def omap_has_def split: if_splits)
  have "stream_ok k (cd_records s) k ?st" using k none by (simp add: stream_ok_def)
  moreover have "\<And>j st. map_of (cd_streams s) j = Some st \<Longrightarrow> stream_ok k (cd_records s) j st"
    using old(1) k by (fastforce simp: streams_inv_def stream_ok_def)
  ultimately have "streams_inv s'"
    using old(1) False fresh by (auto simp: s' streams_inv_def live_count_put omap_del_absent)
  moreover have "records_inv s'" using old(2) by (simp add: s' records_inv_def)
  ultimately show ?thesis by (simp add: credits_inv_def)
qed

lemma credits_reserve_cases:
  assumes "credits_reserve k n s = Returned (r, s')"
  obtains "r = None" "s' = s"
  | st where "map_of (cd_streams s) k = Some st" "cs_live st" "0 < n" "n \<le> max_line"
      "length (cd_records s) \<noteq> frame_limit" "\<not> n > sub64 byte_limit (cd_bytes s)"
      "cs_outstanding st \<noteq> cs_window st" "cd_sequence s \<noteq> u64_max" "n \<le> u64_max - cd_sent_bytes s"
      "r = Some (cd_sequence s + 1)"
      "s' = s\<lparr>cd_records := cd_records s @
                  [\<lparr>cr_sequence = cd_sequence s + 1, cr_stream = k, cr_bytes = n\<rparr>],
                cd_sequence := cd_sequence s + 1,
                cd_sent_bytes := add64 (cd_sent_bytes s) n,
                cd_bytes := add64 (cd_bytes s) n,
                cd_streams := omap_put k
                  (st\<lparr>cs_outstanding := add64 (cs_outstanding st) 1, cs_last_sequence := cd_sequence s + 1\<rparr>)
                  (cd_streams s)\<rparr>"
proof (cases "map_of (cd_streams s) k")
  case None
  then show thesis using assms by (simp add: credits_reserve_def)
next
  case (Some st)
  show thesis
  proof (cases "length (cd_records s) = frame_limit \<or> n > sub64 byte_limit (cd_bytes s) \<or>
      cs_outstanding st = cs_window st")
    case True
    then show thesis
      using assms Some by (intro that(1)) (simp_all add: credits_reserve_def split: if_splits)
  next
    case False
    then show thesis
      using assms Some by (intro that(2) [of st]) (simp_all add: credits_reserve_def Let_def split: if_splits)
  qed
qed

lemma records_inv_reserve:
  assumes "records_inv s" and "length (cd_records s) \<noteq> frame_limit"
    and "\<not> n > sub64 byte_limit (cd_bytes s)" and "cd_sequence s \<noteq> u64_max"
    and "n \<le> u64_max - cd_sent_bytes s" and "cr_sequence r = cd_sequence s + 1" and "cr_bytes r = n"
  shows "records_inv (s\<lparr>cd_records := cd_records s @ [r], cd_sequence := cd_sequence s + 1,
    cd_sent_bytes := add64 (cd_sent_bytes s) n, cd_bytes := add64 (cd_bytes s) n, cd_streams := m\<rparr>)"
proof -
  have room: "sub64 byte_limit (cd_bytes s) = byte_limit - cd_bytes s"
    using assms(1) by (intro sub64_exact) (auto simp: records_inv_def credit_limits)
  have "add64 (cd_sent_bytes s) n = cd_sent_bytes s + n"
    using assms(1,5) by (intro add64_exact) (auto simp: records_inv_def)
  moreover have "add64 (cd_bytes s) n = cd_bytes s + n"
    using assms(1,5) by (intro add64_exact) (auto simp: records_inv_def)
  ultimately show ?thesis
    using assms room by (auto simp: records_inv_def)
qed

lemma credits_reserve_inv:
  assumes inv: "credits_inv s" and run: "credits_reserve k n s = Returned (r, s')"
  shows "credits_inv s'"
  using run
proof (cases rule: credits_reserve_cases)
  case 1
  then show ?thesis using inv by simp
next
  case (2 st)
  let ?r = "\<lparr>cr_sequence = cd_sequence s + 1, cr_stream = k, cr_bytes = n\<rparr>"
  let ?st = "st\<lparr>cs_outstanding := cs_outstanding st + 1, cs_last_sequence := cd_sequence s + 1\<rparr>"
  have old: "streams_inv s" "records_inv s" using inv by (simp_all add: credits_inv_def)
  have ok: "stream_ok (cd_greatest_stream s) (cd_records s) k st"
    using old(1) 2(1) by (simp add: streams_inv_def)
  have one: "add64 (cs_outstanding st) 1 = cs_outstanding st + 1"
    using ok by (intro add64_exact) (simp add: stream_ok_def u64_max_def)
  have seqs: "\<forall>x \<in> set (cd_records s). cr_sequence x \<le> cd_sequence s"
    using records_inv_sequence [OF old(2)] by blast
  have new: "stream_ok (cd_greatest_stream s) (cd_records s @ [?r]) k ?st"
    using ok 2(7) seqs by (auto simp: stream_ok_def)
  have others: "stream_ok (cd_greatest_stream s) (cd_records s @ [?r]) j u"
    if "j \<noteq> k" "map_of (cd_streams s) j = Some u" for j u
    using streams_invD [OF old(1) that(2)] that(1) by (auto simp: stream_ok_def)
  have "live_count (omap_put k ?st (cd_streams s)) = live_count (cd_streams s)"
    using old(1) 2(1,2) by (simp add: streams_inv_def live_count_put live_count_del [of "cd_streams s" k st])
  then have "streams_inv s'"
    unfolding 2(11) one using old(1) new others by (auto simp: streams_inv_def)
  moreover have "records_inv s'"
    unfolding 2(11) by (rule records_inv_reserve [OF old(2) 2(5,6,8,9)]) simp_all
  ultimately show ?thesis by (simp add: credits_inv_def)
qed

lemma credits_retire_inv:
  assumes inv: "credits_inv s" and run: "credits_retire k n s = Returned (r, s')"
  shows "credits_inv s'"
proof -
  have old: "streams_inv s" "records_inv s" using inv by (simp_all add: credits_inv_def)
  obtain st where st: "map_of (cd_streams s) k = Some st" "cs_live st"
    and s': "s' = s\<lparr>cd_live := sub64 (cd_live s) 1,
                  cd_streams := (if cs_outstanding st = 0 then omap_del k (cd_streams s)
                                 else omap_put k (st\<lparr>cs_live := False\<rparr>) (cd_streams s))\<rparr>"
    using run by (auto simp: credits_retire_def split: option.splits if_splits)
  have ok: "stream_ok (cd_greatest_stream s) (cd_records s) k st"
    using old(1) st by (simp add: streams_inv_def)
  have live: "live_count (cd_streams s) = 1 + live_count (omap_del k (cd_streams s))"
    using old(1) st by (simp add: streams_inv_def live_count_del [of "cd_streams s" k st])
  then have dec: "sub64 (cd_live s) 1 = cd_live s - 1"
    using old(1) by (intro sub64_exact) (auto simp: streams_inv_def u64_max_def)
  have "streams_inv s'"
  proof (cases "cs_outstanding st = 0")
    case True
    then have "\<forall>x \<in> set (cd_records s). cr_stream x \<noteq> k"
      using ok by (auto simp: stream_ok_def filter_empty_conv)
    then show ?thesis using old(1) True live unfolding s' dec by (auto simp: streams_inv_def)
  next
    case False
    then have "stream_ok (cd_greatest_stream s) (cd_records s) k (st\<lparr>cs_live := False\<rparr>)"
      using ok by (simp add: stream_ok_def)
    then show ?thesis using old(1) False live unfolding s' dec by (auto simp: streams_inv_def live_count_put)
  qed
  moreover have "records_inv s'" using old(2) by (simp add: s' records_inv_def)
  ultimately show ?thesis by (simp add: credits_inv_def)
qed

section \<open>Acknowledgement\<close>

text \<open>Releasing the first record of a stream.\<close>

lemma streams_inv_release:
  assumes inv: "streams_inv s" and rs: "cd_records s = r # rs"
    and st: "map_of (cd_streams s) (cr_stream r) = Some st"
  shows "streams_inv (s\<lparr>cd_streams :=
      (let stream' = st\<lparr>cs_outstanding := sub64 (cs_outstanding st) 1\<rparr>
       in if \<not> cs_live stream' \<and> cs_outstanding stream' = 0 then omap_del (cr_stream r) (cd_streams s)
          else omap_put (cr_stream r) stream' (cd_streams s)),
      cd_bytes := b, cd_records := rs\<rparr>)" (is "streams_inv ?s")
proof -
  let ?k = "cr_stream r"
  let ?st = "st\<lparr>cs_outstanding := cs_outstanding st - 1\<rparr>"
  have ok: "stream_ok (cd_greatest_stream s) (r # rs) ?k st"
    using streams_invD [OF inv st] rs by simp
  then have dec: "sub64 (cs_outstanding st) 1 = cs_outstanding st - 1"
    by (intro sub64_exact) (auto simp: stream_ok_def u64_max_def)
  have others: "stream_ok (cd_greatest_stream s) rs j u"
    if "j \<noteq> ?k" "map_of (cd_streams s) j = Some u" for j u
    using streams_invD [OF inv that(2)] that(1) rs by (auto simp: stream_ok_def)
  have live: "live_count (cd_streams s) = (if cs_live st then 1 else 0) + live_count (omap_del ?k (cd_streams s))"
    using inv st by (intro live_count_del) (auto simp: streams_inv_def)
  have base: "omap_ok (cd_streams s)" "cd_live s = live_count (cd_streams s)" "cd_live s \<le> 64"
    and present: "\<forall>x \<in> set rs. map_of (cd_streams s) (cr_stream x) \<noteq> None"
    using inv rs by (auto simp: streams_inv_def)
  show ?thesis
  proof (cases "\<not> cs_live st \<and> cs_outstanding st - 1 = 0")
    case True
    then have "records_of ?k rs = []" using ok by (auto simp: stream_ok_def)
    then have "\<forall>x \<in> set rs. cr_stream x \<noteq> ?k" by (auto simp: filter_empty_conv)
    then show ?thesis
      unfolding Let_def dec streams_inv_def using True others live base present by auto
  next
    case False
    then have "stream_ok (cd_greatest_stream s) rs ?k ?st" using ok by (auto simp: stream_ok_def)
    then show ?thesis
      unfolding Let_def dec streams_inv_def using False others live base present
      by (auto simp: live_count_put)
  qed
qed

lemma credits_release_exact:
  assumes "streams_inv s" and "cd_records s = rs" and "cd_bytes s = record_bytes rs" and "cd_bytes s \<le> u64_max"
  shows "\<exists>m b. credits_release n rs s =
      Some (s\<lparr>cd_streams := m, cd_bytes := b, cd_records := dropWhile (\<lambda>r. cr_sequence r \<le> n) rs\<rparr>) \<and>
    b = record_bytes (dropWhile (\<lambda>r. cr_sequence r \<le> n) rs) \<and>
    streams_inv (s\<lparr>cd_streams := m, cd_bytes := b, cd_records := dropWhile (\<lambda>r. cr_sequence r \<le> n) rs\<rparr>)"
  using assms
proof (induction rs arbitrary: s)
  case Nil
  show ?case
    by (rule exI [of _ "cd_streams s"], rule exI [of _ "cd_bytes s"]) (use Nil in \<open>simp add: streams_inv_def\<close>)
next
  case (Cons r rs)
  show ?case
  proof (cases "cr_sequence r \<le> n")
    case False
    show ?thesis
      by (rule exI [of _ "cd_streams s"], rule exI [of _ "cd_bytes s"])
        (use Cons.prems False in \<open>simp add: streams_inv_def\<close>)
  next
    case True
    obtain st where st: "map_of (cd_streams s) (cr_stream r) = Some st"
      using Cons.prems(1,2) by (auto simp: streams_inv_def)
    define m where "m = (let stream' = st\<lparr>cs_outstanding := sub64 (cs_outstanding st) 1\<rparr>
       in if \<not> cs_live stream' \<and> cs_outstanding stream' = 0 then omap_del (cr_stream r) (cd_streams s)
          else omap_put (cr_stream r) stream' (cd_streams s))"
    let ?s = "s\<lparr>cd_streams := m, cd_bytes := sub64 (cd_bytes s) (cr_bytes r), cd_records := rs\<rparr>"
    have b: "sub64 (cd_bytes s) (cr_bytes r) = record_bytes rs"
      using Cons.prems(3,4) sub64_exact [of "cr_bytes r" "cd_bytes s"] by simp
    have "streams_inv ?s" unfolding m_def by (rule streams_inv_release [OF Cons.prems(1,2) st])
    then obtain m' b' where "credits_release n rs ?s =
        Some (?s\<lparr>cd_streams := m', cd_bytes := b', cd_records := dropWhile (\<lambda>r. cr_sequence r \<le> n) rs\<rparr>)"
      "b' = record_bytes (dropWhile (\<lambda>r. cr_sequence r \<le> n) rs)"
      "streams_inv (?s\<lparr>cd_streams := m', cd_bytes := b', cd_records := dropWhile (\<lambda>r. cr_sequence r \<le> n) rs\<rparr>)"
      using Cons.IH [of ?s] b Cons.prems by auto
    moreover have "credits_release n (r # rs) s = credits_release n rs ?s"
      using True st by (simp add: m_def Let_def)
    ultimately show ?thesis using True by auto
  qed
qed

lemma expected_bytes_exact:
  "a + record_bytes rs \<le> u64_max \<Longrightarrow>
   expected_bytes n a rs = a + record_bytes (takeWhile (\<lambda>r. cr_sequence r \<le> n) rs)"
proof (induction rs arbitrary: a)
  case (Cons r rs)
  then show ?case by (simp add: add64_exact)
qed simp

text \<open>The bytes a peer must name to acknowledge up to a sequence number.\<close>

definition due_bytes :: "u64 \<Rightarrow> credits \<Rightarrow> nat" where
  "due_bytes n s = cd_ack_bytes s + record_bytes (takeWhile (\<lambda>r. cr_sequence r \<le> n) (cd_records s))"

lemma record_bytes_split:
  "record_bytes rs = record_bytes (takeWhile P rs) + record_bytes (dropWhile P rs)"
  by (metis map_append sum_list_append takeWhile_dropWhile_id)

lemma map_dropWhile_eq: "map f (dropWhile (\<lambda>x. P (f x)) xs) = dropWhile P (map f xs)"
  by (induction xs) auto

lemma credits_acknowledge_exact:
  assumes inv: "credits_inv s"
  shows "if g = cd_generation s \<and> cd_ack_sequence s < n \<and> n \<le> cd_sequence s \<and> b = due_bytes n s
    then \<exists>s'. credits_acknowledge g n b s = Returned ((), s') \<and> credits_inv s' \<and>
      cd_records s' = dropWhile (\<lambda>r. cr_sequence r \<le> n) (cd_records s) \<and>
      cd_ack_sequence s' = n \<and> cd_ack_bytes s' = b \<and> cd_sequence s' = cd_sequence s \<and>
      cd_sent_bytes s' = cd_sent_bytes s \<and> cd_live s' = cd_live s
    else credits_acknowledge g n b s = Thrown InvalidFrame"
proof -
  let ?rs = "cd_records s"
  let ?rest = "dropWhile (\<lambda>r. cr_sequence r \<le> n) ?rs"
  have recs: "records_inv s" and strs: "streams_inv s" using inv by (simp_all add: credits_inv_def)
  then have e: "expected_bytes n (cd_ack_bytes s) ?rs = due_bytes n s"
    unfolding due_bytes_def by (intro expected_bytes_exact) (simp add: records_inv_def)
  show ?thesis
  proof (cases "g = cd_generation s \<and> cd_ack_sequence s < n \<and> n \<le> cd_sequence s \<and> b = due_bytes n s")
    case True
    obtain m b' where rel: "credits_release n ?rs s = Some (s\<lparr>cd_streams := m, cd_bytes := b', cd_records := ?rest\<rparr>)"
      and b': "b' = record_bytes ?rest"
      and str': "streams_inv (s\<lparr>cd_streams := m, cd_bytes := b', cd_records := ?rest\<rparr>)"
      using credits_release_exact [OF strs refl, of n] recs by (auto simp: records_inv_def)
    let ?s = "s\<lparr>cd_streams := m, cd_bytes := b', cd_records := ?rest, cd_ack_sequence := n, cd_ack_bytes := b\<rparr>"
    have "map cr_sequence ?rest = [Suc n..<Suc (cd_sequence s)]"
      using recs True dropWhile_upt [of "Suc (cd_ack_sequence s)" n "Suc (cd_sequence s)"]
      by (simp add: map_dropWhile_eq [of cr_sequence "\<lambda>k. k \<le> n"] records_inv_def del: upt_Suc)
    moreover have "length ?rest \<le> length ?rs" by (rule length_dropWhile_le)
    moreover have "record_bytes ?rs = record_bytes (takeWhile (\<lambda>r. cr_sequence r \<le> n) ?rs) + b'"
      unfolding b' by (rule record_bytes_split)
    ultimately have "records_inv ?s"
      using recs True b' by (auto simp: records_inv_def due_bytes_def simp del: upt_Suc)
    moreover have "streams_inv ?s" using str' by (simp add: streams_inv_def)
    moreover have "credits_acknowledge g n b s = Returned ((), ?s)"
      using True e rel by (simp add: credits_acknowledge_def)
    ultimately show ?thesis using True by (simp add: credits_inv_def)
  next
    case False
    then show ?thesis using e by (auto simp: credits_acknowledge_def)
  qed
qed

section \<open>The credit window\<close>

lemma outcome_state_inv:
  "P s \<Longrightarrow> (\<And>x s'. r = Returned (x, s') \<Longrightarrow> P s') \<Longrightarrow> P (outcome_state s r)"
  by (cases r) auto

lemma credits_acknowledge_inv:
  "credits_inv s \<Longrightarrow> credits_acknowledge g n b s = Returned (x, s') \<Longrightarrow> credits_inv s'"
  using credits_acknowledge_exact [of s g n b] by (auto split: if_splits)

lemma credits_step_inv: "credits_inv s \<Longrightarrow> credits_inv (credits_step a s)"
proof (cases a)
  case (OpenStream k n)
  assume "credits_inv s"
  show ?thesis unfolding OpenStream credits_step.simps
    by (rule outcome_state_inv [where P = credits_inv, OF \<open>credits_inv s\<close>]) (rule credits_open_inv [OF \<open>credits_inv s\<close>])
next
  case (Reserve k n)
  assume "credits_inv s"
  show ?thesis unfolding Reserve credits_step.simps
    by (rule outcome_state_inv [where P = credits_inv, OF \<open>credits_inv s\<close>]) (rule credits_reserve_inv [OF \<open>credits_inv s\<close>])
next
  case (Acknowledge g n b)
  assume "credits_inv s"
  show ?thesis unfolding Acknowledge credits_step.simps
    by (rule outcome_state_inv [where P = credits_inv, OF \<open>credits_inv s\<close>]) (rule credits_acknowledge_inv [OF \<open>credits_inv s\<close>])
next
  case (Retire k n)
  assume "credits_inv s"
  show ?thesis unfolding Retire credits_step.simps
    by (rule outcome_state_inv [where P = credits_inv, OF \<open>credits_inv s\<close>]) (rule credits_retire_inv [OF \<open>credits_inv s\<close>])
qed

definition credits_outstanding :: "credits \<Rightarrow> (nat \<times> nat) list" where
  "credits_outstanding s = map (\<lambda>r. (cr_sequence r, cr_bytes r)) (cd_records s)"

definition credits_sent :: "credits \<Rightarrow> nat \<times> nat" where
  "credits_sent s = (cd_sequence s, cd_sent_bytes s)"

definition credits_acked :: "credits \<Rightarrow> nat \<times> nat" where
  "credits_acked s = (cd_ack_sequence s, cd_ack_bytes s)"

interpretation ble_credits: credit_window credits_step credits_inv "\<lambda>_. True"
  credits_outstanding credits_sent credits_acked frame_limit byte_limit
proof
  fix s a assume "credits_inv s"
  then show "credits_inv (credits_step a s)" by (rule credits_step_inv)
next
  fix s assume "credits_inv s"
  then have r: "records_inv s" by (simp add: credits_inv_def)
  show "map fst (credits_outstanding s) = [Suc (fst (credits_acked s))..<Suc (fst (credits_sent s))]"
    using r by (simp add: credits_outstanding_def credits_acked_def credits_sent_def records_inv_def comp_def del: upt_Suc)
  show "fst (credits_acked s) \<le> fst (credits_sent s)"
    using r by (simp add: credits_acked_def credits_sent_def records_inv_def)
  show "snd (credits_sent s) = snd (credits_acked s) + sum_list (map snd (credits_outstanding s))"
    using r by (simp add: credits_outstanding_def credits_acked_def credits_sent_def records_inv_def comp_def)
  show "length (credits_outstanding s) \<le> frame_limit \<and> sum_list (map snd (credits_outstanding s)) \<le> byte_limit"
    using r by (simp add: credits_outstanding_def records_inv_def comp_def)
qed

section \<open>Properties\<close>

text \<open>
  Over any sequence of calls on a fresh \<open>Credits\<close>, at most 64 reports and at most 1 MiB are sent and
  not acknowledged, and the acknowledged counters never pass the sent ones.
\<close>

theorem credits_window:
  assumes "credits_init g = Inr s"
  shows "let t = run_actions credits_step as s
    in cd_ack_sequence t \<le> cd_sequence t \<and> cd_sequence t \<le> cd_ack_sequence t + 64 \<and>
       cd_ack_bytes t \<le> cd_sent_bytes t \<and> cd_sent_bytes t \<le> cd_ack_bytes t + 1048576"
  using ble_credits.run_window [OF credits_init_inv [OF assms], of as]
  by (simp add: credits_sent_def credits_acked_def frame_limit_def byte_limit_def Let_def list_all_iff)

theorem credits_window_witness:
  "let t = run_actions credits_step [OpenStream 1 4, Reserve 1 10]
       (projr (credits_init (replicate 32 CHR ''a'')))
   in cd_sequence t \<le> cd_ack_sequence t + 64"
proof -
  have "credits_init (replicate 32 CHR ''a'') = Inr (projr (credits_init (replicate 32 CHR ''a'')))"
    by (simp add: credits_init_def hex_token_def hex_char_def list_all_iff)
  from credits_window [OF this, of "[OpenStream 1 4, Reserve 1 10]"] show ?thesis
    unfolding Let_def by blast
qed

text \<open>
  C21: an acknowledgement is accepted exactly when it carries this generation, a sequence number after the
  last acknowledged one and not after the last sent one, and the exact cumulative byte count; it then
  releases exactly the reports up to that number.  Anything else throws and changes nothing, and the
  iterator the loop dereferences is always valid.
\<close>

theorem credits_ack_exact:
  assumes "credits_inv s"
  shows "if g = cd_generation s \<and> cd_ack_sequence s < n \<and> n \<le> cd_sequence s \<and> b = due_bytes n s
    then \<exists>s'. credits_acknowledge g n b s = Returned ((), s') \<and> credits_inv s' \<and>
      cd_records s' = dropWhile (\<lambda>r. cr_sequence r \<le> n) (cd_records s) \<and>
      cd_ack_sequence s' = n \<and> cd_ack_bytes s' = b \<and> cd_sequence s' = cd_sequence s \<and>
      cd_sent_bytes s' = cd_sent_bytes s \<and> cd_live s' = cd_live s
    else credits_acknowledge g n b s = Thrown InvalidFrame"
  using assms by (rule credits_acknowledge_exact)

theorem credits_ack_exact_witness:
  "let s = run_actions credits_step [OpenStream 1 4, Reserve 1 10] (projr (credits_init (replicate 32 CHR ''a'')))
   in \<exists>s'. credits_acknowledge (replicate 32 CHR ''a'') 1 10 s = Returned ((), s') \<and> cd_records s' = []"
proof -
  let ?g = "replicate 32 CHR ''a''"
  let ?s = "run_actions credits_step [OpenStream 1 4, Reserve 1 10] (projr (credits_init ?g))"
  have init: "credits_init ?g = Inr (projr (credits_init ?g))"
    by (simp add: credits_init_def hex_token_def hex_char_def list_all_iff)
  have inv: "credits_inv ?s"
    using ble_credits.run_inv [OF credits_init_inv [OF init], of "[OpenStream 1 4, Reserve 1 10]"]
    by (simp only: list_all_iff) blast
  have "cd_generation ?s = ?g" "cd_ack_sequence ?s = 0" "cd_sequence ?s = 1"
    "cd_records ?s = [\<lparr>cr_sequence = 1, cr_stream = 1, cr_bytes = 10\<rparr>]" "cd_ack_bytes ?s = 0"
    by (simp_all add: credits_init_def hex_token_def hex_char_def list_all_iff credits_open_def
        credits_reserve_def omap_emplace_def omap_has_def credit_limits sub64_def Let_def)
  then show ?thesis using credits_ack_exact [OF inv, of ?g 1 10] unfolding due_bytes_def Let_def by auto
qed

text \<open>
  Per-stream flow control over any sequence of calls: a stream's outstanding counter is the number of
  its unacknowledged reports and never exceeds its window of at most 16; every unacknowledged report has a
  stream record; a retired stream is kept exactly while reports of it are unacknowledged; at most 64
  streams are live.
\<close>

theorem credits_streams:
  assumes "credits_init g = Inr s" and "map_of (cd_streams (run_actions credits_step as s)) k = Some st"
  shows "let t = run_actions credits_step as s
    in cs_outstanding st = length (records_of k (cd_records t)) \<and> cs_outstanding st \<le> cs_window st \<and>
       cs_window st \<le> 16 \<and> (cs_live st \<or> 0 < cs_outstanding st) \<and> active_streams t \<le> 64"
proof -
  have "credits_inv (run_actions credits_step as s)"
    using ble_credits.run_inv [OF credits_init_inv [OF assms(1)], of as] by (simp add: list_all_iff)
  then have "streams_inv (run_actions credits_step as s)" by (simp add: credits_inv_def)
  then have "stream_ok (cd_greatest_stream (run_actions credits_step as s))
      (cd_records (run_actions credits_step as s)) k st" "cd_live (run_actions credits_step as s) \<le> 64"
    using streams_invD [OF _ assms(2)] by (simp_all add: streams_inv_def)
  then show ?thesis unfolding Let_def stream_ok_def active_streams_def by auto
qed

theorem credits_streams_witness:
  "let t = run_actions credits_step [OpenStream 7 4] (projr (credits_init (replicate 32 CHR ''a'')))
   in active_streams t \<le> 64 \<and> omap_has 7 (cd_streams t)"
proof -
  let ?g = "replicate 32 CHR ''a''"
  let ?st = "\<lparr>cs_window = 4, cs_outstanding = 0, cs_last_sequence = 0, cs_live = True\<rparr>"
  have init: "credits_init ?g = Inr (projr (credits_init ?g))"
    by (simp add: credits_init_def hex_token_def hex_char_def list_all_iff)
  have st: "map_of (cd_streams (run_actions credits_step [OpenStream 7 4] (projr (credits_init ?g)))) 7 = Some ?st"
    by (simp add: credits_init_def hex_token_def hex_char_def list_all_iff credits_open_def
        omap_emplace_def omap_has_def)
  show ?thesis using credits_streams [OF init st] st unfolding Let_def omap_has_def by blast
qed

end
