(* ===== verification/Ble_Report_Queue.thy ===== *)
theory Ble_Report_Queue
  imports Ble_Frame Wotex_Channel
begin

text \<open>
  The unsent-report queue of the BlueZ host (\<open>report_queue.hpp\<close>), for any payload type.  The dispatch
  callback of \<open>drain\<close> works on a caller's state of type \<open>'w\<close> and answers \<open>Some sent\<close>, or \<open>None\<close> where it
  throws; the iterator that \<open>erase\<close> looks up is shown to be valid.
\<close>

section \<open>Model\<close>

record 'p rq_entry =
  qe_stream :: u64
  qe_payload :: 'p
  qe_charge :: nat

record 'p report_queue =
  rq_entries :: "'p rq_entry list"
  rq_streams :: "(u64 \<times> nat) list"
  rq_bytes :: nat

definition rq_frame_limit :: nat where "rq_frame_limit = 64"
definition rq_byte_limit :: nat where "rq_byte_limit = 1048576"

definition rq_init :: "'p report_queue" where
  "rq_init = \<lparr>rq_entries = [], rq_streams = [], rq_bytes = 0\<rparr>"

definition rq_queued :: "u64 \<Rightarrow> 'p report_queue \<Rightarrow> nat" where
  "rq_queued stream q = (case map_of (rq_streams q) stream of None \<Rightarrow> 0 | Some n \<Rightarrow> n)"

text \<open>The accounting of \<open>erase\<close>; the loops that call it remove the entry from the list they rebuild.\<close>

definition rq_erase :: "'p rq_entry \<Rightarrow> 'p report_queue \<Rightarrow> 'p report_queue option" where
  "rq_erase entry q =
     (case map_of (rq_streams q) (qe_stream entry) of
        None \<Rightarrow> None
      | Some n \<Rightarrow>
          (let n' = sub64 n 1
           in Some (q\<lparr>rq_streams := (if n' = 0 then omap_del (qe_stream entry) (rq_streams q)
                                     else omap_put (qe_stream entry) n' (rq_streams q)),
                      rq_bytes := sub64 (rq_bytes q) (qe_charge entry)\<rparr>)))"

definition rq_admit ::
  "u64 \<Rightarrow> nat \<Rightarrow> 'p \<Rightarrow> nat \<Rightarrow> 'p report_queue \<Rightarrow> (frame_error, bool \<times> 'p report_queue) outcome" where
  "rq_admit stream stream_limit payload charge q =
     (if stream = 0 \<or> stream_limit = 0 \<or> stream_limit > 10000 \<or> charge = 0 \<or> charge > rq_byte_limit
      then Thrown InvalidFrame
      else if rq_queued stream q = stream_limit \<or> length (rq_entries q) = rq_frame_limit \<or>
              charge > sub64 rq_byte_limit (rq_bytes q)
      then Returned (False, q)
      else Returned (True, q\<lparr>rq_entries := rq_entries q @
               [\<lparr>qe_stream = stream, qe_payload = payload, qe_charge = charge\<rparr>],
             rq_streams := omap_put stream (add64 (rq_queued stream q) 1) (rq_streams q),
             rq_bytes := add64 (rq_bytes q) charge\<rparr>))"

datatype drain_result = Drained | DrainThrew | DrainUndefined

text \<open>
  The loop of \<open>drain\<close>: \<open>kept\<close> are the entries before the iterator, the list argument starts at it.
\<close>

fun rq_drain_loop ::
  "('w \<Rightarrow> u64 \<Rightarrow> 'p \<Rightarrow> bool option \<times> 'w) \<Rightarrow> u64 list \<Rightarrow> 'p rq_entry list \<Rightarrow> 'p rq_entry list \<Rightarrow>
   'p report_queue \<Rightarrow> 'w \<Rightarrow> drain_result \<times> 'p report_queue \<times> 'w" where
  "rq_drain_loop dispatch blocked kept [] q w = (Drained, q\<lparr>rq_entries := kept\<rparr>, w)"
| "rq_drain_loop dispatch blocked kept (e # rest) q w =
     (if qe_stream e \<in> set blocked
      then rq_drain_loop dispatch (qe_stream e # blocked) (kept @ [e]) rest q w
      else case dispatch w (qe_stream e) (qe_payload e) of
             (None, w') \<Rightarrow> (DrainThrew, q\<lparr>rq_entries := kept @ e # rest\<rparr>, w')
           | (Some False, w') \<Rightarrow>
               rq_drain_loop dispatch (qe_stream e # blocked) (kept @ [e]) rest q w'
           | (Some True, w') \<Rightarrow>
               (case rq_erase e q of
                  None \<Rightarrow> (DrainUndefined, q\<lparr>rq_entries := kept @ e # rest\<rparr>, w')
                | Some q' \<Rightarrow> rq_drain_loop dispatch blocked kept rest q' w'))"

definition rq_drain ::
  "('w \<Rightarrow> u64 \<Rightarrow> 'p \<Rightarrow> bool option \<times> 'w) \<Rightarrow> 'p report_queue \<Rightarrow> 'w \<Rightarrow>
   drain_result \<times> 'p report_queue \<times> 'w" where
  "rq_drain dispatch q w = rq_drain_loop dispatch [] [] (rq_entries q) q w"

fun rq_discard_loop ::
  "u64 \<Rightarrow> 'p rq_entry list \<Rightarrow> 'p rq_entry list \<Rightarrow> 'p report_queue \<Rightarrow> 'p report_queue option" where
  "rq_discard_loop stream kept [] q = Some (q\<lparr>rq_entries := kept\<rparr>)"
| "rq_discard_loop stream kept (e # rest) q =
     (if qe_stream e = stream
      then (case rq_erase e q of None \<Rightarrow> None | Some q' \<Rightarrow> rq_discard_loop stream kept rest q')
      else rq_discard_loop stream (kept @ [e]) rest q)"

definition rq_discard :: "u64 \<Rightarrow> 'p report_queue \<Rightarrow> 'p report_queue option" where
  "rq_discard stream q = rq_discard_loop stream [] (rq_entries q) q"

section \<open>Invariant\<close>

abbreviation entries_of :: "u64 \<Rightarrow> 'p rq_entry list \<Rightarrow> 'p rq_entry list" where
  "entries_of k es \<equiv> filter (\<lambda>e. qe_stream e = k) es"

definition count_of :: "u64 \<Rightarrow> 'p rq_entry list \<Rightarrow> nat option" where
  "count_of k es = (let n = length (entries_of k es) in if n = 0 then None else Some n)"

text \<open>The accounting of a queue whose entries are the given list.\<close>

definition rq_accounts :: "'p rq_entry list \<Rightarrow> 'p report_queue \<Rightarrow> bool" where
  "rq_accounts es q \<longleftrightarrow> omap_ok (rq_streams q) \<and> map_of (rq_streams q) = (\<lambda>k. count_of k es) \<and>
     rq_bytes q = sum_list (map qe_charge es) \<and> rq_bytes q \<le> rq_byte_limit \<and>
     length es \<le> rq_frame_limit"

definition rq_inv :: "'p report_queue \<Rightarrow> bool" where
  "rq_inv q \<longleftrightarrow> rq_accounts (rq_entries q) q"

lemmas rq_limits = rq_frame_limit_def rq_byte_limit_def u64_max_def

lemma rq_init_inv: "rq_inv rq_init"
  by (simp add: rq_inv_def rq_accounts_def rq_init_def count_of_def Let_def fun_eq_iff)

lemma rq_queued_count: "rq_accounts es q \<Longrightarrow> rq_queued k q = length (entries_of k es)"
  by (simp add: rq_accounts_def rq_queued_def count_of_def Let_def)

lemma rq_admit_inv:
  assumes inv: "rq_inv q" and run: "rq_admit k n p c q = Returned (r, q')"
  shows "rq_inv q'"
proof (cases r)
  case False
  then show ?thesis using assms by (auto simp: rq_admit_def split: if_splits)
next
  case True
  have acc: "rq_accounts (rq_entries q) q" using inv by (simp add: rq_inv_def)
  have room: "sub64 rq_byte_limit (rq_bytes q) = rq_byte_limit - rq_bytes q"
    using acc by (intro sub64_exact) (auto simp: rq_accounts_def rq_limits)
  let ?es = "rq_entries q @ [\<lparr>qe_stream = k, qe_payload = p, qe_charge = c\<rparr>]"
  have guard: "length (rq_entries q) \<noteq> rq_frame_limit" "c \<le> rq_byte_limit - rq_bytes q"
    and q': "q' = q\<lparr>rq_entries := ?es,
      rq_streams := omap_put k (add64 (rq_queued k q) 1) (rq_streams q), rq_bytes := add64 (rq_bytes q) c\<rparr>"
    using run True by (auto simp: rq_admit_def room split: if_splits)
  have "rq_queued k q \<le> length (rq_entries q)" by (simp add: rq_queued_count [OF acc])
  then have one: "add64 (rq_queued k q) 1 = rq_queued k q + 1"
    using acc by (intro add64_exact) (simp add: rq_accounts_def rq_limits)
  have bytes: "add64 (rq_bytes q) c = rq_bytes q + c"
    using acc guard(2) by (intro add64_exact) (auto simp: rq_accounts_def rq_limits)
  show ?thesis
    unfolding q' one bytes unfolding rq_queued_count [OF acc]
    using acc guard by (auto simp: rq_inv_def rq_accounts_def count_of_def Let_def fun_eq_iff)
qed

text \<open>Removing one entry, wherever it stands between kept and pending ones.\<close>

lemma rq_erase_accounts:
  assumes acc: "rq_accounts (xs @ e # ys) q"
  shows "\<exists>q'. rq_erase e q = Some q' \<and> rq_accounts (xs @ ys) q' \<and> rq_entries q' = rq_entries q"
proof -
  let ?k = "qe_stream e"
  let ?n = "length (entries_of ?k (xs @ e # ys))"
  have find: "map_of (rq_streams q) ?k = Some ?n"
    using acc by (simp add: rq_accounts_def count_of_def Let_def)
  have le: "?n \<le> length (xs @ e # ys)" by (rule length_filter_le)
  have n: "sub64 ?n 1 = ?n - 1"
    using le acc by (intro sub64_exact) (auto simp: rq_accounts_def rq_limits)
  have b: "sub64 (rq_bytes q) (qe_charge e) = rq_bytes q - qe_charge e"
    using acc by (intro sub64_exact) (auto simp: rq_accounts_def rq_limits)
  let ?q = "q\<lparr>rq_streams := (if ?n - 1 = 0 then omap_del ?k (rq_streams q)
      else omap_put ?k (?n - 1) (rq_streams q)), rq_bytes := rq_bytes q - qe_charge e\<rparr>"
  have "rq_erase e q = Some ?q"
    using find unfolding rq_erase_def by (simp only: option.simps Let_def n b)
  moreover have "rq_accounts (xs @ ys) ?q"
    using acc by (auto simp: rq_accounts_def count_of_def Let_def fun_eq_iff)
  ultimately show ?thesis by auto
qed

text \<open>A drain keeps the accounting of what it keeps, whatever the callback answers.\<close>

lemma rq_drain_loop_inv:
  assumes "rq_accounts (kept @ rest) q" and "rq_drain_loop dispatch blocked kept rest q w = (r, q', w')"
  shows "r \<noteq> DrainUndefined \<and> rq_inv q'"
  using assms
proof (induction rest arbitrary: blocked kept q w)
  case Nil
  then show ?case by (auto simp: rq_inv_def rq_accounts_def)
next
  case (Cons e rest)
  have stay: "r \<noteq> DrainUndefined \<and> rq_inv q'"
    if "rq_drain_loop dispatch b (kept @ [e]) rest q v = (r, q', w')" for b v
    using Cons.IH [of "kept @ [e]" q b v] Cons.prems(1) that by simp
  obtain q1 where er: "rq_erase e q = Some q1" "rq_accounts (kept @ rest) q1"
    using rq_erase_accounts [OF Cons.prems(1)] by blast
  show ?case
  proof (cases "qe_stream e \<in> set blocked")
    case True
    then show ?thesis using Cons.prems(2) stay by simp
  next
    case False
    obtain answer v where d: "dispatch w (qe_stream e) (qe_payload e) = (answer, v)"
      by (cases "dispatch w (qe_stream e) (qe_payload e)")
    consider "answer = None" | "answer = Some False" | "answer = Some True" by (cases answer) auto
    then show ?thesis
    proof cases
      case 1
      then show ?thesis using Cons.prems False d by (auto simp: rq_inv_def rq_accounts_def)
    next
      case 2
      then show ?thesis using Cons.prems(2) False d stay by simp
    next
      case 3
      then show ?thesis using Cons.IH [OF er(2)] Cons.prems(2) False d er(1) by simp
    qed
  qed
qed

lemma rq_discard_loop_exact:
  assumes "rq_accounts (kept @ rest) q"
  shows "\<exists>q'. rq_discard_loop k kept rest q = Some q' \<and> rq_inv q' \<and>
    rq_entries q' = kept @ filter (\<lambda>e. qe_stream e \<noteq> k) rest"
  using assms
proof (induction rest arbitrary: kept q)
  case Nil
  then show ?case by (auto simp: rq_inv_def rq_accounts_def)
next
  case (Cons e rest)
  show ?case
  proof (cases "qe_stream e = k")
    case True
    obtain q1 where "rq_erase e q = Some q1" "rq_accounts (kept @ rest) q1"
      using rq_erase_accounts [OF Cons.prems] by blast
    then show ?thesis using Cons.IH [of kept q1] True by simp
  next
    case False
    then show ?thesis using Cons.IH [of "kept @ [e]" q] Cons.prems by simp
  qed
qed

lemma rq_discard_exact:
  "rq_inv q \<Longrightarrow> \<exists>q'. rq_discard k q = Some q' \<and> rq_inv q' \<and>
     rq_entries q' = filter (\<lambda>e. qe_stream e \<noteq> k) (rq_entries q)"
  using rq_discard_loop_exact [of "[]" "rq_entries q" q k] by (simp add: rq_discard_def rq_inv_def)

section \<open>Order of dispatch\<close>

text \<open>The callback together with a log of what it took.\<close>

definition logged ::
  "('w \<Rightarrow> u64 \<Rightarrow> 'p \<Rightarrow> bool option \<times> 'w) \<Rightarrow> 'w \<times> (u64 \<times> 'p) list \<Rightarrow> u64 \<Rightarrow> 'p \<Rightarrow>
   bool option \<times> 'w \<times> (u64 \<times> 'p) list" where
  "logged dispatch wl k p =
     (let (answer, w') = dispatch (fst wl) k p
      in (answer, w', if answer = Some True then snd wl @ [(k, p)] else snd wl))"

lemma logged_apply:
  "dispatch w k p = (answer, v) \<Longrightarrow>
   logged dispatch (w, log) k p = (answer, v, if answer = Some True then log @ [(k, p)] else log)"
  by (simp add: logged_def)

definition sent_of :: "u64 \<Rightarrow> (u64 \<times> 'p) list \<Rightarrow> 'p list" where
  "sent_of k log = map snd (filter (\<lambda>x. fst x = k) log)"

abbreviation payloads_of :: "u64 \<Rightarrow> 'p rq_entry list \<Rightarrow> 'p list" where
  "payloads_of k es \<equiv> map qe_payload (entries_of k es)"

lemma rq_drain_loop_order:
  assumes "rq_accounts (kept @ rest) q" and "\<forall>e \<in> set kept. qe_stream e \<in> set blocked"
    and "rq_drain_loop (logged dispatch) blocked kept rest q (w, log) = (r, q', w', log')"
  shows "sent_of k log' @ payloads_of k (rq_entries q') = sent_of k log @ payloads_of k (kept @ rest)"
  using assms
proof (induction rest arbitrary: blocked kept q w log)
  case (Cons e rest)
  have stay: ?case
    if "rq_drain_loop (logged dispatch) (qe_stream e # blocked) (kept @ [e]) rest q (v, log) = (r, q', w', log')" for v
    using Cons.IH [of "kept @ [e]" q "qe_stream e # blocked" v log] Cons.prems(1,2) that by simp
  obtain q1 where er: "rq_erase e q = Some q1" "rq_accounts (kept @ rest) q1"
    using rq_erase_accounts [OF Cons.prems(1)] by blast
  show ?case
  proof (cases "qe_stream e \<in> set blocked")
    case True
    then show ?thesis using Cons.prems(3) stay by simp
  next
    case False
    then have none: "entries_of (qe_stream e) kept = []" using Cons.prems(2) by (auto simp: filter_empty_conv)
    obtain answer v where d: "dispatch w (qe_stream e) (qe_payload e) = (answer, v)"
      by (cases "dispatch w (qe_stream e) (qe_payload e)")
    consider "answer = None" | "answer = Some False" | "answer = Some True" by (cases answer) auto
    then show ?thesis
    proof cases
      case 1
      then show ?thesis using Cons.prems(3) False by (auto simp: logged_apply [where dispatch = dispatch, OF d])
    next
      case 2
      then show ?thesis using Cons.prems(3) False stay by (simp add: logged_apply [where dispatch = dispatch, OF d])
    next
      case 3
      then have run: "rq_drain_loop (logged dispatch) blocked kept rest q1
          (v, log @ [(qe_stream e, qe_payload e)]) = (r, q', w', log')"
        using Cons.prems(3) False er(1) by (simp add: logged_apply [where dispatch = dispatch, OF d])
      show ?thesis
        using Cons.IH [OF er(2) Cons.prems(2) run] none by (cases "qe_stream e = k") (auto simp: sent_of_def)
    qed
  qed
qed auto

lemma rq_drain_loop_static:
  assumes "rq_accounts (kept @ rest) q" and "\<forall>k \<in> set blocked. \<not> can k"
  shows "\<exists>q'. rq_drain_loop (\<lambda>w k p. (Some (can k), w)) blocked kept rest q w = (Drained, q', w) \<and>
    rq_entries q' = kept @ filter (\<lambda>e. \<not> can (qe_stream e)) rest"
  using assms
proof (induction rest arbitrary: blocked kept q)
  case (Cons e rest)
  obtain q1 where er: "rq_erase e q = Some q1" "rq_accounts (kept @ rest) q1"
    using rq_erase_accounts [OF Cons.prems(1)] by blast
  show ?case
  proof (cases "can (qe_stream e)")
    case True
    then have "qe_stream e \<notin> set blocked" using Cons.prems(2) by auto
    then show ?thesis using Cons.IH [OF er(2) Cons.prems(2)] True er(1) by simp
  next
    case False
    then show ?thesis
      using Cons.IH [of "kept @ [e]" q "qe_stream e # blocked"] Cons.prems by simp
  qed
qed simp

section \<open>Properties\<close>

text \<open>
  C10: draining keeps every stream in order.  For any dispatch callback, also one that throws part way, the
  payloads of a stream that were dispatched followed by those still queued are the payloads that were
  queued before, so no report is lost, repeated or overtaken by a later one of its stream; the queue's
  counters stay exact and the iterator looked up by \<open>erase\<close> is always found.
\<close>

theorem rq_drain_order:
  assumes "rq_inv q" and "rq_drain (logged dispatch) q (w, []) = (r, q', w', log)"
  shows "sent_of k log @ payloads_of k (rq_entries q') = payloads_of k (rq_entries q) \<and>
    r \<noteq> DrainUndefined \<and> rq_inv q'"
  using rq_drain_loop_order [of "[]" "rq_entries q" q "[]" dispatch w "[]" r q' w' log k]
    rq_drain_loop_inv [of "[]" "rq_entries q" q "logged dispatch" "[]" "(w, [])" r q' "(w', log)"] assms
  by (simp add: rq_inv_def rq_drain_def sent_of_def)

definition two_streams :: "string report_queue" where
  "two_streams = \<lparr>rq_entries = [\<lparr>qe_stream = 1, qe_payload = ''a'', qe_charge = 2\<rparr>,
     \<lparr>qe_stream = 2, qe_payload = ''b'', qe_charge = 3\<rparr>], rq_streams = [(1, 1), (2, 1)], rq_bytes = 5\<rparr>"

lemma two_streams_inv: "rq_inv two_streams"
  by (auto simp: two_streams_def rq_inv_def rq_accounts_def omap_ok_def count_of_def Let_def fun_eq_iff
      rq_limits)

theorem rq_drain_order_witness:
  "\<exists>r q' w' log. rq_drain (logged (\<lambda>w k p. (Some (k = 2), w))) two_streams ((), []) = (r, q', w', log) \<and>
     sent_of 1 log @ payloads_of 1 (rq_entries q') = [''a''] \<and> r \<noteq> DrainUndefined"
proof -
  obtain r q' w' log where
    run: "rq_drain (logged (\<lambda>w k p. (Some (k = 2), w))) two_streams ((), []) = (r, q', w', log)"
    by (metis prod_cases4)
  have "payloads_of 1 (rq_entries two_streams) = [''a'']" by (simp add: two_streams_def)
  then show ?thesis using rq_drain_order [OF two_streams_inv run, of 1] run by auto
qed

text \<open>
  A stream without credit does not hold back another one: when the callback takes exactly the reports
  of the streams that have credit, one drain sends all of those and keeps exactly the others, in order.
\<close>

theorem rq_drain_independent:
  assumes "rq_inv q"
  shows "\<exists>q'. rq_drain (\<lambda>w k p. (Some (can k), w)) q w = (Drained, q', w) \<and>
    rq_entries q' = filter (\<lambda>e. \<not> can (qe_stream e)) (rq_entries q)"
  using rq_drain_loop_static [of "[]" "rq_entries q" q "[]" can w] assms
  by (simp add: rq_inv_def rq_drain_def)

theorem rq_drain_independent_witness:
  "\<exists>q'. rq_drain (\<lambda>w k p. (Some (k = 2), w)) two_streams () = (Drained, q', ()) \<and>
     map qe_payload (rq_entries q') = [''a'']"
  using rq_drain_independent [OF two_streams_inv, of "\<lambda>k. k = 2" "()"] by (auto simp: two_streams_def)

text \<open>
  Discarding a stream removes exactly its reports, keeps the others in order with exact counters, and
  \<open>queued\<close> then answers zero for it.
\<close>

theorem rq_discard_removes:
  assumes "rq_inv q"
  shows "\<exists>q'. rq_discard k q = Some q' \<and> rq_inv q' \<and> rq_queued k q' = 0 \<and>
    rq_entries q' = filter (\<lambda>e. qe_stream e \<noteq> k) (rq_entries q)"
proof -
  obtain q' where q': "rq_discard k q = Some q'" "rq_inv q'"
    "rq_entries q' = filter (\<lambda>e. qe_stream e \<noteq> k) (rq_entries q)"
    using rq_discard_exact [OF assms] by blast
  then have "rq_queued k q' = length (entries_of k (rq_entries q'))"
    by (intro rq_queued_count) (simp add: rq_inv_def)
  then show ?thesis using q' by (simp add: filter_empty_conv)
qed

theorem rq_discard_removes_witness:
  "\<exists>q'. rq_discard 1 two_streams = Some q' \<and> rq_inv q' \<and> rq_queued 1 q' = 0"
  using rq_discard_removes [OF two_streams_inv, of 1] by blast

end
