(* ===== verification/Ble_Errors.thy ===== *)
theory Ble_Errors
  imports Ble_Frame
begin

text \<open>
  Closed error values of the BlueZ host (\<open>error_value.hpp\<close>, \<open>failure.hpp\<close>): which codes and names may
  appear in a reply, and how a D-Bus reply becomes one of them.  A reply is what the host keeps of it: the
  local error code, if any, and the message's kind and error name as libdbus reports them.
\<close>

section \<open>Model\<close>

definition error_prefix :: string where
  "error_prefix = ''org.bluez.Error.''"

definition name_letter :: "char \<Rightarrow> bool" where
  "name_letter c \<longleftrightarrow> (CHR ''A'' \<le> c \<and> c \<le> CHR ''Z'') \<or> (CHR ''a'' \<le> c \<and> c \<le> CHR ''z'') \<or> c = CHR ''_''"

fun native_name_loop :: "bool \<Rightarrow> string \<Rightarrow> bool" where
  "native_name_loop first [] = (\<not> first)"
| "native_name_loop first (c # cs) =
     (if c = CHR ''.'' then (if first then False else native_name_loop True cs)
      else if \<not> name_letter c \<and> (first \<or> c < CHR ''0'' \<or> c > CHR ''9'') then False
      else native_name_loop False cs)"

definition native_error_name :: "string \<Rightarrow> bool" where
  "native_error_name name \<longleftrightarrow>
     (if length name > 128 then False
      else if take (length error_prefix) name \<noteq> error_prefix \<or> length name = length error_prefix then False
      else native_name_loop True (drop (length error_prefix) name))"

definition native_error_codes :: "string list" where
  "native_error_codes =
     [''invalid_options'', ''invalid_peer'', ''disconnected'', ''owner_changed'', ''not_permitted'',
      ''not_authorized'', ''not_supported'', ''busy'', ''invalid_value_length'', ''invalid_offset'',
      ''improperly_configured'', ''remote_error'', ''object_limit'', ''peer_not_found'',
      ''ambiguous_peer'', ''invalid_response'', ''invalid_characteristic'', ''peer_changed'',
      ''generation_exhausted'', ''snapshot_unstable'', ''timeout'', ''services_unresolved'',
      ''stale_discovery'', ''invalid_cursor'', ''transport_error'', ''pairing_rejected'',
      ''invalid_address'', ''invalid_value'', ''address_mismatch'', ''ambiguous_characteristic'',
      ''unsupported_procedure_selection'', ''already_subscribed'', ''invalid_subscription'',
      ''response_limit'', ''queue_overflow'', ''subscription_lost'', ''cleanup_timeout'',
      ''resource_limit'', ''transport_unavailable'', ''incompatible_backend'']"

definition native_error_code :: "string \<Rightarrow> bool" where
  "native_error_code code \<longleftrightarrow> code \<in> set native_error_codes"

definition native_error :: "json \<Rightarrow> bool" where
  "native_error v \<longleftrightarrow>
     (if (\<not> json_fields v [''code''] \<and> \<not> json_fields v [''code'', ''name'']) \<or>
         \<not> json_is_string (json_at v ''code'') \<or> \<not> native_error_code (json_text (json_at v ''code''))
      then False
      else \<not> json_contains v ''name'' \<or>
           (json_is_string (json_at v ''name'') \<and> native_error_name (json_text (json_at v ''name''))))"

record native_failure =
  nf_code :: string
  nf_name :: string

record bus_message =
  bm_is_error :: bool
  bm_error_name :: "string option"

record bus_reply =
  br_error :: "string option"
  br_message :: "bus_message option"

definition failure_local :: "string \<Rightarrow> native_failure" where
  "failure_local code =
     (if native_error_code code then \<lparr>nf_code = code, nf_name = []\<rparr>
      else \<lparr>nf_code = ''transport_error'', nf_name = []\<rparr>)"

definition bluez_codes :: "(string \<times> string) list" where
  "bluez_codes =
     [(''org.bluez.Error.NotConnected'', ''disconnected''),
      (''org.bluez.Error.NotPermitted'', ''not_permitted''),
      (''org.bluez.Error.NotAuthorized'', ''not_authorized''),
      (''org.bluez.Error.NotSupported'', ''not_supported''),
      (''org.bluez.Error.InProgress'', ''busy''),
      (''org.bluez.Error.InvalidValueLength'', ''invalid_value_length''),
      (''org.bluez.Error.InvalidOffset'', ''invalid_offset''),
      (''org.bluez.Error.ImproperlyConfigured'', ''improperly_configured'')]"

definition failure_from :: "bus_reply \<Rightarrow> native_failure" where
  "failure_from reply =
     (case br_error reply of
        None \<Rightarrow> failure_local ''invalid_response''
      | Some code \<Rightarrow>
          (let result = failure_local code
           in case br_message reply of
                None \<Rightarrow> result
              | Some message \<Rightarrow>
                  (if nf_code result \<noteq> ''remote_error'' \<or> \<not> bm_is_error message then result
                   else case bm_error_name message of
                          None \<Rightarrow> result
                        | Some name \<Rightarrow>
                            (if \<not> native_error_name name then result
                             else case map_of bluez_codes name of
                                    None \<Rightarrow> result\<lparr>nf_name := name\<rparr>
                                  | Some known \<Rightarrow> \<lparr>nf_code = known, nf_name = name\<rparr>))))"

definition failure_envelope :: "native_failure \<Rightarrow> json" where
  "failure_envelope f =
     JObject (if nf_name f = [] then [(''code'', JString (nf_code f))]
              else [(''code'', JString (nf_code f)), (''name'', JString (nf_name f))])"

section \<open>Properties\<close>

lemma bluez_codes_known: "map_of bluez_codes name = Some code \<Longrightarrow> native_error_code code"
  by (auto simp: bluez_codes_def native_error_code_def native_error_codes_def split: if_splits)

lemma failure_local_code: "native_error_code (nf_code (failure_local code)) \<and> nf_name (failure_local code) = []"
  by (auto simp: failure_local_def native_error_code_def native_error_codes_def)

definition failure_ok :: "native_failure \<Rightarrow> bool" where
  "failure_ok f \<longleftrightarrow> native_error_code (nf_code f) \<and> (nf_name f = [] \<or> native_error_name (nf_name f))"

lemma failure_local_ok: "failure_ok (failure_local code)"
  using failure_local_code by (simp add: failure_ok_def)

lemma failure_from_ok: "failure_ok (failure_from reply)"
proof (cases "br_error reply")
  case None
  then show ?thesis by (simp add: failure_from_def failure_local_ok)
next
  case (Some code)
  then show ?thesis
    using failure_local_ok [of code] bluez_codes_known
    by (auto simp: failure_from_def failure_ok_def Let_def split: option.splits)
qed

lemma failure_envelope_ok: "failure_ok f \<Longrightarrow> native_error (failure_envelope f)"
  by (auto simp: failure_ok_def failure_envelope_def native_error_def json_exact_def json_contains_def
      json_at_def omap_has_def)

text \<open>
  C22: every error the host puts into a reply is a closed one: for any D-Bus reply, and for any local code,
  the envelope has exactly a known code and at most a bounded, well-formed BlueZ error name, so text chosen
  by a peer or a daemon never becomes protocol output.
\<close>

theorem failure_closed:
  "native_error (failure_envelope (failure_from reply)) \<and> native_error (failure_envelope (failure_local code))"
  using failure_envelope_ok failure_from_ok failure_local_ok by blast

end
