(* ===== verification/Ble_Objects.thy ===== *)
theory Ble_Objects
  imports Ble_Frame
begin

text \<open>
  Identities and discovery of the BlueZ host: UUID text, \<open>NativePeer\<close> and \<open>discovery\<close> (\<open>objects.hpp\<close>),
  the selectors of \<open>NativeAddress\<close> (\<open>address.hpp\<close>) and \<open>NotifyMode\<close> (\<open>notify_value.hpp\<close>).

  \<open>valid_path\<close> stands for libdbus' path check.  \<open>JsonType\<close> is the exception nlohmann's \<open>value\<close> and
  conversions throw on a value of another kind.
\<close>

section \<open>UUID text\<close>

datatype objects_error = InvalidObjects string | JsonType

definition lower_hex :: "char \<Rightarrow> char option" where
  "lower_hex c =
     (if CHR ''0'' \<le> c \<and> c \<le> CHR ''9'' then Some c
      else if CHR ''a'' \<le> c \<and> c \<le> CHR ''f'' then Some c
      else if CHR ''A'' \<le> c \<and> c \<le> CHR ''F'' then Some (char_of (of_char c + (97 - 65) :: nat))
      else None)"

text \<open>The loop over the characters: \<open>n\<close> is \<open>value.size()\<close> and \<open>i\<close> the index of the first one.\<close>

fun uuid_compact :: "nat \<Rightarrow> nat \<Rightarrow> string \<Rightarrow> string option" where
  "uuid_compact n i [] = Some []"
| "uuid_compact n i (c # cs) =
     (if n = 36 \<and> (i = 8 \<or> i = 13 \<or> i = 18 \<or> i = 23)
      then (if c \<noteq> CHR ''-'' then None else uuid_compact n (i + 1) cs)
      else case lower_hex c of
             None \<Rightarrow> None
           | Some d \<Rightarrow> map_option (\<lambda>ds. d # ds) (uuid_compact n (i + 1) cs))"

definition uuid_base :: string where
  "uuid_base = ''00001000800000805f9b34fb''"

definition uuid_dashed :: "string \<Rightarrow> string" where
  "uuid_dashed compact =
     take 8 compact @ ''-'' @ take 4 (drop 8 compact) @ ''-'' @ take 4 (drop 12 compact) @ ''-'' @
     take 4 (drop 16 compact) @ ''-'' @ drop 20 compact"

definition uuid_text :: "string \<Rightarrow> objects_error + string" where
  "uuid_text value =
     (if length value \<notin> {4, 8, 32, 36} then Inl (InvalidObjects ''invalid_characteristic'')
      else case uuid_compact (length value) 0 value of
             None \<Rightarrow> Inl (InvalidObjects ''invalid_characteristic'')
           | Some compact \<Rightarrow>
               Inr (uuid_dashed (if length compact \<le> 8
                                 then replicate (8 - length compact) CHR ''0'' @ compact @ uuid_base
                                 else compact)))"

section \<open>Peers\<close>

record native_peer =
  np_adapter :: string
  np_address :: string
  np_address_type :: string

text \<open>The loop over the address: \<open>i\<close> is the index of the first character.\<close>

fun peer_address :: "nat \<Rightarrow> string \<Rightarrow> string option" where
  "peer_address i [] = Some []"
| "peer_address i (c # cs) =
     (if i mod 3 = 2
      then (if c \<noteq> CHR '':'' then None else map_option (\<lambda>ds. c # ds) (peer_address (i + 1) cs))
      else if CHR ''a'' \<le> c \<and> c \<le> CHR ''f''
      then map_option (\<lambda>ds. char_of (of_char c - (97 - 65) :: nat) # ds) (peer_address (i + 1) cs)
      else if \<not> ((CHR ''A'' \<le> c \<and> c \<le> CHR ''F'') \<or> (CHR ''0'' \<le> c \<and> c \<le> CHR ''9'')) then None
      else map_option (\<lambda>ds. c # ds) (peer_address (i + 1) cs))"

definition peer_from :: "(string \<Rightarrow> bool) \<Rightarrow> json \<Rightarrow> objects_error + native_peer" where
  "peer_from valid_path v =
     (if \<not> json_fields v [''adapter'', ''address'', ''address_type''] \<or>
         \<not> json_is_string (json_at v ''adapter'') \<or> \<not> json_is_string (json_at v ''address'') \<or>
         \<not> json_is_string (json_at v ''address_type'')
      then Inl (InvalidObjects ''invalid_peer'')
      else let adapter = json_text (json_at v ''adapter''); address = json_text (json_at v ''address'');
               kind = json_text (json_at v ''address_type'')
      in if adapter = [] \<or> length adapter > 4096 \<or> CHR 0x00 \<in> set adapter \<or> \<not> valid_path adapter \<or>
            length address \<noteq> 17 \<or> (kind \<noteq> ''public'' \<and> kind \<noteq> ''random'')
         then Inl (InvalidObjects ''invalid_peer'')
         else case peer_address 0 address of
                None \<Rightarrow> Inl (InvalidObjects ''invalid_peer'')
              | Some upper \<Rightarrow> Inr \<lparr>np_adapter = adapter, np_address = upper, np_address_type = kind\<rparr>)"

section \<open>Discovery\<close>

definition adapter_interface :: string where "adapter_interface = ''org.bluez.Adapter1''"
definition device_interface :: string where "device_interface = ''org.bluez.Device1''"
definition service_interface :: string where "service_interface = ''org.bluez.GattService1''"
definition characteristic_interface :: string where
  "characteristic_interface = ''org.bluez.GattCharacteristic1''"

record discovered =
  dv_device_path :: string
  dv_connected :: bool
  dv_services_resolved :: bool
  dv_characteristics :: "json list"
  dv_service_paths :: "string list"
  dv_mtus :: "(string \<times> nat) list"

text \<open>\<open>value(key, std::string())\<close> of nlohmann's JSON.\<close>

definition json_value_text :: "json \<Rightarrow> string \<Rightarrow> objects_error + string" where
  "json_value_text v k =
     (if \<not> json_is_object v then Inl JsonType
      else if \<not> json_contains v k then Inr []
      else if json_is_string (json_at v k) then Inr (json_text (json_at v k)) else Inl JsonType)"

definition upper_hex :: "char \<Rightarrow> char" where
  "upper_hex c = (if CHR ''a'' \<le> c \<and> c \<le> CHR ''f'' then char_of (of_char c - (97 - 65) :: nat) else c)"

text \<open>
  The device loop; \<open>path\<close> and \<open>device\<close> are what was found before.  The remote address is read first, then
  the three comparisons in the order of the source.
\<close>

fun find_device ::
  "native_peer \<Rightarrow> string \<Rightarrow> json \<Rightarrow> (string \<times> json) list \<Rightarrow> objects_error + string \<times> json" where
  "find_device peer path device [] = Inr (path, device)"
| "find_device peer path device ((key, interfaces) # rest) =
     (if \<not> json_contains interfaces device_interface then find_device peer path device rest
      else let candidate = json_at interfaces device_interface
      in case json_value_text candidate ''Address'' of
           Inl e \<Rightarrow> Inl e
         | Inr address \<Rightarrow>
      (case json_value_text candidate ''Adapter'' of
           Inl e \<Rightarrow> Inl e
         | Inr adapter \<Rightarrow>
             (if adapter \<noteq> np_adapter peer \<or> map upper_hex address \<noteq> np_address peer
              then find_device peer path device rest
              else case json_value_text candidate ''AddressType'' of
                     Inl e \<Rightarrow> Inl e
                   | Inr kind \<Rightarrow>
                       (if kind \<noteq> np_address_type peer then find_device peer path device rest
                        else if path \<noteq> [] then Inl (InvalidObjects ''ambiguous_peer'')
                        else find_device peer key candidate rest))))"

fun find_services ::
  "string \<Rightarrow> (string \<times> string) list \<Rightarrow> (string \<times> json) list \<Rightarrow>
   objects_error + (string \<times> string) list" where
  "find_services path services [] = Inr services"
| "find_services path services ((key, interfaces) # rest) =
     (if \<not> json_contains interfaces service_interface then find_services path services rest
      else let service = json_at interfaces service_interface
      in case json_value_text service ''Device'' of
           Inl e \<Rightarrow> Inl e
         | Inr device \<Rightarrow>
             (if device \<noteq> path then find_services path services rest
              else if length services = 1024 then Inl (InvalidObjects ''object_limit'')
              else case json_value_text service ''UUID'' of
                     Inl e \<Rightarrow> Inl e
                   | Inr uuid \<Rightarrow>
                       (case uuid_text uuid of
                          Inl e \<Rightarrow> Inl e
                        | Inr u \<Rightarrow> find_services path (omap_emplace key u services) rest)))"

definition characteristic_value ::
  "string \<Rightarrow> string \<Rightarrow> string \<Rightarrow> string \<Rightarrow> json \<Rightarrow> u64 \<Rightarrow> json" where
  "characteristic_value service_uuid uuid service key characteristic generation =
     JObject [(''characteristic_uuid'', JString uuid),
              (''flags'', json_at characteristic ''Flags''),
              (''generation'', JUnsigned generation),
              (''handle'', json_at characteristic ''Handle''),
              (''object_path'', JString key),
              (''service_path'', JString service),
              (''service_uuid'', JString service_uuid)]"

fun find_characteristics ::
  "(string \<times> string) list \<Rightarrow> u64 \<Rightarrow> json list \<Rightarrow> (string \<times> nat) list \<Rightarrow> (string \<times> json) list \<Rightarrow>
   objects_error + json list \<times> (string \<times> nat) list" where
  "find_characteristics services generation cs mtus [] = Inr (cs, mtus)"
| "find_characteristics services generation cs mtus ((key, interfaces) # rest) =
     (if \<not> json_contains interfaces characteristic_interface
      then find_characteristics services generation cs mtus rest
      else let characteristic = json_at interfaces characteristic_interface
      in case json_value_text characteristic ''Service'' of
           Inl e \<Rightarrow> Inl e
         | Inr service \<Rightarrow>
      (case map_of services service of
           None \<Rightarrow> find_characteristics services generation cs mtus rest
         | Some service_uuid \<Rightarrow>
             (if length services + length cs = 1024 then Inl (InvalidObjects ''object_limit'')
              else if \<not> json_contains characteristic ''Flags'' \<or>
                      \<not> json_is_array (json_at characteristic ''Flags'')
              then Inl (InvalidObjects ''invalid_characteristic'')
              else if json_contains characteristic ''MTU'' \<and>
                      \<not> json_integer (json_at characteristic ''MTU'') 23 517
              then Inl (InvalidObjects ''invalid_characteristic'')
              else let mtus' = (if json_contains characteristic ''MTU''
                                then omap_emplace key (nat (json_integer_value (json_at characteristic ''MTU''))) mtus
                                else mtus)
              in case json_value_text characteristic ''UUID'' of
                   Inl e \<Rightarrow> Inl e
                 | Inr uuid \<Rightarrow>
                     (case uuid_text uuid of
                        Inl e \<Rightarrow> Inl e
                      | Inr u \<Rightarrow>
                          find_characteristics services generation
                            (cs @ [characteristic_value service_uuid u service key characteristic generation])
                            mtus' rest))))"

definition characteristic_order :: "json \<Rightarrow> string \<times> string" where
  "characteristic_order c = (json_text (json_at c ''service_path''), json_text (json_at c ''object_path''))"

text \<open>What follows once the device is found.\<close>

definition discovery_of ::
  "(string \<times> json) list \<Rightarrow> string \<Rightarrow> json \<Rightarrow> u64 \<Rightarrow> objects_error + discovered" where
  "discovery_of objects path device generation =
     (if path = [] then Inl (InvalidObjects ''peer_not_found'')
      else if \<not> json_contains device ''Connected'' \<or> \<not> json_is_boolean (json_at device ''Connected'') \<or>
              \<not> json_contains device ''ServicesResolved'' \<or>
              \<not> json_is_boolean (json_at device ''ServicesResolved'')
      then Inl (InvalidObjects ''invalid_response'')
      else case find_services path [] objects of
             Inl e \<Rightarrow> Inl e
           | Inr services \<Rightarrow>
               (case find_characteristics services generation [] [] objects of
                  Inl e \<Rightarrow> Inl e
                | Inr (cs, mtus) \<Rightarrow>
                    Inr \<lparr>dv_device_path = path, dv_connected = json_truth (json_at device ''Connected''),
                         dv_services_resolved = json_truth (json_at device ''ServicesResolved''),
                         dv_characteristics = sort_key characteristic_order cs,
                         dv_service_paths = map fst services, dv_mtus = mtus\<rparr>))"

definition discovery :: "(string \<times> json) list \<Rightarrow> native_peer \<Rightarrow> u64 \<Rightarrow> objects_error + discovered" where
  "discovery objects peer generation =
     (case map_of objects (np_adapter peer) of
        None \<Rightarrow> Inl (InvalidObjects ''peer_not_found'')
      | Some own \<Rightarrow>
          (if \<not> json_contains own adapter_interface then Inl (InvalidObjects ''peer_not_found'')
           else case find_device peer [] JNull objects of
                  Inl e \<Rightarrow> Inl e
                | Inr (path, device) \<Rightarrow> discovery_of objects path device generation))"

section \<open>Selectors\<close>

datatype address_error = InvalidAddress string

record native_address =
  na_service :: string
  na_characteristic :: string
  na_object_path :: "string option"
  na_handle :: "nat option"
  na_generation :: "u64 option"

definition address_path :: "(string \<Rightarrow> bool) \<Rightarrow> json \<Rightarrow> address_error + string option" where
  "address_path valid_path v =
     (if v = JNull then Inr None
      else if \<not> json_is_string v then Inl (InvalidAddress ''invalid_address'')
      else let path = json_text v
      in if path = [] \<or> length path > 4096 \<or> CHR 0x00 \<in> set path \<or> \<not> valid_path path
         then Inl (InvalidAddress ''invalid_address'') else Inr (Some path))"

definition address_integer :: "json \<Rightarrow> u64 \<Rightarrow> u64 \<Rightarrow> address_error + nat option" where
  "address_integer v minimum maximum =
     (if v = JNull then Inr None
      else if \<not> json_integer v minimum maximum then Inl (InvalidAddress ''invalid_address'')
      else Inr (Some (nat (json_integer_value v))))"

definition address_from :: "(string \<Rightarrow> bool) \<Rightarrow> json \<Rightarrow> address_error + native_address" where
  "address_from valid_path v =
     (if \<not> json_fields v [''service'', ''characteristic'', ''object_path'', ''handle'', ''generation''] \<or>
         \<not> json_is_string (json_at v ''service'') \<or> \<not> json_is_string (json_at v ''characteristic'')
      then Inl (InvalidAddress ''invalid_address'')
      else case (uuid_text (json_text (json_at v ''service'')),
                 uuid_text (json_text (json_at v ''characteristic''))) of
        (Inr service, Inr characteristic) \<Rightarrow>
          (case address_path valid_path (json_at v ''object_path'') of
             Inl e \<Rightarrow> Inl e
           | Inr path \<Rightarrow>
          (case address_integer (json_at v ''handle'') 1 65535 of
             Inl e \<Rightarrow> Inl e
           | Inr handle \<Rightarrow>
          (case address_integer (json_at v ''generation'') 0 u64_max of
             Inl e \<Rightarrow> Inl e
           | Inr generation \<Rightarrow>
               Inr \<lparr>na_service = service, na_characteristic = characteristic, na_object_path = path,
                    na_handle = handle, na_generation = generation\<rparr>)))
      | _ \<Rightarrow> Inl (InvalidAddress ''invalid_address''))"

text \<open>
  Equality of a JSON value with a number: integer kinds compare by value.  A handle is an integer or null,
  as \<open>ObjectReader\<close> admits no other kind.
\<close>

definition json_equals_number :: "json \<Rightarrow> nat \<Rightarrow> bool" where
  "json_equals_number v n \<longleftrightarrow> (case v of JInt i \<Rightarrow> i = int n | JUnsigned m \<Rightarrow> m = n | _ \<Rightarrow> False)"

definition address_matches :: "native_address \<Rightarrow> json \<Rightarrow> bool" where
  "address_matches a item \<longleftrightarrow>
     \<not> (json_at item ''service_uuid'' \<noteq> JString (na_service a) \<or>
        json_at item ''characteristic_uuid'' \<noteq> JString (na_characteristic a) \<or>
        (case na_object_path a of None \<Rightarrow> False | Some p \<Rightarrow> json_at item ''object_path'' \<noteq> JString p) \<or>
        (case na_handle a of None \<Rightarrow> False | Some h \<Rightarrow> \<not> json_equals_number (json_at item ''handle'') h))"

fun address_select_loop :: "native_address \<Rightarrow> json option \<Rightarrow> json list \<Rightarrow> address_error + json" where
  "address_select_loop a selected [] =
     (case selected of None \<Rightarrow> Inl (InvalidAddress ''address_mismatch'') | Some item \<Rightarrow> Inr item)"
| "address_select_loop a selected (item # rest) =
     (if \<not> address_matches a item then address_select_loop a selected rest
      else if selected \<noteq> None then Inl (InvalidAddress ''ambiguous_characteristic'')
      else address_select_loop a (Some item) rest)"

definition address_select :: "native_address \<Rightarrow> json list \<Rightarrow> u64 \<Rightarrow> address_error + json" where
  "address_select a characteristics generation =
     (if na_generation a \<noteq> None \<and> na_generation a \<noteq> Some generation
      then Inl (InvalidAddress ''stale_discovery'')
      else address_select_loop a None characteristics)"

section \<open>Notification mode\<close>

record notify_mode =
  nm_requested :: string
  nm_effective :: string

fun notify_flags :: "string list \<Rightarrow> json list \<Rightarrow> objects_error + string list" where
  "notify_flags seen [] = Inr seen"
| "notify_flags seen (flag # rest) =
     (if \<not> json_is_string flag then Inl (InvalidObjects ''invalid_characteristic'')
      else let t = json_text flag
      in if t = [] \<or> length t > 64 \<or> CHR 0x00 \<in> set t \<or> t \<in> set seen
         then Inl (InvalidObjects ''invalid_characteristic'')
         else notify_flags (t # seen) rest)"

definition notify_mode_from :: "json \<Rightarrow> json \<Rightarrow> objects_error + notify_mode" where
  "notify_mode_from flags requested =
     (if requested \<noteq> JString ''auto'' \<and> requested \<noteq> JString ''notify'' \<and> requested \<noteq> JString ''indicate''
      then Inl (InvalidObjects ''invalid_options'')
      else if \<not> json_is_array flags \<or> json_size flags > 64
      then Inl (InvalidObjects ''invalid_characteristic'')
      else case notify_flags [] (json_elements flags) of
        Inl e \<Rightarrow> Inl e
      | Inr seen \<Rightarrow>
          (let notify = ''notify'' \<in> set seen; indicate = ''indicate'' \<in> set seen
           in if notify \<and> indicate
              then (if requested \<noteq> JString ''auto''
                    then Inl (InvalidObjects ''unsupported_procedure_selection'')
                    else Inr \<lparr>nm_requested = ''auto'', nm_effective = ''bluez_selected''\<rparr>)
              else if notify \<and> requested \<noteq> JString ''indicate''
              then Inr \<lparr>nm_requested = json_text requested, nm_effective = ''notify''\<rparr>
              else if indicate \<and> requested \<noteq> JString ''notify''
              then Inr \<lparr>nm_requested = json_text requested, nm_effective = ''indicate''\<rparr>
              else Inl (InvalidObjects ''not_supported'')))"

section \<open>UUIDs are canonical\<close>

lemma char_le_code: "c \<le> d \<longleftrightarrow> (of_char c :: nat) \<le> of_char d"
  by (simp add: less_eq_char_def)

lemma lower_hex_hex: "lower_hex c = Some d \<Longrightarrow> hex_char d"
proof -
  assume a: "lower_hex c = Some d"
  show ?thesis
  proof (cases "CHR ''A'' \<le> c \<and> c \<le> CHR ''F'' \<and> \<not> (CHR ''0'' \<le> c \<and> c \<le> CHR ''9'') \<and> \<not> (CHR ''a'' \<le> c \<and> c \<le> CHR ''f'')")
    case True
    then have d: "d = char_of (of_char c + 32 :: nat)" using a by (auto simp: lower_hex_def)
    have "(of_char c :: nat) \<in> {65, 66, 67, 68, 69, 70}" using True by (auto simp: char_le_code)
    then show ?thesis using d by (auto simp: hex_char_def char_le_code)
  next
    case False
    then show ?thesis using a by (auto simp: lower_hex_def hex_char_def split: if_splits)
  qed
qed

lemma hex_lower_hex: "hex_char c \<Longrightarrow> lower_hex c = Some c"
  by (auto simp: lower_hex_def hex_char_def)

abbreviation uuid_dash :: "nat \<Rightarrow> nat \<Rightarrow> bool" where
  "uuid_dash n i \<equiv> n = 36 \<and> (i = 8 \<or> i = 13 \<or> i = 18 \<or> i = 23)"

lemma uuid_compact_hex: "uuid_compact n i v = Some c \<Longrightarrow> list_all hex_char c"
  by (induction n i v arbitrary: c rule: uuid_compact.induct)
    (auto split: if_splits option.splits dest: lower_hex_hex)

lemma uuid_compact_length:
  "uuid_compact n i v = Some c \<Longrightarrow> length c + length (filter (uuid_dash n) [i..<i + length v]) = length v"
proof (induction n i v arbitrary: c rule: uuid_compact.induct)
  case (2 n i x xs)
  have upt: "[i..<i + length (x # xs)] = i # [i + 1..<i + 1 + length xs]"
    using upt_conv_Cons [of i "i + length (x # xs)"] by simp
  show ?case
  proof (cases "uuid_dash n i")
    case True
    then show ?thesis using "2.IH"(1) [of c] "2.prems" unfolding upt by (auto split: if_splits)
  next
    case False
    then obtain d ds where "lower_hex x = Some d" "uuid_compact n (i + 1) xs = Some ds" "c = d # ds"
      using "2.prems" by (auto split: option.splits)
    then show ?thesis using "2.IH"(2) [of d ds] False unfolding upt by auto
  qed
qed simp

lemma uuid_compact_append:
  "uuid_compact n i xs = Some c \<Longrightarrow> uuid_compact n (i + length xs) ys = Some d \<Longrightarrow>
   uuid_compact n i (xs @ ys) = Some (c @ d)"
  by (induction xs arbitrary: i c) (auto split: option.splits if_splits)

lemma uuid_compact_plain:
  "list_all hex_char xs \<Longrightarrow> (\<forall>j. i \<le> j \<and> j < i + length xs \<longrightarrow> \<not> uuid_dash n j) \<Longrightarrow>
   uuid_compact n i xs = Some xs"
proof (induction xs arbitrary: i)
  case (Cons x xs)
  have "\<not> uuid_dash n i" using Cons.prems(2) by (elim allE [of _ i]) simp
  moreover have "uuid_compact n (i + 1) xs = Some xs" using Cons.prems by (intro Cons.IH) auto
  ultimately show ?case using Cons.prems(1) by (auto simp: hex_lower_hex)
qed simp

lemma list_all_take_drop: "list_all P xs \<Longrightarrow> list_all P (take m (drop n xs))" "list_all P xs \<Longrightarrow> list_all P (take m xs)"
    "list_all P xs \<Longrightarrow> list_all P (drop n xs)"
  by (auto simp: list_all_iff dest: in_set_takeD in_set_dropD)

lemma uuid_compact_segment:
  assumes "list_all hex_char xs" and "\<forall>j. i \<le> j \<and> j < i + length xs \<longrightarrow> \<not> uuid_dash n j"
    and "uuid_dash n (i + length xs)" and "uuid_compact n (i + length xs + 1) ys = Some d"
  shows "uuid_compact n i (xs @ CHR ''-'' # ys) = Some (xs @ d)"
  by (rule uuid_compact_append [OF uuid_compact_plain [OF assms(1,2)]]) (use assms(3,4) in auto)

lemma uuid_compact_dashed:
  assumes hex: "list_all hex_char c" and len: "length c = 32"
  shows "uuid_compact 36 0 (uuid_dashed c) = Some c"
proof -
  let ?a = "take 8 c" and ?b = "take 4 (drop 8 c)" and ?d = "take 4 (drop 12 c)"
  let ?e = "take 4 (drop 16 c)" and ?f = "drop 20 c"
  have hexes: "list_all hex_char ?a" "list_all hex_char ?b" "list_all hex_char ?d" "list_all hex_char ?e"
    "list_all hex_char ?f" using hex by (auto intro: list_all_take_drop)
  have parts: "length ?a = 8" "length ?b = 4" "length ?d = 4" "length ?e = 4" "length ?f = 12"
    using len by simp_all
  have "uuid_compact 36 24 ?f = Some ?f"
    by (rule uuid_compact_plain [OF hexes(5)]) (use parts in auto)
  then have "uuid_compact 36 19 (?e @ CHR ''-'' # ?f) = Some (?e @ ?f)"
    by (intro uuid_compact_segment [OF hexes(4)]) (unfold parts, auto)
  then have "uuid_compact 36 14 (?d @ CHR ''-'' # ?e @ CHR ''-'' # ?f) = Some (?d @ ?e @ ?f)"
    by (intro uuid_compact_segment [OF hexes(3)]) (unfold parts, auto)
  then have "uuid_compact 36 9 (?b @ CHR ''-'' # ?d @ CHR ''-'' # ?e @ CHR ''-'' # ?f) =
      Some (?b @ ?d @ ?e @ ?f)"
    by (intro uuid_compact_segment [OF hexes(2)]) (unfold parts, auto)
  then have "uuid_compact 36 0 (?a @ CHR ''-'' # ?b @ CHR ''-'' # ?d @ CHR ''-'' # ?e @ CHR ''-'' # ?f) =
      Some (?a @ ?b @ ?d @ ?e @ ?f)"
    by (intro uuid_compact_segment [OF hexes(1)]) (unfold parts, auto)
  moreover have "?a @ ?b @ ?d @ ?e @ ?f = c"
    using append_take_drop_id [of 8 c] append_take_drop_id [of 4 "drop 8 c"]
      append_take_drop_id [of 4 "drop 12 c"] append_take_drop_id [of 4 "drop 16 c"] by simp
  ultimately show ?thesis unfolding uuid_dashed_def by simp
qed

lemma uuid_text_shape:
  assumes "uuid_text v = Inr u"
  obtains c where "u = uuid_dashed c" "length c = 32" "list_all hex_char c"
proof -
  obtain c where c: "uuid_compact (length v) 0 v = Some c" and len: "length v \<in> {4, 8, 32, 36}"
    and u: "u = uuid_dashed (if length c \<le> 8 then replicate (8 - length c) CHR ''0'' @ c @ uuid_base else c)"
    using assms by (auto simp: uuid_text_def split: if_splits option.splits)
  have count: "length c + length (filter (uuid_dash (length v)) [0..<length v]) = length v"
    using uuid_compact_length [OF c] by simp
  have "length c = (if length v = 36 then 32 else length v)"
  proof (cases "length v = 36")
    case True
    have "length (filter (uuid_dash 36) [0..<36]) = 4" by code_simp
    then show ?thesis using count True by simp
  qed (use count in simp)
  moreover have "list_all hex_char c" using uuid_compact_hex [OF c] .
  moreover have zero: "hex_char CHR ''0''" by (simp add: hex_char_def)
  moreover have "list_all hex_char uuid_base" "length uuid_base = 24"
    by (simp_all add: uuid_base_def hex_char_def)
  ultimately show thesis
    using len u by (intro that [of "if length c \<le> 8 then replicate (8 - length c) CHR ''0'' @ c @ uuid_base else c"])
      (auto simp: list_all_iff split: if_splits)
qed

lemma uuid_text_dashed:
  assumes "length c = 32" and "list_all hex_char c"
  shows "uuid_text (uuid_dashed c) = Inr (uuid_dashed c)"
proof -
  have "length (uuid_dashed c) = 36" using assms(1) by (simp add: uuid_dashed_def)
  then show ?thesis using uuid_compact_dashed [OF assms(2,1)] assms(1) by (simp add: uuid_text_def)
qed

section \<open>What discovery returns\<close>

definition services_ok :: "(string \<times> string) list \<Rightarrow> bool" where
  "services_ok services \<longleftrightarrow> omap_ok services \<and> length services \<le> 1024"

lemma find_services_ok:
  "services_ok services \<Longrightarrow> find_services path services objects = Inr services' \<Longrightarrow> services_ok services'"
proof (induction path services objects rule: find_services.induct)
  case (2 path services key interfaces rest)
  have grow: "services_ok (omap_emplace key u services)" if "length services \<noteq> 1024" for u
    using "2.prems"(1) that length_omap_put_le [of key u services]
    by (auto simp: services_ok_def omap_emplace_def)
  from "2.prems"(2) show ?case
    using 2 grow by (auto simp: Let_def split: if_splits sum.splits)
qed simp

text \<open>A characteristic of the answer: its service is one of the found ones, its object one of the snapshot.\<close>

definition characteristic_ok ::
  "(string \<times> string) list \<Rightarrow> (string \<times> json) list \<Rightarrow> u64 \<Rightarrow> json \<Rightarrow> bool" where
  "characteristic_ok services objects generation c \<longleftrightarrow>
     map_of services (json_text (json_at c ''service_path'')) = Some (json_text (json_at c ''service_uuid'')) \<and>
     json_text (json_at c ''object_path'') \<in> fst ` set objects \<and>
     uuid_text (json_text (json_at c ''characteristic_uuid'')) = Inr (json_text (json_at c ''characteristic_uuid'')) \<and>
     json_at c ''generation'' = JUnsigned generation"

lemma uuid_text_stable: "uuid_text v = Inr u \<Longrightarrow> uuid_text u = Inr u"
  by (metis uuid_text_shape uuid_text_dashed)

lemma characteristic_value_ok:
  "map_of services service = Some service_uuid \<Longrightarrow> key \<in> fst ` set objects \<Longrightarrow> uuid_text v = Inr u \<Longrightarrow>
   characteristic_ok services objects g (characteristic_value service_uuid u service key ch g)"
  by (simp add: characteristic_ok_def characteristic_value_def json_at_def uuid_text_stable)

lemma find_characteristics_ok:
  assumes "list_all (characteristic_ok services objects g) cs" and "length services + length cs \<le> 1024"
    and "set rest \<subseteq> set objects" and "find_characteristics services g cs mtus rest = Inr (cs', mtus')"
  shows "list_all (characteristic_ok services objects g) cs' \<and> length services + length cs' \<le> 1024"
  using assms
proof (induction services g cs mtus rest rule: find_characteristics.induct)
  case (2 services g cs mtus key interfaces rest)
  have key: "key \<in> fst ` set objects" using "2.prems"(3) by force
  show ?case
    using 2 by (auto simp: Let_def characteristic_value_ok key split: if_splits sum.splits option.splits)
qed simp

lemma address_select_loop_filter:
  "address_select_loop a selected cs =
     (case (case selected of None \<Rightarrow> [] | Some x \<Rightarrow> [x]) @ filter (address_matches a) cs of
        [] \<Rightarrow> Inl (InvalidAddress ''address_mismatch'')
      | [x] \<Rightarrow> Inr x
      | _ \<Rightarrow> Inl (InvalidAddress ''ambiguous_characteristic''))"
  by (induction a selected cs rule: address_select_loop.induct) (auto split: option.splits)

lemma notify_flags_set: "notify_flags seen fs = Inr ts \<Longrightarrow> set ts = set seen \<union> json_text ` set fs"
  by (induction seen fs rule: notify_flags.induct) (auto simp: Let_def split: if_splits)

section \<open>Properties\<close>

text \<open>
  UUID text is canonical: an accepted UUID becomes 36 characters, dashes at the four places and
  lower-case hexadecimal digits elsewhere, and normalizing it again changes nothing; so comparing the
  normalized texts compares the UUIDs.
\<close>

theorem uuid_text_canonical:
  assumes "uuid_text v = Inr u"
  shows "uuid_text u = Inr u \<and> length u = 36 \<and> (\<exists>c. u = uuid_dashed c \<and> length c = 32 \<and> list_all hex_char c)"
proof -
  obtain c where c: "u = uuid_dashed c" "length c = 32" "list_all hex_char c"
    using uuid_text_shape [OF assms] .
  then have "length u = 36" by (simp add: uuid_dashed_def)
  then show ?thesis using c uuid_text_dashed [OF c(2,3)] by blast
qed

theorem uuid_text_canonical_witness:
  "uuid_text ''2A37'' = Inr ''00002a37-0000-1000-8000-00805f9b34fb'' \<and>
   uuid_text ''00002a37-0000-1000-8000-00805f9b34fb'' = Inr ''00002a37-0000-1000-8000-00805f9b34fb''"
proof -
  have "uuid_text ''2A37'' = Inr ''00002a37-0000-1000-8000-00805f9b34fb''"
    by (simp add: uuid_text_def uuid_dashed_def uuid_base_def lower_hex_def numeral_eq_Suc) code_simp
  then show ?thesis using uuid_text_canonical [of "''2A37''"] by blast
qed

text \<open>
  A selector picks a characteristic exactly when it is the only one of the snapshot that matches; no
  match and several matches are told apart, and a selector of another generation never picks anything.
\<close>

theorem address_select_unique:
  "address_select a cs generation =
     (if na_generation a \<noteq> None \<and> na_generation a \<noteq> Some generation
      then Inl (InvalidAddress ''stale_discovery'')
      else case filter (address_matches a) cs of
             [] \<Rightarrow> Inl (InvalidAddress ''address_mismatch'')
           | [x] \<Rightarrow> Inr x
           | _ \<Rightarrow> Inl (InvalidAddress ''ambiguous_characteristic''))"
  by (simp add: address_select_def address_select_loop_filter)



text \<open>
  The effective notification mode is one the characteristic offers and, unless the caller left the
  choice open, the requested one; where both are offered the host never claims to know which one BlueZ uses.
\<close>

theorem notify_mode_effective:
  assumes "notify_mode_from (JArray flags) requested = Inr m"
  shows "requested = JString (nm_requested m) \<and>
    (nm_requested m = ''auto'' \<or> nm_requested m = nm_effective m) \<and>
    (if JString ''notify'' \<in> set flags \<and> JString ''indicate'' \<in> set flags
     then nm_effective m = ''bluez_selected''
     else nm_effective m \<in> {''notify'', ''indicate''} \<and> JString (nm_effective m) \<in> set flags)"
proof -
  obtain seen where seen: "notify_flags [] flags = Inr seen"
    using assms by (auto simp: notify_mode_from_def split: if_splits sum.splits)
  have strings: "\<forall>f \<in> set flags. json_is_string f" if "notify_flags acc flags = Inr ts" for acc ts
    using that by (induction acc flags rule: notify_flags.induct) (auto simp: Let_def split: if_splits)
  have member: "t \<in> set seen \<longleftrightarrow> JString t \<in> set flags" for t
  proof -
    have "set seen = json_text ` set flags" using notify_flags_set [OF seen] by simp
    moreover have "x = JString (json_text x)" if "x \<in> set flags" for x
      using strings [OF seen] that by (cases x) auto
    ultimately show ?thesis by (metis image_iff json_text.simps(1))
  qed
  show ?thesis
    using assms by (auto simp: notify_mode_from_def seen Let_def member split: if_splits)
qed

theorem notify_mode_effective_witness:
  "notify_mode_from (JArray [JString ''read'', JString ''notify'']) (JString ''auto'') =
     Inr \<lparr>nm_requested = ''auto'', nm_effective = ''notify''\<rparr> \<and> JString ''notify'' \<in> set [JString ''read'', JString ''notify'']"
proof -
  have run: "notify_mode_from (JArray [JString ''read'', JString ''notify'']) (JString ''auto'') =
      Inr \<lparr>nm_requested = ''auto'', nm_effective = ''notify''\<rparr>"
    by (simp add: notify_mode_from_def Let_def)
  show ?thesis using notify_mode_effective [OF run] run by simp
qed

end
