(* ===== verification/Ble_Pages.thy ===== *)
theory Ble_Pages
  imports Ble_Output
begin

text \<open>
  Discovery pages of the BlueZ host (\<open>pages.hpp\<close>): \<open>PageRequest\<close> and \<open>NativePages\<close> with its cursor table.
  The random source is a parameter: its \<open>n\<close>-th answer is a token, or \<open>None\<close> where it throws.  An operation
  returns its result or failure and the next state, since cursors issued before a failure are kept.
\<close>

section \<open>Model\<close>

datatype page_failure = PageFailure string

record page_request =
  pr_cursor :: "string option"
  pr_limit :: nat

definition page_request_from :: "json \<Rightarrow> page_failure + page_request" where
  "page_request_from parameters =
     (if \<not> json_is_object parameters \<or> json_size parameters > 2 then Inl (PageFailure ''invalid_options'')
      else if \<not> list_all (\<lambda>p. fst p = ''cursor'' \<or> fst p = ''limit'') (json_entries parameters)
      then Inl (PageFailure ''invalid_options'')
      else if json_contains parameters ''limit'' \<and> \<not> json_integer (json_at parameters ''limit'') 1 64
      then Inl (PageFailure ''invalid_options'')
      else let limit = (if json_contains parameters ''limit''
                        then nat (json_integer_value (json_at parameters ''limit'')) else 64)
      in if json_contains parameters ''cursor'' \<and> json_at parameters ''cursor'' \<noteq> JNull
         then (if \<not> json_is_string (json_at parameters ''cursor'') \<or>
                  \<not> hex_token (json_text (json_at parameters ''cursor''))
               then Inl (PageFailure ''invalid_cursor'')
               else Inr \<lparr>pr_cursor = Some (json_text (json_at parameters ''cursor'')), pr_limit = limit\<rparr>)
         else Inr \<lparr>pr_cursor = None, pr_limit = limit\<rparr>)"

type_synonym position = "u64 \<times> nat"

record native_pages =
  pg_cursors :: "(string \<times> position) list"
  pg_positions :: "(position \<times> string) list"
  pg_generation :: u64
  pg_draws :: nat

definition pages_init :: native_pages where
  "pages_init = \<lparr>pg_cursors = [], pg_positions = [], pg_generation = 0, pg_draws = 0\<rparr>"

type_synonym random_source = "nat \<Rightarrow> string option"

text \<open>The attempts to draw an unused token; the first number counts the attempts left.\<close>

fun pages_draw :: "random_source \<Rightarrow> nat \<Rightarrow> native_pages \<Rightarrow> (page_failure + string) \<times> native_pages" where
  "pages_draw random 0 s = (Inl (PageFailure ''resource_limit''), s)"
| "pages_draw random (Suc attempts) s =
     (let s' = s\<lparr>pg_draws := pg_draws s + 1\<rparr>
      in case random (pg_draws s) of
           None \<Rightarrow> (Inl (PageFailure ''resource_limit''), s')
         | Some token \<Rightarrow>
             (if \<not> hex_token token then (Inl (PageFailure ''resource_limit''), s')
              else if \<not> omap_has token (pg_cursors s') then (Inr token, s')
              else pages_draw random attempts s'))"

text \<open>
  \<open>positions_.begin()\<close> is only read with 1024 cursors in the table, when there are as many positions.
\<close>

definition pages_evict :: "native_pages \<Rightarrow> native_pages" where
  "pages_evict s =
     (if length (pg_cursors s) = 1024
      then case pg_positions s of
             [] \<Rightarrow> s
           | (position, token) # rest \<Rightarrow>
               s\<lparr>pg_cursors := omap_del token (pg_cursors s), pg_positions := rest\<rparr>
      else s)"

definition pages_issue ::
  "random_source \<Rightarrow> u64 \<Rightarrow> nat \<Rightarrow> native_pages \<Rightarrow> (page_failure + string) \<times> native_pages" where
  "pages_issue random generation offset s =
     (case map_of (pg_positions s) (generation, offset) of
        Some token \<Rightarrow> (Inr token, s)
      | None \<Rightarrow>
          (if length (pg_cursors s) = 1024 \<and>
              (case pg_positions s of [] \<Rightarrow> False | (position, _) # _ \<Rightarrow> fst position \<ge> generation)
           then (Inl (PageFailure ''resource_limit''), s)
           else case pages_draw random 8 s of
                  (Inl e, s1) \<Rightarrow> (Inl e, s1)
                | (Inr token, s1) \<Rightarrow>
                    (let s2 = pages_evict s1
                     in (Inr token, s2\<lparr>pg_cursors := omap_emplace token (generation, offset) (pg_cursors s2),
                           pg_positions := omap_emplace (generation, offset) token (pg_positions s2)\<rparr>))))"

definition page_reply :: "string \<Rightarrow> json \<Rightarrow> json" where
  "page_reply ident result =
     JObject [(''id'', JString ident), (''ok'', JBool True), (''result'', result), (''version'', JInt 1)]"

definition pages_offset ::
  "page_request \<Rightarrow> u64 \<Rightarrow> bool \<Rightarrow> native_pages \<Rightarrow> page_failure + nat" where
  "pages_offset request generation stale s =
     (if pr_limit request < 1 \<or> pr_limit request > 64 then Inl (PageFailure ''invalid_options'')
      else if (case pr_cursor request of None \<Rightarrow> False | Some c \<Rightarrow> \<not> hex_token c)
      then Inl (PageFailure ''invalid_cursor'')
      else if generation = 0 \<or> generation < pg_generation s then Inl (PageFailure ''invalid_response'')
      else case pr_cursor request of
             None \<Rightarrow> (if stale then Inl (PageFailure ''stale_discovery'') else Inr 0)
           | Some c \<Rightarrow>
               (case map_of (pg_cursors s) c of
                  None \<Rightarrow> Inl (PageFailure ''invalid_cursor'')
                | Some found \<Rightarrow>
                    (if stale \<or> fst found \<noteq> generation then Inl (PageFailure ''stale_discovery'')
                     else Inr (snd found))))"

definition page_result :: "u64 \<Rightarrow> json list \<Rightarrow> json \<Rightarrow> json" where
  "page_result generation characteristics cursor =
     JObject [(''characteristics'', JArray characteristics), (''cursor'', cursor),
              (''generation'', JUnsigned generation)]"

text \<open>
  The loop that fills the page: \<open>taken\<close> is what the page holds, the list argument what is left of the
  characteristics.
\<close>

fun page_fill ::
  "serializer \<Rightarrow> string \<Rightarrow> u64 \<Rightarrow> nat \<Rightarrow> json list \<Rightarrow> json list \<Rightarrow> json list" where
  "page_fill serialize ident generation limit taken [] = taken"
| "page_fill serialize ident generation limit taken (c # rest) =
     (if \<not> length taken < limit then taken
      else let cursor = (if rest \<noteq> [] then JString (replicate 32 CHR ''0'') else JNull)
      in case encoded_from serialize (page_reply ident (page_result generation (taken @ [c]) cursor)) max_line of
           Inl _ \<Rightarrow> taken
         | Inr _ \<Rightarrow> page_fill serialize ident generation limit (taken @ [c]) rest)"

text \<open>The cursor of the page, and the check that its reply fits.\<close>

definition page_cursor ::
  "random_source \<Rightarrow> u64 \<Rightarrow> nat \<Rightarrow> nat \<Rightarrow> native_pages \<Rightarrow> (page_failure + json) \<times> native_pages" where
  "page_cursor random generation next count s =
     (if next < count
      then (let (r, s1) = pages_issue random generation next s in (map_sum (\<lambda>e. e) JString r, s1))
      else (Inr JNull, s))"

definition page_finish ::
  "serializer \<Rightarrow> string \<Rightarrow> u64 \<Rightarrow> json list \<Rightarrow> (page_failure + json) \<times> native_pages \<Rightarrow>
   (page_failure + json) \<times> native_pages" where
  "page_finish serialize ident generation taken r =
     (case r of
        (Inl e, s1) \<Rightarrow> (Inl e, s1)
      | (Inr c, s1) \<Rightarrow>
          (let result = page_result generation taken c
           in case encoded_from serialize (page_reply ident result) max_line of
                Inl _ \<Rightarrow> (Inl (PageFailure ''response_limit''), s1)
              | Inr _ \<Rightarrow> (Inr result, s1\<lparr>pg_generation := generation\<rparr>)))"

definition page_from ::
  "serializer \<Rightarrow> random_source \<Rightarrow> page_request \<Rightarrow> string \<Rightarrow> json list \<Rightarrow> u64 \<Rightarrow> nat \<Rightarrow> native_pages \<Rightarrow>
   (page_failure + json) \<times> native_pages" where
  "page_from serialize random request ident items generation first s =
     (if first > length items \<or> (pr_cursor request \<noteq> None \<and> first = length items)
      then (Inl (PageFailure ''invalid_response''), s)
      else let taken = page_fill serialize ident generation (pr_limit request) [] (drop first items);
               next = first + length taken
      in if next = first \<and> next < length items then (Inl (PageFailure ''response_limit''), s)
         else page_finish serialize ident generation taken
                (page_cursor random generation next (length items) s))"

definition pages_page ::
  "serializer \<Rightarrow> random_source \<Rightarrow> page_request \<Rightarrow> string \<Rightarrow> json \<Rightarrow> u64 \<Rightarrow> bool \<Rightarrow> native_pages \<Rightarrow>
   (page_failure + json) \<times> native_pages" where
  "pages_page serialize random request ident characteristics generation stale s =
     (if ident = [] \<or> length ident > 64 \<or> \<not> json_is_array characteristics \<or> json_size characteristics > 1024 \<or>
         pr_limit request < 1 \<or> pr_limit request > 64 \<or>
         (case pr_cursor request of None \<Rightarrow> False | Some c \<Rightarrow> \<not> hex_token c)
      then (Inl (PageFailure ''invalid_options''), s)
      else case pages_offset request generation stale s of
             Inl e \<Rightarrow> (Inl e, s)
           | Inr first \<Rightarrow>
               page_from serialize random request ident (json_elements characteristics) generation first s)"

section \<open>The cursor table\<close>

definition inverse_maps :: "('a \<rightharpoonup> 'b) \<Rightarrow> ('b \<rightharpoonup> 'a) \<Rightarrow> bool" where
  "inverse_maps m n \<longleftrightarrow> (\<forall>a b. m a = Some b \<longleftrightarrow> n b = Some a)"

lemma inverse_mapsD:
  "inverse_maps m n \<Longrightarrow> m a = Some b \<Longrightarrow> n b = Some a"
  "inverse_maps m n \<Longrightarrow> n b = Some a \<Longrightarrow> m a = Some b"
  by (simp_all add: inverse_maps_def)

lemma inverse_maps_put:
  assumes "inverse_maps m n" and "m a = None" and "n b = None"
  shows "inverse_maps (m(a \<mapsto> b)) (n(b \<mapsto> a))"
  unfolding inverse_maps_def
proof (intro allI)
  fix x y
  have "m x = Some y \<longleftrightarrow> n y = Some x" using assms(1) by (simp add: inverse_maps_def)
  then show "(m(a \<mapsto> b)) x = Some y \<longleftrightarrow> (n(b \<mapsto> a)) y = Some x"
    using assms(2,3) by (cases "x = a"; cases "y = b") auto
qed

lemma inverse_maps_del:
  assumes "inverse_maps m n" and "m a = Some b"
  shows "inverse_maps (m(a := None)) (n(b := None))"
  unfolding inverse_maps_def
proof (intro allI)
  fix x y
  have "m x = Some y \<longleftrightarrow> n y = Some x" "n b = Some a" using assms by (auto simp: inverse_maps_def)
  then show "(m(a := None)) x = Some y \<longleftrightarrow> (n(b := None)) y = Some x"
    using assms(2) by (cases "x = a"; cases "y = b") auto
qed

definition pages_inv :: "native_pages \<Rightarrow> bool" where
  "pages_inv s \<longleftrightarrow> omap_ok (pg_cursors s) \<and> omap_ok (pg_positions s) \<and>
     inverse_maps (map_of (pg_cursors s)) (map_of (pg_positions s)) \<and>
     length (pg_cursors s) \<le> 1024 \<and> list_all hex_token (map fst (pg_cursors s))"

lemma pages_init_inv: "pages_inv pages_init"
  by (simp add: pages_inv_def pages_init_def inverse_maps_def)

lemma pages_draw_token:
  assumes "pages_draw random n s = (r, s')"
  shows "\<exists>d. s' = s\<lparr>pg_draws := d\<rparr> \<and> (\<forall>t. r = Inr t \<longrightarrow> hex_token t \<and> \<not> omap_has t (pg_cursors s))"
  using assms
proof (induction n arbitrary: s)
  case 0
  then show ?case by (auto intro: exI [of _ "pg_draws s"])
next
  case (Suc n)
  show ?case
  proof (cases "random (pg_draws s)")
    case None
    then show ?thesis using Suc.prems by auto
  next
    case (Some token)
    show ?thesis
    proof (cases "hex_token token \<and> omap_has token (pg_cursors s)")
      case True
      then have "pages_draw random n (s\<lparr>pg_draws := pg_draws s + 1\<rparr>) = (r, s')"
        using Suc.prems Some by simp
      from Suc.IH [OF this] show ?thesis by auto
    next
      case False
      then show ?thesis using Suc.prems Some by (auto simp: Let_def split: if_splits)
    qed
  qed
qed

lemma pages_inv_draws: "pages_inv (s\<lparr>pg_draws := d\<rparr>) = pages_inv s"
  by (simp add: pages_inv_def)

lemma pages_evict_inv:
  assumes inv: "pages_inv s"
  shows "pages_inv (pages_evict s)" and "length (pg_cursors (pages_evict s)) < 1024"
    and "map_of (pg_cursors (pages_evict s)) \<subseteq>\<^sub>m map_of (pg_cursors s)"
    and "map_of (pg_positions (pages_evict s)) \<subseteq>\<^sub>m map_of (pg_positions s)"
proof -
  have "pages_inv (pages_evict s) \<and> length (pg_cursors (pages_evict s)) < 1024 \<and>
    map_of (pg_cursors (pages_evict s)) \<subseteq>\<^sub>m map_of (pg_cursors s) \<and>
    map_of (pg_positions (pages_evict s)) \<subseteq>\<^sub>m map_of (pg_positions s)"
  proof (cases "length (pg_cursors s) = 1024")
    case False
    then show ?thesis using inv by (auto simp: pages_evict_def pages_inv_def)
  next
    case True
    then obtain c rest0 where cs: "pg_cursors s = c # rest0" by (cases "pg_cursors s") auto
    obtain t0 p0 where "map_of (pg_cursors s) t0 = Some p0"
      by (rule that [of "fst c" "snd c"]) (simp add: cs)
    then have "map_of (pg_positions s) p0 = Some t0"
      using inv by (auto simp: pages_inv_def dest: inverse_mapsD)
    then obtain p t rest where ps: "pg_positions s = (p, t) # rest"
      by (cases "pg_positions s") auto
    have ok: "omap_ok ((p, t) # rest)" using inv by (simp add: pages_inv_def ps)
    have fresh: "map_of rest p = None"
      using ok by (auto simp: omap_ok_Cons map_of_eq_None_iff)
    have both: "inverse_maps (map_of (pg_cursors s)) (map_of ((p, t) # rest))"
      using inv by (simp add: pages_inv_def ps)
    then have owner: "map_of (pg_cursors s) t = Some p" by (rule inverse_mapsD) simp
    have e: "pages_evict s = s\<lparr>pg_cursors := omap_del t (pg_cursors s), pg_positions := rest\<rparr>"
      using True by (simp add: pages_evict_def ps)
    have len: "length (omap_del t (pg_cursors s)) = 1023"
      using inv owner True by (simp add: pages_inv_def length_omap_del omap_has_def)
    have "(map_of ((p, t) # rest))(p := None) = map_of rest" using fresh by auto
    then have "inverse_maps (map_of (omap_del t (pg_cursors s))) (map_of rest)"
      using inverse_maps_del [OF both owner] by simp
    moreover have "omap_ok rest" using ok by (simp add: omap_ok_Cons)
    moreover have "list_all hex_token (map fst (omap_del t (pg_cursors s)))"
      using inv by (auto simp: pages_inv_def list_all_iff omap_del_def)
    ultimately show ?thesis
      using inv len fresh by (auto simp: e pages_inv_def map_le_def ps)
  qed
  then show "pages_inv (pages_evict s)" "length (pg_cursors (pages_evict s)) < 1024"
    "map_of (pg_cursors (pages_evict s)) \<subseteq>\<^sub>m map_of (pg_cursors s)"
    "map_of (pg_positions (pages_evict s)) \<subseteq>\<^sub>m map_of (pg_positions s)" by auto
qed

lemma pages_issue_inv:
  assumes inv: "pages_inv s" and run: "pages_issue random g off s = (r, s')"
  shows "pages_inv s' \<and> pg_generation s' = pg_generation s \<and>
    (\<forall>t. r = Inr t \<longrightarrow> hex_token t \<and> map_of (pg_cursors s') t = Some (g, off))"
proof (cases "map_of (pg_positions s) (g, off)")
  case (Some token)
  then have "map_of (pg_cursors s) token = Some (g, off)" using inv by (auto simp: pages_inv_def dest: inverse_mapsD)
  then show ?thesis
    using inv run Some map_of_SomeD [of "pg_cursors s" token "(g, off)"]
    by (auto simp: pages_issue_def pages_inv_def list_all_iff)
next
  case None
  show ?thesis
  proof (cases "length (pg_cursors s) = 1024 \<and>
      (case pg_positions s of [] \<Rightarrow> False | (position, _) # _ \<Rightarrow> fst position \<ge> g)")
    case True
    then show ?thesis using inv run None by (auto simp: pages_issue_def)
  next
    case False
    obtain d s1 where draw: "pages_draw random 8 s = (d, s1)" by (cases "pages_draw random 8 s")
    obtain n where s1: "s1 = s\<lparr>pg_draws := n\<rparr>"
      and token: "\<And>t. d = Inr t \<Longrightarrow> hex_token t \<and> \<not> omap_has t (pg_cursors s)"
      using pages_draw_token [OF draw] by auto
    show ?thesis
    proof (cases d)
      case (Inl e)
      then have "r = Inl e" "s' = s1" using run None False draw by (auto simp: pages_issue_def)
      then show ?thesis using inv by (simp add: s1 pages_inv_draws)
    next
      case (Inr t)
      define s2 where "s2 = pages_evict s1"
      have inv1: "pages_inv s1" using inv by (simp add: s1 pages_inv_draws)
      have sub: "map_of (pg_cursors s2) \<subseteq>\<^sub>m map_of (pg_cursors s)"
        "map_of (pg_positions s2) \<subseteq>\<^sub>m map_of (pg_positions s)"
        using pages_evict_inv(3,4) [OF inv1] by (simp_all add: s2_def s1)
      have fresh_t: "map_of (pg_cursors s2) t = None"
        using token [OF Inr] sub(1)
        by (cases "map_of (pg_cursors s2) t") (auto simp: omap_has_def map_le_def dom_def)
      have fresh_p: "map_of (pg_positions s2) (g, off) = None"
        using None sub(2)
        by (cases "map_of (pg_positions s2) (g, off)") (auto simp: map_le_def dom_def)
      have inv2: "pages_inv s2" "length (pg_cursors s2) < 1024"
        using pages_evict_inv(1,2) [OF inv1] by (simp_all add: s2_def)
      have r: "r = Inr t" and s': "s' = s2\<lparr>pg_cursors := omap_put t (g, off) (pg_cursors s2),
          pg_positions := omap_put (g, off) t (pg_positions s2)\<rparr>"
        using run None False draw Inr fresh_t fresh_p
        by (auto simp: pages_issue_def Let_def s2_def omap_emplace_def omap_has_def)
      have "list_all hex_token (map fst (omap_put t (g, off) (pg_cursors s2)))"
        using inv2(1) token [OF Inr] set_omap_put_fst [of t "(g, off)" "pg_cursors s2"]
        by (simp add: pages_inv_def list_all_iff flip: set_map)
      then have "pages_inv s'"
        using inv2 fresh_t fresh_p
        by (auto simp: s' pages_inv_def length_omap_put omap_has_def intro: inverse_maps_put)
      moreover have "pg_generation s' = pg_generation s"
        by (simp add: s' s2_def pages_evict_def s1 split: list.splits)
      ultimately show ?thesis using token [OF Inr] by (simp add: r s')
    qed
  qed
qed

section \<open>What a page holds\<close>

lemma page_fill_prefix:
  "length taken \<le> limit \<Longrightarrow> \<exists>n. page_fill serialize i g limit taken rest = taken @ take n rest \<and> n \<le> length rest \<and>
     length taken + n \<le> limit"
proof (induction rest arbitrary: taken)
  case (Cons c rest)
  show ?case
  proof (cases "page_fill serialize i g limit taken (c # rest) = taken")
    case True
    then show ?thesis using Cons.prems by (intro exI [of _ 0]) simp
  next
    case False
    then have step: "page_fill serialize i g limit taken (c # rest) = page_fill serialize i g limit (taken @ [c]) rest"
      and lt: "length taken < limit"
      by (auto simp: Let_def split: if_splits sum.splits)
    then obtain n where n: "page_fill serialize i g limit (taken @ [c]) rest = (taken @ [c]) @ take n rest"
      "n \<le> length rest" "length (taken @ [c]) + n \<le> limit"
      using Cons.IH [of "taken @ [c]"] by auto
    show ?thesis using step n by (intro exI [of _ "Suc n"]) simp
  qed
qed (auto intro: exI [of _ 0])

lemma page_cursor_inv:
  assumes "pages_inv s" and "page_cursor random g next count s = (r, s1)"
  shows "pages_inv s1 \<and> pg_generation s1 = pg_generation s \<and>
    (\<forall>c. r = Inr c \<longrightarrow>
       (if next < count
        then \<exists>t. c = JString t \<and> hex_token t \<and> map_of (pg_cursors s1) t = Some (g, next)
        else c = JNull))"
proof (cases "next < count")
  case True
  obtain x s2 where i: "pages_issue random g next s = (x, s2)" by (cases "pages_issue random g next s")
  then have "r = map_sum (\<lambda>e. e) JString x" "s1 = s2" using assms(2) True by (auto simp: page_cursor_def)
  then show ?thesis using pages_issue_inv [OF assms(1) i] True by (cases x) auto
next
  case False
  then show ?thesis using assms by (auto simp: page_cursor_def)
qed

lemma page_finish_cases:
  assumes "page_finish serialize i g taken (r, s1) = (out, s')"
  shows "(\<exists>e. out = Inl e \<and> s' = s1) \<or>
    (\<exists>c. r = Inr c \<and> out = Inr (page_result g taken c) \<and> s' = s1\<lparr>pg_generation := g\<rparr>)"
  using assms by (cases r) (auto simp: page_finish_def Let_def split: sum.splits)

lemma page_from_cases:
  assumes inv: "pages_inv s" and run: "page_from serialize random req i items g first s = (out, s')"
  shows "(\<exists>e. out = Inl e \<and> pages_inv s' \<and> pg_generation s' = pg_generation s) \<or>
    (\<exists>n c. out = Inr (page_result g (take n (drop first items)) c) \<and> n \<le> pr_limit req \<and>
       first + n \<le> length items \<and> (first < length items \<longrightarrow> 0 < n) \<and>
       (if first + n < length items
        then \<exists>t. c = JString t \<and> hex_token t \<and> map_of (pg_cursors s') t = Some (g, first + n)
        else c = JNull) \<and> pages_inv s' \<and> pg_generation s' = g)"
proof -
  define taken where "taken = page_fill serialize i g (pr_limit req) [] (drop first items)"
  obtain n where n: "taken = take n (drop first items)" "n \<le> length (drop first items)" "n \<le> pr_limit req"
    using page_fill_prefix [of "[]" "pr_limit req" serialize i g "drop first items"] taken_def by auto
  have len: "length taken = n" using n by simp
  show ?thesis
  proof (cases "first > length items \<or> (pr_cursor req \<noteq> None \<and> first = length items) \<or>
      (n = 0 \<and> first < length items)")
    case True
    then have "\<exists>e. out = Inl e \<and> s' = s"
      using run len by (auto simp: page_from_def taken_def [symmetric] Let_def split: if_splits)
    then show ?thesis using inv by auto
  next
    case False
    obtain r s1 where cur: "page_cursor random g (first + n) (length items) s = (r, s1)"
      by (cases "page_cursor random g (first + n) (length items) s")
    have fin: "page_finish serialize i g taken (r, s1) = (out, s')"
      using run False cur len by (auto simp: page_from_def taken_def [symmetric] Let_def split: if_splits)
    have le: "first + n \<le> length items" "first < length items \<longrightarrow> 0 < n" using False n(2) by auto
    note c = page_cursor_inv [OF inv cur]
    have keep: "pages_inv (s1\<lparr>pg_generation := g\<rparr>)" using c by (simp add: pages_inv_def)
    from page_finish_cases [OF fin] show ?thesis
    proof
      assume "\<exists>e. out = Inl e \<and> s' = s1"
      then show ?thesis using c by auto
    next
      assume "\<exists>c. r = Inr c \<and> out = Inr (page_result g taken c) \<and> s' = s1\<lparr>pg_generation := g\<rparr>"
      then obtain x where x: "r = Inr x" "out = Inr (page_result g taken x)" "s' = s1\<lparr>pg_generation := g\<rparr>"
        by blast
      show ?thesis
        by (rule disjI2, rule exI [of _ n], rule exI [of _ x]) (use x c keep le n in auto)
    qed
  qed
qed

lemma pages_page_cases:
  assumes "pages_page serialize random req i characteristics g stale s = (out, s')"
  shows "(\<exists>e. out = Inl e \<and> s' = s) \<or>
    (\<exists>first. pages_offset req g stale s = Inr first \<and>
       page_from serialize random req i (json_elements characteristics) g first s = (out, s'))"
  using assms by (auto simp: pages_page_def split: if_splits sum.splits)

section \<open>Properties\<close>

text \<open>
  A page is exactly the next part of the snapshot.  It holds the characteristics from the request's
  offset on, at most the requested number and at least one while any is left, its reply fits one frame,
  and its cursor is null exactly when nothing is left; otherwise the cursor's recorded offset is where this
  page ended, so following the cursors visits every characteristic once and in order.
\<close>

theorem pages_continue:
  assumes "pages_inv s"
    and "pages_page serialize random req i (JArray items) g stale s = (Inr result, s')"
  shows "\<exists>first n c. pages_offset req g stale s = Inr first \<and>
    result = page_result g (take n (drop first items)) c \<and> n \<le> pr_limit req \<and> first + n \<le> length items \<and>
    (first < length items \<longrightarrow> 0 < n) \<and>
    (if first + n < length items
     then \<exists>t. c = JString t \<and> hex_token t \<and> map_of (pg_cursors s') t = Some (g, first + n)
     else c = JNull) \<and>
    pages_inv s' \<and> pg_generation s' = g"
proof -
  obtain first where "pages_offset req g stale s = Inr first"
    and "page_from serialize random req i items g first s = (Inr result, s')"
    using pages_page_cases [OF assms(2)] by auto
  then show ?thesis using page_from_cases [OF assms(1), of serialize random req i items g first] by fastforce
qed

definition page_example :: "(page_failure + json) \<times> native_pages" where
  "page_example = pages_page (\<lambda>_. []) (\<lambda>_. None)
     \<lparr>pr_cursor = None, pr_limit = 1\<rparr> ''7'' (JArray []) 1 False pages_init"

lemma page_example_eq: "page_example = (Inr (page_result 1 [] JNull), pages_init\<lparr>pg_generation := 1\<rparr>)"
proof -
  let ?v = "page_reply ''7'' (page_result 1 [] JNull)"
  have "json_within 4 ?v" by (simp add: page_reply_def page_result_def eval_nat_numeral)
  then have "json_within 8 ?v" by (rule json_within_mono) simp
  then have "encoded_from (\<lambda>_. []) ?v max_line = Inr [newline]"
    by (simp add: encoded_from_exact serialized_def max_line_def json_bounded_def page_reply_def page_result_def)
  then show ?thesis
    by (simp add: page_example_def pages_page_def page_from_def page_cursor_def page_finish_def
        pages_offset_def pages_init_def)
qed

theorem pages_continue_witness:
  "\<exists>first n c. pages_offset \<lparr>pr_cursor = None, pr_limit = 1\<rparr> 1 False pages_init = Inr first \<and>
     page_result 1 [] JNull = page_result 1 (take n (drop first [])) c \<and> n \<le> 1"
proof -
  have "pages_page (\<lambda>_. []) (\<lambda>_. None) \<lparr>pr_cursor = None, pr_limit = 1\<rparr> ''7'' (JArray []) 1 False pages_init =
      (Inr (page_result 1 [] JNull), pages_init\<lparr>pg_generation := 1\<rparr>)"
    using page_example_eq by (simp add: page_example_def)
  from pages_continue [OF pages_init_inv this] show ?thesis by fastforce
qed

text \<open>
  The cursor table stays a bijection of at most 1024 well-formed tokens whatever a request does, and a
  successful page never moves the generation backwards.
\<close>

theorem pages_page_inv:
  assumes "pages_inv s" and "pages_page serialize random req i characteristics g stale s = (r, s')"
  shows "pages_inv s' \<and> pg_generation s \<le> pg_generation s'"
proof -
  consider "s' = s" | first where "pages_offset req g stale s = Inr first"
      "page_from serialize random req i (json_elements characteristics) g first s = (r, s')"
    using pages_page_cases [OF assms(2)] by blast
  then show ?thesis
  proof cases
    case 2
    have "pg_generation s \<le> g" using 2(1) by (auto simp: pages_offset_def split: if_splits)
    then show ?thesis using page_from_cases [OF assms(1) 2(2)] by auto
  qed (use assms(1) in simp)
qed

theorem pages_page_inv_witness: "pages_inv (snd page_example) \<and> pg_generation pages_init \<le> pg_generation (snd page_example)"
  unfolding page_example_def
  by (rule pages_page_inv [OF pages_init_inv, of _ _ _ _ _ _ _ "fst page_example"]) (simp add: page_example_def)

end
