(* ===== verification/Ble_Reports.thy ===== *)
theory Ble_Reports
  imports Ble_Bytes Ble_Output Ble_Credit Ble_Report_Queue Ble_Errors
begin

text \<open>
  The composition of the report path of the BlueZ host (\<open>reports.hpp\<close>): \<open>NativeReports\<close> encodes a value,
  takes a credit for it and hands it to the output, or queues it until an acknowledgement frees a credit.
  Exceptions can leave the object changed, so every operation returns what happened and the next state.

  The JSON serializer and the equality of JSON values are third-party code and parameters: \<open>serialize\<close> and
  \<open>same\<close>.
\<close>

section \<open>Model\<close>

datatype reports_error = ReportsInvalidFrame | ReportsInvalidValue | ReportsOutOfRange

record report_stream =
  rs_metadata :: json
  rs_limit :: nat
  rs_last_sequence :: u64
  rs_accepting :: bool

record native_reports =
  nr_output :: native_output
  nr_generation :: string
  nr_credits :: credits
  nr_streams :: "(u64 \<times> report_stream) list"
  nr_queue :: "bytes report_queue"

type_synonym 'r reports_run = "(reports_error, 'r) outcome \<times> native_reports"

definition reports_init :: "native_output \<Rightarrow> string \<Rightarrow> frame_error + native_reports" where
  "reports_init output generation =
     (case credits_init generation of
        Inl e \<Rightarrow> Inl e
      | Inr credits \<Rightarrow> Inr \<lparr>nr_output = output, nr_generation = generation, nr_credits = credits,
                          nr_streams = [], nr_queue = rq_init\<rparr>)"

definition reports_envelope ::
  "native_reports \<Rightarrow> u64 \<Rightarrow> json \<Rightarrow> bytes \<Rightarrow> u64 \<Rightarrow> json" where
  "reports_envelope s identifier metadata value sequence =
     JObject [(''event'', JString ''value''), (''generation'', JInt 1), (''metadata'', metadata),
              (''report_sequence'', JUnsigned sequence),
              (''session_generation'', JString (nr_generation s)),
              (''subscription_id'', JString (to_decimal identifier)),
              (''value'', attribute_envelope value), (''version'', JInt 1)]"

definition reports_dispatch ::
  "serializer \<Rightarrow> u64 \<Rightarrow> report_stream \<Rightarrow> bytes \<Rightarrow> native_reports \<Rightarrow> bool reports_run" where
  "reports_dispatch serialize identifier stream value s =
     (case credits_next_sequence (nr_credits s) of
        Inl _ \<Rightarrow> (Thrown ReportsInvalidFrame, s)
      | Inr next \<Rightarrow>
     (case encoded_from serialize (reports_envelope s identifier (rs_metadata stream) value next) max_line of
        Inl _ \<Rightarrow> (Thrown ReportsInvalidFrame, s)
      | Inr encoded \<Rightarrow>
     (case credits_reserve identifier (length encoded) (nr_credits s) of
        Thrown _ \<Rightarrow> (Thrown ReportsInvalidFrame, s)
      | Undefined \<Rightarrow> (Undefined, s)
      | Returned (None, credits) \<Rightarrow> (Returned False, s\<lparr>nr_credits := credits\<rparr>)
      | Returned (Some sequence, credits) \<Rightarrow>
          (let s1 = s\<lparr>nr_credits := credits\<rparr>;
               (ok, output) = output_report encoded sequence (nr_output s1)
           in if \<not> ok then (Thrown ReportsInvalidFrame, s1)
              else (Returned True, s1\<lparr>nr_output := output,
                     nr_streams := omap_put identifier (stream\<lparr>rs_last_sequence := sequence\<rparr>)
                                     (nr_streams s1)\<rparr>)))))"

text \<open>
  The callback that \<open>drain\<close> gives to the queue, on the reports and the exception it last threw; \<open>None\<close> is
  a throw.
\<close>

definition reports_callback ::
  "serializer \<Rightarrow> native_reports \<times> reports_error \<Rightarrow> u64 \<Rightarrow> bytes \<Rightarrow>
   bool option \<times> native_reports \<times> reports_error" where
  "reports_callback serialize w identifier value =
     (case map_of (nr_streams (fst w)) identifier of
        None \<Rightarrow> (None, fst w, ReportsOutOfRange)
      | Some stream \<Rightarrow>
          (case reports_dispatch serialize identifier stream value (fst w) of
             (Returned ok, s') \<Rightarrow> (Some ok, s', snd w)
           | (Thrown e, s') \<Rightarrow> (None, s', e)
           | (Undefined, s') \<Rightarrow> (None, s', snd w)))"

definition reports_drain :: "serializer \<Rightarrow> native_reports \<Rightarrow> unit reports_run" where
  "reports_drain serialize s =
     (let (r, queue, s', e) = rq_drain (reports_callback serialize) (nr_queue s) (s, ReportsInvalidFrame)
      in (case r of Drained \<Rightarrow> Returned () | DrainThrew \<Rightarrow> Thrown e | DrainUndefined \<Rightarrow> Undefined,
          s'\<lparr>nr_queue := queue\<rparr>))"

definition reports_identifier :: "json \<Rightarrow> reports_error + u64" where
  "reports_identifier v =
     (if \<not> json_is_string v then Inl ReportsInvalidFrame
      else case decimal_id (json_text v) of None \<Rightarrow> Inl ReportsInvalidFrame | Some n \<Rightarrow> Inr n)"

definition metadata_ok :: "json \<Rightarrow> bool" where
  "metadata_ok m \<longleftrightarrow>
     \<not> (\<not> json_fields m [''source'', ''characteristic'', ''requested_mode'', ''effective_mode''] \<or>
        json_at m ''source'' \<noteq> JString ''bluez_value_change'' \<or>
        \<not> json_is_object (json_at m ''characteristic'') \<or>
        (json_at m ''requested_mode'' \<noteq> JString ''auto'' \<and> json_at m ''requested_mode'' \<noteq> JString ''notify'' \<and>
         json_at m ''requested_mode'' \<noteq> JString ''indicate'') \<or>
        (json_at m ''effective_mode'' \<noteq> JString ''notify'' \<and> json_at m ''effective_mode'' \<noteq> JString ''indicate'' \<and>
         json_at m ''effective_mode'' \<noteq> JString ''bluez_selected'') \<or>
        (json_at m ''requested_mode'' \<noteq> JString ''auto'' \<and>
         json_at m ''requested_mode'' \<noteq> json_at m ''effective_mode''))"

definition largest_value :: bytes where
  "largest_value = replicate 512 (CHR 0x00)"

definition reports_open ::
  "serializer \<Rightarrow> u64 \<Rightarrow> json \<Rightarrow> nat \<Rightarrow> native_reports \<Rightarrow> bool reports_run" where
  "reports_open serialize identifier metadata queue_limit s =
     (if \<not> metadata_ok metadata then (Thrown ReportsInvalidFrame, s)
      else if encoded_from serialize metadata max_line = Inl InvalidFrame then (Thrown ReportsInvalidFrame, s)
      else if encoded_from serialize
                (reports_envelope s identifier metadata largest_value u64_max) max_line =
              Inl InvalidFrame
      then (Thrown ReportsInvalidFrame, s)
      else case credits_open identifier queue_limit (nr_credits s) of
             Thrown _ \<Rightarrow> (Thrown ReportsInvalidFrame, s)
           | Undefined \<Rightarrow> (Undefined, s)
           | Returned (False, credits) \<Rightarrow> (Returned False, s\<lparr>nr_credits := credits\<rparr>)
           | Returned (True, credits) \<Rightarrow>
               (Returned True, s\<lparr>nr_credits := credits,
                  nr_streams := omap_emplace identifier
                    \<lparr>rs_metadata = metadata, rs_limit = queue_limit, rs_last_sequence = 0, rs_accepting = True\<rparr>
                    (nr_streams s)\<rparr>))"

definition reports_silence :: "u64 \<Rightarrow> native_reports \<Rightarrow> bool reports_run" where
  "reports_silence identifier s =
     (case map_of (nr_streams s) identifier of
        None \<Rightarrow> (Returned False, s)
      | Some stream \<Rightarrow>
          (if \<not> rs_accepting stream then (Returned False, s)
           else let s1 = s\<lparr>nr_streams := omap_put identifier (stream\<lparr>rs_accepting := False\<rparr>) (nr_streams s)\<rparr>
           in case rq_discard identifier (nr_queue s1) of
                None \<Rightarrow> (Undefined, s1)
              | Some queue \<Rightarrow> (Returned True, s1\<lparr>nr_queue := queue\<rparr>)))"

text \<open>The part of \<open>publish\<close> after the value is decoded for an accepting stream.\<close>

definition reports_offer ::
  "serializer \<Rightarrow> u64 \<Rightarrow> report_stream \<Rightarrow> bytes \<Rightarrow> native_reports \<Rightarrow> bool reports_run" where
  "reports_offer serialize identifier stream value s =
     (let (first, s1) = (if rq_queued identifier (nr_queue s) = 0
                         then reports_dispatch serialize identifier stream value s
                         else (Returned False, s))
      in case first of
           Returned True \<Rightarrow> (Returned True, s1)
         | Thrown e \<Rightarrow> (Thrown e, s1)
         | Undefined \<Rightarrow> (Undefined, s1)
         | Returned False \<Rightarrow>
     (case encoded_from serialize (reports_envelope s1 identifier (rs_metadata stream) value u64_max) max_line of
        Inl _ \<Rightarrow> (Thrown ReportsInvalidFrame, s1)
      | Inr encoded \<Rightarrow>
          (case rq_admit identifier (rs_limit stream) value (length encoded) (nr_queue s1) of
             Thrown _ \<Rightarrow> (Thrown ReportsInvalidFrame, s1)
           | Undefined \<Rightarrow> (Undefined, s1)
           | Returned (True, queue) \<Rightarrow> (Returned True, s1\<lparr>nr_queue := queue\<rparr>)
           | Returned (False, queue) \<Rightarrow>
               (case reports_silence identifier s1 of
                  (Returned _, s2) \<Rightarrow> (Returned False, s2)
                | (Thrown e, s2) \<Rightarrow> (Thrown e, s2)
                | (Undefined, s2) \<Rightarrow> (Undefined, s2)))))"

definition reports_publish ::
  "serializer \<Rightarrow> (json \<Rightarrow> json \<Rightarrow> bool) \<Rightarrow> json \<Rightarrow> native_reports \<Rightarrow> bool reports_run" where
  "reports_publish serialize same v s =
     (if \<not> json_fields v [''version'', ''subscription_id'', ''generation'', ''event'', ''value'', ''metadata''] \<or>
         \<not> json_integer (json_at v ''version'') 1 1 \<or> \<not> json_integer (json_at v ''generation'') 1 1 \<or>
         json_at v ''event'' \<noteq> JString ''value''
      then (Thrown ReportsInvalidFrame, s)
      else case reports_identifier (json_at v ''subscription_id'') of
        Inl e \<Rightarrow> (Thrown e, s)
      | Inr identifier \<Rightarrow>
     (case map_of (nr_streams s) identifier of
        None \<Rightarrow> (Thrown ReportsInvalidFrame, s)
      | Some stream \<Rightarrow>
          (if \<not> same (json_at v ''metadata'') (rs_metadata stream) then (Thrown ReportsInvalidFrame, s)
           else case attribute_from (json_at v ''value'') of
                  Inl _ \<Rightarrow> (Thrown ReportsInvalidValue, s)
                | Inr value \<Rightarrow>
                    (if \<not> rs_accepting stream then (Returned False, s)
                     else reports_offer serialize identifier stream value s))))"

definition terminal_value :: "native_reports \<Rightarrow> u64 \<Rightarrow> json \<Rightarrow> json" where
  "terminal_value s identifier failure =
     JObject [(''event'', JString ''error''), (''generation'', JInt 1),
              (''metadata'', JObject [(''error'', failure)]),
              (''session_generation'', JString (nr_generation s)),
              (''subscription_id'', JString (to_decimal identifier)), (''value'', JNull), (''version'', JInt 1)]"

definition barrier_value :: "native_reports \<Rightarrow> u64 \<Rightarrow> u64 \<Rightarrow> json" where
  "barrier_value s identifier last_sequence =
     JObject [(''event'', JString ''stream_retired''), (''generation'', JInt 1),
              (''last_report_sequence'', JUnsigned last_sequence),
              (''session_generation'', JString (nr_generation s)),
              (''subscription_id'', JString (to_decimal identifier)), (''version'', JInt 1)]"

definition send_control :: "serializer \<Rightarrow> json \<Rightarrow> native_reports \<Rightarrow> unit reports_run" where
  "send_control serialize v s =
     (case encoded_from serialize v control_frame_limit of
        Inl _ \<Rightarrow> (Thrown ReportsInvalidFrame, s)
      | Inr frame \<Rightarrow>
          (let (ok, output) = output_control frame (nr_output s)
           in if \<not> ok then (Thrown ReportsInvalidFrame, s) else (Returned (), s\<lparr>nr_output := output\<rparr>)))"

text \<open>The last part of \<open>retire\<close>: the barrier, the credits and the stream itself.\<close>

definition reports_close_stream ::
  "serializer \<Rightarrow> u64 \<Rightarrow> u64 \<Rightarrow> native_reports \<Rightarrow> bool reports_run" where
  "reports_close_stream serialize identifier last_sequence s =
     (case send_control serialize (barrier_value s identifier last_sequence) s of
        (Thrown e, s1) \<Rightarrow> (Thrown e, s1)
      | (Undefined, s1) \<Rightarrow> (Undefined, s1)
      | (Returned _, s1) \<Rightarrow>
          (case credits_retire identifier last_sequence (nr_credits s1) of
             Thrown _ \<Rightarrow> (Thrown ReportsInvalidFrame, s1)
           | Undefined \<Rightarrow> (Undefined, s1)
           | Returned (_, credits) \<Rightarrow>
               (Returned True, s1\<lparr>nr_credits := credits, nr_streams := omap_del identifier (nr_streams s1)\<rparr>)))"

definition reports_retire ::
  "serializer \<Rightarrow> u64 \<Rightarrow> json option \<Rightarrow> native_reports \<Rightarrow> bool reports_run" where
  "reports_retire serialize identifier failure s =
     (case map_of (nr_streams s) identifier of
        None \<Rightarrow> (Returned False, s)
      | Some stream \<Rightarrow>
          (if (case failure of None \<Rightarrow> False | Some f \<Rightarrow> \<not> native_error f) then (Thrown ReportsInvalidFrame, s)
           else case reports_silence identifier s of
                  (Thrown e, s1) \<Rightarrow> (Thrown e, s1)
                | (Undefined, s1) \<Rightarrow> (Undefined, s1)
                | (Returned _, s1) \<Rightarrow>
                    (case failure of
                       None \<Rightarrow> reports_close_stream serialize identifier (rs_last_sequence stream) s1
                     | Some f \<Rightarrow>
                         (case send_control serialize (terminal_value s1 identifier f) s1 of
                            (Thrown e, s2) \<Rightarrow> (Thrown e, s2)
                          | (Undefined, s2) \<Rightarrow> (Undefined, s2)
                          | (Returned _, s2) \<Rightarrow>
                              reports_close_stream serialize identifier (rs_last_sequence stream) s2))))"

definition reports_acknowledge :: "serializer \<Rightarrow> json \<Rightarrow> native_reports \<Rightarrow> unit reports_run" where
  "reports_acknowledge serialize frame s =
     (if \<not> json_is_object frame \<or> \<not> json_contains frame ''report_sequence'' \<or>
         \<not> json_integer (json_at frame ''report_sequence'') 1 (no_transmitted (nr_output s))
      then (Thrown ReportsInvalidFrame, s)
      else case credits_acknowledge_frame frame (nr_credits s) of
             Thrown _ \<Rightarrow> (Thrown ReportsInvalidFrame, s)
           | Undefined \<Rightarrow> (Undefined, s)
           | Returned (_, credits) \<Rightarrow> reports_drain serialize (s\<lparr>nr_credits := credits\<rparr>))"

text \<open>
  The calls of a host on its reports and on the shared output; only \<open>NativeReports\<close> sends on the report lane.
\<close>

datatype reports_action =
    ReportsOpen u64 json nat
  | ReportsPublish json
  | ReportsSilence u64
  | ReportsRetire u64 "json option"
  | ReportsAcknowledge json
  | ReportsOutput out_action

fun reports_step ::
  "serializer \<Rightarrow> (json \<Rightarrow> json \<Rightarrow> bool) \<Rightarrow> reports_action \<Rightarrow> native_reports \<Rightarrow> native_reports" where
  "reports_step serialize same (ReportsOpen k m n) s = snd (reports_open serialize k m n s)"
| "reports_step serialize same (ReportsPublish v) s = snd (reports_publish serialize same v s)"
| "reports_step serialize same (ReportsSilence k) s = snd (reports_silence k s)"
| "reports_step serialize same (ReportsRetire k f) s = snd (reports_retire serialize k f s)"
| "reports_step serialize same (ReportsAcknowledge v) s = snd (reports_acknowledge serialize v s)"
| "reports_step serialize same (ReportsOutput a) s = s\<lparr>nr_output := snd (snd (output_step a (nr_output s)))\<rparr>"

fun reports_allowed :: "reports_action \<Rightarrow> bool" where
  "reports_allowed (ReportsOutput (SendReport frame sequence)) = False"
| "reports_allowed (ReportsOutput a) = output_allowed a"
| "reports_allowed _ = True"

section \<open>Report frames are outstanding credits\<close>

definition report_lane :: "native_output \<Rightarrow> (nat \<times> nat) list" where
  "report_lane out = map (\<lambda>f. (of_slot f, length (of_bytes f))) (lane_frames LaneReport (no_frames out))"

text \<open>
  The frames on the report lane are the outstanding reports that were not transmitted yet, and nothing is
  acknowledged before it was transmitted.
\<close>

definition link_inv :: "native_output \<Rightarrow> credits \<Rightarrow> bool" where
  "link_inv out cr \<longleftrightarrow>
     report_lane out = filter (\<lambda>p. no_transmitted out < fst p) (credits_outstanding cr) \<and>
     no_admitted out = cd_sequence cr \<and> cd_ack_sequence cr \<le> no_transmitted out"

lemma filter_numbered_tail:
  assumes "filter (\<lambda>p. t < fst p) xs = (q, b) # ys" and "sorted_wrt (<) (map fst xs)"
  shows "filter (\<lambda>p. q < fst p) xs = (ys :: (nat \<times> 'b) list)"
proof -
  have q: "t < q" using assms(1) filter_eq_ConsD [OF assms(1)] by auto
  have "sorted_wrt (<) (map fst ((q, b) # ys))"
    unfolding assms(1) [symmetric] using assms(2) by (simp add: sorted_wrt_map sorted_wrt_filter)
  then have "filter (\<lambda>p. q < fst p) ((q, b) # ys) = ys" by (auto intro: filter_True)
  moreover have "filter (\<lambda>p. q < fst p) xs = filter (\<lambda>p. q < fst p) (filter (\<lambda>p. t < fst p) xs)"
    using q by (auto intro!: filter_cong)
  ultimately show ?thesis using assms(1) by simp
qed

lemma outstanding_sorted: "credits_inv cr \<Longrightarrow> sorted_wrt (<) (map fst (credits_outstanding cr))"
  using ble_credits.numbered [of cr] by (simp del: upt_Suc)

lemma outstanding_positive: "credits_inv cr \<Longrightarrow> (q, b) \<in> set (credits_outstanding cr) \<Longrightarrow> 0 < q"
  using records_inv_sequence by (fastforce simp: credits_inv_def credits_outstanding_def)

lemma link_transmitted:
  assumes "link_inv out cr" and "credits_inv cr" and fs: "no_frames out = f # rest"
  shows "link_inv (output_transmitted out) cr"
proof (cases "of_lane f = LaneReport")
  case True
  let ?t = "no_transmitted out" and ?outs = "credits_outstanding cr"
  have lane: "(of_slot f, length (of_bytes f)) # report_lane (output_transmitted out) =
      filter (\<lambda>p. ?t < fst p) ?outs"
    using assms(1) True fs by (simp add: link_inv_def report_lane_def output_transmitted_frames)
  then have "(of_slot f, length (of_bytes f)) \<in> set (filter (\<lambda>p. ?t < fst p) ?outs)"
    by (metis list.set_intros(1))
  then have pos: "0 < of_slot f" "?t < of_slot f" using outstanding_positive [OF assms(2)] by auto
  then have "no_transmitted (output_transmitted out) = of_slot f" "no_admitted (output_transmitted out) = no_admitted out"
    using True fs by (simp_all add: output_transmitted_def Let_def)
  then show ?thesis
    using assms(1) pos filter_numbered_tail [OF lane [symmetric] outstanding_sorted [OF assms(2)]]
    by (simp add: link_inv_def)
next
  case False
  then have "no_transmitted (output_transmitted out) = no_transmitted out"
    "no_admitted (output_transmitted out) = no_admitted out"
    "report_lane (output_transmitted out) = report_lane out"
    using fs by (cases "of_lane f"; simp add: output_transmitted_def report_lane_def)+
  then show ?thesis using assms(1) by (simp add: link_inv_def)
qed

lemma link_wrote:
  assumes "link_inv out cr" and "credits_inv cr" and "no_frames out = f # rest"
  shows "link_inv (output_wrote n f out) cr"
proof -
  have "link_inv (out\<lparr>no_offset := no_offset out + n\<rparr>) cr"
    using assms(1) by (simp add: link_inv_def report_lane_def)
  then show ?thesis
    using link_transmitted [of "out\<lparr>no_offset := no_offset out + n\<rparr>" cr f rest] assms(2,3)
    by (auto simp: output_wrote_def Let_def)
qed

lemma link_unreported:
  "report_lane out' = report_lane out \<Longrightarrow> no_transmitted out' = no_transmitted out \<Longrightarrow>
   no_admitted out' = no_admitted out \<Longrightarrow> link_inv out cr \<Longrightarrow> link_inv out' cr"
  by (simp add: link_inv_def)

lemma control_keeps:
  "report_lane (snd (output_control frame out)) = report_lane out"
  "no_transmitted (snd (output_control frame out)) = no_transmitted out"
  "no_admitted (snd (output_control frame out)) = no_admitted out"
  by (simp_all add: output_control_def report_lane_def)

lemma link_output_step:
  assumes "link_inv out cr" and "credits_inv cr" and "output_inv out" and "reports_allowed (ReportsOutput a)"
  shows "link_inv (snd (snd (output_step a out))) cr"
proof (cases a)
  case (FlushTurn fd nonblocking budget)
  have "link_inv (snd (snd (output_flush fd nonblocking budget out))) cr"
    by (rule output_flush_rule [where P = "\<lambda>o'. link_inv o' cr"])
      (use FlushTurn assms link_wrote in auto)
  then show ?thesis using FlushTurn by (auto split: prod.splits)
next
  case (SendControl frame)
  then show ?thesis using assms(1) by (auto simp: sent_def intro: link_unreported control_keeps)
next
  case (SendReply ticket frame)
  then show ?thesis
    using assms(1)
    by (auto simp: sent_def output_reply_def report_lane_def split: option.splits bool.splits elim!: link_unreported [rotated 3])
qed (use assms in \<open>auto simp: output_reserve_reply_def output_release_reply_def report_lane_def Let_def
    split: option.splits bool.splits elim!: link_unreported [rotated 3]\<close>)

section \<open>A granted credit always fits the report lane\<close>

lemma sum_filter_le: "sum_list (map snd (filter P xs)) \<le> sum_list (map snd (xs :: (nat \<times> nat) list))"
  by (induction xs) auto

lemma lane_within_credits:
  assumes "link_inv out cr" and "credits_inv cr" and "output_inv out"
  shows "no_report_count out \<le> length (cd_records cr)" and "no_report_bytes out \<le> cd_bytes cr"
proof -
  let ?outs = "credits_outstanding cr"
  have lanes: "lanes_inv out" using assms(3) by (simp add: output_inv_def)
  have "no_report_count out = length (report_lane out)" "no_report_bytes out = sum_list (map snd (report_lane out))"
    using lanes by (simp_all add: lanes_inv_def report_lane_def comp_def)
  moreover have "length (report_lane out) \<le> length ?outs" "sum_list (map snd (report_lane out)) \<le> sum_list (map snd ?outs)"
    using assms(1) sum_filter_le by (simp_all add: link_inv_def)
  moreover have "length ?outs = length (cd_records cr)" "sum_list (map snd ?outs) = cd_bytes cr"
    using assms(2) by (simp_all add: credits_outstanding_def credits_inv_def records_inv_def comp_def)
  ultimately show "no_report_count out \<le> length (cd_records cr)" "no_report_bytes out \<le> cd_bytes cr" by auto
qed

lemma reserve_fits:
  assumes link: "link_inv out cr" and cr: "credits_inv cr" and out: "output_inv out"
    and run: "credits_reserve k (length frame) cr = Returned (Some q, cr')"
  shows "fst (output_report frame q out)" and "link_inv (snd (output_report frame q out)) cr'"
proof -
  obtain st where room: "length (cd_records cr) \<noteq> frame_limit" "\<not> length frame > sub64 byte_limit (cd_bytes cr)"
    and q: "q = cd_sequence cr + 1"
    and cr': "cd_records cr' = cd_records cr @ [\<lparr>cr_sequence = q, cr_stream = k, cr_bytes = length frame\<rparr>]"
      "cd_sequence cr' = q" "cd_ack_sequence cr' = cd_ack_sequence cr"
    using run by (cases rule: credits_reserve_cases) auto
  have recs: "records_inv cr" using cr by (simp add: credits_inv_def)
  have lanes: "lanes_inv out" "reports_inv out" using out by (simp_all add: output_inv_def)
  note within = lane_within_credits [OF link cr out]
  have count: "no_report_count out \<noteq> report_limit"
    using within(1) room(1) recs by (simp add: records_inv_def report_limit_def frame_limit_def)
  have "sub64 byte_limit (cd_bytes cr) = byte_limit - cd_bytes cr"
    using recs by (intro sub64_exact) (auto simp: records_inv_def byte_limit_def u64_max_def)
  then have bytes: "\<not> length frame > sub64 report_byte_limit (no_report_bytes out)"
    using room(2) within(2) unfolding output_report_room [OF lanes(1)]
    by (simp add: byte_limit_def report_byte_limit_def)
  have admitted: "no_admitted out = cd_sequence cr" using link by (simp add: link_inv_def)
  show ok: "fst (output_report frame q out)"
    using count bytes q admitted by (simp add: output_report_def)
  have t: "no_transmitted out < q" using lanes(2) admitted q by (simp add: reports_inv_def)
  have out': "report_lane (snd (output_report frame q out)) = report_lane out @ [(q, length frame)]"
    "no_transmitted (snd (output_report frame q out)) = no_transmitted out"
    "no_admitted (snd (output_report frame q out)) = q"
    using count bytes q admitted by (simp_all add: output_report_def report_lane_def)
  show "link_inv (snd (output_report frame q out)) cr'"
    using link t by (simp add: link_inv_def out' credits_outstanding_def cr')
qed

section \<open>Invariant of the composition\<close>

definition accepting :: "native_reports \<Rightarrow> u64 \<Rightarrow> bool" where
  "accepting s k \<longleftrightarrow> (case map_of (nr_streams s) k of None \<Rightarrow> False | Some st \<Rightarrow> rs_accepting st)"

lemma accepting_frame [simp]:
  "accepting (s\<lparr>nr_queue := q\<rparr>) k = accepting s k"
  "accepting (s\<lparr>nr_output := out\<rparr>) k = accepting s k"
  "accepting (s\<lparr>nr_credits := cr\<rparr>) k = accepting s k"
  by (simp_all add: accepting_def)

text \<open>Every stream of the reports has its live credit stream with the same last sequence number.\<close>

definition streams_link :: "(u64 \<times> report_stream) list \<Rightarrow> credits \<Rightarrow> bool" where
  "streams_link m cr \<longleftrightarrow> omap_ok m \<and>
     (\<forall>k st. map_of m k = Some st \<longrightarrow>
        (\<exists>c. map_of (cd_streams cr) k = Some c \<and> cs_live c \<and> cs_last_sequence c = rs_last_sequence st))"

lemma streams_linkD:
  "streams_link m cr \<Longrightarrow> map_of m k = Some st \<Longrightarrow>
   \<exists>c. map_of (cd_streams cr) k = Some c \<and> cs_live c \<and> cs_last_sequence c = rs_last_sequence st"
  by (simp add: streams_link_def)

lemma streams_link_put:
  assumes "streams_link m cr"
    and "\<And>j c. j \<noteq> k \<Longrightarrow> map_of (cd_streams cr) j = Some c \<Longrightarrow> cs_live c \<Longrightarrow>
      \<exists>c'. map_of (cd_streams cr') j = Some c' \<and> cs_live c' \<and> cs_last_sequence c' = cs_last_sequence c"
    and "\<exists>c. map_of (cd_streams cr') k = Some c \<and> cs_live c \<and> cs_last_sequence c = rs_last_sequence st"
  shows "streams_link (omap_put k st m) cr'"
  unfolding streams_link_def
proof (intro conjI allI impI)
  show "omap_ok (omap_put k st m)" using assms(1) by (simp add: streams_link_def)
  fix j u assume j: "map_of (omap_put k st m) j = Some u"
  show "\<exists>c. map_of (cd_streams cr') j = Some c \<and> cs_live c \<and> cs_last_sequence c = rs_last_sequence u"
  proof (cases "j = k")
    case True
    then show ?thesis using assms(3) j by simp
  next
    case False
    then obtain c where "map_of (cd_streams cr) j = Some c" "cs_live c" "cs_last_sequence c = rs_last_sequence u"
      using streams_linkD [OF assms(1)] j by auto
    then show ?thesis using assms(2) [OF False] by force
  qed
qed

definition core_inv :: "native_reports \<Rightarrow> bool" where
  "core_inv s \<longleftrightarrow> output_inv (nr_output s) \<and> credits_inv (nr_credits s) \<and>
     link_inv (nr_output s) (nr_credits s) \<and> streams_link (nr_streams s) (nr_credits s)"

definition queue_link :: "native_reports \<Rightarrow> bool" where
  "queue_link s \<longleftrightarrow> rq_inv (nr_queue s) \<and> (\<forall>e \<in> set (rq_entries (nr_queue s)). accepting s (qe_stream e))"

definition native_inv :: "native_reports \<Rightarrow> bool" where
  "native_inv s \<longleftrightarrow> core_inv s \<and> queue_link s"

lemma encoded_from_frame: "encoded_from serialize v limit = Inr frame \<Longrightarrow> encoded_frame frame"
  by (auto simp: encoded_from_exact encoded_frame_def split: if_splits)

lemma streams_link_reserve:
  assumes link: "streams_link m cr" and st: "map_of m k = Some st"
    and run: "credits_reserve k n cr = Returned (Some q, cr')"
  shows "streams_link (omap_put k (st\<lparr>rs_last_sequence := q\<rparr>) m) cr'"
  using run
proof (cases rule: credits_reserve_cases)
  case (2 c)
  then have "cd_streams cr' = omap_put k (c\<lparr>cs_outstanding := add64 (cs_outstanding c) 1, cs_last_sequence := q\<rparr>)
      (cd_streams cr)" "cs_live c" by simp_all
  then show ?thesis using link by (auto simp: streams_link_def)
qed simp

lemma reports_dispatch_cases:
  assumes core: "core_inv s" and st: "map_of (nr_streams s) k = Some st"
    and run: "reports_dispatch serialize k st value s = (r, s')"
  shows "core_inv s' \<and> nr_queue s' = nr_queue s \<and> nr_generation s' = nr_generation s \<and>
    (\<forall>j. accepting s' j = accepting s j) \<and>
    (\<forall>j. map_of (nr_streams s') j = None \<longleftrightarrow> map_of (nr_streams s) j = None) \<and>
    r \<noteq> Undefined \<and> (\<forall>e. r = Thrown e \<longrightarrow> s' = s)"
proof -
  have inv: "output_inv (nr_output s)" "credits_inv (nr_credits s)" "link_inv (nr_output s) (nr_credits s)"
    "streams_link (nr_streams s) (nr_credits s)" using core by (simp_all add: core_inv_def)
  have same: ?thesis if "s' = s" "r \<noteq> Undefined" using core that by simp
  show ?thesis
  proof (cases "credits_next_sequence (nr_credits s)")
    case (Inl e)
    then show ?thesis using run by (intro same) (auto simp: reports_dispatch_def)
  next
    case nx: (Inr n)
    show ?thesis
    proof (cases "encoded_from serialize (reports_envelope s k (rs_metadata st) value n) max_line")
      case (Inl e)
      then show ?thesis using run nx by (intro same) (auto simp: reports_dispatch_def)
    next
      case enc: (Inr frame)
      have frame: "encoded_frame frame" by (rule encoded_from_frame [OF enc])
      show ?thesis
      proof (cases "credits_reserve k (length frame) (nr_credits s)")
        case (Thrown e)
        then show ?thesis using run nx enc by (intro same) (auto simp: reports_dispatch_def)
      next
        case Undefined
        then show ?thesis by (auto simp: credits_reserve_def Let_def split: option.splits if_splits)
      next
        case (Returned x)
        obtain q cr' where x: "x = (q, cr')" by (cases x)
        show ?thesis
        proof (cases q)
          case None
          then have "cr' = nr_credits s" using Returned x by (auto elim: credits_reserve_cases)
          then have "s' = s" "r = Returned False"
            using run nx enc Returned x None by (auto simp: reports_dispatch_def)
          then show ?thesis using same by simp
        next
          case (Some n')
          note res = Returned [unfolded x Some]
          note fits = reserve_fits [OF inv(3,2,1) res]
          let ?out = "snd (output_report frame n' (nr_output s))"
          let ?m = "omap_put k (st\<lparr>rs_last_sequence := n'\<rparr>) (nr_streams s)"
          have s': "s' = s\<lparr>nr_credits := cr', nr_output := ?out, nr_streams := ?m\<rparr>" "r = Returned True"
            using run nx enc res fits(1) by (auto simp: reports_dispatch_def Let_def split: prod.splits if_splits)
          have "output_inv ?out" using output_report_inv [OF inv(1) frame] .
          moreover have "credits_inv cr'" using credits_reserve_inv [OF inv(2) res] .
          moreover have "streams_link ?m cr'" using streams_link_reserve [OF inv(4) st res] .
          ultimately show ?thesis using fits(2) st by (auto simp: s' core_inv_def accepting_def)
        qed
      qed
    qed
  qed
qed

text \<open>What \<open>dispatch\<close> keeps, a drain keeps.\<close>

definition drain_frame :: "native_reports \<Rightarrow> native_reports \<Rightarrow> bool" where
  "drain_frame s s' \<longleftrightarrow> core_inv s' \<and> nr_queue s' = nr_queue s \<and> (\<forall>j. accepting s' j = accepting s j) \<and>
     (\<forall>j. map_of (nr_streams s') j = None \<longleftrightarrow> map_of (nr_streams s) j = None)"

lemma reports_callback_frame:
  assumes "drain_frame s (fst w)" and "reports_callback serialize w k value = (x, w')"
  shows "drain_frame s (fst w')"
proof (cases "map_of (nr_streams (fst w)) k")
  case None
  then show ?thesis using assms by (auto simp: reports_callback_def)
next
  case (Some st)
  obtain r s' where d: "reports_dispatch serialize k st value (fst w) = (r, s')"
    by (cases "reports_dispatch serialize k st value (fst w)")
  have "fst w' = s'" using assms(2) Some d by (cases r) (auto simp: reports_callback_def)
  then show ?thesis
    using reports_dispatch_cases [OF _ Some d] assms(1) by (auto simp: drain_frame_def)
qed

lemma rq_drain_loop_frame:
  assumes "P w" and "\<And>w k p x w'. P w \<Longrightarrow> dispatch w k p = (x, w') \<Longrightarrow> P w'"
    and "rq_drain_loop dispatch blocked kept rest q w = (r, q', w')"
  shows "P w' \<and> set (rq_entries q') \<subseteq> set kept \<union> set rest"
  using assms(1,3)
proof (induction rest arbitrary: blocked kept q w)
  case (Cons e rest)
  obtain answer v where d: "dispatch w (qe_stream e) (qe_payload e) = (answer, v)"
    by (cases "dispatch w (qe_stream e) (qe_payload e)")
  have v: "P v" using assms(2) [OF Cons.prems(1) d] .
  consider "qe_stream e \<in> set blocked" | "qe_stream e \<notin> set blocked" "answer = None"
    | "qe_stream e \<notin> set blocked" "answer = Some False"
    | "qe_stream e \<notin> set blocked" "answer = Some True" "rq_erase e q = None"
    | q1 where "qe_stream e \<notin> set blocked" "answer = Some True" "rq_erase e q = Some q1"
    by (cases answer; cases "rq_erase e q") auto
  then show ?case
  proof cases
    case 1
    then show ?thesis using Cons.IH [of w "qe_stream e # blocked" "kept @ [e]" q] Cons.prems by auto
  next
    case 3
    then show ?thesis using Cons.IH [of v "qe_stream e # blocked" "kept @ [e]" q] Cons.prems d v by auto
  next
    case 5
    then show ?thesis using Cons.IH [of v blocked kept] Cons.prems d v by auto
  qed (use Cons.prems d v in auto)
qed auto

lemma reports_drain_inv:
  assumes "native_inv s" and "reports_drain serialize s = (r, s')"
  shows "native_inv s' \<and> r \<noteq> Undefined"
proof -
  obtain x queue t e where d: "rq_drain (reports_callback serialize) (nr_queue s) (s, ReportsInvalidFrame) = (x, queue, t, e)"
    by (rule prod_cases4)
  note loop = d [unfolded rq_drain_def]
  have inv: "rq_inv (nr_queue s)" "core_inv s" and acc: "\<forall>e \<in> set (rq_entries (nr_queue s)). accepting s (qe_stream e)"
    using assms(1) by (simp_all add: native_inv_def queue_link_def)
  have q: "x \<noteq> DrainUndefined" "rq_inv queue"
    using rq_drain_loop_inv [OF _ loop] inv(1) by (simp_all add: rq_inv_def)
  have start: "drain_frame s (fst (s, ReportsInvalidFrame))" using inv(2) by (simp add: drain_frame_def)
  have "drain_frame s (fst (t, e)) \<and> set (rq_entries queue) \<subseteq> set [] \<union> set (rq_entries (nr_queue s))"
    by (rule rq_drain_loop_frame [where P = "\<lambda>w. drain_frame s (fst w)", OF start _ loop])
      (rule reports_callback_frame)
  then have t: "drain_frame s t" "set (rq_entries queue) \<subseteq> set (rq_entries (nr_queue s))" by auto
  have "s' = t\<lparr>nr_queue := queue\<rparr> \<and> r \<noteq> Undefined"
    using assms(2) q(1) by (cases x) (auto simp: reports_drain_def d)
  then have s': "s' = t\<lparr>nr_queue := queue\<rparr>" and r: "r \<noteq> Undefined" by simp_all
  have "core_inv s'" using t(1) by (simp add: drain_frame_def core_inv_def s')
  moreover have "queue_link s'"
    using q(2) t acc by (auto simp: queue_link_def s' drain_frame_def)
  ultimately show ?thesis using r by (simp add: native_inv_def)
qed

lemma map_of_omap_emplace: "map_of m j = Some c \<Longrightarrow> map_of (omap_emplace k v m) j = Some c"
  by (auto simp: omap_emplace_def omap_has_def)

lemma credits_open_streams:
  assumes "credits_open k n cr = Returned (b, cr')" and "map_of (cd_streams cr) j = Some c"
  shows "map_of (cd_streams cr') j = Some c"
proof -
  have "cd_streams cr' = cd_streams cr \<or> (\<exists>st. cd_streams cr' = omap_emplace k st (cd_streams cr))"
    using assms(1) by (cases "cd_live cr = 64") (auto simp: credits_open_def split: if_splits)
  then show ?thesis using assms(2) by (auto simp: map_of_omap_emplace)
qed

lemma credits_open_defined: "credits_open k n cr \<noteq> Undefined"
  by (simp add: credits_open_def)

lemma reports_open_cases:
  assumes run: "reports_open serialize k m n s = (r, s')"
  shows "r \<noteq> Undefined \<and> (s' = s \<or>
    (\<exists>cr. credits_open k n (nr_credits s) = Returned (False, cr) \<and> s' = s\<lparr>nr_credits := cr\<rparr>) \<or>
    (\<exists>cr. credits_open k n (nr_credits s) = Returned (True, cr) \<and>
      s' = s\<lparr>nr_credits := cr, nr_streams := omap_emplace k
        \<lparr>rs_metadata = m, rs_limit = n, rs_last_sequence = 0, rs_accepting = True\<rparr> (nr_streams s)\<rparr>))"
  using run credits_open_defined [of k n "nr_credits s"]
  by (cases "credits_open k n (nr_credits s)") (auto simp: reports_open_def split: if_splits bool.splits)

lemma reports_open_inv:
  assumes inv: "native_inv s" and run: "reports_open serialize k m n s = (r, s')"
  shows "native_inv s' \<and> r \<noteq> Undefined"
proof -
  have core: "core_inv s" and que: "queue_link s" using inv by (simp_all add: native_inv_def)
  have r: "r \<noteq> Undefined" using reports_open_cases [OF run] by blast
  consider (same) "s' = s"
    | (full) cr where "credits_open k n (nr_credits s) = Returned (False, cr)" "s' = s\<lparr>nr_credits := cr\<rparr>"
    | (opened) cr where "credits_open k n (nr_credits s) = Returned (True, cr)"
      "s' = s\<lparr>nr_credits := cr, nr_streams := omap_emplace k
        \<lparr>rs_metadata = m, rs_limit = n, rs_last_sequence = 0, rs_accepting = True\<rparr> (nr_streams s)\<rparr>"
    using reports_open_cases [OF run] by blast
  then show ?thesis
  proof cases
    case same
    then show ?thesis using inv r by simp
  next
    case full
    then have "cr = nr_credits s" by (auto simp: credits_open_def split: if_splits)
    then show ?thesis using full inv r by simp
  next
    case opened
    have old: "credits_inv (nr_credits s)" "streams_link (nr_streams s) (nr_credits s)" "link_inv (nr_output s) (nr_credits s)"
      using core by (simp_all add: core_inv_def)
    have k: "cd_greatest_stream (nr_credits s) < k"
      using opened(1) by (auto simp: credits_open_def split: if_splits)
    have "map_of (cd_streams (nr_credits s)) k = None"
      using old(1) k streams_invD [of "nr_credits s" k]
      by (cases "map_of (cd_streams (nr_credits s)) k") (auto simp: credits_inv_def stream_ok_def)
    then have fresh: "map_of (nr_streams s) k = None"
      using streams_linkD [OF old(2), of k] by (cases "map_of (nr_streams s) k") auto
    have cr: "credits_inv cr" using credits_open_inv [OF old(1) opened(1)] .
    have "cd_records cr = cd_records (nr_credits s)" "cd_sequence cr = cd_sequence (nr_credits s)"
      "cd_ack_sequence cr = cd_ack_sequence (nr_credits s)"
      using opened(1) by (auto simp: credits_open_def split: if_splits)
    then have link: "link_inv (nr_output s) cr" using old(3) by (simp add: link_inv_def credits_outstanding_def)
    have new: "\<exists>c. map_of (cd_streams cr) k = Some c \<and> cs_live c \<and> cs_last_sequence c = 0"
      using opened(1) \<open>map_of (cd_streams (nr_credits s)) k = None\<close>
      by (auto simp: credits_open_def omap_emplace_def omap_has_def split: if_splits)
    have "streams_link (omap_put k \<lparr>rs_metadata = m, rs_limit = n, rs_last_sequence = 0, rs_accepting = True\<rparr>
        (nr_streams s)) cr"
      by (rule streams_link_put [OF old(2)]) (use new credits_open_streams [OF opened(1)] in auto)
    then have "streams_link (nr_streams s') cr"
      using fresh by (simp add: opened(2) omap_emplace_def omap_has_def)
    then have "core_inv s'" using core cr link by (simp add: core_inv_def opened(2))
    moreover have "queue_link s'"
      using que fresh by (auto simp: queue_link_def accepting_def opened(2) omap_emplace_def omap_has_def split: option.splits)
    ultimately show ?thesis using r by (simp add: native_inv_def)
  qed
qed

lemma reports_silence_inv:
  assumes inv: "native_inv s" and run: "reports_silence k s = (r, s')"
  shows "native_inv s' \<and> (\<exists>b. r = Returned b) \<and> nr_output s' = nr_output s \<and> nr_credits s' = nr_credits s \<and>
    nr_generation s' = nr_generation s \<and>
    (\<forall>st. map_of (nr_streams s) k = Some st \<longrightarrow>
       map_of (nr_streams s') k = Some (st\<lparr>rs_accepting := False\<rparr>) \<and> rq_queued k (nr_queue s') = 0)"
proof -
  have core: "core_inv s" and que: "queue_link s" using inv by (simp_all add: native_inv_def)
  have rq: "rq_inv (nr_queue s)" using que by (simp add: queue_link_def)
  show ?thesis
  proof (cases "map_of (nr_streams s) k")
    case None
    then show ?thesis using inv run by (auto simp: reports_silence_def)
  next
    case (Some st)
    show ?thesis
    proof (cases "rs_accepting st")
      case False
      then have "\<forall>e \<in> set (rq_entries (nr_queue s)). qe_stream e \<noteq> k"
        using que Some by (auto simp: queue_link_def accepting_def)
      then have "rq_queued k (nr_queue s) = 0"
        using rq_queued_count [of "rq_entries (nr_queue s)" "nr_queue s" k] rq
        by (simp add: rq_inv_def filter_empty_conv)
      then show ?thesis using inv run Some False by (auto simp: reports_silence_def)
    next
      case True
      let ?m = "omap_put k (st\<lparr>rs_accepting := False\<rparr>) (nr_streams s)"
      obtain q where q: "rq_discard k (nr_queue s) = Some q" "rq_inv q"
        "rq_entries q = filter (\<lambda>e. qe_stream e \<noteq> k) (rq_entries (nr_queue s))"
        using rq_discard_exact [OF rq] by blast
      have s': "s' = s\<lparr>nr_streams := ?m, nr_queue := q\<rparr>" "r = Returned True"
        using run Some True q(1) by (auto simp: reports_silence_def)
      have "streams_link ?m (nr_credits s)"
        using core Some streams_linkD [of "nr_streams s" "nr_credits s" k st]
        by (auto simp: core_inv_def streams_link_def)
      then have "core_inv s'" using core by (simp add: core_inv_def s')
      moreover have "queue_link s'"
        using que q Some by (auto simp: queue_link_def s' accepting_def)
      moreover have "rq_queued k q = 0"
        using rq_queued_count [of "rq_entries q" q k] q by (simp add: rq_inv_def filter_empty_conv)
      ultimately show ?thesis using Some by (auto simp: native_inv_def s')
    qed
  qed
qed

lemma rq_admit_entries:
  "rq_admit k n p c q = Returned (b, q') \<Longrightarrow>
   (b \<and> rq_entries q' = rq_entries q @ [\<lparr>qe_stream = k, qe_payload = p, qe_charge = c\<rparr>]) \<or> (\<not> b \<and> q' = q)"
  by (auto simp: rq_admit_def split: if_splits)

lemma rq_admit_defined: "rq_admit k n p c q \<noteq> Undefined"
  by (simp add: rq_admit_def)

lemma dispatch_queue_link:
  assumes "native_inv s" and "map_of (nr_streams s) k = Some st"
    and "reports_dispatch serialize k st value s = (r, s')"
  shows "native_inv s' \<and> accepting s' k = accepting s k \<and> r \<noteq> Undefined"
proof -
  have "core_inv s" using assms(1) by (simp add: native_inv_def)
  from reports_dispatch_cases [OF this assms(2,3)] assms(1)
  show ?thesis by (simp add: native_inv_def queue_link_def)
qed

lemma reports_offer_inv:
  assumes inv: "native_inv s" and st: "map_of (nr_streams s) k = Some st" "rs_accepting st"
    and run: "reports_offer serialize k st value s = (r, s')"
  shows "native_inv s' \<and> r \<noteq> Undefined"
proof -
  obtain first s1 where first: "(if rq_queued k (nr_queue s) = 0 then reports_dispatch serialize k st value s
      else (Returned False, s)) = (first, s1)"
    by (cases "if rq_queued k (nr_queue s) = 0 then reports_dispatch serialize k st value s else (Returned False, s)")
  have s1: "native_inv s1" "accepting s1 k" "first \<noteq> Undefined"
    using first dispatch_queue_link [OF inv st(1)] inv st by (auto simp: accepting_def split: if_splits)
  show ?thesis
  proof (cases "first = Returned False")
    case False
    then show ?thesis
      using run first s1 by (cases first) (auto simp: reports_offer_def split: bool.splits)
  next
    case True
    show ?thesis
    proof (cases "encoded_from serialize (reports_envelope s1 k (rs_metadata st) value u64_max) max_line")
      case (Inl e)
      then show ?thesis using run first True s1 by (auto simp: reports_offer_def)
    next
      case (Inr frame)
      show ?thesis
      proof (cases "rq_admit k (rs_limit st) value (length frame) (nr_queue s1)")
        case (Thrown e)
        then show ?thesis using run first True Inr s1 by (auto simp: reports_offer_def)
      next
        case Undefined
        then show ?thesis by (simp add: rq_admit_defined)
      next
        case (Returned x)
        obtain b q where x: "x = (b, q)" by (cases x)
        note adm = Returned [unfolded x]
        have q: "rq_inv q" using rq_admit_inv [OF _ adm] s1(1) by (simp add: native_inv_def queue_link_def)
        show ?thesis
        proof (cases b)
          case t: True
          then have "s' = s1\<lparr>nr_queue := q\<rparr>" "r = Returned True"
            using run first True Inr adm by (auto simp: reports_offer_def)
          moreover have "core_inv (s1\<lparr>nr_queue := q\<rparr>)" using s1(1) by (simp add: native_inv_def core_inv_def)
          moreover have "queue_link (s1\<lparr>nr_queue := q\<rparr>)"
            using q s1 rq_admit_entries [OF adm] t by (auto simp: queue_link_def native_inv_def)
          ultimately show ?thesis by (simp add: native_inv_def)
        next
          case f: False
          obtain y s2 where sil: "reports_silence k s1 = (y, s2)" by (cases "reports_silence k s1")
          have "s' = s2" "r = Returned False"
            using run first True Inr adm f sil reports_silence_inv [OF s1(1) sil] by (auto simp: reports_offer_def)
          then show ?thesis using reports_silence_inv [OF s1(1) sil] by simp
        qed
      qed
    qed
  qed
qed

lemma reports_publish_inv:
  assumes inv: "native_inv s" and run: "reports_publish serialize same v s = (r, s')"
  shows "native_inv s' \<and> r \<noteq> Undefined"
proof -
  consider "s' = s" "r \<noteq> Undefined"
    | k st bs where "map_of (nr_streams s) k = Some st" "rs_accepting st"
        "reports_offer serialize k st bs s = (r, s')"
    using run by (auto simp: reports_publish_def split: if_splits sum.splits option.splits)
  then show ?thesis using reports_offer_inv [OF inv] inv by cases auto
qed

lemma send_control_inv:
  assumes inv: "native_inv s" and run: "send_control serialize v s = (r, s')"
  shows "native_inv s' \<and> r \<noteq> Undefined \<and> nr_streams s' = nr_streams s \<and> nr_credits s' = nr_credits s \<and>
    nr_generation s' = nr_generation s \<and> nr_queue s' = nr_queue s"
proof (cases "encoded_from serialize v control_frame_limit")
  case (Inl e)
  then show ?thesis using assms by (auto simp: send_control_def)
next
  case (Inr frame)
  let ?out = "snd (output_control frame (nr_output s))"
  have core: "core_inv s" and que: "queue_link s" using inv by (simp_all add: native_inv_def)
  have "output_inv ?out"
    using output_control_inv [OF _ encoded_from_frame [OF Inr]] core by (simp add: core_inv_def)
  moreover have "link_inv ?out (nr_credits s)"
    using core link_unreported [OF control_keeps] by (simp add: core_inv_def)
  ultimately have "native_inv (s\<lparr>nr_output := ?out\<rparr>)"
    using core que by (simp add: native_inv_def core_inv_def queue_link_def)
  then show ?thesis
    using inv run Inr by (auto simp: send_control_def split: prod.splits if_splits)
qed

lemma credits_retire_live:
  assumes "map_of (cd_streams cr) k = Some c" and "cs_live c"
  shows "credits_retire k n cr =
    (if cs_last_sequence c = n
     then Returned ((), cr\<lparr>cd_live := sub64 (cd_live cr) 1,
       cd_streams := (if cs_outstanding c = 0 then omap_del k (cd_streams cr)
                      else omap_put k (c\<lparr>cs_live := False\<rparr>) (cd_streams cr))\<rparr>)
     else Thrown InvalidFrame)"
  using assms by (simp add: credits_retire_def)

lemma reports_close_stream_inv:
  assumes inv: "native_inv s" and st: "map_of (nr_streams s) k = Some st"
    and last: "n = rs_last_sequence st" and off: "\<not> rs_accepting st"
    and run: "reports_close_stream serialize k n s = (r, s')"
  shows "native_inv s' \<and> r \<noteq> Undefined \<and>
    (r = Returned True \<longrightarrow> map_of (nr_streams s') k = None)"
proof -
  obtain x s1 where send: "send_control serialize (barrier_value s k n) s = (x, s1)"
    by (cases "send_control serialize (barrier_value s k n) s")
  note sent = send_control_inv [OF inv send]
  show ?thesis
  proof (cases x)
    case (Thrown e)
    then show ?thesis using run send sent by (auto simp: reports_close_stream_def)
  next
    case Undefined
    then show ?thesis using sent by simp
  next
    case (Returned u)
    let ?cr = "nr_credits s1"
    have core: "core_inv s1" and que: "queue_link s1" and str: "nr_streams s1 = nr_streams s"
      using sent by (simp_all add: native_inv_def)
    have link: "streams_link (nr_streams s1) ?cr" "credits_inv ?cr" using core by (simp_all add: core_inv_def)
    obtain c where c: "map_of (cd_streams ?cr) k = Some c" "cs_live c" "cs_last_sequence c = n"
      using streams_linkD [OF link(1)] st last str by auto
    define cr' where "cr' = ?cr\<lparr>cd_live := sub64 (cd_live ?cr) 1,
       cd_streams := (if cs_outstanding c = 0 then omap_del k (cd_streams ?cr)
                      else omap_put k (c\<lparr>cs_live := False\<rparr>) (cd_streams ?cr))\<rparr>"
    have ret: "credits_retire k n ?cr = Returned ((), cr')"
      using credits_retire_live [OF c(1,2), of n] c(3) by (simp add: cr'_def)
    have s': "s' = s1\<lparr>nr_credits := cr', nr_streams := omap_del k (nr_streams s1)\<rparr>" "r = Returned True"
      using run send Returned ret by (auto simp: reports_close_stream_def)
    have "credits_inv cr'" using credits_retire_inv [OF link(2) ret] .
    moreover have "link_inv (nr_output s1) cr'"
      using core by (simp add: core_inv_def link_inv_def credits_outstanding_def cr'_def)
    moreover have "streams_link (omap_del k (nr_streams s1)) cr'"
      using link(1) by (simp add: streams_link_def cr'_def)
    ultimately have "core_inv s'" using core by (simp add: core_inv_def s')
    moreover have "queue_link s'"
      using que off st str by (auto simp: queue_link_def accepting_def s')
    ultimately show ?thesis by (simp add: native_inv_def s')
  qed
qed

lemma reports_retire_inv:
  assumes inv: "native_inv s" and run: "reports_retire serialize k failure s = (r, s')"
  shows "native_inv s' \<and> r \<noteq> Undefined"
proof (cases "map_of (nr_streams s) k")
  case None
  then show ?thesis using assms by (auto simp: reports_retire_def)
next
  case (Some st)
  show ?thesis
  proof (cases "case failure of None \<Rightarrow> False | Some f \<Rightarrow> \<not> native_error f")
    case True
    then show ?thesis using assms Some by (auto simp: reports_retire_def)
  next
    case False
    obtain x s1 where sil: "reports_silence k s = (x, s1)" by (cases "reports_silence k s")
    note quiet = reports_silence_inv [OF inv sil]
    let ?st = "st\<lparr>rs_accepting := False\<rparr>"
    have st1: "map_of (nr_streams s1) k = Some ?st" using quiet Some by simp
    show ?thesis
    proof (cases failure)
      case None
      then have "reports_close_stream serialize k (rs_last_sequence st) s1 = (r, s')"
        using run Some sil quiet by (auto simp: reports_retire_def)
      then show ?thesis using reports_close_stream_inv [OF _ st1] quiet by simp
    next
      case f: (Some f)
      obtain y s2 where send: "send_control serialize (terminal_value s1 k f) s1 = (y, s2)"
        by (cases "send_control serialize (terminal_value s1 k f) s1")
      have s2: "native_inv s2" "y \<noteq> Undefined" "nr_streams s2 = nr_streams s1"
        using send_control_inv [OF _ send] quiet by simp_all
      consider "s' = s2" "r \<noteq> Undefined" | "reports_close_stream serialize k (rs_last_sequence st) s2 = (r, s')"
        using run Some sil quiet False f send s2(2) by (cases y) (auto simp: reports_retire_def)
      then show ?thesis
      proof cases
        case 2
        have "map_of (nr_streams s2) k = Some ?st" using s2(3) st1 by simp
        from reports_close_stream_inv [OF s2(1) this _ _ 2] show ?thesis by simp
      qed (use s2 in simp)
    qed
  qed
qed

text \<open>An acknowledgement keeps the live credit streams and their last sequence numbers.\<close>

lemma credits_release_live:
  assumes "credits_release n rs cr = Some cr'" and "map_of (cd_streams cr) k = Some c" and "cs_live c"
  shows "\<exists>c'. map_of (cd_streams cr') k = Some c' \<and> cs_live c' \<and> cs_last_sequence c' = cs_last_sequence c"
  using assms
proof (induction n rs cr arbitrary: c rule: credits_release.induct)
  case (2 n r rs cr)
  show ?case
  proof (cases "cr_sequence r \<le> n")
    case False
    then show ?thesis using "2.prems" by auto
  next
    case True
    then obtain st where st: "map_of (cd_streams cr) (cr_stream r) = Some st"
      using "2.prems"(1) by (auto split: option.splits)
    let ?st = "st\<lparr>cs_outstanding := sub64 (cs_outstanding st) 1\<rparr>"
    let ?cr = "cr\<lparr>cd_streams := (if \<not> cs_live ?st \<and> cs_outstanding ?st = 0
        then omap_del (cr_stream r) (cd_streams cr) else omap_put (cr_stream r) ?st (cd_streams cr)),
      cd_bytes := sub64 (cd_bytes cr) (cr_bytes r), cd_records := rs\<rparr>"
    have run: "credits_release n rs ?cr = Some cr'"
      using "2.prems"(1) True st by (simp add: Let_def split del: if_split cong: if_cong)
    have "\<exists>d. map_of (cd_streams ?cr) k = Some d \<and> cs_live d \<and> cs_last_sequence d = cs_last_sequence c"
      using "2.prems"(2,3) st by (cases "cr_stream r = k") auto
    then obtain d where d: "map_of (cd_streams ?cr) k = Some d" "cs_live d"
      "cs_last_sequence d = cs_last_sequence c" by blast
    show ?thesis using "2.IH" [OF _ st refl run d(1,2)] True d(3) by auto
  qed
qed auto

lemma unsent_after_release:
  "n \<le> t \<Longrightarrow>
   filter (\<lambda>p. t < fst p) (map (\<lambda>r. (cr_sequence r, cr_bytes r)) (dropWhile (\<lambda>r. cr_sequence r \<le> n) rs)) =
   filter (\<lambda>p. t < fst p) (map (\<lambda>r. (cr_sequence r, cr_bytes r)) rs)"
  by (induction rs) auto

text \<open>What an accepted acknowledgement frame does to the credits, as the composition uses it.\<close>

lemma credits_acknowledge_link:
  assumes inv: "credits_inv cr" and link: "link_inv out cr" and streams: "streams_link ss cr"
    and ack: "credits_acknowledge g n b cr = Returned (x, cr')" and n: "n \<le> no_transmitted out"
  shows "credits_inv cr' \<and> link_inv out cr' \<and> streams_link ss cr'"
proof -
  have eff: "credits_inv cr'" "cd_records cr' = dropWhile (\<lambda>r. cr_sequence r \<le> n) (cd_records cr)"
    "cd_ack_sequence cr' = n" "cd_sequence cr' = cd_sequence cr"
    using credits_acknowledge_exact [OF inv, of g n b] ack by (auto split: if_splits)
  have "link_inv out cr'"
    using link n by (simp add: link_inv_def credits_outstanding_def eff unsent_after_release)
  moreover have "streams_link ss cr'"
    unfolding streams_link_def
  proof (intro conjI allI impI)
    show "omap_ok ss" using streams by (simp add: streams_link_def)
    fix k st assume "map_of ss k = Some st"
    from streams_linkD [OF streams this] obtain c where c: "map_of (cd_streams cr) k = Some c" "cs_live c"
      "cs_last_sequence c = rs_last_sequence st" by blast
    obtain cr1 where rel: "credits_release n (cd_records cr) cr = Some cr1"
      "cr' = cr1\<lparr>cd_ack_sequence := n, cd_ack_bytes := b\<rparr>"
      using ack by (auto simp: credits_acknowledge_def split: if_splits option.splits)
    show "\<exists>c. map_of (cd_streams cr') k = Some c \<and> cs_live c \<and> cs_last_sequence c = rs_last_sequence st"
      using credits_release_live [OF rel(1) c(1,2)] c(3) by (simp add: rel(2))
  qed
  ultimately show ?thesis using eff(1) by simp
qed

lemma credits_acknowledge_frame_cases:
  assumes "credits_inv cr"
  obtains "credits_acknowledge_frame frame cr = Thrown InvalidFrame"
  | g b cr' where "credits_acknowledge_frame frame cr = Returned ((), cr')"
      "credits_acknowledge g (nat (json_integer_value (json_at frame ''report_sequence''))) b cr = Returned ((), cr')"
proof -
  let ?g = "json_text (json_at frame ''session_generation'')"
  let ?n = "nat (json_integer_value (json_at frame ''report_sequence''))"
  let ?b = "nat (json_integer_value (json_at frame ''acknowledged_bytes''))"
  consider "credits_acknowledge_frame frame cr = Thrown InvalidFrame"
    | "credits_acknowledge_frame frame cr = credits_acknowledge ?g ?n ?b cr"
    unfolding credits_acknowledge_frame_def by (metis (no_types))
  then show ?thesis
  proof cases
    case 2
    show ?thesis
    proof (cases "credits_acknowledge ?g ?n ?b cr = Thrown InvalidFrame")
      case True
      then show ?thesis using 2 that(1) by simp
    next
      case False
      then obtain cr' where "credits_acknowledge ?g ?n ?b cr = Returned ((), cr')"
        using credits_acknowledge_exact [OF assms, of ?g ?n ?b] by (auto split: if_splits)
      then show ?thesis using 2 that(2) by simp
    qed
  qed (rule that(1))
qed

lemma json_integer_value_le: "json_integer v a b \<Longrightarrow> nat (json_integer_value v) \<le> b"
  by (cases v) (auto simp: json_integer_def)

lemma reports_acknowledge_inv:
  assumes inv: "native_inv s" and run: "reports_acknowledge serialize frame s = (r, s')"
  shows "native_inv s' \<and> r \<noteq> Undefined"
proof -
  let ?cr = "nr_credits s"
  have core: "core_inv s" and que: "queue_link s" using inv by (simp_all add: native_inv_def)
  have cr: "credits_inv ?cr" "link_inv (nr_output s) ?cr" "streams_link (nr_streams s) ?cr"
    using core by (simp_all add: core_inv_def)
  show ?thesis
  proof (cases "\<not> json_is_object frame \<or> \<not> json_contains frame ''report_sequence'' \<or>
         \<not> json_integer (json_at frame ''report_sequence'') 1 (no_transmitted (nr_output s))")
    case True
    then show ?thesis using run inv unfolding reports_acknowledge_def by (simp only: if_True) auto
  next
    case False
    then have le: "nat (json_integer_value (json_at frame ''report_sequence'')) \<le> no_transmitted (nr_output s)"
      using json_integer_value_le by blast
    from cr(1) show ?thesis
    proof (cases rule: credits_acknowledge_frame_cases [where frame = frame])
      case 1
      then show ?thesis using run inv False unfolding reports_acknowledge_def by (simp only: if_False) auto
    next
      case (2 g b cr')
      have "native_inv (s\<lparr>nr_credits := cr'\<rparr>)"
        using core que credits_acknowledge_link [OF cr 2(2) le] by (simp add: native_inv_def core_inv_def queue_link_def)
      moreover have "reports_drain serialize (s\<lparr>nr_credits := cr'\<rparr>) = (r, s')"
        using run False 2(1) unfolding reports_acknowledge_def by (simp only: if_False) simp
      ultimately show ?thesis by (rule reports_drain_inv)
    qed
  qed
qed

section \<open>Every interleaving of calls and output turns\<close>

lemma reports_init_inv: "reports_init (output_init g) generation = Inr s \<Longrightarrow> native_inv s"
  using credits_init_inv [of generation]
  by (auto simp: reports_init_def native_inv_def core_inv_def queue_link_def link_inv_def streams_link_def
      output_init_inv rq_init_inv report_lane_def credits_outstanding_def credits_init_def omap_ok_def
      split: sum.splits if_splits) (simp_all add: output_init_def rq_init_def lane_frames_def)

lemma reports_output_step_inv:
  assumes inv: "native_inv s" and ok: "reports_allowed (ReportsOutput a)"
  shows "native_inv (s\<lparr>nr_output := snd (snd (output_step a (nr_output s)))\<rparr>)"
proof -
  have core: "output_inv (nr_output s)" "credits_inv (nr_credits s)" "link_inv (nr_output s) (nr_credits s)"
    using inv by (simp_all add: native_inv_def core_inv_def)
  have "output_allowed a" using ok by (cases a) simp_all
  then have "output_inv (snd (snd (output_step a (nr_output s))))"
    using ble_out.channel_inv [OF core(1)] by (metis prod.collapse)
  moreover have "link_inv (snd (snd (output_step a (nr_output s)))) (nr_credits s)"
    by (rule link_output_step [OF core(3,2,1) ok])
  ultimately show ?thesis using inv by (simp add: native_inv_def core_inv_def queue_link_def)
qed

lemma reports_step_inv:
  assumes "native_inv s" and "reports_allowed a"
  shows "native_inv (reports_step serialize same a s)"
proof (cases a)
  case (ReportsOpen k m n)
  then show ?thesis using reports_open_inv [OF assms(1) prod.collapse [symmetric]] by simp
next
  case (ReportsPublish v)
  then show ?thesis using reports_publish_inv [OF assms(1) prod.collapse [symmetric]] by simp
next
  case (ReportsSilence k)
  then show ?thesis using reports_silence_inv [OF assms(1) prod.collapse [symmetric]] by simp
next
  case (ReportsRetire k f)
  then show ?thesis using reports_retire_inv [OF assms(1) prod.collapse [symmetric]] by simp
next
  case (ReportsAcknowledge v)
  then show ?thesis using reports_acknowledge_inv [OF assms(1) prod.collapse [symmetric]] by simp
next
  case (ReportsOutput b)
  then show ?thesis using reports_output_step_inv assms by simp
qed

interpretation ble_reports: action_machine "reports_step serialize same" native_inv reports_allowed
  for serialize same
  by unfold_locales (rule reports_step_inv)

definition reports_after ::
  "serializer \<Rightarrow> (json \<Rightarrow> json \<Rightarrow> bool) \<Rightarrow> reports_action list \<Rightarrow> native_reports \<Rightarrow> native_reports" where
  "reports_after serialize same as s = run_actions (reports_step serialize same) as s"

lemma reports_after_inv:
  "reports_init (output_init g) generation = Inr s \<Longrightarrow> list_all reports_allowed as \<Longrightarrow>
   native_inv (reports_after serialize same as s)"
  unfolding reports_after_def by (rule ble_reports.run_inv [OF reports_init_inv])

section \<open>Properties\<close>

text \<open>
  Over every interleaving of report calls and output turns the frames on the report lane are exactly the
  outstanding credits that were not transmitted yet, with their sizes; nothing is acknowledged before it was
  transmitted, a queued report belongs to an accepting stream, and every stream is live in the credits with
  the same last sequence number.
\<close>

theorem reports_linked:
  assumes "reports_init (output_init g) generation = Inr s0" and "list_all reports_allowed as"
    and "s = reports_after serialize same as s0"
  shows "report_lane (nr_output s) =
      filter (\<lambda>p. no_transmitted (nr_output s) < fst p) (credits_outstanding (nr_credits s)) \<and>
    cd_ack_sequence (nr_credits s) \<le> no_transmitted (nr_output s) \<and>
    (\<forall>e \<in> set (rq_entries (nr_queue s)). accepting s (qe_stream e)) \<and>
    (\<forall>k st. map_of (nr_streams s) k = Some st \<longrightarrow>
      (\<exists>c. map_of (cd_streams (nr_credits s)) k = Some c \<and> cs_live c \<and> cs_last_sequence c = rs_last_sequence st))"
proof -
  have "native_inv s" unfolding assms(3) by (rule reports_after_inv [OF assms(1,2)])
  then show ?thesis by (simp add: native_inv_def core_inv_def queue_link_def link_inv_def streams_link_def)
qed

text \<open>A concrete run for the witnesses: one stream of notifications and a serializer of one byte.\<close>

definition sample_metadata :: json where
  "sample_metadata = JObject [(''characteristic'', JObject []), (''effective_mode'', JString ''notify''),
     (''requested_mode'', JString ''auto''), (''source'', JString ''bluez_value_change'')]"

definition sample_serializer :: serializer where
  "sample_serializer v = [PutChar CHR ''x'']"

definition sample_reports :: native_reports where
  "sample_reports = projr (reports_init (output_init 0) (replicate 32 CHR ''a''))"

lemma sample_reports_init: "reports_init (output_init 0) (replicate 32 CHR ''a'') = Inr sample_reports"
  by (simp add: sample_reports_def reports_init_def credits_init_def hex_token_def hex_char_def list_all_iff)

lemma sample_reports_open:
  "nr_credits (reports_after sample_serializer (=) [ReportsOpen 7 sample_metadata 4] sample_reports) =
   (nr_credits sample_reports)\<lparr>cd_streams := [(7, \<lparr>cs_window = 4, cs_outstanding = 0, cs_last_sequence = 0, cs_live = True\<rparr>)],
      cd_live := 1, cd_greatest_stream := 7\<rparr>"
proof -
  have meta: "metadata_ok sample_metadata"
    by (simp add: metadata_ok_def sample_metadata_def json_at_def json_exact_def json_contains_def
        omap_has_def)
  have enc: "encoded_from sample_serializer sample_metadata max_line \<noteq> Inl InvalidFrame"
    "encoded_from sample_serializer (reports_envelope s 7 sample_metadata v q) max_line \<noteq> Inl InvalidFrame" for s v q
    by (simp_all add: encoded_from_def encoded_validate_def sample_metadata_def reports_envelope_def
        attribute_envelope_def sample_serializer_def max_line_def sub64_def u64_max_def Let_def)
  have "cd_streams (nr_credits sample_reports) = []" "cd_live (nr_credits sample_reports) = 0"
    "cd_greatest_stream (nr_credits sample_reports) = 0"
    by (simp_all add: sample_reports_def reports_init_def credits_init_def hex_token_def hex_char_def list_all_iff)
  then show ?thesis using meta enc
    by (simp add: reports_after_def reports_open_def credits_open_def omap_emplace_def omap_has_def)
qed

theorem reports_linked_witness:
  "let s = reports_after sample_serializer (=) [ReportsOpen 7 sample_metadata 4, ReportsOutput ReserveReply] sample_reports
   in cd_ack_sequence (nr_credits s) \<le> no_transmitted (nr_output s)"
  using reports_linked [OF sample_reports_init _ refl,
      of "[ReportsOpen 7 sample_metadata 4, ReportsOutput ReserveReply]" sample_serializer "(=)"]
  unfolding Let_def by simp

text \<open>
  C17: a report that was given a credit is always accepted by the output, so the error path after a granted
  reservation is never taken: after any interleaving of calls, if \<open>reserve\<close> grants a sequence number for an
  encoded frame then \<open>report\<close> takes the frame.
\<close>

theorem reports_credit_suffices:
  assumes "reports_init (output_init g) generation = Inr s0" and "list_all reports_allowed as"
    and "s = reports_after serialize same as s0"
    and "credits_reserve k (length frame) (nr_credits s) = Returned (Some q, credits')"
  shows "fst (output_report frame q (nr_output s))"
proof -
  have "native_inv s" unfolding assms(3) by (rule reports_after_inv [OF assms(1,2)])
  then show ?thesis using reserve_fits(1) [OF _ _ _ assms(4)] by (simp add: native_inv_def core_inv_def)
qed

theorem reports_credit_suffices_witness:
  "fst (output_report ''x'' 1 (nr_output (reports_after sample_serializer (=) [ReportsOpen 7 sample_metadata 4] sample_reports)))"
proof -
  let ?s = "reports_after sample_serializer (=) [ReportsOpen 7 sample_metadata 4] sample_reports"
  have "cd_records (nr_credits sample_reports) = []" "cd_bytes (nr_credits sample_reports) = 0"
    "cd_sequence (nr_credits sample_reports) = 0" "cd_sent_bytes (nr_credits sample_reports) = 0"
    by (simp_all add: sample_reports_def reports_init_def credits_init_def hex_token_def hex_char_def list_all_iff)
  then have "\<exists>credits'. credits_reserve 7 (length ''x'') (nr_credits ?s) = Returned (Some 1, credits')"
    by (simp add: sample_reports_open credits_reserve_def credit_limits sub64_def u64_max_def Let_def)
  then obtain credits' where "credits_reserve 7 (length ''x'') (nr_credits ?s) = Returned (Some 1, credits')" by blast
  from reports_credit_suffices [OF sample_reports_init _ refl this] show ?thesis by simp
qed

end
