(* ===== verification/Ble_Operation.thy ===== *)
theory Ble_Operation
  imports Wotex_Prelude
begin

text \<open>
  The operation of the CoreBluetooth host (\<open>operation.hpp\<close>): one read, write or command with an explicit
  clock, a deadline and a bounded cleanup.  The port and the sink are interfaces implemented elsewhere; what
  they answer during one call is the argument \<open>port\<close>, what they are told is the log \<open>op_events\<close>.  \<open>poll\<close> asks
  for the premises twice, so it has two answers.  Times are 64-bit signed; \<open>op_deadline_exact\<close> and
  \<open>op_cleanup_exact\<close> show that the two sums and differences of the code stay in that range.
\<close>

section \<open>Model\<close>

datatype op_mode = ModeRead | ModeWrite | ModeCommand

datatype op_code = CodeOk | CodeInvalidOptions | CodeNotAuthorized | CodeDisconnected | CodeStaleDiscovery
  | CodeNotPermitted | CodeNotSupported | CodeInvalidValueLength | CodeTimeout | CodeClockRegressed
  | CodeInvalidResponse | CodeResourceLimit | CodeTransportError | CodeCleanupTimeout | CodePeerNotFound

datatype evidence = EvidenceNone | EvidenceValue | EvidenceAttResponse | EvidenceQueueAccepted

datatype retirement = RetirementPending | RetirementConfirmed | RetirementUnconfirmed

datatype submission = SubmissionAccepted | SubmissionRefused | SubmissionUncertain

record submission_result =
  sm_status :: submission
  sm_cause :: op_code
  sm_observed :: int

record op_ticket =
  tk_generation :: u64
  tk_request :: u64
  tk_route :: u64

record op_route =
  rt_generation :: u64
  rt_token :: u64
  rt_readable :: bool
  rt_writable :: bool
  rt_command :: bool

record op_result =
  res_ticket :: op_ticket
  res_code :: op_code
  res_cause :: op_code
  res_evidence :: evidence
  res_submitted :: bool
  res_confirmed :: bool
  res_bytes :: string

text \<open>The answers of the port and of \<open>Sink::submitted\<close> during one call.\<close>

record op_port =
  pt_authorized :: bool
  pt_connected :: bool
  pt_current :: "op_route \<Rightarrow> bool"
  pt_maximum :: "op_mode \<Rightarrow> nat"
  pt_ready :: bool
  pt_submit :: "op_ticket \<Rightarrow> op_route \<Rightarrow> op_mode \<Rightarrow> string \<Rightarrow> int \<Rightarrow> int \<Rightarrow> submission_result"
  pt_retirement :: "op_ticket \<Rightarrow> retirement"
  sk_submitted :: "op_ticket \<Rightarrow> op_mode \<Rightarrow> bool"

datatype op_event =
    EvSubmitted op_ticket op_mode
  | EvSubmit op_ticket op_route op_mode string
  | EvRetire op_ticket
  | EvResult op_result

datatype op_state = StateIdle | StateReady | StateReply | StateClosing | StateFinished

record operation =
  op_state :: op_state
  op_ticket :: op_ticket
  op_route :: op_route
  op_mode :: op_mode
  op_bytes :: string
  op_deadline :: int
  op_last :: int
  op_cleanup :: int
  op_cause :: op_code
  op_submitted :: bool
  op_events :: "op_event list"

definition op_init :: operation where
  "op_init = \<lparr>op_state = StateIdle,
     op_ticket = \<lparr>tk_generation = 0, tk_request = 0, tk_route = 0\<rparr>,
     op_route = \<lparr>rt_generation = 0, rt_token = 0, rt_readable = False, rt_writable = False, rt_command = False\<rparr>,
     op_mode = ModeRead, op_bytes = [], op_deadline = 0, op_last = 0, op_cleanup = 0, op_cause = CodeOk,
     op_submitted = False, op_events = []\<rparr>"

definition op_emit :: "op_event \<Rightarrow> operation \<Rightarrow> operation" where
  "op_emit e s = s\<lparr>op_events := op_events s @ [e]\<rparr>"

definition op_finish :: "op_code \<Rightarrow> evidence \<Rightarrow> string \<Rightarrow> bool \<Rightarrow> operation \<Rightarrow> operation" where
  "op_finish code evidence bytes confirmed s =
     op_emit (EvResult \<lparr>res_ticket = op_ticket s, res_code = code, res_cause = op_cause s, res_evidence = evidence,
                        res_submitted = op_submitted s, res_confirmed = confirmed, res_bytes = bytes\<rparr>)
       (s\<lparr>op_state := StateFinished, op_bytes := []\<rparr>)"

definition op_closing :: "op_port \<Rightarrow> int \<Rightarrow> operation \<Rightarrow> operation" where
  "op_closing port now s =
     (let s1 = s\<lparr>op_last := max now (op_last s)\<rparr>; r = pt_retirement port (op_ticket s1)
      in if op_last s1 \<ge> op_cleanup s1 \<or> r = RetirementUnconfirmed
         then op_finish CodeCleanupTimeout EvidenceNone [] False s1
         else if r = RetirementConfirmed then op_finish (op_cause s1) EvidenceNone [] True s1
         else s1)"

definition op_close :: "op_port \<Rightarrow> op_code \<Rightarrow> int \<Rightarrow> operation \<Rightarrow> operation" where
  "op_close port cause now s =
     (if op_state s = StateClosing \<or> op_state s = StateFinished then s
      else let s1 = s\<lparr>op_cause := cause, op_state := StateClosing,
                     op_cleanup := (if now > i64_max - 500 then i64_max else now + 500)\<rparr>
           in op_closing port now (op_emit (EvRetire (op_ticket s1)) s1))"

definition op_premises :: "op_port \<Rightarrow> int \<Rightarrow> operation \<Rightarrow> op_code" where
  "op_premises port now s =
     (if now < op_last s then CodeClockRegressed
      else if now \<ge> op_deadline s then CodeTimeout
      else if \<not> pt_authorized port then CodeNotAuthorized
      else if \<not> pt_connected port then CodeDisconnected
      else if \<not> pt_current port (op_route s) then CodeStaleDiscovery
      else CodeOk)"

text \<open>The end of \<open>dispatch\<close>, from the call of \<open>submit\<close>.\<close>

definition op_submit :: "op_port \<Rightarrow> int \<Rightarrow> operation \<Rightarrow> operation" where
  "op_submit port now s =
     (let s1 = op_emit (EvSubmit (op_ticket s) (op_route s) (op_mode s) (op_bytes s)) (s\<lparr>op_state := StateReply\<rparr>);
          reply = pt_submit port (op_ticket s1) (op_route s1) (op_mode s1) (op_bytes s1) now (op_deadline s1)
      in if sm_observed reply < op_last s1 then op_close port CodeClockRegressed (op_last s1) s1
         else let s2 = s1\<lparr>op_last := sm_observed reply\<rparr>
         in if op_last s2 \<ge> op_deadline s2 then op_close port CodeTimeout (op_last s2) s2
            else if sm_status reply \<noteq> SubmissionAccepted
            then op_close port (if sm_cause reply = CodeOk then CodeTransportError else sm_cause reply) (op_last s2) s2
            else if op_mode s2 = ModeCommand then op_finish CodeOk EvidenceQueueAccepted [] False s2
            else s2)"

definition op_dispatch :: "op_port \<Rightarrow> int \<Rightarrow> operation \<Rightarrow> operation" where
  "op_dispatch port now s =
     (if op_premises port now s \<noteq> CodeOk then op_close port (op_premises port now s) (max now (op_last s)) s
      else let s1 = s\<lparr>op_last := now\<rparr>
      in if op_mode s1 \<noteq> ModeRead \<and> pt_maximum port (op_mode s1) = 0
         then op_finish CodeNotSupported EvidenceNone [] False s1
         else if op_mode s1 \<noteq> ModeRead \<and> length (op_bytes s1) > min 512 (pt_maximum port (op_mode s1))
         then op_finish CodeInvalidValueLength EvidenceNone [] False s1
         else if op_mode s1 = ModeCommand \<and> \<not> pt_ready port then s1
         else if op_mode s1 = ModeRead then op_submit port now s1
         else let s2 = op_emit (EvSubmitted (op_ticket s1) (op_mode s1)) s1
         in if \<not> sk_submitted port (op_ticket s1) (op_mode s1)
            then op_finish CodeResourceLimit EvidenceNone [] False s2
            else op_submit port now (s2\<lparr>op_submitted := True\<rparr>))"

definition op_start_ok ::
  "op_ticket \<Rightarrow> op_route \<Rightarrow> op_mode \<Rightarrow> string \<Rightarrow> int \<Rightarrow> int \<Rightarrow> operation \<Rightarrow> bool" where
  "op_start_ok ticket route mode bytes now deadline s \<longleftrightarrow>
     \<not> (op_state s \<noteq> StateIdle \<or> tk_generation ticket = 0 \<or> tk_request ticket = 0 \<or> tk_route ticket = 0 \<or>
        tk_generation ticket \<noteq> rt_generation route \<or> tk_route ticket \<noteq> rt_token route \<or> now < 0 \<or>
        deadline \<le> now \<or> deadline - now > 60000 \<or> length bytes > 512 \<or>
        (mode = ModeRead \<and> bytes \<noteq> []))"

definition op_start ::
  "op_port \<Rightarrow> op_ticket \<Rightarrow> op_route \<Rightarrow> op_mode \<Rightarrow> string \<Rightarrow> int \<Rightarrow> int \<Rightarrow> operation \<Rightarrow> bool \<times> operation" where
  "op_start port ticket route mode bytes now deadline s =
     (if \<not> op_start_ok ticket route mode bytes now deadline s then (False, s)
      else let s1 = s\<lparr>op_bytes := bytes, op_ticket := ticket, op_route := route, op_mode := mode,
                     op_deadline := deadline, op_last := now, op_state := StateReady\<rparr>
      in if (mode = ModeRead \<and> \<not> rt_readable route) \<or> (mode = ModeWrite \<and> \<not> rt_writable route) \<or>
            (mode = ModeCommand \<and> \<not> rt_command route)
         then (True, op_finish CodeNotPermitted EvidenceNone [] False s1)
         else (True, op_dispatch port now s1))"

definition op_poll :: "op_port \<Rightarrow> op_port \<Rightarrow> int \<Rightarrow> operation \<Rightarrow> operation" where
  "op_poll early port now s =
     (if op_state s = StateIdle \<or> op_state s = StateFinished then s
      else if op_state s = StateClosing then op_closing port (max now (op_last s)) s
      else if op_premises early now s \<noteq> CodeOk
      then op_close port (op_premises early now s) (max now (op_last s)) s
      else let s1 = s\<lparr>op_last := now\<rparr>
           in if op_state s1 = StateReady then op_dispatch port now s1 else s1)"

definition op_ready :: "op_port \<Rightarrow> op_port \<Rightarrow> op_ticket \<Rightarrow> int \<Rightarrow> operation \<Rightarrow> bool \<times> operation" where
  "op_ready early port ticket now s =
     (if ticket \<noteq> op_ticket s \<or> op_state s \<noteq> StateReady \<or> op_mode s \<noteq> ModeCommand then (False, s)
      else (True, op_poll early port now s))"

definition op_complete ::
  "op_port \<Rightarrow> op_ticket \<Rightarrow> op_mode \<Rightarrow> op_code \<Rightarrow> string \<Rightarrow> int \<Rightarrow> operation \<Rightarrow> bool \<times> operation" where
  "op_complete port ticket mode code bytes now s =
     (if ticket \<noteq> op_ticket s \<or> op_state s \<noteq> StateReply then (False, s)
      else if op_premises port now s \<noteq> CodeOk
      then (True, op_close port (op_premises port now s) (max now (op_last s)) s)
      else let s1 = s\<lparr>op_last := now\<rparr>
      in if mode \<noteq> op_mode s1 \<or> length bytes > 512 \<or> (mode \<noteq> ModeRead \<and> bytes \<noteq> [])
         then (True, op_close port CodeInvalidResponse now s1)
         else if code \<noteq> CodeOk then (True, op_close port code now s1)
         else (True, op_finish CodeOk (if op_mode s1 = ModeRead then EvidenceValue else EvidenceAttResponse)
                       bytes False s1))"

definition op_cancel :: "op_port \<Rightarrow> int \<Rightarrow> op_code \<Rightarrow> operation \<Rightarrow> operation" where
  "op_cancel port now cause s =
     (if op_state s \<noteq> StateIdle \<and> op_state s \<noteq> StateFinished
      then op_close port cause (max now (op_last s)) s else s)"

definition op_active :: "operation \<Rightarrow> bool" where
  "op_active s \<longleftrightarrow> op_state s \<noteq> StateIdle \<and> op_state s \<noteq> StateFinished"

definition op_finished :: "operation \<Rightarrow> bool" where
  "op_finished s \<longleftrightarrow> op_state s = StateFinished"

text \<open>
  One call of the host on the operation, for any answers of the port and the sink; the host cancels with a
  failure code.
\<close>

inductive op_step :: "operation \<Rightarrow> operation \<Rightarrow> bool" where
  Start: "op_step s (snd (op_start port ticket route mode bytes now deadline s))"
| Poll: "op_step s (op_poll early port now s)"
| Ready: "op_step s (snd (op_ready early port ticket now s))"
| Complete: "op_step s (snd (op_complete port ticket mode code bytes now s))"
| Cancel: "cause \<noteq> CodeOk \<Longrightarrow> op_step s (op_cancel port now cause s)"

section \<open>The protocol an operation follows\<close>

text \<open>
  What the port and the sink may see of one operation, as a machine of its own: nothing, then possibly one
  submission, possibly one retirement, and one result.  The parameters are the ticket, the route and the mode;
  the last two are the submitted flag and the cause.
\<close>

definition sent_log :: "op_ticket \<Rightarrow> op_route \<Rightarrow> op_mode \<Rightarrow> string \<Rightarrow> op_event list" where
  "sent_log tk rt m bytes = (if m = ModeRead then [] else [EvSubmitted tk m]) @ [EvSubmit tk rt m bytes]"

fun mode_evidence :: "op_mode \<Rightarrow> evidence" where
  "mode_evidence ModeRead = EvidenceValue"
| "mode_evidence ModeWrite = EvidenceAttResponse"
| "mode_evidence ModeCommand = EvidenceQueueAccepted"

definition failure_result :: "op_ticket \<Rightarrow> op_code \<Rightarrow> op_code \<Rightarrow> bool \<Rightarrow> bool \<Rightarrow> op_event" where
  "failure_result tk code cause submitted confirmed =
     EvResult \<lparr>res_ticket = tk, res_code = code, res_cause = cause, res_evidence = EvidenceNone,
               res_submitted = submitted, res_confirmed = confirmed, res_bytes = []\<rparr>"

inductive op_log ::
  "op_ticket \<Rightarrow> op_route \<Rightarrow> op_mode \<Rightarrow> op_state \<Rightarrow> bool \<Rightarrow> op_code \<Rightarrow> op_event list \<Rightarrow> bool"
  for tk rt m where
  LogIdle: "op_log tk rt m StateIdle False CodeOk []"
| LogReady: "op_log tk rt m StateReady False CodeOk []"
| LogReply: "length bytes \<le> 512 \<Longrightarrow>
    op_log tk rt m StateReply (m \<noteq> ModeRead) CodeOk (sent_log tk rt m bytes)"
| LogClosing: "op_log tk rt m st sub CodeOk log \<Longrightarrow> st = StateReady \<or> st = StateReply \<Longrightarrow> cause \<noteq> CodeOk \<Longrightarrow>
    op_log tk rt m StateClosing sub cause (log @ [EvRetire tk])"
| LogRefused: "code \<in> {CodeNotPermitted, CodeNotSupported, CodeInvalidValueLength} \<Longrightarrow>
    op_log tk rt m StateFinished False CodeOk [failure_result tk code CodeOk False False]"
| LogFull: "m \<noteq> ModeRead \<Longrightarrow>
    op_log tk rt m StateFinished False CodeOk
      [EvSubmitted tk m, failure_result tk CodeResourceLimit CodeOk False False]"
| LogDone: "op_log tk rt m StateReply sub CodeOk log \<Longrightarrow>
    length bytes \<le> 512 \<and> (m \<noteq> ModeRead \<longrightarrow> bytes = []) \<Longrightarrow>
    op_log tk rt m StateFinished sub CodeOk
      (log @ [EvResult \<lparr>res_ticket = tk, res_code = CodeOk, res_cause = CodeOk, res_evidence = mode_evidence m,
                        res_submitted = sub, res_confirmed = False, res_bytes = bytes\<rparr>])"
| LogClosed: "op_log tk rt m StateClosing sub cause log \<Longrightarrow>
    op_log tk rt m StateFinished sub cause
      (log @ [failure_result tk (if confirmed then cause else CodeCleanupTimeout) cause sub confirmed])"

inductive_cases op_log_idleE: "op_log tk rt m StateIdle sub cause log"
inductive_cases op_log_readyE: "op_log tk rt m StateReady sub cause log"
inductive_cases op_log_replyE: "op_log tk rt m StateReply sub cause log"
inductive_cases op_log_closingE: "op_log tk rt m StateClosing sub cause log"
inductive_cases op_log_finishedE: "op_log tk rt m StateFinished sub cause log"

definition op_ok :: "operation \<Rightarrow> bool" where
  "op_ok s \<longleftrightarrow> op_log (op_ticket s) (op_route s) (op_mode s) (op_state s) (op_submitted s) (op_cause s) (op_events s) \<and>
     length (op_bytes s) \<le> 512"

text \<open>A command waits for readiness, never for a reply.\<close>

definition op_settled :: "operation \<Rightarrow> bool" where
  "op_settled s \<longleftrightarrow> (op_state s = StateReply \<longrightarrow> op_mode s \<noteq> ModeCommand)"

lemma op_init_ok: "op_ok op_init"
  by (simp add: op_ok_def op_init_def LogIdle)

lemma op_ok_ready:
  "op_state s = StateReady \<Longrightarrow> op_ok s \<longleftrightarrow>
   \<not> op_submitted s \<and> op_cause s = CodeOk \<and> op_events s = [] \<and> length (op_bytes s) \<le> 512"
  by (auto simp: op_ok_def LogReady elim: op_log_readyE)

lemma op_ok_last [simp]: "op_ok (s\<lparr>op_last := t\<rparr>) = op_ok s"
  by (simp add: op_ok_def)

lemmas op_logs = op_ok_def op_finish_def op_emit_def failure_result_def [symmetric]

lemmas log_confirmed = LogClosed [where confirmed = True, simplified]
lemmas log_unconfirmed = LogClosed [where confirmed = False, simplified]

lemma op_closing_ok: "op_ok s \<Longrightarrow> op_state s = StateClosing \<Longrightarrow> op_ok (op_closing port now s)"
  by (auto simp: op_closing_def op_logs Let_def intro: log_confirmed log_unconfirmed)

lemma op_close_ok:
  assumes ok: "op_ok s" and st: "op_state s = StateReady \<or> op_state s = StateReply" and cause: "cause \<noteq> CodeOk"
  shows "op_ok (op_close port cause now s)"
proof -
  have "op_cause s = CodeOk"
    using ok st by (auto simp: op_ok_def elim: op_log_readyE op_log_replyE)
  then have "op_ok (op_emit (EvRetire (op_ticket s)) (s\<lparr>op_cause := cause, op_state := StateClosing,
      op_cleanup := (if now > i64_max - 500 then i64_max else now + 500)\<rparr>))"
    using ok st LogClosing [OF _ st cause] by (auto simp: op_ok_def op_emit_def)
  then show ?thesis
    using st unfolding op_close_def Let_def by (auto simp: op_emit_def intro!: op_closing_ok)
qed

lemma op_close_again: "op_state s = StateClosing \<or> op_state s = StateFinished \<Longrightarrow> op_close port cause now s = s"
  by (simp add: op_close_def)

text \<open>A state in which the submission was just announced, as \<open>dispatch\<close> builds it.\<close>

definition op_announced :: "operation \<Rightarrow> bool" where
  "op_announced s \<longleftrightarrow> op_state s = StateReady \<and> op_submitted s = (op_mode s \<noteq> ModeRead) \<and> op_cause s = CodeOk \<and>
     op_events s = (if op_mode s = ModeRead then [] else [EvSubmitted (op_ticket s) (op_mode s)]) \<and>
     length (op_bytes s) \<le> 512"

lemma op_submit_ok:
  assumes "op_announced s"
  shows "op_ok (op_submit port now s)"
proof -
  let ?s1 = "op_emit (EvSubmit (op_ticket s) (op_route s) (op_mode s) (op_bytes s)) (s\<lparr>op_state := StateReply\<rparr>)"
  have log: "op_log (op_ticket s) (op_route s) (op_mode s) StateReply (op_mode s \<noteq> ModeRead) CodeOk
      (sent_log (op_ticket s) (op_route s) (op_mode s) (op_bytes s))"
    using assms by (intro LogReply) (simp add: op_announced_def)
  have ok: "op_ok ?s1" "op_state ?s1 = StateReply"
    using assms log by (auto simp: op_announced_def op_ok_def op_emit_def sent_log_def)
  have close: "op_ok (op_close port cause t (?s1\<lparr>op_last := u\<rparr>))" "op_ok (op_close port cause t ?s1)"
    if "cause \<noteq> CodeOk" for cause t u
    using that ok by (auto intro!: op_close_ok)
  have fin: "op_ok (op_finish CodeOk EvidenceQueueAccepted [] False (?s1\<lparr>op_last := u\<rparr>))" if "op_mode s = ModeCommand" for u
    using assms LogDone [OF log, of "[]"] that by (auto simp: op_announced_def op_logs sent_log_def)
  show ?thesis
    unfolding op_submit_def Let_def using ok close fin by (auto simp: op_emit_def)
qed

lemma op_refused_ok:
  assumes "op_ok s" and "op_state s = StateReady" and "code \<in> {CodeNotPermitted, CodeNotSupported, CodeInvalidValueLength}"
  shows "op_ok (op_finish code EvidenceNone [] False s)"
  using assms LogRefused [OF assms(3)] by (auto simp: op_ok_ready) (auto simp: op_logs)

lemma op_dispatch_ok:
  assumes ok: "op_ok s" and st: "op_state s = StateReady"
  shows "op_ok (op_dispatch port now s)"
proof (cases "op_premises port now s = CodeOk")
  case False
  then show ?thesis using assms by (simp add: op_dispatch_def op_close_ok)
next
  case True
  let ?s1 = "s\<lparr>op_last := now\<rparr>"
  let ?s2 = "op_emit (EvSubmitted (op_ticket s) (op_mode s)) ?s1"
  have s1: "op_ok ?s1" "op_state ?s1 = StateReady" using assms by simp_all
  have read: "op_announced ?s1" if "op_mode s = ModeRead"
    using that assms by (simp add: op_ok_ready op_announced_def)
  have other: "op_announced (?s2\<lparr>op_submitted := True\<rparr>)" if "op_mode s \<noteq> ModeRead"
    using that assms by (simp add: op_ok_ready op_announced_def op_emit_def)
  have full: "op_ok (op_finish CodeResourceLimit EvidenceNone [] False ?s2)" if "op_mode s \<noteq> ModeRead"
    using that assms LogFull [OF that] by (auto simp: op_ok_ready) (auto simp: op_logs)
  show ?thesis
    using True s1 read other full op_refused_ok [OF s1]
    by (auto simp: op_dispatch_def Let_def intro: op_submit_ok)
qed

lemma op_start_keeps:
  assumes "op_ok s"
  shows "op_ok (snd (op_start port ticket route mode bytes now deadline s))"
proof (cases "op_start_ok ticket route mode bytes now deadline s")
  case False
  then show ?thesis using assms by (simp add: op_start_def)
next
  case True
  let ?s1 = "s\<lparr>op_bytes := bytes, op_ticket := ticket, op_route := route, op_mode := mode,
     op_deadline := deadline, op_last := now, op_state := StateReady\<rparr>"
  have "op_state s = StateIdle" "length bytes \<le> 512" using True by (auto simp: op_start_ok_def)
  then have "op_ok ?s1" using assms by (auto simp: op_ok_def LogReady elim: op_log_idleE)
  then show ?thesis
    using True op_refused_ok [of ?s1] op_dispatch_ok [of ?s1]
    by (auto simp: op_start_def Let_def)
qed

lemma op_poll_ok:
  assumes "op_ok s"
  shows "op_ok (op_poll early port now s)"
proof (cases "op_state s = StateIdle \<or> op_state s = StateFinished \<or> op_state s = StateClosing")
  case True
  then show ?thesis using assms op_closing_ok by (auto simp: op_poll_def)
next
  case False
  then have st: "op_state s = StateReady \<or> op_state s = StateReply" by (cases "op_state s") simp_all
  then show ?thesis
    using assms False op_close_ok [OF assms st] op_dispatch_ok [of "s\<lparr>op_last := now\<rparr>"]
    by (auto simp: op_poll_def Let_def)
qed

lemma op_complete_ok:
  assumes ok: "op_ok s" and settled: "op_settled s"
  shows "op_ok (snd (op_complete port ticket mode code bytes now s))"
proof (cases "ticket = op_ticket s \<and> op_state s = StateReply")
  case True
  then have cause: "op_cause s = CodeOk" using ok by (auto simp: op_ok_def elim: op_log_replyE)
  then have log: "op_log (op_ticket s) (op_route s) (op_mode s) StateReply (op_submitted s) CodeOk (op_events s)"
    using ok True by (auto simp: op_ok_def)
  have close: "op_ok (op_close port c t (s\<lparr>op_last := u\<rparr>))" "op_ok (op_close port c t s)" if "c \<noteq> CodeOk" for c t u
    using that ok True by (auto intro!: op_close_ok)
  have fin: "op_ok (op_finish CodeOk (if op_mode s = ModeRead then EvidenceValue else EvidenceAttResponse) bytes False
      (s\<lparr>op_last := now\<rparr>))"
    if "op_mode s \<noteq> ModeCommand" "length bytes \<le> 512" "op_mode s \<noteq> ModeRead \<longrightarrow> bytes = []"
    using that LogDone [OF log, of bytes] ok cause by (cases "op_mode s") (auto simp: op_logs)
  show ?thesis using True close fin settled by (auto simp: op_complete_def op_settled_def Let_def)
qed (use ok in \<open>auto simp: op_complete_def\<close>)

text \<open>Where an operation can be after each call.\<close>

lemma op_finish_state [simp]: "op_state (op_finish code ev bytes confirmed s) = StateFinished"
  by (simp add: op_finish_def op_emit_def)

lemma op_closing_state:
  "op_state s = StateClosing \<Longrightarrow> op_state (op_closing port now s) \<in> {StateClosing, StateFinished}"
  by (simp add: op_closing_def Let_def)

lemma op_close_state: "op_state (op_close port cause now s) \<in> {StateClosing, StateFinished}"
proof (cases "op_state s = StateClosing \<or> op_state s = StateFinished")
  case False
  then show ?thesis unfolding op_close_def Let_def if_not_P [OF False]
    by (intro op_closing_state) (simp add: op_emit_def)
qed (auto simp: op_close_def)

lemma op_close_settled [simp]: "op_settled (op_close port cause now s)"
  using op_close_state [of port cause now s] by (auto simp: op_settled_def)

lemma op_finish_settled [simp]: "op_settled (op_finish code ev bytes confirmed s)"
  by (simp add: op_settled_def)

lemma op_submit_settled: "op_settled (op_submit port now s)"
  unfolding op_submit_def Let_def by (auto simp: op_emit_def) (simp add: op_settled_def)

lemma op_dispatch_settled: "op_state s = StateReady \<Longrightarrow> op_settled (op_dispatch port now s)"
  unfolding op_dispatch_def Let_def by (auto simp: op_submit_settled) (simp_all add: op_settled_def)

lemma op_closing_settled: "op_state s = StateClosing \<Longrightarrow> op_settled (op_closing port now s)"
  using op_closing_state [of s port now] by (auto simp: op_settled_def)

lemma op_last_settled [simp]: "op_settled (s\<lparr>op_last := t\<rparr>) = op_settled s"
  by (simp add: op_settled_def)

lemma op_poll_settled: "op_settled s \<Longrightarrow> op_settled (op_poll early port now s)"
  by (cases "op_state s") (simp_all add: op_poll_def Let_def op_closing_settled op_dispatch_settled)

lemma op_step_ok:
  assumes "op_step s s'" and "op_ok s \<and> op_settled s"
  shows "op_ok s' \<and> op_settled s'"
  using assms
proof (cases rule: op_step.cases)
  case (Start port ticket route mode bytes now deadline)
  then show ?thesis using assms(2) op_start_keeps
    by (auto simp: op_start_def Let_def op_dispatch_settled)
next
  case (Poll early port now)
  then show ?thesis using assms(2) op_poll_ok op_poll_settled by simp
next
  case (Ready early port ticket now)
  then show ?thesis using assms(2) op_poll_ok op_poll_settled by (auto simp: op_ready_def)
next
  case (Complete port ticket mode code bytes now)
  have "op_settled s'" using assms(2) unfolding Complete op_complete_def Let_def by auto
  then show ?thesis using assms(2) op_complete_ok Complete by simp
next
  case (Cancel cause port now)
  then show ?thesis using assms(2) op_close_again [of s] op_close_ok [of s]
    by (cases "op_state s") (auto simp: op_cancel_def)
qed

section \<open>Time\<close>

lemma op_deadline_exact: "0 \<le> now \<Longrightarrow> i64 deadline \<Longrightarrow> now < deadline \<Longrightarrow> i64 (deadline - now)"
  by (simp add: i64_def)

lemma op_cleanup_exact:
  "i64 now \<Longrightarrow> (if now > i64_max - 500 then i64_max else now + 500) = min i64_max (now + 500)"
  "i64 now \<Longrightarrow> i64 (if now > i64_max - 500 then i64_max else now + 500)"
  by (auto simp: i64_def i64_max_def)

text \<open>A closing operation has at most 500 milliseconds left.\<close>

definition op_timed :: "operation \<Rightarrow> bool" where
  "op_timed s \<longleftrightarrow> (op_state s = StateClosing \<longrightarrow> op_cleanup s \<le> op_last s + 500)"

lemma op_finish_timed [simp]: "op_timed (op_finish code ev bytes confirmed s)"
  by (simp add: op_timed_def)

lemma op_closing_timed: "op_cleanup s \<le> now + 500 \<or> op_timed s \<and> op_state s = StateClosing \<Longrightarrow> op_timed (op_closing port now s)"
  by (auto simp: op_closing_def Let_def) (auto simp: op_timed_def)

lemma op_close_timed: "op_timed s \<Longrightarrow> op_timed (op_close port cause now s)"
  unfolding op_close_def Let_def by (auto simp: op_emit_def intro!: op_closing_timed)

lemma op_submit_timed: "op_state s = StateReady \<Longrightarrow> op_timed (op_submit port now s)"
  unfolding op_submit_def Let_def by (auto intro!: op_close_timed) (simp_all add: op_timed_def op_emit_def)

lemma op_dispatch_timed: "op_state s = StateReady \<Longrightarrow> op_timed (op_dispatch port now s)"
  unfolding op_dispatch_def Let_def
  by (auto intro!: op_close_timed op_submit_timed simp: op_emit_def) (simp_all add: op_timed_def)

lemma op_poll_timed: "op_timed s \<Longrightarrow> op_timed (op_poll early port now s)"
  by (cases "op_state s")
    (auto simp: op_poll_def Let_def op_closing_timed op_dispatch_timed op_close_timed, simp add: op_timed_def)

lemma op_step_timed: "op_step s s' \<Longrightarrow> op_timed s \<Longrightarrow> op_timed s'"
  by (induction rule: op_step.induct)
    (auto simp: op_start_def op_ready_def op_complete_def op_cancel_def Let_def op_dispatch_timed op_poll_timed
      intro!: op_close_timed, (simp add: op_timed_def)+)

lemma op_reach:
  assumes "op_step\<^sup>*\<^sup>* op_init s"
  shows "op_ok s" and "op_settled s" and "op_timed s"
proof -
  have "(op_ok s \<and> op_settled s) \<and> op_timed s" using assms
  proof induction
    case base
    show ?case by (simp add: op_init_ok) (simp add: op_init_def op_settled_def op_timed_def)
  next
    case (step s s')
    then show ?case using op_step_ok op_step_timed by blast
  qed
  then show "op_ok s" "op_settled s" "op_timed s" by simp_all
qed

text \<open>Closing ends by its time limit, whatever the port answers.\<close>

lemma op_closing_ends:
  "op_state s = StateClosing \<Longrightarrow> op_cleanup s \<le> now \<Longrightarrow> op_state (op_closing port now s) = StateFinished"
  by (simp add: op_closing_def Let_def le_max_iff_disj)

lemma op_closing_last: "op_last (op_closing port now s) = max now (op_last s)"
  by (simp add: op_closing_def op_finish_def op_emit_def Let_def)

lemma op_close_last:
  "op_state s \<noteq> StateClosing \<Longrightarrow> op_state s \<noteq> StateFinished \<Longrightarrow>
   op_last (op_close port cause now s) = max now (op_last s)"
  unfolding op_close_def Let_def by (simp add: op_closing_last op_emit_def)

lemma op_poll_late:
  assumes "op_active s" and "op_deadline s \<le> now" and "op_timed s" and "op_last s \<le> now"
  shows "op_state (op_poll early port now s) = StateFinished \<or>
    op_state (op_poll early port now s) = StateClosing \<and> op_cleanup (op_poll early port now s) \<le> now + 500"
proof -
  let ?t = "op_poll early port now s"
  have late: "op_premises early now s \<noteq> CodeOk" using assms(2) by (simp add: op_premises_def)
  have "op_state ?t \<in> {StateClosing, StateFinished} \<and> op_last ?t = now"
  proof (cases "op_state s = StateClosing")
    case True
    then show ?thesis using assms(4) op_closing_state [OF True, of port now]
      by (simp add: op_poll_def op_closing_last max_absorb1)
  next
    case False
    then show ?thesis using assms(1,4) late op_close_state [of port "op_premises early now s" now s]
      by (simp add: op_poll_def op_active_def op_close_last max_absorb1)
  qed
  moreover have "op_timed ?t" using assms(3) by (rule op_poll_timed)
  ultimately show ?thesis by (auto simp: op_timed_def)
qed

section \<open>Properties\<close>

text \<open>
  C7: an operation refines its protocol: for every sequence of calls and every answer of the port and the
  sink, all that the port and the sink were told is one log of the machine \<open>op_log\<close>, in the state it says.
  So nothing is submitted before it was announced, only an announced submission is reported as submitted, an
  \<open>ok\<close> result carries the evidence of its mode and follows a submission, and a failure after a retirement
  carries the cause, or \<open>cleanup_timeout\<close> when the retirement was not confirmed.
\<close>

theorem op_protocol:
  assumes "op_step\<^sup>*\<^sup>* op_init s"
  shows "op_log (op_ticket s) (op_route s) (op_mode s) (op_state s) (op_submitted s) (op_cause s) (op_events s)"
  using op_reach(1) [OF assms] by (simp add: op_ok_def)

definition sample_port :: op_port where
  "sample_port = \<lparr>pt_authorized = True, pt_connected = True, pt_current = (\<lambda>_. True), pt_maximum = (\<lambda>_. 20),
     pt_ready = True,
     pt_submit = (\<lambda>_ _ _ _ now _. \<lparr>sm_status = SubmissionAccepted, sm_cause = CodeOk, sm_observed = now\<rparr>),
     pt_retirement = (\<lambda>_. RetirementPending), sk_submitted = (\<lambda>_ _. True)\<rparr>"

definition sample_operation :: operation where
  "sample_operation = snd (op_start sample_port \<lparr>tk_generation = 1, tk_request = 1, tk_route = 1\<rparr>
     \<lparr>rt_generation = 1, rt_token = 1, rt_readable = True, rt_writable = True, rt_command = True\<rparr>
     ModeWrite ''ab'' 10 1000 op_init)"

lemma sample_operation_reach: "op_step\<^sup>*\<^sup>* op_init sample_operation"
  unfolding sample_operation_def by (rule r_into_rtranclp) (rule Start)

lemmas op_defs = op_start_def op_start_ok_def op_dispatch_def op_submit_def op_premises_def op_finish_def
  op_emit_def op_init_def sample_port_def

lemma sample_operation_state:
  "op_state sample_operation = StateReply" "op_deadline sample_operation = 1000" "op_last sample_operation = 10"
  by (simp_all add: sample_operation_def op_defs Let_def)

theorem op_protocol_witness:
  "op_log (op_ticket sample_operation) (op_route sample_operation) ModeWrite StateReply True CodeOk
     (op_events sample_operation)"
proof -
  have "op_mode sample_operation = ModeWrite" "op_submitted sample_operation" "op_cause sample_operation = CodeOk"
    by (simp_all add: sample_operation_def op_defs Let_def)
  then show ?thesis using op_protocol [OF sample_operation_reach] by (simp add: sample_operation_state)
qed

text \<open>
  C0: an operation gives exactly one result: none before it is finished, one when it is, and afterwards no call
  changes it or tells the port or the sink anything.  It is submitted at most once and retired at most once.
\<close>

fun is_result :: "op_event \<Rightarrow> bool" where
  "is_result (EvResult r) = True" | "is_result _ = False"

fun is_submit :: "op_event \<Rightarrow> bool" where
  "is_submit (EvSubmit tk rt m bytes) = True" | "is_submit _ = False"

fun is_retire :: "op_event \<Rightarrow> bool" where
  "is_retire (EvRetire tk) = True" | "is_retire _ = False"

lemma op_log_counts:
  assumes "op_log tk rt m st sub cause log"
  shows "length (filter is_result log) = (if st = StateFinished then 1 else 0) \<and>
    length (filter is_submit log) \<le> (if st \<in> {StateIdle, StateReady} then 0 else 1) \<and>
    length (filter is_retire log) \<le> (if st \<in> {StateIdle, StateReady, StateReply} then 0 else 1)"
  using assms by induction (auto simp: sent_log_def failure_result_def)

lemma op_finished_final: "op_finished s \<Longrightarrow> op_step s s' \<Longrightarrow> s' = s"
  by (auto elim!: op_step.cases simp: op_finished_def op_start_def op_start_ok_def op_poll_def op_ready_def
      op_complete_def op_cancel_def)

text \<open>
  C24: over any sequence of calls and answers an operation gives at most one result, exactly one once it is
  finished; it is submitted at most once and retired at most once, and a finished operation changes no more.
\<close>

theorem op_single_result:
  assumes "op_step\<^sup>*\<^sup>* op_init s"
  shows "length (filter is_result (op_events s)) = (if op_finished s then 1 else 0) \<and>
    length (filter is_submit (op_events s)) \<le> 1 \<and> length (filter is_retire (op_events s)) \<le> 1 \<and>
    (op_finished s \<longrightarrow> (\<forall>s'. op_step s s' \<longrightarrow> s' = s))"
proof -
  have "op_log (op_ticket s) (op_route s) (op_mode s) (op_state s) (op_submitted s) (op_cause s) (op_events s)"
    using op_reach(1) [OF assms] by (simp add: op_ok_def)
  note counts = op_log_counts [OF this]
  have "op_finished s \<longrightarrow> (\<forall>s'. op_step s s' \<longrightarrow> s' = s)" using op_finished_final by blast
  moreover have "length (filter is_submit (op_events s)) \<le> 1" "length (filter is_retire (op_events s)) \<le> 1"
    using counts by (cases "op_state s"; simp)+
  ultimately show ?thesis using counts by (simp add: op_finished_def)
qed

theorem op_single_result_witness: "length (filter is_result (op_events sample_operation)) = 0"
  using op_single_result [OF sample_operation_reach] by (simp add: op_finished_def sample_operation_state)

text \<open>
  C25: every operation ends: whatever the port answers, an active operation that is polled once at or after its
  deadline and once 500 milliseconds later is finished.
\<close>

theorem op_ends:
  assumes "op_step\<^sup>*\<^sup>* op_init s" and "op_active s"
    and "op_deadline s \<le> t" and "op_last s \<le> t" and "t + 500 \<le> u"
  shows "op_finished (op_poll early' port' u (op_poll early port t s))"
proof -
  let ?p = "op_poll early port t s"
  from op_poll_late [OF assms(2,3) op_reach(3) [OF assms(1)] assms(4), of early port]
  show ?thesis
  proof
    assume "op_state ?p = StateFinished"
    then show ?thesis by (simp add: op_finished_def op_poll_def [of early'])
  next
    assume p: "op_state ?p = StateClosing \<and> op_cleanup ?p \<le> t + 500"
    then have "op_cleanup ?p \<le> max u (op_last ?p)" using assms(5) by linarith
    then show ?thesis using p op_closing_ends [of ?p] by (simp add: op_finished_def op_poll_def [of early'])
  qed
qed

theorem op_ends_witness: "op_finished (op_poll sample_port sample_port 1500 (op_poll sample_port sample_port 1000 sample_operation))"
  by (rule op_ends [OF sample_operation_reach])
    (simp_all add: op_active_def sample_operation_state)

end
