(* ===== verification/Ble_Power.thy ===== *)
theory Ble_Power
  imports Ble_Operation Wotex_Channel
begin

text \<open>
  The power observer of the CoreBluetooth host (\<open>power.hpp\<close>).  The IOKit functions are not part of the
  repository: what they answer, an exception included, is an argument of each call, and the calls made are
  the log \<open>pw_calls\<close>.  All calls run on one serial queue.
\<close>

section \<open>Model\<close>

datatype api_answer = ApiSuccess | ApiFailure | ApiThrows

text \<open>What \<open>subscribe\<close> left in the connection (unless it threw), the port and the notifier.\<close>

record subscribe_answer =
  sa_throws :: bool
  sa_connection :: bool
  sa_port :: bool
  sa_notifier :: bool

datatype power_message = CanSystemSleep | SystemWillSleep | SystemWillPowerOn | SystemHasPoweredOn | OtherMessage

datatype power_api_call = CallSubscribe | CallDispatch | CallAllow | CallUnsubscribe | CallDestroy | CallClose
  | CallPowerLost op_code

record cleanup_answers =
  ca_unsubscribe :: api_answer
  ca_destroy :: api_answer
  ca_close :: api_answer

record system_power =
  pw_connection :: bool
  pw_notifier :: bool
  pw_port :: bool
  pw_active :: bool
  pw_started :: bool
  pw_confirmed :: bool
  pw_calls :: "power_api_call list"

definition power_init :: system_power where
  "power_init = \<lparr>pw_connection = False, pw_notifier = False, pw_port = False, pw_active = False,
     pw_started = False, pw_confirmed = True, pw_calls = []\<rparr>"

definition power_call :: "power_api_call \<Rightarrow> system_power \<Rightarrow> system_power" where
  "power_call c s = s\<lparr>pw_calls := pw_calls s @ [c]\<rparr>"

definition power_event :: "api_answer \<Rightarrow> power_message \<Rightarrow> system_power \<Rightarrow> system_power" where
  "power_event answer message s =
     (if \<not> pw_active s then s
      else let asks = (message = CanSystemSleep \<or> message = SystemWillSleep);
               s1 = (if asks then power_call CallAllow s else s)
           in if asks \<and> answer \<noteq> ApiSuccess then power_call (CallPowerLost CodeTransportError) s1
              else if message = SystemWillSleep \<or> message = SystemWillPowerOn \<or> message = SystemHasPoweredOn
              then power_call (CallPowerLost CodeDisconnected) s1
              else s1)"

text \<open>One release of \<open>stop\<close>; destroying the port has no result to check.\<close>

definition power_release :: "bool \<Rightarrow> power_api_call \<Rightarrow> bool \<Rightarrow> system_power \<Rightarrow> system_power" where
  "power_release held c failed s =
     (if \<not> held then s
      else let s1 = power_call c s in if failed then s1\<lparr>pw_confirmed := False\<rparr> else s1)"

definition power_stop :: "cleanup_answers \<Rightarrow> system_power \<Rightarrow> bool \<times> system_power" where
  "power_stop a s =
     (let s1 = s\<lparr>pw_active := False, pw_notifier := False, pw_port := False, pw_connection := False\<rparr>;
          s2 = power_release (pw_notifier s) CallUnsubscribe (ca_unsubscribe a \<noteq> ApiSuccess) s1;
          s3 = power_release (pw_port s) CallDestroy (ca_destroy a = ApiThrows) s2;
          s4 = power_release (pw_connection s) CallClose (ca_close a \<noteq> ApiSuccess) s3
      in (pw_confirmed s4, s4))"

definition power_start ::
  "bool \<Rightarrow> subscribe_answer \<Rightarrow> bool \<Rightarrow> cleanup_answers \<Rightarrow> system_power \<Rightarrow> bool \<times> system_power" where
  "power_start usable sub dispatch_throws a s =
     (if pw_started s \<or> \<not> usable then (False, s)
      else let s1 = power_call CallSubscribe (s\<lparr>pw_started := True,
                 pw_connection := (if sa_throws sub then pw_connection s else sa_connection sub),
                 pw_port := sa_port sub, pw_notifier := sa_notifier sub\<rparr>)
      in if sa_throws sub then (False, snd (power_stop a (s1\<lparr>pw_confirmed := False\<rparr>)))
         else if \<not> pw_connection s1 \<or> \<not> pw_port s1 \<or> \<not> pw_notifier s1 then (False, snd (power_stop a s1))
         else let s2 = power_call CallDispatch (s1\<lparr>pw_active := True\<rparr>)
              in if dispatch_throws then (False, snd (power_stop a (s2\<lparr>pw_confirmed := False\<rparr>)))
                 else (pw_active s2, s2))"

datatype power_action =
    PowerStart bool subscribe_answer bool cleanup_answers
  | PowerStop cleanup_answers
  | PowerEvent api_answer power_message

fun power_step :: "power_action \<Rightarrow> system_power \<Rightarrow> system_power" where
  "power_step (PowerStart usable sub d a) s = snd (power_start usable sub d a s)"
| "power_step (PowerStop a) s = snd (power_stop a s)"
| "power_step (PowerEvent answer message) s = power_event answer message s"

section \<open>Resources\<close>

definition calls_of :: "power_api_call \<Rightarrow> system_power \<Rightarrow> nat" where
  "calls_of c s = count_list (pw_calls s) c"

lemma calls_of_call [simp]: "calls_of c (power_call d s) = calls_of c s + (if c = d then 1 else 0)"
  by (simp add: calls_of_def power_call_def)

lemma calls_of_frame [simp]:
  "calls_of c (s\<lparr>pw_active := b\<rparr>) = calls_of c s" "calls_of c (s\<lparr>pw_confirmed := b\<rparr>) = calls_of c s"
  "calls_of c (s\<lparr>pw_connection := b\<rparr>) = calls_of c s" "calls_of c (s\<lparr>pw_port := b\<rparr>) = calls_of c s"
  "calls_of c (s\<lparr>pw_notifier := b\<rparr>) = calls_of c s" "calls_of c (s\<lparr>pw_started := b\<rparr>) = calls_of c s"
  by (simp_all add: calls_of_def)

lemma power_call_fields [simp]:
  "pw_connection (power_call c s) = pw_connection s" "pw_port (power_call c s) = pw_port s"
  "pw_notifier (power_call c s) = pw_notifier s" "pw_active (power_call c s) = pw_active s"
  "pw_started (power_call c s) = pw_started s" "pw_confirmed (power_call c s) = pw_confirmed s"
  by (simp_all add: power_call_def)

text \<open>
  A held resource was acquired once and not released; a released one is never touched again; an active
  observer holds all three.
\<close>

definition power_inv :: "system_power \<Rightarrow> bool" where
  "power_inv s \<longleftrightarrow>
     (pw_active s \<longleftrightarrow> pw_connection s) \<and> (pw_active s \<longleftrightarrow> pw_port s) \<and> (pw_active s \<longleftrightarrow> pw_notifier s) \<and>
     (pw_active s \<longrightarrow> pw_started s) \<and>
     (\<forall>c \<in> {CallUnsubscribe, CallDestroy, CallClose}.
        calls_of c s \<le> (if pw_started s \<and> \<not> pw_active s then 1 else 0)) \<and>
     calls_of CallSubscribe s = (if pw_started s then 1 else 0)"

lemma power_release_fields [simp]:
  "pw_connection (power_release h c f s) = pw_connection s" "pw_port (power_release h c f s) = pw_port s"
  "pw_notifier (power_release h c f s) = pw_notifier s" "pw_active (power_release h c f s) = pw_active s"
  "pw_started (power_release h c f s) = pw_started s"
  "calls_of d (power_release h c f s) = calls_of d s + (if h \<and> c = d then 1 else 0)"
  by (simp_all add: power_release_def Let_def)

lemma power_stop_effect:
  "\<not> pw_active (snd (power_stop a s))" "\<not> pw_connection (snd (power_stop a s))"
  "\<not> pw_port (snd (power_stop a s))" "\<not> pw_notifier (snd (power_stop a s))"
  "pw_started (snd (power_stop a s)) = pw_started s"
  "calls_of CallUnsubscribe (snd (power_stop a s)) = calls_of CallUnsubscribe s + (if pw_notifier s then 1 else 0)"
  "calls_of CallDestroy (snd (power_stop a s)) = calls_of CallDestroy s + (if pw_port s then 1 else 0)"
  "calls_of CallClose (snd (power_stop a s)) = calls_of CallClose s + (if pw_connection s then 1 else 0)"
  "calls_of CallSubscribe (snd (power_stop a s)) = calls_of CallSubscribe s"
  by (simp_all add: power_stop_def Let_def)

lemma power_event_effect:
  "pw_active (power_event r m s) = pw_active s" "pw_connection (power_event r m s) = pw_connection s"
  "pw_port (power_event r m s) = pw_port s" "pw_notifier (power_event r m s) = pw_notifier s"
  "pw_started (power_event r m s) = pw_started s"
  "c \<in> {CallUnsubscribe, CallDestroy, CallClose, CallSubscribe} \<Longrightarrow> calls_of c (power_event r m s) = calls_of c s"
  by (auto simp: power_event_def Let_def)

text \<open>A start that fails after \<open>subscribe\<close> releases what it was given.\<close>

lemma power_abandon_inv:
  assumes "power_inv s" and "\<not> pw_started s" and "pw_started t"
    and "calls_of CallSubscribe t = 1" and "\<forall>c \<in> {CallUnsubscribe, CallDestroy, CallClose}. calls_of c t = calls_of c s"
  shows "power_inv (snd (power_stop a t))"
  using assms by (simp add: power_inv_def power_stop_effect)

lemma power_start_inv:
  assumes inv: "power_inv s"
  shows "power_inv (snd (power_start usable sub d a s))"
proof (cases "pw_started s \<or> \<not> usable")
  case False
  have calls: "calls_of CallSubscribe s = 0" "\<not> pw_started s" using inv False by (simp_all add: power_inv_def)
  then show ?thesis using False inv unfolding power_start_def Let_def
    by (auto intro!: power_abandon_inv [OF inv calls(2)]) (simp add: power_inv_def)
qed (use inv in \<open>auto simp: power_start_def\<close>)

lemma power_stop_inv: "power_inv s \<Longrightarrow> power_inv (snd (power_stop a s))"
  by (cases "pw_active s"; cases "pw_started s") (simp_all add: power_inv_def power_stop_effect)

lemma power_event_inv: "power_inv s \<Longrightarrow> power_inv (power_event r m s)"
  by (cases "pw_active s"; cases "pw_started s") (simp_all add: power_inv_def power_event_effect)

lemma power_step_inv: "power_inv s \<Longrightarrow> power_inv (power_step c s)"
  by (cases c) (simp_all add: power_start_inv power_stop_inv power_event_inv)

interpretation power: action_machine power_step power_inv "\<lambda>_. True"
  by unfold_locales (rule power_step_inv)

lemma power_init_inv: "power_inv power_init"
  by (simp add: power_inv_def power_init_def calls_of_def)


end
