(* ===== verification/Wotex_Document.thy ===== *)
theory Wotex_Document
  imports Wotex_Json
begin

text \<open>
  What a host sees of a JSON document while it is parsed.  The parser is third-party code: it calls the host
  back for every value, container and member name, and the hosts bound a document inside these calls.
  \<open>document_guard\<close> is the contract of such a callback; a host that meets it accepts exactly the documents
  within its bounds.
\<close>

datatype parse_event = ObjectStart | ArrayStart | ObjectEnd | ArrayEnd | KeyEvent string | ValueEvent

text \<open>An open container, its elements so far and, for an object, its names so far.\<close>

record parse_frame =
  pf_object :: bool
  pf_elements :: nat
  pf_keys :: "string list"

text \<open>The nodes so far and the open containers, the innermost first.\<close>

type_synonym parse_guard = "nat \<times> parse_frame list"

text \<open>The calls made for a text, and the value that is returned; \<open>None\<close> where the text is no document.\<close>

type_synonym json_parser = "string \<Rightarrow> parse_event list \<times> json option"

abbreviation frame_open :: "bool \<Rightarrow> parse_frame" where
  "frame_open object \<equiv> \<lparr>pf_object = object, pf_elements = 0, pf_keys = []\<rparr>"

text \<open>
  The calls for a document.  The document keeps its members in text order and with repeated names; a scalar is
  one call.
\<close>

fun document_events :: "json \<Rightarrow> parse_event list" where
  "document_events (JArray xs) = ArrayStart # concat (map document_events xs) @ [ArrayEnd]"
| "document_events (JObject m) = ObjectStart # concat (map (\<lambda>p. KeyEvent (fst p) # document_events (snd p)) m) @ [ObjectEnd]"
| "document_events _ = [ValueEvent]"

text \<open>The nodes of a document, where a member name counts \<open>kc\<close>.\<close>

fun document_cost :: "nat \<Rightarrow> json \<Rightarrow> nat" where
  "document_cost kc (JArray xs) = Suc (sum_list (map (document_cost kc) xs))"
| "document_cost kc (JObject m) = Suc (sum_list (map (\<lambda>p. kc + document_cost kc (snd p)) m))"
| "document_cost kc _ = 1"

text \<open>At most \<open>d\<close> nested containers of at most \<open>c\<close> elements, no name twice in an object.\<close>

fun document_within :: "nat \<Rightarrow> nat \<Rightarrow> json \<Rightarrow> bool" where
  "document_within c d (JArray xs) \<longleftrightarrow> d > 0 \<and> length xs \<le> c \<and> (\<forall>x \<in> set xs. document_within c (d - 1) x)"
| "document_within c d (JObject m) \<longleftrightarrow> d > 0 \<and> length m \<le> c \<and> distinct (map fst m) \<and>
     (\<forall>p \<in> set m. document_within c (d - 1) (snd p))"
| "document_within c d _ = True"

fun slot_open :: "nat \<Rightarrow> parse_frame list \<Rightarrow> bool" where
  "slot_open c [] = True"
| "slot_open c (f # fs) = (pf_object f \<or> pf_elements f < c)"

fun slot_taken :: "parse_frame list \<Rightarrow> parse_frame list" where
  "slot_taken [] = []"
| "slot_taken (f # fs) = (if pf_object f then f else f\<lparr>pf_elements := pf_elements f + 1\<rparr>) # fs"

lemma length_slot_taken [simp]: "length (slot_taken fs) = length fs"
  by (cases fs) simp_all

locale document_guard =
  fixes step :: "parse_event \<Rightarrow> parse_guard \<Rightarrow> 'r" and run :: "parse_event list \<Rightarrow> parse_guard \<Rightarrow> 'r"
    and ok :: "parse_guard \<Rightarrow> 'r" and bad :: 'r and c d n_max kc :: nat
  assumes run_Nil: "run [] g = ok g"
    and run_ok: "step e g = ok g' \<Longrightarrow> run (e # es) g = run es g'"
    and run_bad: "step e g = bad \<Longrightarrow> run (e # es) g = bad"
    and run_append_ok: "run es g = ok g' \<Longrightarrow> run (es @ es') g = run es' g'"
    and run_append_bad: "run es g = bad \<Longrightarrow> run (es @ es') g = bad"
    and on_value: "step ValueEvent (n, fs) = (if n < n_max \<and> slot_open c fs then ok (n + 1, slot_taken fs) else bad)"
    and on_object: "length fs \<le> d \<Longrightarrow> step ObjectStart (n, fs) =
      (if n < n_max \<and> slot_open c fs \<and> length fs < d then ok (n + 1, frame_open True # slot_taken fs) else bad)"
    and on_array: "length fs \<le> d \<Longrightarrow> step ArrayStart (n, fs) =
      (if n < n_max \<and> slot_open c fs \<and> length fs < d then ok (n + 1, frame_open False # slot_taken fs) else bad)"
    and on_object_end: "pf_object f \<Longrightarrow> step ObjectEnd (n, f # fs) = ok (n, fs)"
    and on_array_end: "\<not> pf_object f \<Longrightarrow> step ArrayEnd (n, f # fs) = ok (n, fs)"
    and on_key: "pf_object f \<Longrightarrow> n \<le> n_max \<Longrightarrow> step (KeyEvent k) (n, f # fs) =
      (if pf_elements f < c \<and> n + kc \<le> n_max \<and> k \<notin> set (pf_keys f)
       then ok (n + kc, f\<lparr>pf_elements := pf_elements f + 1, pf_keys := k # pf_keys f\<rparr> # fs) else bad)"
begin

definition guarded :: "json \<Rightarrow> bool" where
  "guarded v \<longleftrightarrow> (\<forall>n fs. n \<le> n_max \<longrightarrow> length fs \<le> d \<longrightarrow>
     run (document_events v) (n, fs) =
       (if slot_open c fs \<and> n + document_cost kc v \<le> n_max \<and> document_within c (d - length fs) v
        then ok (n + document_cost kc v, slot_taken fs) else bad))"

lemma guardedD:
  "guarded v \<Longrightarrow> n \<le> n_max \<Longrightarrow> length fs \<le> d \<Longrightarrow>
   run (document_events v) (n, fs) =
     (if slot_open c fs \<and> n + document_cost kc v \<le> n_max \<and> document_within c (d - length fs) v
      then ok (n + document_cost kc v, slot_taken fs) else bad)"
  by (simp add: guarded_def)

lemma run_then:
  "run es g = (if P then ok g' else bad) \<Longrightarrow> run es' g' = ok g'' \<Longrightarrow>
   run (es @ es') g = (if P then ok g'' else bad)"
  by (cases P) (simp_all add: run_append_ok run_append_bad)

lemma guard_elements:
  assumes "\<And>x. x \<in> set xs \<Longrightarrow> guarded x" and "\<not> pf_object f" and "pf_elements f \<le> c"
    and "n \<le> n_max" and "length (f # fs) \<le> d"
  shows "run (concat (map document_events xs)) (n, f # fs) =
    (if pf_elements f + length xs \<le> c \<and> n + sum_list (map (document_cost kc) xs) \<le> n_max \<and>
        (\<forall>x \<in> set xs. document_within c (d - length (f # fs)) x)
     then ok (n + sum_list (map (document_cost kc) xs), f\<lparr>pf_elements := pf_elements f + length xs\<rparr> # fs)
     else bad)"
  using assms
proof (induction xs arbitrary: f n)
  case (Cons x xs)
  let ?f = "f\<lparr>pf_elements := pf_elements f + 1\<rparr>"
  have x: "run (document_events x) (n, f # fs) =
      (if pf_elements f < c \<and> n + document_cost kc x \<le> n_max \<and> document_within c (d - length (f # fs)) x
       then ok (n + document_cost kc x, ?f # fs) else bad)"
    using guardedD [of x n "f # fs"] Cons.prems by simp
  show ?case
  proof (cases "pf_elements f < c \<and> n + document_cost kc x \<le> n_max \<and> document_within c (d - length (f # fs)) x")
    case True
    have "run (concat (map document_events xs)) (n + document_cost kc x, ?f # fs) =
        (if pf_elements ?f + length xs \<le> c \<and>
            n + document_cost kc x + sum_list (map (document_cost kc) xs) \<le> n_max \<and>
            (\<forall>x \<in> set xs. document_within c (d - length (?f # fs)) x)
         then ok (n + document_cost kc x + sum_list (map (document_cost kc) xs),
           ?f\<lparr>pf_elements := pf_elements ?f + length xs\<rparr> # fs)
         else bad)"
      by (rule Cons.IH) (use Cons.prems True in auto)
    then show ?thesis using True x by (simp add: run_append_ok add.assoc)
  next
    case False
    then have "run (document_events x) (n, f # fs) = bad" using x by (simp only: if_False)
    then have "run (concat (map document_events (x # xs))) (n, f # fs) = bad" by (simp add: run_append_bad)
    then show ?thesis using False by auto
  qed
qed (simp add: run_Nil)

lemma guard_members:
  assumes "\<And>p. p \<in> set m \<Longrightarrow> guarded (snd p)" and "pf_object f" and "pf_elements f \<le> c"
    and "n \<le> n_max" and "length (f # fs) \<le> d"
  shows "run (concat (map (\<lambda>p. KeyEvent (fst p) # document_events (snd p)) m)) (n, f # fs) =
    (if pf_elements f + length m \<le> c \<and> n + sum_list (map (\<lambda>p. kc + document_cost kc (snd p)) m) \<le> n_max \<and>
        distinct (map fst m) \<and> set (map fst m) \<inter> set (pf_keys f) = {} \<and>
        (\<forall>p \<in> set m. document_within c (d - length (f # fs)) (snd p))
     then ok (n + sum_list (map (\<lambda>p. kc + document_cost kc (snd p)) m),
       f\<lparr>pf_elements := pf_elements f + length m, pf_keys := rev (map fst m) @ pf_keys f\<rparr> # fs)
     else bad)"
  using assms
proof (induction m arbitrary: f n)
  case (Cons p m)
  let ?f = "f\<lparr>pf_elements := pf_elements f + 1, pf_keys := fst p # pf_keys f\<rparr>"
  let ?step = "pf_elements f < c \<and> n + kc \<le> n_max \<and> fst p \<notin> set (pf_keys f)"
  let ?rest = "concat (map (\<lambda>p. KeyEvent (fst p) # document_events (snd p)) m)"
  have all: "concat (map (\<lambda>p. KeyEvent (fst p) # document_events (snd p)) (p # m)) =
      KeyEvent (fst p) # document_events (snd p) @ ?rest" by simp
  have key: "step (KeyEvent (fst p)) (n, f # fs) = (if ?step then ok (n + kc, ?f # fs) else bad)"
    using on_key [of f n "fst p" fs] Cons.prems(2,4) by simp
  have p: "run (document_events (snd p)) (n + kc, ?f # fs) =
      (if n + kc + document_cost kc (snd p) \<le> n_max \<and> document_within c (d - length (f # fs)) (snd p)
       then ok (n + kc + document_cost kc (snd p), ?f # fs) else bad)" if "?step"
    using guardedD [of "snd p" "n + kc" "?f # fs"] Cons.prems that by simp
  show ?case
  proof (cases "?step \<and> n + kc + document_cost kc (snd p) \<le> n_max \<and> document_within c (d - length (f # fs)) (snd p)")
    case True
    have "run ?rest (n + kc + document_cost kc (snd p), ?f # fs) =
        (if pf_elements ?f + length m \<le> c \<and>
            n + kc + document_cost kc (snd p) + sum_list (map (\<lambda>p. kc + document_cost kc (snd p)) m) \<le> n_max \<and>
            distinct (map fst m) \<and> set (map fst m) \<inter> set (pf_keys ?f) = {} \<and>
            (\<forall>p \<in> set m. document_within c (d - length (?f # fs)) (snd p))
         then ok (n + kc + document_cost kc (snd p) + sum_list (map (\<lambda>p. kc + document_cost kc (snd p)) m),
           ?f\<lparr>pf_elements := pf_elements ?f + length m, pf_keys := rev (map fst m) @ pf_keys ?f\<rparr> # fs)
         else bad)"
      by (rule Cons.IH) (use Cons.prems True in auto)
    moreover have "run (KeyEvent (fst p) # document_events (snd p) @ ?rest) (n, f # fs) =
        run ?rest (n + kc + document_cost kc (snd p), ?f # fs)"
      using True p by (subst run_ok [of _ _ "(n + kc, ?f # fs)"]) (simp_all add: key run_append_ok)
    ultimately show ?thesis unfolding all using True by (auto simp: add.assoc)
  next
    case False
    have "run (KeyEvent (fst p) # document_events (snd p) @ ?rest) (n, f # fs) = bad"
    proof (cases ?step)
      case True
      then have "run (document_events (snd p)) (n + kc, ?f # fs) = bad" using p False by auto
      then show ?thesis using True by (subst run_ok [of _ _ "(n + kc, ?f # fs)"]) (simp_all add: key run_append_bad)
    next
      case False
      then show ?thesis using key by (intro run_bad) (simp only: if_False)
    qed
    then show ?thesis unfolding all using False by auto
  qed
qed (simp add: run_Nil)

lemma guarded_array:
  assumes "\<And>x. x \<in> set xs \<Longrightarrow> guarded x"
  shows "guarded (JArray xs)"
  unfolding guarded_def
proof (intro allI impI)
  fix n and fs :: "parse_frame list" assume n: "n \<le> n_max" and fs: "length fs \<le> d"
  let ?t = "concat (map document_events xs)" and ?start = "n < n_max \<and> slot_open c fs \<and> length fs < d"
  let ?f = "frame_open False" and ?cost = "sum_list (map (document_cost kc) xs)"
  show "run (document_events (JArray xs)) (n, fs) =
      (if slot_open c fs \<and> n + document_cost kc (JArray xs) \<le> n_max \<and> document_within c (d - length fs) (JArray xs)
       then ok (n + document_cost kc (JArray xs), slot_taken fs) else bad)"
  proof (cases ?start)
    case True
    then have first: "run (document_events (JArray xs)) (n, fs) = run (?t @ [ArrayEnd]) (n + 1, ?f # slot_taken fs)"
      using on_array [OF fs, of n] by (simp add: run_ok)
    have mid: "run ?t (n + 1, ?f # slot_taken fs) =
        (if length xs \<le> c \<and> n + 1 + ?cost \<le> n_max \<and> (\<forall>x \<in> set xs. document_within c (d - length (?f # slot_taken fs)) x)
         then ok (n + 1 + ?cost, ?f\<lparr>pf_elements := length xs\<rparr> # slot_taken fs) else bad)"
      using guard_elements [of xs ?f "n + 1" "slot_taken fs"] assms True by simp
    have close: "run [ArrayEnd] (n + 1 + ?cost, ?f\<lparr>pf_elements := length xs\<rparr> # slot_taken fs) = ok (n + 1 + ?cost, slot_taken fs)"
      using on_array_end [of "?f\<lparr>pf_elements := length xs\<rparr>" "n + 1 + ?cost" "slot_taken fs"] by (simp add: run_ok run_Nil)
    show ?thesis unfolding first run_then [OF mid close] using True by (auto simp: add.assoc)
  next
    case False
    then have "run (document_events (JArray xs)) (n, fs) = bad" using on_array [OF fs, of n] by (auto intro!: run_bad)
    then show ?thesis using False by auto
  qed
qed

lemma guarded_object:
  assumes "\<And>p. p \<in> set m \<Longrightarrow> guarded (snd p)"
  shows "guarded (JObject m)"
  unfolding guarded_def
proof (intro allI impI)
  fix n and fs :: "parse_frame list" assume n: "n \<le> n_max" and fs: "length fs \<le> d"
  let ?t = "concat (map (\<lambda>p. KeyEvent (fst p) # document_events (snd p)) m)"
  let ?start = "n < n_max \<and> slot_open c fs \<and> length fs < d"
  let ?f = "frame_open True" and ?cost = "sum_list (map (\<lambda>p. kc + document_cost kc (snd p)) m)"
  show "run (document_events (JObject m)) (n, fs) =
      (if slot_open c fs \<and> n + document_cost kc (JObject m) \<le> n_max \<and> document_within c (d - length fs) (JObject m)
       then ok (n + document_cost kc (JObject m), slot_taken fs) else bad)"
  proof (cases ?start)
    case True
    then have first: "run (document_events (JObject m)) (n, fs) = run (?t @ [ObjectEnd]) (n + 1, ?f # slot_taken fs)"
      using on_object [OF fs, of n] by (simp add: run_ok)
    have mid: "run ?t (n + 1, ?f # slot_taken fs) =
        (if length m \<le> c \<and> n + 1 + ?cost \<le> n_max \<and> distinct (map fst m) \<and>
            (\<forall>p \<in> set m. document_within c (d - length (?f # slot_taken fs)) (snd p))
         then ok (n + 1 + ?cost, ?f\<lparr>pf_elements := length m, pf_keys := rev (map fst m)\<rparr> # slot_taken fs) else bad)"
      using guard_members [of m ?f "n + 1" "slot_taken fs"] assms True by simp
    have close: "run [ObjectEnd] (n + 1 + ?cost, ?f\<lparr>pf_elements := length m, pf_keys := rev (map fst m)\<rparr> # slot_taken fs) = ok (n + 1 + ?cost, slot_taken fs)"
      using on_object_end [of "?f\<lparr>pf_elements := length m, pf_keys := rev (map fst m)\<rparr>" "n + 1 + ?cost" "slot_taken fs"] by (simp add: run_ok run_Nil)
    show ?thesis unfolding first run_then [OF mid close] using True by (auto simp: add.assoc)
  next
    case False
    then have "run (document_events (JObject m)) (n, fs) = bad" using on_object [OF fs, of n] by (auto intro!: run_bad)
    then show ?thesis using False by auto
  qed
qed

lemma guarded_scalar: "document_events v = [ValueEvent] \<Longrightarrow> document_cost kc v = 1 \<Longrightarrow> document_within c k v \<Longrightarrow> guarded v"
  if "\<And>e. document_within c e v"
  using that on_value by (auto simp: guarded_def run_ok run_bad run_Nil)

lemma guarded_all: "guarded v"
proof (induction v rule: document_events.induct)
  case (1 xs)
  then show ?case by (rule guarded_array)
next
  case (2 m)
  then show ?case by (rule guarded_object) auto
qed (auto intro!: guarded_scalar)

lemma run_document:
  "run (document_events v) (0, []) =
     (if document_cost kc v \<le> n_max \<and> document_within c d v then ok (document_cost kc v, []) else bad)"
  using guardedD [OF guarded_all, of 0 "[]" v] by simp

end

end
