(* ===== verification/Thread_Protocol.thy ===== *)
theory Thread_Protocol
  imports Wotex_Document
begin

text \<open>
  The line protocol of the OpenThread host (\<open>protocol.hpp\<close>): the bounds on a parsed line, requests, owner
  control frames and replies.  The JSON parser is third-party code and the parameter \<open>parser\<close>, which throws
  where it has no value.  Using \<open>back()\<close> of an empty
  vector is \<open>Undefined\<close>.
\<close>

section \<open>Parsing a line\<close>

datatype protocol_error = ProtocolError

definition maximum_line :: nat where "maximum_line = 131072"
definition maximum_depth :: nat where "maximum_depth = 8"
definition maximum_collection :: nat where "maximum_collection = 1024"
definition maximum_nodes :: nat where "maximum_nodes = 4096"

lemmas thread_maxima = maximum_line_def maximum_depth_def maximum_collection_def maximum_nodes_def

fun guard_value :: "parse_guard \<Rightarrow> (protocol_error, parse_guard) outcome" where
  "guard_value (nodes, frames) =
     (if nodes + 1 > maximum_nodes then Thrown ProtocolError
      else case frames of
             [] \<Rightarrow> Returned (nodes + 1, frames)
           | f # rest \<Rightarrow>
               (if pf_object f then Returned (nodes + 1, frames)
                else if pf_elements f + 1 > maximum_collection then Thrown ProtocolError
                else Returned (nodes + 1, f\<lparr>pf_elements := pf_elements f + 1\<rparr> # rest)))"

definition guard_start :: "bool \<Rightarrow> parse_guard \<Rightarrow> (protocol_error, parse_guard) outcome" where
  "guard_start object g =
     (case guard_value g of
        Returned (nodes, frames) \<Rightarrow>
          (if length frames = maximum_depth then Thrown ProtocolError
           else Returned (nodes, \<lparr>pf_object = object, pf_elements = 0, pf_keys = []\<rparr> # frames))
      | other \<Rightarrow> other)"

fun guard_event :: "parse_event \<Rightarrow> parse_guard \<Rightarrow> (protocol_error, parse_guard) outcome" where
  "guard_event ObjectStart g = guard_start True g"
| "guard_event ArrayStart g = guard_start False g"
| "guard_event ObjectEnd (nodes, frames) =
     (case frames of [] \<Rightarrow> Undefined | f # rest \<Rightarrow> Returned (nodes, rest))"
| "guard_event ArrayEnd (nodes, frames) =
     (case frames of [] \<Rightarrow> Undefined | f # rest \<Rightarrow> Returned (nodes, rest))"
| "guard_event (KeyEvent k) (nodes, frames) =
     (case frames of
        [] \<Rightarrow> Undefined
      | f # rest \<Rightarrow>
          (if pf_elements f + 1 > maximum_collection \<or> k \<in> set (pf_keys f) then Thrown ProtocolError
           else Returned (nodes, f\<lparr>pf_elements := pf_elements f + 1, pf_keys := k # pf_keys f\<rparr> # rest)))"
| "guard_event ValueEvent g = guard_value g"

fun guard_run :: "parse_event list \<Rightarrow> parse_guard \<Rightarrow> (protocol_error, parse_guard) outcome" where
  "guard_run [] g = Returned g"
| "guard_run (e # es) g =
     (case guard_event e g of Returned g' \<Rightarrow> guard_run es g' | other \<Rightarrow> other)"

definition thread_parse_line :: "json_parser \<Rightarrow> string \<Rightarrow> (protocol_error, json) outcome" where
  "thread_parse_line parser line =
     (if line = [] \<or> length line > maximum_line \<or> last line \<noteq> CHR 0x0A \<or> CHR 0x0A \<in> set (butlast line)
      then Thrown ProtocolError
      else case guard_run (fst (parser line)) (0, []) of
             Thrown e \<Rightarrow> Thrown e
           | Undefined \<Rightarrow> Undefined
           | Returned _ \<Rightarrow>
               (case snd (parser line) of None \<Rightarrow> Thrown ProtocolError | Some v \<Rightarrow> Returned v))"

section \<open>Requests and control frames\<close>

abbreviation exact_keys :: "json \<Rightarrow> string list \<Rightarrow> bool" where
  "exact_keys \<equiv> json_exact"

text \<open>\<open>is_number_integer\<close> and the two comparisons with the bounds.\<close>

definition integer_between :: "json \<Rightarrow> int \<Rightarrow> int \<Rightarrow> bool" where
  "integer_between v a b \<longleftrightarrow>
     json_is_number_integer v \<and> \<not> json_integer_value v < a \<and> \<not> json_integer_value v > b"

definition bounded_string :: "json \<Rightarrow> nat \<Rightarrow> bool" where
  "bounded_string v maximum \<longleftrightarrow>
     json_is_string v \<and> json_text v \<noteq> [] \<and> length (json_text v) \<le> maximum \<and> CHR 0x00 \<notin> set (json_text v)"

record thread_request =
  tr_id :: string
  tr_operation :: string
  tr_parameters :: json
  tr_timeout_ms :: nat

definition request_from :: "json \<Rightarrow> protocol_error + thread_request" where
  "request_from v =
     (if \<not> exact_keys v [''version'', ''id'', ''operation'', ''parameters'', ''timeout_ms''] \<or>
         \<not> integer_between (json_at v ''version'') 1 1 \<or>
         \<not> bounded_string (json_at v ''id'') 128 \<or> \<not> bounded_string (json_at v ''operation'') 64 \<or>
         \<not> json_is_object (json_at v ''parameters'') \<or> \<not> integer_between (json_at v ''timeout_ms'') 1 60000
      then Inl ProtocolError
      else Inr \<lparr>tr_id = json_text (json_at v ''id''), tr_operation = json_text (json_at v ''operation''),
                tr_parameters = json_at v ''parameters'',
                tr_timeout_ms = nat (json_integer_value (json_at v ''timeout_ms''))\<rparr>)"

datatype flow_control =
    FlowOpen string
  | ReportAck string u64 u64

definition is_control_frame :: "json \<Rightarrow> bool" where
  "is_control_frame v \<longleftrightarrow> json_is_object v \<and> json_contains v ''event''"

definition generation_hex :: "json \<Rightarrow> bool" where
  "generation_hex v \<longleftrightarrow> json_is_string v \<and> hex_token (json_text v)"

definition unsigned_positive :: "json \<Rightarrow> bool" where
  "unsigned_positive v \<longleftrightarrow> (case v of JUnsigned n \<Rightarrow> n > 0 | _ \<Rightarrow> False)"

definition flow_control_from :: "json \<Rightarrow> protocol_error + flow_control" where
  "flow_control_from v =
     (if \<not> is_control_frame v \<or> \<not> json_contains v ''version'' \<or> \<not> integer_between (json_at v ''version'') 1 1
      then Inl ProtocolError
      else if exact_keys v [''version'', ''event'', ''session_generation''] \<and>
              json_at v ''event'' = JString ''flow_open'' \<and> generation_hex (json_at v ''session_generation'')
      then Inr (FlowOpen (json_text (json_at v ''session_generation'')))
      else if exact_keys v [''version'', ''event'', ''session_generation'', ''report_sequence'', ''acknowledged_bytes''] \<and>
              json_at v ''event'' = JString ''report_ack'' \<and> generation_hex (json_at v ''session_generation'') \<and>
              unsigned_positive (json_at v ''report_sequence'') \<and> unsigned_positive (json_at v ''acknowledged_bytes'')
      then Inr (ReportAck (json_text (json_at v ''session_generation''))
                  (nat (json_integer_value (json_at v ''report_sequence'')))
                  (nat (json_integer_value (json_at v ''acknowledged_bytes''))))
      else Inl ProtocolError)"

definition validate_inbound :: "json \<Rightarrow> protocol_error + unit" where
  "validate_inbound v =
     (if is_control_frame v
      then (case flow_control_from v of Inl e \<Rightarrow> Inl e | Inr _ \<Rightarrow> Inr ())
      else (case request_from v of Inl e \<Rightarrow> Inl e | Inr _ \<Rightarrow> Inr ()))"

definition thread_revision :: string where
  "thread_revision = ''f34c5e5476829d9205e80b37fccc2bdfe97e1dab''"

definition ready_frame :: json where
  "ready_frame = JObject [(''backend'', JString ''openthread''), (''event'', JString ''ready''),
     (''revision'', JString thread_revision), (''version'', JInt 1)]"

definition success_frame :: "thread_request \<Rightarrow> json \<Rightarrow> json" where
  "success_frame r res = JObject [(''id'', JString (tr_id r)), (''ok'', JBool True), (''result'', res),
     (''version'', JInt 1)]"

definition failure_frame :: "thread_request \<Rightarrow> string \<Rightarrow> json" where
  "failure_frame r code = JObject [(''error'', JObject [(''code'', JString code)]), (''id'', JString (tr_id r)),
     (''ok'', JBool False), (''version'', JInt 1)]"

section \<open>What a line may hold\<close>

definition document_ok :: "json \<Rightarrow> bool" where
  "document_ok v \<longleftrightarrow> document_cost 0 v \<le> maximum_nodes \<and> document_within maximum_collection maximum_depth v"

lemma guard_value_exact:
  "guard_value (n, fs) =
     (if n < maximum_nodes \<and> slot_open maximum_collection fs then Returned (n + 1, slot_taken fs) else Thrown ProtocolError)"
  by (cases fs) auto

declare guard_value.simps [simp del]

lemma guard_start_exact:
  "guard_start b (n, fs) =
     (if n < maximum_nodes \<and> slot_open maximum_collection fs \<and> length fs \<noteq> maximum_depth
      then Returned (n + 1, frame_open b # slot_taken fs) else Thrown ProtocolError)"
  by (auto simp: guard_start_def guard_value_exact)

lemma guard_run_append:
  "guard_run (es @ es') g = (case guard_run es g of Returned g' \<Rightarrow> guard_run es' g' | other \<Rightarrow> other)"
  by (induction es arbitrary: g) (auto split: outcome.splits)

interpretation thread_guard: document_guard guard_event guard_run Returned "Thrown ProtocolError"
  maximum_collection maximum_depth maximum_nodes 0
  by unfold_locales (auto simp: guard_value_exact guard_start_exact guard_run_append)

text \<open>
  For a parser that makes the calls of the document it reads, a line is accepted exactly when it is one
  whole line of at most 131072 bytes and its document has at most 4096 values, at most eight nested
  containers of at most 1024 elements each and no repeated name in an object; an empty stack is never used.
\<close>

theorem thread_parse_line_exact:
  assumes "parser line = (document_events document, Some tree)"
  shows "thread_parse_line parser line =
    (if line \<noteq> [] \<and> length line \<le> 131072 \<and> last line = CHR 0x0A \<and> CHR 0x0A \<notin> set (butlast line) \<and> document_ok document
     then Returned tree else Thrown ProtocolError)"
  using assms by (auto simp: thread_parse_line_def thread_guard.run_document document_ok_def maximum_line_def)

theorem thread_parse_line_exact_witness:
  "thread_parse_line (\<lambda>_. (document_events (JArray [JNull]), Some (JArray [JNull]))) (''[null]'' @ [CHR 0x0A]) =
     Returned (JArray [JNull])"
  by (subst thread_parse_line_exact [OF refl])
    (simp add: document_ok_def thread_maxima)

end
