(* ===== verification/Thread_Output.thy ===== *)
theory Thread_Output
  imports Wotex_Channel
begin

text \<open>
  The output of the OpenThread host (\<open>output.hpp\<close>): one order of frames, three reservations.  The answers of
  \<open>write\<close> are an input; \<open>std::size_t\<close> arithmetic is 64-bit.
\<close>

section \<open>Model\<close>

datatype thread_lane = ReplyLane | ControlLane | ReportLane

record lane_limit =
  ll_frames :: nat
  ll_frame_bytes :: nat
  ll_bytes :: nat

fun lane_limits :: "thread_lane \<Rightarrow> lane_limit" where
  "lane_limits ReplyLane = \<lparr>ll_frames = 64, ll_frame_bytes = 131072, ll_bytes = 8388608\<rparr>"
| "lane_limits ControlLane = \<lparr>ll_frames = 256, ll_frame_bytes = 4096, ll_bytes = 1048576\<rparr>"
| "lane_limits ReportLane = \<lparr>ll_frames = 64, ll_frame_bytes = 131072, ll_bytes = 1048576\<rparr>"

record lane_usage =
  lu_frames :: nat
  lu_bytes :: nat

datatype flush_state = FlushIdle | FlushPending | FlushFailed

record thread_output =
  to_frames :: "(thread_lane \<times> string) list"
  to_offset :: nat
  to_usage :: "thread_lane \<Rightarrow> lane_usage"
  to_maximum :: "thread_lane \<Rightarrow> lane_usage"

definition thread_output_init :: thread_output where
  "thread_output_init = \<lparr>to_frames = [], to_offset = 0, to_usage = (\<lambda>_. \<lparr>lu_frames = 0, lu_bytes = 0\<rparr>),
     to_maximum = (\<lambda>_. \<lparr>lu_frames = 0, lu_bytes = 0\<rparr>)\<rparr>"

definition push_ok :: "thread_lane \<Rightarrow> string \<Rightarrow> lane_usage \<Rightarrow> bool" where
  "push_ok lane frame usage \<longleftrightarrow>
     (let limit = lane_limits lane; bytes = length frame + 1
      in \<not> (frame = [] \<or> CHR 0x0A \<in> set frame \<or> bytes > ll_frame_bytes limit \<or>
             lu_frames usage = ll_frames limit \<or> bytes > sub64 (ll_bytes limit) (lu_bytes usage)))"

definition thread_push :: "thread_lane \<Rightarrow> string \<Rightarrow> thread_output \<Rightarrow> bool \<times> thread_output" where
  "thread_push lane frame s =
     (let usage = to_usage s lane; bytes = length frame + 1
      in if \<not> push_ok lane frame usage then (False, s)
         else let usage' = \<lparr>lu_frames = lu_frames usage + 1, lu_bytes = lu_bytes usage + bytes\<rparr>;
                  top = to_maximum s lane
              in (True, s\<lparr>to_frames := to_frames s @ [(lane, frame @ [CHR 0x0A])],
                          to_usage := (to_usage s)(lane := usage'),
                          to_maximum := (to_maximum s)(lane :=
                            \<lparr>lu_frames = (if lu_frames usage' > lu_frames top then lu_frames usage' else lu_frames top),
                             lu_bytes = (if lu_bytes usage' > lu_bytes top then lu_bytes usage' else lu_bytes top)\<rparr>)\<rparr>))"

text \<open>\<open>pop_front\<close> with its accounting.\<close>

definition thread_pop :: "thread_lane \<Rightarrow> string \<Rightarrow> (thread_lane \<Rightarrow> lane_usage) \<Rightarrow> thread_lane \<Rightarrow> lane_usage" where
  "thread_pop lane bytes usage =
     usage(lane := \<lparr>lu_frames = sub64 (lu_frames (usage lane)) 1,
                     lu_bytes = sub64 (lu_bytes (usage lane)) (length bytes)\<rparr>)"

text \<open>The loop of \<open>flush\<close>: its result, the bytes the descriptor took and the next state.\<close>

fun thread_flush_loop ::
  "descriptor \<Rightarrow> nat \<Rightarrow> (thread_lane \<times> string) list \<Rightarrow> thread_output \<Rightarrow> flush_state \<times> string \<times> thread_output" where
  "thread_flush_loop fd n [] s = (FlushIdle, [], s\<lparr>to_frames := []\<rparr>)"
| "thread_flush_loop fd n ((lane, bytes) # rest) s =
     (case fd n (drop (to_offset s) bytes) of
        Interrupted \<Rightarrow> (FlushPending, [], s\<lparr>to_frames := (lane, bytes) # rest\<rparr>)
      | WouldBlock \<Rightarrow> (FlushPending, [], s\<lparr>to_frames := (lane, bytes) # rest\<rparr>)
      | WriteFailed \<Rightarrow> (FlushFailed, [], s\<lparr>to_frames := (lane, bytes) # rest\<rparr>)
      | Wrote k \<Rightarrow>
          (let written = take k (drop (to_offset s) bytes); s1 = s\<lparr>to_offset := to_offset s + k\<rparr>
           in if to_offset s1 < length bytes then (FlushPending, written, s1\<lparr>to_frames := (lane, bytes) # rest\<rparr>)
              else let (r, more, s2) = thread_flush_loop fd (n + 1) rest
                         (s1\<lparr>to_usage := thread_pop lane bytes (to_usage s1), to_offset := 0\<rparr>)
                   in (r, written @ more, s2)))"

definition thread_flush :: "descriptor \<Rightarrow> thread_output \<Rightarrow> flush_state \<times> string \<times> thread_output" where
  "thread_flush fd s = thread_flush_loop fd 0 (to_frames s) s"

datatype thread_out_action = Push thread_lane string | Flush descriptor

fun thread_out_step :: "thread_out_action \<Rightarrow> thread_output \<Rightarrow> string \<times> string \<times> thread_output" where
  "thread_out_step (Push lane frame) s =
     (let (ok, s') = thread_push lane frame s in (if ok then frame @ [CHR 0x0A] else [], [], s'))"
| "thread_out_step (Flush fd) s = (let (r, written, s') = thread_flush fd s in ([], written, s'))"

fun thread_out_allowed :: "thread_out_action \<Rightarrow> bool" where
  "thread_out_allowed (Push lane frame) = True"
| "thread_out_allowed (Flush fd) = descriptor_ok fd"

section \<open>Invariant\<close>

definition thread_owed :: "thread_output \<Rightarrow> string" where
  "thread_owed s = drop (to_offset s) (concat (map snd (to_frames s)))"

definition usage_bytes :: "thread_lane \<Rightarrow> (thread_lane \<times> string) list \<Rightarrow> nat list" where
  "usage_bytes lane fs = map (\<lambda>f. length (snd f)) (filter (\<lambda>f. fst f = lane) fs)"

lemma usage_bytes_simps [simp]:
  "usage_bytes lane [] = []"
  "usage_bytes lane (f # fs) = (if fst f = lane then length (snd f) # usage_bytes lane fs else usage_bytes lane fs)"
  "usage_bytes lane (fs @ gs) = usage_bytes lane fs @ usage_bytes lane gs"
  by (simp_all add: usage_bytes_def)

definition thread_usage_ok :: "(thread_lane \<times> string) list \<Rightarrow> (thread_lane \<Rightarrow> lane_usage) \<Rightarrow> bool" where
  "thread_usage_ok fs usage \<longleftrightarrow> (\<forall>lane.
     lu_frames (usage lane) = length (usage_bytes lane fs) \<and> lu_bytes (usage lane) = sum_list (usage_bytes lane fs) \<and>
     length (usage_bytes lane fs) \<le> ll_frames (lane_limits lane) \<and>
     sum_list (usage_bytes lane fs) \<le> ll_bytes (lane_limits lane))"

definition thread_lines :: "(thread_lane \<times> string) list \<Rightarrow> bool" where
  "thread_lines fs \<longleftrightarrow> (\<forall>f \<in> set fs. snd f \<noteq> [] \<and> last (snd f) = CHR 0x0A \<and> CHR 0x0A \<notin> set (butlast (snd f)))"

definition thread_offset_ok :: "nat \<Rightarrow> (thread_lane \<times> string) list \<Rightarrow> bool" where
  "thread_offset_ok offset fs \<longleftrightarrow> (case fs of [] \<Rightarrow> offset = 0 | f # _ \<Rightarrow> offset < length (snd f))"

definition thread_output_inv :: "thread_output \<Rightarrow> bool" where
  "thread_output_inv s \<longleftrightarrow>
     thread_usage_ok (to_frames s) (to_usage s) \<and> thread_lines (to_frames s) \<and>
     thread_offset_ok (to_offset s) (to_frames s) \<and>
     (\<forall>lane. lu_frames (to_maximum s lane) \<le> ll_frames (lane_limits lane) \<and>
             lu_bytes (to_maximum s lane) \<le> ll_bytes (lane_limits lane))"

lemma lane_limits_u64: "ll_bytes (lane_limits lane) \<le> u64_max" "ll_frames (lane_limits lane) \<le> u64_max"
  by (cases lane; simp add: u64_max_def)+

lemma thread_output_init_inv: "thread_output_inv thread_output_init"
  by (simp add: thread_output_inv_def thread_output_init_def thread_usage_ok_def thread_lines_def thread_offset_ok_def)

lemma push_ok_exact:
  assumes "lu_bytes usage \<le> ll_bytes (lane_limits lane)" and "lu_frames usage \<le> ll_frames (lane_limits lane)"
  shows "push_ok lane frame usage \<longleftrightarrow> frame \<noteq> [] \<and> CHR 0x0A \<notin> set frame \<and>
    length frame + 1 \<le> ll_frame_bytes (lane_limits lane) \<and> lu_frames usage < ll_frames (lane_limits lane) \<and>
    lu_bytes usage + (length frame + 1) \<le> ll_bytes (lane_limits lane)"
  using assms lane_limits_u64 [of lane] by (auto simp: push_ok_def Let_def u64)

lemma thread_usageD:
  assumes "thread_usage_ok fs usage"
  shows "lu_frames (usage lane) = length (usage_bytes lane fs)" "lu_bytes (usage lane) = sum_list (usage_bytes lane fs)"
    "lu_frames (usage lane) \<le> ll_frames (lane_limits lane)" "lu_bytes (usage lane) \<le> ll_bytes (lane_limits lane)"
  using assms by (auto simp: thread_usage_ok_def)

lemma thread_push_inv:
  assumes inv: "thread_output_inv s"
  shows "thread_output_inv (snd (thread_push lane frame s))"
proof (cases "push_ok lane frame (to_usage s lane)")
  case True
  have usage: "thread_usage_ok (to_frames s) (to_usage s)" using inv by (simp add: thread_output_inv_def)
  then have fit: "frame \<noteq> []" "CHR 0x0A \<notin> set frame" "lu_frames (to_usage s lane) < ll_frames (lane_limits lane)"
    "lu_bytes (to_usage s lane) + (length frame + 1) \<le> ll_bytes (lane_limits lane)"
    using True push_ok_exact [OF thread_usageD(4,3) [OF usage, of lane]] by blast+
  have "thread_usage_ok (to_frames s @ [(lane, frame @ [CHR 0x0A])])
      ((to_usage s)(lane := \<lparr>lu_frames = lu_frames (to_usage s lane) + 1,
        lu_bytes = lu_bytes (to_usage s lane) + (length frame + 1)\<rparr>))"
    using usage fit by (simp add: thread_usage_ok_def)
  moreover have "thread_lines (to_frames s @ [(lane, frame @ [CHR 0x0A])])"
    using inv fit by (auto simp: thread_output_inv_def thread_lines_def)
  moreover have "thread_offset_ok (to_offset s) (to_frames s @ [(lane, frame @ [CHR 0x0A])])"
    using inv by (auto simp: thread_output_inv_def thread_offset_ok_def split: list.splits)
  ultimately show ?thesis
    using True inv fit by (simp add: thread_push_def Let_def thread_output_inv_def)
qed (use inv in \<open>simp add: thread_push_def Let_def\<close>)

lemma thread_push_bytes:
  assumes "thread_output_inv s" and "thread_push lane frame s = (ok, s')"
  shows "thread_owed s' = thread_owed s @ (if ok then frame @ [CHR 0x0A] else [])"
proof -
  have "to_offset s \<le> length (concat (map snd (to_frames s)))"
    using assms(1) by (auto simp: thread_output_inv_def thread_offset_ok_def split: list.splits)
  then show ?thesis using assms(2) by (auto simp: thread_push_def thread_owed_def Let_def split: if_splits)
qed

lemma thread_pop_ok:
  assumes "thread_usage_ok ((lane, bytes) # fs) usage"
  shows "thread_usage_ok fs (thread_pop lane bytes usage)"
proof -
  note lane = thread_usageD [OF assms, of lane]
  have max: "lu_frames (usage lane) \<le> u64_max" "lu_bytes (usage lane) \<le> u64_max"
    using lane(3,4) lane_limits_u64 [of lane] by linarith+
  have "sub64 (lu_frames (usage lane)) 1 = length (usage_bytes lane fs)"
    "sub64 (lu_bytes (usage lane)) (length bytes) = sum_list (usage_bytes lane fs)"
    using max lane(1,2) sub64_exact [of 1 "lu_frames (usage lane)"] sub64_exact [of "length bytes" "lu_bytes (usage lane)"]
    by simp_all
  then have pop: "thread_pop lane bytes usage = usage(lane := \<lparr>lu_frames = length (usage_bytes lane fs),
      lu_bytes = sum_list (usage_bytes lane fs)\<rparr>)"
    by (simp add: thread_pop_def)
  show ?thesis unfolding thread_usage_ok_def
  proof
    fix l
    show "lu_frames (thread_pop lane bytes usage l) = length (usage_bytes l fs) \<and>
        lu_bytes (thread_pop lane bytes usage l) = sum_list (usage_bytes l fs) \<and>
        length (usage_bytes l fs) \<le> ll_frames (lane_limits l) \<and> sum_list (usage_bytes l fs) \<le> ll_bytes (lane_limits l)"
      using thread_usageD [OF assms, of l] by (cases "l = lane") (simp_all add: pop)
  qed
qed

lemma thread_flush_loop_ok:
  assumes "descriptor_ok fd" and "thread_flush_loop fd n fs s = (r, written, s')"
    and "thread_output_inv (s\<lparr>to_frames := fs\<rparr>)"
  shows "thread_output_inv s' \<and> written @ thread_owed s' = drop (to_offset s) (concat (map snd fs))"
  using assms
proof (induction fd n fs s arbitrary: r written s' rule: thread_flush_loop.induct)
  case (1 fd n s)
  then show ?case by (auto simp: thread_owed_def)
next
  case (2 fd n lane bytes rest s)
  have inv: "thread_usage_ok ((lane, bytes) # rest) (to_usage s)" "thread_lines ((lane, bytes) # rest)"
    "to_offset s < length bytes"
    using "2.prems"(3) by (simp_all add: thread_output_inv_def thread_offset_ok_def)
  show ?case
  proof (cases "fd n (drop (to_offset s) bytes)")
    case (Wrote k)
    let ?written = "take k (drop (to_offset s) bytes)"
    let ?s1 = "s\<lparr>to_offset := to_offset s + k\<rparr>"
    have k: "to_offset s + k \<le> length bytes"
      using descriptor_okD [OF "2.prems"(1) Wrote] inv(3) by simp
    show ?thesis
    proof (cases "to_offset s + k < length bytes")
      case True
      then have "s' = ?s1\<lparr>to_frames := (lane, bytes) # rest\<rparr>" "written = ?written"
        using "2.prems"(2) Wrote by simp_all
      moreover have "thread_output_inv (?s1\<lparr>to_frames := (lane, bytes) # rest\<rparr>)"
        using "2.prems"(3) True by (simp add: thread_output_inv_def thread_offset_ok_def)
      moreover have "?written @ drop (to_offset s + k) bytes = drop (to_offset s) bytes"
        by (metis add.commute append_take_drop_id drop_drop)
      ultimately show ?thesis using inv(3) True by (simp add: thread_owed_def)
    next
      case False
      let ?s2 = "?s1\<lparr>to_usage := thread_pop lane bytes (to_usage ?s1), to_offset := 0\<rparr>"
      obtain r2 more s2 where run: "thread_flush_loop fd (n + 1) rest ?s2 = (r2, more, s2)"
        by (cases "thread_flush_loop fd (n + 1) rest ?s2") auto
      have inv2: "thread_output_inv (?s2\<lparr>to_frames := rest\<rparr>)"
        using "2.prems"(3) thread_pop_ok [OF inv(1)] inv(2)
        by (auto simp: thread_output_inv_def thread_lines_def thread_offset_ok_def split: list.splits)
      have "thread_output_inv s2 \<and> more @ thread_owed s2 = concat (map snd rest)"
        using "2.IH" [OF Wrote refl refl _ "2.prems"(1) run] False inv2 by simp
      moreover have "s' = s2" "written = ?written @ more" using "2.prems"(2) Wrote False run by simp_all
      moreover have "?written = drop (to_offset s) bytes" using False k by simp
      ultimately show ?thesis using inv(3) by simp
    qed
  next
    case Interrupted
    then have "s' = s\<lparr>to_frames := (lane, bytes) # rest\<rparr>" "written = []" using "2.prems"(2) by simp_all
    then show ?thesis using "2.prems"(3) by (simp add: thread_owed_def)
  next
    case WouldBlock
    then have "s' = s\<lparr>to_frames := (lane, bytes) # rest\<rparr>" "written = []" using "2.prems"(2) by simp_all
    then show ?thesis using "2.prems"(3) by (simp add: thread_owed_def)
  next
    case WriteFailed
    then have "s' = s\<lparr>to_frames := (lane, bytes) # rest\<rparr>" "written = []" using "2.prems"(2) by simp_all
    then show ?thesis using "2.prems"(3) by (simp add: thread_owed_def)
  qed
qed

lemma thread_out_step_channel:
  assumes inv: "thread_output_inv s" and ok: "thread_out_allowed a" and run: "thread_out_step a s = (acc, wr, s')"
  shows "thread_output_inv s' \<and> wr @ thread_owed s' = thread_owed s @ acc"
proof (cases a)
  case (Push lane frame)
  obtain b t where p: "thread_push lane frame s = (b, t)" by (cases "thread_push lane frame s")
  then show ?thesis using run Push thread_push_inv [OF inv, of lane frame] thread_push_bytes [OF inv p] by auto
next
  case (Flush fd)
  obtain r w t where f: "thread_flush fd s = (r, w, t)" by (cases "thread_flush fd s") auto
  have "thread_output_inv t \<and> w @ thread_owed t = thread_owed s"
    using thread_flush_loop_ok [OF _ f [unfolded thread_flush_def]] ok inv Flush by (simp add: thread_owed_def)
  then show ?thesis using run Flush f by simp
qed

interpretation thread_out: byte_channel thread_out_step thread_output_inv thread_out_allowed thread_owed
  by unfold_locales (use thread_out_step_channel in blast)+

section \<open>Properties\<close>

text \<open>
  Over any sequence of pushes and flushes with any answers of the descriptor, the bytes written followed
  by the bytes still owed are exactly the accepted frames, each with its newline, in the order they were
  accepted.
\<close>

theorem thread_output_fifo:
  assumes "list_all thread_out_allowed as" and "channel_run thread_out_step as thread_output_init = (acc, wr, s)"
  shows "wr @ thread_owed s = acc"
  using thread_out.run_channel [OF thread_output_init_inv assms] by (simp add: thread_owed_def thread_output_init_def)

definition halting :: descriptor where
  "halting n data = (if n = 0 then Wrote (min 2 (length data)) else WouldBlock)"

theorem thread_output_fifo_witness:
  "let (acc, wr, s) = channel_run thread_out_step [Push ReportLane ''hi'', Flush halting] thread_output_init
   in acc = ''hi'' @ [CHR 0x0A] \<and> wr = ''hi'' \<and> wr @ thread_owed s = acc"
proof -
  let ?as = "[Push ReportLane ''hi'', Flush halting]"
  obtain acc wr s where run: "channel_run thread_out_step ?as thread_output_init = (acc, wr, s)"
    by (cases "channel_run thread_out_step ?as thread_output_init") auto
  have "list_all thread_out_allowed ?as" by (simp add: descriptor_ok_def halting_def)
  from thread_output_fifo [OF this run] have "wr @ thread_owed s = acc" .
  moreover have "acc = ''hi'' @ [CHR 0x0A]" "wr = ''hi''"
    using run by (auto simp: thread_push_def push_ok_def thread_output_init_def thread_flush_def halting_def
        sub64_def u64_max_def Let_def)
  ultimately show ?thesis using run by simp
qed

text \<open>
  Each lane keeps its own reservation over any sequence of calls: its usage is exactly the frames and bytes
  of its frames that are not wholly written, within the limits of the lane, and a frame is accepted exactly
  when it is one line and fits what is left of its own lane, whatever the other lanes hold.
\<close>

theorem thread_output_reserved:
  assumes "list_all thread_out_allowed as"
    and "s = run_actions (\<lambda>a s. snd (snd (thread_out_step a s))) as thread_output_init"
  shows "lu_frames (to_usage s lane) = length (usage_bytes lane (to_frames s)) \<and>
    lu_bytes (to_usage s lane) = sum_list (usage_bytes lane (to_frames s)) \<and>
    lu_frames (to_usage s lane) \<le> ll_frames (lane_limits lane) \<and>
    lu_bytes (to_usage s lane) \<le> ll_bytes (lane_limits lane) \<and>
    (fst (thread_push lane frame s) \<longleftrightarrow> frame \<noteq> [] \<and> CHR 0x0A \<notin> set frame \<and>
      length frame + 1 \<le> ll_frame_bytes (lane_limits lane) \<and>
      length (usage_bytes lane (to_frames s)) < ll_frames (lane_limits lane) \<and>
      sum_list (usage_bytes lane (to_frames s)) + length frame + 1 \<le> ll_bytes (lane_limits lane))"
proof -
  have "thread_output_inv s" unfolding assms(2) by (rule thread_out.run_inv [OF thread_output_init_inv assms(1)])
  then have usage: "thread_usage_ok (to_frames s) (to_usage s)" by (simp add: thread_output_inv_def)
  have "fst (thread_push lane frame s) \<longleftrightarrow> push_ok lane frame (to_usage s lane)"
    by (simp add: thread_push_def Let_def)
  then show ?thesis
    using push_ok_exact [OF thread_usageD(4,3) [OF usage, of lane]] thread_usageD [OF usage, of lane] by simp
qed

theorem thread_output_reserved_witness:
  "fst (thread_push ControlLane ''ok'' (run_actions (\<lambda>a s. snd (snd (thread_out_step a s))) [] thread_output_init))"
proof -
  have "list_all thread_out_allowed []" by simp
  from thread_output_reserved [OF this refl, of ControlLane "''ok''"] show ?thesis
    by (simp add: thread_output_init_def)
qed

end
