(* ===== verification/Thread_Flow.thy ===== *)
theory Thread_Flow
  imports Wotex_Channel
begin

text \<open>
  The report flow of the OpenThread host (\<open>flow.hpp\<close>): frame and byte credit for one session, with the queue
  of reports that wait for credit.  The two writers are functions of the caller with an effect on the caller's
  state, the field \<open>rf_world\<close>; an encoder is a function from the assigned sequence number to the frame.
  Dereferencing an iterator that is the end of the map is \<open>None\<close>.
\<close>

section \<open>Model\<close>

definition session_report_frames :: nat where "session_report_frames = 64"
definition session_report_bytes :: nat where "session_report_bytes = 1048576"
definition stream_report_frames :: nat where "stream_report_frames = 16"
definition queued_report_frames :: nat where "queued_report_frames = 64"
definition queued_report_bytes :: nat where "queued_report_bytes = 1048576"
definition maximum_report_line :: nat where "maximum_report_line = 131072"
definition maximum_queue_limit :: nat where "maximum_queue_limit = 10000"
definition maximum_live_streams :: nat where "maximum_live_streams = 64"

lemmas flow_limits = session_report_frames_def session_report_bytes_def stream_report_frames_def
  queued_report_frames_def queued_report_bytes_def maximum_report_line_def maximum_queue_limit_def
  maximum_live_streams_def u64_max_def

type_synonym flow_key = "string \<times> u64"
type_synonym encoder = "u64 \<Rightarrow> string"
type_synonym 'w writer = "'w \<Rightarrow> string \<Rightarrow> bool \<times> 'w"

datatype flow_submission = Transmitted | Queued | Overflow | Failed

record flow_stream =
  fs_queue_limit :: nat
  fs_outstanding :: nat
  fs_queued :: nat
  fs_last_sequence :: u64
  fs_live :: bool

record flow_record =
  fr_key :: flow_key
  fr_sequence :: u64
  fr_bytes :: nat
  fr_cumulative :: u64

record flow_pending =
  fp_key :: flow_key
  fp_encode :: encoder
  fp_reserved :: nat

record flow_maximum =
  fm_queued :: nat
  fm_queued_bytes :: nat
  fm_outstanding :: nat
  fm_outstanding_bytes :: nat

record 'w report_flow =
  rf_session :: string
  rf_streams :: "(flow_key \<times> flow_stream) list"
  rf_outstanding :: "flow_record list"
  rf_queued :: "flow_pending list"
  rf_next :: u64
  rf_acknowledged :: u64
  rf_transmitted :: u64
  rf_outstanding_bytes :: nat
  rf_queued_bytes :: nat
  rf_live :: nat
  rf_maximum :: flow_maximum
  rf_failed :: bool
  rf_world :: 'w

definition flow_init :: "string \<Rightarrow> 'w \<Rightarrow> 'w report_flow" where
  "flow_init session w =
     \<lparr>rf_session = session, rf_streams = [], rf_outstanding = [], rf_queued = [], rf_next = 1, rf_acknowledged = 0,
      rf_transmitted = 0, rf_outstanding_bytes = 0, rf_queued_bytes = 0, rf_live = 0,
      rf_maximum = \<lparr>fm_queued = 0, fm_queued_bytes = 0, fm_outstanding = 0, fm_outstanding_bytes = 0\<rparr>,
      rf_failed = False, rf_world = w\<rparr>"

definition session_generation :: "string \<Rightarrow> bool" where
  "session_generation v \<longleftrightarrow> length v = 32 \<and> list_all hex_char v"

definition flow_add_stream :: "string \<Rightarrow> u64 \<Rightarrow> nat \<Rightarrow> 'w report_flow \<Rightarrow> bool \<times> 'w report_flow" where
  "flow_add_stream subscription generation queue_limit s =
     (if rf_failed s \<or> subscription = [] \<or> length subscription > 64 \<or> generation = 0 \<or> queue_limit = 0 \<or>
         queue_limit > maximum_queue_limit \<or> rf_live s \<ge> maximum_live_streams \<or>
         omap_has (subscription, generation) (rf_streams s)
      then (False, s)
      else (True, s\<lparr>rf_streams := omap_put (subscription, generation)
                      \<lparr>fs_queue_limit = queue_limit, fs_outstanding = 0, fs_queued = 0, fs_last_sequence = 0,
                       fs_live = True\<rparr> (rf_streams s),
                    rf_live := add64 (rf_live s) 1\<rparr>))"

definition flow_live :: "string \<Rightarrow> u64 \<Rightarrow> 'w report_flow \<Rightarrow> bool" where
  "flow_live subscription generation s =
     (case map_of (rf_streams s) (subscription, generation) of None \<Rightarrow> False | Some st \<Rightarrow> fs_live st)"

definition flow_available :: "flow_stream \<Rightarrow> 'w report_flow \<Rightarrow> bool" where
  "flow_available st s \<longleftrightarrow>
     length (rf_outstanding s) < session_report_frames \<and>
     fs_outstanding st < min stream_report_frames (fs_queue_limit st)"

definition flow_halt :: "'w report_flow \<Rightarrow> 'w report_flow" where
  "flow_halt s = s\<lparr>rf_failed := True\<rparr>"

definition flow_transmit ::
  "'w writer \<Rightarrow> flow_key \<Rightarrow> flow_stream \<Rightarrow> string \<Rightarrow> 'w report_flow \<Rightarrow> bool \<times> 'w report_flow" where
  "flow_transmit report key st frame s =
     (let bytes = length frame + 1
      in if rf_next s = u64_max \<or> bytes > u64_max - rf_transmitted s then (False, s)
         else let (ok, w) = report (rf_world s) frame; s1 = s\<lparr>rf_world := w\<rparr>
         in if \<not> ok then (False, s1)
            else let sent = add64 (rf_transmitted s1) bytes;
                     records = rf_outstanding s1 @
                       [\<lparr>fr_key = key, fr_sequence = rf_next s1, fr_bytes = bytes, fr_cumulative = sent\<rparr>];
                     total = add64 (rf_outstanding_bytes s1) bytes;
                     top = rf_maximum s1
                 in (True, s1\<lparr>rf_transmitted := sent, rf_outstanding := records, rf_outstanding_bytes := total,
                       rf_maximum := top\<lparr>fm_outstanding := max (fm_outstanding top) (length records),
                                          fm_outstanding_bytes := max (fm_outstanding_bytes top) total\<rparr>,
                       rf_next := add64 (rf_next s1) 1,
                       rf_streams := omap_put key (st\<lparr>fs_last_sequence := rf_next s1,
                                       fs_outstanding := add64 (fs_outstanding st) 1\<rparr>) (rf_streams s1)\<rparr>))"

text \<open>The second half of \<open>submit\<close>: the queue.\<close>

definition flow_enqueue ::
  "flow_key \<Rightarrow> flow_stream \<Rightarrow> encoder \<Rightarrow> 'w report_flow \<Rightarrow> flow_submission \<times> 'w report_flow" where
  "flow_enqueue key st encode s =
     (let reserved = length (encode u64_max) + 1
      in if reserved < 2 \<or> reserved > maximum_report_line \<or> length (rf_queued s) \<ge> queued_report_frames \<or>
            reserved > sub64 queued_report_bytes (rf_queued_bytes s) \<or> fs_queued st \<ge> fs_queue_limit st
         then (Overflow, s)
         else let queue = rf_queued s @ [\<lparr>fp_key = key, fp_encode = encode, fp_reserved = reserved\<rparr>];
                  total = add64 (rf_queued_bytes s) reserved; top = rf_maximum s
              in (Queued, s\<lparr>rf_queued := queue, rf_queued_bytes := total,
                    rf_maximum := top\<lparr>fm_queued := max (fm_queued top) (length queue),
                                       fm_queued_bytes := max (fm_queued_bytes top) total\<rparr>,
                    rf_streams := omap_put key (st\<lparr>fs_queued := add64 (fs_queued st) 1\<rparr>) (rf_streams s)\<rparr>))"

definition flow_submit ::
  "'w writer \<Rightarrow> string \<Rightarrow> u64 \<Rightarrow> encoder \<Rightarrow> 'w report_flow \<Rightarrow> flow_submission \<times> 'w report_flow" where
  "flow_submit report subscription generation encode s =
     (let key = (subscription, generation)
      in case map_of (rf_streams s) key of
           None \<Rightarrow> (Failed, s)
         | Some st \<Rightarrow>
             (if rf_failed s \<or> \<not> fs_live st then (Failed, s)
              else if fs_queued st = 0 \<and> flow_available st s
              then (let frame = encode (rf_next s)
                    in if frame = [] \<or> length frame \<ge> maximum_report_line then (Overflow, s)
                       else if length frame + 1 \<le> sub64 session_report_bytes (rf_outstanding_bytes s)
                       then (let (ok, s') = flow_transmit report key st frame s
                             in if ok then (Transmitted, s') else (Failed, flow_halt s'))
                       else flow_enqueue key st encode s)
              else flow_enqueue key st encode s))"

text \<open>
  The loop of \<open>drain\<close>: \<open>kept\<close> are the entries the iterator passed, the list argument the ones before it; the
  answer is \<open>drain\<close>'s.
\<close>

fun flow_drain_loop ::
  "'w writer \<Rightarrow> flow_pending list \<Rightarrow> flow_pending list \<Rightarrow> 'w report_flow \<Rightarrow> (bool \<times> 'w report_flow) option" where
  "flow_drain_loop report kept [] s = Some (True, s\<lparr>rf_queued := kept\<rparr>)"
| "flow_drain_loop report kept (p # rest) s =
     (if \<exists>q \<in> set kept. fp_key q = fp_key p then flow_drain_loop report (kept @ [p]) rest s
      else case map_of (rf_streams s) (fp_key p) of
             None \<Rightarrow> None
           | Some st \<Rightarrow>
               (if \<not> flow_available st s then flow_drain_loop report (kept @ [p]) rest s
                else let frame = fp_encode p (rf_next s)
                in if frame = [] \<or> length frame + 1 > fp_reserved p
                   then Some (False, flow_halt (s\<lparr>rf_queued := kept @ p # rest\<rparr>))
                   else if length frame + 1 > sub64 session_report_bytes (rf_outstanding_bytes s)
                   then flow_drain_loop report (kept @ [p]) rest s
                   else let st' = st\<lparr>fs_queued := sub64 (fs_queued st) 1\<rparr>;
                            s1 = s\<lparr>rf_queued_bytes := sub64 (rf_queued_bytes s) (fp_reserved p),
                                   rf_streams := omap_put (fp_key p) st' (rf_streams s)\<rparr>;
                            (ok, s2) = flow_transmit report (fp_key p) st' frame s1
                        in if ok then flow_drain_loop report kept rest s2
                           else Some (False, flow_halt (s2\<lparr>rf_queued := kept @ rest\<rparr>))))"

definition flow_drain :: "'w writer \<Rightarrow> 'w report_flow \<Rightarrow> (bool \<times> 'w report_flow) option" where
  "flow_drain report s = flow_drain_loop report [] (rf_queued s) s"

text \<open>The \<open>while\<close> of \<open>acknowledge\<close>.\<close>

fun flow_release :: "u64 \<Rightarrow> flow_record list \<Rightarrow> 'w report_flow \<Rightarrow> 'w report_flow option" where
  "flow_release sequence [] s = Some (s\<lparr>rf_outstanding := []\<rparr>)"
| "flow_release sequence (r # rs) s =
     (if \<not> fr_sequence r \<le> sequence then Some (s\<lparr>rf_outstanding := r # rs\<rparr>)
      else case map_of (rf_streams s) (fr_key r) of
             None \<Rightarrow> None
           | Some st \<Rightarrow>
               (let st' = st\<lparr>fs_outstanding := sub64 (fs_outstanding st) 1\<rparr>
                in flow_release sequence rs
                     (s\<lparr>rf_outstanding_bytes := sub64 (rf_outstanding_bytes s) (fr_bytes r),
                        rf_streams := (if \<not> fs_live st' \<and> fs_outstanding st' = 0
                                       then omap_del (fr_key r) (rf_streams s)
                                       else omap_put (fr_key r) st' (rf_streams s))\<rparr>)))"

definition flow_acknowledge ::
  "'w writer \<Rightarrow> string \<Rightarrow> u64 \<Rightarrow> u64 \<Rightarrow> 'w report_flow \<Rightarrow> (bool \<times> 'w report_flow) option" where
  "flow_acknowledge report session sequence bytes s =
     (if rf_failed s \<or> session \<noteq> rf_session s \<or> sequence \<le> rf_acknowledged s \<or> sequence \<ge> rf_next s then Some (False, s)
      else case find (\<lambda>r. fr_sequence r = sequence) (rf_outstanding s) of
             None \<Rightarrow> Some (False, s)
           | Some target \<Rightarrow>
               (if fr_cumulative target \<noteq> bytes then Some (False, s)
                else case flow_release sequence (rf_outstanding s) s of
                       None \<Rightarrow> None
                     | Some s' \<Rightarrow> flow_drain report (s'\<lparr>rf_acknowledged := sequence\<rparr>)))"

text \<open>The queue without the entries of a stream and what \<open>queued_bytes_\<close> becomes.\<close>

fun flow_discard :: "flow_key \<Rightarrow> flow_pending list \<Rightarrow> nat \<Rightarrow> flow_pending list \<times> nat" where
  "flow_discard key [] bytes = ([], bytes)"
| "flow_discard key (p # ps) bytes =
     (if fp_key p = key then flow_discard key ps (sub64 bytes (fp_reserved p))
      else let (ps', bytes') = flow_discard key ps bytes in (p # ps', bytes'))"

definition flow_retire ::
  "'w writer \<Rightarrow> 'w writer \<Rightarrow> string \<Rightarrow> u64 \<Rightarrow> encoder \<Rightarrow> 'w report_flow \<Rightarrow> (bool \<times> 'w report_flow) option" where
  "flow_retire report control subscription generation encode s =
     (let key = (subscription, generation)
      in case map_of (rf_streams s) key of
           None \<Rightarrow> Some (False, s)
         | Some st \<Rightarrow>
             (if rf_failed s \<or> \<not> fs_live st then Some (False, s)
              else let (queue, bytes) = flow_discard key (rf_queued s) (rf_queued_bytes s);
                       st' = st\<lparr>fs_live := False, fs_queued := 0\<rparr>;
                       s1 = s\<lparr>rf_live := sub64 (rf_live s) 1, rf_queued := queue, rf_queued_bytes := bytes,
                              rf_streams := omap_put key st' (rf_streams s)\<rparr>;
                       barrier = encode (fs_last_sequence st')
                   in if barrier = [] then Some (False, flow_halt s1)
                      else let (ok, w) = control (rf_world s1) barrier; s2 = s1\<lparr>rf_world := w\<rparr>
                      in if \<not> ok then Some (False, flow_halt s2)
                         else flow_drain report
                                (if fs_outstanding st' = 0 then s2\<lparr>rf_streams := omap_del key (rf_streams s2)\<rparr> else s2)))"

record flow_snapshot =
  sn_queued :: nat
  sn_queued_bytes :: nat
  sn_frame_credit :: nat
  sn_byte_credit :: nat
  sn_acknowledged :: u64
  sn_last :: u64

definition flow_snapshot_of :: "'w report_flow \<Rightarrow> flow_snapshot" where
  "flow_snapshot_of s =
     \<lparr>sn_queued = length (rf_queued s), sn_queued_bytes = rf_queued_bytes s,
      sn_frame_credit = sub64 session_report_frames (length (rf_outstanding s)),
      sn_byte_credit = sub64 session_report_bytes (rf_outstanding_bytes s),
      sn_acknowledged = rf_acknowledged s, sn_last = sub64 (rf_next s) 1\<rparr>"

datatype flow_action =
    AddStream string u64 nat
  | Submit string u64 encoder
  | Acknowledge string u64 u64
  | Retire string u64 encoder

definition flow_after :: "'w report_flow \<Rightarrow> (bool \<times> 'w report_flow) option \<Rightarrow> 'w report_flow" where
  "flow_after s r = (case r of None \<Rightarrow> s | Some (_, s') \<Rightarrow> s')"

fun flow_step :: "'w writer \<Rightarrow> 'w writer \<Rightarrow> flow_action \<Rightarrow> 'w report_flow \<Rightarrow> 'w report_flow" where
  "flow_step report control (AddStream k g n) s = snd (flow_add_stream k g n s)"
| "flow_step report control (Submit k g encode) s = snd (flow_submit report k g encode s)"
| "flow_step report control (Acknowledge g n b) s = flow_after s (flow_acknowledge report g n b s)"
| "flow_step report control (Retire k g encode) s = flow_after s (flow_retire report control k g encode s)"

section \<open>Invariant\<close>

text \<open>A key is a pair; quantifiers over keys are kept as they are.\<close>

declare split_paired_All [simp del] split_paired_Ex [simp del]

text \<open>
  The invariant is stated over the acknowledged sequence, the outstanding records and the queue, so that it
  also holds inside the loops, which write those fields at the end.
\<close>

abbreviation flow_bytes :: "flow_record list \<Rightarrow> nat" where
  "flow_bytes rs \<equiv> sum_list (map fr_bytes rs)"

fun cumulative_ok :: "u64 \<Rightarrow> flow_record list \<Rightarrow> bool" where
  "cumulative_ok t [] = True"
| "cumulative_ok t (r # rs) = (fr_cumulative r + flow_bytes rs = t \<and> cumulative_ok t rs)"

definition records_ok :: "u64 \<Rightarrow> flow_record list \<Rightarrow> 'w report_flow \<Rightarrow> bool" where
  "records_ok ack out s \<longleftrightarrow>
     map fr_sequence out = [Suc ack..<rf_next s] \<and> ack < rf_next s \<and> rf_next s \<le> u64_max \<and>
     length out \<le> session_report_frames \<and>
     rf_outstanding_bytes s = flow_bytes out \<and> flow_bytes out \<le> session_report_bytes \<and>
     cumulative_ok (rf_transmitted s) out \<and> flow_bytes out \<le> rf_transmitted s \<and> rf_transmitted s \<le> u64_max"

definition of_key :: "flow_key \<Rightarrow> flow_record list \<Rightarrow> nat" where
  "of_key k out = length (filter (\<lambda>r. fr_key r = k) out)"

definition waiting :: "flow_key \<Rightarrow> flow_pending list \<Rightarrow> nat" where
  "waiting k qs = length (filter (\<lambda>p. fp_key p = k) qs)"

definition stream_fit :: "flow_record list \<Rightarrow> flow_pending list \<Rightarrow> flow_key \<Rightarrow> flow_stream \<Rightarrow> bool" where
  "stream_fit out qs k st \<longleftrightarrow>
     fs_outstanding st = of_key k out \<and> fs_queued st = waiting k qs \<and>
     of_key k out \<le> min stream_report_frames (fs_queue_limit st) \<and>
     waiting k qs \<le> fs_queue_limit st \<and> fs_queue_limit st \<le> maximum_queue_limit \<and>
     (0 < waiting k qs \<longrightarrow> fs_live st)"

definition live_streams :: "(flow_key \<times> flow_stream) list \<Rightarrow> nat" where
  "live_streams m = omap_sum (\<lambda>st. if fs_live st then 1 else 0) m"

definition streams_ok :: "flow_record list \<Rightarrow> flow_pending list \<Rightarrow> 'w report_flow \<Rightarrow> bool" where
  "streams_ok out qs s \<longleftrightarrow> omap_ok (rf_streams s) \<and>
     (\<forall>k st. map_of (rf_streams s) k = Some st \<longrightarrow> stream_fit out qs k st) \<and>
     (\<forall>r \<in> set out. map_of (rf_streams s) (fr_key r) \<noteq> None) \<and>
     (\<forall>p \<in> set qs. map_of (rf_streams s) (fp_key p) \<noteq> None) \<and>
     rf_live s = live_streams (rf_streams s) \<and> live_streams (rf_streams s) \<le> maximum_live_streams"

definition queue_ok :: "flow_pending list \<Rightarrow> 'w report_flow \<Rightarrow> bool" where
  "queue_ok qs s \<longleftrightarrow> rf_queued_bytes s = sum_list (map fp_reserved qs) \<and>
     sum_list (map fp_reserved qs) \<le> queued_report_bytes \<and> length qs \<le> queued_report_frames \<and>
     (\<forall>p \<in> set qs. fp_reserved p \<le> maximum_report_line)"

definition flow_ok :: "u64 \<Rightarrow> flow_record list \<Rightarrow> flow_pending list \<Rightarrow> 'w report_flow \<Rightarrow> bool" where
  "flow_ok ack out qs s \<longleftrightarrow> records_ok ack out s \<and> streams_ok out qs s \<and> queue_ok qs s"

definition flow_inv :: "'w report_flow \<Rightarrow> bool" where
  "flow_inv s \<longleftrightarrow> flow_ok (rf_acknowledged s) (rf_outstanding s) (rf_queued s) s"

lemmas flow_oks = flow_ok_def records_ok_def streams_ok_def queue_ok_def

lemma flow_ok_frame [simp]:
  "flow_ok ack out qs (s\<lparr>rf_queued := q\<rparr>) = flow_ok ack out qs s"
  "flow_ok ack out qs (s\<lparr>rf_outstanding := x\<rparr>) = flow_ok ack out qs s"
  "flow_ok ack out qs (s\<lparr>rf_acknowledged := a\<rparr>) = flow_ok ack out qs s"
  "flow_ok ack out qs (s\<lparr>rf_failed := b\<rparr>) = flow_ok ack out qs s"
  "flow_ok ack out qs (s\<lparr>rf_world := w\<rparr>) = flow_ok ack out qs s"
  "flow_ok ack out qs (s\<lparr>rf_maximum := t\<rparr>) = flow_ok ack out qs s"
  by (simp_all add: flow_oks)

lemma flow_init_inv: "flow_inv (flow_init session w)"
  by (simp add: flow_inv_def flow_oks flow_init_def live_streams_def flow_limits)

lemma of_key_simps [simp]:
  "of_key k [] = 0" "of_key k (r # rs) = (if fr_key r = k then 1 else 0) + of_key k rs"
  "of_key k (rs @ rs') = of_key k rs + of_key k rs'"
  by (simp_all add: of_key_def)

lemma waiting_simps [simp]:
  "waiting k [] = 0" "waiting k (p # ps) = (if fp_key p = k then 1 else 0) + waiting k ps"
  "waiting k (ps @ ps') = waiting k ps + waiting k ps'"
  by (simp_all add: waiting_def)

lemma of_key_zero: "of_key k rs = 0 \<longleftrightarrow> (\<forall>r \<in> set rs. fr_key r \<noteq> k)"
  by (auto simp: of_key_def filter_empty_conv)

lemma waiting_zero: "waiting k ps = 0 \<longleftrightarrow> (\<forall>p \<in> set ps. fp_key p \<noteq> k)"
  by (auto simp: waiting_def filter_empty_conv)

lemma live_streams_put:
  "omap_ok m \<Longrightarrow> live_streams (omap_put k st m) = (if fs_live st then 1 else 0) + live_streams (omap_del k m)"
  by (simp add: live_streams_def omap_sum_put)

lemma live_streams_del:
  "omap_ok m \<Longrightarrow> map_of m k = Some st \<Longrightarrow>
   live_streams m = (if fs_live st then 1 else 0) + live_streams (omap_del k m)"
  by (simp add: live_streams_def omap_sum_del [of m k st])

lemma live_streams_update:
  "omap_ok m \<Longrightarrow> map_of m k = Some st \<Longrightarrow> fs_live st' = fs_live st \<Longrightarrow>
   live_streams (omap_put k st' m) = live_streams m"
  using live_streams_put [of m k st'] live_streams_del [of m k st] by simp

lemma flow_stream_fit:
  "flow_ok ack out qs s \<Longrightarrow> map_of (rf_streams s) k = Some st \<Longrightarrow> stream_fit out qs k st"
  by (simp add: flow_ok_def streams_ok_def)

lemma cumulative_ok_append:
  "cumulative_ok t rs \<Longrightarrow> cumulative_ok (t + fr_bytes r) (rs @ [r]) \<longleftrightarrow> fr_cumulative r = t + fr_bytes r"
  by (induction rs) auto

text \<open>Replacing one stream and adjusting its two counters.\<close>

lemma streams_ok_put:
  assumes ok: "streams_ok out qs s" and st: "map_of (rf_streams s) k = Some st" and live: "fs_live st' = fs_live st"
    and fit: "stream_fit out' qs' k st'"
    and other: "\<And>j. j \<noteq> k \<Longrightarrow> of_key j out' = of_key j out \<and> waiting j qs' = waiting j qs"
    and keys: "fr_key ` set out' \<subseteq> insert k (fr_key ` set out)" "fp_key ` set qs' \<subseteq> insert k (fp_key ` set qs)"
    and s': "rf_streams s' = omap_put k st' (rf_streams s)" "rf_live s' = rf_live s"
  shows "streams_ok out' qs' s'"
proof -
  have old: "omap_ok (rf_streams s)" "rf_live s = live_streams (rf_streams s)"
    "live_streams (rf_streams s) \<le> maximum_live_streams"
    "\<And>r. r \<in> set out \<Longrightarrow> map_of (rf_streams s) (fr_key r) \<noteq> None"
    "\<And>p. p \<in> set qs \<Longrightarrow> map_of (rf_streams s) (fp_key p) \<noteq> None"
    "\<And>j u. map_of (rf_streams s) j = Some u \<Longrightarrow> stream_fit out qs j u"
    using ok unfolding streams_ok_def by blast+
  have fits: "stream_fit out' qs' j u" if "map_of (omap_put k st' (rf_streams s)) j = Some u" for j u
  proof (cases "j = k")
    case True
    then show ?thesis using that fit by simp
  next
    case False
    then have "stream_fit out qs j u" using that old(6) by simp
    then show ?thesis using other [OF False] by (simp add: stream_fit_def)
  qed
  have out: "map_of (omap_put k st' (rf_streams s)) (fr_key r) \<noteq> None" if "r \<in> set out'" for r
  proof (cases "fr_key r = k")
    case False
    then have "fr_key r \<in> fr_key ` set out" using that keys(1) by blast
    then show ?thesis using old(4) False by auto
  qed simp
  have que: "map_of (omap_put k st' (rf_streams s)) (fp_key p) \<noteq> None" if "p \<in> set qs'" for p
  proof (cases "fp_key p = k")
    case False
    then have "fp_key p \<in> fp_key ` set qs" using that keys(2) by blast
    then show ?thesis using old(5) False by auto
  qed simp
  show ?thesis
    unfolding streams_ok_def s' live_streams_update [OF old(1) st live] using old(1-3) fits out que by blast
qed

section \<open>Transmission and the queue\<close>

text \<open>What \<open>transmit\<close> does when the writer takes the frame.\<close>

definition flow_sent :: "flow_key \<Rightarrow> string \<Rightarrow> 'w report_flow \<Rightarrow> flow_record" where
  "flow_sent key frame s = \<lparr>fr_key = key, fr_sequence = rf_next s, fr_bytes = length frame + 1,
     fr_cumulative = rf_transmitted s + (length frame + 1)\<rparr>"

lemma records_ok_sent:
  assumes ok: "records_ok ack out s" and room: "length out < session_report_frames"
    and bytes: "length frame + 1 \<le> session_report_bytes - flow_bytes out"
    and next': "rf_next s \<noteq> u64_max" and total: "length frame + 1 \<le> u64_max - rf_transmitted s"
    and t: "rf_transmitted t = rf_transmitted s + (length frame + 1)" "rf_next t = rf_next s + 1"
      "rf_outstanding_bytes t = rf_outstanding_bytes s + (length frame + 1)"
  shows "records_ok ack (out @ [flow_sent key frame s]) t"
  using assms cumulative_ok_append [of "rf_transmitted s" out "flow_sent key frame s"]
  by (auto simp: records_ok_def flow_sent_def)

lemma flow_transmit_ok:
  assumes ok: "flow_ok ack out qs s" and st: "map_of (rf_streams s) key = Some st"
    and room: "length out < session_report_frames" "fs_outstanding st < min stream_report_frames (fs_queue_limit st)"
    and bytes: "length frame + 1 \<le> session_report_bytes - flow_bytes out" and out: "rf_outstanding s = out"
    and run: "flow_transmit report key st frame s = (b, s')"
  shows "rf_acknowledged s' = rf_acknowledged s \<and> rf_failed s' = rf_failed s \<and>
    (if b then rf_outstanding s' = out @ [flow_sent key frame s] \<and>
               flow_ok ack (out @ [flow_sent key frame s]) qs s'
     else rf_outstanding s' = out \<and> flow_ok ack out qs s')"
proof (cases "rf_next s = u64_max \<or> length frame + 1 > u64_max - rf_transmitted s \<or>
    \<not> fst (report (rf_world s) frame)")
  case True
  then have "\<not> b" "s' = s \<or> (\<exists>w. s' = s\<lparr>rf_world := w\<rparr>)"
    using run by (auto simp: flow_transmit_def Let_def split: if_splits prod.splits)
  then show ?thesis using ok out by auto
next
  case False
  have rec: "records_ok ack out s" and str: "streams_ok out qs s" and que: "queue_ok qs s"
    using ok by (simp_all add: flow_ok_def)
  have fit: "stream_fit out qs key st" by (rule flow_stream_fit [OF ok st])
  have sums: "add64 (rf_transmitted s) (length frame + 1) = rf_transmitted s + (length frame + 1)"
    "add64 (rf_outstanding_bytes s) (length frame + 1) = rf_outstanding_bytes s + (length frame + 1)"
    "add64 (rf_next s) 1 = rf_next s + 1" "add64 (fs_outstanding st) 1 = fs_outstanding st + 1"
    using False rec bytes room by (intro add64_exact; auto simp: records_ok_def flow_limits)+
  let ?st = "st\<lparr>fs_last_sequence := rf_next s, fs_outstanding := fs_outstanding st + 1\<rparr>"
  obtain w top where b: "b" and s': "s' = s\<lparr>rf_world := w, rf_transmitted := rf_transmitted s + (length frame + 1),
      rf_outstanding := out @ [flow_sent key frame s],
      rf_outstanding_bytes := rf_outstanding_bytes s + (length frame + 1), rf_maximum := top,
      rf_next := rf_next s + 1, rf_streams := omap_put key ?st (rf_streams s)\<rparr>"
    using run False unfolding flow_transmit_def Let_def
    by (auto simp: sums flow_sent_def out simp del: One_nat_def add_Suc_right split: prod.splits)
  have "records_ok ack (out @ [flow_sent key frame s]) s'"
    by (rule records_ok_sent [OF rec room(1) bytes]) (use False in \<open>auto simp: s'\<close>)
  moreover have "streams_ok (out @ [flow_sent key frame s]) qs s'"
    by (rule streams_ok_put [OF str st, where st' = ?st])
      (use fit room(2) in \<open>auto simp: s' flow_sent_def stream_fit_def\<close>)
  moreover have "queue_ok qs s'" using que by (simp add: queue_ok_def s')
  ultimately show ?thesis using b by (simp add: flow_ok_def s')
qed

lemma flow_dequeue_ok:
  assumes ok: "flow_ok ack out (kept @ p # rest) s" and st: "map_of (rf_streams s) (fp_key p) = Some st"
  shows "flow_ok ack out (kept @ rest)
    (s\<lparr>rf_queued_bytes := sub64 (rf_queued_bytes s) (fp_reserved p),
       rf_streams := omap_put (fp_key p) (st\<lparr>fs_queued := sub64 (fs_queued st) 1\<rparr>) (rf_streams s)\<rparr>)"
proof -
  have rec: "records_ok ack out s" and str: "streams_ok out (kept @ p # rest) s" and que: "queue_ok (kept @ p # rest) s"
    using ok by (simp_all add: flow_ok_def)
  have fit: "stream_fit out (kept @ p # rest) (fp_key p) st" by (rule flow_stream_fit [OF ok st])
  have one: "sub64 (fs_queued st) 1 = fs_queued st - 1"
    using fit by (intro sub64_exact) (auto simp: stream_fit_def flow_limits)
  have bytes: "sub64 (rf_queued_bytes s) (fp_reserved p) = rf_queued_bytes s - fp_reserved p"
    using que by (intro sub64_exact) (auto simp: queue_ok_def flow_limits)
  let ?s = "s\<lparr>rf_queued_bytes := sub64 (rf_queued_bytes s) (fp_reserved p),
       rf_streams := omap_put (fp_key p) (st\<lparr>fs_queued := sub64 (fs_queued st) 1\<rparr>) (rf_streams s)\<rparr>"
  have "records_ok ack out ?s" using rec by (simp add: records_ok_def)
  moreover have "streams_ok out (kept @ rest) ?s"
    unfolding one
    by (rule streams_ok_put [OF str st, where st' = "st\<lparr>fs_queued := fs_queued st - 1\<rparr>"])
      (use fit in \<open>auto simp: stream_fit_def\<close>)
  moreover have "queue_ok (kept @ rest) ?s" using que unfolding bytes by (auto simp: queue_ok_def)
  ultimately show ?thesis by (simp add: flow_ok_def)
qed

lemma flow_room:
  assumes "flow_ok ack out qs s"
  shows "sub64 session_report_bytes (rf_outstanding_bytes s) = session_report_bytes - flow_bytes out"
    and "sub64 queued_report_bytes (rf_queued_bytes s) = queued_report_bytes - sum_list (map fp_reserved qs)"
  using assms sub64_exact [of "flow_bytes out" session_report_bytes]
    sub64_exact [of "sum_list (map fp_reserved qs)" queued_report_bytes]
  by (auto simp: flow_oks flow_limits)

text \<open>
  What a drain moved: for each stream a prefix of its waiting reports became records, in order, each with the
  size of its encoding under the sequence number it was given.
\<close>

definition report_of :: "flow_pending \<Rightarrow> flow_record \<Rightarrow> bool" where
  "report_of p r \<longleftrightarrow> fr_key r = fp_key p \<and> fr_bytes r = length (fp_encode p (fr_sequence r)) + 1"

definition moved :: "flow_pending list \<Rightarrow> flow_pending list \<Rightarrow> flow_record list \<Rightarrow> bool" where
  "moved before after new \<longleftrightarrow> (\<forall>k. \<exists>sent.
     filter (\<lambda>p. fp_key p = k) before = sent @ filter (\<lambda>p. fp_key p = k) after \<and>
     list_all2 report_of sent (filter (\<lambda>r. fr_key r = k) new))"

lemma moved_none: "moved qs qs []"
  by (auto simp: moved_def)

lemma moved_first:
  assumes rest: "moved (kept @ rest) after new" and first: "\<forall>q \<in> set kept. fp_key q \<noteq> fp_key p" and r: "report_of p r"
  shows "moved (kept @ p # rest) after (r # new)"
  unfolding moved_def
proof
  fix k
  obtain sent where sent: "filter (\<lambda>p. fp_key p = k) (kept @ rest) = sent @ filter (\<lambda>p. fp_key p = k) after"
    "list_all2 report_of sent (filter (\<lambda>r. fr_key r = k) new)" using rest by (auto simp: moved_def)
  show "\<exists>sent. filter (\<lambda>p. fp_key p = k) (kept @ p # rest) = sent @ filter (\<lambda>p. fp_key p = k) after \<and>
      list_all2 report_of sent (filter (\<lambda>r. fr_key r = k) (r # new))"
  proof (cases "fp_key p = k")
    case True
    then have "filter (\<lambda>p. fp_key p = k) kept = []" using first by (auto simp: filter_empty_conv)
    then show ?thesis using sent r True by (intro exI [of _ "p # sent"]) (simp add: report_of_def)
  next
    case False
    then show ?thesis using sent r by (intro exI [of _ sent]) (simp add: report_of_def)
  qed
qed

lemma flow_drain_loop_ok:
  assumes "flow_ok (rf_acknowledged s) (rf_outstanding s) (kept @ rest) s"
  shows "\<exists>b s' new. flow_drain_loop report kept rest s = Some (b, s') \<and> flow_inv s' \<and>
    rf_acknowledged s' = rf_acknowledged s \<and> rf_outstanding s' = rf_outstanding s @ new \<and>
    (b \<longrightarrow> moved (kept @ rest) (rf_queued s') new \<and> rf_failed s' = rf_failed s) \<and> (\<not> b \<longrightarrow> rf_failed s')"
  using assms
proof (induction rest arbitrary: kept s)
  case Nil
  then show ?case by (auto simp: flow_inv_def moved_none)
next
  case (Cons p rest)
  note ok = Cons.prems
  have skip: ?case if "flow_drain_loop report kept (p # rest) s = flow_drain_loop report (kept @ [p]) rest s"
    using Cons.IH [of s "kept @ [p]"] ok that by simp
  show ?case
  proof (cases "\<exists>q \<in> set kept. fp_key q = fp_key p")
    case True
    then show ?thesis by (intro skip) simp
  next
    case first: False
    obtain st where st: "map_of (rf_streams s) (fp_key p) = Some st"
      using ok by (auto simp: flow_ok_def streams_ok_def)
    let ?frame = "fp_encode p (rf_next s)"
    consider "\<not> flow_available st s"
      | "flow_available st s" "?frame = [] \<or> length ?frame + 1 > fp_reserved p"
      | "flow_available st s" "\<not> (?frame = [] \<or> length ?frame + 1 > fp_reserved p)"
        "length ?frame + 1 > session_report_bytes - flow_bytes (rf_outstanding s)"
      | "flow_available st s" "\<not> (?frame = [] \<or> length ?frame + 1 > fp_reserved p)"
        "length ?frame + 1 \<le> session_report_bytes - flow_bytes (rf_outstanding s)"
      by linarith
    then show ?thesis
    proof cases
      case 1
      then show ?thesis using first st by (intro skip) simp
    next
      case 2
      then have "flow_drain_loop report kept (p # rest) s = Some (False, flow_halt (s\<lparr>rf_queued := kept @ p # rest\<rparr>))"
        using first st by simp
      then show ?thesis using ok by (auto simp: flow_inv_def flow_halt_def simp del: flow_drain_loop.simps)
    next
      case 3
      then show ?thesis using first st flow_room(1) [OF ok] by (intro skip) simp
    next
      case 4
      let ?st = "st\<lparr>fs_queued := sub64 (fs_queued st) 1\<rparr>"
      let ?s1 = "s\<lparr>rf_queued_bytes := sub64 (rf_queued_bytes s) (fp_reserved p),
        rf_streams := omap_put (fp_key p) ?st (rf_streams s)\<rparr>"
      obtain b s2 where tr: "flow_transmit report (fp_key p) ?st ?frame ?s1 = (b, s2)" by fastforce
      have ok1: "flow_ok (rf_acknowledged s) (rf_outstanding s) (kept @ rest) ?s1" by (rule flow_dequeue_ok [OF ok st])
      have ok2: "rf_acknowledged s2 = rf_acknowledged s \<and> rf_failed s2 = rf_failed s \<and>
          (if b then rf_outstanding s2 = rf_outstanding s @ [flow_sent (fp_key p) ?frame ?s1] \<and>
             flow_ok (rf_acknowledged s) (rf_outstanding s @ [flow_sent (fp_key p) ?frame ?s1]) (kept @ rest) s2
           else rf_outstanding s2 = rf_outstanding s \<and> flow_ok (rf_acknowledged s) (rf_outstanding s) (kept @ rest) s2)"
        using flow_transmit_ok [OF ok1 _ _ _ 4(3) _ tr] 4(1) by (simp add: flow_available_def del: One_nat_def)
      have run: "flow_drain_loop report kept (p # rest) s =
          (if b then flow_drain_loop report kept rest s2 else Some (False, flow_halt (s2\<lparr>rf_queued := kept @ rest\<rparr>)))"
        using first st 4 flow_room(1) [OF ok] tr by (simp del: One_nat_def)
      show ?thesis
      proof (cases b)
        case False
        then show ?thesis using run ok2 by (auto simp: flow_inv_def flow_halt_def simp del: flow_drain_loop.simps)
      next
        case True
        then have "report_of p (flow_sent (fp_key p) ?frame ?s1)" by (simp add: report_of_def flow_sent_def)
        moreover from True ok2 obtain b' s' new where
          "flow_drain_loop report kept rest s2 = Some (b', s')" "flow_inv s'" "rf_acknowledged s' = rf_acknowledged s2"
          "rf_outstanding s' = rf_outstanding s2 @ new" "b' \<longrightarrow> moved (kept @ rest) (rf_queued s') new \<and> rf_failed s' = rf_failed s2"
          "\<not> b' \<longrightarrow> rf_failed s'"
          using Cons.IH [of s2 kept] by auto
        ultimately show ?thesis using run True ok2 first
          by (auto intro!: moved_first simp del: flow_drain_loop.simps)
      qed
    qed
  qed
qed

lemma flow_drain_ok:
  assumes "flow_inv s"
  shows "\<exists>b s' new. flow_drain report s = Some (b, s') \<and> flow_inv s' \<and>
    rf_acknowledged s' = rf_acknowledged s \<and> rf_outstanding s' = rf_outstanding s @ new \<and>
    (b \<longrightarrow> moved (rf_queued s) (rf_queued s') new \<and> rf_failed s' = rf_failed s) \<and> (\<not> b \<longrightarrow> rf_failed s')"
  using flow_drain_loop_ok [of s "[]" "rf_queued s" report] assms by (simp add: flow_drain_def flow_inv_def)

section \<open>Every operation keeps the invariant\<close>

lemma flow_add_stream_inv: "flow_inv s \<Longrightarrow> flow_inv (snd (flow_add_stream k g n s))"
proof (cases "fst (flow_add_stream k g n s)")
  case False
  then show "flow_inv s \<Longrightarrow> flow_inv (snd (flow_add_stream k g n s))"
    by (auto simp: flow_add_stream_def split: if_splits)
next
  case True
  assume inv: "flow_inv s"
  let ?st = "\<lparr>fs_queue_limit = n, fs_outstanding = 0, fs_queued = 0, fs_last_sequence = 0, fs_live = True\<rparr>"
  let ?s = "s\<lparr>rf_streams := omap_put (k, g) ?st (rf_streams s), rf_live := rf_live s + 1\<rparr>"
  have ok: "records_ok (rf_acknowledged s) (rf_outstanding s) s" "streams_ok (rf_outstanding s) (rf_queued s) s"
    "queue_ok (rf_queued s) s"
    using inv by (simp_all add: flow_inv_def flow_ok_def)
  have fresh: "map_of (rf_streams s) (k, g) = None" and n: "n \<le> maximum_queue_limit" and live: "rf_live s < maximum_live_streams"
    using True by (auto simp: flow_add_stream_def omap_has_def split: if_splits)
  then have "add64 (rf_live s) 1 = rf_live s + 1" by (intro add64_exact) (simp add: flow_limits)
  then have s': "snd (flow_add_stream k g n s) = ?s" using True by (auto simp: flow_add_stream_def split: if_splits)
  have zero: "of_key (k, g) (rf_outstanding s) = 0" "waiting (k, g) (rf_queued s) = 0"
    using ok(2) fresh by (auto simp: of_key_zero waiting_zero streams_ok_def)
  have "stream_fit (rf_outstanding s) (rf_queued s) (k, g) ?st" using zero n by (simp add: stream_fit_def)
  then have "stream_fit (rf_outstanding s) (rf_queued s) j u" if "map_of (rf_streams ?s) j = Some u" for j u
    using ok(2) that by (cases "j = (k, g)") (auto simp: streams_ok_def)
  then have "streams_ok (rf_outstanding s) (rf_queued s) ?s"
    using ok(2) live fresh by (auto simp: streams_ok_def live_streams_put omap_del_absent)
  moreover have "records_ok (rf_acknowledged s) (rf_outstanding s) ?s" "queue_ok (rf_queued s) ?s"
    using ok by (simp_all add: records_ok_def queue_ok_def)
  ultimately show ?thesis by (simp add: s' flow_inv_def flow_ok_def)
qed

lemma flow_enqueue_inv:
  assumes inv: "flow_inv s" and st: "map_of (rf_streams s) key = Some st" "fs_live st"
  shows "flow_inv (snd (flow_enqueue key st encode s))"
proof (cases "fst (flow_enqueue key st encode s) = Overflow")
  case True
  then show ?thesis using inv by (auto simp: flow_enqueue_def Let_def split: if_splits)
next
  case False
  let ?n = "length (encode u64_max) + 1"
  let ?p = "\<lparr>fp_key = key, fp_encode = encode, fp_reserved = ?n\<rparr>"
  have ok: "flow_ok (rf_acknowledged s) (rf_outstanding s) (rf_queued s) s" using inv by (simp add: flow_inv_def)
  have fit: "stream_fit (rf_outstanding s) (rf_queued s) key st" by (rule flow_stream_fit [OF ok st(1)])
  have room: "?n \<le> maximum_report_line" "length (rf_queued s) < queued_report_frames" "fs_queued st < fs_queue_limit st"
    "?n \<le> queued_report_bytes - sum_list (map fp_reserved (rf_queued s))"
    using False flow_room(2) [OF ok] by (auto simp: flow_enqueue_def Let_def split: if_splits)
  have sums: "add64 (rf_queued_bytes s) ?n = rf_queued_bytes s + ?n" "add64 (fs_queued st) 1 = fs_queued st + 1"
    using room fit ok by (intro add64_exact; auto simp: flow_oks stream_fit_def flow_limits)+
  obtain top where s': "snd (flow_enqueue key st encode s) = s\<lparr>rf_queued := rf_queued s @ [?p],
      rf_queued_bytes := rf_queued_bytes s + ?n, rf_maximum := top,
      rf_streams := omap_put key (st\<lparr>fs_queued := fs_queued st + 1\<rparr>) (rf_streams s)\<rparr>"
    using False unfolding flow_enqueue_def Let_def sums by (auto split: if_splits)
  have str: "streams_ok (rf_outstanding s) (rf_queued s) s" using ok by (simp add: flow_ok_def)
  have "streams_ok (rf_outstanding s) (rf_queued s @ [?p]) (snd (flow_enqueue key st encode s))"
    by (rule streams_ok_put [OF str st(1), where st' = "st\<lparr>fs_queued := fs_queued st + 1\<rparr>"])
      (use fit room st(2) in \<open>auto simp: s' stream_fit_def\<close>)
  then show ?thesis using ok room by (auto simp: flow_inv_def flow_ok_def records_ok_def queue_ok_def s')
qed

lemma flow_submit_inv: "flow_inv s \<Longrightarrow> flow_inv (snd (flow_submit report k g encode s))"
proof -
  assume inv: "flow_inv s"
  then have ok: "flow_ok (rf_acknowledged s) (rf_outstanding s) (rf_queued s) s" by (simp add: flow_inv_def)
  show ?thesis
  proof (cases "map_of (rf_streams s) (k, g)")
    case None
    then show ?thesis using inv by (simp add: flow_submit_def)
  next
    case (Some st)
    let ?frame = "encode (rf_next s)"
    obtain b s' where tr: "flow_transmit report (k, g) st ?frame s = (b, s')" by fastforce
    have sent: "flow_inv s'" if "flow_available st s"
        "length ?frame + 1 \<le> session_report_bytes - flow_bytes (rf_outstanding s)"
    proof -
      have "rf_queued s' = rf_queued s" using tr by (auto simp: flow_transmit_def Let_def split: if_splits prod.splits)
      then show ?thesis
        using flow_transmit_ok [OF ok Some _ _ that(2) refl tr] that(1) by (auto simp: flow_available_def flow_inv_def split: if_splits)
    qed
    then have "flow_inv (flow_halt s')" if "flow_available st s"
        "length ?frame + 1 \<le> session_report_bytes - flow_bytes (rf_outstanding s)"
      using that by (simp add: flow_inv_def flow_halt_def)
    then show ?thesis
      using inv Some sent tr flow_enqueue_inv [OF inv Some] flow_room(1) [OF ok]
      by (simp add: flow_submit_def Let_def)
  qed
qed

lemma streams_ok_release:
  assumes str: "streams_ok (r # rs) qs s" and st: "map_of (rf_streams s) (fr_key r) = Some st"
    and st': "st' = st\<lparr>fs_outstanding := fs_outstanding st - 1\<rparr>"
  shows "streams_ok rs qs (s\<lparr>rf_outstanding_bytes := n, rf_streams :=
    (if \<not> fs_live st' \<and> fs_outstanding st' = 0 then omap_del (fr_key r) (rf_streams s)
     else omap_put (fr_key r) st' (rf_streams s))\<rparr>)"
proof (cases "\<not> fs_live st' \<and> fs_outstanding st' = 0")
  case False
  have fit: "stream_fit (r # rs) qs (fr_key r) st" using str st by (simp add: streams_ok_def)
  have "streams_ok rs qs (s\<lparr>rf_outstanding_bytes := n, rf_streams := omap_put (fr_key r) st' (rf_streams s)\<rparr>)"
    by (rule streams_ok_put [OF str st, where st' = st']) (use fit in \<open>auto simp: st' stream_fit_def\<close>)
  then show ?thesis using False by (simp only: if_not_P if_False)
next
  case True
  have fit: "stream_fit (r # rs) qs (fr_key r) st" using str st by (simp add: streams_ok_def)
  have zero: "of_key (fr_key r) rs = 0" "waiting (fr_key r) qs = 0" and dead: "\<not> fs_live st"
    using fit True by (auto simp: stream_fit_def st')
  let ?m = "omap_del (fr_key r) (rf_streams s)"
  have "stream_fit rs qs j u" if "map_of ?m j = Some u" for j u
  proof -
    have "j \<noteq> fr_key r" "stream_fit (r # rs) qs j u" using str that by (auto simp: streams_ok_def split: if_splits)
    then show ?thesis by (simp add: stream_fit_def)
  qed
  moreover have "live_streams ?m = live_streams (rf_streams s)"
    using live_streams_del [OF _ st] str dead by (simp add: streams_ok_def)
  moreover have "map_of ?m (fr_key x) \<noteq> None" if "x \<in> set rs" for x
    using str that zero by (auto simp: of_key_zero streams_ok_def)
  moreover have "map_of ?m (fp_key x) \<noteq> None" if "x \<in> set qs" for x
    using str that zero by (auto simp: waiting_zero streams_ok_def)
  ultimately have "streams_ok rs qs (s\<lparr>rf_outstanding_bytes := n, rf_streams := ?m\<rparr>)"
    using str by (auto simp: streams_ok_def)
  then show ?thesis using True by simp
qed

lemma upt_Suc_Cons: "x # xs = [Suc a..<b] \<longleftrightarrow> x = Suc a \<and> Suc a < b \<and> xs = [Suc (Suc a)..<b]"
  by (cases "Suc a < b") (auto simp: upt_conv_Cons simp del: upt_Suc)

lemma upt_Suc_Nil: "[] = [Suc a..<b] \<longleftrightarrow> b \<le> Suc a"
  by (metis upt_eq_Nil_conv le_zero_eq zero_le)

lemma records_ok_release:
  assumes "records_ok ack (r # rs) s" and "rf_outstanding_bytes t = rf_outstanding_bytes s - fr_bytes r"
    and "rf_next t = rf_next s" "rf_transmitted t = rf_transmitted s"
  shows "records_ok (Suc ack) rs t"
  using assms by (auto simp: records_ok_def upt_Suc_Cons simp del: upt_Suc)

lemma flow_release_ok:
  assumes "flow_ok ack rs qs s" and "ack \<le> n" and "n < rf_next s"
  shows "\<exists>s'. flow_release n rs s = Some s' \<and> rf_outstanding s' = dropWhile (\<lambda>r. fr_sequence r \<le> n) rs \<and>
    flow_ok n (rf_outstanding s') qs s' \<and> rf_queued s' = rf_queued s \<and> rf_acknowledged s' = rf_acknowledged s \<and>
    rf_failed s' = rf_failed s"
  using assms
proof (induction rs arbitrary: ack s)
  case Nil
  then have "rf_next s \<le> Suc ack" by (simp add: flow_ok_def records_ok_def upt_Suc_Nil del: upt_Suc)
  then have "n = ack" using Nil by simp
  then show ?case using Nil by simp
next
  case (Cons r rs)
  have rec: "records_ok ack (r # rs) s" and str: "streams_ok (r # rs) qs s" and que: "queue_ok qs s"
    using Cons.prems(1) by (simp_all add: flow_ok_def)
  have seq: "fr_sequence r = Suc ack" using rec by (simp add: records_ok_def upt_Suc_Cons del: upt_Suc)
  show ?case
  proof (cases "Suc ack \<le> n")
    case False
    then have "n = ack" using Cons.prems(2) by simp
    then show ?thesis using Cons.prems(1) seq by simp
  next
    case True
    obtain st where st: "map_of (rf_streams s) (fr_key r) = Some st" using str by (auto simp: streams_ok_def)
    have fit: "stream_fit (r # rs) qs (fr_key r) st" by (rule flow_stream_fit [OF Cons.prems(1) st])
    have one: "sub64 (fs_outstanding st) 1 = fs_outstanding st - 1"
      using fit by (intro sub64_exact) (auto simp: stream_fit_def flow_limits)
    have bytes: "sub64 (rf_outstanding_bytes s) (fr_bytes r) = rf_outstanding_bytes s - fr_bytes r"
      using rec by (intro sub64_exact) (auto simp: records_ok_def flow_limits)
    let ?st = "st\<lparr>fs_outstanding := fs_outstanding st - 1\<rparr>"
    let ?s = "s\<lparr>rf_outstanding_bytes := rf_outstanding_bytes s - fr_bytes r, rf_streams :=
      (if \<not> fs_live ?st \<and> fs_outstanding ?st = 0 then omap_del (fr_key r) (rf_streams s)
       else omap_put (fr_key r) ?st (rf_streams s))\<rparr>"
    have ok: "flow_ok (Suc ack) rs qs ?s"
      unfolding flow_ok_def using records_ok_release [OF rec, of ?s] streams_ok_release [OF str st refl] que
      by (simp add: queue_ok_def split del: if_split)
    have run: "flow_release n (r # rs) s = flow_release n rs ?s"
      using True seq st by (simp add: one bytes Let_def del: One_nat_def split del: if_split)
    show ?thesis unfolding run using Cons.IH [OF ok] True Cons.prems(3) seq by simp
  qed
qed

lemma cumulative_find:
  assumes "records_ok ack out s" and "ack < n" and "n < rf_next s"
  shows "\<exists>r. find (\<lambda>r. fr_sequence r = n) out = Some r \<and>
    fr_cumulative r + flow_bytes (dropWhile (\<lambda>r. fr_sequence r \<le> n) out) = rf_transmitted s"
proof -
  have "\<exists>r. find (\<lambda>r. fr_sequence r = n) out = Some r \<and>
      fr_cumulative r + flow_bytes (dropWhile (\<lambda>r. fr_sequence r \<le> n) out) = t"
    if "map fr_sequence out = [Suc a..<m]" "cumulative_ok t out" "a < n" "n < m" for a m t
    using that
  proof (induction out arbitrary: a)
    case (Cons r rs)
    have r: "fr_sequence r = Suc a" "map fr_sequence rs = [Suc (Suc a)..<m]"
      using Cons.prems(1) by (simp_all add: upt_Suc_Cons del: upt_Suc)
    show ?case
    proof (cases "n = Suc a")
      case True
      have "fr_sequence x > n" if "x \<in> set rs" for x
      proof -
        have "fr_sequence x \<in> set [Suc (Suc a)..<m]" using that r(2) by (metis image_eqI set_map)
        then show ?thesis using True by simp
      qed
      then have "dropWhile (\<lambda>r. fr_sequence r \<le> n) rs = rs" by (simp add: dropWhile_eq_self_iff not_le)
      then show ?thesis using Cons.prems True r(1) by simp
    next
      case False
      then show ?thesis using Cons.IH [OF r(2)] Cons.prems r(1) by simp
    qed
  qed (simp add: upt_Suc_Nil del: upt_Suc)
  then show ?thesis using assms by (simp add: records_ok_def)
qed

text \<open>
  What an acknowledgement does: refused without a change, or the prefix is released and the queue drained.
\<close>

lemma flow_acknowledge_cases:
  assumes inv: "flow_inv s"
  shows "if \<not> rf_failed s \<and> session = rf_session s \<and> rf_acknowledged s < n \<and> n < rf_next s \<and>
      b + flow_bytes (dropWhile (\<lambda>r. fr_sequence r \<le> n) (rf_outstanding s)) = rf_transmitted s
    then \<exists>ok s' new. flow_acknowledge report session n b s = Some (ok, s') \<and> flow_inv s' \<and> rf_acknowledged s' = n \<and>
      rf_outstanding s' = dropWhile (\<lambda>r. fr_sequence r \<le> n) (rf_outstanding s) @ new \<and>
      (ok \<longrightarrow> moved (rf_queued s) (rf_queued s') new \<and> \<not> rf_failed s') \<and> (\<not> ok \<longrightarrow> rf_failed s')
    else flow_acknowledge report session n b s = Some (False, s)"
proof (cases "\<not> rf_failed s \<and> session = rf_session s \<and> rf_acknowledged s < n \<and> n < rf_next s")
  case False
  then show ?thesis by (auto simp: flow_acknowledge_def)
next
  case True
  have ok: "flow_ok (rf_acknowledged s) (rf_outstanding s) (rf_queued s) s" using inv by (simp add: flow_inv_def)
  then obtain r where r: "find (\<lambda>r. fr_sequence r = n) (rf_outstanding s) = Some r"
    "fr_cumulative r + flow_bytes (dropWhile (\<lambda>r. fr_sequence r \<le> n) (rf_outstanding s)) = rf_transmitted s"
    using cumulative_find [of "rf_acknowledged s" "rf_outstanding s" s n] True by (auto simp: flow_ok_def)
  show ?thesis
  proof (cases "fr_cumulative r = b")
    case False
    then show ?thesis using True r by (auto simp: flow_acknowledge_def)
  next
    case exact: True
    obtain s1 where rel: "flow_release n (rf_outstanding s) s = Some s1"
      "rf_outstanding s1 = dropWhile (\<lambda>r. fr_sequence r \<le> n) (rf_outstanding s)"
      "flow_ok n (rf_outstanding s1) (rf_queued s) s1" "rf_queued s1 = rf_queued s" "rf_failed s1 = rf_failed s"
      using flow_release_ok [OF ok, of n] True by auto
    have inv1: "flow_inv (s1\<lparr>rf_acknowledged := n\<rparr>)" using rel by (simp add: flow_inv_def)
    have run: "flow_acknowledge report session n b s = flow_drain report (s1\<lparr>rf_acknowledged := n\<rparr>)"
      using True r exact rel(1) by (simp add: flow_acknowledge_def)
    show ?thesis using True r(2) exact flow_drain_ok [OF inv1, of report] rel unfolding run by auto
  qed
qed

lemma flow_discard_exact:
  assumes "n = sum_list (map fp_reserved ps) + m" and "n \<le> u64_max"
  shows "flow_discard key ps n = (filter (\<lambda>p. fp_key p \<noteq> key) ps,
    sum_list (map fp_reserved (filter (\<lambda>p. fp_key p \<noteq> key) ps)) + m)"
  using assms
proof (induction ps arbitrary: n m)
  case (Cons p ps)
  show ?case
  proof (cases "fp_key p = key")
    case True
    have "sub64 n (fp_reserved p) = sum_list (map fp_reserved ps) + m" using Cons.prems by (simp add: sub64_exact)
    then show ?thesis using True Cons.IH [OF refl, of m] Cons.prems by simp
  next
    case False
    then show ?thesis using Cons.IH [of n "m + fp_reserved p"] Cons.prems by simp
  qed
qed simp

lemma waiting_filter: "waiting k (filter (\<lambda>p. fp_key p \<noteq> key) ps) = (if k = key then 0 else waiting k ps)"
  by (induction ps) auto

lemma flow_retire_ok:
  assumes ok: "flow_ok ack out qs s" and st: "map_of (rf_streams s) key = Some st" "fs_live st"
    and left: "left = filter (\<lambda>p. fp_key p \<noteq> key) qs"
    and t: "rf_live t = rf_live s - 1" "rf_queued_bytes t = sum_list (map fp_reserved left)" "rf_next t = rf_next s"
      "rf_transmitted t = rf_transmitted s" "rf_outstanding_bytes t = rf_outstanding_bytes s"
    and streams: "rf_streams t = omap_put key (st\<lparr>fs_live := False, fs_queued := 0\<rparr>) (rf_streams s) \<or>
      fs_outstanding st = 0 \<and> rf_streams t = omap_del key (rf_streams s)"
  shows "flow_ok ack out left t"
proof -
  let ?dead = "st\<lparr>fs_live := False, fs_queued := 0\<rparr>"
  have rec: "records_ok ack out s" and str: "streams_ok out qs s" and que: "queue_ok qs s"
    using ok by (simp_all add: flow_ok_def)
  have fit: "stream_fit out qs key st" by (rule flow_stream_fit [OF ok st(1)])
  have recs: "records_ok ack out t" using rec by (simp add: records_ok_def t)
  have "sum_list (map fp_reserved left) \<le> sum_list (map fp_reserved qs)"
    unfolding left by (induction qs) auto
  then have ques: "queue_ok left t"
    using que by (auto simp: queue_ok_def left t intro: le_trans [OF length_filter_le])
  have old: "stream_fit out left j u" if "map_of (rf_streams s) j = Some u" "j \<noteq> key" for j u
    using flow_stream_fit [OF ok that(1)] that(2) by (simp add: stream_fit_def left waiting_filter)
  have new: "stream_fit out left key ?dead"
    using fit by (simp add: stream_fit_def left waiting_filter)
  have live: "live_streams (rf_streams s) = Suc (live_streams (omap_del key (rf_streams s)))"
    using live_streams_del [OF _ st(1)] str st(2) by (simp add: streams_ok_def)
  from streams have "streams_ok out left t"
  proof
    assume m: "rf_streams t = omap_put key ?dead (rf_streams s)"
    have "live_streams (omap_put key ?dead (rf_streams s)) = live_streams (rf_streams s) - 1"
      using live_streams_put [of "rf_streams s" key ?dead] str live by (simp add: streams_ok_def)
    then show ?thesis using str old new by (auto simp: streams_ok_def left m t)
  next
    assume m: "fs_outstanding st = 0 \<and> rf_streams t = omap_del key (rf_streams s)"
    then have "\<forall>r \<in> set out. fr_key r \<noteq> key" using fit by (simp add: stream_fit_def of_key_zero)
    then show ?thesis using str old live m by (auto simp: streams_ok_def left t split: if_splits)
  qed
  then show ?thesis using recs ques by (simp add: flow_ok_def)
qed

lemma flow_retire_inv:
  assumes inv: "flow_inv s"
  shows "\<exists>b s'. flow_retire report control k g encode s = Some (b, s') \<and> flow_inv s' \<and> (\<not> b \<longrightarrow> rf_failed s' \<or> s' = s)"
proof (cases "flow_live k g s \<and> \<not> rf_failed s")
  case False
  then show ?thesis using inv by (cases "map_of (rf_streams s) (k, g)") (auto simp: flow_live_def flow_retire_def)
next
  case True
  then obtain st where st: "map_of (rf_streams s) (k, g) = Some st" "fs_live st"
    by (auto simp: flow_live_def split: option.splits)
  have ok: "flow_ok (rf_acknowledged s) (rf_outstanding s) (rf_queued s) s" using inv by (simp add: flow_inv_def)
  let ?left = "filter (\<lambda>p. fp_key p \<noteq> (k, g)) (rf_queued s)"
  let ?dead = "st\<lparr>fs_live := False, fs_queued := 0\<rparr>"
  let ?s1 = "s\<lparr>rf_live := rf_live s - 1, rf_queued := ?left, rf_queued_bytes := sum_list (map fp_reserved ?left),
    rf_streams := omap_put (k, g) ?dead (rf_streams s)\<rparr>"
  have bound: "rf_queued_bytes s = sum_list (map fp_reserved (rf_queued s)) + 0" "rf_queued_bytes s \<le> u64_max"
    using ok by (auto simp: flow_oks flow_limits)
  have "0 < rf_live s \<and> rf_live s \<le> u64_max"
    using ok live_streams_del [OF _ st(1)] st(2) by (auto simp: flow_ok_def streams_ok_def flow_limits)
  then have one: "sub64 (rf_live s) 1 = rf_live s - 1" by (intro sub64_exact) auto
  obtain ok1 w where w: "control (rf_world s) (encode (fs_last_sequence st)) = (ok1, w)" by fastforce
  let ?t = "if fs_outstanding st = 0 then ?s1\<lparr>rf_world := w, rf_streams := omap_del (k, g) (rf_streams s)\<rparr> else ?s1\<lparr>rf_world := w\<rparr>"
  have inv1: "flow_inv ?s1" "flow_inv (?s1\<lparr>rf_world := w\<rparr>)" "flow_inv ?t"
    unfolding flow_inv_def by (auto intro: flow_retire_ok [OF ok st refl])
  have run: "flow_retire report control k g encode s =
      (if encode (fs_last_sequence st) = [] then Some (False, flow_halt ?s1)
       else if \<not> ok1 then Some (False, flow_halt (?s1\<lparr>rf_world := w\<rparr>)) else flow_drain report ?t)"
    unfolding flow_retire_def Let_def flow_discard_exact [OF bound, of "(k, g)"] one
    using True st w by (simp add: omap_del_put)
  show ?thesis unfolding run using inv1 flow_drain_ok [OF inv1(3), of report]
    by (auto simp: flow_inv_def flow_halt_def)
qed

lemma flow_acknowledge_inv:
  assumes "flow_inv s"
  shows "\<exists>b s'. flow_acknowledge report session n k s = Some (b, s') \<and> flow_inv s'"
  using flow_acknowledge_cases [OF assms, of session n k report] assms by (fastforce split: if_splits)

lemma flow_step_inv: "flow_inv s \<Longrightarrow> flow_inv (flow_step report control a s)"
proof (cases a)
  case (Acknowledge g n b)
  assume "flow_inv s"
  from flow_acknowledge_inv [OF this, of report g n b] show ?thesis using Acknowledge by (auto simp: flow_after_def)
next
  case (Retire k g e)
  assume "flow_inv s"
  from flow_retire_inv [OF this, of report control k g e] show ?thesis using Retire by (auto simp: flow_after_def)
qed (auto simp: flow_add_stream_inv flow_submit_inv)

definition flow_window :: "'w report_flow \<Rightarrow> (nat \<times> nat) list" where
  "flow_window s = map (\<lambda>r. (fr_sequence r, fr_bytes r)) (rf_outstanding s)"

definition flow_sent_to :: "'w report_flow \<Rightarrow> nat \<times> nat" where
  "flow_sent_to s = (rf_next s - 1, rf_transmitted s)"

definition flow_acked_to :: "'w report_flow \<Rightarrow> nat \<times> nat" where
  "flow_acked_to s = (rf_acknowledged s, rf_transmitted s - flow_bytes (rf_outstanding s))"

interpretation thread_flow: credit_window "flow_step report control" flow_inv "\<lambda>_. True"
  flow_window flow_sent_to flow_acked_to session_report_frames session_report_bytes
  for report control :: "'w writer"
proof
  fix s :: "'w report_flow" and a assume "flow_inv s"
  then show "flow_inv (flow_step report control a s)" by (rule flow_step_inv)
next
  fix s :: "'w report_flow" assume inv: "flow_inv s"
  then have ok: "records_ok (rf_acknowledged s) (rf_outstanding s) s" by (simp add: flow_inv_def flow_ok_def)
  then have "map fst (flow_window s) = [Suc (rf_acknowledged s)..<rf_next s]"
    by (simp add: flow_window_def records_ok_def comp_def)
  then show "map fst (flow_window s) = [Suc (fst (flow_acked_to s))..<Suc (fst (flow_sent_to s))]"
    using ok by (simp add: flow_acked_to_def flow_sent_to_def records_ok_def del: upt_Suc)
  show "fst (flow_acked_to s) \<le> fst (flow_sent_to s)"
    using ok by (auto simp: flow_acked_to_def flow_sent_to_def records_ok_def)
  show "snd (flow_sent_to s) = snd (flow_acked_to s) + sum_list (map snd (flow_window s))"
    "length (flow_window s) \<le> session_report_frames \<and> sum_list (map snd (flow_window s)) \<le> session_report_bytes"
    using ok by (auto simp: flow_acked_to_def flow_sent_to_def flow_window_def records_ok_def comp_def)
qed

section \<open>Properties\<close>

text \<open>
  C27: over any sequence of calls, with any writers and encoders, at most 64 reports and 1 MiB are transmitted
  and not acknowledged, at most 64 reports and 1 MiB wait in the queue, the counters are exact sums, the
  sequence number \<open>2 ^ 64 - 1\<close> is never assigned, and no operation dereferences a missing stream.
\<close>

theorem flow_bounded:
  fixes report control :: "'w writer"
  assumes "s = run_actions (flow_step report control) as (flow_init session w)"
  shows "length (rf_outstanding s) \<le> 64 \<and> rf_outstanding_bytes s = flow_bytes (rf_outstanding s) \<and>
    rf_outstanding_bytes s \<le> 1048576 \<and> length (rf_queued s) \<le> 64 \<and>
    rf_queued_bytes s = sum_list (map fp_reserved (rf_queued s)) \<and> rf_queued_bytes s \<le> 1048576 \<and>
    map fr_sequence (rf_outstanding s) = [Suc (rf_acknowledged s)..<rf_next s] \<and> rf_next s \<le> u64_max \<and>
    flow_acknowledge report g n b s \<noteq> None \<and> flow_retire report control k i encode s \<noteq> None"
proof -
  have inv: "flow_inv s" unfolding assms by (rule thread_flow.run_inv [OF flow_init_inv]) (simp add: list_all_iff)
  then show ?thesis
    using flow_acknowledge_inv [OF inv, of report g n b] flow_retire_inv [OF inv, of report control k i encode]
    by (auto simp: flow_inv_def flow_oks session_report_frames_def session_report_bytes_def
        queued_report_frames_def queued_report_bytes_def)
qed

text \<open>A stream with one transmitted report of six characters.\<close>

definition willing_writer :: "unit writer" where
  "willing_writer w frame = (True, w)"

definition sample_flow :: "unit report_flow" where
  "sample_flow = run_actions (flow_step willing_writer willing_writer)
     [AddStream ''a'' 1 4, Submit ''a'' 1 (\<lambda>q. ''report'')] (flow_init ''s'' ())"

lemma sample_flow_inv: "flow_inv sample_flow"
  unfolding sample_flow_def by (rule thread_flow.run_inv [OF flow_init_inv]) simp

lemma sample_flow_fields:
  "\<not> rf_failed sample_flow" "rf_session sample_flow = ''s''" "rf_acknowledged sample_flow = 0" "rf_next sample_flow = 2"
  "rf_transmitted sample_flow = 7" "map fr_sequence (rf_outstanding sample_flow) = [1]"
  by (simp_all add: sample_flow_def flow_add_stream_def flow_submit_def flow_transmit_def flow_available_def
      willing_writer_def flow_init_def omap_has_def add64_def sub64_def flow_limits Let_def)

theorem flow_bounded_witness: "rf_outstanding_bytes sample_flow \<le> 1048576"
  using flow_bounded [OF sample_flow_def] by blast

text \<open>
  An acknowledgement is accepted exactly when the session is this one, the sequence number was transmitted
  and not acknowledged before, and the byte count is the cumulative count up to it; it then releases exactly
  that prefix and sends reports that waited, each stream in its order and without loss.  Anything else
  changes nothing.
\<close>

theorem flow_acknowledge_exact:
  assumes "flow_inv s"
  shows "if \<not> rf_failed s \<and> session = rf_session s \<and> rf_acknowledged s < n \<and> n < rf_next s \<and>
      b + flow_bytes (dropWhile (\<lambda>r. fr_sequence r \<le> n) (rf_outstanding s)) = rf_transmitted s
    then \<exists>ok s' new. flow_acknowledge report session n b s = Some (ok, s') \<and> flow_inv s' \<and> rf_acknowledged s' = n \<and>
      rf_outstanding s' = dropWhile (\<lambda>r. fr_sequence r \<le> n) (rf_outstanding s) @ new \<and>
      (ok \<longrightarrow> moved (rf_queued s) (rf_queued s') new \<and> \<not> rf_failed s') \<and> (\<not> ok \<longrightarrow> rf_failed s')
    else flow_acknowledge report session n b s = Some (False, s)"
  using assms by (rule flow_acknowledge_cases)

theorem flow_acknowledge_exact_witness:
  "\<exists>r. flow_acknowledge willing_writer ''s'' 1 7 sample_flow = Some r \<and> rf_acknowledged (snd r) = 1"
proof -
  have "dropWhile (\<lambda>r. fr_sequence r \<le> 1) (rf_outstanding sample_flow) = []"
    using sample_flow_fields(6) by auto
  then show ?thesis
    using flow_acknowledge_exact [OF sample_flow_inv, of "''s''" 1 7 willing_writer] sample_flow_fields by auto
qed

end
