(* ===== verification/Thread_Streams.thy ===== *)
theory Thread_Streams
  imports Thread_Flow Wotex_Json
begin

text \<open>
  The State subscriptions of the OpenThread host (\<open>streams.hpp\<close>) over the report flow.  The JSON serializer
  and the encoder of a State value are parameters, the control writer shares the caller's state with the
  flow's writers, and \<open>None\<close> is undefined behaviour inside the flow.
\<close>

section \<open>Model\<close>

record ('w) state_streams =
  ss_flow :: "'w report_flow"
  ss_listeners :: "(flow_key \<times> bool) list"
  ss_errors :: nat
  ss_retirements :: nat
  ss_next :: u64
  ss_pending :: "32 word"
  ss_failed :: bool

text \<open>What the class is constructed with: the writers, the value encoder and the serializer.\<close>

record 'w stream_env =
  se_report :: "'w writer"
  se_control :: "'w writer"
  se_encoder :: "json \<Rightarrow> string"
  se_dump :: "json \<Rightarrow> string"

definition streams_init :: "'w report_flow \<Rightarrow> 'w state_streams" where
  "streams_init flow = \<lparr>ss_flow = flow, ss_listeners = [], ss_errors = 0, ss_retirements = 0, ss_next = 1,
     ss_pending = 0, ss_failed = False\<rparr>"

definition streams_open :: "string \<Rightarrow> nat \<Rightarrow> 'w state_streams \<Rightarrow> u64 \<times> 'w state_streams" where
  "streams_open subscription queue_limit s =
     (if ss_next s = u64_max then (0, s)
      else let (ok, flow) = flow_add_stream subscription (ss_next s) queue_limit (ss_flow s)
      in if \<not> ok then (0, s\<lparr>ss_flow := flow\<rparr>)
         else (ss_next s, s\<lparr>ss_flow := flow, ss_next := add64 (ss_next s) 1,
                ss_listeners := omap_emplace (subscription, ss_next s) True (ss_listeners s)\<rparr>))"

definition stream_head :: "string \<Rightarrow> flow_key \<Rightarrow> u64 \<Rightarrow> json" where
  "stream_head session key sequence =
     JObject [(''event'', JString ''state''), (''generation'', JUnsigned (snd key)),
       (''report_sequence'', JUnsigned sequence), (''session_generation'', JString session),
       (''subscription_id'', JString (fst key)), (''version'', JInt 1)]"

definition stream_tail :: "'w stream_env \<Rightarrow> json \<Rightarrow> 32 word \<Rightarrow> string" where
  "stream_tail env value flags =
     '',\"metadata\":{\"changed_flags\":'' @ to_decimal (unat flags) @ ''},\"value\":'' @ se_encoder env value @ ''}''"

definition stream_encode :: "'w stream_env \<Rightarrow> string \<Rightarrow> flow_key \<Rightarrow> string \<Rightarrow> encoder" where
  "stream_encode env session key tail sequence = butlast (se_dump env (stream_head session key sequence)) @ tail"

definition stream_barrier :: "'w stream_env \<Rightarrow> string \<Rightarrow> flow_key \<Rightarrow> encoder" where
  "stream_barrier env session key last_sequence =
     se_dump env (JObject [(''event'', JString ''stream_retired''), (''generation'', JUnsigned (snd key)),
       (''last_report_sequence'', JUnsigned last_sequence), (''session_generation'', JString session),
       (''subscription_id'', JString (fst key)), (''version'', JInt 1)])"

definition stream_error :: "string \<Rightarrow> flow_key \<Rightarrow> json" where
  "stream_error session key =
     JObject [(''code'', JString ''queue_overflow''), (''event'', JString ''stream_error''),
       (''generation'', JUnsigned (snd key)), (''session_generation'', JString session),
       (''subscription_id'', JString (fst key)), (''version'', JInt 1)]"

definition streams_retire :: "'w stream_env \<Rightarrow> flow_key \<Rightarrow> 'w state_streams \<Rightarrow> (bool \<times> 'w state_streams) option" where
  "streams_retire env key s =
     (let s1 = s\<lparr>ss_retirements := ss_retirements s + 1\<rparr>
      in case flow_retire (se_report env) (se_control env) (fst key) (snd key)
               (stream_barrier env (rf_session (ss_flow s)) key) (ss_flow s1) of
           None \<Rightarrow> None
         | Some (ok, flow) \<Rightarrow> Some (ok, s1\<lparr>ss_flow := flow\<rparr>))"

text \<open>The terminal loss of a stream, at the end of \<open>submit\<close>.\<close>

definition streams_overflow :: "'w stream_env \<Rightarrow> flow_key \<Rightarrow> 'w state_streams \<Rightarrow> 'w state_streams option" where
  "streams_overflow env key s =
     (let session = rf_session (ss_flow s);
          s1 = s\<lparr>ss_listeners := omap_del key (ss_listeners s), ss_errors := ss_errors s + 1\<rparr>;
          (ok, w) = se_control env (rf_world (ss_flow s1)) (se_dump env (stream_error session key));
          s2 = s1\<lparr>ss_flow := (ss_flow s1)\<lparr>rf_world := w\<rparr>\<rparr>
      in if \<not> ok then Some (s2\<lparr>ss_failed := True\<rparr>)
         else case streams_retire env key s2 of
                None \<Rightarrow> None
              | Some (True, s3) \<Rightarrow> Some s3
              | Some (False, s3) \<Rightarrow> Some (s3\<lparr>ss_failed := True\<rparr>))"

definition streams_submit ::
  "'w stream_env \<Rightarrow> flow_key \<Rightarrow> json \<Rightarrow> 32 word \<Rightarrow> 'w state_streams \<Rightarrow> 'w state_streams option" where
  "streams_submit env key value flags s =
     (let session = rf_session (ss_flow s);
          (r, flow) = flow_submit (se_report env) (fst key) (snd key)
            (stream_encode env session key (stream_tail env value flags)) (ss_flow s);
          s1 = s\<lparr>ss_flow := flow\<rparr>
      in if r \<noteq> Overflow then Some s1 else streams_overflow env key s1)"

definition streams_initial ::
  "'w stream_env \<Rightarrow> string \<Rightarrow> u64 \<Rightarrow> json \<Rightarrow> 'w state_streams \<Rightarrow> 'w state_streams option" where
  "streams_initial env subscription generation snapshot s =
     (if omap_has (subscription, generation) (ss_listeners s)
      then streams_submit env (subscription, generation) snapshot 0 s else Some s)"

definition streams_changed :: "32 word \<Rightarrow> 'w state_streams \<Rightarrow> 'w state_streams" where
  "streams_changed flags s = s\<lparr>ss_pending := or (ss_pending s) flags\<rparr>"

text \<open>
  The loop of \<open>flush\<close> moves its iterator before it submits, and a submission erases at most its own listener,
  so it visits the keys the map had.
\<close>

fun streams_flush_loop ::
  "'w stream_env \<Rightarrow> json \<Rightarrow> 32 word \<Rightarrow> flow_key list \<Rightarrow> 'w state_streams \<Rightarrow> 'w state_streams option" where
  "streams_flush_loop env value flags [] s = Some s"
| "streams_flush_loop env value flags (key # keys) s =
     (case streams_submit env key value flags s of
        None \<Rightarrow> None
      | Some s' \<Rightarrow> streams_flush_loop env value flags keys s')"

definition streams_flush :: "'w stream_env \<Rightarrow> json \<Rightarrow> 'w state_streams \<Rightarrow> 'w state_streams option" where
  "streams_flush env snapshot s =
     (let flags = ss_pending s; s1 = s\<lparr>ss_pending := 0\<rparr>
      in if flags = 0 \<or> ss_listeners s1 = [] then Some s1
         else streams_flush_loop env snapshot flags (map fst (ss_listeners s1)) s1)"

definition streams_remove ::
  "'w stream_env \<Rightarrow> string \<Rightarrow> u64 \<Rightarrow> 'w state_streams \<Rightarrow> (bool \<times> 'w state_streams) option" where
  "streams_remove env subscription generation s =
     (let key = (subscription, generation)
      in if \<not> omap_has key (ss_listeners s) then Some (False, s)
         else case streams_retire env key (s\<lparr>ss_listeners := omap_del key (ss_listeners s)\<rparr>) of
                None \<Rightarrow> None
              | Some (True, s') \<Rightarrow> Some (True, s')
              | Some (False, s') \<Rightarrow> Some (False, s'\<lparr>ss_failed := True\<rparr>))"

definition streams_acknowledge ::
  "'w stream_env \<Rightarrow> string \<Rightarrow> u64 \<Rightarrow> u64 \<Rightarrow> 'w state_streams \<Rightarrow> (bool \<times> 'w state_streams) option" where
  "streams_acknowledge env session n b s =
     (case flow_acknowledge (se_report env) session n b (ss_flow s) of
        None \<Rightarrow> None
      | Some (ok, flow) \<Rightarrow> Some (ok, s\<lparr>ss_flow := flow\<rparr>))"

definition streams_broken :: "'w state_streams \<Rightarrow> bool" where
  "streams_broken s \<longleftrightarrow> ss_failed s \<or> rf_failed (ss_flow s)"

text \<open>The calls of the host; the owner's acknowledgement goes to the flow directly.\<close>

datatype streams_action =
    StreamsOpen string nat
  | StreamsInitial string u64 json
  | StreamsChanged "32 word"
  | StreamsFlush json
  | StreamsRemove string u64
  | StreamsAcknowledge string u64 u64

fun streams_step :: "'w stream_env \<Rightarrow> streams_action \<Rightarrow> 'w state_streams \<Rightarrow> 'w state_streams option" where
  "streams_step env (StreamsOpen k n) s = Some (snd (streams_open k n s))"
| "streams_step env (StreamsInitial k g v) s = streams_initial env k g v s"
| "streams_step env (StreamsChanged f) s = Some (streams_changed f s)"
| "streams_step env (StreamsFlush v) s = streams_flush env v s"
| "streams_step env (StreamsRemove k g) s = map_option snd (streams_remove env k g s)"
| "streams_step env (StreamsAcknowledge g n b) s = map_option snd (streams_acknowledge env g n b s)"

fun streams_run :: "'w stream_env \<Rightarrow> streams_action list \<Rightarrow> 'w state_streams \<Rightarrow> 'w state_streams option" where
  "streams_run env [] s = Some s"
| "streams_run env (a # as) s = (case streams_step env a s of None \<Rightarrow> None | Some s' \<Rightarrow> streams_run env as s')"

section \<open>Which streams are live\<close>

definition live_keys :: "'w report_flow \<Rightarrow> flow_key set" where
  "live_keys s = {k. \<exists>st. map_of (rf_streams s) k = Some st \<and> fs_live st}"

lemma live_keys_same:
  "map_of (rf_streams s) k = Some st \<Longrightarrow> rf_streams s' = omap_put k st' (rf_streams s) \<Longrightarrow> fs_live st' = fs_live st \<Longrightarrow>
   live_keys s' = live_keys s"
  by (auto simp: live_keys_def)

lemma live_keys_frame: "rf_streams s' = rf_streams s \<Longrightarrow> live_keys s' = live_keys s"
  by (simp add: live_keys_def)

lemma live_keys_kept:
  assumes "map_of (rf_streams s) k = Some st"
    and "rf_streams s' = rf_streams s \<or>
      (\<exists>st'. rf_streams s' = omap_put k st' (rf_streams s) \<and> fs_live st' = fs_live st)"
  shows "live_keys s' = live_keys s"
  using assms(2) live_keys_same [OF assms(1)] live_keys_frame by blast

lemma live_keys_updates [simp]:
  "live_keys (s\<lparr>rf_queued := q\<rparr>) = live_keys s" "live_keys (s\<lparr>rf_failed := b\<rparr>) = live_keys s"
  "live_keys (s\<lparr>rf_acknowledged := n\<rparr>) = live_keys s" "live_keys (s\<lparr>rf_outstanding := rs\<rparr>) = live_keys s"
  "live_keys (s\<lparr>rf_world := w\<rparr>) = live_keys s"
  by (simp_all add: live_keys_def)

lemma flow_transmit_live:
  assumes "map_of (rf_streams s) k = Some st" and "flow_transmit report k st frame s = (b, s')"
  shows "live_keys s' = live_keys s"
  by (rule live_keys_kept [OF assms(1)])
    (use assms(2) in \<open>auto simp: flow_transmit_def Let_def split: if_splits prod.splits\<close>)

lemma flow_drain_loop_live:
  "flow_drain_loop report kept rest s = Some (b, s') \<Longrightarrow> live_keys s' = live_keys s"
proof (induction rest arbitrary: kept s)
  case (Cons p rest)
  note IH = Cons.IH
  show ?case
  proof (cases "\<exists>q \<in> set kept. fp_key q = fp_key p")
    case True
    then show ?thesis using Cons.prems IH by simp
  next
    case first: False
    then obtain st where st: "map_of (rf_streams s) (fp_key p) = Some st" using Cons.prems by (auto split: option.splits)
    let ?frame = "fp_encode p (rf_next s)"
    let ?st = "st\<lparr>fs_queued := sub64 (fs_queued st) 1\<rparr>"
    let ?s1 = "s\<lparr>rf_queued_bytes := sub64 (rf_queued_bytes s) (fp_reserved p),
        rf_streams := omap_put (fp_key p) ?st (rf_streams s)\<rparr>"
    obtain ok s2 where tr: "flow_transmit report (fp_key p) ?st ?frame ?s1 = (ok, s2)" by fastforce
    have live: "live_keys s2 = live_keys s"
      using flow_transmit_live [OF _ tr] live_keys_same [OF st, of ?s1 ?st] by simp
    have run: "flow_drain_loop report kept (p # rest) s =
        (if \<not> flow_available st s then flow_drain_loop report (kept @ [p]) rest s
         else if ?frame = [] \<or> length ?frame + 1 > fp_reserved p
         then Some (False, flow_halt (s\<lparr>rf_queued := kept @ p # rest\<rparr>))
         else if length ?frame + 1 > sub64 session_report_bytes (rf_outstanding_bytes s)
         then flow_drain_loop report (kept @ [p]) rest s
         else if ok then flow_drain_loop report kept rest s2
         else Some (False, flow_halt (s2\<lparr>rf_queued := kept @ rest\<rparr>)))"
      using first st tr by (simp del: One_nat_def)
    show ?thesis
      using Cons.prems IH [of "kept @ [p]" s] IH [of kept s2] live unfolding run
      by (simp add: flow_halt_def split: if_splits) (metis live_keys_updates(1,2))+
  qed
qed auto

lemma flow_drain_live: "flow_drain report s = Some (b, s') \<Longrightarrow> live_keys s' = live_keys s"
  by (auto simp: flow_drain_def dest: flow_drain_loop_live)

lemma flow_release_live: "flow_release n rs s = Some s' \<Longrightarrow> live_keys s' = live_keys s"
proof (induction n rs s arbitrary: s' rule: flow_release.induct)
  case (2 n r rs s)
  show ?case
  proof (cases "fr_sequence r \<le> n")
    case False
    then show ?thesis using "2.prems" by auto
  next
    case True
    then obtain st where st: "map_of (rf_streams s) (fr_key r) = Some st" using "2.prems" by (auto split: option.splits)
    let ?st = "st\<lparr>fs_outstanding := sub64 (fs_outstanding st) 1\<rparr>"
    let ?s1 = "s\<lparr>rf_outstanding_bytes := sub64 (rf_outstanding_bytes s) (fr_bytes r),
      rf_streams := (if \<not> fs_live ?st \<and> fs_outstanding ?st = 0 then omap_del (fr_key r) (rf_streams s)
                     else omap_put (fr_key r) ?st (rf_streams s))\<rparr>"
    have run: "flow_release n rs ?s1 = Some s'"
      using "2.prems" True st by (simp add: Let_def del: One_nat_def split del: if_split)
    have "live_keys ?s1 = live_keys s" using st by (auto simp: live_keys_def)
    then show ?thesis using "2.IH" [OF _ st refl run] True by simp
  qed
qed auto

lemma flow_acknowledge_live:
  assumes "flow_acknowledge report session n b s = Some (ok, s')"
  shows "live_keys s' = live_keys s"
proof -
  consider "s' = s" | s1 where "flow_release n (rf_outstanding s) s = Some s1"
      "flow_drain report (s1\<lparr>rf_acknowledged := n\<rparr>) = Some (ok, s')"
    using assms by (auto simp: flow_acknowledge_def split: if_splits option.splits)
  then show ?thesis
  proof cases
    case 2
    then show ?thesis using flow_release_live [OF 2(1)] flow_drain_live [OF 2(2)] by simp
  qed simp
qed

lemma flow_enqueue_live: "map_of (rf_streams s) k = Some st \<Longrightarrow> live_keys (snd (flow_enqueue k st encode s)) = live_keys s"
  by (rule live_keys_kept) (auto simp: flow_enqueue_def Let_def)

lemma flow_submit_live:
  assumes "flow_submit report k g encode s = (r, s')"
  shows "live_keys s' = live_keys s \<and> (rf_failed s \<longrightarrow> rf_failed s') \<and> rf_session s' = rf_session s"
proof (cases "map_of (rf_streams s) (k, g)")
  case None
  then show ?thesis using assms by (simp add: flow_submit_def)
next
  case (Some st)
  obtain b t where tr: "flow_transmit report (k, g) st (encode (rf_next s)) s = (b, t)" by fastforce
  have t: "live_keys t = live_keys s" "rf_failed t = rf_failed s" "rf_session t = rf_session s"
    using flow_transmit_live [OF Some tr] tr by (auto simp: flow_transmit_def Let_def split: if_splits prod.splits)
  have e: "live_keys (snd (flow_enqueue (k, g) st encode s)) = live_keys s"
    "rf_failed (snd (flow_enqueue (k, g) st encode s)) = rf_failed s"
    "rf_session (snd (flow_enqueue (k, g) st encode s)) = rf_session s"
    using flow_enqueue_live [OF Some] by (simp_all add: flow_enqueue_def Let_def)
  consider "s' = s" | "s' = t" | "s' = flow_halt t" | "s' = snd (flow_enqueue (k, g) st encode s)"
    using assms Some tr by (auto simp: flow_submit_def Let_def split: if_splits dest: sym)
  then show ?thesis using t e by cases (auto simp: flow_halt_def)
qed

lemma flow_retire_live:
  assumes "flow_retire report control k g encode s = Some (b, s')"
  shows "if b then live_keys s' = live_keys s - {(k, g)} \<and> (k, g) \<in> live_keys s \<and> \<not> rf_failed s
    else s' = s \<or> \<not> rf_failed s"
proof (cases "(k, g) \<in> live_keys s \<and> \<not> rf_failed s")
  case False
  then have "flow_retire report control k g encode s = Some (False, s)"
    by (cases "map_of (rf_streams s) (k, g)") (auto simp: flow_retire_def live_keys_def)
  then show ?thesis using assms by simp
next
  case True
  then obtain st where st: "map_of (rf_streams s) (k, g) = Some st" "fs_live st" by (auto simp: live_keys_def)
  show ?thesis
  proof (cases b)
    case False
    then show ?thesis using True by simp
  next
    case ok: True
    then obtain t where t: "flow_drain report t = Some (True, s')"
      "rf_streams t = omap_put (k, g) (st\<lparr>fs_live := False, fs_queued := 0\<rparr>) (rf_streams s) \<or>
       rf_streams t = omap_del (k, g) (rf_streams s)"
      using assms True st by (auto simp: flow_retire_def omap_del_put Let_def split: if_splits prod.splits)
    have "live_keys t = live_keys s - {(k, g)}" using t(2) by (auto simp: live_keys_def split: if_splits)
    then show ?thesis using flow_drain_live [OF t(1)] ok True by simp
  qed
qed

section \<open>Listeners are the live streams\<close>

definition listener_keys :: "'w state_streams \<Rightarrow> flow_key set" where
  "listener_keys s = fst ` set (ss_listeners s)"

definition listeners_inv :: "'w state_streams \<Rightarrow> bool" where
  "listeners_inv s \<longleftrightarrow> flow_inv (ss_flow s) \<and> omap_ok (ss_listeners s) \<and>
     (\<not> streams_broken s \<longrightarrow> listener_keys s = live_keys (ss_flow s))"

lemma set_omap_del: "set (omap_del k m) = {p \<in> set m. fst p \<noteq> k}"
  by (auto simp: omap_del_def)

lemma listener_keys_del [simp]: "fst ` set (omap_del k m) = fst ` set m - {k}"
  by (auto simp: set_omap_del)

lemma flow_add_stream_live:
  assumes "flow_add_stream k g n s = (ok, s')"
  shows "live_keys s' = (if ok then insert (k, g) (live_keys s) else live_keys s) \<and> rf_failed s' = rf_failed s"
  using assms by (auto simp: flow_add_stream_def live_keys_def split: if_splits)

lemma streams_open_inv:
  assumes "listeners_inv s"
  shows "listeners_inv (snd (streams_open k n s))"
proof (cases "ss_next s = u64_max")
  case False
  obtain ok f where f: "flow_add_stream k (ss_next s) n (ss_flow s) = (ok, f)" by fastforce
  have "flow_inv f" using flow_add_stream_inv [of "ss_flow s" k "ss_next s" n] assms f by (simp add: listeners_inv_def)
  then show ?thesis
    using assms False f flow_add_stream_live [OF f]
    by (auto simp: streams_open_def listeners_inv_def listener_keys_def streams_broken_def omap_emplace_def
        set_omap_put_fst omap_has_iff insert_absorb)
qed (use assms in \<open>simp add: streams_open_def\<close>)

lemma streams_retire_ok:
  assumes "flow_inv (ss_flow s)" and "omap_ok (ss_listeners s)"
    and listeners: "\<not> streams_broken s \<Longrightarrow> listener_keys s = live_keys (ss_flow s) - {key}"
  shows "\<exists>b s'. streams_retire env key s = Some (b, s') \<and> listeners_inv (if b then s' else s'\<lparr>ss_failed := True\<rparr>)"
proof -
  let ?e = "stream_barrier env (rf_session (ss_flow s)) key"
  obtain b f where f: "flow_retire (se_report env) (se_control env) (fst key) (snd key) ?e (ss_flow s) = Some (b, f)"
    "flow_inv f" using flow_retire_inv [OF assms(1)] by blast
  have "\<not> rf_failed (ss_flow s) \<and> live_keys f = live_keys (ss_flow s) - {key}" if b
    using flow_retire_live [OF f(1)] that by simp
  then show ?thesis
    using f assms by (auto simp: streams_retire_def listeners_inv_def streams_broken_def listener_keys_def)
qed

lemma streams_overflow_inv:
  assumes inv: "listeners_inv s"
  shows "\<exists>s'. streams_overflow env key s = Some s' \<and> listeners_inv s'"
proof -
  let ?s1 = "s\<lparr>ss_listeners := omap_del key (ss_listeners s), ss_errors := ss_errors s + 1\<rparr>"
  obtain ok w where w: "se_control env (rf_world (ss_flow s)) (se_dump env (stream_error (rf_session (ss_flow s)) key)) = (ok, w)"
    by fastforce
  let ?s2 = "?s1\<lparr>ss_flow := (ss_flow s)\<lparr>rf_world := w\<rparr>\<rparr>"
  have flow: "flow_inv ((ss_flow s)\<lparr>rf_world := w\<rparr>)" using inv by (simp add: listeners_inv_def flow_inv_def)
  have ok2: "flow_inv (ss_flow ?s2)" "omap_ok (ss_listeners ?s2)"
    "\<not> streams_broken ?s2 \<Longrightarrow> listener_keys ?s2 = live_keys (ss_flow ?s2) - {key}"
    using flow inv by (auto simp: listeners_inv_def streams_broken_def listener_keys_def)
  obtain b s3 where r: "streams_retire env key ?s2 = Some (b, s3)" "listeners_inv (if b then s3 else s3\<lparr>ss_failed := True\<rparr>)"
    using streams_retire_ok [OF ok2] by blast
  show ?thesis
    using w r ok2(1,2) by (cases ok; cases b) (auto simp: streams_overflow_def listeners_inv_def streams_broken_def)
qed

lemma streams_submit_inv:
  assumes inv: "listeners_inv s"
  shows "\<exists>s'. streams_submit env key v flags s = Some s' \<and> listeners_inv s'"
proof -
  let ?e = "stream_encode env (rf_session (ss_flow s)) key (stream_tail env v flags)"
  obtain r f where f: "flow_submit (se_report env) (fst key) (snd key) ?e (ss_flow s) = (r, f)" by fastforce
  have "flow_inv f"
    using flow_submit_inv [of "ss_flow s" "se_report env" "fst key" "snd key" ?e] inv f by (simp add: listeners_inv_def)
  then have "listeners_inv (s\<lparr>ss_flow := f\<rparr>)"
    using inv flow_submit_live [OF f] by (auto simp: listeners_inv_def streams_broken_def listener_keys_def)
  then show ?thesis using f streams_overflow_inv [of "s\<lparr>ss_flow := f\<rparr>" env key]
    by (simp add: streams_submit_def Let_def)
qed

lemma streams_flush_loop_inv:
  "listeners_inv s \<Longrightarrow> \<exists>s'. streams_flush_loop env v flags ks s = Some s' \<and> listeners_inv s'"
proof (induction ks arbitrary: s)
  case (Cons k ks)
  obtain s1 where "streams_submit env k v flags s = Some s1" "listeners_inv s1"
    using streams_submit_inv [OF Cons.prems] by blast
  then show ?case using Cons.IH by simp
qed simp

lemma streams_step_inv:
  assumes inv: "listeners_inv s"
  shows "\<exists>s'. streams_step env a s = Some s' \<and> listeners_inv s'"
proof (cases a)
  case (StreamsOpen k n)
  then show ?thesis using streams_open_inv [OF inv] by simp
next
  case (StreamsInitial k g v)
  then show ?thesis using inv streams_submit_inv [OF inv] by (simp add: streams_initial_def)
next
  case (StreamsChanged f)
  then show ?thesis using inv by (simp add: streams_changed_def listeners_inv_def streams_broken_def listener_keys_def)
next
  case (StreamsFlush v)
  have "listeners_inv (s\<lparr>ss_pending := 0\<rparr>)" using inv by (simp add: listeners_inv_def streams_broken_def listener_keys_def)
  then show ?thesis using StreamsFlush streams_flush_loop_inv by (auto simp: streams_flush_def Let_def)
next
  case (StreamsRemove k g)
  let ?s = "s\<lparr>ss_listeners := omap_del (k, g) (ss_listeners s)\<rparr>"
  obtain b t where t: "streams_retire env (k, g) ?s = Some (b, t)" "listeners_inv (if b then t else t\<lparr>ss_failed := True\<rparr>)"
    using streams_retire_ok [of ?s "(k, g)" env] inv by (auto simp: listeners_inv_def streams_broken_def listener_keys_def)
  then show ?thesis using inv StreamsRemove by (cases b) (auto simp: streams_remove_def Let_def)
next
  case (StreamsAcknowledge g n b)
  have flow: "flow_inv (ss_flow s)" using inv by (simp add: listeners_inv_def)
  obtain ok f where f: "flow_acknowledge (se_report env) g n b (ss_flow s) = Some (ok, f)" "flow_inv f"
    using flow_acknowledge_inv [OF flow] by blast
  have "rf_failed (ss_flow s) \<Longrightarrow> f = ss_flow s" using f(1) by (simp add: flow_acknowledge_def)
  then have "listeners_inv (s\<lparr>ss_flow := f\<rparr>)"
    using inv f(2) flow_acknowledge_live [OF f(1)] by (auto simp: listeners_inv_def streams_broken_def listener_keys_def)
  then show ?thesis using StreamsAcknowledge f(1) by (simp add: streams_acknowledge_def)
qed

lemma streams_run_inv: "listeners_inv s \<Longrightarrow> \<exists>s'. streams_run env as s = Some s' \<and> listeners_inv s'"
proof (induction as arbitrary: s)
  case (Cons a as)
  obtain s1 where "streams_step env a s = Some s1" "listeners_inv s1" using streams_step_inv [OF Cons.prems] by blast
  then show ?case using Cons.IH by simp
qed simp

text \<open>
  C16: over any sequence of subscriptions, snapshots, flag changes, flushes, removals and acknowledgements, with
  any writers and encoders, no operation leaves defined behaviour, and as long as the session has not failed
  the listeners are exactly the streams that are live in the report flow: a stream that overflowed or was
  removed is never reported to again, and none is forgotten.
\<close>

theorem streams_listeners_live:
  "\<exists>s. streams_run env as (streams_init (flow_init session w)) = Some s \<and>
     (\<not> streams_broken s \<longrightarrow> (\<forall>k g. omap_has (k, g) (ss_listeners s) \<longleftrightarrow> flow_live k g (ss_flow s)))"
proof -
  have "listeners_inv (streams_init (flow_init session w))"
    by (simp add: listeners_inv_def streams_init_def flow_init_inv listener_keys_def live_keys_def) (simp add: flow_init_def)
  then obtain s where s: "streams_run env as (streams_init (flow_init session w)) = Some s" "listeners_inv s"
    using streams_run_inv by blast
  have "omap_has (k, g) (ss_listeners s) \<longleftrightarrow> flow_live k g (ss_flow s)" if "\<not> streams_broken s" for k g
  proof -
    have "(k, g) \<in> listener_keys s \<longleftrightarrow> (k, g) \<in> live_keys (ss_flow s)" using that s(2) by (simp add: listeners_inv_def)
    then show ?thesis by (simp add: listener_keys_def live_keys_def flow_live_def omap_has_iff split: option.splits)
  qed
  then show ?thesis using s(1) by blast
qed

definition sample_env :: "unit stream_env" where
  "sample_env = \<lparr>se_report = willing_writer, se_control = willing_writer, se_encoder = (\<lambda>_. ''1''), se_dump = (\<lambda>_. ''{}'')\<rparr>"

theorem streams_listeners_live_witness:
  "\<exists>s. streams_run sample_env [StreamsOpen ''a'' 4] (streams_init (flow_init ''s'' ())) = Some s \<and>
     flow_live ''a'' 1 (ss_flow s)"
proof -
  obtain s where s: "streams_run sample_env [StreamsOpen ''a'' 4] (streams_init (flow_init ''s'' ())) = Some s"
    and live: "\<not> streams_broken s \<longrightarrow> (\<forall>k g. omap_has (k, g) (ss_listeners s) \<longleftrightarrow> flow_live k g (ss_flow s))"
    using streams_listeners_live [of sample_env "[StreamsOpen ''a'' 4]" "''s''" "()"] by blast
  have "\<not> streams_broken s" "omap_has (''a'', 1) (ss_listeners s)"
    using s by (auto simp: streams_open_def streams_init_def flow_init_def flow_add_stream_def omap_has_def
        flow_limits streams_broken_def omap_emplace_def Let_def)
  then show ?thesis using s live by blast
qed

end
