(* ===== verification/Thread_Dataset.thy ===== *)
theory Thread_Dataset
  imports Thread_Protocol
begin

text \<open>
  Operational datasets of the OpenThread host (\<open>dataset.hpp\<close>): the envelope, and the two loops over the
  type-length-value bytes.  The base64 functions and the dataset functions of the SDK are third-party code and
  parameters.  An \<open>otOperationalDatasetTlvs\<close> is its array of 254 bytes and its length byte; reading past the
  array is undefined behaviour, the value \<open>None\<close> of a read.
\<close>

section \<open>Model\<close>

type_synonym octets = "8 word list"

datatype dataset_error = DatasetProtocol | DatasetInvalid

record tlvs =
  tv_bytes :: octets
  tv_length :: nat

definition dataset_limit :: nat where "dataset_limit = 254"

definition tlvs_ok :: "tlvs \<Rightarrow> bool" where
  "tlvs_ok t \<longleftrightarrow> length (tv_bytes t) = dataset_limit \<and> tv_length t < 256"

definition dataset_kind :: "json \<Rightarrow> bool \<Rightarrow> dataset_error + bool" where
  "dataset_kind parameters includes_dataset =
     (if \<not> exact_keys parameters (if includes_dataset then [''kind'', ''dataset''] else [''kind'']) \<or>
         (json_at parameters ''kind'' \<noteq> JString ''active'' \<and> json_at parameters ''kind'' \<noteq> JString ''pending'')
      then Inl DatasetProtocol
      else Inr (json_at parameters ''kind'' = JString ''active''))"

text \<open>\<open>encode\<close> and \<open>decode\<close> stand for the library's base64; \<open>None\<close> is a nonzero status.\<close>

definition dataset_envelope :: "(octets \<Rightarrow> string option) \<Rightarrow> tlvs \<Rightarrow> dataset_error + json" where
  "dataset_envelope encode t =
     (if tv_length t > dataset_limit then Inl DatasetInvalid
      else case encode (take (tv_length t) (tv_bytes t)) of
             None \<Rightarrow> Inl DatasetInvalid
           | Some text \<Rightarrow> Inr (JObject [(''base64'', JString text), (''type'', JString ''bytes'')]))"

definition read_byte :: "tlvs \<Rightarrow> nat \<Rightarrow> nat option" where
  "read_byte t i = (if i < length (tv_bytes t) then Some (unat (tv_bytes t ! i)) else None)"

text \<open>The loop of \<open>contains\<close>.\<close>

function contains_loop :: "tlvs \<Rightarrow> nat \<Rightarrow> nat \<Rightarrow> bool option" where
  "contains_loop t type offset =
     (if \<not> offset < tv_length t then Some False
      else case read_byte t offset of
             None \<Rightarrow> None
           | Some b \<Rightarrow>
               (if b = type then Some True
                else case read_byte t (offset + 1) of
                       None \<Rightarrow> None
                     | Some n \<Rightarrow> contains_loop t type (offset + (2 + n))))"
  by pat_completeness auto
termination by (relation "measure (\<lambda>(t, type, offset). tv_length t - offset)") auto

declare contains_loop.simps [simp del]

definition tlvs_contains :: "tlvs \<Rightarrow> nat \<Rightarrow> bool option" where
  "tlvs_contains t type = contains_loop t type 0"

text \<open>The \<open>switch\<close> of \<open>profile_widths\<close>; the network name is checked byte by byte.\<close>

fun name_loop :: "tlvs \<Rightarrow> nat \<Rightarrow> nat \<Rightarrow> bool option" where
  "name_loop t index 0 = Some True"
| "name_loop t index (Suc n) =
     (case read_byte t index of
        None \<Rightarrow> None
      | Some b \<Rightarrow> (if b < 32 \<or> b = 127 then Some False else name_loop t (index + 1) n))"

definition width_ok :: "tlvs \<Rightarrow> nat \<Rightarrow> nat \<Rightarrow> nat \<Rightarrow> bool option" where
  "width_ok t offset type n =
     (if type = 0 then Some (n = 3)
      else if type = 1 then Some (n = 2)
      else if type \<in> {2, 7, 14, 51} then Some (n = 8)
      else if type \<in> {4, 5} then Some (n = 16)
      else if type = 12 then Some (n = 3 \<or> n = 4)
      else if type = 52 then Some (n = 4)
      else if type = 3 then (if n = 0 \<or> n > 16 then Some False else name_loop t (offset + 2) n)
      else Some True)"

function widths_loop :: "tlvs \<Rightarrow> nat list \<Rightarrow> nat \<Rightarrow> bool option" where
  "widths_loop t seen offset =
     (if \<not> offset < tv_length t then Some True
      else if offset + 2 > tv_length t then Some False
      else case read_byte t offset of
             None \<Rightarrow> None
           | Some type \<Rightarrow>
               (case read_byte t (offset + 1) of
                  None \<Rightarrow> None
                | Some n \<Rightarrow>
                    (if type \<in> set seen \<or> offset + 2 + n > tv_length t then Some False
                     else case width_ok t offset type n of
                            None \<Rightarrow> None
                          | Some ok \<Rightarrow>
                              (if \<not> ok then Some False else widths_loop t (type # seen) (offset + (2 + n))))))"
  by pat_completeness (simp only: prod.inject)
termination by (relation "measure (\<lambda>(t, seen, offset). tv_length t - offset)") (simp_all, linarith)

declare widths_loop.simps [simp del]

definition profile_widths :: "tlvs \<Rightarrow> bool option" where
  "profile_widths t = widths_loop t [] 0"

text \<open>
  The constructor of \<open>DatasetValue\<close>.  \<open>decode\<close> answers the bytes it wrote into the array (at most 254) and
  the length it reports; the rest of the array is zero.
\<close>

definition dataset_value ::
  "(octets \<Rightarrow> string option) \<Rightarrow> (string \<Rightarrow> octets option) \<Rightarrow> json \<Rightarrow> (dataset_error + tlvs) option" where
  "dataset_value encode decode envelope =
     (if \<not> exact_keys envelope [''type'', ''base64''] \<or> json_at envelope ''type'' \<noteq> JString ''bytes'' \<or>
         \<not> json_is_string (json_at envelope ''base64'')
      then Some (Inl DatasetProtocol)
      else let encoded = json_text (json_at envelope ''base64'')
      in if length encoded > 340 then Some (Inl DatasetInvalid)
         else case decode encoded of
                None \<Rightarrow> Some (Inl DatasetInvalid)
              | Some bytes \<Rightarrow>
                  (if length bytes > dataset_limit then Some (Inl DatasetInvalid)
                   else let t = \<lparr>tv_bytes = bytes @ replicate (dataset_limit - length bytes) 0, tv_length = length bytes\<rparr>
                   in case dataset_envelope encode t of
                        Inl e \<Rightarrow> Some (Inl e)
                      | Inr v \<Rightarrow>
                          (if json_at v ''base64'' \<noteq> JString encoded then Some (Inl DatasetInvalid)
                           else case profile_widths t of
                                  None \<Rightarrow> None
                                | Some ok \<Rightarrow> Some (if ok then Inr t else Inl DatasetInvalid))))"

text \<open>
  \<open>valid\<close>; \<open>sdk_valid\<close>, \<open>parse\<close> (channel and channel mask) and the two type numbers are the SDK's.
\<close>

definition dataset_valid ::
  "(tlvs \<Rightarrow> bool \<Rightarrow> bool) \<Rightarrow> (tlvs \<Rightarrow> (nat \<times> 32 word) option) \<Rightarrow> nat \<Rightarrow> nat \<Rightarrow> tlvs \<Rightarrow> bool \<Rightarrow> bool option" where
  "dataset_valid sdk_valid parse pending_timestamp delay_timer t active =
     (if \<not> sdk_valid t active then Some False
      else case (if active then (case tlvs_contains t pending_timestamp of
                                   None \<Rightarrow> None
                                 | Some True \<Rightarrow> Some True
                                 | Some False \<Rightarrow> tlvs_contains t delay_timer)
                 else Some False) of
             None \<Rightarrow> None
           | Some True \<Rightarrow> Some False
           | Some False \<Rightarrow>
               (case parse t of
                  None \<Rightarrow> Some False
                | Some (channel, channel_mask) \<Rightarrow>
                    (if channel \<ge> 32 then Some False else Some (and channel_mask (push_bit channel 1) \<noteq> 0))))"

section \<open>The records a dataset holds\<close>

text \<open>The reference decoding, over the used bytes only.\<close>

function tlv_list :: "octets \<Rightarrow> (nat \<times> octets) list option" where
  "tlv_list bs =
     (case bs of
        [] \<Rightarrow> Some []
      | [_] \<Rightarrow> None
      | type # n # rest \<Rightarrow>
          (if unat n > length rest then None
           else case tlv_list (drop (unat n) rest) of
                  None \<Rightarrow> None
                | Some ts \<Rightarrow> Some ((unat type, take (unat n) rest) # ts)))"
  by pat_completeness auto
termination by (relation "measure length") auto

declare tlv_list.simps [simp del]

definition printable :: "octets \<Rightarrow> bool" where
  "printable v \<longleftrightarrow> list_all (\<lambda>b. \<not> (unat b < 32 \<or> unat b = 127)) v"

fun tlv_width :: "nat \<times> octets \<Rightarrow> bool" where
  "tlv_width (type, v) \<longleftrightarrow>
     (type = 0 \<longrightarrow> length v = 3) \<and> (type = 1 \<longrightarrow> length v = 2) \<and> (type \<in> {2, 7, 14, 51} \<longrightarrow> length v = 8) \<and>
     (type \<in> {4, 5} \<longrightarrow> length v = 16) \<and> (type = 12 \<longrightarrow> length v = 3 \<or> length v = 4) \<and> (type = 52 \<longrightarrow> length v = 4) \<and>
     (type = 3 \<longrightarrow> 0 < length v \<and> length v \<le> 16 \<and> printable v)"

definition used :: "tlvs \<Rightarrow> octets" where
  "used t = take (tv_length t) (tv_bytes t)"

lemma tlv_list_Nil [simp]: "tlv_list [] = Some []"
  by (simp add: tlv_list.simps)

lemma tlv_list_one [simp]: "tlv_list [b] = None"
  by (simp add: tlv_list.simps)

lemma tlv_list_Cons:
  "tlv_list (b # n # rest) =
     (if unat n > length rest then None
      else case tlv_list (drop (unat n) rest) of
             None \<Rightarrow> None | Some ts \<Rightarrow> Some ((unat b, take (unat n) rest) # ts))"
  by (simp add: tlv_list.simps [of "b # n # rest"])

lemma read_byte_used:
  "tlvs_ok t \<Longrightarrow> tv_length t \<le> dataset_limit \<Longrightarrow> i < tv_length t \<Longrightarrow> read_byte t i = Some (unat (used t ! i))"
  by (simp add: read_byte_def used_def tlvs_ok_def)

lemma length_used: "tlvs_ok t \<Longrightarrow> tv_length t \<le> dataset_limit \<Longrightarrow> length (used t) = tv_length t"
  by (simp add: used_def tlvs_ok_def)

text \<open>The used bytes from an offset with two more bytes.\<close>

lemma drop_two: "i + 2 \<le> length xs \<Longrightarrow> drop i xs = xs ! i # xs ! (i + 1) # drop (i + 2) xs"
  using Cons_nth_drop_Suc [of i xs] Cons_nth_drop_Suc [of "Suc i" xs] by simp

lemma name_loop_exact:
  assumes ok: "tlvs_ok t" "tv_length t \<le> dataset_limit" and "i + n \<le> tv_length t"
  shows "name_loop t i n = Some (printable (take n (drop i (used t))))"
  using assms(3)
proof (induction n arbitrary: i)
  case (Suc n)
  have "drop i (used t) = used t ! i # drop (Suc i) (used t)"
    using Suc.prems length_used [OF ok] by (simp add: Cons_nth_drop_Suc)
  then show ?case using Suc.IH [of "Suc i"] Suc.prems read_byte_used [OF ok, of i] by (simp add: printable_def)
qed (simp add: printable_def)

lemma width_ok_exact:
  assumes ok: "tlvs_ok t" "tv_length t \<le> dataset_limit" and fits: "i + 2 + n \<le> tv_length t"
  shows "width_ok t i b n = Some (tlv_width (b, take n (drop (i + 2) (used t))))"
proof -
  have len: "length (take n (drop (i + 2) (used t))) = n" using fits length_used [OF ok] by simp
  have name: "name_loop t (i + 2) n = Some (printable (take n (drop (i + 2) (used t))))"
    by (rule name_loop_exact [OF ok]) (use fits in simp)
  show ?thesis unfolding width_ok_def tlv_width.simps len name by auto
qed

lemma widths_loop_exact:
  assumes ok: "tlvs_ok t" "tv_length t \<le> dataset_limit"
  shows "i \<le> tv_length t \<Longrightarrow> widths_loop t seen i =
    Some (case tlv_list (drop i (used t)) of
            None \<Rightarrow> False
          | Some ts \<Rightarrow> distinct (map fst ts) \<and> set (map fst ts) \<inter> set seen = {} \<and> list_all tlv_width ts)"
proof (induction "tv_length t - i" arbitrary: i seen rule: less_induct)
  case less
  note len = length_used [OF ok]
  consider "i = tv_length t" | "i + 1 = tv_length t" | "i + 2 \<le> tv_length t" using less.prems by linarith
  then show ?case
  proof cases
    case 1
    then show ?thesis using len by (subst widths_loop.simps) simp
  next
    case 2
    then have "drop i (used t) = [used t ! i]" using Cons_nth_drop_Suc [of i "used t"] len by simp
    then show ?thesis using 2 by (subst widths_loop.simps) simp
  next
    case 3
    let ?b = "unat (used t ! i)" and ?n = "unat (used t ! (i + 1))"
    let ?rest = "drop (i + 2) (used t)"
    have cut: "drop i (used t) = used t ! i # used t ! (i + 1) # ?rest" by (rule drop_two) (use 3 len in simp)
    have reads: "read_byte t i = Some ?b" "read_byte t (i + 1) = Some ?n"
      using read_byte_used [OF ok] 3 by simp_all
    show ?thesis
    proof (cases "i + 2 + ?n > tv_length t")
      case True
      then have "?n > length ?rest" using 3 len by simp
      then show ?thesis using 3 True reads by (subst widths_loop.simps) (simp add: cut tlv_list_Cons)
    next
      case False
      let ?v = "take ?n ?rest"
      have next': "drop ?n ?rest = drop (i + (2 + ?n)) (used t)" by (simp add: add.assoc add.commute)
      have IH: "widths_loop t (?b # seen) (i + (2 + ?n)) =
          Some (case tlv_list (drop ?n ?rest) of None \<Rightarrow> False
                | Some ts \<Rightarrow> distinct (map fst ts) \<and> set (map fst ts) \<inter> set (?b # seen) = {} \<and> list_all tlv_width ts)"
        unfolding next' by (rule less.hyps) (use 3 False in auto)
      have w: "width_ok t i ?b ?n = Some (tlv_width (?b, ?v))" by (rule width_ok_exact [OF ok]) (use False in simp)
      have fit: "\<not> ?n > length ?rest" using False len by simp
      have parse: "tlv_list (drop i (used t)) =
          (case tlv_list (drop ?n ?rest) of None \<Rightarrow> None | Some ts \<Rightarrow> Some ((?b, ?v) # ts))"
        using fit by (simp only: cut tlv_list_Cons if_False)
      have run: "widths_loop t seen i = (if ?b \<in> set seen \<or> \<not> tlv_width (?b, ?v) then Some False
          else widths_loop t (?b # seen) (i + (2 + ?n)))"
        using 3 False reads w by (subst widths_loop.simps) (simp del: tlv_width.simps)
      show ?thesis unfolding run IH parse
        by (cases "tlv_list (drop ?n ?rest)") (auto simp del: tlv_width.simps)
    qed
  qed
qed

lemma contains_loop_exact:
  assumes ok: "tlvs_ok t" "tv_length t \<le> dataset_limit" and "tlv_list (drop i (used t)) = Some ts" and "i \<le> tv_length t"
  shows "contains_loop t type i = Some (type \<in> set (map fst ts))"
  using assms(3,4)
proof (induction "tv_length t - i" arbitrary: i ts rule: less_induct)
  case less
  note len = length_used [OF ok]
  consider "i = tv_length t" | "i + 1 = tv_length t" | "i + 2 \<le> tv_length t" using less.prems by linarith
  then show ?case
  proof cases
    case 1
    then show ?thesis using less.prems len by (subst contains_loop.simps) simp
  next
    case 2
    then have "drop i (used t) = [used t ! i]" using Cons_nth_drop_Suc [of i "used t"] len by simp
    then show ?thesis using less.prems by simp
  next
    case 3
    let ?b = "unat (used t ! i)" and ?n = "unat (used t ! (i + 1))"
    let ?rest = "drop (i + 2) (used t)"
    have cut: "drop i (used t) = used t ! i # used t ! (i + 1) # ?rest" by (rule drop_two) (use 3 len in simp)
    have reads: "read_byte t i = Some ?b" "read_byte t (i + 1) = Some ?n"
      using read_byte_used [OF ok] 3 by simp_all
    obtain us where us: "tlv_list (drop ?n ?rest) = Some us" "ts = (?b, take ?n ?rest) # us" "?n \<le> length ?rest"
      using less.prems(1) by (auto simp: cut tlv_list_Cons split: if_splits option.splits)
    have "contains_loop t type (i + (2 + ?n)) = Some (type \<in> set (map fst us))"
      by (rule less.hyps) (use 3 us len in \<open>auto simp: add.assoc add.commute\<close>)
    then show ?thesis using 3 reads us by (subst contains_loop.simps) auto
  qed
qed

section \<open>Properties\<close>

text \<open>
  \<open>profile_widths\<close> decides, without reading outside the array, exactly whether the used bytes are a list of
  whole type-length-value records with no type twice and the width its type has; after it accepted, \<open>contains\<close>
  answers exactly whether a record of that type is there.
\<close>

theorem profile_widths_exact:
  assumes "tlvs_ok t" and "tv_length t \<le> 254"
  shows "profile_widths t = Some (case tlv_list (used t) of
      None \<Rightarrow> False | Some ts \<Rightarrow> distinct (map fst ts) \<and> list_all tlv_width ts) \<and>
    (profile_widths t = Some True \<longrightarrow>
      (\<exists>ts. tlv_list (used t) = Some ts \<and> tlvs_contains t type = Some (type \<in> set (map fst ts))))"
proof -
  have ok: "tlvs_ok t" "tv_length t \<le> dataset_limit" using assms by (simp_all add: dataset_limit_def)
  have w: "profile_widths t = Some (case tlv_list (used t) of
      None \<Rightarrow> False | Some ts \<Rightarrow> distinct (map fst ts) \<and> list_all tlv_width ts)"
    using widths_loop_exact [OF ok, of 0 "[]"] by (simp add: profile_widths_def cong: option.case_cong)
  moreover have "\<exists>ts. tlv_list (used t) = Some ts \<and> tlvs_contains t type = Some (type \<in> set (map fst ts))"
    if "profile_widths t = Some True"
    using that w contains_loop_exact [OF ok, of 0 _ type] by (auto simp: tlvs_contains_def split: option.splits)
  ultimately show ?thesis by blast
qed

definition sample_tlvs :: tlvs where
  "sample_tlvs = \<lparr>tv_bytes = [1, 2, 5, 6, 9, 0] @ replicate 248 0, tv_length = 6\<rparr>"

lemma sample_tlv_list: "tlv_list [1, 2, 5, 6, 9, 0] = Some [(1, [5, 6]), (9, [])]"
  by (simp add: tlv_list_Cons)

theorem profile_widths_exact_witness:
  "profile_widths sample_tlvs = Some True \<and> tlvs_contains sample_tlvs 9 = Some True \<and> tlvs_contains sample_tlvs 3 = Some False"
proof -
  have ok: "tlvs_ok sample_tlvs" "tv_length sample_tlvs \<le> 254" "used sample_tlvs = [1, 2, 5, 6, 9, 0]"
    by (simp_all add: sample_tlvs_def tlvs_ok_def dataset_limit_def used_def)
  show ?thesis
    using profile_widths_exact [OF ok(1,2), of 9] profile_widths_exact [OF ok(1,2), of 3] ok(3)
    by (simp add: sample_tlv_list)
qed

end
