(* ===== verification/Thread_Commissioning.thy ===== *)
theory Thread_Commissioning
  imports Thread_Protocol Wotex_Channel
begin

text \<open>
  Commissioning on the OpenThread host: joiner identities and admissions (\<open>commissioning.hpp\<close>), the joiner's
  own attempts (\<open>joiner.hpp\<close>) and the pending management command (\<open>management.hpp\<close>).  What the SDK and the
  clock answer during a call are its arguments; a status other than \<open>OT_ERROR_NONE\<close> is a positive number.
  \<open>dump\<close> is the JSON serializer.
\<close>

section \<open>Joiner identities\<close>

datatype comm_error = CommissioningError string | CommissioningProtocol | CommissioningStatus nat

record joiner_identity =
  ji_is_discerner :: bool
  ji_eui :: "8 word list"
  ji_length :: nat
  ji_value :: u64
  ji_key :: string

definition invalid_identity :: comm_error where
  "invalid_identity = CommissioningError ''invalid_joiner_identity''"

definition eui_hex :: "char \<Rightarrow> nat option" where
  "eui_hex c =
     (if is_digit c then Some (of_char c - 48)
      else if CHR ''A'' \<le> c \<and> c \<le> CHR ''F'' then Some (of_char c - 65 + 10)
      else None)"

fun eui_bytes :: "string \<Rightarrow> 8 word list option" where
  "eui_bytes (a # b # cs) =
     (case eui_hex a of
        None \<Rightarrow> None
      | Some h \<Rightarrow>
          (case eui_hex b of
             None \<Rightarrow> None
           | Some l \<Rightarrow>
               (case eui_bytes cs of
                  None \<Rightarrow> None
                | Some bs \<Rightarrow> Some (word_of_nat (or (push_bit 4 h) l) # bs))))"
| "eui_bytes _ = Some []"

text \<open>\<open>std::from_chars\<close> on a text of digits: the value, or an out-of-range error.\<close>

definition from_chars_u64 :: "string \<Rightarrow> u64 option" where
  "from_chars_u64 cs = (if decimal_value 0 cs \<le> u64_max then Some (decimal_value 0 cs) else None)"

definition discerner_value :: "nat \<Rightarrow> string \<Rightarrow> u64 option" where
  "discerner_value n t =
     (if t = [] \<or> length t > 20 \<or> (length t > 1 \<and> hd t = CHR ''0'') \<or> \<not> list_all is_digit t then None
      else case from_chars_u64 t of
             None \<Rightarrow> None
           | Some v \<Rightarrow> (if n < 64 \<and> v \<ge> 2 ^ n then None else Some v))"

definition identity_from :: "(json \<Rightarrow> string) \<Rightarrow> json \<Rightarrow> comm_error + joiner_identity" where
  "identity_from dump v =
     (if \<not> json_is_object v \<or> \<not> json_contains v ''type'' then Inl invalid_identity
      else if json_at v ''type'' = JString ''eui64''
      then (if \<not> exact_keys v [''type'', ''value''] \<or> \<not> json_is_string (json_at v ''value'') \<or>
               length (json_text (json_at v ''value'')) \<noteq> 16
            then Inl invalid_identity
            else case eui_bytes (json_text (json_at v ''value'')) of
                   None \<Rightarrow> Inl invalid_identity
                 | Some bs \<Rightarrow> Inr \<lparr>ji_is_discerner = False, ji_eui = bs, ji_length = 0, ji_value = 0, ji_key = dump v\<rparr>)
      else if json_at v ''type'' = JString ''discerner''
      then (if \<not> exact_keys v [''type'', ''length'', ''value''] \<or> \<not> integer_between (json_at v ''length'') 1 64 \<or>
               \<not> json_is_string (json_at v ''value'')
            then Inl invalid_identity
            else let n = nat (json_integer_value (json_at v ''length''))
                 in case discerner_value n (json_text (json_at v ''value'')) of
                      None \<Rightarrow> Inl invalid_identity
                    | Some d \<Rightarrow> Inr \<lparr>ji_is_discerner = True, ji_eui = replicate 8 0, ji_length = n, ji_value = d,
                                   ji_key = dump v\<rparr>)
      else Inl invalid_identity)"

definition pskd_char :: "char \<Rightarrow> bool" where
  "pskd_char c \<longleftrightarrow> is_digit c \<or>
     (CHR ''A'' \<le> c \<and> c \<le> CHR ''Y'' \<and> c \<noteq> CHR ''I'' \<and> c \<noteq> CHR ''O'' \<and> c \<noteq> CHR ''Q'')"

definition valid_pskd :: "json \<Rightarrow> bool" where
  "valid_pskd v \<longleftrightarrow> json_is_string v \<and> \<not> length (json_text v) < 6 \<and> \<not> length (json_text v) > 32 \<and>
     list_all pskd_char (json_text v)"

section \<open>Admissions\<close>

datatype commissioner_state = CommissionerDisabled | CommissionerPetition | CommissionerActive

record commissioning =
  cm_owned :: bool
  cm_observed :: commissioner_state
  cm_admissions :: "(string \<times> int) list"

definition commissioning_init :: commissioning where
  "commissioning_init = \<lparr>cm_owned = False, cm_observed = CommissionerDisabled, cm_admissions = []\<rparr>"

type_synonym comm_run = "(comm_error + unit) \<times> commissioning"

definition comm_start :: "commissioner_state \<Rightarrow> nat \<Rightarrow> commissioning \<Rightarrow> comm_run" where
  "comm_start sdk status s =
     (if cm_owned s \<or> sdk \<noteq> CommissionerDisabled then (Inl (CommissioningError ''busy''), s)
      else if status \<noteq> 0 then (Inl (CommissioningStatus status), s)
      else (Inr (), s\<lparr>cm_owned := True\<rparr>))"

text \<open>\<open>already\<close> tells whether the status is \<open>OT_ERROR_ALREADY\<close>.\<close>

definition comm_stop :: "commissioner_state \<Rightarrow> nat \<Rightarrow> bool \<Rightarrow> commissioning \<Rightarrow> comm_run" where
  "comm_stop sdk status already s =
     (if \<not> cm_owned s
      then (if sdk \<noteq> CommissionerDisabled then (Inl (CommissioningError ''not_owned''), s)
            else (Inr (), s\<lparr>cm_admissions := []\<rparr>))
      else if status \<noteq> 0 \<and> \<not> already then (Inl (CommissioningStatus status), s)
      else (Inr (), s\<lparr>cm_owned := False, cm_admissions := []\<rparr>))"

definition require_active :: "commissioner_state \<Rightarrow> commissioning \<Rightarrow> bool" where
  "require_active sdk s \<longleftrightarrow> \<not> (\<not> cm_owned s \<or> sdk \<noteq> CommissionerActive)"

definition comm_expire :: "int \<Rightarrow> commissioning \<Rightarrow> commissioning" where
  "comm_expire now s = s\<lparr>cm_admissions := filter (\<lambda>e. \<not> snd e \<le> now) (cm_admissions s)\<rparr>"

text \<open>\<open>now\<close> and \<open>later\<close> are the two readings of the clock, in milliseconds.\<close>

definition comm_add ::
  "(json \<Rightarrow> string) \<Rightarrow> commissioner_state \<Rightarrow> nat \<Rightarrow> int \<Rightarrow> int \<Rightarrow> json \<Rightarrow> commissioning \<Rightarrow> comm_run" where
  "comm_add dump sdk status now later parameters s =
     (if \<not> exact_keys parameters [''identity'', ''pskd'', ''lifetime''] \<or> \<not> valid_pskd (json_at parameters ''pskd'') \<or>
         \<not> integer_between (json_at parameters ''lifetime'') 1 3600
      then (Inl (CommissioningError ''invalid_joiner_admission''), s)
      else case identity_from dump (json_at parameters ''identity'') of
             Inl e \<Rightarrow> (Inl e, s)
           | Inr identity \<Rightarrow>
               (if \<not> require_active sdk s then (Inl (CommissioningError ''invalid_state''), s)
                else let s1 = comm_expire now s
                in if length (cm_admissions s1) \<ge> 64 \<and> \<not> omap_has (ji_key identity) (cm_admissions s1)
                   then (Inl (CommissioningError ''busy''), s1)
                   else if status \<noteq> 0 then (Inl (CommissioningStatus status), s1)
                   else (Inr (), s1\<lparr>cm_admissions := omap_put (ji_key identity)
                           (later + 1000 * json_integer_value (json_at parameters ''lifetime'')) (cm_admissions s1)\<rparr>)))"

definition comm_remove ::
  "(json \<Rightarrow> string) \<Rightarrow> commissioner_state \<Rightarrow> nat \<Rightarrow> json \<Rightarrow> commissioning \<Rightarrow> comm_run" where
  "comm_remove dump sdk status parameters s =
     (if \<not> exact_keys parameters [''identity''] then (Inl CommissioningProtocol, s)
      else case identity_from dump (json_at parameters ''identity'') of
             Inl e \<Rightarrow> (Inl e, s)
           | Inr identity \<Rightarrow>
               (if \<not> require_active sdk s then (Inl (CommissioningError ''invalid_state''), s)
                else if status \<noteq> 0 then (Inl (CommissioningStatus status), s)
                else (Inr (), s\<lparr>cm_admissions := omap_del (ji_key identity) (cm_admissions s)\<rparr>)))"

definition comm_close :: "commissioning \<Rightarrow> commissioning" where
  "comm_close s = s\<lparr>cm_owned := False, cm_admissions := []\<rparr>"

definition comm_state_event :: "commissioner_state \<Rightarrow> commissioning \<Rightarrow> commissioning" where
  "comm_state_event st s =
     (let s1 = s\<lparr>cm_observed := st\<rparr> in if st = CommissionerDisabled then s1\<lparr>cm_admissions := []\<rparr> else s1)"

datatype joiner_info = InfoEui "8 word list" | InfoDiscerner nat u64 | InfoOther

definition upper_digit :: "nat \<Rightarrow> char" where
  "upper_digit n = ''0123456789ABCDEF'' ! n"

definition eui_text :: "8 word list \<Rightarrow> string" where
  "eui_text bs = concat (map (\<lambda>b. [upper_digit (unat (drop_bit 4 b)), upper_digit (unat (and b 15))]) bs)"

fun info_identity :: "joiner_info \<Rightarrow> json option" where
  "info_identity (InfoEui bs) = Some (JObject [(''type'', JString ''eui64''), (''value'', JString (eui_text bs))])"
| "info_identity (InfoDiscerner n v) =
     Some (JObject [(''length'', JUnsigned n), (''type'', JString ''discerner''), (''value'', JString (to_decimal v))])"
| "info_identity InfoOther = None"

definition joiner_event :: "(json \<Rightarrow> string) \<Rightarrow> bool \<Rightarrow> joiner_info option \<Rightarrow> commissioning \<Rightarrow> commissioning" where
  "joiner_event dump removed info s =
     (case info of
        None \<Rightarrow> s
      | Some i \<Rightarrow>
          (if \<not> removed then s
           else case info_identity i of
                  None \<Rightarrow> s
                | Some v \<Rightarrow> s\<lparr>cm_admissions := omap_del (dump v) (cm_admissions s)\<rparr>))"

datatype comm_action =
    CommStart commissioner_state nat
  | CommStop commissioner_state nat bool
  | CommAdd commissioner_state nat int int json
  | CommRemove commissioner_state nat json
  | CommClose
  | CommState commissioner_state
  | CommEvent bool "joiner_info option"

fun comm_step :: "(json \<Rightarrow> string) \<Rightarrow> comm_action \<Rightarrow> commissioning \<Rightarrow> commissioning" where
  "comm_step dump (CommStart sdk status) s = snd (comm_start sdk status s)"
| "comm_step dump (CommStop sdk status already) s = snd (comm_stop sdk status already s)"
| "comm_step dump (CommAdd sdk status now later v) s = snd (comm_add dump sdk status now later v s)"
| "comm_step dump (CommRemove sdk status v) s = snd (comm_remove dump sdk status v s)"
| "comm_step dump CommClose s = comm_close s"
| "comm_step dump (CommState st) s = comm_state_event st s"
| "comm_step dump (CommEvent removed info) s = joiner_event dump removed info s"

section \<open>Joiner attempts\<close>

text \<open>
  An attempt is its generation, which no two attempts share; the callback context of the SDK is the attempt.
  A callback on an attempt that was freed would read freed memory.
\<close>

record joiner_attempt =
  ja_generation :: u64
  ja_retired :: bool

record joiner_owner =
  jo_generation :: u64
  jo_joined :: bool
  jo_active :: "joiner_attempt option"
  jo_retired :: "joiner_attempt option"
  jo_result :: "(u64 \<times> nat) option"

definition joiner_init :: joiner_owner where
  "joiner_init = \<lparr>jo_generation = 0, jo_joined = False, jo_active = None, jo_retired = None, jo_result = None\<rparr>"

definition optional_text_valid :: "json \<Rightarrow> nat \<Rightarrow> bool" where
  "optional_text_valid v maximum \<longleftrightarrow>
     v = JNull \<or> (json_is_string v \<and> length (json_text v) \<le> maximum \<and>
       list_all (\<lambda>c. \<not> ((of_char c :: nat) < 32 \<or> (of_char c :: nat) = 127)) (json_text v))"

definition joiner_validate :: "json \<Rightarrow> bool" where
  "joiner_validate v \<longleftrightarrow>
     exact_keys v [''pskd'', ''discerner'', ''provisioning_url'', ''vendor_name'', ''vendor_model'',
                   ''vendor_sw_version'', ''vendor_data''] \<and>
     valid_pskd (json_at v ''pskd'') \<and> optional_text_valid (json_at v ''provisioning_url'') 64 \<and>
     optional_text_valid (json_at v ''vendor_name'') 32 \<and> optional_text_valid (json_at v ''vendor_model'') 32 \<and>
     optional_text_valid (json_at v ''vendor_sw_version'') 32 \<and> optional_text_valid (json_at v ''vendor_data'') 64 \<and>
     (json_at v ''discerner'' = JNull \<or> json_is_object (json_at v ''discerner''))"

datatype joiner_error = JoinerError string | JoinerStatus nat

definition joiner_discerner :: "(json \<Rightarrow> string) \<Rightarrow> json \<Rightarrow> joiner_error + unit" where
  "joiner_discerner dump v =
     (if v = JNull then Inr ()
      else case identity_from dump v of
             Inl _ \<Rightarrow> Inl (JoinerError ''invalid_joiner_config'')
           | Inr identity \<Rightarrow>
               (if \<not> ji_is_discerner identity then Inl (JoinerError ''invalid_joiner_config'') else Inr ()))"

definition joiner_start ::
  "(json \<Rightarrow> string) \<Rightarrow> bool \<Rightarrow> nat \<Rightarrow> nat \<Rightarrow> json \<Rightarrow> joiner_owner \<Rightarrow> (joiner_error + unit) \<times> joiner_owner" where
  "joiner_start dump commissioned identity_status status parameters s =
     (if \<not> joiner_validate parameters then (Inl (JoinerError ''invalid_joiner_config''), s)
      else if jo_active s \<noteq> None \<or> jo_result s \<noteq> None then (Inl (JoinerError ''busy''), s)
      else if commissioned then (Inl (JoinerError ''dataset_exists''), s)
      else if jo_generation s = u64_max then (Inl (JoinerError ''busy''), s)
      else case joiner_discerner dump (json_at parameters ''discerner'') of
             Inl e \<Rightarrow> (Inl e, s)
           | Inr _ \<Rightarrow>
               (if identity_status \<noteq> 0 then (Inl (JoinerStatus identity_status), s)
                else let g = add64 (jo_generation s) 1;
                         s1 = s\<lparr>jo_joined := False, jo_generation := g,
                                jo_active := Some \<lparr>ja_generation = g, ja_retired = False\<rparr>\<rparr>
                     in if status \<noteq> 0 then (Inl (JoinerStatus status), s1\<lparr>jo_active := None\<rparr>)
                        else (Inr (), s1)))"

definition joiner_stop :: "joiner_owner \<Rightarrow> joiner_owner" where
  "joiner_stop s =
     (case jo_active s of
        None \<Rightarrow> s
      | Some a \<Rightarrow> s\<lparr>jo_active := None, jo_retired := Some (a\<lparr>ja_retired := True\<rparr>)\<rparr>)"

definition joiner_take :: "joiner_owner \<Rightarrow> nat option \<times> joiner_owner" where
  "joiner_take s = (map_option snd (jo_result s), s\<lparr>jo_result := None\<rparr>)"

definition joiner_close :: "joiner_owner \<Rightarrow> joiner_owner" where
  "joiner_close s = (joiner_stop (s\<lparr>jo_joined := False\<rparr>))\<lparr>jo_result := None\<rparr>"

text \<open>The callback with the context of the attempt \<open>g\<close>; \<open>None\<close> where that attempt was freed.\<close>

definition joiner_completed :: "nat \<Rightarrow> u64 \<Rightarrow> joiner_owner \<Rightarrow> joiner_owner option" where
  "joiner_completed status g s =
     (case jo_active s of
        Some a \<Rightarrow>
          (if ja_generation a = g
           then Some (if ja_retired a \<or> jo_generation s \<noteq> g then s
                      else s\<lparr>jo_joined := (status = 0), jo_result := Some (g, status), jo_active := None,
                             jo_retired := Some (a\<lparr>ja_retired := True\<rparr>)\<rparr>)
           else case jo_retired s of
                  Some r \<Rightarrow> (if ja_generation r = g then Some s else None)
                | None \<Rightarrow> None)
      | None \<Rightarrow>
          (case jo_retired s of
             Some r \<Rightarrow> (if ja_generation r = g then Some s else None)
           | None \<Rightarrow> None))"

section \<open>The management command\<close>

datatype management_outcome = OutcomeAccepted | OutcomeRejected | OutcomeTimedOut

record management_owner =
  mo_callback_pending :: bool
  mo_active :: "(thread_request \<times> int) option"
  mo_result :: "nat option"

definition management_init :: management_owner where
  "management_init = \<lparr>mo_callback_pending = False, mo_active = None, mo_result = None\<rparr>"

definition management_busy :: "management_owner \<Rightarrow> bool" where
  "management_busy s \<longleftrightarrow> mo_callback_pending s \<or> mo_active s \<noteq> None"

definition management_begin :: "thread_request \<Rightarrow> int \<Rightarrow> management_owner \<Rightarrow> bool \<times> management_owner" where
  "management_begin command deadline s =
     (if management_busy s then (False, s)
      else (True, s\<lparr>mo_callback_pending := True, mo_active := Some (command, deadline), mo_result := None\<rparr>))"

definition management_submission_failed :: "management_owner \<Rightarrow> management_owner" where
  "management_submission_failed s = s\<lparr>mo_callback_pending := False, mo_active := None, mo_result := None\<rparr>"

definition management_complete :: "nat \<Rightarrow> management_owner \<Rightarrow> management_owner" where
  "management_complete status s =
     (if \<not> mo_callback_pending s then s
      else let s1 = s\<lparr>mo_callback_pending := False\<rparr>
           in if mo_active s1 \<noteq> None then s1\<lparr>mo_result := Some status\<rparr> else s1)"

definition management_take ::
  "int \<Rightarrow> management_owner \<Rightarrow> (thread_request \<times> management_outcome \<times> nat option) option \<times> management_owner" where
  "management_take now s =
     (case mo_active s of
        None \<Rightarrow> (None, s\<lparr>mo_result := None\<rparr>)
      | Some (command, deadline) \<Rightarrow>
          (if now \<ge> deadline then (Some (command, OutcomeTimedOut, None), s\<lparr>mo_active := None, mo_result := None\<rparr>)
           else case mo_result s of
                  None \<Rightarrow> (None, s)
                | Some status \<Rightarrow>
                    (Some (command, if status = 0 then OutcomeAccepted else OutcomeRejected, Some status),
                     s\<lparr>mo_active := None, mo_result := None\<rparr>)))"

section \<open>Identities are canonical\<close>

lemma eui_hex_digit:
  assumes "eui_hex c = Some h"
  shows "h < 16 \<and> upper_digit h = c"
proof -
  have "(of_char c :: nat) \<in> {48..57} \<and> h = of_char c - 48 \<or> (of_char c :: nat) \<in> {65..70} \<and> h = of_char c - 55"
    using assms by (auto simp: eui_hex_def is_digit_of_char less_eq_char_def split: if_splits)
  then have "h < 16 \<and> of_char c = (if h < 10 then 48 + h else 55 + h)" by auto
  moreover have "c = char_of (of_char c :: nat)" by simp
  ultimately have "h < 16" "c = char_of (if h < 10 then 48 + h else 55 + h)" by metis+
  moreover have "\<forall>h \<in> set [0..<16]. upper_digit h = char_of (if h < 10 then 48 + h else 55 + h :: nat)"
    by (simp add: upper_digit_def upt_rec char_of_def bit_iff_odd)
  ultimately show ?thesis by simp
qed

lemma eui_byte_nibbles:
  assumes "h < 16" and "l < 16"
  defines "b \<equiv> (word_of_nat (or (push_bit 4 h) l) :: 8 word)"
  shows "unat (drop_bit 4 b) = h" and "unat (and b 15) = l"
proof -
  have n: "or (push_bit 4 h) l = 16 * h + l" using or_shift_add [of 4 l h] assms by (simp add: take_bit_eq_mod)
  have u: "unat b = 16 * h + l" unfolding b_def n unat_of_nat using assms(1,2) by simp
  show "unat (drop_bit 4 b) = h"
    unfolding unat_drop_bit_eq u using assms(1,2) by (simp add: drop_bit_eq_div)
  have "and b 15 = take_bit 4 b" by (simp add: take_bit_eq_mask mask_eq_exp_minus_1)
  then show "unat (and b 15) = l" using u assms(1,2) by (simp only: unsigned_take_bit_eq) (simp add: take_bit_eq_mod)
qed

lemma eui_text_bytes: "eui_bytes t = Some bs \<Longrightarrow> even (length t) \<Longrightarrow> eui_text bs = t"
proof (induction t arbitrary: bs rule: eui_bytes.induct)
  case (1 a b cs)
  then obtain h l rest where "eui_hex a = Some h" "eui_hex b = Some l" "eui_bytes cs = Some rest"
    "bs = word_of_nat (or (push_bit 4 h) l) # rest"
    by (auto split: option.splits)
  then show ?case using 1 eui_hex_digit [of a h] eui_hex_digit [of b l] eui_byte_nibbles [of h l]
    by (simp add: eui_text_def)
qed (auto simp: eui_text_def)

lemma discerner_value_text: "discerner_value n t = Some v \<Longrightarrow> to_decimal v = t \<and> v \<le> u64_max \<and> (n < 64 \<longrightarrow> v < 2 ^ n)"
  using to_decimal_value [of t]
  by (auto simp: discerner_value_def from_chars_u64_def split: if_splits)

definition identity_info :: "joiner_identity \<Rightarrow> joiner_info" where
  "identity_info i = (if ji_is_discerner i then InfoDiscerner (ji_length i) (ji_value i) else InfoEui (ji_eui i))"

text \<open>
  The identity of an admission and the identity the SDK reports when it removes the joiner have the same
  key: an accepted identity, read from a line, is exactly the value that \<open>joiner_event\<close> builds from the SDK's
  description of it, so the event erases that admission and no other.  A discerner fits its bit length.
\<close>

theorem identity_event_key:
  assumes "identity_from dump v = Inr i" and "omap_ok (json_entries v)" and "\<forall>n. json_at v ''length'' \<noteq> JInt n"
  shows "info_identity (identity_info i) = Some v \<and> ji_key i = dump v \<and>
    cm_admissions (joiner_event dump True (Some (identity_info i)) s) = omap_del (ji_key i) (cm_admissions s) \<and>
    (ji_is_discerner i \<and> ji_length i < 64 \<longrightarrow> ji_value i < 2 ^ ji_length i)"
proof -
  have "info_identity (identity_info i) = Some v \<and> ji_key i = dump v \<and>
      (ji_is_discerner i \<and> ji_length i < 64 \<longrightarrow> ji_value i < 2 ^ ji_length i)"
  proof (cases "json_at v ''type'' = JString ''eui64''")
    case True
    then have ex: "exact_keys v [''type'', ''value'']" and str: "json_is_string (json_at v ''value'')"
      and len: "length (json_text (json_at v ''value'')) = 16"
      using assms(1) by (auto simp: identity_from_def invalid_identity_def split: if_splits)
    obtain bs where bs: "eui_bytes (json_text (json_at v ''value'')) = Some bs"
      "i = \<lparr>ji_is_discerner = False, ji_eui = bs, ji_length = 0, ji_value = 0, ji_key = dump v\<rparr>"
      using assms(1) True ex str len by (auto simp: identity_from_def invalid_identity_def split: if_splits option.splits)
    obtain t where t: "json_at v ''value'' = JString t" using str by (cases "json_at v ''value''") auto
    have v: "v = JObject (map (\<lambda>k. (k, json_at v k)) [''type'', ''value''])"
      by (rule json_exact_entries [OF ex assms(2)]) auto
    have "eui_text bs = t" using eui_text_bytes [OF bs(1)] len t by simp
    then show ?thesis using bs(2) True t by (subst v) (simp add: identity_info_def)
  next
    case False
    then have type: "json_at v ''type'' = JString ''discerner''"
      and ex: "exact_keys v [''type'', ''length'', ''value'']" and str: "json_is_string (json_at v ''value'')"
      and int: "integer_between (json_at v ''length'') 1 64"
      using assms(1) by (auto simp: identity_from_def invalid_identity_def split: if_splits)
    obtain n where n: "json_at v ''length'' = JUnsigned n"
      using int assms(3) by (cases "json_at v ''length''") (auto simp: integer_between_def)
    obtain t where t: "json_at v ''value'' = JString t" using str by (cases "json_at v ''value''") auto
    obtain d where d: "discerner_value n t = Some d"
      "i = \<lparr>ji_is_discerner = True, ji_eui = replicate 8 0, ji_length = n, ji_value = d, ji_key = dump v\<rparr>"
      using assms(1) type ex str int n t
      by (auto simp: identity_from_def invalid_identity_def Let_def split: if_splits option.splits)
    have v: "v = JObject (map (\<lambda>k. (k, json_at v k)) [''length'', ''type'', ''value''])"
      by (rule json_exact_entries [OF ex assms(2)]) auto
    show ?thesis using d(2) type t n discerner_value_text [OF d(1)] by (subst v) (simp add: identity_info_def)
  qed
  then show ?thesis by (simp add: joiner_event_def)
qed

definition sample_identity :: json where
  "sample_identity = JObject [(''type'', JString ''eui64''), (''value'', JString ''0123456789ABCDEF'')]"

theorem identity_event_key_witness:
  "\<exists>i. identity_from (\<lambda>_. ''k'') sample_identity = Inr i \<and> info_identity (identity_info i) = Some sample_identity"
proof -
  have "\<exists>i. identity_from (\<lambda>_. ''k'') sample_identity = Inr i"
    by (simp add: identity_from_def sample_identity_def json_exact_def json_contains_def json_at_def omap_has_def
        eui_hex_def is_digit_def less_eq_char_def)
  then obtain i where i: "identity_from (\<lambda>_. ''k'') sample_identity = Inr i" by blast
  have "omap_ok (json_entries sample_identity)" "\<forall>n. json_at sample_identity ''length'' \<noteq> JInt n"
    by (auto simp: sample_identity_def omap_ok_def json_at_def)
  from identity_event_key [OF i this] i show ?thesis by blast
qed

section \<open>Admissions are bounded and owned\<close>

definition comm_inv :: "commissioning \<Rightarrow> bool" where
  "comm_inv s \<longleftrightarrow> omap_ok (cm_admissions s) \<and> length (cm_admissions s) \<le> 64 \<and> (\<not> cm_owned s \<longrightarrow> cm_admissions s = [])"

lemma omap_ok_filter: "omap_ok m \<Longrightarrow> omap_ok (filter P m)"
  by (induction m) (auto simp: omap_ok_Cons)

lemma comm_expire_inv: "comm_inv s \<Longrightarrow> comm_inv (comm_expire now s)"
  by (auto simp: comm_inv_def comm_expire_def omap_ok_filter intro: le_trans [OF length_filter_le])

lemma comm_add_inv: "comm_inv s \<Longrightarrow> comm_inv (snd (comm_add dump sdk status now later v s))"
  using comm_expire_inv [of s now]
  by (auto simp: comm_add_def Let_def require_active_def length_omap_put comm_inv_def comm_expire_def split: sum.splits)

lemma comm_step_inv: "comm_inv s \<Longrightarrow> comm_inv (comm_step dump a s)"
proof (cases a)
  case (CommAdd sdk status now later v)
  then show "comm_inv s \<Longrightarrow> ?thesis" by (simp add: comm_add_inv)
qed (auto simp: comm_start_def comm_stop_def comm_remove_def comm_close_def comm_state_event_def joiner_event_def
    comm_inv_def Let_def omap_del_def omap_ok_filter intro: le_trans [OF length_filter_le]
    split: sum.splits option.splits)

interpretation thread_comm: action_machine "comm_step dump" comm_inv "\<lambda>_. True" for dump
  by unfold_locales (rule comm_step_inv)

text \<open>
  Over any sequence of requests and SDK events there are at most 64 admissions, and none while the
  commissioner is not owned; an admission that was just added is there with its deadline, and every admission
  left beside it was still alive.
\<close>

theorem comm_admissions_bounded:
  assumes "s = run_actions (comm_step dump) as commissioning_init"
  shows "length (cm_admissions s) \<le> 64 \<and> (\<not> cm_owned s \<longrightarrow> cm_admissions s = []) \<and>
    (\<forall>s'. comm_add dump sdk status now later v s = (Inr (), s') \<longrightarrow>
      (\<exists>i. identity_from dump (json_at v ''identity'') = Inr i \<and>
        map_of (cm_admissions s') (ji_key i) = Some (later + 1000 * json_integer_value (json_at v ''lifetime'')) \<and>
        (\<forall>k d. k \<noteq> ji_key i \<and> map_of (cm_admissions s') k = Some d \<longrightarrow> now < d)))"
proof -
  have inv: "comm_inv s" unfolding assms
    by (rule thread_comm.run_inv) (auto simp: comm_inv_def commissioning_init_def list_all_iff)
  have "\<exists>i. identity_from dump (json_at v ''identity'') = Inr i \<and>
      map_of (cm_admissions s') (ji_key i) = Some (later + 1000 * json_integer_value (json_at v ''lifetime'')) \<and>
      (\<forall>k d. k \<noteq> ji_key i \<and> map_of (cm_admissions s') k = Some d \<longrightarrow> now < d)"
    if run: "comm_add dump sdk status now later v s = (Inr (), s')" for s'
  proof -
    obtain i where i: "identity_from dump (json_at v ''identity'') = Inr i"
      "s' = (comm_expire now s)\<lparr>cm_admissions := omap_put (ji_key i)
         (later + 1000 * json_integer_value (json_at v ''lifetime'')) (cm_admissions (comm_expire now s))\<rparr>"
      using run by (auto simp: comm_add_def Let_def split: if_splits sum.splits)
    have "now < d" if "map_of (cm_admissions (comm_expire now s)) k = Some d" for k d
      using map_of_SomeD [OF that] by (auto simp: comm_expire_def)
    then show ?thesis using i by auto
  qed
  then show ?thesis using inv by (auto simp: comm_inv_def)
qed

theorem comm_admissions_bounded_witness:
  "length (cm_admissions (run_actions (comm_step (\<lambda>_. ''k''))
     [CommStart CommissionerDisabled 0, CommState CommissionerActive] commissioning_init)) \<le> 64"
  using comm_admissions_bounded [OF refl] by blast

section \<open>The callback of a joiner attempt\<close>

text \<open>
  The owner together with the context the SDK has registered: a successful start registers it, a stop
  clears it, and the SDK calls it at most once.
\<close>

inductive joiner_step :: "joiner_owner \<times> u64 option \<Rightarrow> joiner_owner \<times> u64 option \<Rightarrow> bool" where
  JoinerStart: "joiner_start dump commissioned identity_status status v s = (Inr (), s') \<Longrightarrow>
    joiner_step (s, reg) (s', Some (jo_generation s'))"
| JoinerRefused: "joiner_start dump commissioned identity_status status v s = (Inl e, s') \<Longrightarrow>
    joiner_step (s, reg) (s', reg)"
| JoinerStop: "joiner_step (s, reg) (joiner_stop s, if jo_active s = None then reg else None)"
| JoinerClose: "joiner_step (s, reg) (joiner_close s, if jo_active s = None then reg else None)"
| JoinerTake: "joiner_step (s, reg) (snd (joiner_take s), reg)"
| JoinerCompleted: "joiner_completed status g s = Some s' \<Longrightarrow> joiner_step (s, Some g) (s', None)"

inductive_cases joiner_stepE: "joiner_step (s, reg) (s', reg')"

definition joiner_inv :: "joiner_owner \<times> u64 option \<Rightarrow> bool" where
  "joiner_inv p \<longleftrightarrow> (case p of (s, reg) \<Rightarrow>
     jo_generation s \<le> u64_max \<and>
     (case reg of
        None \<Rightarrow> jo_active s = None
      | Some g \<Rightarrow> jo_active s = Some \<lparr>ja_generation = g, ja_retired = False\<rparr> \<and> g = jo_generation s \<and> jo_result s = None))"

lemma joiner_start_cases:
  assumes "joiner_start dump commissioned identity_status status v s = (r, s')"
  obtains e where "r = Inl e" "s' = s"
  | e where "r = Inl e" "jo_active s = None" "jo_result s = None"
      "s' = s\<lparr>jo_joined := False, jo_generation := add64 (jo_generation s) 1, jo_active := None\<rparr>"
      "jo_generation s \<noteq> u64_max"
  | "r = Inr ()" "jo_active s = None" "jo_result s = None" "jo_generation s \<noteq> u64_max"
      "s' = s\<lparr>jo_joined := False, jo_generation := add64 (jo_generation s) 1,
        jo_active := Some \<lparr>ja_generation = add64 (jo_generation s) 1, ja_retired = False\<rparr>\<rparr>"
proof (cases "joiner_validate v \<and> jo_active s = None \<and> jo_result s = None \<and> \<not> commissioned \<and>
    jo_generation s \<noteq> u64_max \<and> joiner_discerner dump (json_at v ''discerner'') = Inr () \<and> identity_status = 0")
  case False
  then have "\<exists>e. joiner_start dump commissioned identity_status status v s = (Inl e, s)"
    by (cases "joiner_discerner dump (json_at v ''discerner'')") (auto simp: joiner_start_def)
  then show thesis using assms that(1) by auto
next
  case True
  then show thesis using assms that(2,3) by (cases "status = 0") (auto simp: joiner_start_def Let_def)
qed

lemma joiner_step_inv: "joiner_step p q \<Longrightarrow> joiner_inv p \<Longrightarrow> joiner_inv q"
proof (induction rule: joiner_step.induct)
  case (JoinerStart dump commissioned identity_status status v s s' reg)
  from JoinerStart(1) show ?case
    by (cases rule: joiner_start_cases) (use JoinerStart(2) in \<open>auto simp: joiner_inv_def u64\<close>)
next
  case (JoinerRefused dump commissioned identity_status status v s e s' reg)
  from JoinerRefused(1) show ?case
    by (cases rule: joiner_start_cases)
      (use JoinerRefused(2) in \<open>auto simp: joiner_inv_def u64 split: option.splits\<close>)
qed (auto simp: joiner_inv_def joiner_stop_def joiner_close_def joiner_take_def joiner_completed_def split: option.splits)


definition sample_joiner :: json where
  "sample_joiner = JObject [(''discerner'', JNull), (''provisioning_url'', JNull), (''pskd'', JString ''J01NME''),
     (''vendor_data'', JNull), (''vendor_model'', JNull), (''vendor_name'', JNull), (''vendor_sw_version'', JNull)]"

lemma sample_joiner_step:
  "joiner_step (joiner_init, None) (snd (joiner_start (\<lambda>_. []) False 0 0 sample_joiner joiner_init), Some 1)"
proof -
  have "joiner_start (\<lambda>_. []) False 0 0 sample_joiner joiner_init =
      (Inr (), joiner_init\<lparr>jo_generation := 1, jo_active := Some \<lparr>ja_generation = 1, ja_retired = False\<rparr>\<rparr>)"
    by (simp add: joiner_start_def joiner_validate_def sample_joiner_def joiner_init_def json_exact_def
        json_contains_def json_at_def omap_has_def valid_pskd_def pskd_char_def is_digit_def less_eq_char_def
        optional_text_valid_def joiner_discerner_def add64_def u64_max_def)
  from JoinerStart [OF this, of None] this show ?thesis by simp
qed


section \<open>A management outcome belongs to its command\<close>

text \<open>
  The owner with the number of commands begun, the command whose callback the SDK owes and the callbacks
  made.  The SDK calls back at most once for a submitted command, possibly after its deadline.
\<close>

record management_run =
  mr_owner :: management_owner
  mr_begun :: nat
  mr_owed :: "nat option"
  mr_answers :: "(nat \<times> nat) list"

inductive management_step :: "management_run \<Rightarrow> management_run \<Rightarrow> bool" where
  ManagementBegin: "management_begin command deadline (mr_owner r) = (True, s') \<Longrightarrow>
    management_step r (r\<lparr>mr_owner := s', mr_begun := mr_begun r + 1, mr_owed := Some (mr_begun r + 1)\<rparr>)"
| ManagementFailed: "mr_owed r = Some (mr_begun r) \<Longrightarrow> management_step r
    (r\<lparr>mr_owner := management_submission_failed (mr_owner r), mr_owed := None\<rparr>)"
| ManagementComplete: "mr_owed r = Some n \<Longrightarrow> management_step r
    (r\<lparr>mr_owner := management_complete status (mr_owner r), mr_owed := None, mr_answers := (n, status) # mr_answers r\<rparr>)"
| ManagementTake: "management_step r (r\<lparr>mr_owner := snd (management_take now (mr_owner r))\<rparr>)"

definition management_run_init :: management_run where
  "management_run_init = \<lparr>mr_owner = management_init, mr_begun = 0, mr_owed = None, mr_answers = []\<rparr>"

definition management_inv :: "management_run \<Rightarrow> bool" where
  "management_inv r \<longleftrightarrow>
     (mo_callback_pending (mr_owner r) \<longleftrightarrow> mr_owed r \<noteq> None) \<and> (mr_owed r \<in> {None, Some (mr_begun r)}) \<and>
     (\<forall>st. mo_active (mr_owner r) \<noteq> None \<and> mo_result (mr_owner r) = Some st \<longrightarrow> (mr_begun r, st) \<in> set (mr_answers r))"

lemma management_step_inv: "management_step r r' \<Longrightarrow> management_inv r \<Longrightarrow> management_inv r'"
proof (induction rule: management_step.induct)
  case (ManagementBegin command deadline r s')
  then show ?case by (auto simp: management_inv_def management_begin_def split: if_splits)
next
  case (ManagementComplete r n status)
  then show ?case by (auto simp: management_inv_def management_complete_def Let_def)
next
  case (ManagementTake r now)
  then show ?case by (auto simp: management_inv_def management_take_def split: option.splits)
qed (auto simp: management_inv_def management_submission_failed_def)

text \<open>
  A status that is returned for a command is the one the SDK gave for that command: a callback that arrives
  after its command timed out is never taken for the answer of a later one, and no command begins while a
  callback is owed.
\<close>

theorem management_status_own:
  assumes "management_step\<^sup>*\<^sup>* management_run_init r"
  shows "(\<forall>command outcome status s'. management_take now (mr_owner r) = (Some (command, outcome, Some status), s') \<longrightarrow>
      (mr_begun r, status) \<in> set (mr_answers r) \<and> (outcome = OutcomeAccepted \<longleftrightarrow> status = 0)) \<and>
    (mr_owed r \<noteq> None \<longrightarrow> fst (management_begin command' deadline (mr_owner r)) = False)"
proof -
  have inv: "management_inv r" using assms
  proof induction
    case base
    show ?case by (simp add: management_inv_def management_run_init_def management_init_def)
  qed (rule management_step_inv)
  then have "mr_owed r \<noteq> None \<longrightarrow> fst (management_begin command' deadline (mr_owner r)) = False"
    by (auto simp: management_inv_def management_begin_def management_busy_def)
  moreover have "(mr_begun r, status) \<in> set (mr_answers r) \<and> (outcome = OutcomeAccepted \<longleftrightarrow> status = 0)"
    if "management_take now (mr_owner r) = (Some (command, outcome, Some status), s')" for command outcome status s'
    using that inv by (auto simp: management_take_def management_inv_def split: option.splits if_splits)
  ultimately show ?thesis by blast
qed

theorem management_status_own_witness:
  "fst (management_begin \<lparr>tr_id = ''1'', tr_operation = ''x'', tr_parameters = JNull, tr_timeout_ms = 1\<rparr> 5
     (mr_owner (management_run_init\<lparr>mr_owner := management_init\<lparr>mo_callback_pending := True,
        mo_active := Some (\<lparr>tr_id = ''0'', tr_operation = ''x'', tr_parameters = JNull, tr_timeout_ms = 1\<rparr>, 3)\<rparr>,
        mr_begun := 1, mr_owed := Some 1\<rparr>))) = False"
proof -
  let ?c = "\<lparr>tr_id = ''0'', tr_operation = ''x'', tr_parameters = JNull, tr_timeout_ms = 1\<rparr>"
  let ?s = "management_init\<lparr>mo_callback_pending := True, mo_active := Some (?c, 3)\<rparr>"
  have "management_begin ?c 3 (mr_owner management_run_init) = (True, ?s)"
    by (simp add: management_begin_def management_busy_def management_init_def management_run_init_def)
  from ManagementBegin [OF this]
  have "management_step\<^sup>*\<^sup>* management_run_init (management_run_init\<lparr>mr_owner := ?s, mr_begun := 1, mr_owed := Some 1\<rparr>)"
    by (simp add: management_run_init_def)
  from management_status_own [OF this, of 0] show ?thesis by simp
qed

end
