(* ===== verification/Matter_Value.thy ===== *)
theory Matter_Value
  imports Wotex_Prelude
begin

text \<open>
  The typed values of the Matter host (\<open>value.hpp\<close>, \<open>value.cpp\<close>): the table of the members the host admits, the
  conversion of a native value into a tagged element, and the validation of an element that comes from the
  protocol or from the SDK.  An integer is a natural number, or an integer where it is signed, with the
  truncating casts of the source written out; \<open>element_typed\<close> is the well-formedness the code relies on.
\<close>

unbundle bit_operations_syntax

section \<open>Data\<close>

datatype member_kind = KAttribute | KCommand | KEvent
datatype member_operation = OpRead | OpWrite | OpInvoke | OpSubscribe

datatype schema =
    SNullableI16 | SI16 | SU8 | SBoolean | SEmptyStructure | SDeviceTypeList | SClusterList | SPartsList
  | SReachableEvent | SAccessControlList | SWindowStatus | SNullableFabricIndex | SNullableVendorId

datatype element_type = TNull | TI16 | TU8 | TU16 | TU32 | TU64 | TBoolean | TStructure | TArray
datatype tag_kind = Anonymous | Context

record tag =
  tg_kind :: tag_kind
  tg_id :: nat

datatype element =
  Element (el_tag: tag) (el_type: element_type) (el_signed: int) (el_unsigned: u64) (el_boolean: bool)
    (el_children: "element list")

record device_type =
  dt_id :: nat
  dt_revision :: nat

datatype native_kind =
    NNull | NSigned | NUnsigned | NBoolean | NEmptyStructure | NDeviceTypes | NIdentifiers | NReachable

record native_value =
  nv_kind :: native_kind
  nv_signed :: int
  nv_unsigned :: u64
  nv_boolean :: bool
  nv_device_types :: "device_type list"
  nv_identifiers :: "nat list"

record descriptor_entry =
  de_kind :: member_kind
  de_cluster :: nat
  de_member :: nat
  de_schema :: schema
  de_operations :: "8 word"

datatype conversion_error = ENone | EUnsupportedSchema | EUnsupportedOperation | ENotWritable | EInvalidValue

record conversion =
  cv_error :: conversion_error
  cv_element :: "element option"

section \<open>The table of members\<close>

definition k_read :: "8 word" where "k_read = push_bit 0 1"
definition k_write :: "8 word" where "k_write = push_bit 1 1"
definition k_invoke :: "8 word" where "k_invoke = push_bit 2 1"
definition k_subscribe :: "8 word" where "k_subscribe = push_bit 3 1"

definition descriptor_of :: "member_kind \<Rightarrow> nat \<Rightarrow> nat \<Rightarrow> schema \<Rightarrow> 8 word \<Rightarrow> descriptor_entry" where
  "descriptor_of k c m s ops =
     \<lparr>de_kind = k, de_cluster = c, de_member = m, de_schema = s, de_operations = ops\<rparr>"

definition k_descriptors :: "descriptor_entry list" where
  "k_descriptors =
    [descriptor_of KAttribute 0x0201 0x0000 SNullableI16 (k_read OR k_subscribe),
     descriptor_of KAttribute 0x0201 0x0011 SI16 (k_read OR k_write),
     descriptor_of KAttribute 0x0201 0x0012 SI16 (k_read OR k_write),
     descriptor_of KAttribute 0x0201 0x001C SU8 (k_read OR k_write),
     descriptor_of KAttribute 0x0006 0x0000 SBoolean (k_read OR k_subscribe),
     descriptor_of KCommand 0x0006 0x0000 SEmptyStructure k_invoke,
     descriptor_of KCommand 0x0006 0x0001 SEmptyStructure k_invoke,
     descriptor_of KCommand 0x0006 0x0002 SEmptyStructure k_invoke,
     descriptor_of KAttribute 0x001D 0x0000 SDeviceTypeList k_read,
     descriptor_of KAttribute 0x001D 0x0001 SClusterList k_read,
     descriptor_of KAttribute 0x001D 0x0002 SClusterList k_read,
     descriptor_of KAttribute 0x001D 0x0003 SPartsList k_read,
     descriptor_of KAttribute 0x0039 0x0011 SBoolean (k_read OR k_subscribe),
     descriptor_of KEvent 0x0039 0x0003 SReachableEvent (k_read OR k_subscribe),
     descriptor_of KAttribute 0x0402 0x0000 SNullableI16 (k_read OR k_subscribe),
     descriptor_of KAttribute 0x001F 0x0000 SAccessControlList (k_read OR k_write),
     descriptor_of KAttribute 0x003C 0x0000 SWindowStatus k_read,
     descriptor_of KAttribute 0x003C 0x0001 SNullableFabricIndex k_read,
     descriptor_of KAttribute 0x003C 0x0002 SNullableVendorId k_read]"

fun operation_flag :: "member_operation \<Rightarrow> 8 word" where
  "operation_flag OpRead = k_read"
| "operation_flag OpWrite = k_write"
| "operation_flag OpInvoke = k_invoke"
| "operation_flag OpSubscribe = k_subscribe"

definition lookup_descriptor :: "member_kind \<Rightarrow> nat \<Rightarrow> nat \<Rightarrow> descriptor_entry option" where
  "lookup_descriptor kind cluster member =
     find (\<lambda>d. de_kind d = kind \<and> de_cluster d = cluster \<and> de_member d = member) k_descriptors"

section \<open>Native values and elements\<close>

definition native_default :: native_value where
  "native_default = \<lparr>nv_kind = NNull, nv_signed = 0, nv_unsigned = 0, nv_boolean = False,
     nv_device_types = [], nv_identifiers = []\<rparr>"

definition null_value :: native_value where
  "null_value = native_default"

definition signed_integer :: "int \<Rightarrow> native_value" where
  "signed_integer v = native_default\<lparr>nv_kind := NSigned, nv_signed := v\<rparr>"

definition unsigned_integer :: "u64 \<Rightarrow> native_value" where
  "unsigned_integer v = native_default\<lparr>nv_kind := NUnsigned, nv_unsigned := v\<rparr>"

definition native_boolean :: "bool \<Rightarrow> native_value" where
  "native_boolean v = native_default\<lparr>nv_kind := NBoolean, nv_boolean := v\<rparr>"

definition empty_structure :: native_value where
  "empty_structure = native_default\<lparr>nv_kind := NEmptyStructure\<rparr>"

definition device_type_list :: "device_type list \<Rightarrow> native_value" where
  "device_type_list vs = native_default\<lparr>nv_kind := NDeviceTypes, nv_device_types := vs\<rparr>"

definition identifier_list :: "nat list \<Rightarrow> native_value" where
  "identifier_list vs = native_default\<lparr>nv_kind := NIdentifiers, nv_identifiers := vs\<rparr>"

definition native_reachable :: "bool \<Rightarrow> native_value" where
  "native_reachable v = native_default\<lparr>nv_kind := NReachable, nv_boolean := v\<rparr>"

definition anonymous_tag :: tag where
  "anonymous_tag = \<lparr>tg_kind = Anonymous, tg_id = 0\<rparr>"

definition element_of :: "element_type \<Rightarrow> element" where
  "element_of type = Element anonymous_tag type 0 0 False []"

definition context_element :: "element_type \<Rightarrow> nat \<Rightarrow> element" where
  "context_element type n = Element \<lparr>tg_kind = Context, tg_id = n\<rparr> type 0 0 False []"

definition with_signed :: "int \<Rightarrow> element \<Rightarrow> element" where
  "with_signed v e = Element (el_tag e) (el_type e) v (el_unsigned e) (el_boolean e) (el_children e)"

definition with_unsigned :: "u64 \<Rightarrow> element \<Rightarrow> element" where
  "with_unsigned v e = Element (el_tag e) (el_type e) (el_signed e) v (el_boolean e) (el_children e)"

definition with_boolean :: "bool \<Rightarrow> element \<Rightarrow> element" where
  "with_boolean v e = Element (el_tag e) (el_type e) (el_signed e) (el_unsigned e) v (el_children e)"

definition with_children :: "element list \<Rightarrow> element \<Rightarrow> element" where
  "with_children cs e = Element (el_tag e) (el_type e) (el_signed e) (el_unsigned e) (el_boolean e) cs"

definition conversion_success :: "element \<Rightarrow> conversion" where
  "conversion_success e = \<lparr>cv_error = ENone, cv_element = Some e\<rparr>"

definition conversion_failure :: "conversion_error \<Rightarrow> conversion" where
  "conversion_failure err = \<lparr>cv_error = err, cv_element = None\<rparr>"

definition valid_cluster :: "nat \<Rightarrow> bool" where
  "valid_cluster v \<longleftrightarrow>
     v \<le> 0x7FFF \<or>
     (v \<ge> 0x0001FC00 \<and> v \<le> 0xFFF4FFFE \<and> v mod 65536 \<ge> 0xFC00 \<and> v mod 65536 \<le> 0xFFFE)"

definition u32_cast :: "u64 \<Rightarrow> nat" where
  "u32_cast v = v mod 2 ^ 32"

section \<open>Conversion\<close>

definition convert_i16 :: "native_value \<Rightarrow> conversion" where
  "convert_i16 v =
     (if nv_kind v = NSigned \<and> nv_signed v \<ge> -32768 \<and> nv_signed v \<le> 32767
      then conversion_success (with_signed (nv_signed v) (element_of TI16))
      else conversion_failure EInvalidValue)"

definition device_type_entry :: "device_type \<Rightarrow> element" where
  "device_type_entry dt =
     with_children
       [with_unsigned (dt_id dt) (context_element TU32 0), with_unsigned (dt_revision dt) (context_element TU16 1)]
       (element_of TStructure)"

text \<open>The loops over identifiers: the first inadmissible one ends the conversion.\<close>

fun convert_identifiers :: "(nat \<Rightarrow> bool) \<Rightarrow> element_type \<Rightarrow> nat list \<Rightarrow> element list option" where
  "convert_identifiers admitted type [] = Some []"
| "convert_identifiers admitted type (i # is) =
     (if \<not> admitted i then None
      else map_option (\<lambda>es. with_unsigned i (element_of type) # es) (convert_identifiers admitted type is))"

definition convert_list :: "(nat \<Rightarrow> bool) \<Rightarrow> element_type \<Rightarrow> native_value \<Rightarrow> conversion" where
  "convert_list admitted type v =
     (if nv_kind v = NIdentifiers \<and> length (nv_identifiers v) \<le> 1023
      then case convert_identifiers admitted type (nv_identifiers v) of
             None \<Rightarrow> conversion_failure EInvalidValue
           | Some es \<Rightarrow> conversion_success (with_children es (element_of TArray))
      else conversion_failure EInvalidValue)"

definition convert_nullable_index :: "nat \<Rightarrow> element_type \<Rightarrow> native_value \<Rightarrow> conversion" where
  "convert_nullable_index maximum type v =
     (if nv_kind v = NNull then conversion_success (element_of TNull)
      else if nv_kind v = NUnsigned \<and> nv_unsigned v \<ge> 1 \<and> nv_unsigned v \<le> maximum
      then conversion_success (with_unsigned (nv_unsigned v) (element_of type))
      else conversion_failure EInvalidValue)"

fun convert :: "schema \<Rightarrow> native_value \<Rightarrow> conversion" where
  "convert SNullableI16 v =
     (if nv_kind v = NNull then conversion_success (element_of TNull) else convert_i16 v)"
| "convert SI16 v = convert_i16 v"
| "convert SU8 v =
     (if nv_kind v = NUnsigned \<and> nv_unsigned v \<le> 0xFF
      then conversion_success (with_unsigned (nv_unsigned v) (element_of TU8))
      else conversion_failure EInvalidValue)"
| "convert SBoolean v =
     (if nv_kind v = NBoolean then conversion_success (with_boolean (nv_boolean v) (element_of TBoolean))
      else conversion_failure EInvalidValue)"
| "convert SEmptyStructure v =
     (if nv_kind v = NEmptyStructure then conversion_success (element_of TStructure)
      else conversion_failure EInvalidValue)"
| "convert SDeviceTypeList v =
     (if nv_kind v = NDeviceTypes \<and> length (nv_device_types v) \<le> 1023
      then conversion_success (with_children (map device_type_entry (nv_device_types v)) (element_of TArray))
      else conversion_failure EInvalidValue)"
| "convert SClusterList v = convert_list valid_cluster TU32 v"
| "convert SPartsList v = convert_list (\<lambda>i. i \<le> 0xFFFE) TU16 v"
| "convert SReachableEvent v =
     (if nv_kind v = NReachable
      then conversion_success
        (with_children [with_boolean (nv_boolean v) (context_element TBoolean 0)] (element_of TStructure))
      else conversion_failure EInvalidValue)"
| "convert SWindowStatus v =
     (if nv_kind v = NUnsigned \<and> nv_unsigned v \<le> 2
      then conversion_success (with_unsigned (nv_unsigned v) (element_of TU8))
      else conversion_failure EInvalidValue)"
| "convert SNullableFabricIndex v = convert_nullable_index 254 TU8 v"
| "convert SNullableVendorId v = convert_nullable_index 0xFFFE TU16 v"
| "convert SAccessControlList v = conversion_failure EInvalidValue"

definition operation_refused :: "member_operation \<Rightarrow> conversion_error" where
  "operation_refused op = (if op = OpWrite then ENotWritable else EUnsupportedOperation)"

definition convert_value :: "member_kind \<Rightarrow> nat \<Rightarrow> nat \<Rightarrow> member_operation \<Rightarrow> native_value \<Rightarrow> conversion" where
  "convert_value kind cluster member op v =
     (case lookup_descriptor kind cluster member of
        None \<Rightarrow> conversion_failure EUnsupportedSchema
      | Some d \<Rightarrow>
          (if de_operations d AND operation_flag op = 0 then conversion_failure (operation_refused op)
           else convert (de_schema d) v))"

section \<open>Validation\<close>

text \<open>
  \<open>ContextField\<close>: the field with a context tag, \<open>None\<close> when it is absent or occurs twice, or when some field
  up to that point has no context tag.
\<close>

fun context_field_loop :: "nat \<Rightarrow> element option \<Rightarrow> element list \<Rightarrow> element option" where
  "context_field_loop n result [] = result"
| "context_field_loop n result (f # fs) =
     (if tg_kind (el_tag f) \<noteq> Context then None
      else if tg_id (el_tag f) = n
           then (if result \<noteq> None then None else context_field_loop n (Some f) fs)
           else context_field_loop n result fs)"

definition context_field :: "element \<Rightarrow> nat \<Rightarrow> element option" where
  "context_field s n = context_field_loop n None (el_children s)"

definition nullable_target_field :: "element option \<Rightarrow> element_type \<Rightarrow> u64 \<Rightarrow> bool \<Rightarrow> bool" where
  "nullable_target_field field type maximum cluster \<longleftrightarrow>
     (case field of
        None \<Rightarrow> False
      | Some f \<Rightarrow>
          el_type f = TNull \<or>
          (el_type f = type \<and> el_unsigned f \<le> maximum \<and>
           (\<not> cluster \<or> valid_cluster (u32_cast (el_unsigned f)))))"

definition field_null :: "element option \<Rightarrow> bool" where
  "field_null f \<longleftrightarrow> (case f of None \<Rightarrow> False | Some e \<Rightarrow> el_type e = TNull)"

definition valid_target :: "element \<Rightarrow> bool" where
  "valid_target target \<longleftrightarrow>
     (if tg_kind (el_tag target) \<noteq> Anonymous \<or> el_type target \<noteq> TStructure \<or> length (el_children target) \<noteq> 3
      then False
      else
        let cluster = context_field target 0;
            endpoint = context_field target 1;
            device_type = context_field target 2
        in nullable_target_field cluster TU32 0xFFFFFFFF True \<and>
           nullable_target_field endpoint TU16 0xFFFE False \<and>
           nullable_target_field device_type TU32 0xFFFFFFFF False \<and>
           (\<not> field_null cluster \<or> \<not> field_null endpoint \<or> \<not> field_null device_type) \<and>
           (field_null endpoint \<or> field_null device_type))"

definition valid_nullable_subjects :: "element option \<Rightarrow> bool" where
  "valid_nullable_subjects subjects \<longleftrightarrow>
     (case subjects of
        None \<Rightarrow> False
      | Some s \<Rightarrow>
          tg_kind (el_tag s) = Context \<and> tg_id (el_tag s) = 3 \<and>
          (el_type s = TNull \<or>
           (el_type s = TArray \<and> length (el_children s) \<le> 64 \<and>
            list_all (\<lambda>x. tg_kind (el_tag x) = Anonymous \<and> el_type x = TU64) (el_children s))))"

definition valid_nullable_targets :: "element option \<Rightarrow> bool" where
  "valid_nullable_targets targets \<longleftrightarrow>
     (case targets of
        None \<Rightarrow> False
      | Some t \<Rightarrow>
          tg_kind (el_tag t) = Context \<and> tg_id (el_tag t) = 4 \<and>
          (el_type t = TNull \<or>
           (el_type t = TArray \<and> length (el_children t) \<le> 64 \<and> list_all valid_target (el_children t))))"

text \<open>An unsigned byte between two bounds.\<close>

definition byte_between :: "nat \<Rightarrow> nat \<Rightarrow> element \<Rightarrow> bool" where
  "byte_between lo hi e \<longleftrightarrow> el_type e = TU8 \<and> lo \<le> el_unsigned e \<and> el_unsigned e \<le> hi"

definition required_byte :: "nat \<Rightarrow> nat \<Rightarrow> element option \<Rightarrow> bool" where
  "required_byte lo hi field \<longleftrightarrow> (case field of None \<Rightarrow> False | Some f \<Rightarrow> byte_between lo hi f)"

definition valid_acl_entry :: "member_operation \<Rightarrow> element \<Rightarrow> bool" where
  "valid_acl_entry op entry \<longleftrightarrow>
     (if tg_kind (el_tag entry) \<noteq> Anonymous \<or> el_type entry \<noteq> TStructure \<or>
         length (el_children entry) < 4 \<or> length (el_children entry) > 6
      then False
      else if \<not> list_all (\<lambda>f. tg_kind (el_tag f) = Context \<and> tg_id (el_tag f) \<in> {1, 2, 3, 4, 5, 254})
                (el_children entry)
      then False
      else
        required_byte 1 5 (context_field entry 1) \<and> required_byte 2 3 (context_field entry 2) \<and>
        valid_nullable_subjects (context_field entry 3) \<and> valid_nullable_targets (context_field entry 4) \<and>
        (case context_field entry 5 of None \<Rightarrow> True | Some f \<Rightarrow> byte_between 0 1 f) \<and>
        (case context_field entry 254 of None \<Rightarrow> True | Some f \<Rightarrow> op = OpRead \<and> byte_between 1 254 f))"

definition valid_access_control_list :: "element \<Rightarrow> member_operation \<Rightarrow> bool" where
  "valid_access_control_list e op \<longleftrightarrow>
     (if el_type e \<noteq> TArray \<or> tg_kind (el_tag e) \<noteq> Anonymous \<or> length (el_children e) > 64 then False
      else list_all (valid_acl_entry op) (el_children e))"

definition element_i16 :: "element \<Rightarrow> bool" where
  "element_i16 e \<longleftrightarrow> el_type e = TI16 \<and> el_signed e \<ge> -32768 \<and> el_signed e \<le> 32767"

definition context_child :: "element \<Rightarrow> nat \<Rightarrow> element_type \<Rightarrow> bool" where
  "context_child e i type \<longleftrightarrow>
     (let c = el_children e ! i in tg_kind (el_tag c) = Context \<and> tg_id (el_tag c) = i \<and> el_type c = type)"

definition element_list :: "(element \<Rightarrow> bool) \<Rightarrow> element \<Rightarrow> bool" where
  "element_list entry e \<longleftrightarrow> el_type e = TArray \<and> length (el_children e) \<le> 1023 \<and>
     list_all (\<lambda>c. tg_kind (el_tag c) = Anonymous \<and> entry c) (el_children e)"

fun schema_admits :: "schema \<Rightarrow> member_operation \<Rightarrow> element \<Rightarrow> bool" where
  "schema_admits SNullableI16 op e \<longleftrightarrow> el_type e = TNull \<or> element_i16 e"
| "schema_admits SI16 op e \<longleftrightarrow> element_i16 e"
| "schema_admits SU8 op e \<longleftrightarrow> el_type e = TU8 \<and> el_unsigned e \<le> 0xFF"
| "schema_admits SBoolean op e \<longleftrightarrow> el_type e = TBoolean"
| "schema_admits SEmptyStructure op e \<longleftrightarrow> el_type e = TStructure \<and> el_children e = []"
| "schema_admits SDeviceTypeList op e \<longleftrightarrow>
     element_list (\<lambda>c. el_type c = TStructure \<and> length (el_children c) = 2 \<and>
       context_child c 0 TU32 \<and> context_child c 1 TU16) e"
| "schema_admits SClusterList op e \<longleftrightarrow>
     element_list (\<lambda>c. el_type c = TU32 \<and> valid_cluster (u32_cast (el_unsigned c))) e"
| "schema_admits SPartsList op e \<longleftrightarrow> element_list (\<lambda>c. el_type c = TU16 \<and> el_unsigned c \<le> 0xFFFE) e"
| "schema_admits SReachableEvent op e \<longleftrightarrow>
     el_type e = TStructure \<and> length (el_children e) = 1 \<and> context_child e 0 TBoolean"
| "schema_admits SWindowStatus op e \<longleftrightarrow> el_type e = TU8 \<and> el_unsigned e \<le> 2"
| "schema_admits SNullableFabricIndex op e \<longleftrightarrow>
     el_type e = TNull \<or> (el_type e = TU8 \<and> el_unsigned e \<ge> 1 \<and> el_unsigned e \<le> 254)"
| "schema_admits SNullableVendorId op e \<longleftrightarrow>
     el_type e = TNull \<or> (el_type e = TU16 \<and> el_unsigned e \<ge> 1 \<and> el_unsigned e \<le> 0xFFFE)"
| "schema_admits SAccessControlList op e \<longleftrightarrow> valid_access_control_list e op"

definition validate_element ::
  "member_kind \<Rightarrow> nat \<Rightarrow> nat \<Rightarrow> member_operation \<Rightarrow> element \<Rightarrow> conversion_error" where
  "validate_element kind cluster member op e =
     (case lookup_descriptor kind cluster member of
        None \<Rightarrow> EUnsupportedSchema
      | Some d \<Rightarrow>
          (if de_operations d AND operation_flag op = 0 then operation_refused op
           else if tg_kind (el_tag e) \<noteq> Anonymous then EInvalidValue
           else if schema_admits (de_schema d) op e then ENone
           else EInvalidValue))"

section \<open>Well-formed elements\<close>

definition type_max :: "element_type \<Rightarrow> nat" where
  "type_max t = (case t of TU8 \<Rightarrow> 0xFF | TU16 \<Rightarrow> 0xFFFF | TU32 \<Rightarrow> 0xFFFFFFFF | TU64 \<Rightarrow> u64_max | _ \<Rightarrow> 0)"

text \<open>
  A value lies in the field and in the range of its type, the other fields keep their defaults, and the tag
  number of an anonymous element is zero.
\<close>

definition node_typed :: "element \<Rightarrow> bool" where
  "node_typed e \<longleftrightarrow>
     (tg_kind (el_tag e) = Anonymous \<longrightarrow> tg_id (el_tag e) = 0) \<and> tg_id (el_tag e) \<le> 255 \<and>
     (if el_type e = TI16 then -32768 \<le> el_signed e \<and> el_signed e \<le> 32767 else el_signed e = 0) \<and>
     el_unsigned e \<le> type_max (el_type e) \<and>
     (el_type e = TBoolean \<or> \<not> el_boolean e) \<and>
     (el_type e \<in> {TStructure, TArray} \<or> el_children e = [])"

fun element_typed :: "element \<Rightarrow> bool" where
  "element_typed (Element t ty s u b cs) \<longleftrightarrow> node_typed (Element t ty s u b cs) \<and> list_all element_typed cs"

definition native_typed :: "native_value \<Rightarrow> bool" where
  "native_typed v \<longleftrightarrow>
     i64 (nv_signed v) \<and> nv_unsigned v \<le> u64_max \<and>
     list_all (\<lambda>d. dt_id d < 2 ^ 32 \<and> dt_revision d < 2 ^ 16) (nv_device_types v) \<and>
     list_all (\<lambda>i. i < 2 ^ 32) (nv_identifiers v)"

lemma element_typed_iff: "element_typed e \<longleftrightarrow> node_typed e \<and> list_all element_typed (el_children e)"
  by (cases e) simp

section \<open>Conversion and validation agree\<close>

lemmas element_defs =
  element_of_def context_element_def with_signed_def with_unsigned_def with_boolean_def with_children_def
  anonymous_tag_def

lemma success_iff [simp]:
  "conversion_success e = conversion_success e' \<longleftrightarrow> e = e'"
  "conversion_failure err \<noteq> conversion_success e" "conversion_success e \<noteq> conversion_failure err"
  by (auto simp: conversion_success_def conversion_failure_def)

lemma anonymous_typed: "element_typed e \<Longrightarrow> tg_kind (el_tag e) = Anonymous \<Longrightarrow> el_tag e = anonymous_tag"
  by (simp add: element_typed_iff node_typed_def anonymous_tag_def)

text \<open>A typed element of each type is determined by the field of its type.\<close>

lemma typed_shape:
  assumes "element_typed e"
  shows "el_type e = TNull \<Longrightarrow> e = Element (el_tag e) TNull 0 0 False []"
    and "el_type e = TI16 \<Longrightarrow> e = Element (el_tag e) TI16 (el_signed e) 0 False []"
    and "el_type e \<in> {TU8, TU16, TU32, TU64} \<Longrightarrow> e = Element (el_tag e) (el_type e) 0 (el_unsigned e) False []"
    and "el_type e = TBoolean \<Longrightarrow> e = Element (el_tag e) TBoolean 0 0 (el_boolean e) []"
    and "el_type e \<in> {TStructure, TArray} \<Longrightarrow> e = Element (el_tag e) (el_type e) 0 0 False (el_children e)"
  using assms by (cases e; auto simp: node_typed_def type_max_def)+

lemma convert_identifiers_Some:
  "convert_identifiers p t is = Some es \<longleftrightarrow>
     list_all p is \<and> es = map (\<lambda>i. with_unsigned i (element_of t)) is"
  by (induction "is" arbitrary: es) auto

lemma convert_identifiers_all:
  "\<forall>i \<in> set is. p i \<Longrightarrow> convert_identifiers p t is = Some (map (\<lambda>i. with_unsigned i (element_of t)) is)"
  by (simp add: convert_identifiers_Some list_all_iff)

lemma valid_cluster_bound: "valid_cluster i \<Longrightarrow> i \<le> 0xFFFFFFFF"
  by (auto simp: valid_cluster_def)

lemma u32_cast_id [simp]: "i \<le> 0xFFFFFFFF \<Longrightarrow> u32_cast i = i"
  by (simp add: u32_cast_def)

lemma convert_sound:
  assumes "convert s v = conversion_success e" and "native_typed v"
  shows "tg_kind (el_tag e) = Anonymous \<and> schema_admits s op e \<and> element_typed e"
proof (cases s)
  case SClusterList
  have *: "e = with_children (map (\<lambda>i. with_unsigned i (element_of TU32)) (nv_identifiers v)) (element_of TArray)"
    "list_all valid_cluster (nv_identifiers v)" "length (nv_identifiers v) \<le> 1023"
    using assms SClusterList
    by (auto simp: convert_list_def convert_identifiers_Some split: if_splits option.splits)
  then show ?thesis
    using SClusterList valid_cluster_bound
    by (force simp: list_all_iff element_list_def element_defs node_typed_def type_max_def)
next
  case SPartsList
  have *: "e = with_children (map (\<lambda>i. with_unsigned i (element_of TU16)) (nv_identifiers v)) (element_of TArray)"
    "list_all (\<lambda>i. i \<le> 0xFFFE) (nv_identifiers v)" "length (nv_identifiers v) \<le> 1023"
    using assms SPartsList
    by (auto simp: convert_list_def convert_identifiers_Some split: if_splits option.splits)
  then show ?thesis
    using SPartsList
    by (force simp: list_all_iff element_list_def element_defs node_typed_def type_max_def)
next
  case SDeviceTypeList
  then show ?thesis
    using assms
    by (force simp: list_all_iff element_list_def element_defs node_typed_def type_max_def device_type_entry_def
      context_child_def native_typed_def split: if_splits)
qed (use assms in \<open>auto simp: element_defs node_typed_def type_max_def convert_i16_def convert_nullable_index_def
       element_i16_def context_child_def split: if_splits\<close>)

text \<open>The native value an element stands for; the access control list has none.\<close>

definition device_type_of :: "element \<Rightarrow> device_type" where
  "device_type_of c = \<lparr>dt_id = el_unsigned (el_children c ! 0), dt_revision = el_unsigned (el_children c ! 1)\<rparr>"

definition native_of :: "schema \<Rightarrow> element \<Rightarrow> native_value" where
  "native_of s e =
     (if el_type e = TNull then null_value
      else if el_type e = TI16 then signed_integer (el_signed e)
      else if el_type e \<in> {TU8, TU16} then unsigned_integer (el_unsigned e)
      else if el_type e = TBoolean then native_boolean (el_boolean e)
      else if s = SEmptyStructure then empty_structure
      else if s = SDeviceTypeList then device_type_list (map device_type_of (el_children e))
      else if s = SReachableEvent then native_reachable (el_boolean (el_children e ! 0))
      else identifier_list (map el_unsigned (el_children e)))"

lemmas native_defs =
  native_default_def null_value_def signed_integer_def unsigned_integer_def native_boolean_def empty_structure_def
  device_type_list_def identifier_list_def native_reachable_def

lemma array_shape:
  assumes "element_typed e" and "tg_kind (el_tag e) = Anonymous" and "el_type e = TArray"
  shows "with_children (el_children e) (element_of TArray) = e"
  using typed_shape(5) [OF assms(1)] anonymous_typed [OF assms(1,2)] assms(3) by (simp add: element_defs)

lemma unsigned_children:
  assumes "element_typed e" and "list_all (\<lambda>c. tg_kind (el_tag c) = Anonymous \<and> el_type c = t \<and> p c) (el_children e)"
    and "t \<in> {TU16, TU32}"
  shows "map ((\<lambda>i. with_unsigned i (element_of t)) \<circ> el_unsigned) (el_children e) = el_children e"
proof (rule map_idI)
  fix c assume c: "c \<in> set (el_children e)"
  then have typed: "element_typed c" and t: "tg_kind (el_tag c) = Anonymous" "el_type c = t"
    using assms(1,2) element_typed_iff [of e] by (auto simp: list_all_iff)
  show "((\<lambda>i. with_unsigned i (element_of t)) \<circ> el_unsigned) c = c"
    using typed_shape(3) [OF typed] anonymous_typed [OF typed t(1)] t(2) assms(3) by (auto simp: element_defs)
qed

lemma unsigned_children_max:
  "element_typed e \<Longrightarrow> c \<in> set (el_children e) \<Longrightarrow> el_unsigned c \<le> type_max (el_type c)"
  using element_typed_iff [of e] element_typed_iff [of c] by (auto simp: list_all_iff node_typed_def)

lemma length_two_nth: "length xs = 2 \<Longrightarrow> xs = [xs ! 0, xs ! 1]"
  by (auto simp: length_Suc_conv eval_nat_numeral)

lemma length_one_nth: "length xs = 1 \<Longrightarrow> xs = [xs ! 0]"
  by (auto simp: length_Suc_conv)

lemma device_type_entry_of:
  assumes typed: "element_typed c" and tag: "tg_kind (el_tag c) = Anonymous"
    and shape: "el_type c = TStructure" "length (el_children c) = 2" "context_child c 0 TU32" "context_child c 1 TU16"
  shows "device_type_entry (device_type_of c) = c"
    and "dt_id (device_type_of c) < 2 ^ 32" "dt_revision (device_type_of c) < 2 ^ 16"
proof -
  let ?a = "el_children c ! 0" and ?b = "el_children c ! 1"
  have cs: "el_children c = [?a, ?b]" using length_two_nth [OF shape(2)] .
  have ta: "element_typed ?a" and tb: "element_typed ?b"
    using typed shape(2) element_typed_iff [of c] by (auto simp: list_all_length)
  have a: "el_type ?a = TU32" "el_tag ?a = \<lparr>tg_kind = Context, tg_id = 0\<rparr>"
    and b: "el_type ?b = TU16" "el_tag ?b = \<lparr>tg_kind = Context, tg_id = 1\<rparr>"
    using shape(3,4) by (auto simp: context_child_def Let_def)
  have "?a = with_unsigned (el_unsigned ?a) (context_element TU32 0)"
    and "?b = with_unsigned (el_unsigned ?b) (context_element TU16 1)"
    using typed_shape(3) [OF ta] typed_shape(3) [OF tb] a b by (simp_all add: element_defs)
  moreover have "c = with_children (el_children c) (element_of TStructure)"
    using typed_shape(5) [OF typed] anonymous_typed [OF typed tag] shape(1) by (simp add: element_defs)
  ultimately show "device_type_entry (device_type_of c) = c"
    using cs by (simp add: device_type_entry_def device_type_of_def)
  show "dt_id (device_type_of c) < 2 ^ 32" "dt_revision (device_type_of c) < 2 ^ 16"
    using ta tb a b element_typed_iff [of ?a] element_typed_iff [of ?b]
    by (auto simp: node_typed_def device_type_of_def type_max_def)
qed

lemma convert_complete:
  assumes admits: "schema_admits s op e" and typed: "element_typed e" and tag: "tg_kind (el_tag e) = Anonymous"
    and s: "s \<noteq> SAccessControlList"
  shows "convert s (native_of s e) = conversion_success e \<and> native_typed (native_of s e)"
proof -
  note anon = anonymous_typed [OF typed tag]
  have scalar: "el_type e \<in> {TNull, TI16, TU8, TU16, TU32, TU64, TBoolean} \<Longrightarrow>
      e = Element anonymous_tag (el_type e) (el_signed e) (el_unsigned e) (el_boolean e) []"
    using typed_shape [OF typed] anon by (cases e) (auto simp: node_typed_def)
  have range: "el_type e = TI16 \<Longrightarrow> -32768 \<le> el_signed e \<and> el_signed e \<le> 32767 \<and> el_unsigned e = 0 \<and> \<not> el_boolean e"
    "el_type e \<noteq> TI16 \<Longrightarrow> el_signed e = 0" "el_unsigned e \<le> type_max (el_type e)"
    "el_type e \<noteq> TBoolean \<Longrightarrow> \<not> el_boolean e"
    using typed element_typed_iff [of e] by (auto simp: node_typed_def type_max_def split: if_splits)
  show ?thesis
  proof (cases s)
    case SClusterList
    have l: "list_all (\<lambda>c. tg_kind (el_tag c) = Anonymous \<and> el_type c = TU32 \<and> valid_cluster (u32_cast (el_unsigned c)))
        (el_children e)" and arr: "el_type e = TArray" "length (el_children e) \<le> 1023"
      using admits SClusterList by (auto simp: element_list_def)
    have "list_all (\<lambda>c. el_unsigned c < 2 ^ 32 \<and> valid_cluster (el_unsigned c)) (el_children e)"
      using l unsigned_children_max [OF typed] by (force simp: list_all_iff type_max_def u32_cast_def)
    then show ?thesis
      using SClusterList arr unsigned_children [OF typed l] array_shape [OF typed tag arr(1)]
      by (simp add: native_of_def native_defs convert_list_def convert_identifiers_all native_typed_def list_all_iff
        i64_def i64_max_def)
  next
    case SPartsList
    have l: "list_all (\<lambda>c. tg_kind (el_tag c) = Anonymous \<and> el_type c = TU16 \<and> el_unsigned c \<le> 0xFFFE)
        (el_children e)" and arr: "el_type e = TArray" "length (el_children e) \<le> 1023"
      using admits SPartsList by (auto simp: element_list_def)
    have "list_all (\<lambda>c. el_unsigned c < 2 ^ 32 \<and> el_unsigned c \<le> 0xFFFE) (el_children e)"
      using l by (force simp: list_all_iff)
    then show ?thesis
      using SPartsList arr unsigned_children [OF typed l] array_shape [OF typed tag arr(1)]
      by (simp add: native_of_def native_defs convert_list_def convert_identifiers_all native_typed_def list_all_iff
        i64_def i64_max_def)
  next
    case SDeviceTypeList
    have arr: "el_type e = TArray" "length (el_children e) \<le> 1023"
      using admits SDeviceTypeList by (auto simp: element_list_def)
    have each: "device_type_entry (device_type_of c) = c \<and> dt_id (device_type_of c) < 2 ^ 32 \<and>
        dt_revision (device_type_of c) < 2 ^ 16" if "c \<in> set (el_children e)" for c
    proof -
      have "element_typed c" using that typed element_typed_iff [of e] by (auto simp: list_all_iff)
      then show ?thesis
        using device_type_entry_of [of c] admits SDeviceTypeList that by (auto simp: element_list_def list_all_iff)
    qed
    then have "map (device_type_entry \<circ> device_type_of) (el_children e) = el_children e"
      by (intro map_idI) simp
    then show ?thesis
      using SDeviceTypeList arr array_shape [OF typed tag arr(1)] each
      by (simp add: native_of_def native_defs native_typed_def list_all_iff i64_def i64_max_def)
  next
    case SReachableEvent
    let ?c = "el_children e ! 0"
    have sh: "el_type e = TStructure" "el_children e = [?c]" "el_type ?c = TBoolean"
      "el_tag ?c = \<lparr>tg_kind = Context, tg_id = 0\<rparr>"
      using admits SReachableEvent length_one_nth [of "el_children e"] by (auto simp: context_child_def Let_def)
    have "element_typed ?c"
      using typed admits SReachableEvent element_typed_iff [of e] by (simp add: list_all_length)
    then have "?c = with_boolean (el_boolean ?c) (context_element TBoolean 0)"
      using typed_shape(4) [of ?c] sh(3,4) by (simp add: element_defs)
    moreover have "e = with_children [?c] (element_of TStructure)"
      using typed_shape(5) [OF typed] sh anon by (simp add: element_defs)
    ultimately show ?thesis
      using SReachableEvent sh(1)
      by (simp add: native_of_def native_defs native_typed_def i64_def i64_max_def)
  qed (use admits s scalar range anon typed_shape(5) [OF typed] in
      \<open>auto simp: native_of_def native_defs element_defs native_typed_def i64_def i64_max_def type_max_def
         u64_max_def convert_i16_def convert_nullable_index_def element_i16_def\<close>)
qed

lemma convert_image:
  assumes "s \<noteq> SAccessControlList"
  shows "(\<exists>v. native_typed v \<and> convert s v = conversion_success e) \<longleftrightarrow>
    tg_kind (el_tag e) = Anonymous \<and> schema_admits s op e \<and> element_typed e"
  using convert_sound [of s _ e op] convert_complete [of s op e, OF _ _ _ assms] by metis

lemma refused_error [simp]: "operation_refused op \<noteq> ENone"
  by (simp add: operation_refused_def)

lemma convert_shape: "cv_element (convert s v) = None \<longleftrightarrow> cv_error (convert s v) \<noteq> ENone"
  by (cases s; simp add: conversion_success_def conversion_failure_def convert_i16_def convert_list_def
    convert_nullable_index_def split: option.split)

text \<open>
  C36: every element a conversion gives is well typed, carries an anonymous tag and passes the validation of the
  same member and operation; and there is an element exactly when no error is reported.
\<close>

theorem convert_value_typed:
  assumes "native_typed v"
  shows "(cv_element (convert_value kind cluster member op v) = None \<longleftrightarrow>
      cv_error (convert_value kind cluster member op v) \<noteq> ENone) \<and>
    (\<forall>e. cv_element (convert_value kind cluster member op v) = Some e \<longrightarrow>
      element_typed e \<and> tg_kind (el_tag e) = Anonymous \<and> validate_element kind cluster member op e = ENone)"
proof -
  have "convert s v = conversion_success e" if "cv_element (convert s v) = Some e" for s e
    using that convert_shape [of s v] by (cases "convert s v") (simp add: conversion_success_def)
  then show ?thesis
    using assms convert_sound convert_shape
    by (auto simp: convert_value_def validate_element_def conversion_failure_def split: option.splits)
qed

theorem convert_value_typed_witness:
  "native_typed (signed_integer (- 5)) \<and>
   convert_value KAttribute 0x0201 0x0011 OpWrite (signed_integer (- 5)) =
     conversion_success (Element anonymous_tag TI16 (- 5) 0 False []) \<and>
   validate_element KAttribute 0x0201 0x0011 OpWrite (Element anonymous_tag TI16 (- 5) 0 False []) = ENone"
proof -
  have typed: "native_typed (signed_integer (- 5))"
    by (simp add: native_typed_def native_defs i64_def i64_max_def)
  have run: "convert_value KAttribute 0x0201 0x0011 OpWrite (signed_integer (- 5)) =
     conversion_success (Element anonymous_tag TI16 (- 5) 0 False [])" by code_simp
  show ?thesis
    using convert_value_typed [OF typed, of KAttribute "0x0201" "0x0011" OpWrite] typed run
    by (simp add: conversion_success_def)
qed



section \<open>Access control lists\<close>

definition fields_with :: "nat \<Rightarrow> element \<Rightarrow> element list" where
  "fields_with n e = filter (\<lambda>f. tg_id (el_tag f) = n) (el_children e)"

lemma context_field_loop_Some:
  "context_field_loop n (Some r) fs =
     (if list_all (\<lambda>f. tg_kind (el_tag f) = Context \<and> tg_id (el_tag f) \<noteq> n) fs then Some r else None)"
  by (induction fs) auto

lemma context_field_loop_None:
  "context_field_loop n None fs = Some f \<longleftrightarrow>
     list_all (\<lambda>f. tg_kind (el_tag f) = Context) fs \<and> filter (\<lambda>f. tg_id (el_tag f) = n) fs = [f]"
  by (induction fs) (auto simp: context_field_loop_Some filter_empty_conv list_all_iff)

lemma context_field_iff:
  "list_all (\<lambda>f. tg_kind (el_tag f) = Context) (el_children e) \<Longrightarrow>
     context_field e n = Some f \<longleftrightarrow> fields_with n e = [f]"
  by (simp add: context_field_def fields_with_def context_field_loop_None)

text \<open>What an accepted entry is, in terms of the fields that carry each number.\<close>

definition acl_entry_spec :: "member_operation \<Rightarrow> element \<Rightarrow> bool" where
  "acl_entry_spec op e \<longleftrightarrow>
     tg_kind (el_tag e) = Anonymous \<and> el_type e = TStructure \<and> length (el_children e) \<in> {4..6} \<and>
     (\<forall>f \<in> set (el_children e). tg_kind (el_tag f) = Context \<and> tg_id (el_tag f) \<in> {1, 2, 3, 4, 5, 254}) \<and>
     (\<exists>f. fields_with 1 e = [f] \<and> byte_between 1 5 f) \<and>
     (\<exists>f. fields_with 2 e = [f] \<and> byte_between 2 3 f) \<and>
     (\<exists>f. fields_with 3 e = [f] \<and> valid_nullable_subjects (Some f)) \<and>
     (\<exists>f. fields_with 4 e = [f] \<and> valid_nullable_targets (Some f)) \<and>
     (\<forall>f. fields_with 5 e = [f] \<longrightarrow> byte_between 0 1 f) \<and>
     (\<forall>f. fields_with 254 e = [f] \<longrightarrow> op = OpRead \<and> byte_between 1 254 f)"

lemma valid_acl_entry_spec: "valid_acl_entry op e \<longleftrightarrow> acl_entry_spec op e"
proof (cases "list_all (\<lambda>f. tg_kind (el_tag f) = Context) (el_children e)")
  case True
  note iff = context_field_iff [OF True]
  have ex: "(case context_field e n of None \<Rightarrow> False | Some f \<Rightarrow> P f) \<longleftrightarrow> (\<exists>f. fields_with n e = [f] \<and> P f)" for n P
    by (cases "context_field e n") (simp_all add: iff [symmetric])
  have all: "(case context_field e n of None \<Rightarrow> True | Some f \<Rightarrow> P f) \<longleftrightarrow> (\<forall>f. fields_with n e = [f] \<longrightarrow> P f)" for n P
    by (cases "context_field e n") (simp_all add: iff [symmetric])
  have sub: "valid_nullable_subjects x \<longleftrightarrow> (case x of None \<Rightarrow> False | Some f \<Rightarrow> valid_nullable_subjects (Some f))"
    and tgt: "valid_nullable_targets x \<longleftrightarrow> (case x of None \<Rightarrow> False | Some f \<Rightarrow> valid_nullable_targets (Some f))" for x
    by (cases x; simp add: valid_nullable_subjects_def valid_nullable_targets_def)+
  show ?thesis
    unfolding valid_acl_entry_def acl_entry_spec_def required_byte_def
    by (subst sub, subst tgt) (auto simp: ex all list_all_iff)
qed (auto simp: valid_acl_entry_def acl_entry_spec_def list_all_iff)


definition context_byte :: "nat \<Rightarrow> nat \<Rightarrow> element" where
  "context_byte n v = Element \<lparr>tg_kind = Context, tg_id = n\<rparr> TU8 0 v False []"

definition sample_acl :: "element list \<Rightarrow> element" where
  "sample_acl extra = Element anonymous_tag TArray 0 0 False
     [Element anonymous_tag TStructure 0 0 False
        ([context_byte 1 5, context_byte 2 2, context_element TNull 3, context_element TNull 4] @ extra)]"


text \<open>
  An optional field that occurs twice is not checked at all: a write with one fabric field is refused, the same
  write with two of them is accepted.
\<close>

lemma acl_repeated_optional_unchecked:
  "validate_element KAttribute 0x001F 0 OpWrite (sample_acl [context_byte 254 1]) = EInvalidValue"
  "validate_element KAttribute 0x001F 0 OpWrite (sample_acl [context_byte 254 1, context_byte 254 1]) = ENone"
  "validate_element KAttribute 0x001F 0 OpWrite (sample_acl [context_byte 5 77, context_byte 5 99]) = ENone"
  by code_simp+

end
