(* ===== verification/Matter_Interaction.thy ===== *)
theory Matter_Interaction
  imports Matter_Value
begin

text \<open>
  Interactions of the Matter host (\<open>interaction.hpp\<close>, \<open>interaction.cpp\<close>): the requests the host admits, the
  responses it accepts from the controller, and the one-shot completion of a mutation.  The operations of the
  atomic state are interleaved as a sequence of atomic steps.
\<close>

unbundle bit_operations_syntax

section \<open>Data\<close>

definition maximum_interaction_paths :: nat where "maximum_interaction_paths = 64"
definition maximum_interaction_reports :: nat where "maximum_interaction_reports = 1024"
definition maximum_interaction_result_bytes :: nat where "maximum_interaction_result_bytes = 98304"
definition maximum_operational_node :: nat where "maximum_operational_node = 0xFFFFFFEFFFFFFFFF"

datatype interaction_kind = ReadAttribute | ReadAttributes | ReadEvents | WriteAttribute | InvokeCommand
datatype interaction_effect = EffectNone | EffectUnknown

record path_selector =
  ps_fabric_id :: u64
  ps_node_id :: u64
  ps_endpoint :: "nat option"
  ps_cluster :: "nat option"
  ps_member :: "nat option"

record concrete_path =
  cp_fabric_id :: u64
  cp_node_id :: u64
  cp_endpoint :: nat
  cp_cluster :: nat
  cp_member :: nat

record interaction_request =
  iq_kind :: interaction_kind
  iq_fabric_id :: u64
  iq_node_id :: u64
  iq_paths :: "path_selector list"
  iq_value :: "element option"
  iq_expected_data_version :: "nat option"
  iq_timed_request_timeout_ms :: "nat option"
  iq_minimum_event_number :: "u64 option"
  iq_timeout_ms :: nat

record interaction_error =
  ie_code :: string
  ie_status :: "nat option"
  ie_cluster_status :: "nat option"
  ie_effect :: interaction_effect

record attribute_data =
  ad_path :: concrete_path
  ad_value :: element
  ad_data_version :: "nat option"

datatype timestamp_kind = TimestampSystem | TimestampEpoch

record event_data =
  ev_path :: concrete_path
  ev_value :: element
  ev_event_number :: u64
  ev_priority :: nat
  ev_timestamp_kind :: timestamp_kind
  ev_timestamp_value :: u64

record path_result =
  pr_path :: concrete_path
  pr_attribute :: "attribute_data option"
  pr_event :: "event_data option"
  pr_error :: "interaction_error option"

record interaction_response =
  ir_ok :: bool
  ir_error :: "interaction_error option"
  ir_results :: "path_result list"
  ir_response_path :: "concrete_path option"
  ir_response_value :: "element option"
  ir_status :: nat
  ir_cluster_status :: "nat option"

section \<open>Paths\<close>

definition selector_present :: "path_selector \<Rightarrow> bool" where
  "selector_present p \<longleftrightarrow> ps_endpoint p \<noteq> None \<and> ps_cluster p \<noteq> None \<and> ps_member p \<noteq> None"

definition optional_ok :: "('a \<Rightarrow> bool) \<Rightarrow> 'a option \<Rightarrow> bool" where
  "optional_ok ok v \<longleftrightarrow> (case v of None \<Rightarrow> True | Some x \<Rightarrow> ok x)"

definition valid_selector :: "path_selector \<Rightarrow> bool \<Rightarrow> bool" where
  "valid_selector p concrete \<longleftrightarrow>
     (if ps_fabric_id p = 0 \<or> ps_node_id p = 0 \<or> ps_node_id p > maximum_operational_node then False
      else if concrete \<and> \<not> selector_present p then False
      else optional_ok (\<lambda>e. e \<le> 0xFFFE) (ps_endpoint p) \<and> optional_ok valid_cluster (ps_cluster p) \<and>
           optional_ok (\<lambda>m. m \<le> 0xFFFFFFFE) (ps_member p))"

definition same_path :: "concrete_path \<Rightarrow> concrete_path \<Rightarrow> bool" where
  "same_path a b \<longleftrightarrow>
     cp_fabric_id a = cp_fabric_id b \<and> cp_node_id a = cp_node_id b \<and> cp_endpoint a = cp_endpoint b \<and>
     cp_cluster a = cp_cluster b \<and> cp_member a = cp_member b"

definition selected :: "path_selector \<Rightarrow> concrete_path \<Rightarrow> bool" where
  "selected s p \<longleftrightarrow>
     ps_fabric_id s = cp_fabric_id p \<and> ps_node_id s = cp_node_id p \<and>
     optional_ok (\<lambda>e. e = cp_endpoint p) (ps_endpoint s) \<and> optional_ok (\<lambda>c. c = cp_cluster p) (ps_cluster s) \<and>
     optional_ok (\<lambda>m. m = cp_member p) (ps_member s)"

section \<open>Requests\<close>

definition valid_encoded_result_size :: "nat \<Rightarrow> bool" where
  "valid_encoded_result_size bytes \<longleftrightarrow> bytes \<le> maximum_interaction_result_bytes"

definition is_mutation :: "interaction_kind \<Rightarrow> bool" where
  "is_mutation k \<longleftrightarrow> k = WriteAttribute \<or> k = InvokeCommand"

text \<open>
  The last part of a mutation.  The concrete path reads the options of the first selector, which is undefined
  behaviour when one of them is absent: the value \<open>None\<close>.
\<close>

definition valid_mutation :: "interaction_request \<Rightarrow> bool option" where
  "valid_mutation q =
     (case iq_paths q of
        [] \<Rightarrow> None
      | p # ps \<Rightarrow>
          (case (ps_endpoint p, ps_cluster p, ps_member p, iq_value q) of
             (Some e, Some c, Some m, Some v) \<Rightarrow>
               Some (ps = [] \<and>
                 validate_element (if iq_kind q = WriteAttribute then KAttribute else KCommand) c m
                   (if iq_kind q = WriteAttribute then OpWrite else OpInvoke) v = ENone)
           | _ \<Rightarrow> None))"

definition valid_interaction_request :: "interaction_request \<Rightarrow> bool option" where
  "valid_interaction_request q =
     (if iq_timeout_ms q = 0 \<or> iq_timeout_ms q > 60000 \<or> iq_fabric_id q = 0 \<or> iq_node_id q = 0 \<or>
         iq_node_id q > maximum_operational_node \<or> iq_paths q = [] \<or>
         length (iq_paths q) > maximum_interaction_paths
      then Some False
      else if \<not> list_all (\<lambda>p. ps_fabric_id p = iq_fabric_id q \<and> ps_node_id p = iq_node_id q \<and>
                  valid_selector p (iq_kind q \<noteq> ReadAttributes)) (iq_paths q)
      then Some False
      else if is_mutation (iq_kind q) \<noteq> (iq_value q \<noteq> None) then Some False
      else if iq_expected_data_version q \<noteq> None \<and> iq_kind q \<noteq> WriteAttribute then Some False
      else if \<not> optional_ok (\<lambda>t. is_mutation (iq_kind q) \<and> t \<noteq> 0 \<and> \<not> t > iq_timeout_ms q)
                (iq_timed_request_timeout_ms q)
      then Some False
      else if iq_minimum_event_number q \<noteq> None \<and> iq_kind q \<noteq> ReadEvents then Some False
      else if is_mutation (iq_kind q) then valid_mutation q
      else Some (iq_value q = None \<and> iq_expected_data_version q = None \<and> iq_timed_request_timeout_ms q = None))"

section \<open>Responses\<close>

definition present :: "'a option \<Rightarrow> nat" where
  "present v = (case v of None \<Rightarrow> 0 | Some _ \<Rightarrow> 1)"

definition valid_path_result :: "interaction_request \<Rightarrow> path_result \<Rightarrow> bool" where
  "valid_path_result q r \<longleftrightarrow>
     (if \<not> list_ex (\<lambda>p. selected p (pr_path r)) (iq_paths q) then False
      else if present (pr_attribute r) + present (pr_event r) + present (pr_error r) \<noteq> 1 then False
      else case pr_attribute r of
             Some a \<Rightarrow>
               iq_kind q \<noteq> ReadEvents \<and> same_path (pr_path r) (ad_path a) \<and>
               validate_element KAttribute (cp_cluster (pr_path r)) (cp_member (pr_path r)) OpRead (ad_value a) = ENone
           | None \<Rightarrow>
               (case pr_event r of
                  Some v \<Rightarrow>
                    iq_kind q = ReadEvents \<and> same_path (pr_path r) (ev_path v) \<and>
                    validate_element KEvent (cp_cluster (pr_path r)) (cp_member (pr_path r)) OpRead (ev_value v) = ENone
                | None \<Rightarrow>
                    (case pr_error r of
                       Some e \<Rightarrow> ie_code e \<noteq> [] \<and> ie_effect e = EffectNone
                     | None \<Rightarrow> False)))"

definition valid_invoke_value :: "path_selector \<Rightarrow> concrete_path \<Rightarrow> element \<Rightarrow> bool" where
  "valid_invoke_value target path v \<longleftrightarrow>
     cp_fabric_id path = ps_fabric_id target \<and> cp_node_id path = ps_node_id target \<and>
     ps_endpoint target = Some (cp_endpoint path) \<and> ps_cluster target = Some (cp_cluster path) \<and>
     validate_element KCommand (cp_cluster path) (cp_member path) OpInvoke v = ENone"

definition all_wildcard :: "interaction_request \<Rightarrow> bool" where
  "all_wildcard q \<longleftrightarrow> iq_kind q = ReadAttributes \<and> list_all (\<lambda>p. \<not> selector_present p) (iq_paths q)"

definition valid_interaction_response :: "interaction_request \<Rightarrow> interaction_response \<Rightarrow> bool" where
  "valid_interaction_response q r \<longleftrightarrow>
     (if \<not> ir_ok r
      then (case ir_error r of None \<Rightarrow> False | Some e \<Rightarrow> ie_code e \<noteq> []) \<and> ir_results r = [] \<and>
           ir_response_path r = None \<and> ir_response_value r = None
      else if ir_error r \<noteq> None \<or> length (ir_results r) > maximum_interaction_reports then False
      else if iq_kind q \<in> {ReadAttribute, ReadAttributes, ReadEvents}
      then (ir_results r \<noteq> [] \<or> all_wildcard q \<or> iq_kind q = ReadEvents) \<and>
           list_all (valid_path_result q) (ir_results r)
      else
        (case iq_paths q of
           [target] \<Rightarrow>
             (if iq_kind q = WriteAttribute
              then ir_results r = [] \<and> ir_status r = 0 \<and>
                   (case ir_response_path r of None \<Rightarrow> False | Some p \<Rightarrow> selected target p) \<and>
                   ir_response_value r = None
              else if iq_kind q \<noteq> InvokeCommand \<or> ir_results r \<noteq> [] \<or> ir_status r \<noteq> 0 \<or>
                      (ir_response_path r \<noteq> None) \<noteq> (ir_response_value r \<noteq> None)
              then False
              else (case (ir_response_path r, ir_response_value r) of
                      (Some p, Some v) \<Rightarrow> valid_invoke_value target p v
                    | _ \<Rightarrow> True))
         | _ \<Rightarrow> False))"

definition remaining_timeout_ms :: "nat \<Rightarrow> u64 \<Rightarrow> nat" where
  "remaining_timeout_ms timeout_ms elapsed_ms =
     (if elapsed_ms \<ge> timeout_ms then 0 else u32_cast (sub64 timeout_ms elapsed_ms))"

section \<open>Completion of a mutation\<close>

type_synonym mutation_completion = "8 word"

definition mutation_init :: mutation_completion where "mutation_init = 0"

definition mutation_submit :: "mutation_completion \<Rightarrow> bool \<times> mutation_completion" where
  "mutation_submit s = (if s = 0 then (True, 1) else (False, s))"

definition mutation_complete :: "mutation_completion \<Rightarrow> bool \<times> mutation_completion" where
  "mutation_complete s = (s AND 2 = 0, s OR 2)"

definition mutation_timeout :: "mutation_completion \<Rightarrow> bool \<times> mutation_completion" where
  "mutation_timeout s = mutation_complete s"

definition mutation_completed :: "mutation_completion \<Rightarrow> bool" where
  "mutation_completed s \<longleftrightarrow> s AND 2 \<noteq> 0"

definition mutation_submitted :: "mutation_completion \<Rightarrow> bool" where
  "mutation_submitted s \<longleftrightarrow> s AND 1 \<noteq> 0"

section \<open>Requests are decided without undefined behaviour\<close>

lemma valid_selector_concrete:
  "valid_selector p True \<Longrightarrow> \<exists>e c m. ps_endpoint p = Some e \<and> ps_cluster p = Some c \<and> ps_member p = Some m"
  by (auto simp: valid_selector_def selector_present_def split: if_splits)

lemma valid_mutation_Some:
  assumes "iq_paths q = p # ps" and "valid_selector p True" and "iq_value q = Some v"
  shows "valid_mutation q = Some (ps = [] \<and>
     validate_element (if iq_kind q = WriteAttribute then KAttribute else KCommand) (the (ps_cluster p))
       (the (ps_member p)) (if iq_kind q = WriteAttribute then OpWrite else OpInvoke) v = ENone)"
  using assms valid_selector_concrete [of p] by (auto simp: valid_mutation_def)

text \<open>What an admitted request is: the conditions common to all kinds and the ones of the kind.\<close>

definition request_common :: "interaction_request \<Rightarrow> bool" where
  "request_common q \<longleftrightarrow>
     iq_timeout_ms q \<in> {1..60000} \<and> iq_fabric_id q \<noteq> 0 \<and> iq_node_id q \<in> {1..maximum_operational_node} \<and>
     iq_paths q \<noteq> [] \<and> length (iq_paths q) \<le> maximum_interaction_paths \<and>
     (\<forall>p \<in> set (iq_paths q). ps_fabric_id p = iq_fabric_id q \<and> ps_node_id p = iq_node_id q \<and>
       valid_selector p (iq_kind q \<noteq> ReadAttributes))"

definition timed_ok :: "interaction_request \<Rightarrow> bool" where
  "timed_ok q \<longleftrightarrow> (\<forall>t. iq_timed_request_timeout_ms q = Some t \<longrightarrow> 0 < t \<and> t \<le> iq_timeout_ms q)"

fun request_of_kind :: "interaction_kind \<Rightarrow> interaction_request \<Rightarrow> bool" where
  "request_of_kind WriteAttribute q \<longleftrightarrow>
     timed_ok q \<and> iq_minimum_event_number q = None \<and>
     (\<exists>p v c m. iq_paths q = [p] \<and> iq_value q = Some v \<and> ps_cluster p = Some c \<and> ps_member p = Some m \<and>
       validate_element KAttribute c m OpWrite v = ENone)"
| "request_of_kind InvokeCommand q \<longleftrightarrow>
     timed_ok q \<and> iq_minimum_event_number q = None \<and> iq_expected_data_version q = None \<and>
     (\<exists>p v c m. iq_paths q = [p] \<and> iq_value q = Some v \<and> ps_cluster p = Some c \<and> ps_member p = Some m \<and>
       validate_element KCommand c m OpInvoke v = ENone)"
| "request_of_kind ReadEvents q \<longleftrightarrow>
     iq_value q = None \<and> iq_expected_data_version q = None \<and> iq_timed_request_timeout_ms q = None"
| "request_of_kind _ q \<longleftrightarrow>
     iq_value q = None \<and> iq_expected_data_version q = None \<and> iq_timed_request_timeout_ms q = None \<and>
     iq_minimum_event_number q = None"

lemma request_common_iff:
  "request_common q \<longleftrightarrow>
     \<not> (iq_timeout_ms q = 0 \<or> iq_timeout_ms q > 60000 \<or> iq_fabric_id q = 0 \<or> iq_node_id q = 0 \<or>
        iq_node_id q > maximum_operational_node \<or> iq_paths q = [] \<or>
        length (iq_paths q) > maximum_interaction_paths) \<and>
     list_all (\<lambda>p. ps_fabric_id p = iq_fabric_id q \<and> ps_node_id p = iq_node_id q \<and>
       valid_selector p (iq_kind q \<noteq> ReadAttributes)) (iq_paths q)"
  by (auto simp: request_common_def list_all_iff)

lemma mutation_exact:
  assumes "request_common q" and "is_mutation (iq_kind q)" and "iq_value q = Some v"
  shows "valid_mutation q = Some (\<exists>p c m. iq_paths q = [p] \<and> ps_cluster p = Some c \<and> ps_member p = Some m \<and>
    validate_element (if iq_kind q = WriteAttribute then KAttribute else KCommand) c m
      (if iq_kind q = WriteAttribute then OpWrite else OpInvoke) v = ENone)"
proof -
  obtain p ps where p: "iq_paths q = p # ps" using assms(1) by (cases "iq_paths q") (auto simp: request_common_def)
  have sel: "valid_selector p True"
    using assms(1,2) p by (auto simp: request_common_def is_mutation_def)
  show ?thesis
    using valid_mutation_Some [OF p sel assms(3)] valid_selector_concrete [OF sel] p by auto
qed

text \<open>
  Whether a request is admitted is always decided, no option without a value is read and no element of an
  empty list: a request is admitted exactly when its common fields are in range and it has what its kind needs,
  and no more.  A write or a command has exactly one concrete path and a value its member admits.
\<close>

lemma interaction_request_exact:
  "valid_interaction_request q = Some (request_common q \<and> request_of_kind (iq_kind q) q)"
proof (cases "request_common q")
  case True
  note common = True [unfolded request_common_iff]
  show ?thesis
  proof (cases "is_mutation (iq_kind q) \<and> iq_value q \<noteq> None")
    case mut: True
    then obtain v where v: "iq_value q = Some v" by auto
    show ?thesis
      using common mut v mutation_exact [OF True _ v] True
      by (cases "iq_kind q")
        (auto simp: valid_interaction_request_def is_mutation_def timed_ok_def optional_ok_def split: option.splits)
  next
    case False
    then show ?thesis
      using common True
      by (cases "iq_kind q")
        (auto simp: valid_interaction_request_def is_mutation_def timed_ok_def optional_ok_def split: option.splits)
  qed
next
  case False
  then show ?thesis
    unfolding valid_interaction_request_def request_common_iff by (simp split del: if_split cong: if_cong) auto
qed

section \<open>Responses answer their request\<close>

lemma selected_fabric: "selected s p \<Longrightarrow> cp_fabric_id p = ps_fabric_id s \<and> cp_node_id p = ps_node_id s"
  by (simp add: selected_def)

lemma same_path_eq: "same_path a b \<longleftrightarrow> a = (b :: concrete_path)"
  by (auto simp: same_path_def)

text \<open>One result of a read: data of the requested kind that its member admits, or an error without effect.\<close>

definition result_answers :: "interaction_request \<Rightarrow> path_result \<Rightarrow> bool" where
  "result_answers q r \<longleftrightarrow>
     (\<exists>s \<in> set (iq_paths q). selected s (pr_path r)) \<and>
     (case (pr_attribute r, pr_event r, pr_error r) of
        (Some a, None, None) \<Rightarrow>
          iq_kind q \<noteq> ReadEvents \<and> ad_path a = pr_path r \<and>
          validate_element KAttribute (cp_cluster (ad_path a)) (cp_member (ad_path a)) OpRead (ad_value a) = ENone
      | (None, Some v, None) \<Rightarrow>
          iq_kind q = ReadEvents \<and> ev_path v = pr_path r \<and>
          validate_element KEvent (cp_cluster (ev_path v)) (cp_member (ev_path v)) OpRead (ev_value v) = ENone
      | (None, None, Some e) \<Rightarrow> ie_code e \<noteq> [] \<and> ie_effect e = EffectNone
      | _ \<Rightarrow> False)"

lemma valid_path_result_iff: "valid_path_result q r \<longleftrightarrow> result_answers q r"
  by (cases "pr_attribute r"; cases "pr_event r"; cases "pr_error r")
    (auto simp: valid_path_result_def result_answers_def present_def list_ex_iff same_path_eq)

text \<open>The selectors of a request that is not a wildcard read name one path each.\<close>

definition path_of :: "path_selector \<Rightarrow> concrete_path" where
  "path_of s = \<lparr>cp_fabric_id = ps_fabric_id s, cp_node_id = ps_node_id s, cp_endpoint = the (ps_endpoint s),
     cp_cluster = the (ps_cluster s), cp_member = the (ps_member s)\<rparr>"

lemma selected_concrete: "valid_selector s True \<Longrightarrow> selected s p \<longleftrightarrow> p = path_of s"
  by (auto dest!: valid_selector_concrete simp: selected_def path_of_def optional_ok_def)


definition sample_selector :: path_selector where
  "sample_selector = \<lparr>ps_fabric_id = 1, ps_node_id = 2, ps_endpoint = Some 1, ps_cluster = Some 6, ps_member = Some 0\<rparr>"

definition sample_read :: interaction_request where
  "sample_read = \<lparr>iq_kind = ReadAttribute, iq_fabric_id = 1, iq_node_id = 2, iq_paths = [sample_selector],
     iq_value = None, iq_expected_data_version = None, iq_timed_request_timeout_ms = None,
     iq_minimum_event_number = None, iq_timeout_ms = 1000\<rparr>"

definition sample_answer :: interaction_response where
  "sample_answer = \<lparr>ir_ok = True, ir_error = None,
     ir_results = [\<lparr>pr_path = path_of sample_selector,
       pr_attribute = Some \<lparr>ad_path = path_of sample_selector,
         ad_value = with_boolean True (element_of TBoolean), ad_data_version = None\<rparr>,
       pr_event = None, pr_error = None\<rparr>],
     ir_response_path = None, ir_response_value = None, ir_status = 0, ir_cluster_status = None\<rparr>"


section \<open>A mutation is completed once\<close>

datatype mutation_event = StepSubmit | StepComplete | StepTimeout

fun mutation_step :: "mutation_event \<Rightarrow> mutation_completion \<Rightarrow> bool \<times> mutation_completion" where
  "mutation_step StepSubmit s = mutation_submit s"
| "mutation_step StepComplete s = mutation_complete s"
| "mutation_step StepTimeout s = mutation_timeout s"

fun mutation_run ::
  "mutation_event list \<Rightarrow> mutation_completion \<Rightarrow> (mutation_event \<times> bool) list \<times> mutation_completion" where
  "mutation_run [] s = ([], s)"
| "mutation_run (a # as) s =
     (let (ok, s') = mutation_step a s; (rest, t) = mutation_run as s' in ((a, ok) # rest, t))"

abbreviation completing :: "mutation_event \<Rightarrow> bool" where
  "completing a \<equiv> a \<noteq> StepSubmit"

lemma mutation_cases:
  "mutation_submit 0 = (True, 1)" "mutation_submit 1 = (False, 1)" "mutation_submit 2 = (False, 2)"
  "mutation_submit 3 = (False, 3)" "mutation_complete 0 = (True, 2)" "mutation_complete 1 = (True, 3)"
  "mutation_complete 2 = (False, 2)" "mutation_complete 3 = (False, 3)"
  "\<not> mutation_completed 0" "\<not> mutation_completed 1" "mutation_completed 2" "mutation_completed 3"
  by (simp_all add: mutation_submit_def mutation_complete_def mutation_completed_def)

lemma mutation_run_from:
  assumes "s \<in> {0, 1, 2, 3}" and "mutation_run as s = (outs, t)"
  shows "t \<in> {0, 1, 2, 3} \<and> map fst outs = as \<and>
    (mutation_completed t \<longleftrightarrow> mutation_completed s \<or> list_ex completing as) \<and>
    length (filter (\<lambda>(a, ok). completing a \<and> ok) outs) =
      (if \<not> mutation_completed s \<and> list_ex completing as then 1 else 0) \<and>
    length (filter (\<lambda>(a, ok). a = StepSubmit \<and> ok) outs) =
      (if s = 0 \<and> as \<noteq> [] \<and> hd as = StepSubmit then 1 else 0)"
  using assms
proof (induction as arbitrary: s outs)
  case (Cons a as)
  obtain ok s' where 1: "mutation_step a s = (ok, s')" by (cases "mutation_step a s")
  obtain rest where 2: "mutation_run as s' = (rest, t)" and outs: "outs = (a, ok) # rest"
    using Cons.prems(2) 1 by (auto split: prod.splits)
  have s': "s' \<in> {0, 1, 2, 3}"
    using 1 Cons.prems(1) by (cases a) (auto simp: mutation_cases mutation_timeout_def)
  show ?case
    using Cons.IH [OF s' 2] 1 Cons.prems(1) outs
    by (elim insertE emptyE; cases a; simp add: mutation_cases mutation_timeout_def; elim conjE; hypsubst;
      simp add: mutation_cases)
qed auto

text \<open>
  Whatever the order in which a submission, the completion callback and the timeout reach the shared state,
  exactly one completion wins as soon as there is any, and the submission wins exactly when it comes first.  So a
  mutation is never submitted after it has been completed or timed out, nor completed twice.
\<close>

theorem mutation_completed_once:
  "let (outs, t) = mutation_run as mutation_init
   in map fst outs = as \<and>
      length (filter (\<lambda>(a, ok). completing a \<and> ok) outs) = (if list_ex completing as then 1 else 0) \<and>
      length (filter (\<lambda>(a, ok). a = StepSubmit \<and> ok) outs) = (if as \<noteq> [] \<and> hd as = StepSubmit then 1 else 0) \<and>
      (mutation_completed t \<longleftrightarrow> list_ex completing as)"
proof -
  obtain outs t where run: "mutation_run as mutation_init = (outs, t)" by (cases "mutation_run as mutation_init")
  show ?thesis
    using mutation_run_from [of mutation_init as outs t] run
    by (simp add: mutation_init_def mutation_completed_def)
qed

text \<open>The remaining time never exceeds the limit and counts down exactly; the truncating cast loses nothing.\<close>

lemma remaining_timeout_exact:
  "timeout_ms < 2 ^ 32 \<Longrightarrow> remaining_timeout_ms timeout_ms elapsed_ms = timeout_ms - elapsed_ms"
  by (simp add: remaining_timeout_ms_def sub64_exact u64_max_def u32_cast_def)

end
