(* ===== verification/Matter_Commissioning.thy ===== *)
theory Matter_Commissioning
  imports Matter_Interaction
begin

text \<open>
  Commissioning requests and responses of the Matter host (\<open>commissioning.hpp\<close>, \<open>commissioning.cpp\<close>): the setup
  codes that are refused, the ranges of a request, and what a response must repeat of its request.
\<close>

section \<open>Model\<close>

record commissioning_error =
  ce_code :: string
  ce_sdk_status :: "nat option"
  ce_effect :: interaction_effect

record commissioning_request =
  mq_node_id :: u64
  mq_setup_pin :: nat
  mq_discriminator :: nat
  mq_timeout_ms :: nat

record commissioning_response =
  mr_ok :: bool
  mr_error :: "commissioning_error option"
  mr_node_id :: u64
  mr_fabric_id :: u64
  mr_case_established :: bool

record window_request =
  wq_node_id :: u64
  wq_timeout_s :: nat
  wq_iteration_count :: nat
  wq_discriminator :: nat
  wq_timeout_ms :: nat

record window_response =
  wr_ok :: bool
  wr_error :: "commissioning_error option"
  wr_node_id :: u64
  wr_setup_pin :: nat
  wr_discriminator :: nat
  wr_expires_in_s :: nat
  wr_manual_code :: string
  wr_qr_code :: string

definition valid_failure :: "commissioning_error option \<Rightarrow> bool" where
  "valid_failure error \<longleftrightarrow>
     (case error of None \<Rightarrow> False | Some e \<Rightarrow> ce_code e \<noteq> [] \<and> length (ce_code e) \<le> 64)"

text \<open>The first loop of \<open>RepeatedDigit\<close>: the digits from the last one on.\<close>

fun pin_digits :: "nat \<Rightarrow> nat \<Rightarrow> nat list" where
  "pin_digits 0 pin = []"
| "pin_digits (Suc n) pin = (pin mod 10) # pin_digits n (pin div 10)"

definition repeated_digit :: "nat \<Rightarrow> bool" where
  "repeated_digit pin \<longleftrightarrow> (let digits = pin_digits 8 pin in list_all (\<lambda>d. d = digits ! 0) (tl digits))"

definition valid_setup_pin :: "nat \<Rightarrow> bool" where
  "valid_setup_pin pin \<longleftrightarrow>
     pin \<ge> 1 \<and> pin \<le> 99999998 \<and> pin \<noteq> 12345678 \<and> pin \<noteq> 87654321 \<and> \<not> repeated_digit pin"

definition valid_commissioning_request :: "commissioning_request \<Rightarrow> bool" where
  "valid_commissioning_request q \<longleftrightarrow>
     mq_node_id q \<ge> 1 \<and> mq_node_id q \<le> maximum_operational_node \<and> valid_setup_pin (mq_setup_pin q) \<and>
     mq_discriminator q \<le> 4095 \<and> mq_timeout_ms q \<ge> 1 \<and> mq_timeout_ms q \<le> 60000"

definition valid_commissioning_response :: "commissioning_request \<Rightarrow> commissioning_response \<Rightarrow> bool" where
  "valid_commissioning_response q r \<longleftrightarrow>
     (if \<not> mr_ok r
      then valid_failure (mr_error r) \<and> mr_node_id r = 0 \<and> mr_fabric_id r = 0 \<and> \<not> mr_case_established r
      else mr_error r = None \<and> mr_node_id r = mq_node_id q \<and> mr_fabric_id r > 0 \<and> mr_case_established r)"

definition valid_window_request :: "window_request \<Rightarrow> bool" where
  "valid_window_request q \<longleftrightarrow>
     wq_node_id q \<ge> 1 \<and> wq_node_id q \<le> maximum_operational_node \<and> wq_timeout_s q \<ge> 180 \<and> wq_timeout_s q \<le> 900 \<and>
     wq_iteration_count q \<ge> 1000 \<and> wq_iteration_count q \<le> 100000 \<and> wq_discriminator q \<le> 4095 \<and>
     wq_timeout_ms q \<ge> 1 \<and> wq_timeout_ms q \<le> 60000"

definition valid_window_response :: "window_request \<Rightarrow> window_response \<Rightarrow> bool" where
  "valid_window_response q r \<longleftrightarrow>
     (if \<not> wr_ok r
      then valid_failure (wr_error r) \<and> wr_node_id r = 0 \<and> wr_setup_pin r = 0 \<and> wr_discriminator r = 0 \<and>
           wr_expires_in_s r = 0 \<and> wr_manual_code r = [] \<and> wr_qr_code r = []
      else wr_error r = None \<and> wr_node_id r = wq_node_id q \<and> valid_setup_pin (wr_setup_pin r) \<and>
           wr_discriminator r = wq_discriminator q \<and> wr_expires_in_s r = wq_timeout_s q \<and>
           length (wr_manual_code r) \<ge> 10 \<and> length (wr_manual_code r) \<le> 21 \<and>
           length (wr_qr_code r) \<ge> 4 \<and> length (wr_qr_code r) \<le> 512 \<and> take 3 (wr_qr_code r) = ''MT:'')"

section \<open>Setup codes\<close>

fun pin_value :: "nat list \<Rightarrow> nat" where
  "pin_value [] = 0"
| "pin_value (d # ds) = d + 10 * pin_value ds"

lemma pin_value_digits: "pin_value (pin_digits n pin) = pin mod 10 ^ n"
proof (induction n arbitrary: pin)
  case (Suc n)
  then show ?case using mod_mult2_eq [of pin 10 "10 ^ n"] by simp
qed simp

lemma pin_digits_8:
  "pin_digits 8 pin = [pin mod 10, pin div 10 mod 10, pin div 100 mod 10, pin div 1000 mod 10, pin div 10000 mod 10,
     pin div 100000 mod 10, pin div 1000000 mod 10, pin div 10000000 mod 10]"
proof -
  have "(8::nat) = Suc (Suc (Suc (Suc (Suc (Suc (Suc (Suc 0)))))))" by simp
  then have "pin_digits 8 pin = pin_digits (Suc (Suc (Suc (Suc (Suc (Suc (Suc (Suc 0)))))))) pin" by (rule arg_cong)
  then show ?thesis by (simp only: pin_digits.simps div_mult2_eq [symmetric]) simp
qed

text \<open>A code of eight equal digits is a multiple of 11111111.\<close>

lemma repeated_digit_iff:
  assumes "pin < 10 ^ 8"
  shows "repeated_digit pin \<longleftrightarrow> (\<exists>d < 10. pin = 11111111 * d)"
proof
  assume r: "repeated_digit pin"
  let ?d = "pin mod 10"
  have "pin_digits 8 pin = [?d, ?d, ?d, ?d, ?d, ?d, ?d, ?d]"
    using r unfolding repeated_digit_def Let_def pin_digits_8 by simp
  then have "pin = pin_value [?d, ?d, ?d, ?d, ?d, ?d, ?d, ?d]" using pin_value_digits [of 8 pin] assms by simp
  also have "\<dots> = 11111111 * ?d" by simp
  finally show "\<exists>d < 10. pin = 11111111 * d" by (metis mod_less_divisor zero_less_numeral)
next
  assume "\<exists>d < 10. pin = 11111111 * d"
  then obtain d where d: "d < 10" "pin = 11111111 * d" by blast
  then have "d \<in> {0, 1, 2, 3, 4, 5, 6, 7, 8, 9}" by auto
  then show "repeated_digit pin" unfolding d(2) repeated_digit_def Let_def pin_digits_8 by auto
qed

text \<open>
  A setup code is accepted exactly when it lies between 1 and 99999998 and is none of the eight codes of one
  repeated digit and not the code of ascending or of descending digits.
\<close>

theorem setup_pin_exact:
  "valid_setup_pin pin \<longleftrightarrow>
     pin \<in> {1..99999998} - {11111111, 22222222, 33333333, 44444444, 55555555, 66666666, 77777777, 88888888,
       12345678, 87654321}"
proof (cases "pin < 10 ^ 8")
  case True
  have "(\<exists>d < 10. pin = 11111111 * d) \<longleftrightarrow>
      pin \<in> {0, 11111111, 22222222, 33333333, 44444444, 55555555, 66666666, 77777777, 88888888, 99999999}"
  proof
    assume "\<exists>d < 10. pin = 11111111 * d"
    then obtain d where "d < 10" "pin = 11111111 * d" by blast
    moreover then have "d \<in> {0, 1, 2, 3, 4, 5, 6, 7, 8, 9}" by auto
    ultimately show "pin \<in> {0, 11111111, 22222222, 33333333, 44444444, 55555555, 66666666, 77777777, 88888888, 99999999}"
      by auto
  next
    assume "pin \<in> {0, 11111111, 22222222, 33333333, 44444444, 55555555, 66666666, 77777777, 88888888, 99999999}"
    then have "pin = 11111111 * (pin div 11111111) \<and> pin div 11111111 < 10" by auto
    then show "\<exists>d < 10. pin = 11111111 * d" by blast
  qed
  then show ?thesis using repeated_digit_iff [OF True] by (auto simp: valid_setup_pin_def)
qed (simp add: valid_setup_pin_def)

end
