(* ===== verification/Matter_Subscription.thy ===== *)
theory Matter_Subscription
  imports Matter_Interaction Wotex_Channel
begin

text \<open>
  Subscriptions of the Matter host (\<open>subscription.hpp\<close> and the first part of \<open>subscription.cpp\<close>): the requests
  and reports that are admitted, the buffer that collects the reports of one subscription until it is
  activated, and the bounded recovery.  The report credits are in \<open>Matter_Credit\<close>.
\<close>

section \<open>Requests and reports\<close>

datatype subscription_kind = SubAttribute | SubEvent

record subscription_request =
  sr_subscription_id :: string
  sr_kind :: subscription_kind
  sr_fabric_id :: u64
  sr_node_id :: u64
  sr_paths :: "path_selector list"
  sr_min_interval_s :: nat
  sr_max_interval_s :: nat
  sr_resubscribe :: bool
  sr_queue_limit :: nat
  sr_timeout_ms :: nat

record subscription_report =
  rp_subscription_id :: string
  rp_generation :: u64
  rp_kind :: subscription_kind
  rp_result :: path_result
  rp_initial :: bool
  rp_report_id :: u64
  rp_min_interval_s :: nat
  rp_max_interval_s :: nat
  rp_sdk_subscription_id :: nat

definition matches_path :: "path_selector \<Rightarrow> concrete_path \<Rightarrow> bool" where
  "matches_path s p \<longleftrightarrow>
     ps_fabric_id s = cp_fabric_id p \<and> ps_node_id s = cp_node_id p \<and> ps_endpoint s = Some (cp_endpoint p) \<and>
     ps_cluster s = Some (cp_cluster p) \<and> ps_member s = Some (cp_member p)"

definition admitted_recipe :: "subscription_kind \<Rightarrow> nat \<Rightarrow> nat \<Rightarrow> bool" where
  "admitted_recipe kind cluster member \<longleftrightarrow>
     (if kind = SubEvent then cluster = 0x0039 \<and> member = 0x0003
      else (cluster = 0x0201 \<and> member = 0x0000) \<or> (cluster = 0x0006 \<and> member = 0x0000) \<or>
           (cluster = 0x0039 \<and> member = 0x0011) \<or> (cluster = 0x0402 \<and> member = 0x0000))"

definition subscription_digit :: "char \<Rightarrow> bool" where
  "subscription_digit c \<longleftrightarrow>
     ((of_char c :: nat) \<ge> 48 \<and> (of_char c :: nat) \<le> 57) \<or> ((of_char c :: nat) \<ge> 97 \<and> (of_char c :: nat) \<le> 102)"

text \<open>The loop over the paths, with the set of the paths seen so far.\<close>

fun subscription_paths_ok :: "subscription_request \<Rightarrow> (nat \<times> nat \<times> nat) set \<Rightarrow> path_selector list \<Rightarrow> bool" where
  "subscription_paths_ok q seen [] = True"
| "subscription_paths_ok q seen (p # ps) =
     (if ps_fabric_id p \<noteq> sr_fabric_id q \<or> ps_node_id p \<noteq> sr_node_id q then False
      else case (ps_endpoint p, ps_cluster p, ps_member p) of
             (Some e, Some c, Some m) \<Rightarrow>
               (if \<not> admitted_recipe (sr_kind q) c m \<or> (e, c, m) \<in> seen then False
                else subscription_paths_ok q (insert (e, c, m) seen) ps)
           | _ \<Rightarrow> False)"

definition valid_subscription_request :: "subscription_request \<Rightarrow> bool" where
  "valid_subscription_request q \<longleftrightarrow>
     (if length (sr_subscription_id q) \<noteq> 32 \<or> sr_fabric_id q = 0 \<or> sr_node_id q = 0 \<or> sr_paths q = [] \<or>
         length (sr_paths q) > 64 \<or> sr_min_interval_s q > sr_max_interval_s q \<or> sr_max_interval_s q = 0 \<or>
         sr_queue_limit q = 0 \<or> sr_queue_limit q > 10000 \<or> sr_timeout_ms q = 0 \<or> sr_timeout_ms q > 60000
      then False
      else if \<not> list_all subscription_digit (sr_subscription_id q) then False
      else subscription_paths_ok q {} (sr_paths q))"

definition valid_subscription_report :: "subscription_request \<Rightarrow> subscription_report \<Rightarrow> bool" where
  "valid_subscription_report q r \<longleftrightarrow>
     (if rp_subscription_id r \<noteq> sr_subscription_id q \<or> rp_generation r = 0 \<or> rp_kind r \<noteq> sr_kind q \<or>
         rp_report_id r = 0 \<or> rp_max_interval_s r = 0 \<or> rp_min_interval_s r > rp_max_interval_s r
      then False
      else (if sr_kind q = SubAttribute
            then pr_attribute (rp_result r) \<noteq> None \<and> pr_event (rp_result r) = None \<and> pr_error (rp_result r) = None
            else pr_event (rp_result r) \<noteq> None \<and> pr_attribute (rp_result r) = None \<and> pr_error (rp_result r) = None) \<and>
           list_ex (\<lambda>p. matches_path p (pr_path (rp_result r))) (sr_paths q))"

section \<open>The buffer\<close>

record subscription_buffer =
  sb_request :: subscription_request
  sb_buffered :: "subscription_report list"
  sb_ready :: "subscription_report list"
  sb_current_paths :: "concrete_path list"
  sb_current_events :: "(concrete_path \<times> u64) list"
  sb_initial_paths :: "concrete_path list"
  sb_event_cache :: "(concrete_path \<times> u64) list"
  sb_generation :: u64
  sb_report_id :: u64
  sb_sdk_id :: nat
  sb_min_interval :: nat
  sb_max_interval :: nat
  sb_in_report :: bool
  sb_established :: bool
  sb_activated :: bool
  sb_active :: bool

definition buffer_init :: "subscription_request \<Rightarrow> subscription_buffer" where
  "buffer_init q = \<lparr>sb_request = q, sb_buffered = [], sb_ready = [], sb_current_paths = [], sb_current_events = [],
     sb_initial_paths = [], sb_event_cache = [], sb_generation = 1, sb_report_id = 0, sb_sdk_id = 0,
     sb_min_interval = 0, sb_max_interval = 0, sb_in_report = False, sb_established = False,
     sb_activated = False, sb_active = True\<rparr>"

definition buffer_begin_report :: "subscription_buffer \<Rightarrow> subscription_buffer" where
  "buffer_begin_report b =
     (if \<not> sb_active b \<or> sb_in_report b \<or> sb_report_id b = u64_max then b\<lparr>sb_active := False\<rparr>
      else b\<lparr>sb_report_id := sb_report_id b + 1, sb_in_report := True, sb_current_paths := [],
             sb_current_events := []\<rparr>)"

definition duplicate_in_report :: "subscription_buffer \<Rightarrow> path_result \<Rightarrow> bool" where
  "duplicate_in_report b r \<longleftrightarrow>
     (if sr_kind (sb_request b) = SubAttribute
      then list_ex (\<lambda>p. same_path p (pr_path r)) (sb_current_paths b)
      else case pr_event r of
             None \<Rightarrow> False
           | Some e \<Rightarrow> list_ex (\<lambda>i. same_path (fst i) (pr_path r) \<and> snd i = ev_event_number e) (sb_current_events b))"

definition suppressed_duplicate :: "subscription_buffer \<Rightarrow> path_result \<Rightarrow> bool" where
  "suppressed_duplicate b r \<longleftrightarrow>
     (if sr_kind (sb_request b) = SubAttribute
      then \<not> sb_established b \<and> list_ex (\<lambda>p. same_path p (pr_path r)) (sb_initial_paths b)
      else case pr_event r of
             None \<Rightarrow> False
           | Some e \<Rightarrow> list_ex (\<lambda>i. same_path (fst i) (pr_path r) \<and> snd i = ev_event_number e) (sb_event_cache b))"

definition buffer_report :: "subscription_buffer \<Rightarrow> path_result \<Rightarrow> subscription_report" where
  "buffer_report b r =
     \<lparr>rp_subscription_id = sr_subscription_id (sb_request b), rp_generation = sb_generation b,
      rp_kind = sr_kind (sb_request b), rp_result = r, rp_initial = (\<not> sb_established b),
      rp_report_id = sb_report_id b,
      rp_min_interval_s = (if sb_established b then sb_min_interval b else sr_min_interval_s (sb_request b)),
      rp_max_interval_s = (if sb_established b then sb_max_interval b else sr_max_interval_s (sb_request b)),
      rp_sdk_subscription_id = sb_sdk_id b\<rparr>"

text \<open>
  The identity of an event report.  \<open>Add\<close> reads the event of an admitted report of an event subscription; the
  other branch is not reached there (\<open>report_event_present\<close>).
\<close>

definition event_identity :: "path_result \<Rightarrow> concrete_path \<times> u64" where
  "event_identity r = (pr_path r, case pr_event r of Some e \<Rightarrow> ev_event_number e | None \<Rightarrow> 0)"

definition record_identity :: "subscription_buffer \<Rightarrow> path_result \<Rightarrow> subscription_buffer" where
  "record_identity b r =
     (if sr_kind (sb_request b) = SubAttribute
      then let b = b\<lparr>sb_current_paths := sb_current_paths b @ [pr_path r]\<rparr>
           in if \<not> sb_established b then b\<lparr>sb_initial_paths := sb_initial_paths b @ [pr_path r]\<rparr> else b
      else let cache = sb_event_cache b @ [event_identity r]
           in b\<lparr>sb_current_events := sb_current_events b @ [event_identity r],
                sb_event_cache := (if length cache > 1024 then tl cache else cache)\<rparr>)"

definition buffer_add :: "path_result \<Rightarrow> subscription_buffer \<Rightarrow> bool \<times> subscription_buffer" where
  "buffer_add r b =
     (if \<not> sb_active b \<or> \<not> sb_in_report b then (False, b)
      else if duplicate_in_report b r \<or> suppressed_duplicate b r then (True, b)
      else if \<not> valid_subscription_report (sb_request b) (buffer_report b r) \<or>
              length (sb_buffered b) + length (sb_ready b) \<ge> sr_queue_limit (sb_request b)
      then (False, b\<lparr>sb_active := False\<rparr>)
      else let b' = record_identity b r
           in (True, if sb_activated b then b'\<lparr>sb_ready := sb_ready b' @ [buffer_report b r]\<rparr>
                     else b'\<lparr>sb_buffered := sb_buffered b' @ [buffer_report b r]\<rparr>))"

definition buffer_end_report :: "subscription_buffer \<Rightarrow> subscription_buffer" where
  "buffer_end_report b = b\<lparr>sb_in_report := False\<rparr>"

definition revise_report :: "nat \<Rightarrow> nat \<Rightarrow> nat \<Rightarrow> subscription_report \<Rightarrow> subscription_report" where
  "revise_report sdk lo hi r =
     r\<lparr>rp_sdk_subscription_id := sdk, rp_min_interval_s := lo, rp_max_interval_s := hi\<rparr>"

definition buffer_establish :: "nat \<Rightarrow> nat \<Rightarrow> nat \<Rightarrow> subscription_buffer \<Rightarrow> bool \<times> subscription_buffer" where
  "buffer_establish sdk lo hi b =
     (if \<not> sb_active b \<or> sb_established b \<or> hi = 0 \<or> lo > hi then (False, b\<lparr>sb_active := False\<rparr>)
      else (True, b\<lparr>sb_sdk_id := sdk, sb_min_interval := lo, sb_max_interval := hi, sb_established := True,
                    sb_buffered := map (revise_report sdk lo hi) (sb_buffered b)\<rparr>))"

definition buffer_prepare_recovery :: "u64 \<Rightarrow> subscription_buffer \<Rightarrow> bool \<times> subscription_buffer" where
  "buffer_prepare_recovery g b =
     (if \<not> sb_active b \<or> g = 0 \<or> sb_generation b = u64_max \<or> g \<noteq> sb_generation b + 1
      then (False, b\<lparr>sb_active := False\<rparr>)
      else (True, b\<lparr>sb_generation := g, sb_report_id := 0, sb_sdk_id := 0, sb_min_interval := 0,
                    sb_max_interval := 0, sb_in_report := False, sb_established := False,
                    sb_activated := False, sb_buffered := [], sb_ready := [], sb_current_paths := [],
                    sb_current_events := [], sb_initial_paths := []\<rparr>))"

definition buffer_activate :: "subscription_buffer \<Rightarrow> subscription_buffer" where
  "buffer_activate b =
     (if \<not> sb_active b \<or> \<not> sb_established b \<or> sb_activated b then b
      else b\<lparr>sb_activated := True, sb_ready := sb_ready b @ sb_buffered b, sb_buffered := []\<rparr>)"

definition buffer_cancel :: "subscription_buffer \<Rightarrow> subscription_buffer" where
  "buffer_cancel b = b\<lparr>sb_active := False, sb_buffered := [], sb_ready := []\<rparr>"

definition buffer_take_ready :: "subscription_buffer \<Rightarrow> subscription_report list \<times> subscription_buffer" where
  "buffer_take_ready b = (sb_ready b, b\<lparr>sb_ready := []\<rparr>)"

section \<open>Recovery\<close>

datatype recovery_action = RecoveryDisabled | RecoveryRetry | RecoveryExhausted

record recovery_decision =
  rd_action :: recovery_action
  rd_generation :: u64
  rd_attempt :: nat
  rd_remaining_ms :: nat

record subscription_recovery =
  rc_enabled :: bool
  rc_recovering :: bool
  rc_started_ms :: u64
  rc_generation :: u64
  rc_attempts :: nat

definition maximum_attempts :: nat where "maximum_attempts = 5"
definition maximum_duration_ms :: nat where "maximum_duration_ms = 60000"

definition recovery_init :: "bool \<Rightarrow> subscription_recovery" where
  "recovery_init enabled = \<lparr>rc_enabled = enabled, rc_recovering = False, rc_started_ms = 0, rc_generation = 1,
     rc_attempts = 0\<rparr>"

definition decision_of :: "recovery_action \<Rightarrow> u64 \<Rightarrow> nat \<Rightarrow> nat \<Rightarrow> recovery_decision" where
  "decision_of a g n ms = \<lparr>rd_action = a, rd_generation = g, rd_attempt = n, rd_remaining_ms = ms\<rparr>"

definition recovery_next :: "u64 \<Rightarrow> subscription_recovery \<Rightarrow> recovery_decision \<times> subscription_recovery" where
  "recovery_next now s =
     (if \<not> rc_enabled s then (decision_of RecoveryDisabled (rc_generation s) 0 0, s)
      else if \<not> rc_recovering s \<and> rc_generation s = u64_max
      then (decision_of RecoveryExhausted (rc_generation s) 0 0, s)
      else
        let s = (if \<not> rc_recovering s
                 then s\<lparr>rc_recovering := True, rc_started_ms := now, rc_attempts := 0,
                        rc_generation := rc_generation s + 1\<rparr>
                 else s);
            elapsed = (if now \<ge> rc_started_ms s then sub64 now (rc_started_ms s) else 0)
        in if elapsed \<ge> maximum_duration_ms \<or> rc_attempts s \<ge> maximum_attempts
           then (decision_of RecoveryExhausted (rc_generation s) (rc_attempts s) 0, s)
           else let s = s\<lparr>rc_attempts := rc_attempts s + 1\<rparr>
                in (decision_of RecoveryRetry (rc_generation s) (rc_attempts s)
                      (u32_cast (sub64 maximum_duration_ms elapsed)), s))"

definition recovery_established :: "subscription_recovery \<Rightarrow> subscription_recovery" where
  "recovery_established s = s\<lparr>rc_recovering := False, rc_started_ms := 0, rc_attempts := 0\<rparr>"

definition recovery_cancel :: "subscription_recovery \<Rightarrow> subscription_recovery" where
  "recovery_cancel s = recovery_established (s\<lparr>rc_enabled := False\<rparr>)"

section \<open>Actions of the buffer\<close>

datatype buffer_action =
    BBegin | BAdd path_result | BEnd | BEstablish nat nat nat | BRecover u64 | BActivate | BCancel | BTake

definition buffer_accepts :: "subscription_buffer \<Rightarrow> path_result \<Rightarrow> bool" where
  "buffer_accepts b r \<longleftrightarrow>
     sb_active b \<and> sb_in_report b \<and> \<not> duplicate_in_report b r \<and> \<not> suppressed_duplicate b r \<and>
     valid_subscription_report (sb_request b) (buffer_report b r) \<and>
     length (sb_buffered b) + length (sb_ready b) < sr_queue_limit (sb_request b)"

text \<open>One call, with the reports it takes in and the reports it hands out.\<close>

fun buffer_step ::
  "buffer_action \<Rightarrow> subscription_buffer \<Rightarrow>
     subscription_report list \<times> subscription_report list \<times> subscription_buffer" where
  "buffer_step BBegin b = ([], [], buffer_begin_report b)"
| "buffer_step (BAdd r) b =
     (if buffer_accepts b r then [buffer_report b r] else [], [], snd (buffer_add r b))"
| "buffer_step BEnd b = ([], [], buffer_end_report b)"
| "buffer_step (BEstablish sdk lo hi) b = ([], [], snd (buffer_establish sdk lo hi b))"
| "buffer_step (BRecover g) b = ([], [], snd (buffer_prepare_recovery g b))"
| "buffer_step BActivate b = ([], [], buffer_activate b)"
| "buffer_step BCancel b = ([], [], buffer_cancel b)"
| "buffer_step BTake b = ([], fst (buffer_take_ready b), snd (buffer_take_ready b))"

fun_cases buffer_stepE: "buffer_step a b = (acc, del, b')"

lemma record_identity_frame [simp]:
  "sb_request (record_identity b r) = sb_request b" "sb_buffered (record_identity b r) = sb_buffered b"
  "sb_ready (record_identity b r) = sb_ready b" "sb_generation (record_identity b r) = sb_generation b"
  "sb_report_id (record_identity b r) = sb_report_id b" "sb_sdk_id (record_identity b r) = sb_sdk_id b" "sb_min_interval (record_identity b r) = sb_min_interval b"
  "sb_max_interval (record_identity b r) = sb_max_interval b" "sb_in_report (record_identity b r) = sb_in_report b"
  "sb_established (record_identity b r) = sb_established b" "sb_activated (record_identity b r) = sb_activated b"
  "sb_active (record_identity b r) = sb_active b"
  by (simp_all add: record_identity_def Let_def)

lemma buffer_add_accepted:
  "buffer_accepts b r \<Longrightarrow> buffer_add r b =
     (True, if sb_activated b then (record_identity b r)\<lparr>sb_ready := sb_ready b @ [buffer_report b r]\<rparr>
            else (record_identity b r)\<lparr>sb_buffered := sb_buffered b @ [buffer_report b r]\<rparr>)"
  by (simp add: buffer_add_def buffer_accepts_def)

lemma buffer_add_refused:
  "\<not> buffer_accepts b r \<Longrightarrow> snd (buffer_add r b) = b \<or> snd (buffer_add r b) = b\<lparr>sb_active := False\<rparr>"
  by (auto simp: buffer_add_def buffer_accepts_def)

section \<open>The state of the buffer\<close>

definition buffer_ok :: "subscription_request \<Rightarrow> subscription_buffer \<Rightarrow> bool" where
  "buffer_ok q b \<longleftrightarrow>
     sb_request b = q \<and> length (sb_buffered b) + length (sb_ready b) \<le> sr_queue_limit q \<and>
     (if sb_activated b then sb_established b \<and> sb_buffered b = [] else sb_ready b = []) \<and>
     1 \<le> sb_generation b \<and> sb_generation b \<le> u64_max \<and> sb_report_id b \<le> u64_max \<and>
     (sb_in_report b \<longrightarrow> 0 < sb_report_id b) \<and>
     (sb_established b \<longrightarrow> 0 < sb_max_interval b \<and> sb_min_interval b \<le> sb_max_interval b) \<and>
     length (sb_event_cache b) \<le> 1024 \<and>
     (\<forall>r \<in> set (sb_buffered b @ sb_ready b).
        valid_subscription_report q r \<and> rp_generation r = sb_generation b \<and> rp_report_id r \<le> sb_report_id b \<and>
        (sb_established b \<longrightarrow> rp_min_interval_s r = sb_min_interval b \<and> rp_max_interval_s r = sb_max_interval b \<and>
           rp_sdk_subscription_id r = sb_sdk_id b))"

lemma buffer_okD:
  assumes "buffer_ok q b"
  shows "length (sb_ready b @ sb_buffered b) \<le> sr_queue_limit q"
    and "if sb_activated b then sb_established b \<and> sb_buffered b = [] else sb_ready b = []"
    and "1 \<le> sb_generation b" "sb_generation b \<le> u64_max" "sb_report_id b \<le> u64_max"
    and "length (sb_event_cache b) \<le> 1024"
    and "\<And>r. r \<in> set (sb_ready b) \<Longrightarrow> valid_subscription_report q r \<and> rp_generation r = sb_generation b"
    and "\<And>r. r \<in> set (sb_ready b) \<Longrightarrow> sb_established b \<Longrightarrow> rp_min_interval_s r = sb_min_interval b \<and>
      rp_max_interval_s r = sb_max_interval b \<and> rp_sdk_subscription_id r = sb_sdk_id b"
  using assms unfolding buffer_ok_def by (elim conjE, force)+

lemma buffer_ok_init: "buffer_ok q (buffer_init q)"
  by (simp add: buffer_ok_def buffer_init_def u64_max_def)

lemma buffer_ok_inactive: "buffer_ok q b \<Longrightarrow> buffer_ok q (b\<lparr>sb_active := False\<rparr>)"
  by (simp add: buffer_ok_def)

lemma record_identity_cache:
  "length (sb_event_cache b) \<le> 1024 \<Longrightarrow> length (sb_event_cache (record_identity b r)) \<le> 1024"
  by (simp add: record_identity_def Let_def)

lemma buffer_ok_add:
  assumes "buffer_ok q b"
  shows "buffer_ok q (snd (buffer_add r b))"
proof (cases "buffer_accepts b r")
  case True
  have "length (sb_event_cache (record_identity b r)) \<le> 1024"
    using assms by (intro record_identity_cache) (simp add: buffer_ok_def)
  then show ?thesis
    using assms True by (auto simp: buffer_add_accepted buffer_ok_def buffer_accepts_def buffer_report_def)
next
  case False
  then show ?thesis
    using buffer_add_refused [OF False] assms buffer_ok_inactive by metis
qed

lemma revise_valid:
  "valid_subscription_report q r \<Longrightarrow> 0 < hi \<Longrightarrow> lo \<le> hi \<Longrightarrow> valid_subscription_report q (revise_report sdk lo hi r)"
  by (auto simp: valid_subscription_report_def revise_report_def split: if_splits)

lemma buffer_ok_step: "buffer_ok q b \<Longrightarrow> buffer_ok q (snd (snd (buffer_step a b)))"
proof (cases a)
  case (BEstablish sdk lo hi)
  then show "buffer_ok q b \<Longrightarrow> ?thesis"
    using revise_valid [of q _ hi lo sdk]
    by (auto simp: buffer_ok_def buffer_establish_def revise_report_def)
qed (auto simp: buffer_ok_add, auto simp: buffer_ok_def buffer_begin_report_def buffer_end_report_def
  buffer_prepare_recovery_def buffer_activate_def buffer_cancel_def buffer_take_ready_def intro: le_SucI)

section \<open>What was taken in\<close>

text \<open>
  The log is the list of all reports taken in so far.  The lists of the buffer that find duplicates are parts of
  it: the reports of the current batch, the initial ones of the current generation, and the last 1024 events.
\<close>

definition report_identity :: "subscription_report \<Rightarrow> concrete_path \<times> u64" where
  "report_identity r = event_identity (rp_result r)"

definition report_key :: "subscription_report \<Rightarrow> u64 \<times> u64 \<times> concrete_path \<times> u64" where
  "report_key r = (rp_generation r, rp_report_id r, report_identity r)"

definition current_batch :: "subscription_buffer \<Rightarrow> subscription_report list \<Rightarrow> subscription_report list" where
  "current_batch b = filter (\<lambda>r. rp_generation r = sb_generation b \<and> rp_report_id r = sb_report_id b)"

definition current_initial :: "subscription_buffer \<Rightarrow> subscription_report list \<Rightarrow> subscription_report list" where
  "current_initial b = filter (\<lambda>r. rp_generation r = sb_generation b \<and> rp_initial r)"

definition spaced :: "nat \<Rightarrow> 'a list \<Rightarrow> bool" where
  "spaced n xs \<longleftrightarrow> (\<forall>i j. i < j \<longrightarrow> j < length xs \<longrightarrow> xs ! i = xs ! j \<longrightarrow> j - i > n)"

lemma spaced_snoc:
  assumes "spaced n xs" and "x \<notin> set (drop (length xs - n) xs)"
  shows "spaced n (xs @ [x])"
  unfolding spaced_def
proof (intro allI impI)
  fix i j assume ij: "i < j" "j < length (xs @ [x])" "(xs @ [x]) ! i = (xs @ [x]) ! j"
  show "j - i > n"
  proof (cases "j < length xs")
    case True
    then show ?thesis using assms(1) ij by (simp add: spaced_def nth_append)
  next
    case False
    then have j: "j = length xs" and x: "xs ! i = x" using ij by (auto simp: nth_append)
    have "\<not> length xs - n \<le> i"
    proof
      assume "length xs - n \<le> i"
      then have "drop (length xs - n) xs ! (i - (length xs - n)) = x" "i - (length xs - n) < length (drop (length xs - n) xs)"
        using x ij j by auto
      then show False using assms(2) nth_mem by metis
    qed
    then show ?thesis using j by linarith
  qed
qed

lemma last_window_snoc:
  "(let c = drop (length xs - n) xs @ [x] in if length c > n then tl c else c) =
     drop (length (xs @ [x]) - n) (xs @ [x])" if "0 < n"
proof (cases "length xs < n")
  case False
  have "drop (Suc (length xs) - n) xs = tl (drop (length xs - n) xs)"
    using False by (metis Suc_diff_le not_less tl_drop drop_Suc)
  moreover have "drop (length xs - n) xs \<noteq> []" using False that by simp
  ultimately show ?thesis using False that by (simp add: Let_def)
qed (simp add: Let_def)

definition log_bounded :: "subscription_buffer \<Rightarrow> subscription_report list \<Rightarrow> bool" where
  "log_bounded b A \<longleftrightarrow>
     (\<forall>r \<in> set A. 0 < rp_report_id r \<and> rp_generation r \<le> sb_generation b \<and>
        (rp_generation r = sb_generation b \<longrightarrow> rp_report_id r \<le> sb_report_id b) \<and>
        (sr_kind (sb_request b) = SubAttribute \<longrightarrow> report_identity r = (pr_path (rp_result r), 0)))"

definition log_linked :: "subscription_buffer \<Rightarrow> subscription_report list \<Rightarrow> bool" where
  "log_linked b A \<longleftrightarrow>
     (if sr_kind (sb_request b) = SubAttribute
      then map (\<lambda>p. (p, 0)) (sb_current_paths b) = map report_identity (current_batch b A) \<and>
           map (\<lambda>p. (p, 0)) (sb_initial_paths b) = map report_identity (current_initial b A)
      else sb_current_events b = map report_identity (current_batch b A) \<and>
           sb_event_cache b = drop (length A - 1024) (map report_identity A))"

definition log_once :: "subscription_buffer \<Rightarrow> subscription_report list \<Rightarrow> bool" where
  "log_once b A \<longleftrightarrow>
     distinct (map report_key A) \<and>
     (if sr_kind (sb_request b) = SubAttribute
      then distinct (map (\<lambda>r. (rp_generation r, report_identity r)) (filter rp_initial A))
      else spaced 1024 (map report_identity A))"

definition log_ok :: "subscription_buffer \<Rightarrow> subscription_report list \<Rightarrow> bool" where
  "log_ok b A \<longleftrightarrow> log_bounded b A \<and> log_linked b A \<and> log_once b A"

lemmas log_defs = log_ok_def log_bounded_def log_linked_def log_once_def current_batch_def current_initial_def

lemma log_ok_init: "log_ok (buffer_init q) []"
  by (simp add: log_defs buffer_init_def spaced_def)

text \<open>A call that keeps the fields the log is linked to keeps the link.\<close>

lemma log_ok_frame:
  assumes "log_ok b A" and "sb_request c = sb_request b" "sb_current_paths c = sb_current_paths b"
    "sb_current_events c = sb_current_events b" "sb_initial_paths c = sb_initial_paths b"
    "sb_event_cache c = sb_event_cache b" "sb_generation c = sb_generation b" "sb_report_id c = sb_report_id b"
  shows "log_ok c A"
  using assms by (simp add: log_defs)

lemma log_ok_begin:
  assumes "log_ok b A"
  shows "log_ok (buffer_begin_report b) A"
proof (cases "\<not> sb_active b \<or> sb_in_report b \<or> sb_report_id b = u64_max")
  case True
  then show ?thesis
    using log_ok_frame [OF assms, of "buffer_begin_report b"] by (simp add: buffer_begin_report_def)
next
  case False
  have "filter (\<lambda>r. rp_generation r = sb_generation b \<and> rp_report_id r = Suc (sb_report_id b)) A = []"
    using assms by (auto simp: log_ok_def log_bounded_def filter_empty_conv)
  then show ?thesis
    using assms False by (auto simp: log_defs buffer_begin_report_def le_SucI)
qed

lemma log_ok_recover:
  assumes "log_ok b A"
  shows "log_ok (snd (buffer_prepare_recovery g b)) A"
proof (cases "\<not> sb_active b \<or> g = 0 \<or> sb_generation b = u64_max \<or> g \<noteq> sb_generation b + 1")
  case True
  then show ?thesis
    using log_ok_frame [OF assms, of "snd (buffer_prepare_recovery g b)"] by (auto simp: buffer_prepare_recovery_def)
next
  case False
  have "\<forall>r \<in> set A. rp_generation r \<noteq> Suc (sb_generation b)"
    using assms by (auto simp: log_ok_def log_bounded_def)
  then have "filter (\<lambda>r. rp_generation r = Suc (sb_generation b) \<and> rp_report_id r = 0) A = []"
    "filter (\<lambda>r. rp_generation r = Suc (sb_generation b) \<and> rp_initial r) A = []"
    by (simp_all add: filter_empty_conv)
  then show ?thesis
    using assms False by (auto simp: log_defs buffer_prepare_recovery_def le_SucI)
qed

lemma report_event_present:
  "valid_subscription_report q r \<Longrightarrow> sr_kind q = SubEvent \<Longrightarrow> \<exists>e. pr_event (rp_result r) = Some e"
  by (auto simp: valid_subscription_report_def split: if_splits)

lemma attribute_identity:
  "valid_subscription_report q r \<Longrightarrow> sr_kind q = SubAttribute \<Longrightarrow> report_identity r = (pr_path (rp_result r), 0)"
  by (auto simp: valid_subscription_report_def report_identity_def event_identity_def split: if_splits)

lemma buffer_report_sel [simp]:
  "rp_result (buffer_report b r) = r" "rp_generation (buffer_report b r) = sb_generation b"
  "rp_report_id (buffer_report b r) = sb_report_id b" "rp_initial (buffer_report b r) = (\<not> sb_established b)"
  by (simp_all add: buffer_report_def)

lemma report_identity_buffer [simp]: "report_identity (buffer_report b r) = event_identity r"
  by (simp add: report_identity_def)

lemma accepts_fresh_attribute:
  assumes "buffer_accepts b r" and "sr_kind (sb_request b) = SubAttribute"
  shows "event_identity r = (pr_path r, 0)" "pr_path r \<notin> set (sb_current_paths b)"
    "\<not> sb_established b \<Longrightarrow> pr_path r \<notin> set (sb_initial_paths b)"
  using assms attribute_identity [of "sb_request b" "buffer_report b r"]
  by (auto simp: buffer_accepts_def duplicate_in_report_def suppressed_duplicate_def same_path_eq list_ex_iff)

lemma accepts_fresh_event:
  assumes "buffer_accepts b r" and "sr_kind (sb_request b) = SubEvent"
  shows "event_identity r \<notin> set (sb_current_events b)" "event_identity r \<notin> set (sb_event_cache b)"
proof -
  obtain e where e: "pr_event r = Some e"
    using assms report_event_present [of "sb_request b" "buffer_report b r"] by (auto simp: buffer_accepts_def)
  have "\<not> (\<exists>i \<in> set (sb_current_events b). fst i = pr_path r \<and> snd i = ev_event_number e)"
    "\<not> (\<exists>i \<in> set (sb_event_cache b). fst i = pr_path r \<and> snd i = ev_event_number e)"
    using assms e
    by (auto simp: buffer_accepts_def duplicate_in_report_def suppressed_duplicate_def same_path_eq list_ex_iff)
  then show "event_identity r \<notin> set (sb_current_events b)" "event_identity r \<notin> set (sb_event_cache b)"
    using e by (force simp: event_identity_def)+
qed

lemma accepts_fresh_batch:
  assumes "buffer_accepts b r" and "log_linked b A"
  shows "event_identity r \<notin> report_identity ` set (current_batch b A)"
proof (cases "sr_kind (sb_request b)")
  case SubAttribute
  have "report_identity ` set (current_batch b A) = (\<lambda>p. (p, 0)) ` set (sb_current_paths b)"
    using assms(2) SubAttribute by (auto simp: log_linked_def dest!: arg_cong [where f = set])
  then show ?thesis using accepts_fresh_attribute [OF assms(1) SubAttribute] by auto
next
  case SubEvent
  then show ?thesis
    using accepts_fresh_event [OF assms(1)] assms(2) by (simp add: log_linked_def)
qed

lemma accepts_fresh_key:
  assumes "buffer_accepts b r" and "log_linked b A"
  shows "report_key (buffer_report b r) \<notin> report_key ` set A"
  using accepts_fresh_batch [OF assms] by (auto simp: report_key_def current_batch_def)

lemma accepts_fresh_initial:
  assumes "buffer_accepts b r" and "log_linked b A" and "sr_kind (sb_request b) = SubAttribute"
    and "\<not> sb_established b"
  shows "event_identity r \<notin> report_identity ` set (current_initial b A)"
proof -
  have "report_identity ` set (current_initial b A) = (\<lambda>p. (p, 0)) ` set (sb_initial_paths b)"
    using assms(2,3) by (auto simp: log_linked_def dest!: arg_cong [where f = set])
  then show ?thesis using accepts_fresh_attribute [OF assms(1,3)] assms(4) by auto
qed

lemma log_once_add:
  assumes acc: "buffer_accepts b r" and log: "log_ok b A"
  shows "log_once b (A @ [buffer_report b r])"
proof (cases "sr_kind (sb_request b)")
  case SubAttribute
  have linked: "log_linked b A" using log by (simp add: log_ok_def)
  have "\<not> sb_established b \<Longrightarrow>
      (sb_generation b, event_identity r) \<notin> (\<lambda>r. (rp_generation r, report_identity r)) ` set (filter rp_initial A)"
    using accepts_fresh_initial [OF acc linked SubAttribute] by (auto simp: current_initial_def)
  then show ?thesis
    using log SubAttribute accepts_fresh_key [OF acc linked] by (auto simp: log_ok_def log_once_def)
next
  case SubEvent
  have linked: "log_linked b A" using log by (simp add: log_ok_def)
  have "spaced 1024 (map report_identity A @ [event_identity r])"
    using log SubEvent accepts_fresh_event [OF acc SubEvent]
    by (intro spaced_snoc) (auto simp: log_ok_def log_once_def log_linked_def)
  then show ?thesis
    using log SubEvent accepts_fresh_key [OF acc linked] by (auto simp: log_ok_def log_once_def)
qed

lemma log_linked_add:
  assumes acc: "buffer_accepts b r" and log: "log_linked b A"
  shows "log_linked (record_identity b r) (A @ [buffer_report b r])"
proof (cases "sr_kind (sb_request b)")
  case SubAttribute
  then show ?thesis
    using log accepts_fresh_attribute(1) [OF acc SubAttribute]
    by (simp add: log_linked_def current_batch_def current_initial_def record_identity_def Let_def)
next
  case SubEvent
  have "(let c = drop (length A - 1024) (map report_identity A) @ [event_identity r] in if length c > 1024 then tl c else c) =
      drop (Suc (length A) - 1024) (map report_identity A @ [event_identity r])"
    using last_window_snoc [of 1024 "map report_identity A" "event_identity r"] by simp
  then show ?thesis
    using log SubEvent
    by (simp add: log_linked_def current_batch_def current_initial_def record_identity_def Let_def)
qed

lemma log_ok_add:
  assumes ok: "buffer_ok q b" and log: "log_ok b A" and acc: "buffer_accepts b r"
  shows "log_ok (snd (buffer_add r b)) (A @ [buffer_report b r])"
proof -
  have "log_bounded (record_identity b r) (A @ [buffer_report b r])"
    using ok log acc accepts_fresh_attribute(1) [OF acc]
    by (auto simp: log_ok_def log_bounded_def buffer_ok_def buffer_accepts_def)
  moreover have "log_once (record_identity b r) (A @ [buffer_report b r])"
    using log_once_add [OF acc log] unfolding log_once_def record_identity_frame .
  ultimately have "log_ok (record_identity b r) (A @ [buffer_report b r])"
    using log_linked_add [OF acc, of A] log by (simp add: log_ok_def)
  then show ?thesis
    by (rule log_ok_frame) (simp_all add: buffer_add_accepted [OF acc])
qed

lemma quiet_step:
  assumes "buffer_step a b = (acc, del, b')" and "case a of BBegin \<Rightarrow> False | BAdd r \<Rightarrow> False | BRecover g \<Rightarrow> False | _ \<Rightarrow> True"
    and "log_ok b A"
  shows "log_ok b' (A @ acc)"
proof -
  have "acc = [] \<and> sb_request b' = sb_request b \<and> sb_current_paths b' = sb_current_paths b \<and>
    sb_current_events b' = sb_current_events b \<and> sb_initial_paths b' = sb_initial_paths b \<and>
    sb_event_cache b' = sb_event_cache b \<and> sb_generation b' = sb_generation b \<and> sb_report_id b' = sb_report_id b"
    using assms(1,2)
    by (cases a; auto simp: buffer_end_report_def buffer_establish_def buffer_activate_def buffer_cancel_def
      buffer_take_ready_def)
  then show ?thesis using log_ok_frame [OF assms(3), of b'] by simp
qed

lemma log_ok_step:
  assumes "buffer_ok q b" and "log_ok b A" and "buffer_step a b = (acc, del, b')"
  shows "log_ok b' (A @ acc)"
proof (cases a)
  case BBegin
  then show ?thesis using assms log_ok_begin by auto
next
  case (BAdd r)
  show ?thesis
  proof (cases "buffer_accepts b r")
    case True
    then show ?thesis using assms BAdd log_ok_add by auto
  next
    case False
    have "log_ok (snd (buffer_add r b)) A"
      using buffer_add_refused [OF False] log_ok_frame [OF assms(2), of "b\<lparr>sb_active := False\<rparr>"] assms(2) by auto
    then show ?thesis using assms(3) BAdd False by simp
  qed
next
  case (BRecover g)
  then show ?thesis using assms log_ok_recover by auto
qed (rule quiet_step [OF assms(3) _ assms(2)], simp)+

text \<open>The reports that wait, in the order in which they are handed out; a report without its revised fields.\<close>

definition buffer_pending :: "subscription_buffer \<Rightarrow> subscription_report list" where
  "buffer_pending b = sb_ready b @ sb_buffered b"

definition report_content :: "subscription_report \<Rightarrow> u64 \<times> u64 \<times> bool \<times> path_result" where
  "report_content r = (rp_generation r, rp_report_id r, rp_initial r, rp_result r)"

definition keeping :: "buffer_action \<Rightarrow> bool" where
  "keeping a \<longleftrightarrow> (case a of BRecover g \<Rightarrow> False | BCancel \<Rightarrow> False | _ \<Rightarrow> True)"

definition content_step ::
  "buffer_action \<Rightarrow> subscription_buffer \<Rightarrow>
     (u64 \<times> u64 \<times> bool \<times> path_result) list \<times> (u64 \<times> u64 \<times> bool \<times> path_result) list \<times> subscription_buffer" where
  "content_step a b = (let (acc, del, b') = buffer_step a b in (map report_content acc, map report_content del, b'))"

lemma report_content_revise [simp]: "report_content (revise_report sdk lo hi r) = report_content r"
  by (simp add: report_content_def revise_report_def)

lemma buffer_flow:
  assumes "buffer_ok q b" and "keeping a" and "buffer_step a b = (acc, del, b')"
  shows "map report_content (del @ buffer_pending b') = map report_content (buffer_pending b @ acc)"
proof (cases a)
  case (BAdd r)
  show ?thesis
  proof (cases "buffer_accepts b r")
    case True
    then show ?thesis
      using assms BAdd by (auto simp: buffer_add_accepted buffer_pending_def buffer_ok_def split: if_splits)
  next
    case False
    then show ?thesis
      using assms(3) BAdd buffer_add_refused [OF False] by (auto simp: buffer_pending_def)
  qed
qed (use assms in \<open>auto simp: buffer_begin_report_def buffer_end_report_def buffer_establish_def buffer_activate_def
  buffer_take_ready_def buffer_pending_def buffer_ok_def keeping_def comp_def split: if_splits\<close>)

text \<open>Between two recoveries the buffer is a channel of report contents.\<close>

interpretation matter_buffer: byte_channel content_step "buffer_ok q" keeping "\<lambda>b. map report_content (buffer_pending b)"
  for q
proof
  fix s a acc wr s' assume "buffer_ok q s" "keeping a" and run: "content_step a s = (acc, wr, s')"
  obtain acc' del where st: "buffer_step a s = (acc', del, s')" "acc = map report_content acc'" "wr = map report_content del"
    using run by (auto simp: content_step_def split: prod.splits)
  show "buffer_ok q s'" using buffer_ok_step [OF \<open>buffer_ok q s\<close>, of a] st by simp
  show "wr @ map report_content (buffer_pending s') = map report_content (buffer_pending s) @ acc"
    using buffer_flow [OF \<open>buffer_ok q s\<close> \<open>keeping a\<close> st(1)] st by simp
qed

lemma buffer_flow_subseq:
  assumes "buffer_ok q b" and "buffer_step a b = (acc, del, b')"
  shows "subseq (map report_content (del @ buffer_pending b')) (map report_content (buffer_pending b @ acc))"
proof (cases "keeping a")
  case True
  then show ?thesis using buffer_flow [OF assms(1) True assms(2)] by simp
next
  case False
  then show ?thesis
    using assms(2)
    by (auto simp: keeping_def buffer_prepare_recovery_def buffer_cancel_def buffer_pending_def
      split: buffer_action.splits if_splits)
qed

lemma channel_run_buffer:
  assumes "channel_run buffer_step as b = (acc, del, b')" and "buffer_ok q b" and "log_ok b A"
  shows "buffer_ok q b' \<and> log_ok b' (A @ acc) \<and>
    subseq (map report_content (del @ buffer_pending b')) (map report_content (buffer_pending b @ acc))"
  using assms
proof (induction as arbitrary: b acc del A)
  case (Cons a as)
  obtain acc1 del1 b1 where 1: "buffer_step a b = (acc1, del1, b1)" by (cases "buffer_step a b")
  obtain acc2 del2 where 2: "channel_run buffer_step as b1 = (acc2, del2, b')" "acc = acc1 @ acc2" "del = del1 @ del2"
    using Cons.prems(1) 1 by (auto split: prod.splits)
  have ok1: "buffer_ok q b1" using buffer_ok_step [OF Cons.prems(2), of a] 1 by simp
  note IH = Cons.IH [OF 2(1) ok1 log_ok_step [OF Cons.prems(2,3) 1]]
  have "subseq (map report_content (del @ buffer_pending b'))
      (map report_content del1 @ map report_content (buffer_pending b1 @ acc2))"
    using IH 2 by (auto intro: list_emb_append_mono)
  also have "subseq \<dots> (map report_content (buffer_pending b @ acc))"
    using list_emb_append_mono [OF buffer_flow_subseq [OF Cons.prems(2) 1], of "map report_content acc2"] 2 by simp
  finally show ?case using IH 2 by simp
qed simp


definition sample_subscription :: subscription_request where
  "sample_subscription = \<lparr>sr_subscription_id = replicate 32 CHR ''a'', sr_kind = SubAttribute, sr_fabric_id = 1,
     sr_node_id = 2, sr_paths = [sample_selector], sr_min_interval_s = 1, sr_max_interval_s = 60,
     sr_resubscribe = False, sr_queue_limit = 4, sr_timeout_ms = 1000\<rparr>"

definition sample_result :: path_result where
  "sample_result = hd (ir_results sample_answer)"

lemmas sample_subscription_defs =
  sample_subscription_def sample_result_def sample_answer_def sample_selector_def path_of_def

lemma sample_buffer_run:
  "channel_run buffer_step [BBegin, BAdd sample_result, BAdd sample_result, BEnd, BEstablish 7 2 30, BActivate, BTake]
     (buffer_init sample_subscription) =
   (let b = (buffer_init sample_subscription)\<lparr>sb_report_id := 1\<rparr>; r = buffer_report b sample_result
    in ([r], [revise_report 7 2 30 r],
        b\<lparr>sb_current_paths := [path_of sample_selector], sb_initial_paths := [path_of sample_selector],
          sb_sdk_id := 7, sb_min_interval := 2, sb_max_interval := 30, sb_established := True, sb_activated := True\<rparr>))"
  by (simp add: buffer_init_def buffer_begin_report_def u64_max_def buffer_accepts_def duplicate_in_report_def
    suppressed_duplicate_def valid_subscription_report_def buffer_report_def buffer_add_def record_identity_def
    buffer_end_report_def buffer_establish_def buffer_activate_def buffer_take_ready_def matches_path_def
    same_path_def sample_subscription_defs Let_def)


text \<open>
  After any sequence of calls the reports waiting and ready together are within the queue limit of the
  request, every one is valid for the request and of the current generation, and what is handed out is handed
  out only after the subscription was established and activated, with the intervals and the identifier that were
  negotiated.
\<close>

theorem buffer_ready_established:
  assumes run: "channel_run buffer_step as (buffer_init q) = (acc, del, b)"
  shows "length (buffer_pending b) \<le> sr_queue_limit q \<and> length (sb_event_cache b) \<le> 1024 \<and>
    1 \<le> sb_generation b \<and> sb_generation b \<le> u64_max \<and> sb_report_id b \<le> u64_max \<and>
    (fst (buffer_take_ready b) \<noteq> [] \<longrightarrow> sb_activated b \<and> sb_established b) \<and>
    (\<forall>r \<in> set (fst (buffer_take_ready b)).
      valid_subscription_report q r \<and> rp_generation r = sb_generation b \<and>
      rp_min_interval_s r = sb_min_interval b \<and> rp_max_interval_s r = sb_max_interval b \<and>
      rp_sdk_subscription_id r = sb_sdk_id b)"
proof -
  have ok: "buffer_ok q b" using channel_run_buffer [OF run buffer_ok_init log_ok_init] by simp
  have "sb_ready b = [] \<or> sb_activated b \<and> sb_established b"
    using buffer_okD(2) [OF ok] by (cases "sb_activated b") simp_all
  then show ?thesis
    using buffer_okD [OF ok] unfolding buffer_pending_def buffer_take_ready_def by (elim disjE) auto
qed

lemma sample_buffer_run_ready:
  "channel_run buffer_step [BBegin, BAdd sample_result, BEnd, BEstablish 7 2 30, BActivate]
     (buffer_init sample_subscription) =
   (let b = (buffer_init sample_subscription)\<lparr>sb_report_id := 1\<rparr>; r = buffer_report b sample_result
    in ([r], [],
        b\<lparr>sb_ready := [revise_report 7 2 30 r], sb_current_paths := [path_of sample_selector],
          sb_initial_paths := [path_of sample_selector],
          sb_sdk_id := 7, sb_min_interval := 2, sb_max_interval := 30, sb_established := True, sb_activated := True\<rparr>))"
  by (simp add: buffer_init_def buffer_begin_report_def u64_max_def buffer_accepts_def duplicate_in_report_def
    suppressed_duplicate_def valid_subscription_report_def buffer_report_def buffer_add_def record_identity_def
    buffer_end_report_def buffer_establish_def buffer_activate_def matches_path_def
    same_path_def sample_subscription_defs Let_def)

theorem buffer_ready_established_witness:
  "\<exists>acc del b. channel_run buffer_step [BBegin, BAdd sample_result, BEnd, BEstablish 7 2 30, BActivate]
      (buffer_init sample_subscription) = (acc, del, b) \<and>
    fst (buffer_take_ready b) \<noteq> [] \<and> rp_min_interval_s (hd (fst (buffer_take_ready b))) = 2"
  using buffer_ready_established [OF sample_buffer_run_ready [unfolded Let_def]] sample_buffer_run_ready
  by (simp add: Let_def buffer_take_ready_def)

section \<open>Recovery is bounded\<close>

fun recovery_nexts :: "u64 list \<Rightarrow> subscription_recovery \<Rightarrow> recovery_decision list \<times> subscription_recovery" where
  "recovery_nexts [] s = ([], s)"
| "recovery_nexts (t # ts) s =
     (let (d, s') = recovery_next t s; (ds, s'') = recovery_nexts ts s' in (d # ds, s''))"

abbreviation retries :: "recovery_decision list \<Rightarrow> recovery_decision list" where
  "retries \<equiv> filter (\<lambda>d. rd_action d = RecoveryRetry)"

text \<open>One decision inside a recovery: within the bounds the next attempt, afterwards none.\<close>

lemma recovery_next_within:
  assumes "rc_enabled s" and "rc_recovering s" and "now \<le> u64_max"
  shows "recovery_next now s =
    (if now - rc_started_ms s \<ge> 60000 \<or> rc_attempts s \<ge> 5
     then (decision_of RecoveryExhausted (rc_generation s) (rc_attempts s) 0, s)
     else (decision_of RecoveryRetry (rc_generation s) (rc_attempts s + 1) (60000 - (now - rc_started_ms s)),
           s\<lparr>rc_attempts := rc_attempts s + 1\<rparr>))"
  using assms
  by (simp add: recovery_next_def Let_def maximum_duration_ms_def maximum_attempts_def sub64_exact u64_max_def
    u32_cast_def)

lemma recovery_nexts_within:
  assumes "recovery_nexts ts s = (ds, s')" and "rc_enabled s" and "rc_recovering s" and "rc_attempts s \<le> 5"
    and "list_all (\<lambda>t. t \<le> u64_max) ts"
  shows "length ds = length ts \<and> rc_attempts s' \<le> 5 \<and> rc_attempts s \<le> rc_attempts s' \<and>
    rc_enabled s' \<and> rc_recovering s' \<and> rc_generation s' = rc_generation s \<and> rc_started_ms s' = rc_started_ms s \<and>
    map rd_attempt (retries ds) = [Suc (rc_attempts s)..<Suc (rc_attempts s')] \<and>
    (\<forall>i < length ts. rd_action (ds ! i) \<noteq> RecoveryDisabled \<and> rd_generation (ds ! i) = rc_generation s \<and>
      (rd_action (ds ! i) = RecoveryRetry \<longrightarrow> ts ! i - rc_started_ms s < 60000 \<and>
        rd_remaining_ms (ds ! i) = 60000 - (ts ! i - rc_started_ms s)))"
  using assms
proof (induction ts arbitrary: s ds)
  case (Cons t ts)
  obtain d s1 where 1: "recovery_next t s = (d, s1)" by (cases "recovery_next t s")
  obtain ds1 where 2: "recovery_nexts ts s1 = (ds1, s')" "ds = d # ds1"
    using Cons.prems(1) 1 by (auto split: prod.splits)
  have t: "t \<le> u64_max" "list_all (\<lambda>t. t \<le> u64_max) ts" using Cons.prems(5) by auto
  note one = recovery_next_within [OF Cons.prems(2,3) t(1), unfolded 1]
  show ?case
  proof (cases "t - rc_started_ms s \<ge> 60000 \<or> rc_attempts s \<ge> 5")
    case True
    then have s1: "s1 = s" "d = decision_of RecoveryExhausted (rc_generation s) (rc_attempts s) 0"
      using one by auto
    note IH = Cons.IH [OF 2(1)[unfolded s1] Cons.prems(2-4) t(2)]
    then show ?thesis
      using 2 s1 by (auto simp: decision_of_def nth_Cons' less_Suc_eq_0_disj)
  next
    case False
    then have s1: "s1 = s\<lparr>rc_attempts := rc_attempts s + 1\<rparr>"
      "d = decision_of RecoveryRetry (rc_generation s) (rc_attempts s + 1) (60000 - (t - rc_started_ms s))"
      using one by auto
    have pre: "rc_enabled s1" "rc_recovering s1" "rc_attempts s1 \<le> 5" using Cons.prems False s1 by auto
    note IH = Cons.IH [OF 2(1) pre t(2)]
    have "map rd_attempt (retries ds) = Suc (rc_attempts s) # [Suc (Suc (rc_attempts s))..<Suc (rc_attempts s')]"
      using IH 2 s1 by (simp add: decision_of_def del: upt_Suc)
    also have "\<dots> = [Suc (rc_attempts s)..<Suc (rc_attempts s')]"
      using IH s1 upt_conv_Cons [of "Suc (rc_attempts s)" "Suc (rc_attempts s')"] by (simp del: upt_Suc)
    finally show ?thesis
      using IH 2 s1 False by (auto simp: decision_of_def nth_Cons' less_Suc_eq_0_disj simp del: upt_Suc)
  qed
qed (simp del: upt_Suc)

lemma recovery_start:
  assumes "rc_enabled s" and "\<not> rc_recovering s" and "rc_generation s < u64_max" and "t \<le> u64_max"
  shows "recovery_next t s = recovery_next t
    (s\<lparr>rc_recovering := True, rc_started_ms := t, rc_attempts := 0, rc_generation := rc_generation s + 1\<rparr>)"
  using assms by (simp add: recovery_next_def Let_def)

text \<open>
  C40: a recovery that starts at time t retries at most five times and only within 60 seconds, whatever the clock
  then shows: the attempts are numbered 1, 2, ... without gaps, the first call is the first attempt, every
  decision is of the one new generation, and the remaining time of an attempt is exactly what is left of the 60
  seconds, never zero.
\<close>

theorem recovery_bounded:
  assumes "rc_enabled s" and "\<not> rc_recovering s" and "rc_generation s < u64_max"
    and "list_all (\<lambda>t. t \<le> u64_max) (t # ts)" and run: "recovery_nexts (t # ts) s = (ds, s')"
  shows "length (retries ds) \<le> 5 \<and> map rd_attempt (retries ds) = [1..<Suc (length (retries ds))] \<and>
    hd ds = decision_of RecoveryRetry (rc_generation s + 1) 1 60000 \<and> rc_generation s' = rc_generation s + 1 \<and>
    (\<forall>i < length (t # ts). rd_generation (ds ! i) = rc_generation s + 1 \<and>
      (rd_action (ds ! i) = RecoveryRetry \<longrightarrow> (t # ts) ! i - t < 60000 \<and>
        rd_remaining_ms (ds ! i) = 60000 - ((t # ts) ! i - t)))"
proof -
  let ?s = "s\<lparr>rc_recovering := True, rc_started_ms := t, rc_attempts := 0, rc_generation := rc_generation s + 1\<rparr>"
  have t: "t \<le> u64_max" using assms(4) by simp
  have same: "recovery_nexts (t # ts) ?s = (ds, s')"
    using run recovery_start [OF assms(1-3) t] by simp
  have pre: "rc_enabled ?s" "rc_recovering ?s" "rc_attempts ?s \<le> 5" using assms(1) by auto
  note all = recovery_nexts_within [OF same pre assms(4)]
  have attempts: "map rd_attempt (retries ds) = [1..<Suc (rc_attempts s')]" using all by (simp del: upt_Suc)
  then have n: "length (retries ds) = rc_attempts s'" using length_map [of rd_attempt "retries ds"] by (simp del: upt_Suc)
  have "hd ds = decision_of RecoveryRetry (rc_generation s + 1) 1 60000"
    using same recovery_next_within [OF pre(1,2) t] by (auto split: prod.splits)
  then show ?thesis using all attempts n by (simp del: upt_Suc)
qed

theorem recovery_bounded_witness:
  "length (retries (fst (recovery_nexts [10, 20, 30, 40, 50, 60, 70] (recovery_init True)))) \<le> 5 \<and>
   hd (fst (recovery_nexts [10, 20, 30, 40, 50, 60, 70] (recovery_init True))) = decision_of RecoveryRetry 2 1 60000"
proof -
  have pre: "rc_enabled (recovery_init True)" "\<not> rc_recovering (recovery_init True)"
    "rc_generation (recovery_init True) < u64_max" "list_all (\<lambda>t. t \<le> u64_max) [10, 20, 30, 40, 50, 60, 70 :: nat]"
    by (simp_all add: recovery_init_def u64_max_def)
  have g: "rc_generation (recovery_init True) + 1 = 2" by (simp add: recovery_init_def)
  show ?thesis
    using recovery_bounded [OF pre, OF surjective_pairing] unfolding g by blast
qed

text \<open>
  Recovery and buffer move through the generations together: the generation of a first retry is the one the buffer
  of the subscription accepts next.
\<close>

lemma recovery_prepares_buffer:
  assumes "recovery_next now s = (d, s')" and "rd_action d = RecoveryRetry" and "\<not> rc_recovering s"
    and "sb_active b" and "sb_generation b = rc_generation s" and "sb_generation b \<le> u64_max" and "now \<le> u64_max"
  shows "fst (buffer_prepare_recovery (rd_generation d) b) \<and>
    sb_generation (snd (buffer_prepare_recovery (rd_generation d) b)) = rc_generation s'"
  using assms
  by (auto simp: recovery_next_def decision_of_def Let_def maximum_attempts_def buffer_prepare_recovery_def
    split: if_splits)

end
