(* ===== verification/Matter_Wire.thy ===== *)
theory Matter_Wire
  imports Matter_Commissioning Matter_Subscription Wotex_Document
begin

text \<open>
  The wire format of the Matter host (the parsers and builders of \<open>protocol.cpp\<close>): the bounds on a document,
  request envelopes, the parameters of every operation, and the JSON of results and reports.  The JSON library is
  third-party code: \<open>parser\<close> stands for the calls it makes and the value it returns, and the builders stop at
  the value that is printed.  A parser returns \<open>None\<close> where the source returns false.
\<close>

section \<open>Documents\<close>

definition matter_depth :: nat where "matter_depth = 24"
definition matter_collection :: nat where "matter_collection = 1024"
definition matter_nodes :: nat where "matter_nodes = 4096"
definition maximum_frame_bytes :: nat where "maximum_frame_bytes = 131072"

text \<open>
  The three vectors of \<open>BoundedSax\<close> grow and shrink together: one list of frames, the innermost first.
\<close>

definition msax_value :: "parse_guard \<Rightarrow> parse_guard option" where
  "msax_value g =
     (case g of
        (nodes, f # fs) \<Rightarrow>
          (if \<not> pf_object f \<and> pf_elements f + 1 > matter_collection then None
           else if nodes + 1 \<le> matter_nodes
           then Some (nodes + 1, (if pf_object f then f else f\<lparr>pf_elements := pf_elements f + 1\<rparr>) # fs)
           else None)
      | (nodes, []) \<Rightarrow> if nodes + 1 \<le> matter_nodes then Some (nodes + 1, []) else None)"

definition msax_start :: "bool \<Rightarrow> parse_guard \<Rightarrow> parse_guard option" where
  "msax_start object g =
     (case msax_value g of
        None \<Rightarrow> None
      | Some (nodes, fs) \<Rightarrow>
          if length fs + 1 > matter_depth then None
          else Some (nodes, \<lparr>pf_object = object, pf_elements = 0, pf_keys = []\<rparr> # fs))"

definition msax_end :: "bool \<Rightarrow> parse_guard \<Rightarrow> parse_guard option" where
  "msax_end object g =
     (case g of
        (nodes, f # fs) \<Rightarrow> if pf_object f \<noteq> object then None else Some (nodes, fs)
      | (nodes, []) \<Rightarrow> None)"

definition msax_key :: "string \<Rightarrow> parse_guard \<Rightarrow> parse_guard option" where
  "msax_key k g =
     (case g of
        (nodes, f # fs) \<Rightarrow>
          if \<not> pf_object f \<or> pf_elements f + 1 > matter_collection \<or> nodes + 1 > matter_nodes \<or> k \<in> set (pf_keys f)
          then None
          else Some (nodes + 1, f\<lparr>pf_elements := pf_elements f + 1, pf_keys := k # pf_keys f\<rparr> # fs)
      | (nodes, []) \<Rightarrow> None)"

fun msax_event :: "parse_event \<Rightarrow> parse_guard \<Rightarrow> parse_guard option" where
  "msax_event ValueEvent g = msax_value g"
| "msax_event ObjectStart g = msax_start True g"
| "msax_event ArrayStart g = msax_start False g"
| "msax_event (KeyEvent k) g = msax_key k g"
| "msax_event ObjectEnd g = msax_end True g"
| "msax_event ArrayEnd g = msax_end False g"

fun msax_run :: "parse_event list \<Rightarrow> parse_guard \<Rightarrow> parse_guard option" where
  "msax_run [] g = Some g"
| "msax_run (e # es) g = (case msax_event e g of None \<Rightarrow> None | Some g' \<Rightarrow> msax_run es g')"

definition parse_bounded :: "json_parser \<Rightarrow> string \<Rightarrow> json option" where
  "parse_bounded parser line =
     (if line = [] \<or> length line + 1 > maximum_frame_bytes \<or> CHR 0x00 \<in> set line then None
      else if msax_run (fst (parser line)) (0, []) = None then None
      else snd (parser line))"

section \<open>Envelopes\<close>

definition canonical_generation :: "json \<Rightarrow> string option" where
  "canonical_generation v =
     (if \<not> json_is_string v then None
      else if length (json_text v) = 32 \<and> list_all hex_char (json_text v) then Some (json_text v) else None)"

text \<open>\<open>std::from_chars\<close> of the whole text: only digits, and the value fits in 64 bits.\<close>

definition decimal_number :: "string \<Rightarrow> u64 option" where
  "decimal_number t =
     (if t \<noteq> [] \<and> list_all is_digit t \<and> decimal_value 0 t \<le> u64_max then Some (decimal_value 0 t) else None)"

definition canonical_request_id :: "json \<Rightarrow> u64 option" where
  "canonical_request_id v =
     (if \<not> json_is_string v then None
      else if json_text v = [] \<or> hd (json_text v) = CHR ''0'' then None
      else case decimal_number (json_text v) of
             None \<Rightarrow> None
           | Some n \<Rightarrow> if n > 0 then Some n else None)"

fun json_u64 :: "json \<Rightarrow> u64" where
  "json_u64 (JUnsigned n) = n"
| "json_u64 _ = 0"

text \<open>\<open>get<std::int64_t>\<close> of an integer: an unsigned value is converted modulo two to the 64.\<close>

fun json_i64 :: "json \<Rightarrow> int" where
  "json_i64 (JInt i) = i"
| "json_i64 (JUnsigned n) = (if n mod 2 ^ 64 < 2 ^ 63 then int (n mod 2 ^ 64) else int (n mod 2 ^ 64) - 2 ^ 64)"
| "json_i64 _ = 0"

definition is_close :: "json \<Rightarrow> bool" where
  "is_close request \<longleftrightarrow> json_at request ''id'' = JString ''close''"

text \<open>The number of the request, zero for the reserved \<open>close\<close>.\<close>

definition valid_request_envelope :: "json \<Rightarrow> u64 option" where
  "valid_request_envelope request =
     (if json_exact request [''version'', ''id'', ''operation'', ''parameters'', ''timeout_ms''] \<and>
         json_is_number_unsigned (json_at request ''version'') \<and> json_u64 (json_at request ''version'') = 1 \<and>
         json_is_string (json_at request ''operation'') \<and> json_is_object (json_at request ''parameters'') \<and>
         (canonical_request_id (json_at request ''id'') \<noteq> None \<or>
          (is_close request \<and> json_at request ''operation'' = JString ''close'' \<and>
           json_entries (json_at request ''parameters'') = [])) \<and>
         json_is_number_unsigned (json_at request ''timeout_ms'') \<and>
         json_u64 (json_at request ''timeout_ms'') \<ge> 1 \<and> json_u64 (json_at request ''timeout_ms'') \<le> 60000
      then Some (case canonical_request_id (json_at request ''id'') of Some n \<Rightarrow> n | None \<Rightarrow> 0)
      else None)"

definition absolute_path :: "json \<Rightarrow> string option" where
  "absolute_path v =
     (if \<not> json_is_string v then None
      else if json_text v \<noteq> [] \<and> hd (json_text v) = CHR ''/'' \<and> CHR 0x00 \<notin> set (json_text v)
      then Some (json_text v) else None)"

record native_open_options =
  no_lifecycle :: string
  no_storage_path :: string
  no_storage_mode :: string
  no_authority :: string
  no_paa_trust_store :: string
  no_fabric_id :: u64
  no_controller_node_id :: u64
  no_vendor_id :: nat
  no_timeout_ms :: nat

definition u16_cast :: "u64 \<Rightarrow> nat" where
  "u16_cast v = v mod 2 ^ 16"

definition open_options :: "json \<Rightarrow> native_open_options option" where
  "open_options parameters =
     (if \<not> json_exact parameters [''lifecycle'', ''storage_path'', ''storage_mode'', ''authority'', ''vendor_id'',
            ''fabric_id'', ''controller_node_id'', ''paa_trust_store''] \<or>
         \<not> json_is_string (json_at parameters ''lifecycle'') \<or> \<not> json_is_string (json_at parameters ''storage_mode'') \<or>
         \<not> json_is_string (json_at parameters ''authority'') \<or>
         \<not> json_is_number_unsigned (json_at parameters ''vendor_id'') \<or>
         \<not> json_is_number_unsigned (json_at parameters ''fabric_id'') \<or>
         \<not> json_is_number_unsigned (json_at parameters ''controller_node_id'')
      then None
      else let lifecycle = json_text (json_at parameters ''lifecycle'');
               storage_mode = json_text (json_at parameters ''storage_mode'');
               authority = json_text (json_at parameters ''authority'');
               vendor = json_u64 (json_at parameters ''vendor_id'');
               fabric_id = json_u64 (json_at parameters ''fabric_id'');
               controller = json_u64 (json_at parameters ''controller_node_id'');
               mode = (storage_mode = ''create_new'' \<and> authority = ''generate_root'') \<or>
                      (storage_mode = ''open_existing'' \<and> authority = ''stored'')
           in if lifecycle \<noteq> ''persistent'' \<or> \<not> mode \<or> vendor = 0 \<or> vendor \<ge> 0xFFFF \<or> fabric_id = 0 \<or>
                 controller = 0 \<or> controller > maximum_operational_node
              then None
              else case (absolute_path (json_at parameters ''storage_path''),
                         absolute_path (json_at parameters ''paa_trust_store'')) of
                     (Some storage, Some trust) \<Rightarrow>
                       Some \<lparr>no_lifecycle = lifecycle, no_storage_path = storage, no_storage_mode = storage_mode,
                         no_authority = authority, no_paa_trust_store = trust, no_fabric_id = fabric_id,
                         no_controller_node_id = controller, no_vendor_id = u16_cast vendor, no_timeout_ms = 0\<rparr>
                   | _ \<Rightarrow> None)"

section \<open>Paths and elements\<close>

definition unsigned_at_most :: "json \<Rightarrow> u64 \<Rightarrow> u64 option" where
  "unsigned_at_most v maximum =
     (if \<not> json_is_number_unsigned v then None
      else if json_u64 v \<le> maximum then Some (json_u64 v) else None)"

definition path_component :: "json \<Rightarrow> u64 \<Rightarrow> u64 option option" where
  "path_component v maximum =
     (if v = JString ''any'' then Some None
      else case unsigned_at_most v maximum of None \<Rightarrow> None | Some n \<Rightarrow> Some (Some n))"

definition path_fields :: "string list" where
  "path_fields = [''fabric_id'', ''node_id'', ''endpoint'', ''cluster'', ''member'']"

definition selector_value :: "json \<Rightarrow> bool \<Rightarrow> path_selector option" where
  "selector_value v wildcards =
     (if \<not> json_exact v path_fields then None
      else case (unsigned_at_most (json_at v ''fabric_id'') u64_max,
                 unsigned_at_most (json_at v ''node_id'') maximum_operational_node) of
             (Some fabric, Some node) \<Rightarrow>
               (if fabric = 0 \<or> node = 0 then None
                else case (path_component (json_at v ''endpoint'') 0xFFFE, path_component (json_at v ''cluster'') 0xFFF4FFFE,
                           path_component (json_at v ''member'') 0xFFFFFFFE) of
                       (Some endpoint, Some cluster, Some member) \<Rightarrow>
                         (if (\<not> wildcards \<and> (endpoint = None \<or> cluster = None \<or> member = None)) \<or>
                             \<not> optional_ok (\<lambda>c. valid_cluster (u32_cast c)) cluster
                          then None
                          else Some \<lparr>ps_fabric_id = fabric, ps_node_id = node,
                                     ps_endpoint = map_option u16_cast endpoint,
                                     ps_cluster = map_option u32_cast cluster,
                                     ps_member = map_option u32_cast member\<rparr>)
                     | _ \<Rightarrow> None)
           | _ \<Rightarrow> None)"

definition tag_value :: "json \<Rightarrow> tag option" where
  "tag_value v =
     (if v = JString ''anonymous'' then Some \<lparr>tg_kind = Anonymous, tg_id = 0\<rparr>
      else case v of
             JArray [JString t, JUnsigned n] \<Rightarrow>
               if t = ''context'' \<and> n \<le> 255 then Some \<lparr>tg_kind = Context, tg_id = n mod 2 ^ 8\<rparr> else None
           | _ \<Rightarrow> None)"

definition unsigned_type :: "string \<Rightarrow> element_type option" where
  "unsigned_type t =
     (if t = ''u8'' then Some TU8 else if t = ''u16'' then Some TU16 else if t = ''u32'' then Some TU32
      else if t = ''u64'' then Some TU64 else None)"

definition unsigned_limit :: "element_type \<Rightarrow> u64" where
  "unsigned_limit t = (if t = TU8 then 0xFF else if t = TU16 then 0xFFFF else if t = TU32 then 0xFFFFFFFF else u64_max)"

text \<open>The scalar branches of \<open>ElementValue\<close>.\<close>

definition scalar_value :: "tag \<Rightarrow> string \<Rightarrow> json \<Rightarrow> element option" where
  "scalar_value t type body =
     (if type = ''null'' \<and> body = JNull then Some (Element t TNull 0 0 False [])
      else if type = ''i16'' \<and> json_is_number_integer body
      then (if json_i64 body < -32768 \<or> json_i64 body > 32767 then None
            else Some (Element t TI16 (json_i64 body) 0 False []))
      else if unsigned_type type \<noteq> None \<and> json_is_number_unsigned body
      then (if json_u64 body > unsigned_limit (the (unsigned_type type)) then None
            else Some (Element t (the (unsigned_type type)) 0 (json_u64 body) False []))
      else if type = ''boolean'' \<and> json_is_boolean body then Some (Element t TBoolean 0 0 (json_truth body) [])
      else None)"

definition is_container :: "string \<Rightarrow> json \<Rightarrow> bool" where
  "is_container type body \<longleftrightarrow>
     (type = ''structure'' \<or> type = ''array'') \<and> json_is_array body \<and> length (json_elements body) \<le> 1023"

text \<open>
  The counter of nodes is threaded through; the depth bounds the recursion.  The branches are disjoint by the name
  of the type, so the containers may come first.
\<close>

function element_value :: "json \<Rightarrow> nat \<Rightarrow> nat \<Rightarrow> (element \<times> nat) option"
  and element_values :: "json list \<Rightarrow> nat \<Rightarrow> nat \<Rightarrow> (element list \<times> nat) option" where
  "element_value v depth nodes =
     (if nodes + 1 > 1024 \<or> depth > 8 \<or> \<not> json_exact v [''tag'', ''type'', ''value''] then None
      else case tag_value (json_at v ''tag'') of
             None \<Rightarrow> None
           | Some t \<Rightarrow>
               (if \<not> json_is_string (json_at v ''type'') then None
                else let type = json_text (json_at v ''type''); body = json_at v ''value''
                     in if is_container type body
                        then (case element_values (json_elements body) (depth + 1) (nodes + 1) of
                                None \<Rightarrow> None
                              | Some (cs, n) \<Rightarrow>
                                  Some (Element t (if type = ''structure'' then TStructure else TArray) 0 0 False cs, n))
                        else map_option (\<lambda>e. (e, nodes + 1)) (scalar_value t type body)))"
| "element_values [] depth nodes = Some ([], nodes)"
| "element_values (v # vs) depth nodes =
     (case element_value v depth nodes of
        None \<Rightarrow> None
      | Some (e, n) \<Rightarrow>
          (case element_values vs depth n of None \<Rightarrow> None | Some (es, n') \<Rightarrow> Some (e # es, n')))"
  by pat_completeness auto
termination
  by (relation "measures [\<lambda>x. case x of Inl (v, d, n) \<Rightarrow> 10 - d | Inr (vs, d, n) \<Rightarrow> 10 - d,
      \<lambda>x. case x of Inl _ \<Rightarrow> 0 | Inr (vs, d, n) \<Rightarrow> Suc (length vs)]") auto

declare element_value.simps [simp del]

definition element_parse :: "json \<Rightarrow> element option" where
  "element_parse v = map_option fst (element_value v 0 0)"

section \<open>Parameters\<close>

text \<open>\<open>None\<close>: refused; \<open>Some None\<close>: absent.\<close>

definition optional_uint :: "json \<Rightarrow> string \<Rightarrow> u64 \<Rightarrow> u64 option option" where
  "optional_uint parameters key maximum =
     (if \<not> json_contains parameters key then Some None
      else case unsigned_at_most (json_at parameters key) maximum of None \<Rightarrow> None | Some n \<Rightarrow> Some (Some n))"

fun selector_values :: "bool \<Rightarrow> json list \<Rightarrow> path_selector list option" where
  "selector_values wildcards [] = Some []"
| "selector_values wildcards (v # vs) =
     (case selector_value v wildcards of
        None \<Rightarrow> None
      | Some p \<Rightarrow> (case selector_values wildcards vs of None \<Rightarrow> None | Some ps \<Rightarrow> Some (p # ps)))"

definition single_operation :: "string \<Rightarrow> bool" where
  "single_operation operation \<longleftrightarrow> operation = ''read'' \<or> operation = ''write'' \<or> operation = ''invoke''"

definition paths_operation :: "string \<Rightarrow> bool" where
  "paths_operation operation \<longleftrightarrow> operation = ''read_paths'' \<or> operation = ''read_events''"

definition operation_kind :: "string \<Rightarrow> interaction_kind" where
  "operation_kind operation =
     (if operation = ''read'' then ReadAttribute else if operation = ''read_paths'' then ReadAttributes
      else if operation = ''read_events'' then ReadEvents else if operation = ''write'' then WriteAttribute
      else InvokeCommand)"

definition interaction_paths :: "string \<Rightarrow> json \<Rightarrow> path_selector list option" where
  "interaction_paths operation parameters =
     (if single_operation operation
      then if \<not> list_all (json_contains parameters) path_fields then None
           else map_option (\<lambda>p. [p])
             (selector_value (JObject (fold (\<lambda>k m. omap_put k (json_at parameters k) m) path_fields [])) False)
      else if \<not> json_contains parameters ''paths'' \<or> \<not> json_is_array (json_at parameters ''paths'') \<or>
              json_elements (json_at parameters ''paths'') = [] \<or>
              length (json_elements (json_at parameters ''paths'')) > maximum_interaction_paths
      then None
      else selector_values (operation = ''read_paths'') (json_elements (json_at parameters ''paths'')))"

text \<open>The value of a mutation: \<open>None\<close> refused, \<open>Some None\<close> for an operation without a value.\<close>

definition interaction_value :: "string \<Rightarrow> json \<Rightarrow> element option option" where
  "interaction_value operation parameters =
     (if operation = ''write'' \<or> operation = ''invoke''
      then if \<not> json_contains parameters ''value'' then None
           else (case element_parse (json_at parameters ''value'') of None \<Rightarrow> None | Some e \<Rightarrow> Some (Some e))
      else Some None)"

definition option_keys :: "json \<Rightarrow> nat" where
  "option_keys parameters =
     of_bool (json_contains parameters ''value'') + of_bool (json_contains parameters ''expected_data_version'') +
     of_bool (json_contains parameters ''timed_request_timeout_ms'') + of_bool (json_contains parameters ''min_event_number'')"

text \<open>The outer option is the undefined behaviour of \<open>valid_interaction_request\<close>.\<close>

definition interaction_parameters :: "string \<Rightarrow> json \<Rightarrow> nat \<Rightarrow> interaction_request option option" where
  "interaction_parameters operation parameters timeout_ms =
     (if \<not> single_operation operation \<and> \<not> paths_operation operation then Some None
      else case interaction_paths operation parameters of
             None \<Rightarrow> Some None
           | Some [] \<Rightarrow> None
           | Some (p # ps) \<Rightarrow>
               (case (optional_uint parameters ''expected_data_version'' 0xFFFFFFFF,
                      optional_uint parameters ''timed_request_timeout_ms'' 65535,
                      optional_uint parameters ''min_event_number'' u64_max, interaction_value operation parameters) of
                  (Some expected, Some timed, Some minimum_event, Some v) \<Rightarrow>
                    (if timed = Some 0 then Some None
                     else let q = \<lparr>iq_kind = operation_kind operation, iq_fabric_id = ps_fabric_id p,
                            iq_node_id = ps_node_id p, iq_paths = p # ps, iq_value = v,
                            iq_expected_data_version = map_option u32_cast expected,
                            iq_timed_request_timeout_ms = map_option u16_cast timed,
                            iq_minimum_event_number = minimum_event, iq_timeout_ms = timeout_ms\<rparr>
                          in if json_size parameters \<noteq> (if single_operation operation then 5 else 1) + option_keys parameters
                             then Some None
                             else (case valid_interaction_request q of
                                     None \<Rightarrow> None
                                   | Some valid \<Rightarrow> Some (if valid then Some q else None)))
                | _ \<Rightarrow> Some None))"

definition subscription_kind_value :: "string \<Rightarrow> subscription_kind option" where
  "subscription_kind_value t =
     (if t = ''attribute'' then Some SubAttribute else if t = ''event'' then Some SubEvent else None)"

definition subscription_parameters :: "json \<Rightarrow> nat \<Rightarrow> subscription_request option" where
  "subscription_parameters parameters timeout_ms =
     (if \<not> json_exact parameters [''subscription_id'', ''kind'', ''paths'', ''min_interval_s'', ''max_interval_s'',
            ''resubscribe'', ''queue_limit''] \<or>
         canonical_generation (json_at parameters ''subscription_id'') = None \<or>
         \<not> json_is_string (json_at parameters ''kind'') \<or> \<not> json_is_array (json_at parameters ''paths'') \<or>
         json_elements (json_at parameters ''paths'') = [] \<or> length (json_elements (json_at parameters ''paths'')) > 64 \<or>
         \<not> json_is_boolean (json_at parameters ''resubscribe'')
      then None
      else case (subscription_kind_value (json_text (json_at parameters ''kind'')),
                 unsigned_at_most (json_at parameters ''min_interval_s'') 65535,
                 unsigned_at_most (json_at parameters ''max_interval_s'') 65535,
                 unsigned_at_most (json_at parameters ''queue_limit'') 10000,
                 selector_values False (json_elements (json_at parameters ''paths''))) of
             (Some kind, Some minimum, Some maximum, Some queue_limit, Some (p # ps)) \<Rightarrow>
               (if maximum = 0 \<or> queue_limit = 0 then None
                else let q = \<lparr>sr_subscription_id = json_text (json_at parameters ''subscription_id''), sr_kind = kind,
                       sr_fabric_id = ps_fabric_id p, sr_node_id = ps_node_id p, sr_paths = p # ps,
                       sr_min_interval_s = u16_cast minimum, sr_max_interval_s = u16_cast maximum,
                       sr_resubscribe = json_truth (json_at parameters ''resubscribe''),
                       sr_queue_limit = u16_cast queue_limit, sr_timeout_ms = timeout_ms\<rparr>
                     in if valid_subscription_request q then Some q else None)
           | _ \<Rightarrow> None)"

definition unsubscribe_parameters :: "json \<Rightarrow> (string \<times> u64) option" where
  "unsubscribe_parameters parameters =
     (if \<not> json_exact parameters [''subscription_id'', ''generation''] then None
      else case (canonical_generation (json_at parameters ''subscription_id''),
                 unsigned_at_most (json_at parameters ''generation'') u64_max) of
             (Some subscription, Some generation) \<Rightarrow>
               if generation > 0 then Some (subscription, generation) else None
           | _ \<Rightarrow> None)"

definition commissioning_parameters :: "json \<Rightarrow> nat \<Rightarrow> commissioning_request option" where
  "commissioning_parameters parameters timeout_ms =
     (if \<not> json_exact parameters [''node_id'', ''setup_pin'', ''discriminator''] then None
      else case (unsigned_at_most (json_at parameters ''node_id'') maximum_operational_node,
                 unsigned_at_most (json_at parameters ''setup_pin'') 99999998,
                 unsigned_at_most (json_at parameters ''discriminator'') 4095) of
             (Some node, Some pin, Some discriminator) \<Rightarrow>
               (let q = \<lparr>mq_node_id = node, mq_setup_pin = u32_cast pin, mq_discriminator = u16_cast discriminator,
                         mq_timeout_ms = timeout_ms\<rparr>
                in if valid_commissioning_request q then Some q else None)
           | _ \<Rightarrow> None)"

definition window_parameters :: "json \<Rightarrow> nat \<Rightarrow> window_request option" where
  "window_parameters parameters timeout_ms =
     (if \<not> json_exact parameters [''node_id'', ''timeout_s'', ''iteration_count'', ''discriminator''] then None
      else case (unsigned_at_most (json_at parameters ''node_id'') maximum_operational_node,
                 unsigned_at_most (json_at parameters ''timeout_s'') 900,
                 unsigned_at_most (json_at parameters ''iteration_count'') 100000,
                 unsigned_at_most (json_at parameters ''discriminator'') 4095) of
             (Some node, Some timeout_s, Some iterations, Some discriminator) \<Rightarrow>
               (let q = \<lparr>wq_node_id = node, wq_timeout_s = u16_cast timeout_s, wq_iteration_count = u32_cast iterations,
                         wq_discriminator = u16_cast discriminator, wq_timeout_ms = timeout_ms\<rparr>
                in if valid_window_request q then Some q else None)
           | _ \<Rightarrow> None)"

section \<open>Results and reports\<close>

text \<open>An object from an initializer list: the members are kept in the order of their names.\<close>

definition json_object :: "(string \<times> json) list \<Rightarrow> json" where
  "json_object ms = JObject (fold (\<lambda>p m. omap_put (fst p) (snd p) m) ms [])"

fun json_with :: "json \<Rightarrow> string \<Rightarrow> json \<Rightarrow> json" where
  "json_with (JObject m) k v = JObject (omap_put k v m)"
| "json_with j k v = j"

definition path_json :: "concrete_path \<Rightarrow> json" where
  "path_json p = json_object [(''fabric_id'', JUnsigned (cp_fabric_id p)), (''node_id'', JUnsigned (cp_node_id p)),
     (''endpoint'', JUnsigned (cp_endpoint p)), (''cluster'', JUnsigned (cp_cluster p)),
     (''member'', JUnsigned (cp_member p))]"

definition tag_json :: "tag \<Rightarrow> json" where
  "tag_json t = (if tg_kind t = Anonymous then JString ''anonymous'' else JArray [JString ''context'', JUnsigned (tg_id t)])"

fun type_name :: "element_type \<Rightarrow> string" where
  "type_name TNull = ''null''"
| "type_name TI16 = ''i16''"
| "type_name TU8 = ''u8''"
| "type_name TU16 = ''u16''"
| "type_name TU32 = ''u32''"
| "type_name TU64 = ''u64''"
| "type_name TBoolean = ''boolean''"
| "type_name TStructure = ''structure''"
| "type_name TArray = ''array''"

fun element_json :: "element \<Rightarrow> json" where
  "element_json (Element t ty s u b cs) =
     json_object [(''tag'', tag_json t), (''type'', JString (type_name ty)),
       (''value'', (case ty of
           TNull \<Rightarrow> JNull
         | TI16 \<Rightarrow> JInt s
         | TBoolean \<Rightarrow> JBool b
         | TStructure \<Rightarrow> JArray (map element_json cs)
         | TArray \<Rightarrow> JArray (map element_json cs)
         | _ \<Rightarrow> JUnsigned u))]"

definition effect_name :: "interaction_effect \<Rightarrow> string" where
  "effect_name e = (if e = EffectUnknown then ''unknown'' else ''none'')"

definition error_json :: "interaction_error \<Rightarrow> json" where
  "error_json e =
     (let result = json_object [(''code'', JString (ie_code e)), (''effect'', JString (effect_name (ie_effect e)))];
          result = (case ie_status e of None \<Rightarrow> result | Some s \<Rightarrow> json_with result ''status'' (JUnsigned s))
      in case ie_cluster_status e of None \<Rightarrow> result | Some s \<Rightarrow> json_with result ''cluster_status'' (JUnsigned s))"

definition optional_json :: "('a \<Rightarrow> json) \<Rightarrow> 'a option \<Rightarrow> json" where
  "optional_json f v = (case v of None \<Rightarrow> JNull | Some x \<Rightarrow> f x)"

definition attribute_json :: "attribute_data \<Rightarrow> json" where
  "attribute_json a = json_object [(''path'', path_json (ad_path a)), (''value'', element_json (ad_value a)),
     (''data_version'', optional_json JUnsigned (ad_data_version a))]"

definition timestamp_json :: "event_data \<Rightarrow> json" where
  "timestamp_json e = json_object
     [(''kind'', JString (if ev_timestamp_kind e = TimestampEpoch then ''epoch'' else ''system'')),
      (''value'', JUnsigned (ev_timestamp_value e))]"

definition event_json :: "event_data \<Rightarrow> json" where
  "event_json e = json_object [(''path'', path_json (ev_path e)), (''value'', element_json (ev_value e)),
     (''event_number'', JUnsigned (ev_event_number e)), (''priority'', JUnsigned (ev_priority e)),
     (''timestamp'', timestamp_json e), (''status'', JInt 0)]"

text \<open>Reading an absent option is undefined behaviour: \<open>None\<close>.\<close>

definition report_body :: "subscription_report \<Rightarrow> (string \<times> json \<times> (string \<times> json) list) option" where
  "report_body r =
     (if rp_kind r = SubAttribute
      then (case pr_attribute (rp_result r) of
              None \<Rightarrow> None
            | Some a \<Rightarrow> Some (''attribute'', element_json (ad_value a),
                              [(''data_version'', optional_json JUnsigned (ad_data_version a))]))
      else (case pr_event (rp_result r) of
              None \<Rightarrow> None
            | Some e \<Rightarrow> Some (''event'', element_json (ev_value e),
                              [(''event_number'', JUnsigned (ev_event_number e)), (''priority'', JUnsigned (ev_priority e)),
                               (''timestamp'', timestamp_json e)])))"

definition subscription_frame :: "subscription_report \<Rightarrow> string \<Rightarrow> u64 \<Rightarrow> json option" where
  "subscription_frame r session sequence =
     (case report_body r of
        None \<Rightarrow> None
      | Some (kind, body, extra) \<Rightarrow>
          Some (json_object [(''version'', JUnsigned 1), (''event'', JString ''subscription_report''),
            (''session_generation'', JString session), (''subscription_id'', JString (rp_subscription_id r)),
            (''generation'', JUnsigned (rp_generation r)), (''report_sequence'', JUnsigned sequence),
            (''kind'', JString kind), (''value'', body),
            (''metadata'', json_object
               ([(''path'', path_json (pr_path (rp_result r))), (''initial'', JBool (rp_initial r)),
                 (''report_id'', JUnsigned (rp_report_id r)), (''min_interval_s'', JUnsigned (rp_min_interval_s r)),
                 (''max_interval_s'', JUnsigned (rp_max_interval_s r)),
                 (''sdk_subscription_id'', JUnsigned (rp_sdk_subscription_id r))] @ extra))]))"

definition path_outcome :: "path_result \<Rightarrow> json option" where
  "path_outcome r =
     (case pr_error r of
        Some e \<Rightarrow> Some (json_object [(''error'', error_json e)])
      | None \<Rightarrow>
          (case pr_attribute r of
             Some a \<Rightarrow> Some (json_object [(''ok'', attribute_json a)])
           | None \<Rightarrow> (case pr_event r of None \<Rightarrow> None | Some e \<Rightarrow> Some (json_object [(''ok'', event_json e)]))))"

fun result_list :: "path_result list \<Rightarrow> json list option" where
  "result_list [] = Some []"
| "result_list (r # rs) =
     (case path_outcome r of
        None \<Rightarrow> None
      | Some outcome \<Rightarrow>
          (case result_list rs of
             None \<Rightarrow> None
           | Some js \<Rightarrow> Some (json_object [(''path'', path_json (pr_path r)), (''result'', outcome)] # js)))"

text \<open>The outer option is undefined behaviour, the inner one the result of the source.\<close>

definition interaction_json :: "interaction_request \<Rightarrow> interaction_response \<Rightarrow> json option option" where
  "interaction_json q r =
     (if \<not> valid_interaction_response q r then Some None
      else if \<not> ir_ok r then Some None
      else if iq_kind q = ReadAttribute
      then (case ir_results r of
              [x] \<Rightarrow> (if pr_error x \<noteq> None then Some None
                      else case pr_attribute x of None \<Rightarrow> None | Some a \<Rightarrow> Some (Some (attribute_json a)))
            | _ \<Rightarrow> Some None)
      else if iq_kind q = ReadAttributes \<or> iq_kind q = ReadEvents
      then map_option (\<lambda>js. Some (JArray js)) (result_list (ir_results r))
      else if iq_kind q = WriteAttribute
      then (case ir_response_path r of
              None \<Rightarrow> None
            | Some p \<Rightarrow> Some (Some (json_object [(''path'', path_json p), (''status'', JInt 0)])))
      else Some (Some (json_object [(''path'', optional_json path_json (ir_response_path r)),
             (''value'', optional_json element_json (ir_response_value r)), (''status'', JInt 0)])))"

definition matter_success :: "json \<Rightarrow> json \<Rightarrow> json" where
  "matter_success request result = json_object [(''version'', JUnsigned 1), (''id'', json_at request ''id''),
     (''ok'', JBool True), (''result'', result)]"

definition error_frame :: "json \<Rightarrow> json \<Rightarrow> json" where
  "error_frame request error = json_object [(''version'', JUnsigned 1), (''id'', json_at request ''id''),
     (''ok'', JBool False), (''error'', error)]"

definition matter_failure :: "json \<Rightarrow> string \<Rightarrow> json" where
  "matter_failure request code = error_frame request (json_object [(''code'', JString code)])"

definition interaction_failure :: "json \<Rightarrow> interaction_error \<Rightarrow> json" where
  "interaction_failure request e = error_frame request (error_json e)"

definition backend_failure :: "json \<Rightarrow> string \<Rightarrow> json" where
  "backend_failure request code =
     (if json_at request ''operation'' \<in> {JString ''write'', JString ''invoke'', JString ''commission_on_network'',
           JString ''open_window''}
      then interaction_failure request \<lparr>ie_code = code, ie_status = None, ie_cluster_status = None, ie_effect = EffectUnknown\<rparr>
      else matter_failure request code)"

definition commissioning_failure :: "json \<Rightarrow> commissioning_error \<Rightarrow> json" where
  "commissioning_failure request e =
     (let detail = json_object [(''code'', JString (ce_code e)), (''effect'', JString (effect_name (ce_effect e)))]
      in error_frame request
           (case ce_sdk_status e of None \<Rightarrow> detail | Some s \<Rightarrow> json_with detail ''sdk_status'' (JUnsigned s)))"

section \<open>Which documents are read\<close>

lemma msax_value_exact:
  "msax_value (n, fs) =
     (if n < matter_nodes \<and> slot_open matter_collection fs then Some (n + 1, slot_taken fs) else None)"
  by (cases fs) (auto simp: msax_value_def)

lemma msax_run_append:
  "msax_run (es @ es') g = (case msax_run es g of None \<Rightarrow> None | Some g' \<Rightarrow> msax_run es' g')"
  by (induction es arbitrary: g) (auto split: option.splits)

interpretation matter_guard: document_guard msax_event msax_run Some None matter_collection matter_depth matter_nodes 1
  by unfold_locales (auto simp: msax_value_exact msax_start_def msax_end_def msax_key_def msax_run_append)

text \<open>
  For a parser that makes the calls of the document it reads, a line is read exactly when it is not empty, has
  fewer than 131072 bytes, none of them zero, and its document has at most 4096 values and member names, at most 24
  nested containers of at most 1024 elements each and no repeated name in an object.
\<close>

theorem matter_parse_exact:
  assumes "parser line = (document_events document, Some tree)"
  shows "parse_bounded parser line =
    (if line \<noteq> [] \<and> length line < 131072 \<and> CHR 0x00 \<notin> set line \<and> document_cost 1 document \<le> 4096 \<and>
        document_within 1024 24 document
     then Some tree else None)"
  using assms
  by (auto simp: parse_bounded_def matter_guard.run_document maximum_frame_bytes_def matter_nodes_def
      matter_collection_def matter_depth_def)

theorem matter_parse_exact_witness:
  "parse_bounded (\<lambda>_. (document_events (JObject [(''a'', JNull), (''a'', JNull)]), Some (JObject [(''a'', JNull)])))
     ''{...}'' = None \<and>
   parse_bounded (\<lambda>_. (document_events (JArray [JNull]), Some (JArray [JNull]))) ''[null]'' = Some (JArray [JNull])"
  by (intro conjI; subst matter_parse_exact [OF refl]; simp)

section \<open>Elements\<close>

fun element_nodes :: "element \<Rightarrow> nat" where
  "element_nodes (Element t ty s u b cs) = Suc (sum_list (map element_nodes cs))"

text \<open>At most \<open>d\<close> levels below the element.\<close>

fun element_within :: "nat \<Rightarrow> element \<Rightarrow> bool" where
  "element_within d (Element t ty s u b cs) \<longleftrightarrow> cs = [] \<or> (d > 0 \<and> (\<forall>c \<in> set cs. element_within (d - 1) c))"

definition element_bounded :: "element \<Rightarrow> bool" where
  "element_bounded e \<longleftrightarrow> element_typed e \<and> element_nodes e \<le> 1024 \<and> element_within 8 e"

text \<open>
  What a printed value becomes when it is read again: an integer that is not negative is unsigned.
\<close>

fun json_reread :: "json \<Rightarrow> json" where
  "json_reread (JInt i) = (if i \<ge> 0 then JUnsigned (nat i) else JInt i)"
| "json_reread (JArray vs) = JArray (map json_reread vs)"
| "json_reread (JObject m) = JObject (map (\<lambda>p. (fst p, json_reread (snd p))) m)"
| "json_reread v = v"

lemma json_object_three:
  "json_object [(''tag'', a), (''type'', b), (''value'', c)] = JObject [(''tag'', a), (''type'', b), (''value'', c)]"
  by (simp add: json_object_def)

definition element_body :: "element \<Rightarrow> json" where
  "element_body e = (case el_type e of TNull \<Rightarrow> JNull | TI16 \<Rightarrow> JInt (el_signed e) | TBoolean \<Rightarrow> JBool (el_boolean e)
     | TStructure \<Rightarrow> JArray (map element_json (el_children e)) | TArray \<Rightarrow> JArray (map element_json (el_children e))
     | _ \<Rightarrow> JUnsigned (el_unsigned e))"

lemma element_json_eq:
  "element_json e = JObject [(''tag'', tag_json (el_tag e)), (''type'', JString (type_name (el_type e))),
     (''value'', element_body e)]"
  by (cases e) (simp add: json_object_three element_body_def split: element_type.splits)

declare element_json.simps [simp del]

lemma element_value_object:
  "element_value (JObject [(''tag'', a), (''type'', JString type), (''value'', body)]) depth nodes =
     (if nodes + 1 > 1024 \<or> depth > 8 then None
      else case tag_value a of
             None \<Rightarrow> None
           | Some t \<Rightarrow>
               if is_container type body
               then (case element_values (json_elements body) (depth + 1) (nodes + 1) of
                       None \<Rightarrow> None
                     | Some (cs, n) \<Rightarrow>
                         Some (Element t (if type = ''structure'' then TStructure else TArray) 0 0 False cs, n))
               else map_option (\<lambda>e. (e, nodes + 1)) (scalar_value t type body))"
  by (subst element_value.simps) (simp add: json_exact_def json_contains_def json_at_def omap_has_def Let_def
      split: option.splits)

lemma tag_value_json: "tg_id t \<le> 255 \<Longrightarrow> (tg_kind t = Anonymous \<longrightarrow> tg_id t = 0) \<Longrightarrow> tag_value (tag_json t) = Some t"
  by (cases "tg_kind t"; cases t) (auto simp: tag_value_def tag_json_def)

lemma tag_json_reread: "json_reread (tag_json t) = tag_json t"
  by (simp add: tag_json_def)

lemma tag_value_typed:
  "tag_value v = Some t \<Longrightarrow> tg_id t \<le> 255 \<and> (tg_kind t = Anonymous \<longrightarrow> tg_id t = 0)"
  by (auto simp: tag_value_def split: if_splits json.splits list.splits)

lemma element_values_length: "element_values vs d n = Some (es, k) \<Longrightarrow> length es = length vs"
  by (induction vs arbitrary: n es) (auto split: option.splits)

lemma scalar_value_typed:
  assumes "scalar_value t type body = Some e" and "tg_id t \<le> 255 \<and> (tg_kind t = Anonymous \<longrightarrow> tg_id t = 0)"
  shows "element_typed e \<and> element_within d e \<and> element_nodes e = 1"
  using assms
  by (auto simp: scalar_value_def node_typed_def unsigned_type_def unsigned_limit_def type_max_def split: if_splits)

text \<open>What is read is well typed, and the counter is exact.\<close>

lemma element_value_sound:
  shows "element_value v depth nodes = Some (e, n) \<Longrightarrow>
      element_typed e \<and> element_within (8 - depth) e \<and> n = nodes + element_nodes e \<and> depth \<le> 8 \<and> (nodes \<le> 1024 \<longrightarrow> n \<le> 1024)"
    and "element_values vs depth nodes = Some (es, n) \<Longrightarrow>
      list_all element_typed es \<and> list_all (element_within (8 - depth)) es \<and> (es = [] \<or> depth \<le> 8) \<and>
      n = nodes + sum_list (map element_nodes es) \<and> (nodes \<le> 1024 \<longrightarrow> n \<le> 1024)"
proof (induction v depth nodes and vs depth nodes arbitrary: e n and es n rule: element_value_element_values.induct)
  case (1 v depth nodes)
  let ?type = "json_text (json_at v ''type'')" and ?body = "json_at v ''value''"
  from 1(2) obtain t where ok: "\<not> (nodes + 1 > 1024 \<or> depth > 8 \<or> \<not> json_exact v [''tag'', ''type'', ''value''])"
      "tag_value (json_at v ''tag'') = Some t" "json_is_string (json_at v ''type'')"
    by (subst (asm) element_value.simps) (auto split: if_splits option.splits)
  note tag = tag_value_typed [OF ok(2)]
  show ?case
  proof (cases "is_container ?type ?body")
    case True
    from 1(2) True ok obtain cs where cs: "element_values (json_elements ?body) (depth + 1) (nodes + 1) = Some (cs, n)"
        "e = Element t (if ?type = ''structure'' then TStructure else TArray) 0 0 False cs"
      by (subst (asm) element_value.simps) (auto simp: Let_def split: option.splits)
    have "list_all element_typed cs \<and> list_all (element_within (8 - (depth + 1))) cs \<and> (cs = [] \<or> depth + 1 \<le> 8) \<and>
        n = nodes + 1 + sum_list (map element_nodes cs) \<and> (nodes + 1 \<le> 1024 \<longrightarrow> n \<le> 1024)"
      using 1(1) [OF ok(1,2) _ refl refl True, of cs n] ok cs(1) by simp
    then show ?thesis using ok tag by (auto simp: cs(2) node_typed_def list_all_iff)
  next
    case False
    from 1(2) False ok have "scalar_value t ?type ?body = Some e" "n = nodes + 1"
      by (subst (asm) element_value.simps; auto simp: Let_def)+
    then show ?thesis using scalar_value_typed [OF _ tag, of ?type ?body e "8 - depth"] ok(1) by auto
  qed
next
  case (3 v vs depth nodes)
  from 3(3) obtain e' n' es' where "element_value v depth nodes = Some (e', n')" "element_values vs depth n' = Some (es', n)"
      "es = e' # es'" by (auto split: option.splits)
  then show ?case using 3(1) [of e' n'] 3(2) [of "(e', n')" e' n' es' n] by auto
qed auto

lemma element_nodes_pos: "0 < element_nodes e"
  by (cases e) simp

lemma length_le_element_nodes: "length es \<le> sum_list (map element_nodes es)"
proof (induction es)
  case (Cons e es)
  then show ?case using element_nodes_pos [of e] by simp
qed simp


lemma json_i64_reread:
  assumes "-32768 \<le> i" and "i \<le> 32767"
  shows "json_i64 (json_reread (JInt i)) = i" and "json_is_number_integer (json_reread (JInt i))"
proof -
  have "nat i mod 2 ^ 64 = nat i" if "i \<ge> 0"
    using that assms by (intro mod_less) simp
  then show "json_i64 (json_reread (JInt i)) = i" using assms by auto
qed auto

lemma scalar_value_json:
  assumes "node_typed e" and "el_type e \<notin> {TStructure, TArray}"
  shows "scalar_value (el_tag e) (type_name (el_type e)) (json_reread (element_body e)) = Some e"
    and "\<not> is_container (type_name (el_type e)) (json_reread (element_body e))"
proof -
  obtain t ty s u b cs where e: "e = Element t ty s u b cs" by (cases e)
  have typed: "(if ty = TI16 then -32768 \<le> s \<and> s \<le> 32767 else s = 0) \<and> u \<le> type_max ty \<and> (ty = TBoolean \<or> \<not> b) \<and> cs = []"
    using assms by (auto simp: e node_typed_def)
  have i: "scalar_value t ''i16'' (json_reread (JInt s)) = Some (Element t TI16 s 0 False [])" if "ty = TI16"
    using typed that json_i64_reread [of s] by (simp add: scalar_value_def del: json_reread.simps)
  show "scalar_value (el_tag e) (type_name (el_type e)) (json_reread (element_body e)) = Some e"
  proof (cases ty)
    case TI16
    then show ?thesis using i typed by (simp add: e element_body_def type_max_def del: json_reread.simps)
  qed (use typed assms(2) in \<open>simp_all add: e scalar_value_def element_body_def unsigned_type_def unsigned_limit_def type_max_def\<close>)
  show "\<not> is_container (type_name (el_type e)) (json_reread (element_body e))"
    using assms(2) by (cases ty) (simp_all add: e is_container_def)
qed

definition reads_back :: "element \<Rightarrow> bool" where
  "reads_back e \<longleftrightarrow> (\<forall>depth nodes. depth \<le> 8 \<and> element_within (8 - depth) e \<and> nodes + element_nodes e \<le> 1024 \<longrightarrow>
     element_value (json_reread (element_json e)) depth nodes = Some (e, nodes + element_nodes e))"

lemma element_values_read_back:
  assumes "list_all reads_back cs" and "cs = [] \<or> depth \<le> 8" and "list_all (element_within (8 - depth)) cs"
    and "nodes + sum_list (map element_nodes cs) \<le> 1024"
  shows "element_values (map (\<lambda>c. json_reread (element_json c)) cs) depth nodes =
    Some (cs, nodes + sum_list (map element_nodes cs))"
  using assms
proof (induction cs arbitrary: nodes)
  case (Cons c cs)
  then have "element_value (json_reread (element_json c)) depth nodes = Some (c, nodes + element_nodes c)"
    by (simp add: reads_back_def)
  then show ?case using Cons by (simp add: add.assoc)
qed simp

lemma element_json_reread:
  "json_reread (element_json e) = JObject [(''tag'', tag_json (el_tag e)), (''type'', JString (type_name (el_type e))),
     (''value'', json_reread (element_body e))]"
  by (simp add: element_json_eq tag_json_reread)

lemma typed_reads_back: "element_typed e \<Longrightarrow> reads_back e"
proof (induction e rule: element_json.induct)
  case (1 t ty s u b cs)
  let ?e = "Element t ty s u b cs"
  have typed: "node_typed ?e" "list_all element_typed cs" using "1.prems" by simp_all
  have tag: "tag_value (tag_json t) = Some t" using typed(1) by (intro tag_value_json) (auto simp: node_typed_def)
  have cs: "list_all reads_back cs"
    using "1.IH" typed by (cases "cs = []"; cases ty) (auto simp: list_all_iff node_typed_def)
  show ?case unfolding reads_back_def
  proof (intro allI impI)
    fix depth nodes assume d: "depth \<le> 8 \<and> element_within (8 - depth) ?e \<and> nodes + element_nodes ?e \<le> 1024"
    show "element_value (json_reread (element_json ?e)) depth nodes = Some (?e, nodes + element_nodes ?e)"
    proof (cases "ty \<in> {TStructure, TArray}")
      case True
      have len: "length cs \<le> 1023" using length_le_element_nodes [of cs] d by simp
      have "element_values (map (\<lambda>c. json_reread (element_json c)) cs) (depth + 1) (nodes + 1) =
          Some (cs, nodes + 1 + sum_list (map element_nodes cs))"
        using d by (intro element_values_read_back [OF cs]) (auto simp: list_all_iff)
      moreover have "is_container (type_name ty) (json_reread (element_body ?e))"
          "json_elements (json_reread (element_body ?e)) = map (\<lambda>c. json_reread (element_json c)) cs"
        using True len by (auto simp: is_container_def element_body_def)
      ultimately show ?thesis
        using True d tag typed(1) unfolding element_json_reread element_value_object
        by (auto simp: node_typed_def type_max_def)
    next
      case False
      then have "cs = []" using typed(1) by (auto simp: node_typed_def)
      then show ?thesis
        using False d tag scalar_value_json [OF typed(1)] unfolding element_json_reread element_value_object by simp
    qed
  qed
qed

lemma element_reads_back: "element_bounded e \<Longrightarrow> element_parse (json_reread (element_json e)) = Some e"
  using typed_reads_back [of e] unfolding reads_back_def
  by (auto simp: element_parse_def element_bounded_def elim!: allE [of _ 0])

lemma element_parse_bounded: "element_parse v = Some e \<Longrightarrow> element_bounded e"
  using element_value_sound(1) [of v 0 0 e] by (auto simp: element_parse_def element_bounded_def)

text \<open>
  C12: what the host prints for an element is read back as the same element exactly when the element is well typed,
  has at most 1024 nodes and at most eight levels below it, and these are the only elements that are ever read from
  the wire: an integer that is printed signed and read unsigned, the tags, the nesting and the order of the
  children are kept.
\<close>

theorem element_wire_roundtrip:
  "(element_parse (json_reread (element_json e)) = Some e \<longleftrightarrow> element_bounded e) \<and>
   ((\<exists>v. element_parse v = Some e) \<longleftrightarrow> element_bounded e)"
  using element_reads_back element_parse_bounded by blast

text \<open>
  An unsigned integer beyond the signed 64-bit range wraps before it is compared with the 16-bit range, so such a
  value can be read as a small one.
\<close>

lemma wrapped_integer_read:
  "element_parse (JObject [(''tag'', JString ''anonymous''), (''type'', JString ''i16''),
     (''value'', JUnsigned 18446744073709551611)]) = Some (Element anonymous_tag TI16 (-5) 0 False [])"
  by (simp add: element_parse_def element_value_object tag_value_def is_container_def scalar_value_def anonymous_tag_def)

section \<open>Objects\<close>

lemma fold_put_ok: "omap_ok m \<Longrightarrow> omap_ok (fold (\<lambda>p m. omap_put (fst p) (snd p) m) ms m)"
  by (induction ms arbitrary: m) auto

lemma map_of_fold_put:
  "distinct (map fst ms) \<Longrightarrow> map_of (fold (\<lambda>p m. omap_put (fst p) (snd p) m) ms m) = map_of m ++ map_of ms"
proof (induction ms arbitrary: m)
  case (Cons p ms)
  then have "fst p \<notin> dom (map_of ms)" by (simp add: dom_map_of_conv_image_fst)
  then show ?case using Cons by (auto simp: map_add_def fun_eq_iff split: option.splits)
qed simp

lemma length_fold_put:
  "omap_ok m \<Longrightarrow> distinct (map fst ms) \<Longrightarrow> fst ` set ms \<inter> fst ` set m = {} \<Longrightarrow>
   length (fold (\<lambda>p m. omap_put (fst p) (snd p) m) ms m) = length m + length ms"
proof (induction ms arbitrary: m)
  case (Cons p ms)
  have "\<not> omap_has (fst p) m" using Cons.prems(3) by (auto simp: omap_has_iff)
  then have "length (omap_put (fst p) (snd p) m) = Suc (length m)"
    using Cons.prems(1) by (simp add: length_omap_put omap_has_def)
  moreover have "fst ` set ms \<inter> fst ` set (omap_put (fst p) (snd p) m) = {}"
    using Cons.prems(2,3) by (auto simp: set_omap_put_fst)
  ultimately show ?case using Cons by simp
qed simp

lemma json_object_lookup:
  assumes "distinct (map fst ms)"
  shows "json_at (json_object ms) k = (case map_of ms k of Some v \<Rightarrow> v | None \<Rightarrow> JNull)"
    and "json_contains (json_object ms) k \<longleftrightarrow> k \<in> fst ` set ms"
    and "json_size (json_object ms) = length ms"
  using assms map_of_fold_put [of ms "[]"] length_fold_put [of "[]" ms]
  by (auto simp: json_object_def json_at_def json_contains_def omap_has_def map_of_eq_None_iff)

lemma json_object_exact: "distinct (map fst ms) \<Longrightarrow> json_exact (json_object ms) (map fst ms)"
  by (simp add: json_exact_def json_object_lookup list_all_iff) (simp add: json_object_def)

section \<open>Paths on the wire\<close>

definition component_json :: "nat option \<Rightarrow> json" where
  "component_json v = (case v of None \<Rightarrow> JString ''any'' | Some n \<Rightarrow> JUnsigned n)"

definition selector_members :: "path_selector \<Rightarrow> (string \<times> json) list" where
  "selector_members p = [(''fabric_id'', JUnsigned (ps_fabric_id p)), (''node_id'', JUnsigned (ps_node_id p)),
     (''endpoint'', component_json (ps_endpoint p)), (''cluster'', component_json (ps_cluster p)),
     (''member'', component_json (ps_member p))]"

lemma selector_members_names: "map fst (selector_members p) = path_fields" "distinct (map fst (selector_members p))"
  by (simp_all add: selector_members_def path_fields_def)

lemma path_component_json: "optional_ok (\<lambda>n. n \<le> maximum) v \<Longrightarrow> path_component (component_json v) maximum = Some v"
  by (cases v) (auto simp: path_component_def component_json_def unsigned_at_most_def optional_ok_def)

lemma path_component_bound: "path_component v maximum = Some c \<Longrightarrow> optional_ok (\<lambda>n. n \<le> maximum) c"
  by (auto simp: path_component_def unsigned_at_most_def optional_ok_def split: if_splits option.splits)

lemma u16_exact: "n \<le> 0xFFFF \<Longrightarrow> u16_cast n = n"
  by (simp add: u16_cast_def)

lemma u32_exact: "n \<le> 0xFFFFFFFF \<Longrightarrow> u32_cast n = n"
  by (simp add: u32_cast_def)

lemma cluster_within: "valid_cluster c \<Longrightarrow> c \<le> 0xFFF4FFFE"
  by (auto simp: valid_cluster_def)

lemma map_option_cast:
  assumes "optional_ok (\<lambda>n. n \<le> maximum) v" and "\<And>n. n \<le> maximum \<Longrightarrow> f n = n"
  shows "map_option f v = v"
  using assms by (cases v) (auto simp: optional_ok_def)

definition selector_wire :: "path_selector \<Rightarrow> bool \<Rightarrow> bool" where
  "selector_wire p concrete \<longleftrightarrow> valid_selector p concrete \<and> ps_fabric_id p \<le> u64_max"

lemma selector_value_sound: "selector_value v wildcards = Some p \<Longrightarrow> selector_wire p (\<not> wildcards)"
proof -
  assume v: "selector_value v wildcards = Some p"
  then obtain fabric node e c m where parts: "unsigned_at_most (json_at v ''fabric_id'') u64_max = Some fabric"
      "unsigned_at_most (json_at v ''node_id'') maximum_operational_node = Some node" "fabric \<noteq> 0" "node \<noteq> 0"
      "path_component (json_at v ''endpoint'') 0xFFFE = Some e" "path_component (json_at v ''cluster'') 0xFFF4FFFE = Some c"
      "path_component (json_at v ''member'') 0xFFFFFFFE = Some m"
      "wildcards \<or> (e \<noteq> None \<and> c \<noteq> None \<and> m \<noteq> None)" "optional_ok (\<lambda>c. valid_cluster (u32_cast c)) c"
      "p = \<lparr>ps_fabric_id = fabric, ps_node_id = node, ps_endpoint = map_option u16_cast e,
         ps_cluster = map_option u32_cast c, ps_member = map_option u32_cast m\<rparr>"
    by (auto simp: selector_value_def split: if_splits option.splits)
  note bounds = parts(5-7) [THEN path_component_bound]
  have casts: "map_option u16_cast e = e" "map_option u32_cast c = c" "map_option u32_cast m = m"
    by (rule map_option_cast [OF bounds(1)] map_option_cast [OF bounds(2)] map_option_cast [OF bounds(3)];
        simp add: u16_exact u32_exact)+
  show ?thesis using parts bounds unfolding parts(10) casts
    by (auto simp: selector_wire_def valid_selector_def selector_present_def unsigned_at_most_def optional_ok_def u32_exact
        split: if_splits option.splits)
qed

lemma selector_value_json:
  assumes "selector_wire p (\<not> wildcards)"
  shows "selector_value (json_object (selector_members p)) wildcards = Some p"
proof -
  have "map_option u16_cast (ps_endpoint p) = ps_endpoint p" "map_option u32_cast (ps_cluster p) = ps_cluster p"
      "map_option u32_cast (ps_member p) = ps_member p"
    using assms cluster_within
    by (cases "ps_endpoint p"; cases "ps_cluster p"; cases "ps_member p";
        force simp: selector_wire_def valid_selector_def optional_ok_def u16_cast_def u32_cast_def split: if_splits)+
  moreover have "json_exact (json_object (selector_members p)) path_fields"
    using json_object_exact [OF selector_members_names(2)] by (simp add: selector_members_names(1))
  moreover have "path_component (component_json (ps_endpoint p)) 0xFFFE = Some (ps_endpoint p)"
      "path_component (component_json (ps_cluster p)) 0xFFF4FFFE = Some (ps_cluster p)"
      "path_component (component_json (ps_member p)) 0xFFFFFFFE = Some (ps_member p)"
    using assms cluster_within
    by (auto intro!: path_component_json simp: selector_wire_def valid_selector_def optional_ok_def split: if_splits option.splits)
  ultimately show ?thesis
    using assms unfolding selector_value_def json_object_lookup(1) [OF selector_members_names(2)]
    by (auto simp: selector_members_def unsigned_at_most_def selector_wire_def valid_selector_def selector_present_def
        optional_ok_def u32_cast_def split: if_splits option.splits)
qed

lemma selector_values_sound:
  "selector_values wildcards vs = Some ps \<Longrightarrow> length ps = length vs \<and> (\<forall>p \<in> set ps. selector_wire p (\<not> wildcards))"
  by (induction vs arbitrary: ps) (auto split: option.splits dest: selector_value_sound)

lemma selector_values_json:
  "\<forall>p \<in> set ps. selector_wire p (\<not> wildcards) \<Longrightarrow>
   selector_values wildcards (map (\<lambda>p. json_object (selector_members p)) ps) = Some ps"
  by (induction ps) (simp_all add: selector_value_json)

section \<open>Requests on the wire\<close>

definition operation_name :: "interaction_kind \<Rightarrow> string" where
  "operation_name k = (case k of ReadAttribute \<Rightarrow> ''read'' | ReadAttributes \<Rightarrow> ''read_paths'' | ReadEvents \<Rightarrow> ''read_events''
     | WriteAttribute \<Rightarrow> ''write'' | InvokeCommand \<Rightarrow> ''invoke'')"

definition single_kind :: "interaction_kind \<Rightarrow> bool" where
  "single_kind k \<longleftrightarrow> k \<in> {ReadAttribute, WriteAttribute, InvokeCommand}"

lemma operation_names:
  "operation_kind (operation_name k) = k" "single_operation (operation_name k) \<longleftrightarrow> single_kind k"
  "single_operation (operation_name k) \<or> paths_operation (operation_name k)"
  "single_operation operation \<or> paths_operation operation \<Longrightarrow> operation = operation_name (operation_kind operation)"
  "operation_name k = ''read_paths'' \<longleftrightarrow> k = ReadAttributes"
  "operation_name k = ''write'' \<or> operation_name k = ''invoke'' \<longleftrightarrow> is_mutation k"
  by (cases k; auto simp: operation_name_def operation_kind_def single_operation_def paths_operation_def single_kind_def
      is_mutation_def)+

text \<open>An admitted request whose numbers fit their fields on the wire.\<close>

definition request_wire :: "interaction_request \<Rightarrow> bool" where
  "request_wire q \<longleftrightarrow> request_common q \<and> request_of_kind (iq_kind q) q \<and>
     (single_kind (iq_kind q) \<longrightarrow> length (iq_paths q) = 1) \<and> iq_fabric_id q \<le> u64_max \<and>
     optional_ok element_bounded (iq_value q) \<and> optional_ok (\<lambda>n. n \<le> 0xFFFFFFFF) (iq_expected_data_version q) \<and>
     optional_ok (\<lambda>n. n \<le> 65535) (iq_timed_request_timeout_ms q) \<and>
     optional_ok (\<lambda>n. n \<le> u64_max) (iq_minimum_event_number q)"

text \<open>The members a client writes for a request.\<close>

definition optional_member :: "string \<Rightarrow> json option \<Rightarrow> (string \<times> json) list" where
  "optional_member k v = (case v of None \<Rightarrow> [] | Some j \<Rightarrow> [(k, j)])"

definition path_members :: "interaction_request \<Rightarrow> (string \<times> json) list" where
  "path_members q = (if single_kind (iq_kind q) then selector_members (hd (iq_paths q))
     else [(''paths'', JArray (map (\<lambda>p. json_object (selector_members p)) (iq_paths q)))])"

definition request_members :: "interaction_request \<Rightarrow> (string \<times> json) list" where
  "request_members q = path_members q @
     optional_member ''value'' (map_option (\<lambda>e. json_reread (element_json e)) (iq_value q)) @
     optional_member ''expected_data_version'' (map_option JUnsigned (iq_expected_data_version q)) @
     optional_member ''timed_request_timeout_ms'' (map_option JUnsigned (iq_timed_request_timeout_ms q)) @
     optional_member ''min_event_number'' (map_option JUnsigned (iq_minimum_event_number q))"

definition request_json :: "interaction_request \<Rightarrow> json" where
  "request_json q = json_object (request_members q)"

lemma optional_member_facts:
  "fst ` set (optional_member k v) = (if v = None then {} else {k})"
  "map_of (optional_member k v) = (case v of None \<Rightarrow> Map.empty | Some j \<Rightarrow> [k \<mapsto> j])"
  "map fst (optional_member k v) = (if v = None then [] else [k])"
  "length (optional_member k v) = of_bool (v \<noteq> None)"
  by (auto simp: optional_member_def split: option.splits)

lemma path_member_names:
  "map fst (path_members q) = (if single_kind (iq_kind q) then path_fields else [''paths''])"
  by (simp add: path_members_def selector_members_names)

lemma request_members_distinct: "distinct (map fst (request_members q))"
  by (simp add: request_members_def path_member_names optional_member_facts path_fields_def)

lemmas request_lookup = json_object_lookup [OF request_members_distinct, folded request_json_def]

lemma request_names:
  "fst ` set (request_members q) = set (if single_kind (iq_kind q) then path_fields else [''paths'']) \<union>
     (if iq_value q = None then {} else {''value''}) \<union>
     (if iq_expected_data_version q = None then {} else {''expected_data_version''}) \<union>
     (if iq_timed_request_timeout_ms q = None then {} else {''timed_request_timeout_ms''}) \<union>
     (if iq_minimum_event_number q = None then {} else {''min_event_number''})"
  using arg_cong [OF path_member_names [of q], of set]
  by (simp add: request_members_def optional_member_facts image_Un Un_assoc)

lemma request_contains:
  "json_contains (request_json q) ''value'' \<longleftrightarrow> iq_value q \<noteq> None"
  "json_contains (request_json q) ''expected_data_version'' \<longleftrightarrow> iq_expected_data_version q \<noteq> None"
  "json_contains (request_json q) ''timed_request_timeout_ms'' \<longleftrightarrow> iq_timed_request_timeout_ms q \<noteq> None"
  "json_contains (request_json q) ''min_event_number'' \<longleftrightarrow> iq_minimum_event_number q \<noteq> None"
  by (simp_all add: request_lookup request_names path_fields_def)

lemma path_member_absent:
  "map_of (path_members q) ''value'' = None" "map_of (path_members q) ''expected_data_version'' = None"
  "map_of (path_members q) ''timed_request_timeout_ms'' = None" "map_of (path_members q) ''min_event_number'' = None"
  by (simp_all add: path_members_def selector_members_def)

lemma request_at:
  "iq_value q = Some e \<Longrightarrow> json_at (request_json q) ''value'' = json_reread (element_json e)"
  "iq_expected_data_version q = Some n \<Longrightarrow> json_at (request_json q) ''expected_data_version'' = JUnsigned n"
  "iq_timed_request_timeout_ms q = Some n \<Longrightarrow> json_at (request_json q) ''timed_request_timeout_ms'' = JUnsigned n"
  "iq_minimum_event_number q = Some n \<Longrightarrow> json_at (request_json q) ''min_event_number'' = JUnsigned n"
  by (simp_all add: request_lookup request_members_def map_add_def optional_member_facts path_member_absent
      split: option.splits)

lemma request_path_at: "k \<in> set (map fst (path_members q)) \<Longrightarrow>
    json_at (request_json q) k = the (map_of (path_members q) k)"
  by (auto simp: request_lookup request_members_def map_add_def optional_member_facts path_member_names path_fields_def
      path_members_def selector_members_def split: option.splits if_splits)

lemma request_size:
  "json_size (request_json q) = (if single_kind (iq_kind q) then 5 else 1) + option_keys (request_json q)"
  using arg_cong [OF path_member_names [of q], of length]
  by (simp add: request_lookup(3) request_members_def option_keys_def request_contains optional_member_facts path_fields_def)

lemma optional_uint_request:
  assumes "json_contains j k \<longleftrightarrow> v \<noteq> None" and "\<And>n. v = Some n \<Longrightarrow> json_at j k = JUnsigned n"
    and "optional_ok (\<lambda>n. n \<le> maximum) v"
  shows "optional_uint j k maximum = Some v"
  using assms by (cases v) (auto simp: optional_uint_def unsigned_at_most_def optional_ok_def)

lemma request_paths_json:
  assumes "request_wire q"
  shows "interaction_paths (operation_name (iq_kind q)) (request_json q) = Some (iq_paths q)"
proof (cases "single_kind (iq_kind q)")
  case True
  then obtain p where p: "iq_paths q = [p]" using assms by (auto simp: request_wire_def length_Suc_conv)
  have wire: "selector_wire p True"
    using assms True p by (auto simp: request_wire_def request_common_def selector_wire_def single_kind_def)
  have members: "path_members q = selector_members p" using True p by (simp add: path_members_def)
  have "json_at (request_json q) k = the (map_of (selector_members p) k)" if "k \<in> set path_fields" for k
    using request_path_at [of k q] that members by (simp add: selector_members_names)
  then have "fold (\<lambda>k m. omap_put k (json_at (request_json q) k) m) path_fields [] =
      fold (\<lambda>p m. omap_put (fst p) (snd p) m) (selector_members p) []"
    by (simp add: path_fields_def selector_members_def)
  moreover have "list_all (json_contains (request_json q)) path_fields"
    using True by (simp add: list_all_iff request_lookup(2) request_names)
  ultimately show ?thesis
    using selector_value_json [of p False] wire True
    by (simp add: interaction_paths_def operation_names p json_object_def)
next
  case False
  have at: "json_at (request_json q) ''paths'' = JArray (map (\<lambda>p. json_object (selector_members p)) (iq_paths q))"
    using request_path_at [of "''paths''" q] False by (simp add: path_member_names) (simp add: path_members_def)
  have "selector_wire p (\<not> iq_kind q = ReadAttributes)" if "p \<in> set (iq_paths q)" for p
    using assms that by (auto simp: request_wire_def request_common_def selector_wire_def)
  then have "selector_values (iq_kind q = ReadAttributes) (json_elements (json_at (request_json q) ''paths'')) = Some (iq_paths q)"
    by (simp add: at selector_values_json)
  moreover have "json_contains (request_json q) ''paths''" using False by (simp add: request_lookup(2) request_names)
  ultimately show ?thesis
    using False assms at
    by (simp add: interaction_paths_def operation_names request_wire_def request_common_def)
qed

lemma request_value_json:
  assumes "request_wire q"
  shows "interaction_value (operation_name (iq_kind q)) (request_json q) = Some (iq_value q)"
proof (cases "iq_value q")
  case None
  then have "\<not> is_mutation (iq_kind q)" using assms by (auto simp: request_wire_def is_mutation_def)
  then show ?thesis using None by (simp add: interaction_value_def operation_names)
next
  case (Some e)
  then have "is_mutation (iq_kind q)" using assms by (cases "iq_kind q") (auto simp: request_wire_def is_mutation_def)
  moreover have "element_parse (json_reread (element_json e)) = Some e"
    using assms Some by (intro element_reads_back) (simp add: request_wire_def optional_ok_def)
  ultimately show ?thesis
    using Some by (simp add: interaction_value_def operation_names request_contains request_at)
qed

lemma request_wire_parses:
  assumes "request_wire q"
  shows "interaction_parameters (operation_name (iq_kind q)) (request_json q) (iq_timeout_ms q) = Some (Some q)"
proof -
  obtain p ps where paths: "iq_paths q = p # ps"
    using assms by (cases "iq_paths q") (auto simp: request_wire_def request_common_def)
  have head: "iq_fabric_id q = ps_fabric_id p" "iq_node_id q = ps_node_id p"
    using assms paths by (auto simp: request_wire_def request_common_def)
  have opts: "optional_uint (request_json q) ''expected_data_version'' 0xFFFFFFFF = Some (iq_expected_data_version q)"
      "optional_uint (request_json q) ''timed_request_timeout_ms'' 65535 = Some (iq_timed_request_timeout_ms q)"
      "optional_uint (request_json q) ''min_event_number'' u64_max = Some (iq_minimum_event_number q)"
    using assms by (auto intro!: optional_uint_request simp: request_contains request_at request_wire_def)
  have casts: "map_option u32_cast (iq_expected_data_version q) = iq_expected_data_version q"
      "map_option u16_cast (iq_timed_request_timeout_ms q) = iq_timed_request_timeout_ms q"
    using assms by (auto intro!: map_option_cast simp: request_wire_def u32_exact u16_exact)
  have timed: "iq_timed_request_timeout_ms q \<noteq> Some 0"
    using assms by (cases "iq_kind q") (auto simp: request_wire_def timed_ok_def)
  have valid: "valid_interaction_request q = Some True"
    using assms by (simp add: interaction_request_exact request_wire_def)
  have rebuilt: "\<lparr>iq_kind = iq_kind q, iq_fabric_id = ps_fabric_id p, iq_node_id = ps_node_id p, iq_paths = p # ps,
      iq_value = iq_value q, iq_expected_data_version = iq_expected_data_version q,
      iq_timed_request_timeout_ms = iq_timed_request_timeout_ms q,
      iq_minimum_event_number = iq_minimum_event_number q, iq_timeout_ms = iq_timeout_ms q\<rparr> = q"
    using head paths by simp
  show ?thesis
    using request_paths_json [OF assms] request_value_json [OF assms] timed valid request_size [of q]
      operation_names(3) [of "iq_kind q"]
    unfolding interaction_parameters_def
    by (simp add: operation_names opts casts paths rebuilt)
qed

lemma interaction_paths_sound:
  assumes "interaction_paths operation j = Some ps" and "single_operation operation \<or> paths_operation operation"
  shows "ps \<noteq> [] \<and> (single_kind (operation_kind operation) \<longrightarrow> length ps = 1) \<and> (\<forall>p \<in> set ps. ps_fabric_id p \<le> u64_max)"
proof -
  note names = operation_names(1,2) [of "operation_kind operation"] operation_names(4) [OF assms(2), symmetric]
  show ?thesis
  proof (cases "single_operation operation")
    case True
    then show ?thesis
      using assms(1) by (auto simp: interaction_paths_def selector_wire_def split: if_splits dest!: selector_value_sound)
  next
    case False
    then show ?thesis
      using assms(1) names by (auto simp: interaction_paths_def selector_wire_def split: if_splits dest!: selector_values_sound)
  qed
qed

lemma optional_uint_bound: "optional_uint j k maximum = Some v \<Longrightarrow> optional_ok (\<lambda>n. n \<le> maximum) v"
  by (auto simp: optional_uint_def unsigned_at_most_def optional_ok_def split: if_splits option.splits)

lemma interaction_value_bounded: "interaction_value operation j = Some v \<Longrightarrow> optional_ok element_bounded v"
  by (auto simp: interaction_value_def optional_ok_def split: if_splits option.splits dest: element_parse_bounded)

lemma interaction_parameters_sound:
  assumes "interaction_parameters operation j t = Some (Some q)"
  shows "request_wire q \<and> iq_timeout_ms q = t \<and> operation = operation_name (iq_kind q)"
proof -
  from assms obtain p ps expected timed minimum_event v where
      op: "single_operation operation \<or> paths_operation operation" and
      paths: "interaction_paths operation j = Some (p # ps)" and
      opts: "optional_uint j ''expected_data_version'' 0xFFFFFFFF = Some expected"
        "optional_uint j ''timed_request_timeout_ms'' 65535 = Some timed"
        "optional_uint j ''min_event_number'' u64_max = Some minimum_event"
        "interaction_value operation j = Some v" and
      q: "q = \<lparr>iq_kind = operation_kind operation, iq_fabric_id = ps_fabric_id p, iq_node_id = ps_node_id p,
        iq_paths = p # ps, iq_value = v, iq_expected_data_version = map_option u32_cast expected,
        iq_timed_request_timeout_ms = map_option u16_cast timed, iq_minimum_event_number = minimum_event,
        iq_timeout_ms = t\<rparr>" and
      valid: "valid_interaction_request q = Some True"
    by (auto simp: interaction_parameters_def Let_def split: if_splits option.splits list.splits)
  note bounds = opts(1-3) [THEN optional_uint_bound] interaction_value_bounded [OF opts(4)]
  have casts: "map_option u32_cast expected = expected" "map_option u16_cast timed = timed"
    by (rule map_option_cast [OF bounds(1)] map_option_cast [OF bounds(2)]; simp add: u32_exact u16_exact)+
  have "request_common q \<and> request_of_kind (iq_kind q) q" using valid by (simp add: interaction_request_exact)
  moreover note interaction_paths_sound [OF paths op] operation_names(4) [OF op]
  ultimately show ?thesis using bounds unfolding q casts request_wire_def by simp
qed

lemma interaction_parameters_defined: "interaction_parameters operation j t \<noteq> None"
  using interaction_paths_sound [of operation j "[]"]
  by (auto simp: interaction_parameters_def Let_def interaction_request_exact split: option.splits list.splits if_splits)

text \<open>
  C8: the parameters of an interaction are read without undefined behaviour, and exactly the admitted requests are
  read: every request whose paths, value and options fit its kind and whose numbers fit their fields is read from
  the members a client writes for it, under the name of its kind, and no other request is ever handed to the
  controller.
\<close>

theorem interaction_wire_exact:
  "interaction_parameters operation j t \<noteq> None \<and>
   ((\<exists>j. interaction_parameters operation j t = Some (Some q)) \<longleftrightarrow>
      request_wire q \<and> iq_timeout_ms q = t \<and> operation = operation_name (iq_kind q)) \<and>
   (interaction_parameters (operation_name (iq_kind q)) (request_json q) (iq_timeout_ms q) = Some (Some q) \<longleftrightarrow> request_wire q)"
  using interaction_parameters_defined interaction_parameters_sound request_wire_parses by blast

section \<open>Results on the wire\<close>

lemma path_outcome_defined: "valid_path_result q r \<Longrightarrow> \<exists>j. path_outcome r = Some j"
  by (cases "pr_error r"; cases "pr_attribute r"; cases "pr_event r")
    (simp_all add: path_outcome_def valid_path_result_def present_def split: if_splits)

lemma result_list_defined:
  assumes "list_all (valid_path_result q) rs"
  shows "\<exists>js. result_list rs = Some js"
  using assms
proof (induction rs)
  case (Cons r rs)
  then obtain j js where "path_outcome r = Some j" "result_list rs = Some js"
    using path_outcome_defined [of q r] by auto
  then show ?case by simp
qed simp

lemma read_has_attribute:
  "valid_path_result q x \<Longrightarrow> iq_kind q = ReadAttribute \<Longrightarrow> pr_error x = None \<Longrightarrow> \<exists>a. pr_attribute x = Some a"
  by (auto simp: valid_path_result_def present_def split: option.splits if_splits)

lemma valid_response_parts:
  assumes "valid_interaction_response q r" and "ir_ok r"
  shows "iq_kind q \<in> {ReadAttribute, ReadAttributes, ReadEvents} \<Longrightarrow> list_all (valid_path_result q) (ir_results r)"
    and "iq_kind q = WriteAttribute \<Longrightarrow> \<exists>p. ir_response_path r = Some p"
  using assms by (auto simp: valid_interaction_response_def split: if_splits list.splits option.splits)

lemma interaction_json_cases:
  assumes "valid_interaction_response q r" and "ir_ok r"
  shows "if iq_kind q = ReadAttribute \<and> \<not> (length (ir_results r) = 1 \<and> pr_error (hd (ir_results r)) = None)
    then interaction_json q r = Some None else \<exists>j. interaction_json q r = Some (Some j)"
proof (cases "iq_kind q")
  case ReadAttribute
  then have all: "list_all (valid_path_result q) (ir_results r)" using valid_response_parts(1) [OF assms] by simp
  show ?thesis
  proof (cases "\<exists>x. ir_results r = [x]")
    case True
    then obtain x where x: "ir_results r = [x]" by blast
    then show ?thesis
      using all read_has_attribute [of q x] assms ReadAttribute by (cases "pr_error x") (auto simp: interaction_json_def)
  next
    case False
    then have "length (ir_results r) \<noteq> 1" by (auto simp: length_Suc_conv)
    then show ?thesis using assms ReadAttribute False by (auto simp: interaction_json_def split: list.splits)
  qed
next
  case WriteAttribute
  then show ?thesis using valid_response_parts(2) [OF assms] assms by (auto simp: interaction_json_def)
next
  case InvokeCommand
  then show ?thesis using assms by (simp add: interaction_json_def)
qed (use valid_response_parts(1) [OF assms] assms result_list_defined [of q "ir_results r"] in \<open>auto simp: interaction_json_def\<close>)

lemma subscription_frame_defined: "valid_subscription_report s rp \<Longrightarrow> subscription_frame rp session sequence \<noteq> None"
  by (auto simp: valid_subscription_report_def subscription_frame_def report_body_def split: if_splits option.splits)

text \<open>
  A response becomes a result without reading an absent option, whatever the controller answers: there is a
  result exactly when the response is successful, valid for its request and, for a single read, carries exactly one
  result, which is no error.
\<close>

theorem interaction_json_defined:
  "interaction_json q r \<noteq> None \<and>
   (interaction_json q r \<noteq> Some None \<longleftrightarrow>
      ir_ok r \<and> valid_interaction_response q r \<and>
      (if iq_kind q = ReadAttribute then map pr_error (ir_results r) = [None] else True))"
proof (cases "valid_interaction_response q r \<and> ir_ok r")
  case True
  have "map pr_error (ir_results r) = [None] \<longleftrightarrow> length (ir_results r) = 1 \<and> pr_error (hd (ir_results r)) = None"
    by (cases "ir_results r") auto
  then show ?thesis using interaction_json_cases [of q r] True by (auto split: if_splits)
qed (auto simp: interaction_json_def)

end
