(* ===== verification/Matter_Channel.thy ===== *)
theory Matter_Channel
  imports Matter_Wire Wotex_Channel
begin

text \<open>
  Input and output of the Matter host: \<open>BoundedOutput\<close> and \<open>ReadLineBounded\<close> of \<open>protocol.cpp\<close> and
  \<open>BoundedInput\<close> of \<open>input.hpp\<close>.  The output has a writer thread; every critical section under its mutex is one
  step and the steps of the callers and of the writer interleave freely.  The answers of the stream and of the
  descriptor are inputs of the steps.
\<close>

section \<open>Output\<close>

datatype output_class = ClassReport | ClassControl | ClassReply

type_synonym pending_output = "string \<times> output_class"

text \<open>
  \<open>bo_frames\<close> and \<open>bo_bytes\<close> are the three pairs of counters; \<open>bo_writing\<close> is the local variable of the writer
  while it is outside the mutex, \<open>bo_ended\<close> says that it has returned, and \<open>bo_failures\<close> counts the calls of the
  failure callback.
\<close>

record bounded_output =
  bo_pending :: "pending_output list"
  bo_frames :: "output_class \<Rightarrow> nat"
  bo_bytes :: "output_class \<Rightarrow> nat"
  bo_healthy :: bool
  bo_stopping :: bool
  bo_writing :: "pending_output option"
  bo_ended :: bool
  bo_failures :: nat

definition bounded_init :: bounded_output where
  "bounded_init = \<lparr>bo_pending = [], bo_frames = (\<lambda>_. 0), bo_bytes = (\<lambda>_. 0), bo_healthy = True, bo_stopping = False,
     bo_writing = None, bo_ended = False, bo_failures = 0\<rparr>"

definition output_fail :: "bounded_output \<Rightarrow> bounded_output" where
  "output_fail s =
     (if \<not> bo_healthy s then s
      else s\<lparr>bo_healthy := False, bo_stopping := True, bo_pending := [], bo_failures := bo_failures s + 1\<rparr>)"

definition output_enqueue ::
  "string \<Rightarrow> output_class \<Rightarrow> nat \<Rightarrow> nat \<Rightarrow> nat \<Rightarrow> bounded_output \<Rightarrow> bool \<times> bounded_output" where
  "output_enqueue frame c maximum_frames maximum_bytes maximum_frame s =
     (if \<not> bo_healthy s \<or> bo_stopping s then (False, s)
      else if frame = [] \<or> length frame \<ge> maximum_frame then (False, output_fail s)
      else let bytes = length frame + 1
           in if bo_frames s c \<ge> maximum_frames \<or> bo_bytes s c > maximum_bytes \<or> bytes > maximum_bytes - bo_bytes s c
              then (False, output_fail s)
              else (True, s\<lparr>bo_frames := (bo_frames s)(c := bo_frames s c + 1),
                            bo_bytes := (bo_bytes s)(c := bo_bytes s c + bytes),
                            bo_pending := bo_pending s @ [(frame, c)]\<rparr>))"

definition enqueue_report :: "string \<Rightarrow> bounded_output \<Rightarrow> bool \<times> bounded_output" where
  "enqueue_report frame = output_enqueue frame ClassReport 64 1048576 maximum_frame_bytes"

definition enqueue_control :: "string \<Rightarrow> bounded_output \<Rightarrow> bool \<times> bounded_output" where
  "enqueue_control frame = output_enqueue frame ClassControl 256 (256 * 4096) 4096"

definition enqueue_reply :: "string \<Rightarrow> bounded_output \<Rightarrow> bool \<times> bounded_output" where
  "enqueue_reply frame = output_enqueue frame ClassReply 64 (64 * maximum_frame_bytes) maximum_frame_bytes"

text \<open>\<open>Stop\<close> before it joins the writer.\<close>

definition output_stop :: "bounded_output \<Rightarrow> bounded_output" where
  "output_stop s = s\<lparr>bo_stopping := True\<rparr>"

text \<open>
  The writer: one critical section that takes a frame or ends, and one after the write.  A writer that finds
  nothing to do waits.
\<close>

definition writer_take :: "bounded_output \<Rightarrow> bounded_output" where
  "writer_take s =
     (if bo_ended s \<or> bo_writing s \<noteq> None then s
      else case bo_pending s of
             [] \<Rightarrow> if bo_stopping s then s\<lparr>bo_ended := True\<rparr> else s
           | p # ps \<Rightarrow> s\<lparr>bo_pending := ps, bo_writing := Some p\<rparr>)"

definition writer_written :: "bool \<Rightarrow> bounded_output \<Rightarrow> bounded_output" where
  "writer_written written s =
     (case bo_writing s of
        None \<Rightarrow> s
      | Some (frame, c) \<Rightarrow>
          (let s1 = s\<lparr>bo_frames := (bo_frames s)(c := sub64 (bo_frames s c) 1),
                      bo_bytes := (bo_bytes s)(c := sub64 (bo_bytes s c) (length frame + 1)),
                      bo_writing := None\<rparr>
           in if written then s1 else (output_fail s1)\<lparr>bo_ended := True\<rparr>))"

section \<open>Order, bounds and failure of the output\<close>

datatype output_action =
    PutReport string | PutControl string | PutReply string | StopOutput | WriterTake | WriterWritten bool

text \<open>A step with the frames that were accepted and written so far.\<close>

type_synonym output_log = "string list \<times> string list \<times> bounded_output"

definition put_log :: "string \<Rightarrow> bool \<times> bounded_output \<Rightarrow> output_log \<Rightarrow> output_log" where
  "put_log frame r l = (case (r, l) of ((ok, s), (acc, wr, _)) \<Rightarrow> (if ok then acc @ [frame] else acc, wr, s))"

fun output_act :: "output_action \<Rightarrow> output_log \<Rightarrow> output_log" where
  "output_act (PutReport f) (acc, wr, s) = put_log f (enqueue_report f s) (acc, wr, s)"
| "output_act (PutControl f) (acc, wr, s) = put_log f (enqueue_control f s) (acc, wr, s)"
| "output_act (PutReply f) (acc, wr, s) = put_log f (enqueue_reply f s) (acc, wr, s)"
| "output_act StopOutput (acc, wr, s) = (acc, wr, output_stop s)"
| "output_act WriterTake (acc, wr, s) = (acc, wr, writer_take s)"
| "output_act (WriterWritten ok) (acc, wr, s) =
     (acc, (case bo_writing s of Some p \<Rightarrow> if ok then wr @ [fst p] else wr | None \<Rightarrow> wr), writer_written ok s)"

definition output_open :: "bounded_output \<Rightarrow> pending_output list" where
  "output_open s = (case bo_writing s of None \<Rightarrow> [] | Some p \<Rightarrow> [p]) @ bo_pending s"

definition of_class :: "output_class \<Rightarrow> pending_output list \<Rightarrow> pending_output list" where
  "of_class c ps = filter (\<lambda>p. snd p = c) ps"

abbreviation pending_bytes :: "pending_output list \<Rightarrow> nat" where
  "pending_bytes ps \<equiv> sum_list (map (\<lambda>p. length (fst p) + 1) ps)"

fun class_frames :: "output_class \<Rightarrow> nat" where
  "class_frames ClassReport = 64"
| "class_frames ClassControl = 256"
| "class_frames ClassReply = 64"

fun class_bytes :: "output_class \<Rightarrow> nat" where
  "class_bytes ClassReport = 1048576"
| "class_bytes ClassControl = 1048576"
| "class_bytes ClassReply = 8388608"

text \<open>
  The counters cover what is pending or being written, exactly while the output is healthy; a failed output has
  nothing pending and keeps its counters.
\<close>

definition output_counted :: "bounded_output \<Rightarrow> bool" where
  "output_counted s \<longleftrightarrow> (\<forall>c.
     length (of_class c (output_open s)) \<le> bo_frames s c \<and> bo_frames s c \<le> class_frames c \<and>
     pending_bytes (of_class c (output_open s)) \<le> bo_bytes s c \<and> bo_bytes s c \<le> class_bytes c \<and>
     (bo_healthy s \<longrightarrow> length (of_class c (output_open s)) = bo_frames s c \<and>
        pending_bytes (of_class c (output_open s)) = bo_bytes s c))"

definition bounded_inv :: "output_log \<Rightarrow> bool" where
  "bounded_inv l \<longleftrightarrow> (case l of (acc, wr, s) \<Rightarrow>
     output_counted s \<and>
     (bo_healthy s \<longrightarrow> acc = wr @ map fst (output_open s) \<and> bo_failures s = 0) \<and>
     (\<not> bo_healthy s \<longrightarrow> bo_stopping s \<and> bo_pending s = [] \<and> bo_failures s = 1 \<and>
        prefix (wr @ map fst (output_open s)) acc) \<and>
     (bo_ended s \<longrightarrow> bo_writing s = None \<and> bo_pending s = [] \<and> bo_stopping s))"

lemma bounded_init_inv: "bounded_inv ([], [], bounded_init)"
  by (simp add: bounded_inv_def bounded_init_def output_counted_def output_open_def of_class_def)

lemma output_fail_inv:
  assumes "bounded_inv (acc, wr, s)"
  shows "bounded_inv (acc, wr, output_fail s)"
proof (cases "bo_healthy s")
  case True
  have cut: "output_open (output_fail s) = (case bo_writing s of None \<Rightarrow> [] | Some p \<Rightarrow> [p])"
    using True by (simp add: output_fail_def output_open_def)
  have split: "output_open s = (case bo_writing s of None \<Rightarrow> [] | Some p \<Rightarrow> [p]) @ bo_pending s" by (simp add: output_open_def)
  show ?thesis
    using assms True unfolding bounded_inv_def output_counted_def prod.case cut split of_class_def
    by (auto simp: output_fail_def intro: order.trans [OF le_add1])
qed (use assms in \<open>simp add: output_fail_def\<close>)

lemma output_enqueue_inv:
  assumes inv: "bounded_inv (acc, wr, s)" and max: "maximum_frames = class_frames c" "maximum_bytes = class_bytes c"
  shows "bounded_inv (put_log frame (output_enqueue frame c maximum_frames maximum_bytes maximum_frame s) (acc, wr, s))"
proof (cases "bo_healthy s \<and> \<not> bo_stopping s \<and> \<not> (frame = [] \<or> length frame \<ge> maximum_frame) \<and>
    \<not> (bo_frames s c \<ge> maximum_frames \<or> bo_bytes s c > maximum_bytes \<or> length frame + 1 > maximum_bytes - bo_bytes s c)")
  case True
  let ?s = "s\<lparr>bo_frames := (bo_frames s)(c := bo_frames s c + 1), bo_bytes := (bo_bytes s)(c := bo_bytes s c + (length frame + 1)),
    bo_pending := bo_pending s @ [(frame, c)]\<rparr>"
  have run: "output_enqueue frame c maximum_frames maximum_bytes maximum_frame s = (True, ?s)"
    using True unfolding output_enqueue_def Let_def by (simp del: One_nat_def add_Suc_right)
  have more: "output_open ?s = output_open s @ [(frame, c)]" by (simp add: output_open_def)
  show ?thesis
    using inv True unfolding run put_log_def prod.case if_True bounded_inv_def output_counted_def more of_class_def
    by (auto simp: max)
next
  case False
  then have "output_enqueue frame c maximum_frames maximum_bytes maximum_frame s \<in> {(False, s), (False, output_fail s)}"
    unfolding output_enqueue_def Let_def by auto
  then show ?thesis using inv output_fail_inv [OF inv] by (auto simp: put_log_def)
qed

lemma writer_take_keeps:
  "output_open (writer_take s) = output_open s" "bo_frames (writer_take s) = bo_frames s"
  "bo_bytes (writer_take s) = bo_bytes s" "bo_healthy (writer_take s) = bo_healthy s"
  "bo_stopping (writer_take s) = bo_stopping s" "bo_failures (writer_take s) = bo_failures s"
  "bo_pending s = [] \<Longrightarrow> bo_pending (writer_take s) = []"
  "bo_ended (writer_take s) \<Longrightarrow> bo_ended s \<and> writer_take s = s \<or>
     bo_stopping s \<and> bo_writing (writer_take s) = None \<and> bo_pending (writer_take s) = []"
  by (cases "bo_pending s"; cases "bo_writing s"; simp add: writer_take_def output_open_def split: if_splits)+

lemma writer_take_inv: "bounded_inv (acc, wr, s) \<Longrightarrow> bounded_inv (acc, wr, writer_take s)"
  using writer_take_keeps(8) [of s]
  by (auto simp: bounded_inv_def output_counted_def writer_take_keeps(1-7))

lemma output_stop_inv: "bounded_inv (acc, wr, s) \<Longrightarrow> bounded_inv (acc, wr, output_stop s)"
  by (auto simp: output_stop_def bounded_inv_def output_counted_def output_open_def)

lemma writer_release:
  assumes inv: "bounded_inv (acc, wr, s)" and w: "bo_writing s = Some (frame, c)"
  defines "s1 \<equiv> s\<lparr>bo_frames := (bo_frames s)(c := sub64 (bo_frames s c) 1),
    bo_bytes := (bo_bytes s)(c := sub64 (bo_bytes s c) (length frame + 1)), bo_writing := None\<rparr>"
  shows "output_counted s1" and "output_open s1 = bo_pending s" and "output_open s = (frame, c) # bo_pending s"
proof -
  show split: "output_open s = (frame, c) # bo_pending s" by (simp add: output_open_def w)
  show open1: "output_open s1 = bo_pending s" by (simp add: output_open_def s1_def)
  have counted: "output_counted s" using inv by (simp add: bounded_inv_def)
  then have c: "1 \<le> bo_frames s c" "bo_frames s c \<le> class_frames c" "length frame + 1 \<le> bo_bytes s c" "bo_bytes s c \<le> class_bytes c"
    unfolding output_counted_def split of_class_def by (auto dest: spec [of _ c])
  have max: "class_frames c \<le> u64_max" "class_bytes c \<le> u64_max" by (cases c; simp add: u64_max_def)+
  have sub: "sub64 (bo_frames s c) 1 = bo_frames s c - 1"
      "sub64 (bo_bytes s c) (length frame + 1) = bo_bytes s c - (length frame + 1)"
    using c max by (auto intro!: sub64_exact)
  have new: "bo_frames s1 = (bo_frames s)(c := bo_frames s c - 1)"
      "bo_bytes s1 = (bo_bytes s)(c := bo_bytes s c - (length frame + 1))" "bo_healthy s1 = bo_healthy s"
    using sub by (simp_all add: s1_def)
  show "output_counted s1"
    unfolding output_counted_def open1
  proof
    fix d
    note old = counted [unfolded output_counted_def split, THEN spec [of _ d]]
    show "length (of_class d (bo_pending s)) \<le> bo_frames s1 d \<and> bo_frames s1 d \<le> class_frames d \<and>
        pending_bytes (of_class d (bo_pending s)) \<le> bo_bytes s1 d \<and> bo_bytes s1 d \<le> class_bytes d \<and>
        (bo_healthy s1 \<longrightarrow> length (of_class d (bo_pending s)) = bo_frames s1 d \<and>
           pending_bytes (of_class d (bo_pending s)) = bo_bytes s1 d)"
      using old by (cases "d = c") (auto simp: new of_class_def)
  qed
qed

lemma writer_written_inv:
  assumes inv: "bounded_inv (acc, wr, s)" and w: "bo_writing s = Some (frame, c)"
  shows "bounded_inv (acc, if written then wr @ [frame] else wr, writer_written written s)"
proof -
  define s1 where "s1 = s\<lparr>bo_frames := (bo_frames s)(c := sub64 (bo_frames s c) 1),
    bo_bytes := (bo_bytes s)(c := sub64 (bo_bytes s c) (length frame + 1)), bo_writing := None\<rparr>"
  note release = writer_release [OF inv w, folded s1_def]
  have run: "writer_written written s = (if written then s1 else (output_fail s1)\<lparr>bo_ended := True\<rparr>)"
    by (simp add: writer_written_def w s1_def)
  have same: "bo_healthy s1 = bo_healthy s" "bo_stopping s1 = bo_stopping s" "bo_pending s1 = bo_pending s"
      "bo_failures s1 = bo_failures s" "bo_ended s1 = bo_ended s" "bo_writing s1 = None"
    by (simp_all add: s1_def)
  have acc: "prefix (wr @ frame # map fst (bo_pending s)) acc"
    using inv by (cases "bo_healthy s") (auto simp: bounded_inv_def release)
  have pre: "prefix wr acc" using acc by (meson prefix_def append_prefixD)
  show ?thesis
  proof (cases written)
    case True
    then show ?thesis using inv release(1) unfolding run by (auto simp: bounded_inv_def release(2,3) same w)
  next
    case False
    have shape: "bo_writing (output_fail s1) = None" "bo_pending (output_fail s1) = []" "\<not> bo_healthy (output_fail s1)"
        "bo_stopping (output_fail s1)" "bo_failures (output_fail s1) = 1"
      using inv by (cases "bo_healthy s"; auto simp: output_fail_def same bounded_inv_def)+
    have "output_counted ((output_fail s1)\<lparr>bo_ended := True\<rparr>)"
      using release(1) shape by (auto simp: output_counted_def output_fail_def output_open_def of_class_def)
    then show ?thesis
      using False shape pre unfolding run by (simp add: bounded_inv_def output_open_def)
  qed
qed

lemma output_act_inv: "bounded_inv l \<Longrightarrow> bounded_inv (output_act a l)"
proof (cases l)
  case (fields acc wr s)
  assume "bounded_inv l"
  then have inv: "bounded_inv (acc, wr, s)" by (simp add: fields)
  show ?thesis
  proof (cases a)
    case (WriterWritten ok)
    show ?thesis
    proof (cases "bo_writing s")
      case None
      then show ?thesis using inv WriterWritten by (simp add: fields writer_written_def)
    next
      case (Some p)
      then show ?thesis using writer_written_inv [OF inv, of "fst p" "snd p" ok] WriterWritten by (simp add: fields)
    qed
  qed (use inv in \<open>simp_all add: fields enqueue_report_def enqueue_control_def enqueue_reply_def maximum_frame_bytes_def
    output_enqueue_inv output_stop_inv writer_take_inv\<close>)
qed

interpretation matter_output: action_machine output_act bounded_inv "\<lambda>_. True"
  by unfold_locales (rule output_act_inv)


section \<open>Input\<close>

text \<open>
  \<open>bi_buffer\<close> is the part of the read buffer between \<open>offset_\<close> and \<open>size_\<close>.  What \<open>poll\<close> and \<open>read\<close> answer is an
  input; a read returns between one and 4096 bytes, or nothing at the end.
\<close>

datatype input_result = InputLine string | InputWaiting | InputEnd | InputInvalid
datatype input_answer = PollQuiet | PollFailed | ReadBytes string | ReadAgain | ReadFailed

record bounded_input =
  bi_valid :: bool
  bi_buffer :: string
  bi_partial :: string

definition input_init :: "bool \<Rightarrow> bounded_input" where
  "input_init valid = \<lparr>bi_valid = valid, bi_buffer = [], bi_partial = []\<rparr>"

text \<open>The inner loop: the result, if it returns, and the state.\<close>

fun input_scan :: "string \<Rightarrow> bounded_input \<Rightarrow> input_result option \<times> bounded_input" where
  "input_scan [] s = (None, s\<lparr>bi_buffer := []\<rparr>)"
| "input_scan (c # cs) s =
     (if c = CHR 0x0A then (Some (InputLine (bi_partial s)), s\<lparr>bi_buffer := cs, bi_partial := []\<rparr>)
      else if length (bi_partial s) \<ge> maximum_frame_bytes - 1
      then (Some InputInvalid, s\<lparr>bi_buffer := cs, bi_valid := False\<rparr>)
      else input_scan cs (s\<lparr>bi_partial := bi_partial s @ [c]\<rparr>))"

definition input_next :: "input_answer \<Rightarrow> bounded_input \<Rightarrow> input_result \<times> bounded_input" where
  "input_next answer s =
     (if \<not> bi_valid s then (InputInvalid, s)
      else case input_scan (bi_buffer s) s of
             (Some r, s') \<Rightarrow> (r, s')
           | (None, s') \<Rightarrow>
               (case answer of
                  PollQuiet \<Rightarrow> (InputWaiting, s')
                | PollFailed \<Rightarrow> (InputInvalid, s')
                | ReadAgain \<Rightarrow> (InputWaiting, s')
                | ReadFailed \<Rightarrow> (InputInvalid, s')
                | ReadBytes bytes \<Rightarrow>
                    (if bytes = [] then (if bi_partial s' = [] then InputEnd else InputInvalid, s')
                     else case input_scan bytes s' of
                            (Some r, s'') \<Rightarrow> (r, s'')
                          | (None, s'') \<Rightarrow> (InputWaiting, s''))))"

text \<open>\<open>ReadLineBounded\<close>: whether it succeeds, the line, and the rest of the stream.\<close>

fun read_line_loop :: "string \<Rightarrow> string \<Rightarrow> bool \<times> string \<times> string" where
  "read_line_loop line [] = (line = [], line, [])"
| "read_line_loop line (c # cs) =
     (if c = CHR 0x0A then (True, line, cs)
      else if length line \<ge> maximum_frame_bytes - 1 then (False, line, cs)
      else read_line_loop (line @ [c]) cs)"

definition read_line_bounded :: "string \<Rightarrow> bool \<times> string \<times> string" where
  "read_line_bounded stream = read_line_loop [] stream"

definition input_ok :: "bounded_input \<Rightarrow> bool" where
  "input_ok s \<longleftrightarrow> length (bi_partial s) < maximum_frame_bytes \<and> CHR 0x0A \<notin> set (bi_partial s)"

text \<open>What a result stands for in the stream of bytes.\<close>

fun result_bytes :: "input_result \<Rightarrow> string" where
  "result_bytes (InputLine l) = l @ [CHR 0x0A]"
| "result_bytes _ = []"

fun result_ok :: "input_result \<Rightarrow> bool" where
  "result_ok (InputLine l) \<longleftrightarrow> length l < 131072 \<and> CHR 0x0A \<notin> set l"
| "result_ok _ = True"

lemma input_scan_exact:
  assumes "input_ok s" and "bi_valid s" and "input_scan cs s = (r, s')"
  shows "input_ok s' \<and> bi_valid s' = (r \<noteq> Some InputInvalid) \<and>
    (case r of None \<Rightarrow> bi_buffer s' = [] | Some x \<Rightarrow> x \<in> range InputLine \<union> {InputInvalid} \<and> result_ok x) \<and>
    (bi_valid s' \<longrightarrow>
       bi_partial s @ cs = (case r of None \<Rightarrow> [] | Some x \<Rightarrow> result_bytes x) @ bi_partial s' @ bi_buffer s')"
  using assms
proof (induction cs arbitrary: s)
  case (Cons c cs)
  show ?case
  proof (cases "c = CHR 0x0A \<or> length (bi_partial s) \<ge> maximum_frame_bytes - 1")
    case True
    then show ?thesis using Cons.prems by (auto simp: input_ok_def maximum_frame_bytes_def split: if_splits)
  next
    case False
    then have "input_scan cs (s\<lparr>bi_partial := bi_partial s @ [c]\<rparr>) = (r, s')"
        "input_ok (s\<lparr>bi_partial := bi_partial s @ [c]\<rparr>)"
      using Cons.prems by (auto simp: input_ok_def maximum_frame_bytes_def)
    then show ?thesis using Cons.IH [of "s\<lparr>bi_partial := bi_partial s @ [c]\<rparr>"] Cons.prems by simp
  qed
qed (auto simp: input_ok_def)

text \<open>The bytes taken from the descriptor by one call: none unless the buffer held no whole line.\<close>

definition input_taken :: "input_answer \<Rightarrow> bounded_input \<Rightarrow> string" where
  "input_taken answer s =
     (if bi_valid s \<and> fst (input_scan (bi_buffer s) s) = None
      then (case answer of ReadBytes bytes \<Rightarrow> bytes | _ \<Rightarrow> []) else [])"

lemma input_next_exact:
  assumes ok: "input_ok s" and nxt: "input_next answer s = (r, s')"
  shows "input_ok s' \<and> result_ok r \<and> (bi_valid s' \<longrightarrow> bi_valid s) \<and>
    (bi_valid s' \<longrightarrow> bi_partial s @ bi_buffer s @ input_taken answer s = result_bytes r @ bi_partial s' @ bi_buffer s')"
proof (cases "bi_valid s")
  case True
  obtain x s1 where scan: "input_scan (bi_buffer s) s = (x, s1)" by (cases "input_scan (bi_buffer s) s")
  note first = input_scan_exact [OF ok True scan]
  show ?thesis
  proof (cases x)
    case (Some y)
    then show ?thesis using nxt first scan True by (auto simp: input_next_def input_taken_def)
  next
    case None
    then have valid: "bi_valid s1" "input_ok s1" "bi_buffer s1 = []" "bi_partial s1 = bi_partial s @ bi_buffer s"
      using first by auto
    show ?thesis
    proof (cases "\<exists>bytes. answer = ReadBytes bytes \<and> bytes \<noteq> []")
      case True
      then obtain bytes where bytes: "answer = ReadBytes bytes" "bytes \<noteq> []" by blast
      obtain y s2 where second: "input_scan bytes s1 = (y, s2)" by (cases "input_scan bytes s1")
      have "r = (case y of Some r \<Rightarrow> r | None \<Rightarrow> InputWaiting) \<and> s' = s2"
        using nxt \<open>bi_valid s\<close> scan None bytes second by (auto simp: input_next_def split: option.splits)
      then show ?thesis
        using input_scan_exact [OF valid(2,1) second] valid \<open>bi_valid s\<close> scan None bytes
        by (cases y) (auto simp: input_taken_def)
    next
      case False
      then show ?thesis
        using nxt \<open>bi_valid s\<close> scan None valid
        by (auto simp: input_next_def input_taken_def split: input_answer.splits if_splits)
    qed
  qed
qed (use assms in \<open>auto simp: input_next_def\<close>)

fun input_run :: "input_answer list \<Rightarrow> bounded_input \<Rightarrow> input_result list \<times> string \<times> bounded_input" where
  "input_run [] s = ([], [], s)"
| "input_run (a # as) s =
     (let (r, s1) = input_next a s; (rs, taken, s2) = input_run as s1 in (r # rs, input_taken a s @ taken, s2))"

lemma input_run_exact:
  assumes "input_ok s" and "input_run as s = (rs, taken, s')"
  shows "input_ok s' \<and> list_all result_ok rs \<and> (bi_valid s' \<longrightarrow> bi_valid s) \<and>
    (bi_valid s' \<longrightarrow> bi_partial s @ bi_buffer s @ taken = concat (map result_bytes rs) @ bi_partial s' @ bi_buffer s')"
  using assms
proof (induction as arbitrary: s rs taken)
  case (Cons a as)
  obtain r s1 where one: "input_next a s = (r, s1)" by (cases "input_next a s")
  obtain rs' taken' s2 where rest: "input_run as s1 = (rs', taken', s2)" by (cases "input_run as s1")
  have eq: "rs = r # rs'" "taken = input_taken a s @ taken'" "s2 = s'" using Cons.prems(2) one rest by auto
  note step = input_next_exact [OF Cons.prems(1) one]
  have ih: "input_ok s' \<and> list_all result_ok rs' \<and> (bi_valid s' \<longrightarrow> bi_valid s1) \<and>
      (bi_valid s' \<longrightarrow> bi_partial s1 @ bi_buffer s1 @ taken' = concat (map result_bytes rs') @ bi_partial s' @ bi_buffer s')"
    using Cons.IH [of s1 rs' taken'] step rest eq by auto
  have "bi_partial s @ bi_buffer s @ taken = concat (map result_bytes rs) @ bi_partial s' @ bi_buffer s'" if "bi_valid s'"
  proof -
    have "bi_partial s @ bi_buffer s @ taken = (bi_partial s @ bi_buffer s @ input_taken a s) @ taken'" by (simp add: eq)
    also have "\<dots> = result_bytes r @ bi_partial s1 @ bi_buffer s1 @ taken'" using step ih that by simp
    also have "\<dots> = concat (map result_bytes rs) @ bi_partial s' @ bi_buffer s'" using ih that by (simp add: eq)
    finally show ?thesis .
  qed
  then show ?case using step ih by (simp add: eq)
qed simp

text \<open>
  However the descriptor cuts the input and whatever it answers, the lines handed out so far, each closed by its
  newline, and the part of a line that is kept are exactly the bytes taken from the descriptor, and every line is
  one line of fewer than 131072 bytes: nothing is lost, repeated or joined.
\<close>

theorem input_lines_lossless:
  assumes "input_run as (input_init valid) = (rs, taken, s)" and "bi_valid s"
  shows "taken = concat (map result_bytes rs) @ bi_partial s @ bi_buffer s \<and> list_all result_ok rs"
  using input_run_exact [OF _ assms(1)] assms(2) by (simp add: input_ok_def input_init_def maximum_frame_bytes_def)

lemma read_line_loop_exact:
  "read_line_loop line cs = (True, l, rest) \<Longrightarrow>
   line @ cs = l @ CHR 0x0A # rest \<or> (line @ cs = [] \<and> l = [] \<and> rest = [])"
  by (induction line cs rule: read_line_loop.induct) (auto split: if_splits)

text \<open>A line that is read from a stream is followed by its newline there; at the end the line is empty.\<close>

lemma read_line_exact:
  "read_line_bounded stream = (True, l, rest) \<Longrightarrow> stream = l @ CHR 0x0A # rest \<or> (stream = [] \<and> l = [] \<and> rest = [])"
  using read_line_loop_exact [of "[]" stream l rest] by (simp add: read_line_bounded_def)

end
