(* ===== verification/Matter_Credit.thy ===== *)
theory Matter_Credit
  imports Matter_Subscription
begin

text \<open>
  Report credits of the Matter host (\<open>ReportCreditManager\<close> in \<open>subscription.hpp\<close> and \<open>subscription.cpp\<close>).  The
  transmit function is the caller's, with an effect on the caller's state (\<open>cm_world\<close>); an encoder is a function
  from the assigned sequence number to the frame.  The streams are a map from the text of \<open>Key\<close>; the source
  looks up and counts, so the order of its hash map does not matter.
\<close>

section \<open>Model\<close>

definition session_report_credit :: nat where "session_report_credit = 64"
definition session_byte_credit :: nat where "session_byte_credit = 1048576"
definition stream_report_credit :: nat where "stream_report_credit = 16"
definition maximum_queued_reports :: nat where "maximum_queued_reports = 64"
definition maximum_queued_bytes :: nat where "maximum_queued_bytes = 1048576"

lemmas credit_limits = session_report_credit_def session_byte_credit_def stream_report_credit_def
  maximum_queued_reports_def maximum_queued_bytes_def u64_max_def

datatype submit_result = SubmitTransmitted | SubmitQueued | SubmitOverflow | SubmitInvalid

type_synonym report_encoder = "u64 \<Rightarrow> string"
type_synonym 'w transmitter = "'w \<Rightarrow> string \<Rightarrow> bool \<times> 'w"

record matter_stream =
  ms_generation :: u64
  ms_queue_limit :: nat
  ms_outstanding :: nat
  ms_queued :: nat
  ms_last_transmitted :: u64
  ms_live :: bool

record credit_frame =
  cf_subscription :: string
  cf_generation :: u64
  cf_sequence :: u64
  cf_encoded :: string
  cf_encode :: report_encoder
  cf_cumulative :: u64

record 'w credit_manager =
  cm_session :: string
  cm_streams :: "(string \<times> matter_stream) list"
  cm_queued :: "credit_frame list"
  cm_outstanding :: "credit_frame list"
  cm_next :: u64
  cm_cumulative :: u64
  cm_ack_sequence :: u64
  cm_ack_bytes :: u64
  cm_queued_bytes :: nat
  cm_outstanding_bytes :: nat
  cm_world :: 'w

definition credit_manager_init :: "string \<Rightarrow> 'w \<Rightarrow> 'w credit_manager" where
  "credit_manager_init session w =
     \<lparr>cm_session = session, cm_streams = [], cm_queued = [], cm_outstanding = [], cm_next = 1, cm_cumulative = 0,
      cm_ack_sequence = 0, cm_ack_bytes = 0, cm_queued_bytes = 0, cm_outstanding_bytes = 0, cm_world = w\<rparr>"

definition next_report_byte_count :: "u64 \<Rightarrow> nat \<Rightarrow> u64 option" where
  "next_report_byte_count current encoded_bytes =
     (if encoded_bytes > u64_max - current then None else Some (add64 current encoded_bytes))"

record credit_snapshot =
  mc_frames :: nat
  mc_frame_credit :: nat
  mc_byte_credit :: nat
  mc_queued_bytes :: nat

definition credit_snapshot_of :: "'w credit_manager \<Rightarrow> credit_snapshot" where
  "credit_snapshot_of s =
     \<lparr>mc_frames = length (cm_queued s), mc_frame_credit = sub64 session_report_credit (length (cm_outstanding s)),
      mc_byte_credit = sub64 session_byte_credit (cm_outstanding_bytes s), mc_queued_bytes = cm_queued_bytes s\<rparr>"

definition credit_key :: "string \<Rightarrow> u64 \<Rightarrow> string" where
  "credit_key subscription generation = subscription @ '':'' @ to_decimal generation"

definition frame_key :: "credit_frame \<Rightarrow> string" where
  "frame_key f = credit_key (cf_subscription f) (cf_generation f)"

definition matter_live_count :: "(string \<times> matter_stream) list \<Rightarrow> nat" where
  "matter_live_count m = length (filter (\<lambda>e. ms_live (snd e)) m)"

definition credit_add_stream :: "string \<Rightarrow> u64 \<Rightarrow> nat \<Rightarrow> 'w credit_manager \<Rightarrow> bool \<times> 'w credit_manager" where
  "credit_add_stream subscription generation queue_limit s =
     (let key = credit_key subscription generation
      in if subscription = [] \<or> generation = 0 \<or> queue_limit = 0 \<or> queue_limit > 10000 \<or>
            matter_live_count (cm_streams s) \<ge> 64 \<or> length (cm_streams s) \<ge> 128 \<or> omap_has key (cm_streams s)
         then (False, s)
         else (True, s\<lparr>cm_streams := omap_put key
                         \<lparr>ms_generation = generation, ms_queue_limit = queue_limit, ms_outstanding = 0, ms_queued = 0,
                          ms_last_transmitted = 0, ms_live = True\<rparr> (cm_streams s)\<rparr>))"

definition can_transmit :: "matter_stream \<Rightarrow> nat \<Rightarrow> 'w credit_manager \<Rightarrow> bool" where
  "can_transmit st bytes s \<longleftrightarrow>
     length (cm_outstanding s) < session_report_credit \<and> cm_outstanding_bytes s \<le> session_byte_credit \<and>
     bytes \<le> session_byte_credit - cm_outstanding_bytes s \<and>
     ms_outstanding st < min stream_report_credit (ms_queue_limit st)"

definition transmit_frame :: "'w transmitter \<Rightarrow> credit_frame \<Rightarrow> 'w credit_manager \<Rightarrow> bool \<times> 'w credit_manager" where
  "transmit_frame transmit f s =
     (case map_of (cm_streams s) (frame_key f) of
        None \<Rightarrow> (False, s)
      | Some st \<Rightarrow>
          (if \<not> ms_live st \<or> cm_next s = u64_max then (False, s)
           else let encoded = cf_encode f (cm_next s)
           in if encoded = [] \<or> length encoded \<ge> session_byte_credit then (False, s)
              else case next_report_byte_count (cm_cumulative s) (length encoded + 1) of
                     None \<Rightarrow> (False, s)
                   | Some cumulative \<Rightarrow>
                       (let (ok, w) = transmit (cm_world s) encoded; s1 = s\<lparr>cm_world := w\<rparr>
                        in if \<not> ok then (False, s1)
                           else (True, s1\<lparr>cm_next := add64 (cm_next s1) 1, cm_cumulative := cumulative,
                                  cm_outstanding_bytes := add64 (cm_outstanding_bytes s1) (length encoded + 1),
                                  cm_streams := omap_put (frame_key f)
                                    (st\<lparr>ms_outstanding := add64 (ms_outstanding st) 1,
                                        ms_last_transmitted := cm_next s1\<rparr>) (cm_streams s1),
                                  cm_outstanding := cm_outstanding s1 @
                                    [f\<lparr>cf_sequence := cm_next s1, cf_encoded := encoded, cf_cumulative := cumulative\<rparr>]\<rparr>))))"

text \<open>The second half of \<open>Submit\<close>: the queue.\<close>

definition enqueue_frame :: "credit_frame \<Rightarrow> matter_stream \<Rightarrow> 'w credit_manager \<Rightarrow> submit_result \<times> 'w credit_manager" where
  "enqueue_frame f st s =
     (let f = f\<lparr>cf_sequence := 0, cf_encoded := cf_encode f u64_max\<rparr>;
          bytes = length (cf_encoded f) + 1
      in if length (cm_queued s) \<ge> maximum_queued_reports \<or> cm_queued_bytes s > maximum_queued_bytes \<or>
            bytes > maximum_queued_bytes - cm_queued_bytes s \<or> ms_queued st \<ge> ms_queue_limit st
         then (SubmitOverflow, s)
         else (SubmitQueued, s\<lparr>cm_queued_bytes := add64 (cm_queued_bytes s) bytes,
                 cm_streams := omap_put (frame_key f) (st\<lparr>ms_queued := add64 (ms_queued st) 1\<rparr>) (cm_streams s),
                 cm_queued := cm_queued s @ [f]\<rparr>))"

definition credit_submit ::
  "'w transmitter \<Rightarrow> string \<Rightarrow> u64 \<Rightarrow> report_encoder \<Rightarrow> 'w credit_manager \<Rightarrow> submit_result \<times> 'w credit_manager" where
  "credit_submit transmit subscription generation encode s =
     (case map_of (cm_streams s) (credit_key subscription generation) of
        None \<Rightarrow> (SubmitInvalid, s)
      | Some st \<Rightarrow>
          (if \<not> ms_live st \<or> cm_next s = u64_max then (SubmitInvalid, s)
           else let encoded = encode (cm_next s);
                    bytes = length encoded + 1
           in if encoded = [] \<or> bytes > session_byte_credit then (SubmitOverflow, s)
              else let f = \<lparr>cf_subscription = subscription, cf_generation = generation, cf_sequence = cm_next s,
                            cf_encoded = encoded, cf_encode = encode, cf_cumulative = 0\<rparr>
              in if can_transmit st bytes s \<and> cm_queued s = []
                 then let (ok, s') = transmit_frame transmit f s
                      in (if ok then SubmitTransmitted else SubmitInvalid, s')
                 else enqueue_frame f st s))"

text \<open>The loop of \<open>Drain\<close>: it stops at the first report that may not be transmitted yet.\<close>

fun credit_drain_loop ::
  "'w transmitter \<Rightarrow> credit_frame list \<Rightarrow> 'w credit_manager \<Rightarrow> bool \<times> 'w credit_manager" where
  "credit_drain_loop transmit [] s = (True, s\<lparr>cm_queued := []\<rparr>)"
| "credit_drain_loop transmit (f # fs) s =
     (case map_of (cm_streams s) (frame_key f) of
        None \<Rightarrow> credit_drain_loop transmit fs (s\<lparr>cm_queued_bytes := sub64 (cm_queued_bytes s) (length (cf_encoded f) + 1)\<rparr>)
      | Some st \<Rightarrow>
          (if \<not> ms_live st
           then credit_drain_loop transmit fs (s\<lparr>cm_queued_bytes := sub64 (cm_queued_bytes s) (length (cf_encoded f) + 1)\<rparr>)
           else if \<not> can_transmit st (length (cf_encode f (cm_next s)) + 1) s then (True, s\<lparr>cm_queued := f # fs\<rparr>)
           else let s1 = s\<lparr>cm_queued_bytes := sub64 (cm_queued_bytes s) (length (cf_encoded f) + 1),
                           cm_streams := omap_put (frame_key f) (st\<lparr>ms_queued := sub64 (ms_queued st) 1\<rparr>) (cm_streams s)\<rparr>;
                    (ok, s2) = transmit_frame transmit f s1
                in if ok then credit_drain_loop transmit fs s2 else (False, s2\<lparr>cm_queued := fs\<rparr>)))"

definition credit_drain :: "'w transmitter \<Rightarrow> 'w credit_manager \<Rightarrow> bool \<times> 'w credit_manager" where
  "credit_drain transmit s = credit_drain_loop transmit (cm_queued s) s"

text \<open>The loop of \<open>Acknowledge\<close>.\<close>

fun credit_release_loop :: "u64 \<Rightarrow> credit_frame list \<Rightarrow> 'w credit_manager \<Rightarrow> 'w credit_manager" where
  "credit_release_loop sequence [] s = s\<lparr>cm_outstanding := []\<rparr>"
| "credit_release_loop sequence (f # fs) s =
     (if \<not> cf_sequence f \<le> sequence then s\<lparr>cm_outstanding := f # fs\<rparr>
      else let s1 = s\<lparr>cm_outstanding_bytes := sub64 (cm_outstanding_bytes s) (length (cf_encoded f) + 1)\<rparr>
      in case map_of (cm_streams s) (frame_key f) of
           None \<Rightarrow> credit_release_loop sequence fs s1
         | Some st \<Rightarrow>
             (if ms_outstanding st > 0
              then let st' = st\<lparr>ms_outstanding := ms_outstanding st - 1\<rparr>
                   in credit_release_loop sequence fs
                        (s1\<lparr>cm_streams := (if \<not> ms_live st' \<and> ms_outstanding st' = 0 \<and> ms_queued st' = 0
                                           then omap_del (frame_key f) (cm_streams s)
                                           else omap_put (frame_key f) st' (cm_streams s))\<rparr>)
              else credit_release_loop sequence fs s1))"

definition credit_acknowledge ::
  "'w transmitter \<Rightarrow> u64 \<Rightarrow> u64 \<Rightarrow> 'w credit_manager \<Rightarrow> bool \<times> 'w credit_manager" where
  "credit_acknowledge transmit sequence bytes s =
     (if sequence \<le> cm_ack_sequence s \<or> cm_outstanding s = [] then (False, s)
      else case find (\<lambda>f. cf_sequence f = sequence) (cm_outstanding s) of
             None \<Rightarrow> (False, s)
           | Some target \<Rightarrow>
               (if cf_cumulative target \<noteq> bytes then (False, s)
                else credit_drain transmit
                       ((credit_release_loop sequence (cm_outstanding s) s)
                          \<lparr>cm_ack_sequence := sequence, cm_ack_bytes := bytes\<rparr>)))"

text \<open>The loop of \<open>Retire\<close> over the queue: what stays, and the two counters.\<close>

fun retire_loop :: "string \<Rightarrow> u64 \<Rightarrow> credit_frame list \<Rightarrow> nat \<Rightarrow> nat \<Rightarrow> credit_frame list \<times> nat \<times> nat" where
  "retire_loop subscription generation [] bytes queued = ([], bytes, queued)"
| "retire_loop subscription generation (f # fs) bytes queued =
     (if cf_subscription f = subscription \<and> cf_generation f = generation
      then retire_loop subscription generation fs (sub64 bytes (length (cf_encoded f) + 1)) (sub64 queued 1)
      else let (fs', bytes', queued') = retire_loop subscription generation fs bytes queued in (f # fs', bytes', queued'))"

definition credit_retire_stream ::
  "'w transmitter \<Rightarrow> string \<Rightarrow> u64 \<Rightarrow> string \<Rightarrow> 'w credit_manager \<Rightarrow> bool \<times> 'w credit_manager" where
  "credit_retire_stream transmit subscription generation barrier s =
     (let key = credit_key subscription generation
      in case map_of (cm_streams s) key of
           None \<Rightarrow> (False, s)
         | Some st \<Rightarrow>
             (if \<not> ms_live st then (False, s)
              else let (queue, bytes, queued) = retire_loop subscription generation (cm_queued s) (cm_queued_bytes s) (ms_queued st);
                       st' = st\<lparr>ms_live := False, ms_queued := queued\<rparr>;
                       s1 = s\<lparr>cm_queued := queue, cm_queued_bytes := bytes, cm_streams := omap_put key st' (cm_streams s)\<rparr>;
                       (ok, w) = transmit (cm_world s1) barrier; s2 = s1\<lparr>cm_world := w\<rparr>
                   in if \<not> ok then (False, s2)
                      else credit_drain transmit
                             (if ms_outstanding st' = 0 then s2\<lparr>cm_streams := omap_del key (cm_streams s2)\<rparr> else s2)))"

definition credit_begin_recovery ::
  "'w transmitter \<Rightarrow> string \<Rightarrow> u64 \<Rightarrow> u64 \<Rightarrow> nat \<Rightarrow> string \<Rightarrow> 'w credit_manager \<Rightarrow> bool \<times> 'w credit_manager" where
  "credit_begin_recovery transmit subscription previous following queue_limit barrier s =
     (if following = 0 \<or> previous = following \<or> omap_has (credit_key subscription following) (cm_streams s)
      then (False, s)
      else let (ok, s') = credit_retire_stream transmit subscription previous barrier s
           in if \<not> ok then (False, s') else credit_add_stream subscription following queue_limit s')"

definition credit_is_live :: "string \<Rightarrow> u64 \<Rightarrow> 'w credit_manager \<Rightarrow> bool" where
  "credit_is_live subscription generation s =
     (case map_of (cm_streams s) (credit_key subscription generation) of None \<Rightarrow> False | Some st \<Rightarrow> ms_live st)"

definition credit_is_retired :: "string \<Rightarrow> u64 \<Rightarrow> 'w credit_manager \<Rightarrow> bool" where
  "credit_is_retired subscription generation s =
     (case map_of (cm_streams s) (credit_key subscription generation) of None \<Rightarrow> False | Some st \<Rightarrow> \<not> ms_live st)"

definition credit_last_transmitted :: "string \<Rightarrow> u64 \<Rightarrow> 'w credit_manager \<Rightarrow> u64" where
  "credit_last_transmitted subscription generation s =
     (case map_of (cm_streams s) (credit_key subscription generation) of None \<Rightarrow> 0 | Some st \<Rightarrow> ms_last_transmitted st)"

datatype credit_call =
    CallAddStream string u64 nat
  | CallBeginRecovery string u64 u64 nat string
  | CallSubmit string u64 report_encoder
  | CallAcknowledge u64 u64
  | CallRetire string u64 string

fun credit_step :: "'w transmitter \<Rightarrow> credit_call \<Rightarrow> 'w credit_manager \<Rightarrow> 'w credit_manager" where
  "credit_step t (CallAddStream k g n) s = snd (credit_add_stream k g n s)"
| "credit_step t (CallBeginRecovery k g h n b) s = snd (credit_begin_recovery t k g h n b s)"
| "credit_step t (CallSubmit k g e) s = snd (credit_submit t k g e s)"
| "credit_step t (CallAcknowledge n b) s = snd (credit_acknowledge t n b s)"
| "credit_step t (CallRetire k g b) s = snd (credit_retire_stream t k g b s)"

section \<open>Keys\<close>

lemma to_decimal_inj: "to_decimal m = to_decimal n \<longleftrightarrow> m = n"
  using decimal_value_to_decimal by metis

lemma colon_not_digit: "CHR '':'' \<notin> set (to_decimal n)"
  using to_decimal_digits [of n] by (auto simp: list_all_iff is_digit_def)

text \<open>Two streams have the same key exactly when subscription and generation agree, whatever the identifier.\<close>

lemma credit_key_inj: "credit_key a g = credit_key b h \<longleftrightarrow> a = b \<and> g = h"
proof
  assume "credit_key a g = credit_key b h"
  then have eq: "rev (to_decimal g) @ CHR '':'' # rev a = rev (to_decimal h) @ CHR '':'' # rev b"
    by (metis append.assoc append_Cons append_Nil credit_key_def rev_append rev_singleton_conv)
  have prefix: "takeWhile (\<lambda>c. c \<noteq> CHR '':'') (rev (to_decimal n) @ CHR '':'' # xs) = rev (to_decimal n)" for n xs
    using colon_not_digit [of n] by (subst takeWhile_append2) auto
  have "to_decimal g = to_decimal h" using arg_cong [OF eq, of "takeWhile (\<lambda>c. c \<noteq> CHR '':'')"] by (simp add: prefix)
  then show "a = b \<and> g = h" using eq by (simp add: to_decimal_inj)
qed simp

section \<open>Invariant\<close>

definition frame_bytes :: "credit_frame \<Rightarrow> nat" where
  "frame_bytes f = length (cf_encoded f) + 1"

abbreviation total_bytes :: "credit_frame list \<Rightarrow> nat" where
  "total_bytes fs \<equiv> sum_list (map frame_bytes fs)"

definition frames_of :: "string \<Rightarrow> credit_frame list \<Rightarrow> nat" where
  "frames_of k fs = length (filter (\<lambda>f. frame_key f = k) fs)"

fun sums_ok :: "u64 \<Rightarrow> credit_frame list \<Rightarrow> bool" where
  "sums_ok t [] = True"
| "sums_ok t (f # fs) = (cf_cumulative f + total_bytes fs = t \<and> sums_ok t fs)"

definition frames_ok :: "u64 \<Rightarrow> credit_frame list \<Rightarrow> 'w credit_manager \<Rightarrow> bool" where
  "frames_ok ack out s \<longleftrightarrow>
     map cf_sequence out = [Suc ack..<cm_next s] \<and> ack < cm_next s \<and> cm_next s \<le> u64_max \<and>
     length out \<le> session_report_credit \<and> cm_outstanding_bytes s = total_bytes out \<and>
     total_bytes out \<le> session_byte_credit \<and> sums_ok (cm_cumulative s) out \<and>
     total_bytes out \<le> cm_cumulative s \<and> cm_cumulative s \<le> u64_max"

definition matter_fit :: "credit_frame list \<Rightarrow> credit_frame list \<Rightarrow> string \<Rightarrow> matter_stream \<Rightarrow> bool" where
  "matter_fit out qs k st \<longleftrightarrow>
     ms_outstanding st = frames_of k out \<and> ms_queued st = frames_of k qs \<and>
     frames_of k out \<le> min stream_report_credit (ms_queue_limit st) \<and> frames_of k qs \<le> ms_queue_limit st \<and>
     ms_queue_limit st \<le> 10000 \<and> (0 < frames_of k qs \<longrightarrow> ms_live st)"

definition matter_streams_ok :: "credit_frame list \<Rightarrow> credit_frame list \<Rightarrow> (string \<times> matter_stream) list \<Rightarrow> bool" where
  "matter_streams_ok out qs m \<longleftrightarrow> omap_ok m \<and> (\<forall>k st. map_of m k = Some st \<longrightarrow> matter_fit out qs k st) \<and>
     (\<forall>f \<in> set out. map_of m (frame_key f) \<noteq> None) \<and> (\<forall>f \<in> set qs. map_of m (frame_key f) \<noteq> None) \<and>
     matter_live_count m \<le> 64 \<and> length m \<le> 128"

definition waiting_ok :: "credit_frame list \<Rightarrow> 'w credit_manager \<Rightarrow> bool" where
  "waiting_ok qs s \<longleftrightarrow> cm_queued_bytes s = total_bytes qs \<and> total_bytes qs \<le> maximum_queued_bytes \<and>
     length qs \<le> maximum_queued_reports"

text \<open>The acknowledged position, the frames outstanding and the queue are parameters, since the loops write them last.\<close>

definition manager_ok :: "u64 \<Rightarrow> credit_frame list \<Rightarrow> credit_frame list \<Rightarrow> 'w credit_manager \<Rightarrow> bool" where
  "manager_ok ack out qs s \<longleftrightarrow> frames_ok ack out s \<and> matter_streams_ok out qs (cm_streams s) \<and> waiting_ok qs s"

definition manager_inv :: "'w credit_manager \<Rightarrow> bool" where
  "manager_inv s \<longleftrightarrow> manager_ok (cm_ack_sequence s) (cm_outstanding s) (cm_queued s) s \<and>
     cm_ack_bytes s + total_bytes (cm_outstanding s) = cm_cumulative s"

lemma manager_ok_frame [simp]:
  "manager_ok ack out qs (s\<lparr>cm_queued := q\<rparr>) = manager_ok ack out qs s"
  "manager_ok ack out qs (s\<lparr>cm_outstanding := x\<rparr>) = manager_ok ack out qs s"
  "manager_ok ack out qs (s\<lparr>cm_ack_sequence := a\<rparr>) = manager_ok ack out qs s"
  "manager_ok ack out qs (s\<lparr>cm_ack_bytes := a\<rparr>) = manager_ok ack out qs s"
  "manager_ok ack out qs (s\<lparr>cm_world := w\<rparr>) = manager_ok ack out qs s"
  by (simp_all add: manager_ok_def frames_ok_def waiting_ok_def)

lemma frames_of_simps [simp]:
  "frames_of k [] = 0" "frames_of k (f # fs) = (if frame_key f = k then 1 else 0) + frames_of k fs"
  "frames_of k (fs @ gs) = frames_of k fs + frames_of k gs"
  by (simp_all add: frames_of_def)

lemma frames_of_zero: "frames_of k fs = 0 \<longleftrightarrow> (\<forall>f \<in> set fs. frame_key f \<noteq> k)"
  by (auto simp: frames_of_def filter_empty_conv)

lemma matter_live_sum: "matter_live_count m = omap_sum (\<lambda>st. if ms_live st then 1 else 0) m"
  by (induction m) (auto simp: matter_live_count_def)

lemma matter_live_put:
  "omap_ok m \<Longrightarrow> matter_live_count (omap_put k st m) = (if ms_live st then 1 else 0) + matter_live_count (omap_del k m)"
  by (simp add: matter_live_sum omap_sum_put)

lemma matter_live_del:
  "omap_ok m \<Longrightarrow> map_of m k = Some st \<Longrightarrow>
   matter_live_count m = (if ms_live st then 1 else 0) + matter_live_count (omap_del k m)"
  by (simp add: matter_live_sum omap_sum_del [of m k st])

lemma manager_init_inv: "manager_inv (credit_manager_init session w)"
  by (simp add: manager_inv_def manager_ok_def frames_ok_def matter_streams_ok_def waiting_ok_def credit_manager_init_def
    matter_live_count_def credit_limits)

lemma sums_ok_append:
  "sums_ok t fs \<Longrightarrow> sums_ok (t + frame_bytes f) (fs @ [f]) \<longleftrightarrow> cf_cumulative f = t + frame_bytes f"
  by (induction fs) auto

text \<open>Replacing one stream that stays as live as it was or less, and adjusting its counters.\<close>

lemma matter_streams_put:
  assumes ok: "matter_streams_ok out qs m" and st: "map_of m k = Some st" and live: "ms_live st' \<Longrightarrow> ms_live st"
    and fit: "matter_fit out' qs' k st'"
    and other: "\<And>j. j \<noteq> k \<Longrightarrow> frames_of j out' = frames_of j out \<and> frames_of j qs' = frames_of j qs"
    and keys: "frame_key ` set out' \<subseteq> insert k (frame_key ` set out)" "frame_key ` set qs' \<subseteq> insert k (frame_key ` set qs)"
  shows "matter_streams_ok out' qs' (omap_put k st' m)"
proof -
  have old: "omap_ok m" "matter_live_count m \<le> 64" "length m \<le> 128"
    "\<And>f. f \<in> set out \<Longrightarrow> map_of m (frame_key f) \<noteq> None" "\<And>f. f \<in> set qs \<Longrightarrow> map_of m (frame_key f) \<noteq> None"
    "\<And>j u. map_of m j = Some u \<Longrightarrow> matter_fit out qs j u"
    using ok unfolding matter_streams_ok_def by blast+
  have fits: "matter_fit out' qs' j u" if "map_of (omap_put k st' m) j = Some u" for j u
  proof (cases "j = k")
    case False
    then have "matter_fit out qs j u" using that old(6) by simp
    then show ?thesis using other [OF False] by (simp add: matter_fit_def)
  qed (use that fit in simp)
  have dom_keeps: "map_of (omap_put k st' m) (frame_key f) \<noteq> None"
    if "frame_key f \<in> insert k (frame_key ` (set out \<union> set qs))" for f
    using that old(4,5) by (cases "frame_key f = k") auto
  have "matter_live_count (omap_put k st' m) \<le> matter_live_count m"
    using matter_live_put [OF old(1), of k st'] matter_live_del [OF old(1) st] live by auto
  moreover have "length (omap_put k st' m) = length m"
    using st old(1) by (simp add: length_omap_put omap_has_def)
  moreover have "\<forall>f \<in> set out'. map_of (omap_put k st' m) (frame_key f) \<noteq> None"
    "\<forall>f \<in> set qs'. map_of (omap_put k st' m) (frame_key f) \<noteq> None"
    using keys by (intro ballI dom_keeps; blast)+
  ultimately show ?thesis
    unfolding matter_streams_ok_def using old(1-3) fits omap_ok_put [OF old(1)] by (metis order.trans)
qed

lemma manager_fit:
  "manager_ok ack out qs s \<Longrightarrow> map_of (cm_streams s) k = Some st \<Longrightarrow> matter_fit out qs k st"
  by (simp add: manager_ok_def matter_streams_ok_def)

section \<open>Transmission\<close>

definition frame_sent :: "credit_frame \<Rightarrow> 'w credit_manager \<Rightarrow> credit_frame" where
  "frame_sent f s = f\<lparr>cf_sequence := cm_next s, cf_encoded := cf_encode f (cm_next s),
     cf_cumulative := cm_cumulative s + (length (cf_encode f (cm_next s)) + 1)\<rparr>"

lemma frame_sent_key [simp]: "frame_key (frame_sent f s) = frame_key f"
  by (simp add: frame_sent_def frame_key_def)

lemma frame_sent_bytes: "frame_bytes (frame_sent f s) = length (cf_encode f (cm_next s)) + 1"
  by (simp add: frame_sent_def frame_bytes_def)

lemma frame_sent_sel [simp]:
  "cf_sequence (frame_sent f s) = cm_next s"
  "cf_cumulative (frame_sent f s) = cm_cumulative s + (length (cf_encode f (cm_next s)) + 1)"
  by (simp_all add: frame_sent_def)

lemma transmit_frame_ok:
  assumes ok: "manager_ok ack (cm_outstanding s) qs s" and st: "map_of (cm_streams s) (frame_key f) = Some st"
    and can: "can_transmit st (length (cf_encode f (cm_next s)) + 1) s"
    and run: "transmit_frame transmit f s = (b, s')"
  shows "cm_ack_sequence s' = cm_ack_sequence s \<and> cm_ack_bytes s' = cm_ack_bytes s \<and> cm_queued s' = cm_queued s \<and>
    (if b then cm_outstanding s' = cm_outstanding s @ [frame_sent f s] \<and>
               cm_cumulative s' = cm_cumulative s + frame_bytes (frame_sent f s) \<and>
               manager_ok ack (cm_outstanding s @ [frame_sent f s]) qs s'
     else cm_outstanding s' = cm_outstanding s \<and> cm_cumulative s' = cm_cumulative s \<and>
          manager_ok ack (cm_outstanding s) qs s')"
proof -
  let ?e = "cf_encode f (cm_next s)"
  let ?n = "length ?e + 1"
  let ?out = "cm_outstanding s"
  show ?thesis
  proof (cases "ms_live st \<and> cm_next s \<noteq> u64_max \<and> ?e \<noteq> [] \<and> length ?e < session_byte_credit \<and>
      ?n \<le> u64_max - cm_cumulative s \<and> fst (transmit (cm_world s) ?e)")
    case False
    then have "\<not> b \<and> (s' = s \<or> (\<exists>w. s' = s\<lparr>cm_world := w\<rparr>))"
      using run st
      by (auto simp: transmit_frame_def next_report_byte_count_def Let_def split: if_splits prod.splits option.splits)
    then show ?thesis using ok by auto
  next
    case True
    have fr: "frames_ok ack ?out s" and str: "matter_streams_ok ?out qs (cm_streams s)" and wait: "waiting_ok qs s"
      using ok by (simp_all add: manager_ok_def)
    have fit: "matter_fit ?out qs (frame_key f) st" by (rule manager_fit [OF ok st])
    have room: "length ?out < session_report_credit" "?n \<le> session_byte_credit - total_bytes ?out"
      "ms_outstanding st < min stream_report_credit (ms_queue_limit st)"
      using can fr by (auto simp: can_transmit_def frames_ok_def)
    have sums: "add64 (cm_cumulative s) ?n = cm_cumulative s + ?n"
      "add64 (cm_outstanding_bytes s) ?n = cm_outstanding_bytes s + ?n"
      "add64 (cm_next s) 1 = cm_next s + 1" "add64 (ms_outstanding st) 1 = ms_outstanding st + 1"
      using True fr room by (intro add64_exact; auto simp: frames_ok_def credit_limits)+
    let ?st = "st\<lparr>ms_outstanding := ms_outstanding st + 1, ms_last_transmitted := cm_next s\<rparr>"
    obtain w where b: "b" and s': "s' = s\<lparr>cm_world := w, cm_next := cm_next s + 1, cm_cumulative := cm_cumulative s + ?n,
        cm_outstanding_bytes := cm_outstanding_bytes s + ?n,
        cm_streams := omap_put (frame_key f) ?st (cm_streams s), cm_outstanding := ?out @ [frame_sent f s]\<rparr>"
      using run True st unfolding transmit_frame_def Let_def next_report_byte_count_def
      by (auto simp: sums frame_sent_def simp del: One_nat_def add_Suc_right split: prod.splits)
    have str': "cm_streams s' = omap_put (frame_key f) ?st (cm_streams s)" by (simp add: s')
    have "frames_ok ack (?out @ [frame_sent f s]) s'"
      using fr room True sums_ok_append [of "cm_cumulative s" ?out "frame_sent f s"]
      by (auto simp: frames_ok_def s' frame_sent_bytes)
    moreover have "matter_streams_ok (?out @ [frame_sent f s]) qs (cm_streams s')"
      unfolding str'
      by (rule matter_streams_put [OF str st]) (use fit room(3) in \<open>auto simp: matter_fit_def\<close>)
    moreover have "waiting_ok qs s'" using wait by (simp add: waiting_ok_def s')
    ultimately show ?thesis using b by (simp add: manager_ok_def s' frame_sent_bytes)
  qed
qed

section \<open>Draining\<close>

lemma dequeue_ok:
  assumes ok: "manager_ok ack out (f # fs) s" and st: "map_of (cm_streams s) (frame_key f) = Some st"
  shows "manager_ok ack out fs
    (s\<lparr>cm_queued_bytes := sub64 (cm_queued_bytes s) (length (cf_encoded f) + 1),
       cm_streams := omap_put (frame_key f) (st\<lparr>ms_queued := sub64 (ms_queued st) 1\<rparr>) (cm_streams s)\<rparr>)"
proof -
  have fr: "frames_ok ack out s" and str: "matter_streams_ok out (f # fs) (cm_streams s)" and wait: "waiting_ok (f # fs) s"
    using ok by (simp_all add: manager_ok_def)
  have fit: "matter_fit out (f # fs) (frame_key f) st" by (rule manager_fit [OF ok st])
  have one: "sub64 (ms_queued st) 1 = ms_queued st - 1"
    using fit by (intro sub64_exact) (auto simp: matter_fit_def credit_limits)
  have bytes: "sub64 (cm_queued_bytes s) (length (cf_encoded f) + 1) = cm_queued_bytes s - (length (cf_encoded f) + 1)"
    using wait by (intro sub64_exact) (auto simp: waiting_ok_def credit_limits frame_bytes_def)
  have "matter_streams_ok out fs (omap_put (frame_key f) (st\<lparr>ms_queued := ms_queued st - 1\<rparr>) (cm_streams s))"
    by (rule matter_streams_put [OF str st]) (use fit in \<open>auto simp: matter_fit_def\<close>)
  then show ?thesis
    using fr wait unfolding manager_ok_def one bytes by (auto simp: frames_ok_def waiting_ok_def frame_bytes_def)
qed

text \<open>A transmitted frame is the queued one with its number, encoded for that number.\<close>

definition transmitted_as :: "credit_frame \<Rightarrow> credit_frame \<Rightarrow> bool" where
  "transmitted_as q f \<longleftrightarrow> cf_subscription f = cf_subscription q \<and> cf_generation f = cf_generation q \<and>
     cf_encode f = cf_encode q \<and> cf_encoded f = cf_encode q (cf_sequence f)"

lemma frame_sent_as: "transmitted_as f (frame_sent f s)"
  by (simp add: transmitted_as_def frame_sent_def)

definition blocked :: "'w credit_manager \<Rightarrow> bool" where
  "blocked s \<longleftrightarrow> (case cm_queued s of [] \<Rightarrow> True | f # _ \<Rightarrow>
     (\<exists>st. map_of (cm_streams s) (frame_key f) = Some st \<and> \<not> can_transmit st (length (cf_encode f (cm_next s)) + 1) s))"

definition drained :: "credit_frame list \<Rightarrow> 'w credit_manager \<Rightarrow> bool \<Rightarrow> 'w credit_manager \<Rightarrow> bool" where
  "drained qs s b s' \<longleftrightarrow> manager_inv s' \<and> cm_ack_sequence s' = cm_ack_sequence s \<and> cm_ack_bytes s' = cm_ack_bytes s \<and>
     (\<exists>moved new lost. cm_outstanding s' = cm_outstanding s @ new \<and> qs = moved @ lost @ cm_queued s' \<and>
        list_all2 transmitted_as moved new \<and> (if b then lost = [] \<and> blocked s' else length lost = 1))"

lemma drained_step:
  assumes "drained fs s2 b s'" and "cm_outstanding s2 = cm_outstanding s @ [frame_sent f t]"
    and "cm_ack_sequence s2 = cm_ack_sequence s" and "cm_ack_bytes s2 = cm_ack_bytes s"
  shows "drained (f # fs) s b s'"
proof -
  obtain moved new lost where 1: "cm_outstanding s' = cm_outstanding s2 @ new" "fs = moved @ lost @ cm_queued s'"
    "list_all2 transmitted_as moved new" "if b then lost = [] \<and> blocked s' else length lost = 1"
    using assms(1) by (auto simp: drained_def)
  show ?thesis
    unfolding drained_def
    using assms 1 frame_sent_as [of f t]
    by (intro conjI exI [of _ "f # moved"] exI [of _ "frame_sent f t # new"] exI [of _ lost])
      (simp_all add: drained_def)
qed

lemma credit_drain_loop_ok:
  assumes "manager_ok (cm_ack_sequence s) (cm_outstanding s) fs s"
    and "cm_ack_bytes s + total_bytes (cm_outstanding s) = cm_cumulative s"
    and "credit_drain_loop transmit fs s = (b, s')"
  shows "drained fs s b s'"
  using assms
proof (induction fs arbitrary: s)
  case Nil
  then show ?case by (auto simp: drained_def manager_inv_def blocked_def)
next
  case (Cons f fs)
  note ok = Cons.prems(1)
  obtain st where st: "map_of (cm_streams s) (frame_key f) = Some st"
    using ok by (auto simp: manager_ok_def matter_streams_ok_def)
  have live: "ms_live st" using manager_fit [OF ok st] by (simp add: matter_fit_def)
  show ?case
  proof (cases "can_transmit st (length (cf_encode f (cm_next s)) + 1) s")
    case False
    then have "b" "s' = s\<lparr>cm_queued := f # fs\<rparr>" using Cons.prems(3) st live by auto
    then show ?thesis
      using ok Cons.prems(2) False st by (auto simp: drained_def manager_inv_def blocked_def can_transmit_def)
  next
    case True
    let ?st = "st\<lparr>ms_queued := sub64 (ms_queued st) 1\<rparr>"
    let ?s1 = "s\<lparr>cm_queued_bytes := sub64 (cm_queued_bytes s) (length (cf_encoded f) + 1),
      cm_streams := omap_put (frame_key f) ?st (cm_streams s)\<rparr>"
    obtain b2 s2 where tr: "transmit_frame transmit f ?s1 = (b2, s2)" by fastforce
    have ok1: "manager_ok (cm_ack_sequence s) (cm_outstanding ?s1) fs ?s1" using dequeue_ok [OF ok st] by simp
    have after: "cm_ack_sequence s2 = cm_ack_sequence s \<and> cm_ack_bytes s2 = cm_ack_bytes s \<and>
      (if b2 then cm_outstanding s2 = cm_outstanding s @ [frame_sent f ?s1] \<and>
          cm_cumulative s2 = cm_cumulative s + frame_bytes (frame_sent f ?s1) \<and>
          manager_ok (cm_ack_sequence s) (cm_outstanding s @ [frame_sent f ?s1]) fs s2
       else cm_outstanding s2 = cm_outstanding s \<and> cm_cumulative s2 = cm_cumulative s \<and>
          manager_ok (cm_ack_sequence s) (cm_outstanding s) fs s2)"
      using transmit_frame_ok [OF ok1 _ _ tr, of ?st] True
      by (simp add: can_transmit_def del: One_nat_def add_Suc_right cong: if_cong)
    have run: "credit_drain_loop transmit (f # fs) s =
        (if b2 then credit_drain_loop transmit fs s2 else (False, s2\<lparr>cm_queued := fs\<rparr>))"
      using st live True tr by (simp del: One_nat_def add_Suc_right)
    show ?thesis
    proof (cases b2)
      case False
      then have "\<not> b" "s' = s2\<lparr>cm_queued := fs\<rparr>" using run Cons.prems(3) by auto
      then show ?thesis
        using after False Cons.prems(2)
        by (auto simp: drained_def manager_inv_def intro!: exI [of _ "[]"] exI [of _ "[f]"])
    next
      case moved: True
      have "drained fs s2 b s'"
        by (rule Cons.IH) (use after moved Cons.prems(2,3) run in auto)
      then show ?thesis by (rule drained_step) (use after moved in auto)
    qed
  qed
qed

lemma credit_drain_ok:
  assumes "manager_inv s" and "credit_drain transmit s = (b, s')"
  shows "drained (cm_queued s) s b s'"
  using assms credit_drain_loop_ok by (auto simp: credit_drain_def manager_inv_def)

lemma credit_drain_inv: "manager_inv s \<Longrightarrow> manager_inv (snd (credit_drain transmit s))"
  using credit_drain_ok [of s transmit] by (cases "credit_drain transmit s") (auto simp: drained_def)

section \<open>The other operations\<close>

lemma credit_add_stream_inv:
  assumes inv: "manager_inv s"
  shows "manager_inv (snd (credit_add_stream k g n s))"
proof (cases "fst (credit_add_stream k g n s)")
  case False
  then show ?thesis using inv by (auto simp: credit_add_stream_def Let_def split: if_splits)
next
  case True
  let ?key = "credit_key k g"
  let ?st = "\<lparr>ms_generation = g, ms_queue_limit = n, ms_outstanding = 0, ms_queued = 0, ms_last_transmitted = 0,
    ms_live = True\<rparr>"
  have s': "snd (credit_add_stream k g n s) = s\<lparr>cm_streams := omap_put ?key ?st (cm_streams s)\<rparr>"
    and fresh: "map_of (cm_streams s) ?key = None" and n: "n \<le> 10000"
    and room: "matter_live_count (cm_streams s) < 64" "length (cm_streams s) < 128"
    using True by (auto simp: credit_add_stream_def Let_def omap_has_def split: if_splits)
  have str: "matter_streams_ok (cm_outstanding s) (cm_queued s) (cm_streams s)"
    using inv by (simp add: manager_inv_def manager_ok_def)
  have zero: "frames_of ?key (cm_outstanding s) = 0" "frames_of ?key (cm_queued s) = 0"
    using str fresh by (auto simp: frames_of_zero matter_streams_ok_def)
  have "matter_fit (cm_outstanding s) (cm_queued s) j u" if "map_of (omap_put ?key ?st (cm_streams s)) j = Some u" for j u
    using str that zero n by (cases "j = ?key") (auto simp: matter_streams_ok_def matter_fit_def)
  moreover have "omap_ok (cm_streams s)" using str by (simp add: matter_streams_ok_def)
  ultimately have "matter_streams_ok (cm_outstanding s) (cm_queued s) (omap_put ?key ?st (cm_streams s))"
    using str room fresh length_omap_put_le [of ?key ?st "cm_streams s"]
    by (auto simp: matter_streams_ok_def matter_live_put omap_del_absent)
  then show ?thesis
    using inv by (simp add: s' manager_inv_def manager_ok_def frames_ok_def waiting_ok_def)
qed

lemma enqueue_frame_inv:
  assumes inv: "manager_inv s" and st: "map_of (cm_streams s) (frame_key f) = Some st" "ms_live st"
  shows "manager_inv (snd (enqueue_frame f st s))"
proof (cases "fst (enqueue_frame f st s) = SubmitOverflow")
  case True
  then show ?thesis using inv by (auto simp: enqueue_frame_def Let_def split: if_splits)
next
  case False
  let ?f = "f\<lparr>cf_sequence := 0, cf_encoded := cf_encode f u64_max\<rparr>"
  let ?n = "length (cf_encode f u64_max) + 1"
  have key: "frame_key ?f = frame_key f" by (simp add: frame_key_def)
  have ok: "manager_ok (cm_ack_sequence s) (cm_outstanding s) (cm_queued s) s" using inv by (simp add: manager_inv_def)
  have fit: "matter_fit (cm_outstanding s) (cm_queued s) (frame_key f) st" by (rule manager_fit [OF ok st(1)])
  have room: "length (cm_queued s) < maximum_queued_reports" "?n \<le> maximum_queued_bytes - cm_queued_bytes s"
    "ms_queued st < ms_queue_limit st"
    using False by (auto simp: enqueue_frame_def Let_def split: if_splits)
  have sums: "add64 (cm_queued_bytes s) ?n = cm_queued_bytes s + ?n" "add64 (ms_queued st) 1 = ms_queued st + 1"
    using room fit by (intro add64_exact; auto simp: matter_fit_def credit_limits)+
  have s': "snd (enqueue_frame f st s) = s\<lparr>cm_queued_bytes := cm_queued_bytes s + ?n,
      cm_streams := omap_put (frame_key f) (st\<lparr>ms_queued := ms_queued st + 1\<rparr>) (cm_streams s),
      cm_queued := cm_queued s @ [?f]\<rparr>"
    using False unfolding enqueue_frame_def Let_def by (auto simp: sums key simp del: One_nat_def add_Suc_right split: if_splits)
  have "matter_streams_ok (cm_outstanding s) (cm_queued s @ [?f])
      (omap_put (frame_key f) (st\<lparr>ms_queued := ms_queued st + 1\<rparr>) (cm_streams s))"
    by (rule matter_streams_put [OF _ st(1)]) (use ok fit room st(2) key in \<open>auto simp: manager_ok_def matter_fit_def\<close>)
  then show ?thesis
    using inv room
    by (auto simp: s' manager_inv_def manager_ok_def frames_ok_def waiting_ok_def frame_bytes_def)
qed

lemma credit_submit_inv:
  assumes inv: "manager_inv s"
  shows "manager_inv (snd (credit_submit transmit k g encode s))"
proof (cases "map_of (cm_streams s) (credit_key k g)")
  case None
  then show ?thesis using inv by (simp add: credit_submit_def)
next
  case (Some st)
  let ?f = "\<lparr>cf_subscription = k, cf_generation = g, cf_sequence = cm_next s, cf_encoded = encode (cm_next s),
    cf_encode = encode, cf_cumulative = 0\<rparr>"
  have key: "frame_key ?f = credit_key k g" by (simp add: frame_key_def)
  show ?thesis
  proof (cases "\<not> ms_live st \<or> cm_next s = u64_max \<or> encode (cm_next s) = [] \<or>
      length (encode (cm_next s)) + 1 > session_byte_credit")
    case True
    then show ?thesis using inv Some by (auto simp: credit_submit_def Let_def)
  next
    case False
    show ?thesis
    proof (cases "can_transmit st (length (encode (cm_next s)) + 1) s \<and> cm_queued s = []")
      case True
      obtain b s' where tr: "transmit_frame transmit ?f s = (b, s')" by fastforce
      have "manager_inv s'"
        using transmit_frame_ok [OF _ _ _ tr, of "cm_ack_sequence s" "cm_queued s" st] inv Some key True
        by (auto simp: manager_inv_def split: if_splits)
      then show ?thesis using Some False True tr by (simp add: credit_submit_def Let_def)
    next
      case queue: False
      then have "credit_submit transmit k g encode s = enqueue_frame ?f st s"
        using Some False by (auto simp: credit_submit_def Let_def)
      then show ?thesis using enqueue_frame_inv [OF inv, of ?f st] Some False key by simp
    qed
  qed
qed

text \<open>Removing a stream that no frame belongs to.\<close>

lemma matter_streams_del:
  assumes ok: "matter_streams_ok out qs m" and none: "frames_of k out = 0" "frames_of k qs = 0"
  shows "matter_streams_ok out qs (omap_del k m)"
proof -
  have old: "omap_ok m" "matter_live_count m \<le> 64" "length m \<le> 128"
    "\<And>f. f \<in> set out \<Longrightarrow> map_of m (frame_key f) \<noteq> None" "\<And>f. f \<in> set qs \<Longrightarrow> map_of m (frame_key f) \<noteq> None"
    "\<And>j u. map_of m j = Some u \<Longrightarrow> matter_fit out qs j u"
    using ok unfolding matter_streams_ok_def by blast+
  have "matter_live_count (omap_del k m) \<le> matter_live_count m" by (simp add: matter_live_sum omap_sum_del_le)
  moreover have "length (omap_del k m) \<le> length m" by (simp add: omap_del_def)
  ultimately show ?thesis
    using old none by (auto simp: matter_streams_ok_def frames_of_zero split: if_splits)
qed

definition release_stream :: "credit_frame \<Rightarrow> matter_stream \<Rightarrow> (string \<times> matter_stream) list \<Rightarrow> (string \<times> matter_stream) list" where
  "release_stream f st m =
     (let st' = st\<lparr>ms_outstanding := ms_outstanding st - 1\<rparr>
      in if \<not> ms_live st' \<and> ms_outstanding st' = 0 \<and> ms_queued st' = 0 then omap_del (frame_key f) m
         else omap_put (frame_key f) st' m)"

lemma release_stream_ok:
  assumes ok: "matter_streams_ok (f # fs) qs m" and st: "map_of m (frame_key f) = Some st"
  shows "matter_streams_ok fs qs (release_stream f st m)"
proof -
  let ?st = "st\<lparr>ms_outstanding := ms_outstanding st - 1\<rparr>"
  have fit: "matter_fit (f # fs) qs (frame_key f) st" using ok st by (simp add: matter_streams_ok_def)
  have put: "matter_streams_ok fs qs (omap_put (frame_key f) ?st m)"
    by (rule matter_streams_put [OF ok st]) (use fit in \<open>auto simp: matter_fit_def\<close>)
  show ?thesis
  proof (cases "\<not> ms_live st \<and> ms_outstanding ?st = 0 \<and> ms_queued st = 0")
    case True
    then have "matter_streams_ok fs qs (omap_del (frame_key f) (omap_put (frame_key f) ?st m))"
      using fit by (intro matter_streams_del [OF put]) (auto simp: matter_fit_def)
    then show ?thesis using True by (simp add: release_stream_def omap_del_put)
  qed (use put in \<open>auto simp: release_stream_def Let_def\<close>)
qed

lemma release_one_ok:
  assumes ok: "manager_ok ack (f # fs) qs s" and st: "map_of (cm_streams s) (frame_key f) = Some st"
  shows "manager_ok (Suc ack) fs qs
    (s\<lparr>cm_outstanding_bytes := sub64 (cm_outstanding_bytes s) (length (cf_encoded f) + 1),
       cm_streams := release_stream f st (cm_streams s)\<rparr>)"
proof -
  have fr: "frames_ok ack (f # fs) s" and str: "matter_streams_ok (f # fs) qs (cm_streams s)" and wait: "waiting_ok qs s"
    using ok by (simp_all add: manager_ok_def)
  have bytes: "sub64 (cm_outstanding_bytes s) (length (cf_encoded f) + 1) = total_bytes fs"
    using fr by (subst sub64_exact) (auto simp: frames_ok_def credit_limits frame_bytes_def)
  have seq: "Suc ack < cm_next s \<and> map cf_sequence fs = [Suc (Suc ack)..<cm_next s]"
    using fr by (cases "Suc ack < cm_next s") (auto simp: frames_ok_def upt_conv_Cons)
  show ?thesis
    using fr seq wait release_stream_ok [OF str st] unfolding manager_ok_def bytes
    by (auto simp: frames_ok_def waiting_ok_def)
qed

lemma credit_release_loop_ok:
  assumes "manager_ok ack out qs s"
  shows "let s' = credit_release_loop n out s; rest = dropWhile (\<lambda>f. cf_sequence f \<le> n) out
    in manager_ok (ack + (length out - length rest)) rest qs s' \<and> cm_outstanding s' = rest \<and>
       cm_cumulative s' = cm_cumulative s \<and> cm_queued s' = cm_queued s \<and> cm_next s' = cm_next s"
  using assms
proof (induction out arbitrary: ack s)
  case Nil
  then show ?case by (simp add: Let_def)
next
  case (Cons f fs)
  show ?case
  proof (cases "cf_sequence f \<le> n")
    case False
    then show ?thesis using Cons.prems by (simp add: Let_def)
  next
    case True
    obtain st where st: "map_of (cm_streams s) (frame_key f) = Some st"
      using Cons.prems by (auto simp: manager_ok_def matter_streams_ok_def)
    have pos: "0 < ms_outstanding st" using manager_fit [OF Cons.prems st] by (simp add: matter_fit_def)
    let ?s = "s\<lparr>cm_outstanding_bytes := sub64 (cm_outstanding_bytes s) (length (cf_encoded f) + 1),
       cm_streams := release_stream f st (cm_streams s)\<rparr>"
    have run: "credit_release_loop n (f # fs) s = credit_release_loop n fs ?s"
      using True st pos by (simp add: release_stream_def Let_def)
    have "length (dropWhile (\<lambda>f. cf_sequence f \<le> n) fs) \<le> length fs" by (rule length_dropWhile_le)
    then show ?thesis
      using Cons.IH [OF release_one_ok [OF Cons.prems st]] run True
      by (simp add: Let_def Suc_diff_le del: credit_release_loop.simps)
  qed
qed

text \<open>An acknowledgement that names an outstanding frame releases exactly the frames up to it.\<close>

lemma acknowledged_split:
  assumes fr: "frames_ok ack out s" and f: "find (\<lambda>f. cf_sequence f = n) out = Some f"
  shows "\<exists>xs ys. out = xs @ f # ys \<and> cf_sequence f = n \<and> dropWhile (\<lambda>f. cf_sequence f \<le> n) out = ys \<and>
    ack + (length out - length ys) = n \<and> cf_cumulative f + total_bytes ys = cm_cumulative s"
proof -
  obtain xs ys where split: "out = xs @ f # ys" and n: "cf_sequence f = n"
    using f by (auto simp: find_Some_iff dest!: nth_mem split_list)
  have seqs: "map cf_sequence xs @ n # map cf_sequence ys = [Suc ack..<cm_next s]"
    using fr n by (simp add: frames_ok_def split)
  have len: "Suc (length xs + length ys) = cm_next s - Suc ack" using arg_cong [OF seqs, of length] by simp
  have at: "n = Suc ack + length xs"
    using arg_cong [OF seqs, of "\<lambda>l. l ! length xs"] len by (simp add: nth_append)
  have "[Suc ack..<cm_next s] = [Suc ack..<n] @ n # [Suc n..<cm_next s]"
    using at len upt_add_eq_append [of "Suc ack" n "cm_next s - n"] upt_conv_Cons [of n "cm_next s"] by simp
  then have "map cf_sequence xs @ n # map cf_sequence ys = [Suc ack..<n] @ n # [Suc n..<cm_next s]"
    using seqs by simp
  moreover have "length (map cf_sequence xs) = length [Suc ack..<n]" using at by (simp del: upt_Suc)
  ultimately have parts: "map cf_sequence xs = [Suc ack..<n]" "map cf_sequence ys = [Suc n..<cm_next s]"
    using append_eq_append_conv [of "map cf_sequence xs" "[Suc ack..<n]"] by (simp_all del: upt_Suc)
  have "\<forall>g \<in> set xs. cf_sequence g \<le> n" "\<forall>g \<in> set ys. \<not> cf_sequence g \<le> n"
    using imageI [of _ "set xs" cf_sequence] imageI [of _ "set ys" cf_sequence]
    unfolding set_map [symmetric] parts by (fastforce simp del: upt_Suc)+
  then have "dropWhile (\<lambda>f. cf_sequence f \<le> n) out = ys"
    using n by (cases ys) (auto simp: split dropWhile_append2)
  moreover have "cf_cumulative f + total_bytes ys = cm_cumulative s"
  proof -
    have "sums_ok (cm_cumulative s) (xs @ f # ys)" using fr by (simp add: frames_ok_def split)
    then show ?thesis by (induction xs) auto
  qed
  ultimately show ?thesis using split n at len by auto
qed

lemma credit_acknowledge_ok:
  assumes inv: "manager_inv s"
  shows "case find (\<lambda>f. cf_sequence f = n) (cm_outstanding s) of
      None \<Rightarrow> credit_acknowledge transmit n bytes s = (False, s)
    | Some f \<Rightarrow>
        (if cf_cumulative f \<noteq> bytes then credit_acknowledge transmit n bytes s = (False, s)
         else \<exists>t. manager_inv t \<and> credit_acknowledge transmit n bytes s = credit_drain transmit t \<and>
           cm_ack_sequence t = n \<and> cm_ack_bytes t = bytes \<and> cm_queued t = cm_queued s \<and>
           cm_outstanding t = dropWhile (\<lambda>f. cf_sequence f \<le> n) (cm_outstanding s))"
proof (cases "find (\<lambda>f. cf_sequence f = n) (cm_outstanding s)")
  case None
  then show ?thesis by (simp add: credit_acknowledge_def)
next
  case (Some f)
  have ok: "manager_ok (cm_ack_sequence s) (cm_outstanding s) (cm_queued s) s" using inv by (simp add: manager_inv_def)
  then have fr: "frames_ok (cm_ack_sequence s) (cm_outstanding s) s" by (simp add: manager_ok_def)
  obtain xs ys where s: "cm_outstanding s = xs @ f # ys" "cf_sequence f = n"
    "dropWhile (\<lambda>f. cf_sequence f \<le> n) (cm_outstanding s) = ys"
    "cm_ack_sequence s + (length (cm_outstanding s) - length ys) = n" "cf_cumulative f + total_bytes ys = cm_cumulative s"
    using acknowledged_split [OF fr Some] by blast
  have gt: "\<not> n \<le> cm_ack_sequence s" using s(1,4) by simp
  let ?t = "(credit_release_loop n (cm_outstanding s) s)\<lparr>cm_ack_sequence := n, cm_ack_bytes := bytes\<rparr>"
  have rel: "manager_ok n ys (cm_queued s) (credit_release_loop n (cm_outstanding s) s)"
    "cm_outstanding (credit_release_loop n (cm_outstanding s) s) = ys"
    "cm_cumulative (credit_release_loop n (cm_outstanding s) s) = cm_cumulative s"
    "cm_queued (credit_release_loop n (cm_outstanding s) s) = cm_queued s"
    using credit_release_loop_ok [OF ok, of n] s(3,4) by (simp_all add: Let_def)
  show ?thesis
  proof (cases "cf_cumulative f = bytes")
    case True
    then have "manager_inv ?t" using rel s(5) by (simp add: manager_inv_def)
    moreover have "credit_acknowledge transmit n bytes s = credit_drain transmit ?t"
      using Some True gt s(1) by (simp add: credit_acknowledge_def)
    ultimately show ?thesis using Some True rel s(3) by (auto intro!: exI [of _ ?t])
  qed (use Some in \<open>simp add: credit_acknowledge_def\<close>)
qed

lemma credit_acknowledge_inv: "manager_inv s \<Longrightarrow> manager_inv (snd (credit_acknowledge transmit n bytes s))"
proof (cases "find (\<lambda>f. cf_sequence f = n) (cm_outstanding s)")
  case (Some f)
  assume inv: "manager_inv s"
  show ?thesis
    using credit_acknowledge_ok [OF inv, where n = n and transmit = transmit and bytes = bytes] Some inv credit_drain_inv
    by (cases "cf_cumulative f = bytes") fastforce+
qed (simp add: credit_acknowledge_def)

section \<open>Retirement\<close>

definition others :: "string \<Rightarrow> credit_frame list \<Rightarrow> credit_frame list" where
  "others k fs = filter (\<lambda>f. frame_key f \<noteq> k) fs"

lemma others_bytes: "total_bytes (filter (\<lambda>f. frame_key f = k) fs) + total_bytes (others k fs) = total_bytes fs"
  by (induction fs) (auto simp: others_def)

lemma frames_of_others: "frames_of j (others k fs) = (if j = k then 0 else frames_of j fs)"
  by (induction fs) (auto simp: others_def)

lemma others_keys: "frame_key ` set (others k fs) \<subseteq> insert j (frame_key ` set fs)"
  by (auto simp: others_def)

text \<open>The loop removes exactly the frames of the stream, and both counters follow without wrapping.\<close>

lemma retire_loop_exact:
  assumes "total_bytes (filter (\<lambda>f. frame_key f = credit_key k g) fs) \<le> bytes" and "bytes \<le> u64_max"
    and "frames_of (credit_key k g) fs \<le> queued" and "queued \<le> u64_max"
  shows "retire_loop k g fs bytes queued =
    (others (credit_key k g) fs, bytes - total_bytes (filter (\<lambda>f. frame_key f = credit_key k g) fs),
     queued - frames_of (credit_key k g) fs)"
  using assms
proof (induction fs arbitrary: bytes queued)
  case (Cons f fs)
  have key: "frame_key f = credit_key k g \<longleftrightarrow> cf_subscription f = k \<and> cf_generation f = g"
    by (simp add: frame_key_def credit_key_inj)
  show ?case
  proof (cases "frame_key f = credit_key k g")
    case True
    have sub: "sub64 bytes (length (cf_encoded f) + 1) = bytes - frame_bytes f" "sub64 queued 1 = queued - 1"
      using Cons.prems True by (auto intro!: sub64_exact simp: frame_bytes_def)
    have "retire_loop k g (f # fs) bytes queued = retire_loop k g fs (bytes - frame_bytes f) (queued - 1)"
      using True key sub by simp
    then show ?thesis
      using Cons.IH [of "bytes - frame_bytes f" "queued - 1"] Cons.prems True by (simp add: others_def)
  next
    case False
    then show ?thesis using Cons.IH [of bytes queued] Cons.prems key by (auto simp: others_def)
  qed
qed (simp add: others_def)

lemma credit_retire_ok:
  assumes inv: "manager_inv s" and st: "map_of (cm_streams s) (credit_key k g) = Some st" and live: "ms_live st"
  shows "\<exists>t. manager_inv t \<and> cm_queued t = others (credit_key k g) (cm_queued s) \<and>
    cm_outstanding t = cm_outstanding s \<and> cm_ack_sequence t = cm_ack_sequence s \<and> cm_ack_bytes t = cm_ack_bytes s \<and>
    (credit_retire_stream transmit k g barrier s = (False, t) \<or>
     credit_retire_stream transmit k g barrier s = credit_drain transmit t)"
proof -
  let ?k = "credit_key k g"
  let ?bytes = "total_bytes (others ?k (cm_queued s))"
  let ?st = "st\<lparr>ms_live := False, ms_queued := 0\<rparr>"
  have ok: "manager_ok (cm_ack_sequence s) (cm_outstanding s) (cm_queued s) s" using inv by (simp add: manager_inv_def)
  have fr: "frames_ok (cm_ack_sequence s) (cm_outstanding s) s"
    and str: "matter_streams_ok (cm_outstanding s) (cm_queued s) (cm_streams s)" and wait: "waiting_ok (cm_queued s) s"
    using ok by (simp_all add: manager_ok_def)
  have fit: "matter_fit (cm_outstanding s) (cm_queued s) ?k st" by (rule manager_fit [OF ok st])
  note bytes = others_bytes [of ?k "cm_queued s"]
  have loop: "retire_loop k g (cm_queued s) (cm_queued_bytes s) (ms_queued st) = (others ?k (cm_queued s), ?bytes, 0)"
    using retire_loop_exact [of k g "cm_queued s" "cm_queued_bytes s" "ms_queued st"] wait fit bytes
    by (simp add: waiting_ok_def matter_fit_def credit_limits)
  let ?s1 = "s\<lparr>cm_queued := others ?k (cm_queued s), cm_queued_bytes := ?bytes,
    cm_streams := omap_put ?k ?st (cm_streams s)\<rparr>"
  have put: "matter_streams_ok (cm_outstanding s) (others ?k (cm_queued s)) (omap_put ?k ?st (cm_streams s))"
    by (rule matter_streams_put [OF str st])
      (use fit others_keys in \<open>auto simp: matter_fit_def frames_of_others\<close>)
  have len: "length (others ?k (cm_queued s)) \<le> length (cm_queued s)" unfolding others_def by (rule length_filter_le)
  have wait1: "waiting_ok (others ?k (cm_queued s)) (s'\<lparr>cm_queued_bytes := ?bytes\<rparr>)" for s' :: "'a credit_manager"
    using wait bytes len by (auto simp: waiting_ok_def)
  have inv1: "manager_inv (?s1\<lparr>cm_world := w\<rparr>)" for w
    using inv fr put wait1 [of s] by (simp add: manager_inv_def manager_ok_def frames_ok_def waiting_ok_def)
  obtain b w where tr: "transmit (cm_world s) barrier = (b, w)" by fastforce
  let ?s2 = "?s1\<lparr>cm_world := w\<rparr>"
  let ?s3 = "?s2\<lparr>cm_streams := omap_del ?k (cm_streams ?s2)\<rparr>"
  have run: "credit_retire_stream transmit k g barrier s =
      (if \<not> b then (False, ?s2) else credit_drain transmit (if ms_outstanding st = 0 then ?s3 else ?s2))"
    using st live tr by (simp add: credit_retire_stream_def loop Let_def)
  have inv3: "manager_inv ?s3" if "ms_outstanding st = 0"
  proof -
    have "matter_streams_ok (cm_outstanding s) (others ?k (cm_queued s)) (omap_del ?k (omap_put ?k ?st (cm_streams s)))"
      using fit that by (intro matter_streams_del [OF put]) (auto simp: matter_fit_def frames_of_others)
    then show ?thesis
      using inv1 [of w] by (simp add: manager_inv_def manager_ok_def frames_ok_def waiting_ok_def)
  qed
  show ?thesis
  proof (cases "b \<and> ms_outstanding st = 0")
    case True
    then show ?thesis using inv3 run by (intro exI [of _ ?s3]) simp
  next
    case False
    then show ?thesis using inv1 [of w] run by (intro exI [of _ ?s2]) auto
  qed
qed

lemma credit_retire_inv: "manager_inv s \<Longrightarrow> manager_inv (snd (credit_retire_stream transmit k g barrier s))"
proof (cases "\<exists>st. map_of (cm_streams s) (credit_key k g) = Some st \<and> ms_live st")
  case True
  assume inv: "manager_inv s"
  obtain st where "map_of (cm_streams s) (credit_key k g) = Some st" "ms_live st" using True by blast
  from credit_retire_ok [OF inv this, of transmit barrier] show ?thesis using credit_drain_inv by fastforce
qed (auto simp: credit_retire_stream_def Let_def split: option.splits)

lemma credit_begin_recovery_inv:
  "manager_inv s \<Longrightarrow> manager_inv (snd (credit_begin_recovery transmit k g h n barrier s))"
  using credit_retire_inv [of s transmit k g barrier] credit_add_stream_inv
  by (auto simp: credit_begin_recovery_def Let_def split: prod.splits)

lemma credit_step_inv: "manager_inv s \<Longrightarrow> manager_inv (credit_step transmit a s)"
  by (cases a) (simp_all add: credit_add_stream_inv credit_submit_inv credit_acknowledge_inv credit_retire_inv
    credit_begin_recovery_inv)

section \<open>What holds after any sequence of calls\<close>

interpretation matter_credit: credit_window "credit_step transmit" manager_inv "\<lambda>_. True"
  "\<lambda>s. map (\<lambda>f. (cf_sequence f, frame_bytes f)) (cm_outstanding s)"
  "\<lambda>s. (cm_next s - 1, cm_cumulative s)" "\<lambda>s. (cm_ack_sequence s, cm_ack_bytes s)"
  session_report_credit session_byte_credit
  for transmit :: "'w transmitter"
proof
  fix s :: "'w credit_manager" and a assume "manager_inv s"
  then show "manager_inv (credit_step transmit a s)" by (rule credit_step_inv)
next
  fix s :: "'w credit_manager" assume inv: "manager_inv s"
  then have fr: "frames_ok (cm_ack_sequence s) (cm_outstanding s) s" by (simp add: manager_inv_def manager_ok_def)
  show "map fst (map (\<lambda>f. (cf_sequence f, frame_bytes f)) (cm_outstanding s)) =
      [Suc (fst (cm_ack_sequence s, cm_ack_bytes s))..<Suc (fst (cm_next s - 1, cm_cumulative s))]"
    using fr by (simp add: frames_ok_def comp_def del: upt_Suc)
  show "fst (cm_ack_sequence s, cm_ack_bytes s) \<le> fst (cm_next s - 1, cm_cumulative s)"
    using fr by (auto simp: frames_ok_def)
  show "snd (cm_next s - 1, cm_cumulative s) = snd (cm_ack_sequence s, cm_ack_bytes s) +
      sum_list (map snd (map (\<lambda>f. (cf_sequence f, frame_bytes f)) (cm_outstanding s)))"
    using inv by (simp add: manager_inv_def comp_def)
  show "length (map (\<lambda>f. (cf_sequence f, frame_bytes f)) (cm_outstanding s)) \<le> session_report_credit \<and>
      sum_list (map snd (map (\<lambda>f. (cf_sequence f, frame_bytes f)) (cm_outstanding s))) \<le> session_byte_credit"
    using fr by (simp add: frames_ok_def comp_def)
qed

definition credit_reached :: "'w transmitter \<Rightarrow> string \<Rightarrow> 'w \<Rightarrow> credit_call list \<Rightarrow> 'w credit_manager" where
  "credit_reached transmit session w calls = run_actions (credit_step transmit) calls (credit_manager_init session w)"

lemma credit_reached_inv: "manager_inv (credit_reached transmit session w calls)"
  unfolding credit_reached_def by (rule matter_credit.run_inv [OF manager_init_inv]) (simp add: list_all_iff)

text \<open>
  After any sequence of calls, whatever the transmit function answers and whatever the encoders produce, at
  most 64 reports of together at most 1 MiB are unacknowledged and at most 64 of at most 1 MiB wait; the byte
  counters are the sums over those lists, the unacknowledged reports are numbered without gaps from the last
  acknowledged one, and the bytes between the acknowledged and the transmitted position are theirs.  Every stream
  stays within its own window and its queue limit, and only live streams have waiting reports.
\<close>

theorem matter_credit_bounded:
  "let s = credit_reached transmit session w calls
   in length (cm_outstanding s) \<le> 64 \<and> cm_outstanding_bytes s = total_bytes (cm_outstanding s) \<and>
      cm_outstanding_bytes s \<le> 1048576 \<and>
      length (cm_queued s) \<le> 64 \<and> cm_queued_bytes s = total_bytes (cm_queued s) \<and> cm_queued_bytes s \<le> 1048576 \<and>
      map cf_sequence (cm_outstanding s) = [Suc (cm_ack_sequence s)..<cm_next s] \<and>
      cm_ack_bytes s + cm_outstanding_bytes s = cm_cumulative s \<and> cm_cumulative s \<le> u64_max \<and>
      matter_live_count (cm_streams s) \<le> 64 \<and> length (cm_streams s) \<le> 128 \<and>
      (\<forall>k st. map_of (cm_streams s) k = Some st \<longrightarrow>
         ms_outstanding st = frames_of k (cm_outstanding s) \<and> ms_outstanding st \<le> min 16 (ms_queue_limit st) \<and>
         ms_queued st = frames_of k (cm_queued s) \<and> ms_queued st \<le> ms_queue_limit st \<and>
         (0 < ms_queued st \<longrightarrow> ms_live st))"
proof -
  let ?s = "credit_reached transmit session w calls"
  have inv: "manager_inv ?s" by (rule credit_reached_inv)
  then have parts: "frames_ok (cm_ack_sequence ?s) (cm_outstanding ?s) ?s"
    "matter_streams_ok (cm_outstanding ?s) (cm_queued ?s) (cm_streams ?s)" "waiting_ok (cm_queued ?s) ?s"
    "cm_ack_bytes ?s + total_bytes (cm_outstanding ?s) = cm_cumulative ?s"
    by (simp_all add: manager_inv_def manager_ok_def)
  have "matter_fit (cm_outstanding ?s) (cm_queued ?s) k st" if "map_of (cm_streams ?s) k = Some st" for k st
    using parts(2) that by (simp add: matter_streams_ok_def)
  then have streams: "\<forall>k st. map_of (cm_streams ?s) k = Some st \<longrightarrow>
         ms_outstanding st = frames_of k (cm_outstanding ?s) \<and> ms_outstanding st \<le> min 16 (ms_queue_limit st) \<and>
         ms_queued st = frames_of k (cm_queued ?s) \<and> ms_queued st \<le> ms_queue_limit st \<and>
         (0 < ms_queued st \<longrightarrow> ms_live st)"
    by (fastforce simp: matter_fit_def stream_report_credit_def)
  moreover have "matter_live_count (cm_streams ?s) \<le> 64" "length (cm_streams ?s) \<le> 128"
    using parts(2) by (simp_all add: matter_streams_ok_def)
  ultimately show ?thesis
    unfolding Let_def using parts(1,3,4)
    by (intro conjI; (rule streams)?; simp add: frames_ok_def waiting_ok_def session_report_credit_def
      session_byte_credit_def maximum_queued_reports_def maximum_queued_bytes_def)
qed

definition sample_credit :: "unit credit_manager" where
  "sample_credit = credit_reached (\<lambda>w f. (True, w)) ''s'' ()
     [CallAddStream ''a'' 1 1, CallSubmit ''a'' 1 (\<lambda>n. ''x''), CallSubmit ''a'' 1 (\<lambda>n. ''yy'')]"

lemma sample_credit_run:
  "map cf_sequence (cm_outstanding sample_credit) = [1]" "map cf_cumulative (cm_outstanding sample_credit) = [2]"
  "map cf_encoded (cm_queued sample_credit) = [''yy'']"
  "map_of (cm_streams sample_credit) (credit_key ''a'' 1) \<noteq> None"
  by (simp_all add: sample_credit_def credit_reached_def credit_manager_init_def credit_add_stream_def credit_submit_def
    credit_key_def frame_key_def matter_live_count_def can_transmit_def transmit_frame_def enqueue_frame_def
    next_report_byte_count_def credit_limits omap_has_def Let_def digit_char_def add64_def)

theorem matter_credit_bounded_witness:
  "length (cm_outstanding sample_credit) = 1 \<and>
   ms_outstanding (the (map_of (cm_streams sample_credit) (credit_key ''a'' 1))) \<le>
     min 16 (ms_queue_limit (the (map_of (cm_streams sample_credit) (credit_key ''a'' 1))))"
proof
  show "length (cm_outstanding sample_credit) = 1" using arg_cong [OF sample_credit_run(1), of length] by simp
  obtain st where st: "map_of (cm_streams sample_credit) (credit_key ''a'' 1) = Some st"
    using sample_credit_run(4) by auto
  have "ms_outstanding st \<le> min 16 (ms_queue_limit st)"
    using matter_credit_bounded [of "\<lambda>w f. (True, w)" "''s''" "()"
      "[CallAddStream ''a'' 1 1, CallSubmit ''a'' 1 (\<lambda>n. ''x''), CallSubmit ''a'' 1 (\<lambda>n. ''yy'')]"]
    unfolding Let_def sample_credit_def [symmetric] using st by blast
  then show "ms_outstanding (the (map_of (cm_streams sample_credit) (credit_key ''a'' 1))) \<le>
     min 16 (ms_queue_limit (the (map_of (cm_streams sample_credit) (credit_key ''a'' 1))))" using st by simp
qed



end
