(* ===== verification/Matter_Host.thy ===== *)
theory Matter_Host
  imports Matter_Channel Matter_Credit
begin

text \<open>
  The session of the Matter host (\<open>HostProtocol\<close> in \<open>protocol.hpp\<close> and \<open>protocol.cpp\<close>).  The controller is a
  parameter: a line that needs it stops at the call (\<open>PCall\<close>) and continues with the controller's answer, and
  until then the host may be entered again, by the lines a waiting controller pumps, and by its reports, states
  and failures.  The JSON library prints and parses through parameters.
\<close>

section \<open>State\<close>

datatype session_state = AwaitFlow | AwaitOpen | StateOpen | StateClosing | StateClosed

record active_subscription =
  sa_generation :: u64
  sa_queue_limit :: nat
  sa_resubscribe :: bool
  sa_recovering :: bool
  sa_attempt :: nat

text \<open>The sink, whether the channel has failed, and how often the failure callback was called.\<close>

record 'w host_channel =
  hc_sink :: 'w
  hc_failed :: bool
  hc_failures :: nat

record 'w host_env =
  he_parser :: json_parser
  he_dump :: "json \<Rightarrow> string"
  he_sink :: "'w transmitter"

text \<open>
  \<open>mh_released\<close> counts how often \<open>Close\<close> released the controller.  The channel is kept in one place and lent to
  the report flow for the time of a call.
\<close>

record 'w matter_host =
  mh_state :: session_state
  mh_channel :: "'w host_channel"
  mh_flow :: "'w host_channel credit_manager option"
  mh_session :: string
  mh_greatest :: u64
  mh_fabric :: u64
  mh_depth :: nat
  mh_close_requested :: bool
  mh_cancellation :: bool
  mh_subscriptions :: "(string \<times> active_subscription) list"
  mh_released :: nat

definition host_init :: "'w \<Rightarrow> 'w matter_host" where
  "host_init w = \<lparr>mh_state = AwaitFlow, mh_channel = \<lparr>hc_sink = w, hc_failed = False, hc_failures = 0\<rparr>, mh_flow = None,
     mh_session = [], mh_greatest = 0, mh_fabric = 0, mh_depth = 0, mh_close_requested = False, mh_cancellation = False,
     mh_subscriptions = [], mh_released = 0\<rparr>"

record process_result =
  po_keep :: bool
  po_frame :: "string option"
  po_activate :: "(string \<times> u64) option"

definition stopped :: process_result where
  "stopped = \<lparr>po_keep = False, po_frame = None, po_activate = None\<rparr>"

record subscription_response =
  sx_ok :: bool
  sx_error_code :: string
  sx_subscription_id :: string
  sx_generation :: u64
  sx_min_interval_s :: nat
  sx_max_interval_s :: nat
  sx_sdk_subscription_id :: nat

datatype subscription_status_kind = Resubscribing | Resubscribed
datatype subscription_continuity = ContinuityLost | ContinuityUnknown

record subscription_status =
  ss_subscription_id :: string
  ss_generation :: u64
  ss_status :: subscription_status_kind
  ss_continuity :: subscription_continuity
  ss_attempt :: nat
  ss_min_interval_s :: nat
  ss_max_interval_s :: nat
  ss_sdk_subscription_id :: nat

text \<open>A call of the controller, with the request it serves.\<close>

datatype backend_call =
    BackendOpen json native_open_options
  | BackendCommission json commissioning_request
  | BackendWindow json window_request
  | BackendSubscribe json subscription_request
  | BackendAbandon json string u64 nat
  | BackendCancel json string u64 nat
  | BackendInteract json interaction_request

datatype backend_answer =
    AnswerResult bool string
  | AnswerCommission commissioning_response
  | AnswerWindow window_response
  | AnswerSubscribe subscription_response
  | AnswerInteract interaction_response

datatype process_step = PDone process_result | PCall backend_call | PUndefined

section \<open>Channel\<close>

definition fail_channel :: "'w host_channel \<Rightarrow> 'w host_channel" where
  "fail_channel c = (if hc_failed c then c else c\<lparr>hc_failed := True, hc_failures := hc_failures c + 1\<rparr>)"

definition write_frame :: "'w transmitter \<Rightarrow> 'w host_channel transmitter" where
  "write_frame sink c frame =
     (if hc_failed c then (False, c)
      else let (ok, w) = sink (hc_sink c) frame
           in if ok then (True, c\<lparr>hc_sink := w\<rparr>) else (False, fail_channel (c\<lparr>hc_sink := w\<rparr>)))"

definition host_healthy :: "'w matter_host \<Rightarrow> bool" where
  "host_healthy h \<longleftrightarrow> \<not> hc_failed (mh_channel h)"

definition host_fail :: "'w matter_host \<Rightarrow> 'w matter_host" where
  "host_fail h = h\<lparr>mh_channel := fail_channel (mh_channel h)\<rparr>"

definition host_write :: "'w host_env \<Rightarrow> json \<Rightarrow> 'w matter_host \<Rightarrow> bool \<times> 'w matter_host" where
  "host_write env j h =
     (let (ok, c) = write_frame (he_sink env) (mh_channel h) (he_dump env j) in (ok, h\<lparr>mh_channel := c\<rparr>))"

text \<open>A call of the report flow; without one the result is \<open>False\<close>.\<close>

definition with_flow ::
  "('w host_channel credit_manager \<Rightarrow> 'r \<times> 'w host_channel credit_manager) \<Rightarrow> 'r \<Rightarrow> 'w matter_host \<Rightarrow> 'r \<times> 'w matter_host"
where
  "with_flow call absent h =
     (case mh_flow h of
        None \<Rightarrow> (absent, h)
      | Some m \<Rightarrow>
          (let (r, m') = call (m\<lparr>cm_world := mh_channel h\<rparr>) in (r, h\<lparr>mh_flow := Some m', mh_channel := cm_world m'\<rparr>)))"

definition stream_live :: "string \<Rightarrow> u64 \<Rightarrow> 'w matter_host \<Rightarrow> bool" where
  "stream_live k g h = (case mh_flow h of None \<Rightarrow> False | Some m \<Rightarrow> credit_is_live k g m)"

definition stream_is_retired :: "string \<Rightarrow> u64 \<Rightarrow> 'w matter_host \<Rightarrow> bool" where
  "stream_is_retired k g h = (case mh_flow h of None \<Rightarrow> False | Some m \<Rightarrow> credit_is_retired k g m)"

definition flow_last :: "string \<Rightarrow> u64 \<Rightarrow> 'w matter_host \<Rightarrow> u64" where
  "flow_last k g h = (case mh_flow h of None \<Rightarrow> 0 | Some m \<Rightarrow> credit_last_transmitted k g m)"

section \<open>Closing\<close>

definition request_close :: "'w matter_host \<Rightarrow> 'w matter_host" where
  "request_close h =
     (let h = h\<lparr>mh_close_requested := True\<rparr>
      in if mh_state h \<noteq> StateClosed then h\<lparr>mh_state := StateClosing\<rparr> else h)"

definition host_close :: "'w matter_host \<Rightarrow> 'w matter_host" where
  "host_close h =
     (if mh_depth h > 1 then request_close h
      else if mh_state h = StateClosed then h
      else h\<lparr>mh_state := StateClosed, mh_released := mh_released h + 1, mh_flow := None, mh_subscriptions := []\<rparr>)"

section \<open>Reports, states and failures\<close>

definition stream_frame :: "'w matter_host \<Rightarrow> string \<Rightarrow> string \<Rightarrow> u64 \<Rightarrow> (string \<times> json) list \<Rightarrow> json" where
  "stream_frame h event k g extra = json_object ([(''version'', JUnsigned 1), (''event'', JString event),
     (''session_generation'', JString (mh_session h)), (''subscription_id'', JString k), (''generation'', JUnsigned g)] @ extra)"

definition barrier_frame :: "string \<Rightarrow> u64 \<Rightarrow> 'w matter_host \<Rightarrow> json" where
  "barrier_frame k g h = stream_frame h ''stream_retired'' k g [(''last_report_sequence'', JUnsigned (flow_last k g h))]"

definition host_retire :: "'w host_env \<Rightarrow> string \<Rightarrow> u64 \<Rightarrow> 'w matter_host \<Rightarrow> bool \<times> 'w matter_host" where
  "host_retire env k g h =
     with_flow (credit_retire_stream (write_frame (he_sink env)) k g (he_dump env (barrier_frame k g h))) False h"

text \<open>The end of a stream after a failure: the error, the barrier, and the subscription is forgotten.\<close>

definition stream_failed :: "'w host_env \<Rightarrow> string \<Rightarrow> u64 \<Rightarrow> interaction_error \<Rightarrow> 'w matter_host \<Rightarrow> 'w matter_host" where
  "stream_failed env k g e h =
     (let (ok, h) = host_write env (stream_frame h ''subscription_error'' k g [(''error'', error_json e)]) h
      in if \<not> ok then h
         else let (retired, h) = host_retire env k g h;
                  h = (if retired then h else host_fail h)
              in h\<lparr>mh_subscriptions := omap_del k (mh_subscriptions h)\<rparr>)"

definition queue_overflow :: interaction_error where
  "queue_overflow = \<lparr>ie_code = ''queue_overflow'', ie_status = None, ie_cluster_status = None, ie_effect = EffectNone\<rparr>"

text \<open>
  \<open>EmitReport\<close>.  The encoder reads the option of the kind of the report: without it the behaviour is undefined,
  \<open>None\<close>, unless the flow fails before it encodes.
\<close>

definition emit_report :: "'w host_env \<Rightarrow> subscription_report \<Rightarrow> 'w matter_host \<Rightarrow> (bool \<times> 'w matter_host) option" where
  "emit_report env r h =
     (let k = rp_subscription_id r; g = rp_generation r
      in if \<not> host_healthy h \<or> mh_state h \<noteq> StateOpen \<or> \<not> stream_live k g h then Some (False, h)
         else if report_body r = None \<and> (case mh_flow h of None \<Rightarrow> False | Some m \<Rightarrow> cm_next m \<noteq> u64_max) then None
         else let encode = (\<lambda>sequence. he_dump env (the (subscription_frame r (mh_session h) sequence)));
                  (result, h) = with_flow (credit_submit (write_frame (he_sink env)) k g encode) SubmitInvalid h
              in Some (case result of
                         SubmitTransmitted \<Rightarrow> (True, h)
                       | SubmitQueued \<Rightarrow> (True, h)
                       | SubmitOverflow \<Rightarrow> (False, stream_failed env k g queue_overflow h)
                       | SubmitInvalid \<Rightarrow> (False, host_fail h)))"

definition emit_failure :: "'w host_env \<Rightarrow> string \<Rightarrow> u64 \<Rightarrow> interaction_error \<Rightarrow> 'w matter_host \<Rightarrow> 'w matter_host" where
  "emit_failure env k g e h =
     (if \<not> host_healthy h \<or> mh_state h \<noteq> StateOpen \<or> \<not> stream_live k g h then h else stream_failed env k g e h)"

definition resubscribing_ok :: "active_subscription \<Rightarrow> subscription_status \<Rightarrow> bool" where
  "resubscribing_ok a status \<longleftrightarrow>
     \<not> ((\<not> sa_recovering a \<and> (sa_generation a = u64_max \<or> ss_generation status \<noteq> sa_generation a + 1 \<or> ss_attempt status \<noteq> 1)) \<or>
        (sa_recovering a \<and> (ss_generation status \<noteq> sa_generation a \<or> ss_attempt status \<noteq> sa_attempt a + 1)) \<or>
        ss_continuity status \<noteq> ContinuityLost)"

definition status_frame :: "'w matter_host \<Rightarrow> subscription_status \<Rightarrow> string \<Rightarrow> string \<Rightarrow> (string \<times> json) list \<Rightarrow> json" where
  "status_frame h status name continuity extra =
     stream_frame h ''subscription_status'' (ss_subscription_id status) (ss_generation status)
       ([(''status'', JString name), (''continuity'', JString continuity), (''attempt'', JUnsigned (ss_attempt status))] @ extra)"

definition put_subscription :: "string \<Rightarrow> active_subscription \<Rightarrow> 'w matter_host \<Rightarrow> 'w matter_host" where
  "put_subscription k a h = h\<lparr>mh_subscriptions := omap_put k a (mh_subscriptions h)\<rparr>"

definition emit_resubscribing ::
  "'w host_env \<Rightarrow> subscription_status \<Rightarrow> active_subscription \<Rightarrow> 'w matter_host \<Rightarrow> bool \<times> 'w matter_host" where
  "emit_resubscribing env status a h =
     (let k = ss_subscription_id status; g = sa_generation a
      in if \<not> resubscribing_ok a status then (False, h)
         else let (ok, h) = host_write env (status_frame h status ''resubscribing'' ''lost'' []) h
              in if \<not> ok then (False, h)
                 else if sa_recovering a then (True, put_subscription k (a\<lparr>sa_attempt := ss_attempt status\<rparr>) h)
                 else let (started, h) = with_flow (credit_begin_recovery (write_frame (he_sink env)) k g
                            (ss_generation status) (sa_queue_limit a) (he_dump env (barrier_frame k g h))) False h
                      in if \<not> started then (False, host_fail h)
                         else (True, put_subscription k (a\<lparr>sa_generation := ss_generation status, sa_recovering := True,
                                sa_attempt := ss_attempt status\<rparr>) h))"

definition emit_status :: "'w host_env \<Rightarrow> subscription_status \<Rightarrow> 'w matter_host \<Rightarrow> bool \<times> 'w matter_host" where
  "emit_status env status h =
     (if \<not> host_healthy h \<or> mh_state h \<noteq> StateOpen \<or> mh_flow h = None \<or> ss_subscription_id status = [] \<or>
         ss_generation status = 0 \<or> ss_attempt status = 0 \<or> ss_attempt status > 5
      then (False, h)
      else case map_of (mh_subscriptions h) (ss_subscription_id status) of
             None \<Rightarrow> (False, h)
           | Some a \<Rightarrow>
               (if \<not> sa_resubscribe a then (False, h)
                else if ss_status status = Resubscribing then emit_resubscribing env status a h
                else if \<not> sa_recovering a \<or> sa_generation a \<noteq> ss_generation status \<or> sa_attempt a \<noteq> ss_attempt status \<or>
                        ss_continuity status \<noteq> ContinuityUnknown \<or> ss_max_interval_s status = 0 \<or>
                        ss_min_interval_s status > ss_max_interval_s status
                then (False, h)
                else let (ok, h) = host_write env (status_frame h status ''resubscribed'' ''unknown''
                           [(''min_interval_s'', JUnsigned (ss_min_interval_s status)),
                            (''max_interval_s'', JUnsigned (ss_max_interval_s status)),
                            (''sdk_subscription_id'', JUnsigned (ss_sdk_subscription_id status))]) h
                     in if \<not> ok then (False, h)
                        else (True, put_subscription (ss_subscription_id status)
                                (a\<lparr>sa_recovering := False, sa_attempt := 0\<rparr>) h)))"

section \<open>Lines\<close>

definition reply :: "'w host_env \<Rightarrow> json \<Rightarrow> process_step" where
  "reply env j = PDone \<lparr>po_keep = True, po_frame = Some (he_dump env j), po_activate = None\<rparr>"

definition last_reply :: "'w host_env \<Rightarrow> json \<Rightarrow> process_step" where
  "last_reply env j = PDone \<lparr>po_keep = False, po_frame = Some (he_dump env j), po_activate = None\<rparr>"

definition silent :: process_step where
  "silent = PDone \<lparr>po_keep = True, po_frame = None, po_activate = None\<rparr>"

text \<open>Every early return that closes the session.\<close>

definition close_silently :: "'w matter_host \<Rightarrow> process_step \<times> 'w matter_host" where
  "close_silently h = (PDone stopped, host_close h)"

definition flow_open_line :: "json \<Rightarrow> 'w matter_host \<Rightarrow> process_step \<times> 'w matter_host" where
  "flow_open_line request h =
     (case canonical_generation (json_at request ''session_generation'') of
        None \<Rightarrow> close_silently h
      | Some generation \<Rightarrow>
          if \<not> json_exact request [''version'', ''event'', ''session_generation''] \<or>
             \<not> json_is_number_unsigned (json_at request ''version'') \<or> json_u64 (json_at request ''version'') \<noteq> 1 \<or>
             json_at request ''event'' \<noteq> JString ''flow_open''
          then close_silently h
          else (silent, h\<lparr>mh_session := generation,
                  mh_flow := Some (credit_manager_init generation (mh_channel h)), mh_state := AwaitOpen\<rparr>))"

definition acknowledge_fields :: "string list" where
  "acknowledge_fields = [''version'', ''event'', ''session_generation'', ''report_sequence'', ''acknowledged_bytes'']"

definition acknowledge_line :: "'w host_env \<Rightarrow> json \<Rightarrow> 'w matter_host \<Rightarrow> process_step \<times> 'w matter_host" where
  "acknowledge_line env request h =
     (let valid = (json_is_number_unsigned (json_at request ''version'') \<and> json_u64 (json_at request ''version'') = 1 \<and>
            json_at request ''event'' = JString ''report_ack'' \<and>
            canonical_generation (json_at request ''session_generation'') = Some (mh_session h) \<and>
            unsigned_at_most (json_at request ''report_sequence'') u64_max \<noteq> None \<and>
            unsigned_at_most (json_at request ''acknowledged_bytes'') u64_max \<noteq> None);
          (accepted, h) =
            (if valid
             then with_flow (credit_acknowledge (write_frame (he_sink env)) (json_u64 (json_at request ''report_sequence''))
                    (json_u64 (json_at request ''acknowledged_bytes''))) False h
             else (False, h))
      in if accepted then (silent, h) else close_silently (host_fail h))"

definition request_timeout :: "json \<Rightarrow> nat" where
  "request_timeout request = u32_cast (json_u64 (json_at request ''timeout_ms''))"

definition open_line :: "'w host_env \<Rightarrow> json \<Rightarrow> 'w matter_host \<Rightarrow> process_step \<times> 'w matter_host" where
  "open_line env request h =
     (case open_options (json_at request ''parameters'') of
        None \<Rightarrow> (last_reply env (matter_failure request ''invalid_request''), host_close h)
      | Some options \<Rightarrow>
          if json_at request ''operation'' \<noteq> JString ''open''
          then (last_reply env (matter_failure request ''invalid_request''), host_close h)
          else (PCall (BackendOpen request (options\<lparr>no_timeout_ms := request_timeout request\<rparr>)), h))"

definition unsubscribe_line :: "'w host_env \<Rightarrow> json \<Rightarrow> 'w matter_host \<Rightarrow> process_step \<times> 'w matter_host" where
  "unsubscribe_line env request h =
     (if mh_cancellation h then (reply env (matter_failure request ''subscription_busy''), h)
      else case unsubscribe_parameters (json_at request ''parameters'') of
             None \<Rightarrow> (reply env (matter_failure request ''invalid_request''), h)
           | Some (k, g) \<Rightarrow>
               if (case map_of (mh_subscriptions h) k of None \<Rightarrow> False | Some a \<Rightarrow> sa_generation a \<noteq> g)
               then (reply env (matter_failure request ''invalid_subscription''), h)
               else if stream_is_retired k g h then (reply env (matter_success request JNull), h)
               else if \<not> stream_live k g h then (reply env (matter_failure request ''invalid_subscription''), h)
               else (PCall (BackendCancel request k g (request_timeout request)), h\<lparr>mh_cancellation := True\<rparr>))"

definition interaction_line :: "'w host_env \<Rightarrow> json \<Rightarrow> 'w matter_host \<Rightarrow> process_step \<times> 'w matter_host" where
  "interaction_line env request h =
     (let parameters = json_at request ''parameters''; operation = json_text (json_at request ''operation'')
      in if json_contains parameters ''fabric_id'' \<and> json_is_number_unsigned (json_at parameters ''fabric_id'') \<and>
            json_u64 (json_at parameters ''fabric_id'') \<noteq> mh_fabric h
         then (reply env (matter_failure request ''fabric_mismatch''), h)
         else case interaction_parameters operation parameters (request_timeout request) of
                None \<Rightarrow> (PUndefined, h)
              | Some (Some q) \<Rightarrow>
                  if iq_fabric_id q \<noteq> mh_fabric h then (reply env (matter_failure request ''fabric_mismatch''), h)
                  else (PCall (BackendInteract request q), h)
              | Some None \<Rightarrow>
                  if single_operation operation \<or> paths_operation operation
                  then (reply env (matter_failure request ''invalid_request''), h)
                  else (reply env (matter_failure request ''not_supported''), h))"

definition operation_line :: "'w host_env \<Rightarrow> json \<Rightarrow> 'w matter_host \<Rightarrow> process_step \<times> 'w matter_host" where
  "operation_line env request h =
     (let parameters = json_at request ''parameters''; operation = json_text (json_at request ''operation'');
          timeout = request_timeout request
      in if operation = ''close'' \<and> json_entries parameters = []
         then (last_reply env (matter_success request JNull), host_close h)
         else if operation = ''health'' \<and> json_entries parameters = []
         then (reply env (matter_success request (json_object [(''status'', JString ''ready''),
                 (''fabric_id'', JUnsigned (mh_fabric h))])), h)
         else if mh_depth h > 1 \<and> operation \<noteq> ''unsubscribe''
         then (reply env (matter_failure request ''interaction_busy''), h)
         else if operation = ''commission_on_network''
         then (case commissioning_parameters parameters timeout of
                 None \<Rightarrow> (reply env (matter_failure request ''invalid_request''), h)
               | Some q \<Rightarrow> (PCall (BackendCommission request q), h))
         else if operation = ''open_window''
         then (case window_parameters parameters timeout of
                 None \<Rightarrow> (reply env (matter_failure request ''invalid_request''), h)
               | Some q \<Rightarrow> (PCall (BackendWindow request q), h))
         else if operation = ''subscribe''
         then (case subscription_parameters parameters timeout of
                 None \<Rightarrow> (reply env (matter_failure request ''invalid_request''), h)
               | Some q \<Rightarrow>
                   if sr_fabric_id q \<noteq> mh_fabric h then (reply env (matter_failure request ''fabric_mismatch''), h)
                   else (PCall (BackendSubscribe request q), h))
         else if operation = ''unsubscribe'' then unsubscribe_line env request h
         else interaction_line env request h)"

text \<open>A request in an envelope, after the checks on its number.\<close>

definition numbered_line :: "'w host_env \<Rightarrow> json \<Rightarrow> u64 \<Rightarrow> 'w matter_host \<Rightarrow> process_step \<times> 'w matter_host" where
  "numbered_line env request n h =
     (if (is_close request \<and> mh_state h \<noteq> StateOpen) \<or> (\<not> is_close request \<and> n \<le> mh_greatest h) then close_silently h
      else let h = (if is_close request then h else h\<lparr>mh_greatest := n\<rparr>)
           in if mh_state h = AwaitOpen then open_line env request h
              else if mh_state h \<noteq> StateOpen then (PDone stopped, h)
              else operation_line env request h)"

definition process_line_impl :: "'w host_env \<Rightarrow> string \<Rightarrow> 'w matter_host \<Rightarrow> process_step \<times> 'w matter_host" where
  "process_line_impl env line h =
     (if \<not> host_healthy h then close_silently h
      else (case parse_bounded (he_parser env) line of
              None \<Rightarrow> close_silently h
            | Some request \<Rightarrow>
                (if mh_state h = AwaitFlow then flow_open_line request h
                 else if mh_state h = StateOpen \<and> json_exact request acknowledge_fields then acknowledge_line env request h
                 else (case valid_request_envelope request of
                         None \<Rightarrow> close_silently h
                       | Some n \<Rightarrow> numbered_line env request n h))))"

section \<open>Answers of the controller\<close>

definition code_or :: "string \<Rightarrow> string \<Rightarrow> string" where
  "code_or code fallback = (if code = [] then fallback else code)"

definition answer_open ::
  "'w host_env \<Rightarrow> json \<Rightarrow> native_open_options \<Rightarrow> bool \<Rightarrow> string \<Rightarrow> 'w matter_host \<Rightarrow> process_step \<times> 'w matter_host" where
  "answer_open env request options ok code h =
     (if \<not> ok then (last_reply env (matter_failure request (code_or code ''controller_start_failed'')), host_close h)
      else (reply env (matter_success request (json_object [(''lifecycle'', JString ''persistent''),
              (''fabric_id'', JUnsigned (no_fabric_id options)),
              (''controller_node_id'', JUnsigned (no_controller_node_id options)),
              (''vendor_id'', JUnsigned (no_vendor_id options))])),
            h\<lparr>mh_fabric := no_fabric_id options, mh_state := StateOpen\<rparr>))"

definition answer_commission ::
  "'w host_env \<Rightarrow> json \<Rightarrow> commissioning_request \<Rightarrow> commissioning_response \<Rightarrow> process_step" where
  "answer_commission env request q r =
     (if \<not> valid_commissioning_response q r then reply env (backend_failure request ''invalid_backend_result'')
      else if \<not> mr_ok r
      then (case mr_error r of None \<Rightarrow> PUndefined | Some e \<Rightarrow> reply env (commissioning_failure request e))
      else reply env (matter_success request (json_object [(''node_id'', JUnsigned (mr_node_id r)),
             (''fabric_id'', JUnsigned (mr_fabric_id r)), (''case'', JString ''established'')])))"

definition answer_window :: "'w host_env \<Rightarrow> json \<Rightarrow> window_request \<Rightarrow> window_response \<Rightarrow> process_step" where
  "answer_window env request q r =
     (if \<not> valid_window_response q r then reply env (backend_failure request ''invalid_backend_result'')
      else if \<not> wr_ok r
      then (case wr_error r of None \<Rightarrow> PUndefined | Some e \<Rightarrow> reply env (commissioning_failure request e))
      else reply env (matter_success request (json_object [(''node_id'', JUnsigned (wr_node_id r)),
             (''setup_pin'', JUnsigned (wr_setup_pin r)), (''discriminator'', JUnsigned (wr_discriminator r)),
             (''manual_code'', JString (wr_manual_code r)), (''qr_code'', JString (wr_qr_code r)),
             (''expires_in_s'', JUnsigned (wr_expires_in_s r))])))"

definition subscribed_result :: "subscription_response \<Rightarrow> json" where
  "subscribed_result r = json_object [(''subscription_id'', JString (sx_subscription_id r)),
     (''generation'', JUnsigned (sx_generation r)), (''min_interval_s'', JUnsigned (sx_min_interval_s r)),
     (''max_interval_s'', JUnsigned (sx_max_interval_s r)), (''sdk_subscription_id'', JUnsigned (sx_sdk_subscription_id r))]"

definition answer_subscribe ::
  "'w host_env \<Rightarrow> json \<Rightarrow> subscription_request \<Rightarrow> subscription_response \<Rightarrow> 'w matter_host \<Rightarrow> process_step \<times> 'w matter_host" where
  "answer_subscribe env request q r h =
     (let k = sx_subscription_id r; g = sx_generation r
      in if \<not> sx_ok r then (reply env (matter_failure request (code_or (sx_error_code r) ''subscription_failed'')), h)
         else if k \<noteq> sr_subscription_id q \<or> g = 0 \<or> sx_max_interval_s r = 0 \<or> sx_min_interval_s r > sx_max_interval_s r
         then (reply env (backend_failure request ''invalid_backend_result''), h)
         else let (admitted, h) = with_flow (credit_add_stream k g (sr_queue_limit q)) False h
              in if \<not> admitted then (PCall (BackendAbandon request k g (sr_timeout_ms q)), h)
                 else (PDone \<lparr>po_keep = True, po_frame = Some (he_dump env (matter_success request (subscribed_result r))),
                         po_activate = Some (k, g)\<rparr>,
                       h\<lparr>mh_subscriptions := omap_emplace k \<lparr>sa_generation = g, sa_queue_limit = sr_queue_limit q,
                         sa_resubscribe = sr_resubscribe q, sa_recovering = False, sa_attempt = 0\<rparr> (mh_subscriptions h)\<rparr>))"

definition answer_cancel ::
  "'w host_env \<Rightarrow> json \<Rightarrow> string \<Rightarrow> u64 \<Rightarrow> bool \<Rightarrow> string \<Rightarrow> 'w matter_host \<Rightarrow> process_step \<times> 'w matter_host" where
  "answer_cancel env request k g ok code h =
     (if (case map_of (mh_subscriptions h) k of
            None \<Rightarrow> True
          | Some a \<Rightarrow> sa_generation a = g \<and> stream_is_retired k g h)
      then (reply env (matter_success request JNull), h)
      else if \<not> ok then (reply env (matter_failure request (code_or code ''invalid_subscription'')), h)
      else let (retired, h) = (if stream_live k g h then host_retire env k g h else (False, h))
           in if \<not> retired then close_silently h
              else (reply env (matter_success request JNull),
                    h\<lparr>mh_subscriptions := omap_del k (mh_subscriptions h)\<rparr>))"

definition answer_interact ::
  "'w host_env \<Rightarrow> json \<Rightarrow> interaction_request \<Rightarrow> interaction_response \<Rightarrow> process_step" where
  "answer_interact env request q r =
     (if \<not> ir_ok r
      then (case ir_error r of
              None \<Rightarrow> reply env (backend_failure request ''invalid_backend_result'')
            | Some e \<Rightarrow>
                if ie_code e = [] then reply env (backend_failure request ''invalid_backend_result'')
                else reply env (interaction_failure request e))
      else case (iq_kind q, map pr_error (ir_results r)) of
             (ReadAttribute, [Some e]) \<Rightarrow> reply env (interaction_failure request e)
           | _ \<Rightarrow>
               (case interaction_json q r of
                  None \<Rightarrow> PUndefined
                | Some None \<Rightarrow> reply env (backend_failure request ''invalid_backend_result'')
                | Some (Some j) \<Rightarrow>
                    if \<not> valid_encoded_result_size (length (he_dump env j))
                    then reply env (backend_failure request ''response_limit'')
                    else reply env (matter_success request j)))"

text \<open>
  The rest of a line after the controller has answered.  A session that is to be closed, or whose channel has
  failed, gives no reply; the answer to abandoning a stream that was not admitted is ignored.
\<close>

fun resume_call :: "'w host_env \<Rightarrow> backend_call \<Rightarrow> backend_answer \<Rightarrow> 'w matter_host \<Rightarrow> process_step \<times> 'w matter_host" where
  "resume_call env (BackendAbandon request k g t) a h = (reply env (matter_failure request ''subscription_busy''), h)"
| "resume_call env (BackendCancel request k g t) (AnswerResult ok code) h =
     (let h = h\<lparr>mh_cancellation := False\<rparr>
      in if mh_close_requested h \<or> \<not> host_healthy h then (PDone stopped, h) else answer_cancel env request k g ok code h)"
| "resume_call env (BackendOpen request options) (AnswerResult ok code) h =
     (if mh_close_requested h \<or> \<not> host_healthy h then (PDone stopped, h) else answer_open env request options ok code h)"
| "resume_call env (BackendCommission request q) (AnswerCommission r) h =
     (if mh_close_requested h \<or> \<not> host_healthy h then (PDone stopped, h) else (answer_commission env request q r, h))"
| "resume_call env (BackendWindow request q) (AnswerWindow r) h =
     (if mh_close_requested h \<or> \<not> host_healthy h then (PDone stopped, h) else (answer_window env request q r, h))"
| "resume_call env (BackendSubscribe request q) (AnswerSubscribe r) h =
     (if mh_close_requested h \<or> \<not> host_healthy h then (PDone stopped, h) else answer_subscribe env request q r h)"
| "resume_call env (BackendInteract request q) (AnswerInteract r) h =
     (if mh_close_requested h \<or> \<not> host_healthy h then (PDone stopped, h) else (answer_interact env request q r, h))"
| "resume_call env c a h = (PUndefined, h)"

text \<open>The end of \<open>ProcessLine\<close>, after the depth has been restored.\<close>

definition finish_line :: "process_result \<Rightarrow> 'w matter_host \<Rightarrow> process_result \<times> 'w matter_host" where
  "finish_line r h =
     (let h = h\<lparr>mh_depth := mh_depth h - 1\<rparr>
      in if mh_depth h = 0 \<and> (mh_close_requested h \<or> \<not> host_healthy h) then (stopped, host_close h) else (r, h))"

section \<open>Runs\<close>

datatype host_event =
    HostLine string
  | HostAnswer backend_answer
  | HostReport subscription_report
  | HostStatus subscription_status
  | HostFailure string u64 interaction_error
  | HostRequestClose
  | HostClose

text \<open>
  The calls of the controller that wait for an answer, the innermost first, the results of the lines, all calls so
  far, and whether the code has left its defined behaviour.  A line runs in one step up to its next call.
\<close>

record 'w host_run =
  hr_host :: "'w matter_host"
  hr_calls :: "backend_call list"
  hr_results :: "process_result list"
  hr_issued :: "backend_call list"
  hr_undefined :: bool

definition run_init :: "'w \<Rightarrow> 'w host_run" where
  "run_init w = \<lparr>hr_host = host_init w, hr_calls = [], hr_results = [], hr_issued = [], hr_undefined = False\<rparr>"

definition advance :: "process_step \<times> 'w matter_host \<Rightarrow> 'w host_run \<Rightarrow> 'w host_run" where
  "advance p r =
     (case p of
        (PDone x, h) \<Rightarrow> (let (x, h) = finish_line x h in r\<lparr>hr_host := h, hr_results := hr_results r @ [x]\<rparr>)
      | (PCall c, h) \<Rightarrow> r\<lparr>hr_host := h, hr_calls := c # hr_calls r, hr_issued := hr_issued r @ [c]\<rparr>
      | (PUndefined, h) \<Rightarrow> r\<lparr>hr_host := h, hr_undefined := True\<rparr>)"

fun answer_fits :: "backend_call \<Rightarrow> backend_answer \<Rightarrow> bool" where
  "answer_fits (BackendOpen _ _) (AnswerResult _ _) = True"
| "answer_fits (BackendCommission _ _) (AnswerCommission _) = True"
| "answer_fits (BackendWindow _ _) (AnswerWindow _) = True"
| "answer_fits (BackendSubscribe _ _) (AnswerSubscribe _) = True"
| "answer_fits (BackendAbandon _ _ _ _) (AnswerResult _ _) = True"
| "answer_fits (BackendCancel _ _ _ _) (AnswerResult _ _) = True"
| "answer_fits (BackendInteract _ _) (AnswerInteract _) = True"
| "answer_fits _ _ = False"

fun is_open_call :: "backend_call \<Rightarrow> bool" where
  "is_open_call (BackendOpen _ _) = True"
| "is_open_call _ = False"

text \<open>
  What the surroundings of the host can do: the controller answers its innermost call with the result of that
  call, pumps no line while it opens, and emits only reports its buffers admitted; the session is closed from
  outside between two lines.
\<close>

fun host_possible :: "host_event \<Rightarrow> 'w host_run \<Rightarrow> bool" where
  "host_possible (HostLine line) r = (case hr_calls r of [] \<Rightarrow> True | c # cs \<Rightarrow> \<not> is_open_call c)"
| "host_possible (HostAnswer a) r = (case hr_calls r of [] \<Rightarrow> False | c # cs \<Rightarrow> answer_fits c a)"
| "host_possible (HostReport p) r = (report_body p \<noteq> None)"
| "host_possible HostClose r = (hr_calls r = [])"
| "host_possible _ r = True"

fun host_act :: "'w host_env \<Rightarrow> host_event \<Rightarrow> 'w host_run \<Rightarrow> 'w host_run" where
  "host_act env (HostLine line) r =
     (let h = hr_host r in advance (process_line_impl env line (h\<lparr>mh_depth := mh_depth h + 1\<rparr>)) r)"
| "host_act env (HostAnswer a) r =
     (case hr_calls r of
        [] \<Rightarrow> r
      | c # cs \<Rightarrow> advance (resume_call env c a (hr_host r)) (r\<lparr>hr_calls := cs\<rparr>))"
| "host_act env (HostReport p) r =
     (case emit_report env p (hr_host r) of None \<Rightarrow> r\<lparr>hr_undefined := True\<rparr> | Some (ok, h) \<Rightarrow> r\<lparr>hr_host := h\<rparr>)"
| "host_act env (HostStatus s) r = r\<lparr>hr_host := snd (emit_status env s (hr_host r))\<rparr>"
| "host_act env (HostFailure k g e) r = r\<lparr>hr_host := emit_failure env k g e (hr_host r)\<rparr>"
| "host_act env HostRequestClose r = r\<lparr>hr_host := request_close (hr_host r)\<rparr>"
| "host_act env HostClose r = r\<lparr>hr_host := host_close (hr_host r)\<rparr>"

definition host_step :: "'w host_env \<Rightarrow> host_event \<Rightarrow> 'w host_run \<Rightarrow> 'w host_run" where
  "host_step env e r = (if host_possible e r then host_act env e r else r)"

definition host_reached :: "'w host_env \<Rightarrow> 'w \<Rightarrow> host_event list \<Rightarrow> 'w host_run" where
  "host_reached env w es = run_actions (host_step env) es (run_init w)"

section \<open>Live streams of the report flow\<close>

definition live_key :: "'w credit_manager \<Rightarrow> string \<Rightarrow> bool" where
  "live_key m key = (case map_of (cm_streams m) key of None \<Rightarrow> False | Some st \<Rightarrow> ms_live st)"

lemma credit_is_live_key: "credit_is_live k g m = live_key m (credit_key k g)"
  by (simp add: credit_is_live_def live_key_def)

lemma live_key_put:
  "cm_streams m' = omap_put key st (cm_streams m) \<Longrightarrow> live_key m' j = (if j = key then ms_live st else live_key m j)"
  by (simp add: live_key_def)

lemma live_key_same: "cm_streams m' = cm_streams m \<Longrightarrow> live_key m' = live_key m"
  by (simp add: live_key_def fun_eq_iff)

lemma live_key_updates [simp]:
  "live_key (m\<lparr>cm_queued := q\<rparr>) = live_key m" "live_key (m\<lparr>cm_outstanding := q\<rparr>) = live_key m"
  "live_key (m\<lparr>cm_world := w\<rparr>) = live_key m" "live_key (m\<lparr>cm_queued_bytes := n\<rparr>) = live_key m"
  "live_key (m\<lparr>cm_outstanding_bytes := n\<rparr>) = live_key m" "live_key (m\<lparr>cm_ack_sequence := n\<rparr>) = live_key m"
  "live_key (m\<lparr>cm_ack_bytes := n\<rparr>) = live_key m"
  by (rule live_key_same; simp)+

lemma live_transmit: "live_key (snd (transmit_frame transmit f m)) = live_key m"
  unfolding transmit_frame_def Let_def
  by (auto simp: live_key_def fun_eq_iff split: option.splits prod.splits)

lemma live_transmitted: "transmit_frame transmit f m = (b, m') \<Longrightarrow> live_key m' = live_key m"
  using live_transmit [of transmit f m] by simp

lemma live_submit: "live_key (snd (credit_submit transmit k g encode m)) = live_key m"
proof -
  have "live_key (snd (enqueue_frame f st m)) = live_key m" if "map_of (cm_streams m) (frame_key f) = Some st" for f st
    using that unfolding enqueue_frame_def Let_def by (auto simp: live_key_def fun_eq_iff frame_key_def)
  then show ?thesis
    unfolding credit_submit_def Let_def
    by (auto simp: frame_key_def dest: live_transmitted split: option.splits prod.splits)
qed

lemma live_drain_loop: "live_key (snd (credit_drain_loop transmit fs m)) = live_key m"
proof (induction fs arbitrary: m)
  case (Cons f fs)
  have dequeue: "live_key (m\<lparr>cm_queued_bytes := n, cm_streams := omap_put (frame_key f) (st\<lparr>ms_queued := q\<rparr>) (cm_streams m)\<rparr>) =
      live_key m" if "map_of (cm_streams m) (frame_key f) = Some st" for st n q
    using that by (auto simp: live_key_def fun_eq_iff)
  show ?case
    using Cons live_transmit [of transmit f] dequeue
    by (auto simp: Let_def split: option.splits prod.splits) (metis snd_conv)+
qed simp

lemma live_drain: "live_key (snd (credit_drain transmit m)) = live_key m"
  by (simp add: credit_drain_def live_drain_loop)

lemma live_release: "live_key (credit_release_loop n fs m) = live_key m"
proof (induction fs arbitrary: m)
  case (Cons f fs)
  have gone: "live_key (m\<lparr>cm_outstanding_bytes := b, cm_streams := omap_del (frame_key f) (cm_streams m)\<rparr>) = live_key m"
    if "map_of (cm_streams m) (frame_key f) = Some st" "\<not> ms_live st" for st b
    using that by (auto simp: live_key_def fun_eq_iff)
  have kept: "live_key (m\<lparr>cm_outstanding_bytes := b, cm_streams := omap_put (frame_key f) (st\<lparr>ms_outstanding := n\<rparr>) (cm_streams m)\<rparr>) =
      live_key m" if "map_of (cm_streams m) (frame_key f) = Some st" for st b n
    using that by (auto simp: live_key_def fun_eq_iff)
  show ?case using Cons gone kept by (auto simp: Let_def split: option.splits)
qed simp

lemma live_acknowledge: "live_key (snd (credit_acknowledge transmit n b m)) = live_key m"
  by (auto simp: credit_acknowledge_def live_drain live_release split: option.splits)

lemma live_retire:
  assumes "credit_retire_stream transmit k g b m = (ok, m')"
  shows "live_key m' j \<longleftrightarrow> live_key m j \<and> j \<noteq> credit_key k g"
proof (cases "live_key m (credit_key k g)")
  case True
  then obtain st where st: "map_of (cm_streams m) (credit_key k g) = Some st" "ms_live st"
    by (auto simp: live_key_def split: option.splits)
  obtain queue bytes queued where loop: "retire_loop k g (cm_queued m) (cm_queued_bytes m) (ms_queued st) = (queue, bytes, queued)"
    by (cases "retire_loop k g (cm_queued m) (cm_queued_bytes m) (ms_queued st)")
  define m1 where "m1 = m\<lparr>cm_queued := queue, cm_queued_bytes := bytes,
    cm_streams := omap_put (credit_key k g) (st\<lparr>ms_live := False, ms_queued := queued\<rparr>) (cm_streams m)\<rparr>"
  obtain sent w where t: "transmit (cm_world m1) b = (sent, w)" by (cases "transmit (cm_world m1) b")
  have m1: "live_key m1 i \<longleftrightarrow> live_key m i \<and> i \<noteq> credit_key k g" for i by (auto simp: m1_def live_key_def)
  define m2 where "m2 = (if ms_outstanding st = 0 then m1\<lparr>cm_world := w, cm_streams := omap_del (credit_key k g) (cm_streams m1)\<rparr>
    else m1\<lparr>cm_world := w\<rparr>)"
  have m2: "live_key m2 i \<longleftrightarrow> live_key m i \<and> i \<noteq> credit_key k g" for i
    using m1 [of i] by (auto simp: m2_def live_key_def)
  have "m' = (if sent then snd (credit_drain transmit m2) else m1\<lparr>cm_world := w\<rparr>)"
    using assms st loop t unfolding credit_retire_stream_def Let_def m2_def m1_def by (auto split: if_splits)
  then show ?thesis using m1 m2 by (simp add: live_drain)
next
  case False
  then have "m' = m" using assms by (auto simp: credit_retire_stream_def live_key_def split: option.splits if_splits)
  then show ?thesis using False by auto
qed

lemma live_add:
  "credit_add_stream k g n m = (ok, m') \<Longrightarrow> live_key m' j \<longleftrightarrow> live_key m j \<or> (ok \<and> j = credit_key k g)"
  by (auto simp: credit_add_stream_def Let_def live_key_def split: if_splits)

lemma live_recovery:
  assumes "credit_begin_recovery transmit k g g' n b m = (True, m')"
  shows "live_key m' j \<longleftrightarrow> (live_key m j \<and> j \<noteq> credit_key k g) \<or> j = credit_key k g'"
  using assms
  by (auto simp: credit_begin_recovery_def live_add live_retire split: if_splits prod.splits)

text \<open>What the transmit function keeps, every operation of the flow keeps.\<close>

lemma world_transmit:
  assumes keeps: "\<And>w f. P w \<Longrightarrow> P (snd (transmit w f))" and "P (cm_world m)"
  shows "P (cm_world (snd (transmit_frame transmit f m)))"
proof -
  obtain ok w where t: "transmit (cm_world m) (cf_encode f (cm_next m)) = (ok, w)"
    by (cases "transmit (cm_world m) (cf_encode f (cm_next m))")
  have "P w" using keeps [OF assms(2), of "cf_encode f (cm_next m)"] t by simp
  then show ?thesis using assms(2) t by (auto simp: transmit_frame_def Let_def split: option.splits)
qed

lemma world_drain_loop:
  assumes keeps: "\<And>w f. P w \<Longrightarrow> P (snd (transmit w f))" and "P (cm_world m)"
  shows "P (cm_world (snd (credit_drain_loop transmit fs m)))"
  using assms(2)
proof (induction fs arbitrary: m)
  case (Cons f fs)
  have sent: "P (cm_world (snd (transmit_frame transmit f m')))" if "cm_world m' = cm_world m" for m'
    using world_transmit [of P transmit m' f] keeps Cons.prems that by simp
  show ?case
  proof (cases "map_of (cm_streams m) (frame_key f)")
    case None
    then show ?thesis using Cons by simp
  next
    case (Some st)
    let ?m = "m\<lparr>cm_queued_bytes := sub64 (cm_queued_bytes m) (length (cf_encoded f) + 1),
      cm_streams := omap_put (frame_key f) (st\<lparr>ms_queued := sub64 (ms_queued st) 1\<rparr>) (cm_streams m)\<rparr>"
    obtain ok m2 where t: "transmit_frame transmit f ?m = (ok, m2)" by (cases "transmit_frame transmit f ?m")
    have "P (cm_world m2)" using sent [of ?m] t by simp
    then show ?thesis using Cons Some t by (auto simp: Let_def)
  qed
qed simp

lemma world_release: "cm_world (credit_release_loop n fs m) = cm_world m"
  by (induction fs arbitrary: m) (auto simp: Let_def split: option.splits)

lemma world_add: "cm_world (snd (credit_add_stream k g n m)) = cm_world m"
  by (simp add: credit_add_stream_def Let_def)

lemma world_submit:
  assumes "\<And>w f. P w \<Longrightarrow> P (snd (transmit w f))" and "P (cm_world m)"
  shows "P (cm_world (snd (credit_submit transmit k g encode m)))"
  using world_transmit [of P transmit] assms
  by (auto simp: credit_submit_def enqueue_frame_def Let_def case_prod_unfold split: option.splits)

lemma world_acknowledge:
  assumes "\<And>w f. P w \<Longrightarrow> P (snd (transmit w f))" and "P (cm_world m)"
  shows "P (cm_world (snd (credit_acknowledge transmit n b m)))"
  using assms world_drain_loop [of P transmit]
  by (auto simp: credit_acknowledge_def credit_drain_def world_release split: option.splits)

lemma world_retire:
  assumes "\<And>w f. P w \<Longrightarrow> P (snd (transmit w f))" and "P (cm_world m)"
  shows "P (cm_world (snd (credit_retire_stream transmit k g b m)))"
proof -
  have "P (snd (transmit (cm_world m) b))" using assms by blast
  then show ?thesis
    using assms world_drain_loop [of P transmit]
    by (auto simp: credit_retire_stream_def credit_drain_def Let_def case_prod_unfold split: option.splits)
qed

lemma world_recovery:
  assumes "\<And>w f. P w \<Longrightarrow> P (snd (transmit w f))" and "P (cm_world m)"
  shows "P (cm_world (snd (credit_begin_recovery transmit k g g' n b m)))"
  using world_retire [of P transmit m k g b] assms
  by (auto simp: credit_begin_recovery_def case_prod_unfold world_add Let_def)

section \<open>Invariant of the session\<close>

definition channel_ok :: "'w host_channel \<Rightarrow> bool" where
  "channel_ok c \<longleftrightarrow> hc_failures c = (if hc_failed c then 1 else 0)"

definition host_live :: "'w matter_host \<Rightarrow> string \<Rightarrow> bool" where
  "host_live h key = (case mh_flow h of None \<Rightarrow> False | Some m \<Rightarrow> live_key m key)"

definition session_ok :: "'w matter_host \<Rightarrow> bool" where
  "session_ok h \<longleftrightarrow> channel_ok (mh_channel h) \<and> (\<forall>m. mh_flow h = Some m \<longrightarrow> manager_inv m) \<and>
     (mh_state h \<in> {AwaitOpen, StateOpen} \<longrightarrow> mh_flow h \<noteq> None) \<and>
     (mh_state h = StateClosed \<longrightarrow> mh_flow h = None \<and> mh_subscriptions h = []) \<and>
     mh_released h = (if mh_state h = StateClosed then 1 else 0) \<and> omap_ok (mh_subscriptions h) \<and>
     (mh_state h \<in> {AwaitFlow, AwaitOpen} \<longrightarrow> mh_subscriptions h = []) \<and>
     (mh_close_requested h \<longrightarrow> mh_state h \<in> {StateClosing, StateClosed}) \<and>
     (mh_state h = StateClosing \<longrightarrow> mh_close_requested h)"

text \<open>Every active subscription of a session in order has its live stream.\<close>

definition entries_live :: "'w matter_host \<Rightarrow> bool" where
  "entries_live h \<longleftrightarrow> (\<forall>k a. map_of (mh_subscriptions h) k = Some a \<longrightarrow> host_live h (credit_key k (sa_generation a)))"

definition host_ok :: "'w matter_host \<Rightarrow> bool" where
  "host_ok h \<longleftrightarrow> session_ok h \<and> (mh_state h = StateOpen \<and> host_healthy h \<longrightarrow> entries_live h)"

text \<open>What no step but the open and a line changes.\<close>

definition same_session :: "'w matter_host \<Rightarrow> 'w matter_host \<Rightarrow> bool" where
  "same_session h h' \<longleftrightarrow> mh_greatest h' = mh_greatest h \<and> mh_fabric h' = mh_fabric h \<and> mh_depth h' = mh_depth h \<and>
     mh_cancellation h' = mh_cancellation h \<and> mh_session h' = mh_session h"

lemma same_session_trans: "same_session a b \<Longrightarrow> same_session b c \<Longrightarrow> same_session a c"
  by (simp add: same_session_def)

lemma stream_live_key: "stream_live k g h = host_live h (credit_key k g)"
  by (simp add: stream_live_def host_live_def credit_is_live_key split: option.splits)

lemma manager_inv_world [simp]: "manager_inv (m\<lparr>cm_world := w\<rparr>) = manager_inv m"
  by (simp add: manager_inv_def)

lemma write_channel_ok: "channel_ok c \<Longrightarrow> channel_ok (snd (write_frame sink c f))"
  by (auto simp: write_frame_def channel_ok_def fail_channel_def Let_def split: prod.splits)

lemma write_stays_failed: "hc_failed c \<Longrightarrow> hc_failed (snd (write_frame sink c f))"
  by (simp add: write_frame_def)

lemma host_fail_facts [simp]:
  "mh_state (host_fail h) = mh_state h" "mh_flow (host_fail h) = mh_flow h"
  "mh_subscriptions (host_fail h) = mh_subscriptions h" "mh_depth (host_fail h) = mh_depth h"
  "mh_close_requested (host_fail h) = mh_close_requested h" "mh_released (host_fail h) = mh_released h"
  "\<not> host_healthy (host_fail h)" "same_session h (host_fail h)"
  by (simp_all add: host_fail_def host_healthy_def fail_channel_def same_session_def)

lemma host_fail_ok: "host_ok h \<Longrightarrow> host_ok (host_fail h)"
  by (auto simp: host_ok_def session_ok_def host_fail_def fail_channel_def channel_ok_def host_healthy_def)

lemma host_write_facts:
  assumes "host_write env j h = (ok, h')"
  shows "mh_state h' = mh_state h" "mh_flow h' = mh_flow h" "mh_subscriptions h' = mh_subscriptions h"
    "mh_close_requested h' = mh_close_requested h" "mh_released h' = mh_released h" "same_session h h'"
    "host_healthy h' \<Longrightarrow> host_healthy h" "channel_ok (mh_channel h) \<Longrightarrow> channel_ok (mh_channel h')"
    "ok \<Longrightarrow> host_healthy h'" "mh_depth h' = mh_depth h"
proof -
  obtain c where w: "write_frame (he_sink env) (mh_channel h) (he_dump env j) = (ok, c)" and h': "h' = h\<lparr>mh_channel := c\<rparr>"
    using assms by (auto simp: host_write_def split: prod.splits)
  show "mh_state h' = mh_state h" "mh_flow h' = mh_flow h" "mh_subscriptions h' = mh_subscriptions h"
    "mh_close_requested h' = mh_close_requested h" "mh_released h' = mh_released h" "same_session h h'" "mh_depth h' = mh_depth h"
    by (simp_all add: h' same_session_def)
  show "host_healthy h' \<Longrightarrow> host_healthy h"
    using write_stays_failed [of "mh_channel h" "he_sink env" "he_dump env j"] w by (auto simp: host_healthy_def h')
  show "channel_ok (mh_channel h) \<Longrightarrow> channel_ok (mh_channel h')"
    using write_channel_ok [of "mh_channel h" "he_sink env" "he_dump env j"] w by (simp add: h')
  show "ok \<Longrightarrow> host_healthy h'"
    using w by (auto simp: write_frame_def host_healthy_def h' Let_def split: if_splits prod.splits)
qed

lemma host_write_ok: "host_ok h \<Longrightarrow> host_write env j h = (ok, h') \<Longrightarrow> host_ok h'"
  using host_write_facts [of env j h ok h']
  by (auto simp: host_ok_def session_ok_def entries_live_def host_live_def)

lemma with_flow_facts:
  assumes "with_flow call x h = (r, h')"
  shows "mh_state h' = mh_state h" "mh_subscriptions h' = mh_subscriptions h"
    "mh_close_requested h' = mh_close_requested h" "mh_released h' = mh_released h" "same_session h h'"
    "mh_depth h' = mh_depth h" "mh_flow h' = None \<longleftrightarrow> mh_flow h = None"
  using assms by (auto simp: with_flow_def same_session_def split: option.splits prod.splits)

text \<open>A call that keeps the accounting keeps the session.\<close>

lemma with_flow_session:
  assumes "session_ok h" and run: "with_flow call x h = (r, h')"
    and inv: "\<And>m. manager_inv m \<Longrightarrow> manager_inv (snd (call m))"
    and world: "\<And>m. channel_ok (cm_world m) \<Longrightarrow> channel_ok (cm_world (snd (call m)))"
  shows "session_ok h'"
proof (cases "mh_flow h")
  case None
  then show ?thesis using assms by (simp add: with_flow_def)
next
  case (Some m)
  obtain m' where m': "call (m\<lparr>cm_world := mh_channel h\<rparr>) = (r, m')" "h' = h\<lparr>mh_flow := Some m', mh_channel := cm_world m'\<rparr>"
    using run Some by (auto simp: with_flow_def split: prod.splits)
  have "manager_inv m'" using inv [of "m\<lparr>cm_world := mh_channel h\<rparr>"] assms(1) Some m'(1) by (simp add: session_ok_def)
  moreover have "channel_ok (cm_world m')"
    using world [of "m\<lparr>cm_world := mh_channel h\<rparr>"] assms(1) m'(1) by (simp add: session_ok_def)
  ultimately show ?thesis using assms(1) Some by (auto simp: session_ok_def m'(2))
qed

lemma with_flow_healthy:
  assumes run: "with_flow call x h = (r, h')" and world: "\<And>m. hc_failed (cm_world m) \<Longrightarrow> hc_failed (cm_world (snd (call m)))"
    and "host_healthy h'"
  shows "host_healthy h"
proof (cases "mh_flow h")
  case (Some m)
  obtain m' where m': "call (m\<lparr>cm_world := mh_channel h\<rparr>) = (r, m')" "mh_channel h' = cm_world m'"
    using run Some by (auto simp: with_flow_def split: prod.splits)
  then show ?thesis using world [of "m\<lparr>cm_world := mh_channel h\<rparr>"] assms(3) by (auto simp: host_healthy_def)
qed (use assms in \<open>simp add: with_flow_def\<close>)

lemma with_flow_live:
  assumes run: "with_flow call x h = (r, h')" and live: "\<And>m m' r. call m = (r, m') \<Longrightarrow> live_key m' j \<longleftrightarrow> Q r (live_key m j)"
    and some: "mh_flow h \<noteq> None"
  shows "host_live h' j \<longleftrightarrow> Q r (host_live h j)"
  using run some live [of "the (mh_flow h)\<lparr>cm_world := mh_channel h\<rparr>"]
  by (auto simp: with_flow_def host_live_def split: prod.splits)

definition steady :: "'w matter_host \<Rightarrow> 'w matter_host \<Rightarrow> bool" where
  "steady h h' \<longleftrightarrow> same_session h h' \<and> mh_state h' = mh_state h \<and> mh_close_requested h' = mh_close_requested h"

lemma steady_refl [simp]: "steady h h"
  by (simp add: steady_def same_session_def)

lemma steady_trans: "steady a b \<Longrightarrow> steady b c \<Longrightarrow> steady a c"
  by (auto simp: steady_def intro: same_session_trans)

lemma steady_fail [simp]: "steady h (host_fail h') = steady h h'"
  by (simp add: steady_def same_session_def host_fail_def)

lemma steady_subscriptions [simp]: "steady h (h'\<lparr>mh_subscriptions := m\<rparr>) = steady h h'"
  by (simp add: steady_def same_session_def)

lemma steady_write: "host_write env j h = (ok, h') \<Longrightarrow> steady h h'"
  by (auto simp: steady_def dest: host_write_facts)

lemma steady_flow: "with_flow call x h = (r, h') \<Longrightarrow> steady h h'"
  by (auto simp: steady_def dest: with_flow_facts)

lemmas write_keeps = world_submit world_acknowledge world_retire world_recovery

lemma flow_kept_live:
  assumes "host_ok h" and run: "with_flow call x h = (r, h')"
    and "\<And>m. manager_inv m \<Longrightarrow> manager_inv (snd (call m))"
    and "\<And>m. channel_ok (cm_world m) \<Longrightarrow> channel_ok (cm_world (snd (call m)))"
    and "\<And>m. hc_failed (cm_world m) \<Longrightarrow> hc_failed (cm_world (snd (call m)))"
    and "\<And>m. live_key (snd (call m)) = live_key m"
  shows "host_ok h'"
proof -
  have "session_ok h'" using with_flow_session [OF _ run] assms by (simp add: host_ok_def)
  moreover have "entries_live h'" if "mh_state h' = StateOpen" "host_healthy h'"
  proof -
    have "host_live h' j = host_live h j" for j
      using run assms(6) [of "the (mh_flow h)\<lparr>cm_world := mh_channel h\<rparr>"]
      by (auto simp: with_flow_def host_live_def split: prod.splits option.splits)
    moreover have "host_healthy h" by (rule with_flow_healthy [OF run assms(5) that(2)])
    ultimately show ?thesis
      using assms(1) that with_flow_facts [OF run] by (simp add: host_ok_def entries_live_def)
  qed
  ultimately show ?thesis by (simp add: host_ok_def)
qed

lemma submit_ok:
  "host_ok h \<Longrightarrow> with_flow (credit_submit (write_frame sink) k g encode) x h = (r, h') \<Longrightarrow> host_ok h'"
  by (erule flow_kept_live, assumption)
    (auto intro!: credit_submit_inv world_submit write_channel_ok write_stays_failed simp: live_submit)

lemma acknowledge_ok:
  "host_ok h \<Longrightarrow> with_flow (credit_acknowledge (write_frame sink) n b) x h = (r, h') \<Longrightarrow> host_ok h'"
  by (erule flow_kept_live, assumption)
    (auto intro!: credit_acknowledge_inv world_acknowledge write_channel_ok write_stays_failed simp: live_acknowledge)

lemma host_retire_facts:
  assumes "session_ok h" and run: "host_retire env k g h = (ok, h')"
  shows "session_ok h'" "host_healthy h' \<Longrightarrow> host_healthy h" "steady h h'" "mh_subscriptions h' = mh_subscriptions h"
    "host_live h' j \<longleftrightarrow> host_live h j \<and> j \<noteq> credit_key k g"
proof -
  let ?call = "credit_retire_stream (write_frame (he_sink env)) k g (he_dump env (barrier_frame k g h))"
  have flow: "with_flow ?call False h = (ok, h')" using run by (simp add: host_retire_def)
  show "session_ok h'"
    by (rule with_flow_session [OF assms(1) flow]) (auto intro!: credit_retire_inv world_retire write_channel_ok)
  show "host_healthy h" if "host_healthy h'"
    by (rule with_flow_healthy [OF flow _ that]) (auto intro!: world_retire write_stays_failed)
  show "steady h h'" "mh_subscriptions h' = mh_subscriptions h"
    using steady_flow [OF flow] with_flow_facts [OF flow] by auto
  show "host_live h' j \<longleftrightarrow> host_live h j \<and> j \<noteq> credit_key k g"
  proof (cases "mh_flow h")
    case None
    then show ?thesis using flow by (simp add: with_flow_def host_live_def)
  next
    case (Some m)
    show ?thesis
      using with_flow_live [OF flow, of j "\<lambda>_ l. l \<and> j \<noteq> credit_key k g"] live_retire Some by blast
  qed
qed

text \<open>Retiring a stream and forgetting its subscription keeps the other subscriptions live.\<close>

lemma retire_forget_ok:
  assumes "host_ok h" and run: "host_retire env k g h = (ok, h')"
  shows "host_ok (h'\<lparr>mh_subscriptions := omap_del k (mh_subscriptions h')\<rparr>)"
proof -
  have s: "session_ok h" using assms(1) by (simp add: host_ok_def)
  note facts = host_retire_facts [OF s run]
  let ?h = "h'\<lparr>mh_subscriptions := omap_del k (mh_subscriptions h')\<rparr>"
  have "session_ok ?h" using facts(1) by (auto simp: session_ok_def)
  moreover have "entries_live ?h" if "mh_state ?h = StateOpen" "host_healthy ?h"
  proof -
    have old: "entries_live h" using assms(1) that facts(2,3) by (simp add: host_ok_def steady_def host_healthy_def)
    have "host_live ?h (credit_key i (sa_generation a))" if "i \<noteq> k" "map_of (mh_subscriptions h) i = Some a" for i a
      using old that facts(5) [of "credit_key i (sa_generation a)"]
      by (simp add: entries_live_def host_live_def credit_key_inj split: option.splits)
    then show ?thesis using facts(4) by (auto simp: entries_live_def split: if_splits)
  qed
  ultimately show ?thesis by (simp add: host_ok_def)
qed

lemma stream_failed_ok:
  assumes "host_ok h"
  shows "host_ok (stream_failed env k g e h) \<and> steady h (stream_failed env k g e h)"
proof -
  obtain ok h1 where w: "host_write env (stream_frame h ''subscription_error'' k g [(''error'', error_json e)]) h = (ok, h1)"
    by (cases "host_write env (stream_frame h ''subscription_error'' k g [(''error'', error_json e)]) h")
  obtain retired h2 where r: "host_retire env k g h1 = (retired, h2)" by (cases "host_retire env k g h1")
  have h1: "host_ok h1" "steady h h1" using host_write_ok [OF assms w] steady_write [OF w] by auto
  have s1: "session_ok h1" using h1(1) by (simp add: host_ok_def)
  have h2: "host_ok (h2\<lparr>mh_subscriptions := omap_del k (mh_subscriptions h2)\<rparr>)" "steady h1 h2"
    using retire_forget_ok [OF h1(1) r] host_retire_facts(3) [OF s1 r] by auto
  have swap: "(host_fail h2)\<lparr>mh_subscriptions := omap_del k (mh_subscriptions (host_fail h2))\<rparr> =
      host_fail (h2\<lparr>mh_subscriptions := omap_del k (mh_subscriptions h2)\<rparr>)"
    by (simp add: host_fail_def)
  show ?thesis
    using h1 h2 host_fail_ok [OF h2(1)] steady_trans [OF h1(2) h2(2)] swap
    by (auto simp: stream_failed_def w r intro: steady_trans)
qed

lemma emit_report_ok:
  assumes "host_ok h" and "report_body p \<noteq> None"
  shows "\<exists>ok h'. emit_report env p h = Some (ok, h') \<and> host_ok h' \<and> steady h h'"
proof -
  define k g where "k = rp_subscription_id p" and "g = rp_generation p"
  define encode where "encode = (\<lambda>sequence. he_dump env (the (subscription_frame p (mh_session h) sequence)))"
  obtain r h1 where run: "with_flow (credit_submit (write_frame (he_sink env)) k g encode) SubmitInvalid h = (r, h1)"
    by (cases "with_flow (credit_submit (write_frame (he_sink env)) k g encode) SubmitInvalid h")
  have h1: "host_ok h1" "steady h h1" using submit_ok [OF assms(1) run] steady_flow [OF run] by auto
  show ?thesis
    using assms h1 stream_failed_ok [OF h1(1), of env k g queue_overflow] host_fail_ok [OF h1(1)] run
    by (cases r) (auto simp: emit_report_def Let_def k_def [symmetric] g_def [symmetric] encode_def intro: steady_trans)
qed

lemma emit_failure_ok: "host_ok h \<Longrightarrow> host_ok (emit_failure env k g e h) \<and> steady h (emit_failure env k g e h)"
  using stream_failed_ok [of h env k g e] by (simp add: emit_failure_def)

text \<open>An entry replaced by one whose stream is live.\<close>

lemma put_subscription_ok:
  assumes "session_ok h" and "mh_state h = StateOpen"
    and others: "\<And>i b. i \<noteq> k \<Longrightarrow> map_of (mh_subscriptions h) i = Some b \<Longrightarrow> host_healthy h \<Longrightarrow>
      host_live h (credit_key i (sa_generation b))"
    and this: "host_healthy h \<Longrightarrow> host_live h (credit_key k (sa_generation a))"
  shows "host_ok (put_subscription k a h)"
  using assms
  by (auto simp: host_ok_def session_ok_def put_subscription_def entries_live_def host_live_def host_healthy_def
      split: if_splits)

lemma put_same_stream:
  assumes "host_ok h" and "mh_state h = StateOpen" and "map_of (mh_subscriptions h) k = Some a" and "sa_generation b = sa_generation a"
  shows "host_ok (put_subscription k b h)"
  by (rule put_subscription_ok) (use assms in \<open>auto simp: host_ok_def entries_live_def\<close>)

lemma steady_put [simp]: "steady h (put_subscription k a h') = steady h h'"
  by (simp add: put_subscription_def)

lemma recovery_started_ok:
  assumes ok: "host_ok h" and open_state: "mh_state h = StateOpen" and entry: "map_of (mh_subscriptions h) k = Some a"
    and run: "with_flow (credit_begin_recovery (write_frame (he_sink env)) k (sa_generation a) g n b) False h = (started, h')"
  shows "if started then host_ok (put_subscription k (a\<lparr>sa_generation := g, sa_recovering := True, sa_attempt := t\<rparr>) h')
    else host_ok (host_fail h')"
proof -
  let ?call = "credit_begin_recovery (write_frame (he_sink env)) k (sa_generation a) g n b"
  note facts = with_flow_facts [OF run]
  have session: "session_ok h'"
    using ok by (intro with_flow_session [OF _ run])
      (auto intro!: credit_begin_recovery_inv world_recovery write_channel_ok simp: host_ok_def)
  have healthy: "host_healthy h" if "host_healthy h'"
    by (rule with_flow_healthy [OF run _ that]) (auto intro!: world_recovery write_stays_failed)
  show ?thesis
  proof (cases started)
    case True
    obtain m where m: "mh_flow h = Some m" using run True by (cases "mh_flow h") (auto simp: with_flow_def)
    obtain m' where m': "?call (m\<lparr>cm_world := mh_channel h\<rparr>) = (True, m')" "mh_flow h' = Some m'"
      using run True m by (auto simp: with_flow_def split: prod.splits)
    have live: "host_live h' j \<longleftrightarrow> (host_live h j \<and> j \<noteq> credit_key k (sa_generation a)) \<or> j = credit_key k g" for j
      using live_recovery [OF m'(1), of j] m m'(2) by (simp add: host_live_def)
    have "host_ok (put_subscription k (a\<lparr>sa_generation := g, sa_recovering := True, sa_attempt := t\<rparr>) h')"
      by (rule put_subscription_ok [OF session])
        (use ok open_state facts healthy in \<open>auto simp: live host_ok_def entries_live_def credit_key_inj\<close>)
    then show ?thesis using True by simp
  next
    case False
    have "host_ok (host_fail h')" using session
      by (auto simp: host_ok_def session_ok_def host_fail_def fail_channel_def channel_ok_def host_healthy_def)
    then show ?thesis using False by simp
  qed
qed

lemma emit_resubscribing_ok:
  assumes "host_ok h" and "mh_state h = StateOpen" and "map_of (mh_subscriptions h) (ss_subscription_id s) = Some a"
  shows "host_ok (snd (emit_resubscribing env s a h)) \<and> steady h (snd (emit_resubscribing env s a h))"
proof (cases "resubscribing_ok a s")
  case True
  let ?k = "ss_subscription_id s"
  obtain ok h1 where w: "host_write env (status_frame h s ''resubscribing'' ''lost'' []) h = (ok, h1)"
    by (cases "host_write env (status_frame h s ''resubscribing'' ''lost'' []) h")
  note f1 = host_write_facts [OF w]
  have h1: "host_ok h1" "steady h h1" "mh_state h1 = StateOpen" "map_of (mh_subscriptions h1) ?k = Some a"
    using host_write_ok [OF assms(1) w] steady_write [OF w] assms f1 by auto
  obtain started h2 where r: "with_flow (credit_begin_recovery (write_frame (he_sink env)) ?k (sa_generation a)
      (ss_generation s) (sa_queue_limit a) (he_dump env (barrier_frame ?k (sa_generation a) h1))) False h1 = (started, h2)"
    by (cases "with_flow (credit_begin_recovery (write_frame (he_sink env)) ?k (sa_generation a)
      (ss_generation s) (sa_queue_limit a) (he_dump env (barrier_frame ?k (sa_generation a) h1))) False h1")
  have same: "host_ok (put_subscription ?k (a\<lparr>sa_attempt := n\<rparr>) h1)" for n
    by (rule put_same_stream [OF h1(1,3,4)]) simp
  show ?thesis
    using True w r h1 same recovery_started_ok [OF h1(1,3,4) r, of "ss_attempt s"] steady_flow [OF r]
    by (auto simp: emit_resubscribing_def Let_def intro: steady_trans)
qed (use assms in \<open>simp add: emit_resubscribing_def Let_def\<close>)

lemma emit_status_ok:
  assumes "host_ok h"
  shows "host_ok (snd (emit_status env s h)) \<and> steady h (snd (emit_status env s h))"
proof (cases "map_of (mh_subscriptions h) (ss_subscription_id s)")
  case (Some a)
  let ?j = "status_frame h s ''resubscribed'' ''unknown'' [(''min_interval_s'', JUnsigned (ss_min_interval_s s)),
    (''max_interval_s'', JUnsigned (ss_max_interval_s s)), (''sdk_subscription_id'', JUnsigned (ss_sdk_subscription_id s))]"
  obtain ok h1 where w: "host_write env ?j h = (ok, h1)" by (cases "host_write env ?j h")
  have h1: "host_ok h1" "steady h h1" using host_write_ok [OF assms w] steady_write [OF w] by auto
  have put: "host_ok (put_subscription (ss_subscription_id s) (a\<lparr>sa_recovering := False, sa_attempt := 0\<rparr>) h1)"
    if "mh_state h = StateOpen"
    using that Some host_write_facts [OF w] by (intro put_same_stream [OF h1(1)]) auto
  show ?thesis
    using assms Some w h1 put emit_resubscribing_ok [OF assms _ Some, of env]
    by (auto simp: emit_status_def Let_def)
qed (use assms in \<open>auto simp: emit_status_def\<close>)

lemma request_close_ok: "host_ok h \<Longrightarrow> host_ok (request_close h)"
  by (auto simp: host_ok_def session_ok_def request_close_def Let_def)

lemma host_close_ok: "host_ok h \<Longrightarrow> host_ok (host_close h)"
  using request_close_ok [of h] by (auto simp: host_close_def host_ok_def session_ok_def)

text \<open>The state moves only towards the end, and below the outermost line only by a request to close.\<close>

definition state_moves :: "'w matter_host \<Rightarrow> 'w matter_host \<Rightarrow> bool" where
  "state_moves h h' \<longleftrightarrow> (mh_state h' = mh_state h \<or> mh_state h' \<in> {StateClosing, StateClosed}) \<and>
     (mh_close_requested h \<longrightarrow> mh_close_requested h') \<and>
     (mh_depth h > 1 \<and> mh_state h' = StateClosed \<longrightarrow> mh_state h = StateClosed)"

lemma host_close_facts:
  "mh_state (host_close h) \<in> {StateClosing, StateClosed}" "same_session h (host_close h)" "state_moves h (host_close h)"
  by (auto simp: host_close_def request_close_def same_session_def Let_def state_moves_def)

lemma request_close_facts:
  "mh_state (request_close h) \<in> {StateClosing, StateClosed}" "same_session h (request_close h)"
  "state_moves h (request_close h)" "mh_close_requested (request_close h)"
  by (auto simp: request_close_def same_session_def Let_def state_moves_def)

lemma steady_moves: "steady h h' \<Longrightarrow> state_moves h h'"
  by (simp add: steady_def state_moves_def)

section \<open>What a line does\<close>

lemma host_ok_updates [simp]:
  "host_ok (h\<lparr>mh_greatest := n\<rparr>) = host_ok h" "host_ok (h\<lparr>mh_depth := n\<rparr>) = host_ok h"
  "host_ok (h\<lparr>mh_cancellation := b\<rparr>) = host_ok h" "host_ok (h\<lparr>mh_fabric := n\<rparr>) = host_ok h"
  by (simp_all add: host_ok_def session_ok_def entries_live_def host_live_def host_healthy_def)

fun call_request :: "backend_call \<Rightarrow> json" where
  "call_request (BackendOpen j _) = j"
| "call_request (BackendCommission j _) = j"
| "call_request (BackendWindow j _) = j"
| "call_request (BackendSubscribe j _) = j"
| "call_request (BackendAbandon j _ _ _) = j"
| "call_request (BackendCancel j _ _ _) = j"
| "call_request (BackendInteract j _) = j"

fun is_cancel_call :: "backend_call \<Rightarrow> bool" where
  "is_cancel_call (BackendCancel _ _ _ _) = True"
| "is_cancel_call _ = False"

fun is_abandon_call :: "backend_call \<Rightarrow> bool" where
  "is_abandon_call (BackendAbandon _ _ _ _) = True"
| "is_abandon_call _ = False"

text \<open>What the controller is asked for in an open session of a fabric.\<close>

fun call_admitted :: "u64 \<Rightarrow> backend_call \<Rightarrow> bool" where
  "call_admitted f (BackendOpen _ _) = False"
| "call_admitted f (BackendCommission _ q) = valid_commissioning_request q"
| "call_admitted f (BackendWindow _ q) = valid_window_request q"
| "call_admitted f (BackendSubscribe _ q) = (valid_subscription_request q \<and> sr_fabric_id q = f)"
| "call_admitted f (BackendAbandon _ k g _) = (g > 0)"
| "call_admitted f (BackendCancel _ k g _) = (hex_token k \<and> g > 0)"
| "call_admitted f (BackendInteract _ q) = (request_wire q \<and> iq_fabric_id q = f)"

definition operation_outcome :: "json \<Rightarrow> 'w matter_host \<Rightarrow> process_step \<times> 'w matter_host \<Rightarrow> bool" where
  "operation_outcome request h p \<longleftrightarrow> host_ok (snd p) \<and>
     (case fst p of
        PDone r \<Rightarrow> same_session h (snd p) \<and> state_moves h (snd p)
      | PCall c \<Rightarrow> call_request c = request \<and> mh_state (snd p) = mh_state h \<and>
          mh_close_requested (snd p) = mh_close_requested h \<and> mh_greatest (snd p) = mh_greatest h \<and>
          mh_fabric (snd p) = mh_fabric h \<and> mh_depth (snd p) = mh_depth h \<and>
          (if is_open_call c then mh_state h = AwaitOpen
           else mh_state h = StateOpen \<and> call_admitted (mh_fabric h) c \<and> \<not> is_abandon_call c \<and>
                (mh_depth h > 1 \<longrightarrow> is_cancel_call c)) \<and>
          (if is_cancel_call c then \<not> mh_cancellation h \<and> mh_cancellation (snd p)
           else mh_cancellation (snd p) = mh_cancellation h)
      | PUndefined \<Rightarrow> False)"

lemma outcome_reply [simp]:
  "host_ok h \<Longrightarrow> operation_outcome request h (reply env j, h)"
  "host_ok h \<Longrightarrow> operation_outcome request h (PDone r, h)"
  "host_ok h \<Longrightarrow> operation_outcome request h (last_reply env j, host_close h)"
  "host_ok h \<Longrightarrow> operation_outcome request h (close_silently h)"
  using host_close_ok [of h] host_close_facts [of h]
  by (auto simp: operation_outcome_def reply_def last_reply_def close_silently_def same_session_def state_moves_def)

lemma outcome_call:
  "host_ok h \<Longrightarrow> mh_state h = StateOpen \<Longrightarrow> call_admitted (mh_fabric h) c \<Longrightarrow> call_request c = request \<Longrightarrow>
   mh_depth h \<le> 1 \<Longrightarrow> \<not> is_cancel_call c \<Longrightarrow> \<not> is_abandon_call c \<Longrightarrow> operation_outcome request h (PCall c, h)"
  by (cases c) (auto simp: operation_outcome_def)

lemma open_line_outcome:
  assumes "host_ok h" and "mh_state h = AwaitOpen"
  shows "operation_outcome request h (open_line env request h)"
  using assms by (auto simp: open_line_def operation_outcome_def [of _ _ "(PCall _, _)"] split: option.splits)

lemma commissioning_parameters_valid: "commissioning_parameters j t = Some q \<Longrightarrow> valid_commissioning_request q"
  by (auto simp: commissioning_parameters_def Let_def split: if_splits option.splits)

lemma window_parameters_valid: "window_parameters j t = Some q \<Longrightarrow> valid_window_request q"
  by (auto simp: window_parameters_def Let_def split: if_splits option.splits)

lemma subscription_parameters_valid: "subscription_parameters j t = Some q \<Longrightarrow> valid_subscription_request q"
  by (auto simp: subscription_parameters_def Let_def split: if_splits option.splits list.splits)

lemma unsubscribe_parameters_valid: "unsubscribe_parameters j = Some (k, g) \<Longrightarrow> hex_token k \<and> g > 0"
  by (auto simp: unsubscribe_parameters_def canonical_generation_def hex_token_def split: if_splits option.splits)

lemma unsubscribe_line_outcome:
  assumes "host_ok h" and "mh_state h = StateOpen"
  shows "operation_outcome request h (unsubscribe_line env request h)"
  using assms unsubscribe_parameters_valid [of "json_at request ''parameters''"]
  by (auto simp: unsubscribe_line_def operation_outcome_def [of _ _ "(PCall _, _)"] split: option.splits)

lemma interaction_line_outcome:
  assumes "host_ok h" and "mh_state h = StateOpen" and "mh_depth h \<le> 1"
  shows "operation_outcome request h (interaction_line env request h)"
proof -
  let ?operation = "json_text (json_at request ''operation'')" and ?parameters = "json_at request ''parameters''"
  obtain x where x: "interaction_parameters ?operation ?parameters (request_timeout request) = Some x"
    using interaction_parameters_defined [of ?operation ?parameters] by blast
  then show ?thesis
    using assms interaction_parameters_sound [of ?operation ?parameters "request_timeout request"]
    by (cases x) (auto simp: interaction_line_def Let_def intro!: outcome_call)
qed

lemma operation_line_outcome:
  assumes "host_ok h" and "mh_state h = StateOpen"
  shows "operation_outcome request h (operation_line env request h)"
  using assms unsubscribe_line_outcome [OF assms] interaction_line_outcome [OF assms]
  by (auto simp: operation_line_def Let_def not_less intro!: outcome_call
      dest: commissioning_parameters_valid window_parameters_valid subscription_parameters_valid split: option.splits)

definition line_outcome :: "'w matter_host \<Rightarrow> process_step \<times> 'w matter_host \<Rightarrow> bool" where
  "line_outcome h p \<longleftrightarrow> host_ok (snd p) \<and> mh_fabric (snd p) = mh_fabric h \<and> mh_depth (snd p) = mh_depth h \<and>
     (case fst p of
        PDone r \<Rightarrow> mh_greatest h \<le> mh_greatest (snd p) \<and> mh_cancellation (snd p) = mh_cancellation h \<and>
          (state_moves h (snd p) \<or> (mh_state h = AwaitFlow \<and> mh_state (snd p) = AwaitOpen))
      | PCall c \<Rightarrow> mh_state (snd p) = mh_state h \<and> mh_close_requested (snd p) = mh_close_requested h \<and>
          mh_greatest h < mh_greatest (snd p) \<and>
          valid_request_envelope (call_request c) = Some (mh_greatest (snd p)) \<and>
          (if is_open_call c then mh_state h = AwaitOpen
           else mh_state h = StateOpen \<and> call_admitted (mh_fabric h) c \<and> \<not> is_abandon_call c \<and>
                (mh_depth h > 1 \<longrightarrow> is_cancel_call c)) \<and>
          (if is_cancel_call c then \<not> mh_cancellation h \<and> mh_cancellation (snd p)
           else mh_cancellation (snd p) = mh_cancellation h)
      | PUndefined \<Rightarrow> False)"

lemma line_outcome_close: "host_ok h \<Longrightarrow> line_outcome h (close_silently h)"
  using host_close_ok [of h] host_close_facts [of h]
  by (auto simp: line_outcome_def close_silently_def same_session_def)

lemma flow_open_outcome:
  assumes "host_ok h" and "mh_state h = AwaitFlow"
  shows "line_outcome h (flow_open_line request h)"
proof -
  have "host_ok (h\<lparr>mh_session := g, mh_flow := Some (credit_manager_init g (mh_channel h)), mh_state := AwaitOpen\<rparr>)" for g
    using assms manager_init_inv [of g "mh_channel h"] by (auto simp: host_ok_def session_ok_def)
  then show ?thesis
    using assms line_outcome_close [OF assms(1)]
    by (auto simp: flow_open_line_def silent_def line_outcome_def [of _ "(PDone _, _)"] split: option.splits)
qed

lemma acknowledge_outcome:
  assumes "host_ok h"
  shows "line_outcome h (acknowledge_line env request h)"
proof -
  have failed: "line_outcome h (close_silently (host_fail h'))" if "host_ok h'" "steady h h'" for h'
    using line_outcome_close [OF host_fail_ok [OF that(1)]] that(2)
    by (auto simp: line_outcome_def steady_def same_session_def close_silently_def host_fail_def state_moves_def)
  have done_ok: "line_outcome h (silent, h')" if "host_ok h'" "steady h h'" for h'
    using that by (auto simp: line_outcome_def silent_def steady_def same_session_def state_moves_def)
  let ?call = "credit_acknowledge (write_frame (he_sink env)) (json_u64 (json_at request ''report_sequence''))
    (json_u64 (json_at request ''acknowledged_bytes''))"
  obtain r h1 where run: "with_flow ?call False h = (r, h1)" by (cases "with_flow ?call False h")
  have h1: "host_ok h1" "steady h h1" using acknowledge_ok [OF assms run] steady_flow [OF run] by auto
  show ?thesis
    using failed [OF assms steady_refl] failed [OF h1] done_ok [OF h1]
    unfolding acknowledge_line_def Let_def run by (auto split: prod.splits)
qed

lemma numbered_outcome:
  assumes "host_ok h" and env: "valid_request_envelope request = Some n"
  shows "line_outcome h (numbered_line env request n h)"
proof (cases "(is_close request \<and> mh_state h \<noteq> StateOpen) \<or> (\<not> is_close request \<and> n \<le> mh_greatest h)")
  case True
  then show ?thesis using line_outcome_close [OF assms(1)] by (simp add: numbered_line_def)
next
  case False
  show ?thesis
  proof (cases "is_close request")
    case True
    then have close: "json_text (json_at request ''operation'') = ''close''" "json_entries (json_at request ''parameters'') = []"
      using env by (auto simp: valid_request_envelope_def canonical_request_id_def is_close_def decimal_number_def is_digit_def split: if_splits)
    then have "numbered_line env request n h = (last_reply env (matter_success request JNull), host_close h)"
      using True False by (simp add: numbered_line_def operation_line_def)
    then show ?thesis
      using host_close_ok [OF assms(1)] host_close_facts [of h] by (auto simp: line_outcome_def last_reply_def same_session_def)
  next
    case open_line: False
    let ?h = "h\<lparr>mh_greatest := n\<rparr>"
    have ok: "host_ok ?h" using assms(1) by simp
    have "operation_outcome request ?h (numbered_line env request n h)"
      using False open_line open_line_outcome [OF ok] operation_line_outcome [OF ok] ok
      by (simp add: numbered_line_def Let_def)
    then show ?thesis
      using False open_line env
      by (cases "fst (numbered_line env request n h)")
        (auto simp: operation_outcome_def line_outcome_def same_session_def state_moves_def)
  qed
qed

lemma process_line_outcome:
  assumes "host_ok h"
  shows "line_outcome h (process_line_impl env line h)"
  using line_outcome_close [OF assms] flow_open_outcome [OF assms] acknowledge_outcome [OF assms] numbered_outcome [OF assms]
  by (auto simp: process_line_impl_def split: option.splits)

section \<open>What an answer does\<close>

definition resume_outcome :: "backend_call \<Rightarrow> 'w matter_host \<Rightarrow> process_step \<times> 'w matter_host \<Rightarrow> bool" where
  "resume_outcome c h p \<longleftrightarrow> host_ok (snd p) \<and> mh_greatest (snd p) = mh_greatest h \<and> mh_depth (snd p) = mh_depth h \<and>
     mh_cancellation (snd p) = (mh_cancellation h \<and> \<not> is_cancel_call c) \<and>
     (is_open_call c \<or> mh_fabric (snd p) = mh_fabric h) \<and>
     (case fst p of
        PDone r \<Rightarrow> (state_moves h (snd p) \<or> (is_open_call c \<and> mh_state (snd p) = StateOpen)) \<and>
          (is_open_call c \<and> mh_state (snd p) = AwaitOpen \<longrightarrow> \<not> host_healthy (snd p))
      | PCall d \<Rightarrow> is_abandon_call d \<and> call_admitted (mh_fabric h) d \<and> \<not> is_open_call c \<and> \<not> is_cancel_call c \<and>
          mh_state h = StateOpen \<and> mh_state (snd p) = mh_state h \<and> mh_close_requested (snd p) = mh_close_requested h
      | PUndefined \<Rightarrow> False)"

lemma session_close_ok: "session_ok h \<Longrightarrow> host_ok (host_close h)"
  by (auto simp: host_ok_def session_ok_def host_close_def request_close_def Let_def)

lemma resume_same:
  "host_ok h' \<Longrightarrow> steady h h' \<Longrightarrow> \<not> is_cancel_call c \<Longrightarrow> \<not> is_open_call c \<Longrightarrow> resume_outcome c h (PDone r, h')"
  by (auto simp: resume_outcome_def steady_def same_session_def state_moves_def)

lemma answer_open_outcome:
  assumes "host_ok h" and "mh_state h = AwaitOpen"
  shows "resume_outcome (BackendOpen request options) h (answer_open env request options ok code h)"
proof -
  have "host_ok (h\<lparr>mh_fabric := n, mh_state := StateOpen\<rparr>)" for n
    using assms by (auto simp: host_ok_def session_ok_def entries_live_def)
  then show ?thesis
    using host_close_ok [OF assms(1)] host_close_facts [of h]
    by (auto simp: answer_open_def resume_outcome_def reply_def last_reply_def same_session_def)
qed

lemma answer_commission_defined: "\<exists>r'. answer_commission env request q r = PDone r'"
  by (auto simp: answer_commission_def reply_def valid_commissioning_response_def valid_failure_def split: option.splits)

lemma answer_window_defined: "\<exists>r'. answer_window env request q r = PDone r'"
  by (auto simp: answer_window_def reply_def valid_window_response_def valid_failure_def split: option.splits)

lemma interaction_json_total: "\<exists>x. interaction_json q r = Some x"
  using interaction_json_cases [of q r]
  by (cases "valid_interaction_response q r \<and> ir_ok r") (auto simp: interaction_json_def split: if_splits)

lemma answer_interact_defined: "\<exists>r'. answer_interact env request q r = PDone r'"
proof -
  obtain x where "interaction_json q r = Some x" using interaction_json_total by blast
  then show ?thesis
    by (auto simp: answer_interact_def reply_def split: option.splits interaction_kind.splits list.splits)
qed

lemma emplace_live_ok:
  assumes ok: "host_ok h" and open_state: "mh_state h = StateOpen"
    and run: "with_flow (credit_add_stream k g n) False h = (admitted, h')"
  shows "host_ok h'" and "admitted \<Longrightarrow> sa_generation a = g \<Longrightarrow>
    host_ok (h'\<lparr>mh_subscriptions := omap_emplace k a (mh_subscriptions h')\<rparr>)"
proof -
  note facts = with_flow_facts [OF run]
  have session: "session_ok h'"
    using ok by (intro with_flow_session [OF _ run]) (auto simp: host_ok_def world_add intro: credit_add_stream_inv)
  have healthy: "host_healthy h" if "host_healthy h'"
    by (rule with_flow_healthy [OF run _ that]) (simp add: world_add)
  have live: "host_live h' j \<longleftrightarrow> host_live h j \<or> (admitted \<and> j = credit_key k g)" for j
  proof (cases "mh_flow h")
    case None
    then show ?thesis using run by (auto simp: with_flow_def host_live_def)
  next
    case (Some m)
    then show ?thesis using with_flow_live [OF run, of j "\<lambda>r l. l \<or> (r \<and> j = credit_key k g)"] live_add by blast
  qed
  show ok': "host_ok h'"
    using session ok healthy facts by (auto simp: host_ok_def entries_live_def live)
  show "host_ok (h'\<lparr>mh_subscriptions := omap_emplace k a (mh_subscriptions h')\<rparr>)" if "admitted" "sa_generation a = g"
  proof (cases "omap_has k (mh_subscriptions h')")
    case True
    then show ?thesis using ok' by (simp add: omap_emplace_def)
  next
    case False
    have "host_ok (put_subscription k a h')"
      by (rule put_subscription_ok [OF session])
        (use ok open_state facts healthy that in \<open>auto simp: live host_ok_def entries_live_def\<close>)
    then show ?thesis using False by (simp add: put_subscription_def omap_emplace_def)
  qed
qed

lemma answer_subscribe_outcome:
  assumes "host_ok h" and "mh_state h = StateOpen"
  shows "resume_outcome (BackendSubscribe request q) h (answer_subscribe env request q r h)"
proof -
  let ?k = "sx_subscription_id r" and ?g = "sx_generation r"
  obtain admitted h1 where run: "with_flow (credit_add_stream ?k ?g (sr_queue_limit q)) False h = (admitted, h1)"
    by (cases "with_flow (credit_add_stream ?k ?g (sr_queue_limit q)) False h")
  have h1: "host_ok h1" "steady h h1" using emplace_live_ok(1) [OF assms run] steady_flow [OF run] by auto
  show ?thesis
    using assms run h1 emplace_live_ok(2) [OF assms run]
    by (auto simp: answer_subscribe_def Let_def reply_def intro!: resume_same)
      (auto simp: resume_outcome_def steady_def same_session_def)
qed

definition settled :: "'w matter_host \<Rightarrow> process_step \<times> 'w matter_host \<Rightarrow> bool" where
  "settled h p \<longleftrightarrow> (\<exists>r. fst p = PDone r) \<and> host_ok (snd p) \<and> same_session h (snd p) \<and>
     state_moves h (snd p)"

lemma settled_reply: "host_ok h' \<Longrightarrow> steady h h' \<Longrightarrow> settled h (reply env j, h')"
  by (auto simp: settled_def reply_def steady_def state_moves_def)

lemma settled_close: "session_ok h' \<Longrightarrow> steady h h' \<Longrightarrow> settled h (close_silently h')"
  using session_close_ok [of h'] host_close_facts [of h']
  by (auto simp: settled_def close_silently_def steady_def same_session_def state_moves_def)

lemma answer_cancel_outcome:
  assumes "host_ok h"
  shows "settled h (answer_cancel env request k g ok code h)"
proof -
  obtain retired h1 where run: "host_retire env k g h = (retired, h1)" by (cases "host_retire env k g h")
  have s: "session_ok h" using assms by (simp add: host_ok_def)
  note facts = host_retire_facts [OF s run]
  have forget: "host_ok (h1\<lparr>mh_subscriptions := omap_del k (mh_subscriptions h1)\<rparr>)" by (rule retire_forget_ok [OF assms run])
  show ?thesis
    using assms facts(3) forget settled_close [OF s steady_refl] settled_close [OF facts(1,3)] run
    by (auto simp: answer_cancel_def Let_def intro!: settled_reply split: option.splits prod.splits)
qed

text \<open>A call that waits for its answer: its session is still as it was, or is to be closed.\<close>

definition call_waits :: "backend_call \<Rightarrow> 'w matter_host \<Rightarrow> bool" where
  "call_waits c h \<longleftrightarrow> mh_close_requested h \<or> mh_state h = (if is_open_call c then AwaitOpen else StateOpen)"

lemma resume_call_outcome:
  assumes "host_ok h" and waits: "call_waits c h" and "answer_fits c a"
  shows "resume_outcome c h (resume_call env c a h)"
proof (cases "\<exists>j k g t. c = BackendAbandon j k g t")
  case True
  then show ?thesis using assms by (auto simp: resume_outcome_def reply_def state_moves_def)
next
  case abandon: False
  show ?thesis
  proof (cases "mh_close_requested h \<or> \<not> host_healthy h")
    case True
    then show ?thesis
      using assms abandon by (cases c; cases a) (auto simp: resume_outcome_def host_healthy_def state_moves_def host_ok_def session_ok_def)
  next
    case False
    then have state: "mh_state h = (if is_open_call c then AwaitOpen else StateOpen)" using waits by (simp add: call_waits_def)
    show ?thesis
    proof (cases c)
      case (BackendCancel j k g t)
      let ?h = "h\<lparr>mh_cancellation := False\<rparr>"
      have ok: "host_ok ?h" using assms(1) by simp
      obtain b code where a: "a = AnswerResult b code" using assms(3) BackendCancel by (cases a) auto
      have "resume_call env c a h = answer_cancel env j k g b code ?h"
        using False BackendCancel a by (simp add: host_healthy_def)
      then show ?thesis
        using answer_cancel_outcome [OF ok, of env j k g b code]
        by (auto simp: resume_outcome_def settled_def same_session_def BackendCancel state_moves_def)
    next
      case (BackendOpen j options)
      obtain b code where "a = AnswerResult b code" using assms(3) BackendOpen by (cases a) auto
      then show ?thesis using False state answer_open_outcome [OF assms(1), of j options env b code] BackendOpen by simp
    next
      case (BackendSubscribe j q)
      obtain r where "a = AnswerSubscribe r" using assms(3) BackendSubscribe by (cases a) auto
      then show ?thesis using False state answer_subscribe_outcome [OF assms(1), of j q env r] BackendSubscribe by simp
    next
      case (BackendCommission j q)
      obtain r where a: "a = AnswerCommission r" using assms(3) BackendCommission by (cases a) auto
      obtain x where "answer_commission env j q r = PDone x" using answer_commission_defined by blast
      then show ?thesis using False a BackendCommission resume_same [OF assms(1) steady_refl, of c x] by simp
    next
      case (BackendWindow j q)
      obtain r where a: "a = AnswerWindow r" using assms(3) BackendWindow by (cases a) auto
      obtain x where "answer_window env j q r = PDone x" using answer_window_defined by blast
      then show ?thesis using False a BackendWindow resume_same [OF assms(1) steady_refl, of c x] by simp
    next
      case (BackendInteract j q)
      obtain r where a: "a = AnswerInteract r" using assms(3) BackendInteract by (cases a) auto
      obtain x where "answer_interact env j q r = PDone x" using answer_interact_defined by blast
      then show ?thesis using False a BackendInteract resume_same [OF assms(1) steady_refl, of c x] by simp
    qed (use abandon in simp)
  qed
qed

section \<open>Runs of the host\<close>

text \<open>At most two calls wait, and an inner one only cancels a subscription while another kind of call waits.\<close>

definition calls_nested :: "backend_call list \<Rightarrow> bool" where
  "calls_nested cs \<longleftrightarrow> length cs \<le> 2 \<and> (\<forall>c d. cs = [c, d] \<longrightarrow> is_cancel_call c \<and> \<not> is_cancel_call d \<and> \<not> is_open_call d)"

definition call_number :: "backend_call \<Rightarrow> nat" where
  "call_number c = the (valid_request_envelope (call_request c))"

text \<open>The numbers of the requests the controller was asked for; abandoning a stream repeats the number of its request.\<close>

definition issued_numbers :: "backend_call list \<Rightarrow> nat list" where
  "issued_numbers cs = map call_number (filter (\<lambda>c. \<not> is_abandon_call c) cs)"

definition issued_ok :: "'w matter_host \<Rightarrow> backend_call list \<Rightarrow> bool" where
  "issued_ok h cs \<longleftrightarrow> sorted_wrt (<) (issued_numbers cs) \<and> (\<forall>n \<in> set (issued_numbers cs). n \<le> mh_greatest h) \<and>
     (cs \<noteq> [] \<longrightarrow> is_open_call (hd cs)) \<and> (\<forall>c \<in> set (tl cs). call_admitted (mh_fabric h) c)"

definition host_run_inv :: "'w host_run \<Rightarrow> bool" where
  "host_run_inv r \<longleftrightarrow> (let h = hr_host r; cs = hr_calls r
     in \<not> hr_undefined r \<and> host_ok h \<and> mh_depth h = length cs \<and> calls_nested cs \<and>
        mh_cancellation h = list_ex is_cancel_call cs \<and> (\<forall>c \<in> set cs. call_waits c h) \<and> issued_ok h (hr_issued r) \<and>
        (mh_state h = AwaitFlow \<or> (mh_state h = AwaitOpen \<and> cs = []) \<longrightarrow> hr_issued r = []) \<and>
        (mh_state h = StateOpen \<longrightarrow> hr_issued r \<noteq> []) \<and>
        (list_ex is_open_call cs \<longrightarrow> length cs = 1 \<and> length (hr_issued r) = 1))"

lemma host_run_invD:
  assumes "host_run_inv r"
  shows "\<not> hr_undefined r" "host_ok (hr_host r)" "mh_depth (hr_host r) = length (hr_calls r)" "calls_nested (hr_calls r)"
    "mh_cancellation (hr_host r) = list_ex is_cancel_call (hr_calls r)"
    "\<And>c. c \<in> set (hr_calls r) \<Longrightarrow> call_waits c (hr_host r)" "issued_ok (hr_host r) (hr_issued r)"
    "mh_state (hr_host r) = AwaitFlow \<or> (mh_state (hr_host r) = AwaitOpen \<and> hr_calls r = []) \<Longrightarrow> hr_issued r = []"
    "mh_state (hr_host r) = StateOpen \<Longrightarrow> hr_issued r \<noteq> []"
    "list_ex is_open_call (hr_calls r) \<Longrightarrow> length (hr_calls r) = 1 \<and> length (hr_issued r) = 1"
  using assms unfolding host_run_inv_def Let_def by blast+

lemma host_run_invI:
  assumes "\<not> hr_undefined r" "host_ok (hr_host r)" "mh_depth (hr_host r) = length (hr_calls r)" "calls_nested (hr_calls r)"
    "mh_cancellation (hr_host r) = list_ex is_cancel_call (hr_calls r)"
    "\<And>c. c \<in> set (hr_calls r) \<Longrightarrow> call_waits c (hr_host r)" "issued_ok (hr_host r) (hr_issued r)"
    "mh_state (hr_host r) = AwaitFlow \<or> (mh_state (hr_host r) = AwaitOpen \<and> hr_calls r = []) \<Longrightarrow> hr_issued r = []"
    "mh_state (hr_host r) = StateOpen \<Longrightarrow> hr_issued r \<noteq> []"
    "list_ex is_open_call (hr_calls r) \<Longrightarrow> length (hr_calls r) = 1 \<and> length (hr_issued r) = 1"
  shows "host_run_inv r"
  using assms unfolding host_run_inv_def Let_def by blast

lemma run_init_inv: "host_run_inv (run_init w)"
  by (simp add: host_run_inv_def run_init_def host_init_def host_ok_def session_ok_def channel_ok_def calls_nested_def
      issued_ok_def issued_numbers_def Let_def)

lemma call_waits_steady: "steady h h' \<Longrightarrow> call_waits c h' = call_waits c h"
  by (simp add: call_waits_def steady_def)

lemma steady_inv:
  assumes "host_run_inv r" and "host_ok h'" and "steady (hr_host r) h'"
  shows "host_run_inv (r\<lparr>hr_host := h'\<rparr>)"
  using assms call_waits_steady [OF assms(3)]
  by (auto simp: host_run_inv_def Let_def issued_ok_def steady_def same_session_def)

lemma request_close_inv:
  assumes "host_run_inv r"
  shows "host_run_inv (r\<lparr>hr_host := request_close (hr_host r)\<rparr>)"
  using assms request_close_ok [of "hr_host r"] request_close_facts [of "hr_host r"]
  by (auto simp: host_run_inv_def Let_def issued_ok_def same_session_def call_waits_def)

lemma host_close_inv:
  assumes "host_run_inv r" and "hr_calls r = []"
  shows "host_run_inv (r\<lparr>hr_host := host_close (hr_host r)\<rparr>)"
  using assms host_close_ok [of "hr_host r"] host_close_facts [of "hr_host r"]
  by (auto simp: host_run_inv_def Let_def issued_ok_def same_session_def calls_nested_def)

text \<open>After a call has been issued or a line has ended.\<close>

lemma finish_line_facts:
  assumes "finish_line x h = (y, h')" and "host_ok h"
  shows "host_ok h'" "mh_depth h' = mh_depth h - 1" "mh_greatest h' = mh_greatest h" "mh_fabric h' = mh_fabric h"
    "mh_cancellation h' = mh_cancellation h" "mh_state h' = mh_state h \<or> mh_state h' = StateClosed"
    "mh_depth h > 1 \<Longrightarrow> mh_state h' = mh_state h \<and> mh_close_requested h' = mh_close_requested h"
    "mh_depth h \<le> 1 \<Longrightarrow> \<not> host_healthy h \<Longrightarrow> mh_state h' = StateClosed"
  using assms host_close_ok [of "h\<lparr>mh_depth := mh_depth h - 1\<rparr>"]
  by (auto simp: finish_line_def Let_def host_healthy_def host_close_def split: if_splits)

lemma issued_mono: "issued_ok h cs \<Longrightarrow> mh_greatest h \<le> mh_greatest h' \<Longrightarrow> mh_fabric h' = mh_fabric h \<Longrightarrow> issued_ok h' cs"
  by (auto simp: issued_ok_def)

lemma issued_snoc:
  assumes "issued_ok h cs" and "mh_greatest h < mh_greatest h'" and "mh_fabric h' = mh_fabric h"
    and "valid_request_envelope (call_request c) = Some (mh_greatest h')" and "\<not> is_abandon_call c"
    and "if cs = [] then is_open_call c else call_admitted (mh_fabric h) c"
  shows "issued_ok h' (cs @ [c])"
  using assms
  by (cases "cs = []") (auto simp: issued_ok_def issued_numbers_def call_number_def sorted_wrt_append intro: order.strict_trans1)

text \<open>The state after a line: the calls below it still wait.\<close>

lemma host_closing:
  assumes "host_ok h"
  shows "mh_state h = StateClosing \<Longrightarrow> mh_close_requested h"
    and "mh_close_requested h \<Longrightarrow> mh_state h \<in> {StateClosing, StateClosed}"
  using assms by (simp_all add: host_ok_def session_ok_def)

lemma waits_move:
  assumes "host_ok h" and "call_waits c h" and "\<not> is_open_call c" and "host_ok h'" and "state_moves h h'" and "mh_depth h > 1"
  shows "call_waits c h'"
proof (cases "mh_close_requested h")
  case True
  then show ?thesis using assms(5) by (simp add: call_waits_def state_moves_def)
next
  case False
  then have "mh_state h = StateOpen" using assms(2,3) by (simp add: call_waits_def)
  then have "mh_state h' = StateOpen \<or> mh_state h' = StateClosing" using assms(5,6) by (auto simp: state_moves_def)
  then show ?thesis using assms(3) host_closing(1) [OF assms(4)] by (auto simp: call_waits_def)
qed

lemma waits_not_flow: "host_ok h \<Longrightarrow> call_waits c h \<Longrightarrow> mh_state h \<noteq> AwaitFlow"
  using host_closing(2) [of h] by (auto simp: call_waits_def split: if_splits)

lemma line_done_inv:
  assumes inv: "host_run_inv r" and no_open: "\<not> list_ex is_open_call (hr_calls r)"
    and out: "line_outcome ((hr_host r)\<lparr>mh_depth := mh_depth (hr_host r) + 1\<rparr>) (PDone x, h2)"
  shows "host_run_inv (advance (PDone x, h2) r)"
proof -
  let ?h = "hr_host r" and ?cs = "hr_calls r"
  let ?h1 = "?h\<lparr>mh_depth := mh_depth ?h + 1\<rparr>"
  obtain y h3 where fin: "finish_line x h2 = (y, h3)" by (cases "finish_line x h2")
  note old = host_run_invD [OF inv]
  have ok1: "host_ok ?h1" using old(2) by simp
  have h2: "host_ok h2" "mh_fabric h2 = mh_fabric ?h" "mh_depth h2 = mh_depth ?h + 1" "mh_greatest ?h \<le> mh_greatest h2"
      "mh_cancellation h2 = mh_cancellation ?h"
      "state_moves ?h1 h2 \<or> (mh_state ?h = AwaitFlow \<and> mh_state h2 = AwaitOpen)"
    using out by (auto simp: line_outcome_def)
  note f = finish_line_facts [OF fin h2(1)]
  have waits: "call_waits c h3" if "c \<in> set ?cs" for c
  proof -
    have c: "call_waits c ?h1" using old(6) [OF that] by (simp add: call_waits_def)
    have no: "\<not> is_open_call c" using that no_open by (auto simp: list_ex_iff)
    have deep: "mh_depth ?h1 > 1" using old(3) that by (cases ?cs) auto
    have "mh_state ?h \<noteq> AwaitFlow" by (rule waits_not_flow [OF old(2) old(6) [OF that]])
    then have "call_waits c h2" using waits_move [OF ok1 c no h2(1) _ deep] h2(6) by blast
    then show ?thesis using f(7) h2(3) deep by (simp add: call_waits_def)
  qed
  have state: "mh_state h3 \<in> {mh_state ?h, StateClosing, StateClosed} \<or> (mh_state ?h = AwaitFlow \<and> mh_state h3 = AwaitOpen)"
    using f(6) h2(6) by (auto simp: state_moves_def)
  have rest: "hr_issued r = []" if "mh_state h3 = AwaitFlow \<or> (mh_state h3 = AwaitOpen \<and> ?cs = [])"
    using old(8) that state by auto
  have opened: "hr_issued r \<noteq> []" if "mh_state h3 = StateOpen" using old(9) that state by auto
  have issued: "issued_ok h3 (hr_issued r)" using issued_mono [OF old(7), of h3] f(3,4) h2(2,4) by simp
  have "host_run_inv (r\<lparr>hr_host := h3, hr_results := hr_results r @ [y]\<rparr>)"
  proof (rule host_run_invI, goal_cases)
    case (6 c)
    then show ?case using waits by simp
  next
    case 8
    then show ?case using rest by simp
  qed (use old(1,3,4,5) f(1,2,5) h2(3,5) opened issued no_open in simp_all)
  then show ?thesis by (simp add: advance_def fin)
qed

lemma line_call_inv:
  assumes inv: "host_run_inv r" and no_open: "\<not> list_ex is_open_call (hr_calls r)"
    and out: "line_outcome ((hr_host r)\<lparr>mh_depth := mh_depth (hr_host r) + 1\<rparr>) (PCall c, h2)"
  shows "host_run_inv (advance (PCall c, h2) r)"
proof -
  let ?h = "hr_host r" and ?cs = "hr_calls r"
  have ok: "host_ok ?h" and depth: "mh_depth ?h = length ?cs" and nested: "calls_nested ?cs"
      and cancel: "mh_cancellation ?h = list_ex is_cancel_call ?cs"
    using inv by (simp_all add: host_run_inv_def Let_def)
  have h2: "host_ok h2" "mh_fabric h2 = mh_fabric ?h" "mh_depth h2 = mh_depth ?h + 1" "mh_state h2 = mh_state ?h"
      "mh_close_requested h2 = mh_close_requested ?h" "mh_greatest ?h < mh_greatest h2"
      "valid_request_envelope (call_request c) = Some (mh_greatest h2)"
      "if is_open_call c then mh_state ?h = AwaitOpen
       else mh_state ?h = StateOpen \<and> call_admitted (mh_fabric ?h) c \<and> \<not> is_abandon_call c \<and> (mh_depth ?h > 0 \<longrightarrow> is_cancel_call c)"
      "if is_cancel_call c then \<not> mh_cancellation ?h \<and> mh_cancellation h2 else mh_cancellation h2 = mh_cancellation ?h"
    using out by (auto simp: line_outcome_def split: if_splits)
  have waits: "call_waits d h2" if "d \<in> set ?cs" for d
    using host_run_invD(6) [OF inv that] by (simp add: h2(4,5) call_waits_def)
  have first: "?cs = [] \<and> hr_issued r = []" if "is_open_call c"
  proof -
    have "d \<notin> set ?cs" for d
    proof
      assume d: "d \<in> set ?cs"
      then have "\<not> is_open_call d" using no_open by (auto simp: list_ex_iff)
      then show False using waits [OF d] that h2(8) ok by (auto simp: call_waits_def host_ok_def session_ok_def h2(4,5))
    qed
    then have "?cs = []" by (cases ?cs) auto
    then show ?thesis using inv that h2(8) by (simp add: host_run_inv_def Let_def)
  qed
  have nest: "calls_nested (c # ?cs)"
    using nested depth cancel h2(8,9) first no_open
    by (cases ?cs; cases "is_open_call c") (auto simp: calls_nested_def length_Suc_conv le_Suc_eq numeral_2_eq_2)
  have kind: "is_open_call c \<Longrightarrow> \<not> is_abandon_call c \<and> \<not> is_cancel_call c" by (cases c) auto
  have "issued_ok h2 (hr_issued r @ [c])"
    by (rule issued_snoc [of ?h]) (use inv h2 first kind in \<open>auto simp: host_run_inv_def Let_def split: if_splits\<close>)
  then show ?thesis
    using inv h2 depth nest waits first no_open kind cancel
    by (auto simp: advance_def host_run_inv_def Let_def call_waits_def split: if_splits)
qed

lemma line_inv:
  assumes inv: "host_run_inv r" and possible: "host_possible (HostLine line) r"
  shows "host_run_inv (host_act env (HostLine line) r)"
proof -
  let ?h1 = "(hr_host r)\<lparr>mh_depth := mh_depth (hr_host r) + 1\<rparr>"
  obtain p h2 where run: "process_line_impl env line ?h1 = (p, h2)" by (cases "process_line_impl env line ?h1")
  have ok1: "host_ok ?h1" using inv by (simp add: host_run_inv_def Let_def)
  have out: "line_outcome ?h1 (p, h2)" using process_line_outcome [OF ok1, of env line] run by simp
  have no_open: "\<not> list_ex is_open_call (hr_calls r)"
    using inv possible by (cases "hr_calls r") (auto simp: host_run_inv_def Let_def)
  show ?thesis
    using line_done_inv [OF inv no_open] line_call_inv [OF inv no_open] out
    unfolding host_act.simps Let_def run by (cases p) (auto simp: line_outcome_def [of _ "(PUndefined, _)"])
qed

lemma nested_inner:
  assumes "calls_nested (c # cs)"
  shows "calls_nested cs" "is_cancel_call c \<Longrightarrow> \<not> list_ex is_cancel_call cs" "d \<in> set cs \<Longrightarrow> \<not> is_open_call d \<and> is_cancel_call c"
    "list_ex is_open_call cs \<Longrightarrow> False" "cs \<noteq> [] \<Longrightarrow> is_cancel_call c"
  using assms by (cases cs; auto simp: calls_nested_def)+

lemma answer_done_inv:
  assumes inv: "host_run_inv r" and calls: "hr_calls r = c # cs" and out: "resume_outcome c (hr_host r) (PDone x, h2)"
  shows "host_run_inv (advance (PDone x, h2) (r\<lparr>hr_calls := cs\<rparr>))"
proof -
  let ?h = "hr_host r"
  obtain y h3 where fin: "finish_line x h2 = (y, h3)" by (cases "finish_line x h2")
  note old = host_run_invD [OF inv, unfolded calls]
  have h2: "host_ok h2" "mh_greatest h2 = mh_greatest ?h" "mh_depth h2 = mh_depth ?h"
      "mh_cancellation h2 = (mh_cancellation ?h \<and> \<not> is_cancel_call c)" "is_open_call c \<or> mh_fabric h2 = mh_fabric ?h"
      "state_moves ?h h2 \<or> (is_open_call c \<and> mh_state h2 = StateOpen)"
      "is_open_call c \<and> mh_state h2 = AwaitOpen \<longrightarrow> \<not> host_healthy h2"
    using out by (auto simp: resume_outcome_def)
  note f = finish_line_facts [OF fin h2(1)] and nest = nested_inner [OF old(4)]
  have c: "call_waits c ?h" using old(6) by simp
  have not_flow: "mh_state ?h \<noteq> AwaitFlow" by (rule waits_not_flow [OF old(2) c])
  have single: "is_open_call c \<Longrightarrow> cs = [] \<and> length (hr_issued r) = 1" using old(10) by auto
  have waits: "call_waits d h3" if d: "d \<in> set cs" for d
  proof -
    have deep: "mh_depth ?h > 1" using old(3) d by (cases cs) auto
    have "state_moves ?h h2" using h2(6) single d by auto
    then have "call_waits d h2" using waits_move [OF old(2) old(6) [of d] _ h2(1) _ deep] nest(3) [OF d] d by auto
    then show ?thesis using f(7) h2(3) deep by (simp add: call_waits_def)
  qed
  have cancel: "mh_cancellation h3 = list_ex is_cancel_call cs" using f(5) h2(4) old(5) nest(2) by auto
  have issued: "issued_ok h3 (hr_issued r)"
  proof (cases "is_open_call c")
    case True
    then show ?thesis using single old(7) f(3) h2(2) by (cases "hr_issued r") (auto simp: issued_ok_def)
  next
    case False
    then show ?thesis using issued_mono [OF old(7), of h3] f(3,4) h2(2,5) by simp
  qed
  have rest: "hr_issued r = []" if "mh_state h3 = AwaitFlow \<or> (mh_state h3 = AwaitOpen \<and> cs = [])"
  proof -
    have same: "mh_state h3 = mh_state h2" "mh_state h2 = mh_state ?h" using that f(6) h2(6) by (auto simp: state_moves_def)
    then have await: "mh_state h2 = AwaitOpen" "cs = []" using that not_flow by auto
    have "is_open_call c" using c await same host_closing(2) [OF old(2)] by (auto simp: call_waits_def split: if_splits)
    then have "mh_state h3 = StateClosed" using f(8) h2(3,7) await old(3) by auto
    then show ?thesis using that by simp
  qed
  have opened: "hr_issued r \<noteq> []" if "mh_state h3 = StateOpen"
    using that f(6) h2(6) old(9) single by (auto simp: state_moves_def)
  have "host_run_inv (r\<lparr>hr_calls := cs, hr_host := h3, hr_results := hr_results r @ [y]\<rparr>)"
  proof (rule host_run_invI, goal_cases)
    case (6 d)
    then show ?case using waits by simp
  next
    case 8
    then show ?case using rest by simp
  next
    case 10
    then show ?case using nest(4) by simp
  qed (use old(1,3) f(1,2) h2(3) nest(1) cancel issued opened in simp_all)
  then show ?thesis by (simp add: advance_def fin)
qed

lemma answer_call_inv:
  assumes inv: "host_run_inv r" and calls: "hr_calls r = c # cs" and out: "resume_outcome c (hr_host r) (PCall d, h2)"
  shows "host_run_inv (advance (PCall d, h2) (r\<lparr>hr_calls := cs\<rparr>))"
proof -
  let ?h = "hr_host r"
  note old = host_run_invD [OF inv, unfolded calls]
  have h2: "host_ok h2" "mh_greatest h2 = mh_greatest ?h" "mh_depth h2 = mh_depth ?h"
      "mh_cancellation h2 = mh_cancellation ?h" "mh_fabric h2 = mh_fabric ?h" "is_abandon_call d"
      "call_admitted (mh_fabric ?h) d" "\<not> is_open_call c" "\<not> is_cancel_call c" "mh_state ?h = StateOpen"
      "mh_state h2 = StateOpen"
    using out by (auto simp: resume_outcome_def)
  have kind: "\<not> is_open_call d" "\<not> is_cancel_call d" using h2(6) by (cases d; simp)+
  have cs: "cs = []" using nested_inner(5) [OF old(4)] h2(9) by blast
  have nonempty: "hr_issued r \<noteq> []" using old(9) h2(10) by simp
  have issued: "issued_ok h2 (hr_issued r @ [d])"
    using old(7) h2(2,5,6,7) nonempty by (auto simp: issued_ok_def issued_numbers_def)
  have "host_run_inv (r\<lparr>hr_host := h2, hr_calls := [d], hr_issued := hr_issued r @ [d]\<rparr>)"
  proof (rule host_run_invI, goal_cases)
    case (6 e)
    then show ?case using h2(11) kind by (simp add: call_waits_def)
  qed (use old(1,3,5) h2 kind cs issued in \<open>simp_all add: calls_nested_def\<close>)
  then show ?thesis by (simp add: advance_def cs)
qed

lemma answer_inv:
  assumes inv: "host_run_inv r" and possible: "host_possible (HostAnswer a) r"
  shows "host_run_inv (host_act env (HostAnswer a) r)"
proof -
  obtain c cs where calls: "hr_calls r = c # cs" and fits: "answer_fits c a"
    using possible by (auto split: list.splits)
  obtain p h2 where run: "resume_call env c a (hr_host r) = (p, h2)" by (cases "resume_call env c a (hr_host r)")
  have "resume_outcome c (hr_host r) (p, h2)"
    using resume_call_outcome [OF _ _ fits, of "hr_host r" env] host_run_invD(2,6) [OF inv] calls run by auto
  then show ?thesis
    using answer_done_inv [OF inv calls] answer_call_inv [OF inv calls]
    by (cases p) (auto simp: calls run resume_outcome_def [of _ _ "(PUndefined, _)"])
qed

lemma host_step_inv: "host_run_inv r \<Longrightarrow> host_run_inv (host_step env e r)"
proof (cases "host_possible e r")
  case True
  assume inv: "host_run_inv r"
  note ok = host_run_invD(2) [OF inv]
  have "host_run_inv (host_act env e r)"
  proof (cases e)
    case (HostLine line)
    then show ?thesis using line_inv [OF inv] True by blast
  next
    case (HostAnswer a)
    then show ?thesis using answer_inv [OF inv] True by blast
  next
    case (HostReport p)
    then show ?thesis using emit_report_ok [OF ok, of p env] True steady_inv [OF inv] by auto
  next
    case (HostStatus s)
    then show ?thesis using emit_status_ok [OF ok, of env s] steady_inv [OF inv] by simp
  next
    case (HostFailure k g f)
    then show ?thesis using emit_failure_ok [OF ok, of env k g f] steady_inv [OF inv] by simp
  next
    case HostRequestClose
    then show ?thesis using request_close_inv [OF inv] by simp
  next
    case HostClose
    then show ?thesis using host_close_inv [OF inv] True by simp
  qed
  then show ?thesis using True by (simp add: host_step_def)
qed (simp add: host_step_def)

interpretation matter_session: action_machine "host_step env" host_run_inv "\<lambda>_. True"
  by unfold_locales (rule host_step_inv)

lemma host_reached_inv: "host_run_inv (host_reached env w es)"
  unfolding host_reached_def by (rule matter_session.run_inv [OF run_init_inv]) (simp add: list_all_iff)



text \<open>
  A subscription that is answered with the identity of a live stream is given up by that identity: what the
  controller is asked to cancel is the stream that was live before.
\<close>

lemma duplicate_subscription_cancelled:
  assumes "sx_ok r" and "sx_subscription_id r = sr_subscription_id q" and "sx_generation r \<noteq> 0" and "sx_max_interval_s r \<noteq> 0"
    and "sx_min_interval_s r \<le> sx_max_interval_s r" and "stream_live (sx_subscription_id r) (sx_generation r) h"
  shows "fst (answer_subscribe env request q r h) =
    PCall (BackendAbandon request (sx_subscription_id r) (sx_generation r) (sr_timeout_ms q))"
proof -
  obtain m where m: "mh_flow h = Some m" using assms(6) by (cases "mh_flow h") (auto simp: stream_live_def)
  have "omap_has (credit_key (sx_subscription_id r) (sx_generation r)) (cm_streams m)"
    using assms(6) m by (auto simp: stream_live_def credit_is_live_def omap_has_def split: option.splits)
  then show ?thesis
    using assms m by (auto simp: answer_subscribe_def Let_def with_flow_def credit_add_stream_def split: prod.splits)
qed

section \<open>A session that opens and asks\<close>

definition sample_flow_open :: json where
  "sample_flow_open = JObject [(''event'', JString ''flow_open''),
     (''session_generation'', JString ''0123456789abcdef0123456789abcdef''), (''version'', JUnsigned 1)]"

definition sample_open :: json where
  "sample_open = JObject [(''id'', JString ''1''), (''operation'', JString ''open''),
     (''parameters'', JObject [(''authority'', JString ''stored''), (''controller_node_id'', JUnsigned 1), (''fabric_id'', JUnsigned 7),
       (''lifecycle'', JString ''persistent''), (''paa_trust_store'', JString ''/t''), (''storage_mode'', JString ''open_existing''),
       (''storage_path'', JString ''/s''), (''vendor_id'', JUnsigned 1)]),
     (''timeout_ms'', JUnsigned 10), (''version'', JUnsigned 1)]"

definition sample_commission :: json where
  "sample_commission = JObject [(''id'', JString ''2''), (''operation'', JString ''commission_on_network''),
     (''parameters'', JObject [(''discriminator'', JUnsigned 5), (''node_id'', JUnsigned 3), (''setup_pin'', JUnsigned 20202021)]),
     (''timeout_ms'', JUnsigned 10), (''version'', JUnsigned 1)]"

definition sample_host_env :: "unit host_env" where
  "sample_host_env = \<lparr>he_parser = (\<lambda>line. let d = (if line = ''f'' then sample_flow_open else if line = ''o'' then sample_open
       else sample_commission) in (document_events d, Some d)),
     he_dump = (\<lambda>j. ''x''), he_sink = (\<lambda>w f. (True, w))\<rparr>"

lemma sample_parses:
  "parse_bounded (he_parser sample_host_env) ''f'' = Some sample_flow_open" (is ?f)
  "parse_bounded (he_parser sample_host_env) ''o'' = Some sample_open" (is ?o)
  "parse_bounded (he_parser sample_host_env) ''c'' = Some sample_commission" (is ?c)
proof -
  show ?f
    using matter_parse_exact [of "he_parser sample_host_env" "''f''" sample_flow_open sample_flow_open] by (simp add: sample_host_env_def sample_flow_open_def)
  show ?o
    using matter_parse_exact [of "he_parser sample_host_env" "''o''" sample_open sample_open] by (simp add: sample_host_env_def sample_open_def)
  show ?c
    using matter_parse_exact [of "he_parser sample_host_env" "''c''" sample_commission sample_commission]
    by (simp add: sample_host_env_def sample_commission_def)
qed

lemma sample_envelopes:
  "valid_request_envelope sample_open = Some 1" "valid_request_envelope sample_commission = Some 2"
  "\<not> is_close sample_open" "\<not> is_close sample_commission"
  by (simp_all add: valid_request_envelope_def sample_open_def sample_commission_def json_exact_def json_contains_def json_at_def
      omap_has_def canonical_request_id_def decimal_number_def is_digit_def digit_value_def is_close_def u64_max_def)

lemma sample_parameters:
  "\<exists>q. open_options (json_at sample_open ''parameters'') = Some q"
  "\<exists>q. commissioning_parameters (json_at sample_commission ''parameters'') 10 = Some q"
  by (simp_all add: sample_open_def sample_commission_def open_options_def commissioning_parameters_def json_exact_def json_contains_def
      json_at_def omap_has_def absolute_path_def Let_def unsigned_at_most_def maximum_operational_node_def
      valid_commissioning_request_def setup_pin_exact u32_cast_def u16_cast_def)

lemma sample_flow_line:
  "flow_open_line sample_flow_open h = (silent, h\<lparr>mh_session := ''0123456789abcdef0123456789abcdef'',
     mh_flow := Some (credit_manager_init ''0123456789abcdef0123456789abcdef'' (mh_channel h)), mh_state := AwaitOpen\<rparr>)"
  by (simp add: flow_open_line_def sample_flow_open_def json_at_def json_exact_def json_contains_def omap_has_def
      canonical_generation_def hex_char_def)

lemma sample_not_acknowledge: "\<not> json_exact sample_commission acknowledge_fields"
  by (simp add: sample_commission_def acknowledge_fields_def json_exact_def json_contains_def omap_has_def)

lemma sample_operations:
  "json_at sample_open ''operation'' = JString ''open''"
  "json_text (json_at sample_commission ''operation'') = ''commission_on_network''"
  "request_timeout sample_commission = 10"
  by (simp_all add: sample_open_def sample_commission_def json_at_def request_timeout_def u32_cast_def)

text \<open>A session is opened, the controller opens, and a commissioning request reaches it.\<close>

lemma sample_session:
  "let r = host_reached sample_host_env () [HostLine ''f'', HostLine ''o'', HostAnswer (AnswerResult True []), HostLine ''c'']
   in mh_state (hr_host r) = StateOpen \<and> issued_numbers (hr_issued r) = [1, 2] \<and> length (hr_calls r) = 1"
proof -
  obtain options where options: "open_options (json_at sample_open ''parameters'') = Some options" using sample_parameters(1) by blast
  obtain q where q: "commissioning_parameters (json_at sample_commission ''parameters'') 10 = Some q" using sample_parameters(2) by blast
  show ?thesis
    by (simp add: host_reached_def run_init_def host_init_def host_step_def process_line_impl_def host_healthy_def sample_parses
        sample_flow_line silent_def advance_def finish_line_def sample_envelopes numbered_line_def open_line_def options
        sample_operations answer_open_def reply_def sample_not_acknowledge operation_line_def q issued_numbers_def call_number_def Let_def)
qed

end
