(* ===== verification/Wotex_Ring.thy ===== *)
theory Wotex_Ring
  imports Wotex_Channel
begin

text \<open>
  Ring buffers as the C hosts keep them: a fixed array, the index of the oldest element and a count, with every
  index reduced modulo the capacity.  \<open>ring_items\<close> reads the queue off the array, oldest first;
  \<open>ring_recent\<close> reads a cache in which the head is the next slot to overwrite, newest first.
\<close>

named_theorems ring \<open>the queue after an update of its array\<close>

definition ring_slot :: "'a list \<Rightarrow> nat \<Rightarrow> nat \<Rightarrow> nat" where
  "ring_slot xs head i = (head + i) mod length xs"

definition ring_items :: "'a list \<Rightarrow> nat \<Rightarrow> nat \<Rightarrow> 'a list" where
  "ring_items xs head count = map (\<lambda>i. xs ! ring_slot xs head i) [0..<count]"

definition ring_recent :: "'a list \<Rightarrow> nat \<Rightarrow> nat \<Rightarrow> 'a list" where
  "ring_recent xs head count = map (\<lambda>i. xs ! ((head + length xs - 1 - i) mod length xs)) [0..<count]"

definition ring_ok :: "'a list \<Rightarrow> nat \<Rightarrow> nat \<Rightarrow> bool" where
  "ring_ok xs head count \<longleftrightarrow> head < length xs \<and> count \<le> length xs"

section \<open>Slots\<close>

lemma ring_slot_less: "xs \<noteq> [] \<Longrightarrow> ring_slot xs head i < length xs"
  by (simp add: ring_slot_def)

lemma mod_shift_inj:
  fixes n :: nat
  assumes "i < n" "j < n" "(k + i) mod n = (k + j) mod n"
  shows "i = j"
proof (rule ccontr)
  assume ne: "i \<noteq> j"
  have dvd: "n dvd b - a" if "a \<le> b" "(k + a) mod n = (k + b) mod n" for a b
    using that mod_eq_dvd_iff_nat [of "k + a" "k + b" n] by simp
  from ne consider "i < j" | "j < i" by linarith
  then show False
    using dvd [of i j] dvd [of j i] assms by cases (auto dest: dvd_imp_le)
qed

lemma ring_slot_distinct:
  "i < length xs \<Longrightarrow> j < length xs \<Longrightarrow> ring_slot xs head i = ring_slot xs head j \<longleftrightarrow> i = j"
  by (auto simp: ring_slot_def dest: mod_shift_inj)

lemma ring_ok_nonempty: "ring_ok xs head count \<Longrightarrow> xs \<noteq> []"
  by (auto simp: ring_ok_def)

lemma length_ring_items [simp]: "length (ring_items xs head count) = count"
  by (simp add: ring_items_def)

lemma ring_items_Nil [simp]: "ring_items xs head 0 = []"
  by (simp add: ring_items_def)

section \<open>Queues\<close>

lemma ring_items_push [ring]:
  assumes "ring_ok xs head count" "count < length xs"
  shows "ring_items (xs[ring_slot xs head count := v]) head (Suc count) = ring_items xs head count @ [v]"
proof -
  have "ring_slot xs head i \<noteq> ring_slot xs head count" if "i < count" for i
    using that assms by (simp add: ring_slot_distinct)
  then show ?thesis
    using assms ring_slot_less [OF ring_ok_nonempty [OF assms(1)]]
    by (auto simp: ring_items_def ring_slot_def intro!: nth_list_update_neq) metis
qed

lemma ring_items_pop [ring]:
  assumes "ring_ok xs head (Suc count)"
  shows "ring_items xs head (Suc count) =
    xs ! head # ring_items (xs[head := z]) ((head + 1) mod length xs) count"
proof -
  have slot: "ring_slot xs head (Suc i) = ((head + 1) mod length xs + i) mod length xs" for i
    by (simp add: ring_slot_def mod_add_left_eq)
  have head: "ring_slot xs head 0 = head" using assms by (simp add: ring_slot_def ring_ok_def)
  have "ring_slot xs head (Suc i) \<noteq> head" if "i < count" for i
    using that assms ring_slot_distinct [of "Suc i" xs 0 head] unfolding head ring_ok_def
    by linarith
  then have "xs[head := z] ! ring_slot xs head (Suc i) = xs ! ring_slot xs head (Suc i)" if "i < count" for i
    using that by (metis nth_list_update_neq)
  then show ?thesis
    using head unfolding ring_items_def
    by (simp add: upt_conv_Cons map_Suc_upt [symmetric] slot [symmetric] ring_slot_def [of "xs[head := z]"]
        del: upt_Suc One_nat_def)
qed

lemma ring_ok_push: "ring_ok xs head count \<Longrightarrow> count < length xs \<Longrightarrow> ring_ok (xs[i := v]) head (Suc count)"
  by (simp add: ring_ok_def)

lemma ring_ok_pop:
  assumes "ring_ok xs head (Suc count)"
  shows "ring_ok (xs[i := v]) ((head + 1) mod length xs) count"
  using assms ring_slot_less [OF ring_ok_nonempty [OF assms], of head 1] by (simp add: ring_ok_def ring_slot_def)

section \<open>Caches\<close>

lemma ring_recent_record [ring]:
  assumes "ring_ok xs head count"
  shows "ring_recent (xs[head := v]) ((head + 1) mod length xs) (min (Suc count) (length xs)) =
    take (length xs) (v # ring_recent xs head count)"
proof -
  let ?n = "length xs"
  have n: "head < ?n" "count \<le> ?n" using assms by (auto simp: ring_ok_def)
  have slot: "((head + 1) mod ?n + ?n - 1 - i) mod ?n = (head + ?n - i) mod ?n" if "i < ?n" for i
  proof -
    have "(head + 1) mod ?n + ?n - 1 - i = (head + 1) mod ?n + (?n - 1 - i)" using that by simp
    then have "((head + 1) mod ?n + ?n - 1 - i) mod ?n = (head + 1 + (?n - 1 - i)) mod ?n"
      by (simp add: mod_add_left_eq)
    moreover have "head + 1 + (?n - 1 - i) = head + ?n - i" using that by simp
    ultimately show ?thesis by metis
  qed
  show ?thesis
  proof (rule nth_equalityI)
    fix i assume "i < length (ring_recent (xs[head := v]) ((head + 1) mod ?n) (min (Suc count) ?n))"
    then have i: "i < Suc count" "i < ?n" by (auto simp: ring_recent_def)
    show "ring_recent (xs[head := v]) ((head + 1) mod ?n) (min (Suc count) ?n) ! i =
        take ?n (v # ring_recent xs head count) ! i"
    proof (cases i)
      case 0
      then show ?thesis using n i slot [of 0] by (simp add: ring_recent_def)
    next
      case (Suc j)
      have j: "head + ?n - i = head + ?n - 1 - j" using Suc by simp
      have "(head + (?n - i)) mod ?n \<noteq> (head + 0) mod ?n"
        using mod_shift_inj [of "?n - i" ?n 0 head] Suc i n by linarith
      then have "(head + ?n - i) mod ?n \<noteq> head" using i n by simp
      then show ?thesis using n i slot [of i] Suc j by (simp add: ring_recent_def)
    qed
  qed (auto simp: ring_recent_def)
qed

lemma ring_ok_record:
  assumes "ring_ok xs head count"
  shows "ring_ok (xs[i := v]) ((head + 1) mod length xs) (min (Suc count) (length xs))"
  using assms ring_slot_less [OF ring_ok_nonempty [OF assms], of head 1] by (simp add: ring_ok_def ring_slot_def)

lemma length_ring_recent [simp]: "length (ring_recent xs head count) = count"
  by (simp add: ring_recent_def)

end
