(* ===== verification/Opcua_Sequence.thy ===== *)
theory Opcua_Sequence
  imports Wotex_Ring
begin

text \<open>
  The notification sequence of one OPC UA subscription (\<open>publish_sequence.h\<close>, \<open>publish_sequence.c\<close>): which
  notification may be delivered, which is a duplicate, and the ordered recovery of a gap by Republish requests.
  Sequence numbers are 32-bit words that run through 1 to 2^32 - 1 and then again from 1, the cache is a ring of
  1024 entries.  Pointers to the state and to results are never null here, a digest may be.
\<close>

type_synonym u32 = "32 word"
type_synonym digest = "8 word list"

datatype sequence_verdict =
  SequenceDeliver | SequenceDuplicate | SequenceGap | SequenceConflict | SequenceTooLarge | SequenceStale | SequenceInvalid

datatype recovery_verdict = RecoveryContinue | RecoveryComplete | RecoveryFailed

record wop_sequence =
  sq_last :: u32
  sq_cache :: "(u32 \<times> digest) list"
  sq_head :: nat
  sq_count :: nat
  sq_recovering :: bool
  sq_recover_next :: u32
  sq_recover_left :: u32
  sq_target :: u32
  sq_target_digest :: digest

definition sequence_cache :: nat where
  "sequence_cache = 1024"

definition sequence_republish :: nat where
  "sequence_republish = 100"

definition zero_digest :: digest where
  "zero_digest = replicate 32 0"

definition wop_sequence_init :: "u32 \<Rightarrow> wop_sequence" where
  "wop_sequence_init last' = \<lparr>sq_last = last', sq_cache = replicate sequence_cache (0, zero_digest), sq_head = 0,
     sq_count = 0, sq_recovering = False, sq_recover_next = 0, sq_recover_left = 0, sq_target = 0,
     sq_target_digest = zero_digest\<rparr>"

definition wop_sequence_next :: "u32 \<Rightarrow> u32" where
  "wop_sequence_next s = (if s = - 1 then 1 else s + 1)"

text \<open>The loop of \<open>cached\<close> goes from the newest entry to the oldest.\<close>

definition cached :: "wop_sequence \<Rightarrow> u32 \<Rightarrow> (u32 \<times> digest) option" where
  "cached q s = find (\<lambda>e. fst e = s)
     (map (\<lambda>i. sq_cache q ! ((sq_head q + sequence_cache - 1 - i) mod sequence_cache)) [0..<sq_count q])"

definition sequence_expected :: "wop_sequence \<Rightarrow> u32" where
  "sequence_expected q = (if sq_last q \<noteq> 0 then wop_sequence_next (sq_last q) else 1)"

definition ring_size :: "64 word" where
  "ring_size = 4294967295"

definition sequence_distance :: "u32 \<Rightarrow> u32 \<Rightarrow> 64 word" where
  "sequence_distance s e = (ucast s - 1 + ring_size - (ucast e - 1)) mod ring_size"

definition wop_sequence_classify ::
  "wop_sequence \<Rightarrow> u32 \<Rightarrow> digest option \<Rightarrow> sequence_verdict \<times> u32 \<times> u32" where
  "wop_sequence_classify q s d =
     (case d of None \<Rightarrow> (SequenceInvalid, 0, 0)
      | Some h \<Rightarrow>
        if s = 0 then (SequenceInvalid, 0, 0)
        else case cached q s of
          Some e \<Rightarrow> (if snd e = h then SequenceDuplicate else SequenceConflict, 0, 0)
        | None \<Rightarrow>
          let e = sequence_expected q; n = sequence_distance s e in
          if n = 0 then (SequenceDeliver, 0, 0)
          else if ring_size div 2 \<le> n then (SequenceStale, 0, 0)
          else if of_nat sequence_republish < n then (SequenceTooLarge, 0, 0)
          else (SequenceGap, e, ucast n))"

definition wop_sequence_record :: "wop_sequence \<Rightarrow> u32 \<Rightarrow> digest option \<Rightarrow> bool \<times> wop_sequence" where
  "wop_sequence_record q s d =
     (case d of None \<Rightarrow> (False, q)
      | Some h \<Rightarrow>
        if s = 0 \<or> s \<noteq> sequence_expected q then (False, q)
        else (True, q\<lparr>sq_cache := (sq_cache q)[sq_head q := (s, h)], sq_head := (sq_head q + 1) mod sequence_cache,
                      sq_count := (if sq_count q < sequence_cache then sq_count q + 1 else sq_count q),
                      sq_last := s\<rparr>))"

definition wop_sequence_begin ::
  "wop_sequence \<Rightarrow> u32 \<Rightarrow> digest option \<Rightarrow> u32 \<Rightarrow> u32 \<Rightarrow> bool \<times> wop_sequence" where
  "wop_sequence_begin q target d first n =
     (case d of None \<Rightarrow> (False, q)
      | Some h \<Rightarrow>
        if sq_recovering q \<or> n = 0 \<or> of_nat sequence_republish < n \<or> first \<noteq> sequence_expected q then (False, q)
        else (True, q\<lparr>sq_recovering := True, sq_recover_next := first, sq_recover_left := n, sq_target := target,
                      sq_target_digest := h\<rparr>))"

definition wop_sequence_pending :: "wop_sequence \<Rightarrow> u32 option" where
  "wop_sequence_pending q =
     (if sq_recovering q \<and> sq_recover_left q \<noteq> 0 then Some (sq_recover_next q) else None)"

definition wop_sequence_republished ::
  "wop_sequence \<Rightarrow> u32 \<Rightarrow> bool \<Rightarrow> u32 \<Rightarrow> digest option \<Rightarrow> recovery_verdict \<times> wop_sequence" where
  "wop_sequence_republished q requested available s d =
     (if \<not> sq_recovering q \<or> requested \<noteq> sq_recover_next q \<or> \<not> available \<or> s \<noteq> requested
      then (RecoveryFailed, q\<lparr>sq_recovering := False\<rparr>)
      else case wop_sequence_record q s d of
        (False, q') \<Rightarrow> (RecoveryFailed, q'\<lparr>sq_recovering := False\<rparr>)
      | (True, q') \<Rightarrow>
          let q'' = q'\<lparr>sq_recover_next := wop_sequence_next s, sq_recover_left := sq_recover_left q' - 1\<rparr> in
          if sq_recover_left q'' \<noteq> 0 then (RecoveryContinue, q'')
          else (RecoveryComplete, q''\<lparr>sq_recovering := False\<rparr>))"

section \<open>The ring of sequence numbers\<close>

text \<open>\<open>seq_pos\<close> is the place of a sequence number in the ring, \<open>ring_len\<close> the number of places.\<close>

definition ring_len :: nat where
  "ring_len = 4294967295"

definition seq_pos :: "u32 \<Rightarrow> nat" where
  "seq_pos s = unat s - 1"

lemma unat_u32_less: "unat (s :: u32) < ring_len + 1"
  using unsigned_less [of s] by (simp add: ring_len_def)

lemma u32_pos: "s \<noteq> 0 \<Longrightarrow> 0 < unat (s :: u32)"
  by (simp add: unat_gt_0)

lemma seq_pos_less: "s \<noteq> 0 \<Longrightarrow> seq_pos s < ring_len"
  using unat_u32_less [of s] u32_pos [of s] by (simp add: seq_pos_def)

lemma seq_pos_inject: "s \<noteq> 0 \<Longrightarrow> t \<noteq> 0 \<Longrightarrow> seq_pos s = seq_pos t \<longleftrightarrow> s = t"
  using u32_pos [of s] u32_pos [of t] by (auto simp: seq_pos_def word_unat_eq_iff)

lemma unat_max_u32: "unat (- 1 :: u32) = ring_len"
  by (simp add: ring_len_def unsigned_minus_1_eq_mask mask_eq_exp_minus_1)

lemma sequence_next_unat:
  "s \<noteq> 0 \<Longrightarrow> unat (wop_sequence_next s) = (if unat s = ring_len then 1 else unat s + 1)"
  using unat_u32_less [of s] unat_max_u32
  by (auto simp: wop_sequence_next_def unat_word_ariths word_unat_eq_iff ring_len_def)

lemma sequence_next_nonzero: "wop_sequence_next s \<noteq> 0"
proof (cases "s = 0")
  case True
  then show ?thesis by (simp add: wop_sequence_next_def)
next
  case False
  then show ?thesis using sequence_next_unat [of s] by (metis Suc_eq_plus1 nat.simps(3) unat_0 zero_neq_one)
qed

lemma sequence_next_pos:
  assumes "s \<noteq> 0"
  shows "seq_pos (wop_sequence_next s) = (seq_pos s + 1) mod ring_len"
proof -
  have "0 < unat s" "unat s \<le> ring_len" using assms unat_u32_less [of s] by (auto simp: u32_pos)
  then show ?thesis
    using sequence_next_unat [OF assms] by (auto simp: seq_pos_def ring_len_def)
qed

lemma sequence_funpow:
  assumes "s \<noteq> 0"
  shows "(wop_sequence_next ^^ n) s \<noteq> 0 \<and> seq_pos ((wop_sequence_next ^^ n) s) = (seq_pos s + n) mod ring_len"
proof (induction n)
  case 0
  then show ?case using assms seq_pos_less by simp
next
  case (Suc n)
  then show ?case by (simp add: sequence_next_nonzero sequence_next_pos mod_simps)
qed

lemma sequence_funpow_eq:
  assumes "s \<noteq> 0" "m < ring_len" "n < ring_len"
  shows "(wop_sequence_next ^^ m) s = (wop_sequence_next ^^ n) s \<longleftrightarrow> m = n"
proof
  assume "(wop_sequence_next ^^ m) s = (wop_sequence_next ^^ n) s"
  then have "(seq_pos s + m) mod ring_len = (seq_pos s + n) mod ring_len"
    using sequence_funpow [OF assms(1)] by metis
  then show "m = n" using assms by (auto dest: mod_shift_inj)
qed simp

lemma sequence_distance_pos:
  assumes "s \<noteq> 0" "e \<noteq> 0"
  shows "unat (sequence_distance s e) = (seq_pos s + ring_len - seq_pos e) mod ring_len"
proof -
  have u: "unat (ucast x :: 64 word) = unat (x :: u32)" for x
    using unsigned_less [of x, where ?'a = nat] by (simp add: unsigned_ucast_eq take_bit_eq_mod)
  have pos: "unat (ucast x - 1 :: 64 word) = seq_pos x" if "x \<noteq> 0" for x :: u32
  proof -
    have "(1 :: 64 word) \<le> ucast x" using u32_pos [OF that] u [of x] by (simp add: word_le_nat_alt)
    then show ?thesis using u [of x] by (simp add: unat_sub seq_pos_def)
  qed
  have less: "seq_pos s < ring_len" "seq_pos e < ring_len" using assms seq_pos_less by auto
  have sum: "unat (ucast s - 1 + ring_size :: 64 word) = seq_pos s + ring_len"
    using less unat_word_ariths(1) [of "ucast s - 1 :: 64 word" ring_size] pos [OF assms(1)]
    by (simp add: ring_size_def ring_len_def)
  moreover have "(ucast e - 1 :: 64 word) \<le> ucast s - 1 + ring_size"
    using less sum pos [OF assms(2)] by (simp add: word_le_nat_alt)
  ultimately have "unat (ucast s - 1 + ring_size - (ucast e - 1) :: 64 word) = seq_pos s + ring_len - seq_pos e"
    using pos [OF assms(2)] by (metis unat_sub)
  then show ?thesis by (simp add: sequence_distance_def unat_mod ring_size_def ring_len_def)
qed

lemma sequence_distance_iff:
  assumes "s \<noteq> 0" "e \<noteq> 0" "n < ring_len"
  shows "unat (sequence_distance s e) = n \<longleftrightarrow> s = (wop_sequence_next ^^ n) e"
proof -
  have less: "seq_pos s < ring_len" "seq_pos e < ring_len" using assms seq_pos_less by auto
  have "s = (wop_sequence_next ^^ n) e \<longleftrightarrow> seq_pos s = (seq_pos e + n) mod ring_len"
    using sequence_funpow [OF assms(2), of n] seq_pos_inject [OF assms(1)] by metis
  also have "\<dots> \<longleftrightarrow> (seq_pos s + ring_len - seq_pos e) mod ring_len = n"
    using less assms(3) by (auto simp: mod_if)
  finally show ?thesis using sequence_distance_pos [OF assms(1,2)] by simp
qed

section \<open>Histories\<close>

text \<open>
  The calls that change the state, and the history of what has been recorded, newest first.  The history
  is not part of the program: it says what the cache stands for.
\<close>

datatype sequence_call =
  RecordCall u32 "digest option"
| BeginCall u32 "digest option" u32 u32
| RepublishedCall u32 bool u32 "digest option"

type_synonym seq_history = "(u32 \<times> digest) list"

fun sequence_do :: "sequence_call \<Rightarrow> wop_sequence \<times> seq_history \<Rightarrow> wop_sequence \<times> seq_history" where
  "sequence_do (RecordCall s d) (q, hist) =
     (case wop_sequence_record q s d of (ok, q') \<Rightarrow> (q', if ok then (s, the d) # hist else hist))"
| "sequence_do (BeginCall t d f n) (q, hist) = (snd (wop_sequence_begin q t d f n), hist)"
| "sequence_do (RepublishedCall r a s d) (q, hist) =
     (case wop_sequence_republished q r a s d of
       (v, q') \<Rightarrow> (q', if v = RecoveryFailed then hist else (s, the d) # hist))"

definition sequence_from :: "u32 \<Rightarrow> u32" where
  "sequence_from l = (if l \<noteq> 0 then wop_sequence_next l else 1)"

definition sequence_inv :: "u32 \<Rightarrow> wop_sequence \<times> seq_history \<Rightarrow> bool" where
  "sequence_inv l = (\<lambda>(q, hist).
     length (sq_cache q) = sequence_cache \<and> ring_ok (sq_cache q) (sq_head q) (sq_count q) \<and>
     ring_recent (sq_cache q) (sq_head q) (sq_count q) = take sequence_cache hist \<and>
     sq_count q = min sequence_cache (length hist) \<and>
     map fst (rev hist) = map (\<lambda>i. (wop_sequence_next ^^ i) (sequence_from l)) [0..<length hist] \<and>
     sq_last q = (if hist = [] then l else fst (hd hist)) \<and>
     (sq_recovering q \<longrightarrow> 1 \<le> unat (sq_recover_left q) \<and> unat (sq_recover_left q) \<le> sequence_republish))"

lemma sequence_from_nonzero: "sequence_from l \<noteq> 0"
  by (simp add: sequence_from_def sequence_next_nonzero)

lemma sequence_expected_history:
  assumes "sequence_inv l (q, hist)"
  shows "sequence_expected q = (wop_sequence_next ^^ length hist) (sequence_from l)"
proof (cases hist)
  case Nil
  then show ?thesis using assms by (simp add: sequence_inv_def sequence_expected_def sequence_from_def)
next
  case (Cons e h)
  then have "map fst (rev h) @ [fst e] =
      map (\<lambda>i. (wop_sequence_next ^^ i) (sequence_from l)) [0..<length h] @
      [(wop_sequence_next ^^ length h) (sequence_from l)]"
    using assms by (simp add: sequence_inv_def)
  then have "sq_last q = (wop_sequence_next ^^ length h) (sequence_from l)"
    using assms Cons by (simp add: sequence_inv_def)
  then show ?thesis
    using Cons sequence_funpow [OF sequence_from_nonzero, of "length h" l] by (simp add: sequence_expected_def)
qed

lemma sequence_expected_nonzero: "sequence_expected q \<noteq> 0"
  by (simp add: sequence_expected_def sequence_next_nonzero)

lemma sequence_inv_init: "sequence_inv l (wop_sequence_init l, [])"
  by (simp add: sequence_inv_def wop_sequence_init_def ring_ok_def sequence_cache_def ring_recent_def)

lemma record_inv:
  assumes inv: "sequence_inv l (q, hist)" and rec: "wop_sequence_record q s d = (True, q')"
  shows "sequence_inv l (q', (s, the d) # hist)"
proof -
  from rec obtain h where d: "d = Some h" and s: "s \<noteq> 0" "s = sequence_expected q"
    and q': "q' = q\<lparr>sq_cache := (sq_cache q)[sq_head q := (s, h)], sq_head := (sq_head q + 1) mod sequence_cache,
                    sq_count := (if sq_count q < sequence_cache then sq_count q + 1 else sq_count q), sq_last := s\<rparr>"
    by (auto simp: wop_sequence_record_def split: option.splits if_splits)
  have len: "length (sq_cache q) = sequence_cache" and ok: "ring_ok (sq_cache q) (sq_head q) (sq_count q)"
    and recent: "ring_recent (sq_cache q) (sq_head q) (sq_count q) = take sequence_cache hist"
    and count: "sq_count q = min sequence_cache (length hist)"
    using inv by (auto simp: sequence_inv_def)
  have cnt: "sq_count q' = min (Suc (sq_count q)) (length (sq_cache q))"
    using count len by (simp add: q')
  have "ring_recent (sq_cache q') (sq_head q') (sq_count q') = take sequence_cache ((s, h) # take sequence_cache hist)"
    using ring_recent_record [OF ok, of "(s, h)"] len recent unfolding cnt by (simp add: q')
  also have "\<dots> = take sequence_cache ((s, h) # hist)"
    by (simp add: take_Cons' min_def)
  finally have r: "ring_recent (sq_cache q') (sq_head q') (sq_count q') = take sequence_cache ((s, h) # hist)" .
  have o: "ring_ok (sq_cache q') (sq_head q') (sq_count q')"
    using ring_ok_record [OF ok, of "sq_head q" "(s, h)"] len unfolding cnt by (simp add: q')
  show ?thesis
    using inv r o cnt d s sequence_expected_history [OF inv] by (auto simp: sequence_inv_def q')
qed

lemma record_False: "wop_sequence_record q s d = (False, q') \<Longrightarrow> q' = q"
  by (auto simp: wop_sequence_record_def split: option.splits if_splits)

lemma sequence_inv_recovery:
  "sequence_inv l (q, hist) \<Longrightarrow>
   (r \<Longrightarrow> 1 \<le> unat m \<and> unat m \<le> sequence_republish) \<Longrightarrow>
   sequence_inv l (q\<lparr>sq_recovering := r, sq_recover_next := f, sq_recover_left := m, sq_target := t,
     sq_target_digest := h\<rparr>, hist)"
  by (auto simp: sequence_inv_def)

lemma begin_inv:
  "sequence_inv l (q, hist) \<Longrightarrow> sequence_inv l (snd (wop_sequence_begin q t d f n), hist)"
  using sequence_inv_recovery [where r = True and m = n and f = f and t = t and h = "the d", of l q hist] unat_gt_0 [of n]
  by (auto simp: wop_sequence_begin_def word_less_nat_alt unat_gt_0 Suc_le_eq sequence_republish_def
      split: option.splits)

lemma republished_inv:
  assumes inv: "sequence_inv l (q, hist)" and rep: "wop_sequence_republished q r a s d = (v, q')"
  shows "sequence_inv l (q', if v = RecoveryFailed then hist else (s, the d) # hist)"
proof (cases "\<not> sq_recovering q \<or> r \<noteq> sq_recover_next q \<or> \<not> a \<or> s \<noteq> r")
  case True
  then show ?thesis using inv rep by (auto simp: wop_sequence_republished_def sequence_inv_def)
next
  case False
  obtain ok q1 where rec: "wop_sequence_record q s d = (ok, q1)" by (cases "wop_sequence_record q s d")
  show ?thesis
  proof (cases ok)
    case True
    then have inv1: "sequence_inv l (q1, (s, the d) # hist)" using record_inv [OF inv] rec by simp
    have left: "sq_recover_left q1 = sq_recover_left q" "sq_recovering q1 = sq_recovering q"
      using rec True by (auto simp: wop_sequence_record_def split: option.splits if_splits)
    have one: "1 \<le> unat (sq_recover_left q)" "unat (sq_recover_left q) \<le> sequence_republish"
      using inv False by (auto simp: sequence_inv_def)
    have "unat (sq_recover_left q - 1) = unat (sq_recover_left q) - 1"
      using one by (simp add: unat_sub word_le_nat_alt)
    then have m: "sq_recover_left q - 1 \<noteq> 0 \<Longrightarrow> 1 \<le> unat (sq_recover_left q - 1) \<and>
        unat (sq_recover_left q - 1) \<le> sequence_republish"
      using one unat_gt_0 [of "sq_recover_left q - 1"] by auto
    have v: "v \<noteq> RecoveryFailed" and q': "q' = q1\<lparr>sq_recovering := sq_recover_left q - 1 \<noteq> 0, sq_recover_next := wop_sequence_next s,
        sq_recover_left := sq_recover_left q - 1, sq_target := sq_target q1, sq_target_digest := sq_target_digest q1\<rparr>"
      using False True rep rec left by (auto simp: wop_sequence_republished_def Let_def split: if_splits)
    show ?thesis using sequence_inv_recovery [OF inv1, where r = "sq_recover_left q - 1 \<noteq> 0", OF m] v unfolding q' by (simp only: if_False) blast
  next
    case notok: False
    then show ?thesis
      using False rep rec inv record_False [of q s d q1] by (auto simp: wop_sequence_republished_def sequence_inv_def)
  qed
qed

lemma sequence_do_inv: "sequence_inv l x \<Longrightarrow> sequence_inv l (sequence_do c x)"
  by (cases x; cases c)
    (auto dest: record_inv record_False begin_inv republished_inv split: prod.splits if_splits)

interpretation opcua_sequence: action_machine sequence_do "sequence_inv l" "\<lambda>_. True" for l
  by unfold_locales (rule sequence_do_inv)


section \<open>Classification\<close>

lemma cached_recent:
  "sequence_inv l (q, hist) \<Longrightarrow> cached q s = find (\<lambda>e. fst e = s) (take sequence_cache hist)"
  by (auto simp: sequence_inv_def cached_def ring_recent_def)

lemma history_nth:
  assumes "sequence_inv l (q, hist)" "i < length hist"
  shows "fst (hist ! i) = (wop_sequence_next ^^ (length hist - Suc i)) (sequence_from l)"
proof -
  have "fst (hist ! i) = map fst (rev hist) ! (length hist - Suc i)"
    using assms(2) by (simp add: rev_nth)
  also have "\<dots> = map (\<lambda>i. (wop_sequence_next ^^ i) (sequence_from l)) [0..<length hist] ! (length hist - Suc i)"
    using assms(1) by (auto simp: sequence_inv_def)
  finally show ?thesis using assms(2) by simp
qed

lemma history_recent:
  assumes inv: "sequence_inv l (q, hist)" and e: "e \<in> set (take sequence_cache hist)"
  shows "\<exists>k. 1 \<le> k \<and> k \<le> sequence_cache \<and> k \<le> length hist \<and>
    fst e = (wop_sequence_next ^^ (length hist - k)) (sequence_from l)"
proof -
  from e obtain i where i: "i < sequence_cache" "i < length hist" "e = hist ! i"
    by (auto simp: in_set_conv_nth)
  then show ?thesis using history_nth [OF inv] by (intro exI [of _ "Suc i"]) simp
qed

text \<open>No number within 100 places from the expected one on is among the last 1024.\<close>

lemma ahead_not_recent:
  assumes inv: "sequence_inv l (q, hist)" and n: "n \<le> sequence_republish"
    and e: "e \<in> set (take sequence_cache hist)"
  shows "fst e \<noteq> (wop_sequence_next ^^ n) (sequence_expected q)"
proof
  assume eq: "fst e = (wop_sequence_next ^^ n) (sequence_expected q)"
  obtain k where k: "1 \<le> k" "k \<le> sequence_cache" "k \<le> length hist"
    and fst: "fst e = (wop_sequence_next ^^ (length hist - k)) (sequence_from l)"
    using history_recent [OF inv e] by blast
  let ?b = "fst e"
  have b: "?b \<noteq> 0" using fst sequence_funpow [OF sequence_from_nonzero] by simp
  have "(wop_sequence_next ^^ (n + k)) ?b = (wop_sequence_next ^^ n) ((wop_sequence_next ^^ (k + (length hist - k))) (sequence_from l))"
    unfolding fst funpow_add by simp
  also have "\<dots> = (wop_sequence_next ^^ 0) ?b"
    using k eq sequence_expected_history [OF inv] by simp
  finally have "n + k = 0"
    using sequence_funpow_eq [OF b, of "n + k" 0] k n by (simp add: ring_len_def sequence_cache_def sequence_republish_def)
  then show False using k by simp
qed

lemma history_distinct:
  assumes inv: "sequence_inv l (q, hist)"
  shows "distinct (map fst (take sequence_cache hist))"
proof -
  let ?f = "\<lambda>i. (wop_sequence_next ^^ i) (sequence_from l)"
  have "map fst (take sequence_cache hist) = map (\<lambda>i. ?f (length hist - Suc i)) [0..<min sequence_cache (length hist)]"
  proof (rule nth_equalityI)
    fix i assume "i < length (map fst (take sequence_cache hist))"
    then have i: "i < length hist" "i < sequence_cache" by auto
    then show "map fst (take sequence_cache hist) ! i =
        map (\<lambda>i. ?f (length hist - Suc i)) [0..<min sequence_cache (length hist)] ! i"
      using history_nth [OF inv] by simp
  qed simp
  moreover have "inj_on (\<lambda>i. ?f (length hist - Suc i)) {0..<min sequence_cache (length hist)}"
  proof (rule inj_onI)
    fix i j
    assume i: "i \<in> {0..<min sequence_cache (length hist)}" and j: "j \<in> {0..<min sequence_cache (length hist)}"
      and eq: "?f (length hist - Suc i) = ?f (length hist - Suc j)"
    have shift: "?f (length hist - Suc a + Suc a) = (wop_sequence_next ^^ Suc a) (?f (length hist - Suc a))" for a
      by (metis add.commute comp_apply funpow_add)
    have "(wop_sequence_next ^^ Suc i) (?f (length hist - Suc i)) = (wop_sequence_next ^^ Suc j) (?f (length hist - Suc i))"
      using shift [of i] shift [of j] eq i j by simp
    then have "Suc i = Suc j"
      using sequence_funpow_eq [of "?f (length hist - Suc i)" "Suc i" "Suc j"] i j
        sequence_funpow [OF sequence_from_nonzero, of "length hist - Suc i" l]
      by (simp add: ring_len_def sequence_cache_def)
    then show "i = j" by simp
  qed
  ultimately show ?thesis by (simp add: distinct_map)
qed

lemma cached_iff:
  assumes inv: "sequence_inv l (q, hist)"
  shows "cached q s = Some e \<longleftrightarrow> e \<in> set (take sequence_cache hist) \<and> fst e = s"
proof -
  have "find (\<lambda>e. fst e = s) xs = Some e \<longleftrightarrow> e \<in> set xs \<and> fst e = s" if "distinct (map fst xs)" for xs :: "(u32 \<times> digest) list"
    using that by (induction xs) (auto simp: image_iff split: if_splits)
  then show ?thesis using history_distinct [OF inv] by (simp add: cached_recent [OF inv])
qed

lemma cached_None_iff:
  "sequence_inv l (q, hist) \<Longrightarrow> cached q s = None \<longleftrightarrow> s \<notin> fst ` set (take sequence_cache hist)"
  by (auto simp: cached_recent find_None_iff image_iff)


lemma distance_eq_0: "s \<noteq> 0 \<Longrightarrow> sequence_distance s (sequence_expected q) = 0 \<longleftrightarrow> s = sequence_expected q"
  using sequence_distance_iff [of s "sequence_expected q" 0] sequence_expected_nonzero [of q]
  by (simp add: ring_len_def unat_eq_zero)

lemma distance_gap:
  assumes "s \<noteq> 0"
  shows "sequence_distance s (sequence_expected q) \<noteq> 0 \<and> sequence_distance s (sequence_expected q) < ring_size div 2 \<and>
      sequence_distance s (sequence_expected q) \<le> of_nat sequence_republish \<and> ucast (sequence_distance s (sequence_expected q)) = (n :: u32)
    \<longleftrightarrow> n \<noteq> 0 \<and> unat n \<le> sequence_republish \<and> s = (wop_sequence_next ^^ unat n) (sequence_expected q)"
    (is "?l \<longleftrightarrow> ?r")
proof -
  let ?d = "sequence_distance s (sequence_expected q)"
  have small: "unat (ucast ?d :: u32) = unat ?d" if "unat ?d \<le> sequence_republish"
    using that by (simp add: unsigned_ucast_eq take_bit_eq_mod sequence_republish_def)
  have "?d \<noteq> 0 \<longleftrightarrow> unat ?d \<noteq> 0" by (simp add: unat_eq_zero)
  moreover have "?d \<le> of_nat sequence_republish \<longleftrightarrow> unat ?d \<le> sequence_republish"
    by (simp add: word_le_nat_alt sequence_republish_def)
  moreover have "?d < ring_size div 2" if "unat ?d \<le> sequence_republish"
    using that by (simp add: word_less_nat_alt sequence_republish_def ring_size_def)
  ultimately have "?l \<longleftrightarrow> unat ?d \<noteq> 0 \<and> unat ?d \<le> sequence_republish \<and> ucast ?d = n"
    by blast
  also have "\<dots> \<longleftrightarrow> n \<noteq> 0 \<and> unat n \<le> sequence_republish \<and> unat ?d = unat n"
    using small by (metis unat_eq_zero word_unat_eq_iff)
  also have "\<dots> \<longleftrightarrow> n \<noteq> 0 \<and> unat n \<le> sequence_republish \<and> s = (wop_sequence_next ^^ unat n) (sequence_expected q)"
  proof (cases "unat n \<le> sequence_republish")
    case True
    then have "unat n < ring_len" by (simp add: ring_len_def sequence_republish_def)
    then show ?thesis using sequence_distance_iff [OF assms sequence_expected_nonzero, of "unat n" q] by simp
  qed simp
  finally show ?thesis .
qed

lemma classify_gap:
  assumes "s \<noteq> 0" "cached q s = None"
  shows "wop_sequence_classify q s (Some h) = (SequenceGap, f, n) \<longleftrightarrow>
    f = sequence_expected q \<and> n \<noteq> 0 \<and> unat n \<le> sequence_republish \<and> s = (wop_sequence_next ^^ unat n) f"
  using distance_gap [OF assms(1), of q n] assms
  by (auto simp: wop_sequence_classify_def Let_def not_le not_less)

lemma sequence_classify:
  assumes "run_actions sequence_do cs (wop_sequence_init l, []) = (q, hist)" and "s \<noteq> 0"
  shows "map fst (rev hist) = map (\<lambda>i. (wop_sequence_next ^^ i) (sequence_from l)) [0..<length hist]"
    and "sequence_expected q = (wop_sequence_next ^^ length hist) (sequence_from l)"
    and "fst (wop_sequence_classify q s (Some h)) = SequenceDuplicate \<longleftrightarrow> (s, h) \<in> set (take 1024 hist)"
    and "fst (wop_sequence_classify q s (Some h)) = SequenceConflict \<longleftrightarrow>
      s \<in> fst ` set (take 1024 hist) \<and> (s, h) \<notin> set (take 1024 hist)"
    and "fst (wop_sequence_classify q s (Some h)) = SequenceDeliver \<longleftrightarrow> s = sequence_expected q"
    and "wop_sequence_classify q s (Some h) = (SequenceGap, f, n) \<longleftrightarrow>
      f = sequence_expected q \<and> n \<noteq> 0 \<and> unat n \<le> 100 \<and> s = (wop_sequence_next ^^ unat n) f"
proof -
  have inv: "sequence_inv l (q, hist)"
    using opcua_sequence.run_inv [OF sequence_inv_init [of l], of cs] assms(1) by (simp add: list_all_iff)
  show "map fst (rev hist) = map (\<lambda>i. (wop_sequence_next ^^ i) (sequence_from l)) [0..<length hist]"
    using inv by (auto simp: sequence_inv_def)
  show "sequence_expected q = (wop_sequence_next ^^ length hist) (sequence_from l)"
    by (rule sequence_expected_history [OF inv])
  have one: "h = snd e" if "(s, h) \<in> set (take 1024 hist)" "cached q s = Some e" for e
    using that cached_iff [OF inv, of s "(s, h)"] by (auto simp: sequence_cache_def)
  show "fst (wop_sequence_classify q s (Some h)) = SequenceDuplicate \<longleftrightarrow> (s, h) \<in> set (take 1024 hist)"
    using assms(2) one cached_iff [OF inv, of s] cached_None_iff [OF inv, of s]
    by (force simp: wop_sequence_classify_def Let_def sequence_cache_def split: option.splits)
  show "fst (wop_sequence_classify q s (Some h)) = SequenceConflict \<longleftrightarrow>
      s \<in> fst ` set (take 1024 hist) \<and> (s, h) \<notin> set (take 1024 hist)"
    using assms(2) one cached_iff [OF inv, of s] cached_None_iff [OF inv, of s]
    by (force simp: wop_sequence_classify_def Let_def sequence_cache_def split: option.splits)
  have fresh: "cached q s = None" if "n \<le> sequence_republish" "s = (wop_sequence_next ^^ n) (sequence_expected q)" for n
    using ahead_not_recent [OF inv that(1)] unfolding that(2) cached_None_iff [OF inv] by fastforce
  show "fst (wop_sequence_classify q s (Some h)) = SequenceDeliver \<longleftrightarrow> s = sequence_expected q"
    using assms(2) fresh [of 0] distance_eq_0 [OF assms(2), of q]
    by (auto simp: wop_sequence_classify_def Let_def split: option.splits)
  show "wop_sequence_classify q s (Some h) = (SequenceGap, f, n) \<longleftrightarrow>
      f = sequence_expected q \<and> n \<noteq> 0 \<and> unat n \<le> 100 \<and> s = (wop_sequence_next ^^ unat n) f"
  proof (cases "cached q s")
    case None
    then show ?thesis using classify_gap [OF assms(2) None, of h f n] by (simp add: sequence_republish_def)
  next
    case (Some e)
    then show ?thesis
      using fresh [of "unat n"] assms(2) by (auto simp: wop_sequence_classify_def sequence_republish_def)
  qed
qed

text \<open>
  C29: After any calls on a new sequence, the recorded numbers run through the ring without a gap from the first
  one, and a notification is classified exactly: it is a duplicate when it is among the last 1024 recorded with
  the same digest and a conflict when with another one; it is delivered when it has the expected number; there
  is a gap of \<open>n\<close> starting at \<open>f\<close> exactly when \<open>f\<close> is expected and the notification is \<open>n\<close> places after it, for \<open>n\<close> from 1 to 100.
\<close>

theorem sequence_classify_exact:
  assumes "run_actions sequence_do cs (wop_sequence_init l, []) = (q, hist)" and "s \<noteq> 0"
  shows "map fst (rev hist) = map (\<lambda>i. (wop_sequence_next ^^ i) (sequence_from l)) [0..<length hist] \<and>
    sequence_expected q = (wop_sequence_next ^^ length hist) (sequence_from l) \<and>
    (fst (wop_sequence_classify q s (Some h)) = SequenceDuplicate \<longleftrightarrow> (s, h) \<in> set (take 1024 hist)) \<and>
    (fst (wop_sequence_classify q s (Some h)) = SequenceConflict \<longleftrightarrow>
      s \<in> fst ` set (take 1024 hist) \<and> (s, h) \<notin> set (take 1024 hist)) \<and>
    (fst (wop_sequence_classify q s (Some h)) = SequenceDeliver \<longleftrightarrow> s = sequence_expected q) \<and>
    (wop_sequence_classify q s (Some h) = (SequenceGap, f, n) \<longleftrightarrow>
      f = sequence_expected q \<and> n \<noteq> 0 \<and> unat n \<le> 100 \<and> s = (wop_sequence_next ^^ unat n) f)"
  by (intro conjI sequence_classify [OF assms])

text \<open>One notification was recorded; the third leaves the second as the only missing one.\<close>

theorem sequence_classify_exact_witness:
  "wop_sequence_classify (fst (run_actions sequence_do [RecordCall 1 (Some zero_digest)] (wop_sequence_init 0, []))) 3
     (Some zero_digest) = (SequenceGap, 2, 1)"
proof -
  let ?r = "run_actions sequence_do [RecordCall 1 (Some zero_digest)] (wop_sequence_init 0, [])"
  have hist: "length (snd ?r) = 1"
    by (simp add: wop_sequence_record_def wop_sequence_init_def sequence_expected_def)
  have run: "?r = (fst ?r, snd ?r)" by simp
  have "sequence_expected (fst ?r) = 2"
    using sequence_classify_exact [OF run, of 3] hist by (simp add: sequence_from_def wop_sequence_next_def)
  then show ?thesis
    using sequence_classify_exact [OF run, of 3 zero_digest 2 1] by (simp add: wop_sequence_next_def)
qed

section \<open>Recovery\<close>

text \<open>The missing numbers from the next one on lead to the held notification.\<close>

definition recovery_inv :: "wop_sequence \<Rightarrow> bool" where
  "recovery_inv q \<longleftrightarrow> (sq_recovering q \<longrightarrow>
     sq_recover_next q = sequence_expected q \<and> sq_recover_left q \<noteq> 0 \<and>
     sq_target q = (wop_sequence_next ^^ unat (sq_recover_left q)) (sequence_expected q))"

lemma recovery_inv_init: "recovery_inv (wop_sequence_init l)"
  by (simp add: recovery_inv_def wop_sequence_init_def)

lemma expected_recovery [simp]:
  "sequence_expected (q\<lparr>sq_recovering := r\<rparr>) = sequence_expected q"
  "sequence_expected (q\<lparr>sq_recover_next := f\<rparr>) = sequence_expected q"
  "sequence_expected (q\<lparr>sq_recover_left := m\<rparr>) = sequence_expected q"
  "sequence_expected (q\<lparr>sq_target := t\<rparr>) = sequence_expected q"
  "sequence_expected (q\<lparr>sq_target_digest := h\<rparr>) = sequence_expected q"
  by (simp_all add: sequence_expected_def)

lemma begin_recovery:
  assumes gap: "wop_sequence_classify q s (Some h) = (SequenceGap, f, n)" and "\<not> sq_recovering q"
  shows "\<exists>q'. wop_sequence_begin q s (Some h) f n = (True, q') \<and> recovery_inv q' \<and> sq_recovering q' \<and>
    sequence_expected q' = sequence_expected q \<and> sq_target q' = s \<and> sq_target_digest q' = h"
proof -
  have s: "s \<noteq> 0" "cached q s = None" using gap by (auto simp: wop_sequence_classify_def split: option.splits if_splits)
  then have f: "f = sequence_expected q" "n \<noteq> 0" "unat n \<le> sequence_republish" "s = (wop_sequence_next ^^ unat n) f"
    using gap classify_gap [of s q h f n] by auto
  have "\<not> of_nat sequence_republish < n"
    using f(3) by (simp add: word_less_nat_alt sequence_republish_def not_less)
  then show ?thesis using f assms(2) by (simp add: wop_sequence_begin_def recovery_inv_def)
qed

lemma record_expected:
  "wop_sequence_record q s (Some h) = (True, q') \<Longrightarrow>
   s = sequence_expected q \<and> sq_last q' = s \<and> sequence_expected q' = wop_sequence_next s \<and>
   sq_recovering q' = sq_recovering q \<and> sq_recover_left q' = sq_recover_left q \<and> sq_recover_next q' = sq_recover_next q \<and>
   sq_target q' = sq_target q \<and> sq_target_digest q' = sq_target_digest q"
  by (auto simp: wop_sequence_record_def sequence_expected_def split: if_splits)

lemma record_accepts: "fst (wop_sequence_record q (sequence_expected q) (Some h))"
  using sequence_expected_nonzero [of q] by (simp add: wop_sequence_record_def)

lemma u32_left_split:
  assumes "(m :: u32) \<noteq> 0"
  shows "unat m = Suc (unat (m - 1))"
  using assms unat_minus_one [OF assms] unat_gt_0 [of m] by simp

lemma republished_cases:
  assumes inv: "recovery_inv q" and rep: "wop_sequence_republished q r a s (Some h) = (v, q')"
  obtains (failed) "\<not> (sq_recovering q \<and> r = sq_recover_next q \<and> a \<and> s = r)" "v = RecoveryFailed" "q' = q\<lparr>sq_recovering := False\<rparr>"
  | (recorded) q1 where "sq_recovering q" "r = sq_recover_next q" "a" "s = r" "s = sequence_expected q"
      "wop_sequence_record q s (Some h) = (True, q1)"
      "v = (if sq_recover_left q - 1 = 0 then RecoveryComplete else RecoveryContinue)"
      "q' = q1\<lparr>sq_recover_next := wop_sequence_next s, sq_recover_left := sq_recover_left q - 1,
        sq_recovering := sq_recover_left q - 1 \<noteq> 0\<rparr>"
proof (cases "sq_recovering q \<and> r = sq_recover_next q \<and> a \<and> s = r")
  case True
  then have s: "s = sequence_expected q" using inv by (simp add: recovery_inv_def)
  obtain q1 where rec: "wop_sequence_record q s (Some h) = (True, q1)"
    using record_accepts [of q h] unfolding s by (cases "wop_sequence_record q (sequence_expected q) (Some h)") auto
  have q1: "sq_recover_left q1 = sq_recover_left q" "sq_recovering q1" using record_expected [OF rec] True by auto
  have "wop_sequence_republished q r a s (Some h) =
     (let q'' = q1\<lparr>sq_recover_next := wop_sequence_next s, sq_recover_left := sq_recover_left q1 - 1\<rparr> in
      if sq_recover_left q'' \<noteq> 0 then (RecoveryContinue, q'') else (RecoveryComplete, q''\<lparr>sq_recovering := False\<rparr>))"
    unfolding wop_sequence_republished_def rec using True by simp
  then have "v = (if sq_recover_left q - 1 = 0 then RecoveryComplete else RecoveryContinue)"
      "q' = q1\<lparr>sq_recover_next := wop_sequence_next s, sq_recover_left := sq_recover_left q - 1,
        sq_recovering := sq_recover_left q - 1 \<noteq> 0\<rparr>"
    using rep q1 by (auto simp: Let_def split: if_splits)
  then show ?thesis using True s rec by (intro recorded [of q1]) simp_all
next
  case False
  then show ?thesis using rep by (intro failed) (auto simp: wop_sequence_republished_def)
qed

lemma republished_recovery:
  assumes inv: "recovery_inv q" and rep: "wop_sequence_republished q r a s (Some h) = (v, q')"
  shows "recovery_inv q'"
    and "sq_recovering q' \<longleftrightarrow> v = RecoveryContinue"
    and "v = RecoveryComplete \<Longrightarrow> sequence_expected q' = sq_target q'"
    and "sq_target q' = sq_target q \<and> sq_target_digest q' = sq_target_digest q"
proof -
  have left: "sq_recovering q \<Longrightarrow> unat (sq_recover_left q) = Suc (unat (sq_recover_left q - 1))"
    using inv u32_left_split [of "sq_recover_left q"] by (simp add: recovery_inv_def)
  have target: "sq_recovering q \<Longrightarrow> sq_target q =
      (wop_sequence_next ^^ unat (sq_recover_left q - 1)) (wop_sequence_next (sequence_expected q))"
    using inv left by (simp add: recovery_inv_def funpow_Suc_right del: funpow.simps)
  have "recovery_inv q' \<and> (sq_recovering q' \<longleftrightarrow> v = RecoveryContinue) \<and>
      (v = RecoveryComplete \<longrightarrow> sequence_expected q' = sq_target q') \<and>
      sq_target q' = sq_target q \<and> sq_target_digest q' = sq_target_digest q"
    using inv rep
  proof (cases rule: republished_cases)
    case failed
    then show ?thesis by (simp add: recovery_inv_def)
  next
    case (recorded q1)
    then have "sequence_expected q1 = wop_sequence_next (sequence_expected q)" "sq_target q1 = sq_target q"
      "sq_target_digest q1 = sq_target_digest q"
      using record_expected [OF recorded(6)] by auto
    then show ?thesis using recorded(1,7,8) target unfolding recovery_inv_def recorded(5)
      by (auto simp: unat_eq_zero split: if_splits)
  qed
  then show "recovery_inv q'" "sq_recovering q' \<longleftrightarrow> v = RecoveryContinue"
    "v = RecoveryComplete \<Longrightarrow> sequence_expected q' = sq_target q'"
    "sq_target q' = sq_target q \<and> sq_target_digest q' = sq_target_digest q"
    by blast+
qed

end
