(* ===== verification/Opcua_Output.thy ===== *)
theory Opcua_Output
  imports Wotex_Ring
begin

text \<open>
  The output of the OPC UA host (\<open>output.h\<close>, \<open>output.c\<close>): a ring of at most 64 normal frames that spend the owner's
  credit when their first byte is written, and the control lines, which go before the queued frames.  A
  terminal control drops what is queued.  A frame's bytes are \<open>None\<close> where the pointer is null; the allocation
  of a copy may fail.  The answers of \<open>write\<close> are the input of a flush: a list of answers, after
  which the descriptor blocks.  \<open>Wrote k\<close> is a descriptor that takes up to \<open>k\<close> of the bytes offered.
\<close>

datatype opcua_output_status = OutputOk | OutputOverflow | OutputInvalid | OutputClosed

record ipc_credit =
  ic_generation :: u64
  ic_sequence :: u64
  ic_messages :: u64
  ic_bytes :: u64

record wop_output =
  wo_queue :: "string option list"
  wo_head :: nat
  wo_count :: nat
  wo_pending_bytes :: nat
  wo_active :: "string option"
  wo_active_sent :: nat
  wo_control :: string
  wo_control_sent :: nat
  wo_terminal :: bool
  wo_generation :: u64
  wo_sequence :: u64
  wo_credit_messages :: u64
  wo_credit_bytes :: u64
  wo_used_messages :: u64
  wo_used_bytes :: u64
  wo_emitted_messages :: u64
  wo_emitted_bytes :: u64
  wo_peak_count :: nat

definition output_frames :: nat where "output_frames = 64"
definition output_bytes :: nat where "output_bytes = 1048576"
definition credit_messages_max :: nat where "credit_messages_max = 16"
definition credit_bytes_max :: nat where "credit_bytes_max = 262144"
definition control_bytes_max :: nat where "control_bytes_max = 4096"
definition json_frame_bytes :: nat where "json_frame_bytes = 131072"

lemmas opcua_bounds = output_frames_def output_bytes_def credit_messages_max_def credit_bytes_max_def
  control_bytes_max_def json_frame_bytes_def

definition wop_output_init :: wop_output where
  "wop_output_init = \<lparr>wo_queue = replicate output_frames None, wo_head = 0, wo_count = 0, wo_pending_bytes = 0,
     wo_active = None, wo_active_sent = 0, wo_control = [], wo_control_sent = 0, wo_terminal = False,
     wo_generation = 0, wo_sequence = 0, wo_credit_messages = 0, wo_credit_bytes = 0, wo_used_messages = 0,
     wo_used_bytes = 0, wo_emitted_messages = 0, wo_emitted_bytes = 0, wo_peak_count = 0\<rparr>"

definition output_line :: "string \<Rightarrow> nat \<Rightarrow> bool" where
  "output_line bytes maximum \<longleftrightarrow> 2 \<le> length bytes \<and> length bytes \<le> maximum \<and> last bytes = CHR 0x0A \<and>
     CHR 0x0A \<notin> set (butlast bytes)"

definition frame_size :: "string option \<Rightarrow> nat" where
  "frame_size f = (case f of None \<Rightarrow> 0 | Some b \<Rightarrow> length b)"

text \<open>The loop of a terminal control over the queued frames.\<close>

definition discard_frame :: "nat \<Rightarrow> wop_output \<Rightarrow> wop_output" where
  "discard_frame i w = (let slot = (wo_head w + i) mod output_frames in
     w\<lparr>wo_pending_bytes := sub64 (wo_pending_bytes w) (frame_size (wo_queue w ! slot)),
       wo_queue := (wo_queue w)[slot := None]\<rparr>)"

definition wop_output_control :: "string \<Rightarrow> bool \<Rightarrow> wop_output \<Rightarrow> opcua_output_status \<times> wop_output" where
  "wop_output_control bytes is_terminal w =
     (if wo_terminal w \<or> \<not> output_line bytes control_bytes_max \<or>
         length bytes > sub64 control_bytes_max (length (wo_control w))
      then (OutputInvalid, w)
      else let w = w\<lparr>wo_control := wo_control w @ bytes\<rparr> in
        if is_terminal
        then (OutputOk, (fold discard_frame [0..<wo_count w] (w\<lparr>wo_terminal := True\<rparr>))\<lparr>wo_head := 0, wo_count := 0\<rparr>)
        else (OutputOk, w))"

definition wop_output_credit :: "ipc_credit \<Rightarrow> wop_output \<Rightarrow> opcua_output_status \<times> wop_output" where
  "wop_output_credit c w =
     (if wo_terminal w \<or> ic_generation c = 0 \<or> ic_messages c = 0 \<or> ic_messages c > credit_messages_max \<or>
         ic_bytes c = 0 \<or> ic_bytes c > credit_bytes_max
      then (OutputInvalid, w)
      else if wo_generation w = 0
      then if ic_sequence c \<noteq> 1 then (OutputInvalid, w)
        else (OutputOk, w\<lparr>wo_generation := ic_generation c, wo_sequence := 1, wo_credit_messages := ic_messages c,
                          wo_credit_bytes := ic_bytes c\<rparr>)
      else if ic_generation c \<noteq> wo_generation w \<or> wo_sequence w = u64_max \<or>
        ic_sequence c \<noteq> add64 (wo_sequence w) 1 \<or> ic_messages c > wo_used_messages w \<or>
        ic_bytes c > wo_used_bytes w \<or> ic_messages c > sub64 credit_messages_max (wo_credit_messages w) \<or>
        ic_bytes c > sub64 credit_bytes_max (wo_credit_bytes w)
      then (OutputInvalid, w)
      else (OutputOk, w\<lparr>wo_sequence := ic_sequence c,
          wo_credit_messages := add64 (wo_credit_messages w) (ic_messages c),
          wo_credit_bytes := add64 (wo_credit_bytes w) (ic_bytes c),
          wo_used_messages := sub64 (wo_used_messages w) (ic_messages c),
          wo_used_bytes := sub64 (wo_used_bytes w) (ic_bytes c)\<rparr>))"

definition wop_output_normal :: "bool \<Rightarrow> string \<Rightarrow> wop_output \<Rightarrow> opcua_output_status \<times> wop_output" where
  "wop_output_normal copied bytes w =
     (if wo_terminal w \<or> \<not> output_line bytes json_frame_bytes then (OutputInvalid, w)
      else if wo_count w = output_frames \<or> length bytes > sub64 output_bytes (wo_pending_bytes w)
      then (OutputOverflow, w)
      else if \<not> copied then (OutputOverflow, w)
      else let count = wo_count w + 1 in
        (OutputOk, w\<lparr>wo_queue := (wo_queue w)[(wo_head w + wo_count w) mod output_frames := Some bytes],
           wo_count := count, wo_peak_count := (if count > wo_peak_count w then count else wo_peak_count w),
           wo_pending_bytes := add64 (wo_pending_bytes w) (length bytes)\<rparr>))"

datatype write_status = WriteDone | WriteBlocked | WriteClosed

text \<open>The result, the bytes taken, and the answers not yet used.\<close>

fun write_some :: "write_result list \<Rightarrow> string \<Rightarrow> nat \<Rightarrow> write_status \<times> nat \<times> write_result list" where
  "write_some [] bytes sent = (if sent < length bytes then (WriteBlocked, sent, []) else (WriteDone, sent, []))"
| "write_some (a # as) bytes sent =
     (if sent < length bytes
      then case a of
          Wrote k \<Rightarrow> if 0 < k then write_some as bytes (sent + min k (length bytes - sent)) else (WriteClosed, sent, as)
        | Interrupted \<Rightarrow> write_some as bytes sent
        | WouldBlock \<Rightarrow> (WriteBlocked, sent, as)
        | WriteFailed \<Rightarrow> (WriteClosed, sent, as)
      else (WriteDone, sent, a # as))"

definition front_credited :: "wop_output \<Rightarrow> bool" where
  "front_credited w \<longleftrightarrow> \<not> (wo_count w = 0 \<or> wo_terminal w) \<and>
     (let front = wo_queue w ! wo_head w in
      0 < wo_credit_messages w \<and> frame_size front \<le> wo_credit_bytes w)"

definition finish_active :: "string \<Rightarrow> wop_output \<Rightarrow> wop_output" where
  "finish_active bytes w = w\<lparr>wo_pending_bytes := sub64 (wo_pending_bytes w) (length bytes),
     wo_emitted_messages := add64 (wo_emitted_messages w) 1,
     wo_emitted_bytes := add64 (wo_emitted_bytes w) (length bytes), wo_active := None, wo_active_sent := 0\<rparr>"

definition start_front :: "wop_output \<Rightarrow> wop_output" where
  "start_front w = (let front = wo_queue w ! wo_head w; size = frame_size front in
     w\<lparr>wo_active := front, wo_queue := (wo_queue w)[wo_head w := None], wo_head := (wo_head w + 1) mod output_frames,
       wo_count := wo_count w - 1, wo_credit_messages := sub64 (wo_credit_messages w) 1,
       wo_credit_bytes := sub64 (wo_credit_bytes w) size, wo_used_messages := add64 (wo_used_messages w) 1,
       wo_used_bytes := add64 (wo_used_bytes w) size\<rparr>)"

lemma write_some_answers: "write_some as bytes sent = (r, n, as') \<Longrightarrow> length as' \<le> length as"
  by (induction as bytes sent rule: write_some.induct) (auto split: if_splits write_result.splits)

lemma write_some_uses:
  "write_some as bytes sent = (WriteDone, n, as') \<Longrightarrow> sent < length bytes \<Longrightarrow> length as' < length as"
  by (cases as) (auto split: if_splits write_result.splits dest: write_some_answers)

text \<open>The loop of a flush, with the bytes written and the frames started.\<close>

function wop_output_flush ::
  "write_result list \<Rightarrow> wop_output \<Rightarrow> opcua_output_status \<times> string \<times> string list \<times> wop_output" where
  "wop_output_flush as w =
     (case wo_active w of
        Some bytes \<Rightarrow>
          (case write_some as bytes (wo_active_sent w) of
             (WriteBlocked, n, as') \<Rightarrow> (OutputOk, drop (wo_active_sent w) (take n bytes), [], w\<lparr>wo_active_sent := n\<rparr>)
           | (WriteClosed, n, as') \<Rightarrow> (OutputClosed, drop (wo_active_sent w) (take n bytes), [], w\<lparr>wo_active_sent := n\<rparr>)
           | (WriteDone, n, as') \<Rightarrow>
               (case wop_output_flush as' (finish_active bytes w) of (r, wr, st, w') \<Rightarrow>
                  (r, drop (wo_active_sent w) (take n bytes) @ wr, st, w')))
      | None \<Rightarrow>
          if wo_control_sent w < length (wo_control w)
          then (case write_some as (wo_control w) (wo_control_sent w) of
             (WriteBlocked, n, as') \<Rightarrow> (OutputOk, drop (wo_control_sent w) (take n (wo_control w)), [], w\<lparr>wo_control_sent := n\<rparr>)
           | (WriteClosed, n, as') \<Rightarrow> (OutputClosed, drop (wo_control_sent w) (take n (wo_control w)), [], w\<lparr>wo_control_sent := n\<rparr>)
           | (WriteDone, n, as') \<Rightarrow>
               (case wop_output_flush as' (w\<lparr>wo_control_sent := n\<rparr>) of (r, wr, st, w') \<Rightarrow>
                  (r, drop (wo_control_sent w) (take n (wo_control w)) @ wr, st, w')))
          else if \<not> front_credited w then (OutputOk, [], [], w)
          else (case wop_output_flush as (start_front w) of (r, wr, st, w') \<Rightarrow>
                  (r, wr, the (wo_queue w ! wo_head w) # st, w')))"
  by pat_completeness auto
termination
  by (relation "measures [\<lambda>(as, w). length as, \<lambda>(as, w). wo_count w, \<lambda>(as, w). if wo_active w = None then 0 else 1]")
    (auto simp: finish_active_def start_front_def Let_def front_credited_def order_le_less
      dest: write_some_answers [OF sym] write_some_uses [OF sym])

definition wop_output_writable :: "wop_output \<Rightarrow> bool" where
  "wop_output_writable w \<longleftrightarrow> wo_active w \<noteq> None \<or> wo_control_sent w < length (wo_control w) \<or> front_credited w"

definition wop_output_drained :: "wop_output \<Rightarrow> bool" where
  "wop_output_drained w \<longleftrightarrow> wo_active w = None \<and> wo_control_sent w = length (wo_control w) \<and> wo_count w = 0"

section \<open>The invariant\<close>

definition queued :: "wop_output \<Rightarrow> string list" where
  "queued w = map the (ring_items (wo_queue w) (wo_head w) (wo_count w))"

definition wop_output_owed :: "wop_output \<Rightarrow> string" where
  "wop_output_owed w = (case wo_active w of None \<Rightarrow> [] | Some b \<Rightarrow> drop (wo_active_sent w) b) @
     drop (wo_control_sent w) (wo_control w)"

definition wop_output_inv :: "wop_output \<Rightarrow> bool" where
  "wop_output_inv w \<longleftrightarrow>
     length (wo_queue w) = output_frames \<and> ring_ok (wo_queue w) (wo_head w) (wo_count w) \<and>
     None \<notin> set (ring_items (wo_queue w) (wo_head w) (wo_count w)) \<and>
     list_all (\<lambda>b. output_line b json_frame_bytes) (queued w) \<and>
     wo_pending_bytes w = sum_list (map length (queued w)) + frame_size (wo_active w) \<and>
     wo_pending_bytes w \<le> output_bytes \<and>
     (case wo_active w of None \<Rightarrow> wo_active_sent w = 0
      | Some b \<Rightarrow> output_line b json_frame_bytes \<and> wo_active_sent w \<le> length b) \<and>
     wo_control_sent w \<le> length (wo_control w) \<and> length (wo_control w) \<le> control_bytes_max \<and>
     (wo_terminal w \<longrightarrow> wo_count w = 0) \<and> wo_count w \<le> wo_peak_count w \<and> wo_peak_count w \<le> output_frames \<and>
     wo_credit_messages w + wo_used_messages w \<le> credit_messages_max \<and>
     wo_credit_bytes w + wo_used_bytes w \<le> credit_bytes_max \<and> wo_sequence w \<le> u64_max"

lemma wop_output_inv_init: "wop_output_inv wop_output_init"
  by (simp add: wop_output_inv_def wop_output_init_def ring_ok_def opcua_bounds queued_def frame_size_def u64_max_def)

lemma write_some_sent:
  "write_some as bytes sent = (r, n, as') \<Longrightarrow> sent \<le> length bytes \<Longrightarrow>
   sent \<le> n \<and> n \<le> length bytes \<and> (r = WriteDone \<longrightarrow> n = length bytes)"
proof (induction as bytes sent rule: write_some.induct)
  case (2 a as bytes sent)
  have "sent + min k (length bytes - sent) \<le> length bytes" if "sent < length bytes" for k using that by simp
  then show ?case using 2 by (cases a) (fastforce split: if_splits)+
qed (auto split: if_splits)

lemma queued_push:
  assumes "wop_output_inv w" "wo_count w \<noteq> output_frames"
  shows "queued (w\<lparr>wo_queue := (wo_queue w)[(wo_head w + wo_count w) mod output_frames := Some b],
    wo_count := wo_count w + 1, wo_peak_count := p, wo_pending_bytes := n\<rparr>) = queued w @ [b]"
proof -
  have "ring_ok (wo_queue w) (wo_head w) (wo_count w)" "wo_count w < length (wo_queue w)" "length (wo_queue w) = output_frames"
    using assms by (auto simp: wop_output_inv_def ring_ok_def)
  then show ?thesis using ring_items_push [of "wo_queue w" "wo_head w" "wo_count w" "Some b"]
    by (simp add: queued_def ring_slot_def)
qed

lemma queued_start:
  assumes inv: "wop_output_inv w" and "wo_count w \<noteq> 0"
  shows "\<exists>b. wo_queue w ! wo_head w = Some b \<and> queued w = b # queued (start_front w) \<and>
    None \<notin> set (ring_items (wo_queue (start_front w)) (wo_head (start_front w)) (wo_count (start_front w))) \<and>
    ring_ok (wo_queue (start_front w)) (wo_head (start_front w)) (wo_count (start_front w))"
proof -
  obtain n where n: "wo_count w = Suc n" using assms(2) by (cases "wo_count w") auto
  have ok: "ring_ok (wo_queue w) (wo_head w) (Suc n)" and len: "length (wo_queue w) = output_frames"
    and some: "None \<notin> set (ring_items (wo_queue w) (wo_head w) (Suc n))"
    using inv n by (auto simp: wop_output_inv_def)
  note pop = ring_items_pop [OF ok, of None]
  have "None \<noteq> wo_queue w ! wo_head w" using some unfolding pop by simp
  then obtain b where b: "wo_queue w ! wo_head w = Some b" by (cases "wo_queue w ! wo_head w") auto
  show ?thesis
    using b pop some ring_ok_pop [OF ok, of "wo_head w" None] len
    by (auto simp: queued_def start_front_def Let_def n)
qed


text \<open>What a flush leaves alone, and what a started frame costs.\<close>

definition session_kept :: "wop_output \<Rightarrow> wop_output \<Rightarrow> bool" where
  "session_kept w w' \<longleftrightarrow> wo_control w' = wo_control w \<and> wo_terminal w' = wo_terminal w \<and>
     wo_generation w' = wo_generation w \<and> wo_sequence w' = wo_sequence w"

definition flush_effect :: "wop_output \<Rightarrow> string \<Rightarrow> string list \<Rightarrow> wop_output \<Rightarrow> bool" where
  "flush_effect w wr st w' \<longleftrightarrow> wop_output_inv w' \<and> session_kept w w' \<and>
     wr @ wop_output_owed w' = wop_output_owed w @ concat st \<and> queued w = st @ queued w' \<and>
     wo_credit_messages w = wo_credit_messages w' + length st \<and>
     wo_used_messages w' = wo_used_messages w + length st \<and>
     wo_credit_bytes w = wo_credit_bytes w' + sum_list (map length st) \<and>
     wo_used_bytes w' = wo_used_bytes w + sum_list (map length st)"

lemma finish_active_inv:
  assumes "wop_output_inv w" "wo_active w = Some b"
  shows "wop_output_inv (finish_active b w)" "queued (finish_active b w) = queued w" "session_kept w (finish_active b w)"
proof -
  have "sub64 (wo_pending_bytes w) (length b) = wo_pending_bytes w - length b"
    using assms by (intro u64) (auto simp: wop_output_inv_def frame_size_def opcua_bounds u64_max_def)
  then show "wop_output_inv (finish_active b w)"
    using assms by (auto simp: wop_output_inv_def finish_active_def frame_size_def queued_def)
qed (auto simp: finish_active_def queued_def session_kept_def)

lemma start_front_effect:
  assumes inv: "wop_output_inv w" and none: "wo_active w = None" and control: "\<not> wo_control_sent w < length (wo_control w)"
    and front: "front_credited w"
  shows "flush_effect w [] [the (wo_queue w ! wo_head w)] (start_front w)"
proof -
  have cnt: "wo_count w \<noteq> 0" using front by (simp add: front_credited_def)
  obtain b where b: "wo_queue w ! wo_head w = Some b" and q: "queued w = b # queued (start_front w)"
    and some: "None \<notin> set (ring_items (wo_queue (start_front w)) (wo_head (start_front w)) (wo_count (start_front w)))"
    and ok: "ring_ok (wo_queue (start_front w)) (wo_head (start_front w)) (wo_count (start_front w))"
    using queued_start [OF inv cnt] by blast
  have credit: "0 < wo_credit_messages w" "length b \<le> wo_credit_bytes w"
    using front b by (auto simp: front_credited_def Let_def frame_size_def)
  have le: "wo_credit_messages w + wo_used_messages w \<le> 16" "wo_credit_bytes w + wo_used_bytes w \<le> 262144"
    using inv by (auto simp: wop_output_inv_def opcua_bounds)
  have arith: "sub64 (wo_credit_messages w) 1 = wo_credit_messages w - 1" "add64 (wo_used_messages w) 1 = wo_used_messages w + 1"
    "sub64 (wo_credit_bytes w) (length b) = wo_credit_bytes w - length b"
    "add64 (wo_used_bytes w) (length b) = wo_used_bytes w + length b"
    using credit le by (simp_all add: add64_exact sub64_exact u64_max_def)
  have fields: "wo_active (start_front w) = Some b" "wo_active_sent (start_front w) = wo_active_sent w"
    "wo_credit_messages (start_front w) = wo_credit_messages w - 1" "wo_used_messages (start_front w) = wo_used_messages w + 1"
    "wo_credit_bytes (start_front w) = wo_credit_bytes w - length b" "wo_used_bytes (start_front w) = wo_used_bytes w + length b"
    "wo_pending_bytes (start_front w) = wo_pending_bytes w" "length (wo_queue (start_front w)) = length (wo_queue w)"
    "wo_control (start_front w) = wo_control w" "wo_control_sent (start_front w) = wo_control_sent w"
    "wo_terminal (start_front w) = wo_terminal w" "wo_peak_count (start_front w) = wo_peak_count w"
    "wo_count (start_front w) = wo_count w - 1" "wo_sequence (start_front w) = wo_sequence w"
    "wo_generation (start_front w) = wo_generation w"
    using b arith by (simp_all add: start_front_def Let_def frame_size_def)
  have "wop_output_inv (start_front w)"
    using inv some ok q credit none unfolding wop_output_inv_def fields by (auto simp: frame_size_def)
  then show ?thesis
    using q b none control inv credit fields
    by (auto simp: flush_effect_def session_kept_def wop_output_owed_def wop_output_inv_def)
qed

lemma flush_effect_trans:
  "flush_effect w wr st w1 \<Longrightarrow> flush_effect w1 wr' st' w' \<Longrightarrow> flush_effect w (wr @ wr') (st @ st') w'"
  by (auto simp: flush_effect_def session_kept_def)

lemma partial_active_effect:
  assumes inv: "wop_output_inv w" and b: "wo_active w = Some b" and n: "wo_active_sent w \<le> n" "n \<le> length b"
  shows "flush_effect w (drop (wo_active_sent w) (take n b)) [] (w\<lparr>wo_active_sent := n\<rparr>)"
proof -
  have "drop (wo_active_sent w) (take n b) @ drop n b = drop (wo_active_sent w) b"
    using n by (metis append_take_drop_id drop_append drop_take length_take min.absorb2 diff_is_0_eq drop_0)
  then show ?thesis using assms
    by (auto simp: flush_effect_def session_kept_def wop_output_owed_def wop_output_inv_def queued_def)
qed

lemma partial_control_effect:
  assumes inv: "wop_output_inv w" and none: "wo_active w = None" and n: "wo_control_sent w \<le> n" "n \<le> length (wo_control w)"
  shows "flush_effect w (drop (wo_control_sent w) (take n (wo_control w))) [] (w\<lparr>wo_control_sent := n\<rparr>)"
proof -
  have "drop (wo_control_sent w) (take n (wo_control w)) @ drop n (wo_control w) = drop (wo_control_sent w) (wo_control w)"
    using n by (metis append_take_drop_id drop_append drop_take length_take min.absorb2 diff_is_0_eq drop_0)
  then show ?thesis using assms
    by (auto simp: flush_effect_def session_kept_def wop_output_owed_def wop_output_inv_def queued_def)
qed

lemma finish_active_effect:
  assumes inv: "wop_output_inv w" and b: "wo_active w = Some b"
  shows "flush_effect w (drop (wo_active_sent w) b) [] (finish_active b w)"
  using finish_active_inv [OF assms] b
  by (auto simp: flush_effect_def wop_output_owed_def finish_active_def)

lemma flush_effect_refl: "wop_output_inv w \<Longrightarrow> flush_effect w [] [] w"
  by (simp add: flush_effect_def session_kept_def)


declare wop_output_flush.simps [simp del]

lemma flush_correct:
  "wop_output_flush as w = (r, wr, st, w') \<Longrightarrow> wop_output_inv w \<Longrightarrow> flush_effect w wr st w'"
proof (induction as w arbitrary: r wr st w' rule: wop_output_flush.induct)
  case (1 as w)
  note def = "1.prems"(1) [unfolded wop_output_flush.simps [of as w]]
  show ?case
  proof (cases "wo_active w")
    case (Some b)
    obtain v n as' where ws: "write_some as b (wo_active_sent w) = (v, n, as')" by (cases "write_some as b (wo_active_sent w)")
    have n: "wo_active_sent w \<le> n" "n \<le> length b" "v = WriteDone \<longrightarrow> n = length b"
      using write_some_sent [OF ws] "1.prems"(2) Some by (auto simp: wop_output_inv_def)
    show ?thesis
    proof (cases v)
      case WriteDone
      obtain r2 wr2 st2 w2 where rec: "wop_output_flush as' (finish_active b w) = (r2, wr2, st2, w2)"
        by (cases "wop_output_flush as' (finish_active b w)")
      have "flush_effect (finish_active b w) wr2 st2 w2"
        using "1.IH"(3) [OF Some ws [symmetric] _ refl rec] finish_active_inv(1) [OF "1.prems"(2) Some] WriteDone by simp
      then show ?thesis
        using flush_effect_trans [OF finish_active_effect [OF "1.prems"(2) Some]] def Some ws WriteDone rec n by fastforce
    qed (use def Some ws partial_active_effect [OF "1.prems"(2) Some n(1,2)] in auto)
  next
    case None
    show ?thesis
    proof (cases "wo_control_sent w < length (wo_control w)")
      case True
      obtain v n as' where ws: "write_some as (wo_control w) (wo_control_sent w) = (v, n, as')"
        by (cases "write_some as (wo_control w) (wo_control_sent w)")
      have n: "wo_control_sent w \<le> n" "n \<le> length (wo_control w)" "v = WriteDone \<longrightarrow> n = length (wo_control w)"
        using write_some_sent [OF ws] True by auto
      note eff = partial_control_effect [OF "1.prems"(2) None n(1,2)]
      show ?thesis
      proof (cases v)
        case WriteDone
        obtain r2 wr2 st2 w2 where rec: "wop_output_flush as' (w\<lparr>wo_control_sent := n\<rparr>) = (r2, wr2, st2, w2)"
          by (cases "wop_output_flush as' (w\<lparr>wo_control_sent := n\<rparr>)")
        have "flush_effect (w\<lparr>wo_control_sent := n\<rparr>) wr2 st2 w2"
          using "1.IH"(1) [OF None True ws [symmetric] _ refl rec] eff WriteDone by (simp add: flush_effect_def)
        then show ?thesis using flush_effect_trans [OF eff] def None True ws WriteDone rec by fastforce
      qed (use def None True ws eff in auto)
    next
      case False
      show ?thesis
      proof (cases "front_credited w")
        case True
        note eff = start_front_effect [OF "1.prems"(2) None False True]
        obtain r2 wr2 st2 w2 where rec: "wop_output_flush as (start_front w) = (r2, wr2, st2, w2)"
          by (cases "wop_output_flush as (start_front w)")
        have "flush_effect (start_front w) wr2 st2 w2"
          using "1.IH"(2) [OF None False _ rec] eff True by (simp add: flush_effect_def)
        then show ?thesis using flush_effect_trans [OF eff] def None False True rec by fastforce
      qed (use def None False flush_effect_refl [OF "1.prems"(2)] in auto)
    qed
  qed
qed

section \<open>Control lines, credit and normal frames\<close>

lemma discard_frames:
  assumes inv: "wop_output_inv w" and "k \<le> wo_count w"
  shows "\<exists>qs. fold discard_frame [0..<k] w =
      w\<lparr>wo_pending_bytes := wo_pending_bytes w - sum_list (map length (take k (queued w))), wo_queue := qs\<rparr> \<and>
    length qs = length (wo_queue w) \<and>
    (\<forall>i. k \<le> i \<and> i < wo_count w \<longrightarrow> qs ! ring_slot (wo_queue w) (wo_head w) i = wo_queue w ! ring_slot (wo_queue w) (wo_head w) i)"
  using assms(2)
proof (induction k)
  case 0
  show ?case by (intro exI [of _ "wo_queue w"]) simp
next
  case (Suc k)
  let ?slot = "ring_slot (wo_queue w) (wo_head w)"
  obtain qs where fold: "fold discard_frame [0..<k] w =
      w\<lparr>wo_pending_bytes := wo_pending_bytes w - sum_list (map length (take k (queued w))), wo_queue := qs\<rparr>"
    and len: "length qs = length (wo_queue w)"
    and same: "\<And>i. k \<le> i \<Longrightarrow> i < wo_count w \<Longrightarrow> qs ! ?slot i = wo_queue w ! ?slot i"
    using Suc by auto
  have ring: "wo_count w \<le> length (wo_queue w)" "length (wo_queue w) = output_frames"
    using inv by (auto simp: wop_output_inv_def ring_ok_def)
  have kth: "queued w ! k = the (wo_queue w ! ?slot k)" "wo_queue w ! ?slot k \<noteq> None"
  proof -
    have nth: "ring_items (wo_queue w) (wo_head w) (wo_count w) ! k = wo_queue w ! ?slot k"
      using Suc.prems by (simp add: ring_items_def)
    then show "queued w ! k = the (wo_queue w ! ?slot k)" using Suc.prems by (simp add: queued_def)
    have "wo_queue w ! ?slot k \<in> set (ring_items (wo_queue w) (wo_head w) (wo_count w))"
      unfolding nth [symmetric] using Suc.prems by (intro nth_mem) simp
    then show "wo_queue w ! ?slot k \<noteq> None" using inv by (metis wop_output_inv_def)
  qed
  have size: "frame_size (qs ! ?slot k) = length (queued w ! k)"
    using kth same [of k] Suc.prems by (auto simp: frame_size_def)
  have lenq: "length (queued w) = wo_count w" by (simp add: queued_def)
  have take: "take (Suc k) (queued w) = take k (queued w) @ [queued w ! k]"
    using Suc.prems lenq by (simp add: take_Suc_conv_app_nth)
  have "queued w = take (Suc k) (queued w) @ drop (Suc k) (queued w)" by simp
  then have "sum_list (map length (take (Suc k) (queued w))) \<le> sum_list (map length (queued w))"
    by (metis le_add1 map_append sum_list_append)
  then have le: "sum_list (map length (take k (queued w))) + length (queued w ! k) \<le> wo_pending_bytes w"
    "wo_pending_bytes w \<le> u64_max"
    using inv unfolding take by (auto simp: wop_output_inv_def opcua_bounds u64_max_def)
  have "sub64 (wo_pending_bytes w - sum_list (map length (take k (queued w)))) (length (queued w ! k)) =
      wo_pending_bytes w - sum_list (map length (take (Suc k) (queued w)))"
    using le unfolding take by (simp add: sub64_exact)
  then have step: "fold discard_frame [0..<Suc k] w =
      w\<lparr>wo_pending_bytes := wo_pending_bytes w - sum_list (map length (take (Suc k) (queued w))),
        wo_queue := qs[?slot k := None]\<rparr>"
    using fold size ring by (simp add: discard_frame_def Let_def ring_slot_def)
  have "\<forall>i. Suc k \<le> i \<and> i < wo_count w \<longrightarrow> qs[?slot k := None] ! ?slot i = wo_queue w ! ?slot i"
  proof safe
    fix i assume i: "Suc k \<le> i" "i < wo_count w"
    then have "?slot k \<noteq> ?slot i"
      using ring ring_slot_distinct [of k "wo_queue w" i "wo_head w"] by simp
    then show "qs[?slot k := None] ! ?slot i = wo_queue w ! ?slot i" using i same [of i] by simp
  qed
  then show ?case using step len by (intro exI [of _ "qs[?slot k := None]"]) simp
qed

lemma discard_terminal: "discard_frame i (v\<lparr>wo_terminal := True\<rparr>) = (discard_frame i v)\<lparr>wo_terminal := True\<rparr>"
  by (cases v) (simp add: discard_frame_def Let_def)

lemma control_effect:
  assumes inv: "wop_output_inv w" and ctl: "wop_output_control bytes t w = (OutputOk, w')"
  shows "wop_output_inv w'" "wop_output_owed w' = wop_output_owed w @ bytes"
    "queued w' = (if t then [] else queued w)" "wo_terminal w' = t"
    "wo_credit_messages w' = wo_credit_messages w" "wo_credit_bytes w' = wo_credit_bytes w"
    "wo_used_messages w' = wo_used_messages w" "wo_used_bytes w' = wo_used_bytes w" "wo_generation w' = wo_generation w"
    "\<not> wo_terminal w" "output_line bytes control_bytes_max"
proof -
  let ?w = "w\<lparr>wo_control := wo_control w @ bytes\<rparr>"
  have guard: "\<not> wo_terminal w" "output_line bytes control_bytes_max" "length (wo_control w) + length bytes \<le> control_bytes_max"
    using ctl inv sub64_exact [of "length (wo_control w)" control_bytes_max]
    by (auto simp: wop_output_control_def wop_output_inv_def opcua_bounds u64_max_def split: if_splits)
  then show "\<not> wo_terminal w" "output_line bytes control_bytes_max" by auto
  have inv1: "wop_output_inv ?w" using inv guard by (auto simp: wop_output_inv_def queued_def split: option.splits)
  have owed: "wop_output_owed ?w = wop_output_owed w @ bytes"
    using inv by (auto simp: wop_output_owed_def wop_output_inv_def split: option.splits)
  have "wop_output_inv w' \<and> wop_output_owed w' = wop_output_owed w @ bytes \<and>
    queued w' = (if t then [] else queued w) \<and> wo_terminal w' = t \<and>
    wo_credit_messages w' = wo_credit_messages w \<and> wo_credit_bytes w' = wo_credit_bytes w \<and>
    wo_used_messages w' = wo_used_messages w \<and> wo_used_bytes w' = wo_used_bytes w \<and> wo_generation w' = wo_generation w"
  proof (cases t)
    case True
    let ?t = "?w\<lparr>wo_terminal := True\<rparr>"
    have "\<exists>qs. fold discard_frame [0..<wo_count w] ?w =
        ?w\<lparr>wo_pending_bytes := wo_pending_bytes w - sum_list (map length (queued w)), wo_queue := qs\<rparr> \<and>
        length qs = length (wo_queue w)"
      using discard_frames [OF inv1, of "wo_count w"] by (auto simp: queued_def)
    moreover have "fold discard_frame is (v\<lparr>wo_terminal := True\<rparr>) = (fold discard_frame is v)\<lparr>wo_terminal := True\<rparr>" for "is" v
      by (induction "is" arbitrary: v) (simp_all add: discard_terminal)
    ultimately obtain qs where w': "w' = ?w\<lparr>wo_pending_bytes := wo_pending_bytes w - sum_list (map length (queued w)),
        wo_queue := qs, wo_terminal := True, wo_head := 0, wo_count := 0\<rparr>" "length qs = length (wo_queue w)"
      using ctl guard True by (auto simp: wop_output_control_def Let_def split: if_splits)
    then show ?thesis
      using inv1 owed True
      by (auto simp: wop_output_inv_def queued_def ring_ok_def output_frames_def wop_output_owed_def split: option.splits)
  next
    case False
    then have "w' = ?w" using ctl by (auto simp: wop_output_control_def Let_def split: if_splits)
    then show ?thesis using inv1 owed False guard by (simp add: queued_def)
  qed
  then show "wop_output_inv w'" "wop_output_owed w' = wop_output_owed w @ bytes"
    "queued w' = (if t then [] else queued w)" "wo_terminal w' = t"
    "wo_credit_messages w' = wo_credit_messages w" "wo_credit_bytes w' = wo_credit_bytes w"
    "wo_used_messages w' = wo_used_messages w" "wo_used_bytes w' = wo_used_bytes w" "wo_generation w' = wo_generation w"
    by blast+
qed


lemma control_refused: "wop_output_control bytes t w = (r, w') \<Longrightarrow> r \<noteq> OutputOk \<Longrightarrow> w' = w"
  by (auto simp: wop_output_control_def Let_def split: if_splits)

lemma credit_refused: "wop_output_credit c w = (r, w') \<Longrightarrow> r \<noteq> OutputOk \<Longrightarrow> w' = w"
  by (auto simp: wop_output_credit_def split: if_splits)

lemma normal_refused: "wop_output_normal m bytes w = (r, w') \<Longrightarrow> r \<noteq> OutputOk \<Longrightarrow> w' = w"
  by (auto simp: wop_output_normal_def Let_def split: if_splits)

lemma credit_effect:
  assumes inv: "wop_output_inv w" and fresh: "wo_generation w = 0 \<Longrightarrow> wo_credit_messages w + wo_used_messages w = 0 \<and> wo_credit_bytes w + wo_used_bytes w = 0"
    and credit: "wop_output_credit c w = (OutputOk, w')"
  shows "wop_output_inv w' \<and> wop_output_owed w' = wop_output_owed w \<and> queued w' = queued w \<and>
    wo_terminal w' = wo_terminal w \<and> wo_generation w' \<noteq> 0 \<and>
    wo_credit_messages w' = wo_credit_messages w + ic_messages c \<and> wo_credit_bytes w' = wo_credit_bytes w + ic_bytes c"
proof (cases "wo_generation w = 0")
  case True
  then have w': "w' = w\<lparr>wo_generation := ic_generation c, wo_sequence := 1, wo_credit_messages := ic_messages c,
      wo_credit_bytes := ic_bytes c\<rparr>" and g: "ic_generation c \<noteq> 0" "ic_messages c \<le> 16" "ic_bytes c \<le> 262144"
    using credit by (auto simp: wop_output_credit_def opcua_bounds split: if_splits)
  then show ?thesis
    using inv fresh [OF True]
    by (auto simp: wop_output_inv_def queued_def wop_output_owed_def opcua_bounds u64_max_def split: option.splits)
next
  case False
  then have w': "w' = w\<lparr>wo_sequence := ic_sequence c,
          wo_credit_messages := add64 (wo_credit_messages w) (ic_messages c),
          wo_credit_bytes := add64 (wo_credit_bytes w) (ic_bytes c),
          wo_used_messages := sub64 (wo_used_messages w) (ic_messages c),
          wo_used_bytes := sub64 (wo_used_bytes w) (ic_bytes c)\<rparr>"
    and g: "ic_messages c \<le> wo_used_messages w" "ic_bytes c \<le> wo_used_bytes w"
      "ic_sequence c = add64 (wo_sequence w) 1" "wo_sequence w \<noteq> u64_max"
    using credit by (auto simp: wop_output_credit_def split: if_splits)
  have le: "wo_credit_messages w + wo_used_messages w \<le> 16" "wo_credit_bytes w + wo_used_bytes w \<le> 262144"
    "wo_sequence w \<le> u64_max"
    using inv by (auto simp: wop_output_inv_def opcua_bounds)
  have arith: "add64 (wo_credit_messages w) (ic_messages c) = wo_credit_messages w + ic_messages c"
    "add64 (wo_credit_bytes w) (ic_bytes c) = wo_credit_bytes w + ic_bytes c"
    "sub64 (wo_used_messages w) (ic_messages c) = wo_used_messages w - ic_messages c"
    "sub64 (wo_used_bytes w) (ic_bytes c) = wo_used_bytes w - ic_bytes c"
    "ic_sequence c \<le> u64_max"
    using le g by (simp_all add: add64_exact sub64_exact u64_max_def)
  show ?thesis
    using inv g le False arith unfolding w'
    by (auto simp: wop_output_inv_def queued_def wop_output_owed_def opcua_bounds split: option.splits)
qed

lemma normal_effect:
  assumes inv: "wop_output_inv w" and normal: "wop_output_normal m bytes w = (OutputOk, w')"
  shows "wop_output_inv w' \<and> wop_output_owed w' = wop_output_owed w \<and> queued w' = queued w @ [bytes] \<and>
    wo_terminal w' = wo_terminal w \<and> \<not> wo_terminal w \<and> wo_generation w' = wo_generation w \<and>
    wo_credit_messages w' = wo_credit_messages w \<and> wo_credit_bytes w' = wo_credit_bytes w \<and>
    wo_used_messages w' = wo_used_messages w \<and> wo_used_bytes w' = wo_used_bytes w"
proof -
  let ?p = "if wo_count w + 1 > wo_peak_count w then wo_count w + 1 else wo_peak_count w"
  have g: "\<not> wo_terminal w" "output_line bytes json_frame_bytes" "wo_count w \<noteq> output_frames"
    "length bytes \<le> sub64 output_bytes (wo_pending_bytes w)"
    and w': "w' = w\<lparr>wo_queue := (wo_queue w)[(wo_head w + wo_count w) mod output_frames := Some bytes],
       wo_count := wo_count w + 1, wo_peak_count := ?p,
       wo_pending_bytes := add64 (wo_pending_bytes w) (length bytes)\<rparr>"
    using normal by (auto simp: wop_output_normal_def Let_def split: if_splits)
  have pend: "wo_pending_bytes w \<le> output_bytes" using inv by (simp add: wop_output_inv_def)
  then have le: "wo_pending_bytes w + length bytes \<le> output_bytes"
    using g(4) by (simp add: sub64_exact opcua_bounds u64_max_def)
  have add: "add64 (wo_pending_bytes w) (length bytes) = wo_pending_bytes w + length bytes"
    using le by (simp add: add64_exact opcua_bounds u64_max_def)
  have q: "queued w' = queued w @ [bytes]" unfolding w' by (rule queued_push [OF inv g(3)])
  have ok: "ring_ok (wo_queue w) (wo_head w) (wo_count w)" "wo_count w < length (wo_queue w)" "length (wo_queue w) = output_frames"
    using inv g(3) by (auto simp: wop_output_inv_def ring_ok_def)
  have items: "ring_items (wo_queue w') (wo_head w') (wo_count w') = ring_items (wo_queue w) (wo_head w) (wo_count w) @ [Some bytes]"
    using ring_items_push [OF ok(1,2), of "Some bytes"] ok(3) unfolding w' by (simp add: ring_slot_def)
  have ok': "ring_ok (wo_queue w') (wo_head w') (wo_count w')"
    using ring_ok_push [OF ok(1,2)] unfolding w' by simp
  have fields: "length (wo_queue w') = length (wo_queue w)" "wo_pending_bytes w' = wo_pending_bytes w + length bytes"
    "wo_active w' = wo_active w" "wo_active_sent w' = wo_active_sent w" "wo_control w' = wo_control w"
    "wo_control_sent w' = wo_control_sent w" "wo_terminal w' = wo_terminal w" "wo_count w' = wo_count w + 1"
    "wo_peak_count w' = ?p" "wo_generation w' = wo_generation w" "wo_sequence w' = wo_sequence w"
    "wo_credit_messages w' = wo_credit_messages w" "wo_credit_bytes w' = wo_credit_bytes w"
    "wo_used_messages w' = wo_used_messages w" "wo_used_bytes w' = wo_used_bytes w"
    unfolding w' add by simp_all
  have "wop_output_inv w'"
    using inv g q items ok' le ok(2) unfolding wop_output_inv_def fields by (auto simp: ring_ok_def)
  moreover have "wop_output_owed w' = wop_output_owed w" unfolding wop_output_owed_def fields ..
  ultimately show ?thesis using q g fields by simp
qed


section \<open>The stream of lines\<close>

text \<open>
  Calls in any order, with what a reader and the owner see of them: the bytes written, the lines in the order
  in which they were given to the descriptor, the control lines and frames accepted, and the credit granted.
\<close>

datatype output_call = ControlCall string bool | CreditCall ipc_credit | NormalCall bool string | FlushCall "write_result list"

datatype stream_line = ControlLine string | NormalLine string

fun line_bytes :: "stream_line \<Rightarrow> string" where
  "line_bytes (ControlLine b) = b"
| "line_bytes (NormalLine b) = b"

fun control_of :: "stream_line \<Rightarrow> string list" where
  "control_of (ControlLine b) = [b]"
| "control_of (NormalLine b) = []"

fun normal_of :: "stream_line \<Rightarrow> string list" where
  "normal_of (ControlLine b) = []"
| "normal_of (NormalLine b) = [b]"

record wop_log =
  ol_output :: wop_output
  ol_written :: string
  ol_lines :: "stream_line list"
  ol_controls :: "string list"
  ol_normals :: "string list"
  ol_messages :: nat
  ol_bytes :: nat

definition wop_log_init :: wop_log where
  "wop_log_init = \<lparr>ol_output = wop_output_init, ol_written = [], ol_lines = [], ol_controls = [], ol_normals = [],
     ol_messages = 0, ol_bytes = 0\<rparr>"

fun output_do :: "output_call \<Rightarrow> wop_log \<Rightarrow> wop_log" where
  "output_do (ControlCall b t) l =
     (case wop_output_control b t (ol_output l) of (r, w) \<Rightarrow>
        if r = OutputOk then l\<lparr>ol_output := w, ol_lines := ol_lines l @ [ControlLine b], ol_controls := ol_controls l @ [b]\<rparr>
        else l\<lparr>ol_output := w\<rparr>)"
| "output_do (CreditCall c) l =
     (case wop_output_credit c (ol_output l) of (r, w) \<Rightarrow>
        if r = OutputOk then l\<lparr>ol_output := w, ol_messages := ol_messages l + ic_messages c, ol_bytes := ol_bytes l + ic_bytes c\<rparr>
        else l\<lparr>ol_output := w\<rparr>)"
| "output_do (NormalCall m b) l =
     (case wop_output_normal m b (ol_output l) of (r, w) \<Rightarrow>
        if r = OutputOk then l\<lparr>ol_output := w, ol_normals := ol_normals l @ [b]\<rparr> else l\<lparr>ol_output := w\<rparr>)"
| "output_do (FlushCall as) l =
     (case wop_output_flush as (ol_output l) of (r, wr, st, w) \<Rightarrow>
        l\<lparr>ol_output := w, ol_written := ol_written l @ wr, ol_lines := ol_lines l @ map NormalLine st\<rparr>)"

definition wop_log_inv :: "wop_log \<Rightarrow> bool" where
  "wop_log_inv l \<longleftrightarrow> wop_output_inv (ol_output l) \<and>
     ol_written l @ wop_output_owed (ol_output l) = concat (map line_bytes (ol_lines l)) \<and>
     concat (map control_of (ol_lines l)) = ol_controls l \<and>
     (if wo_terminal (ol_output l) then prefix (concat (map normal_of (ol_lines l))) (ol_normals l)
      else concat (map normal_of (ol_lines l)) @ queued (ol_output l) = ol_normals l) \<and>
     ol_messages l = length (concat (map normal_of (ol_lines l))) + wo_credit_messages (ol_output l) \<and>
     ol_bytes l = length (concat (concat (map normal_of (ol_lines l)))) + wo_credit_bytes (ol_output l) \<and>
     (wo_generation (ol_output l) = 0 \<longrightarrow>
        wo_credit_messages (ol_output l) + wo_used_messages (ol_output l) = 0 \<and>
        wo_credit_bytes (ol_output l) + wo_used_bytes (ol_output l) = 0)"

lemma normal_lines [simp]:
  "concat (map (normal_of \<circ> NormalLine) bs) = bs" "concat (map (control_of \<circ> NormalLine) bs) = []"
  "concat (map (line_bytes \<circ> NormalLine) bs) = concat bs"
  by (induction bs) auto

lemma started_prefix: "wop_log_inv l \<Longrightarrow> prefix (concat (map normal_of (ol_lines l))) (ol_normals l)"
  by (metis wop_log_inv_def prefixI)

lemma control_call_inv:
  assumes inv: "wop_log_inv l" and ctl: "wop_output_control b t (ol_output l) = (OutputOk, w)"
  shows "wop_log_inv (l\<lparr>ol_output := w, ol_lines := ol_lines l @ [ControlLine b], ol_controls := ol_controls l @ [b]\<rparr>)"
proof -
  have winv: "wop_output_inv (ol_output l)" using inv by (simp add: wop_log_inv_def)
  note eff = control_effect [OF winv ctl]
  have "(ol_written l @ wop_output_owed (ol_output l)) @ b = concat (map line_bytes (ol_lines l)) @ b"
    using inv by (simp add: wop_log_inv_def)
  then show ?thesis
    using inv started_prefix [OF inv] eff(1,7) unfolding wop_log_inv_def
    by (simp add: eff(2-6,8-10))
qed

lemma flush_call_inv:
  assumes inv: "wop_log_inv l" and fl: "wop_output_flush as (ol_output l) = (r, wr, st, w)"
  shows "wop_log_inv (l\<lparr>ol_output := w, ol_written := ol_written l @ wr, ol_lines := ol_lines l @ map NormalLine st\<rparr>)"
proof -
  have winv: "wop_output_inv (ol_output l)" using inv by (simp add: wop_log_inv_def)
  note eff = flush_correct [OF fl winv, unfolded flush_effect_def session_kept_def]
  have bytes: "sum_list (map length st) = length (concat st)" by (simp add: length_concat)
  have stream: "ol_written l @ wop_output_owed (ol_output l) @ concat st = concat (map line_bytes (ol_lines l)) @ concat st"
    using inv unfolding wop_log_inv_def by (metis append.assoc)
  have ended: "wo_terminal (ol_output l) \<Longrightarrow> st = []"
    using winv eff by (auto simp: wop_output_inv_def queued_def)
  show ?thesis using inv eff stream ended bytes unfolding wop_log_inv_def by (simp split: if_splits)
qed

lemma output_do_inv:
  assumes inv: "wop_log_inv l"
  shows "wop_log_inv (output_do c l)"
proof (cases c)
  case (ControlCall b t)
  then show ?thesis
    using inv control_call_inv [OF inv] control_refused [of b t "ol_output l"] by (auto split: prod.splits)
next
  case (CreditCall x)
  obtain r w where ctl: "wop_output_credit x (ol_output l) = (r, w)" by (cases "wop_output_credit x (ol_output l)")
  show ?thesis
  proof (cases "r = OutputOk")
    case True
    have "wop_output_inv (ol_output l)" using inv by (simp add: wop_log_inv_def)
    note eff = credit_effect [OF this _ ctl [unfolded True]]
    show ?thesis using inv eff CreditCall ctl True by (simp add: wop_log_inv_def)
  qed (use inv CreditCall ctl credit_refused [OF ctl] in simp)
next
  case (NormalCall m b)
  obtain r w where ctl: "wop_output_normal m b (ol_output l) = (r, w)" by (cases "wop_output_normal m b (ol_output l)")
  show ?thesis
  proof (cases "r = OutputOk")
    case True
    have "wop_output_inv (ol_output l)" using inv by (simp add: wop_log_inv_def)
    note eff = normal_effect [OF this ctl [unfolded True]]
    show ?thesis using inv eff NormalCall ctl True by (simp add: wop_log_inv_def flip: append_assoc)
  qed (use inv NormalCall ctl normal_refused [OF ctl] in simp)
next
  case (FlushCall as)
  then show ?thesis using flush_call_inv [OF inv, of as] by (auto split: prod.splits)
qed

interpretation opcua_output: action_machine output_do wop_log_inv "\<lambda>_. True"
  by unfold_locales (rule output_do_inv)

lemma wop_log_inv_init: "wop_log_inv wop_log_init"
  using wop_output_inv_init
  by (simp add: wop_log_inv_def wop_log_init_def wop_output_owed_def) (simp add: wop_output_init_def queued_def)

text \<open>
  C30: For every sequence of calls and every answer of the descriptor, the bytes written are a prefix of one stream of
  lines: the accepted control lines in their order, and accepted normal frames in their order, each once
  and none left out before another.  Until a terminal control, every accepted frame is in the stream or still
  queued.  The frames started never exceed the messages and bytes granted, at most 64 frames of 1 MiB are
  pending, and unreturned credit is within 16 messages and 262144 bytes.
\<close>

theorem opcua_output_stream:
  fixes cs :: "output_call list"
  defines "l \<equiv> run_actions output_do cs wop_log_init"
  shows "ol_written l @ wop_output_owed (ol_output l) = concat (map line_bytes (ol_lines l)) \<and>
    concat (map control_of (ol_lines l)) = ol_controls l \<and>
    prefix (concat (map normal_of (ol_lines l))) (ol_normals l) \<and>
    (wo_terminal (ol_output l) \<or> concat (map normal_of (ol_lines l)) @ queued (ol_output l) = ol_normals l) \<and>
    length (concat (map normal_of (ol_lines l))) \<le> ol_messages l \<and>
    length (concat (concat (map normal_of (ol_lines l)))) \<le> ol_bytes l \<and>
    wo_count (ol_output l) \<le> 64 \<and> wo_pending_bytes (ol_output l) \<le> 1048576 \<and>
    wo_credit_messages (ol_output l) + wo_used_messages (ol_output l) \<le> 16 \<and>
    wo_credit_bytes (ol_output l) + wo_used_bytes (ol_output l) \<le> 262144"
proof -
  have inv: "wop_log_inv l"
    unfolding l_def using opcua_output.run_inv [OF wop_log_inv_init, of cs] by (simp add: list_all_iff)
  then have "wop_output_inv (ol_output l)" by (simp add: wop_log_inv_def)
  then have "wo_count (ol_output l) \<le> 64" "wo_pending_bytes (ol_output l) \<le> 1048576"
    "wo_credit_messages (ol_output l) + wo_used_messages (ol_output l) \<le> 16"
    "wo_credit_bytes (ol_output l) + wo_used_bytes (ol_output l) \<le> 262144"
    by (auto simp: wop_output_inv_def ring_ok_def opcua_bounds)
  moreover note started_prefix [OF inv]
  ultimately show ?thesis using inv by (auto simp: wop_log_inv_def split: if_splits)
qed

end
