(* ===== verification/Wotex_Yyjson.thy ===== *)
theory Wotex_Yyjson
  imports Wotex_Prelude
begin

text \<open>
  JSON values as the C hosts see them through the yyjson library, which they use with numbers kept as raw text.
  An object keeps its members in text order and with repeated names, a lookup finds the first.
  \<open>yy_bounded\<close> is what both C hosts admit: at most 4096 values, at most eight nested
  containers of at most 1024 elements, no name twice in an object, raw numbers of a given shape.
\<close>

datatype yyval =
  YNull | YBool bool | YRaw string | YStr string | YArr "yyval list" | YObj "(string \<times> yyval) list"

text \<open>The answer of the library's parser for a text: out of its pool, no document, or the root.\<close>

datatype yyread = ReadMemory | ReadSyntax | ReadDocument yyval

fun yy_is_obj :: "yyval \<Rightarrow> bool" where
  "yy_is_obj (YObj m) = True"
| "yy_is_obj _ = False"

fun yy_is_str :: "yyval \<Rightarrow> bool" where
  "yy_is_str (YStr s) = True"
| "yy_is_str _ = False"

fun yy_is_bool :: "yyval \<Rightarrow> bool" where
  "yy_is_bool (YBool b) = True"
| "yy_is_bool _ = False"

fun yy_members :: "yyval \<Rightarrow> (string \<times> yyval) list" where
  "yy_members (YObj m) = m"
| "yy_members _ = []"

text \<open>\<open>yyjson_obj_get\<close> and \<open>yyjson_obj_size\<close>; both accept a value that is no object.\<close>

definition yy_get :: "yyval \<Rightarrow> string \<Rightarrow> yyval option" where
  "yy_get v k = map_of (yy_members v) k"

definition yy_size :: "yyval \<Rightarrow> nat" where
  "yy_size v = length (yy_members v)"

fun yy_nodes :: "yyval \<Rightarrow> nat" where
  "yy_nodes (YArr xs) = Suc (sum_list (map yy_nodes xs))"
| "yy_nodes (YObj m) = Suc (sum_list (map (\<lambda>p. yy_nodes (snd p)) m))"
| "yy_nodes _ = 1"

fun yy_within :: "(string \<Rightarrow> bool) \<Rightarrow> nat \<Rightarrow> yyval \<Rightarrow> bool" where
  "yy_within raw d (YArr xs) \<longleftrightarrow> d > 0 \<and> length xs \<le> 1024 \<and> (\<forall>x \<in> set xs. yy_within raw (d - 1) x)"
| "yy_within raw d (YObj m) \<longleftrightarrow> d > 0 \<and> length m \<le> 1024 \<and> distinct (map fst m) \<and>
     (\<forall>p \<in> set m. yy_within raw (d - 1) (snd p))"
| "yy_within raw d (YRaw t) \<longleftrightarrow> raw t"
| "yy_within raw d _ = True"

definition yy_bounded :: "(string \<Rightarrow> bool) \<Rightarrow> yyval \<Rightarrow> bool" where
  "yy_bounded raw v \<longleftrightarrow> yy_nodes v \<le> 4096 \<and> yy_within raw 8 v"

text \<open>The elements of a container.\<close>

fun yy_children :: "yyval \<Rightarrow> yyval list" where
  "yy_children (YArr xs) = xs"
| "yy_children (YObj m) = map snd m"
| "yy_children _ = []"

fun yy_container :: "yyval \<Rightarrow> bool" where
  "yy_container (YArr xs) = True"
| "yy_container (YObj m) = True"
| "yy_container _ = False"

lemma yy_nodes_pos: "0 < yy_nodes v"
  by (cases v) auto

lemma yy_nodes_children: "yy_nodes v = Suc (sum_list (map yy_nodes (yy_children v)))"
  by (cases v) (auto simp: comp_def)

lemma yy_within_container:
  "yy_container v \<Longrightarrow> yy_within raw d v \<longleftrightarrow> d > 0 \<and> length (yy_children v) \<le> 1024 \<and>
     distinct (map fst (yy_members v)) \<and> (\<forall>x \<in> set (yy_children v). yy_within raw (d - 1) x)"
  by (cases v) auto

section \<open>Decimal numbers\<close>

text \<open>Both hosts read digits into a 64-bit number and refuse what would leave its range.\<close>

fun bounded_decimal :: "nat \<Rightarrow> nat \<Rightarrow> string \<Rightarrow> nat option" where
  "bounded_decimal maximum n [] = Some n"
| "bounded_decimal maximum n (c # cs) =
     (if \<not> is_digit c \<or> maximum < n * 10 + digit_value c then None
      else bounded_decimal maximum (n * 10 + digit_value c) cs)"

lemma bounded_decimal_exact:
  "bounded_decimal maximum n cs = Some k \<longleftrightarrow>
     list_all is_digit cs \<and> decimal_value n cs = k \<and> (cs = [] \<or> k \<le> maximum)"
proof (induction cs arbitrary: n)
  case (Cons c cs)
  have "n * 10 + digit_value c \<le> decimal_value (n * 10 + digit_value c) cs" by (rule decimal_value_ge)
  then show ?case using Cons.IH [of "n * 10 + digit_value c"] by auto
qed simp

end
