(* ===== verification/Opcua_Ipc.thy ===== *)
theory Opcua_Ipc
  imports Opcua_Output Wotex_Yyjson Ble_Bytes
begin

text \<open>
  The input of the OPC UA host: the bounds on a parsed line and the readers of numbers (\<open>json_codec.h\<close>,
  \<open>json_codec.c\<close>), the assembly of lines, requests, credit and the parameters of open (\<open>ipc.h\<close>, \<open>ipc.c\<close>).  The
  parser of the yyjson library and its conversion of a raw number to a finite double are parameters.
\<close>

section \<open>Documents\<close>

datatype opcua_json_status = OpcuaJsonOk | OpcuaJsonInvalid | OpcuaJsonLimit

text \<open>The nested loops of \<open>unique_keys\<close>: each key is compared with those before it.\<close>

fun unique_keys :: "string list \<Rightarrow> string list \<Rightarrow> bool" where
  "unique_keys prior [] = True"
| "unique_keys prior (k # ks) = (if k \<in> set prior then False else unique_keys (prior @ [k]) ks)"

text \<open>\<open>next\<close> on the innermost open container, closing those that are exhausted.\<close>

fun next_value :: "yyval list list \<Rightarrow> (yyval \<times> yyval list list) option" where
  "next_value [] = None"
| "next_value ([] # fs) = next_value fs"
| "next_value ((v # vs) # fs) = Some (v, vs # fs)"

definition fractional :: "string \<Rightarrow> bool" where
  "fractional t \<longleftrightarrow> CHR ''.'' \<in> set t \<or> CHR ''e'' \<in> set t \<or> CHR ''E'' \<in> set t"

lemma next_value_nodes:
  "next_value fs = Some (v, fs') \<Longrightarrow>
   sum_list (map (\<lambda>f. sum_list (map yy_nodes f)) fs) = yy_nodes v + sum_list (map (\<lambda>f. sum_list (map yy_nodes f)) fs')"
  by (induction fs rule: next_value.induct) auto

text \<open>The checks of one value, inside \<open>depth\<close> open containers.\<close>

definition check_value :: "(string \<Rightarrow> bool) \<Rightarrow> yyval \<Rightarrow> nat \<Rightarrow> opcua_json_status" where
  "check_value double v depth =
     (case v of
        YRaw t \<Rightarrow>
          if length t > 128 then OpcuaJsonLimit
          else if fractional t \<and> \<not> double t then OpcuaJsonInvalid
          else OpcuaJsonOk
      | _ \<Rightarrow>
          if yy_container v \<and> (depth = 8 \<or> length (yy_children v) > 1024) then OpcuaJsonLimit
          else if yy_is_obj v \<and> \<not> unique_keys [] (map fst (yy_members v)) then OpcuaJsonInvalid
          else OpcuaJsonOk)"

function opcua_loop :: "(string \<Rightarrow> bool) \<Rightarrow> yyval \<Rightarrow> yyval list list \<Rightarrow> nat \<Rightarrow> opcua_json_status" where
  "opcua_loop double v stack nodes =
     (if nodes + 1 > 4096 then OpcuaJsonLimit
      else case check_value double v (length stack) of
          OpcuaJsonOk \<Rightarrow>
            (case next_value (if yy_children v = [] then stack else yy_children v # stack) of
               None \<Rightarrow> OpcuaJsonOk
             | Some (v', stack') \<Rightarrow> opcua_loop double v' stack' (nodes + 1))
        | r \<Rightarrow> r)"
  by pat_completeness auto
termination
proof (relation "measure (\<lambda>(double, v, stack, nodes). yy_nodes v + sum_list (map (\<lambda>f. sum_list (map yy_nodes f)) stack))")
qed (auto dest!: next_value_nodes simp: yy_nodes_children comp_def split: if_splits)

definition opcua_validate :: "(string \<Rightarrow> bool) \<Rightarrow> yyval \<Rightarrow> opcua_json_status" where
  "opcua_validate double v = opcua_loop double v [] 0"

definition wop_json_read :: "(string \<Rightarrow> yyread) \<Rightarrow> (string \<Rightarrow> bool) \<Rightarrow> string \<Rightarrow> opcua_json_status \<times> yyval option" where
  "wop_json_read parse double line =
     (if line = [] then (OpcuaJsonInvalid, None)
      else if length line > json_frame_bytes then (OpcuaJsonLimit, None)
      else if last line \<noteq> CHR 0x0A then (OpcuaJsonInvalid, None)
      else if CHR 0x00 \<in> set line \<or> CHR 0x0A \<in> set (butlast line) then (OpcuaJsonInvalid, None)
      else case parse (butlast line) of
          ReadMemory \<Rightarrow> (OpcuaJsonLimit, None)
        | ReadSyntax \<Rightarrow> (OpcuaJsonInvalid, None)
        | ReadDocument v \<Rightarrow>
            (case opcua_validate double v of OpcuaJsonOk \<Rightarrow> (OpcuaJsonOk, Some v) | r \<Rightarrow> (r, None)))"

section \<open>Numbers\<close>

fun magnitude_loop :: "u64 \<Rightarrow> string \<Rightarrow> u64 option" where
  "magnitude_loop parsed [] = Some parsed"
| "magnitude_loop parsed (c # cs) =
     (if \<not> is_digit c then None
      else if parsed > (u64_max - digit_value c) div 10 then None
      else magnitude_loop (parsed * 10 + digit_value c) cs)"

fun magnitude :: "yyval option \<Rightarrow> (bool \<times> u64) option" where
  "magnitude (Some (YRaw t)) =
     (if t = [] \<or> length t > 128 then None
      else let negative = hd t = CHR ''-''; digits = (if negative then tl t else t) in
        if digits = [] then None else map_option (Pair negative) (magnitude_loop 0 digits))"
| "magnitude _ = None"

definition wop_json_int64 :: "yyval option \<Rightarrow> int option" where
  "wop_json_int64 v = (case magnitude v of None \<Rightarrow> None
     | Some (negative, parsed) \<Rightarrow>
         if int parsed > i64_max + (if negative then 1 else 0) then None
         else Some (if negative then - int parsed else int parsed))"

definition wop_json_uint64 :: "yyval option \<Rightarrow> u64 option" where
  "wop_json_uint64 v = (case magnitude v of None \<Rightarrow> None
     | Some (negative, parsed) \<Rightarrow> if negative \<and> parsed \<noteq> 0 then None else Some parsed)"

section \<open>Lines\<close>

datatype ipc_frame_status = IpcMore | IpcFrame | IpcInvalid | IpcLimit

text \<open>\<open>wop_ipc_feed\<close>: the result, the bytes consumed and the bytes held of the line.\<close>

fun ipc_feed_loop :: "string \<Rightarrow> nat \<Rightarrow> string \<Rightarrow> ipc_frame_status \<times> nat \<times> string" where
  "ipc_feed_loop held consumed [] = (if length held = json_frame_bytes then IpcLimit else IpcMore, consumed, held)"
| "ipc_feed_loop held consumed (c # cs) =
     (if c = CHR 0x00 then (IpcInvalid, consumed, held)
      else if length held = json_frame_bytes then (IpcLimit, consumed, held)
      else if c = CHR 0x0A then (IpcFrame, consumed + 1, held @ [c])
      else ipc_feed_loop (held @ [c]) (consumed + 1) cs)"

definition wop_ipc_feed :: "string \<Rightarrow> string \<Rightarrow> ipc_frame_status \<times> nat \<times> string" where
  "wop_ipc_feed held bytes =
     (if length held \<ge> json_frame_bytes then (IpcInvalid, 0, held) else ipc_feed_loop held 0 bytes)"

section \<open>Requests and credit\<close>

record ipc_request =
  iq_generation :: u64
  iq_id :: string
  iq_deadline_ms :: int
  iq_timeout_ms :: u64
  iq_open :: bool

definition ascii_id :: "yyval option \<Rightarrow> bool" where
  "ascii_id v = (case v of Some (YStr s) \<Rightarrow> s \<noteq> [] \<and> length s \<le> 64 \<and>
     list_all (\<lambda>c. CHR 0x20 \<le> c \<and> c \<le> CHR 0x7E) s | _ \<Rightarrow> False)"

definition operation_names :: "string list" where
  "operation_names = [''open'', ''read'', ''health'', ''write'', ''call'', ''browse'', ''browse_next'',
     ''browse_release'', ''subscribe'', ''unsubscribe'', ''cancel'', ''close'']"

definition ipc_operation :: "yyval option \<Rightarrow> bool" where
  "ipc_operation v = (case v of Some (YStr s) \<Rightarrow> s \<in> set operation_names | _ \<Rightarrow> False)"

definition ipc_text :: "yyval option \<Rightarrow> string" where
  "ipc_text v = (case v of Some (YStr s) \<Rightarrow> s | _ \<Rightarrow> [])"

text \<open>One turn of the loop over the members: the bit of the member and the request so far.\<close>

definition request_member :: "string \<times> yyval \<Rightarrow> ipc_request \<Rightarrow> (nat \<times> ipc_request) option" where
  "request_member e q = (let v = Some (snd e) in
     if fst e = ''version'' then (if wop_json_int64 v = Some 1 then Some (0, q) else None)
     else if fst e = ''generation'' then
       (case wop_json_uint64 v of None \<Rightarrow> None | Some g \<Rightarrow> if g = 0 then None else Some (1, q\<lparr>iq_generation := g\<rparr>))
     else if fst e = ''id'' then (if ascii_id v then Some (2, q\<lparr>iq_id := ipc_text v\<rparr>) else None)
     else if fst e = ''operation'' then
       (if ipc_operation v then Some (3, q\<lparr>iq_open := ipc_text v = ''open''\<rparr>) else None)
     else if fst e = ''parameters'' then (if yy_is_obj (snd e) then Some (4, q) else None)
     else if fst e = ''timeout_ms'' then
       (case wop_json_uint64 v of None \<Rightarrow> None
        | Some t \<Rightarrow> if t = 0 \<or> t > 60000 then None else Some (5, q\<lparr>iq_timeout_ms := t\<rparr>))
     else if fst e = ''deadline_ms'' then
       (case wop_json_int64 v of None \<Rightarrow> None | Some d \<Rightarrow> if d < 0 then None else Some (6, q\<lparr>iq_deadline_ms := d\<rparr>))
     else None)"

fun request_loop :: "(string \<times> yyval) list \<Rightarrow> nat list \<Rightarrow> ipc_request \<Rightarrow> (nat list \<times> ipc_request) option" where
  "request_loop [] seen q = Some (seen, q)"
| "request_loop (e # es) seen q =
     (case request_member e q of None \<Rightarrow> None
      | Some (slot, q') \<Rightarrow> if slot \<in> set seen then None else request_loop es (slot # seen) q')"

definition ipc_request_zero :: ipc_request where
  "ipc_request_zero = \<lparr>iq_generation = 0, iq_id = [], iq_deadline_ms = 0, iq_timeout_ms = 0, iq_open = False\<rparr>"

definition wop_ipc_request :: "yyval \<Rightarrow> ipc_request option" where
  "wop_ipc_request root =
     (if \<not> yy_is_obj root \<or> yy_size root \<noteq> 7 then None
      else case request_loop (yy_members root) [] ipc_request_zero of None \<Rightarrow> None
        | Some (seen, q) \<Rightarrow> if set seen = {0..<7} then Some q else None)"

definition yy_closed :: "yyval option \<Rightarrow> string list \<Rightarrow> bool" where
  "yy_closed v keys = (case v of Some w \<Rightarrow> yy_is_obj w \<and> yy_size w = length keys \<and>
     list_all (\<lambda>k. yy_get w k \<noteq> None) keys | None \<Rightarrow> False)"

definition wop_ipc_credit :: "yyval \<Rightarrow> ipc_credit option" where
  "wop_ipc_credit root =
     (if \<not> yy_closed (Some root) [''version'', ''generation'', ''event'', ''sequence'', ''messages'', ''bytes'']
      then None
      else if wop_json_int64 (yy_get root ''version'') \<noteq> Some 1 \<or> yy_get root ''event'' \<noteq> Some (YStr ''credit'')
      then None
      else case (wop_json_uint64 (yy_get root ''generation''), wop_json_uint64 (yy_get root ''sequence''),
                 wop_json_uint64 (yy_get root ''messages''), wop_json_uint64 (yy_get root ''bytes'')) of
          (Some g, Some s, Some m, Some b) \<Rightarrow>
            if g = 0 \<or> s = 0 \<or> m = 0 \<or> m > 16 \<or> b = 0 \<or> b > 262144 then None
            else Some \<lparr>ic_generation = g, ic_sequence = s, ic_messages = m, ic_bytes = b\<rparr>
        | _ \<Rightarrow> None)"

section \<open>The parameters of open\<close>

definition bounded_text :: "yyval option \<Rightarrow> nat \<Rightarrow> bool" where
  "bounded_text v maximum = (case v of Some (YStr s) \<Rightarrow> s \<noteq> [] \<and> length s \<le> maximum \<and> CHR 0x00 \<notin> set s | _ \<Rightarrow> False)"

definition envelope_padding :: "string \<Rightarrow> nat" where
  "envelope_padding text = (if text \<noteq> [] \<and> text ! (length text - 1) = CHR ''='' then 1 else 0) +
     (if length text \<ge> 2 \<and> text ! (length text - 2) = CHR ''='' then 1 else 0)"

text \<open>The checks of \<open>bytes_envelope\<close> on the text; \<open>sextet\<close> is the digit of a character.\<close>

definition envelope_text :: "string \<Rightarrow> nat \<Rightarrow> bool \<Rightarrow> bool" where
  "envelope_text text maximum allow_empty =
     (let n = length text; padding = envelope_padding text; decoded = n div 4 * 3 - padding in
      n mod 4 = 0 \<and> n \<le> (maximum div 3 + 2) * 4 \<and> decoded \<le> maximum \<and> (allow_empty \<or> decoded \<noteq> 0) \<and>
      list_all (\<lambda>i. \<not> base64_digit (text ! i) < 0) [0..<n - padding] \<and>
      list_all (\<lambda>i. text ! i = CHR ''='') [n - padding..<n] \<and>
      (padding = 1 \<longrightarrow> base64_digit (text ! (n - 2)) AND 3 = 0) \<and>
      (padding = 2 \<longrightarrow> base64_digit (text ! (n - 3)) AND 15 = 0))"

definition bytes_envelope :: "yyval option \<Rightarrow> nat \<Rightarrow> bool \<Rightarrow> bool" where
  "bytes_envelope v maximum allow_empty =
     (yy_closed v [''type'', ''base64''] \<and> yy_get (the v) ''type'' = Some (YStr ''bytes'') \<and>
      (case yy_get (the v) ''base64'' of Some (YStr text) \<Rightarrow> envelope_text text maximum allow_empty | _ \<Rightarrow> False))"

definition authentication :: "yyval option \<Rightarrow> bool" where
  "authentication v =
     (case v of None \<Rightarrow> False
      | Some w \<Rightarrow> yy_is_obj w \<and>
        (case yy_get w ''type'' of
           Some (YStr t) \<Rightarrow>
             if t = ''anonymous'' then yy_closed v [''type'']
             else if t = ''username'' then yy_closed v [''type'', ''username'', ''password''] \<and>
               bounded_text (yy_get w ''username'') 1024 \<and> bytes_envelope (yy_get w ''password'') 4096 True
             else if t = ''certificate'' then yy_closed v [''type'', ''certificate'', ''private_key''] \<and>
               bytes_envelope (yy_get w ''certificate'') 65536 False \<and>
               bytes_envelope (yy_get w ''private_key'') 65536 False
             else False
         | _ \<Rightarrow> False))"

definition open_fields :: "string list" where
  "open_fields = [''endpoint'', ''security_policy'', ''security_mode'', ''client_uri'', ''server_uri'',
     ''certificate'', ''private_key'', ''server_certificate'', ''trust_certificate'', ''crl'', ''authentication'',
     ''session_timeout_ms'']"

definition security_policies :: "string list" where
  "security_policies = [''http://opcfoundation.org/UA/SecurityPolicy#Basic256Sha256'',
     ''http://opcfoundation.org/UA/SecurityPolicy#Aes128_Sha256_RsaOaep'',
     ''http://opcfoundation.org/UA/SecurityPolicy#Aes256_Sha256_RsaPss'']"

definition wop_ipc_open :: "yyval option \<Rightarrow> bool" where
  "wop_ipc_open p =
     (case p of None \<Rightarrow> False
      | Some w \<Rightarrow> yy_closed p open_fields \<and> bounded_text (yy_get w ''endpoint'') 4096 \<and>
        bounded_text (yy_get w ''client_uri'') 4096 \<and> bounded_text (yy_get w ''server_uri'') 4096 \<and>
        yy_get w ''security_mode'' = Some (YStr ''SignAndEncrypt'') \<and>
        (case yy_get w ''security_policy'' of Some (YStr s) \<Rightarrow> s \<in> set security_policies | _ \<Rightarrow> False) \<and>
        list_all (\<lambda>i. bytes_envelope (yy_get w (open_fields ! i)) 65536 False) [5..<10] \<and>
        authentication (yy_get w ''authentication'') \<and>
        (case wop_json_uint64 (yy_get w ''session_timeout_ms'') of None \<Rightarrow> False
         | Some t \<Rightarrow> 1000 \<le> t \<and> t \<le> 3600000))"

section \<open>Validation is the bound\<close>

definition opcua_raw :: "(string \<Rightarrow> bool) \<Rightarrow> string \<Rightarrow> bool" where
  "opcua_raw double t \<longleftrightarrow> length t \<le> 128 \<and> (fractional t \<longrightarrow> double t)"

lemma unique_keys_distinct: "unique_keys prior ks \<longleftrightarrow> distinct ks \<and> set prior \<inter> set ks = {}"
  by (induction prior ks rule: unique_keys.induct) auto

text \<open>The values that wait in open containers are within the levels that are left.\<close>

fun stack_within :: "(string \<Rightarrow> bool) \<Rightarrow> yyval list list \<Rightarrow> bool" where
  "stack_within raw [] = True"
| "stack_within raw (f # fs) \<longleftrightarrow> (\<forall>v \<in> set f. yy_within raw (8 - length (f # fs)) v) \<and> stack_within raw fs"

abbreviation stack_nodes :: "yyval list list \<Rightarrow> nat" where
  "stack_nodes fs \<equiv> sum_list (map (\<lambda>f. sum_list (map yy_nodes f)) fs)"

lemma next_value_None: "next_value fs = None \<Longrightarrow> stack_within raw fs" "next_value fs = None \<Longrightarrow> stack_nodes fs = 0"
  by (induction fs rule: next_value.induct) auto

lemma next_value_Some:
  "next_value fs = Some (v, fs') \<Longrightarrow>
   stack_within raw fs \<longleftrightarrow> yy_within raw (8 - length fs') v \<and> stack_within raw fs'"
  by (induction fs rule: next_value.induct) auto

lemma next_value_length: "next_value fs = Some (v, fs') \<Longrightarrow> length fs' \<le> length fs"
  by (induction fs rule: next_value.induct) auto

lemma check_value_within:
  "check_value double v depth = OpcuaJsonOk \<and> (\<forall>x \<in> set (yy_children v). yy_within (opcua_raw double) (8 - Suc depth) x) \<longleftrightarrow>
   yy_within (opcua_raw double) (8 - depth) v" if "depth \<le> 8"
  using that by (cases v) (auto simp: check_value_def opcua_raw_def unique_keys_distinct)

declare opcua_loop.simps [simp del]

lemma opcua_loop_exact:
  "length stack \<le> 8 \<Longrightarrow>
   opcua_loop double v stack n = OpcuaJsonOk \<longleftrightarrow>
     n + yy_nodes v + stack_nodes stack \<le> 4096 \<and> (yy_within (opcua_raw double) (8 - length stack) v \<and>
     stack_within (opcua_raw double) stack)"
proof (induction double v stack n rule: opcua_loop.induct)
  case (1 double v stack n)
  let ?stack = "if yy_children v = [] then stack else yy_children v # stack"
  let ?raw = "opcua_raw double"
  show ?case
  proof (cases "n + 1 \<le> 4096 \<and> check_value double v (length stack) = OpcuaJsonOk")
    case False
    have "0 < yy_nodes v" by (rule yy_nodes_pos)
    then show ?thesis
      using False check_value_within [OF "1.prems", of double v]
      by (subst opcua_loop.simps) (auto split: opcua_json_status.splits)
  next
    case True
    have nodes: "yy_nodes v + stack_nodes stack = Suc (stack_nodes ?stack)"
      by (simp add: yy_nodes_children [of v])
    have depth: "yy_children v \<noteq> [] \<Longrightarrow> length stack < 8"
      using True "1.prems" by (cases v) (auto simp: check_value_def split: if_splits)
    have within: "stack_within ?raw ?stack \<longleftrightarrow> yy_within ?raw (8 - length stack) v \<and> stack_within ?raw stack"
      using check_value_within [OF "1.prems", of double v] True by auto
    have loop: "opcua_loop double v stack n = (case next_value ?stack of None \<Rightarrow> OpcuaJsonOk
        | Some (v', stack') \<Rightarrow> opcua_loop double v' stack' (n + 1))"
      using True by (subst opcua_loop.simps) simp
    show ?thesis
    proof (cases "next_value ?stack")
      case None
      then show ?thesis
        using True nodes within next_value_None(1) [OF None, of ?raw] next_value_None(2) [OF None] unfolding loop by simp
    next
      case (Some p)
      obtain v' s' where p: "p = (v', s')" by (cases p)
      have len: "length s' \<le> 8"
        using next_value_length [OF Some [unfolded p]] depth "1.prems" by (auto split: if_splits)
      have "opcua_loop double v' s' (n + 1) = OpcuaJsonOk \<longleftrightarrow>
          n + 1 + yy_nodes v' + stack_nodes s' \<le> 4096 \<and> yy_within ?raw (8 - length s') v' \<and> stack_within ?raw s'"
        using "1.IH" [OF _ _ Some p [symmetric] len] True by simp
      moreover have "n + yy_nodes v + stack_nodes stack = n + 1 + yy_nodes v' + stack_nodes s'"
        using nodes next_value_nodes [OF Some [unfolded p]] by linarith
      ultimately show ?thesis
        unfolding loop Some p option.case prod.case within [symmetric] next_value_Some [OF Some [unfolded p], of ?raw]
        by (simp only: conj_assoc)
    qed
  qed
qed

text \<open>
  C31: The loop of the OPC UA host over an explicit stack of eight frames ends for every document and accepts exactly
  those of at most 4096 values and eight nested containers of at most 1024 elements, without repeated names
  and with numbers of at most 128 characters that are finite where they have a fraction or an exponent.
\<close>

theorem opcua_validate_exact: "opcua_validate double v = OpcuaJsonOk \<longleftrightarrow> yy_bounded (opcua_raw double) v"
  by (simp add: opcua_validate_def yy_bounded_def opcua_loop_exact)

section \<open>Numbers\<close>

lemma digit_value_le: "is_digit c \<Longrightarrow> digit_value c \<le> 9"
  unfolding is_digit_of_char digit_value_def by linarith

lemma magnitude_loop_bounded: "magnitude_loop n cs = bounded_decimal u64_max n cs"
proof (induction cs arbitrary: n)
  case (Cons c cs)
  have "is_digit c \<Longrightarrow> (u64_max - digit_value c) div 10 < n \<longleftrightarrow> u64_max < n * 10 + digit_value c"
    using digit_value_le [of c] by (auto simp: u64_max_def)
  then show ?case using Cons by auto
qed simp

lemma json_uint64_digits:
  "list_all is_digit t \<Longrightarrow> t \<noteq> [] \<Longrightarrow> length t \<le> 128 \<Longrightarrow>
   wop_json_uint64 (Some (YRaw t)) = (if decimal_value 0 t \<le> u64_max then Some (decimal_value 0 t) else None)"
proof -
  assume t: "list_all is_digit t" "t \<noteq> []" "length t \<le> 128"
  then have "is_digit (hd t)" by (cases t) auto
  then have "hd t \<noteq> CHR ''-''" by (auto simp: is_digit_of_char)
  then have mag: "magnitude (Some (YRaw t)) = map_option (Pair False) (bounded_decimal u64_max 0 t)"
    using t by (simp add: magnitude_loop_bounded not_less)
  show ?thesis
  proof (cases "bounded_decimal u64_max 0 t")
    case None
    then have "\<not> decimal_value 0 t \<le> u64_max" using t bounded_decimal_exact [of u64_max 0 t "decimal_value 0 t"] by simp
    then show ?thesis using mag None by (simp add: wop_json_uint64_def)
  next
    case (Some k)
    then have "decimal_value 0 t = k" "k \<le> u64_max" using t bounded_decimal_exact [of u64_max 0 t k] by simp_all
    then show ?thesis using mag Some by (simp add: wop_json_uint64_def)
  qed
qed

text \<open>A 64-bit number survives printing and reading.\<close>

lemma json_uint64_print:
  assumes "n \<le> u64_max"
  shows "wop_json_uint64 (Some (YRaw (to_decimal n))) = Some n"
proof -
  have "length (to_decimal n) \<le> 20" using assms by (intro to_decimal_length) (auto simp: u64_max_def)
  then show ?thesis
    using assms to_decimal_digits [of n] by (simp add: json_uint64_digits decimal_value_to_decimal)
qed

section \<open>Lines\<close>

lemma feed_loop_result:
  "ipc_feed_loop held k bytes = (r, n, held') \<Longrightarrow>
   k \<le> n \<and> n - k \<le> length bytes \<and> held' = held @ take (n - k) bytes \<and>
   (length held \<le> json_frame_bytes \<longrightarrow> length held' \<le> json_frame_bytes) \<and>
   (r = IpcFrame \<longrightarrow> held' \<noteq> [] \<and> last held' = CHR 0x0A)"
proof (induction held k bytes rule: ipc_feed_loop.induct)
  case (2 held k c cs)
  show ?case
  proof (cases "c = CHR 0x00 \<or> length held = json_frame_bytes \<or> c = CHR 0x0A")
    case True
    then show ?thesis using "2.prems" by (auto split: if_splits)
  next
    case False
    then have loop: "ipc_feed_loop (held @ [c]) (k + 1) cs = (r, n, held')" using "2.prems" by simp
    have IH: "k + 1 \<le> n \<and> n - (k + 1) \<le> length cs \<and> held' = (held @ [c]) @ take (n - (k + 1)) cs \<and>
       (length (held @ [c]) \<le> json_frame_bytes \<longrightarrow> length held' \<le> json_frame_bytes) \<and>
       (r = IpcFrame \<longrightarrow> held' \<noteq> [] \<and> last held' = CHR 0x0A)"
      using "2.IH" [OF _ _ _ loop] False by blast
    moreover have "take (n - k) (c # cs) = c # take (n - (k + 1)) cs" using IH by (simp add: take_Cons')
    moreover have "length held \<le> json_frame_bytes \<longrightarrow> length (held @ [c]) \<le> json_frame_bytes" using False by simp
    moreover have "k \<le> n \<and> n - k \<le> length (c # cs)" using IH by auto
    moreover have "(held @ [c]) @ take (n - (k + 1)) cs = held @ take (n - k) (c # cs)" using calculation(2) by simp
    ultimately show ?thesis by metis
  qed
qed (auto split: if_splits)

section \<open>Byte envelopes\<close>

text \<open>The checks on the digits, by parts of the text.\<close>

definition padded_digits :: "nat \<Rightarrow> string \<Rightarrow> bool" where
  "padded_digits padding ts \<longleftrightarrow> list_all (\<lambda>c. \<not> base64_digit c < 0) (take (length ts - padding) ts) \<and>
     list_all (\<lambda>c. c = CHR ''='') (drop (length ts - padding) ts) \<and>
     (padding = 1 \<longrightarrow> base64_digit (ts ! (length ts - 2)) AND 3 = 0) \<and>
     (padding = 2 \<longrightarrow> base64_digit (ts ! (length ts - 3)) AND 15 = 0)"

lemma nth_from: "list_all (\<lambda>i. P (ts ! i)) [a..<length ts] \<longleftrightarrow> list_all P (drop a ts)"
  unfolding list_all_length by auto

lemma nth_upto: "n \<le> length ts \<Longrightarrow> list_all (\<lambda>i. P (ts ! i)) [0..<n] \<longleftrightarrow> list_all P (take n ts)"
  unfolding list_all_length by auto

lemma padded_digits_skip:
  assumes "rest \<noteq> []" "length rest mod 4 = 0" "padding \<le> 2"
  shows "padded_digits padding (t0 # t1 # t2 # t3 # rest) \<longleftrightarrow>
    list_all (\<lambda>c. \<not> base64_digit c < 0) [t0, t1, t2, t3] \<and> padded_digits padding rest"
proof -
  have len: "4 \<le> length rest" using assms(1,2) by (cases "length rest < 4") auto
  have shift: "length (t0 # t1 # t2 # t3 # rest) - padding = Suc (Suc (Suc (Suc (length rest - padding))))"
    "length (t0 # t1 # t2 # t3 # rest) - 2 = Suc (Suc (Suc (Suc (length rest - 2))))"
    "length (t0 # t1 # t2 # t3 # rest) - 3 = Suc (Suc (Suc (Suc (length rest - 3))))"
    using len assms(3) by auto
  show ?thesis unfolding padded_digits_def shift by auto
qed

lemma pad_not_digit: "base64_digit CHR ''='' = - 1"
  by (simp add: base64_digit_def)

lemma groups_padded:
  assumes "length ts mod 4 = 0" "ts \<noteq> []" "padding \<le> 2"
  shows "(\<exists>bs. base64_groups padding ts = Inr bs) \<longleftrightarrow> padded_digits padding ts"
  using assms
proof (induction padding ts rule: base64_groups.induct)
  case (2 padding t0 t1 t2 t3 rest)
  show ?case
  proof (cases "rest = []")
    case True
    have "padding = 0 \<or> padding = 1 \<or> padding = 2" using "2.prems" by auto
    then show ?thesis using True pad_not_digit by (auto simp: padded_digits_def Let_def numeral_eq_Suc split: if_splits)
  next
    case False
    have "base64_groups padding (t0 # t1 # t2 # t3 # rest) =
      (if list_all (\<lambda>c. \<not> base64_digit c < 0) [t0, t1, t2, t3]
       then map_sum id (\<lambda>bs. char_of (push_bit 2 (base64_digit t0) OR drop_bit 4 (base64_digit t1)) #
              char_of (push_bit 4 (base64_digit t1) OR drop_bit 2 (base64_digit t2)) #
              char_of (push_bit 6 (base64_digit t2) OR base64_digit t3) # bs) (base64_groups padding rest)
       else Inl InvalidValue)"
      using False by (auto simp: Let_def)
    moreover have "(\<exists>bs. map_sum id f r = Inr bs) \<longleftrightarrow> (\<exists>bs. r = Inr bs)"
      for f :: "bytes \<Rightarrow> bytes" and r :: "bytes_error + bytes"
      by (cases r) auto
    moreover have "(\<exists>bs. base64_groups padding rest = Inr bs) \<longleftrightarrow> padded_digits padding rest"
      if "list_all (\<lambda>c. \<not> base64_digit c < 0) [t0, t1, t2, t3]"
      using 2 False that by (auto simp: Let_def)
    moreover have "padded_digits padding (t0 # t1 # t2 # t3 # rest) \<longleftrightarrow>
        list_all (\<lambda>c. \<not> base64_digit c < 0) [t0, t1, t2, t3] \<and> padded_digits padding rest"
      using padded_digits_skip [OF False, of padding t0 t1 t2 t3] "2.prems" by simp
    ultimately show ?thesis by (simp only: if_distrib) (metis (no_types, lifting) Inr_not_Inl)
  qed
qed auto


lemma envelope_padding_le: "envelope_padding text \<le> 2" "envelope_padding text \<le> length text"
  by (auto simp: envelope_padding_def Suc_le_eq)

lemma envelope_padding_nonempty: "text \<noteq> [] \<Longrightarrow> length text mod 4 = 0 \<Longrightarrow> envelope_padding text = base64_padding text"
proof -
  assume t: "text \<noteq> []" "length text mod 4 = 0"
  then have "2 \<le> length text" by (cases "text"; cases "tl text") auto
  then show ?thesis using t(1) by (simp add: envelope_padding_def base64_padding_def last_conv_nth)
qed

text \<open>
  A text passes exactly when it is the base64 text of a byte string of at most the given length, which is
  not empty unless that is allowed.
\<close>

lemma envelope_text_canonical:
  "envelope_text text maximum allow_empty \<longleftrightarrow>
   (\<exists>bs. base64_encode bs = text \<and> length bs \<le> maximum \<and> (allow_empty \<or> bs \<noteq> []))"
proof (cases "text = []")
  case True
  have "base64_encode bs = [] \<longleftrightarrow> bs = []" for bs
    using length_base64_encode [of bs] by (cases bs) auto
  then show ?thesis using True by (auto simp: envelope_text_def envelope_padding_def)
next
  case False
  let ?p = "envelope_padding text" and ?n = "length text"
  have digits: "(list_all (\<lambda>i. \<not> base64_digit (text ! i) < 0) [0..<?n - ?p] \<and>
      list_all (\<lambda>i. text ! i = CHR ''='') [?n - ?p..<?n] \<and>
      (?p = 1 \<longrightarrow> base64_digit (text ! (?n - 2)) AND 3 = 0) \<and> (?p = 2 \<longrightarrow> base64_digit (text ! (?n - 3)) AND 15 = 0))
     \<longleftrightarrow> padded_digits ?p text"
    unfolding padded_digits_def
      nth_upto [of "?n - ?p" "text" "\<lambda>c. \<not> base64_digit c < 0", OF diff_le_self]
      nth_from [of "\<lambda>c. c = CHR ''=''" "text" "?n - ?p"] ..
  show ?thesis
  proof
    assume env: "envelope_text text maximum allow_empty"
    then have n: "?n mod 4 = 0" and "padded_digits ?p text" and dec: "?n div 4 * 3 - ?p \<le> maximum" "allow_empty \<or> ?n div 4 * 3 - ?p \<noteq> 0"
      using digits unfolding envelope_text_def Let_def by auto
    then obtain bs where g: "base64_groups ?p text = Inr bs"
      using groups_padded [OF n False envelope_padding_le(1)] by blast
    have "length bs = ?n div 4 * 3 - ?p" using base64_groups_length [OF g envelope_padding_le(1)] False by simp
    then show "\<exists>bs. base64_encode bs = text \<and> length bs \<le> maximum \<and> (allow_empty \<or> bs \<noteq> [])"
      using base64_groups_canonical [OF g] dec by (intro exI [of _ bs]) auto
  next
    assume "\<exists>bs. base64_encode bs = text \<and> length bs \<le> maximum \<and> (allow_empty \<or> bs \<noteq> [])"
    then obtain bs where bs: "base64_encode bs = text" "length bs \<le> maximum" by blast
    have ne: "bs \<noteq> []" using bs(1) False by auto
    have n: "?n mod 4 = 0" "?n = (length bs + 2) div 3 * 4" using length_base64_encode [of bs] bs(1) by auto
    have p: "?p = base64_pad_of bs"
      using envelope_padding_nonempty [OF False n(1)] base64_padding_encode [OF ne] bs(1) by simp
    have g: "base64_groups ?p text = Inr bs" using base64_encode_groups [of bs] bs(1) p by simp
    have "length bs = ?n div 4 * 3 - ?p" using base64_groups_length [OF g envelope_padding_le(1)] False by simp
    moreover have "padded_digits ?p text" using groups_padded [OF n(1) False envelope_padding_le(1)] g by blast
    moreover have "?n \<le> (maximum div 3 + 2) * 4" unfolding n(2) using bs(2) by (intro mult_le_mono1) presburger
    ultimately show "envelope_text text maximum allow_empty"
      using digits n(1) bs(2) ne unfolding envelope_text_def Let_def by auto
  qed
qed

end
