(* ===== verification/Opcua_Owner.thy ===== *)
theory Opcua_Owner
  imports Opcua_Ipc
begin

text \<open>
  The owner of the OPC UA host (\<open>owner.h\<close>, \<open>owner.c\<close>): it admits the requests of the lines it reads, keeps at most 64
  operations, dispatches queued ones on a later tick and answers each admitted request.  The SDK is reached through
  the callbacks of \<open>WopService\<close>; their answers, those of the clock, of the JSON library and of the
  allocator are the environment of a call.  \<open>ow_log\<close> is not part of the program: it records the admitted
  requests, the answers that were queued for output and the calls made to the service; \<open>ow_undefined\<close> is set where
  the program would use a null pointer.
\<close>

datatype opcua_operation_kind = KindRead | KindHealth | KindWrite | KindCall | KindBrowse | KindBrowseNext | KindBrowseRelease
  | KindSubscribe | KindUnsubscribe

datatype slot_state = SlotFree | SlotQueued | SlotDispatched | SlotAbandoned

record wop_failure =
  wf_code :: string
  wf_phase :: string
  wf_unknown_effect :: bool
  wf_status :: "nat option"

datatype wop_completion = CompletionPending | CompletionSuccess | CompletionFailure | CompletionTerminal

record wop_slot =
  sl_state :: slot_state
  sl_kind :: opcua_operation_kind
  sl_index :: nat
  sl_sequence :: u64
  sl_id :: string
  sl_deadline_ms :: int
  sl_handle :: nat

datatype owner_session = OwnerIdle | OwnerOpening | OwnerOpen | OwnerClosed

datatype owner_event =
  Admitted string | Replied string bool | ServiceOpen | ServiceDispatch u64 | ServiceCancel u64 | ServiceRetire u64 | ServiceClose

record wop_owner =
  ow_output :: wop_output
  ow_input :: string
  ow_operations :: "wop_slot list"
  ow_occupied :: nat
  ow_next_sequence :: u64
  ow_next_handle :: nat
  ow_session :: owner_session
  ow_descriptor :: bool
  ow_open_id :: string
  ow_open_deadline_ms :: int
  ow_finished :: bool
  ow_status :: nat
  ow_log :: "owner_event list"
  ow_undefined :: bool

text \<open>
  The environment of one call.  Answers that may differ from one use to the next within a call are
  functions of the length of the log; \<open>en_document\<close> is the allocation of a document in a loop.  The
  report callback may be absent; otherwise it produces the reports of the list and then none.
\<close>

datatype report_answer = ReportDocument "(string \<times> yyval) list" | ReportFailed wop_failure

record owner_env =
  en_parse :: "string \<Rightarrow> yyread"
  en_double :: "string \<Rightarrow> bool"
  en_clock :: "nat \<Rightarrow> int"
  en_write :: "nat \<Rightarrow> yyval \<Rightarrow> string option"
  en_document :: "nat \<Rightarrow> bool"
  en_copy :: "nat \<Rightarrow> bool"
  en_descriptor :: "nat \<Rightarrow> write_result list"
  en_open :: "yyval option \<Rightarrow> int \<Rightarrow> wop_failure \<Rightarrow> bool \<times> wop_failure"
  en_opened :: "wop_failure \<Rightarrow> wop_completion \<times> (string \<times> yyval) list \<times> wop_failure"
  en_prepare :: "wop_slot \<Rightarrow> yyval option \<Rightarrow> wop_failure \<Rightarrow> bool \<times> wop_failure"
  en_dispatch :: "wop_slot \<Rightarrow> nat \<Rightarrow> wop_failure \<Rightarrow> bool \<times> wop_failure"
  en_complete :: "wop_slot \<Rightarrow> wop_failure \<Rightarrow> wop_completion \<times> yyval option \<times> wop_failure"
  en_released :: "nat \<Rightarrow> wop_slot \<Rightarrow> bool"
  en_step :: "wop_failure \<Rightarrow> bool \<times> wop_failure"
  en_close :: bool
  en_reports :: "report_answer list option"

definition owner_operations :: nat where "owner_operations = 64"
definition owner_maximum_handle :: nat where "owner_maximum_handle = 99999"

definition owner_operation_names :: "string list" where
  "owner_operation_names = [''read'', ''health'', ''write'', ''call'', ''browse'', ''browse_next'', ''browse_release'',
     ''subscribe'', ''unsubscribe'']"

definition owner_operation_kinds :: "opcua_operation_kind list" where
  "owner_operation_kinds = [KindRead, KindHealth, KindWrite, KindCall, KindBrowse, KindBrowseNext, KindBrowseRelease,
     KindSubscribe, KindUnsubscribe]"

definition free_slot :: "nat \<Rightarrow> wop_slot" where
  "free_slot i = \<lparr>sl_state = SlotFree, sl_kind = KindRead, sl_index = i, sl_sequence = 0, sl_id = [],
     sl_deadline_ms = 0, sl_handle = 0\<rparr>"

definition wop_owner_init :: "bool \<Rightarrow> wop_owner" where
  "wop_owner_init descriptor = \<lparr>ow_output = wop_output_init, ow_input = [], ow_operations = map free_slot [0..<owner_operations],
     ow_occupied = 0, ow_next_sequence = 0, ow_next_handle = 1, ow_session = OwnerIdle, ow_descriptor = descriptor,
     ow_open_id = [], ow_open_deadline_ms = 0, ow_finished = False, ow_status = 0, ow_log = [],
     ow_undefined = False\<rparr>"

definition log_event :: "owner_event \<Rightarrow> wop_owner \<Rightarrow> wop_owner" where
  "log_event e w = w\<lparr>ow_log := ow_log w @ [e]\<rparr>"

definition failure_of :: "string \<Rightarrow> string \<Rightarrow> bool \<Rightarrow> wop_failure" where
  "failure_of code phase unknown = \<lparr>wf_code = code, wf_phase = phase, wf_unknown_effect = unknown, wf_status = None\<rparr>"

definition kind_mutation :: "opcua_operation_kind \<Rightarrow> bool" where
  "kind_mutation k \<longleftrightarrow> k = KindWrite \<or> k = KindCall"

section \<open>Terminal and replies\<close>

definition mutation_outstanding :: "wop_owner \<Rightarrow> bool" where
  "mutation_outstanding w \<longleftrightarrow>
     list_ex (\<lambda>s. (sl_state s = SlotDispatched \<or> sl_state s = SlotAbandoned) \<and> kind_mutation (sl_kind s)) (ow_operations w)"

definition terminal_line :: "wop_owner \<Rightarrow> wop_failure \<Rightarrow> string" where
  "terminal_line w f =
     ''{\"version\":1,\"generation\":'' @
     (if wo_generation (ow_output w) \<noteq> 0 then to_decimal (wo_generation (ow_output w)) else ''null'') @
     '',\"event\":\"terminal\",\"error\":{\"code\":\"'' @ wf_code f @ ''\",\"phase\":\"'' @ wf_phase f @ ''\",\"effect\":\"'' @
     (if mutation_outstanding w \<or> wf_unknown_effect f then ''unknown'' else ''none'') @ ''\"'' @
     (case wf_status f of None \<Rightarrow> [] | Some n \<Rightarrow> '',\"status\":'' @ to_decimal n) @ ''}}'' @ [CHR 0x0A]"

definition owner_terminal :: "wop_failure \<Rightarrow> wop_owner \<Rightarrow> wop_owner" where
  "owner_terminal f w =
     (if ow_finished w then w
      else let line = terminal_line w f;
          out = (if length line < 320 then snd (wop_output_control line True (ow_output w)) else ow_output w)
        in w\<lparr>ow_output := out, ow_finished := True, ow_status := 70\<rparr>)"

definition terminal_code :: "string \<Rightarrow> string \<Rightarrow> wop_owner \<Rightarrow> wop_owner" where
  "terminal_code code phase = owner_terminal (failure_of code phase False)"

datatype owner_emit_status = EmitOk | EmitLimit | EmitFailed

text \<open>Building and printing a document is one answer: \<open>None\<close> where either fails.\<close>

definition owner_emit :: "owner_env \<Rightarrow> yyval \<Rightarrow> wop_owner \<Rightarrow> owner_emit_status \<times> wop_owner" where
  "owner_emit env doc w =
     (let n = length (ow_log w) in
      case en_write env n doc of
        None \<Rightarrow> (EmitFailed, w)
      | Some text \<Rightarrow>
          if length text \<ge> json_frame_bytes then (EmitLimit, w)
          else (case wop_output_normal (en_copy env n) (text @ [CHR 0x0A]) (ow_output w) of
            (OutputOk, out) \<Rightarrow>
              if ow_descriptor w
              then (case wop_output_flush (en_descriptor env n) out of (r, wr, st, out') \<Rightarrow>
                (if r = OutputClosed then EmitFailed else EmitOk, w\<lparr>ow_output := out'\<rparr>))
              else (EmitOk, w\<lparr>ow_output := out\<rparr>)
          | (r, out) \<Rightarrow> (EmitFailed, w\<lparr>ow_output := out\<rparr>)))"

definition owner_envelope :: "wop_owner \<Rightarrow> string \<Rightarrow> bool \<Rightarrow> (string \<times> yyval) list" where
  "owner_envelope w ident ok = [(''version'', YRaw ''1''), (''generation'', YRaw (to_decimal (wo_generation (ow_output w)))),
     (''id'', YStr ident), (''ok'', YBool ok)]"

definition failure_document :: "wop_owner \<Rightarrow> string \<Rightarrow> wop_failure \<Rightarrow> yyval" where
  "failure_document w ident f = YObj (owner_envelope w ident False @ [(''error'', YObj
     ([(''code'', YStr (wf_code f)), (''phase'', YStr (wf_phase f)),
       (''effect'', YStr (if wf_unknown_effect f then ''unknown'' else ''none''))] @
      (case wf_status f of None \<Rightarrow> [] | Some n \<Rightarrow> [(''status'', YRaw (to_decimal n))])))])"

definition reply_failure :: "owner_env \<Rightarrow> string \<Rightarrow> wop_failure \<Rightarrow> wop_owner \<Rightarrow> wop_owner" where
  "reply_failure env ident f w =
     (case owner_emit env (failure_document w ident f) w of (r, w') \<Rightarrow>
        if r = EmitOk then log_event (Replied ident False) w'
        else terminal_code ''receiver_overflow'' ''exchange'' w')"

definition reply_success :: "owner_env \<Rightarrow> string \<Rightarrow> yyval option \<Rightarrow> bool \<Rightarrow> wop_owner \<Rightarrow> wop_owner" where
  "reply_success env ident result unknown w =
     (case result of None \<Rightarrow> terminal_code ''receiver_overflow'' ''exchange'' w
      | Some v \<Rightarrow>
        (case owner_emit env (YObj (owner_envelope w ident True @ [(''result'', v)])) w of (r, w') \<Rightarrow>
           (case r of
              EmitOk \<Rightarrow> log_event (Replied ident True) w'
            | EmitLimit \<Rightarrow> reply_failure env ident (failure_of ''response_limit'' ''decode'' unknown) w'
            | EmitFailed \<Rightarrow> terminal_code ''receiver_overflow'' ''exchange'' w')))"

section \<open>Slots\<close>

definition slot_outstanding :: "wop_slot \<Rightarrow> bool" where
  "slot_outstanding s \<longleftrightarrow> sl_state s = SlotQueued \<or> sl_state s = SlotDispatched"

definition outstanding :: "string \<Rightarrow> wop_owner \<Rightarrow> wop_slot option" where
  "outstanding ident w = find (\<lambda>s. slot_outstanding s \<and> sl_id s = ident) (ow_operations w)"

definition set_slot :: "nat \<Rightarrow> wop_slot \<Rightarrow> wop_owner \<Rightarrow> wop_owner" where
  "set_slot i s w = w\<lparr>ow_operations := (ow_operations w)[i := s]\<rparr>"

definition release_slot :: "nat \<Rightarrow> wop_owner \<Rightarrow> wop_owner" where
  "release_slot i w = (let s = ow_operations w ! i in
     (set_slot i (s\<lparr>sl_state := SlotFree, sl_id := []\<rparr>) w)\<lparr>ow_occupied := sub64 (ow_occupied w) 1\<rparr>)"

definition owner_retire :: "owner_env \<Rightarrow> nat \<Rightarrow> bool \<Rightarrow> wop_owner \<Rightarrow> wop_owner" where
  "owner_retire env i cancel_protocol w =
     (let s = ow_operations w ! i; dispatched = sl_state s = SlotDispatched;
        w1 = (if dispatched \<and> cancel_protocol then log_event (ServiceCancel (sl_sequence s)) w else w);
        w2 = log_event (ServiceRetire (sl_sequence s)) w1
      in if dispatched \<and> \<not> en_released env (length (ow_log w2)) s
         then set_slot i (s\<lparr>sl_state := SlotAbandoned, sl_id := []\<rparr>) w2
         else release_slot i w2)"

text \<open>
  The search for a handle no slot uses.  It ends after at most one more turn than there are slots, which
  is the number of turns given here.
\<close>

definition handle_used :: "nat \<Rightarrow> wop_owner \<Rightarrow> bool" where
  "handle_used h w = list_ex (\<lambda>s. sl_state s \<noteq> SlotFree \<and> sl_handle s = h) (ow_operations w)"

definition handle_after :: "nat \<Rightarrow> nat" where
  "handle_after h = (if h = owner_maximum_handle then 1 else h + 1)"

fun handle_search :: "nat \<Rightarrow> wop_owner \<Rightarrow> (nat \<times> wop_owner) option" where
  "handle_search 0 w = None"
| "handle_search (Suc n) w =
     (let h = ow_next_handle w; w' = w\<lparr>ow_next_handle := handle_after h\<rparr> in
      if handle_used h w then handle_search n w' else Some (h, w'))"

definition next_handle :: "wop_owner \<Rightarrow> nat \<times> wop_owner" where
  "next_handle w = the (handle_search (owner_operations + 1) w)"

definition owner_deadline :: "ipc_request \<Rightarrow> int \<Rightarrow> int" where
  "owner_deadline q now = (if nat ((iq_deadline_ms q - now) mod 2 ^ 64) > iq_timeout_ms q then now + int (iq_timeout_ms q)
     else iq_deadline_ms q)"

section \<open>Requests\<close>

definition handle_open :: "owner_env \<Rightarrow> ipc_request \<Rightarrow> yyval option \<Rightarrow> int \<Rightarrow> wop_owner \<Rightarrow> wop_owner" where
  "handle_open env q p now w =
     (if ow_session w \<noteq> OwnerIdle \<or> \<not> wop_ipc_open p then terminal_code ''invalid_request'' ''validation'' w
      else if now \<ge> iq_deadline_ms q then terminal_code ''deadline_exceeded'' ''admission'' w
      else let limit = owner_deadline q now; w1 = log_event ServiceOpen w in
        (case en_open env p limit (failure_of ''certificate_invalid'' ''opening'' False) of (ok, f) \<Rightarrow>
           if \<not> ok then owner_terminal f w1
           else w1\<lparr>ow_open_id := iq_id q, ow_open_deadline_ms := limit, ow_session := OwnerOpening\<rparr>))"

definition retire_outstanding :: "owner_env \<Rightarrow> wop_owner \<Rightarrow> wop_owner" where
  "retire_outstanding env w =
     fold (\<lambda>i w. if slot_outstanding (ow_operations w ! i) then owner_retire env i False w else w) [0..<owner_operations] w"

definition release_abandoned :: "owner_env \<Rightarrow> wop_owner \<Rightarrow> wop_owner" where
  "release_abandoned env w =
     fold (\<lambda>i w. if sl_state (ow_operations w ! i) = SlotAbandoned \<and>
                    en_released env (length (ow_log w)) (ow_operations w ! i)
                 then release_slot i w else w) [0..<owner_operations] w"

definition handle_close :: "owner_env \<Rightarrow> ipc_request \<Rightarrow> yyval option \<Rightarrow> int \<Rightarrow> wop_owner \<Rightarrow> wop_owner" where
  "handle_close env q p now w =
     (if p \<noteq> Some (YObj []) then terminal_code ''invalid_request'' ''validation'' w
      else if now \<ge> iq_deadline_ms q then terminal_code ''deadline_exceeded'' ''admission'' w
      else let w1 = retire_outstanding env w; live = (ow_session w1 = OwnerOpening \<or> ow_session w1 = OwnerOpen);
          w2 = (if live then log_event ServiceClose w1 else w1); released = (\<not> live \<or> en_close env);
          w3 = release_abandoned env (w2\<lparr>ow_session := OwnerClosed\<rparr>)
        in if \<not> released then terminal_code ''cleanup_failed'' ''cleanup'' w3
           else let w4 = reply_success env (iq_id q) (if en_document env 0 then Some YNull else None) False w3 in
             if ow_finished w4 then w4 else w4\<lparr>ow_finished := True, ow_status := 0\<rparr>)"

definition handle_cancel :: "owner_env \<Rightarrow> ipc_request \<Rightarrow> yyval option \<Rightarrow> int \<Rightarrow> wop_owner \<Rightarrow> wop_owner" where
  "handle_cancel env q p now w =
     (let target = (case p of Some v \<Rightarrow> yy_get v ''target_id'' | None \<Rightarrow> None) in
      if \<not> (case p of Some v \<Rightarrow> yy_is_obj v \<and> yy_size v = 1 | None \<Rightarrow> False) \<or> \<not> ascii_id target
      then terminal_code ''invalid_request'' ''validation'' w
      else if now \<ge> iq_deadline_ms q
      then reply_failure env (iq_id q) (failure_of ''deadline_exceeded'' ''admission'' False) w
      else let target_id = ipc_text target;
          w1 = (case outstanding target_id w of None \<Rightarrow> w
            | Some s \<Rightarrow> let dispatched = sl_state s = SlotDispatched in
                reply_failure env target_id (failure_of ''canceled'' (if dispatched then ''exchange'' else ''admission'')
                  (dispatched \<and> kind_mutation (sl_kind s))) (owner_retire env (sl_index s) True w))
        in if outstanding target_id w \<noteq> None \<and> ow_finished w1 then w1
           else reply_success env (iq_id q)
             (if en_document env 0
              then Some (YObj [(''target_id'', YStr target_id), (''canceled'', YBool (outstanding target_id w \<noteq> None))])
              else None) False w1)"

definition handle_operation ::
  "owner_env \<Rightarrow> opcua_operation_kind \<Rightarrow> ipc_request \<Rightarrow> yyval option \<Rightarrow> int \<Rightarrow> wop_owner \<Rightarrow> wop_owner" where
  "handle_operation env kind q p now w =
     (if ow_session w \<noteq> OwnerOpen then reply_failure env (iq_id q) (failure_of ''invalid_request'' ''validation'' False) w
      else if now \<ge> iq_deadline_ms q
      then reply_failure env (iq_id q) (failure_of ''deadline_exceeded'' ''admission'' False) w
      else if ow_occupied w = owner_operations
      then reply_failure env (iq_id q) (failure_of ''busy'' ''admission'' False) w
      else case find (\<lambda>s. sl_state s = SlotFree) (ow_operations w) of
          None \<Rightarrow> w\<lparr>ow_undefined := True\<rparr>
        | Some s \<Rightarrow>
          let (h, w1) = next_handle w;
            s1 = s\<lparr>sl_kind := kind, sl_id := iq_id q, sl_deadline_ms := owner_deadline q now, sl_handle := h\<rparr>
          in (case en_prepare env s1 p (failure_of ''invalid_value'' ''validation'' False) of (ok, f) \<Rightarrow>
             if \<not> ok then reply_failure env (iq_id q) f (set_slot (sl_index s) (s1\<lparr>sl_id := []\<rparr>) w1)
             else let n = add64 (ow_next_sequence w1) 1 in
               (set_slot (sl_index s) (s1\<lparr>sl_sequence := n, sl_state := SlotQueued\<rparr>) w1)
                 \<lparr>ow_next_sequence := n, ow_occupied := add64 (ow_occupied w1) 1\<rparr>))"

definition text_is :: "yyval option \<Rightarrow> string \<Rightarrow> bool" where
  "text_is v literal \<longleftrightarrow> v = Some (YStr literal)"

text \<open>The loop over the names of the operations; the flag is \<open>admitted\<close>.\<close>

definition handle_named ::
  "owner_env \<Rightarrow> yyval option \<Rightarrow> ipc_request \<Rightarrow> yyval option \<Rightarrow> int \<Rightarrow> wop_owner \<Rightarrow> bool \<times> wop_owner" where
  "handle_named env name q p now w =
     fold (\<lambda>i (admitted, w). if text_is name (owner_operation_names ! i)
             then (True, handle_operation env (owner_operation_kinds ! i) q p now w) else (admitted, w))
       [0..<length owner_operation_names] (False, w)"

definition handle_request :: "owner_env \<Rightarrow> yyval \<Rightarrow> ipc_request \<Rightarrow> wop_owner \<Rightarrow> wop_owner" where
  "handle_request env root q w =
     (let name = yy_get root ''operation''; p = yy_get root ''parameters''; now = en_clock env 0 in
      if now < 0 then terminal_code ''deadline_exceeded'' ''admission'' w
      else if text_is name ''open'' then handle_open env q p now w
      else if text_is name ''close'' then handle_close env q p now w
      else if text_is name ''cancel'' then handle_cancel env q p now w
      else case handle_named env name q p now w of (admitted, w') \<Rightarrow>
        if admitted then w'
        else reply_failure env (iq_id q) (failure_of ''unsupported_protocol'' ''validation'' False) w')"

definition handle_line :: "owner_env \<Rightarrow> string \<Rightarrow> wop_owner \<Rightarrow> wop_owner" where
  "handle_line env line w =
     (case wop_json_read (en_parse env) (en_double env) line of
        (OpcuaJsonOk, Some root) \<Rightarrow>
          if yy_is_obj root \<and> yy_get root ''event'' \<noteq> None
          then (case wop_ipc_credit root of
              None \<Rightarrow> terminal_code ''invalid_request'' ''validation'' w
            | Some c \<Rightarrow> (case wop_output_credit c (ow_output w) of (r, out) \<Rightarrow>
                if r = OutputOk then w\<lparr>ow_output := out\<rparr>
                else terminal_code ''invalid_request'' ''validation'' (w\<lparr>ow_output := out\<rparr>)))
          else (case wop_ipc_request root of
              None \<Rightarrow> terminal_code ''invalid_request'' ''validation'' w
            | Some q \<Rightarrow>
                if wo_generation (ow_output w) = 0 \<or> iq_generation q \<noteq> wo_generation (ow_output w) \<or>
                   outstanding (iq_id q) w \<noteq> None \<or> ow_session w = OwnerOpening \<and> ow_open_id w = iq_id q
                then terminal_code ''invalid_request'' ''validation'' w
                else handle_request env root q (log_event (Admitted (iq_id q)) w))
      | _ \<Rightarrow> terminal_code ''invalid_request'' ''validation'' w)"

lemma feed_frame_consumes: "wop_ipc_feed held bytes = (IpcFrame, n, held') \<Longrightarrow> 0 < n"
proof -
  have "0 < n" if "ipc_feed_loop h k bs = (IpcFrame, n, h')" for h k bs h'
    using that by (induction h k bs rule: ipc_feed_loop.induct) (auto split: if_splits)
  then show "wop_ipc_feed held bytes = (IpcFrame, n, held') \<Longrightarrow> 0 < n"
    by (auto simp: wop_ipc_feed_def split: if_splits)
qed

text \<open>The loop over the lines of an input; the environment of a line is given by the input left before it.\<close>

function wop_owner_input :: "(nat \<Rightarrow> owner_env) \<Rightarrow> string \<Rightarrow> wop_owner \<Rightarrow> wop_owner" where
  "wop_owner_input env bytes w =
     (if bytes = [] \<or> ow_finished w then w
      else case wop_ipc_feed (ow_input w) bytes of (framed, consumed, held) \<Rightarrow>
        let w1 = w\<lparr>ow_input := held\<rparr> in
        if framed = IpcMore then w1
        else if framed \<noteq> IpcFrame
        then terminal_code (if framed = IpcLimit then ''response_limit'' else ''invalid_request'') ''validation'' w1
        else wop_owner_input env (drop consumed bytes) ((handle_line (env (length bytes)) held w1)\<lparr>ow_input := []\<rparr>))"
  by pat_completeness auto
termination
  by (relation "measure (\<lambda>(env, bytes, w). length bytes)") (auto dest: feed_frame_consumes [OF sym])

definition wop_owner_eof :: "wop_owner \<Rightarrow> wop_owner" where
  "wop_owner_eof w =
     (if ow_finished w then w
      else if ow_input w \<noteq> [] then terminal_code ''invalid_request'' ''validation'' w
      else w\<lparr>ow_finished := True, ow_status := 0\<rparr>)"

section \<open>Ticks\<close>

definition oldest_queued :: "wop_owner \<Rightarrow> wop_slot option" where
  "oldest_queued w =
     fold (\<lambda>s selected. if sl_state s = SlotQueued \<and> (case selected of None \<Rightarrow> True | Some t \<Rightarrow> sl_sequence s < sl_sequence t)
             then Some s else selected) (ow_operations w) None"

definition open_tick :: "owner_env \<Rightarrow> int \<Rightarrow> wop_owner \<Rightarrow> wop_owner" where
  "open_tick env now w =
     (if now \<ge> ow_open_deadline_ms w then terminal_code ''deadline_exceeded'' ''opening'' w
      else case en_step env (failure_of ''invalid_response'' ''opening'' False) of (ok, f) \<Rightarrow>
        if \<not> ok then owner_terminal f w
        else if \<not> en_document env 0 then terminal_code ''invalid_response'' ''opening'' w
        else case en_opened env f of (completion, result, f') \<Rightarrow>
          if completion = CompletionSuccess
          then if en_document env 1
            then reply_success env (ow_open_id w)
              (Some (YObj (result @ [(''session_generation'', YRaw (to_decimal (wo_generation (ow_output w))))]))) False
              (w\<lparr>ow_session := OwnerOpen\<rparr>)
            else terminal_code ''invalid_response'' ''opening'' w
          else if completion \<noteq> CompletionPending then owner_terminal f' w else w)"

text \<open>One turn of the dispatch loop, for the oldest queued slot.\<close>

definition dispatch_slot :: "owner_env \<Rightarrow> int \<Rightarrow> wop_slot \<Rightarrow> wop_owner \<Rightarrow> wop_owner" where
  "dispatch_slot env now s w =
     (if now \<ge> sl_deadline_ms s
      then reply_failure env (sl_id s) (failure_of ''deadline_exceeded'' ''admission'' False)
        (owner_retire env (sl_index s) False w)
      else let remaining = nat (sl_deadline_ms s - now); w1 = log_event (ServiceDispatch (sl_sequence s)) w in
        case en_dispatch env s (if remaining > 4294967295 then 4294967295 else remaining)
            (failure_of ''connection_failed'' ''admission'' (kind_mutation (sl_kind s))) of (ok, f) \<Rightarrow>
          if ok then set_slot (sl_index s) (s\<lparr>sl_state := SlotDispatched\<rparr>) w1
          else reply_failure env (sl_id s) f (owner_retire env (sl_index s) False w1))"

text \<open>
  The dispatch loop runs until no slot is queued; each turn takes one slot out of the queue, so 64 turns are
  enough (\<open>dispatch_queued_done\<close>).
\<close>

fun dispatch_loop :: "nat \<Rightarrow> owner_env \<Rightarrow> int \<Rightarrow> wop_owner \<Rightarrow> wop_owner" where
  "dispatch_loop 0 env now w = w"
| "dispatch_loop (Suc n) env now w =
     (if ow_finished w then w
      else case oldest_queued w of None \<Rightarrow> w
        | Some s \<Rightarrow> dispatch_loop n env now (dispatch_slot env now s w))"

definition dispatch_queued :: "owner_env \<Rightarrow> int \<Rightarrow> wop_owner \<Rightarrow> wop_owner" where
  "dispatch_queued = dispatch_loop owner_operations"

definition complete_slot :: "owner_env \<Rightarrow> int \<Rightarrow> nat \<Rightarrow> wop_owner \<Rightarrow> wop_owner" where
  "complete_slot env now i w =
     (let s = ow_operations w ! i in
      if sl_state s = SlotAbandoned
      then (if en_released env (length (ow_log w)) s then release_slot i w else w)
      else if sl_state s \<noteq> SlotDispatched then w
      else if \<not> en_document env i then terminal_code ''receiver_overflow'' ''exchange'' w
      else case en_complete env s (failure_of ''invalid_response'' ''decode'' (kind_mutation (sl_kind s))) of
        (completion, result, f) \<Rightarrow>
          (case completion of
             CompletionSuccess \<Rightarrow> owner_retire env i False (reply_success env (sl_id s) result (kind_mutation (sl_kind s)) w)
           | CompletionFailure \<Rightarrow> owner_retire env i False (reply_failure env (sl_id s) f w)
           | CompletionTerminal \<Rightarrow> owner_terminal f w
           | CompletionPending \<Rightarrow>
               if now \<ge> sl_deadline_ms s
               then reply_failure env (sl_id s)
                 (failure_of ''deadline_exceeded'' ''exchange'' (kind_mutation (sl_kind s))) (owner_retire env i True w)
               else w))"

fun complete_loop :: "owner_env \<Rightarrow> int \<Rightarrow> nat list \<Rightarrow> wop_owner \<Rightarrow> wop_owner" where
  "complete_loop env now [] w = w"
| "complete_loop env now (i # is) w = (if ow_finished w then w else complete_loop env now is (complete_slot env now i w))"

definition complete_dispatched :: "owner_env \<Rightarrow> int \<Rightarrow> wop_owner \<Rightarrow> wop_owner" where
  "complete_dispatched env now = complete_loop env now [0..<owner_operations]"

fun report_loop :: "owner_env \<Rightarrow> nat \<Rightarrow> report_answer list \<Rightarrow> wop_owner \<Rightarrow> wop_owner" where
  "report_loop env n answers w =
     (if \<not> en_document env n then terminal_code ''receiver_overflow'' ''exchange'' w
      else case answers of
          [] \<Rightarrow> w
        | ReportFailed f # _ \<Rightarrow> owner_terminal f w
        | ReportDocument m # rest \<Rightarrow>
            (case owner_emit env (YObj ([(''version'', YRaw ''1''), (''generation'', YRaw (to_decimal (wo_generation (ow_output w))))] @ m)) w of
               (r, w') \<Rightarrow> if r \<noteq> EmitOk then terminal_code ''receiver_overflow'' ''exchange'' w'
                          else report_loop env (n + 1) rest w'))"

definition emit_reports :: "owner_env \<Rightarrow> wop_owner \<Rightarrow> wop_owner" where
  "emit_reports env w = (case en_reports env of None \<Rightarrow> w | Some answers \<Rightarrow> report_loop env owner_operations answers w)"

definition wop_owner_tick :: "owner_env \<Rightarrow> wop_owner \<Rightarrow> wop_owner" where
  "wop_owner_tick env w =
     (let now = en_clock env 0 in
      if ow_finished w then w
      else if now < 0 then terminal_code ''deadline_exceeded'' ''exchange'' w
      else if ow_session w = OwnerOpening then open_tick env now w
      else if ow_session w \<noteq> OwnerOpen then w
      else let w1 = dispatch_queued env now w in
        if ow_finished w1 then w1
        else case en_step env (failure_of ''connection_failed'' ''exchange'' False) of (ok, f) \<Rightarrow>
          if \<not> ok then owner_terminal f w1
          else let now' = en_clock env 1 in
            if now' < 0 then terminal_code ''deadline_exceeded'' ''exchange'' w1
            else let w2 = complete_dispatched env now' w1 in if ow_finished w2 then w2 else emit_reports env w2)"

definition wop_owner_shutdown :: "owner_env \<Rightarrow> wop_owner \<Rightarrow> wop_owner" where
  "wop_owner_shutdown env w =
     (let w1 = retire_outstanding env w;
        w2 = (if ow_session w1 = OwnerOpening \<or> ow_session w1 = OwnerOpen then log_event ServiceClose w1 else w1)
      in w2\<lparr>ow_session := OwnerClosed\<rparr>)"

definition ready_line :: "string \<Rightarrow> int \<Rightarrow> string" where
  "ready_line revision clock_ms =
     ''{\"version\":1,\"event\":\"ready\",\"backend\":\"open62541\",\"revision\":\"'' @ revision @ ''\",\"clock_ms\":'' @
     to_decimal (nat clock_ms) @ ''}'' @ [CHR 0x0A]"

text \<open>The text of a negative time is never used: it is refused.\<close>

definition wop_owner_ready :: "string \<Rightarrow> int \<Rightarrow> wop_owner \<Rightarrow> bool \<times> wop_owner" where
  "wop_owner_ready revision clock_ms w =
     (if \<not> (clock_ms \<ge> 0 \<and> length (ready_line revision clock_ms) < 256) then (False, w)
      else case wop_output_control (ready_line revision clock_ms) False (ow_output w) of
        (r, out) \<Rightarrow> (r = OutputOk, w\<lparr>ow_output := out\<rparr>))"

section \<open>The process\<close>

text \<open>
  The loop of \<open>main.c\<close>.  One turn has the answers of the environment for that turn: those of the tick, of the
  three flushes of the output, of \<open>poll\<close> and of \<open>read\<close>.
\<close>

datatype read_answer = ReadRetry | ReadFailed | ReadEnd | ReadBytes string

datatype poll_answer = PollInterrupted | PollFailed | Polled bool bool

record owner_turn =
  tu_tick :: owner_env
  tu_flush :: "write_result list"
  tu_poll :: poll_answer
  tu_flush_poll :: "write_result list"
  tu_read :: read_answer
  tu_lines :: "nat \<Rightarrow> owner_env"
  tu_flush_read :: "write_result list"

datatype drain_answer = DrainInterrupted | DrainFailed | DrainReady "write_result list"

definition flush_owner :: "write_result list \<Rightarrow> wop_owner \<Rightarrow> bool \<times> wop_owner" where
  "flush_owner as w = (case wop_output_flush as (ow_output w) of (r, wr, st, out) \<Rightarrow> (r = OutputOk, w\<lparr>ow_output := out\<rparr>))"

text \<open>The answers of \<open>poll\<close> until the deadline of the drain; the list ends where it passes.\<close>

fun drain_output :: "drain_answer list \<Rightarrow> wop_owner \<Rightarrow> wop_owner" where
  "drain_output [] w = w"
| "drain_output (a # as) w =
     (if \<not> (\<not> wop_output_drained (ow_output w) \<and> wop_output_writable (ow_output w)) then w
      else case a of
          DrainInterrupted \<Rightarrow> drain_output as w
        | DrainFailed \<Rightarrow> w
        | DrainReady wr \<Rightarrow> (case flush_owner wr w of (ok, w') \<Rightarrow> if ok then drain_output as w' else w'))"

text \<open>How a turn leaves the loop: with the status of the owner, or with 70.\<close>

datatype turn_exit = TurnContinue | TurnBreak | TurnDone

definition bootstrap_turn :: "owner_turn \<Rightarrow> wop_owner \<Rightarrow> turn_exit \<times> wop_owner" where
  "bootstrap_turn t w =
     (case flush_owner (tu_flush t) (wop_owner_tick (tu_tick t) w) of (ok, w1) \<Rightarrow>
        if \<not> ok then (TurnDone, w1)
        else if ow_finished w1 then (TurnBreak, w1)
        else case tu_poll t of
            PollInterrupted \<Rightarrow> (TurnContinue, w1)
          | PollFailed \<Rightarrow> (TurnDone, w1)
          | Polled writable readable \<Rightarrow>
              (case (if writable then flush_owner (tu_flush_poll t) w1 else (True, w1)) of (ok, w2) \<Rightarrow>
                 if \<not> ok then (TurnDone, w2)
                 else if \<not> readable \<or> tu_read t = ReadRetry then (TurnContinue, w2)
                 else if tu_read t = ReadFailed then (TurnDone, w2)
                 else (case flush_owner (tu_flush_read t)
                     (case tu_read t of ReadBytes bytes \<Rightarrow> wop_owner_input (tu_lines t) bytes w2 | _ \<Rightarrow> wop_owner_eof w2) of
                   (ok, w3) \<Rightarrow> (if ok then TurnContinue else TurnDone, w3))))"

text \<open>\<open>None\<close> where the turns end before the loop does.\<close>

fun bootstrap_loop :: "owner_turn list \<Rightarrow> wop_owner \<Rightarrow> nat option \<times> wop_owner" where
  "bootstrap_loop [] w = (None, w)"
| "bootstrap_loop (t # ts) w =
     (case bootstrap_turn t w of
        (TurnContinue, w') \<Rightarrow> bootstrap_loop ts w'
      | (TurnBreak, w') \<Rightarrow> (Some (ow_status w'), w')
      | (TurnDone, w') \<Rightarrow> (Some 70, w'))"

definition bootstrap_start :: "string \<Rightarrow> int \<Rightarrow> write_result list \<Rightarrow> bool \<times> wop_owner" where
  "bootstrap_start revision now as =
     (case wop_owner_ready revision now (wop_owner_init True) of (ok, w) \<Rightarrow>
        if ok then flush_owner as w else (False, w))"

definition bootstrap ::
  "string \<Rightarrow> int \<Rightarrow> write_result list \<Rightarrow> owner_turn list \<Rightarrow> drain_answer list \<Rightarrow> owner_env \<Rightarrow> drain_answer list \<Rightarrow>
   nat option \<times> wop_owner" where
  "bootstrap revision now as ts before env after =
     (case (case bootstrap_start revision now as of (ok, w) \<Rightarrow> if ok then bootstrap_loop ts w else (Some 70, w)) of
        (status, w) \<Rightarrow>
          if status = None then (None, w)
          else (status, drain_output after (wop_owner_shutdown env (drain_output before w))))"

section \<open>Handles\<close>

lemma handle_after_range: "1 \<le> h \<Longrightarrow> h \<le> owner_maximum_handle \<Longrightarrow> 1 \<le> handle_after h \<and> handle_after h \<le> owner_maximum_handle"
  by (auto simp: handle_after_def)

lemma handle_after_funpow:
  "1 \<le> h \<Longrightarrow> h \<le> owner_maximum_handle \<Longrightarrow> (handle_after ^^ i) h = (h - 1 + i) mod owner_maximum_handle + 1"
proof (induction i)
  case 0
  then show ?case by (cases h) (auto simp: owner_maximum_handle_def)
next
  case (Suc i)
  let ?m = "(h - 1 + i) mod owner_maximum_handle"
  have "?m < owner_maximum_handle" by (simp add: owner_maximum_handle_def)
  moreover have "Suc (h - 1 + i) mod owner_maximum_handle = (if Suc ?m = owner_maximum_handle then 0 else Suc ?m)"
    by (simp add: mod_Suc)
  ultimately show ?case using Suc by (simp add: handle_after_def)
qed

lemma handle_search_None:
  "handle_search n w = None \<Longrightarrow> i < n \<Longrightarrow> handle_used ((handle_after ^^ i) (ow_next_handle w)) w"
proof (induction n arbitrary: w i)
  case (Suc n)
  let ?w = "w\<lparr>ow_next_handle := handle_after (ow_next_handle w)\<rparr>"
  have used: "handle_used (ow_next_handle w) w" and rec: "handle_search n ?w = None"
    using Suc.prems(1) by (auto simp: Let_def split: if_splits)
  show ?case
  proof (cases i)
    case (Suc j)
    then have "handle_used ((handle_after ^^ j) (ow_next_handle ?w)) ?w" using Suc.IH [OF rec, of j] Suc.prems(2) by simp
    then show ?thesis using Suc by (simp add: handle_used_def funpow_Suc_right del: funpow.simps)
  qed (use used in simp)
qed simp

lemma handle_search_Some:
  "handle_search n w = Some (h, w') \<Longrightarrow> 1 \<le> ow_next_handle w \<Longrightarrow> ow_next_handle w \<le> owner_maximum_handle \<Longrightarrow>
   \<not> handle_used h w \<and> (\<exists>k. w' = w\<lparr>ow_next_handle := k\<rparr> \<and> 1 \<le> k \<and> k \<le> owner_maximum_handle)"
proof (induction n arbitrary: w)
  case (Suc n)
  let ?w = "w\<lparr>ow_next_handle := handle_after (ow_next_handle w)\<rparr>"
  note range = handle_after_range [OF Suc.prems(2,3)]
  show ?case
  proof (cases "handle_used (ow_next_handle w) w")
    case True
    then have "handle_search n ?w = Some (h, w')" using Suc.prems(1) by (simp add: Let_def)
    from Suc.IH [OF this] range show ?thesis by (auto simp: handle_used_def)
  next
    case False
    then show ?thesis using Suc.prems(1) range by (auto simp: Let_def)
  qed
qed simp

text \<open>The search always ends: 65 candidates are distinct, and at most 64 are in use.\<close>

lemma next_handle_fresh:
  assumes len: "length (ow_operations w) = owner_operations"
    and range: "1 \<le> ow_next_handle w" "ow_next_handle w \<le> owner_maximum_handle"
  shows "\<exists>h k. next_handle w = (h, w\<lparr>ow_next_handle := k\<rparr>) \<and> \<not> handle_used h w \<and> 1 \<le> k \<and> k \<le> owner_maximum_handle"
proof (cases "handle_search (owner_operations + 1) w")
  case (Some p)
  obtain h w' where p: "p = (h, w')" by (cases p)
  have "next_handle w = (h, w')" using Some p by (simp add: next_handle_def)
  then show ?thesis using handle_search_Some [OF Some [unfolded p] range] by auto
next
  case None
  let ?f = "\<lambda>i. (handle_after ^^ i) (ow_next_handle w)"
  have sub: "?f ` {0..<owner_operations + 1} \<subseteq> sl_handle ` set (ow_operations w)"
  proof (rule image_subsetI)
    fix i assume "i \<in> {0..<owner_operations + 1}"
    then have "handle_used (?f i) w" using handle_search_None [OF None] by simp
    then obtain s where "s \<in> set (ow_operations w)" "sl_handle s = ?f i" by (auto simp: handle_used_def list_ex_iff)
    then show "?f i \<in> sl_handle ` set (ow_operations w)" by (metis imageI)
  qed
  have "inj_on ?f {0..<owner_operations + 1}"
  proof (rule inj_onI)
    fix i j assume "i \<in> {0..<owner_operations + 1}" "j \<in> {0..<owner_operations + 1}" "?f i = ?f j"
    then show "i = j"
      using range mod_shift_inj [of i owner_maximum_handle j "ow_next_handle w - 1"]
      by (simp add: handle_after_funpow owner_maximum_handle_def owner_operations_def)
  qed
  then have "owner_operations + 1 = card (?f ` {0..<owner_operations + 1})" by (simp add: card_image)
  also have "\<dots> \<le> card (sl_handle ` set (ow_operations w))" by (rule card_mono [OF _ sub]) simp
  also have "\<dots> \<le> owner_operations"
    using len card_image_le [of "set (ow_operations w)" sl_handle] card_length [of "ow_operations w"] by simp
  finally show ?thesis by simp
qed

section \<open>The invariant\<close>

definition admissions :: "string \<Rightarrow> wop_owner \<Rightarrow> nat" where
  "admissions ident w = count_list (ow_log w) (Admitted ident)"

definition replies :: "string \<Rightarrow> wop_owner \<Rightarrow> nat" where
  "replies ident w = count_list (ow_log w) (Replied ident True) + count_list (ow_log w) (Replied ident False)"

definition unanswered :: "string \<Rightarrow> wop_owner \<Rightarrow> nat" where
  "unanswered ident w = length (filter (\<lambda>s. slot_outstanding s \<and> sl_id s = ident) (ow_operations w)) +
     (if ow_session w = OwnerOpening \<and> ow_open_id w = ident then 1 else 0)"

definition slots_ok :: "wop_slot list \<Rightarrow> bool" where
  "slots_ok ss \<longleftrightarrow> length ss = owner_operations \<and> (\<forall>i < owner_operations. sl_index (ss ! i) = i) \<and>
     (\<forall>i < owner_operations. \<forall>j < owner_operations. i \<noteq> j \<longrightarrow> sl_state (ss ! i) \<noteq> SlotFree \<longrightarrow>
        sl_state (ss ! j) \<noteq> SlotFree \<longrightarrow> sl_handle (ss ! i) \<noteq> sl_handle (ss ! j))"

definition output_ok :: "wop_output \<Rightarrow> bool" where
  "output_ok out \<longleftrightarrow> wop_output_inv out \<and> (wo_generation out = 0 \<longrightarrow>
     wo_credit_messages out + wo_used_messages out = 0 \<and> wo_credit_bytes out + wo_used_bytes out = 0)"

definition owner_ok :: "wop_owner \<Rightarrow> bool" where
  "owner_ok w \<longleftrightarrow> slots_ok (ow_operations w) \<and>
     ow_occupied w = length (filter (\<lambda>s. sl_state s \<noteq> SlotFree) (ow_operations w)) \<and>
     output_ok (ow_output w) \<and> 1 \<le> ow_next_handle w \<and> ow_next_handle w \<le> owner_maximum_handle \<and> \<not> ow_undefined w"

text \<open>
  The balance of requests and answers up to a debt: \<open>d\<close> is how many answers the requests of an identifier
  are owed beyond the slots and the opening that stand for one.
\<close>

definition owes :: "(string \<Rightarrow> int) \<Rightarrow> wop_owner \<Rightarrow> bool" where
  "owes d w \<longleftrightarrow> owner_ok w \<and> (\<forall>ident. replies ident w \<le> admissions ident w) \<and>
     (\<not> ow_finished w \<longrightarrow>
        (\<forall>ident. int (admissions ident w) = int (replies ident w) + int (unanswered ident w) + d ident))"

definition no_debt :: "string \<Rightarrow> int" where
  "no_debt = (\<lambda>_. 0)"

lemma filter_update_count:
  "i < length xs \<Longrightarrow> length (filter P (xs[i := y])) + (if P (xs ! i) then 1 else 0) = length (filter P xs) + (if P y then 1 else 0)"
proof (induction xs arbitrary: i)
  case (Cons x xs)
  then show ?case by (cases i) auto
qed simp

lemma admissions_log [simp]: "admissions ident (log_event e w) = admissions ident w + (if e = Admitted ident then 1 else 0)"
  by (simp add: admissions_def log_event_def)

lemma replies_log [simp]: "replies ident (log_event e w) = replies ident w + (if \<exists>ok. e = Replied ident ok then 1 else 0)"
  by (cases e) (auto simp: replies_def log_event_def)

lemma log_event_fields [simp]:
  "ow_operations (log_event e w) = ow_operations w" "ow_output (log_event e w) = ow_output w"
  "ow_occupied (log_event e w) = ow_occupied w" "ow_next_handle (log_event e w) = ow_next_handle w"
  "ow_session (log_event e w) = ow_session w" "ow_open_id (log_event e w) = ow_open_id w"
  "ow_finished (log_event e w) = ow_finished w" "ow_undefined (log_event e w) = ow_undefined w"
  "ow_descriptor (log_event e w) = ow_descriptor w" "ow_input (log_event e w) = ow_input w"
  by (simp_all add: log_event_def)

lemma unanswered_log [simp]: "unanswered ident (log_event e w) = unanswered ident w"
  by (simp add: unanswered_def)

lemma owner_ok_log [simp]: "owner_ok (log_event e w) = owner_ok w"
  by (simp add: owner_ok_def)

text \<open>Two states that differ only in their output and in fields no count depends on.\<close>

definition same_work :: "wop_owner \<Rightarrow> wop_owner \<Rightarrow> bool" where
  "same_work w w' \<longleftrightarrow> ow_operations w' = ow_operations w \<and> ow_occupied w' = ow_occupied w \<and>
     ow_next_handle w' = ow_next_handle w \<and> ow_undefined w' = ow_undefined w \<and> ow_log w' = ow_log w \<and>
     ow_session w' = ow_session w \<and> ow_open_id w' = ow_open_id w"

lemma same_work_counts:
  "same_work w w' \<Longrightarrow> admissions ident w' = admissions ident w \<and> replies ident w' = replies ident w \<and>
     unanswered ident w' = unanswered ident w"
  by (simp add: same_work_def admissions_def replies_def unanswered_def)

lemma same_work_ok: "same_work w w' \<Longrightarrow> owner_ok w \<Longrightarrow> output_ok (ow_output w') \<Longrightarrow> owner_ok w'"
  by (simp add: same_work_def owner_ok_def)

lemma owes_finished: "owes d w \<Longrightarrow> same_work w w' \<Longrightarrow> output_ok (ow_output w') \<Longrightarrow> ow_finished w' \<Longrightarrow> owes d' w'"
  using same_work_counts [of w w'] same_work_ok [of w w'] by (simp add: owes_def)

section \<open>Terminal and replies\<close>

lemma control_output_ok: "output_ok out \<Longrightarrow> output_ok (snd (wop_output_control line t out))"
proof -
  assume ok: "output_ok out"
  obtain r out' where ctl: "wop_output_control line t out = (r, out')" by (cases "wop_output_control line t out")
  show ?thesis
  proof (cases "r = OutputOk")
    case True
    have inv: "wop_output_inv out" using ok by (simp add: output_ok_def)
    show ?thesis using ok control_effect [OF inv ctl [unfolded True]] by (simp add: output_ok_def ctl)
  next
    case False
    then show ?thesis using ok ctl control_refused [OF ctl] by simp
  qed
qed

lemma owner_terminal_owes:
  assumes "owes d w"
  shows "owes d' (owner_terminal f w) \<and> ow_finished (owner_terminal f w) \<and> same_work w (owner_terminal f w)"
proof (cases "ow_finished w")
  case True
  then show ?thesis using assms by (simp add: owner_terminal_def owes_def same_work_def)
next
  case False
  have out: "output_ok (ow_output w)" using assms by (simp add: owes_def owner_ok_def)
  let ?w = "owner_terminal f w"
  have same: "same_work w ?w" and fin: "ow_finished ?w"
    using False by (simp_all add: owner_terminal_def same_work_def Let_def)
  have "output_ok (ow_output ?w)"
    using False out control_output_ok by (simp add: owner_terminal_def Let_def)
  then show ?thesis using owes_finished [OF assms same _ fin] same fin by blast
qed

lemma terminal_code_owes: "owes d w \<Longrightarrow> owes d' (terminal_code c p w) \<and> ow_finished (terminal_code c p w) \<and> same_work w (terminal_code c p w)"
  using owner_terminal_owes by (simp add: terminal_code_def)

lemma owner_emit_ok:
  assumes "output_ok (ow_output w)" "owner_emit env doc w = (r, w')"
  shows "same_work w w' \<and> output_ok (ow_output w') \<and> ow_finished w' = ow_finished w"
proof (cases "en_write env (length (ow_log w)) doc")
  case None
  then show ?thesis using assms by (auto simp: owner_emit_def same_work_def Let_def)
next
  case (Some t)
  let ?n = "length (ow_log w)"
  obtain s out where normal: "wop_output_normal (en_copy env ?n) (t @ [CHR 0x0A]) (ow_output w) = (s, out)"
    by (cases "wop_output_normal (en_copy env ?n) (t @ [CHR 0x0A]) (ow_output w)")
  have inv: "wop_output_inv (ow_output w)" using assms(1) by (simp add: output_ok_def)
  show ?thesis
  proof (cases "s = OutputOk")
    case True
    have out: "output_ok out"
      using normal_effect [OF inv normal [unfolded True]] assms(1) by (simp add: output_ok_def)
    obtain fr wr st out' where fl: "wop_output_flush (en_descriptor env ?n) out = (fr, wr, st, out')"
      by (cases "wop_output_flush (en_descriptor env ?n) out")
    have "output_ok out'"
      using flush_correct [OF fl] out by (auto simp: output_ok_def flush_effect_def session_kept_def)
    then show ?thesis
      using assms Some normal True fl out by (auto simp: owner_emit_def Let_def same_work_def split: if_splits)
  next
    case False
    then have "out = ow_output w" using normal_refused [OF normal] by simp
    then show ?thesis
      using assms Some normal False
      by (auto simp: owner_emit_def Let_def same_work_def split: if_splits opcua_output_status.splits)
  qed
qed

lemma owes_reply:
  assumes owes: "owes d w" and same: "same_work w w'" and out: "output_ok (ow_output w')"
    and fin: "\<not> ow_finished w" "\<not> ow_finished w'" and due: "replies ident w < admissions ident w"
  shows "owes (d(ident := d ident - 1)) (log_event (Replied ident ok) w')"
  using assms same_work_counts [OF same] same_work_ok [OF same _ out] by (auto simp: owes_def)

lemma reply_failure_owes:
  assumes owes: "owes d w" and fin: "\<not> ow_finished w" and due: "replies ident w < admissions ident w"
  shows "owes (d(ident := d ident - 1)) (reply_failure env ident f w)"
    and "ow_operations (reply_failure env ident f w) = ow_operations w"
    and "ow_session (reply_failure env ident f w) = ow_session w"
proof -
  obtain r w' where emit: "owner_emit env (failure_document w ident f) w = (r, w')"
    by (cases "owner_emit env (failure_document w ident f) w")
  have out: "output_ok (ow_output w)" using owes by (simp add: owes_def owner_ok_def)
  note e = owner_emit_ok [OF out emit]
  have owes': "owes d w'" using owes e same_work_counts [of w w'] same_work_ok [of w w'] by (simp add: owes_def)
  note t = terminal_code_owes [OF owes', of "d(ident := d ident - 1)" "''receiver_overflow''" "''exchange''"]
  show "owes (d(ident := d ident - 1)) (reply_failure env ident f w)"
    using owes_reply [OF owes, of w' ident] e fin due t emit by (auto simp: reply_failure_def)
  show "ow_operations (reply_failure env ident f w) = ow_operations w"
    and "ow_session (reply_failure env ident f w) = ow_session w"
    using e t emit by (auto simp: reply_failure_def same_work_def)
qed

lemma reply_success_owes:
  assumes owes: "owes d w" and fin: "\<not> ow_finished w" and due: "replies ident w < admissions ident w"
  shows "owes (d(ident := d ident - 1)) (reply_success env ident v u w)"
    and "ow_operations (reply_success env ident v u w) = ow_operations w"
    and "ow_session (reply_success env ident v u w) = ow_session w"
proof -
  have "owes (d(ident := d ident - 1)) (reply_success env ident v u w) \<and>
    ow_operations (reply_success env ident v u w) = ow_operations w \<and> ow_session (reply_success env ident v u w) = ow_session w"
  proof (cases v)
    case None
    then show ?thesis using terminal_code_owes [OF owes] by (simp add: reply_success_def same_work_def)
  next
    case (Some x)
    obtain r w' where emit: "owner_emit env (YObj (owner_envelope w ident True @ [(''result'', x)])) w = (r, w')"
      by (cases "owner_emit env (YObj (owner_envelope w ident True @ [(''result'', x)])) w")
    have out: "output_ok (ow_output w)" using owes by (simp add: owes_def owner_ok_def)
    note e = owner_emit_ok [OF out emit]
    have owes': "owes d w'" using owes e same_work_counts [of w w'] same_work_ok [of w w'] by (simp add: owes_def)
    have due': "replies ident w' < admissions ident w'" using due e same_work_counts [of w w'] by simp
    note t = terminal_code_owes [OF owes', of "d(ident := d ident - 1)" "''receiver_overflow''" "''exchange''"]
    note f = reply_failure_owes [OF owes' _ due', of env "failure_of ''response_limit'' ''decode'' u"]
    show ?thesis
      using owes_reply [OF owes, of w' ident] e fin due t f emit Some
      by (cases r) (auto simp: reply_success_def same_work_def)
  qed
  then show "owes (d(ident := d ident - 1)) (reply_success env ident v u w)"
    and "ow_operations (reply_success env ident v u w) = ow_operations w"
    and "ow_session (reply_success env ident v u w) = ow_session w"
    by blast+
qed

section \<open>Slots\<close>

lemma owner_ok_slot:
  assumes ok: "owner_ok w" and i: "i < owner_operations"
  shows "i < length (ow_operations w)" "sl_index (ow_operations w ! i) = i"
  using assms by (auto simp: owner_ok_def slots_ok_def)

lemma slots_ok_update:
  assumes "slots_ok ss" "i < owner_operations" "sl_index s = i"
    and "sl_state s = SlotFree \<or> (\<forall>j < owner_operations. j \<noteq> i \<longrightarrow> sl_state (ss ! j) \<noteq> SlotFree \<longrightarrow> sl_handle (ss ! j) \<noteq> sl_handle s)"
  shows "slots_ok (ss[i := s])"
  using assms by (auto simp: slots_ok_def nth_list_update)

lemma slots_ok_same_handle:
  assumes "slots_ok ss" "i < owner_operations" "sl_index s = i" "sl_state (ss ! i) \<noteq> SlotFree" "sl_handle s = sl_handle (ss ! i)"
  shows "slots_ok (ss[i := s])"
proof (rule slots_ok_update [OF assms(1-3)])
  show "sl_state s = SlotFree \<or> (\<forall>j < owner_operations. j \<noteq> i \<longrightarrow> sl_state (ss ! j) \<noteq> SlotFree \<longrightarrow> sl_handle (ss ! j) \<noteq> sl_handle s)"
    using assms by (metis slots_ok_def)
qed

definition slot_for :: "wop_slot \<Rightarrow> string \<Rightarrow> int" where
  "slot_for s ident = (if slot_outstanding s \<and> sl_id s = ident then 1 else 0)"

lemma unanswered_slot:
  assumes "i < length (ow_operations w)" "ow_operations w' = (ow_operations w)[i := s]" "ow_session w' = ow_session w"
    "ow_open_id w' = ow_open_id w"
  shows "int (unanswered ident w') + slot_for (ow_operations w ! i) ident = int (unanswered ident w) + slot_for s ident"
  using filter_update_count [OF assms(1), of "\<lambda>s. slot_outstanding s \<and> sl_id s = ident" s]
  unfolding unanswered_def assms(2-4) slot_for_def by auto

text \<open>A slot changes and the number of slots in use with it.\<close>

lemma owes_slot:
  assumes owes: "owes d w" and i: "i < owner_operations"
    and w': "ow_operations w' = (ow_operations w)[i := s]" "ow_output w' = ow_output w" "ow_session w' = ow_session w"
      "ow_open_id w' = ow_open_id w" "ow_finished w' = ow_finished w" "ow_undefined w' = ow_undefined w"
      "1 \<le> ow_next_handle w'" "ow_next_handle w' \<le> owner_maximum_handle"
    and log: "\<And>ident. admissions ident w' = admissions ident w" "\<And>ident. replies ident w' = replies ident w"
    and slots: "slots_ok ((ow_operations w)[i := s])"
    and occupied: "int (ow_occupied w') = int (ow_occupied w) + (if sl_state s \<noteq> SlotFree then 1 else 0) -
      (if sl_state (ow_operations w ! i) \<noteq> SlotFree then 1 else 0)"
  shows "owes (\<lambda>ident. d ident + slot_for (ow_operations w ! i) ident - slot_for s ident) w'"
proof -
  have ok: "owner_ok w" using owes by (simp add: owes_def)
  note len = owner_ok_slot(1) [OF ok i]
  have "int (ow_occupied w) = int (length (filter (\<lambda>s. sl_state s \<noteq> SlotFree) (ow_operations w)))"
    using ok by (simp add: owner_ok_def)
  then have occ: "ow_occupied w' = length (filter (\<lambda>s. sl_state s \<noteq> SlotFree) (ow_operations w'))"
    using occupied filter_update_count [OF len, of "\<lambda>s. sl_state s \<noteq> SlotFree" s] unfolding w'(1)
    by (auto split: if_splits)
  have "owner_ok w'" using ok occ slots w' by (simp add: owner_ok_def)
  moreover have "int (unanswered ident w') = int (unanswered ident w) + slot_for s ident - slot_for (ow_operations w ! i) ident" for ident
    using unanswered_slot [OF len w'(1,3,4), of ident] by linarith
  ultimately show ?thesis using owes w'(5) log by (simp add: owes_def)
qed

lemma occupied_pos:
  assumes "owner_ok w" "i < owner_operations" "sl_state (ow_operations w ! i) \<noteq> SlotFree"
  shows "0 < ow_occupied w" "ow_occupied w \<le> owner_operations"
proof -
  let ?used = "filter (\<lambda>s. sl_state s \<noteq> SlotFree) (ow_operations w)"
  have "ow_operations w ! i \<in> set ?used" using assms owner_ok_slot [OF assms(1,2)] by simp
  then have "0 < length ?used" by (rule length_pos_if_in_set)
  moreover have "length ?used \<le> length (ow_operations w)" by (rule length_filter_le)
  moreover have "ow_occupied w = length ?used" "length (ow_operations w) = owner_operations"
    using assms(1) by (auto simp: owner_ok_def slots_ok_def)
  ultimately show "0 < ow_occupied w" "ow_occupied w \<le> owner_operations" by linarith+
qed

lemma release_slot_owes:
  assumes owes: "owes d w" and i: "i < owner_operations" and used: "sl_state (ow_operations w ! i) \<noteq> SlotFree"
  shows "owes (\<lambda>ident. d ident + slot_for (ow_operations w ! i) ident) (release_slot i w)"
proof -
  let ?s = "(ow_operations w ! i)\<lparr>sl_state := SlotFree, sl_id := []\<rparr>"
  have ok: "owner_ok w" using owes by (simp add: owes_def)
  have occ: "sub64 (ow_occupied w) 1 = ow_occupied w - 1"
    using occupied_pos [OF ok i used] by (intro sub64_exact) (auto simp: owner_operations_def u64_max_def)
  have "slots_ok ((ow_operations w)[i := ?s])"
    using ok i owner_ok_slot(2) [OF ok i] by (intro slots_ok_update) (auto simp: owner_ok_def)
  moreover have "int (ow_occupied (release_slot i w)) = int (ow_occupied w) - 1"
    using occupied_pos [OF ok i used] occ by (simp add: release_slot_def Let_def)
  ultimately have "owes (\<lambda>ident. d ident + slot_for (ow_operations w ! i) ident - slot_for ?s ident) (release_slot i w)"
    using ok used
    by (intro owes_slot [OF owes i])
      (simp_all add: release_slot_def set_slot_def Let_def owner_ok_def admissions_def replies_def)
  moreover have "slot_for ?s ident = 0" for ident by (simp add: slot_for_def slot_outstanding_def)
  ultimately show ?thesis by simp
qed

lemma owner_retire_owes:
  assumes owes: "owes d w" and i: "i < owner_operations" and out: "slot_outstanding (ow_operations w ! i)"
  shows "owes (\<lambda>ident. d ident + slot_for (ow_operations w ! i) ident) (owner_retire env i c w)"
proof -
  let ?s = "ow_operations w ! i"
  define w1 where "w1 = (if sl_state ?s = SlotDispatched \<and> c then log_event (ServiceCancel (sl_sequence ?s)) w else w)"
  define w2 where "w2 = log_event (ServiceRetire (sl_sequence ?s)) w1"
  have ops: "ow_operations w2 = ow_operations w" by (simp add: w2_def w1_def)
  have owes2: "owes d w2" using owes by (simp add: w2_def w1_def owes_def)
  have used: "sl_state (ow_operations w2 ! i) \<noteq> SlotFree" using out ops by (auto simp: slot_outstanding_def)
  have ok: "owner_ok w2" using owes2 by (simp add: owes_def)
  let ?a = "?s\<lparr>sl_state := SlotAbandoned, sl_id := []\<rparr>"
  have "slots_ok ((ow_operations w2)[i := ?a])"
    using ok i owner_ok_slot(2) [OF ok i] used ops by (intro slots_ok_same_handle) (auto simp: owner_ok_def)
  then have "owes (\<lambda>ident. d ident + slot_for (ow_operations w2 ! i) ident - slot_for ?a ident) (set_slot i ?a w2)"
    using ok used by (intro owes_slot [OF owes2 i]) (auto simp: set_slot_def owner_ok_def admissions_def replies_def)
  moreover have "slot_for ?a ident = 0" for ident by (simp add: slot_for_def slot_outstanding_def)
  moreover note release_slot_owes [OF owes2 i used]
  moreover have "owner_retire env i c w =
      (if sl_state ?s = SlotDispatched \<and> \<not> en_released env (length (ow_log w2)) ?s then set_slot i ?a w2 else release_slot i w2)"
    by (simp add: owner_retire_def Let_def w2_def w1_def)
  ultimately show ?thesis using ops by simp
qed

lemma owner_retire_fields [simp]:
  "ow_finished (owner_retire env i c w) = ow_finished w" "ow_session (owner_retire env i c w) = ow_session w"
  "admissions ident (owner_retire env i c w) = admissions ident w" "replies ident (owner_retire env i c w) = replies ident w"
  "ow_open_id (owner_retire env i c w) = ow_open_id w"
  by (auto simp: owner_retire_def Let_def release_slot_def set_slot_def admissions_def replies_def log_event_def)

lemma owner_retire_ops:
  "\<exists>s. ow_operations (owner_retire env i c w) = (ow_operations w)[i := s] \<and> (sl_state s = SlotFree \<or> sl_state s = SlotAbandoned)"
  by (auto simp: owner_retire_def Let_def release_slot_def set_slot_def)

lemma owner_retire_due:
  assumes "owes no_debt w" "\<not> ow_finished w" "i < owner_operations" "slot_outstanding (ow_operations w ! i)"
  shows "replies (sl_id (ow_operations w ! i)) w < admissions (sl_id (ow_operations w ! i)) w"
proof -
  let ?id = "sl_id (ow_operations w ! i)"
  have ok: "owner_ok w" using assms(1) by (simp add: owes_def)
  have "ow_operations w ! i \<in> set (filter (\<lambda>s. slot_outstanding s \<and> sl_id s = ?id) (ow_operations w))"
    using assms(4) owner_ok_slot(1) [OF ok assms(3)] by simp
  then have "0 < length (filter (\<lambda>s. slot_outstanding s \<and> sl_id s = ?id) (ow_operations w))"
    by (rule length_pos_if_in_set)
  then have "0 < unanswered ?id w" unfolding unanswered_def by linarith
  moreover have "int (admissions ?id w) = int (replies ?id w) + int (unanswered ?id w)"
    using assms(1,2) by (simp add: owes_def no_debt_def)
  ultimately show ?thesis by linarith
qed

section \<open>Requests\<close>

text \<open>A request that has been admitted and not yet answered or queued.\<close>

definition due :: "string \<Rightarrow> wop_owner \<Rightarrow> bool" where
  "due ident w \<longleftrightarrow> owes (no_debt(ident := 1)) w \<and> \<not> ow_finished w"

lemma owes_debt: "owes d w \<Longrightarrow> (\<And>ident. d ident = d' ident) \<Longrightarrow> owes d' w"
  by (simp add: owes_def)

lemma due_admissions: "due ident w \<Longrightarrow> replies ident w < admissions ident w"
proof -
  assume "due ident w"
  then have "int (admissions ident w) = int (replies ident w) + int (unanswered ident w) + 1"
    by (simp add: due_def owes_def)
  then show ?thesis by linarith
qed

lemma reply_failure_due: "due ident w \<Longrightarrow> owes no_debt (reply_failure env ident f w)"
  using reply_failure_owes(1) [of "no_debt(ident := 1)" w ident env f] due_admissions [of ident w]
  by (auto simp: due_def no_debt_def intro: owes_debt)

lemma reply_success_due: "due ident w \<Longrightarrow> owes no_debt (reply_success env ident v u w)"
  using reply_success_owes(1) [of "no_debt(ident := 1)" w ident env v u] due_admissions [of ident w]
  by (auto simp: due_def no_debt_def intro: owes_debt)

lemma terminal_code_due: "due ident w \<Longrightarrow> owes no_debt (terminal_code c p w)"
  using terminal_code_owes by (auto simp: due_def)

lemma handle_open_owes:
  assumes "due (iq_id q) w"
  shows "owes no_debt (handle_open env q p now w)"
proof (cases "ow_session w \<noteq> OwnerIdle \<or> \<not> wop_ipc_open p \<or> now \<ge> iq_deadline_ms q")
  case True
  then show ?thesis using terminal_code_due [OF assms] by (auto simp: handle_open_def)
next
  case False
  let ?w = "log_event ServiceOpen w"
  obtain ok f where o: "en_open env p (owner_deadline q now) (failure_of ''certificate_invalid'' ''opening'' False) = (ok, f)"
    by (cases "en_open env p (owner_deadline q now) (failure_of ''certificate_invalid'' ''opening'' False)")
  have owes: "owes (no_debt(iq_id q := 1)) ?w" using assms by (simp add: due_def owes_def)
  let ?o = "?w\<lparr>ow_open_id := iq_id q, ow_open_deadline_ms := owner_deadline q now, ow_session := OwnerOpening\<rparr>"
  have "owes no_debt ?o"
    using owes False
    by (auto simp: owes_def owner_ok_def admissions_def replies_def unanswered_def no_debt_def)
  moreover have "owes no_debt (owner_terminal f ?w)" using owner_terminal_owes [OF owes] by blast
  ultimately show ?thesis using False o by (simp add: handle_open_def Let_def)
qed

lemma fold_keeps:
  assumes "P w" "\<And>i w. i \<in> set is \<Longrightarrow> P w \<Longrightarrow> P (f i w)"
  shows "P (fold f is w)"
  using assms by (induction "is" arbitrary: w) auto

text \<open>Closing gives up the balance but adds no answer: all that is left is structure.\<close>

definition owner_settled :: "wop_owner \<Rightarrow> bool" where
  "owner_settled w \<longleftrightarrow> owner_ok w \<and> (\<forall>ident. replies ident w \<le> admissions ident w)"

lemma settled_owes: "owner_settled w \<longleftrightarrow> owes d (w\<lparr>ow_finished := True\<rparr>)"
  by (simp add: owner_settled_def owes_def owner_ok_def admissions_def replies_def)

lemma owes_settled: "owes d w \<Longrightarrow> owner_settled w"
  by (simp add: owes_def owner_settled_def)

lemma retire_finished: "(owner_retire env i c w)\<lparr>ow_finished := True\<rparr> = owner_retire env i c (w\<lparr>ow_finished := True\<rparr>)"
  by (cases w) (auto simp: owner_retire_def Let_def release_slot_def set_slot_def log_event_def)

lemma release_finished: "(release_slot i w)\<lparr>ow_finished := True\<rparr> = release_slot i (w\<lparr>ow_finished := True\<rparr>)"
  by (cases w) (auto simp: release_slot_def set_slot_def Let_def)

lemma owner_retire_settled:
  assumes "owner_settled w" "i < owner_operations" "slot_outstanding (ow_operations w ! i)"
  shows "owner_settled (owner_retire env i c w)"
  using owner_retire_owes [of no_debt "w\<lparr>ow_finished := True\<rparr>" i env c] assms
  unfolding settled_owes [of _ no_debt] retire_finished by (auto simp: owes_def)

lemma release_slot_fields [simp]:
  "ow_finished (release_slot i w) = ow_finished w" "ow_session (release_slot i w) = ow_session w"
  "ow_open_id (release_slot i w) = ow_open_id w" "ow_log (release_slot i w) = ow_log w"
  by (simp_all add: release_slot_def set_slot_def Let_def)

lemma release_slot_settled:
  assumes "owner_settled w" "i < owner_operations" "sl_state (ow_operations w ! i) \<noteq> SlotFree"
  shows "owner_settled (release_slot i w)"
  using release_slot_owes [of no_debt "w\<lparr>ow_finished := True\<rparr>" i] assms release_slot_fields(1)
  unfolding settled_owes [of _ no_debt] release_finished by (auto simp: owes_def)

lemma retire_outstanding_settled: "owner_settled w \<Longrightarrow> owner_settled (retire_outstanding env w)"
  unfolding retire_outstanding_def by (rule fold_keeps) (auto simp: owner_retire_settled)

lemma release_abandoned_settled: "owner_settled w \<Longrightarrow> owner_settled (release_abandoned env w)"
  unfolding release_abandoned_def by (rule fold_keeps) (auto simp: release_slot_settled)

text \<open>What a step keeps when it makes no admission and no reply: who is admitted, who is answered, whether it ended.\<close>

definition quiet :: "wop_owner \<Rightarrow> wop_owner \<Rightarrow> bool" where
  "quiet w w' \<longleftrightarrow> ow_finished w' = ow_finished w \<and>
     (\<forall>ident. admissions ident w' = admissions ident w \<and> replies ident w' = replies ident w)"

lemma retire_outstanding_quiet: "quiet w (retire_outstanding env w)"
  unfolding retire_outstanding_def by (rule fold_keeps [where P = "quiet w"]) (auto simp: quiet_def)

lemma release_abandoned_quiet: "quiet w (release_abandoned env w)"
  unfolding release_abandoned_def
  by (rule fold_keeps [where P = "quiet w"]) (auto simp: quiet_def admissions_def replies_def)

lemma settled_some: "owner_settled w \<longleftrightarrow> (\<exists>d. owes d w)"
proof
  assume "owner_settled w"
  then have "owes (\<lambda>ident. int (admissions ident w) - int (replies ident w) - int (unanswered ident w)) w"
    by (simp add: owner_settled_def owes_def)
  then show "\<exists>d. owes d w" by blast
qed (auto simp: owes_settled)

lemma settled_finish: "owner_settled w \<Longrightarrow> owner_settled (terminal_code c p w)" "owner_settled w \<Longrightarrow> owner_settled (owner_terminal f w)"
  using terminal_code_owes owner_terminal_owes unfolding settled_some by blast+

lemma terminal_code_finished [simp]: "ow_finished (terminal_code c p w)" "ow_finished (owner_terminal f w)"
  by (simp_all add: terminal_code_def owner_terminal_def Let_def)

lemma owner_settled_reply:
  assumes "owner_settled w" "\<not> ow_finished w" "replies ident w < admissions ident w"
  shows "owner_settled (reply_success env ident v u w)"
  using reply_success_owes(1) [OF _ assms(2,3)] assms(1) unfolding settled_some by blast

lemma finished_owes: "owner_settled w \<Longrightarrow> ow_finished w \<Longrightarrow> owes d w"
  by (simp add: owner_settled_def owes_def)

lemma handle_close_owes:
  assumes due: "due (iq_id q) w"
  shows "owes no_debt (handle_close env q p now w)"
proof (cases "p \<noteq> Some (YObj []) \<or> now \<ge> iq_deadline_ms q")
  case True
  then show ?thesis using terminal_code_due [OF due] by (auto simp: handle_close_def)
next
  case False
  define w1 where "w1 = retire_outstanding env w"
  define live where "live = (ow_session w1 = OwnerOpening \<or> ow_session w1 = OwnerOpen)"
  define w2 where "w2 = (if live then log_event ServiceClose w1 else w1)"
  define w3 where "w3 = release_abandoned env (w2\<lparr>ow_session := OwnerClosed\<rparr>)"
  define w4 where "w4 = reply_success env (iq_id q) (if en_document env 0 then Some YNull else None) False w3"
  have "owner_settled w" using due by (auto simp: due_def dest: owes_settled)
  then have "owner_settled w1" unfolding w1_def by (rule retire_outstanding_settled)
  then have "owner_settled (w2\<lparr>ow_session := OwnerClosed\<rparr>)"
    by (auto simp: owner_settled_def w2_def owner_ok_def admissions_def replies_def log_event_def)
  then have s3: "owner_settled w3" unfolding w3_def by (rule release_abandoned_settled)
  have q3: "quiet w w3"
    using retire_outstanding_quiet [of w env] release_abandoned_quiet [of "w2\<lparr>ow_session := OwnerClosed\<rparr>" env]
    unfolding w3_def w2_def w1_def by (auto simp: quiet_def admissions_def replies_def log_event_def)
  then have "\<not> ow_finished w3" "replies (iq_id q) w3 < admissions (iq_id q) w3"
    using due due_admissions [OF due] by (auto simp: quiet_def due_def)
  then have s4: "owner_settled w4" unfolding w4_def by (rule owner_settled_reply [OF s3])
  have "owner_settled (w4\<lparr>ow_finished := True, ow_status := 0\<rparr>)"
    using s4 by (simp add: owner_settled_def owner_ok_def admissions_def replies_def)
  then have "owes no_debt (if \<not> (\<not> live \<or> en_close env) then terminal_code ''cleanup_failed'' ''cleanup'' w3
      else if ow_finished w4 then w4 else w4\<lparr>ow_finished := True, ow_status := 0\<rparr>)"
    using s3 s4 settled_finish(1) [OF s3] by (auto intro: finished_owes)
  moreover have "handle_close env q p now w = (if \<not> (\<not> live \<or> en_close env) then terminal_code ''cleanup_failed'' ''cleanup'' w3
      else if ow_finished w4 then w4 else w4\<lparr>ow_finished := True, ow_status := 0\<rparr>)"
    using False by (simp add: handle_close_def Let_def w4_def w3_def w2_def live_def w1_def)
  ultimately show ?thesis by simp
qed

lemma outstanding_slot:
  assumes ok: "owner_ok w" and out: "outstanding ident w = Some s"
  shows "sl_index s < owner_operations \<and> ow_operations w ! sl_index s = s \<and> slot_outstanding s \<and> sl_id s = ident"
proof -
  have s: "s \<in> set (ow_operations w)" "slot_outstanding s" "sl_id s = ident"
    using out by (auto simp: outstanding_def find_Some_iff)
  then obtain i where "i < length (ow_operations w)" "s = ow_operations w ! i" by (auto simp: in_set_conv_nth)
  then show ?thesis using s ok by (auto simp: owner_ok_def slots_ok_def)
qed

text \<open>A slot that is retired is answered with its own identifier.\<close>

lemma retire_reply_owes:
  assumes owes: "owes d w" and fin: "\<not> ow_finished w" and i: "i < owner_operations" and out: "slot_outstanding (ow_operations w ! i)"
    and d: "\<And>ident. 0 \<le> d ident"
  shows "owes d (reply_failure env (sl_id (ow_operations w ! i)) f (owner_retire env i c w))"
proof -
  let ?s = "ow_operations w ! i" and ?w = "owner_retire env i c w"
  have owes1: "owes (\<lambda>ident. d ident + slot_for ?s ident) ?w" by (rule owner_retire_owes [OF owes i out])
  have "slot_for ?s (sl_id ?s) = 1" using out by (simp add: slot_for_def)
  then have "int (admissions (sl_id ?s) ?w) = int (replies (sl_id ?s) ?w) + int (unanswered (sl_id ?s) ?w) + (d (sl_id ?s) + 1)"
    using owes1 fin by (simp add: owes_def)
  then have due: "replies (sl_id ?s) ?w < admissions (sl_id ?s) ?w" using d [of "sl_id ?s"] by linarith
  have "owes ((\<lambda>ident. d ident + slot_for ?s ident)(sl_id ?s := d (sl_id ?s) + slot_for ?s (sl_id ?s) - 1))
      (reply_failure env (sl_id ?s) f ?w)"
    using reply_failure_owes(1) [OF owes1 _ due] fin by simp
  then show ?thesis by (rule owes_debt) (use out in \<open>auto simp: slot_for_def\<close>)
qed

lemma due_log: "owes no_debt w \<Longrightarrow> \<not> ow_finished w \<Longrightarrow> due ident (log_event (Admitted ident) w)"
  by (auto simp: due_def owes_def no_debt_def le_SucI)

lemma handle_cancel_owes:
  assumes due: "due (iq_id q) w"
  shows "owes no_debt (handle_cancel env q p now w)"
proof -
  define target where "target = (case p of Some v \<Rightarrow> yy_get v ''target_id'' | None \<Rightarrow> None)"
  define t where "t = ipc_text target"
  define w1 where "w1 = (case outstanding t w of None \<Rightarrow> w
      | Some s \<Rightarrow> let dispatched = sl_state s = SlotDispatched in
          reply_failure env t (failure_of ''canceled'' (if dispatched then ''exchange'' else ''admission'')
            (dispatched \<and> kind_mutation (sl_kind s))) (owner_retire env (sl_index s) True w))"
  have owes1: "owes (no_debt(iq_id q := 1)) w1"
  proof (cases "outstanding t w")
    case None
    then show ?thesis using due by (simp add: w1_def due_def)
  next
    case (Some s)
    have ok: "owner_ok w" using due by (simp add: due_def owes_def)
    note s = outstanding_slot [OF ok Some]
    then show ?thesis
      using due Some retire_reply_owes [of "no_debt(iq_id q := 1)" w "sl_index s" env _ True]
      by (auto simp: w1_def due_def no_debt_def Let_def)
  qed
  have last: "owes no_debt (if outstanding t w \<noteq> None \<and> ow_finished w1 then w1 else reply_success env (iq_id q) v False w1)"
    if "outstanding t w = None \<Longrightarrow> w1 = w" for v
  proof (cases "ow_finished w1")
    case True
    then show ?thesis using owes1 that due by (cases "outstanding t w") (auto simp: due_def intro: finished_owes owes_settled)
  next
    case False
    then show ?thesis using reply_success_due [of "iq_id q" w1 env v False] owes1 by (simp add: due_def)
  qed
  have "outstanding t w = None \<Longrightarrow> w1 = w" by (simp add: w1_def)
  note last = last [OF this]
  show ?thesis
    using terminal_code_due [OF due] reply_failure_due [OF due] last
    unfolding handle_cancel_def Let_def target_def [symmetric] t_def [symmetric] w1_def [unfolded Let_def, symmetric]
    by simp
qed

lemma free_slot_found:
  assumes ok: "owner_ok w" and "ow_occupied w \<noteq> owner_operations"
  shows "\<exists>s. find (\<lambda>s. sl_state s = SlotFree) (ow_operations w) = Some s \<and> sl_index s < owner_operations \<and>
    ow_operations w ! sl_index s = s \<and> sl_state s = SlotFree"
proof (cases "find (\<lambda>s. sl_state s = SlotFree) (ow_operations w)")
  case None
  then have "filter (\<lambda>s. sl_state s \<noteq> SlotFree) (ow_operations w) = ow_operations w"
    by (simp add: find_None_iff)
  then show ?thesis using assms by (simp add: owner_ok_def slots_ok_def)
next
  case (Some s)
  then obtain i where "i < length (ow_operations w)" "s = ow_operations w ! i" "sl_state s = SlotFree"
    by (auto simp: find_Some_iff)
  then show ?thesis using ok Some by (auto simp: owner_ok_def slots_ok_def)
qed

lemma handle_operation_owes:
  assumes due: "due (iq_id q) w"
  shows "owes no_debt (handle_operation env kind q p now w)"
proof (cases "ow_session w \<noteq> OwnerOpen \<or> now \<ge> iq_deadline_ms q \<or> ow_occupied w = owner_operations")
  case True
  then show ?thesis using reply_failure_due [OF due] by (auto simp: handle_operation_def)
next
  case False
  have owes: "owes (no_debt(iq_id q := 1)) w" and ok: "owner_ok w" and fin: "\<not> ow_finished w"
    using due by (auto simp: due_def owes_def)
  obtain s where s: "find (\<lambda>s. sl_state s = SlotFree) (ow_operations w) = Some s" "sl_index s < owner_operations"
    "ow_operations w ! sl_index s = s" "sl_state s = SlotFree"
    using free_slot_found [OF ok] False by blast
  obtain h k where h: "next_handle w = (h, w\<lparr>ow_next_handle := k\<rparr>)" "\<not> handle_used h w" "1 \<le> k" "k \<le> owner_maximum_handle"
    using next_handle_fresh [of w] ok by (auto simp: owner_ok_def slots_ok_def)
  let ?w = "w\<lparr>ow_next_handle := k\<rparr>"
  let ?s = "s\<lparr>sl_kind := kind, sl_id := iq_id q, sl_deadline_ms := owner_deadline q now, sl_handle := h\<rparr>"
  obtain good f where prep: "en_prepare env ?s p (failure_of ''invalid_value'' ''validation'' False) = (good, f)"
    by (cases "en_prepare env ?s p (failure_of ''invalid_value'' ''validation'' False)")
  have slots: "slots_ok (ow_operations w)" using ok by (simp add: owner_ok_def)
  have none: "slot_for s ident = 0" "slot_for (?s\<lparr>sl_id := []\<rparr>) ident = 0" for ident
    using s(4) by (simp_all add: slot_for_def slot_outstanding_def)
  show ?thesis
  proof (cases good)
    case False
    let ?w' = "set_slot (sl_index s) (?s\<lparr>sl_id := []\<rparr>) ?w"
    have "slots_ok ((ow_operations w)[sl_index s := ?s\<lparr>sl_id := []\<rparr>])"
      using s by (intro slots_ok_update [OF slots]) auto
    then have "owes (\<lambda>ident. (no_debt(iq_id q := 1)) ident + slot_for (ow_operations w ! sl_index s) ident - slot_for (?s\<lparr>sl_id := []\<rparr>) ident) ?w'"
      using s h by (intro owes_slot [OF owes s(2)]) (auto simp: set_slot_def admissions_def replies_def)
    then have "due (iq_id q) ?w'" using none s(3) fin by (auto simp: due_def set_slot_def intro: owes_debt)
    from reply_failure_due [OF this] show ?thesis
      using \<open>\<not> (ow_session w \<noteq> OwnerOpen \<or> now \<ge> iq_deadline_ms q \<or> ow_occupied w = owner_operations)\<close> s(1) h(1) prep False
      by (simp add: handle_operation_def Let_def)
  next
    case True
    let ?n = "add64 (ow_next_sequence w) 1"
    let ?q = "?s\<lparr>sl_sequence := ?n, sl_state := SlotQueued\<rparr>"
    let ?w' = "(set_slot (sl_index s) ?q ?w)\<lparr>ow_next_sequence := ?n, ow_occupied := add64 (ow_occupied w) 1\<rparr>"
    have unused: "sl_handle (ow_operations w ! j) \<noteq> h" if "j < owner_operations" "sl_state (ow_operations w ! j) \<noteq> SlotFree" for j
      using h(2) that slots nth_mem [of j "ow_operations w"] by (auto simp: handle_used_def list_ex_iff slots_ok_def)
    have sl: "slots_ok ((ow_operations w)[sl_index s := ?q])"
      using s unused by (intro slots_ok_update [OF slots]) auto
    have "ow_occupied w \<le> owner_operations"
      using ok length_filter_le [of "\<lambda>s. sl_state s \<noteq> SlotFree" "ow_operations w"] by (simp add: owner_ok_def slots_ok_def)
    then have occ: "add64 (ow_occupied w) 1 = ow_occupied w + 1"
      by (intro add64_exact) (simp add: owner_operations_def u64_max_def)
    have "owes (\<lambda>ident. (no_debt(iq_id q := 1)) ident + slot_for (ow_operations w ! sl_index s) ident - slot_for ?q ident) ?w'"
      using s h sl occ by (intro owes_slot [OF owes s(2)]) (auto simp: set_slot_def admissions_def replies_def)
    then have "owes no_debt ?w'"
      by (rule owes_debt) (use none s(3) in \<open>auto simp: slot_for_def slot_outstanding_def no_debt_def\<close>)
    then show ?thesis
      using \<open>\<not> (ow_session w \<noteq> OwnerOpen \<or> now \<ge> iq_deadline_ms q \<or> ow_occupied w = owner_operations)\<close> s(1) h(1) prep True
      by (simp add: handle_operation_def Let_def)
  qed
qed

lemma fold_unmatched:
  "(\<And>i. i \<in> set is \<Longrightarrow> \<not> P i) \<Longrightarrow> fold (\<lambda>i (a, w). if P i then (True, f i w) else (a, w)) is (a, w) = (a, w)"
  by (induction "is") auto

lemma fold_matched:
  assumes "distinct is" "\<And>i j. P i \<Longrightarrow> P j \<Longrightarrow> i \<in> set is \<Longrightarrow> j \<in> set is \<Longrightarrow> i = j"
  shows "fold (\<lambda>i (a, w). if P i then (True, f i w) else (a, w)) is (a, w) =
    (case find P is of None \<Rightarrow> (a, w) | Some i \<Rightarrow> (True, f i w))"
  using assms
proof (induction "is" arbitrary: a w)
  case (Cons i "is")
  show ?case
  proof (cases "P i")
    case True
    then have "\<not> P j" if "j \<in> set is" for j using that Cons.prems by auto
    then show ?thesis using True fold_unmatched [of "is" P f True "f i w"] by simp
  next
    case False
    then show ?thesis using Cons by simp
  qed
qed simp

lemma handle_named_cases:
  "handle_named env name q p now w = (False, w) \<or>
   (\<exists>i. handle_named env name q p now w = (True, handle_operation env (owner_operation_kinds ! i) q p now w))"
proof -
  have "distinct owner_operation_names" by (simp add: owner_operation_names_def)
  then have unique: "text_is name (owner_operation_names ! i) \<Longrightarrow> text_is name (owner_operation_names ! j) \<Longrightarrow>
      i \<in> set [0..<length owner_operation_names] \<Longrightarrow> j \<in> set [0..<length owner_operation_names] \<Longrightarrow> i = j" for i j
    by (auto simp: text_is_def nth_eq_iff_index_eq)
  have "handle_named env name q p now w =
      (case find (\<lambda>i. text_is name (owner_operation_names ! i)) [0..<length owner_operation_names] of None \<Rightarrow> (False, w)
       | Some i \<Rightarrow> (True, handle_operation env (owner_operation_kinds ! i) q p now w))"
    unfolding handle_named_def by (rule fold_matched) (use unique in auto)
  then show ?thesis by (auto split: option.splits)
qed

lemma handle_request_owes:
  assumes due: "due (iq_id q) w"
  shows "owes no_debt (handle_request env root q w)"
  using terminal_code_due [OF due] handle_open_owes [OF due] handle_close_owes [OF due] handle_cancel_owes [OF due]
    handle_operation_owes [OF due] reply_failure_due [OF due]
    handle_named_cases [of env "yy_get root ''operation''" q "yy_get root ''parameters''" "en_clock env 0" w]
  by (auto simp: handle_request_def Let_def)

lemma owes_output:
  "owes d w \<Longrightarrow> output_ok out \<Longrightarrow> owes d (w\<lparr>ow_output := out\<rparr>)"
  by (simp add: owes_def owner_ok_def admissions_def replies_def unanswered_def)

lemma owes_input: "owes d w \<Longrightarrow> owes d (w\<lparr>ow_input := held\<rparr>)"
  by (simp add: owes_def owner_ok_def admissions_def replies_def unanswered_def)

lemma credit_output_ok:
  assumes "output_ok out" "wop_output_credit c out = (r, out')"
  shows "output_ok out'"
proof (cases "r = OutputOk")
  case True
  have inv: "wop_output_inv out" using assms(1) by (simp add: output_ok_def)
  show ?thesis using credit_effect [OF inv _ assms(2) [unfolded True]] assms(1) by (simp add: output_ok_def)
next
  case False
  then show ?thesis using assms credit_refused [OF assms(2)] by simp
qed

lemma handle_line_owes:
  assumes owes: "owes no_debt w" and fin: "\<not> ow_finished w"
  shows "owes no_debt (handle_line env line w)"
proof -
  have out: "output_ok (ow_output w)" using owes by (simp add: owes_def owner_ok_def)
  have bad: "owes no_debt (terminal_code c p w)" for c p using terminal_code_owes [OF owes] by blast
  show ?thesis
  proof (cases "wop_json_read (en_parse env) (en_double env) line")
    case (Pair r v)
    show ?thesis
    proof (cases "r = OpcuaJsonOk \<and> v \<noteq> None")
      case False
      then have "handle_line env line w = terminal_code ''invalid_request'' ''validation'' w"
        using Pair by (cases r; cases v) (auto simp: handle_line_def)
      then show ?thesis using bad by simp
    next
      case True
      then obtain root where v: "v = Some root" by auto
      show ?thesis
      proof (cases "yy_is_obj root \<and> yy_get root ''event'' \<noteq> None")
        case True': True
        show ?thesis
        proof (cases "wop_ipc_credit root")
          case None
          then show ?thesis using Pair True v True' bad by (simp add: handle_line_def)
        next
          case (Some c)
          obtain s out' where cr: "wop_output_credit c (ow_output w) = (s, out')" by (cases "wop_output_credit c (ow_output w)")
          have "owes no_debt (w\<lparr>ow_output := out'\<rparr>)" by (rule owes_output [OF owes credit_output_ok [OF out cr]])
          then show ?thesis using Pair True v True' Some cr terminal_code_owes [of no_debt "w\<lparr>ow_output := out'\<rparr>" no_debt]
            by (auto simp: handle_line_def)
        qed
      next
        case False
        show ?thesis
        proof (cases "wop_ipc_request root")
          case None
          then show ?thesis using Pair True v False bad by (auto simp: handle_line_def)
        next
          case (Some q)
          have "owes no_debt (handle_request env root q (log_event (Admitted (iq_id q)) w))"
            by (rule handle_request_owes [OF due_log [OF owes fin]])
          then show ?thesis using Pair True v False Some bad by (auto simp: handle_line_def)
        qed
      qed
    qed
  qed
qed

declare wop_owner_input.simps [simp del]

lemma wop_owner_input_owes: "owes no_debt w \<Longrightarrow> owes no_debt (wop_owner_input env bytes w)"
proof (induction env bytes w rule: wop_owner_input.induct)
  case (1 env bytes w)
  obtain framed consumed held where feed: "wop_ipc_feed (ow_input w) bytes = (framed, consumed, held)"
    by (cases "wop_ipc_feed (ow_input w) bytes")
  let ?w = "w\<lparr>ow_input := held\<rparr>"
  have held: "owes no_debt ?w" by (rule owes_input [OF "1.prems"])
  show ?case
  proof (cases "bytes = [] \<or> ow_finished w")
    case True
    then show ?thesis using "1.prems" by (subst wop_owner_input.simps) simp
  next
    case False
    have "owes no_debt ((handle_line (env (length bytes)) held ?w)\<lparr>ow_input := []\<rparr>)"
      using handle_line_owes [OF held] False by (intro owes_input) simp
    then show ?thesis
      using "1.IH" [OF False feed [symmetric] refl refl] False feed held terminal_code_owes [OF held, of no_debt]
      by (subst wop_owner_input.simps) (simp add: Let_def)
  qed
qed

section \<open>Ticks\<close>

lemma oldest_queued_slot:
  assumes ok: "owner_ok w" and old: "oldest_queued w = Some s"
  shows "sl_index s < owner_operations \<and> ow_operations w ! sl_index s = s \<and> sl_state s = SlotQueued"
proof -
  have "x = Some s \<or> s \<in> set ss \<and> sl_state s = SlotQueued"
    if "fold (\<lambda>s sel. if sl_state s = SlotQueued \<and> (case sel of None \<Rightarrow> True | Some t \<Rightarrow> sl_sequence s < sl_sequence t)
             then Some s else sel) ss x = Some s" for ss x
    using that by (induction ss arbitrary: x) (auto split: if_splits)
  from this [of "ow_operations w" None] have "s \<in> set (ow_operations w)" "sl_state s = SlotQueued"
    using old by (auto simp: oldest_queued_def)
  then show ?thesis using ok by (auto simp: in_set_conv_nth owner_ok_def slots_ok_def)
qed

definition queued_slots :: "wop_owner \<Rightarrow> nat" where
  "queued_slots w = length (filter (\<lambda>s. sl_state s = SlotQueued) (ow_operations w))"

lemma queued_slots_less:
  assumes "i < length (ow_operations w)" "sl_state (ow_operations w ! i) = SlotQueued"
    "ow_operations w' = (ow_operations w)[i := s]" "sl_state s \<noteq> SlotQueued"
  shows "queued_slots w' < queued_slots w"
  using filter_update_count [OF assms(1), of "\<lambda>s. sl_state s = SlotQueued" s] assms by (simp add: queued_slots_def)

lemma dispatch_slot_owes:
  assumes owes: "owes no_debt w" and fin: "\<not> ow_finished w" and old: "oldest_queued w = Some s"
  shows "owes no_debt (dispatch_slot env now s w)" and "queued_slots (dispatch_slot env now s w) < queued_slots w"
proof -
  have ok: "owner_ok w" using owes by (simp add: owes_def)
  note s = oldest_queued_slot [OF ok old]
  have i: "sl_index s < length (ow_operations w)" using s owner_ok_slot(1) [OF ok] by blast
  let ?i = "sl_index s"
  have out: "slot_outstanding (ow_operations w ! ?i)" using s by (simp add: slot_outstanding_def)
  let ?w = "log_event (ServiceDispatch (sl_sequence s)) w"
  have owes1: "owes no_debt ?w" using owes by (simp add: owes_def)
  have d: "0 \<le> no_debt ident" for ident by (simp add: no_debt_def)
  have expired: "owes no_debt (reply_failure env (sl_id s) f (owner_retire env ?i False v))"
    and expired_ops: "\<exists>t. ow_operations (reply_failure env (sl_id s) f (owner_retire env ?i False v)) = (ow_operations w)[?i := t] \<and> sl_state t \<noteq> SlotQueued"
    if v: "owes no_debt v" "\<not> ow_finished v" "ow_operations v = ow_operations w" for v f
  proof -
    have o: "slot_outstanding (ow_operations v ! ?i)" using out v(3) by simp
    show "owes no_debt (reply_failure env (sl_id s) f (owner_retire env ?i False v))"
      using retire_reply_owes [OF v(1,2) _ o d, of env f False] s v(3) by simp
    have "owes (\<lambda>ident. no_debt ident + slot_for (ow_operations v ! ?i) ident) (owner_retire env ?i False v)"
      using s by (intro owner_retire_owes [OF v(1) _ o]) simp
    moreover have "replies (sl_id s) (owner_retire env ?i False v) < admissions (sl_id s) (owner_retire env ?i False v)"
      using owner_retire_due [OF v(1,2) _ o] s v(3) by simp
    ultimately have "ow_operations (reply_failure env (sl_id s) f (owner_retire env ?i False v)) = ow_operations (owner_retire env ?i False v)"
      using v(2) by (intro reply_failure_owes(2)) auto
    then show "\<exists>t. ow_operations (reply_failure env (sl_id s) f (owner_retire env ?i False v)) = (ow_operations w)[?i := t] \<and> sl_state t \<noteq> SlotQueued"
      using owner_retire_ops [of env ?i False v] v(3) by auto
  qed
  let ?d = "s\<lparr>sl_state := SlotDispatched\<rparr>"
  have "slots_ok ((ow_operations w)[?i := ?d])"
    using ok s by (intro slots_ok_same_handle) (auto simp: owner_ok_def)
  then have "owes (\<lambda>ident. no_debt ident + slot_for (ow_operations ?w ! ?i) ident - slot_for ?d ident) (set_slot ?i ?d ?w)"
    using s ok by (intro owes_slot [OF owes1]) (auto simp: set_slot_def admissions_def replies_def owner_ok_def)
  then have sent: "owes no_debt (set_slot ?i ?d ?w)"
    by (rule owes_debt) (use s in \<open>auto simp: slot_for_def slot_outstanding_def\<close>)
  have ops: "\<exists>t. ow_operations (dispatch_slot env now s w) = (ow_operations w)[?i := t] \<and> sl_state t \<noteq> SlotQueued"
    using expired_ops [OF owes fin refl] expired_ops [OF owes1] fin
    by (auto simp: dispatch_slot_def Let_def set_slot_def split: prod.splits)
  show "owes no_debt (dispatch_slot env now s w)"
    using expired [OF owes fin refl] expired [OF owes1] fin sent
    by (auto simp: dispatch_slot_def Let_def split: prod.splits)
  show "queued_slots (dispatch_slot env now s w) < queued_slots w"
    using ops queued_slots_less [OF i] s by auto
qed

lemma dispatch_loop_owes: "owes no_debt w \<Longrightarrow> owes no_debt (dispatch_loop n env now w)"
proof (induction n arbitrary: w)
  case (Suc n)
  then show ?case using dispatch_slot_owes(1) [OF Suc.prems] by (auto split: option.splits)
qed simp

lemma dispatch_loop_done:
  "owes no_debt w \<Longrightarrow> queued_slots w \<le> n \<Longrightarrow>
   ow_finished (dispatch_loop n env now w) \<or> oldest_queued (dispatch_loop n env now w) = None"
proof (induction n arbitrary: w)
  case 0
  then have none: "filter (\<lambda>s. sl_state s = SlotQueued) (ow_operations w) = []" by (simp add: queued_slots_def)
  show ?case
  proof (cases "oldest_queued w")
    case (Some s)
    have ok: "owner_ok w" using 0 by (simp add: owes_def)
    have "s \<in> set (filter (\<lambda>s. sl_state s = SlotQueued) (ow_operations w))"
      using oldest_queued_slot [OF ok Some] owner_ok_slot(1) [OF ok] nth_mem by force
    then show ?thesis using none by simp
  qed simp
next
  case (Suc n)
  show ?case
  proof (cases "ow_finished w \<or> oldest_queued w = None")
    case True
    then show ?thesis by auto
  next
    case False
    then obtain s where s: "oldest_queued w = Some s" by auto
    then show ?thesis
      using False dispatch_slot_owes [OF Suc.prems(1) _ s, of env now] Suc.prems(2) Suc.IH [of "dispatch_slot env now s w"] by simp
  qed
qed

text \<open>The dispatch loop has ended after its 64 turns.\<close>

lemma dispatch_queued_done:
  assumes "owes no_debt w"
  shows "ow_finished (dispatch_queued env now w) \<or> oldest_queued (dispatch_queued env now w) = None"
proof -
  have "queued_slots w \<le> owner_operations"
    using assms length_filter_le [of "\<lambda>s. sl_state s = SlotQueued" "ow_operations w"]
    by (simp add: queued_slots_def owes_def owner_ok_def slots_ok_def)
  then show ?thesis unfolding dispatch_queued_def by (rule dispatch_loop_done [OF assms])
qed

section \<open>Completions\<close>

lemma open_tick_owes:
  assumes owes: "owes no_debt w" and fin: "\<not> ow_finished w" and op: "ow_session w = OwnerOpening"
  shows "owes no_debt (open_tick env now w)"
proof -
  have "due (ow_open_id w) (w\<lparr>ow_session := OwnerOpen\<rparr>)"
    using owes fin op
    by (auto simp: due_def owes_def owner_ok_def admissions_def replies_def unanswered_def no_debt_def)
  note reply = reply_success_due [OF this]
  show ?thesis
    using reply terminal_code_owes [OF owes] owner_terminal_owes [OF owes] owes
    by (auto simp: open_tick_def split: prod.splits)
qed

text \<open>A completion answers the request first and then gives up its slot.\<close>

lemma reply_retire_owes:
  assumes owes: "owes no_debt w" and i: "i < owner_operations" and out: "slot_outstanding (ow_operations w ! i)"
    and reply: "owes (no_debt(sl_id (ow_operations w ! i) := -1)) w'" and ops: "ow_operations w' = ow_operations w"
  shows "owes no_debt (owner_retire env i c w')"
proof -
  let ?s = "ow_operations w ! i"
  have "owes (\<lambda>ident. (no_debt(sl_id ?s := -1)) ident + slot_for (ow_operations w' ! i) ident) (owner_retire env i c w')"
    using out ops by (intro owner_retire_owes [OF reply i]) simp
  then show ?thesis by (rule owes_debt) (use out ops in \<open>auto simp: slot_for_def no_debt_def\<close>)
qed

lemma complete_slot_owes:
  assumes owes: "owes no_debt w" and fin: "\<not> ow_finished w" and i: "i < owner_operations"
  shows "owes no_debt (complete_slot env now i w)"
proof -
  let ?s = "ow_operations w ! i"
  have bad: "owes no_debt (terminal_code c p w)" "owes no_debt (owner_terminal f w)" for c p f
    using terminal_code_owes [OF owes] owner_terminal_owes [OF owes] by blast+
  consider "sl_state ?s = SlotAbandoned" | "sl_state ?s = SlotDispatched" | "sl_state ?s = SlotFree \<or> sl_state ?s = SlotQueued"
    by (cases "sl_state ?s") auto
  then show ?thesis
  proof cases
    case 1
    have "owes no_debt (release_slot i w)"
      by (rule owes_debt [OF release_slot_owes [OF owes i]]) (use 1 in \<open>auto simp: slot_for_def slot_outstanding_def\<close>)
    then show ?thesis using 1 owes by (simp add: complete_slot_def Let_def)
  next
    case 2
    then have out: "slot_outstanding ?s" by (simp add: slot_outstanding_def)
    note due = owner_retire_due [OF owes fin i out]
    have debt: "no_debt(sl_id ?s := no_debt (sl_id ?s) - 1) = no_debt(sl_id ?s := -1)" by (simp add: no_debt_def)
    have ok: "owes no_debt (owner_retire env i c (reply_success env (sl_id ?s) v u w))"
      and failed: "owes no_debt (owner_retire env i c (reply_failure env (sl_id ?s) f w))" for c v u f
      using reply_success_owes(1,2) [OF owes fin due, of env v u] reply_failure_owes(1,2) [OF owes fin due, of env f]
      unfolding debt by (auto intro: reply_retire_owes [OF owes i out])
    have expired: "owes no_debt (reply_failure env (sl_id ?s) f (owner_retire env i c w))" for c f
      by (rule retire_reply_owes [OF owes fin i out]) (simp add: no_debt_def)
    show ?thesis
      using 2 ok failed expired bad owes
      by (auto simp: complete_slot_def Let_def split: prod.splits wop_completion.splits)
  next
    case 3
    then show ?thesis using owes by (auto simp: complete_slot_def Let_def)
  qed
qed

lemma complete_loop_owes: "owes no_debt w \<Longrightarrow> set is \<subseteq> {..<owner_operations} \<Longrightarrow> owes no_debt (complete_loop env now is w)"
proof (induction "is" arbitrary: w)
  case (Cons i "is")
  then show ?case using complete_slot_owes [of w i env now] by auto
qed simp

lemma report_loop_owes: "owes no_debt w \<Longrightarrow> owes no_debt (report_loop env n answers w)"
proof (induction env n answers w rule: report_loop.induct)
  case (1 env n answers w)
  have out: "output_ok (ow_output w)" using "1.prems" by (simp add: owes_def owner_ok_def)
  have bad: "owes no_debt (terminal_code c p w)" "owes no_debt (owner_terminal f w)" for c p f
    using terminal_code_owes [OF "1.prems"] owner_terminal_owes [OF "1.prems"] by blast+
  show ?case
  proof (cases "\<exists>m rest. en_document env n \<and> answers = ReportDocument m # rest")
    case False
    then show ?thesis
      using bad "1.prems" by (subst report_loop.simps) (auto split: list.splits report_answer.splits)
  next
    case True
    then obtain m rest where m: "en_document env n" "answers = ReportDocument m # rest" by blast
    let ?doc = "YObj ([(''version'', YRaw ''1''), (''generation'', YRaw (to_decimal (wo_generation (ow_output w))))] @ m)"
    obtain r w' where emit: "owner_emit env ?doc w = (r, w')" by (cases "owner_emit env ?doc w")
    note e = owner_emit_ok [OF out emit]
    have owes': "owes no_debt w'" using "1.prems" e same_work_counts [of w w'] same_work_ok [of w w'] by (simp add: owes_def)
    then show ?thesis
      using "1.IH" m emit terminal_code_owes [OF owes', of no_debt]
      by (subst report_loop.simps) auto
  qed
qed

lemma wop_owner_tick_owes:
  assumes owes: "owes no_debt w"
  shows "owes no_debt (wop_owner_tick env w)"
proof -
  define w1 where "w1 = dispatch_queued env (en_clock env 0) w"
  define w2 where "w2 = complete_dispatched env (en_clock env 1) w1"
  have 1: "owes no_debt w1" using dispatch_loop_owes [OF owes] by (simp add: w1_def dispatch_queued_def)
  have 2: "owes no_debt w2" unfolding w2_def complete_dispatched_def by (rule complete_loop_owes [OF 1]) auto
  have 3: "owes no_debt (emit_reports env w2)"
    using 2 report_loop_owes by (simp add: emit_reports_def split: option.splits)
  show ?thesis
    using owes 1 2 3 terminal_code_owes [OF owes] terminal_code_owes [OF 1] owner_terminal_owes [OF 1] open_tick_owes [OF owes]
    unfolding wop_owner_tick_def Let_def w1_def [symmetric] w2_def [symmetric] by (auto split: prod.splits)
qed

section \<open>Runs of the process\<close>

lemma wop_owner_init_owes: "owes no_debt (wop_owner_init d)"
  by (auto simp: owes_def owner_ok_def slots_ok_def output_ok_def wop_owner_init_def wop_output_inv_init free_slot_def
      owner_operations_def owner_maximum_handle_def admissions_def replies_def unanswered_def slot_outstanding_def no_debt_def
      filter_empty_conv) (simp_all add: wop_output_init_def)

lemma flush_owner_owes:
  assumes owes: "owes d w" and fl: "flush_owner as w = (ok, w')"
  shows "owes d w'" "same_work w w'" "ow_finished w' = ow_finished w" "ow_status w' = ow_status w"
proof -
  obtain r wr st out where out: "wop_output_flush as (ow_output w) = (r, wr, st, out)"
    by (cases "wop_output_flush as (ow_output w)")
  have w': "w' = w\<lparr>ow_output := out\<rparr>" using fl out by (simp add: flush_owner_def)
  have "output_ok out"
    using flush_correct [OF out] owes by (auto simp: owes_def owner_ok_def output_ok_def flush_effect_def session_kept_def)
  then show "owes d w'" unfolding w' by (rule owes_output [OF owes])
  show "same_work w w'" "ow_finished w' = ow_finished w" "ow_status w' = ow_status w" by (simp_all add: w' same_work_def)
qed

lemma drain_output_owes: "owes d w \<Longrightarrow> owes d (drain_output as w) \<and> same_work w (drain_output as w)"
proof (induction as arbitrary: w)
  case (Cons a as)
  show ?case
  proof (cases "\<exists>wr. a = DrainReady wr")
    case True
    then obtain wr where a: "a = DrainReady wr" by blast
    obtain ok w' where fl: "flush_owner wr w = (ok, w')" by (cases "flush_owner wr w")
    note f = flush_owner_owes [OF Cons.prems fl]
    show ?thesis using Cons.IH [OF f(1)] f Cons.prems a fl by (auto simp: same_work_def)
  next
    case False
    then show ?thesis using Cons by (cases a) (auto simp: same_work_def)
  qed
qed (simp add: same_work_def)

lemma wop_owner_eof_owes:
  assumes "owes no_debt w"
  shows "owes no_debt (wop_owner_eof w)"
proof -
  have "owner_settled (w\<lparr>ow_finished := True, ow_status := 0\<rparr>)"
    using owes_settled [OF assms] by (simp add: owner_settled_def owner_ok_def admissions_def replies_def)
  then show ?thesis
    using assms terminal_code_owes [OF assms] by (auto simp: wop_owner_eof_def intro: finished_owes)
qed

lemma bootstrap_turn_owes:
  assumes "owes no_debt w" "bootstrap_turn t w = (x, w')"
  shows "owes no_debt w'"
proof -
  note tick = wop_owner_tick_owes [OF assms(1), of "tu_tick t"]
  obtain a w1 where 1: "flush_owner (tu_flush t) (wop_owner_tick (tu_tick t) w) = (a, w1)"
    by (cases "flush_owner (tu_flush t) (wop_owner_tick (tu_tick t) w)")
  note owes1 = flush_owner_owes(1) [OF tick 1]
  obtain b w2 where 2: "flush_owner (tu_flush_poll t) w1 = (b, w2)" by (cases "flush_owner (tu_flush_poll t) w1")
  note owes2 = flush_owner_owes(1) [OF owes1 2]
  have read: "owes no_debt v'" if "owes no_debt v"
    "flush_owner (tu_flush_read t) (case tu_read t of ReadBytes bytes \<Rightarrow> wop_owner_input (tu_lines t) bytes v | _ \<Rightarrow> wop_owner_eof v) = (c, v')"
    for v v' c
    by (rule flush_owner_owes(1) [OF _ that(2)])
      (use that(1) in \<open>auto simp: wop_owner_input_owes wop_owner_eof_owes split: read_answer.splits\<close>)
  show ?thesis
    using assms(2) 1 2 owes1 owes2 read [OF owes1] read [OF owes2]
    by (cases "tu_poll t") (auto simp: bootstrap_turn_def split: if_splits prod.splits)
qed

interpretation opcua_owner: action_machine "\<lambda>t w. snd (bootstrap_turn t w)" "owes no_debt" "\<lambda>_. True"
  by unfold_locales (metis bootstrap_turn_owes prod.collapse)

lemma bootstrap_loop_run: "\<exists>us. snd (bootstrap_loop ts w) = run_actions (\<lambda>t w. snd (bootstrap_turn t w)) us w"
proof (induction ts arbitrary: w)
  case Nil
  show ?case by (rule exI [of _ "[]"]) simp
next
  case (Cons t ts)
  obtain x w1 where t: "bootstrap_turn t w = (x, w1)" by (cases "bootstrap_turn t w")
  obtain us where "snd (bootstrap_loop ts w1) = run_actions (\<lambda>t w. snd (bootstrap_turn t w)) us w1" using Cons by blast
  then show ?case
    using t by (cases x) (auto intro: exI [of _ "t # us"] exI [of _ "[t]"])
qed

lemma bootstrap_loop_owes: "owes no_debt w \<Longrightarrow> owes no_debt (snd (bootstrap_loop ts w))"
  using bootstrap_loop_run [of ts w] opcua_owner.run_inv [of w] by (auto simp: list_all_iff)

lemma bootstrap_start_owes: "owes no_debt (snd (bootstrap_start revision now as))"
proof -
  obtain r out where ctl: "wop_output_control (ready_line revision now) False (ow_output (wop_owner_init True)) = (r, out)"
    by (cases "wop_output_control (ready_line revision now) False (ow_output (wop_owner_init True))")
  have "output_ok out"
    using control_output_ok [of "ow_output (wop_owner_init True)" "ready_line revision now" False] ctl
      wop_owner_init_owes [of True] by (simp add: owes_def owner_ok_def)
  then have "owes no_debt ((wop_owner_init True)\<lparr>ow_output := out\<rparr>)" by (rule owes_output [OF wop_owner_init_owes])
  then show ?thesis
    using flush_owner_owes(1) [of no_debt "(wop_owner_init True)\<lparr>ow_output := out\<rparr>" as] wop_owner_init_owes [of True] ctl
    by (cases "flush_owner as ((wop_owner_init True)\<lparr>ow_output := out\<rparr>)") (auto simp: bootstrap_start_def wop_owner_ready_def)
qed

lemma wop_owner_shutdown_settled: "owner_settled w \<Longrightarrow> owner_settled (wop_owner_shutdown env w)"
  using retire_outstanding_settled [of w env]
  by (auto simp: wop_owner_shutdown_def Let_def owner_settled_def owner_ok_def admissions_def replies_def log_event_def)

text \<open>Retiring the outstanding slots leaves none.\<close>

lemma retire_step_cleared:
  fixes env :: owner_env
  assumes "i < length (ow_operations w)" "\<And>j. j < i \<Longrightarrow> \<not> slot_outstanding (ow_operations w ! j)"
  defines "w' \<equiv> if slot_outstanding (ow_operations w ! i) then owner_retire env i False w else w"
  shows "length (ow_operations w') = length (ow_operations w) \<and> (\<forall>j < Suc i. \<not> slot_outstanding (ow_operations w' ! j))"
proof -
  obtain s where "ow_operations (owner_retire env i False w) = (ow_operations w)[i := s]" "\<not> slot_outstanding s"
    using owner_retire_ops [of env i False w] by (auto simp: slot_outstanding_def)
  then show ?thesis using assms(1,2) by (auto simp: w'_def less_Suc_eq nth_list_update)
qed

lemma retire_outstanding_cleared:
  assumes "length (ow_operations w) = owner_operations"
  shows "list_all (\<lambda>s. \<not> slot_outstanding s) (ow_operations (retire_outstanding env w))"
proof -
  let ?f = "\<lambda>i w. if slot_outstanding (ow_operations w ! i) then owner_retire env i False w else w"
  have "n \<le> owner_operations \<Longrightarrow> length (ow_operations (fold ?f [0..<n] w)) = owner_operations \<and>
      (\<forall>j < n. \<not> slot_outstanding (ow_operations (fold ?f [0..<n] w) ! j))" for n
  proof (induction n)
    case (Suc n)
    then have IH: "length (ow_operations (fold ?f [0..<n] w)) = owner_operations"
      "\<And>j. j < n \<Longrightarrow> \<not> slot_outstanding (ow_operations (fold ?f [0..<n] w) ! j)" by auto
    show ?case using retire_step_cleared [of n "fold ?f [0..<n] w" env] IH Suc.prems by (simp del: One_nat_def)
  qed (use assms in simp)
  from this [of owner_operations] show ?thesis by (simp add: retire_outstanding_def list_all_length)
qed

lemma slots_ok_distinct:
  assumes "slots_ok ss"
  shows "distinct (map sl_handle (filter (\<lambda>s. sl_state s \<noteq> SlotFree) ss))"
proof -
  have "distinct (map sl_handle (filter (\<lambda>s. sl_state s \<noteq> SlotFree) xs))"
    if "\<And>i j. i < length xs \<Longrightarrow> j < length xs \<Longrightarrow> i \<noteq> j \<Longrightarrow> sl_state (xs ! i) \<noteq> SlotFree \<Longrightarrow> sl_state (xs ! j) \<noteq> SlotFree \<Longrightarrow>
        sl_handle (xs ! i) \<noteq> sl_handle (xs ! j)" for xs
    using that
  proof (induction xs)
    case (Cons x xs)
    have "distinct (map sl_handle (filter (\<lambda>s. sl_state s \<noteq> SlotFree) xs))"
      by (rule Cons.IH) (use Cons.prems [of "Suc _" "Suc _"] in auto)
    moreover have "sl_handle x \<noteq> sl_handle y" if y: "y \<in> set xs" "sl_state x \<noteq> SlotFree" "sl_state y \<noteq> SlotFree" for y
    proof -
      obtain j where "j < length xs" "y = xs ! j" using y(1) by (auto simp: in_set_conv_nth)
      then show ?thesis using Cons.prems [of 0 "Suc j"] y by simp
    qed
    ultimately show ?case by auto
  qed simp
  from this [of ss] show ?thesis using assms unfolding slots_ok_def by metis
qed

lemma owner_ok_slots:
  assumes "owner_ok w"
  shows "ow_occupied w \<le> owner_operations" "distinct (map sl_handle (filter (\<lambda>s. sl_state s \<noteq> SlotFree) (ow_operations w)))"
    "wop_output_inv (ow_output w)" "\<not> ow_undefined w"
  using assms slots_ok_distinct [of "ow_operations w"] length_filter_le [of "\<lambda>s. sl_state s \<noteq> SlotFree" "ow_operations w"]
  by (auto simp: owner_ok_def slots_ok_def output_ok_def)

text \<open>The end of the process: what is still outstanding is given up, unanswered.\<close>

lemma bootstrap_end:
  fixes env :: owner_env and before after :: "drain_answer list"
  assumes owes: "owes d w"
  defines "w' \<equiv> drain_output after (wop_owner_shutdown env (drain_output before w))"
  shows "owner_settled w'" "list_all (\<lambda>s. \<not> slot_outstanding s) (ow_operations w')" "ow_session w' = OwnerClosed"
proof -
  let ?d = "drain_output before w" and ?s = "wop_owner_shutdown env (drain_output before w)"
  have d: "owes d ?d" using drain_output_owes [OF owes] by blast
  have "owner_settled ?s" by (rule wop_owner_shutdown_settled [OF owes_settled [OF d]])
  then obtain e where e: "owes e ?s" by (auto simp: settled_some)
  note last = drain_output_owes [OF e, of after]
  show "owner_settled w'" using last owes_settled unfolding w'_def by blast
  have "list_all (\<lambda>s. \<not> slot_outstanding s) (ow_operations ?s)" "ow_session ?s = OwnerClosed"
    using retire_outstanding_cleared [of ?d env] d
    by (simp_all add: wop_owner_shutdown_def Let_def owes_def owner_ok_def slots_ok_def)
  then show "list_all (\<lambda>s. \<not> slot_outstanding s) (ow_operations w')" "ow_session w' = OwnerClosed"
    using last by (simp_all add: w'_def same_work_def)
qed

text \<open>
  C2: Whatever the process reads, and whatever the SDK, the clock, the JSON library, the allocator and the
  descriptors answer, the OPC UA host answers every admitted request at most once, and no identifier that was not admitted.
  While it runs and has not ended the generation, each admitted request has been answered, or is the opening in
  progress, or holds one of the 64 slots; and its dispatch loop leaves no slot queued.  The slots in use have
  different request handles, the output keeps its bounds, and no absent slot is written.  When the process ends, no
  slot is outstanding and the session is closed.
\<close>

theorem owner_replies_once:
  "case bootstrap revision now as ts before env after of (status, w) \<Rightarrow>
     (\<forall>ident. replies ident w \<le> admissions ident w) \<and>
     ow_occupied w \<le> 64 \<and> distinct (map sl_handle (filter (\<lambda>s. sl_state s \<noteq> SlotFree) (ow_operations w))) \<and>
     wop_output_inv (ow_output w) \<and> \<not> ow_undefined w \<and>
     (if status = None
      then ow_finished w \<or>
        (\<forall>ident. admissions ident w = replies ident w + unanswered ident w) \<and>
        (\<forall>env' now'. ow_finished (dispatch_queued env' now' w) \<or> oldest_queued (dispatch_queued env' now' w) = None)
      else list_all (\<lambda>s. \<not> slot_outstanding s) (ow_operations w) \<and> ow_session w = OwnerClosed)"
proof -
  obtain ok w0 where start: "bootstrap_start revision now as = (ok, w0)" by (cases "bootstrap_start revision now as")
  obtain s w1 where loop: "(if ok then bootstrap_loop ts w0 else (Some 70, w0)) = (s, w1)"
    by (cases "if ok then bootstrap_loop ts w0 else (Some 70, w0)")
  have "owes no_debt w0" using bootstrap_start_owes [of revision now as] start by simp
  then have owes: "owes no_debt w1" using bootstrap_loop_owes [of w0 ts] loop by (auto split: if_splits)
  let ?e = "drain_output after (wop_owner_shutdown env (drain_output before w1))"
  note fin = bootstrap_end [OF owes, of after env before]
  have res: "bootstrap revision now as ts before env after = (if s = None then (None, w1) else (s, ?e))"
    using start loop by (simp add: bootstrap_def)
  show ?thesis
  proof (cases "s = None")
    case True
    have "owner_ok w1" using owes by (simp add: owes_def)
    note ok = owner_ok_slots [OF this]
    have "ow_finished w1 \<or> (\<forall>ident. admissions ident w1 = replies ident w1 + unanswered ident w1)"
      using owes by (auto simp: owes_def no_debt_def simp flip: of_nat_add)
    then show ?thesis
      using True res ok owes dispatch_queued_done [OF owes] by (auto simp: owes_def owner_operations_def)
  next
    case False
    have "owner_ok ?e" using fin(1) by (simp add: owner_settled_def)
    note ok = owner_ok_slots [OF this]
    show ?thesis using False res ok fin by (auto simp: owner_settled_def owner_operations_def)
  qed
qed

end
