(* ===== verification/Opcua_Subscription.thy ===== *)
theory Opcua_Subscription
  imports Complex_Main Opcua_Sequence Opcua_Owner
begin

text \<open>
  The subscriptions of an OPC UA session (\<open>subscription_rules.c\<close>, \<open>session_subscription.c\<close>, with the state of
  \<open>session_open.h\<close> and the calls of \<open>session_open.c\<close> that lead to it): the table of 32 subscriptions, the slots of
  subscribe and unsubscribe operations, and their creation and deletion on the server.  The SDK's answers are
  arguments of the callbacks and of the calls that send.  Floating-point intervals are rational numbers, \<open>None\<close> one
  that is not finite; the result of rounding is a parameter where the code computes with them.  Status codes are those
  of the OPC UA standard.  The fields from \<open>ps_slots\<close> on are not in the session: the state of each slot as the
  owner keeps it, and a record of what was created, deleted, accepted and emitted, which no operation reads.
\<close>

type_synonym ua_status = u32

section \<open>Parameters\<close>

record wop_subscription_parameters =
  sp_publishing :: "rat option"
  sp_sampling :: "rat option"
  sp_queue_size :: nat
  sp_discard_oldest :: bool
  sp_keepalive :: nat
  sp_lifetime :: nat

definition interval_within :: "rat \<Rightarrow> rat option \<Rightarrow> bool" where
  "interval_within low v = (case v of None \<Rightarrow> False | Some r \<Rightarrow> low \<le> r \<and> r \<le> 60000)"

definition parameters_ranged :: "wop_subscription_parameters \<Rightarrow> bool" where
  "parameters_ranged p \<longleftrightarrow> interval_within 10 (sp_publishing p) \<and> interval_within 0 (sp_sampling p) \<and>
     1 \<le> sp_queue_size p \<and> sp_queue_size p \<le> 1000 \<and> 1 \<le> sp_keepalive p \<and> sp_keepalive p \<le> 1000 \<and>
     3 \<le> sp_lifetime p \<and> sp_lifetime p \<le> 10000 \<and> 3 * sp_keepalive p \<le> sp_lifetime p"

definition subscription_count :: "yyval option \<Rightarrow> nat option" where
  "subscription_count v =
     (case wop_json_uint64 v of None \<Rightarrow> None | Some n \<Rightarrow> if n > 4294967295 then None else Some n)"

text \<open>\<open>real_of\<close> reads a number, as \<open>wop_json_double\<close> does: \<open>None\<close> where it fails, \<open>Some None\<close> where it is not finite.\<close>

definition subscription_interval :: "(yyval option \<Rightarrow> rat option option) \<Rightarrow> yyval option \<Rightarrow> rat option" where
  "subscription_interval real_of v = (case real_of v of Some (Some r) \<Rightarrow> Some r | _ \<Rightarrow> None)"

definition wop_subscription_read ::
  "(yyval option \<Rightarrow> rat option option) \<Rightarrow> yyval \<Rightarrow> wop_subscription_parameters option" where
  "wop_subscription_read real_of p =
     (if \<not> yy_is_obj p \<or> yy_size p \<noteq> 7 \<or> yy_get p ''node_id'' = None then None
      else case subscription_interval real_of (yy_get p ''publishing_interval_ms'') of None \<Rightarrow> None
      | Some pub \<Rightarrow> (case subscription_interval real_of (yy_get p ''sampling_interval_ms'') of None \<Rightarrow> None
      | Some sam \<Rightarrow> (case subscription_count (yy_get p ''queue_size'') of None \<Rightarrow> None
      | Some q \<Rightarrow> (case subscription_count (yy_get p ''keepalive_count'') of None \<Rightarrow> None
      | Some k \<Rightarrow> (case subscription_count (yy_get p ''lifetime_count'') of None \<Rightarrow> None
      | Some l \<Rightarrow> (case yy_get p ''discard_oldest'' of
          Some (YBool d) \<Rightarrow>
            let r = \<lparr>sp_publishing = Some pub, sp_sampling = Some sam, sp_queue_size = q, sp_discard_oldest = d,
                     sp_keepalive = k, sp_lifetime = l\<rparr>
            in if parameters_ranged r then Some r else None
        | _ \<Rightarrow> None))))))"

definition no_parameters :: wop_subscription_parameters where
  "no_parameters = \<lparr>sp_publishing = Some 0, sp_sampling = Some 0, sp_queue_size = 0, sp_discard_oldest = False,
     sp_keepalive = 0, sp_lifetime = 0\<rparr>"

section \<open>State\<close>

definition session_subscriptions :: nat where
  "session_subscriptions = 32"

definition session_publish :: nat where
  "session_publish = 4"

definition session_ready :: nat where
  "session_ready = 256"

definition session_held :: nat where
  "session_held = 4"

definition session_acks :: nat where
  "session_acks = 64"

text \<open>The content of a value is what the SDK decoded.\<close>

record ua_value =
  uv_content :: nat
  uv_status :: "ua_status option"

datatype ua_notification = NotDecoded | StatusChange ua_status | DataChange "(u32 \<times> ua_value) list" | OtherNotification

record ua_message =
  um_sequence :: u32
  um_time :: int
  um_data :: "ua_notification list"

record ua_publish =
  up_result :: ua_status
  up_acks :: "ua_status list"
  up_subscription :: u32
  up_message :: ua_message

record wop_subscription =
  su_used :: bool
  su_closing :: bool
  su_serial :: u64
  su_remote :: u32
  su_item :: u32
  su_handle :: u32
  su_revised :: wop_subscription_parameters
  su_activity_ms :: int
  su_sequence :: wop_sequence
  su_acks :: "u32 list"
  su_held :: "ua_message list"
  su_republish_pending :: bool
  su_republish_delivered :: bool
  su_republish_request :: u32
  su_republish_sequence :: u32
  su_republish_status :: ua_status
  su_republished :: ua_message
  su_failed :: bool
  su_failure_code :: string
  su_failure_status :: "ua_status option"

record wop_ready_report =
  rp_subscription :: nat
  rp_serial :: u64
  rp_sequence :: u32
  rp_time :: int
  rp_handle :: u32
  rp_value :: ua_value

text \<open>The fields of \<open>WopSessionOperation\<close> that subscribe and unsubscribe operations use.\<close>

record session_operation =
  so_kind :: opcua_operation_kind
  so_request_id :: u32
  so_pending :: bool
  so_delivered :: bool
  so_abandoned :: bool
  so_valid :: bool
  so_remote_error :: bool
  so_transport_error :: bool
  so_timed_out :: bool
  so_status :: ua_status
  so_stage :: nat
  so_requested :: wop_subscription_parameters
  so_revised :: wop_subscription_parameters
  so_created :: u32
  so_item :: u32
  so_item_status :: ua_status
  so_subscription :: nat
  so_serial :: u64

record wop_session =
  ps_operations :: "session_operation list"
  ps_subscriptions :: "wop_subscription list"
  ps_serial :: u64
  ps_reports :: "wop_ready_report list"
  ps_inbox :: "ua_publish list"
  ps_outstanding :: nat
  ps_queued_frames :: nat
  ps_orphaned :: bool
  ps_fault :: bool
  ps_slots :: "slot_state list"
  ps_created :: "u32 list"
  ps_deleted :: "u32 list"
  ps_accepted :: "(u64 \<times> u32 \<times> wop_ready_report list) list"
  ps_emitted :: "wop_ready_report list"

definition empty_message :: ua_message where
  "empty_message = \<lparr>um_sequence = 0, um_time = 0, um_data = []\<rparr>"

text \<open>An entry after \<open>memset\<close>; its sequence is allocated with the next use.\<close>

definition unused_subscription :: wop_subscription where
  "unused_subscription = \<lparr>su_used = False, su_closing = False, su_serial = 0, su_remote = 0, su_item = 0, su_handle = 0,
     su_revised = no_parameters, su_activity_ms = 0,
     su_sequence = wop_sequence_init 0, su_acks = [], su_held = [], su_republish_pending = False,
     su_republish_delivered = False, su_republish_request = 0, su_republish_sequence = 0, su_republish_status = 0,
     su_republished = empty_message, su_failed = False, su_failure_code = [], su_failure_status = None\<rparr>"

definition empty_operation :: session_operation where
  "empty_operation = \<lparr>so_kind = KindRead, so_request_id = 0, so_pending = False, so_delivered = False, so_abandoned = False,
     so_valid = False, so_remote_error = False, so_transport_error = False, so_timed_out = False, so_status = 0, so_stage = 0,
     so_requested = no_parameters, so_revised = no_parameters, so_created = 0, so_item = 0, so_item_status = 0,
     so_subscription = 0, so_serial = 0\<rparr>"

definition session_init :: wop_session where
  "session_init = \<lparr>ps_operations = replicate owner_operations empty_operation,
     ps_subscriptions = replicate session_subscriptions unused_subscription, ps_serial = 0,
     ps_reports = [], ps_inbox = [], ps_outstanding = 0, ps_queued_frames = 0, ps_orphaned = False, ps_fault = False,
     ps_slots = replicate owner_operations SlotFree, ps_created = [], ps_deleted = [], ps_accepted = [], ps_emitted = []\<rparr>"

definition sub_at :: "wop_session \<Rightarrow> nat \<Rightarrow> wop_subscription" where
  "sub_at s i = ps_subscriptions s ! i"

definition set_sub :: "nat \<Rightarrow> (wop_subscription \<Rightarrow> wop_subscription) \<Rightarrow> wop_session \<Rightarrow> wop_session" where
  "set_sub i f s = s\<lparr>ps_subscriptions := (ps_subscriptions s)[i := f (sub_at s i)]\<rparr>"

definition op_at :: "wop_session \<Rightarrow> nat \<Rightarrow> session_operation" where
  "op_at s k = ps_operations s ! k"

definition set_op :: "nat \<Rightarrow> (session_operation \<Rightarrow> session_operation) \<Rightarrow> wop_session \<Rightarrow> wop_session" where
  "set_op k f s = s\<lparr>ps_operations := (ps_operations s)[k := f (op_at s k)]\<rparr>"

text \<open>The request is best effort; \<open>ps_deleted\<close> records it.\<close>

definition delete_remote :: "u32 \<Rightarrow> wop_session \<Rightarrow> wop_session" where
  "delete_remote n s = (if n = 0 then s else s\<lparr>ps_deleted := ps_deleted s @ [n]\<rparr>)"

section \<open>Admission\<close>

definition token_serial :: "yyval option \<Rightarrow> u64 option" where
  "token_serial v =
     (case v of Some (YStr t) \<Rightarrow>
        if length t < 2 \<or> length t > 21 \<or> t ! 0 \<noteq> CHR ''s'' \<or> t ! 1 = CHR ''0'' then None else magnitude_loop 0 (tl t)
      | _ \<Rightarrow> None)"

definition find_serial :: "yyval option \<Rightarrow> wop_session \<Rightarrow> nat option" where
  "find_serial v s =
     (case token_serial v of None \<Rightarrow> None
      | Some n \<Rightarrow> find (\<lambda>i. su_used (sub_at s i) \<and> su_serial (sub_at s i) = n) [0..<session_subscriptions])"

definition subscriptions_reserved :: "wop_session \<Rightarrow> nat" where
  "subscriptions_reserved s = length (filter su_used (ps_subscriptions s)) +
     length (filter (\<lambda>p. so_kind p = KindSubscribe \<and> so_serial p \<noteq> 0) (ps_operations s))"

text \<open>
  The failure that is reported where a call returns false with one, the given one otherwise.  Whether the node was
  translated and copied is an argument.
\<close>

definition prepare_unsubscribe :: "nat \<Rightarrow> yyval \<Rightarrow> wop_session \<Rightarrow> bool \<times> wop_session" where
  "prepare_unsubscribe k p s =
     (if \<not> yy_is_obj p \<or> yy_size p \<noteq> 1 then (False, s)
      else case find_serial (yy_get p ''subscription'') s of None \<Rightarrow> (False, s)
        | Some i \<Rightarrow>
            if su_closing (sub_at s i) \<or> su_failed (sub_at s i) then (False, s)
            else (True, set_op k (\<lambda>q. q\<lparr>so_subscription := i\<rparr>) (set_sub i (\<lambda>u. u\<lparr>su_closing := True\<rparr>) s)))"

definition prepare_subscribe ::
  "(yyval option \<Rightarrow> rat option option) \<Rightarrow> bool \<Rightarrow> nat \<Rightarrow> yyval \<Rightarrow> wop_failure \<Rightarrow> wop_session \<Rightarrow> bool \<times> wop_failure \<times> wop_session" where
  "prepare_subscribe real_of node k p failure s =
     (case wop_subscription_read real_of p of None \<Rightarrow> (False, failure, s)
      | Some r \<Rightarrow>
        let s1 = set_op k (\<lambda>q. q\<lparr>so_requested := r\<rparr>) s in
        if subscriptions_reserved s1 \<ge> session_subscriptions \<or> ps_serial s1 \<ge> 4294967295
        then (False, \<lparr>wf_code = ''busy'', wf_phase = ''admission'', wf_unknown_effect = False, wf_status = None\<rparr>, s1)
        else if \<not> node then (False, failure, s1)
        else let n = add64 (ps_serial s1) 1 in
          (True, failure, set_op k (\<lambda>q. q\<lparr>so_serial := n\<rparr>) (s1\<lparr>ps_serial := n\<rparr>)))"

definition wop_subscription_prepare ::
  "(yyval option \<Rightarrow> rat option option) \<Rightarrow> bool \<Rightarrow> nat \<Rightarrow> yyval \<Rightarrow> wop_failure \<Rightarrow> wop_session \<Rightarrow> bool \<times> wop_failure \<times> wop_session" where
  "wop_subscription_prepare real_of node k p failure s =
     (if so_kind (op_at s k) = KindUnsubscribe
      then (case prepare_unsubscribe k p s of (ok, s') \<Rightarrow> (ok, failure, s'))
      else prepare_subscribe real_of node k p failure s)"

definition clear_operation :: "session_operation \<Rightarrow> session_operation" where
  "clear_operation q = empty_operation\<lparr>so_request_id := so_request_id q, so_pending := so_pending q, so_abandoned := so_abandoned q\<rparr>"

text \<open>\<open>session_prepare\<close> for a session that is ready and an operation of the two kinds.\<close>

definition session_prepare ::
  "(yyval option \<Rightarrow> rat option option) \<Rightarrow> bool \<Rightarrow> opcua_operation_kind \<Rightarrow> nat \<Rightarrow> yyval \<Rightarrow> wop_failure \<Rightarrow> wop_session \<Rightarrow>
    bool \<times> wop_failure \<times> wop_session" where
  "session_prepare real_of node kind k p failure s =
     (if so_pending (op_at s k)
      then (False, \<lparr>wf_code = ''invalid_request'', wf_phase = ''validation'', wf_unknown_effect = False, wf_status = None\<rparr>, s)
      else let s1 = set_op k (\<lambda>q. (clear_operation q)\<lparr>so_abandoned := False, so_kind := kind\<rparr>) s in
        case wop_subscription_prepare real_of node k p failure s1 of (prepared, f, s2) \<Rightarrow>
          (prepared, f, if prepared then s2 else set_op k clear_operation s2))"

section \<open>Responses of the server\<close>

definition transport_statuses :: "ua_status list" where
  "transport_statuses = [0x800C0000, 0x80AE0000, 0x800D0000, 0x80860000, 0x80220000, 0x80260000, 0x80250000, 0x80050000, 0x80AD0000]"

definition status_timeout :: ua_status where
  "status_timeout = 0x800A0000"

definition status_unexpected :: ua_status where
  "status_unexpected = 0x80010000"

definition status_memory :: ua_status where
  "status_memory = 0x80030000"

definition accept_response :: "u32 \<Rightarrow> ua_status option \<Rightarrow> session_operation \<Rightarrow> bool \<times> session_operation" where
  "accept_response request header q =
     (if \<not> so_pending q \<or> request \<noteq> so_request_id q then (False, q)
      else let q1 = q\<lparr>so_pending := False\<rparr> in
        if so_abandoned q1 then (False, q1)
        else let q2 = q1\<lparr>so_delivered := True, so_status := status_unexpected\<rparr> in
          case header of None \<Rightarrow> (False, q2)
          | Some result \<Rightarrow>
              if result = 0 then (True, q2)
              else let q3 = q2\<lparr>so_status := result\<rparr> in
                (False, if result \<in> set transport_statuses then q3\<lparr>so_transport_error := True\<rparr>
                        else if result = status_timeout then q3\<lparr>so_timed_out := True\<rparr> else q3\<lparr>so_remote_error := True\<rparr>))"

record create_response =
  cr_result :: ua_status
  cr_subscription :: u32
  cr_publishing :: "rat option"
  cr_lifetime :: nat
  cr_keepalive :: nat

definition receive_create_subscription :: "nat \<Rightarrow> u32 \<Rightarrow> create_response option \<Rightarrow> wop_session \<Rightarrow> wop_session" where
  "receive_create_subscription k request response s =
     (case accept_response request (map_option cr_result response) (op_at s k) of (ok, q) \<Rightarrow>
        let s1 = set_op k (\<lambda>_. q) s in
        case response of
          Some r \<Rightarrow>
            if \<not> ok then s1
            else (set_op k (\<lambda>q. q\<lparr>so_created := cr_subscription r,
                so_revised := (so_revised q)\<lparr>sp_publishing := cr_publishing r, sp_lifetime := cr_lifetime r,
                  sp_keepalive := cr_keepalive r\<rparr>, so_valid := (cr_subscription r \<noteq> 0)\<rparr>) s1)
              \<lparr>ps_created := (if cr_subscription r = 0 then ps_created s else ps_created s @ [cr_subscription r])\<rparr>
        | None \<Rightarrow> s1)"

record item_result =
  ir_status :: ua_status
  ir_item :: u32
  ir_sampling :: "rat option"
  ir_queue_size :: nat

text \<open>An array is \<open>None\<close> where its pointer is null.\<close>

record items_response =
  is_result :: ua_status
  is_results :: "item_result list option"
  is_diagnostics :: nat

definition receive_create_items :: "nat \<Rightarrow> u32 \<Rightarrow> items_response option \<Rightarrow> wop_session \<Rightarrow> wop_session" where
  "receive_create_items k request response s =
     (case accept_response request (map_option is_result response) (op_at s k) of (ok, q) \<Rightarrow>
        set_op k (\<lambda>_.
          case response of None \<Rightarrow> q
          | Some r \<Rightarrow>
              if \<not> ok then q
              else case is_results r of
                Some [x] \<Rightarrow>
                  if is_diagnostics r \<noteq> 0 then q
                  else q\<lparr>so_item_status := ir_status x, so_item := ir_item x,
                    so_revised := (so_revised q)\<lparr>sp_sampling := ir_sampling x, sp_queue_size := ir_queue_size x\<rparr>, so_valid := True\<rparr>
              | _ \<Rightarrow> q) s)"

record delete_response =
  dr_result :: ua_status
  dr_results :: "ua_status list option"
  dr_diagnostics :: nat

text \<open>Both stages of a deletion read the same fields.\<close>

definition receive_delete :: "nat \<Rightarrow> u32 \<Rightarrow> delete_response option \<Rightarrow> wop_session \<Rightarrow> wop_session" where
  "receive_delete k request response s =
     (case accept_response request (map_option dr_result response) (op_at s k) of (ok, q) \<Rightarrow>
        set_op k (\<lambda>_.
          case response of None \<Rightarrow> q
          | Some r \<Rightarrow> if \<not> ok then q else q\<lparr>so_valid := (dr_results r = Some [0] \<and> dr_diagnostics r = 0)\<rparr>) s)"

section \<open>Dispatch and completion\<close>

text \<open>A call that sends has the SDK's answer: whether it was taken, and the number of the request.\<close>

definition session_dispatch :: "bool \<Rightarrow> bool \<Rightarrow> u32 \<Rightarrow> nat \<Rightarrow> wop_session \<Rightarrow> bool \<times> wop_session" where
  "session_dispatch reachable sent request k s =
     (if \<not> reachable then (False, s)
      else (sent, set_op k (\<lambda>q. q\<lparr>so_stage := 0, so_pending := sent, so_request_id := request\<rparr>) s))"

definition send_create_items :: "bool \<Rightarrow> u32 \<Rightarrow> session_operation \<Rightarrow> session_operation" where
  "send_create_items sent request q =
     q\<lparr>so_pending := sent, so_delivered := False, so_valid := False, so_stage := 1, so_request_id := request\<rparr>"

record subscribe_result =
  sr_token :: string
  sr_remote :: u32
  sr_item :: u32
  sr_handle :: u64
  sr_revised :: wop_subscription_parameters
  sr_item_status :: ua_status

datatype session_completion =
  SessionPending | Subscribed subscribe_result | Unsubscribed | SessionFailure wop_failure | SessionTerminal wop_failure

definition failure_plain :: "string \<Rightarrow> string \<Rightarrow> wop_failure" where
  "failure_plain code phase = \<lparr>wf_code = code, wf_phase = phase, wf_unknown_effect = False, wf_status = None\<rparr>"

definition failure_status :: "string \<Rightarrow> string \<Rightarrow> ua_status \<Rightarrow> wop_failure" where
  "failure_status code phase st = \<lparr>wf_code = code, wf_phase = phase, wf_unknown_effect = False, wf_status = Some (unat st)\<rparr>"

text \<open>What the session asks of its surroundings while it completes an operation.\<close>

record complete_env =
  ce_sent :: bool
  ce_request :: u32
  ce_memory :: bool
  ce_built :: bool
  ce_clock :: int

definition free_index :: "wop_session \<Rightarrow> nat option" where
  "free_index s = find (\<lambda>i. \<not> su_used (sub_at s i)) [0..<session_subscriptions]"

text \<open>The ways a subscribe operation fails after its subscription was created: it is deleted again.\<close>

definition subscribe_failed :: "nat \<Rightarrow> wop_failure \<Rightarrow> wop_session \<Rightarrow> session_completion \<times> wop_session" where
  "subscribe_failed k f s =
     (SessionFailure f, set_op k (\<lambda>q. q\<lparr>so_created := 0\<rparr>) (delete_remote (so_created (op_at s k)) s))"

definition new_subscription :: "complete_env \<Rightarrow> session_operation \<Rightarrow> wop_subscription" where
  "new_subscription env q = unused_subscription\<lparr>su_used := True, su_serial := so_serial q, su_remote := so_created q,
     su_item := so_item q, su_handle := of_nat (so_serial q), su_revised := so_revised q, su_activity_ms := ce_clock env\<rparr>"

definition subscribe_complete :: "complete_env \<Rightarrow> nat \<Rightarrow> wop_session \<Rightarrow> session_completion \<times> wop_session" where
  "subscribe_complete env k s =
     (let q = op_at s k in
      if so_stage q = 0 then
        (if so_remote_error q \<or> \<not> so_valid q
         then subscribe_failed k (if so_remote_error q then failure_status ''remote_error'' ''exchange'' (so_status q)
           else failure_plain ''invalid_response'' ''decode'') s
         else let s1 = set_op k (send_create_items (ce_sent env) (ce_request env)) s in
           if \<not> ce_sent env then subscribe_failed k (failure_plain ''connection_failed'' ''exchange'') s1
           else (SessionPending, s1))
      else if so_remote_error q \<or> \<not> so_valid q \<or> so_item_status q AND 0x80000000 \<noteq> 0 \<or> so_item q = 0 \<or>
          \<not> parameters_ranged (so_revised q)
      then subscribe_failed k
        (if so_remote_error q then failure_status ''remote_error'' ''exchange'' (so_status q)
         else if so_valid q \<and> so_item_status q AND 0x80000000 \<noteq> 0 then failure_status ''remote_error'' ''exchange'' (so_item_status q)
         else failure_plain ''invalid_response'' ''decode'') s
      else case free_index s of None \<Rightarrow> subscribe_failed k (failure_plain ''busy'' ''admission'') s
      | Some i \<Rightarrow>
          if \<not> ce_memory env then subscribe_failed k (failure_plain ''busy'' ''admission'') s
          else if \<not> ce_built env then subscribe_failed k (failure_plain ''response_limit'' ''decode'') s
          else (Subscribed \<lparr>sr_token = CHR ''s'' # to_decimal (so_serial q), sr_remote = so_created q, sr_item = so_item q,
                  sr_handle = so_serial q, sr_revised = so_revised q, sr_item_status = so_item_status q\<rparr>,
                set_op k (\<lambda>q. q\<lparr>so_created := 0, so_serial := 0\<rparr>) (set_sub i (\<lambda>_. new_subscription env q) s)))"

text \<open>The subscription's reports that were not emitted are dropped with it.\<close>

definition free_subscription :: "nat \<Rightarrow> wop_session \<Rightarrow> wop_session" where
  "free_subscription i s =
     set_sub i (\<lambda>_. unused_subscription)
       (s\<lparr>ps_reports := filter (\<lambda>r. \<not> (rp_subscription r = i \<and> rp_serial r = su_serial (sub_at s i))) (ps_reports s)\<rparr>)"

text \<open>
  The last stage sends nothing: the server has confirmed the deletion that the first stage asked for, and only the record
  \<open>ps_deleted\<close> is extended.
\<close>

abbreviation note_deleted :: "u32 \<Rightarrow> wop_session \<Rightarrow> wop_session" where
  "note_deleted \<equiv> delete_remote"

definition unsubscribe_complete :: "complete_env \<Rightarrow> nat \<Rightarrow> wop_session \<Rightarrow> session_completion \<times> wop_session" where
  "unsubscribe_complete env k s =
     (let q = op_at s k; i = so_subscription q in
      if so_remote_error q \<or> \<not> so_valid q
      then (SessionTerminal (if so_remote_error q then failure_status ''cleanup_failed'' ''cleanup'' (so_status q)
              else failure_plain ''cleanup_failed'' ''cleanup''), s)
      else if so_stage q = 0 then
        let s1 = set_op k (\<lambda>q. q\<lparr>so_stage := 1, so_pending := ce_sent env, so_delivered := False, so_valid := False,
                   so_request_id := ce_request env\<rparr>) s
        in if \<not> ce_sent env then (SessionTerminal (failure_plain ''cleanup_failed'' ''cleanup''), s1) else (SessionPending, s1)
      else (if ce_built env then Unsubscribed else SessionTerminal (failure_plain ''invalid_response'' ''decode''),
            free_subscription i (if su_used (sub_at s i) then note_deleted (su_remote (sub_at s i)) s else s)))"

text \<open>\<open>session_complete\<close> for the two kinds, with \<open>wop_subscription_complete\<close>.\<close>

definition session_complete :: "complete_env \<Rightarrow> nat \<Rightarrow> wop_session \<Rightarrow> session_completion \<times> wop_session" where
  "session_complete env k s =
     (let q = op_at s k in
      if so_pending q \<or> \<not> so_delivered q then (SessionPending, s)
      else if so_transport_error q then (SessionTerminal (failure_status ''connection_failed'' ''exchange'' (so_status q)), s)
      else if so_timed_out q then (SessionFailure (failure_plain ''deadline_exceeded'' ''exchange''), s)
      else if so_kind q = KindSubscribe then subscribe_complete env k s else unsubscribe_complete env k s)"

definition wop_subscription_retire :: "nat \<Rightarrow> wop_session \<Rightarrow> wop_session" where
  "wop_subscription_retire k s =
     (let q = op_at s k; i = so_subscription q in
      if so_kind q = KindSubscribe then
        let s1 = delete_remote (so_created q) s;
          s2 = (if so_pending q \<and> so_stage q = 0 then s1\<lparr>ps_orphaned := True\<rparr> else s1)
        in set_op k (\<lambda>q. q\<lparr>so_created := 0\<rparr>) s2
      else if \<not> su_used (sub_at s i) then s
      else if so_pending q \<or> so_delivered q \<or> so_stage q \<noteq> 0 then s\<lparr>ps_orphaned := True\<rparr>
      else set_sub i (\<lambda>u. u\<lparr>su_closing := False\<rparr>) s)"

definition session_retire :: "nat \<Rightarrow> wop_session \<Rightarrow> wop_session" where
  "session_retire k s =
     set_op k (\<lambda>q. clear_operation (q\<lparr>so_abandoned := so_pending q\<rparr>))
       (if so_kind (op_at s k) \<in> {KindSubscribe, KindUnsubscribe} then wop_subscription_retire k s else s)"

definition session_released :: "nat \<Rightarrow> wop_session \<Rightarrow> bool" where
  "session_released k s \<longleftrightarrow> \<not> so_pending (op_at s k)"

end
