(* ===== verification/Opcua_Publish.thy ===== *)
theory Opcua_Publish
  imports Opcua_Subscription
begin

text \<open>
  Publishing on the subscriptions of a session (\<open>session_subscription.c\<close>): the messages of publish responses, the
  recovery of lost ones by republish requests, the queue of reports, the requests that are kept outstanding and the
  reports that are emitted.  What the SDK, the clock and the allocator answer during a call is its environment, as are the
  digest of a message, the rounding of floating-point numbers and the document of a value.
\<close>

text \<open>Why a value has no document.\<close>

datatype wop_value_status = ValueUnsupported | ValueInvalid | ValueLimit

record publish_env =
  pe_digest :: "ua_message \<Rightarrow> digest option"
  pe_copy :: "ua_message \<Rightarrow> bool"
  pe_value_copy :: "nat \<Rightarrow> bool"
  pe_clock :: "nat \<Rightarrow> int"
  pe_round :: "rat \<Rightarrow> rat"
  pe_republish :: "nat \<Rightarrow> bool \<times> u32"
  pe_send :: "nat \<Rightarrow> ua_status"
  pe_encode :: "ua_value \<Rightarrow> wop_value_status + yyval"
  pe_built :: bool

section \<open>Messages\<close>

definition fail_subscription :: "string \<Rightarrow> ua_status option \<Rightarrow> wop_subscription \<Rightarrow> wop_subscription" where
  "fail_subscription code status u =
     (if su_failed u then u else u\<lparr>su_failed := True, su_failure_code := code, su_failure_status := status\<rparr>)"

definition add_ack :: "u32 \<Rightarrow> wop_subscription \<Rightarrow> wop_subscription" where
  "add_ack n u =
     (if n \<in> set (su_acks u) then u
      else if length (su_acks u) < session_acks then u\<lparr>su_acks := su_acks u @ [n]\<rparr> else u)"

text \<open>The first loop of \<open>enqueue\<close>: the failure of a message, or its values.\<close>

fun message_items :: "u32 \<Rightarrow> ua_notification list \<Rightarrow> (string \<times> ua_status option) + ua_value list" where
  "message_items handle [] = Inr []"
| "message_items handle (d # ds) =
     (case d of
        NotDecoded \<Rightarrow> Inl (''subscription_lost'', Some status_unexpected)
      | StatusChange status \<Rightarrow> Inl (''subscription_lost'', Some status)
      | OtherNotification \<Rightarrow> Inl (''invalid_response'', None)
      | DataChange items \<Rightarrow>
          if list_ex (\<lambda>x. fst x \<noteq> handle) items then Inl (''invalid_response'', None)
          else map_sum id (\<lambda>vs. map snd items @ vs) (message_items handle ds))"

definition ready_report :: "nat \<Rightarrow> wop_subscription \<Rightarrow> ua_message \<Rightarrow> ua_value \<Rightarrow> wop_ready_report" where
  "ready_report i u m v = \<lparr>rp_subscription = i, rp_serial = su_serial u, rp_sequence = um_sequence m, rp_time = um_time m,
     rp_handle = su_handle u, rp_value = v\<rparr>"

text \<open>The second loop, which stops where a value cannot be copied: how many values were queued.\<close>

fun copied_values :: "(nat \<Rightarrow> bool) \<Rightarrow> nat \<Rightarrow> ua_value list \<Rightarrow> ua_value list" where
  "copied_values copy n [] = []"
| "copied_values copy n (v # vs) = (if copy n then v # copied_values copy (Suc n) vs else [])"

definition publish_enqueue :: "publish_env \<Rightarrow> nat \<Rightarrow> ua_message \<Rightarrow> wop_session \<Rightarrow> bool \<times> wop_session" where
  "publish_enqueue env i m s =
     (let u = sub_at s i in
      case message_items (su_handle u) (um_data m) of
        Inl (code, status) \<Rightarrow> (False, set_sub i (fail_subscription code status) s)
      | Inr vs \<Rightarrow>
          if length vs > session_ready - length (ps_reports s)
          then (False, set_sub i (fail_subscription ''receiver_overflow'' None) s)
          else let rs = map (ready_report i u m) (copied_values (pe_value_copy env) (length (ps_reports s)) vs);
              s1 = s\<lparr>ps_reports := ps_reports s @ rs\<rparr>
            in if length rs < length vs then (False, set_sub i (fail_subscription ''response_limit'' None) s1)
              else (True, s1\<lparr>ps_accepted := ps_accepted s1 @ [(su_serial u, um_sequence m, rs)]\<rparr>))"

text \<open>A message that is enqueued is recorded and acknowledged.\<close>

definition deliver_message :: "publish_env \<Rightarrow> nat \<Rightarrow> ua_message \<Rightarrow> digest \<Rightarrow> wop_session \<Rightarrow> wop_session" where
  "deliver_message env i m d s =
     (case publish_enqueue env i m s of (ok, s1) \<Rightarrow>
        if \<not> ok then s1
        else case wop_sequence_record (su_sequence (sub_at s1 i)) (um_sequence m) (Some d) of (recorded, q) \<Rightarrow>
          let s2 = set_sub i (\<lambda>u. u\<lparr>su_sequence := q\<rparr>) s1 in
          if recorded then set_sub i (add_ack (um_sequence m)) s2 else s2)"

definition process_message :: "publish_env \<Rightarrow> nat \<Rightarrow> ua_message \<Rightarrow> wop_session \<Rightarrow> wop_session" where
  "process_message env i m s =
     (let u = sub_at s i in
      if su_failed u \<or> su_closing u then s
      else case pe_digest env m of
          None \<Rightarrow> set_sub i (fail_subscription ''response_limit'' None) s
        | Some d \<Rightarrow>
          if sq_recovering (su_sequence u) then
            (if length (su_held u) = session_held \<or> \<not> pe_copy env m
             then set_sub i (fail_subscription ''sequence_gap'' None) s
             else set_sub i (\<lambda>u. u\<lparr>su_held := su_held u @ [m]\<rparr>) s)
          else (case wop_sequence_classify (su_sequence u) (um_sequence m) (Some d) of
              (verdict, first, missing) \<Rightarrow>
                if verdict = SequenceDeliver then deliver_message env i m d s
                else if verdict = SequenceDuplicate then set_sub i (add_ack (um_sequence m)) s
                else if verdict = SequenceGap then
                  (case wop_sequence_begin (su_sequence u) (um_sequence m) (Some d) first missing of (begun, q) \<Rightarrow>
                     let s1 = set_sub i (\<lambda>u. u\<lparr>su_sequence := q\<rparr>) s in
                     if \<not> begun \<or> \<not> pe_copy env m then set_sub i (fail_subscription ''sequence_gap'' None) s1
                     else set_sub i (\<lambda>u. u\<lparr>su_held := [m]\<rparr>) s1)
                else set_sub i (fail_subscription ''sequence_gap'' None) s))"

definition release_held :: "publish_env \<Rightarrow> nat \<Rightarrow> wop_session \<Rightarrow> wop_session" where
  "release_held env i s =
     fold (\<lambda>m s. if su_used (sub_at s i) \<and> \<not> su_failed (sub_at s i) then process_message env i m s else s)
       (su_held (sub_at s i)) (set_sub i (\<lambda>u. u\<lparr>su_held := []\<rparr>) s)"

section \<open>Responses\<close>

definition receive_publish :: "ua_publish option \<Rightarrow> bool \<Rightarrow> wop_session \<Rightarrow> wop_session" where
  "receive_publish response copied s =
     (let s1 = s\<lparr>ps_outstanding := ps_outstanding s - 1\<rparr> in
      case response of None \<Rightarrow> s1\<lparr>ps_fault := True\<rparr>
      | Some r \<Rightarrow>
          if length (ps_inbox s1) = session_publish \<or> \<not> copied then s1\<lparr>ps_fault := True\<rparr>
          else s1\<lparr>ps_inbox := ps_inbox s1 @ [r]\<rparr>)"

definition by_remote :: "u32 \<Rightarrow> wop_session \<Rightarrow> nat option" where
  "by_remote n s = find (\<lambda>i. su_used (sub_at s i) \<and> su_remote (sub_at s i) = n) [0..<session_subscriptions]"

definition publish_ignored :: "ua_status list" where
  "publish_ignored = [status_timeout, 0x80790000, 0x80780000, 0x800C0000]"

definition ack_accepted :: "ua_status list" where
  "ack_accepted = [0, 0x807A0000, 0x80280000]"

text \<open>The failure, where there is one, ends the session.\<close>

definition process_publish :: "publish_env \<Rightarrow> ua_publish \<Rightarrow> wop_session \<Rightarrow> wop_failure option \<times> wop_session" where
  "process_publish env r s =
     (if up_result r \<in> set publish_ignored then (None, s)
      else if up_result r \<noteq> 0 then (Some (failure_status ''invalid_response'' ''exchange'' (up_result r)), s)
      else case find (\<lambda>a. a \<notin> set ack_accepted) (up_acks r) of
        Some a \<Rightarrow> (Some (failure_status ''invalid_response'' ''exchange'' a), s)
      | None \<Rightarrow>
        (case by_remote (up_subscription r) s of None \<Rightarrow> (None, s)
         | Some i \<Rightarrow>
            let s1 = set_sub i (\<lambda>u. u\<lparr>su_activity_ms := pe_clock env 0\<rparr>) s in
            (None, if um_data (up_message r) = [] then s1 else process_message env i (up_message r) s1)))"

text \<open>The response of a republish request: none where the SDK has none, or its status, its message and whether that is copied.\<close>

definition receive_republish :: "nat \<Rightarrow> u32 \<Rightarrow> (ua_status \<times> ua_message \<times> bool) option \<Rightarrow> wop_session \<Rightarrow> wop_session" where
  "receive_republish i request response s =
     (let u = sub_at s i in
      if \<not> su_used u \<or> \<not> su_republish_pending u \<or> request \<noteq> su_republish_request u then s
      else set_sub i (\<lambda>u.
        let u1 = u\<lparr>su_republish_pending := False, su_republish_delivered := True\<rparr> in
        case response of None \<Rightarrow> u1\<lparr>su_republish_status := status_unexpected\<rparr>
        | Some (status, m, copied) \<Rightarrow>
            if status \<noteq> 0 then u1\<lparr>su_republish_status := status\<rparr>
            else if copied then u1\<lparr>su_republish_status := 0, su_republished := m\<rparr>
            else u1\<lparr>su_republish_status := status_memory\<rparr>) s)"

text \<open>The end of a recovery: the message that was held first, then the others.\<close>

definition finish_recovery :: "publish_env \<Rightarrow> nat \<Rightarrow> wop_session \<Rightarrow> wop_session" where
  "finish_recovery env i s =
     (let u = sub_at s i; target = hd (su_held u); s1 = set_sub i (\<lambda>u. u\<lparr>su_held := tl (su_held u)\<rparr>) s
      in release_held env i (deliver_message env i target (sq_target_digest (su_sequence u)) s1))"

definition request_republish :: "publish_env \<Rightarrow> nat \<Rightarrow> wop_session \<Rightarrow> wop_session" where
  "request_republish env i s =
     (let u = sub_at s i in
      if su_republish_pending u then s
      else case wop_sequence_pending (su_sequence u) of None \<Rightarrow> s
      | Some n \<Rightarrow>
          (case pe_republish env i of (ok, request) \<Rightarrow>
            let s1 = set_sub i (\<lambda>u. u\<lparr>su_republish_sequence := n, su_republish_pending := ok, su_republish_request := request\<rparr>) s in
            if ok then s1 else set_sub i (fail_subscription ''connection_failed'' None) s1))"

definition deliver_republished :: "publish_env \<Rightarrow> nat \<Rightarrow> u32 \<Rightarrow> ua_message \<Rightarrow> recovery_verdict \<Rightarrow> wop_session \<Rightarrow> wop_session" where
  "deliver_republished env i requested m recovery s =
     (case publish_enqueue env i m s of (delivered, s1) \<Rightarrow>
        if \<not> delivered then s1
        else let s2 = set_sub i (add_ack requested) s1 in
          if recovery = RecoveryComplete then finish_recovery env i s2 else request_republish env i s2)"

definition advance_recovery :: "publish_env \<Rightarrow> nat \<Rightarrow> wop_session \<Rightarrow> wop_session" where
  "advance_recovery env i s =
     (let u = sub_at s i in
      if su_failed u \<or> \<not> sq_recovering (su_sequence u) then s
      else if \<not> su_republish_delivered u then request_republish env i s
      else
        let requested = su_republish_sequence u; m = su_republished u;
          digest = (if su_republish_status u = 0 then pe_digest env m else None)
        in (case wop_sequence_republished (su_sequence u) requested (digest \<noteq> None) (um_sequence m)
              (Some (case digest of Some d \<Rightarrow> d | None \<Rightarrow> zero_digest)) of
          (recovery, q) \<Rightarrow>
            let s1 = set_sub i (\<lambda>u. u\<lparr>su_republish_delivered := False, su_republished := empty_message, su_sequence := q\<rparr>) s in
            if recovery = RecoveryFailed then
              set_sub i (fail_subscription ''sequence_gap''
                (if su_republish_status u \<noteq> 0 then Some (su_republish_status u) else None)) s1
            else deliver_republished env i requested m recovery s1))"

section \<open>Steps\<close>

text \<open>The acknowledgements of a publish request: at most 64, in the order of the table.\<close>

fun take_acks :: "nat \<Rightarrow> wop_subscription list \<Rightarrow> (u32 \<times> u32) list \<times> wop_subscription list" where
  "take_acks room [] = ([], [])"
| "take_acks room (u # us) =
     (if \<not> su_used u then (case take_acks room us of (as, us') \<Rightarrow> (as, u # us'))
      else let n = min room (length (su_acks u)) in
        case take_acks (room - n) us of (as, us') \<Rightarrow>
          (map (Pair (su_remote u)) (take n (su_acks u)) @ as, u\<lparr>su_acks := drop n (su_acks u)\<rparr> # us'))"

definition interval_value :: "rat option \<Rightarrow> rat" where
  "interval_value v = (case v of Some r \<Rightarrow> r | None \<Rightarrow> 0)"

definition subscription_period :: "(rat \<Rightarrow> rat) \<Rightarrow> nat \<Rightarrow> wop_subscription \<Rightarrow> rat" where
  "subscription_period rnd n u = rnd (interval_value (sp_publishing (su_revised u)) * of_nat n)"

text \<open>The longest keepalive period decides the time a publish request may take.\<close>

definition publish_hint :: "(rat \<Rightarrow> rat) \<Rightarrow> wop_subscription list \<Rightarrow> nat" where
  "publish_hint rnd us =
     (let keepalive = fold (\<lambda>u k. let p = subscription_period rnd (sp_keepalive (su_revised u)) u in if p > k then p else k)
          (filter su_used us) 0;
        hint = rnd (rnd (keepalive * 3) + 5000)
      in if hint > 600000 then 600000 else nat \<lfloor>hint\<rfloor>)"

record publish_request =
  pr_acks :: "(u32 \<times> u32) list"
  pr_hint :: nat

definition send_publish :: "publish_env \<Rightarrow> wop_session \<Rightarrow> ua_status \<times> publish_request \<times> wop_session" where
  "send_publish env s =
     (case take_acks session_acks (ps_subscriptions s) of (as, us) \<Rightarrow>
        let s1 = s\<lparr>ps_subscriptions := us\<rparr>; status = pe_send env (ps_outstanding s) in
        (status, \<lparr>pr_acks = as, pr_hint = publish_hint (pe_round env) (ps_subscriptions s)\<rparr>,
         if status \<noteq> 0 then s1 else s1\<lparr>ps_outstanding := ps_outstanding s + 1\<rparr>))"

function publish_loop :: "publish_env \<Rightarrow> nat \<Rightarrow> wop_session \<Rightarrow> wop_failure option \<times> wop_session" where
  "publish_loop env active s =
     (if \<not> (active \<noteq> 0 \<and> ps_reports s = [] \<and> ps_queued_frames s = 0 \<and> ps_outstanding s < session_publish \<and> ps_outstanding s < active)
      then (None, s)
      else case send_publish env s of (status, request, s') \<Rightarrow>
        if status \<noteq> 0 then (Some (failure_status ''connection_failed'' ''exchange'' status), s') else publish_loop env active s')"
  by pat_completeness auto
termination
  by (relation "measure (\<lambda>(env, active, s). session_publish - ps_outstanding s)")
    (auto simp: send_publish_def Let_def split: prod.splits if_splits)

fun process_inbox :: "publish_env \<Rightarrow> ua_publish list \<Rightarrow> wop_session \<Rightarrow> wop_failure option \<times> wop_session" where
  "process_inbox env [] s = (None, s)"
| "process_inbox env (r # rs) s =
     (case process_publish env r s of (Some f, s') \<Rightarrow> (Some f, s') | (None, s') \<Rightarrow> process_inbox env rs s')"

definition step_subscription :: "publish_env \<Rightarrow> nat \<Rightarrow> wop_session \<Rightarrow> wop_session" where
  "step_subscription env i s =
     (if \<not> su_used (sub_at s i) then s
      else let s1 = advance_recovery env i s; u = sub_at s1 i; now = pe_clock env 1 in
        if \<not> su_failed u \<and> now \<ge> 0 \<and>
          pe_round env (of_int (now - su_activity_ms u)) > subscription_period (pe_round env) (sp_lifetime (su_revised u)) u
        then set_sub i (fail_subscription ''subscription_lost'' None) s1 else s1)"

definition active_subscriptions :: "wop_session \<Rightarrow> nat" where
  "active_subscriptions s = length (filter (\<lambda>u. su_used u \<and> \<not> su_closing u \<and> \<not> su_failed u) (ps_subscriptions s))"

definition wop_subscription_step :: "publish_env \<Rightarrow> wop_session \<Rightarrow> wop_failure option \<times> wop_session" where
  "wop_subscription_step env s =
     (if ps_orphaned s then (Some (failure_plain ''cleanup_failed'' ''cleanup''), s)
      else if ps_fault s then (Some (failure_plain ''response_limit'' ''exchange''), s)
      else case process_inbox env (ps_inbox s) s of (failure, s1) \<Rightarrow>
        let s2 = s1\<lparr>ps_inbox := []\<rparr> in
        if failure \<noteq> None then (failure, s2)
        else let s3 = fold (step_subscription env) [0..<session_subscriptions] s2
          in publish_loop env (active_subscriptions s3) s3)"

section \<open>Reports\<close>

datatype publish_report = ErrorReport u64 string "ua_status option" | DataReport wop_ready_report yyval bool

definition value_overflow :: "ua_value \<Rightarrow> bool" where
  "value_overflow v = (let code = (case uv_status v of Some c \<Rightarrow> c | None \<Rightarrow> 0) in
     code AND 0x0C00 = 0x0400 \<and> code AND 0x0080 \<noteq> 0)"

definition stale_report :: "wop_session \<Rightarrow> wop_ready_report \<Rightarrow> bool" where
  "stale_report s r = (let u = sub_at s (rp_subscription r) in
     \<not> su_used u \<or> su_serial u \<noteq> rp_serial r \<or> su_closing u \<or> su_failed u)"

definition error_report :: "nat \<Rightarrow> wop_session \<Rightarrow> publish_report \<times> wop_session" where
  "error_report i s = (let u = sub_at s i in
     (ErrorReport (su_serial u) (su_failure_code u) (su_failure_status u), free_subscription i (delete_remote (su_remote u) s)))"

fun value_code :: "wop_value_status \<Rightarrow> string" where
  "value_code ValueUnsupported = ''unsupported_type''"
| "value_code ValueInvalid = ''invalid_response''"
| "value_code ValueLimit = ''response_limit''"

definition failed_index :: "wop_session \<Rightarrow> nat option" where
  "failed_index s = find (\<lambda>i. su_used (sub_at s i) \<and> su_failed (sub_at s i) \<and> \<not> su_closing (sub_at s i)) [0..<session_subscriptions]"

lemma dropWhile_Cons_less: "dropWhile P xs = y # ys \<Longrightarrow> length ys < length xs"
  using length_dropWhile_le [of P xs] by simp

text \<open>
  The report that was produced, and whether its document could be built; the session ends where it could not, and \<open>ps_emitted\<close> has
  the report in both cases.
  Reports without a live subscription are dropped.  A value without a document fails its subscription, which is then
  the one that is reported.
\<close>

function wop_subscription_report :: "publish_env \<Rightarrow> wop_session \<Rightarrow> bool \<times> publish_report option \<times> wop_session" where
  "wop_subscription_report env s =
     (case failed_index s of
        Some i \<Rightarrow> (case error_report i s of (r, s') \<Rightarrow> (pe_built env, Some r, s'))
      | None \<Rightarrow>
        (case dropWhile (stale_report s) (ps_reports s) of
           [] \<Rightarrow> (True, None, s\<lparr>ps_reports := []\<rparr>)
         | r # rest \<Rightarrow>
             let s1 = s\<lparr>ps_reports := rest\<rparr> in
             (case pe_encode env (rp_value r) of
                Inr v \<Rightarrow>
                  (pe_built env, Some (DataReport r v (value_overflow (rp_value r))), s1\<lparr>ps_emitted := ps_emitted s @ [r]\<rparr>)
              | Inl e \<Rightarrow> wop_subscription_report env (set_sub (rp_subscription r) (fail_subscription (value_code e) None) s1))))"
  by pat_completeness auto
termination
  by (relation "measure (\<lambda>(env, s). length (ps_reports s))") (auto simp: set_sub_def dest: dropWhile_Cons_less)

definition wop_subscription_clear :: "wop_session \<Rightarrow> wop_session" where
  "wop_subscription_clear s = s\<lparr>ps_subscriptions := replicate session_subscriptions unused_subscription, ps_reports := [],
     ps_inbox := [], ps_outstanding := 0, ps_queued_frames := 0, ps_serial := 0, ps_orphaned := False, ps_fault := False\<rparr>"


section \<open>What a message changes\<close>

text \<open>What the publishing calls leave as it is: the operations and the identity of every subscription.\<close>

definition sub_key :: "wop_subscription \<Rightarrow> bool \<times> u64 \<times> bool \<times> u32" where
  "sub_key u = (su_used u, su_serial u, su_closing u, su_remote u)"

definition session_frame :: "wop_session \<Rightarrow> wop_session \<Rightarrow> bool" where
  "session_frame s s' \<longleftrightarrow> ps_operations s' = ps_operations s \<and> ps_slots s' = ps_slots s \<and> ps_serial s' = ps_serial s \<and>
     ps_created s' = ps_created s \<and> ps_deleted s' = ps_deleted s \<and> ps_inbox s' = ps_inbox s \<and>
     ps_outstanding s' = ps_outstanding s \<and> map sub_key (ps_subscriptions s') = map sub_key (ps_subscriptions s)"

lemma session_frame_refl [simp]: "session_frame s s"
  by (simp add: session_frame_def)

lemma session_frame_trans: "session_frame s t \<Longrightarrow> session_frame t u \<Longrightarrow> session_frame s u"
  by (simp add: session_frame_def)

lemma sub_at_set_sub: "i < length (ps_subscriptions s) \<Longrightarrow> sub_at (set_sub i f s) j = (if j = i then f (sub_at s i) else sub_at s j)"
  by (auto simp: set_sub_def sub_at_def)

lemma set_sub_fields [simp]:
  "ps_operations (set_sub i f s) = ps_operations s" "ps_slots (set_sub i f s) = ps_slots s" "ps_serial (set_sub i f s) = ps_serial s"
  "ps_created (set_sub i f s) = ps_created s" "ps_deleted (set_sub i f s) = ps_deleted s" "ps_inbox (set_sub i f s) = ps_inbox s"
  "ps_outstanding (set_sub i f s) = ps_outstanding s" "ps_reports (set_sub i f s) = ps_reports s"
  "ps_accepted (set_sub i f s) = ps_accepted s" "ps_emitted (set_sub i f s) = ps_emitted s"
  "length (ps_subscriptions (set_sub i f s)) = length (ps_subscriptions s)"
  by (simp_all add: set_sub_def)

lemma set_sub_frame:
  assumes "\<And>u. sub_key (f u) = sub_key u"
  shows "session_frame s (set_sub i f s)"
proof (cases "i < length (ps_subscriptions s)")
  case True
  then have "map sub_key ((ps_subscriptions s)[i := f (sub_at s i)]) = (map sub_key (ps_subscriptions s))[i := sub_key (sub_at s i)]"
    by (simp add: map_update assms)
  also have "\<dots> = map sub_key (ps_subscriptions s)"
    using True by (metis list_update_id nth_map sub_at_def)
  finally show ?thesis by (simp add: session_frame_def set_sub_def)
next
  case False
  then show ?thesis by (simp add: session_frame_def set_sub_def list_update_beyond)
qed

lemma set_sub_after: "session_frame s t \<Longrightarrow> (\<And>u. sub_key (f u) = sub_key u) \<Longrightarrow> session_frame s (set_sub i f t)"
  using session_frame_trans set_sub_frame by blast

lemma fail_key [simp]: "sub_key (fail_subscription c st u) = sub_key u"
  by (simp add: fail_subscription_def sub_key_def)

lemma ack_key [simp]: "sub_key (add_ack n u) = sub_key u"
  by (simp add: add_ack_def sub_key_def)

lemma key_updates [simp]:
  "sub_key (u\<lparr>su_sequence := q\<rparr>) = sub_key u" "sub_key (u\<lparr>su_held := h\<rparr>) = sub_key u" "sub_key (u\<lparr>su_acks := a\<rparr>) = sub_key u"
  "sub_key (u\<lparr>su_activity_ms := t\<rparr>) = sub_key u" "sub_key (u\<lparr>su_republish_delivered := b\<rparr>) = sub_key u"
  "sub_key (u\<lparr>su_republished := m\<rparr>) = sub_key u" "sub_key (u\<lparr>su_republish_pending := b\<rparr>) = sub_key u"
  "sub_key (u\<lparr>su_republish_sequence := n\<rparr>) = sub_key u" "sub_key (u\<lparr>su_republish_request := n\<rparr>) = sub_key u"
  "sub_key (u\<lparr>su_republish_status := st\<rparr>) = sub_key u"
  by (simp_all add: sub_key_def)

lemma enqueue_frame: "publish_enqueue env i m s = (ok, s') \<Longrightarrow> session_frame s s'"
proof -
  have grown: "session_frame s (s\<lparr>ps_reports := rs\<rparr>)" "session_frame s (s\<lparr>ps_reports := rs, ps_accepted := as\<rparr>)" for rs as
    by (simp_all add: session_frame_def)
  assume "publish_enqueue env i m s = (ok, s')"
  then show ?thesis
    using set_sub_frame [of "fail_subscription c st" for c st] set_sub_after [OF grown(1), of "fail_subscription c st" for c st] grown
    by (auto simp: publish_enqueue_def Let_def split: sum.splits if_splits)
qed

lemma deliver_frame: "session_frame s (deliver_message env i m d s)"
  by (auto simp: deliver_message_def Let_def intro!: set_sub_after dest: enqueue_frame split: prod.splits)

lemma process_message_frame: "session_frame s (process_message env i m s)"
  by (auto simp: process_message_def Let_def intro!: set_sub_after deliver_frame split: prod.splits option.splits)

lemma fold_frame: "(\<And>x s. session_frame s (f x s)) \<Longrightarrow> session_frame t s \<Longrightarrow> session_frame t (fold f xs s)"
  by (induction xs arbitrary: s) (simp_all, metis session_frame_trans)

lemma release_held_frame: "session_frame s (release_held env i s)"
  unfolding release_held_def
  by (rule fold_frame) (auto intro: process_message_frame set_sub_frame)

lemma finish_recovery_frame: "session_frame s (finish_recovery env i s)"
  unfolding finish_recovery_def Let_def
  by (rule session_frame_trans [OF set_sub_frame session_frame_trans [OF deliver_frame release_held_frame]]) simp

lemma request_republish_frame: "session_frame s (request_republish env i s)"
  by (auto simp: request_republish_def Let_def intro!: set_sub_after split: prod.splits option.splits)

lemma deliver_republished_frame: "session_frame s (deliver_republished env i n m v s)"
  using session_frame_trans [OF set_sub_frame finish_recovery_frame] session_frame_trans [OF set_sub_frame request_republish_frame]
  by (auto simp: deliver_republished_def Let_def dest!: enqueue_frame intro: session_frame_trans split: prod.splits)

lemma advance_recovery_frame: "session_frame s (advance_recovery env i s)"
  using session_frame_trans [OF set_sub_frame deliver_republished_frame]
  by (auto simp: advance_recovery_def Let_def intro!: set_sub_after request_republish_frame split: prod.splits)

lemma step_subscription_frame: "session_frame s (step_subscription env i s)"
  by (auto simp: step_subscription_def Let_def intro!: set_sub_after advance_recovery_frame)

lemma process_publish_frame: "process_publish env r s = (f, s') \<Longrightarrow> session_frame s s'"
  by (auto simp: process_publish_def Let_def intro: set_sub_frame session_frame_trans [OF set_sub_frame process_message_frame]
      split: if_splits option.splits)

lemma process_inbox_frame: "process_inbox env rs s = (f, s') \<Longrightarrow> session_frame s s'"
  by (induction rs arbitrary: s) (auto dest: process_publish_frame intro: session_frame_trans split: prod.splits option.splits)

end
