(* ===== verification/Opcua_Reports.thy ===== *)
theory Opcua_Reports
  imports Opcua_Publish "HOL-Library.Sublist"
begin

declare publish_loop.simps [simp del] wop_subscription_report.simps [simp del]

section \<open>Order and completeness of the reports\<close>

definition accepted_numbers :: "u64 \<Rightarrow> wop_session \<Rightarrow> u32 list" where
  "accepted_numbers n s = map (\<lambda>(m, q, rs). q) (filter (\<lambda>(m, q, rs). m = n) (ps_accepted s))"

definition accepted_reports :: "wop_session \<Rightarrow> wop_ready_report list" where
  "accepted_reports s = concat (map (\<lambda>(m, q, rs). rs) (ps_accepted s))"

definition numbers_from_one :: "u32 list \<Rightarrow> bool" where
  "numbers_from_one qs \<longleftrightarrow> qs = map (\<lambda>i. (wop_sequence_next ^^ i) 1) [0..<length qs]"

definition of_serial :: "u64 \<Rightarrow> wop_ready_report list \<Rightarrow> wop_ready_report list" where
  "of_serial n = filter (\<lambda>r. rp_serial r = n)"

definition live_report :: "wop_session \<Rightarrow> wop_ready_report \<Rightarrow> bool" where
  "live_report s r \<longleftrightarrow> su_used (sub_at s (rp_subscription r)) \<and> su_serial (sub_at s (rp_subscription r)) = rp_serial r \<and>
     \<not> su_failed (sub_at s (rp_subscription r))"

text \<open>Nothing of a subscription's accepted reports is missing, unless it failed or is being deleted; \<open>Q\<close> are those whose
  deletion the owner has not dispatched yet.\<close>

definition report_complete :: "nat set \<Rightarrow> wop_session \<Rightarrow> nat \<Rightarrow> bool" where
  "report_complete Q s i \<longleftrightarrow> (su_used (sub_at s i) \<and> \<not> su_failed (sub_at s i) \<and> (\<not> su_closing (sub_at s i) \<or> i \<in> Q) \<longrightarrow>
     of_serial (su_serial (sub_at s i)) (ps_emitted s @ ps_reports s) = of_serial (su_serial (sub_at s i)) (accepted_reports s))"

definition report_home :: "wop_session \<Rightarrow> wop_ready_report \<Rightarrow> bool" where
  "report_home s r \<longleftrightarrow> rp_subscription r < session_subscriptions \<and>
     (\<forall>i < session_subscriptions. su_used (sub_at s i) \<and> su_serial (sub_at s i) = rp_serial r \<longrightarrow> rp_subscription r = i)"

definition serials_apart :: "wop_session \<Rightarrow> bool" where
  "serials_apart s \<longleftrightarrow> (\<forall>i < session_subscriptions. \<forall>j < session_subscriptions. su_used (sub_at s i) \<and> su_used (sub_at s j) \<and>
     su_serial (sub_at s i) = su_serial (sub_at s j) \<longrightarrow> i = j)"

text \<open>Serials were handed out, and those that wait in an operation are not in use yet.\<close>

definition serial_known :: "wop_session \<Rightarrow> u64 \<Rightarrow> bool" where
  "serial_known s n \<longleftrightarrow> 1 \<le> n \<and> n \<le> ps_serial s \<and> (\<forall>q \<in> set (ps_operations s). so_serial q \<noteq> n)"

definition serials_known :: "wop_session \<Rightarrow> bool" where
  "serials_known s \<longleftrightarrow> (\<forall>i < session_subscriptions. su_used (sub_at s i) \<longrightarrow> serial_known s (su_serial (sub_at s i))) \<and>
     (\<forall>a \<in> set (ps_accepted s). serial_known s (fst a)) \<and> (\<forall>r \<in> set (ps_reports s). serial_known s (rp_serial r))"

definition publish_base :: "nat set \<Rightarrow> wop_session \<Rightarrow> bool" where
  "publish_base Q s \<longleftrightarrow> length (ps_subscriptions s) = session_subscriptions \<and> length (ps_reports s) \<le> session_ready \<and>
     serials_apart s \<and> serials_known s \<and> (\<forall>r \<in> set (ps_reports s). report_home s r) \<and>
     (\<forall>n. numbers_from_one (accepted_numbers n s)) \<and>
     (\<forall>(n, q, rs) \<in> set (ps_accepted s). \<forall>r \<in> set rs. rp_serial r = n \<and> rp_sequence r = q) \<and>
     subseq (ps_emitted s @ filter (live_report s) (ps_reports s)) (accepted_reports s) \<and>
     (\<forall>i < session_subscriptions. report_complete Q s i)"

definition next_number :: "wop_session \<Rightarrow> nat \<Rightarrow> u32" where
  "next_number s i = (wop_sequence_next ^^ length (accepted_numbers (su_serial (sub_at s i)) s)) 1"

text \<open>A subscription in use expects the number after those accepted, and while it recovers holds the message it recovers for.\<close>

definition sequence_current :: "wop_session \<Rightarrow> nat \<Rightarrow> bool" where
  "sequence_current s i \<longleftrightarrow> recovery_inv (su_sequence (sub_at s i)) \<and> sequence_expected (su_sequence (sub_at s i)) = next_number s i \<and>
     (sq_recovering (su_sequence (sub_at s i)) \<longrightarrow> su_held (sub_at s i) \<noteq> [] \<and>
       um_sequence (hd (su_held (sub_at s i))) = sq_target (su_sequence (sub_at s i)))"

definition sub_bounded :: "wop_subscription \<Rightarrow> bool" where
  "sub_bounded u \<longleftrightarrow> length (su_acks u) \<le> session_acks \<and> length (su_held u) \<le> session_held"

definition sub_inv :: "wop_session \<Rightarrow> nat \<Rightarrow> bool" where
  "sub_inv s i \<longleftrightarrow> sub_bounded (sub_at s i) \<and> (su_used (sub_at s i) \<and> \<not> su_failed (sub_at s i) \<longrightarrow> sequence_current s i)"

definition publish_inv :: "nat set \<Rightarrow> wop_session \<Rightarrow> bool" where
  "publish_inv Q s \<longleftrightarrow> publish_base Q s \<and> (\<forall>i < session_subscriptions. sub_inv s i)"

lemma numbers_from_one_snoc:
  "numbers_from_one (qs @ [q]) \<longleftrightarrow> numbers_from_one qs \<and> q = (wop_sequence_next ^^ length qs) 1"
  by (auto simp: numbers_from_one_def)

text \<open>The invariant depends on the identity of the subscriptions only, and holds on where more of them have failed.\<close>

lemma key_at:
  assumes "map sub_key (ps_subscriptions s') = map sub_key (ps_subscriptions s)" "i < length (ps_subscriptions s)"
  shows "sub_key (sub_at s' i) = sub_key (sub_at s i)"
  using assms by (metis length_map nth_map sub_at_def)

lemma key_used:
  "sub_key u = sub_key v \<longleftrightarrow> su_used u = su_used v \<and> su_serial u = su_serial v \<and> su_closing u = su_closing v \<and> su_remote u = su_remote v"
  by (auto simp: sub_key_def)

lemma publish_base_mono:
  assumes base: "publish_base Q s" and keys: "map sub_key (ps_subscriptions s') = map sub_key (ps_subscriptions s)"
    and same: "ps_accepted s' = ps_accepted s" "ps_emitted s' = ps_emitted s" "ps_reports s' = ps_reports s"
      "ps_operations s' = ps_operations s" "ps_serial s' = ps_serial s"
    and failed: "\<And>i. i < session_subscriptions \<Longrightarrow> su_failed (sub_at s i) \<Longrightarrow> su_failed (sub_at s' i)"
  shows "publish_base Q s'"
proof -
  have len: "length (ps_subscriptions s) = session_subscriptions" using base by (simp add: publish_base_def)
  have key: "su_used (sub_at s' i) = su_used (sub_at s i) \<and> su_serial (sub_at s' i) = su_serial (sub_at s i) \<and>
      su_closing (sub_at s' i) = su_closing (sub_at s i)" if "i < session_subscriptions" for i
    using key_at [OF keys, of i] that len by (simp add: key_used)
  have home: "report_home s' r \<longleftrightarrow> report_home s r" for r
    using key by (auto simp: report_home_def)
  have live: "filter (live_report s') (ps_reports s) = filter (live_report s') (filter (live_report s) (ps_reports s))"
  proof -
    have "live_report s' r \<Longrightarrow> live_report s r" if "r \<in> set (ps_reports s)" for r
      using that base key failed by (auto simp: publish_base_def report_home_def live_report_def)
    then show ?thesis by (auto intro: filter_cong)
  qed
  have "subseq (ps_emitted s @ filter (live_report s') (ps_reports s)) (ps_emitted s @ filter (live_report s) (ps_reports s))"
    unfolding live by (intro list_emb_append_mono subseq_filter_left) simp
  then have "subseq (ps_emitted s @ filter (live_report s') (ps_reports s)) (accepted_reports s)"
    using base by (auto simp: publish_base_def intro: subseq_order.trans)
  moreover have "length (ps_subscriptions s') = session_subscriptions" using keys len by (metis length_map)
  moreover have "report_complete Q s' i" if "i < session_subscriptions" for i
    using base failed key [OF that] that by (auto simp: publish_base_def report_complete_def same accepted_reports_def)
  ultimately show ?thesis
    using base key
    by (auto simp: publish_base_def home same accepted_reports_def accepted_numbers_def serials_apart_def serials_known_def serial_known_def)
qed

lemma publish_base_set_sub:
  assumes "publish_base Q s" "i < session_subscriptions" "sub_key (f (sub_at s i)) = sub_key (sub_at s i)"
    and "su_failed (sub_at s i) \<Longrightarrow> su_failed (f (sub_at s i))"
  shows "publish_base Q (set_sub i f s)"
proof (rule publish_base_mono [OF assms(1)])
  have len: "i < length (ps_subscriptions s)" using assms by (simp add: publish_base_def)
  have "map sub_key ((ps_subscriptions s)[i := f (sub_at s i)]) = (map sub_key (ps_subscriptions s))[i := sub_key (sub_at s i)]"
    by (simp add: map_update assms(3))
  also have "\<dots> = map sub_key (ps_subscriptions s)"
    using len by (metis list_update_id nth_map sub_at_def)
  finally show "map sub_key (ps_subscriptions (set_sub i f s)) = map sub_key (ps_subscriptions s)" by (simp add: set_sub_def)
  show "su_failed (sub_at (set_sub i f s) j)" if "su_failed (sub_at s j)" for j
    using that assms(4) sub_at_set_sub [OF len] by auto
qed simp_all

lemma sub_inv_other:
  assumes "sub_inv s j" "sub_at s' j = sub_at s j" "accepted_numbers (su_serial (sub_at s j)) s' = accepted_numbers (su_serial (sub_at s j)) s"
  shows "sub_inv s' j"
  using assms by (simp add: sub_inv_def sequence_current_def next_number_def)

lemma publish_inv_set_sub:
  assumes inv: "publish_base Q s" "\<And>j. j < session_subscriptions \<Longrightarrow> j \<noteq> i \<Longrightarrow> sub_inv s j" and i: "i < session_subscriptions"
    and f: "sub_key (f (sub_at s i)) = sub_key (sub_at s i)" "su_failed (sub_at s i) \<Longrightarrow> su_failed (f (sub_at s i))"
    and sub: "sub_inv (set_sub i f s) i"
  shows "publish_inv Q (set_sub i f s)"
proof -
  have len: "i < length (ps_subscriptions s)" using inv(1) i by (simp add: publish_base_def)
  have "sub_inv (set_sub i f s) j" if "j < session_subscriptions" for j
  proof (cases "j = i")
    case True
    then show ?thesis using sub by (rule ssubst)
  next
    case False
    show ?thesis
    proof (rule sub_inv_other)
      show "sub_inv s j" using inv(2) that False by blast
      show "sub_at (set_sub i f s) j = sub_at s j" using sub_at_set_sub [OF len] False by simp
    qed (simp add: accepted_numbers_def)
  qed
  moreover have "publish_base Q (set_sub i f s)"
    by (rule publish_base_set_sub) (fact inv(1) i f)+
  ultimately show ?thesis by (simp add: publish_inv_def)
qed

lemma fail_simps [simp]:
  "su_failed (fail_subscription c st u)" "su_acks (fail_subscription c st u) = su_acks u" "su_held (fail_subscription c st u) = su_held u"
  "su_sequence (fail_subscription c st u) = su_sequence u" "su_used (fail_subscription c st u) = su_used u"
  "su_serial (fail_subscription c st u) = su_serial u"
  by (simp_all add: fail_subscription_def)

lemma publish_inv_fail:
  assumes "publish_base Q s" "\<And>j. j < session_subscriptions \<Longrightarrow> j \<noteq> i \<Longrightarrow> sub_inv s j" "i < session_subscriptions"
    and "sub_bounded (sub_at s i)"
  shows "publish_inv Q (set_sub i (fail_subscription c st) s)"
proof -
  have "i < length (ps_subscriptions s)" using assms by (simp add: publish_base_def)
  then show ?thesis
    using assms by (intro publish_inv_set_sub) (auto simp: sub_inv_def sub_at_set_sub sub_bounded_def)
qed

section \<open>Accepting a message\<close>

lemma copied_values_length: "length (copied_values c n vs) \<le> length vs"
  by (induction vs arbitrary: n) (auto simp: le_SucI)

lemma accepted_numbers_snoc:
  "ps_accepted s' = ps_accepted s @ [(m, q, rs)] \<Longrightarrow> accepted_numbers n s' = accepted_numbers n s @ (if m = n then [q] else [])"
  by (simp add: accepted_numbers_def)

lemma live_reports_other:
  assumes "ps_subscriptions s' = ps_subscriptions s"
  shows "live_report s' = live_report s" "report_home s' = report_home s"
  using assms by (auto simp: fun_eq_iff live_report_def report_home_def sub_at_def)

lemma ready_report_home:
  assumes "serials_apart s" "i < session_subscriptions" "su_used (sub_at s i)" "r \<in> ready_report i (sub_at s i) m ` V"
  shows "report_home s r \<and> rp_serial r = su_serial (sub_at s i) \<and> rp_sequence r = um_sequence m"
  using assms unfolding report_home_def serials_apart_def by (force simp: ready_report_def)

text \<open>All values of a message are queued.\<close>

lemma enqueue_accept_base:
  assumes base: "publish_base Q s" and i: "i < session_subscriptions" "su_used (sub_at s i)"
    and number: "um_sequence m = next_number s i"
    and rs: "rs = map (ready_report i (sub_at s i) m) vs" and room: "length (ps_reports s) + length rs \<le> session_ready"
  shows "publish_base Q (s\<lparr>ps_reports := ps_reports s @ rs, ps_accepted := ps_accepted s @ [(su_serial (sub_at s i), um_sequence m, rs)]\<rparr>)"
    (is "publish_base Q ?s")
proof -
  have sub: "sub_at ?s = sub_at s" by (simp add: fun_eq_iff sub_at_def)
  have home: "report_home s r \<and> rp_serial r = su_serial (sub_at s i) \<and> rp_sequence r = um_sequence m" if "r \<in> set rs" for r
    using that ready_report_home [OF _ i, of r m "set vs"] base rs by (auto simp: publish_base_def)
  have numbers: "numbers_from_one (accepted_numbers n ?s)" for n
    using base number accepted_numbers_snoc [of ?s s "su_serial (sub_at s i)" "um_sequence m" rs n]
    by (auto simp: publish_base_def numbers_from_one_snoc next_number_def)
  have acc: "accepted_reports ?s = accepted_reports s @ rs" by (simp add: accepted_reports_def)
  have "subseq ((ps_emitted s @ filter (live_report s) (ps_reports s)) @ filter (live_report s) rs) (accepted_reports s @ rs)"
    using base by (intro list_emb_append_mono) (simp_all add: publish_base_def)
  moreover have "report_complete Q ?s j" if "j < session_subscriptions" for j
    using base that by (auto simp: publish_base_def report_complete_def sub acc of_serial_def)
  moreover have "serials_known ?s"
    using base i home by (auto simp: publish_base_def serials_known_def serial_known_def sub)
  ultimately show ?thesis
    using base room home numbers live_reports_other [of ?s s]
    by (auto simp: publish_base_def acc serials_apart_def sub)
qed

text \<open>Where a value cannot be copied, those before it stay queued for a subscription that has failed.\<close>

lemma enqueue_partial_base:
  assumes base: "publish_base Q s" and i: "i < session_subscriptions" "su_used (sub_at s i)"
    and rs: "rs = map (ready_report i (sub_at s i) m) vs" and room: "length (ps_reports s) + length rs \<le> session_ready"
  shows "publish_base Q (set_sub i (fail_subscription c st) (s\<lparr>ps_reports := ps_reports s @ rs\<rparr>))"
    (is "publish_base Q ?s")
proof -
  have failed: "publish_base Q (set_sub i (fail_subscription c st) s)" (is "publish_base Q ?f")
    using base i by (intro publish_base_set_sub) simp_all
  have sub: "sub_at ?s = sub_at ?f" by (simp add: fun_eq_iff sub_at_def set_sub_def)
  have subs: "ps_subscriptions ?s = ps_subscriptions ?f" by (simp add: set_sub_def sub_at_def)
  have len: "i < length (ps_subscriptions s)" using base i by (simp add: publish_base_def)
  have key: "su_used (sub_at ?f j) = su_used (sub_at s j)" "su_serial (sub_at ?f j) = su_serial (sub_at s j)" for j
    using sub_at_set_sub [OF len, of "fail_subscription c st" j] by auto
  have home: "report_home ?f r \<and> rp_serial r = su_serial (sub_at s i)" if "r \<in> set rs" for r
    using that ready_report_home [OF _ i, of r m "set vs"] base rs by (auto simp: publish_base_def report_home_def key)
  have dead: "filter (live_report ?f) rs = []"
    using rs sub_at_set_sub [OF len] by (auto simp: filter_empty_conv live_report_def ready_report_def)
  have complete: "report_complete Q ?s j" if j: "j < session_subscriptions" for j
  proof (cases "j = i")
    case True
    then show ?thesis using sub_at_set_sub [OF len, of "fail_subscription c st"] by (simp add: report_complete_def sub)
  next
    case False
    then have "of_serial (su_serial (sub_at ?f j)) rs = []" if "su_used (sub_at ?f j)"
      using that j i home base by (auto simp: of_serial_def filter_empty_conv publish_base_def serials_apart_def key)
    then show ?thesis
      using failed j by (auto simp: publish_base_def report_complete_def sub accepted_reports_def of_serial_def)
  qed
  have "serials_known ?s"
    using failed base i home by (auto simp: publish_base_def serials_known_def serial_known_def sub)
  then show ?thesis
    using failed room home complete dead live_reports_other [OF subs]
    by (auto simp: publish_base_def accepted_reports_def accepted_numbers_def serials_apart_def sub)
qed

lemma enqueue_cases:
  assumes "publish_enqueue env i m s = (ok, s')" and "length (ps_reports s) \<le> session_ready"
  obtains (refused) vs c st where "\<not> ok"
      "s' = set_sub i (fail_subscription c st) (s\<lparr>ps_reports := ps_reports s @ map (ready_report i (sub_at s i) m) vs\<rparr>)"
      "length (ps_reports s) + length vs \<le> session_ready"
  | (accepted) vs where ok
      "s' = s\<lparr>ps_reports := ps_reports s @ map (ready_report i (sub_at s i) m) vs,
        ps_accepted := ps_accepted s @ [(su_serial (sub_at s i), um_sequence m, map (ready_report i (sub_at s i) m) vs)]\<rparr>"
      "length (ps_reports s) + length vs \<le> session_ready"
proof (cases "message_items (su_handle (sub_at s i)) (um_data m)")
  case (Inl x)
  then show ?thesis using assms by (intro refused [of "fst x" "snd x" "[]"]) (auto simp: publish_enqueue_def split: prod.splits)
next
  case (Inr vs)
  let ?vs = "copied_values (pe_value_copy env) (length (ps_reports s)) vs"
  show ?thesis
  proof (cases "length vs > session_ready - length (ps_reports s)")
    case True
    then show ?thesis using Inr assms by (intro refused [of "''receiver_overflow''" None "[]"]) (auto simp: publish_enqueue_def)
  next
    case False
    then have room: "length (ps_reports s) + length ?vs \<le> session_ready"
      using copied_values_length [of "pe_value_copy env" "length (ps_reports s)" vs] assms(2) by linarith
    show ?thesis
    proof (cases "length ?vs < length vs")
      case True
      then show ?thesis using Inr False assms room
        by (intro refused [of "''response_limit''" None ?vs]) (auto simp: publish_enqueue_def Let_def)
    next
      case notless: False
      then show ?thesis using Inr False assms room by (intro accepted [of ?vs]) (auto simp: publish_enqueue_def Let_def)
    qed
  qed
qed

text \<open>The invariant but for the sequence of one subscription, which is in use.\<close>

definition publish_but :: "nat set \<Rightarrow> wop_session \<Rightarrow> nat \<Rightarrow> bool" where
  "publish_but Q s i \<longleftrightarrow> publish_base Q s \<and> (\<forall>j < session_subscriptions. j \<noteq> i \<longrightarrow> sub_inv s j) \<and> i < session_subscriptions \<and>
     su_used (sub_at s i) \<and> sub_bounded (sub_at s i)"

lemma publish_but_length: "publish_but Q s i \<Longrightarrow> i < length (ps_subscriptions s)"
  by (simp add: publish_but_def publish_base_def)

lemma publish_but_fail: "publish_but Q s i \<Longrightarrow> publish_inv Q (set_sub i (fail_subscription c st) s)"
  by (intro publish_inv_fail) (auto simp: publish_but_def)

lemma publish_but_set_sub:
  assumes "publish_but Q s i" "sub_key (f (sub_at s i)) = sub_key (sub_at s i)" "su_failed (sub_at s i) \<Longrightarrow> su_failed (f (sub_at s i))"
    and "sub_bounded (f (sub_at s i))"
  shows "publish_but Q (set_sub i f s) i"
proof -
  have at: "sub_at (set_sub i f s) j = (if j = i then f (sub_at s i) else sub_at s j)" for j
    by (rule sub_at_set_sub [OF publish_but_length [OF assms(1)]])
  have base: "publish_base Q s" "i < session_subscriptions" using assms(1) by (simp_all add: publish_but_def)
  have "publish_base Q (set_sub i f s)"
    by (rule publish_base_set_sub) (fact base assms(2,3))+
  moreover have "sub_inv (set_sub i f s) j" if "j < session_subscriptions" "j \<noteq> i" for j
  proof (rule sub_inv_other)
    show "sub_inv s j" using that assms(1) by (simp add: publish_but_def)
  qed (simp_all add: at that accepted_numbers_def)
  moreover have "su_used (f (sub_at s i))" using assms(1,2) by (simp add: publish_but_def key_used)
  ultimately show ?thesis using base(2) assms(4) by (simp add: publish_but_def at)
qed

lemma publish_but_done:
  "publish_but Q s i \<Longrightarrow> su_failed (sub_at s i) \<or> sequence_current s i \<Longrightarrow> publish_inv Q s"
  by (auto simp: publish_but_def publish_inv_def sub_inv_def)

lemma publish_inv_but:
  "publish_inv Q s \<Longrightarrow> i < session_subscriptions \<Longrightarrow> su_used (sub_at s i) \<Longrightarrow> publish_but Q s i"
  by (auto simp: publish_but_def publish_inv_def sub_inv_def)

lemma publish_inv_current:
  "publish_inv Q s \<Longrightarrow> i < session_subscriptions \<Longrightarrow> su_used (sub_at s i) \<Longrightarrow> \<not> su_failed (sub_at s i) \<Longrightarrow> sequence_current s i"
  by (auto simp: publish_inv_def sub_inv_def)

lemma enqueue_inv:
  assumes but: "publish_but Q s i" and number: "um_sequence m = next_number s i"
    and enq: "publish_enqueue env i m s = (ok, s')"
  shows "if ok then publish_but Q s' i \<and> sub_at s' = sub_at s \<and> next_number s' i = wop_sequence_next (um_sequence m)
         else publish_inv Q s' \<and> su_used (sub_at s' i) \<and> su_failed (sub_at s' i)"
proof -
  have i: "i < session_subscriptions" "su_used (sub_at s i)" and base: "publish_base Q s" and bounded: "sub_bounded (sub_at s i)"
    and others: "\<And>j. j < session_subscriptions \<Longrightarrow> j \<noteq> i \<Longrightarrow> sub_inv s j"
    using but by (auto simp: publish_but_def)
  have "length (ps_reports s) \<le> session_ready" using base by (simp add: publish_base_def)
  with enq show ?thesis
  proof (cases rule: enqueue_cases)
    case (refused vs c st)
    let ?r = "s\<lparr>ps_reports := ps_reports s @ map (ready_report i (sub_at s i) m) vs\<rparr>"
    have at: "sub_at s' j = (if j = i then fail_subscription c st (sub_at s i) else sub_at s j)" for j
      using sub_at_set_sub [of i ?r "fail_subscription c st" j] publish_but_length [OF but] by (auto simp: refused(2) sub_at_def)
    have "publish_base Q s'"
      unfolding refused(2) using refused(3) by (intro enqueue_partial_base [OF base i refl]) simp
    moreover have "sub_inv s' j" if "j < session_subscriptions" for j
    proof (cases "j = i")
      case True
      then show ?thesis using bounded by (simp add: sub_inv_def at sub_bounded_def)
    next
      case False
      have "accepted_numbers n s' = accepted_numbers n s" for n by (simp add: refused(2) accepted_numbers_def)
      then show ?thesis using False by (intro sub_inv_other [OF others [OF that False]]) (simp_all add: at)
    qed
    ultimately show ?thesis using refused(1) i at by (simp add: publish_inv_def)
  next
    case (accepted vs)
    have at: "sub_at s' = sub_at s" by (simp add: accepted(2) fun_eq_iff sub_at_def)
    have numbers: "accepted_numbers n s' = accepted_numbers n s @ (if su_serial (sub_at s i) = n then [um_sequence m] else [])" for n
      by (rule accepted_numbers_snoc) (simp add: accepted(2))
    have "publish_base Q s'"
      unfolding accepted(2) using accepted(3) by (intro enqueue_accept_base [OF base i number refl]) simp
    moreover have "sub_inv s' j" if "j < session_subscriptions" "j \<noteq> i" for j
    proof (cases "su_used (sub_at s j)")
      case True
      then have "su_serial (sub_at s i) \<noteq> su_serial (sub_at s j)"
        using base that i by (auto simp: publish_base_def serials_apart_def)
      then show ?thesis by (intro sub_inv_other [OF others [OF that]]) (simp_all add: at numbers)
    next
      case False
      then show ?thesis using others [OF that] by (simp add: sub_inv_def at)
    qed
    ultimately show ?thesis
      using accepted(1) i bounded number by (simp add: publish_but_def at next_number_def numbers)
  qed
qed

section \<open>Messages keep the invariant\<close>

lemma ack_simps [simp]:
  "su_failed (add_ack n u) = su_failed u" "su_sequence (add_ack n u) = su_sequence u" "su_held (add_ack n u) = su_held u"
  "su_used (add_ack n u) = su_used u" "su_serial (add_ack n u) = su_serial u"
  by (simp_all add: add_ack_def)

lemma ack_bounded: "sub_bounded u \<Longrightarrow> sub_bounded (add_ack n u)"
  by (simp add: sub_bounded_def add_ack_def session_acks_def)

lemma next_number_set_sub:
  "i < length (ps_subscriptions s) \<Longrightarrow> su_serial (f (sub_at s i)) = su_serial (sub_at s i) \<Longrightarrow> next_number (set_sub i f s) i = next_number s i"
  by (simp add: next_number_def sub_at_set_sub accepted_numbers_def)

lemma publish_but_ack:
  assumes "publish_but Q s i"
  shows "publish_but Q (set_sub i (add_ack n) s) i"
  using assms ack_bounded by (intro publish_but_set_sub) (auto simp: publish_but_def)

lemma publish_but_sequence:
  assumes "publish_but Q s i"
  shows "publish_but Q (set_sub i (\<lambda>u. u\<lparr>su_sequence := q\<rparr>) s) i"
  using assms by (intro publish_but_set_sub) (auto simp: publish_but_def sub_bounded_def)

lemma publish_but_held:
  assumes "publish_but Q s i" "length h \<le> session_held"
  shows "publish_but Q (set_sub i (\<lambda>u. u\<lparr>su_held := h\<rparr>) s) i"
  using assms by (intro publish_but_set_sub) (auto simp: publish_but_def sub_bounded_def)

lemma deliver_inv:
  assumes but: "publish_but Q s i" and rest: "\<not> sq_recovering (su_sequence (sub_at s i))"
    and number: "sequence_expected (su_sequence (sub_at s i)) = next_number s i" "um_sequence m = next_number s i"
  shows "publish_inv Q (deliver_message env i m d s) \<and> su_used (sub_at (deliver_message env i m d s) i) \<and>
    (su_failed (sub_at (deliver_message env i m d s) i) \<or> \<not> sq_recovering (su_sequence (sub_at (deliver_message env i m d s) i)))"
proof -
  obtain ok s1 where enq: "publish_enqueue env i m s = (ok, s1)" by (cases "publish_enqueue env i m s")
  note step = enqueue_inv [OF but number(2) enq]
  show ?thesis
  proof (cases ok)
    case False
    then show ?thesis using step enq by (simp add: deliver_message_def)
  next
    case True
    then have but1: "publish_but Q s1 i" and at: "sub_at s1 = sub_at s" and num: "next_number s1 i = wop_sequence_next (um_sequence m)"
      using step by auto
    obtain q where rec: "wop_sequence_record (su_sequence (sub_at s i)) (um_sequence m) (Some d) = (True, q)"
      using record_accepts [of "su_sequence (sub_at s i)" d] number
      by (cases "wop_sequence_record (su_sequence (sub_at s i)) (um_sequence m) (Some d)") auto
    define s2 where "s2 = set_sub i (\<lambda>u. u\<lparr>su_sequence := q\<rparr>) s1"
    define s3 where "s3 = set_sub i (add_ack (um_sequence m)) s2"
    have but2: "publish_but Q s2 i" unfolding s2_def by (rule publish_but_sequence [OF but1])
    have but3: "publish_but Q s3 i" unfolding s3_def by (rule publish_but_ack [OF but2])
    note len = publish_but_length [OF but1] publish_but_length [OF but2]
    have at3: "sub_at s3 i = add_ack (um_sequence m) ((sub_at s i)\<lparr>su_sequence := q\<rparr>)"
      using len by (simp add: s3_def s2_def sub_at_set_sub at)
    have "next_number s3 i = next_number s1 i"
      using len by (simp add: s3_def s2_def next_number_set_sub)
    then have "sequence_current s3 i"
      using record_expected [OF rec] rest num by (simp add: sequence_current_def at3 recovery_inv_def)
    then have "publish_inv Q s3" using publish_but_done [OF but3] by simp
    moreover have "deliver_message env i m d s = s3" using enq True rec by (simp add: deliver_message_def at s3_def s2_def)
    ultimately show ?thesis using but3 record_expected [OF rec] rest by (simp add: publish_but_def at3)
  qed
qed

text \<open>The message after a gap is held, and so are those that follow it.\<close>

lemma gap_inv:
  assumes but: "publish_but Q s i" and cur: "sequence_current s i" and idle: "\<not> sq_recovering (su_sequence (sub_at s i))"
    and gap: "wop_sequence_classify (su_sequence (sub_at s i)) (um_sequence m) (Some d) = (SequenceGap, f, n)"
  shows "publish_inv Q (case wop_sequence_begin (su_sequence (sub_at s i)) (um_sequence m) (Some d) f n of (begun, q) \<Rightarrow>
     let s1 = set_sub i (\<lambda>u. u\<lparr>su_sequence := q\<rparr>) s in
     if \<not> begun \<or> \<not> pe_copy env m then set_sub i (fail_subscription ''sequence_gap'' None) s1
     else set_sub i (\<lambda>u. u\<lparr>su_held := [m]\<rparr>) s1)"
proof -
  obtain q where q: "wop_sequence_begin (su_sequence (sub_at s i)) (um_sequence m) (Some d) f n = (True, q)" "recovery_inv q"
    "sequence_expected q = sequence_expected (su_sequence (sub_at s i))" "sq_target q = um_sequence m"
    using begin_recovery [OF gap idle] by auto
  define s1 where "s1 = set_sub i (\<lambda>u. u\<lparr>su_sequence := q\<rparr>) s"
  define s2 where "s2 = set_sub i (\<lambda>u. u\<lparr>su_held := [m]\<rparr>) s1"
  have but1: "publish_but Q s1 i" unfolding s1_def by (rule publish_but_sequence [OF but])
  have but2: "publish_but Q s2 i" unfolding s2_def by (rule publish_but_held [OF but1]) (simp add: session_held_def)
  note len = publish_but_length [OF but] publish_but_length [OF but1]
  have "next_number s2 i = next_number s i" using len by (simp add: s2_def s1_def next_number_set_sub)
  moreover have "sub_at s2 i = (sub_at s i)\<lparr>su_sequence := q, su_held := [m]\<rparr>"
    using len by (simp add: s2_def s1_def sub_at_set_sub)
  ultimately have "sequence_current s2 i" using cur q by (simp add: sequence_current_def)
  then have "publish_inv Q s2" using publish_but_done [OF but2] by simp
  then show ?thesis using q(1) publish_but_fail [OF but1] by (simp add: s2_def s1_def Let_def)
qed

lemma hold_inv:
  assumes but: "publish_but Q s i" and cur: "sequence_current s i" and rec: "sq_recovering (su_sequence (sub_at s i))"
    and room: "length (su_held (sub_at s i)) \<noteq> session_held"
  shows "publish_inv Q (set_sub i (\<lambda>u. u\<lparr>su_held := su_held u @ [m]\<rparr>) s)"
proof -
  define s1 where "s1 = set_sub i (\<lambda>u. u\<lparr>su_held := su_held u @ [m]\<rparr>) s"
  note len = publish_but_length [OF but]
  have "publish_but Q s1 i"
    unfolding s1_def using but room by (intro publish_but_set_sub) (auto simp: publish_but_def sub_bounded_def)
  moreover have "next_number s1 i = next_number s i" using len by (simp add: s1_def next_number_set_sub)
  moreover have "sub_at s1 i = (sub_at s i)\<lparr>su_held := su_held (sub_at s i) @ [m]\<rparr>" using len by (simp add: s1_def sub_at_set_sub)
  ultimately have "publish_inv Q s1" using cur rec by (intro publish_but_done) (auto simp: sequence_current_def)
  then show ?thesis by (simp add: s1_def)
qed

lemma process_message_inv:
  assumes inv: "publish_inv Q s" and i: "i < session_subscriptions" "su_used (sub_at s i)"
  shows "publish_inv Q (process_message env i m s)"
proof (cases "su_failed (sub_at s i) \<or> su_closing (sub_at s i)")
  case True
  then show ?thesis using inv by (auto simp: process_message_def)
next
  case False
  note but = publish_inv_but [OF inv i] and fail = publish_but_fail [OF publish_inv_but [OF inv i]]
  have cur: "sequence_current s i" using publish_inv_current [OF inv i] False by simp
  have len: "i < length (ps_subscriptions s)" by (rule publish_but_length [OF but])
  show ?thesis
  proof (cases "pe_digest env m")
    case None
    then show ?thesis using False fail by (simp add: process_message_def)
  next
    case (Some d)
    show ?thesis
    proof (cases "sq_recovering (su_sequence (sub_at s i))")
      case True
      then show ?thesis using False Some fail hold_inv [OF but cur True] by (simp add: process_message_def)
    next
      case idle: False
      obtain v f n where cl: "wop_sequence_classify (su_sequence (sub_at s i)) (um_sequence m) (Some d) = (v, f, n)"
        by (cases "wop_sequence_classify (su_sequence (sub_at s i)) (um_sequence m) (Some d)")
      have deliver: "publish_inv Q (deliver_message env i m d s)" if "v = SequenceDeliver"
      proof -
        have "um_sequence m = sequence_expected (su_sequence (sub_at s i))"
          using cl that distance_eq_0 [of "um_sequence m" "su_sequence (sub_at s i)"]
          by (auto simp: wop_sequence_classify_def Let_def split: if_splits option.splits)
        then show ?thesis using deliver_inv [OF but idle] cur by (simp add: sequence_current_def)
      qed
      have duplicate: "publish_inv Q (set_sub i (add_ack (um_sequence m)) s)"
        using publish_but_ack [OF but] cur len
        by (intro publish_but_done) (auto simp: sequence_current_def next_number_set_sub sub_at_set_sub)
      show ?thesis
        using False Some idle cl deliver duplicate fail gap_inv [OF but cur idle, of m d f n env]
        by (auto simp: process_message_def Let_def)
    qed
  qed
qed

lemma fold_inv_used:
  assumes "\<And>x s. P s \<Longrightarrow> P (f x s)"
  shows "P s \<Longrightarrow> P (fold f xs s)"
  using assms by (induction xs arbitrary: s) auto

lemma release_held_inv:
  assumes inv: "publish_inv Q s" and i: "i < session_subscriptions" "su_used (sub_at s i)"
    and idle: "su_failed (sub_at s i) \<or> \<not> sq_recovering (su_sequence (sub_at s i))"
  shows "publish_inv Q (release_held env i s)"
proof -
  define s1 where "s1 = set_sub i (\<lambda>u. u\<lparr>su_held := []\<rparr>) s"
  note but = publish_inv_but [OF inv i]
  have "publish_but Q s1 i" unfolding s1_def by (rule publish_but_held [OF but]) simp
  moreover have "next_number s1 i = next_number s i" "sub_at s1 i = (sub_at s i)\<lparr>su_held := []\<rparr>"
    using publish_but_length [OF but] by (simp_all add: s1_def next_number_set_sub sub_at_set_sub)
  ultimately have "publish_inv Q s1"
    using idle publish_inv_current [OF inv i] by (intro publish_but_done) (auto simp: sequence_current_def)
  then have "publish_inv Q (fold (\<lambda>m s. if su_used (sub_at s i) \<and> \<not> su_failed (sub_at s i) then process_message env i m s else s) ms s1)" for ms
    by (rule fold_inv_used [rotated]) (use process_message_inv i in auto)
  then show ?thesis by (simp add: release_held_def s1_def)
qed

section \<open>Recovery keeps the invariant\<close>

lemma publish_inv_irrelevant:
  assumes inv: "publish_inv Q s" and i: "i < session_subscriptions"
    and f: "sub_key (f (sub_at s i)) = sub_key (sub_at s i)" "su_failed (f (sub_at s i)) = su_failed (sub_at s i)"
      "su_sequence (f (sub_at s i)) = su_sequence (sub_at s i)" "su_held (f (sub_at s i)) = su_held (sub_at s i)"
      "su_acks (f (sub_at s i)) = su_acks (sub_at s i)"
  shows "publish_inv Q (set_sub i f s)"
proof -
  have base: "publish_base Q s" and others: "\<And>j. j < session_subscriptions \<Longrightarrow> sub_inv s j"
    using inv by (auto simp: publish_inv_def)
  have len: "i < length (ps_subscriptions s)" using base i by (simp add: publish_base_def)
  have at: "sub_at (set_sub i f s) i = f (sub_at s i)" by (simp add: sub_at_set_sub [OF len])
  have key: "su_used (f (sub_at s i)) = su_used (sub_at s i)" "su_serial (f (sub_at s i)) = su_serial (sub_at s i)"
    using f(1) by (simp_all add: key_used)
  have "next_number (set_sub i f s) i = next_number s i" using next_number_set_sub [of i s f] len key(2) by simp
  then have "sub_inv (set_sub i f s) i"
    using others [OF i] by (simp add: sub_inv_def sub_bounded_def sequence_current_def at f key)
  then show ?thesis
    using base others i f by (intro publish_inv_set_sub) simp_all
qed

lemma finish_recovery_inv:
  assumes but: "publish_but Q s i" and idle: "\<not> sq_recovering (su_sequence (sub_at s i))" and held: "su_held (sub_at s i) \<noteq> []"
    and number: "sequence_expected (su_sequence (sub_at s i)) = next_number s i" "um_sequence (hd (su_held (sub_at s i))) = next_number s i"
  shows "publish_inv Q (finish_recovery env i s)"
proof -
  define s1 where "s1 = set_sub i (\<lambda>u. u\<lparr>su_held := tl (su_held u)\<rparr>) s"
  define s2 where "s2 = deliver_message env i (hd (su_held (sub_at s i))) (sq_target_digest (su_sequence (sub_at s i))) s1"
  have but1: "publish_but Q s1 i"
    unfolding s1_def using but by (intro publish_but_set_sub) (auto simp: publish_but_def sub_bounded_def)
  have s1: "next_number s1 i = next_number s i" "su_sequence (sub_at s1 i) = su_sequence (sub_at s i)"
    using publish_but_length [OF but] by (simp_all add: s1_def next_number_set_sub sub_at_set_sub)
  have "publish_inv Q s2 \<and> su_used (sub_at s2 i) \<and> (su_failed (sub_at s2 i) \<or> \<not> sq_recovering (su_sequence (sub_at s2 i)))"
    unfolding s2_def using idle number s1 by (intro deliver_inv [OF but1]) simp_all
  then have "publish_inv Q (release_held env i s2)"
    using but by (intro release_held_inv) (simp_all add: publish_but_def)
  then show ?thesis by (simp add: finish_recovery_def Let_def s2_def s1_def)
qed

lemma request_republish_inv:
  assumes inv: "publish_inv Q s" and i: "i < session_subscriptions" "su_used (sub_at s i)"
  shows "publish_inv Q (request_republish env i s)"
proof -
  have set: "publish_inv Q (set_sub i (\<lambda>u. u\<lparr>su_republish_sequence := n, su_republish_pending := ok, su_republish_request := r\<rparr>) s)"
    (is "publish_inv Q (?set n ok r)") for n ok r
    using inv i(1) by (intro publish_inv_irrelevant) simp_all
  have "i < length (ps_subscriptions s)" using publish_but_length [OF publish_inv_but [OF inv i]] .
  then have "publish_but Q (?set n ok r) i" for n ok r
    using set i by (intro publish_inv_but) (simp_all add: sub_at_set_sub)
  then show ?thesis
    using inv set publish_but_fail by (auto simp: request_republish_def Let_def split: option.splits prod.splits)
qed

lemma deliver_republished_inv:
  assumes but: "publish_but Q s i" and number: "um_sequence m = next_number s i"
    and rec: "recovery_inv (su_sequence (sub_at s i))" "sequence_expected (su_sequence (sub_at s i)) = wop_sequence_next (um_sequence m)"
    and held: "su_held (sub_at s i) \<noteq> []" "um_sequence (hd (su_held (sub_at s i))) = sq_target (su_sequence (sub_at s i))"
    and verdict: "sq_recovering (su_sequence (sub_at s i)) \<longleftrightarrow> v \<noteq> RecoveryComplete"
      "v = RecoveryComplete \<Longrightarrow> sequence_expected (su_sequence (sub_at s i)) = sq_target (su_sequence (sub_at s i))"
  shows "publish_inv Q (deliver_republished env i n m v s)"
proof -
  obtain ok s1 where enq: "publish_enqueue env i m s = (ok, s1)" by (cases "publish_enqueue env i m s")
  note step = enqueue_inv [OF but number enq]
  show ?thesis
  proof (cases ok)
    case False
    then show ?thesis using step enq by (simp add: deliver_republished_def)
  next
    case True
    define s2 where "s2 = set_sub i (add_ack n) s1"
    have but1: "publish_but Q s1 i" and at: "sub_at s1 = sub_at s" and num: "next_number s1 i = wop_sequence_next (um_sequence m)"
      using step True by auto
    have but2: "publish_but Q s2 i" unfolding s2_def by (rule publish_but_ack [OF but1])
    have s2: "next_number s2 i = next_number s1 i" "su_sequence (sub_at s2 i) = su_sequence (sub_at s i)" "su_held (sub_at s2 i) = su_held (sub_at s i)"
      using publish_but_length [OF but1] by (simp_all add: s2_def next_number_set_sub sub_at_set_sub at)
    have "publish_inv Q (finish_recovery env i s2)" if "v = RecoveryComplete"
      using that verdict held rec num s2 by (intro finish_recovery_inv [OF but2]) simp_all
    moreover have "publish_inv Q (request_republish env i s2)" if "v \<noteq> RecoveryComplete"
    proof (rule request_republish_inv)
      show "publish_inv Q s2"
        using rec held num s2 by (intro publish_but_done [OF but2]) (simp add: sequence_current_def)
    qed (use but2 in \<open>simp_all add: publish_but_def\<close>)
    ultimately show ?thesis using enq True by (simp add: deliver_republished_def s2_def Let_def)
  qed
qed

lemma advance_recovery_inv:
  assumes inv: "publish_inv Q s" and i: "i < session_subscriptions" "su_used (sub_at s i)"
  shows "publish_inv Q (advance_recovery env i s)"
proof (cases "su_failed (sub_at s i) \<or> \<not> sq_recovering (su_sequence (sub_at s i)) \<or> \<not> su_republish_delivered (sub_at s i)")
  case True
  then show ?thesis using inv request_republish_inv [OF inv i] by (auto simp: advance_recovery_def Let_def)
next
  case False
  note but = publish_inv_but [OF inv i]
  let ?u = "sub_at s i" and ?q = "su_sequence (sub_at s i)"
  define m where "m = su_republished ?u"
  define dg where "dg = (if su_republish_status ?u = 0 then pe_digest env m else None)"
  define h where "h = (case dg of Some d \<Rightarrow> d | None \<Rightarrow> zero_digest)"
  obtain v q where rep: "wop_sequence_republished ?q (su_republish_sequence ?u) (dg \<noteq> None) (um_sequence m) (Some h) = (v, q)"
    by (cases "wop_sequence_republished ?q (su_republish_sequence ?u) (dg \<noteq> None) (um_sequence m) (Some h)")
  define s1 where "s1 = set_sub i (\<lambda>u. u\<lparr>su_republish_delivered := False, su_republished := empty_message, su_sequence := q\<rparr>) s"
  have eq: "advance_recovery env i s = (if v = RecoveryFailed
      then set_sub i (fail_subscription ''sequence_gap'' (if su_republish_status ?u \<noteq> 0 then Some (su_republish_status ?u) else None)) s1
      else deliver_republished env i (su_republish_sequence ?u) m v s1)"
    using False rep by (simp add: advance_recovery_def Let_def m_def [symmetric] dg_def [symmetric] h_def [symmetric] s1_def)
  have cur: "sequence_current s i" using publish_inv_current [OF inv i] False by simp
  then have rinv: "recovery_inv ?q" and expected: "sequence_expected ?q = next_number s i" by (simp_all add: sequence_current_def)
  have but1: "publish_but Q s1 i"
    unfolding s1_def using but by (intro publish_but_set_sub) (auto simp: publish_but_def sub_bounded_def)
  have s1: "next_number s1 i = next_number s i" "su_sequence (sub_at s1 i) = q" "su_held (sub_at s1 i) = su_held ?u"
    using publish_but_length [OF but] by (simp_all add: s1_def next_number_set_sub sub_at_set_sub)
  have "publish_inv Q (deliver_republished env i (su_republish_sequence ?u) m v s1)" if v: "v \<noteq> RecoveryFailed"
  proof (rule deliver_republished_inv [OF but1])
    note next_state = republished_recovery [OF rinv rep]
    obtain "um_sequence m = sequence_expected ?q" "sequence_expected q = wop_sequence_next (um_sequence m)"
      using rinv rep v by (cases rule: republished_cases) (auto dest: record_expected)
    then show "um_sequence m = next_number s1 i" "sequence_expected (su_sequence (sub_at s1 i)) = wop_sequence_next (um_sequence m)"
      using expected s1 by simp_all
    show "recovery_inv (su_sequence (sub_at s1 i))" using next_state s1 by simp
    show "su_held (sub_at s1 i) \<noteq> []" "um_sequence (hd (su_held (sub_at s1 i))) = sq_target (su_sequence (sub_at s1 i))"
      using cur False next_state s1 by (simp_all add: sequence_current_def)
    show "sq_recovering (su_sequence (sub_at s1 i)) \<longleftrightarrow> v \<noteq> RecoveryComplete"
      using next_state s1 v by (cases v) simp_all
    show "v = RecoveryComplete \<Longrightarrow> sequence_expected (su_sequence (sub_at s1 i)) = sq_target (su_sequence (sub_at s1 i))"
      using next_state s1 by simp
  qed
  then show ?thesis unfolding eq using publish_but_fail [OF but1] by simp
qed

lemma frame_used:
  assumes "session_frame s s'" "i < length (ps_subscriptions s)"
  shows "su_used (sub_at s' i) = su_used (sub_at s i)"
  using key_at [of s' s i] assms by (simp add: session_frame_def key_used)

lemma step_subscription_inv:
  assumes inv: "publish_inv Q s" and i: "i < session_subscriptions"
  shows "publish_inv Q (step_subscription env i s)"
proof (cases "su_used (sub_at s i)")
  case True
  define s1 where "s1 = advance_recovery env i s"
  have inv1: "publish_inv Q s1" unfolding s1_def by (rule advance_recovery_inv [OF inv i True])
  moreover have "su_used (sub_at s1 i)"
    using frame_used [OF advance_recovery_frame, of i s env i] True i inv by (simp add: s1_def publish_inv_def publish_base_def)
  ultimately have "publish_but Q s1 i" using publish_inv_but i by blast
  then show ?thesis using True inv1 publish_but_fail by (auto simp: step_subscription_def Let_def s1_def)
qed (use inv in \<open>simp add: step_subscription_def\<close>)

lemma process_publish_inv:
  assumes inv: "publish_inv Q s" and p: "process_publish env r s = (f, s')"
  shows "publish_inv Q s'"
proof -
  have act: "publish_inv Q (set_sub i (\<lambda>u. u\<lparr>su_activity_ms := t\<rparr>) s)" (is "publish_inv Q (?act i t)") if "i < session_subscriptions" for i t
    using inv that by (intro publish_inv_irrelevant) simp_all
  have found: "i < session_subscriptions \<and> su_used (sub_at s i)" if "by_remote n s = Some i" for n i
    using that by (auto simp: by_remote_def find_Some_iff)
  have "publish_inv Q (process_message env i m (?act i t))" if "by_remote n s = Some i" for n i m t
    using act [of i t] found [OF that] inv
    by (intro process_message_inv) (simp_all add: sub_at_set_sub publish_inv_def publish_base_def)
  then show ?thesis
    using p inv act found by (auto simp: process_publish_def Let_def split: if_splits option.splits)
qed

lemma process_inbox_inv: "publish_inv Q s \<Longrightarrow> process_inbox env rs s = (f, s') \<Longrightarrow> publish_inv Q s'"
  by (induction rs arbitrary: s) (auto dest: process_publish_inv split: prod.splits option.splits)

text \<open>A publish request takes acknowledgements and counts itself.\<close>

lemma take_acks_entries:
  "take_acks room us = (as, us') \<Longrightarrow> length us' = length us \<and> length as \<le> room \<and>
   (\<forall>i < length us. \<exists>a. us' ! i = (us ! i)\<lparr>su_acks := a\<rparr> \<and> length a \<le> length (su_acks (us ! i)))"
proof (induction room us arbitrary: as us' rule: take_acks.induct)
  case (2 room u us)
  show ?case
  proof (cases "su_used u")
    case False
    obtain as1 us1 where t: "take_acks room us = (as1, us1)" by (cases "take_acks room us")
    have "\<exists>a. u = u\<lparr>su_acks := a\<rparr> \<and> length a \<le> length (su_acks u)" by (rule exI [of _ "su_acks u"]) simp
    then show ?thesis using 2(1) [OF False t] 2(3) False t by (auto simp: nth_Cons split: nat.splits)
  next
    case True
    let ?n = "min room (length (su_acks u))"
    obtain as1 us1 where t: "take_acks (room - ?n) us = (as1, us1)" by (cases "take_acks (room - ?n) us")
    have us': "us' = u\<lparr>su_acks := drop ?n (su_acks u)\<rparr> # us1" "as = map (Pair (su_remote u)) (take ?n (su_acks u)) @ as1"
      using 2(3) True t by (auto simp: Let_def)
    note IH = 2(2) [of ?n as1 us1]
    show ?thesis using IH True t unfolding us' by (auto simp: nth_Cons split: nat.splits)
  qed
qed simp

lemma send_publish_inv:
  assumes inv: "publish_inv Q s" and p: "send_publish env s = (st, r, s')"
  shows "publish_inv Q s' \<and> length (pr_acks r) \<le> session_acks \<and> session_frame s (s'\<lparr>ps_outstanding := ps_outstanding s\<rparr>) \<and>
    ps_outstanding s' = (if st = 0 then Suc (ps_outstanding s) else ps_outstanding s)"
proof -
  obtain as us where t: "take_acks session_acks (ps_subscriptions s) = (as, us)" by (cases "take_acks session_acks (ps_subscriptions s)")
  note entries = take_acks_entries [OF t]
  have s': "ps_subscriptions s' = us" "ps_accepted s' = ps_accepted s" "ps_emitted s' = ps_emitted s" "ps_reports s' = ps_reports s"
    "ps_operations s' = ps_operations s" "ps_serial s' = ps_serial s"
    using p t by (auto simp: send_publish_def Let_def)
  have at: "\<exists>a. sub_at s' i = (sub_at s i)\<lparr>su_acks := a\<rparr> \<and> length a \<le> length (su_acks (sub_at s i))" if "i < session_subscriptions" for i
    using entries that inv s' by (auto simp: publish_inv_def publish_base_def sub_at_def)
  have keys: "map sub_key us = map sub_key (ps_subscriptions s)"
  proof (rule nth_equalityI)
    fix i assume "i < length (map sub_key us)"
    then show "map sub_key us ! i = map sub_key (ps_subscriptions s) ! i"
      using entries by (metis key_updates(3) length_map nth_map)
  qed (use entries in simp)
  have base: "publish_base Q s'"
  proof (rule publish_base_mono [of Q s])
    show "publish_base Q s" using inv by (simp add: publish_inv_def)
    show "su_failed (sub_at s' i)" if "i < session_subscriptions" "su_failed (sub_at s i)" for i
      using at [OF that(1)] that(2) by auto
  qed (simp_all add: s' keys)
  have "sub_inv s' i" if i: "i < session_subscriptions" for i
  proof -
    obtain a where a: "sub_at s' i = (sub_at s i)\<lparr>su_acks := a\<rparr>" "length a \<le> length (su_acks (sub_at s i))" using at [OF i] by blast
    have "sub_inv s i" using inv i by (simp add: publish_inv_def)
    moreover have "next_number s' i = next_number s i" by (simp add: next_number_def a(1) accepted_numbers_def s')
    ultimately show ?thesis using a(2) by (auto simp: sub_inv_def sub_bounded_def sequence_current_def a(1))
  qed
  then show ?thesis
    using base p t entries keys by (auto simp: publish_inv_def send_publish_def Let_def session_frame_def)
qed

lemma publish_inv_ghost:
  assumes "ps_subscriptions s' = ps_subscriptions s" "ps_reports s' = ps_reports s" "ps_accepted s' = ps_accepted s" "ps_emitted s' = ps_emitted s"
    and "ps_operations s' = ps_operations s" "ps_serial s' = ps_serial s"
  shows "publish_inv Q s' = publish_inv Q s"
proof -
  have "sub_at s' = sub_at s" by (simp add: fun_eq_iff sub_at_def assms)
  then show ?thesis
    using live_reports_other [OF assms(1)] assms
    by (simp add: publish_inv_def publish_base_def sub_inv_def sequence_current_def next_number_def accepted_numbers_def
        accepted_reports_def report_complete_def serials_apart_def serials_known_def serial_known_def)
qed

lemma publish_loop_inv:
  "publish_inv Q s \<Longrightarrow> ps_outstanding s \<le> session_publish \<Longrightarrow> publish_loop env n s = (f, s') \<Longrightarrow>
   publish_inv Q s' \<and> ps_outstanding s' \<le> session_publish \<and> session_frame s (s'\<lparr>ps_outstanding := ps_outstanding s\<rparr>)"
proof (induction env n s arbitrary: f s' rule: publish_loop.induct)
  case (1 env n s)
  show ?case
  proof (cases "n \<noteq> 0 \<and> ps_reports s = [] \<and> ps_queued_frames s = 0 \<and> ps_outstanding s < session_publish \<and> ps_outstanding s < n")
    case False
    then show ?thesis using 1(2-4) by (auto simp: publish_loop.simps [of env n s])
  next
    case True
    obtain st r s1 where send: "send_publish env s = (st, r, s1)" by (cases "send_publish env s")
    note step = send_publish_inv [OF 1(2) send]
    show ?thesis
    proof (cases "st = 0")
      case False
      then show ?thesis using step True send 1(3,4) by (auto simp: publish_loop.simps [of env n s] split: if_splits)
    next
      case ok: True
      have "publish_loop env n s1 = (f, s')" using 1(4) True send ok by (simp add: publish_loop.simps [of env n s])
      then have "publish_inv Q s' \<and> ps_outstanding s' \<le> session_publish \<and> session_frame s1 (s'\<lparr>ps_outstanding := ps_outstanding s1\<rparr>)"
        using 1(1) [of st "(r, s1)" r s1 f s'] True send ok step by simp
      then show ?thesis using step by (auto simp: session_frame_def)
    qed
  qed
qed

text \<open>A step reads the inbox and sends requests; all it leaves as it is else is in the frame.\<close>

lemma subscription_step_inv:
  assumes inv: "publish_inv Q s" "ps_outstanding s \<le> session_publish" and p: "wop_subscription_step env s = (f, s')"
  shows "publish_inv Q s' \<and> ps_outstanding s' \<le> session_publish \<and> length (ps_inbox s') \<le> length (ps_inbox s) \<and>
    session_frame s (s'\<lparr>ps_outstanding := ps_outstanding s, ps_inbox := ps_inbox s\<rparr>)"
proof (cases "ps_orphaned s \<or> ps_fault s")
  case True
  then have "s' = s" using p by (auto simp: wop_subscription_step_def split: if_splits)
  then show ?thesis using inv by simp
next
  case False
  obtain g s1 where box: "process_inbox env (ps_inbox s) s = (g, s1)" by (cases "process_inbox env (ps_inbox s) s")
  define s2 where "s2 = s1\<lparr>ps_inbox := []\<rparr>"
  define s3 where "s3 = fold (step_subscription env) [0..<session_subscriptions] s2"
  have inv1: "publish_inv Q s1" by (rule process_inbox_inv [OF inv(1) box])
  have frame1: "session_frame s s1" by (rule process_inbox_frame [OF box])
  have inv2: "publish_inv Q s2" using inv1 publish_inv_ghost [of s2 s1] by (simp add: s2_def)
  have "publish_inv Q (fold (step_subscription env) is t)" if "publish_inv Q t" "set is \<subseteq> {0..<session_subscriptions}" for "is" t
    using that by (induction "is" arbitrary: t) (auto intro: step_subscription_inv)
  then have inv3: "publish_inv Q s3" using inv2 by (simp add: s3_def)
  have frame3: "session_frame s2 s3"
    unfolding s3_def by (rule fold_frame) (simp_all add: step_subscription_frame)
  have out3: "ps_outstanding s3 = ps_outstanding s" "ps_inbox s3 = []"
    using frame1 frame3 by (simp_all add: session_frame_def s2_def)
  show ?thesis
  proof (cases "g = None")
    case True
    then have loop: "publish_loop env (active_subscriptions s3) s3 = (f, s')"
      using p False box by (simp add: wop_subscription_step_def Let_def s3_def s2_def)
    show ?thesis
      using publish_loop_inv [OF inv3 _ loop] inv(2) frame1 frame3 out3 by (auto simp: session_frame_def s2_def)
  next
    case failed: False
    then have "s' = s2" using p False box by (auto simp: wop_subscription_step_def Let_def s2_def)
    then show ?thesis using inv inv2 frame1 by (auto simp: session_frame_def s2_def)
  qed
qed

section \<open>Reports keep the invariant\<close>

lemma sub_at_free:
  "i < length (ps_subscriptions s) \<Longrightarrow> sub_at (free_subscription i s) j = (if j = i then unused_subscription else sub_at s j)"
  by (auto simp: free_subscription_def set_sub_def sub_at_def)

lemma free_fields [simp]:
  "ps_operations (free_subscription i s) = ps_operations s" "ps_slots (free_subscription i s) = ps_slots s"
  "ps_serial (free_subscription i s) = ps_serial s" "ps_created (free_subscription i s) = ps_created s"
  "ps_deleted (free_subscription i s) = ps_deleted s" "ps_inbox (free_subscription i s) = ps_inbox s"
  "ps_outstanding (free_subscription i s) = ps_outstanding s" "ps_accepted (free_subscription i s) = ps_accepted s"
  "ps_emitted (free_subscription i s) = ps_emitted s"
  "ps_reports (free_subscription i s) = filter (\<lambda>r. \<not> (rp_subscription r = i \<and> rp_serial r = su_serial (sub_at s i))) (ps_reports s)"
  "length (ps_subscriptions (free_subscription i s)) = length (ps_subscriptions s)"
  by (simp_all add: free_subscription_def set_sub_def)

lemma unused_fields [simp]: "\<not> su_used unused_subscription" "su_serial unused_subscription = 0" "su_acks unused_subscription = []"
  "su_held unused_subscription = []"
  by (simp_all add: unused_subscription_def)

lemma free_inv:
  assumes inv: "publish_inv Q s" and i: "i < session_subscriptions"
  shows "publish_inv Q (free_subscription i s)"
proof -
  let ?s = "free_subscription i s"
  have base: "publish_base Q s" using inv by (simp add: publish_inv_def)
  then have len: "i < length (ps_subscriptions s)" using i by (simp add: publish_base_def)
  note at = sub_at_free [OF len]
  have home: "report_home ?s r" if "report_home s r" for r
    using that by (auto simp: report_home_def at)
  have live: "live_report ?s r \<Longrightarrow> live_report s r \<and> rp_subscription r \<noteq> i" for r
    by (cases "rp_subscription r = i") (simp_all add: live_report_def at)
  have "filter (live_report ?s) (ps_reports ?s) = filter (live_report ?s) (filter (live_report s) (ps_reports s))"
    unfolding free_fields filter_filter by (rule filter_cong) (use live in blast)+
  then have "subseq (ps_emitted s @ filter (live_report ?s) (ps_reports ?s)) (ps_emitted s @ filter (live_report s) (ps_reports s))"
    by (simp only: subseq_append' subseq_filter_left)
  then have order: "subseq (ps_emitted s @ filter (live_report ?s) (ps_reports ?s)) (accepted_reports s)"
    using base by (auto simp: publish_base_def intro: subseq_order.trans)
  have complete: "report_complete Q ?s j" if j: "j < session_subscriptions" for j
  proof (cases "j \<noteq> i \<and> su_used (sub_at s j)")
    case True
    have "of_serial (su_serial (sub_at s j)) (ps_reports ?s) = of_serial (su_serial (sub_at s j)) (ps_reports s)"
    proof -
      have "rp_subscription r = j" if "r \<in> set (ps_reports s)" "rp_serial r = su_serial (sub_at s j)" for r
        using True base j that by (auto simp: publish_base_def report_home_def)
      then show ?thesis unfolding of_serial_def free_fields filter_filter by (intro filter_cong) (use True in auto)
    qed
    moreover have "report_complete Q s j" using base j by (simp add: publish_base_def)
    ultimately show ?thesis
      using True by (simp add: report_complete_def at accepted_reports_def of_serial_def del: free_fields(10))
  qed (auto simp: report_complete_def at)
  have "length (ps_reports ?s) \<le> session_ready"
    unfolding free_fields by (rule le_trans [OF length_filter_le]) (use base in \<open>simp add: publish_base_def\<close>)
  moreover have "serials_apart ?s" using base by (auto simp: publish_base_def serials_apart_def at)
  moreover have "serials_known ?s" using base by (auto simp: publish_base_def serials_known_def serial_known_def at)
  moreover have "\<forall>r \<in> set (ps_reports ?s). report_home ?s r" using base home by (simp add: publish_base_def)
  moreover have "accepted_reports ?s = accepted_reports s" "accepted_numbers n ?s = accepted_numbers n s" for n
    by (simp_all add: accepted_reports_def accepted_numbers_def)
  ultimately have "publish_base Q ?s"
    using base order complete unfolding publish_base_def by (simp del: free_fields(10))
  moreover have "sub_inv ?s j" if "j < session_subscriptions" for j
  proof (cases "j = i")
    case False
    have "sub_inv s j" using inv that by (simp add: publish_inv_def)
    then show ?thesis by (rule sub_inv_other) (simp_all add: at False accepted_numbers_def)
  qed (simp add: sub_inv_def sub_bounded_def at)
  ultimately show ?thesis by (simp add: publish_inv_def)
qed

text \<open>Reports without a live subscription belong to no subscription that must be complete.\<close>

lemma stale_serial:
  assumes "publish_base {} s" "i < session_subscriptions" "su_used (sub_at s i)" "\<not> su_failed (sub_at s i)" "\<not> su_closing (sub_at s i)"
    and "list_all (stale_report s) rs" "set rs \<subseteq> set (ps_reports s)"
  shows "of_serial (su_serial (sub_at s i)) rs = []"
proof -
  have "rp_serial r \<noteq> su_serial (sub_at s i)" if "r \<in> set rs" for r
  proof
    assume "rp_serial r = su_serial (sub_at s i)"
    then have "rp_subscription r = i" using assms(1-3,7) that by (auto simp: publish_base_def report_home_def)
    then show False using assms(3-6) that \<open>rp_serial r = _\<close> by (auto simp: list_all_iff stale_report_def Let_def)
  qed
  then show ?thesis by (auto simp: of_serial_def filter_empty_conv)
qed

lemma stale_drop:
  assumes inv: "publish_inv {} s" and stale: "dropWhile (stale_report s) (ps_reports s) = []"
  shows "publish_inv {} (s\<lparr>ps_reports := []\<rparr>)"
proof -
  let ?s = "s\<lparr>ps_reports := []\<rparr>"
  have base: "publish_base {} s" using inv by (simp add: publish_inv_def)
  have at: "sub_at ?s = sub_at s" by (simp add: fun_eq_iff sub_at_def)
  have all: "list_all (stale_report s) (ps_reports s)" using stale by (simp add: list_all_iff)
  have "report_complete {} ?s i" if "i < session_subscriptions" for i
    using base that stale_serial [OF base that _ _ _ all] by (auto simp: publish_base_def report_complete_def at accepted_reports_def of_serial_def)
  moreover have "subseq (ps_emitted s) (accepted_reports s)"
    using base subseq_order.trans [OF subseq_rev_drop_many [OF subseq_order.refl]] by (auto simp: publish_base_def)
  ultimately show ?thesis
    using inv by (auto simp: publish_inv_def publish_base_def sub_inv_def sequence_current_def next_number_def accepted_numbers_def
        accepted_reports_def serials_apart_def serials_known_def serial_known_def at)
qed

lemma dropWhile_split: "dropWhile P xs = y # ys \<Longrightarrow> xs = takeWhile P xs @ y # ys \<and> \<not> P y"
  by (metis dropWhile_eq_Cons_conv takeWhile_dropWhile_id)

text \<open>What the first report with a live subscription leaves of the order and of the complete subscriptions.\<close>

lemma report_taken:
  assumes inv: "publish_inv {} s" and drop: "dropWhile (stale_report s) (ps_reports s) = r # rest"
  shows "report_home s r" "live_report s r" "set rest \<subseteq> set (ps_reports s)" "length rest \<le> session_ready"
    and "subseq (ps_emitted s @ filter (live_report s) (r # rest)) (accepted_reports s)"
    and "\<And>j. j < session_subscriptions \<Longrightarrow> su_used (sub_at s j) \<Longrightarrow> \<not> su_failed (sub_at s j) \<Longrightarrow> \<not> su_closing (sub_at s j) \<Longrightarrow>
      of_serial (su_serial (sub_at s j)) (ps_emitted s) @ of_serial (su_serial (sub_at s j)) (r # rest) =
      of_serial (su_serial (sub_at s j)) (accepted_reports s)"
proof -
  define pre where "pre = takeWhile (stale_report s) (ps_reports s)"
  have base: "publish_base {} s" using inv by (simp add: publish_inv_def)
  have split: "ps_reports s = pre @ r # rest" and fresh: "\<not> stale_report s r"
    using dropWhile_split [OF drop] by (simp_all add: pre_def)
  have stale: "list_all (stale_report s) pre" using set_takeWhileD [of _ "stale_report s"] by (fastforce simp: pre_def list_all_iff)
  show "live_report s r" using fresh by (simp add: stale_report_def live_report_def Let_def)
  show "report_home s r" "set rest \<subseteq> set (ps_reports s)" "length rest \<le> session_ready" using base split by (auto simp: publish_base_def)
  have "subseq (filter (live_report s) (r # rest)) (filter (live_report s) (ps_reports s))"
    unfolding split filter_append by (rule subseq_drop_many) simp
  then have "subseq (ps_emitted s @ filter (live_report s) (r # rest)) (ps_emitted s @ filter (live_report s) (ps_reports s))"
    by (simp only: subseq_append')
  then show "subseq (ps_emitted s @ filter (live_report s) (r # rest)) (accepted_reports s)"
    using base subseq_order.trans by (fastforce simp: publish_base_def)
  fix j assume j: "j < session_subscriptions" "su_used (sub_at s j)" "\<not> su_failed (sub_at s j)" "\<not> su_closing (sub_at s j)"
  have "of_serial (su_serial (sub_at s j)) pre = []"
    by (rule stale_serial [OF base j stale]) (use split in auto)
  moreover have "report_complete {} s j" using base j by (simp add: publish_base_def)
  ultimately show "of_serial (su_serial (sub_at s j)) (ps_emitted s) @ of_serial (su_serial (sub_at s j)) (r # rest) =
      of_serial (su_serial (sub_at s j)) (accepted_reports s)"
    using j by (simp add: report_complete_def split of_serial_def)
qed

lemma report_emitted_inv:
  assumes inv: "publish_inv {} s" and drop: "dropWhile (stale_report s) (ps_reports s) = r # rest"
  shows "publish_inv {} (s\<lparr>ps_reports := rest, ps_emitted := ps_emitted s @ [r]\<rparr>)" (is "publish_inv {} ?e")
proof -
  note taken = report_taken [OF inv drop]
  have at: "sub_at ?e = sub_at s" by (simp add: fun_eq_iff sub_at_def)
  have "report_complete {} ?e j" if "j < session_subscriptions" for j
    using taken(6) [OF that] by (auto simp: report_complete_def at accepted_reports_def of_serial_def)
  then show ?thesis
    using inv taken(2-5) live_reports_other [of ?e s]
    by (auto simp: publish_inv_def publish_base_def sub_inv_def sequence_current_def next_number_def accepted_numbers_def
        accepted_reports_def serials_apart_def serials_known_def serial_known_def at)
qed

text \<open>A report whose value has no document is taken from the queue, and its subscription fails.\<close>

lemma report_failed_inv:
  assumes inv: "publish_inv {} s" and drop: "dropWhile (stale_report s) (ps_reports s) = r # rest"
  shows "publish_inv {} (set_sub (rp_subscription r) (fail_subscription c st) (s\<lparr>ps_reports := rest\<rparr>))" (is "publish_inv {} ?f")
proof -
  let ?i = "rp_subscription r"
  note taken = report_taken [OF inv drop]
  have base: "publish_base {} s" using inv by (simp add: publish_inv_def)
  have "?i < length (ps_subscriptions s)" using taken(1) base by (simp add: publish_base_def report_home_def)
  then have at: "sub_at ?f j = (if j = ?i then fail_subscription c st (sub_at s ?i) else sub_at s j)" for j
    using sub_at_set_sub [of ?i "s\<lparr>ps_reports := rest\<rparr>" "fail_subscription c st" j] by (auto simp: sub_at_def)
  have key: "su_used (sub_at ?f j) = su_used (sub_at s j)" "su_serial (sub_at ?f j) = su_serial (sub_at s j)" for j
    by (simp_all add: at)
  have home: "report_home ?f x = report_home s x" for x by (simp add: report_home_def key)
  have live: "live_report ?f x \<Longrightarrow> live_report s x" for x by (auto simp: live_report_def at split: if_splits)
  have "filter (live_report ?f) rest = filter (live_report ?f) (filter (live_report s) rest)"
    unfolding filter_filter by (rule filter_cong) (use live in blast)+
  then have "subseq (ps_emitted s @ filter (live_report ?f) rest) (ps_emitted s @ filter (live_report s) (r # rest))"
    using taken(2) subseq_filter_left [of "live_report ?f" "filter (live_report s) rest"] by (simp add: subseq_append' list_emb.intros(2))
  then have order: "subseq (ps_emitted s @ filter (live_report ?f) rest) (accepted_reports s)" using taken(5) by (rule subseq_order.trans)
  have complete: "report_complete {} ?f j" if j: "j < session_subscriptions" for j
  proof (cases "j = ?i")
    case False
    have "rp_serial r \<noteq> su_serial (sub_at s j)" if "su_used (sub_at s j)" using taken(1) j that False by (auto simp: report_home_def)
    then show ?thesis using taken(6) [OF j] False by (auto simp: report_complete_def at accepted_reports_def of_serial_def)
  qed (simp add: report_complete_def at)
  have "publish_base {} ?f"
    using base order complete taken(3,4)
    by (auto simp: publish_base_def home serials_apart_def serials_known_def serial_known_def key accepted_reports_def accepted_numbers_def)
  moreover have "sub_inv ?f j" if "j < session_subscriptions" for j
  proof -
    have s: "sub_inv s j" using inv that by (simp add: publish_inv_def)
    then have "sub_inv ?f ?i" if "j = ?i" using that by (simp add: sub_inv_def at sub_bounded_def)
    moreover have "sub_inv ?f j" if "j \<noteq> ?i" by (rule sub_inv_other [OF s]) (simp_all add: at that accepted_numbers_def)
    ultimately show ?thesis by (cases "j = ?i") simp_all
  qed
  ultimately show ?thesis by (simp add: publish_inv_def)
qed

text \<open>
  A call drops, emits or reports an error, and frees the subscription only in the last case.
\<close>

lemma report_frame_set:
  assumes "length (ps_subscriptions s) = session_subscriptions"
  shows "session_frame s (s\<lparr>ps_reports := rs\<rparr>)" "session_frame s (s\<lparr>ps_reports := rs, ps_emitted := es\<rparr>)"
    and "session_frame s (set_sub i (fail_subscription c st) (s\<lparr>ps_reports := rs\<rparr>))"
proof -
  show "session_frame s (s\<lparr>ps_reports := rs\<rparr>)" "session_frame s (s\<lparr>ps_reports := rs, ps_emitted := es\<rparr>)"
    by (simp_all add: session_frame_def)
  then show "session_frame s (set_sub i (fail_subscription c st) (s\<lparr>ps_reports := rs\<rparr>))"
    using set_sub_after fail_key by blast
qed

lemma subscription_report_inv:
  "publish_inv {} s \<Longrightarrow> wop_subscription_report env s = (ok, rep, s') \<Longrightarrow> publish_inv {} s' \<and>
   (session_frame s s' \<or> (\<exists>t i. session_frame s t \<and> publish_inv {} t \<and> i < session_subscriptions \<and> su_used (sub_at t i) \<and>
     s' = free_subscription i (delete_remote (su_remote (sub_at t i)) t)))"
proof (induction env s arbitrary: ok rep s' rule: wop_subscription_report.induct)
  case (1 env s)
  note inv = 1(2) and call = 1(3) [unfolded wop_subscription_report.simps [of env s]]
  have len: "length (ps_subscriptions s) = session_subscriptions" using inv by (simp add: publish_inv_def publish_base_def)
  show ?case
  proof (cases "failed_index s")
    case (Some i)
    then have i: "i < session_subscriptions" "su_used (sub_at s i)" by (auto simp: failed_index_def find_Some_iff)
    have s': "s' = free_subscription i (delete_remote (su_remote (sub_at s i)) s)"
      using call Some by (auto simp: error_report_def Let_def)
    have "publish_inv {} (delete_remote (su_remote (sub_at s i)) s)"
      using inv publish_inv_ghost [of "delete_remote (su_remote (sub_at s i)) s" s] by (simp add: delete_remote_def)
    then have "publish_inv {} s'" unfolding s' using free_inv i by blast
    then show ?thesis using s' i inv session_frame_refl by blast
  next
    case None
    show ?thesis
    proof (cases "dropWhile (stale_report s) (ps_reports s)")
      case Nil
      have "s' = s\<lparr>ps_reports := []\<rparr>" using call None unfolding Nil by simp
      then show ?thesis using stale_drop [OF inv Nil] report_frame_set(1) [OF len] by blast
    next
      case (Cons r rest)
      show ?thesis
      proof (cases "pe_encode env (rp_value r)")
        case (Inr v)
        have "s' = s\<lparr>ps_reports := rest, ps_emitted := ps_emitted s @ [r]\<rparr>" using call None Cons Inr by (simp add: Let_def)
        then show ?thesis using report_emitted_inv [OF inv Cons] report_frame_set(2) [OF len] by blast
      next
        case (Inl e)
        let ?f = "set_sub (rp_subscription r) (fail_subscription (value_code e) None) (s\<lparr>ps_reports := rest\<rparr>)"
        have "wop_subscription_report env ?f = (ok, rep, s')" using call None Cons Inl by (simp add: Let_def)
        then have "publish_inv {} s' \<and> (session_frame ?f s' \<or> (\<exists>t i. session_frame ?f t \<and> publish_inv {} t \<and> i < session_subscriptions \<and>
            su_used (sub_at t i) \<and> s' = free_subscription i (delete_remote (su_remote (sub_at t i)) t)))"
          using 1(1) [OF None Cons refl Inl] report_failed_inv [OF inv Cons] by blast
        then show ?thesis using session_frame_trans [OF report_frame_set(3) [OF len]] by blast
      qed
    qed
  qed
qed

end
