(* ===== verification/Opcua_Session.thy ===== *)
theory Opcua_Session
  imports Opcua_Reports "HOL-Library.Multiset"
begin

text \<open>
  The subscriptions of an OPC UA session as the owner and the SDK drive them: the calls of \<open>owner.c\<close> on the slots of
  subscribe and unsubscribe operations, the SDK's callbacks, and the steps and reports of the session, in any order
  these two make them.  The owner admits to free slots, completes dispatched ones and dispatches what is queued before it
  steps or reports (\<open>dispatch_queued\<close>); a callback comes for the request it was registered with.  For every such run the
  reports of a subscription are emitted in the order of its messages, none is lost while it lives, and every
  subscription created on the server is deleted or still owned.
\<close>

section \<open>Calls\<close>

datatype session_call =
  AdmitCall opcua_operation_kind nat yyval "yyval option \<Rightarrow> rat option option" bool wop_failure
| DispatchCall nat bool bool u32
| WithdrawCall nat
| CompleteCall nat complete_env
| ExpireCall nat
| ReleaseCall nat
| CreateAnswer nat u32 "create_response option"
| ItemsAnswer nat u32 "items_response option"
| DeleteAnswer nat u32 "delete_response option"
| PublishAnswer "ua_publish option" bool
| RepublishAnswer nat u32 "(ua_status \<times> ua_message \<times> bool) option"
| PressureCall nat
| StepCall publish_env
| ReportCall publish_env

definition slot_at :: "wop_session \<Rightarrow> nat \<Rightarrow> slot_state" where
  "slot_at s k = ps_slots s ! k"

definition mark_slot :: "nat \<Rightarrow> slot_state \<Rightarrow> wop_session \<Rightarrow> wop_session" where
  "mark_slot k st s = s\<lparr>ps_slots := (ps_slots s)[k := st]\<rparr>"

text \<open>\<open>retire\<close> of the owner; work that was sent keeps its slot until the SDK answers.\<close>

definition slot_retire :: "nat \<Rightarrow> wop_session \<Rightarrow> wop_session" where
  "slot_retire k s =
     (let s1 = session_retire k s in
      mark_slot k (if slot_at s k = SlotDispatched \<and> \<not> session_released k s1 then SlotAbandoned else SlotFree) s1)"

definition call_admit ::
  "opcua_operation_kind \<Rightarrow> nat \<Rightarrow> yyval \<Rightarrow> (yyval option \<Rightarrow> rat option option) \<Rightarrow> bool \<Rightarrow> wop_failure \<Rightarrow> wop_session \<Rightarrow> wop_session" where
  "call_admit kind k p real_of node failure s =
     (case session_prepare real_of node kind k p failure s of (ok, f, s') \<Rightarrow> if ok then mark_slot k SlotQueued s' else s')"

definition call_dispatch :: "nat \<Rightarrow> bool \<Rightarrow> bool \<Rightarrow> u32 \<Rightarrow> wop_session \<Rightarrow> wop_session" where
  "call_dispatch k reachable sent request s =
     (case session_dispatch reachable sent request k s of (ok, s') \<Rightarrow> if ok then mark_slot k SlotDispatched s' else slot_retire k s')"

text \<open>A terminal completion ends the owner's loop and leaves the slot to the shutdown.\<close>

definition call_complete :: "nat \<Rightarrow> complete_env \<Rightarrow> wop_session \<Rightarrow> wop_session" where
  "call_complete k env s =
     (case session_complete env k s of
        (SessionPending, s') \<Rightarrow> s'
      | (SessionTerminal f, s') \<Rightarrow> s'
      | (c, s') \<Rightarrow> slot_retire k s')"

definition create_expected :: "session_operation \<Rightarrow> bool" where
  "create_expected q \<longleftrightarrow> so_abandoned q \<or> so_kind q = KindSubscribe \<and> so_stage q = 0"

definition items_expected :: "session_operation \<Rightarrow> bool" where
  "items_expected q \<longleftrightarrow> so_abandoned q \<or> so_kind q = KindSubscribe \<and> so_stage q \<noteq> 0"

definition delete_expected :: "session_operation \<Rightarrow> bool" where
  "delete_expected q \<longleftrightarrow> so_abandoned q \<or> so_kind q = KindUnsubscribe"

fun session_do :: "session_call \<Rightarrow> wop_session \<Rightarrow> wop_session" where
  "session_do (AdmitCall kind k p real_of node failure) s =
     (if k < owner_operations \<and> slot_at s k = SlotFree \<and> kind \<in> {KindSubscribe, KindUnsubscribe}
      then call_admit kind k p real_of node failure s else s)"
| "session_do (DispatchCall k reachable sent request) s =
     (if k < owner_operations \<and> slot_at s k = SlotQueued then call_dispatch k reachable sent request s else s)"
| "session_do (WithdrawCall k) s = (if k < owner_operations \<and> slot_at s k = SlotQueued then slot_retire k s else s)"
| "session_do (CompleteCall k env) s = (if k < owner_operations \<and> slot_at s k = SlotDispatched then call_complete k env s else s)"
| "session_do (ExpireCall k) s = (if k < owner_operations \<and> slot_at s k = SlotDispatched then slot_retire k s else s)"
| "session_do (ReleaseCall k) s =
     (if k < owner_operations \<and> slot_at s k = SlotAbandoned \<and> session_released k s then mark_slot k SlotFree s else s)"
| "session_do (CreateAnswer k request response) s =
     (if k < owner_operations \<and> create_expected (op_at s k) then receive_create_subscription k request response s else s)"
| "session_do (ItemsAnswer k request response) s =
     (if k < owner_operations \<and> items_expected (op_at s k) then receive_create_items k request response s else s)"
| "session_do (DeleteAnswer k request response) s =
     (if k < owner_operations \<and> delete_expected (op_at s k) then receive_delete k request response s else s)"
| "session_do (PublishAnswer response copied) s = receive_publish response copied s"
| "session_do (RepublishAnswer i request response) s =
     (if i < session_subscriptions then receive_republish i request response s else s)"
| "session_do (PressureCall n) s = s\<lparr>ps_queued_frames := n\<rparr>"
| "session_do (StepCall env) s = (if SlotQueued \<in> set (ps_slots s) then s else snd (wop_subscription_step env s))"
| "session_do (ReportCall env) s = (if SlotQueued \<in> set (ps_slots s) then s else snd (snd (wop_subscription_report env s)))"

section \<open>Invariant\<close>

text \<open>What the state of a slot says of its operation.\<close>

definition operation_fits :: "slot_state \<Rightarrow> session_operation \<Rightarrow> bool" where
  "operation_fits st q \<longleftrightarrow>
     (st \<in> {SlotFree, SlotAbandoned} \<longrightarrow> so_serial q = 0 \<and> so_created q = 0 \<and> (so_pending q \<longrightarrow> so_abandoned q)) \<and>
     (st \<in> {SlotQueued, SlotDispatched} \<longrightarrow> so_kind q \<in> {KindSubscribe, KindUnsubscribe} \<and> \<not> so_abandoned q \<and>
       (so_kind q = KindSubscribe \<longrightarrow> so_serial q \<noteq> 0) \<and>
       (so_kind q = KindUnsubscribe \<longrightarrow> so_serial q = 0 \<and> so_created q = 0 \<and> so_subscription q < session_subscriptions)) \<and>
     (st = SlotQueued \<longrightarrow> \<not> so_pending q \<and> \<not> so_delivered q \<and> so_stage q = 0 \<and> so_created q = 0) \<and>
     (st = SlotDispatched \<longrightarrow> (so_kind q = KindUnsubscribe \<longrightarrow> so_pending q \<or> so_delivered q \<or> so_stage q \<noteq> 0) \<and>
       (so_stage q = 0 \<and> so_pending q \<longrightarrow> so_created q = 0))"

text \<open>A sum over a list, of multisets or of numbers.\<close>

definition tally :: "('a \<Rightarrow> 'b :: comm_monoid_add) \<Rightarrow> 'a list \<Rightarrow> 'b" where
  "tally f xs = sum_list (map f xs)"

definition sub_remote :: "wop_subscription \<Rightarrow> bool \<times> u32" where
  "sub_remote u = (su_used u, su_remote u)"

definition remote_of :: "bool \<times> u32 \<Rightarrow> u32 multiset" where
  "remote_of = (\<lambda>(used, r). if used \<and> r \<noteq> 0 then {#r#} else {#})"

definition created_of :: "session_operation \<Rightarrow> u32 multiset" where
  "created_of q = (if so_created q = 0 then {#} else {#so_created q#})"

definition table_remotes :: "wop_session \<Rightarrow> u32 multiset" where
  "table_remotes s = tally remote_of (map sub_remote (ps_subscriptions s))"

definition operation_remotes :: "wop_session \<Rightarrow> u32 multiset" where
  "operation_remotes s = tally created_of (ps_operations s)"

definition custody :: "wop_session \<Rightarrow> bool" where
  "custody s \<longleftrightarrow> mset (ps_created s) = mset (ps_deleted s) + table_remotes s + operation_remotes s"

definition serials_waiting :: "wop_session \<Rightarrow> bool" where
  "serials_waiting s \<longleftrightarrow> ps_serial s \<le> 4294967295 \<and> (\<forall>k < owner_operations. so_serial (op_at s k) \<le> ps_serial s) \<and>
     (\<forall>k < owner_operations. \<forall>j < owner_operations. so_serial (op_at s k) \<noteq> 0 \<and> so_serial (op_at s k) = so_serial (op_at s j) \<longrightarrow> k = j)"

definition slots_fit :: "wop_session \<Rightarrow> bool" where
  "slots_fit s \<longleftrightarrow> length (ps_operations s) = owner_operations \<and> length (ps_slots s) = owner_operations \<and>
     (\<forall>k < owner_operations. operation_fits (slot_at s k) (op_at s k))"

definition queued_deletions :: "wop_session \<Rightarrow> nat set" where
  "queued_deletions s = {so_subscription (op_at s k) | k. k < owner_operations \<and> slot_at s k = SlotQueued \<and> so_kind (op_at s k) = KindUnsubscribe}"

definition table_inv :: "wop_session \<Rightarrow> bool" where
  "table_inv s \<longleftrightarrow> slots_fit s \<and> serials_waiting s \<and> subscriptions_reserved s \<le> session_subscriptions \<and> custody s"

definition session_inv :: "wop_session \<Rightarrow> bool" where
  "session_inv s \<longleftrightarrow> publish_inv (queued_deletions s) s \<and> table_inv s \<and> length (ps_inbox s) \<le> session_publish \<and>
     ps_outstanding s \<le> session_publish"

lemma tally_update: "i < length xs \<Longrightarrow> tally f (xs[i := y]) + f (xs ! i) = tally f xs + f y"
  by (induction xs arbitrary: i) (auto simp: tally_def ac_simps split: nat.splits)

lemma length_filter_tally: "length (filter P xs) = tally (\<lambda>x. if P x then 1 else 0) xs"
  by (induction xs) (auto simp: tally_def)

lemma tally_map: "tally f (map g xs) = tally (\<lambda>x. f (g x)) xs"
  by (simp add: tally_def comp_def)

lemma tally_replicate: "f x = 0 \<Longrightarrow> tally f (replicate n x) = 0"
  by (induction n) (simp_all add: tally_def)


section \<open>Changes of one operation\<close>

lemma op_at_update: "k < length (ps_operations s) \<Longrightarrow> ps_operations s' = (ps_operations s)[k := q] \<Longrightarrow>
  op_at s' j = (if j = k then q else op_at s j)"
  by (simp add: op_at_def)

lemma slot_at_update: "k < length (ps_slots s) \<Longrightarrow> ps_slots s' = (ps_slots s)[k := st] \<Longrightarrow>
  slot_at s' j = (if j = k then st else slot_at s j)"
  by (simp add: slot_at_def)

lemma reserved_tally:
  "subscriptions_reserved s = tally (\<lambda>(used, r). if used then 1 else 0) (map sub_remote (ps_subscriptions s)) +
     tally (\<lambda>q. if so_kind q = KindSubscribe \<and> so_serial q \<noteq> 0 then 1 else 0) (ps_operations s)"
  by (simp add: subscriptions_reserved_def length_filter_tally tally_map sub_remote_def)

lemma table_frame:
  assumes "ps_operations s' = ps_operations s" "ps_slots s' = ps_slots s" "ps_serial s' = ps_serial s" "ps_created s' = ps_created s"
    and "ps_deleted s' = ps_deleted s" "map sub_remote (ps_subscriptions s') = map sub_remote (ps_subscriptions s)"
  shows "table_inv s' = table_inv s" "queued_deletions s' = queued_deletions s"
  using assms by (simp_all add: table_inv_def slots_fit_def serials_waiting_def reserved_tally custody_def table_remotes_def
      operation_remotes_def queued_deletions_def op_at_def slot_at_def)

text \<open>
  An operation and its slot change to fitting ones, which hold no other serial than before, and what was created on
  the server is accounted for.
\<close>

lemma table_inv_op:
  assumes inv: "table_inv s" and k: "k < owner_operations" and ok: "operation_fits st q"
    and s': "ps_operations s' = (ps_operations s)[k := q]" "ps_slots s' = (ps_slots s)[k := st]" "ps_serial s' = ps_serial s"
      "map sub_remote (ps_subscriptions s') = map sub_remote (ps_subscriptions s)"
    and serial: "so_serial q = 0 \<or> so_serial q = so_serial (op_at s k) \<and> so_kind (op_at s k) = KindSubscribe"
    and remotes: "mset (ps_created s') + mset (ps_deleted s) + created_of (op_at s k) = mset (ps_created s) + mset (ps_deleted s') + created_of q"
  shows "table_inv s'"
proof -
  have fit: "slots_fit s" and len: "k < length (ps_operations s)" "k < length (ps_slots s)"
    using inv k by (auto simp: table_inv_def slots_fit_def)
  note at = op_at_update [OF len(1) s'(1)] slot_at_update [OF len(2) s'(2)]
  have "slots_fit s'" using fit ok s'(1,2) by (auto simp: slots_fit_def at)
  moreover have "serials_waiting s'"
    using inv serial k by (auto simp: table_inv_def serials_waiting_def at s'(3))
  moreover have "subscriptions_reserved s' \<le> session_subscriptions"
  proof -
    let ?f = "\<lambda>q. if so_kind q = KindSubscribe \<and> so_serial q \<noteq> 0 then 1 else 0 :: nat"
    have "?f q \<le> ?f (op_at s k)" using serial by auto
    then have "tally ?f (ps_operations s') \<le> tally ?f (ps_operations s)"
      using tally_update [OF len(1), of ?f q] unfolding s'(1) op_at_def by linarith
    then show ?thesis using inv by (simp add: table_inv_def reserved_tally s'(4))
  qed
  moreover have "custody s'"
  proof -
    have "operation_remotes s' + created_of (op_at s k) = operation_remotes s + created_of q"
      using tally_update [OF len(1), of created_of q] by (simp add: operation_remotes_def s'(1) op_at_def)
    moreover have "mset (ps_created s) = mset (ps_deleted s) + table_remotes s + operation_remotes s"
      using inv by (simp add: table_inv_def custody_def)
    moreover have "table_remotes s' = table_remotes s" by (simp add: table_remotes_def s'(4))
    ultimately have "mset (ps_created s') + (mset (ps_deleted s) + created_of (op_at s k)) =
        mset (ps_deleted s') + table_remotes s' + operation_remotes s' + (mset (ps_deleted s) + created_of (op_at s k))"
      using remotes by (simp add: ac_simps)
    then show ?thesis unfolding custody_def by (simp only: add_right_cancel)
  qed
  ultimately show ?thesis by (simp add: table_inv_def)
qed

lemma queued_deletions_op:
  assumes "slots_fit s" "k < owner_operations" "ps_operations s' = (ps_operations s)[k := q]" "ps_slots s' = (ps_slots s)[k := st]"
  shows "queued_deletions s' \<subseteq> queued_deletions s \<union> (if st = SlotQueued \<and> so_kind q = KindUnsubscribe then {so_subscription q} else {})"
    and "so_kind q = KindUnsubscribe \<and> st = SlotQueued \<Longrightarrow> so_subscription q \<in> queued_deletions s'"
proof -
  have len: "k < length (ps_operations s)" "k < length (ps_slots s)" using assms(1,2) by (auto simp: slots_fit_def)
  note at = op_at_update [OF len(1) assms(3)] slot_at_update [OF len(2) assms(4)]
  show "queued_deletions s' \<subseteq> queued_deletions s \<union> (if st = SlotQueued \<and> so_kind q = KindUnsubscribe then {so_subscription q} else {})"
    by (auto simp: queued_deletions_def at split: if_splits)
  show "so_kind q = KindUnsubscribe \<and> st = SlotQueued \<Longrightarrow> so_subscription q \<in> queued_deletions s'"
    using assms(2) by (auto simp: queued_deletions_def at intro!: exI [of _ k])
qed

text \<open>The publish invariant where only operations, slots and serials change.\<close>

lemma publish_inv_ops:
  assumes inv: "publish_inv Q s" and Q: "\<And>j. j \<in> Q' \<Longrightarrow> j \<in> Q \<or> \<not> su_closing (sub_at s j)" and known: "\<And>n. serial_known s n \<Longrightarrow> serial_known s' n"
    and same: "ps_subscriptions s' = ps_subscriptions s" "ps_reports s' = ps_reports s" "ps_accepted s' = ps_accepted s" "ps_emitted s' = ps_emitted s"
  shows "publish_inv Q' s'"
proof -
  have at: "sub_at s' = sub_at s" by (simp add: fun_eq_iff sub_at_def same)
  have "report_complete Q' s' i" if "report_complete Q s i" for i
    using that Q by (auto simp: report_complete_def at same accepted_reports_def)
  moreover have "serials_known s'" using inv known by (auto simp: publish_inv_def publish_base_def serials_known_def at same)
  ultimately show ?thesis
    using inv live_reports_other [OF same(1)]
    by (simp add: publish_inv_def publish_base_def sub_inv_def sequence_current_def next_number_def accepted_numbers_def
        accepted_reports_def serials_apart_def at same)
qed

lemma serial_known_op:
  assumes "serial_known s n" "ps_operations s' = (ps_operations s)[k := q]" "ps_serial s \<le> ps_serial s'"
    and "so_serial q = 0 \<or> so_serial q = so_serial (op_at s k) \<or> so_serial q > ps_serial s" "k < length (ps_operations s)"
  shows "serial_known s' n"
proof -
  have "so_serial p \<noteq> n" if "p \<in> set (ps_operations s')" for p
  proof -
    have "p = q \<or> p \<in> set (ps_operations s)" using that set_update_subset_insert [of "ps_operations s" k q] assms(2) by auto
    moreover have "op_at s k \<in> set (ps_operations s)" using assms(5) by (simp add: op_at_def)
    ultimately show ?thesis using assms(1,4) by (auto simp: serial_known_def)
  qed
  then show ?thesis using assms(1,3) by (auto simp: serial_known_def)
qed

lemma session_inv_op:
  assumes inv: "session_inv s" and k: "k < owner_operations" and ok: "operation_fits st q"
    and s': "ps_operations s' = (ps_operations s)[k := q]" "ps_slots s' = (ps_slots s)[k := st]" "ps_serial s' = ps_serial s"
      "ps_subscriptions s' = ps_subscriptions s" "ps_reports s' = ps_reports s" "ps_accepted s' = ps_accepted s" "ps_emitted s' = ps_emitted s"
      "ps_inbox s' = ps_inbox s" "ps_outstanding s' = ps_outstanding s"
    and serial: "so_serial q = 0 \<or> so_serial q = so_serial (op_at s k) \<and> so_kind (op_at s k) = KindSubscribe"
    and remotes: "mset (ps_created s') + mset (ps_deleted s) + created_of (op_at s k) = mset (ps_created s) + mset (ps_deleted s') + created_of q"
    and queued: "st = SlotQueued \<Longrightarrow> so_kind q = KindUnsubscribe \<Longrightarrow>
      so_subscription q \<in> queued_deletions s \<or> \<not> su_closing (sub_at s (so_subscription q))"
  shows "session_inv s'"
proof -
  have fit: "slots_fit s" and table: "table_inv s" using inv by (auto simp: session_inv_def table_inv_def)
  have len: "k < length (ps_operations s)" using fit k by (simp add: slots_fit_def)
  have "table_inv s'" using table_inv_op [OF table k ok s'(1-3) _ serial remotes] by (simp add: s'(4))
  moreover have "j \<in> queued_deletions s \<or> \<not> su_closing (sub_at s j)" if "j \<in> queued_deletions s'" for j
    using that queued_deletions_op(1) [OF fit k s'(1,2)] queued by (auto split: if_splits)
  moreover have "serial_known s n \<Longrightarrow> serial_known s' n" for n
    using serial_known_op [OF _ s'(1) _ _ len] serial s'(3) by auto
  ultimately show ?thesis
    using inv publish_inv_ops [of "queued_deletions s" s "queued_deletions s'" s'] s'(4-9) by (simp add: session_inv_def)
qed

section \<open>Changes of one subscription\<close>

lemma map_remote_set_sub:
  assumes "sub_remote (f (sub_at s i)) = sub_remote (sub_at s i)"
  shows "map sub_remote (ps_subscriptions (set_sub i f s)) = map sub_remote (ps_subscriptions s)"
proof (cases "i < length (ps_subscriptions s)")
  case True
  have "map sub_remote ((ps_subscriptions s)[i := f (sub_at s i)]) = (map sub_remote (ps_subscriptions s))[i := sub_remote (sub_at s i)]"
    by (simp add: map_update assms)
  also have "\<dots> = map sub_remote (ps_subscriptions s)" using True by (metis list_update_id nth_map sub_at_def)
  finally show ?thesis by (simp add: set_sub_def)
qed (simp add: set_sub_def list_update_beyond)

lemma map_remote_key:
  assumes "map sub_key xs = map sub_key ys"
  shows "map sub_remote xs = map sub_remote ys"
proof (rule nth_equalityI)
  show len: "length (map sub_remote xs) = length (map sub_remote ys)" using map_eq_imp_length_eq [OF assms] by simp
  fix i assume "i < length (map sub_remote xs)"
  then show "map sub_remote xs ! i = map sub_remote ys ! i"
    using len arg_cong [OF assms, of "\<lambda>zs. zs ! i"] by (simp add: sub_remote_def sub_key_def)
qed

text \<open>The frame of the publishing calls keeps the table.\<close>

lemma session_frame_table:
  assumes "session_frame s s'"
  shows "table_inv s' = table_inv s" "queued_deletions s' = queued_deletions s"
proof -
  have "map sub_remote (ps_subscriptions s') = map sub_remote (ps_subscriptions s)"
    using assms by (intro map_remote_key) (simp add: session_frame_def)
  then show "table_inv s' = table_inv s" "queued_deletions s' = queued_deletions s"
    using assms by (simp_all add: table_frame [of s' s] session_frame_def)
qed

lemma publish_inv_set_closing:
  assumes inv: "publish_inv Q s" and i: "i < session_subscriptions"
    and others: "\<And>j. j \<noteq> i \<Longrightarrow> j \<in> Q' \<Longrightarrow> j \<in> Q"
    and own: "\<not> c \<or> i \<in> Q' \<Longrightarrow> \<not> su_closing (sub_at s i) \<or> i \<in> Q"
  shows "publish_inv Q' (set_sub i (\<lambda>u. u\<lparr>su_closing := c\<rparr>) s)" (is "publish_inv Q' ?s")
proof -
  have base: "publish_base Q s" using inv by (simp add: publish_inv_def)
  then have at: "sub_at ?s j = (if j = i then (sub_at s i)\<lparr>su_closing := c\<rparr> else sub_at s j)" for j
    using i by (simp add: sub_at_set_sub publish_base_def)
  have key: "su_used (sub_at ?s j) = su_used (sub_at s j)" "su_serial (sub_at ?s j) = su_serial (sub_at s j)"
    "su_failed (sub_at ?s j) = su_failed (sub_at s j)" for j by (simp_all add: at)
  have "report_complete Q' ?s j" if "report_complete Q s j" for j
    using that others [of j] own by (auto simp: report_complete_def at accepted_reports_def)
  moreover have "report_home ?s = report_home s" "live_report ?s = live_report s"
    by (simp_all add: fun_eq_iff report_home_def live_report_def key)
  ultimately have "publish_base Q' ?s"
    using base by (simp add: publish_base_def serials_apart_def serials_known_def serial_known_def key accepted_numbers_def accepted_reports_def)
  moreover have "sub_inv ?s j = sub_inv s j" for j
    by (simp add: sub_inv_def sub_bounded_def sequence_current_def next_number_def key accepted_numbers_def at)
  ultimately show ?thesis using inv by (simp add: publish_inv_def)
qed

lemma session_inv_closing:
  assumes inv: "session_inv s" and i: "i \<in> queued_deletions s" "i < session_subscriptions"
  shows "session_inv (set_sub i (\<lambda>u. u\<lparr>su_closing := c\<rparr>) s)"
proof -
  have "queued_deletions (set_sub i (\<lambda>u. u\<lparr>su_closing := c\<rparr>) s) = queued_deletions s" 
       "table_inv (set_sub i (\<lambda>u. u\<lparr>su_closing := c\<rparr>) s) = table_inv s"
    by (intro table_frame map_remote_set_sub; simp add: sub_remote_def)+
  then show ?thesis
    using inv i publish_inv_set_closing [of "queued_deletions s" s i "queued_deletions s" c] by (simp add: session_inv_def)
qed

section \<open>The owner's calls\<close>

lemma set_op_fields [simp]:
  "ps_operations (set_op k f s) = (ps_operations s)[k := f (op_at s k)]" "ps_slots (set_op k f s) = ps_slots s"
  "ps_serial (set_op k f s) = ps_serial s" "ps_subscriptions (set_op k f s) = ps_subscriptions s" "ps_reports (set_op k f s) = ps_reports s"
  "ps_accepted (set_op k f s) = ps_accepted s" "ps_emitted (set_op k f s) = ps_emitted s" "ps_inbox (set_op k f s) = ps_inbox s"
  "ps_outstanding (set_op k f s) = ps_outstanding s" "ps_created (set_op k f s) = ps_created s" "ps_deleted (set_op k f s) = ps_deleted s"
  by (simp_all add: set_op_def)

lemma mark_slot_fields [simp]:
  "ps_operations (mark_slot k st s) = ps_operations s" "ps_slots (mark_slot k st s) = (ps_slots s)[k := st]"
  "ps_serial (mark_slot k st s) = ps_serial s" "ps_subscriptions (mark_slot k st s) = ps_subscriptions s" "ps_reports (mark_slot k st s) = ps_reports s"
  "ps_accepted (mark_slot k st s) = ps_accepted s" "ps_emitted (mark_slot k st s) = ps_emitted s" "ps_inbox (mark_slot k st s) = ps_inbox s"
  "ps_outstanding (mark_slot k st s) = ps_outstanding s" "ps_created (mark_slot k st s) = ps_created s" "ps_deleted (mark_slot k st s) = ps_deleted s"
  by (simp_all add: mark_slot_def)

lemma delete_remote_fields [simp]:
  "ps_operations (delete_remote n s) = ps_operations s" "ps_slots (delete_remote n s) = ps_slots s"
  "ps_serial (delete_remote n s) = ps_serial s" "ps_subscriptions (delete_remote n s) = ps_subscriptions s" "ps_reports (delete_remote n s) = ps_reports s"
  "ps_accepted (delete_remote n s) = ps_accepted s" "ps_emitted (delete_remote n s) = ps_emitted s" "ps_inbox (delete_remote n s) = ps_inbox s"
  "ps_outstanding (delete_remote n s) = ps_outstanding s" "ps_created (delete_remote n s) = ps_created s"
  "mset (ps_deleted (delete_remote n s)) = mset (ps_deleted s) + (if n = 0 then {#} else {#n#})"
  "op_at (delete_remote n s) k = op_at s k" "sub_at (delete_remote n s) i = sub_at s i"
  by (simp_all add: delete_remote_def op_at_def sub_at_def)

lemma slot_update_same: "slots_fit s \<Longrightarrow> k < owner_operations \<Longrightarrow> slot_at s k = st \<Longrightarrow> ps_slots s = (ps_slots s)[k := st]"
  by (metis list_update_id slot_at_def)

lemma op_at_set_op: "slots_fit s \<Longrightarrow> k < owner_operations \<Longrightarrow> op_at (set_op k f s) j = (if j = k then f (op_at s k) else op_at s j)"
  by (auto simp: op_at_def slots_fit_def)

lemma session_inv_parts:
  assumes "session_inv s" "k < owner_operations"
  shows "slots_fit s" "operation_fits (slot_at s k) (op_at s k)" "k < length (ps_operations s)" "k < length (ps_slots s)"
  using assms by (auto simp: session_inv_def table_inv_def slots_fit_def)

lemma clear_slot_inv:
  assumes inv: "session_inv s" and k: "k < owner_operations" and "so_created (op_at s k) = 0" "st \<in> {SlotFree, SlotAbandoned}"
  shows "session_inv (mark_slot k st (set_op k (\<lambda>q. clear_operation (q\<lparr>so_abandoned := so_pending q\<rparr>)) s))"
  using assms
  by (intro session_inv_op [OF inv k, where q = "clear_operation ((op_at s k)\<lparr>so_abandoned := so_pending (op_at s k)\<rparr>)" and st = st])
    (auto simp: operation_fits_def clear_operation_def empty_operation_def created_of_def)

lemma session_inv_same:
  assumes "session_inv s"
    and "ps_subscriptions s' = ps_subscriptions s" "ps_reports s' = ps_reports s" "ps_accepted s' = ps_accepted s" "ps_emitted s' = ps_emitted s"
    and "ps_operations s' = ps_operations s" "ps_serial s' = ps_serial s" "ps_slots s' = ps_slots s" "ps_created s' = ps_created s"
    and "ps_deleted s' = ps_deleted s" "length (ps_inbox s') \<le> session_publish" "ps_outstanding s' \<le> session_publish"
  shows "session_inv s'"
  using assms publish_inv_ghost [of s' s] table_frame [of s' s] by (simp add: session_inv_def)

lemma subscription_retire_inv:
  assumes inv: "session_inv s" and k: "k < owner_operations" and slot: "slot_at s k \<in> {SlotQueued, SlotDispatched}"
  shows "session_inv (wop_subscription_retire k s) \<and> so_created (op_at (wop_subscription_retire k s) k) = 0"
proof -
  note parts = session_inv_parts [OF inv k]
  let ?q = "op_at s k"
  let ?i = "so_subscription ?q"
  have ok: "operation_fits (slot_at s k) ?q" by (rule parts(2))
  show ?thesis
  proof (cases "so_kind ?q = KindSubscribe")
    case True
    let ?s = "wop_subscription_retire k s"
    have ops: "ps_operations ?s = (ps_operations s)[k := ?q\<lparr>so_created := 0\<rparr>]"
      using True by (simp add: wop_subscription_retire_def Let_def op_at_def delete_remote_def)
    have rest: "ps_slots ?s = ps_slots s" "ps_serial ?s = ps_serial s" "ps_subscriptions ?s = ps_subscriptions s" "ps_reports ?s = ps_reports s"
      "ps_accepted ?s = ps_accepted s" "ps_emitted ?s = ps_emitted s" "ps_inbox ?s = ps_inbox s" "ps_outstanding ?s = ps_outstanding s"
      "ps_created ?s = ps_created s" "mset (ps_deleted ?s) = mset (ps_deleted s) + created_of ?q"
      using True by (simp_all add: wop_subscription_retire_def Let_def created_of_def)
    have "session_inv ?s"
    proof (rule session_inv_op [OF inv k _ ops])
      show "operation_fits (slot_at s k) (?q\<lparr>so_created := 0\<rparr>)" using ok by (simp add: operation_fits_def)
      show "ps_slots ?s = (ps_slots s)[k := slot_at s k]" using slot_update_same [OF parts(1) k refl] rest(1) by simp
    qed (use True rest in \<open>simp_all add: created_of_def\<close>)
    then show ?thesis using op_at_update [OF parts(3) ops] by simp
  next
    case False
    then have un: "so_kind ?q = KindUnsubscribe" "so_created ?q = 0" "?i < session_subscriptions" using ok slot by (auto simp: operation_fits_def)
    have orphan: "session_inv (s\<lparr>ps_orphaned := True\<rparr>)"
      by (rule session_inv_same [OF inv]) (use inv in \<open>simp_all add: session_inv_def\<close>)
    have "session_inv (set_sub ?i (\<lambda>u. u\<lparr>su_closing := False\<rparr>) s)" if "\<not> (so_pending ?q \<or> so_delivered ?q \<or> so_stage ?q \<noteq> 0)"
    proof (rule session_inv_closing [OF inv _ un(3)])
      have "slot_at s k = SlotQueued" using that ok slot un(1) by (auto simp: operation_fits_def)
      then show "?i \<in> queued_deletions s" using un(1) k by (auto simp: queued_deletions_def)
    qed
    then show ?thesis
      using False un inv orphan by (auto simp: wop_subscription_retire_def Let_def op_at_def)
  qed
qed

lemma slot_retire_inv:
  assumes inv: "session_inv s" and k: "k < owner_operations" and slot: "slot_at s k \<in> {SlotQueued, SlotDispatched}"
  shows "session_inv (slot_retire k s)"
proof -
  have "so_kind (op_at s k) \<in> {KindSubscribe, KindUnsubscribe}" using session_inv_parts(2) [OF inv k] slot by (auto simp: operation_fits_def)
  then show ?thesis
    using subscription_retire_inv [OF assms] clear_slot_inv [OF _ k]
    by (auto simp: slot_retire_def session_retire_def Let_def)
qed

lemma dispatch_inv:
  assumes inv: "session_inv s" and k: "k < owner_operations" and slot: "slot_at s k = SlotQueued"
  shows "session_inv (call_dispatch k reachable sent request s)"
proof -
  note parts = session_inv_parts [OF inv k]
  let ?q = "op_at s k"
  let ?s = "set_op k (\<lambda>q. q\<lparr>so_stage := 0, so_pending := sent, so_request_id := request\<rparr>) s"
  have ok: "operation_fits SlotQueued ?q" using parts(2) slot by simp
  have "session_inv (mark_slot k SlotDispatched ?s)" if sent
    using ok that by (intro session_inv_op [OF inv k]) (auto simp: operation_fits_def created_of_def)
  moreover have "session_inv ?s \<and> slot_at ?s k = SlotQueued" if "\<not> sent"
  proof -
    have "session_inv ?s"
      using ok that slot_update_same [OF parts(1) k slot] k slot
      by (intro session_inv_op [OF inv k, where st = SlotQueued]) (auto simp: operation_fits_def created_of_def queued_deletions_def)
    then show ?thesis using slot by (simp add: slot_at_def)
  qed
  ultimately show ?thesis
    using slot_retire_inv [OF _ k] inv slot by (cases sent) (auto simp: call_dispatch_def session_dispatch_def)
qed

lemma release_inv:
  assumes inv: "session_inv s" and k: "k < owner_operations" and slot: "slot_at s k = SlotAbandoned"
  shows "session_inv (mark_slot k SlotFree s)"
  using session_inv_parts(2) [OF inv k] slot list_update_id [of "ps_operations s" k]
  by (intro session_inv_op [OF inv k, where st = SlotFree and q = "op_at s k"]) (auto simp: operation_fits_def op_at_def created_of_def)

text \<open>Admission: a serial is handed out, or a subscription is marked for deletion.\<close>

lemma grant_serial_inv:
  assumes inv: "session_inv s" and k: "k < owner_operations" and slot: "slot_at s k = SlotFree"
    and q: "so_serial q = Suc (ps_serial s)" "so_kind q = KindSubscribe" "\<not> so_abandoned q" "\<not> so_pending q"
      "\<not> so_delivered q" "so_stage q = 0" "so_created q = 0"
    and room: "subscriptions_reserved s < session_subscriptions" "ps_serial s < 4294967295"
  shows "session_inv (mark_slot k SlotQueued (set_op k (\<lambda>_. q) (s\<lparr>ps_serial := Suc (ps_serial s)\<rparr>)))" (is "session_inv ?s")
proof -
  note parts = session_inv_parts [OF inv k]
  have free: "so_serial (op_at s k) = 0" "so_created (op_at s k) = 0" using parts(2) slot by (simp_all add: operation_fits_def)
  have ops: "ps_operations ?s = (ps_operations s)[k := q]" and slots: "ps_slots ?s = (ps_slots s)[k := SlotQueued]" by simp_all
  note at = op_at_update [OF parts(3) ops] slot_at_update [OF parts(4) slots]
  have table: "serials_waiting s" "custody s" using inv by (simp_all add: session_inv_def table_inv_def)
  have "operation_fits SlotQueued q" using q by (simp add: operation_fits_def)
  then have "slots_fit ?s" using parts(1) by (auto simp: slots_fit_def at)
  moreover have "serials_waiting ?s"
    using table(1) room(2) q(1) by (auto simp: serials_waiting_def at le_SucI dest: spec)
  moreover have "subscriptions_reserved ?s \<le> session_subscriptions"
  proof -
    let ?f = "\<lambda>q. if so_kind q = KindSubscribe \<and> so_serial q \<noteq> 0 then 1 else 0 :: nat"
    have "tally ?f (ps_operations ?s) = tally ?f (ps_operations s) + 1"
      using tally_update [OF parts(3), of ?f q] free q(1,2) unfolding ops by (simp add: op_at_def)
    then show ?thesis using room(1) by (simp add: reserved_tally)
  qed
  moreover have "custody ?s"
  proof -
    have "operation_remotes ?s + created_of (op_at s k) = operation_remotes s + created_of q"
      using tally_update [OF parts(3), of created_of q] unfolding operation_remotes_def ops op_at_def .
    then show ?thesis using table(2) free q(7) by (simp add: custody_def table_remotes_def created_of_def)
  qed
  ultimately have "table_inv ?s" by (simp add: table_inv_def)
  moreover have "queued_deletions ?s \<subseteq> queued_deletions s"
    using queued_deletions_op(1) [OF parts(1) k ops slots] q(2) by simp
  moreover have "serial_known s n \<Longrightarrow> serial_known ?s n" for n
    using serial_known_op [OF _ ops _ _ parts(3)] q(1) by simp
  ultimately show ?thesis
    using inv publish_inv_ops [of "queued_deletions s" s "queued_deletions ?s" ?s] by (auto simp: session_inv_def)
qed

lemma admit_unsubscribe_inv:
  assumes inv: "session_inv s" and k: "k < owner_operations" and slot: "slot_at s k = SlotFree" and idle: "\<not> so_pending (op_at s k)"
    and i: "i < session_subscriptions" "\<not> su_closing (sub_at s i)"
    and q: "q = (clear_operation (op_at s k))\<lparr>so_abandoned := False, so_kind := KindUnsubscribe, so_subscription := i\<rparr>"
  shows "session_inv (mark_slot k SlotQueued (set_op k (\<lambda>_. q) (set_sub i (\<lambda>u. u\<lparr>su_closing := True\<rparr>) s)))"
proof -
  note parts = session_inv_parts [OF inv k]
  define s1 where "s1 = mark_slot k SlotQueued (set_op k (\<lambda>_. q) s)"
  have created: "so_created (op_at s k) = 0" using parts(2) slot by (simp add: operation_fits_def)
  have "session_inv s1"
    unfolding s1_def using idle created i
    by (intro session_inv_op [OF inv k, where q = q and st = SlotQueued]) (auto simp: q operation_fits_def clear_operation_def empty_operation_def created_of_def)
  moreover have "i \<in> queued_deletions s1"
    using queued_deletions_op(2) [OF parts(1) k, of s1 q SlotQueued] by (simp add: s1_def q)
  ultimately have "session_inv (set_sub i (\<lambda>u. u\<lparr>su_closing := True\<rparr>) s1)" using i(1) by (intro session_inv_closing)
  moreover have "set_sub i (\<lambda>u. u\<lparr>su_closing := True\<rparr>) s1 =
      mark_slot k SlotQueued (set_op k (\<lambda>_. q) (set_sub i (\<lambda>u. u\<lparr>su_closing := True\<rparr>) s))"
    by (cases s) (simp add: s1_def mark_slot_def set_op_def set_sub_def sub_at_def op_at_def)
  ultimately show ?thesis by simp
qed

lemma admit_failed_inv:
  assumes inv: "session_inv s" and k: "k < owner_operations" and slot: "slot_at s k = SlotFree" and idle: "\<not> so_pending (op_at s k)"
    and q: "so_serial q = 0" "so_created q = 0" "\<not> so_pending q"
  shows "session_inv (set_op k (\<lambda>_. q) s)"
proof (rule session_inv_op [OF inv k, where q = q and st = SlotFree])
  note parts = session_inv_parts [OF inv k]
  show "ps_slots (set_op k (\<lambda>_. q) s) = (ps_slots s)[k := SlotFree]" using slot_update_same [OF parts(1) k slot] by simp
  show "mset (ps_created (set_op k (\<lambda>_. q) s)) + mset (ps_deleted s) + created_of (op_at s k) =
      mset (ps_created s) + mset (ps_deleted (set_op k (\<lambda>_. q) s)) + created_of q"
    using parts(2) slot q by (simp add: operation_fits_def created_of_def)
qed (use q in \<open>simp_all add: operation_fits_def\<close>)

text \<open>The operation an admission starts from, and what becomes of it.\<close>

definition admitted_op :: "opcua_operation_kind \<Rightarrow> session_operation \<Rightarrow> session_operation" where
  "admitted_op kind q = (clear_operation q)\<lparr>so_abandoned := False, so_kind := kind\<rparr>"

lemma admitted_op_fields [simp]:
  "so_serial (clear_operation q) = 0" "so_created (clear_operation q) = 0" "so_pending (clear_operation q) = so_pending q"
  "so_serial (admitted_op kind q) = 0" "so_created (admitted_op kind q) = 0" "so_pending (admitted_op kind q) = so_pending q"
  "so_kind (admitted_op kind q) = kind" "so_stage (admitted_op kind q) = 0" "\<not> so_delivered (admitted_op kind q)"
  "\<not> so_abandoned (admitted_op kind q)"
  by (simp_all add: admitted_op_def clear_operation_def empty_operation_def)

lemma call_admit_idle:
  assumes fit: "slots_fit s" and k: "k < owner_operations" and idle: "\<not> so_pending (op_at s k)"
    and s1: "s1 = set_op k (\<lambda>_. admitted_op kind (op_at s k)) s"
  shows "call_admit kind k p real_of node failure s =
    (case (if kind = KindUnsubscribe then prepare_unsubscribe k p s1
           else case prepare_subscribe real_of node k p failure s1 of (ok, f, s2) \<Rightarrow> (ok, s2)) of
       (ok, s2) \<Rightarrow> if ok then mark_slot k SlotQueued s2 else set_op k clear_operation s2)"
proof -
  have "op_at s1 k = admitted_op kind (op_at s k)" using op_at_set_op [OF fit k] by (simp add: s1)
  moreover have "set_op k (\<lambda>q. (clear_operation q)\<lparr>so_abandoned := False, so_kind := kind\<rparr>) s = s1"
    by (simp add: s1 set_op_def admitted_op_def)
  ultimately show ?thesis
    using idle by (simp add: call_admit_def session_prepare_def Let_def wop_subscription_prepare_def split: prod.splits)
qed

lemma set_op_again: "slots_fit s \<Longrightarrow> k < owner_operations \<Longrightarrow> set_op k f (set_op k (\<lambda>_. q) s) = set_op k (\<lambda>_. f q) s"
  by (simp add: set_op_def op_at_def slots_fit_def)

lemma call_unsubscribe_inv:
  assumes inv: "session_inv s" and k: "k < owner_operations" and slot: "slot_at s k = SlotFree" and idle: "\<not> so_pending (op_at s k)"
  shows "session_inv (call_admit KindUnsubscribe k p real_of node failure s)"
proof -
  note fit = session_inv_parts(1) [OF inv k]
  define q where "q = admitted_op KindUnsubscribe (op_at s k)"
  define s1 where "s1 = set_op k (\<lambda>_. q) s"
  obtain ok s2 where prep: "prepare_unsubscribe k p s1 = (ok, s2)" by (cases "prepare_unsubscribe k p s1")
  have call: "call_admit KindUnsubscribe k p real_of node failure s = (if ok then mark_slot k SlotQueued s2 else set_op k clear_operation s2)"
    using call_admit_idle [OF fit k idle refl, of KindUnsubscribe p real_of node failure] prep by (simp add: s1_def q_def)
  show ?thesis
  proof (cases ok)
    case False
    then have "s2 = s1" using prep by (auto simp: prepare_unsubscribe_def split: if_splits option.splits)
    moreover have "session_inv (set_op k (\<lambda>_. clear_operation q) s)"
      using idle by (intro admit_failed_inv [OF inv k slot idle]) (simp_all add: q_def)
    ultimately show ?thesis using call False set_op_again [OF fit k] by (simp add: s1_def)
  next
    case True
    have at: "sub_at s1 = sub_at s" by (simp add: s1_def fun_eq_iff sub_at_def)
    obtain i where i: "i < session_subscriptions" "\<not> su_closing (sub_at s i)"
      and s2: "s2 = set_op k (\<lambda>q. q\<lparr>so_subscription := i\<rparr>) (set_sub i (\<lambda>u. u\<lparr>su_closing := True\<rparr>) s1)"
      using prep True by (auto simp: prepare_unsubscribe_def find_serial_def find_Some_iff at split: if_splits option.splits)
    have "s2 = set_op k (\<lambda>_. q\<lparr>so_subscription := i\<rparr>) (set_sub i (\<lambda>u. u\<lparr>su_closing := True\<rparr>) s)"
      unfolding s2 using fit k by (cases s) (simp add: s1_def set_op_def op_at_def set_sub_def sub_at_def slots_fit_def)
    then show ?thesis
      using call True admit_unsubscribe_inv [OF inv k slot idle i refl] by (simp add: q_def admitted_op_def)
  qed
qed

lemma call_subscribe_inv:
  assumes inv: "session_inv s" and k: "k < owner_operations" and slot: "slot_at s k = SlotFree" and idle: "\<not> so_pending (op_at s k)"
  shows "session_inv (call_admit KindSubscribe k p real_of node failure s)"
proof -
  note fit = session_inv_parts(1) [OF inv k]
  define q where "q = admitted_op KindSubscribe (op_at s k)"
  define s1 where "s1 = set_op k (\<lambda>_. q) s"
  obtain ok f s2 where prep: "prepare_subscribe real_of node k p failure s1 = (ok, f, s2)" by (cases "prepare_subscribe real_of node k p failure s1")
  have call: "call_admit KindSubscribe k p real_of node failure s = (if ok then mark_slot k SlotQueued s2 else set_op k clear_operation s2)"
    using call_admit_idle [OF fit k idle refl, of KindSubscribe p real_of node failure] prep by (simp add: s1_def q_def)
  have cleared: "session_inv (set_op k (\<lambda>_. clear_operation x) s)" if "\<not> so_pending x" for x
    using that by (intro admit_failed_inv [OF inv k slot idle]) simp_all
  show ?thesis
  proof (cases ok)
    case False
    then have "s2 = s1 \<or> (\<exists>r. s2 = set_op k (\<lambda>q. q\<lparr>so_requested := r\<rparr>) s1)"
      using prep by (auto simp: prepare_subscribe_def Let_def split: if_splits option.splits)
    then show ?thesis using call False cleared idle set_op_again [OF fit k] by (auto simp: s1_def q_def)
  next
    case True
    then obtain r where room: "subscriptions_reserved (set_op k (\<lambda>q. q\<lparr>so_requested := r\<rparr>) s1) < session_subscriptions" "ps_serial s < 4294967295"
      and s2: "s2 = set_op k (\<lambda>q. q\<lparr>so_serial := add64 (ps_serial s) 1\<rparr>)
        ((set_op k (\<lambda>q. q\<lparr>so_requested := r\<rparr>) s1)\<lparr>ps_serial := add64 (ps_serial s) 1\<rparr>)"
      using prep by (auto simp: prepare_subscribe_def Let_def s1_def not_le split: if_splits option.splits)
    have add: "add64 (ps_serial s) 1 = Suc (ps_serial s)" using room(2) by (simp add: add64_exact u64_max_def)
    define x where "x = q\<lparr>so_requested := r\<rparr>"
    have s2': "s2 = set_op k (\<lambda>_. x\<lparr>so_serial := Suc (ps_serial s)\<rparr>) ((set_op k (\<lambda>_. x) s)\<lparr>ps_serial := Suc (ps_serial s)\<rparr>)"
      unfolding s2 add using fit k by (cases s) (simp add: s1_def set_op_def op_at_def x_def slots_fit_def)
    have "session_inv (set_op k (\<lambda>_. x) s)" using idle by (intro admit_failed_inv [OF inv k slot idle]) (simp_all add: x_def q_def)
    moreover have "slot_at (set_op k (\<lambda>_. x) s) k = SlotFree" using slot by (simp add: slot_at_def)
    moreover have "subscriptions_reserved (set_op k (\<lambda>_. x) s) < session_subscriptions"
      using room(1) set_op_again [OF fit k] by (simp add: s1_def x_def)
    ultimately show ?thesis
      using call True room(2) idle grant_serial_inv [of "set_op k (\<lambda>_. x) s" k] k unfolding s2' by (simp add: x_def q_def)
  qed
qed

lemma admit_inv:
  assumes "session_inv s" "k < owner_operations" "slot_at s k = SlotFree" "kind \<in> {KindSubscribe, KindUnsubscribe}"
  shows "session_inv (call_admit kind k p real_of node failure s)"
proof (cases "so_pending (op_at s k)")
  case True
  then show ?thesis using assms by (simp add: call_admit_def session_prepare_def)
qed (use assms call_subscribe_inv call_unsubscribe_inv in auto)

text \<open>Completion: the subscription enters the table when its operation leaves the slot, and leaves it when it is deleted.\<close>

lemma table_remotes_update:
  assumes "i < length (ps_subscriptions s)" "ps_subscriptions s' = (ps_subscriptions s)[i := u]"
  shows "table_remotes s' + remote_of (sub_remote (sub_at s i)) = table_remotes s + remote_of (sub_remote u)"
  using tally_update [of i "map sub_remote (ps_subscriptions s)" remote_of "sub_remote u"] assms
  by (simp add: table_remotes_def map_update sub_at_def)

lemma used_update:
  assumes "i < length (ps_subscriptions s)" "ps_subscriptions s' = (ps_subscriptions s)[i := u]"
  shows "length (filter su_used (ps_subscriptions s')) + (if su_used (sub_at s i) then 1 else 0) =
    length (filter su_used (ps_subscriptions s)) + (if su_used u then 1 else 0)"
  using tally_update [OF assms(1), of "\<lambda>u. if su_used u then 1 else 0 :: nat" u] assms(2)
  by (simp add: length_filter_tally sub_at_def)

lemma delete_inv:
  assumes inv: "session_inv s" and i: "i < session_subscriptions"
  shows "session_inv (free_subscription i (if su_used (sub_at s i) then delete_remote (su_remote (sub_at s i)) s else s))"
    (is "session_inv (free_subscription i ?d)")
proof -
  let ?s = "free_subscription i ?d"
  have pub: "publish_inv (queued_deletions s) s" and table: "table_inv s" using inv by (simp_all add: session_inv_def)
  have len: "i < length (ps_subscriptions s)" using pub i by (simp add: publish_inv_def publish_base_def)
  have subs: "ps_subscriptions ?s = (ps_subscriptions s)[i := unused_subscription]" by (simp add: free_subscription_def set_sub_def)
  have rest: "ps_operations ?s = ps_operations s" "ps_slots ?s = ps_slots s" "ps_serial ?s = ps_serial s" "ps_created ?s = ps_created s"
    by simp_all
  have at: "op_at ?s = op_at s" "slot_at ?s = slot_at s" by (simp_all add: fun_eq_iff op_at_def slot_at_def)
  have "publish_inv (queued_deletions s) ?d" using pub publish_inv_ghost [of ?d s] by simp
  then have "publish_inv (queued_deletions s) ?s" using free_inv i by blast
  moreover have "queued_deletions ?s = queued_deletions s" by (simp add: queued_deletions_def at)
  moreover have "mset (ps_deleted ?s) = mset (ps_deleted s) + remote_of (sub_remote (sub_at s i))"
    by (simp add: remote_of_def sub_remote_def)
  then have "custody ?s"
    using table_remotes_update [OF len subs] table
    by (simp add: table_inv_def custody_def operation_remotes_def rest remote_of_def sub_remote_def ac_simps)
  moreover have "subscriptions_reserved ?s \<le> subscriptions_reserved s"
    using used_update [OF len subs] by (cases "su_used (sub_at s i)") (simp_all add: subscriptions_reserved_def)
  ultimately show ?thesis
    using inv table by (simp add: session_inv_def table_inv_def slots_fit_def serials_waiting_def rest at)
qed

text \<open>A subscription with a serial that no one knows yet.\<close>

lemma serials_apart_create:
  assumes apart: "serials_apart s" and new: "\<And>j. j < session_subscriptions \<Longrightarrow> su_used (sub_at s j) \<Longrightarrow> su_serial (sub_at s j) \<noteq> n"
    and u: "su_serial u = n" and at: "\<And>j. sub_at s' j = (if j = i then u else sub_at s j)"
  shows "serials_apart s'"
  unfolding serials_apart_def
proof (intro allI impI)
  fix a b
  assume ab: "a < session_subscriptions" "b < session_subscriptions" and
    h: "su_used (sub_at s' a) \<and> su_used (sub_at s' b) \<and> su_serial (sub_at s' a) = su_serial (sub_at s' b)"
  show "a = b"
  proof (cases "a = i \<or> b = i")
    case True
    then show ?thesis using h new [OF ab(1)] new [OF ab(2)] u by (simp add: at) metis
  next
    case False
    then show ?thesis using h ab apart by (simp add: at serials_apart_def)
  qed
qed

lemma publish_inv_create:
  assumes inv: "publish_inv Q s" and i: "i < session_subscriptions" "\<not> su_used (sub_at s i)" and fresh: "\<not> serial_known s n" "serial_known s' n"
    and u: "su_used u" "su_serial u = n" "\<not> su_closing u" "su_sequence u = wop_sequence_init 0" "su_acks u = []" "su_held u = []"
    and s': "ps_subscriptions s' = (ps_subscriptions s)[i := u]" "ps_reports s' = ps_reports s" "ps_accepted s' = ps_accepted s" "ps_emitted s' = ps_emitted s"
    and known: "\<And>m. serial_known s m \<Longrightarrow> serial_known s' m" and Q: "Q' \<subseteq> Q"
  shows "publish_inv Q' s'"
proof -
  have base: "publish_base Q s" using inv by (simp add: publish_inv_def)
  have serials: "serials_known s" using base by (simp add: publish_base_def)
  have at: "sub_at s' j = (if j = i then u else sub_at s j)" for j
    using base i by (auto simp: publish_base_def sub_at_def s'(1))
  have new: "su_serial (sub_at s j) \<noteq> n" if "j < session_subscriptions" "su_used (sub_at s j)" for j
    using serials fresh that by (auto simp: serials_known_def)
  have none: "fst a \<noteq> n" if "a \<in> set (ps_accepted s)" for a using serials fresh that by (auto simp: serials_known_def)
  have quiet: "rp_serial r \<noteq> n" if "r \<in> set (ps_reports s)" for r using serials fresh that by (auto simp: serials_known_def)
  have numbers: "accepted_numbers m s' = accepted_numbers m s" "accepted_numbers n s = []" for m
    using none by (fastforce simp: accepted_numbers_def s' filter_empty_conv)+
  have reports: "accepted_reports s' = accepted_reports s" by (simp add: accepted_reports_def s')
  have apart: "rp_serial r \<noteq> n" if "r \<in> set (accepted_reports s)" for r
    using that none base by (fastforce simp: accepted_reports_def publish_base_def)
  have live: "live_report s' r = live_report s r" if "r \<in> set (ps_reports s)" for r
    using quiet [OF that] i(2) u by (auto simp: live_report_def at)
  then have filter: "filter (live_report s') (ps_reports s) = filter (live_report s) (ps_reports s)" by (rule filter_cong [OF refl])
  have home: "report_home s' r" if "r \<in> set (ps_reports s)" for r
    using base that quiet [OF that] u by (auto simp: publish_base_def report_home_def at)
  have "set (ps_emitted s) \<subseteq> set (accepted_reports s)"
    using base by (auto simp: publish_base_def dest: list_emb_set)
  then have "of_serial n (ps_emitted s @ ps_reports s) = []" "of_serial n (accepted_reports s) = []"
    using quiet apart by (auto simp: of_serial_def filter_empty_conv)
  then have complete: "report_complete Q' s' j" if "j < session_subscriptions" for j
    using base that Q u by (auto simp: publish_base_def report_complete_def at s' reports)
  have "serials_apart s'" using serials_apart_create [OF _ new u(2) at] base by (simp add: publish_base_def)
  moreover have "serials_known s'" using serials known fresh(2) u by (auto simp: serials_known_def at s')
  ultimately have "publish_base Q' s'"
    using base filter home complete by (simp add: publish_base_def s' numbers(1) reports)
  moreover have "sub_inv s' j" if j: "j < session_subscriptions" for j
  proof (cases "j = i")
    case True
    have "sequence_expected (wop_sequence_init 0) = 1" by (simp add: sequence_expected_def wop_sequence_init_def)
    then show ?thesis
      using True u recovery_inv_init numbers by (simp add: sub_inv_def sub_bounded_def sequence_current_def next_number_def at wop_sequence_init_def)
  next
    case False
    have "sub_inv s j" using inv j by (simp add: publish_inv_def)
    then show ?thesis by (rule sub_inv_other) (simp_all add: at False numbers)
  qed
  ultimately show ?thesis by (simp add: publish_inv_def)
qed

text \<open>The serial of an operation is known once the operation no longer waits with it.\<close>

lemma serial_given:
  assumes fit: "slots_fit s" and wait: "serials_waiting s" and k: "k < owner_operations" and nz: "so_serial (op_at s k) \<noteq> 0"
    and q: "so_serial q = 0" and ops: "ps_operations s' = (ps_operations s)[k := q]" and serial: "ps_serial s' = ps_serial s"
  shows "serial_known s' (so_serial (op_at s k))"
proof -
  have "so_serial x \<noteq> so_serial (op_at s k)" if x: "x \<in> set (ps_operations s')" for x
  proof -
    obtain j where j: "j < owner_operations" "x = (ps_operations s)[k := q] ! j"
      using x ops fit by (auto simp: slots_fit_def in_set_conv_nth)
    show ?thesis
    proof (cases "j = k")
      case True
      then show ?thesis using j q nz fit by (simp add: slots_fit_def)
    next
      case False
      then have "x = op_at s j" using j by (simp add: op_at_def)
      then show ?thesis using j(1) False k nz wait by (simp add: serials_waiting_def) metis
    qed
  qed
  then show ?thesis using wait nz k by (simp add: serial_known_def serials_waiting_def serial)
qed

lemma create_inv:
  assumes inv: "session_inv s" and k: "k < owner_operations" and slot: "slot_at s k = SlotDispatched"
    and op: "so_kind (op_at s k) = KindSubscribe" and i: "i < session_subscriptions" "\<not> su_used (sub_at s i)"
    and q: "so_serial q = 0" "so_created q = 0" "\<not> so_pending q"
    and s': "s' = mark_slot k SlotFree (set_op k (\<lambda>_. q) (set_sub i (\<lambda>_. new_subscription env (op_at s k)) s))"
  shows "session_inv s'"
proof -
  note parts = session_inv_parts [OF inv k]
  let ?p = "op_at s k"
  let ?n = "so_serial (op_at s k)"
  have pub: "publish_inv (queued_deletions s) s" and table: "table_inv s" using inv by (simp_all add: session_inv_def)
  have len: "i < length (ps_subscriptions s)" using pub i by (simp add: publish_inv_def publish_base_def)
  have nz: "?n \<noteq> 0" using parts(2) slot op by (simp add: operation_fits_def)
  have ops: "ps_operations s' = (ps_operations s)[k := q]" "ps_slots s' = (ps_slots s)[k := SlotFree]" by (simp_all add: s')
  note at = op_at_update [OF parts(3) ops(1)] slot_at_update [OF parts(4) ops(2)]
  have subs: "ps_subscriptions s' = (ps_subscriptions s)[i := new_subscription env ?p]" by (simp add: s' set_sub_def)
  have wait: "serials_waiting s" using table by (simp add: table_inv_def)
  have fresh: "\<not> serial_known s ?n"
  proof -
    have "?p \<in> set (ps_operations s)" using parts(3) by (simp add: op_at_def)
    then show ?thesis by (auto simp: serial_known_def)
  qed
  have given: "serial_known s' ?n"
    using serial_given [OF parts(1) wait k nz q(1) ops(1)] by (simp add: s')
  have known: "serial_known s m \<Longrightarrow> serial_known s' m" for m
    using serial_known_op [OF _ ops(1) _ _ parts(3)] q(1) by (simp add: s')
  have queued: "queued_deletions s' \<subseteq> queued_deletions s" using queued_deletions_op(1) [OF parts(1) k ops] by simp
  have "publish_inv (queued_deletions s') s'"
    by (rule publish_inv_create [OF pub i fresh given _ _ _ _ _ _ subs _ _ _ known queued])
      (simp_all add: new_subscription_def unused_subscription_def s')
  moreover have "slots_fit s'" using parts(1) ops q by (auto simp: slots_fit_def at operation_fits_def)
  moreover have "ps_serial s' = ps_serial s" by (simp add: s')
  then have "serials_waiting s'" using wait q(1) by (auto simp: serials_waiting_def at)
  moreover have "subscriptions_reserved s' \<le> subscriptions_reserved s"
    using used_update [OF len subs] i(2) nz op q(1)
      tally_update [OF parts(3), of "\<lambda>q. if so_kind q = KindSubscribe \<and> so_serial q \<noteq> 0 then 1 else 0 :: nat" q]
    by (simp add: subscriptions_reserved_def ops length_filter_tally op_at_def new_subscription_def)
  moreover have "custody s'"
  proof -
    have "operation_remotes s' + created_of ?p = operation_remotes s + created_of q"
      using tally_update [OF parts(3), of created_of q] unfolding operation_remotes_def ops op_at_def .
    moreover have "remote_of (sub_remote (new_subscription env ?p)) = created_of ?p" "remote_of (sub_remote (sub_at s i)) = {#}"
      using i(2) by (simp_all add: remote_of_def sub_remote_def new_subscription_def created_of_def)
    ultimately show ?thesis
      using table_remotes_update [OF len subs] table q(2)
      by (simp add: table_inv_def custody_def s' created_of_def [of q] ac_simps)
  qed
  ultimately show ?thesis using inv table by (simp add: session_inv_def table_inv_def s')
qed

lemma subscribe_failed_inv:
  assumes inv: "session_inv s" and k: "k < owner_operations" and slot: "slot_at s k = SlotDispatched" and op: "so_kind (op_at s k) = KindSubscribe"
  shows "session_inv (snd (subscribe_failed k f s)) \<and> slot_at (snd (subscribe_failed k f s)) k = SlotDispatched"
proof -
  note parts = session_inv_parts [OF inv k]
  have "session_inv (set_op k (\<lambda>q. q\<lparr>so_created := 0\<rparr>) (delete_remote (so_created (op_at s k)) s))"
    using parts(2) slot op slot_update_same [OF parts(1) k slot]
    by (intro session_inv_op [OF inv k, where q = "(op_at s k)\<lparr>so_created := 0\<rparr>" and st = SlotDispatched])
      (auto simp: operation_fits_def created_of_def)
  then show ?thesis using slot by (simp add: subscribe_failed_def slot_at_def)
qed

text \<open>An operation goes to its second stage.\<close>

lemma second_stage_inv:
  assumes inv: "session_inv s" and k: "k < owner_operations" and slot: "slot_at s k = SlotDispatched"
    and q: "so_kind q = so_kind (op_at s k)" "so_serial q = so_serial (op_at s k)" "so_created q = so_created (op_at s k)"
      "so_subscription q = so_subscription (op_at s k)" "\<not> so_abandoned q" "so_stage q \<noteq> 0"
  shows "session_inv (set_op k (\<lambda>_. q) s) \<and> slot_at (set_op k (\<lambda>_. q) s) k = SlotDispatched"
proof -
  note parts = session_inv_parts [OF inv k]
  have "session_inv (set_op k (\<lambda>_. q) s)"
    using parts(2) slot q slot_update_same [OF parts(1) k slot]
    by (intro session_inv_op [OF inv k, where q = q and st = SlotDispatched]) (auto simp: operation_fits_def created_of_def)
  then show ?thesis using slot by (simp add: slot_at_def)
qed

lemma set_op_const: "set_op k f s = set_op k (\<lambda>_. f (op_at s k)) s"
  by (simp add: set_op_def)

lemma subscribe_complete_cases:
  assumes c: "subscribe_complete env k s = (c, s')"
  obtains (failed) f where "subscribe_failed k f s = (c, s')"
  | (unsent) f where "subscribe_failed k f (set_op k (send_create_items (ce_sent env) (ce_request env)) s) = (c, s')"
  | (sent) "c = SessionPending" "s' = set_op k (send_create_items (ce_sent env) (ce_request env)) s"
  | (created) i r where "free_index s = Some i" "c = Subscribed r"
      "s' = set_op k (\<lambda>q. q\<lparr>so_created := 0, so_serial := 0\<rparr>) (set_sub i (\<lambda>_. new_subscription env (op_at s k)) s)"
proof (cases "so_stage (op_at s k) = 0")
  case True
  then show ?thesis using c failed unsent sent by (simp add: subscribe_complete_def Let_def split: if_split_asm)
next
  case second: False
  let ?q = "op_at s k"
  let ?bad = "so_remote_error ?q \<or> \<not> so_valid ?q \<or> so_item_status ?q AND 0x80000000 \<noteq> 0 \<or> so_item ?q = 0 \<or> \<not> parameters_ranged (so_revised ?q)"
  show ?thesis
  proof (cases ?bad)
    case True
    then have "\<exists>f. subscribe_complete env k s = subscribe_failed k f s"
      unfolding subscribe_complete_def Let_def using second by (simp only: if_False if_True) blast
    then show ?thesis using c failed by auto
  next
    case False
    show ?thesis
    proof (cases "free_index s")
      case None
      then show ?thesis using c failed False second by (simp add: subscribe_complete_def Let_def)
    next
      case (Some i)
      then show ?thesis using c failed created [OF Some] False second by (auto simp: subscribe_complete_def Let_def split: if_split_asm)
    qed
  qed
qed

lemma subscribe_complete_inv:
  assumes inv: "session_inv s" and k: "k < owner_operations" and slot: "slot_at s k = SlotDispatched"
    and op: "so_kind (op_at s k) = KindSubscribe" "\<not> so_pending (op_at s k)"
    and c: "subscribe_complete env k s = (c, s')"
  shows "if \<exists>r. c = Subscribed r then session_inv (slot_retire k s') else session_inv s' \<and> slot_at s' k = SlotDispatched"
proof -
  note parts = session_inv_parts [OF inv k] and fail = subscribe_failed_inv [OF inv k slot op(1)]
  let ?q = "op_at s k"
  define p where "p = send_create_items (ce_sent env) (ce_request env) ?q"
  have live: "\<not> so_abandoned ?q" using parts(2) slot by (simp add: operation_fits_def)
  have stage: "session_inv (set_op k (\<lambda>_. p) s) \<and> slot_at (set_op k (\<lambda>_. p) s) k = SlotDispatched"
    using live by (intro second_stage_inv [OF inv k slot]) (simp_all add: p_def send_create_items_def)
  have "so_kind (op_at (set_op k (\<lambda>_. p) s) k) = KindSubscribe"
    using op(1) op_at_set_op [OF parts(1) k] by (simp add: p_def send_create_items_def)
  then have fail2: "session_inv (snd (subscribe_failed k f (set_op k (\<lambda>_. p) s))) \<and>
      slot_at (snd (subscribe_failed k f (set_op k (\<lambda>_. p) s))) k = SlotDispatched" for f
    using subscribe_failed_inv [OF _ k] stage by blast
  consider (failed) f where "subscribe_failed k f s = (c, s')"
    | (unsent) f where "subscribe_failed k f (set_op k (\<lambda>_. p) s) = (c, s')"
    | (sent) "c = SessionPending" "s' = set_op k (\<lambda>_. p) s"
    | (created) i r where "free_index s = Some i" "c = Subscribed r"
        "s' = set_op k (\<lambda>q. q\<lparr>so_created := 0, so_serial := 0\<rparr>) (set_sub i (\<lambda>_. new_subscription env ?q) s)"
    using subscribe_complete_cases [OF c] unfolding set_op_const [of k "send_create_items _ _"] p_def by metis
  then show ?thesis
  proof cases
    case (created i r)
    have i: "i < session_subscriptions" "\<not> su_used (sub_at s i)" using created(1) by (auto simp: free_index_def find_Some_iff)
    define q where "q = clear_operation (?q\<lparr>so_abandoned := False, so_created := 0, so_serial := 0\<rparr>)"
    have at: "op_at s' k = ?q\<lparr>so_created := 0, so_serial := 0\<rparr>" and fit: "length (ps_operations s') = owner_operations"
      using parts(1,3) by (simp_all add: created(3) op_at_def slots_fit_def)
    have "slot_retire k s' = mark_slot k SlotFree (set_op k (\<lambda>_. q) (set_sub i (\<lambda>_. new_subscription env ?q) s))"
      using parts(3) op slot unfolding created(3)
      by (cases s) (simp add: slot_retire_def session_retire_def wop_subscription_retire_def delete_remote_def Let_def session_released_def
          set_op_def op_at_def set_sub_def sub_at_def q_def clear_operation_def empty_operation_def)
    moreover have "session_inv (mark_slot k SlotFree (set_op k (\<lambda>_. q) (set_sub i (\<lambda>_. new_subscription env ?q) s)))"
      by (rule create_inv [OF inv k slot op(1) i _ _ _ refl]) (use op(2) in \<open>simp_all add: q_def clear_operation_def empty_operation_def\<close>)
    ultimately show ?thesis using created(2) by simp
  next
    case (failed f)
    then have "c = SessionFailure f" "s' = snd (subscribe_failed k f s)" by (auto simp: subscribe_failed_def)
    then show ?thesis using fail by simp
  next
    case (unsent f)
    then have "c = SessionFailure f" "s' = snd (subscribe_failed k f (set_op k (\<lambda>_. p) s))" by (auto simp: subscribe_failed_def)
    then show ?thesis using fail2 by simp
  next
    case sent
    then show ?thesis using stage by simp
  qed
qed

lemma unsubscribe_complete_inv:
  assumes inv: "session_inv s" and k: "k < owner_operations" and slot: "slot_at s k = SlotDispatched"
    and op: "so_kind (op_at s k) = KindUnsubscribe" and c: "unsubscribe_complete env k s = (c, s')"
  shows "session_inv s' \<and> slot_at s' k = SlotDispatched"
proof -
  note parts = session_inv_parts [OF inv k]
  let ?q = "op_at s k"
  define p where "p = ?q\<lparr>so_stage := 1, so_pending := ce_sent env, so_delivered := False, so_valid := False, so_request_id := ce_request env\<rparr>"
  have live: "\<not> so_abandoned ?q" "so_subscription ?q < session_subscriptions" using parts(2) slot op by (auto simp: operation_fits_def)
  have stage: "session_inv (set_op k (\<lambda>_. p) s) \<and> slot_at (set_op k (\<lambda>_. p) s) k = SlotDispatched"
    using live by (intro second_stage_inv [OF inv k slot]) (simp_all add: p_def)
  note freed = delete_inv [OF inv live(2)]
  show ?thesis
    using c inv slot stage freed unfolding unsubscribe_complete_def Let_def p_def
    by (auto simp: set_op_const [of k "\<lambda>q. q\<lparr>so_stage := _, so_pending := _, so_delivered := _, so_valid := _, so_request_id := _\<rparr>"] slot_at_def
        split: if_splits)
qed

lemma complete_inv:
  assumes inv: "session_inv s" and k: "k < owner_operations" and slot: "slot_at s k = SlotDispatched"
  shows "session_inv (call_complete k env s)"
proof -
  obtain c s' where c: "session_complete env k s = (c, s')" by (cases "session_complete env k s")
  have kind: "so_kind (op_at s k) \<in> {KindSubscribe, KindUnsubscribe}" using session_inv_parts(2) [OF inv k] slot by (auto simp: operation_fits_def)
  have "if \<exists>r. c = Subscribed r then session_inv (slot_retire k s') else session_inv s' \<and> slot_at s' k = SlotDispatched"
    using c inv slot kind slot_retire_inv [of s' k] k subscribe_complete_inv [OF inv k slot, of env c s'] unsubscribe_complete_inv [OF inv k slot, of env c s']
    by (auto simp: session_complete_def Let_def split: if_splits)
  then show ?thesis
    using c slot_retire_inv [OF _ k] by (cases c) (auto simp: call_complete_def)
qed

section \<open>Answers of the SDK\<close>

text \<open>An answer changes flags of its operation only; work that was given up is merely no longer pending.\<close>

lemma accept_response_cases:
  assumes "accept_response request header q = (ok, q')"
  shows "so_kind q' = so_kind q" "so_serial q' = so_serial q" "so_created q' = so_created q"
    "so_subscription q' = so_subscription q" "so_stage q' = so_stage q" "so_abandoned q' = so_abandoned q"
    and "\<not> ok \<and> q' = q \<or> so_pending q \<and> \<not> so_pending q' \<and> (so_abandoned q \<or> so_delivered q') \<and> (ok \<longrightarrow> \<not> so_abandoned q)"
  using assms by (auto simp: accept_response_def Let_def split: if_splits option.splits)

lemma answer_operation_fits:
  assumes ok: "operation_fits st q" and acc: "accept_response request header q = (ok, q')"
  shows "operation_fits st q'"
  using accept_response_cases(7) [OF acc]
proof
  assume "so_pending q \<and> \<not> so_pending q' \<and> (so_abandoned q \<or> so_delivered q') \<and> (ok \<longrightarrow> \<not> so_abandoned q)"
  then show ?thesis using ok accept_response_cases(1-6) [OF acc] by (cases st) (simp_all add: operation_fits_def)
qed (use ok in simp)

lemma operation_fits_serial: "operation_fits st q \<Longrightarrow> so_serial q = 0 \<or> so_kind q = KindSubscribe"
  by (cases st) (auto simp: operation_fits_def)

lemma operation_fits_fields:
  assumes "operation_fits st q" "so_kind p = so_kind q" "so_serial p = so_serial q" "so_created p = so_created q" "so_subscription p = so_subscription q"
    and "so_stage p = so_stage q" "so_pending p = so_pending q" "so_delivered p = so_delivered q" "so_abandoned p = so_abandoned q"
  shows "operation_fits st p"
  using assms by (simp add: operation_fits_def)

lemma operation_answer_inv:
  assumes inv: "session_inv s" and k: "k < owner_operations" and q: "operation_fits (slot_at s k) q" "so_kind q = so_kind (op_at s k)"
      "so_serial q = so_serial (op_at s k)" "so_created q = so_created (op_at s k)" "so_subscription q = so_subscription (op_at s k)"
  shows "session_inv (set_op k (\<lambda>_. q) s)"
proof (rule session_inv_op [OF inv k q(1)])
  note parts = session_inv_parts [OF inv k]
  show "ps_slots (set_op k (\<lambda>_. q) s) = (ps_slots s)[k := slot_at s k]" using slot_update_same [OF parts(1) k refl] by simp
  show "so_serial q = 0 \<or> so_serial q = so_serial (op_at s k) \<and> so_kind (op_at s k) = KindSubscribe"
    using q(3) operation_fits_serial [OF parts(2)] by auto
  show "mset (ps_created (set_op k (\<lambda>_. q) s)) + mset (ps_deleted s) + created_of (op_at s k) =
      mset (ps_created s) + mset (ps_deleted (set_op k (\<lambda>_. q) s)) + created_of q" using q by (simp add: created_of_def)
  show "so_subscription q \<in> queued_deletions s \<or> \<not> su_closing (sub_at s (so_subscription q))"
    if "slot_at s k = SlotQueued" "so_kind q = KindUnsubscribe" using that q k by (auto simp: queued_deletions_def)
qed simp_all

lemma create_answer_inv:
  assumes inv: "session_inv s" and k: "k < owner_operations" and expected: "create_expected (op_at s k)"
  shows "session_inv (receive_create_subscription k request response s)"
proof -
  note parts = session_inv_parts [OF inv k]
  obtain ok q where acc: "accept_response request (map_option cr_result response) (op_at s k) = (ok, q)"
    by (cases "accept_response request (map_option cr_result response) (op_at s k)")
  note q = accept_response_cases [OF acc] and okq = answer_operation_fits [OF parts(2) acc]
  have plain: "session_inv (set_op k (\<lambda>_. q) s)" by (rule operation_answer_inv [OF inv k okq]) (fact q(1-4))+
  show ?thesis
  proof (cases "ok \<and> response \<noteq> None")
    case False
    then show ?thesis using plain acc by (auto simp: receive_create_subscription_def Let_def split: option.splits)
  next
    case True
    then obtain r where r: "response = Some r" by auto
    have live: "so_pending (op_at s k)" "\<not> so_abandoned (op_at s k)" and pend: "\<not> so_pending q" using True q(7) by auto
    then have slot: "slot_at s k = SlotDispatched" using parts(2) by (cases "slot_at s k") (auto simp: operation_fits_def)
    have stage: "so_kind (op_at s k) = KindSubscribe" "so_stage (op_at s k) = 0" using expected live by (auto simp: create_expected_def)
    then have none: "so_created (op_at s k) = 0" using parts(2) slot live by (auto simp: operation_fits_def)
    define p where "p = q\<lparr>so_created := cr_subscription r, so_revised := (so_revised q)\<lparr>sp_publishing := cr_publishing r,
      sp_lifetime := cr_lifetime r, sp_keepalive := cr_keepalive r\<rparr>, so_valid := (cr_subscription r \<noteq> 0)\<rparr>"
    have state: "receive_create_subscription k request response s = (set_op k (\<lambda>_. p) s)
        \<lparr>ps_created := (if cr_subscription r = 0 then ps_created s else ps_created s @ [cr_subscription r])\<rparr>"
      using True r acc parts(3) by (simp add: receive_create_subscription_def Let_def p_def set_op_def op_at_def)
    show ?thesis
      unfolding state
    proof (rule session_inv_op [OF inv k, where q = p and st = SlotDispatched])
      show "operation_fits SlotDispatched p" using okq pend stage(1) q(1) unfolding slot by (simp add: operation_fits_def p_def)
    qed (use stage none q(2) slot_update_same [OF parts(1) k slot] in \<open>simp_all add: p_def created_of_def\<close>)
  qed
qed

lemma items_answer_inv:
  assumes inv: "session_inv s" and k: "k < owner_operations"
  shows "session_inv (receive_create_items k request response s)"
proof -
  note parts = session_inv_parts [OF inv k]
  obtain ok q where acc: "accept_response request (map_option is_result response) (op_at s k) = (ok, q)"
    by (cases "accept_response request (map_option is_result response) (op_at s k)")
  note q = accept_response_cases [OF acc] and okq = answer_operation_fits [OF parts(2) acc]
  have plain: "session_inv (set_op k (\<lambda>_. q) s)" by (rule operation_answer_inv [OF inv k okq]) (fact q(1-4))+
  have read: "session_inv (set_op k (\<lambda>_. q\<lparr>so_item_status := a, so_item := b, so_revised := c, so_valid := True\<rparr>) s)" for a b c
    by (rule operation_answer_inv [OF inv k operation_fits_fields [OF okq]]) (simp_all add: q)
  show ?thesis
    unfolding receive_create_items_def acc using plain read by (auto split: option.splits list.splits)
qed

lemma delete_answer_inv:
  assumes inv: "session_inv s" and k: "k < owner_operations"
  shows "session_inv (receive_delete k request response s)"
proof -
  note parts = session_inv_parts [OF inv k]
  obtain ok q where acc: "accept_response request (map_option dr_result response) (op_at s k) = (ok, q)"
    by (cases "accept_response request (map_option dr_result response) (op_at s k)")
  note q = accept_response_cases [OF acc] and okq = answer_operation_fits [OF parts(2) acc]
  have plain: "session_inv (set_op k (\<lambda>_. q) s)" by (rule operation_answer_inv [OF inv k okq]) (fact q(1-4))+
  have read: "session_inv (set_op k (\<lambda>_. q\<lparr>so_valid := v\<rparr>) s)" for v
    by (rule operation_answer_inv [OF inv k operation_fits_fields [OF okq]]) (simp_all add: q)
  show ?thesis unfolding receive_delete_def acc using plain read by (simp split: option.splits)
qed

lemma publish_answer_inv:
  assumes inv: "session_inv s"
  shows "session_inv (receive_publish response copied s)"
  by (rule session_inv_same [OF inv])
    (use inv in \<open>auto simp: receive_publish_def session_inv_def Let_def session_publish_def split: option.splits\<close>)

lemma frame_inv:
  assumes inv: "session_inv s" and "session_frame s s'" "publish_inv (queued_deletions s) s'"
  shows "session_inv s'"
  using assms session_frame_table [OF assms(2)] by (simp add: session_inv_def session_frame_def)

lemma republish_answer_inv:
  assumes inv: "session_inv s" and i: "i < session_subscriptions"
  shows "session_inv (receive_republish i request response s)"
proof (cases "\<not> su_used (sub_at s i) \<or> \<not> su_republish_pending (sub_at s i) \<or> request \<noteq> su_republish_request (sub_at s i)")
  case True
  then show ?thesis using inv by (auto simp: receive_republish_def)
next
  case False
  define f where "f = (\<lambda>u :: wop_subscription. let u1 = u\<lparr>su_republish_pending := False, su_republish_delivered := True\<rparr> in
        case response of None \<Rightarrow> u1\<lparr>su_republish_status := status_unexpected\<rparr>
        | Some (status, m, copied) \<Rightarrow>
            if status \<noteq> 0 then u1\<lparr>su_republish_status := status\<rparr>
            else if copied then u1\<lparr>su_republish_status := 0, su_republished := m\<rparr>
            else u1\<lparr>su_republish_status := status_memory\<rparr>)"
  have f: "sub_key (f u) = sub_key u" "su_failed (f u) = su_failed u" "su_sequence (f u) = su_sequence u" "su_held (f u) = su_held u"
    "su_acks (f u) = su_acks u" for u
    by (auto simp: f_def Let_def split: option.splits)
  have "session_inv (set_sub i f s)"
  proof (rule frame_inv [OF inv])
    show "session_frame s (set_sub i f s)" by (rule set_sub_frame) (rule f)
    show "publish_inv (queued_deletions s) (set_sub i f s)"
      using inv by (intro publish_inv_irrelevant) (simp_all add: session_inv_def i f)
  qed
  then show ?thesis using False by (auto simp: receive_republish_def f_def)
qed

section \<open>All runs\<close>

lemma queued_deletions_none: "SlotQueued \<notin> set (ps_slots s) \<Longrightarrow> slots_fit s \<Longrightarrow> queued_deletions s = {}"
  by (auto simp: queued_deletions_def slots_fit_def slot_at_def) (metis nth_mem)

lemma step_call_inv:
  assumes inv: "session_inv s"
  shows "session_inv (snd (wop_subscription_step env s))"
proof -
  obtain f s' where step: "wop_subscription_step env s = (f, s')" by (cases "wop_subscription_step env s")
  have pub: "publish_inv (queued_deletions s) s" "ps_outstanding s \<le> session_publish" using inv by (simp_all add: session_inv_def)
  note after = subscription_step_inv [OF pub step]
  define t where "t = s'\<lparr>ps_outstanding := ps_outstanding s, ps_inbox := ps_inbox s\<rparr>"
  have "session_inv t"
    using frame_inv [OF inv, of t] after publish_inv_ghost [of t s'] by (simp add: t_def)
  then have "session_inv s'"
    by (rule session_inv_same) (use after inv in \<open>simp_all add: t_def session_inv_def\<close>)
  then show ?thesis using step by simp
qed

lemma report_call_inv:
  assumes inv: "session_inv s" and idle: "SlotQueued \<notin> set (ps_slots s)"
  shows "session_inv (snd (snd (wop_subscription_report env s)))"
proof -
  obtain ok rep s' where call: "wop_subscription_report env s = (ok, rep, s')" by (cases "wop_subscription_report env s")
  have none: "queued_deletions s = {}" using idle inv by (intro queued_deletions_none) (simp_all add: session_inv_def table_inv_def)
  then have pub: "publish_inv {} s" using inv by (simp add: session_inv_def)
  note after = subscription_report_inv [OF pub call]
  from after consider "session_frame s s'" "publish_inv {} s'"
    | t i where "session_frame s t" "publish_inv {} t" "i < session_subscriptions" "su_used (sub_at t i)"
        "s' = free_subscription i (delete_remote (su_remote (sub_at t i)) t)" by blast
  then have "session_inv s'"
  proof cases
    case 1
    then show ?thesis using frame_inv [OF inv] none by simp
  next
    case (2 t i)
    have "session_inv t" using frame_inv [OF inv 2(1)] 2(2) none by simp
    then show ?thesis using delete_inv [of t i] 2(3-5) by simp
  qed
  then show ?thesis using call by simp
qed

lemma session_do_inv: "session_inv s \<Longrightarrow> session_inv (session_do c s)"
proof (cases c)
  case (PressureCall n)
  assume inv: "session_inv s"
  have "session_inv (s\<lparr>ps_queued_frames := n\<rparr>)" by (rule session_inv_same [OF inv]) (use inv in \<open>simp_all add: session_inv_def\<close>)
  then show ?thesis using PressureCall by simp
qed (simp_all add: admit_inv dispatch_inv slot_retire_inv complete_inv release_inv create_answer_inv items_answer_inv delete_answer_inv
      publish_answer_inv republish_answer_inv step_call_inv report_call_inv)

lemma session_init_inv: "session_inv session_init"
proof -
  have op: "op_at session_init k = empty_operation" "slot_at session_init k = SlotFree" if "k < owner_operations" for k
    using that by (simp_all add: session_init_def op_at_def slot_at_def)
  have sub: "sub_at session_init i = unused_subscription" if "i < session_subscriptions" for i
    using that by (simp add: session_init_def sub_at_def)
  have empty: "ps_reports session_init = []" "ps_accepted session_init = []" "ps_emitted session_init = []" "ps_created session_init = []"
    "ps_deleted session_init = []" "ps_serial session_init = 0" "ps_inbox session_init = []" "ps_outstanding session_init = 0"
    "length (ps_subscriptions session_init) = session_subscriptions" "length (ps_operations session_init) = owner_operations"
    "length (ps_slots session_init) = owner_operations" by (simp_all add: session_init_def)
  have "publish_inv Q session_init" for Q
    using sub by (simp add: publish_inv_def publish_base_def sub_inv_def sub_bounded_def serials_apart_def serials_known_def report_complete_def
        accepted_numbers_def accepted_reports_def numbers_from_one_def empty)
  moreover have "slots_fit session_init" using op by (simp add: slots_fit_def empty operation_fits_def empty_operation_def)
  moreover have "serials_waiting session_init" using op by (simp add: serials_waiting_def empty empty_operation_def)
  moreover have "custody session_init" "subscriptions_reserved session_init = 0"
    by (simp_all add: custody_def table_remotes_def operation_remotes_def reserved_tally session_init_def tally_replicate
        remote_of_def sub_remote_def created_of_def empty_operation_def)
  ultimately show ?thesis by (simp add: session_inv_def table_inv_def empty)
qed

interpretation opcua_session: action_machine session_do session_inv "\<lambda>_. True"
  by unfold_locales (rule session_do_inv)

lemma session_run_inv: "session_inv (run_actions session_do cs session_init)"
  using opcua_session.run_inv [OF session_init_inv, of cs] by (simp add: list_all_iff)

text \<open>
  C3: For every order in which the owner and the SDK make their calls, and for all of their answers: the messages
  accepted for a subscription have the numbers 1, 2, 3 and so on through the ring, without a gap or a repetition; each
  accepted report carries the serial of its subscription and the number of its message; the emitted reports
  are accepted ones, in the order of their acceptance and none twice; the report queue, the inbox, the outstanding requests, and for each
  subscription the acknowledgements and held messages, stay within their arrays.
\<close>

theorem session_reports_in_order:
  "let s = run_actions session_do cs session_init in
     numbers_from_one (accepted_numbers n s) \<and>
     list_all (\<lambda>(m, q, rs). list_all (\<lambda>r. rp_serial r = m \<and> rp_sequence r = q) rs) (ps_accepted s) \<and>
     subseq (ps_emitted s) (accepted_reports s) \<and>
     length (ps_reports s) \<le> 256 \<and> length (ps_inbox s) \<le> 4 \<and> ps_outstanding s \<le> 4 \<and>
     list_all (\<lambda>u. length (su_acks u) \<le> 64 \<and> length (su_held u) \<le> 4) (ps_subscriptions s)"
proof -
  define s where "s = run_actions session_do cs session_init"
  have inv: "session_inv s" unfolding s_def by (rule session_run_inv)
  then have base: "publish_base (queued_deletions s) s" by (simp add: session_inv_def publish_inv_def)
  have "subseq (ps_emitted s) (accepted_reports s)"
    using base subseq_order.trans [OF subseq_rev_drop_many [OF subseq_order.refl]] by (auto simp: publish_base_def)
  moreover have "list_all (\<lambda>u. length (su_acks u) \<le> 64 \<and> length (su_held u) \<le> 4) (ps_subscriptions s)"
    using inv by (auto simp: session_inv_def publish_inv_def publish_base_def sub_inv_def sub_bounded_def sub_at_def
        list_all_length session_acks_def session_held_def)
  ultimately show ?thesis
    using inv base unfolding s_def [symmetric] Let_def
    by (auto simp: session_inv_def publish_base_def list_all_iff session_ready_def session_publish_def)
qed

text \<open>
  C5: For every such run, a subscription in use that has not failed and is not being deleted has lost nothing: the
  reports emitted for it and those queued are exactly those of its accepted messages (a report counts as emitted when it
  is taken for emission; the session ends where its document cannot be built).  While it recovers a gap, the first message it
  holds is the one after the gap, so that the recovery never reads a message it does not have.
\<close>

theorem session_reports_complete:
  "let s = run_actions session_do cs session_init in
     list_all (\<lambda>u. if su_used u \<and> \<not> su_failed u \<and> \<not> su_closing u
       then of_serial (su_serial u) (ps_emitted s @ ps_reports s) = of_serial (su_serial u) (accepted_reports s) else True) (ps_subscriptions s) \<and>
     list_all (\<lambda>u. if su_used u \<and> \<not> su_failed u \<and> sq_recovering (su_sequence u)
       then su_held u \<noteq> [] \<and> um_sequence (hd (su_held u)) = sq_target (su_sequence u) else True) (ps_subscriptions s)"
proof -
  define s where "s = run_actions session_do cs session_init"
  have inv: "publish_inv (queued_deletions s) s" using session_run_inv [of cs] by (simp add: s_def session_inv_def)
  then have "report_complete (queued_deletions s) s i" "sub_inv s i" if "i < length (ps_subscriptions s)" for i
    using that by (auto simp: publish_inv_def publish_base_def)
  then show ?thesis
    unfolding s_def [symmetric] Let_def list_all_length by (auto simp: report_complete_def sub_inv_def sequence_current_def sub_at_def)
qed


end
