(* ===== verification/Coap_Credit.thy ===== *)
theory Coap_Credit
  imports Wotex_Channel
begin

text \<open>
  The OSCORE worker's report credit (\<open>credit.h\<close>, \<open>credit.c\<close>) and its admission of observations
  (\<open>observation.h\<close>, \<open>observation.c\<close>).  The pointers the callers pass are never null.
\<close>

section \<open>Report credit\<close>

definition report_window :: nat where "report_window = 8"

record wco_credit =
  wc_generation :: u64
  wc_assigned :: u64
  wc_written :: u64
  wc_acknowledged :: u64
  wc_started :: bool
  wc_failed :: bool

datatype wco_credit_status = CreditOk | CreditWait | CreditInvalid | CreditExhausted

definition wco_credit_init :: "u64 \<Rightarrow> wco_credit" where
  "wco_credit_init generation = \<lparr>wc_generation = generation, wc_assigned = 0, wc_written = 0, wc_acknowledged = 0,
     wc_started = False, wc_failed = (generation = 0)\<rparr>"

definition credit_reject :: "wco_credit_status \<Rightarrow> wco_credit \<Rightarrow> wco_credit_status \<times> wco_credit" where
  "credit_reject status c = (status, c\<lparr>wc_failed := True\<rparr>)"

text \<open>The difference is narrowed to 32 bits and subtracted from the window in 32 bits.\<close>

definition wco_credit_available :: "wco_credit \<Rightarrow> nat" where
  "wco_credit_available c =
     (if wc_failed c \<or> \<not> wc_started c then 0
      else (report_window + 2 ^ 32 - sub64 (wc_assigned c) (wc_acknowledged c) mod 2 ^ 32) mod 2 ^ 32)"

definition wco_credit_ack :: "u64 \<Rightarrow> u64 \<Rightarrow> wco_credit \<Rightarrow> wco_credit_status \<times> wco_credit" where
  "wco_credit_ack generation sequence c =
     (if wc_failed c \<or> generation \<noteq> wc_generation c then credit_reject CreditInvalid c
      else if \<not> wc_started c then
        (if sequence \<noteq> 0 then credit_reject CreditInvalid c else (CreditOk, c\<lparr>wc_started := True\<rparr>))
      else if sequence > wc_written c then credit_reject CreditInvalid c
      else (CreditOk, if sequence > wc_acknowledged c then c\<lparr>wc_acknowledged := sequence\<rparr> else c))"

definition wco_credit_assign :: "wco_credit \<Rightarrow> wco_credit_status \<times> u64 \<times> wco_credit" where
  "wco_credit_assign c =
     (if wc_failed c then (case credit_reject CreditInvalid c of (r, c') \<Rightarrow> (r, 0, c'))
      else if wc_assigned c = u64_max then (case credit_reject CreditExhausted c of (r, c') \<Rightarrow> (r, 0, c'))
      else if wco_credit_available c = 0 then (CreditWait, 0, c)
      else let n = add64 (wc_assigned c) 1 in (CreditOk, n, c\<lparr>wc_assigned := n\<rparr>))"

definition wco_credit_written :: "u64 \<Rightarrow> wco_credit \<Rightarrow> wco_credit_status \<times> wco_credit" where
  "wco_credit_written sequence c =
     (if wc_failed c \<or> wc_written c = u64_max \<or> sequence \<noteq> add64 (wc_written c) 1 \<or> sequence > wc_assigned c
      then credit_reject CreditInvalid c
      else (CreditOk, c\<lparr>wc_written := sequence\<rparr>))"

section \<open>Observations\<close>

record wco_observation_freshness =
  of_received_at :: int
  of_observe :: nat
  of_content_format :: nat
  of_content_format_present :: bool
  of_set :: bool

datatype wco_observation_admission = ObservationChanged | ObservationInvalid | ObservationStale | ObservationFresh

text \<open>The difference of two observe numbers of 32 bits, masked to 24.\<close>

definition wco_observation_admit ::
  "nat \<Rightarrow> int \<Rightarrow> bool \<Rightarrow> nat \<Rightarrow> bool \<Rightarrow> wco_observation_freshness \<Rightarrow> wco_observation_admission \<times> wco_observation_freshness" where
  "wco_observation_admit observe received_at present format renewal f =
     (if observe > 0xffffff \<or> received_at < 0 then (ObservationInvalid, f)
      else if \<not> of_set f then
        (ObservationFresh, \<lparr>of_received_at = received_at, of_observe = observe, of_content_format = format,
           of_content_format_present = present, of_set = True\<rparr>)
      else
        let elapsed = (if received_at \<ge> of_received_at f then received_at - of_received_at f else 0);
          difference = (observe + 2 ^ 32 - of_observe f) mod 2 ^ 32 mod 2 ^ 24
        in if \<not> renewal \<and> elapsed \<le> 128000 \<and> (observe = of_observe f \<or> difference \<ge> 0x800000) then (ObservationStale, f)
           else if present \<noteq> of_content_format_present f \<or> present \<and> format \<noteq> of_content_format f
           then (ObservationChanged, f)
           else (ObservationFresh, f\<lparr>of_observe := observe, of_received_at := received_at\<rparr>))"

text \<open>
  The order of RFC 7641, section 3.4: the number is ahead of the last by less than half of the 24-bit circle, or
  more than 128 seconds have passed.
\<close>

definition observation_newer :: "nat \<Rightarrow> nat \<Rightarrow> bool" where
  "observation_newer v1 v2 \<longleftrightarrow> v1 < v2 \<and> v2 - v1 < 2 ^ 23 \<or> v1 > v2 \<and> v1 - v2 > 2 ^ 23"

lemma observation_difference:
  assumes "o1 < 2 ^ 24" "o2 < (2 ^ 24 :: nat)"
  shows "(o2 + 2 ^ 32 - o1) mod 2 ^ 32 mod 2 ^ 24 = (if o1 \<le> o2 then o2 - o1 else o2 + 2 ^ 24 - o1)"
proof (cases "o1 \<le> o2")
  case True
  then have "(o2 + 2 ^ 32 - o1) mod 2 ^ 32 = (o2 - o1 + 2 ^ 32) mod 2 ^ 32" by simp
  also have "\<dots> = o2 - o1" using assms(2) by (simp only: mod_add_self2) simp
  finally show ?thesis using True assms(2) by simp
next
  case False
  then have lt: "o2 + 2 ^ 32 - o1 < 2 ^ 32" by simp
  have "o2 + 2 ^ 32 - o1 = (o2 + 2 ^ 24 - o1) + 255 * 2 ^ 24" using False assms by simp
  also have "\<dots> mod 2 ^ 24 = (o2 + 2 ^ 24 - o1) mod 2 ^ 24" by (rule mod_mult_self1)
  also have "\<dots> = o2 + 2 ^ 24 - o1" using False by simp
  finally show ?thesis using False lt by simp
qed

text \<open>
  A notification that is not a renewal is refused as stale exactly when it is not newer in that order.  Half the circle
  exactly is stale, as is a repeated number.
\<close>

lemma observation_admit_order:
  assumes "of_set f" "of_observe f < 2 ^ 24" "observe < 2 ^ 24" "0 \<le> of_received_at f" "of_received_at f \<le> received_at"
  shows "fst (wco_observation_admit observe received_at present format False f) = ObservationStale \<longleftrightarrow>
    \<not> observation_newer (of_observe f) observe \<and> received_at \<le> of_received_at f + 128000"
  using assms observation_difference [OF assms(2,3)]
  by (auto simp: wco_observation_admit_def observation_newer_def Let_def)

section \<open>The window\<close>

datatype wco_credit_call = AckCall u64 u64 | AssignCall | WrittenCall u64

text \<open>A call with the numbers assigned so far.\<close>

fun wco_credit_do :: "wco_credit_call \<Rightarrow> wco_credit \<times> u64 list \<Rightarrow> wco_credit \<times> u64 list" where
  "wco_credit_do (AckCall g s) (c, given) = (snd (wco_credit_ack g s c), given)"
| "wco_credit_do AssignCall (c, given) =
     (case wco_credit_assign c of (r, n, c') \<Rightarrow> (c', if r = CreditOk then given @ [n] else given))"
| "wco_credit_do (WrittenCall s) (c, given) = (snd (wco_credit_written s c), given)"

definition wco_credit_inv :: "wco_credit \<times> u64 list \<Rightarrow> bool" where
  "wco_credit_inv s \<longleftrightarrow> (case s of (c, given) \<Rightarrow>
     wc_acknowledged c \<le> wc_written c \<and> wc_written c \<le> wc_assigned c \<and> wc_assigned c \<le> u64_max \<and>
     wc_assigned c \<le> wc_acknowledged c + report_window \<and> (wc_started c \<or> wc_assigned c = 0) \<and>
     given = [1..<wc_assigned c + 1])"

lemma available_exact:
  assumes "wco_credit_inv (c, given)" "\<not> wc_failed c" "wc_started c"
  shows "wco_credit_available c = report_window - (wc_assigned c - wc_acknowledged c)"
proof -
  have sub: "sub64 (wc_assigned c) (wc_acknowledged c) = wc_assigned c - wc_acknowledged c"
    using assms(1) by (intro sub64_exact) (auto simp: wco_credit_inv_def)
  have le: "wc_assigned c - wc_acknowledged c \<le> 8" using assms(1) by (auto simp: wco_credit_inv_def report_window_def)
  then have "(8 + 2 ^ 32 - (wc_assigned c - wc_acknowledged c)) mod 2 ^ 32 = (8 - (wc_assigned c - wc_acknowledged c) + 2 ^ 32) mod 2 ^ 32"
    by simp
  also have "\<dots> = 8 - (wc_assigned c - wc_acknowledged c)" using le by (simp only: mod_add_self2) simp
  finally show ?thesis using assms(2,3) le by (simp add: wco_credit_available_def report_window_def sub)
qed

lemma wco_credit_do_inv:
  assumes inv: "wco_credit_inv s"
  shows "wco_credit_inv (wco_credit_do call s)"
proof -
  obtain c given where s: "s = (c, given)" by (cases s)
  show ?thesis
  proof (cases call)
    case (AckCall g n)
    then show ?thesis using inv by (auto simp: s wco_credit_inv_def wco_credit_ack_def credit_reject_def)
  next
    case AssignCall
    show ?thesis
    proof (cases "wc_failed c \<or> wc_assigned c = u64_max \<or> wco_credit_available c = 0")
      case True
      then show ?thesis using inv AssignCall by (auto simp: s wco_credit_inv_def wco_credit_assign_def credit_reject_def)
    next
      case False
      then have st: "wc_started c" by (auto simp: wco_credit_available_def split: if_splits)
      have "wc_assigned c < u64_max" using False inv by (auto simp: s wco_credit_inv_def)
      then have add: "add64 (wc_assigned c) 1 = wc_assigned c + 1" by (simp add: add64_exact)
      have "0 < report_window - (wc_assigned c - wc_acknowledged c)"
        using False available_exact [of c given] inv st s by simp
      then show ?thesis
        using inv AssignCall False add st by (auto simp: s wco_credit_inv_def wco_credit_assign_def Let_def)
    qed
  next
    case (WrittenCall n)
    show ?thesis
    proof (cases "wc_written c = u64_max")
      case False
      then have "add64 (wc_written c) 1 = wc_written c + 1"
        using inv by (intro add64_exact) (auto simp: s wco_credit_inv_def)
      then show ?thesis using inv WrittenCall by (auto simp: s wco_credit_inv_def wco_credit_written_def credit_reject_def)
    qed (use inv WrittenCall in \<open>auto simp: s wco_credit_inv_def wco_credit_written_def credit_reject_def\<close>)
  qed
qed

interpretation coap_credit: action_machine wco_credit_do wco_credit_inv "\<lambda>_. True"
  by unfold_locales (rule wco_credit_do_inv)

text \<open>
  C32: After any calls on the report credit of a generation, the numbers assigned are 1, 2, 3 and so on, each once;
  at most eight of them are not acknowledged, and the available credit is exactly what is left of that window.  Numbers are
  written in order and only after they are assigned, no acknowledgment beyond the written ones counts, and
  a further assignment succeeds exactly when the generation has started and not failed, credit is left and the
  numbers are not exhausted.
\<close>

theorem coap_credit_window:
  "case run_actions wco_credit_do calls (wco_credit_init generation, []) of (c, given) \<Rightarrow>
     given = [1..<wc_assigned c + 1] \<and> wc_acknowledged c \<le> wc_written c \<and> wc_written c \<le> wc_assigned c \<and>
     wc_assigned c - wc_acknowledged c \<le> 8 \<and>
     wco_credit_available c = (if wc_started c \<and> \<not> wc_failed c then 8 - (wc_assigned c - wc_acknowledged c) else 0) \<and>
     (fst (wco_credit_assign c) = CreditOk \<longleftrightarrow>
       wc_started c \<and> \<not> wc_failed c \<and> wc_assigned c < u64_max \<and> wc_assigned c < wc_acknowledged c + 8) \<and>
     (fst (wco_credit_written n c) = CreditOk \<longleftrightarrow> \<not> wc_failed c \<and> n = wc_written c + 1 \<and> n \<le> wc_assigned c)"
proof -
  obtain c given where run: "run_actions wco_credit_do calls (wco_credit_init generation, []) = (c, given)"
    by (cases "run_actions wco_credit_do calls (wco_credit_init generation, [])")
  have "wco_credit_inv (wco_credit_init generation, [])" by (simp add: wco_credit_inv_def wco_credit_init_def)
  from coap_credit.run_inv [OF this, of calls] have inv: "wco_credit_inv (c, given)" by (simp add: run list_all_iff)
  have av: "wco_credit_available c = (if wc_started c \<and> \<not> wc_failed c then 8 - (wc_assigned c - wc_acknowledged c) else 0)"
    using available_exact [OF inv] by (auto simp: report_window_def wco_credit_available_def)
  have le: "wc_assigned c \<le> u64_max" "wc_acknowledged c \<le> wc_assigned c" using inv by (auto simp: wco_credit_inv_def)
  have "fst (wco_credit_assign c) = CreditOk \<longleftrightarrow> \<not> wc_failed c \<and> wc_assigned c \<noteq> u64_max \<and> wco_credit_available c \<noteq> 0"
    by (auto simp: wco_credit_assign_def credit_reject_def Let_def)
  then have assign: "fst (wco_credit_assign c) = CreditOk \<longleftrightarrow>
      wc_started c \<and> \<not> wc_failed c \<and> wc_assigned c < u64_max \<and> wc_assigned c < wc_acknowledged c + 8"
    using av le by auto
  have "wc_written c \<noteq> u64_max \<Longrightarrow> add64 (wc_written c) 1 = wc_written c + 1"
    using le(1) inv by (intro add64_exact) (auto simp: wco_credit_inv_def)
  then have written: "fst (wco_credit_written n c) = CreditOk \<longleftrightarrow> \<not> wc_failed c \<and> n = wc_written c + 1 \<and> n \<le> wc_assigned c"
    using le(1) by (auto simp: wco_credit_written_def credit_reject_def)
  show ?thesis using run inv av assign written by (auto simp: wco_credit_inv_def report_window_def)
qed

end
