(* ===== verification/Coap_Json.thy ===== *)
theory Coap_Json
  imports Opcua_Ipc
begin

text \<open>
  The input of the OSCORE worker: lines (\<open>frame.h\<close>, \<open>frame.c\<close>) and the bounds and readers of parsed documents (\<open>json.h\<close>,
  \<open>json.c\<close>).  The yyjson parser and the conversion of a raw number by \<open>strtod_l\<close> are parameters; the pool and
  the erasure of memory are not modelled.
\<close>

section \<open>Documents\<close>

datatype wco_json_status = WcoJsonOk | WcoJsonFrame | WcoJsonSyntax | WcoJsonLimit | WcoJsonDuplicate

text \<open>\<open>memcmp\<close> on the common prefix, then the lengths.\<close>

fun memcmp_order :: "string \<Rightarrow> string \<Rightarrow> int" where
  "memcmp_order (a # as) (b # bs) = (if a < b then - 1 else if b < a then 1 else memcmp_order as bs)"
| "memcmp_order _ _ = 0"

definition compare_keys :: "string \<Rightarrow> string \<Rightarrow> int" where
  "compare_keys a b =
     (let n = min (length a) (length b); ord = memcmp_order (take n a) (take n b) in
      if ord \<noteq> 0 then ord
      else if length a < length b then - 1 else if length a > length b then 1 else 0)"

text \<open>\<open>qsort\<close> gives the keys in ascending order of the comparison, which is the order of strings.\<close>

fun adjacent_equal :: "string list \<Rightarrow> bool" where
  "adjacent_equal (a # b # ks) = (compare_keys a b = 0 \<or> adjacent_equal (b # ks))"
| "adjacent_equal _ = False"

definition finite_number :: "(string \<Rightarrow> bool) \<Rightarrow> string \<Rightarrow> bool" where
  "finite_number double t \<longleftrightarrow> \<not> (length t = 0 \<or> length t > 128) \<and> double t"

text \<open>The recursion of \<open>validate\<close>, with the number of values so far.\<close>

fun coap_validate :: "(string \<Rightarrow> bool) \<Rightarrow> yyval \<Rightarrow> nat \<Rightarrow> nat \<Rightarrow> wco_json_status \<times> nat"
  and coap_validate_list :: "(string \<Rightarrow> bool) \<Rightarrow> yyval list \<Rightarrow> nat \<Rightarrow> nat \<Rightarrow> wco_json_status \<times> nat"
  and coap_validate_members :: "(string \<Rightarrow> bool) \<Rightarrow> (string \<times> yyval) list \<Rightarrow> nat \<Rightarrow> nat \<Rightarrow> wco_json_status \<times> nat" where
  "coap_validate double v depth nodes =
     (if nodes + 1 > 4096 then (WcoJsonLimit, nodes + 1)
      else case v of
          YRaw t \<Rightarrow> (if finite_number double t then WcoJsonOk else WcoJsonLimit, nodes + 1)
        | YArr xs \<Rightarrow>
            if depth + 1 > 8 \<or> length xs > 1024 then (WcoJsonLimit, nodes + 1)
            else coap_validate_list double xs (depth + 1) (nodes + 1)
        | YObj m \<Rightarrow>
            if depth + 1 > 8 \<or> length m > 1024 then (WcoJsonLimit, nodes + 1)
            else if adjacent_equal (sort (map fst m)) then (WcoJsonDuplicate, nodes + 1)
            else coap_validate_members double m (depth + 1) (nodes + 1)
        | _ \<Rightarrow> (WcoJsonOk, nodes + 1))"
| "coap_validate_list double [] depth nodes = (WcoJsonOk, nodes)"
| "coap_validate_list double (x # xs) depth nodes =
     (case coap_validate double x depth nodes of
        (WcoJsonOk, n) \<Rightarrow> coap_validate_list double xs depth n
      | r \<Rightarrow> r)"
| "coap_validate_members double [] depth nodes = (WcoJsonOk, nodes)"
| "coap_validate_members double ((k, x) # m) depth nodes =
     (case coap_validate double x depth nodes of
        (WcoJsonOk, n) \<Rightarrow> coap_validate_members double m depth n
      | r \<Rightarrow> r)"

definition json_frame_max :: nat where "json_frame_max = 131072"

definition wco_json_parse :: "(string \<Rightarrow> yyread) \<Rightarrow> (string \<Rightarrow> bool) \<Rightarrow> string \<Rightarrow> wco_json_status \<times> yyval option" where
  "wco_json_parse parse double line =
     (if length line < 2 \<or> length line > json_frame_max \<or> last line \<noteq> CHR 0x0A \<or> CHR 0x0A \<in> set (butlast line) \<or>
         CHR 0x00 \<in> set line
      then (WcoJsonFrame, None)
      else case parse (butlast line) of
          ReadMemory \<Rightarrow> (WcoJsonLimit, None)
        | ReadSyntax \<Rightarrow> (WcoJsonSyntax, None)
        | ReadDocument v \<Rightarrow>
            if \<not> yy_is_obj v then (WcoJsonSyntax, None)
            else (case fst (coap_validate double v 0 0) of WcoJsonOk \<Rightarrow> (WcoJsonOk, Some v) | r \<Rightarrow> (r, None)))"

section \<open>Readers\<close>

fun wco_uint_loop :: "u64 \<Rightarrow> u64 \<Rightarrow> string \<Rightarrow> u64 option" where
  "wco_uint_loop maximum result [] = Some result"
| "wco_uint_loop maximum result (c # cs) =
     (if \<not> is_digit c \<or> result > maximum div 10 \<or> result = maximum div 10 \<and> digit_value c > maximum mod 10 then None
      else wco_uint_loop maximum (result * 10 + digit_value c) cs)"

definition wco_json_uint :: "yyval option \<Rightarrow> u64 \<Rightarrow> u64 option" where
  "wco_json_uint v maximum =
     (case v of
        Some (YRaw t) \<Rightarrow>
          if length t = 0 \<or> length t > 128 then None
          else let negative = t ! 0 = CHR ''-''; digits = drop (if negative then 1 else 0) t in
            if digits = [] then None
            else (case wco_uint_loop maximum 0 digits of None \<Rightarrow> None
              | Some n \<Rightarrow> if negative \<and> n \<noteq> 0 then None else Some n)
      | _ \<Rightarrow> None)"

definition wco_json_string :: "yyval option \<Rightarrow> string \<Rightarrow> bool" where
  "wco_json_string v expected \<longleftrightarrow> v = Some (YStr expected)"

definition wco_json_keys :: "yyval option \<Rightarrow> string list \<Rightarrow> bool" where
  "wco_json_keys v allowed =
     (case v of Some (YObj m) \<Rightarrow> list_all (\<lambda>e. fst e \<in> set allowed) m | _ \<Rightarrow> False)"

section \<open>Lines\<close>

record wco_frame =
  fr_bytes :: string
  fr_peak :: nat
  fr_failed :: bool

definition wco_frame_init :: wco_frame where
  "wco_frame_init = \<lparr>fr_bytes = [], fr_peak = 0, fr_failed = False\<rparr>"

definition frame_fail :: "wco_frame \<Rightarrow> wco_frame" where
  "frame_fail f = f\<lparr>fr_bytes := [], fr_failed := True\<rparr>"

text \<open>
  One feed: the lines delivered to the callback, which may refuse one, and whether the input was accepted.
\<close>

function frame_loop :: "(string \<Rightarrow> bool) \<Rightarrow> string \<Rightarrow> wco_frame \<Rightarrow> bool \<times> string list \<times> wco_frame" where
  "frame_loop callback input f =
     (if input = [] then (True, [], f)
      else let newline = CHR 0x0A \<in> set input;
          count = (if newline then length (takeWhile (\<lambda>c. c \<noteq> CHR 0x0A) input) + 1 else length input);
          capacity = json_frame_max - length (fr_bytes f)
        in if count > capacity then (False, [], frame_fail (f\<lparr>fr_peak := json_frame_max\<rparr>))
           else let line = fr_bytes f @ take count input;
               f1 = f\<lparr>fr_bytes := line, fr_peak := max (fr_peak f) (length line)\<rparr>
             in if \<not> newline then frame_loop callback (drop count input) f1
                else if \<not> callback line then (False, [line], frame_fail f1)
                else (case frame_loop callback (drop count input) (f1\<lparr>fr_bytes := []\<rparr>) of
                   (ok, ls, f2) \<Rightarrow> (ok, line # ls, f2)))"
  by pat_completeness auto
termination
  by (relation "measure (\<lambda>(callback, input, f). length input)") auto

definition wco_frame_feed :: "(string \<Rightarrow> bool) \<Rightarrow> string \<Rightarrow> wco_frame \<Rightarrow> bool \<times> string list \<times> wco_frame" where
  "wco_frame_feed callback input f = (if fr_failed f then (False, [], f) else frame_loop callback input f)"

definition wco_frame_eof :: "wco_frame \<Rightarrow> bool \<times> wco_frame" where
  "wco_frame_eof f =
     (if fr_failed f then (False, f)
      else if fr_bytes f \<noteq> [] then (False, frame_fail f)
      else (True, f\<lparr>fr_failed := True\<rparr>))"

section \<open>The order of the keys\<close>

lemma memcmp_order_zero: "length a = length b \<Longrightarrow> memcmp_order a b = 0 \<longleftrightarrow> a = b"
  by (induction a b rule: list_induct2) auto

lemma compare_keys_zero: "compare_keys a b = 0 \<longleftrightarrow> a = b"
proof -
  have "memcmp_order (take n a) (take n b) = 0 \<longleftrightarrow> take n a = take n b" if "n = min (length a) (length b)" for n
    using that by (intro memcmp_order_zero) simp
  then show ?thesis by (auto simp: compare_keys_def Let_def split: if_splits)
qed

lemma compare_keys_Cons: "compare_keys (a # as) (b # bs) = (if a < b then - 1 else if b < a then 1 else compare_keys as bs)"
  by (simp add: compare_keys_def Let_def)

text \<open>The comparison is the order of strings that \<open>sort\<close> uses.\<close>

lemma compare_keys_less: "compare_keys a b < 0 \<longleftrightarrow> a < b"
proof (induction a arbitrary: b)
  case Nil
  then show ?case by (cases b) (simp_all add: compare_keys_def)
next
  case (Cons x a)
  then show ?case by (cases b) (auto simp: compare_keys_Cons compare_keys_def [of _ "[]"])
qed

lemma adjacent_equal_sorted: "sorted ks \<Longrightarrow> adjacent_equal ks \<longleftrightarrow> \<not> distinct ks"
proof (induction ks rule: adjacent_equal.induct)
  case (1 a b ks)
  have "a \<in> set (b # ks) \<longleftrightarrow> a = b"
    using "1.prems" by (auto intro: antisym)
  then show ?case using 1 by (auto simp: compare_keys_zero)
qed auto

lemma adjacent_equal_sort: "adjacent_equal (sort ks) \<longleftrightarrow> \<not> distinct ks"
  by (simp add: adjacent_equal_sorted)

section \<open>Validation is the bound\<close>

definition validated :: "wco_json_status \<times> nat \<Rightarrow> nat \<Rightarrow> bool \<Rightarrow> bool" where
  "validated r n good \<longleftrightarrow> (fst r = WcoJsonOk \<longleftrightarrow> n \<le> 4096 \<and> good) \<and> (fst r = WcoJsonOk \<longrightarrow> snd r = n)"

lemma validated_then:
  assumes first: "validated r n1 g1" and second: "fst r = WcoJsonOk \<Longrightarrow> validated (f (snd r)) n2 g2" and le: "n1 \<le> n2"
  shows "validated (case r of (WcoJsonOk, n) \<Rightarrow> f n | q \<Rightarrow> q) n2 (g1 \<and> g2)"
  using assms by (cases r; cases "fst r") (auto simp: validated_def)

declare coap_validate.simps(1) [simp del]

lemma coap_validate_bounded:
  "depth \<le> 8 \<Longrightarrow> validated (coap_validate double v depth nodes) (nodes + yy_nodes v) (yy_within (finite_number double) (8 - depth) v)"
  "depth \<le> 8 \<Longrightarrow> nodes \<le> 4096 \<Longrightarrow> validated (coap_validate_list double xs depth nodes) (nodes + sum_list (map yy_nodes xs))
     (\<forall>x \<in> set xs. yy_within (finite_number double) (8 - depth) x)"
  "depth \<le> 8 \<Longrightarrow> nodes \<le> 4096 \<Longrightarrow> validated (coap_validate_members double m depth nodes) (nodes + sum_list (map (\<lambda>p. yy_nodes (snd p)) m))
     (\<forall>p \<in> set m. yy_within (finite_number double) (8 - depth) (snd p))"
proof (induction double v depth nodes and double xs depth nodes and double m depth nodes
    rule: coap_validate_coap_validate_list_coap_validate_members.induct)
  case (1 double v depth nodes)
  show ?case
  proof (cases "nodes + 1 > 4096")
    case True
    then show ?thesis using yy_nodes_pos [of v] by (subst coap_validate.simps) (simp add: validated_def)
  next
    case False
    show ?thesis
    proof (cases v)
      case (YArr xs)
      then show ?thesis
        using 1(1) [OF False YArr] "1.prems" False by (subst coap_validate.simps) (auto simp: validated_def)
    next
      case (YObj m)
      then show ?thesis
        using 1(2) [OF False YObj] "1.prems" False
        by (subst coap_validate.simps) (auto simp: validated_def adjacent_equal_sort)
    qed (use False in \<open>auto simp: coap_validate.simps(1) validated_def\<close>)
  qed
next
  case (3 double x xs depth nodes)
  have "validated (case coap_validate double x depth nodes of (WcoJsonOk, n) \<Rightarrow> coap_validate_list double xs depth n | q \<Rightarrow> q)
      (nodes + yy_nodes x + sum_list (map yy_nodes xs))
      (yy_within (finite_number double) (8 - depth) x \<and> (\<forall>y \<in> set xs. yy_within (finite_number double) (8 - depth) y))"
    using 3 by (intro validated_then [OF 3(1)]) (auto simp: validated_def prod_eq_iff)
  then show ?case by (simp add: add.assoc)
next
  case (5 double k x m depth nodes)
  have "validated (case coap_validate double x depth nodes of (WcoJsonOk, n) \<Rightarrow> coap_validate_members double m depth n | q \<Rightarrow> q)
      (nodes + yy_nodes x + sum_list (map (\<lambda>p. yy_nodes (snd p)) m))
      (yy_within (finite_number double) (8 - depth) x \<and> (\<forall>p \<in> set m. yy_within (finite_number double) (8 - depth) (snd p)))"
    using 5 by (intro validated_then [OF 5(1)]) (auto simp: validated_def prod_eq_iff)
  then show ?case by (simp add: add.assoc)
qed (simp_all add: validated_def)

lemma coap_validate_exact: "fst (coap_validate double v 0 0) = WcoJsonOk \<longleftrightarrow> yy_bounded (finite_number double) v"
  using coap_validate_bounded(1) [of 0 double v 0] by (simp add: validated_def yy_bounded_def)

section \<open>Numbers\<close>

lemma uint_loop_bounded: "wco_uint_loop maximum n cs = bounded_decimal maximum n cs"
proof (induction cs arbitrary: n)
  case (Cons c cs)
  have "is_digit c \<Longrightarrow> n > maximum div 10 \<or> n = maximum div 10 \<and> digit_value c > maximum mod 10 \<longleftrightarrow> maximum < n * 10 + digit_value c"
    using digit_value_le [of c] mult_div_mod_eq [of 10 maximum] mod_less_divisor [of 10 maximum]
    by (cases n "maximum div 10" rule: linorder_cases) linarith+
  then show ?case using Cons by auto
qed simp

text \<open>Both C hosts read the same 64-bit numbers.\<close>

lemma wco_json_uint_wop: "wco_json_uint v u64_max = wop_json_uint64 v"
proof (cases v rule: magnitude.cases)
  case (1 t)
  then show ?thesis
    by (cases t)
      (auto simp: wco_json_uint_def wop_json_uint64_def uint_loop_bounded magnitude_loop_bounded Let_def split: option.splits)
qed (simp_all add: wco_json_uint_def wop_json_uint64_def)

section \<open>Lines\<close>

declare frame_loop.simps [simp del]

text \<open>The input up to and with its first newline, or all of it.\<close>

definition frame_count :: "string \<Rightarrow> nat" where
  "frame_count input = (if CHR 0x0A \<in> set input then length (takeWhile (\<lambda>c. c \<noteq> CHR 0x0A) input) + 1 else length input)"

lemma frame_count_append:
  "frame_count (a @ b) = (if CHR 0x0A \<in> set a then frame_count a else length a + frame_count b)"
proof (cases "CHR 0x0A \<in> set a")
  case True
  then show ?thesis by (auto simp: frame_count_def takeWhile_append1 [where x = "CHR 0x0A"])
next
  case False
  then have "takeWhile (\<lambda>c. c \<noteq> CHR 0x0A) (a @ b) = a @ takeWhile (\<lambda>c. c \<noteq> CHR 0x0A) b"
    by (intro takeWhile_append2) auto
  then show ?thesis using False by (simp add: frame_count_def)
qed

lemma frame_count_le: "frame_count input \<le> length input"
  by (induction input) (auto simp: frame_count_def)

lemma frame_loop_step:
  "input \<noteq> [] \<Longrightarrow> frame_loop callback input f =
     (let line = fr_bytes f @ take (frame_count input) input;
        f1 = f\<lparr>fr_bytes := line, fr_peak := max (fr_peak f) (length line)\<rparr> in
      if frame_count input > json_frame_max - length (fr_bytes f) then (False, [], frame_fail (f\<lparr>fr_peak := json_frame_max\<rparr>))
      else if CHR 0x0A \<notin> set input then (True, [], f1)
      else if \<not> callback line then (False, [line], frame_fail f1)
      else case frame_loop callback (drop (frame_count input) input) (f1\<lparr>fr_bytes := []\<rparr>) of (ok, ls, f2) \<Rightarrow> (ok, line # ls, f2))"
  by (subst frame_loop.simps) (simp add: frame_count_def Let_def frame_loop.simps [of _ "[]"])

text \<open>How the bytes are split does not matter: a feed after another is the feed of both.\<close>

lemma frame_loop_append:
  "length (fr_bytes f) \<le> json_frame_max \<Longrightarrow>
   frame_loop callback (a @ b) f =
     (case frame_loop callback a f of (ok, ls, f1) \<Rightarrow>
        if ok then (case frame_loop callback b f1 of (ok', ls', f2) \<Rightarrow> (ok', ls @ ls', f2)) else (False, ls, f1))"
proof (induction callback a f rule: frame_loop.induct)
  case (1 callback a f)
  have nil: "frame_loop callback [] g = (True, [], g)" for g by (simp add: frame_loop.simps)
  show ?case
  proof (cases "a = []")
    case True
    then show ?thesis by (cases "frame_loop callback b f") (simp add: nil)
  next
    case a: False
    note step = frame_loop_step [OF a, of callback f]
    have ab: "a @ b \<noteq> []" using a by simp
    note step' = frame_loop_step [OF ab, of callback f]
    show ?thesis
    proof (cases "CHR 0x0A \<in> set a")
      case True
      let ?n = "frame_count a"
      let ?line = "fr_bytes f @ take ?n a"
      let ?f = "f\<lparr>fr_bytes := ?line, fr_peak := max (fr_peak f) (length ?line)\<rparr>"
      have n: "frame_count (a @ b) = ?n" using True by (simp add: frame_count_append)
      have le: "?n \<le> length a" by (rule frame_count_le)
      have count: "?n = length (takeWhile (\<lambda>c. c \<noteq> CHR 0x0A) a) + 1" using True by (simp add: frame_count_def)
      have IH: "frame_loop callback (drop ?n a @ b) (?f\<lparr>fr_bytes := []\<rparr>) =
          (case frame_loop callback (drop ?n a) (?f\<lparr>fr_bytes := []\<rparr>) of (ok, ls, f1) \<Rightarrow>
            if ok then (case frame_loop callback b f1 of (ok', ls', f2) \<Rightarrow> (ok', ls @ ls', f2)) else (False, ls, f1))"
        if "\<not> ?n > json_frame_max - length (fr_bytes f)" "callback ?line"
        using "1.IH"(2) [OF a refl refl refl] that True unfolding count by (simp add: Let_def)
      show ?thesis
        unfolding step step' n Let_def using True le IH
        by (auto split: prod.splits)
    next
      case False
      let ?line = "fr_bytes f @ a"
      let ?f = "f\<lparr>fr_bytes := ?line, fr_peak := max (fr_peak f) (length ?line)\<rparr>"
      have na: "frame_count a = length a" using False by (simp add: frame_count_def)
      have n: "frame_count (a @ b) = length a + frame_count b" using False by (simp add: frame_count_append)
      show ?thesis
      proof (cases "b = []")
        case True
        then show ?thesis by (cases "frame_loop callback a f") (simp add: nil)
      next
        case b: False
        show ?thesis
        proof (cases "length a > json_frame_max - length (fr_bytes f)")
          case True
          then show ?thesis unfolding step step' n na Let_def using False by simp
        next
          case fits: False
          have "frame_loop callback a f = (True, [], ?f)" unfolding step na Let_def using fits False by simp
          moreover have "frame_loop callback (a @ b) f = frame_loop callback b ?f"
            unfolding step' n Let_def frame_loop_step [OF b, of callback ?f, unfolded Let_def] using False fits "1.prems"
            by (auto simp: frame_fail_def max.assoc max.absorb2 less_diff_conv split: prod.splits)
          ultimately show ?thesis by (cases "frame_loop callback b ?f") simp
        qed
      qed
    qed
  qed
qed

end
