(* ===== verification/Coap_Body.thy ===== *)
theory Coap_Body
  imports Coap_Json
begin

text \<open>
  The request bodies of the OSCORE worker (\<open>body.h\<close>, \<open>body.c\<close>): byte envelopes in canonical base64, and one body that
  is announced, filled by chunks and exposed after its length and SHA-256 are checked.  The hash is the parameter
  \<open>sha\<close>; the allocator's answer and whether the library computed the hash are inputs of a call.  \<open>bd_bytes\<close> is
  the written part of the buffer.
\<close>

section \<open>Base64\<close>

definition body_max :: nat where "body_max = 1048576"
definition body_chunk_max :: nat where "body_chunk_max = 32768"

text \<open>The first loop of \<open>wco_body_base64\<close>: the checks of each group.\<close>

fun body_check :: "nat \<Rightarrow> string \<Rightarrow> bool" where
  "body_check padding [] = True"
| "body_check padding (t0 # t1 # t2 # t3 # rest) =
     (let a = base64_digit t0; b = base64_digit t1; c = base64_digit t2; d = base64_digit t3; final = (rest = []) in
      if a < 0 \<or> b < 0 then False
      else if final \<and> padding = 2 then
        (if t2 \<noteq> CHR ''='' \<or> t3 \<noteq> CHR ''='' \<or> b AND 15 \<noteq> 0 then False else body_check padding rest)
      else if final \<and> padding = 1 then
        (if c < 0 \<or> t3 \<noteq> CHR ''='' \<or> c AND 3 \<noteq> 0 then False else body_check padding rest)
      else if c < 0 \<or> d < 0 then False else body_check padding rest)"
| "body_check padding ts = False"

text \<open>The second loop: the bytes of each group, as many as are decoded.\<close>

fun body_decode :: "nat \<Rightarrow> nat \<Rightarrow> string \<Rightarrow> bytes" where
  "body_decode decoded written (t0 # t1 # t2 # t3 # rest) =
     (let a = base64_digit t0; b = base64_digit t1;
        c = (if t2 = CHR ''='' then 0 else base64_digit t2); d = (if t3 = CHR ''='' then 0 else base64_digit t3);
        w1 = written + 1; w2 = (if w1 < decoded then w1 + 1 else w1); w3 = (if w2 < decoded then w2 + 1 else w2)
      in [char_of (push_bit 2 a OR drop_bit 4 b)] @
         (if w1 < decoded then [char_of (push_bit 4 b OR drop_bit 2 c)] else []) @
         (if w2 < decoded then [char_of (push_bit 6 c OR d)] else []) @ body_decode decoded w3 rest)"
| "body_decode decoded written ts = []"

definition body_text :: "string \<Rightarrow> nat \<Rightarrow> bytes option" where
  "body_text input capacity =
     (let size' = length input; padding = envelope_padding input; decoded = size' div 4 * 3 - padding in
      if size' mod 4 \<noteq> 0 \<or> size' > 4 * ((body_chunk_max + 2) div 3) then None
      else if decoded > capacity \<or> decoded > body_chunk_max then None
      else if \<not> body_check padding input then None
      else Some (body_decode decoded 0 input))"

definition wco_body_base64 :: "yyval option \<Rightarrow> nat \<Rightarrow> bytes option" where
  "wco_body_base64 v capacity =
     (if \<not> wco_json_keys v [''type'', ''base64''] \<or> yy_size (the v) \<noteq> 2 \<or> \<not> wco_json_string (yy_get (the v) ''type'') ''bytes''
      then None
      else case yy_get (the v) ''base64'' of Some (YStr input) \<Rightarrow> body_text input capacity | _ \<Rightarrow> None)"

section \<open>The body\<close>

record wco_body =
  bd_bytes :: bytes
  bd_length :: nat
  bd_used :: nat
  bd_hash :: bytes
  bd_id :: string
  bd_active :: bool
  bd_complete :: bool
  bd_failed :: bool

definition wco_body_init :: wco_body where
  "wco_body_init = \<lparr>bd_bytes = [], bd_length = 0, bd_used = 0, bd_hash = replicate 32 CHR 0x00, bd_id = [], bd_active = False,
     bd_complete = False, bd_failed = False\<rparr>"

definition wco_body_clear :: "wco_body \<Rightarrow> wco_body" where
  "wco_body_clear b = wco_body_init\<lparr>bd_failed := bd_failed b\<rparr>"

definition wco_body_fail :: "wco_body \<Rightarrow> wco_body" where
  "wco_body_fail b = wco_body_clear (b\<lparr>bd_failed := True\<rparr>)"

definition body_reject :: "wco_body \<Rightarrow> bool \<times> wco_body" where
  "body_reject b = (False, wco_body_fail b)"

definition wco_body_identifier :: "string \<Rightarrow> bool" where
  "wco_body_identifier ident \<longleftrightarrow> ident \<noteq> [] \<and> length ident \<le> 64 \<and> list_all (\<lambda>c. CHR 0x20 \<le> c \<and> c \<le> CHR 0x7E) ident"

definition body_hex :: "char \<Rightarrow> int" where
  "body_hex c = (let v = of_char c in
     if 48 \<le> v \<and> v \<le> 57 then v - 48 else if 97 \<le> v \<and> v \<le> 102 then v - 97 + 10 else - 1)"

fun body_hash :: "string \<Rightarrow> bytes option" where
  "body_hash [] = Some []"
| "body_hash (h # l # rest) =
     (if body_hex h < 0 \<or> body_hex l < 0 then None
      else map_option (Cons (char_of (push_bit 4 (body_hex h) OR body_hex l))) (body_hash rest))"
| "body_hash [c] = None"

definition wco_body_begin :: "bool \<Rightarrow> string \<Rightarrow> nat \<Rightarrow> string \<Rightarrow> wco_body \<Rightarrow> bool \<times> wco_body" where
  "wco_body_begin allocated ident n sha256 b =
     (if bd_failed b \<or> bd_active b \<or> \<not> wco_body_identifier ident \<or> n > body_max \<or> length sha256 \<noteq> 64 then body_reject b
      else case body_hash sha256 of None \<Rightarrow> body_reject b
        | Some h \<Rightarrow>
          if n \<noteq> 0 \<and> \<not> allocated then body_reject b
          else (True, b\<lparr>bd_hash := h, bd_bytes := [], bd_id := ident, bd_length := n, bd_active := True\<rparr>))"

definition body_same :: "wco_body \<Rightarrow> string \<Rightarrow> bool" where
  "body_same b ident \<longleftrightarrow> wco_body_identifier ident \<and> bd_id b = ident"

definition wco_body_chunk :: "string \<Rightarrow> nat \<Rightarrow> yyval option \<Rightarrow> wco_body \<Rightarrow> bool \<times> wco_body" where
  "wco_body_chunk ident offset data b =
     (if bd_failed b \<or> \<not> bd_active b \<or> bd_complete b \<or> \<not> body_same b ident \<or> offset \<noteq> bd_used b then body_reject b
      else case wco_body_base64 data (bd_length b - bd_used b) of None \<Rightarrow> body_reject b
        | Some bs \<Rightarrow> (True, b\<lparr>bd_bytes := bd_bytes b @ bs, bd_used := bd_used b + length bs\<rparr>))"

definition wco_body_end :: "(bytes \<Rightarrow> bytes) \<Rightarrow> bool \<Rightarrow> string \<Rightarrow> wco_body \<Rightarrow> bool \<times> wco_body" where
  "wco_body_end sha computed ident b =
     (if bd_failed b \<or> \<not> bd_active b \<or> bd_complete b \<or> \<not> body_same b ident \<or> bd_used b \<noteq> bd_length b then body_reject b
      else if \<not> (computed \<and> bd_hash b = sha (bd_bytes b)) then body_reject b
      else (True, b\<lparr>bd_complete := True\<rparr>))"

definition wco_body_data :: "wco_body \<Rightarrow> bytes option" where
  "wco_body_data b = (if bd_failed b \<or> \<not> bd_active b \<or> \<not> bd_complete b then None else Some (bd_bytes b))"

section \<open>Base64 is canonical\<close>

lemma body_check_groups: "body_check padding ts \<longleftrightarrow> (\<exists>bs. base64_groups padding ts = Inr bs)"
proof -
  have map: "(\<exists>bs. map_sum id f r = Inr bs) \<longleftrightarrow> (\<exists>bs. r = Inr bs)" for f :: "bytes \<Rightarrow> bytes" and r :: "bytes_error + bytes"
    by (cases r) auto
  show ?thesis
    by (induction padding ts rule: body_check.induct) (auto simp: Let_def map)
qed

text \<open>When the checks pass, the second loop writes the bytes that the groups stand for.\<close>

lemma body_decode_groups:
  "base64_groups padding ts = Inr bs \<Longrightarrow> padding \<le> 2 \<Longrightarrow> decoded = written + length bs \<Longrightarrow> body_decode decoded written ts = bs"
proof (induction padding ts arbitrary: bs written rule: base64_groups.induct)
  case (2 padding t0 t1 t2 t3 rest)
  have pad: "base64_digit CHR ''='' = - 1" by (rule pad_not_digit)
  show ?case
  proof (cases "rest = [] \<and> (padding = 1 \<or> padding = 2)")
    case True
    then show ?thesis using "2.prems" pad by (auto simp: Let_def split: if_splits)
  next
    case False
    then obtain bs' where bs': "base64_groups padding rest = Inr bs'" and
      bs: "bs = char_of (push_bit 2 (base64_digit t0) OR drop_bit 4 (base64_digit t1)) #
        char_of (push_bit 4 (base64_digit t1) OR drop_bit 2 (base64_digit t2)) #
        char_of (push_bit 6 (base64_digit t2) OR base64_digit t3) # bs'"
      and digits: "\<not> base64_digit t0 < 0" "\<not> base64_digit t1 < 0" "\<not> base64_digit t2 < 0" "\<not> base64_digit t3 < 0"
      using "2.prems"(1) by (cases "base64_groups padding rest") (auto simp: Let_def split: if_splits)
    have ne: "t2 \<noteq> CHR ''=''" "t3 \<noteq> CHR ''=''" using digits pad by auto
    have "body_decode decoded (written + 3) rest = bs'"
      using "2.IH" [of _ _ _ _ _ _ _ _ bs' "written + 3"] bs' "2.prems" digits False bs by (auto simp: Let_def)
    then show ?thesis using ne "2.prems"(3) bs by (simp add: Let_def eval_nat_numeral)
  qed
qed auto

lemma base64_encode_nil: "base64_encode bs = [] \<longleftrightarrow> bs = []"
  using length_base64_encode [of bs] by (cases bs) auto

lemma groups_encode_iff:
  assumes "input \<noteq> []" "length input mod 4 = 0"
  shows "base64_groups (envelope_padding input) input = Inr bs \<longleftrightarrow> base64_encode bs = input"
proof
  assume "base64_encode bs = input"
  moreover from this have "envelope_padding input = base64_pad_of bs"
    using assms envelope_padding_nonempty [OF assms] base64_padding_encode [of bs] by (auto simp: base64_encode_nil)
  ultimately show "base64_groups (envelope_padding input) input = Inr bs" using base64_encode_groups [of bs] by simp
qed (rule base64_groups_canonical)

text \<open>
  A text decodes to a byte string exactly when it is its base64 text and the string fits the capacity and the
  size of a chunk.
\<close>

lemma body_text_exact:
  "body_text input capacity = Some bs \<longleftrightarrow> base64_encode bs = input \<and> length bs \<le> capacity \<and> length bs \<le> body_chunk_max"
proof (cases "input = [] \<or> length input mod 4 \<noteq> 0")
  case True
  then have "input = [] \<or> base64_encode bs \<noteq> input" using length_base64_encode [of bs] by auto
  then show ?thesis using True by (auto simp: body_text_def Let_def base64_encode_nil)
next
  case False
  then have ne: "input \<noteq> []" "length input mod 4 = 0" by auto
  let ?p = "envelope_padding input"
  have size': "base64_encode cs = input \<Longrightarrow> length input = (length cs + 2) div 3 * 4" for cs
    using length_base64_encode [of cs] by auto
  have len: "base64_groups ?p input = Inr cs \<Longrightarrow> length input div 4 * 3 - ?p = length cs" for cs
    using base64_groups_length [OF _ envelope_padding_le(1), of "input" "input" cs] ne(1) by simp
  show ?thesis
  proof (cases "\<exists>cs. base64_groups ?p input = Inr cs")
    case True
    then obtain cs where cs: "base64_groups ?p input = Inr cs" by blast
    have enc: "base64_encode cs = input" using cs groups_encode_iff [OF ne] by simp
    have uniq: "base64_encode bs = input \<longleftrightarrow> bs = cs" using groups_encode_iff [OF ne, of bs] cs enc by auto
    have big: "length cs \<le> body_chunk_max \<Longrightarrow> length input \<le> 4 * ((body_chunk_max + 2) div 3)"
      using size' [OF enc] div_le_mono [of "length cs + 2" "body_chunk_max + 2" 3] by simp
    have dec: "body_decode (length cs) 0 input = cs" by (rule body_decode_groups [OF cs envelope_padding_le(1)]) simp
    show ?thesis
      unfolding body_text_def Let_def len [OF cs] dec uniq body_check_groups using ne(2) cs big by auto
  next
    case none: False
    then show ?thesis using groups_encode_iff [OF ne, of bs] by (auto simp: body_text_def Let_def body_check_groups)
  qed
qed

section \<open>What a body exposes\<close>

datatype body_call = BodyBegin bool string nat string | BodyChunk string nat "yyval option" | BodyEnd bool string | BodyClear | BodyFail

text \<open>
  A call with what was announced since the last begin and the byte strings of the accepted chunks: these are not part
  of the program.
\<close>

record body_log =
  bl_body :: wco_body
  bl_announced :: "(nat \<times> string) option"
  bl_chunks :: "bytes list"
  bl_failed :: bool

definition body_log_init :: body_log where
  "body_log_init = \<lparr>bl_body = wco_body_init, bl_announced = None, bl_chunks = [], bl_failed = False\<rparr>"

definition chunk_bytes :: "yyval option \<Rightarrow> bytes" where
  "chunk_bytes v = the (wco_body_base64 v body_chunk_max)"

fun body_do :: "(bytes \<Rightarrow> bytes) \<Rightarrow> body_call \<Rightarrow> body_log \<Rightarrow> body_log" where
  "body_do sha (BodyBegin allocated ident n h) l =
     (case wco_body_begin allocated ident n h (bl_body l) of (ok, b) \<Rightarrow>
        l\<lparr>bl_body := b, bl_announced := Some (n, h), bl_chunks := [], bl_failed := bl_failed l \<or> \<not> ok\<rparr>)"
| "body_do sha (BodyChunk ident offset v) l =
     (case wco_body_chunk ident offset v (bl_body l) of (ok, b) \<Rightarrow>
        l\<lparr>bl_body := b, bl_chunks := (if ok then bl_chunks l @ [chunk_bytes v] else bl_chunks l), bl_failed := bl_failed l \<or> \<not> ok\<rparr>)"
| "body_do sha (BodyEnd computed ident) l =
     (case wco_body_end sha computed ident (bl_body l) of (ok, b) \<Rightarrow> l\<lparr>bl_body := b, bl_failed := bl_failed l \<or> \<not> ok\<rparr>)"
| "body_do sha BodyClear l = l\<lparr>bl_body := wco_body_clear (bl_body l)\<rparr>"
| "body_do sha BodyFail l = l\<lparr>bl_body := wco_body_fail (bl_body l), bl_failed := True\<rparr>"

definition body_inv :: "(bytes \<Rightarrow> bytes) \<Rightarrow> body_log \<Rightarrow> bool" where
  "body_inv sha l \<longleftrightarrow> (let b = bl_body l in
     bd_failed b = bl_failed l \<and> bd_used b = length (bd_bytes b) \<and> bd_used b \<le> bd_length b \<and> bd_length b \<le> body_max \<and>
     (if bd_active b
      then \<not> bd_failed b \<and> bd_bytes b = concat (bl_chunks l) \<and>
        (\<exists>h. bl_announced l = Some (bd_length b, h) \<and> length h = 64 \<and> body_hash h = Some (bd_hash b)) \<and>
        (bd_complete b \<longrightarrow> length (bd_bytes b) = bd_length b \<and> sha (bd_bytes b) = bd_hash b)
      else bd_bytes b = [] \<and> bd_length b = 0 \<and> \<not> bd_complete b))"

lemma body_fail_inv [simp]: "body_inv sha (l\<lparr>bl_body := wco_body_fail b, bl_failed := True\<rparr>)"
  "body_inv sha (l\<lparr>bl_body := wco_body_fail b, bl_announced := a, bl_chunks := cs, bl_failed := True\<rparr>)"
  by (simp_all add: body_inv_def wco_body_fail_def wco_body_clear_def wco_body_init_def Let_def)

lemma body_base64_capacity:
  assumes "wco_body_base64 v capacity = Some bs"
  shows "length bs \<le> capacity" "chunk_bytes v = bs"
proof -
  obtain t where t: "yy_get (the v) ''base64'' = Some (YStr t)" "body_text t capacity = Some bs"
    and same: "\<And>c. wco_body_base64 v c = body_text t c"
    using assms by (auto simp: wco_body_base64_def split: if_splits option.splits yyval.splits)
  then have bs: "base64_encode bs = t" "length bs \<le> capacity" "length bs \<le> body_chunk_max" by (simp_all add: body_text_exact)
  then have "body_text t body_chunk_max = Some bs" by (simp add: body_text_exact)
  then show "length bs \<le> capacity" "chunk_bytes v = bs" using bs(2) by (simp_all add: chunk_bytes_def same)
qed

lemma body_do_inv:
  assumes inv: "body_inv sha l"
  shows "body_inv sha (body_do sha call l)"
proof (cases call)
  case (BodyBegin allocated ident n h)
  let ?b = "bl_body l"
  obtain ok b where call: "wco_body_begin allocated ident n h ?b = (ok, b)" by (cases "wco_body_begin allocated ident n h ?b")
  show ?thesis
  proof (cases ok)
    case False
    then have "b = wco_body_fail ?b"
      using call by (auto simp: wco_body_begin_def body_reject_def split: if_splits option.splits)
    then show ?thesis using False BodyBegin call by simp
  next
    case True
    then obtain g where "body_hash h = Some g" "\<not> bd_failed ?b" "\<not> bd_active ?b" "n \<le> body_max" "length h = 64"
      "b = ?b\<lparr>bd_hash := g, bd_bytes := [], bd_id := ident, bd_length := n, bd_active := True\<rparr>"
      using call by (auto simp: wco_body_begin_def body_reject_def split: if_splits option.splits)
    then show ?thesis using inv True BodyBegin call by (auto simp: body_inv_def Let_def)
  qed
next
  case (BodyChunk ident offset v)
  let ?b = "bl_body l"
  obtain ok b where call: "wco_body_chunk ident offset v ?b = (ok, b)" by (cases "wco_body_chunk ident offset v ?b")
  show ?thesis
  proof (cases ok)
    case False
    then have "b = wco_body_fail ?b"
      using call by (auto simp: wco_body_chunk_def body_reject_def split: if_splits option.splits)
    then show ?thesis using False BodyChunk call by simp
  next
    case True
    then obtain bs where bs: "wco_body_base64 v (bd_length ?b - bd_used ?b) = Some bs" and
      b: "\<not> bd_failed ?b" "bd_active ?b" "\<not> bd_complete ?b" "b = ?b\<lparr>bd_bytes := bd_bytes ?b @ bs, bd_used := bd_used ?b + length bs\<rparr>"
      using call by (auto simp: wco_body_chunk_def body_reject_def split: if_splits option.splits)
    then show ?thesis using inv True BodyChunk call body_base64_capacity [OF bs] by (auto simp: body_inv_def Let_def)
  qed
next
  case (BodyEnd computed ident)
  let ?b = "bl_body l"
  obtain ok b where call: "wco_body_end sha computed ident ?b = (ok, b)" by (cases "wco_body_end sha computed ident ?b")
  show ?thesis
  proof (cases ok)
    case False
    then have "b = wco_body_fail ?b" using call by (auto simp: wco_body_end_def body_reject_def split: if_splits)
    then show ?thesis using False BodyEnd call by simp
  next
    case True
    then have "\<not> bd_failed ?b" "bd_active ?b" "bd_used ?b = bd_length ?b" "bd_hash ?b = sha (bd_bytes ?b)" "b = ?b\<lparr>bd_complete := True\<rparr>"
      using call by (auto simp: wco_body_end_def body_reject_def split: if_splits)
    then show ?thesis using inv True BodyEnd call by (auto simp: body_inv_def Let_def)
  qed
next
  case BodyClear
  then show ?thesis using inv by (auto simp: body_inv_def wco_body_clear_def wco_body_init_def Let_def)
next
  case BodyFail
  then show ?thesis by simp
qed

interpretation coap_body: action_machine "body_do sha" "body_inv sha" "\<lambda>_. True"
  by unfold_locales (rule body_do_inv)

text \<open>
  C33: Whatever calls are made on a body: bytes are exposed only while no call has failed since the generation began, and
  they are then the chunks accepted since the announcement, joined, of the announced length, at most 1 MiB, with
  the announced SHA-256.  After a failure the body stays closed.
\<close>

theorem body_exposes_announced:
  "let l = run_actions (body_do sha) calls body_log_init in
     bd_failed (bl_body l) = bl_failed l \<and>
     (case wco_body_data (bl_body l) of
        None \<Rightarrow> True
      | Some bs \<Rightarrow> \<not> bl_failed l \<and> bs = concat (bl_chunks l) \<and> length bs \<le> 1048576 \<and>
          (\<exists>h. bl_announced l = Some (length bs, h) \<and> length h = 64 \<and> body_hash h = Some (sha bs)))"
proof -
  define l where "l = run_actions (body_do sha) calls body_log_init"
  have "body_inv sha body_log_init" by (simp add: body_inv_def body_log_init_def wco_body_init_def Let_def)
  then have "body_inv sha l" unfolding l_def by (rule coap_body.run_inv) (simp add: list_all_iff)
  then show ?thesis
    unfolding l_def [symmetric]
    by (auto simp: body_inv_def wco_body_data_def Let_def body_max_def split: if_splits)
qed


section \<open>Every announced body arrives\<close>

definition chunk_envelope :: "bytes \<Rightarrow> yyval option" where
  "chunk_envelope bs = Some (YObj [(''type'', YStr ''bytes''), (''base64'', YStr (base64_encode bs))])"

lemma chunk_envelope_decodes: "length bs \<le> capacity \<Longrightarrow> length bs \<le> body_chunk_max \<Longrightarrow> wco_body_base64 (chunk_envelope bs) capacity = Some bs"
  by (simp add: wco_body_base64_def chunk_envelope_def wco_json_keys_def wco_json_string_def yy_get_def yy_size_def body_text_exact)

text \<open>The calls that send byte strings as consecutive chunks from an offset on.\<close>

fun chunk_calls :: "string \<Rightarrow> nat \<Rightarrow> bytes list \<Rightarrow> body_call list" where
  "chunk_calls ident offset [] = []"
| "chunk_calls ident offset (c # cs) = BodyChunk ident offset (chunk_envelope c) # chunk_calls ident (offset + length c) cs"

lemma chunk_calls_fill:
  assumes "\<not> bd_failed (bl_body l)" "bd_active (bl_body l)" "\<not> bd_complete (bl_body l)" "body_same (bl_body l) ident"
    "list_all (\<lambda>c. length c \<le> body_chunk_max) cs" "bd_used (bl_body l) + length (concat cs) \<le> bd_length (bl_body l)"
  shows "bl_body (run_actions (body_do sha) (chunk_calls ident (bd_used (bl_body l)) cs) l) =
    (bl_body l)\<lparr>bd_bytes := bd_bytes (bl_body l) @ concat cs, bd_used := bd_used (bl_body l) + length (concat cs)\<rparr>"
  using assms
proof (induction cs arbitrary: l)
  case (Cons c cs)
  let ?b = "bl_body l"
  let ?l = "body_do sha (BodyChunk ident (bd_used ?b) (chunk_envelope c)) l"
  have dec: "wco_body_base64 (chunk_envelope c) (bd_length ?b - bd_used ?b) = Some c"
    using Cons.prems by (intro chunk_envelope_decodes) auto
  then have l: "bl_body ?l = ?b\<lparr>bd_bytes := bd_bytes ?b @ c, bd_used := bd_used ?b + length c\<rparr>"
    using Cons.prems by (simp add: wco_body_chunk_def)
  have same: "body_same (bl_body ?l) ident" using Cons.prems(4) unfolding l by (simp add: body_same_def)
  show ?case using Cons.IH [of ?l] Cons.prems same unfolding l by (simp add: l add.assoc)
qed simp

lemma body_delivers:
  assumes "wco_body_identifier ident" "list_all (\<lambda>c. length c \<le> body_chunk_max) cs" "length (concat cs) \<le> body_max"
    and "length h = 64" "body_hash h = Some (sha (concat cs))"
  shows "wco_body_data (bl_body (run_actions (body_do sha)
    ([BodyBegin True ident (length (concat cs)) h] @ chunk_calls ident 0 cs @ [BodyEnd True ident]) body_log_init)) = Some (concat cs)"
proof -
  let ?n = "length (concat cs)"
  define l where "l = body_do sha (BodyBegin True ident ?n h) body_log_init"
  have b: "bl_body l = wco_body_init\<lparr>bd_hash := sha (concat cs), bd_bytes := [], bd_id := ident, bd_length := ?n, bd_active := True\<rparr>"
    using assms by (simp add: l_def body_log_init_def wco_body_begin_def wco_body_init_def)
  define m where "m = run_actions (body_do sha) (chunk_calls ident 0 cs) l"
  have "bl_body m = (bl_body l)\<lparr>bd_bytes := concat cs, bd_used := ?n\<rparr>"
    using chunk_calls_fill [of l ident cs sha] assms(1,2) b unfolding m_def by (simp add: wco_body_init_def body_same_def)
  then have "wco_body_end sha True ident (bl_body m) = (True, (bl_body m)\<lparr>bd_complete := True\<rparr>)"
    "bd_bytes (bl_body m) = concat cs" "\<not> bd_failed (bl_body m)" "bd_active (bl_body m)"
    using assms(1) b by (simp_all add: wco_body_end_def wco_body_init_def body_same_def)
  then have "wco_body_data (bl_body (body_do sha (BodyEnd True ident) m)) = Some (concat cs)" by (simp add: wco_body_data_def)
  then show ?thesis by (simp add: run_actions_append m_def l_def)
qed

end
