(* ===== verification/Coap_Identity.thy ===== *)
theory Coap_Identity
  imports Wotex_Prelude "HOL-Library.Word"
begin

unbundle bit_operations_syntax

text \<open>
  The storage identity of an OSCORE security context (\<open>identity.h\<close>, \<open>identity.c\<close>): the material, the derivation of its
  keys, and the three hashes that are persisted.  HKDF and SHA-256 belong to OpenSSL: they are parameters
  \<open>hkdf\<close> and \<open>sha\<close>, which may fail.  A \<open>wco_bytes\<close> is the list of its bytes.
\<close>

type_synonym oscore_octets = "8 word list"

record wco_oscore_material =
  om_secret :: oscore_octets
  om_salt :: oscore_octets
  om_sender :: oscore_octets
  om_recipient :: oscore_octets
  om_context :: oscore_octets
  om_context_present :: bool

record wco_oscore_key_set =
  ok_sender :: oscore_octets
  ok_recipient :: oscore_octets
  ok_common_iv :: oscore_octets

record wco_oscore_hashes =
  oi_context :: oscore_octets
  oi_sender_space :: oscore_octets
  oi_recipient_space :: oscore_octets

section \<open>Material and encoding\<close>

definition valid_bytes :: "oscore_octets \<Rightarrow> nat \<Rightarrow> nat \<Rightarrow> bool" where
  "valid_bytes bytes minimum maximum \<longleftrightarrow> minimum \<le> length bytes \<and> length bytes \<le> maximum"

definition material_valid :: "wco_oscore_material \<Rightarrow> bool" where
  "material_valid m \<longleftrightarrow> valid_bytes (om_secret m) 16 32 \<and> valid_bytes (om_salt m) 0 32 \<and> valid_bytes (om_sender m) 0 7 \<and>
     valid_bytes (om_recipient m) 0 7 \<and> valid_bytes (om_context m) 0 255 \<and>
     (om_context_present m \<or> length (om_context m) = 0) \<and>
     (length (om_sender m) \<noteq> length (om_recipient m) \<or> om_sender m \<noteq> [] \<and> om_sender m \<noteq> om_recipient m)"

text \<open>\<open>put_bytes\<close> and \<open>put_context\<close> return what they write.\<close>

definition put_bytes :: "oscore_octets \<Rightarrow> oscore_octets" where
  "put_bytes bytes =
     (if length bytes < 24 then [0x40 OR of_nat (length bytes)] else [0x58, of_nat (length bytes)]) @ bytes"

definition put_context :: "wco_oscore_material \<Rightarrow> oscore_octets" where
  "put_context m = (if om_context_present m then put_bytes (om_context m) else [0xf6])"

definition derive_info :: "wco_oscore_material \<Rightarrow> oscore_octets \<Rightarrow> bool \<Rightarrow> oscore_octets" where
  "derive_info m ident iv =
     [0x85] @ put_bytes ident @ put_context m @ [0x0a, if iv then 0x62 else 0x63] @
     (if iv then [0x49, 0x56] else [0x4b, 0x65, 0x79]) @ [if iv then 13 else 16]"

section \<open>Keys\<close>

definition derive ::
  "(oscore_octets \<Rightarrow> oscore_octets \<Rightarrow> oscore_octets \<Rightarrow> nat \<Rightarrow> oscore_octets option) \<Rightarrow> wco_oscore_material \<Rightarrow> oscore_octets \<Rightarrow> bool \<Rightarrow> oscore_octets option" where
  "derive hkdf m ident iv =
     (let n = (if iv then 13 else 16) in
      case hkdf (om_salt m) (om_secret m) (derive_info m ident iv) n of None \<Rightarrow> None
      | Some out \<Rightarrow> if length out = n then Some out else None)"

definition wco_oscore_keys ::
  "(oscore_octets \<Rightarrow> oscore_octets \<Rightarrow> oscore_octets \<Rightarrow> nat \<Rightarrow> oscore_octets option) \<Rightarrow> wco_oscore_material \<Rightarrow> wco_oscore_key_set option" where
  "wco_oscore_keys hkdf m =
     (if \<not> material_valid m then None
      else case derive hkdf m (om_sender m) False of None \<Rightarrow> None
        | Some s \<Rightarrow> (case derive hkdf m (om_recipient m) False of None \<Rightarrow> None
          | Some r \<Rightarrow> (case derive hkdf m [] True of None \<Rightarrow> None
            | Some iv \<Rightarrow> Some \<lparr>ok_sender = s, ok_recipient = r, ok_common_iv = iv\<rparr>)))"

section \<open>Hashes\<close>

definition oscore_digest :: "(oscore_octets \<Rightarrow> oscore_octets option) \<Rightarrow> oscore_octets \<Rightarrow> oscore_octets option" where
  "oscore_digest sha input = (case sha input of None \<Rightarrow> None | Some out \<Rightarrow> if length out = 32 then Some out else None)"

definition space_domain :: oscore_octets where
  "space_domain = map of_char ''wotex.oscore.space@1''"

definition xor_at :: "nat \<Rightarrow> 8 word \<Rightarrow> oscore_octets \<Rightarrow> oscore_octets" where
  "xor_at i b bytes = bytes[i := (bytes ! i) XOR b]"

text \<open>The first eight bytes of the common IV with the length and the bytes of an identifier.\<close>

definition space_nonce :: "oscore_octets \<Rightarrow> oscore_octets \<Rightarrow> oscore_octets" where
  "space_nonce common_iv ident =
     fold (\<lambda>i. xor_at (8 - length ident + i) (ident ! i)) [0..<length ident]
       (xor_at 0 (of_nat (length ident)) (take 8 common_iv))"

definition space_input :: "oscore_octets \<Rightarrow> oscore_octets \<Rightarrow> oscore_octets \<Rightarrow> oscore_octets" where
  "space_input key common_iv ident = space_domain @ key @ space_nonce common_iv ident"

definition oscore_space :: "(oscore_octets \<Rightarrow> oscore_octets option) \<Rightarrow> oscore_octets \<Rightarrow> oscore_octets \<Rightarrow> oscore_octets \<Rightarrow> oscore_octets option" where
  "oscore_space sha key common_iv ident = oscore_digest sha (space_input key common_iv ident)"

definition context_domain :: oscore_octets where
  "context_domain = map of_char ''wotex.oscore.context@1''"

definition context_input :: "wco_oscore_material \<Rightarrow> oscore_octets" where
  "context_input m = context_domain @ [0x87] @ put_bytes (om_secret m) @ put_bytes (om_salt m) @ put_bytes (om_sender m) @
     put_bytes (om_recipient m) @ put_context m @ [0x0a, 0x29]"

definition wco_oscore_identity ::
  "(oscore_octets \<Rightarrow> oscore_octets option) \<Rightarrow> (oscore_octets \<Rightarrow> oscore_octets \<Rightarrow> oscore_octets \<Rightarrow> nat \<Rightarrow> oscore_octets option) \<Rightarrow> wco_oscore_material \<Rightarrow> wco_oscore_hashes option" where
  "wco_oscore_identity sha hkdf m =
     (case wco_oscore_keys hkdf m of None \<Rightarrow> None
      | Some k \<Rightarrow>
        (case (oscore_digest sha (context_input m), oscore_space sha (ok_sender k) (ok_common_iv k) (om_sender m),
               oscore_space sha (ok_recipient k) (ok_common_iv k) (om_recipient m)) of
           (Some c, Some s, Some r) \<Rightarrow> Some \<lparr>oi_context = c, oi_sender_space = s, oi_recipient_space = r\<rparr>
         | _ \<Rightarrow> None))"

definition wco_oscore_identity_overlaps :: "wco_oscore_hashes \<Rightarrow> wco_oscore_hashes \<Rightarrow> bool" where
  "wco_oscore_identity_overlaps a b \<longleftrightarrow> oi_context a = oi_context b \<or> oi_sender_space a = oi_sender_space b \<or>
     oi_sender_space a = oi_recipient_space b \<or> oi_recipient_space a = oi_sender_space b \<or>
     oi_recipient_space a = oi_recipient_space b"

section \<open>The encoding is injective\<close>

lemma short_head: "n < 24 \<Longrightarrow> unat ((0x40 :: 8 word) OR of_nat n) = 64 + n"
proof -
  have "list_all (\<lambda>n. unat ((0x40 :: 8 word) OR of_nat n) = 64 + n) [0..<24]" by code_simp
  then show "n < 24 \<Longrightarrow> unat ((0x40 :: 8 word) OR of_nat n) = 64 + n" by (simp add: list_all_iff)
qed

lemma octet_length: "n \<le> 255 \<Longrightarrow> unat (of_nat n :: 8 word) = n"
  by (simp add: unsigned_of_nat take_bit_nat_eq_self)

lemma put_bytes_nonempty: "put_bytes bs \<noteq> []"
  by (simp add: put_bytes_def)

lemma put_bytes_head: "unat (hd (put_bytes bs)) = (if length bs < 24 then 64 + length bs else 88)"
proof (cases "length bs < 24")
  case True
  then show ?thesis using short_head [OF True] unfolding put_bytes_def by (simp only: if_True append.simps list.sel)
next
  case False
  then show ?thesis by (simp add: put_bytes_def)
qed

lemma put_bytes_second: "\<not> length bs < 24 \<Longrightarrow> length bs \<le> 255 \<Longrightarrow> unat ((put_bytes bs @ xs) ! 1) = length bs"
  using octet_length [of "length bs"] by (simp add: put_bytes_def)

lemma put_bytes_drop: "drop (if length bs < 24 then 1 else 2) (put_bytes bs) = bs"
  by (simp add: put_bytes_def)

lemma put_bytes_length: "length (put_bytes bs) = (if length bs < 24 then 1 else 2) + length bs"
  by (simp add: put_bytes_def)

lemma put_bytes_append:
  assumes eq: "put_bytes a @ xs = put_bytes b @ ys" and len: "length a \<le> 255" "length b \<le> 255"
  shows "a = b \<and> xs = ys"
proof -
  have "hd (put_bytes a) = hd (put_bytes b)"
    using arg_cong [OF eq, of hd] unfolding hd_append2 [OF put_bytes_nonempty] .
  then have both: "(if length a < 24 then 64 + length a else 88) = (if length b < 24 then 64 + length b else 88)"
    using put_bytes_head [of a] put_bytes_head [of b] by metis
  have same: "length a = length b"
  proof (cases "length a < 24")
    case True
    then show ?thesis using both by (simp split: if_splits)
  next
    case False
    then have "\<not> length b < 24" using both by (simp split: if_splits)
    then show ?thesis using put_bytes_second [of a xs] put_bytes_second [of b ys] False len unfolding eq by simp
  qed
  then have "length (put_bytes a) = length (put_bytes b)" by (simp only: put_bytes_length)
  then have "put_bytes a = put_bytes b" "xs = ys" using eq by simp_all
  then show ?thesis using put_bytes_drop [of a] put_bytes_drop [of b] same by metis
qed

lemma put_context_append:
  assumes "put_context m @ xs = put_context m' @ ys" "material_valid m" "material_valid m'"
  shows "om_context m = om_context m' \<and> om_context_present m = om_context_present m' \<and> xs = ys"
proof -
  have head: "put_bytes bs @ us \<noteq> 0xf6 # zs" for bs us zs
  proof
    assume "put_bytes bs @ us = 0xf6 # zs"
    then have "hd (put_bytes bs) = 0xf6" using hd_append2 [OF put_bytes_nonempty, of bs us] by simp
    then have "unat (hd (put_bytes bs)) = 246" by simp
    then show False by (simp add: put_bytes_head split: if_splits)
  qed
  have len: "length (om_context m) \<le> 255" "length (om_context m') \<le> 255"
    using assms(2,3) by (auto simp: material_valid_def valid_bytes_def)
  have present: "om_context_present m = om_context_present m'"
    using assms(1) head [of "om_context m" xs] head [of "om_context m'" ys]
    by (cases "om_context_present m"; cases "om_context_present m'") (simp_all add: put_context_def, metis)
  have empty: "\<not> om_context_present m \<Longrightarrow> om_context m = [] \<and> om_context m' = []"
    using assms(2,3) present by (simp add: material_valid_def)
  then show ?thesis
    using assms(1) put_bytes_append [of "om_context m" xs "om_context m'" ys] len present
    by (cases "om_context_present m") (simp_all add: put_context_def)
qed

text \<open>Different materials have different inputs to the hash of the context.\<close>

lemma context_input_injective:
  assumes eq: "context_input m = context_input m'" and valid: "material_valid m" "material_valid m'"
  shows "m = m'"
proof -
  have len: "length (om_secret m) \<le> 255" "length (om_salt m) \<le> 255" "length (om_sender m) \<le> 255" "length (om_recipient m) \<le> 255"
    "length (om_secret m') \<le> 255" "length (om_salt m') \<le> 255" "length (om_sender m') \<le> 255" "length (om_recipient m') \<le> 255"
    using valid by (auto simp: material_valid_def valid_bytes_def)
  from eq have "put_bytes (om_secret m) @ put_bytes (om_salt m) @ put_bytes (om_sender m) @
      put_bytes (om_recipient m) @ put_context m @ [0x0a, 0x29] = put_bytes (om_secret m') @ put_bytes (om_salt m') @
      put_bytes (om_sender m') @ put_bytes (om_recipient m') @ put_context m' @ [0x0a, 0x29]"
    by (simp add: context_input_def)
  then have "om_secret m = om_secret m'" "om_salt m = om_salt m'" "om_sender m = om_sender m'"
    "om_recipient m = om_recipient m'" "put_context m @ [0x0a, 0x29] = put_context m' @ [0x0a, 0x29]"
    by (auto dest!: put_bytes_append [OF _ len(1,5)] put_bytes_append [OF _ len(2,6)] put_bytes_append [OF _ len(3,7)]
        put_bytes_append [OF _ len(4,8)])
  then show ?thesis using put_context_append [OF _ valid] by simp
qed

section \<open>Nonces\<close>

text \<open>
  The nonce of a message, RFC 8613 section 5.2: the length of the identifier, the identifier padded on the left to
  seven bytes and the partial IV of five, combined with the common IV.
\<close>

definition oscore_nonce :: "oscore_octets \<Rightarrow> oscore_octets \<Rightarrow> oscore_octets \<Rightarrow> oscore_octets" where
  "oscore_nonce common_iv ident piv =
     map2 (XOR) common_iv ([of_nat (length ident)] @ replicate (7 - length ident) 0 @ ident @ piv)"

lemma fold_xor_length [simp]: "length (fold (\<lambda>i. xor_at (k + i) (ident ! i)) is bytes) = length bytes"
  by (induction "is" arbitrary: bytes) (auto simp: xor_at_def)

lemma fold_xor_nth:
  "k + n \<le> length bytes \<Longrightarrow> j < length bytes \<Longrightarrow>
   fold (\<lambda>i. xor_at (k + i) (ident ! i)) [0..<n] bytes ! j =
     (if k \<le> j \<and> j < k + n then bytes ! j XOR ident ! (j - k) else bytes ! j)"
  by (induction n) (auto simp: xor_at_def nth_list_update less_Suc_eq)

lemma space_nonce_take:
  assumes "length common_iv = 13" "length ident \<le> 7" "length piv = 5"
  shows "take 8 (oscore_nonce common_iv ident piv) = space_nonce common_iv ident"
proof (rule nth_equalityI)
  show "length (take 8 (oscore_nonce common_iv ident piv)) = length (space_nonce common_iv ident)"
    using assms unfolding space_nonce_def fold_xor_length by (simp add: oscore_nonce_def xor_at_def)
  fix j assume "j < length (take 8 (oscore_nonce common_iv ident piv))"
  then have j: "j < 8" by simp
  let ?b = "xor_at 0 (of_nat (length ident)) (take 8 common_iv)"
  have "length ?b = 8" using assms by (simp add: xor_at_def)
  then have "space_nonce common_iv ident ! j =
      (if 8 - length ident \<le> j \<and> j < 8 - length ident + length ident then ?b ! j XOR ident ! (j - (8 - length ident)) else ?b ! j)"
    unfolding space_nonce_def using assms(2) j by (intro fold_xor_nth) auto
  moreover have "take 8 (oscore_nonce common_iv ident piv) ! j = oscore_nonce common_iv ident piv ! j" using j by simp
  ultimately show "take 8 (oscore_nonce common_iv ident piv) ! j = space_nonce common_iv ident ! j"
    using assms j by (cases j) (auto simp: oscore_nonce_def xor_at_def nth_append nth_Cons')
qed

lemma keys_lengths:
  assumes "wco_oscore_keys hkdf m = Some k"
  shows "material_valid m" "length (ok_sender k) = 16" "length (ok_recipient k) = 16" "length (ok_common_iv k) = 13"
  using assms by (auto simp: wco_oscore_keys_def derive_def Let_def split: if_splits option.splits)

text \<open>The key and identifier of a direction: what the context sends with and what it receives with.\<close>

definition directions :: "wco_oscore_material \<Rightarrow> wco_oscore_key_set \<Rightarrow> (oscore_octets \<times> oscore_octets) set" where
  "directions m k = {(ok_sender k, om_sender m), (ok_recipient k, om_recipient m)}"

lemma direction_space:
  assumes keys: "wco_oscore_keys hkdf m = Some k" and ident: "wco_oscore_identity sha hkdf m = Some a"
    and dir: "(key, x) \<in> directions m k"
  shows "oscore_space sha key (ok_common_iv k) x \<in> {Some (oi_sender_space a), Some (oi_recipient_space a)}" "length x \<le> 7"
  using assms keys_lengths(1) [OF keys]
  by (auto simp: wco_oscore_identity_def directions_def material_valid_def valid_bytes_def split: option.splits)

text \<open>
  Two directions share a key and a nonce, for some partial IVs, exactly when they have the same input to the hash of the
  space: the low five bytes of a nonce range over everything.
\<close>

lemma take_drop_eqI: "take n xs = take n ys \<Longrightarrow> drop n xs = drop n ys \<Longrightarrow> xs = ys"
  by (metis append_take_drop_id)

lemma nonce_low:
  assumes "length x \<le> 7"
  shows "drop 8 (oscore_nonce iv x piv) = map2 (XOR) (drop 8 iv) piv"
proof -
  have "length ([of_nat (length x)] @ replicate (7 - length x) (0 :: 8 word) @ x) = 8" using assms by simp
  then have "drop 8 (([of_nat (length x)] @ replicate (7 - length x) (0 :: 8 word) @ x) @ piv) = piv"
    by (metis append_eq_conv_conj)
  then show ?thesis unfolding oscore_nonce_def by (simp only: drop_map drop_zip append_assoc)
qed

lemma map2_xor_self: "map2 (XOR) xs xs = replicate (length xs) (0 :: 8 word)"
  by (induction xs) simp_all

lemma space_input_exact:
  assumes "length key = 16" "length key' = 16" "length iv = 13" "length iv' = 13" "length x \<le> 7" "length x' \<le> 7"
  shows "space_input key iv x = space_input key' iv' x' \<longleftrightarrow>
    key = key' \<and> (\<exists>piv piv'. length piv = 5 \<and> length piv' = 5 \<and> oscore_nonce iv x piv = oscore_nonce iv' x' piv')"
proof
  let ?p = "drop 8 iv" and ?p' = "drop 8 iv'"
  assume "space_input key iv x = space_input key' iv' x'"
  then have eq: "key = key'" "space_nonce iv x = space_nonce iv' x'" using assms(1,2) by (auto simp: space_input_def)
  have low: "drop 8 (oscore_nonce jv y (drop 8 jv)) = replicate 5 0" if "length jv = 13" "length y \<le> 7" for jv y
    using map2_xor_self [of "drop 8 jv"] that unfolding nonce_low [OF that(2)] by simp
  have "oscore_nonce iv x ?p = oscore_nonce iv' x' ?p'"
    by (rule take_drop_eqI [of 8])
      (use space_nonce_take [of iv x ?p] space_nonce_take [of iv' x' ?p'] low [of iv x] low [of iv' x'] assms eq in simp_all)
  then show "key = key' \<and> (\<exists>piv piv'. length piv = 5 \<and> length piv' = 5 \<and> oscore_nonce iv x piv = oscore_nonce iv' x' piv')"
    using eq assms(3,4) by (intro conjI exI [of _ ?p] exI [of _ ?p']) simp_all
next
  assume "key = key' \<and> (\<exists>piv piv'. length piv = 5 \<and> length piv' = 5 \<and> oscore_nonce iv x piv = oscore_nonce iv' x' piv')"
  then show "space_input key iv x = space_input key' iv' x'"
    using space_nonce_take [OF assms(3,5)] space_nonce_take [OF assms(4,6)] unfolding space_input_def by metis
qed


section \<open>Separation\<close>

text \<open>The identity of a context and that of its peer, with the two identifiers exchanged, overlap.\<close>

definition material_peer :: "wco_oscore_material \<Rightarrow> wco_oscore_material" where
  "material_peer m = m\<lparr>om_sender := om_recipient m, om_recipient := om_sender m\<rparr>"

lemma derive_peer: "derive hkdf (material_peer m) x iv = derive hkdf m x iv"
  by (simp add: derive_def derive_info_def material_peer_def put_context_def)

lemma identity_peer_overlaps:
  assumes "wco_oscore_identity sha hkdf m = Some a" "wco_oscore_identity sha hkdf (material_peer m) = Some b"
  shows "oi_sender_space a = oi_recipient_space b \<and> oi_recipient_space a = oi_sender_space b \<and> wco_oscore_identity_overlaps a b"
proof -
  have peer: "om_sender (material_peer m) = om_recipient m" "om_recipient (material_peer m) = om_sender m"
    by (simp_all add: material_peer_def)
  have "oi_sender_space a = oi_recipient_space b \<and> oi_recipient_space a = oi_sender_space b"
    using assms unfolding wco_oscore_identity_def wco_oscore_keys_def derive_peer peer
    by (auto split: option.splits if_splits)
  then show ?thesis by (simp add: wco_oscore_identity_overlaps_def)
qed

text \<open>
  C34: For any HKDF and hash: two contexts whose identities do not overlap share no AEAD key and nonce, in any direction
  of either and for any partial IVs of 40 bits; they are different materials, and neither is the peer of the other.
\<close>

theorem oscore_identity_separates:
  assumes "wco_oscore_identity sha hkdf m = Some a" "wco_oscore_identity sha hkdf m' = Some b"
    and "\<not> wco_oscore_identity_overlaps a b"
    and "wco_oscore_keys hkdf m = Some k" "wco_oscore_keys hkdf m' = Some k'"
    and "(key, x) \<in> directions m k" "(key', x') \<in> directions m' k'" "length piv = 5" "length piv' = 5"
  shows "\<not> (key = key' \<and> oscore_nonce (ok_common_iv k) x piv = oscore_nonce (ok_common_iv k') x' piv') \<and>
    m \<noteq> m' \<and> m' \<noteq> material_peer m"
proof (intro conjI notI)
  note k = keys_lengths [OF assms(4)] and k' = keys_lengths [OF assms(5)]
  have len: "length key = 16" "length key' = 16" using assms(6,7) k k' by (auto simp: directions_def)
  note d = direction_space [OF assms(4,1,6)] and d' = direction_space [OF assms(5,2,7)]
  assume "key = key' \<and> oscore_nonce (ok_common_iv k) x piv = oscore_nonce (ok_common_iv k') x' piv'"
  then have "space_input key (ok_common_iv k) x = space_input key' (ok_common_iv k') x'"
    using space_input_exact [OF len k(4) k'(4) d(2) d'(2)] assms(8,9) by blast
  then have "oscore_space sha key (ok_common_iv k) x = oscore_space sha key' (ok_common_iv k') x'" by (simp add: oscore_space_def)
  then show False using d(1) d'(1) assms(3) by (auto simp: wco_oscore_identity_overlaps_def)
next
  assume "m = m'"
  then show False using assms(1-3) by (simp add: wco_oscore_identity_overlaps_def)
next
  assume "m' = material_peer m"
  then show False using assms(1-3) identity_peer_overlaps by blast
qed

text \<open>
  Two contexts with the same keys and common IV and different identifiers, for a hash that keeps the end of its input and
  keys that repeat the first byte of the secret: their nonces differ.
\<close>

definition sample_sha :: "oscore_octets \<Rightarrow> oscore_octets option" where
  "sample_sha input = Some (take 32 (rev input))"

definition sample_hkdf :: "oscore_octets \<Rightarrow> oscore_octets \<Rightarrow> oscore_octets \<Rightarrow> nat \<Rightarrow> oscore_octets option" where
  "sample_hkdf salt secret info n = Some (replicate n (hd secret))"

definition sample_material :: "8 word \<Rightarrow> wco_oscore_material" where
  "sample_material b = \<lparr>om_secret = replicate 16 9, om_salt = [], om_sender = [b], om_recipient = [b + 1], om_context = [],
     om_context_present = False\<rparr>"

definition sample_keys :: "8 word \<Rightarrow> wco_oscore_key_set" where
  "sample_keys b = the (wco_oscore_keys sample_hkdf (sample_material b))"

definition oscore_sample_identity :: "8 word \<Rightarrow> wco_oscore_hashes" where
  "oscore_sample_identity b = the (wco_oscore_identity sample_sha sample_hkdf (sample_material b))"

lemma sample_facts:
  "wco_oscore_identity sample_sha sample_hkdf (sample_material 3) = Some (oscore_sample_identity 3)"
  "wco_oscore_identity sample_sha sample_hkdf (sample_material 5) = Some (oscore_sample_identity 5)"
  "\<not> wco_oscore_identity_overlaps (oscore_sample_identity 3) (oscore_sample_identity 5)"
  "wco_oscore_keys sample_hkdf (sample_material 3) = Some (sample_keys 3)"
  "wco_oscore_keys sample_hkdf (sample_material 5) = Some (sample_keys 5)"
  "ok_sender (sample_keys 3) = ok_sender (sample_keys 5)"
  by code_simp+

theorem oscore_identity_separates_witness:
  "oscore_nonce (ok_common_iv (sample_keys 3)) [3] [0, 0, 0, 0, 1] \<noteq> oscore_nonce (ok_common_iv (sample_keys 5)) [5] [0, 0, 0, 0, 1]"
  using oscore_identity_separates [OF sample_facts(1-5), of "ok_sender (sample_keys 3)" "[3]" "ok_sender (sample_keys 5)" "[5]"
      "[0, 0, 0, 0, 1]" "[0, 0, 0, 0, 1]"] sample_facts(6)
  by (simp add: directions_def sample_material_def)

end
