(* ===== verification/Coap_Command.thy ===== *)
theory Coap_Command
  imports Coap_Body Coap_Identity
begin

text \<open>
  The commands of the OSCORE worker (\<open>command.h\<close>, \<open>command.c\<close>): the closed shapes of the envelope and of the parameters
  of each operation; and the parts of \<open>worker.c\<close> that read the material of a context and the calls on the body from
  them.  \<open>inet_pton\<close> is the parameter \<open>host\<close>: whether a text is a numeric address of either family.
\<close>

datatype wco_operation = WcoOpen | WcoBodyBegin | WcoBodyChunk | WcoBodyEnd | WcoRequest | WcoObserve | WcoCredit | WcoCancel | WcoClose

record wco_command =
  cm_operation :: wco_operation
  cm_id :: string
  cm_timeout_ms :: nat
  cm_parameters :: yyval

section \<open>Fields\<close>

definition command_string :: "yyval option \<Rightarrow> nat \<Rightarrow> nat \<Rightarrow> string option" where
  "command_string v minimum maximum =
     (case v of Some (YStr s) \<Rightarrow> if minimum \<le> length s \<and> length s \<le> maximum \<and> CHR 0x00 \<notin> set s then Some s else None | _ \<Rightarrow> None)"

definition command_identifier :: "yyval option \<Rightarrow> bool" where
  "command_identifier v = (case command_string v 1 64 of Some s \<Rightarrow> wco_body_identifier s | None \<Rightarrow> False)"

definition unsigned_value :: "yyval option \<Rightarrow> u64 \<Rightarrow> u64 \<Rightarrow> bool" where
  "unsigned_value v minimum maximum = (case wco_json_uint v maximum of Some n \<Rightarrow> minimum \<le> n | None \<Rightarrow> False)"

definition command_optional_uint :: "yyval \<Rightarrow> string \<Rightarrow> u64 \<Rightarrow> bool" where
  "command_optional_uint p key maximum \<longleftrightarrow> yy_get p key = None \<or> unsigned_value (yy_get p key) 0 maximum"

definition command_bytes :: "yyval option \<Rightarrow> nat \<Rightarrow> nat \<Rightarrow> bool" where
  "command_bytes v minimum maximum = (case wco_body_base64 v maximum of Some bs \<Rightarrow> minimum \<le> length bs | None \<Rightarrow> False)"

definition command_absolute_path :: "yyval option \<Rightarrow> bool" where
  "command_absolute_path v = (case command_string v 1 4096 of Some s \<Rightarrow> s ! 0 = CHR ''/'' | None \<Rightarrow> False)"

definition numeric_host :: "(string \<Rightarrow> bool) \<Rightarrow> yyval option \<Rightarrow> bool" where
  "numeric_host host v = (case command_string v 1 45 of Some s \<Rightarrow> host s | None \<Rightarrow> False)"

definition command_hex :: "char \<Rightarrow> int" where
  "command_hex c = (let v = of_char c in
     if 48 \<le> v \<and> v \<le> 57 then v - 48 else if 97 \<le> v \<and> v \<le> 102 then v - 97 + 10
     else if 65 \<le> v \<and> v \<le> 70 then v - 65 + 10 else - 1)"

definition hex_byte :: "char \<Rightarrow> char \<Rightarrow> char" where
  "hex_byte h l = char_of (command_hex h * 16 + command_hex l)"

text \<open>The loop of \<open>path\<close>: whether the query has begun, the length of the segment and whether it has only dots.\<close>

fun path_loop :: "string \<Rightarrow> bool \<Rightarrow> bool \<Rightarrow> nat \<Rightarrow> bool \<Rightarrow> (bool \<times> nat \<times> bool) option" where
  "path_loop [] query leading n dots = Some (query, n, dots)"
| "path_loop (c # cs) query leading n dots =
     (if of_char c \<le> (32 :: nat) \<or> of_char c = (127 :: nat) \<or> c = CHR ''#'' then None
      else if \<not> query \<and> (c = CHR ''/'' \<or> c = CHR ''?'') then
        (if dots \<and> 1 \<le> n \<and> n \<le> 2 then None else path_loop cs (c = CHR ''?'') False 0 True)
      else if \<not> query \<and> leading \<and> c = CHR '':'' then None
      else if c = CHR ''%'' then
        (case cs of h # l # rest \<Rightarrow>
           if command_hex h < 0 \<or> command_hex l < 0 then None
           else path_loop rest query leading (if query then n else n + 1) (dots \<and> (query \<or> hex_byte h l = CHR ''.''))
         | _ \<Rightarrow> None)
      else path_loop cs query leading (if query then n else n + 1) (dots \<and> (query \<or> c = CHR ''.'')))"

definition command_path :: "yyval option \<Rightarrow> bool" where
  "command_path v =
     (case command_string v 0 4096 of None \<Rightarrow> False
      | Some s \<Rightarrow>
        if length s \<ge> 2 \<and> s ! 0 = CHR ''/'' \<and> s ! 1 = CHR ''/'' then False
        else (case path_loop s False True 0 True of None \<Rightarrow> False
          | Some (query, n, dots) \<Rightarrow> query \<or> \<not> dots \<or> n = 0 \<or> n > 2))"

section \<open>Parameters\<close>

definition command_security :: "yyval option \<Rightarrow> bool" where
  "command_security v =
     (wco_json_keys v [''mode'', ''master_secret'', ''master_salt'', ''sender_id'', ''recipient_id'', ''id_context'', ''context_store''] \<and>
      (let p = the v in
       yy_size p = 7 \<and> wco_json_string (yy_get p ''mode'') ''oscore'' \<and>
       command_bytes (yy_get p ''master_secret'') 16 32 \<and> command_bytes (yy_get p ''master_salt'') 0 32 \<and>
       (case (wco_body_base64 (yy_get p ''sender_id'') 7, wco_body_base64 (yy_get p ''recipient_id'') 7) of
          (Some sender, Some recipient) \<Rightarrow> length sender \<noteq> length recipient \<or> sender \<noteq> [] \<and> sender \<noteq> recipient
        | _ \<Rightarrow> False) \<and>
       (yy_get p ''id_context'' = Some YNull \<or> command_bytes (yy_get p ''id_context'') 0 255) \<and>
       command_absolute_path (yy_get p ''context_store'')))"

definition open_parameters :: "(string \<Rightarrow> bool) \<Rightarrow> yyval \<Rightarrow> bool" where
  "open_parameters host p \<longleftrightarrow> wco_json_keys (Some p) [''host'', ''port'', ''generation'', ''security''] \<and> yy_size p = 4 \<and>
     numeric_host host (yy_get p ''host'') \<and> unsigned_value (yy_get p ''port'') 1 65535 \<and>
     unsigned_value (yy_get p ''generation'') 1 u64_max \<and> command_security (yy_get p ''security'')"

definition body_parameters :: "wco_operation \<Rightarrow> yyval \<Rightarrow> bool" where
  "body_parameters operation p \<longleftrightarrow> command_identifier (yy_get p ''body_id'') \<and>
     (if operation = WcoBodyBegin then
        wco_json_keys (Some p) [''body_id'', ''length'', ''sha256''] \<and> yy_size p = 3 \<and>
        unsigned_value (yy_get p ''length'') 0 body_max \<and>
        (case command_string (yy_get p ''sha256'') 64 64 of None \<Rightarrow> False
         | Some h \<Rightarrow> list_all (\<lambda>c. CHR ''0'' \<le> c \<and> c \<le> CHR ''9'' \<or> CHR ''a'' \<le> c \<and> c \<le> CHR ''f'') h)
      else if operation = WcoBodyChunk then
        wco_json_keys (Some p) [''body_id'', ''offset'', ''data''] \<and> yy_size p = 3 \<and>
        unsigned_value (yy_get p ''offset'') 0 body_max \<and> command_bytes (yy_get p ''data'') 0 body_chunk_max
      else wco_json_keys (Some p) [''body_id''] \<and> yy_size p = 1)"

definition request_parameters :: "wco_operation \<Rightarrow> yyval \<Rightarrow> bool" where
  "request_parameters operation p \<longleftrightarrow>
     command_path (yy_get p ''path'') \<and> (\<exists>b \<in> {True, False}. yy_get p ''confirmable'' = Some (YBool b)) \<and> command_optional_uint p ''accept'' 65535 \<and>
     (if operation = WcoObserve then
        wco_json_keys (Some p) [''path'', ''confirmable'', ''observation_kind'', ''renew'', ''accept''] \<and>
        (wco_json_string (yy_get p ''observation_kind'') ''property'' \<or> wco_json_string (yy_get p ''observation_kind'') ''event'') \<and>
        (\<exists>b \<in> {True, False}. yy_get p ''renew'' = Some (YBool b))
      else
        wco_json_keys (Some p) [''method'', ''path'', ''confirmable'', ''accept'', ''content_format'', ''body_id''] \<and>
        list_ex (wco_json_string (yy_get p ''method'')) [''GET'', ''POST'', ''PUT'', ''DELETE''] \<and>
        command_optional_uint p ''content_format'' 65535 \<and> (yy_get p ''body_id'' = None \<or> command_identifier (yy_get p ''body_id'')))"

definition control_parameters :: "wco_operation \<Rightarrow> yyval \<Rightarrow> bool" where
  "control_parameters operation p \<longleftrightarrow>
     (if operation = WcoClose then yy_is_obj p \<and> yy_size p = 0
      else if \<not> unsigned_value (yy_get p ''generation'') 1 u64_max then False
      else if operation = WcoCredit then
        wco_json_keys (Some p) [''generation'', ''ack_seq''] \<and> yy_size p = 2 \<and> unsigned_value (yy_get p ''ack_seq'') 0 u64_max
      else wco_json_keys (Some p) [''subscription_id'', ''generation''] \<and> yy_size p = 2 \<and>
        command_identifier (yy_get p ''subscription_id''))"

definition wco_operation_names :: "(string \<times> wco_operation) list" where
  "wco_operation_names = [(''open'', WcoOpen), (''body_begin'', WcoBodyBegin), (''body_chunk'', WcoBodyChunk),
     (''body_end'', WcoBodyEnd), (''request'', WcoRequest), (''observe'', WcoObserve), (''credit'', WcoCredit),
     (''cancel'', WcoCancel), (''close'', WcoClose)]"

definition parameters_valid :: "(string \<Rightarrow> bool) \<Rightarrow> wco_operation \<Rightarrow> yyval \<Rightarrow> bool" where
  "parameters_valid host operation p =
     (if operation = WcoOpen then open_parameters host p
      else if operation \<in> {WcoBodyBegin, WcoBodyChunk, WcoBodyEnd} then body_parameters operation p
      else if operation \<in> {WcoRequest, WcoObserve} then request_parameters operation p
      else control_parameters operation p)"

definition wco_command_decode :: "(string \<Rightarrow> bool) \<Rightarrow> yyval option \<Rightarrow> wco_command option" where
  "wco_command_decode host v =
     (if \<not> wco_json_keys v [''version'', ''id'', ''operation'', ''parameters'', ''timeout_ms''] then None
      else let root = the v in
        if yy_size root \<noteq> 5 \<or> \<not> unsigned_value (yy_get root ''version'') 1 1 \<or> \<not> command_identifier (yy_get root ''id'') then None
        else case wco_json_uint (yy_get root ''timeout_ms'') 60000 of None \<Rightarrow> None
          | Some timeout \<Rightarrow>
            if timeout = 0 then None
            else case find (\<lambda>e. wco_json_string (yy_get root ''operation'') (fst e)) wco_operation_names of None \<Rightarrow> None
              | Some (name, operation) \<Rightarrow>
                (case yy_get root ''parameters'' of
                   Some (YObj m) \<Rightarrow>
                     if parameters_valid host operation (YObj m)
                     then Some \<lparr>cm_operation = operation, cm_id = ipc_text (yy_get root ''id''), cm_timeout_ms = timeout,
                       cm_parameters = YObj m\<rparr>
                     else None
                 | _ \<Rightarrow> None))"

section \<open>Paths\<close>

text \<open>The segments of a path with their percent escapes decoded, up to a query.\<close>

fun path_segments :: "string \<Rightarrow> string \<Rightarrow> string list" where
  "path_segments segment [] = [segment]"
| "path_segments segment (c # cs) =
     (if c = CHR ''?'' then [segment]
      else if c = CHR ''/'' then segment # path_segments [] cs
      else if c = CHR ''%'' then
        (case cs of h # l # rest \<Rightarrow> path_segments (segment @ [hex_byte h l]) rest | _ \<Rightarrow> [segment @ cs])
      else path_segments (segment @ [c]) cs)"

definition dot_segment :: "string \<Rightarrow> bool" where
  "dot_segment s \<longleftrightarrow> s = ''.'' \<or> s = ''..''"

lemma dot_segment_iff: "dot_segment s \<longleftrightarrow> list_all (\<lambda>c. c = CHR ''.'') s \<and> 1 \<le> length s \<and> length s \<le> 2"
proof (cases s)
  case (Cons a as)
  then show ?thesis by (cases as) (auto simp: dot_segment_def)
qed (simp add: dot_segment_def)

lemma path_loop_segments:
  "path_loop cs False leading (length segment) (list_all (\<lambda>c. c = CHR ''.'') segment) = Some (query, n, dots) \<Longrightarrow>
   query \<or> \<not> dots \<or> n = 0 \<or> n > 2 \<Longrightarrow> list_all (\<lambda>s. \<not> dot_segment s) (path_segments segment cs)"
proof (induction segment cs arbitrary: leading rule: path_segments.induct)
  case (1 segment)
  then show ?case by (auto simp: dot_segment_iff)
next
  case (2 segment c cs)
  have all: "list_all (\<lambda>c. c = CHR ''.'') (segment @ [x]) \<longleftrightarrow> list_all (\<lambda>c. c = CHR ''.'') segment \<and> x = CHR ''.''" for x by auto
  have nil: "list_all (\<lambda>c. c = CHR ''.'') []" by simp
  consider "c = CHR ''?''" | "c = CHR ''/''" | "c = CHR ''%''" | "c \<noteq> CHR ''?''" "c \<noteq> CHR ''/''" "c \<noteq> CHR ''%''" by blast
  then show ?case
  proof cases
    case 1
    then show ?thesis using "2.prems" by (auto simp: dot_segment_iff split: if_splits)
  next
    case 2
    then have "path_loop cs False False (length []) (list_all (\<lambda>c. c = CHR ''.'') []) = Some (query, n, dots)" "\<not> dot_segment segment"
      using "2.prems"(1) by (auto simp: dot_segment_iff split: if_splits)
    then show ?thesis using "2.IH"(1) [OF _ 2 _ "2.prems"(2)] 2 by simp
  next
    case 3
    then obtain h l rest where cs: "cs = h # l # rest"
      and loop: "path_loop rest False leading (length (segment @ [hex_byte h l])) (list_all (\<lambda>c. c = CHR ''.'') (segment @ [hex_byte h l])) =
        Some (query, n, dots)"
      using "2.prems"(1) unfolding all by (auto split: if_splits list.splits)
    then show ?thesis using "2.IH"(2) [OF _ _ 3 cs refl loop "2.prems"(2)] 3 by simp
  next
    case 4
    then have "path_loop cs False leading (length (segment @ [c])) (list_all (\<lambda>c. c = CHR ''.'') (segment @ [c])) = Some (query, n, dots)"
      using "2.prems"(1) unfolding all by (auto split: if_splits)
    then show ?thesis using "2.IH"(3) [OF 4 _ "2.prems"(2)] 4 by simp
  qed
qed

text \<open>An accepted path has no segment that reads as the current or the parent directory, escaped or not.\<close>

lemma command_path_safe:
  assumes "command_path (Some (YStr s))"
  shows "list_all (\<lambda>s. \<not> dot_segment s) (path_segments [] s)"
proof -
  obtain query n dots where "path_loop s False True 0 True = Some (query, n, dots)" "query \<or> \<not> dots \<or> n = 0 \<or> n > 2"
    using assms by (auto simp: command_path_def command_string_def split: if_splits option.splits)
  then show ?thesis using path_loop_segments [of s True "[]" query n dots] by simp
qed

section \<open>The worker\<close>

text \<open>\<open>decode_secret\<close> and the material that \<open>open_store\<close> makes of it; the bytes become words of eight bits.\<close>

definition octets_of :: "bytes \<Rightarrow> oscore_octets" where
  "octets_of bs = map of_char bs"

definition decode_secret :: "yyval option \<Rightarrow> wco_oscore_material option" where
  "decode_secret v =
     (let get = (\<lambda>k. case v of Some p \<Rightarrow> yy_get p k | None \<Rightarrow> None) in
      case (wco_body_base64 (get ''master_secret'') 32, wco_body_base64 (get ''master_salt'') 32,
            wco_body_base64 (get ''sender_id'') 7, wco_body_base64 (get ''recipient_id'') 7) of
        (Some secret, Some salt, Some sender, Some recipient) \<Rightarrow>
          let material = (\<lambda>context present. \<lparr>om_secret = octets_of secret, om_salt = octets_of salt, om_sender = octets_of sender,
            om_recipient = octets_of recipient, om_context = octets_of context, om_context_present = present\<rparr>) in
          if get ''id_context'' = Some YNull then Some (material [] False)
          else (case wco_body_base64 (get ''id_context'') 255 of None \<Rightarrow> None | Some context \<Rightarrow> Some (material context True))
      | _ \<Rightarrow> None)"

definition worker_string :: "yyval \<Rightarrow> string \<Rightarrow> string option" where
  "worker_string p key = (case yy_get p key of Some (YStr s) \<Rightarrow> if CHR 0x00 \<in> set s then None else Some s | _ \<Rightarrow> None)"

text \<open>\<open>body_command\<close> up to its reply.\<close>

definition body_command :: "(bytes \<Rightarrow> bytes) \<Rightarrow> bool \<Rightarrow> wco_command \<Rightarrow> wco_body \<Rightarrow> bool \<times> wco_body" where
  "body_command sha available c b =
     (let p = cm_parameters c in
      case worker_string p ''body_id'' of None \<Rightarrow> (False, b)
      | Some ident \<Rightarrow>
        if cm_operation c = WcoBodyBegin then
          (case (wco_json_uint (yy_get p ''length'') body_max, worker_string p ''sha256'') of
             (Some n, Some h) \<Rightarrow> wco_body_begin available ident n h b
           | _ \<Rightarrow> (False, b))
        else if cm_operation c = WcoBodyChunk then
          (case wco_json_uint (yy_get p ''offset'') body_max of
             Some offset \<Rightarrow> wco_body_chunk ident offset (yy_get p ''data'') b
           | None \<Rightarrow> (False, b))
        else wco_body_end sha available ident b)"

section \<open>What an accepted command is\<close>

lemma octets_of_eq [simp]: "octets_of a = octets_of b \<longleftrightarrow> a = b" "length (octets_of a) = length a" "octets_of a = [] \<longleftrightarrow> a = []"
proof -
  have "inj (of_char :: char \<Rightarrow> 8 word)"
  proof (rule injI)
    fix c d :: char assume "(of_char c :: 8 word) = of_char d"
    then have "unat (of_char c :: 8 word) = unat (of_char d :: 8 word)" by simp
    moreover have "unat (of_char e :: 8 word) = of_char e" for e :: char
    proof -
      have "(of_char e :: 8 word) = of_nat (of_char e)" by (rule of_nat_of_char [symmetric])
      then have "unat (of_char e :: 8 word) = unat (of_nat (of_char e) :: 8 word)" by (rule arg_cong)
      also have "\<dots> = of_char e" by (rule octet_length) (simp add: less_Suc_eq_le [symmetric])
      finally show ?thesis .
    qed
    ultimately show "c = d" by simp
  qed
  then show "octets_of a = octets_of b \<longleftrightarrow> a = b" by (simp add: octets_of_def inj_map_eq_map)
qed (simp_all add: octets_of_def)

lemma command_bytes_Some:
  "command_bytes v minimum maximum \<Longrightarrow> \<exists>bs. wco_body_base64 v maximum = Some bs \<and> minimum \<le> length bs \<and> length bs \<le> maximum"
  using body_base64_capacity(1) by (auto simp: command_bytes_def split: option.splits)

lemma security_material:
  assumes "command_security v"
  shows "\<exists>m. decode_secret v = Some m \<and> material_valid m"
proof -
  obtain p where v: "v = Some p" using assms by (cases v) (auto simp: command_security_def wco_json_keys_def)
  obtain secret salt where ms: "wco_body_base64 (yy_get p ''master_secret'') 32 = Some secret" "16 \<le> length secret" "length secret \<le> 32"
    and sa: "wco_body_base64 (yy_get p ''master_salt'') 32 = Some salt" "length salt \<le> 32"
    using assms v command_bytes_Some [of "yy_get p ''master_secret''" 16 32] command_bytes_Some [of "yy_get p ''master_salt''" 0 32]
    by (auto simp: command_security_def Let_def)
  obtain sender recipient where se: "wco_body_base64 (yy_get p ''sender_id'') 7 = Some sender"
    and re: "wco_body_base64 (yy_get p ''recipient_id'') 7 = Some recipient"
    and ne: "length sender \<noteq> length recipient \<or> sender \<noteq> [] \<and> sender \<noteq> recipient"
    using assms v by (auto simp: command_security_def Let_def split: option.splits)
  note len = body_base64_capacity(1) [OF se] body_base64_capacity(1) [OF re]
  show ?thesis
  proof (cases "yy_get p ''id_context'' = Some YNull")
    case True
    then show ?thesis using ms sa se re ne len
      by (simp add: decode_secret_def v material_valid_def valid_bytes_def octets_of_eq(3) [THEN iffD2])
  next
    case False
    then obtain c where "wco_body_base64 (yy_get p ''id_context'') 255 = Some c" "length c \<le> 255"
      using assms v command_bytes_Some [of "yy_get p ''id_context''" 0 255] by (auto simp: command_security_def Let_def)
    then show ?thesis using False ms sa se re ne len by (simp add: decode_secret_def v material_valid_def valid_bytes_def)
  qed
qed

lemma body_hash_hex:
  "length h = 2 * n \<Longrightarrow> list_all (\<lambda>c. CHR ''0'' \<le> c \<and> c \<le> CHR ''9'' \<or> CHR ''a'' \<le> c \<and> c \<le> CHR ''f'') h \<Longrightarrow> \<exists>g. body_hash h = Some g"
proof (induction h arbitrary: n rule: body_hash.induct)
  case (2 x y rest)
  have hex: "CHR ''0'' \<le> c \<and> c \<le> CHR ''9'' \<or> CHR ''a'' \<le> c \<and> c \<le> CHR ''f'' \<Longrightarrow> \<not> body_hex c < 0" for c
    unfolding body_hex_def of_nat_of_char [where 'a = int, symmetric] by (auto simp: Let_def less_eq_char_def)
  then have digits: "\<not> body_hex x < 0" "\<not> body_hex y < 0" using "2.prems"(2) by auto
  moreover have "\<exists>g. body_hash rest = Some g" using digits "2.IH" [of "n - 1"] "2.prems" by auto
  ultimately show ?case by auto
qed auto

lemma command_string_Some: "command_string v minimum maximum = Some s \<Longrightarrow> v = Some (YStr s) \<and> minimum \<le> length s \<and> length s \<le> maximum \<and> CHR 0x00 \<notin> set s"
  by (auto simp: command_string_def split: option.splits yyval.splits if_splits)

lemma command_identifier_Some: "command_identifier v \<Longrightarrow> \<exists>s. v = Some (YStr s) \<and> wco_body_identifier s \<and> CHR 0x00 \<notin> set s"
  by (auto simp: command_identifier_def dest: command_string_Some split: option.splits)

lemma begin_parameters:
  assumes "body_parameters WcoBodyBegin p"
  shows "\<exists>ident n h. worker_string p ''body_id'' = Some ident \<and> wco_json_uint (yy_get p ''length'') body_max = Some n \<and>
    worker_string p ''sha256'' = Some h \<and> fst (wco_body_begin True ident n h wco_body_init)"
proof -
  obtain ident where ident: "yy_get p ''body_id'' = Some (YStr ident)" "wco_body_identifier ident" "CHR 0x00 \<notin> set ident"
    using assms command_identifier_Some by (force simp: body_parameters_def)
  obtain n where n: "wco_json_uint (yy_get p ''length'') body_max = Some n"
    using assms by (auto simp: body_parameters_def unsigned_value_def split: option.splits)
  obtain h where h: "yy_get p ''sha256'' = Some (YStr h)" "length h = 64" "CHR 0x00 \<notin> set h"
      "list_all (\<lambda>c. CHR ''0'' \<le> c \<and> c \<le> CHR ''9'' \<or> CHR ''a'' \<le> c \<and> c \<le> CHR ''f'') h"
    using assms by (auto simp: body_parameters_def dest!: command_string_Some split: option.splits)
  obtain g where "body_hash h = Some g" using body_hash_hex [of h 32] h by auto
  moreover have "n \<le> body_max"
    using n by (auto simp: wco_json_uint_def uint_loop_bounded bounded_decimal_exact Let_def split: option.splits yyval.splits if_splits)
  ultimately show ?thesis
    using ident n h by (simp add: worker_string_def wco_body_begin_def wco_body_init_def)
qed

lemma command_decode_Some:
  assumes "wco_command_decode host v = Some c"
  shows "wco_body_identifier (cm_id c)" "1 \<le> cm_timeout_ms c" "cm_timeout_ms c \<le> 60000" "parameters_valid host (cm_operation c) (cm_parameters c)"
proof -
  obtain root where v: "v = Some root" using assms by (cases v) (auto simp: wco_command_decode_def wco_json_keys_def)
  have ident: "command_identifier (yy_get root ''id'')" "cm_id c = ipc_text (yy_get root ''id'')"
    and time: "wco_json_uint (yy_get root ''timeout_ms'') 60000 = Some (cm_timeout_ms c)" "cm_timeout_ms c \<noteq> 0"
    and valid: "parameters_valid host (cm_operation c) (cm_parameters c)"
    using assms by (auto simp: v wco_command_decode_def Let_def split: if_splits option.splits yyval.splits)
  show "wco_body_identifier (cm_id c)" using command_identifier_Some [OF ident(1)] ident(2) by (auto simp: ipc_text_def)
  show "1 \<le> cm_timeout_ms c" using time(2) by simp
  show "cm_timeout_ms c \<le> 60000"
    using time(1) by (auto simp: wco_json_uint_def uint_loop_bounded bounded_decimal_exact Let_def split: option.splits yyval.splits if_splits)
  show "parameters_valid host (cm_operation c) (cm_parameters c)" by (rule valid)
qed

lemma request_path:
  assumes "request_parameters operation p"
  shows "\<exists>s. yy_get p ''path'' = Some (YStr s) \<and> list_all (\<lambda>s. \<not> dot_segment s) (path_segments [] s)"
proof -
  have path: "command_path (yy_get p ''path'')" using assms by (simp add: request_parameters_def)
  then obtain s where s: "yy_get p ''path'' = Some (YStr s)"
    by (auto simp: command_path_def dest!: command_string_Some split: option.splits)
  show ?thesis using command_path_safe [of s] path s by auto
qed


end
