(* ===== verification/Spec2Isabelle.thy ===== *)
theory Spec2Isabelle
  imports Ble_Frame Ble_Bytes Ble_Output Ble_Credit Ble_Report_Queue Ble_Errors Ble_Objects Ble_Pages Ble_Reports
    Ble_Operation Ble_Power Thread_Protocol Thread_Output Thread_Flow Thread_Streams Thread_Dataset
    Thread_Commissioning Matter_Value Matter_Interaction Matter_Commissioning Matter_Subscription Matter_Wire Matter_Channel Matter_Credit Matter_Host
    Opcua_Sequence Opcua_Owner Opcua_Session Coap_Credit Coap_Command
begin

text \<open>
  \<^bold>\<open>The program.\<close>  wotex connects Web-of-Things descriptions to devices.  Its packages are written in
  Elixir; the protocol stacks that need native code run as separate processes, the \<^emph>\<open>native hosts\<close>, and
  this development verifies the protocol core of these hosts.  A host talks to one owner, a process of the
  Erlang VM, over a pair of descriptors: the owner writes one JSON document per line (a numbered
  request, an acknowledgement, a control line), the host answers with responses, and with reports
  of subscriptions.  Every host bounds what it reads before it builds it, admits a request only when its
  fields are exactly the declared ones, never runs the same request number twice, queues reports within the
  credit the owner has granted, and writes frames in order through a bounded output.

  \<^bold>\<open>Theories and sources.\<close>  Paths are below \<open>src/packages\<close>.

  \<^item> \<open>wotex-ble/priv/bluez/native\<close>, the Bluetooth host over BlueZ: \<open>Ble_Frame\<close> (\<open>frame.hpp\<close>: the bounded
    parser callbacks, request shape, request numbers, line assembly), \<open>Ble_Bytes\<close> (\<open>bytes.hpp\<close>: canonical
    base64 envelopes), \<open>Ble_Output\<close> (\<open>output.hpp\<close>), \<open>Ble_Credit\<close> (\<open>credit.hpp\<close>), \<open>Ble_Report_Queue\<close>
    (\<open>report_queue.hpp\<close>), \<open>Ble_Errors\<close> (\<open>error_value.hpp\<close>, \<open>failure.hpp\<close>), \<open>Ble_Objects\<close> (\<open>objects.hpp\<close>,
    \<open>address.hpp\<close>, \<open>notify_value.hpp\<close>), \<open>Ble_Pages\<close> (\<open>pages.hpp\<close>) and \<open>Ble_Reports\<close> (\<open>reports.hpp\<close>), which
    composes encoding, credits, queue and output.
  \<^item> \<open>wotex-ble/priv/corebluetooth/native\<close>: \<open>Ble_Operation\<close> (\<open>operation.hpp\<close>, the state machine of one GATT
    operation) and \<open>Ble_Power\<close> (\<open>power.hpp\<close>).
  \<^item> \<open>wotex-thread/priv/openthread\<close>: \<open>Thread_Protocol\<close>, \<open>Thread_Output\<close>, \<open>Thread_Flow\<close>, \<open>Thread_Streams\<close>,
    \<open>Thread_Dataset\<close> for the headers of the same names, and \<open>Thread_Commissioning\<close> for
    \<open>commissioning.hpp\<close>, \<open>joiner.hpp\<close> and \<open>management.hpp\<close>.
  \<^item> \<open>wotex-matter/native\<close>: \<open>Matter_Value\<close> (\<open>value.hpp/.cpp\<close>), \<open>Matter_Interaction\<close> (\<open>interaction.hpp/.cpp\<close>),
    \<open>Matter_Commissioning\<close> (\<open>commissioning.hpp/.cpp\<close>), \<open>Matter_Subscription\<close> and \<open>Matter_Credit\<close>
    (\<open>subscription.hpp/.cpp\<close>), and for \<open>protocol.hpp/.cpp\<close>: \<open>Matter_Wire\<close> (parsers and builders of the wire
    format), \<open>Matter_Channel\<close> (\<open>BoundedOutput\<close>, \<open>BoundedInput\<close>, \<open>ReadLineBounded\<close>) and \<open>Matter_Host\<close>
    (\<open>HostProtocol\<close>).
  \<^item> \<open>wotex-opcua/priv/native\<close>, the OPC UA host, in C: \<open>Opcua_Ipc\<close> (\<open>json_codec.c\<close>, \<open>ipc.c\<close>: lines, bounds of documents,
    requests), \<open>Opcua_Output\<close> (\<open>output.c\<close>), \<open>Opcua_Sequence\<close> (\<open>publish_sequence.c\<close>: the notification sequence of a
    subscription and the recovery of gaps) and \<open>Opcua_Owner\<close> (\<open>owner.c\<close> and the loop of \<open>main.c\<close>: the 64 operation slots, admission,
    dispatch, completion, cancellation, reports and shutdown), which composes input and output;
    \<open>Opcua_Subscription\<close> (\<open>subscription_rules.c\<close>, and of \<open>session_subscription.c\<close> and \<open>session_open.c\<close> the subscribe and
    unsubscribe operations), \<open>Opcua_Publish\<close> (publish and republish responses, the queue of reports, publish requests),
    \<open>Opcua_Reports\<close> (what every publishing call keeps) and \<open>Opcua_Session\<close> (the calls of the owner and the SDK in any order; a session
    steps and reports when no operation is queued, as in a tick of the owner; the creations, deletions and reports recorded
    in the state are read by no operation).
  \<^item> \<open>wotex-coap/native/oscore\<close>, the CoAP worker with OSCORE, in C: \<open>Coap_Json\<close> (\<open>json.c\<close>, \<open>frame.c\<close>), \<open>Coap_Credit\<close>
    (\<open>credit.c\<close>, \<open>observation.c\<close>), \<open>Coap_Body\<close> (\<open>body.c\<close>: base64 envelopes and the staged request body), \<open>Coap_Identity\<close>
    (\<open>identity.c\<close>: encoding of the security material and the persisted hashes) and \<open>Coap_Command\<close> (\<open>command.c\<close>, and of
    \<open>worker.c\<close> the reading of the material and of the calls on the body).

  Shared theories: \<open>Wotex_Prelude\<close> (unsigned arithmetic, ordered maps, hexadecimal and decimal text),
  \<open>Wotex_Json\<close> (the values of the JSON libraries), \<open>Wotex_Document\<close> (what a host sees of a document while it is
  parsed), \<open>Wotex_Channel\<close> (contracts of machines driven by actions, output channels, credit windows), \<open>Wotex_Ring\<close> (ring buffers),
  \<open>Wotex_Yyjson\<close> (the values of the C hosts' JSON library).

  \<^bold>\<open>State and operations.\<close>  A class or a struct is a record with a field per member, an enumeration or a
  variant a datatype, \<open>std::map\<close> a sorted association list, a queue a list.  Each method is one definition that
  returns its result and the new state; a thrown exception, a failed status and a silent return are values
  (\<open>outcome\<close>, \<open>option\<close>, or an own datatype), and so is undefined behaviour (reading an absent optional, a missing
  map entry or past an array), whose absence is then proved.  C and C++ integers are \<open>nat\<close> with the wrap-around of
  \<open>add64\<close> and \<open>sub64\<close>, \<open>int\<close> with range predicates, or words where the width matters; component
  invariants show that no counter wraps.  Names are those of the source, with the suffixes Isabelle needs.

  \<^bold>\<open>Parameters.\<close>  Code that is not part of the repository is an argument of the definitions: the JSON parsers
  and serializers, the system's descriptors (the answer of every \<open>write\<close>), clocks, random sources, the SDKs of
  BlueZ, CoreBluetooth, OpenThread, Matter and OPC UA, hash functions.  Theorems hold for all of their answers;
  where a property needs a documented law of such code (a write never takes more bytes than offered) it is a
  hypothesis, discharged at a concrete instance by the witness.  Callbacks between components
  (transmit functions, encoders, sinks) are arbitrary functions.

  \<^bold>\<open>Interfaces.\<close>  \<open>finite_map\<close> states the laws of an ordered map (\<open>omap_map\<close>).  \<open>action_machine\<close> lifts the invariant
  of one step to all runs (\<open>power\<close>, \<open>ble_reports\<close>, \<open>thread_comm\<close>, \<open>matter_output\<close>, \<open>matter_session\<close>,
  \<open>opcua_sequence\<close>, \<open>opcua_output\<close>, \<open>opcua_owner\<close>, \<open>opcua_session\<close>, \<open>coap_credit\<close>, \<open>coap_body\<close>);
  \<open>byte_channel\<close> extends it by what a reader of a channel relies on: what was written followed by what is
  owed is what was accepted (\<open>ble_out\<close>, \<open>thread_out\<close>, and \<open>matter_buffer\<close> for reports); \<open>credit_window\<close> extends it by
  the numbering and the bounds of unacknowledged reports (\<open>ble_credits\<close>, \<open>thread_flow\<close>, \<open>matter_credit\<close>);
  \<open>document_guard\<close> is the contract of parser callbacks that bound a document (\<open>thread_guard\<close>,
  \<open>matter_guard\<close>).  Each is interpreted on the definitions of the components that provide it, and the properties use
  the interpreted facts.

  \<^bold>\<open>What is shown.\<close>
  \<^item> Input: line assembly does not depend on the cut of the input into reads; documents are accepted exactly
    within their bounds; requests are read exactly when admitted, with no undefined behaviour on any document;
    request numbers strictly increase.
  \<^item> Values: byte envelopes, elements and datasets round-trip or agree with a reference decoder;
    conversion yields well-typed elements only and reaches all of them.
  \<^item> Flow control: acknowledgements are accepted exactly when right and release exactly the acknowledged prefix;
    queues drain in order per stream without loss; windows and counters are bounded over any sequence of calls.
  \<^item> Output: what is written is the accepted frames in order, for any answers of the descriptor and any
    interleaving with the writer thread; the reservations are respected.
  \<^item> State machines: a CoreBluetooth operation refines an abstract protocol log, gives one result and ends at its
    deadline; a Matter session calls the controller at most once per request and only with admitted requests;
    commissioning attempts, recoveries and management commands end within their bounds.
  \<^item> OPC UA: notifications are classified exactly against the last 1024 recorded ones, every admitted request is
    answered at most once, the output is the accepted frames in order within the owner's credit;
    the reports of a subscription come in the order of its messages without a gap, none is lost while it lives, and every
    subscription created on the server is deleted or still owned.
  \<^item> CoAP: reports are numbered within a window of eight, a body is exposed only as announced, commands have exactly the declared
    shapes, contexts with different material have different inputs to their hashes.

  \<^bold>\<open>Loops and bounds.\<close>  Loops of the source are structural recursion over their input, or
  \<open>function\<close>s with a measure.  Two loops of the OPC UA owner count turns: the search for a free request handle has 65, one more
  than there are slots, and always finds one (\<open>next_handle_fresh\<close>); the dispatch of queued operations has 64, one per slot, after which none
  is queued or the owner has finished (\<open>dispatch_queued_done\<close>).  The flush loops end because the descriptor's answers either consume a byte or stop the
  loop (interrupted writes are bounded by the host's own budget where it has one, and otherwise given
  as a finite list of answers).

  \<^bold>\<open>Simplifications.\<close>  A Matter line runs in one step up to its next controller call; reports and states of
  subscriptions are delivered between such steps, as the host's single thread does; the runs considered have no
  lines while the controller is opening, and answers fit their calls, as the controller interface
  promises.  Allocation does not fail except where the code tests for it.  Re-entrant calls of the power observer
  from inside system functions are not considered.

  \<^bold>\<open>Not modelled.\<close>  The D-Bus glue of the BlueZ host (\<open>bus.hpp\<close>, \<open>host.hpp\<close>, \<open>agent.hpp\<close>, \<open>notifications.hpp\<close>,
  \<open>pairing.hpp\<close>, \<open>procedures.hpp\<close>, \<open>service.hpp\<close>, \<open>discovery.hpp\<close>, the iterators of \<open>objects.hpp\<close>), the CoreBluetooth
  driver and host loop, the OpenThread host loop and its SDK wrapper, the Matter controller over the
  CHIP SDK, its storage and its bridge: calls into libraries that are not in the repository, with little state of
  their own.  So are, in C, the OPC UA session over open62541 apart from its
  subscriptions (reads, writes, calls, browsing, opening, the value codec), and the CoAP worker's exchanges over libcoap and its registry file. Build commands, process
  custody, benchmarks, tests, vendored libraries and the Elixir packages are outside the native protocol core.
\<close>

end
